(* ===== verification/Prelude.thy ===== *)
theory Prelude
  imports Main "HOL-Library.Word"
begin

text \<open>
  Shared ground of the development: the machine types of the C sources, the rule collections the
  component proofs draw on, and generic facts about lists used as C arrays.

  A C buffer is a list of bytes. \<open>blit\<close> is \<open>memcpy\<close> into a buffer at an offset; reading back is
  \<open>take\<close> after \<open>drop\<close>.
\<close>

unbundle bit_operations_syntax

type_synonym byte = "8 word"
type_synonym u16 = "16 word"
type_synonym u32 = "32 word"
type_synonym u64 = "64 word"
type_synonym address = "64 word"

named_theorems layout "where a field of an encoded buffer starts and what it holds"
named_theorems preserves "an operation keeps the invariant of its component"

text \<open>\<open>memory.h\<close>: how a dynamic array grows.\<close>

definition GROW_CAPACITY :: "nat \<Rightarrow> nat" where
  "GROW_CAPACITY capacity = (if capacity < 8 then 8 else capacity * 2)"

section \<open>Buffers\<close>

text \<open>\<open>memcpy(buf + off, src, n)\<close> for a source of \<open>n\<close> bytes that fits.\<close>

definition blit :: "'a list \<Rightarrow> nat \<Rightarrow> 'a list \<Rightarrow> 'a list" where
  "blit buf off src = take off buf @ src @ drop (off + length src) buf"

text \<open>\<open>n\<close> bytes read at \<open>buf + off\<close>.\<close>

definition segment :: "'a list \<Rightarrow> nat \<Rightarrow> nat \<Rightarrow> 'a list" where
  "segment buf off n = take n (drop off buf)"

lemma length_blit [simp]: "off + length src \<le> length buf \<Longrightarrow> length (blit buf off src) = length buf"
  by (simp add: blit_def)

lemma length_segment [simp]: "off + n \<le> length buf \<Longrightarrow> length (segment buf off n) = n"
  by (simp add: segment_def)

lemma blit_Nil [simp]: "blit buf off [] = buf"
  by (simp add: blit_def)

lemma segment_0_all [simp]: "segment buf 0 (length buf) = buf"
  by (simp add: segment_def)

lemma nth_blit:
  assumes "off + length src \<le> length buf" "i < length buf"
  shows "blit buf off src ! i = (if off \<le> i \<and> i < off + length src then src ! (i - off) else buf ! i)"
  using assms by (auto simp: blit_def nth_append)

lemma segment_blit_same:
  assumes "off + length src \<le> length buf" "n = length src"
  shows "segment (blit buf off src) off n = src"
  using assms by (simp add: blit_def segment_def)

lemma nth_segment [simp]: "i < n \<Longrightarrow> off + i < length buf \<Longrightarrow> segment buf off n ! i = buf ! (off + i)"
  by (simp add: segment_def)

lemma segment_eqI:
  assumes "off + n \<le> length buf" "off' + n \<le> length buf'"
    and "\<And>i. i < n \<Longrightarrow> buf ! (off + i) = buf' ! (off' + i)"
  shows "segment buf off n = segment buf' off' n"
  using assms by (auto intro!: nth_equalityI)

lemma segment_blit_other:
  assumes "off + length src \<le> length buf" "off' + n \<le> length buf"
    and "off' + n \<le> off \<or> off + length src \<le> off'"
  shows "segment (blit buf off src) off' n = segment buf off' n"
  using assms by (intro segment_eqI) (auto simp: nth_blit)

lemma blit_snoc:
  assumes "off + length xs < length buf"
  shows "blit buf off (xs @ [x]) = (blit buf off xs)[off + length xs := x]"
proof (rule nth_equalityI)
  show "length (blit buf off (xs @ [x])) = length ((blit buf off xs)[off + length xs := x])"
    using assms by simp
  fix i assume "i < length (blit buf off (xs @ [x]))"
  then have "i < length buf" using assms by simp
  then show "blit buf off (xs @ [x]) ! i = (blit buf off xs)[off + length xs := x] ! i"
    using assms by (auto simp: nth_blit nth_list_update nth_append)
qed

lemma segment_append_left: "off + n \<le> length xs \<Longrightarrow> segment (xs @ ys) off n = segment xs off n"
  by (simp add: segment_def)

lemma segment_append_right:
  "length xs \<le> off \<Longrightarrow> segment (xs @ ys) off n = segment ys (off - length xs) n"
  by (simp add: segment_def)

lemma segment_append_here: "off = length xs \<Longrightarrow> n = length ys \<Longrightarrow> segment (xs @ ys @ zs) off n = ys"
  by (simp add: segment_def)

lemma blit_append_here:
  assumes "length ys = length src"
  shows "blit (xs @ ys @ zs) (length xs) src = xs @ src @ zs"
  using assms by (simp add: blit_def)

lemma blit_fresh:
  assumes "length src \<le> n" "off = length xs"
  shows "blit (xs @ replicate n z) off src = (xs @ src) @ replicate (n - length src) z"
  using assms by (simp add: blit_def)

section \<open>Arrays shifted in place\<close>

text \<open>Inserting into and deleting from a list at an index.\<close>

definition insert_at :: "nat \<Rightarrow> 'a \<Rightarrow> 'a list \<Rightarrow> 'a list" where
  "insert_at i x xs = take i xs @ x # drop i xs"

definition delete_at :: "nat \<Rightarrow> 'a list \<Rightarrow> 'a list" where
  "delete_at i xs = take i xs @ drop (Suc i) xs"

lemma length_insert_at [simp]: "i \<le> length xs \<Longrightarrow> length (insert_at i x xs) = Suc (length xs)"
  by (simp add: insert_at_def)

lemma length_delete_at [simp]: "i < length xs \<Longrightarrow> length (delete_at i xs) = length xs - 1"
  by (simp add: delete_at_def)

lemma set_insert_at: "i \<le> length xs \<Longrightarrow> set (insert_at i x xs) = insert x (set xs)"
  by (simp add: insert_at_def) (metis append_take_drop_id set_append)

lemma nth_insert_at:
  assumes "i \<le> length xs" "j \<le> length xs"
  shows "insert_at i x xs ! j = (if j < i then xs ! j else if j = i then x else xs ! (j - 1))"
  using assms by (cases "j - i") (auto simp: insert_at_def nth_append min_def nth_Cons
    intro!: arg_cong [where f = "nth xs"])

lemma nth_delete_at:
  assumes "i < length xs" "j < length xs - 1"
  shows "delete_at i xs ! j = (if j < i then xs ! j else xs ! Suc j)"
  using assms by (auto simp: delete_at_def nth_append min_def)

lemma map_insert_at: "map f (insert_at i x xs) = insert_at i (f x) (map f xs)"
  by (simp add: insert_at_def take_map drop_map)

lemma map_delete_at: "map f (delete_at i xs) = delete_at i (map f xs)"
  by (simp add: delete_at_def take_map drop_map)

lemma sorted_wrt_insert_at:
  assumes "symp R" "sorted_wrt R xs" "\<forall>y \<in> set xs. R x y"
  shows "sorted_wrt R (insert_at i x xs)"
proof -
  have "sorted_wrt R (take i xs @ drop i xs)" using assms(2) by simp
  with assms(1,3) show ?thesis
    unfolding insert_at_def sorted_wrt_append
    by (auto dest: in_set_takeD in_set_dropD sympD)
qed

lemma delete_at_split:
  assumes "i < length xs"
  obtains ys zs where "xs = ys @ xs ! i # zs" "delete_at i xs = ys @ zs" "i = length ys"
  using id_take_nth_drop [OF assms] assms
  by (metis delete_at_def length_take less_imp_le min.absorb2)

lemma sorted_wrt_delete_at:
  assumes "sorted_wrt R xs" "i < length xs"
  shows "sorted_wrt R (delete_at i xs)"
  using assms(1) by (rule_tac delete_at_split [OF assms(2)]) (metis sorted_wrt_append sorted_wrt.simps(2) list.set_intros(2))

lemma set_delete_at_subset: "set (delete_at i xs) \<subseteq> set xs"
  by (auto simp: delete_at_def dest: in_set_takeD in_set_dropD)

lemma take_Suc_nth: "i < length xs \<Longrightarrow> take (Suc i) xs = take i xs @ [xs ! i]"
  by (rule take_Suc_conv_app_nth)

section \<open>Sums over lists\<close>

lemma sum_list_split: "sum_list xs = sum_list (take k xs) + sum_list (drop k (xs :: nat list))"
  by (metis append_take_drop_id sum_list_append)

lemma sum_list_insert_at:
  "i \<le> length xs \<Longrightarrow> sum_list (insert_at i (x::nat) xs) = x + sum_list xs"
  by (simp add: insert_at_def sum_list_split [of xs i])

lemma sum_list_delete_at:
  assumes "i < length xs" shows "sum_list (delete_at i xs) + xs ! i = sum_list (xs :: nat list)"
proof -
  have "sum_list xs = sum_list (take i xs @ xs ! i # drop (Suc i) xs)"
    using id_take_nth_drop [OF assms] by simp
  then show ?thesis by (simp add: delete_at_def)
qed

section \<open>Loops that move array elements\<close>

text \<open>
  \<open>for (i = len-1; i > start; i--) a[i] = a[i-1]\<close> and
  \<open>for (i = target; i < hi; i++) a[i] = a[i+d]\<close>. A \<open>for\<close> loop over an index range is a \<open>fold\<close> over
  the indices in the order the loop visits them.
\<close>

definition shift_right :: "'a list \<Rightarrow> nat \<Rightarrow> nat \<Rightarrow> 'a list" where
  "shift_right a start len = fold (\<lambda>i a. a[i := a ! (i - 1)]) (rev [start + 1..<len]) a"

definition shift_left :: "nat \<Rightarrow> 'a list \<Rightarrow> nat \<Rightarrow> nat \<Rightarrow> 'a list" where
  "shift_left d a target hi = fold (\<lambda>i a. a[i := a ! (i + d)]) [target..<hi] a"

lemma length_fold_update [simp]:
  "length (fold (\<lambda>i a. a[f i := g i a]) is a) = length a"
  by (induction "is" arbitrary: a) auto

text \<open>A loop that writes to the places \<open>f i\<close> leaves the others alone.\<close>

lemma nth_fold_update_other:
  "j \<notin> f ` set is \<Longrightarrow> fold (\<lambda>i a. a[f i := g i a]) is a ! j = a ! j"
  by (induction "is" arbitrary: a) auto

text \<open>A loop that visits each element once and rewrites it.\<close>

lemma fold_update_each:
  "n \<le> length a \<Longrightarrow> fold (\<lambda>i a. a[i := h i (a ! i)]) [0..<n] a ! j = (if j < n then h j (a ! j) else a ! j)"
  by (induction n arbitrary: j) (auto simp: nth_list_update length_fold_update [where f = "\<lambda>i. i"])

lemma length_shift_right [simp]: "length (shift_right a start len) = length a"
  by (simp add: shift_right_def length_fold_update [where f = "\<lambda>i. i" and g = "\<lambda>i a. a ! (i - 1)"])

lemma length_shift_left [simp]: "length (shift_left d a target hi) = length a"
  by (simp add: shift_left_def length_fold_update [where f = "\<lambda>i. i" and g = "\<lambda>i a. a ! (i + d)"])

lemma nth_shift_left:
  assumes "target \<le> hi" "hi + d \<le> length a" "0 < d" "j < length a"
  shows "shift_left d a target hi ! j = (if target \<le> j \<and> j < hi then a ! (j + d) else a ! j)"
  using assms
proof (induction "hi - target" arbitrary: hi j)
  case 0
  then show ?case by (auto simp: shift_left_def)
next
  case (Suc n)
  then obtain h where h: "hi = Suc h" "target \<le> h" by (cases hi) auto
  have IH: "shift_left d a target h ! j = (if target \<le> j \<and> j < h then a ! (j + d) else a ! j)"
    if "j < length a" for j
    using Suc.hyps(1) [of h j] Suc.hyps(2) Suc.prems h that by simp
  have "shift_left d a target hi = (shift_left d a target h)[h := shift_left d a target h ! (h + d)]"
    using h by (simp add: shift_left_def)
  with h IH [of j] IH [of "h + d"] Suc.prems show ?case
    by (auto simp: nth_list_update)
qed

lemma nth_shift_right:
  assumes "len \<le> length a" "j < length a"
  shows "shift_right a start len ! j = (if start < j \<and> j < len then a ! (j - 1) else a ! j)"
  using assms
proof (induction "len - start" arbitrary: start j)
  case 0
  then show ?case by (auto simp: shift_right_def)
next
  case (Suc n)
  show ?case
  proof (cases "Suc start < len")
    case True
    have IH: "shift_right a (Suc start) len ! j = (if Suc start < j \<and> j < len then a ! (j - 1) else a ! j)"
      if "j < length a" for j
      using Suc.hyps(1) [of "Suc start" j] Suc.hyps(2) Suc.prems that by simp
    have "[start + 1..<len] = Suc start # [Suc start + 1..<len]"
      using True by (simp add: upt_conv_Cons)
    then have "shift_right a start len
        = (shift_right a (Suc start) len)[Suc start := shift_right a (Suc start) len ! start]"
      by (simp add: shift_right_def)
    with IH [of j] IH [of start] Suc.prems True show ?thesis
      by (auto simp: nth_list_update)
  next
    case False
    then have "[start + 1..<len] = []" by simp
    with False show ?thesis by (auto simp: shift_right_def)
  qed
qed

lemma shift_left_0 [simp]: "shift_left 0 a target hi = a"
proof -
  have "fold (\<lambda>i a. a[i := a ! i]) is a = a" for "is" :: "nat list"
    by (induction "is") auto
  then show ?thesis by (simp add: shift_left_def)
qed

lemma shift_right_insert:
  assumes "start < len" "len \<le> length a"
  shows "(shift_right a start len)[start := x] = insert_at start x (take (len - 1) a) @ drop len a"
proof (rule nth_equalityI)
  show "length ((shift_right a start len)[start := x]) = length (insert_at start x (take (len - 1) a) @ drop len a)"
    using assms by simp
  fix i assume "i < length ((shift_right a start len)[start := x])"
  then show "(shift_right a start len)[start := x] ! i = (insert_at start x (take (len - 1) a) @ drop len a) ! i"
    using assms by (auto simp: nth_list_update nth_shift_right nth_append nth_insert_at)
qed

lemma shift_left_delete:
  assumes "target < len" "len \<le> length a"
  shows "shift_left 1 a target (len - 1) = delete_at target (take len a) @ drop (len - 1) a"
proof (rule nth_equalityI)
  show "length (shift_left 1 a target (len - 1)) = length (delete_at target (take len a) @ drop (len - 1) a)"
    using assms by simp
  fix i assume "i < length (shift_left 1 a target (len - 1))"
  then show "shift_left 1 a target (len - 1) ! i = (delete_at target (take len a) @ drop (len - 1) a) ! i"
    using assms by (auto simp: nth_shift_left nth_append nth_delete_at)
qed

section \<open>32-bit counters\<close>

text \<open>Sizes and counts that the code keeps in \<open>uint32_t\<close>: numbers, with the wrap-around written out.\<close>

definition u32_add :: "nat \<Rightarrow> nat \<Rightarrow> nat" where "u32_add a b = (a + b) mod 2 ^ 32"
definition u32_sub :: "nat \<Rightarrow> nat \<Rightarrow> nat" where "u32_sub a b = (a + 2 ^ 32 - b) mod 2 ^ 32"

definition u32_of :: "nat \<Rightarrow> nat" where "u32_of n = n mod 2 ^ 32"

text \<open>Evaluated on binary integers.\<close>

lemma u32_code [code]:
  "u32_add a b = nat ((int a + int b) mod 2 ^ 32)"
  "u32_sub a b = nat ((int a + 2 ^ 32 - int b) mod 2 ^ 32 * of_bool (int b \<le> int a + 2 ^ 32))"
  "u32_of a = nat (int a mod 2 ^ 32)"
proof -
  have "int (u32_add a b) = (int a + int b) mod 2 ^ 32" by (simp add: u32_add_def zmod_int)
  then show "u32_add a b = nat ((int a + int b) mod 2 ^ 32)" by simp
  have "int (u32_sub a b) = int (a + 2 ^ 32 - b) mod 2 ^ 32" by (simp add: u32_sub_def zmod_int)
  also have "\<dots> = (int a + 2 ^ 32 - int b) mod 2 ^ 32 * of_bool (int b \<le> int a + 2 ^ 32)"
    by (auto simp: of_nat_diff)
  finally show "u32_sub a b = nat ((int a + 2 ^ 32 - int b) mod 2 ^ 32 * of_bool (int b \<le> int a + 2 ^ 32))" by simp
  have "int (u32_of a) = int a mod 2 ^ 32" by (simp add: u32_of_def zmod_int)
  then show "u32_of a = nat (int a mod 2 ^ 32)" by simp
qed

lemma u32_of_small: "n < 2 ^ 32 \<Longrightarrow> u32_of n = n"
  by (simp add: u32_of_def)

lemma u32_add_small: "a + b < 2 ^ 32 \<Longrightarrow> u32_add a b = a + b"
  by (simp add: u32_add_def)

lemma u32_sub_small:
  assumes "b \<le> a" "a < 2 ^ 32" shows "u32_sub a b = a - b"
proof -
  have "a + 2 ^ 32 - b = (a - b) + 2 ^ 32" using assms by linarith
  then have "u32_sub a b = (a - b) mod 2 ^ 32" unfolding u32_sub_def by (simp only: mod_add_self2)
  also have "\<dots> = a - b" using assms by (intro mod_less) linarith
  finally show ?thesis .
qed

text \<open>Adding a difference that wrapped gives the right sum, as long as the sum itself fits.\<close>

lemma u32_add_sub:
  assumes "old \<le> c" "old < 2 ^ 32" "c - old + new < 2 ^ 32"
  shows "u32_add c (u32_sub new old) = c - old + new"
proof -
  have "u32_add c (u32_sub new old) = (c + (new + 2 ^ 32 - old)) mod 2 ^ 32"
    by (simp add: u32_add_def u32_sub_def mod_add_right_eq)
  also have "c + (new + 2 ^ 32 - old) = (c - old + new) + 2 ^ 32" using assms by linarith
  also have "\<dots> mod 2 ^ 32 = (c - old + new) mod 2 ^ 32" by (simp only: mod_add_self2)
  also have "\<dots> = c - old + new" using assms by (intro mod_less) linarith
  finally show ?thesis .
qed

end
