(* ===== verification/Bytes.thy ===== *)
theory Bytes
  imports Prelude
begin

text \<open>
  The byte-encoding helpers of \<open>storage_engine/file.c\<close>: big-endian integers written into and read
  from a buffer. The write loops run from the last byte to the first, shifting the value right by
  eight bits each time; \<open>be_bytes\<close> is the specification they are proved against.
\<close>

section \<open>The loops of file.c\<close>

text \<open>One run of a write loop: bytes \<open>i - 1\<close> down to \<open>0\<close> at \<open>buf + off\<close>.\<close>

fun write_be_loop :: "nat \<Rightarrow> byte list \<Rightarrow> nat \<Rightarrow> 'a::len word \<Rightarrow> byte list" where
  "write_be_loop 0 buf off w = buf"
| "write_be_loop (Suc i) buf off w =
     write_be_loop i (buf[off + i := ucast (w AND 0xFF)]) off (drop_bit 8 w)"

definition writeULongBytewise :: "byte list \<Rightarrow> nat \<Rightarrow> u64 \<Rightarrow> byte list" where
  "writeULongBytewise buf off lui = write_be_loop 8 buf off lui"

definition writeUIntBytewise :: "byte list \<Rightarrow> nat \<Rightarrow> u32 \<Rightarrow> byte list" where
  "writeUIntBytewise buf off ui = write_be_loop 4 buf off ui"

definition writeUShortBytewise :: "byte list \<Rightarrow> nat \<Rightarrow> u16 \<Rightarrow> byte list" where
  "writeUShortBytewise buf off us =
     (let buf1 = buf[off := ucast (drop_bit 8 us AND 0xFF)]
      in buf1[off + 1 := ucast (us AND 0xFF)])"

text \<open>One run of a read loop over \<open>n\<close> bytes from byte \<open>i\<close> on.\<close>

fun read_be_loop :: "nat \<Rightarrow> byte list \<Rightarrow> nat \<Rightarrow> 'a::len word \<Rightarrow> 'a word" where
  "read_be_loop 0 buf i out = out"
| "read_be_loop (Suc n) buf i out =
     read_be_loop n buf (Suc i) (push_bit 8 out OR ucast (buf ! i))"

definition readULongBytewise :: "byte list \<Rightarrow> nat \<Rightarrow> u64" where
  "readULongBytewise buf off = read_be_loop 8 buf off 0"

definition readUIntBytewise :: "byte list \<Rightarrow> nat \<Rightarrow> u32" where
  "readUIntBytewise buf off =
     push_bit 24 (ucast (buf ! off)) OR push_bit 16 (ucast (buf ! (off + 1)))
     OR push_bit 8 (ucast (buf ! (off + 2))) OR ucast (buf ! (off + 3))"

definition readUShortBytewise :: "byte list \<Rightarrow> nat \<Rightarrow> u16" where
  "readUShortBytewise buf off = push_bit 8 (ucast (buf ! off)) OR ucast (buf ! (off + 1))"

section \<open>The specification: big-endian digits\<close>

fun be_bytes :: "nat \<Rightarrow> 'a::len word \<Rightarrow> byte list" where
  "be_bytes 0 w = []"
| "be_bytes (Suc n) w = be_bytes n (drop_bit 8 w) @ [ucast w]"

definition be_value :: "byte list \<Rightarrow> 'a::len word" where
  "be_value bs = foldl (\<lambda>out b. push_bit 8 out OR ucast b) 0 bs"

lemma length_be_bytes [simp]: "length (be_bytes n w) = n"
  by (induction n w rule: be_bytes.induct) auto

lemma ucast_mask_byte: "(ucast (w AND 0xFF :: 'a::len word) :: byte) = ucast w"
proof -
  have m: "(0xFF :: 'a word) = mask 8" by (simp add: mask_eq_exp_minus_1)
  show ?thesis unfolding m by (rule bit_word_eqI) (auto simp: bit_simps dest: bit_imp_le_length)
qed

lemma be_value_be_bytes: "be_value (be_bytes n w) = take_bit (8 * n) w"
proof (induction n arbitrary: w)
  case 0
  then show ?case by (simp add: be_value_def)
next
  case (Suc n)
  have "push_bit 8 (take_bit (8 * n) (drop_bit 8 w)) OR ucast (ucast w :: byte)
        = take_bit (8 * Suc n) w"
    by (rule bit_word_eqI) (auto simp: bit_simps dest: bit_imp_le_length)
  with Suc.IH show ?case by (simp add: be_value_def)
qed

lemma be_value_inverse:
  fixes w :: "'a::len word"
  assumes "8 * n = LENGTH('a)"
  shows "be_value (be_bytes n w) = w"
  using assms by (simp add: be_value_be_bytes)

lemma be_value_snoc: "be_value (xs @ [b]) = push_bit 8 (be_value xs) OR ucast b"
  by (simp add: be_value_def)

lemma be_value_high: "8 * length xs \<le> n \<Longrightarrow> \<not> bit (be_value xs :: 'a::len word) n"
proof (induction xs arbitrary: n rule: rev_induct)
  case (snoc b xs)
  then show ?case by (auto simp: be_value_snoc bit_simps dest: bit_imp_le_length)
qed (simp add: be_value_def)

lemma be_bytes_value:
  "8 * length xs \<le> LENGTH('a) \<Longrightarrow> be_bytes (length xs) (be_value xs :: 'a::len word) = xs"
proof (induction xs rule: rev_induct)
  case (snoc b xs)
  let ?v = "be_value xs :: 'a word"
  have "bit (drop_bit 8 (push_bit 8 ?v OR ucast b)) n = bit ?v n" if "n < LENGTH('a)" for n
  proof (cases "8 * length xs \<le> n")
    case True
    then show ?thesis using be_value_high [OF True, where 'a = 'a] that by (auto simp: bit_simps dest: bit_imp_le_length)
  next
    case False
    then have "8 + n < LENGTH('a)" using snoc.prems by simp
    then show ?thesis by (auto simp: bit_simps dest: bit_imp_le_length)
  qed
  then have "drop_bit 8 (push_bit 8 ?v OR ucast b) = ?v" by (rule bit_word_eqI)
  moreover have "ucast (push_bit 8 ?v OR ucast b) = b"
    using snoc.prems by (intro bit_word_eqI) (auto simp: bit_simps dest: bit_imp_le_length)
  ultimately show ?case using snoc by (simp add: be_value_snoc)
qed simp

section \<open>The loops meet the specification\<close>

lemma write_be_loop_blit:
  assumes "off + n \<le> length buf"
  shows "write_be_loop n buf off w = blit buf off (be_bytes n w)"
  using assms
proof (induction n arbitrary: buf w)
  case 0
  then show ?case by simp
next
  case (Suc n)
  let ?b = "buf[off + n := ucast (w AND 0xFF)]"
  have "write_be_loop (Suc n) buf off w = blit ?b off (be_bytes n (drop_bit 8 w))"
    using Suc by simp
  also have "\<dots> = blit buf off (be_bytes (Suc n) w)"
  proof (rule nth_equalityI)
    show "length (blit ?b off (be_bytes n (drop_bit 8 w))) = length (blit buf off (be_bytes (Suc n) w))"
      using Suc.prems by simp
    fix i assume "i < length (blit ?b off (be_bytes n (drop_bit 8 w)))"
    then have "i < length buf" using Suc.prems by simp
    then show "blit ?b off (be_bytes n (drop_bit 8 w)) ! i = blit buf off (be_bytes (Suc n) w) ! i"
      using Suc.prems by (auto simp: nth_blit nth_append nth_list_update ucast_mask_byte)
  qed
  finally show ?case .
qed

lemma read_be_loop_foldl:
  assumes "i + n \<le> length buf"
  shows "read_be_loop n buf i out = foldl (\<lambda>out b. push_bit 8 out OR ucast b) out (segment buf i n)"
  using assms
proof (induction n arbitrary: i out)
  case 0
  then show ?case by (simp add: segment_def)
next
  case (Suc n)
  then have "segment buf i (Suc n) = buf ! i # segment buf (Suc i) n"
    by (simp add: segment_def Cons_nth_drop_Suc [symmetric])
  with Suc show ?case by simp
qed

lemma writeULong_blit [layout]:
  "off + 8 \<le> length buf \<Longrightarrow> writeULongBytewise buf off w = blit buf off (be_bytes 8 w)"
  by (simp only: writeULongBytewise_def write_be_loop_blit)

lemma writeUInt_blit [layout]:
  "off + 4 \<le> length buf \<Longrightarrow> writeUIntBytewise buf off w = blit buf off (be_bytes 4 w)"
  by (simp only: writeUIntBytewise_def write_be_loop_blit)

lemma be_bytes_2: "be_bytes 2 (w :: 'a::len word) = [ucast (drop_bit 8 w), ucast w]"
  by (simp add: numeral_2_eq_2)

lemma writeUShort_blit [layout]:
  assumes "off + 2 \<le> length buf"
  shows "writeUShortBytewise buf off w = blit buf off (be_bytes 2 w)"
proof (rule nth_equalityI)
  show "length (writeUShortBytewise buf off w) = length (blit buf off (be_bytes 2 w))"
    using assms by (simp add: writeUShortBytewise_def)
  fix i assume "i < length (writeUShortBytewise buf off w)"
  then have i: "i < length buf" by (simp add: writeUShortBytewise_def)
  show "writeUShortBytewise buf off w ! i = blit buf off (be_bytes 2 w) ! i"
  proof (cases "i = off \<or> i = Suc off")
    case True
    with assms i show ?thesis
      by (auto simp: writeUShortBytewise_def ucast_mask_byte nth_blit nth_list_update be_bytes_2)
  next
    case False
    with assms i show ?thesis
      by (auto simp: writeUShortBytewise_def nth_blit nth_list_update)
  qed
qed

lemma readULong_value [layout]:
  "off + 8 \<le> length buf \<Longrightarrow> readULongBytewise buf off = be_value (segment buf off 8)"
  by (simp only: readULongBytewise_def be_value_def read_be_loop_foldl)

lemma segment_4: "off + 4 \<le> length buf \<Longrightarrow>
    segment buf off 4 = [buf ! off, buf ! (off + 1), buf ! (off + 2), buf ! (off + 3)]"
  by (rule nth_equalityI) (auto simp: less_Suc_eq numeral_eq_Suc)

lemma segment_2: "off + 2 \<le> length buf \<Longrightarrow> segment buf off 2 = [buf ! off, buf ! (off + 1)]"
  by (rule nth_equalityI) (auto simp: less_Suc_eq numeral_eq_Suc)

lemma readUInt_value [layout]:
  assumes "off + 4 \<le> length buf"
  shows "readUIntBytewise buf off = be_value (segment buf off 4)"
  unfolding segment_4 [OF assms] readUIntBytewise_def be_value_def foldl.simps
  by (rule bit_word_eqI) (auto simp: bit_simps dest: bit_imp_le_length)

lemma readUShort_value [layout]:
  assumes "off + 2 \<le> length buf"
  shows "readUShortBytewise buf off = be_value (segment buf off 2)"
  unfolding segment_2 [OF assms] readUShortBytewise_def be_value_def foldl.simps
  by (rule bit_word_eqI) (auto simp: bit_simps dest: bit_imp_le_length)

section \<open>Properties\<close>

text \<open>C19: The byte-encoding helpers round-trip: an integer written at an offset of a buffer is read back
  unchanged, for all three widths, and no byte outside the integer's own is touched.\<close>

theorem bytewise_roundtrip:
  "(off + 8 \<le> length buf \<longrightarrow> readULongBytewise (writeULongBytewise buf off w) off = w \<and>
      take off (writeULongBytewise buf off w) = take off buf \<and>
      drop (off + 8) (writeULongBytewise buf off w) = drop (off + 8) buf) \<and>
   (off + 4 \<le> length buf \<longrightarrow> readUIntBytewise (writeUIntBytewise buf off x) off = x \<and>
      take off (writeUIntBytewise buf off x) = take off buf \<and>
      drop (off + 4) (writeUIntBytewise buf off x) = drop (off + 4) buf) \<and>
   (off + 2 \<le> length buf \<longrightarrow> readUShortBytewise (writeUShortBytewise buf off y) off = y \<and>
      take off (writeUShortBytewise buf off y) = take off buf \<and>
      drop (off + 2) (writeUShortBytewise buf off y) = drop (off + 2) buf)"
  by (simp add: layout segment_blit_same be_value_inverse) (simp add: blit_def)

theorem bytewise_roundtrip_witness:
  "readULongBytewise (writeULongBytewise (replicate 10 7) 1 0x1122334455667788) 1 = 0x1122334455667788"
  using bytewise_roundtrip [of 1 "replicate 10 7" "0x1122334455667788"] by simp

end
