(* ===== verification/Search.thy ===== *)
theory Search
  imports Prelude
begin

text \<open>
  Searching a sorted array of keys. The same binary-search loop stands in \<open>page.c\<close>
  (\<open>searchSlotArray\<close>) and in \<open>bplus.c\<close> (\<open>findPageInLeaf\<close>); it is defined once here. The locale
  \<open>key_order\<close> is the contract the searching code relies on: a three-way comparison that agrees with
  a rank on the keys of one table.
\<close>

definition nat_cmp :: "nat \<Rightarrow> nat \<Rightarrow> int" where
  "nat_cmp m n = (if m < n then -1 else if m = n then 0 else 1)"

section \<open>The loop\<close>

text \<open>\<open>below mid\<close> is the test that the element at \<open>mid\<close> is less than the key searched for.\<close>

function lower_bound_loop :: "(nat \<Rightarrow> bool) \<Rightarrow> nat \<Rightarrow> nat \<Rightarrow> nat" where
  "lower_bound_loop below lo hi =
     (if lo < hi then
        let mid = lo + (hi - lo) div 2
        in if below mid then lower_bound_loop below (mid + 1) hi
           else lower_bound_loop below lo mid
      else lo)"
  by pat_completeness auto
termination
  by (relation "measure (\<lambda>(below, lo, hi). hi - lo)") auto

declare lower_bound_loop.simps [simp del]

lemma lower_bound_done [simp]: "hi \<le> lo \<Longrightarrow> lower_bound_loop below lo hi = lo"
  by (subst lower_bound_loop.simps) simp

text \<open>Whatever the test, the loop stops inside the range, between a true and a false one.\<close>

lemma lower_bound_range:
  assumes "lo \<le> hi"
  shows "lo \<le> lower_bound_loop below lo hi \<and> lower_bound_loop below lo hi \<le> hi"
  using assms
proof (induction below lo hi rule: lower_bound_loop.induct)
  case (1 below lo hi)
  show ?case
  proof (cases "lo < hi")
    case True
    let ?mid = "lo + (hi - lo) div 2"
    have "?mid < hi" using True by linarith
    then have "below ?mid \<Longrightarrow> lo \<le> lower_bound_loop below (?mid + 1) hi \<and> lower_bound_loop below (?mid + 1) hi \<le> hi"
      and "\<not> below ?mid \<Longrightarrow> lo \<le> lower_bound_loop below lo ?mid \<and> lower_bound_loop below lo ?mid \<le> hi"
      using "1.IH" [OF True refl] by auto
    with True show ?thesis by (simp add: lower_bound_loop.simps [of below lo hi] Let_def)
  next
    case False
    with "1.prems" show ?thesis by simp
  qed
qed

lemma lower_bound_boundary:
  assumes "lo \<le> hi"
  shows "(lo < lower_bound_loop below lo hi \<longrightarrow> below (lower_bound_loop below lo hi - 1)) \<and>
         (lower_bound_loop below lo hi < hi \<longrightarrow> \<not> below (lower_bound_loop below lo hi))"
  using assms
proof (induction below lo hi rule: lower_bound_loop.induct)
  case (1 below lo hi)
  show ?case
  proof (cases "lo < hi")
    case True
    let ?mid = "lo + (hi - lo) div 2"
    have mid: "?mid < hi" using True by linarith
    show ?thesis
    proof (cases "below ?mid")
      case b: True
      let ?r = "lower_bound_loop below (?mid + 1) hi"
      have r: "lower_bound_loop below lo hi = ?r"
        using True b by (simp add: lower_bound_loop.simps [of below lo hi] Let_def)
      have "?mid + 1 \<le> ?r" using lower_bound_range [of "?mid + 1" hi below] mid by simp
      moreover have "?r = ?mid + 1 \<Longrightarrow> below (?r - 1)" using b by (simp del: One_nat_def)
      moreover have "(?mid + 1 < ?r \<longrightarrow> below (?r - 1)) \<and> (?r < hi \<longrightarrow> \<not> below ?r)"
        using "1.IH"(1) [OF True refl b] mid by simp
      ultimately have "below (?r - 1) \<and> (?r < hi \<longrightarrow> \<not> below ?r)" by linarith
      then show ?thesis unfolding r by simp
    next
      case b: False
      let ?r = "lower_bound_loop below lo ?mid"
      have r: "lower_bound_loop below lo hi = ?r"
        using True b by (simp add: lower_bound_loop.simps [of below lo hi] Let_def)
      have "?r \<le> ?mid" using lower_bound_range [of lo ?mid below] by simp
      then have "?r = ?mid \<or> ?r < ?mid" by linarith
      with "1.IH" (2) [OF True refl b] mid b show ?thesis unfolding r by auto
    qed
  next
    case False
    with "1.prems" show ?thesis by simp
  qed
qed

text \<open>The search does not read outside the range.\<close>

lemma lower_bound_cong:
  assumes "\<And>i. lo \<le> i \<Longrightarrow> i < hi \<Longrightarrow> below i = below' i"
  shows "lower_bound_loop below lo hi = lower_bound_loop below' lo hi"
  using assms
proof (induction below lo hi rule: lower_bound_loop.induct)
  case (1 below lo hi)
  show ?case
  proof (cases "lo < hi")
    case True
    let ?mid = "lo + (hi - lo) div 2"
    have "below ?mid = below' ?mid" using "1.prems" True by simp
    moreover have "below ?mid \<Longrightarrow> lower_bound_loop below (?mid + 1) hi = lower_bound_loop below' (?mid + 1) hi"
      using "1.IH"(1) [OF True refl] "1.prems" by simp
    moreover have "\<not> below ?mid \<Longrightarrow> lower_bound_loop below lo ?mid = lower_bound_loop below' lo ?mid"
      using "1.IH"(2) [OF True refl] "1.prems" by simp
    ultimately show ?thesis
      using True by (simp add: lower_bound_loop.simps [of _ lo hi] Let_def)
  next
    case False
    then show ?thesis by simp
  qed
qed

section \<open>Keys with a rank\<close>

locale key_order =
  fixes cmp :: "'k \<Rightarrow> 'k \<Rightarrow> int"
    and good :: "'k \<Rightarrow> bool"
    and rank :: "'k \<Rightarrow> nat"
  assumes cmp_rank: "good a \<Longrightarrow> good b \<Longrightarrow> cmp a b = nat_cmp (rank a) (rank b)"
    and rank_inj: "good a \<Longrightarrow> good b \<Longrightarrow> rank a = rank b \<Longrightarrow> a = b"
begin

lemma cmp_less: "good a \<Longrightarrow> good b \<Longrightarrow> (cmp a b < 0) = (rank a < rank b)"
  by (simp add: cmp_rank nat_cmp_def)

lemma cmp_greater: "good a \<Longrightarrow> good b \<Longrightarrow> (0 < cmp a b) = (rank b < rank a)"
  by (simp add: cmp_rank nat_cmp_def)

lemma cmp_eq: "good a \<Longrightarrow> good b \<Longrightarrow> (cmp a b = 0) = (a = b)"
  by (auto simp: cmp_rank nat_cmp_def dest: rank_inj)

lemma cmp_antisym: "good a \<Longrightarrow> good b \<Longrightarrow> cmp a b = - cmp b a"
  by (simp add: cmp_rank nat_cmp_def)

lemma cmp_trans: "good a \<Longrightarrow> good b \<Longrightarrow> good c \<Longrightarrow> cmp a b \<le> 0 \<Longrightarrow> cmp b c \<le> 0 \<Longrightarrow> cmp a c \<le> 0"
  by (auto simp: cmp_rank nat_cmp_def split: if_splits)

text \<open>The search in an array whose keys do not decrease.\<close>

lemma search_splits:
  assumes good: "\<forall>k \<in> set ks. good k" "good key" and sorted: "sorted (map rank ks)"
    and r: "r = lower_bound_loop (\<lambda>i. cmp (ks ! i) key < 0) 0 (length ks)"
  shows "r \<le> length ks \<and> (\<forall>i < r. rank (ks ! i) < rank key) \<and>
         (\<forall>i. r \<le> i \<longrightarrow> i < length ks \<longrightarrow> rank key \<le> rank (ks ! i))"
proof -
  have le: "r \<le> length ks" using lower_bound_range [of 0 "length ks"] r by simp
  have below: "(cmp (ks ! i) key < 0) = (rank (ks ! i) < rank key)" if "i < length ks" for i
    using that good by (simp add: cmp_less)
  have mono: "rank (ks ! i) \<le> rank (ks ! j)" if "i \<le> j" "j < length ks" for i j
    using sorted_nth_mono [OF sorted, of i j] that by simp
  note b = lower_bound_boundary [of 0 "length ks" "\<lambda>i. cmp (ks ! i) key < 0", folded r, simplified]
  have lower: "rank (ks ! i) < rank key" if "i < r" for i
  proof -
    have "rank (ks ! (r - 1)) < rank key" using b that le below [of "r - 1"] by simp
    moreover have "rank (ks ! i) \<le> rank (ks ! (r - 1))" using mono [of i "r - 1"] that le by simp
    ultimately show ?thesis by simp
  qed
  have upper: "rank key \<le> rank (ks ! i)" if "r \<le> i" "i < length ks" for i
  proof -
    have "\<not> rank (ks ! r) < rank key" using b that below [of r] by simp
    moreover have "rank (ks ! r) \<le> rank (ks ! i)" using mono that by simp
    ultimately show ?thesis by simp
  qed
  from le lower upper show ?thesis by blast
qed

text \<open>In a strictly increasing array the search finds the key exactly when it is there.\<close>

lemma search_hit:
  assumes good: "\<forall>k \<in> set ks. good k" "good key" and sorted: "sorted_wrt (<) (map rank ks)"
    and r: "r = lower_bound_loop (\<lambda>i. cmp (ks ! i) key < 0) 0 (length ks)"
  shows "(r < length ks \<and> cmp (ks ! r) key = 0) = (key \<in> set ks)"
proof
  assume "r < length ks \<and> cmp (ks ! r) key = 0"
  then show "key \<in> set ks" using good cmp_eq [of "ks ! r" key] by (metis nth_mem)
next
  assume "key \<in> set ks"
  then obtain i where i: "i < length ks" "ks ! i = key" by (auto simp: in_set_conv_nth)
  have s: "sorted (map rank ks)" using sorted by (simp add: strict_sorted_iff)
  note sp = search_splits [OF good s r]
  have "r \<le> i" using sp i by (metis linorder_not_le less_irrefl)
  then have r_len: "r < length ks" using i by simp
  have "rank (ks ! r) \<le> rank key"
    using sorted_nth_mono [OF s, of r i] \<open>r \<le> i\<close> i by simp
  moreover have "rank key \<le> rank (ks ! r)" using sp r_len by simp
  ultimately have "ks ! r = key" using good r_len by (simp add: rank_inj)
  with r_len good show "r < length ks \<and> cmp (ks ! r) key = 0" by (simp add: cmp_eq)
qed

text \<open>Inserting a new key where the search says keeps the array sorted.\<close>

lemma search_insert_sorted:
  assumes good: "\<forall>k \<in> set ks. good k" "good key" and sorted: "sorted_wrt (<) (map rank ks)"
    and r: "r = lower_bound_loop (\<lambda>i. cmp (ks ! i) key < 0) 0 (length ks)"
    and new: "key \<notin> set ks"
  shows "sorted_wrt (<) (map rank (insert_at r key ks))"
proof -
  have s: "sorted (map rank ks)" using sorted by (simp add: strict_sorted_iff)
  note sp = search_splits [OF good s r]
  have lower: "rank x < rank key" if "x \<in> set (take r ks)" for x
    using that sp by (auto simp: in_set_conv_nth)
  have upper: "rank key < rank x" if "x \<in> set (drop r ks)" for x
  proof -
    have x: "x \<in> set ks" using that by (rule in_set_dropD)
    have "rank key \<le> rank x" using that sp by (auto simp: in_set_conv_nth)
    moreover have "rank key \<noteq> rank x" using rank_inj [of key x] good new x by auto
    ultimately show ?thesis by simp
  qed
  have "sorted_wrt (<) (map rank (take r ks) @ map rank (drop r ks))"
    using sorted by (simp flip: map_append)
  with lower upper show ?thesis
    unfolding insert_at_def by (auto simp: sorted_wrt_append dest: less_trans)
qed

lemma search_delete_sorted:
  assumes "sorted_wrt (<) (map rank ks)" "i < length ks"
  shows "sorted_wrt (<) (map rank (delete_at i ks))"
proof -
  obtain xs x ys where ks: "ks = xs @ x # ys" and i: "i = length xs"
    using id_take_nth_drop [OF assms(2)] assms(2) by (metis length_take less_imp_le min.absorb2)
  then show ?thesis using assms(1) by (simp add: delete_at_def sorted_wrt_append)
qed

end

end
