(* ===== verification/Ordering.thy ===== *)
theory Ordering
  imports Bytes Search
begin

text \<open>
  \<open>value.h\<close> and \<open>storage_engine/ordering.c\<close>: run-time values, the conversion of a primary key into the
  ordering key that pages and nodes compare, and the comparison itself.

  The union of an \<open>ordering_key\<close> is kept as two fields of which the key's type selects one; the
  source zeroes the union before it fills it in, so the other field is zero. A \<open>double\<close> is its 64
  bits. A C string is the list of its bytes, up to its first NUL.
\<close>

section \<open>Values (value.h)\<close>

datatype val =
    VNull
  | VBool bool
  | VInt u64        \<comment> \<open>\<open>int64_t\<close>, read by \<open>sint\<close>\<close>
  | VFloat u64      \<comment> \<open>the bits of a \<open>double\<close>\<close>
  | VText "byte list"
  | VU32 u32

datatype SQL_type =
    SQL_NULL | SQL_TEXT | SQL_BOOL | SQL_INT | SQL_FLOAT | SQL_DOUBLE | SQL_DATE | SQL_DATETIME | SQL_TIME

text \<open>What reading the \<open>integer\<close> member of a value's union gives; the union is zero where it was not set. The bytes of the union
  behind a smaller member are taken for zero, as the compilers this code is built with leave them; C leaves them unspecified.\<close>

fun as_integer :: "val \<Rightarrow> u64" where
  "as_integer VNull = 0"
| "as_integer (VBool b) = (if b then 1 else 0)"
| "as_integer (VInt i) = i"
| "as_integer (VFloat d) = d"
| "as_integer (VText s) = 0"
| "as_integer (VU32 u) = ucast u"

section \<open>C strings\<close>

definition c_strlen :: "byte list \<Rightarrow> nat" where
  "c_strlen s = length (takeWhile (\<lambda>c. c \<noteq> 0) s)"

text \<open>\<open>strncmp\<close>: unsigned bytes, stopping at a difference, at a NUL or after \<open>n\<close> bytes.\<close>

fun c_strncmp :: "byte list \<Rightarrow> byte list \<Rightarrow> nat \<Rightarrow> int" where
  "c_strncmp (x # xs) (y # ys) (Suc n) =
     (if x \<noteq> y then uint x - uint y else if x = 0 then 0 else c_strncmp xs ys n)"
| "c_strncmp _ _ _ = 0"

lemma c_strlen_no_NUL [simp]: "0 \<notin> set s \<Longrightarrow> c_strlen s = length s"
  by (induction s) (auto simp: c_strlen_def)

section \<open>Ordering keys\<close>

datatype ordering_type = ORDERING_ULONG | ORDERING_STRING | ORDERING_DOUBLE

record ordering_key =
  otype :: ordering_type
  u64 :: u64
  string :: "byte list"     \<comment> \<open>\<open>char[TEXT_KEY_MAX_LEN + 1]\<close>\<close>

definition TEXT_KEY_MAX_LEN :: nat where "TEXT_KEY_MAX_LEN = 24"
definition NUMERIC_KEY_DISK_SIZE :: nat where "NUMERIC_KEY_DISK_SIZE = 8"

text \<open>\<open>(ordering_key){0}\<close>\<close>

definition zero_key :: ordering_key where
  "zero_key = \<lparr>otype = ORDERING_ULONG, u64 = 0, string = replicate (TEXT_KEY_MAX_LEN + 1) 0\<rparr>"

definition SIGN_BIT :: u64 where "SIGN_BIT = 0x8000000000000000"

definition pkToOk :: "val \<Rightarrow> ordering_key" where
  "pkToOk pk = (case pk of
     VFloat bits \<Rightarrow>
       let whole = (if drop_bit 63 bits \<noteq> 0 then NOT bits else bits XOR SIGN_BIT)
       in zero_key\<lparr>otype := ORDERING_DOUBLE, u64 := whole\<rparr>
   | VInt i \<Rightarrow> zero_key\<lparr>otype := ORDERING_ULONG, u64 := i XOR SIGN_BIT\<rparr>
   | VText s \<Rightarrow>
       let len = c_strlen s
       in if len > TEXT_KEY_MAX_LEN then zero_key
          else zero_key\<lparr>otype := ORDERING_STRING, string := blit (string zero_key) 0 (take len s)\<rparr>
   | VU32 u \<Rightarrow> zero_key\<lparr>otype := ORDERING_ULONG, u64 := ucast u\<rparr>
   | _ \<Rightarrow> zero_key\<lparr>otype := ORDERING_ULONG, u64 := as_integer pk\<rparr>)"

definition orderingKeyDiskSize :: "ordering_type \<Rightarrow> nat" where
  "orderingKeyDiskSize ty = (if ty = ORDERING_STRING then TEXT_KEY_MAX_LEN else NUMERIC_KEY_DISK_SIZE)"

definition txtKeyCmp :: "byte list \<Rightarrow> byte list \<Rightarrow> int" where
  "txtKeyCmp a b = (let cmp = c_strncmp a b TEXT_KEY_MAX_LEN
                    in if cmp < 0 then -1 else if cmp = 0 then 0 else 1)"

definition compareOrderingKeys :: "ordering_key \<Rightarrow> ordering_key \<Rightarrow> int" where
  "compareOrderingKeys a b =
     (if otype a \<noteq> otype b then 0
      else case otype a of
        ORDERING_STRING \<Rightarrow> txtKeyCmp (string a) (string b)
      | _ \<Rightarrow> if u64 a < u64 b then -1 else if u64 a = u64 b then 0 else 1)"

section \<open>Well-formed keys and their rank\<close>

text \<open>
  A string key is canonical when everything after its first NUL is zero; it then is the base-256
  number its bytes spell, and comparing strings is comparing these numbers. The rank of a key is
  that number, or the unsigned number of a numeric key.
\<close>

fun padded :: "byte list \<Rightarrow> bool" where
  "padded [] = True"
| "padded (c # cs) = (if c = 0 then cs = replicate (length cs) 0 else padded cs)"

fun digits256 :: "byte list \<Rightarrow> nat" where
  "digits256 [] = 0"
| "digits256 (c # cs) = unat c * 256 ^ length cs + digits256 cs"

definition wf_key :: "ordering_type \<Rightarrow> ordering_key \<Rightarrow> bool" where
  "wf_key ty k \<longleftrightarrow> otype k = ty \<and> length (string k) = TEXT_KEY_MAX_LEN + 1 \<and>
     (if ty = ORDERING_STRING then u64 k = 0 \<and> padded (string k) \<and> string k ! TEXT_KEY_MAX_LEN = 0
      else string k = string zero_key)"

definition key_rank :: "ordering_key \<Rightarrow> nat" where
  "key_rank k = (if otype k = ORDERING_STRING then digits256 (take TEXT_KEY_MAX_LEN (string k))
                 else unat (u64 k))"

lemma unat_byte_less: "unat (c :: byte) < 256"
  using unsigned_less [of c] by simp

lemma digits256_less: "digits256 cs < 256 ^ length cs"
proof (induction cs)
  case (Cons c cs)
  have "unat c * 256 ^ length cs + digits256 cs < (unat c + 1) * 256 ^ length cs"
    using Cons by (simp add: algebra_simps)
  also have "\<dots> \<le> 256 * 256 ^ length cs"
    using unat_byte_less [of c] by (intro mult_right_mono) auto
  finally show ?case by simp
qed simp

lemma digits256_zeros [simp]: "digits256 (replicate n 0) = 0"
  by (induction n) auto

lemma digits256_all_zero: "cs = replicate (length cs) 0 \<Longrightarrow> digits256 cs = 0"
  using digits256_zeros [of "length cs"] by argo

lemma digits256_Cons_less:
  assumes "length xs = length ys" "unat x < unat y"
  shows "digits256 (x # xs) < digits256 (y # ys)"
proof -
  have "digits256 (x # xs) < (unat x + 1) * 256 ^ length xs"
    using digits256_less [of xs] by (simp add: algebra_simps)
  also have "\<dots> \<le> unat y * 256 ^ length ys"
    using assms by (intro mult_mono) auto
  also have "\<dots> \<le> digits256 (y # ys)" by simp
  finally show ?thesis .
qed

lemma uint_unat_diff: "(uint (x::byte) - uint y < 0) = (unat x < unat y)" "(uint x - uint y = 0) = (x = y)"
  by (simp_all add: word_less_nat_alt [symmetric] word_less_def word_uint_eq_iff)

lemma c_strncmp_rank:
  assumes "length xs = n" "length ys = n" "padded xs" "padded ys"
  shows "sgn (c_strncmp xs ys n) = nat_cmp (digits256 xs) (digits256 ys)"
  using assms
proof (induction xs ys n rule: c_strncmp.induct)
  case (1 x xs y ys n)
  show ?case
  proof (cases "x = y")
    case True
    show ?thesis
    proof (cases "x = 0")
      case True
      with 1 \<open>x = y\<close> have "digits256 xs = 0" "digits256 ys = 0"
        by (simp_all add: digits256_all_zero)
      with True \<open>x = y\<close> show ?thesis by (simp add: nat_cmp_def)
    next
      case False
      with 1 \<open>x = y\<close> show ?thesis by (simp add: nat_cmp_def)
    qed
  next
    case False
    then have "unat x < unat y \<or> unat y < unat x" by (metis linorder_neqE_nat word_unat_eq_iff)
    then show ?thesis
    proof
      assume "unat x < unat y"
      with False 1 digits256_Cons_less [of xs ys x y] uint_unat_diff(1) [of x y] show ?thesis by (simp add: nat_cmp_def)
    next
      assume "unat y < unat x"
      with False 1 digits256_Cons_less [of ys xs y x] uint_unat_diff(1) [of y x] show ?thesis by (simp add: nat_cmp_def)
    qed
  qed
qed (auto simp: nat_cmp_def)

lemma padded_take: "padded xs \<Longrightarrow> padded (take n xs)"
proof (induction xs arbitrary: n)
  case (Cons x xs)
  show ?case
  proof (cases n)
    case (Suc m)
    have "take m xs = replicate (length (take m xs)) 0" if "xs = replicate (length xs) 0"
      using that by (metis length_take take_replicate min.commute)
    with Cons Suc show ?thesis by (simp split: if_splits)
  qed simp
qed simp

lemma c_strncmp_take: "n \<le> length xs \<Longrightarrow> n \<le> length ys \<Longrightarrow> c_strncmp (take n xs) (take n ys) n = c_strncmp xs ys n"
  by (induction xs ys n rule: c_strncmp.induct) (auto split: nat.splits)

text \<open>The comparison of two keys of a table is the comparison of their ranks.\<close>

lemma compare_rank:
  assumes "wf_key ty a" "wf_key ty b"
  shows "compareOrderingKeys a b = nat_cmp (key_rank a) (key_rank b)"
proof (cases "ty = ORDERING_STRING")
  case True
  let ?a = "take TEXT_KEY_MAX_LEN (string a)" and ?b = "take TEXT_KEY_MAX_LEN (string b)"
  have "compareOrderingKeys a b = txtKeyCmp (string a) (string b)"
    using assms True by (simp add: compareOrderingKeys_def wf_key_def)
  also have "\<dots> = sgn (c_strncmp (string a) (string b) TEXT_KEY_MAX_LEN)"
    by (simp add: txtKeyCmp_def Let_def sgn_if)
  also have "\<dots> = sgn (c_strncmp ?a ?b TEXT_KEY_MAX_LEN)"
    using assms by (simp add: c_strncmp_take wf_key_def)
  also have "\<dots> = nat_cmp (digits256 ?a) (digits256 ?b)"
    using assms True by (intro c_strncmp_rank) (auto simp: wf_key_def intro: padded_take)
  finally show ?thesis using assms True by (simp add: key_rank_def wf_key_def)
next
  case False
  with assms show ?thesis
    by (cases ty) (simp_all add: nat_cmp_def compareOrderingKeys_def wf_key_def key_rank_def
        word_less_nat_alt word_unat_eq_iff)
qed

lemma digits256_inj: "length xs = length ys \<Longrightarrow> digits256 xs = digits256 ys \<Longrightarrow> xs = ys"
proof (induction xs ys rule: list_induct2)
  case (Cons x xs y ys)
  then have "\<not> unat x < unat y" "\<not> unat y < unat x"
    using digits256_Cons_less [of xs ys x y] digits256_Cons_less [of ys xs y x] by auto
  then have "x = y" by (simp add: word_unat_eq_iff)
  with Cons show ?case by simp
qed simp

lemma key_rank_inj:
  assumes "wf_key ty a" "wf_key ty b" "key_rank a = key_rank b"
  shows "a = b"
proof (cases "ty = ORDERING_STRING")
  case True
  have "take TEXT_KEY_MAX_LEN (string a) = take TEXT_KEY_MAX_LEN (string b)"
    using assms True by (intro digits256_inj) (auto simp: wf_key_def key_rank_def)
  moreover have "string x = take TEXT_KEY_MAX_LEN (string x) @ [0]" if "wf_key ty x" for x
    using that True take_Suc_conv_app_nth [of TEXT_KEY_MAX_LEN "string x"] by (simp add: wf_key_def)
  ultimately have "string a = string b" using assms by metis
  with assms True show ?thesis by (intro ordering_key.equality) (auto simp: wf_key_def)
next
  case False
  with assms show ?thesis
    by (intro ordering_key.equality) (auto simp: wf_key_def key_rank_def word_unat_eq_iff)
qed

text \<open>So the keys of one table, of whatever type, are ordered as the searching code needs.\<close>

interpretation ok: key_order compareOrderingKeys "wf_key ty" key_rank for ty
  by unfold_locales (auto intro: compare_rank key_rank_inj)

section \<open>Primary keys become well-formed keys\<close>

text \<open>The type \<open>pkToOk\<close> gives the key of a value, for the values a primary key may have.\<close>

fun pk_type :: "val \<Rightarrow> ordering_type" where
  "pk_type (VFloat _) = ORDERING_DOUBLE"
| "pk_type (VText _) = ORDERING_STRING"
| "pk_type _ = ORDERING_ULONG"

definition fits_key :: "val \<Rightarrow> bool" where
  "fits_key pk = (case pk of VText s \<Rightarrow> 0 \<notin> set s \<and> length s \<le> TEXT_KEY_MAX_LEN | _ \<Rightarrow> True)"

lemma padded_append_zeros: "0 \<notin> set s \<Longrightarrow> padded (s @ replicate n 0)"
proof (induction s)
  case Nil
  then show ?case by (cases n) auto
qed auto

lemma string_pkToOk_text:
  assumes "0 \<notin> set s" "length s \<le> TEXT_KEY_MAX_LEN"
  shows "string (pkToOk (VText s)) = s @ replicate (TEXT_KEY_MAX_LEN + 1 - length s) 0"
  using assms by (simp add: pkToOk_def Let_def zero_key_def blit_def del: replicate.simps)

lemma pkToOk_wf:
  assumes "fits_key pk"
  shows "wf_key (pk_type pk) (pkToOk pk)"
proof (cases pk)
  case (VText s)
  with assms have s: "0 \<notin> set s" "length s \<le> TEXT_KEY_MAX_LEN" by (auto simp: fits_key_def)
  have "otype (pkToOk pk) = ORDERING_STRING" "u64 (pkToOk pk) = 0"
    using s VText by (simp_all add: pkToOk_def Let_def zero_key_def)
  with s VText string_pkToOk_text [OF s] show ?thesis
    by (simp add: wf_key_def padded_append_zeros nth_append)
qed (auto simp: pkToOk_def wf_key_def zero_key_def Let_def)

section \<open>The order of the keys is the order of the primary keys\<close>

lemma SIGN_BIT_push: "SIGN_BIT = push_bit 63 1"
  by (simp add: SIGN_BIT_def)

lemma bit_SIGN_BIT: "bit SIGN_BIT n = (n = 63)"
  unfolding SIGN_BIT_push bit_push_bit_iff by (auto simp: bit_1_iff)

text \<open>Flipping the sign bit adds \<open>2\<^sup>6\<^sup>3\<close>, which makes a two's complement number unsigned.\<close>

lemma flip_sign_plus: "(w :: u64) XOR SIGN_BIT = w + SIGN_BIT"
proof -
  have low: "x XOR SIGN_BIT = x + SIGN_BIT" if "\<not> bit x 63" for x :: u64
  proof -
    have "x AND SIGN_BIT = 0"
      using that by (intro bit_word_eqI) (auto simp: bit_and_iff bit_SIGN_BIT)
    then show ?thesis by (simp add: disjunctive_add_eq_xor)
  qed
  show ?thesis
  proof (cases "bit w 63")
    case False
    then show ?thesis by (rule low)
  next
    case True
    then have "\<not> bit (w XOR SIGN_BIT) 63" by (simp add: bit_xor_iff bit_SIGN_BIT)
    from low [OF this] have "w = (w XOR SIGN_BIT) + SIGN_BIT" by (simp only: xor.assoc xor_self_eq xor.right_neutral)
    then have "w + SIGN_BIT = (w XOR SIGN_BIT) + (SIGN_BIT + SIGN_BIT)" by (metis add.assoc)
    moreover have "SIGN_BIT + SIGN_BIT = 0" by (simp add: SIGN_BIT_def)
    ultimately show ?thesis by simp
  qed
qed

lemma flip_sign_uint: "uint ((w :: u64) XOR SIGN_BIT) = sint w + 2 ^ 63"
proof -
  have "uint (w + SIGN_BIT) = (uint w + 2 ^ 63) mod 2 ^ 64"
    by (simp add: uint_word_ariths SIGN_BIT_def)
  moreover have "sint w = take_bit 64 (uint w + 2 ^ 63) - 2 ^ 63"
    using signed_take_bit_eq_take_bit_shift [of 63 "uint w"]
    by (simp add: sint_uint)
  ultimately show ?thesis by (simp add: flip_sign_plus take_bit_eq_mod)
qed

lemma int_key_compare:
  "compareOrderingKeys (pkToOk (VInt a)) (pkToOk (VInt b)) =
     (if sint a < sint b then -1 else if a = b then 0 else 1)"
proof -
  have "(a XOR SIGN_BIT < b XOR SIGN_BIT) = (sint a < sint b)"
    by (simp add: word_less_def flip_sign_uint)
  moreover have "(a XOR SIGN_BIT = b XOR SIGN_BIT) = (a = b)"
    by (simp add: flip_sign_plus)
  ultimately show ?thesis
    by (simp add: pkToOk_def Let_def compareOrderingKeys_def zero_key_def)
qed

text \<open>Text: byte by byte, unsigned, a string after its own prefixes.\<close>

fun bytes_cmp :: "byte list \<Rightarrow> byte list \<Rightarrow> int" where
  "bytes_cmp [] [] = 0"
| "bytes_cmp [] (y # ys) = -1"
| "bytes_cmp (x # xs) [] = 1"
| "bytes_cmp (x # xs) (y # ys) = (if x < y then -1 else if y < x then 1 else bytes_cmp xs ys)"

lemma c_strncmp_zeros [simp]: "c_strncmp (replicate m 0) (replicate n 0) k = 0"
proof (induction m arbitrary: n k)
  case (Suc m)
  show ?case by (cases n; cases k) auto
qed simp

lemma sgn_uint_diff: "sgn (uint (x::byte) - uint y) = (if x < y then -1 else if y < x then 1 else 0)"
  by (simp add: sgn_if word_less_def word_uint_eq_iff)

lemma c_strncmp_padded:
  assumes "0 \<notin> set s" "0 \<notin> set t" "length s \<le> k" "length t \<le> k" "k \<le> length s + m" "k \<le> length t + n"
  shows "sgn (c_strncmp (s @ replicate m 0) (t @ replicate n 0) k) = bytes_cmp s t"
  using assms
proof (induction s t arbitrary: k rule: bytes_cmp.induct)
  case (2 y ys)
  then obtain m' k' where "m = Suc m'" "k = Suc k'" by (cases m; cases k) auto
  with 2 sgn_uint_diff [of 0 y] show ?case by (auto simp: word_neq_0_conv [symmetric] word_gt_0)
next
  case (3 x xs)
  then obtain n' k' where "n = Suc n'" "k = Suc k'" by (cases n; cases k) auto
  with 3 sgn_uint_diff [of x 0] show ?case by (auto simp: word_gt_0)
next
  case (4 x xs y ys)
  then obtain k' where k: "k = Suc k'" by (cases k) auto
  show ?case
  proof (cases "x = y")
    case True
    with 4 k show ?thesis by simp
  next
    case False
    with k sgn_uint_diff [of x y] show ?thesis by auto
  qed
qed simp

lemma text_key_compare:
  assumes "fits_key (VText s)" "fits_key (VText t)"
  shows "compareOrderingKeys (pkToOk (VText s)) (pkToOk (VText t)) = bytes_cmp s t"
proof -
  note f = assms [unfolded fits_key_def, simplified]
  have "otype (pkToOk (VText s)) = ORDERING_STRING" "otype (pkToOk (VText t)) = ORDERING_STRING"
    using f by (simp_all add: pkToOk_def Let_def)
  then have "compareOrderingKeys (pkToOk (VText s)) (pkToOk (VText t)) =
      sgn (c_strncmp (string (pkToOk (VText s))) (string (pkToOk (VText t))) TEXT_KEY_MAX_LEN)"
    by (simp add: compareOrderingKeys_def txtKeyCmp_def Let_def sgn_if)
  with f show ?thesis by (simp add: string_pkToOk_text c_strncmp_padded del: replicate.simps)
qed

text \<open>
  Doubles, by their IEEE 754 value: a sign and a magnitude of exponent and mantissa. In units of
  \<open>2\<close> to the \<open>-1074\<close> every finite value is an integer, and infinity comes out above them all.
\<close>

definition ieee_scaled :: "nat \<Rightarrow> nat" where
  "ieee_scaled mag = (let e = mag div 2 ^ 52; m = mag mod 2 ^ 52
                      in if e = 0 then m else (2 ^ 52 + m) * 2 ^ (e - 1))"

definition ieee_value :: "u64 \<Rightarrow> int" where
  "ieee_value bits = (let v = int (ieee_scaled (unat bits mod 2 ^ 63))
                      in if bit bits 63 then - v else v)"

lemma ieee_scaled_Suc: "ieee_scaled mag < ieee_scaled (Suc mag)"
proof (cases "Suc (mag mod 2 ^ 52) = 2 ^ 52")
  case True
  then have d: "Suc mag div 2 ^ 52 = Suc (mag div 2 ^ 52)" and m: "Suc mag mod 2 ^ 52 = 0"
    by (simp_all add: div_Suc mod_Suc)
  have "(2 ^ 52 + mag mod 2 ^ 52) < (2::nat) ^ 53" using True by simp
  then have "(2 ^ 52 + mag mod 2 ^ 52) * 2 ^ (e - 1) < (2::nat) ^ 53 * 2 ^ (e - 1)" for e by simp
  moreover have "(2::nat) ^ 53 * 2 ^ (e - 1) = 2 ^ 52 * 2 ^ e" if "0 < e" for e
    using that by (cases e) simp_all
  ultimately have "0 < e \<Longrightarrow> (2 ^ 52 + mag mod 2 ^ 52) * 2 ^ (e - 1) < (2::nat) ^ 52 * 2 ^ e" for e
    by metis
  then have "0 < mag div 2 ^ 52 \<Longrightarrow> (2 ^ 52 + mag mod 2 ^ 52) * 2 ^ (mag div 2 ^ 52 - 1) < (2::nat) ^ 52 * 2 ^ (mag div 2 ^ 52)"
    by blast
  moreover have "mag mod 2 ^ 52 < (2::nat) ^ 52" by (rule mod_less_divisor) simp
  ultimately show ?thesis unfolding ieee_scaled_def Let_def d m
    by (cases "mag div 2 ^ 52 = 0") simp_all
next
  case False
  then have d: "Suc mag div 2 ^ 52 = mag div 2 ^ 52" and m: "Suc mag mod 2 ^ 52 = Suc (mag mod 2 ^ 52)"
    by (simp_all add: div_Suc mod_Suc)
  show ?thesis unfolding ieee_scaled_def Let_def d m by simp
qed

lemma ieee_scaled_mono: "strict_mono ieee_scaled"
  by (simp add: strict_mono_Suc_iff ieee_scaled_Suc)

lemma ieee_scaled_less: "(ieee_scaled m < ieee_scaled n) = (m < n)"
  by (rule strict_mono_less [OF ieee_scaled_mono])

lemma ieee_scaled_0: "(ieee_scaled m = 0) = (m = 0)"
  using ieee_scaled_less [of 0 m] by (auto simp: ieee_scaled_def)

lemma sign_and_magnitude: "unat (w :: u64) = (if bit w 63 then 2 ^ 63 else 0) + unat w mod 2 ^ 63"
proof -
  have "odd (unat w div 2 ^ 63) = bit w 63"
    using bit_unsigned_iff [of w 63, where 'a = nat] by (simp add: bit_iff_odd)
  moreover have "unat w div 2 ^ 63 < 2"
    using unsigned_less [of w] by (simp add: div_less_iff_less_mult)
  ultimately have "unat w div 2 ^ 63 = (if bit w 63 then 1 else 0)" by (auto simp: less_2_cases_iff)
  then show ?thesis using div_mult_mod_eq [of "unat w" "2 ^ 63"] by (simp split: if_splits)
qed

lemma unat_NOT: "unat (NOT w :: u64) = 2 ^ 64 - 1 - unat w"
proof -
  have "NOT w = -1 - w" by (simp add: not_eq_complement)
  moreover have "unat (-1 - w) = unat (-1 :: u64) - unat w"
    by (rule unat_sub) simp
  moreover have "unat (-1 :: u64) = 2 ^ 64 - 1"
    by (simp add: unsigned_minus_1_eq_mask mask_eq_exp_minus_1)
  ultimately show ?thesis by simp
qed

lemma top_bit_test: "(drop_bit 63 (w :: u64) \<noteq> 0) = bit w 63"
proof
  assume "bit w 63"
  then show "drop_bit 63 w \<noteq> 0" by (auto simp: bit_eq_iff bit_drop_bit_eq intro: exI [of _ 0])
next
  assume "drop_bit 63 w \<noteq> 0"
  then obtain n where "bit w (63 + n)" by (auto simp: bit_eq_iff bit_drop_bit_eq)
  with bit_imp_le_length [OF this] show "bit w 63" by simp
qed

lemma float_whole:
  "unat (u64 (pkToOk (VFloat bits))) =
     (if bit bits 63 then 2 ^ 63 - 1 - unat bits mod 2 ^ 63 else 2 ^ 63 + unat bits mod 2 ^ 63)"
proof (cases "bit bits 63")
  case True
  then have "u64 (pkToOk (VFloat bits)) = NOT bits" by (simp add: pkToOk_def Let_def top_bit_test)
  with True sign_and_magnitude [of bits] show ?thesis by (simp add: unat_NOT)
next
  case False
  then have "u64 (pkToOk (VFloat bits)) = bits OR SIGN_BIT"
    by (auto simp: pkToOk_def Let_def top_bit_test bit_or_iff bit_xor_iff bit_SIGN_BIT intro!: bit_word_eqI)
  moreover have "unat (bits OR SIGN_BIT) mod 2 ^ 63 = unat bits mod 2 ^ 63"
    unfolding take_bit_eq_mod [symmetric]
    by (rule bit_eqI) (auto simp: bit_take_bit_iff bit_unsigned_iff bit_or_iff bit_SIGN_BIT)
  ultimately show ?thesis
    using False sign_and_magnitude [of "bits OR SIGN_BIT"] by (simp add: bit_or_iff bit_SIGN_BIT)
qed

lemma signed_order:
  assumes "x < B" "y < B"
  shows "nat_cmp (if s then B - 1 - x else B + x) (if t then B - 1 - y else B + y) =
     (if (if s then - int (ieee_scaled x) else int (ieee_scaled x))
          < (if t then - int (ieee_scaled y) else int (ieee_scaled y)) then -1
      else if (if t then - int (ieee_scaled y) else int (ieee_scaled y))
          < (if s then - int (ieee_scaled x) else int (ieee_scaled x)) then 1
      else if s = t \<and> x = y then 0 else if s then -1 else 1)"
proof -
  consider (less) "x < y" "ieee_scaled x < ieee_scaled y" "0 < ieee_scaled y"
    | (greater) "y < x" "ieee_scaled y < ieee_scaled x" "0 < ieee_scaled x"
    | (same) "x = y" "ieee_scaled x = ieee_scaled y"
    using ieee_scaled_less [of x y] ieee_scaled_less [of y x] by fastforce
  then show ?thesis
    using assms by cases (cases s; cases t; simp add: nat_cmp_def; linarith)+
qed

text \<open>The keys of doubles that have the same value are equal, except that \<open>-0\<close> sorts below \<open>+0\<close>.\<close>

lemma float_key_compare:
  "compareOrderingKeys (pkToOk (VFloat a)) (pkToOk (VFloat b)) =
     (if ieee_value a < ieee_value b then -1
      else if ieee_value b < ieee_value a then 1
      else if a = b then 0 else if bit a 63 then -1 else 1)"
proof -
  let ?ma = "unat a mod 2 ^ 63" and ?mb = "unat b mod 2 ^ 63"
  have bound: "?ma < 2 ^ 63" "?mb < 2 ^ 63" by simp_all
  have key: "compareOrderingKeys (pkToOk (VFloat a)) (pkToOk (VFloat b)) =
      nat_cmp (unat (u64 (pkToOk (VFloat a)))) (unat (u64 (pkToOk (VFloat b))))"
    by (simp add: compareOrderingKeys_def nat_cmp_def pkToOk_def Let_def word_less_nat_alt word_unat_eq_iff)
  have eq: "(a = b) = ((bit a 63 = bit b 63) \<and> ?ma = ?mb)"
  proof
    assume "bit a 63 = bit b 63 \<and> ?ma = ?mb"
    then have "unat a = unat b" using sign_and_magnitude [of a] sign_and_magnitude [of b] by simp
    then show "a = b" by (simp add: word_unat_eq_iff)
  qed simp
  show ?thesis
    unfolding key float_whole nat_cmp_def ieee_value_def Let_def eq
    by (rule signed_order [unfolded nat_cmp_def]) (rule bound)+
qed

section \<open>Properties\<close>

text \<open>C18: The unsigned comparison of ordering keys is the order of the values. Integers sort as signed 64-bit integers, over the
  whole range. Doubles sort by the value of the IEEE 754 double, for every bit pattern read as sign, exponent and mantissa; bit
  patterns of equal value are equal keys, except that \<open>-0\<close> sorts below \<open>+0\<close>. Texts of up to 24 bytes sort byte by byte as
  unsigned bytes, a string after its own prefixes, and compare equal only when they are the same string.\<close>

theorem key_order:
  "compareOrderingKeys (pkToOk (VInt a)) (pkToOk (VInt b)) = (if sint a < sint b then -1 else if a = b then 0 else 1) \<and>
   compareOrderingKeys (pkToOk (VFloat f)) (pkToOk (VFloat g)) =
     (if ieee_value f < ieee_value g then -1
      else if ieee_value g < ieee_value f then 1
      else if f = g then 0 else if bit f 63 then -1 else 1) \<and>
   (0 \<notin> set s \<longrightarrow> 0 \<notin> set t \<longrightarrow> length s \<le> TEXT_KEY_MAX_LEN \<longrightarrow> length t \<le> TEXT_KEY_MAX_LEN \<longrightarrow>
     compareOrderingKeys (pkToOk (VText s)) (pkToOk (VText t)) = bytes_cmp s t)"
proof (intro conjI impI)
  show "compareOrderingKeys (pkToOk (VInt a)) (pkToOk (VInt b)) = (if sint a < sint b then -1 else if a = b then 0 else 1)"
    by (rule int_key_compare)
  show "compareOrderingKeys (pkToOk (VFloat f)) (pkToOk (VFloat g)) =
     (if ieee_value f < ieee_value g then -1 else if ieee_value g < ieee_value f then 1 else if f = g then 0 else if bit f 63 then -1 else 1)"
    by (rule float_key_compare)
  assume "0 \<notin> set s" "0 \<notin> set t" "length s \<le> TEXT_KEY_MAX_LEN" "length t \<le> TEXT_KEY_MAX_LEN"
  then show "compareOrderingKeys (pkToOk (VText s)) (pkToOk (VText t)) = bytes_cmp s t"
    by (intro text_key_compare) (simp_all add: fits_key_def)
qed

theorem key_order_witness:
  "compareOrderingKeys (pkToOk (VText [97, 98])) (pkToOk (VText [97, 98, 99])) = -1"
  using key_order [of _ _ _ _ "[97, 98]" "[97, 98, 99]"] by (simp add: TEXT_KEY_MAX_LEN_def)

end
