(* ===== verification/SlottedPage.thy ===== *)
theory SlottedPage
  imports Ordering
begin

text \<open>
  \<open>storage_engine/page.c\<close>: slotted pages in memory. A page has a header, an array of slots kept sorted
  by key and an array of entries; a slot says where its record's entries begin (\<open>ptr\<close>), how many there
  are and how many bytes they hold. The arrays are modelled with their allocated length, of which the
  first \<open>numRecords\<close> and \<open>numEntries\<close> elements are in use, and every loop that moves elements is kept.

  The abstraction of a page is the list of its records in key order (\<open>records\<close>): a key and its entries
  each. The operations are refined to list operations on it. Memory management (\<open>malloc\<close>, \<open>free\<close>) has
  no counterpart; counters are \<open>uint32_t\<close> as numbers with the wrap-around written out where sums of
  sizes are formed.
\<close>

section \<open>Data (page.h)\<close>

datatype dtype = T_INT | T_STRING | T_DATE | T_TIME

record entry =
  edata :: "byte list"
  esize :: nat
  etype :: dtype

record sp_record =
  rentries :: "entry list"
  rlen :: nat
  rsize :: nat

record sp_slot =
  ID :: ordering_key
  ptr :: nat
  slen :: nat
  ssize :: nat

record header =
  minKey :: ordering_key
  maxKey :: ordering_key
  usedData :: nat
  numRecords :: nat
  numEntries :: nat
  arrCap :: nat
  maxEntries :: nat
  maxSlots :: nat
  keySize :: nat

record slotted_page =
  hdr :: header
  entries :: "entry list"
  slots :: "sp_slot list"

definition zero_entry :: entry where "zero_entry = \<lparr>edata = [], esize = 0, etype = T_INT\<rparr>"
definition zero_slot :: sp_slot where "zero_slot = \<lparr>ID = zero_key, ptr = 0, slen = 0, ssize = 0\<rparr>"

definition SP_SLOT_DISK_SIZE :: "nat \<Rightarrow> nat" where "SP_SLOT_DISK_SIZE ks = ks + 12"

section \<open>Helpers\<close>

definition SPRecordBytes :: "slotted_page \<Rightarrow> nat \<Rightarrow> nat \<Rightarrow> nat" where
  "SPRecordBytes p sz n = u32_of (SP_SLOT_DISK_SIZE (keySize (hdr p)) + 6 * n + sz)"

definition SPUsedBytes :: "slotted_page \<Rightarrow> nat" where
  "SPUsedBytes p = u32_of (numRecords (hdr p) * SP_SLOT_DISK_SIZE (keySize (hdr p))
                    + 6 * numEntries (hdr p) + usedData (hdr p))"

definition SPFits :: "slotted_page \<Rightarrow> bool" where
  "SPFits p = (SPUsedBytes p \<le> arrCap (hdr p))"

definition SPHasRoom :: "slotted_page \<Rightarrow> nat \<Rightarrow> nat \<Rightarrow> bool" where
  "SPHasRoom p sz n = (u32_add (SPUsedBytes p) (SPRecordBytes p sz n) \<le> arrCap (hdr p))"

definition searchSlotArray :: "slotted_page \<Rightarrow> ordering_key \<Rightarrow> nat" where
  "searchSlotArray p key =
     lower_bound_loop (\<lambda>mid. compareOrderingKeys (ID (slots p ! mid)) key < 0) 0 (numRecords (hdr p))"

definition updateKeyBounds :: "slotted_page \<Rightarrow> slotted_page" where
  "updateKeyBounds p =
     (if numRecords (hdr p) = 0
      then p\<lparr>hdr := (hdr p)\<lparr>minKey := zero_key, maxKey := zero_key\<rparr>\<rparr>
      else p\<lparr>hdr := (hdr p)\<lparr>minKey := ID (slots p ! 0), maxKey := ID (slots p ! (numRecords (hdr p) - 1))\<rparr>\<rparr>)"

text \<open>\<open>-1\<close> after the error message, with nothing moved, is \<open>None\<close>.\<close>

definition shiftSlotArrayR :: "sp_slot list \<Rightarrow> nat \<Rightarrow> nat \<Rightarrow> sp_slot list option" where
  "shiftSlotArrayR array start len =
     (if start > len then None else Some (shift_right array start len))"

definition shiftSlotArrayL :: "sp_slot list \<Rightarrow> nat \<Rightarrow> nat \<Rightarrow> sp_slot list option" where
  "shiftSlotArrayL array target len =
     (if int target > int len - 1 then None else Some (shift_left 1 array target (len - 1)))"

definition makeSPage :: "nat \<Rightarrow> nat \<Rightarrow> nat \<Rightarrow> nat \<Rightarrow> slotted_page" where
  "makeSPage numSlots numEnts capacity ks =
     \<lparr>hdr = \<lparr>minKey = zero_key, maxKey = zero_key, usedData = 0, numRecords = 0, numEntries = 0,
             arrCap = capacity, maxEntries = numEnts, maxSlots = numSlots, keySize = ks\<rparr>,
      entries = replicate numEnts zero_entry, slots = replicate numSlots zero_slot\<rparr>"

section \<open>Insertion, deletion, update, lookup\<close>

text \<open>\<open>(uint32_t) n * 1.5 + 1\<close>, computed in a \<open>double\<close> and truncated.\<close>

definition grown :: "nat \<Rightarrow> nat" where "grown n = n * 3 div 2 + 1"

definition growSlots :: "slotted_page \<Rightarrow> slotted_page" where
  "growSlots p =
     (if numRecords (hdr p) \<ge> maxSlots (hdr p)
      then let newMax = grown (maxSlots (hdr p))
           in p\<lparr>slots := slots p @ replicate (newMax - maxSlots (hdr p)) zero_slot,
                hdr := (hdr p)\<lparr>maxSlots := newMax\<rparr>\<rparr>
      else p)"

definition growEntries :: "slotted_page \<Rightarrow> nat \<Rightarrow> slotted_page" where
  "growEntries p n =
     (if numEntries (hdr p) + n > maxEntries (hdr p)
      then let newMax = grown (numEntries (hdr p) + n)
           in p\<lparr>entries := entries p @ replicate (newMax - maxEntries (hdr p)) zero_entry,
                hdr := (hdr p)\<lparr>maxEntries := newMax\<rparr>\<rparr>
      else p)"

definition SPInsert :: "slotted_page \<Rightarrow> ordering_key \<Rightarrow> sp_record \<Rightarrow> bool \<times> slotted_page" where
  "SPInsert p key r =
     (if \<not> SPHasRoom p (rsize r) (rlen r) then (False, p)
      else
        let p1 = growEntries (growSlots p) (rlen r);
            index = searchSlotArray p1 key;
            n = numRecords (hdr p1);
            moved = (case shiftSlotArrayR (slots p1) index (n + 1) of None \<Rightarrow> slots p1 | Some a \<Rightarrow> a);
            p2 = p1\<lparr>slots := moved[index := \<lparr>ID = key, ptr = numEntries (hdr p1), slen = rlen r, ssize = rsize r\<rparr>],
                    hdr := (hdr p1)\<lparr>numRecords := n + 1\<rparr>\<rparr>;
            p3 = fold (\<lambda>i q. q\<lparr>entries := (entries q)[numEntries (hdr q) := rentries r ! i],
                              hdr := (hdr q)\<lparr>numEntries := numEntries (hdr q) + 1\<rparr>\<rparr>) [0..<rlen r] p2;
            p4 = p3\<lparr>hdr := (hdr p3)\<lparr>usedData := u32_add (usedData (hdr p3)) (rsize r)\<rparr>\<rparr>
        in (True, updateKeyBounds p4))"

definition SPDelete :: "slotted_page \<Rightarrow> ordering_key \<Rightarrow> bool \<times> slotted_page" where
  "SPDelete p key =
     (let index = searchSlotArray p key; n = numRecords (hdr p)
      in if index \<ge> n \<or> compareOrderingKeys (ID (slots p ! index)) key \<noteq> 0 then (False, p)
      else
        let deleted = slots p ! index;
            used = u32_sub (usedData (hdr p)) (ssize deleted);
            freed = fold (\<lambda>i a. a[ptr deleted + i := (a ! (ptr deleted + i))\<lparr>edata := []\<rparr>]) [0..<slen deleted] (entries p);
            oldNumEntries = numEntries (hdr p);
            compacted = shift_left (slen deleted) freed (ptr deleted) (oldNumEntries - slen deleted);
            rebased = fold (\<lambda>i a. if i = index then a
                                 else if ptr (a ! i) > ptr deleted
                                 then a[i := (a ! i)\<lparr>ptr := ptr (a ! i) - slen deleted\<rparr>] else a) [0..<n] (slots p);
            cleared = fold (\<lambda>i a. a[i := zero_entry]) [oldNumEntries - slen deleted..<oldNumEntries] compacted;
            moved = (case shiftSlotArrayL rebased index n of None \<Rightarrow> rebased | Some a \<Rightarrow> a)
        in (True, updateKeyBounds (p\<lparr>entries := cleared, slots := moved,
              hdr := (hdr p)\<lparr>usedData := used, numEntries := oldNumEntries - slen deleted, numRecords := n - 1\<rparr>\<rparr>)))"

definition SPUpdate :: "slotted_page \<Rightarrow> ordering_key \<Rightarrow> sp_record \<Rightarrow> bool \<times> slotted_page" where
  "SPUpdate p key r =
     (let index = searchSlotArray p key
      in if index \<ge> numRecords (hdr p) then (False, p)
      else let s = slots p ! index
      in if compareOrderingKeys (ID s) key \<noteq> 0 \<or> slen s < rlen r then (False, p)
      else (True, fold (\<lambda>i q.
             let change = u32_sub (esize (rentries r ! i)) (esize (entries q ! (ptr s + i)))
             in q\<lparr>slots := (slots q)[index := (slots q ! index)\<lparr>ssize := u32_add (ssize (slots q ! index)) change\<rparr>],
                  hdr := (hdr q)\<lparr>usedData := u32_add (usedData (hdr q)) change\<rparr>,
                  entries := (entries q)[ptr s + i := rentries r ! i]\<rparr>) [0..<rlen r] p))"

text \<open>The entries of the record found, or \<open>None\<close> for \<open>{NULL, 0}\<close>.\<close>

definition SPRead :: "slotted_page \<Rightarrow> ordering_key \<Rightarrow> entry list option" where
  "SPRead p key =
     (let index = searchSlotArray p key
      in if index \<ge> numRecords (hdr p) then None
      else let s = slots p ! index
      in if compareOrderingKeys (ID s) key \<noteq> 0 then None
      else Some (segment (entries p) (ptr s) (slen s)))"

text \<open>The slot index, or \<open>None\<close> for \<open>-1\<close>.\<close>

definition SPSearch :: "slotted_page \<Rightarrow> ordering_key \<Rightarrow> nat option" where
  "SPSearch p key =
     (let index = searchSlotArray p key
      in if index \<ge> numRecords (hdr p) then None
      else if compareOrderingKeys (ID (slots p ! index)) key \<noteq> 0 then None
      else Some index)"

definition SPPosition :: "slotted_page \<Rightarrow> ordering_key \<Rightarrow> nat" where
  "SPPosition p key = searchSlotArray p key"

section \<open>Splitting\<close>

text \<open>What the loop of \<open>SPSplit\<close> changes: the lower page's slots, the array its entries are gathered
  into with how much is in it, and the upper page.\<close>

record split_state =
  sp_slots :: "sp_slot list"
  kept :: "entry list"
  keptEntries :: nat
  keptData :: nat
  up :: slotted_page

definition split_step :: "slotted_page \<Rightarrow> nat \<Rightarrow> nat \<Rightarrow> split_state \<Rightarrow> split_state" where
  "split_step p index i st =
     (let s = sp_slots st ! i; es = segment (entries p) (ptr s) (slen s)
      in if i < index
         then st\<lparr>kept := blit (kept st) (keptEntries st) es,
                 sp_slots := (sp_slots st)[i := s\<lparr>ptr := keptEntries st\<rparr>],
                 keptEntries := keptEntries st + slen s,
                 keptData := u32_add (keptData st) (ssize s)\<rparr>
         else let u = up st; h = hdr u
              in st\<lparr>up := u\<lparr>slots := (slots u)[numRecords h := s\<lparr>ptr := numEntries h\<rparr>],
                            entries := blit (entries u) (numEntries h) es,
                            hdr := h\<lparr>numRecords := numRecords h + 1,
                                     numEntries := numEntries h + slen s,
                                     usedData := u32_add (usedData h) (ssize s)\<rparr>\<rparr>,
                    sp_slots := (sp_slots st)[i := zero_slot]\<rparr>)"

definition SPSplit :: "slotted_page \<Rightarrow> slotted_page \<Rightarrow> nat \<Rightarrow> slotted_page \<times> slotted_page" where
  "SPSplit p upper index0 =
     (let total = numRecords (hdr p);
          index = (if index0 > total then total else index0);
          movedSlots = total - index;
          movedEntries = sum_list (map (\<lambda>i. slen (slots p ! i)) [index..<total]);
          u1 = (if movedSlots > maxSlots (hdr upper)
                then upper\<lparr>slots := slots upper @ replicate (movedSlots - maxSlots (hdr upper)) zero_slot,
                           hdr := (hdr upper)\<lparr>maxSlots := movedSlots\<rparr>\<rparr> else upper);
          u2 = (if movedEntries > maxEntries (hdr u1)
                then u1\<lparr>entries := entries u1 @ replicate (movedEntries - maxEntries (hdr u1)) zero_entry,
                        hdr := (hdr u1)\<lparr>maxEntries := movedEntries\<rparr>\<rparr> else u1);
          st0 = \<lparr>sp_slots = slots p, kept = replicate (maxEntries (hdr p)) zero_entry,
                 keptEntries = 0, keptData = 0, up = u2\<rparr>;
          st = fold (split_step p index) [0..<total] st0
      in (updateKeyBounds (p\<lparr>entries := kept st, slots := sp_slots st,
            hdr := (hdr p)\<lparr>numRecords := index, numEntries := keptEntries st, usedData := keptData st\<rparr>\<rparr>),
          updateKeyBounds (up st)))"

section \<open>The abstraction: a page is a list of records in key order\<close>

type_synonym rec = "ordering_key \<times> entry list"

definition live_slots :: "slotted_page \<Rightarrow> sp_slot list" where
  "live_slots p = take (numRecords (hdr p)) (slots p)"

definition slot_entries :: "slotted_page \<Rightarrow> sp_slot \<Rightarrow> entry list" where
  "slot_entries p s = segment (entries p) (ptr s) (slen s)"

definition records :: "slotted_page \<Rightarrow> rec list" where
  "records p = map (\<lambda>s. (ID s, slot_entries p s)) (live_slots p)"

definition entry_bytes :: "entry list \<Rightarrow> nat" where
  "entry_bytes es = sum_list (map esize es)"

text \<open>What records take on disk: a slot each, six bytes for each entry, and their data.\<close>

definition rec_bytes :: "nat \<Rightarrow> rec \<Rightarrow> nat" where
  "rec_bytes ks r = SP_SLOT_DISK_SIZE ks + 6 * length (snd r) + entry_bytes (snd r)"

definition recs_bytes :: "nat \<Rightarrow> rec list \<Rightarrow> nat" where
  "recs_bytes ks rs = sum_list (map (rec_bytes ks) rs)"

text \<open>Records in strictly increasing key order, with keys of the table's type.\<close>

definition sorted_recs :: "ordering_type \<Rightarrow> rec list \<Rightarrow> bool" where
  "sorted_recs ty rs \<longleftrightarrow> (\<forall>r \<in> set rs. wf_key ty (fst r)) \<and> sorted_wrt (<) (map (key_rank \<circ> fst) rs)"

definition slot_ok :: "slotted_page \<Rightarrow> sp_slot \<Rightarrow> bool" where
  "slot_ok p s \<longleftrightarrow> ptr s + slen s \<le> numEntries (hdr p) \<and> ssize s = entry_bytes (slot_entries p s)"

definition apart :: "sp_slot \<Rightarrow> sp_slot \<Rightarrow> bool" where
  "apart s t \<longleftrightarrow> ptr s + slen s \<le> ptr t \<or> ptr t + slen t \<le> ptr s"

definition bounds_ok :: "slotted_page \<Rightarrow> bool" where
  "bounds_ok p \<longleftrightarrow>
     (if numRecords (hdr p) = 0 then minKey (hdr p) = zero_key \<and> maxKey (hdr p) = zero_key
      else minKey (hdr p) = ID (hd (live_slots p)) \<and> maxKey (hdr p) = ID (last (live_slots p)))"

text \<open>Everything but the key bounds, which the operations set last.\<close>

definition page_shape :: "ordering_type \<Rightarrow> slotted_page \<Rightarrow> bool" where
  "page_shape ty p \<longleftrightarrow>
     length (slots p) = maxSlots (hdr p) \<and> numRecords (hdr p) \<le> maxSlots (hdr p) \<and>
     length (entries p) = maxEntries (hdr p) \<and> numEntries (hdr p) \<le> maxEntries (hdr p) \<and>
     keySize (hdr p) = orderingKeyDiskSize ty \<and>
     sorted_recs ty (records p) \<and>
     (\<forall>s \<in> set (live_slots p). slot_ok p s) \<and>
     sorted_wrt apart (live_slots p) \<and>
     numEntries (hdr p) = sum_list (map slen (live_slots p)) \<and>
     usedData (hdr p) = sum_list (map ssize (live_slots p)) \<and>
     recs_bytes (keySize (hdr p)) (records p) < 2 ^ 32"

definition wf_page :: "ordering_type \<Rightarrow> slotted_page \<Rightarrow> bool" where
  "wf_page ty p \<longleftrightarrow> page_shape ty p \<and> bounds_ok p"

section \<open>Reading the abstraction\<close>

lemma shape_parts:
  assumes "page_shape ty p"
  shows "length (slots p) = maxSlots (hdr p)" "numRecords (hdr p) \<le> maxSlots (hdr p)"
    "length (entries p) = maxEntries (hdr p)" "numEntries (hdr p) \<le> maxEntries (hdr p)"
    "keySize (hdr p) = orderingKeyDiskSize ty" "sorted_recs ty (records p)"
    "\<And>s. s \<in> set (live_slots p) \<Longrightarrow> slot_ok p s" "sorted_wrt apart (live_slots p)"
    "numEntries (hdr p) = sum_list (map slen (live_slots p))"
    "usedData (hdr p) = sum_list (map ssize (live_slots p))"
    "recs_bytes (keySize (hdr p)) (records p) < 2 ^ 32"
  using assms by (auto simp: page_shape_def)

lemma length_live: "page_shape ty p \<Longrightarrow> length (live_slots p) = numRecords (hdr p)"
  by (simp add: page_shape_def live_slots_def)

lemma length_records: "page_shape ty p \<Longrightarrow> length (records p) = numRecords (hdr p)"
  by (simp add: records_def length_live)

lemma keys_records: "map fst (records p) = map ID (live_slots p)"
  by (simp add: records_def)

lemma nth_live: "i < numRecords (hdr p) \<Longrightarrow> live_slots p ! i = slots p ! i"
  by (simp add: live_slots_def)

lemma sorted_recs_keys:
  "sorted_recs ty rs \<longleftrightarrow> (\<forall>k \<in> set (map fst rs). wf_key ty k) \<and> sorted_wrt (<) (map key_rank (map fst rs))"
  by (simp add: sorted_recs_def)

text \<open>The search, over the list of keys.\<close>

definition key_pos :: "rec list \<Rightarrow> ordering_key \<Rightarrow> nat" where
  "key_pos rs key =
     lower_bound_loop (\<lambda>i. compareOrderingKeys (map fst rs ! i) key < 0) 0 (length (map fst rs))"

lemma search_key_pos:
  assumes "page_shape ty p"
  shows "searchSlotArray p key = key_pos (records p) key"
  unfolding searchSlotArray_def key_pos_def length_map length_records [OF assms]
  by (rule lower_bound_cong)
     (use assms in \<open>simp add: keys_records nth_live length_live\<close>)

lemma key_pos_le: "key_pos rs key \<le> length rs"
  using lower_bound_range [of 0 "length (map fst rs)"] by (simp add: key_pos_def)

lemma key_pos_hit:
  assumes "sorted_recs ty rs" "wf_key ty key"
  shows "(key_pos rs key < length rs \<and> compareOrderingKeys (fst (rs ! key_pos rs key)) key = 0)
         = (key \<in> fst ` set rs)"
proof -
  note h = ok.search_hit [of "map fst rs" ty key "key_pos rs key"]
  have "(key_pos rs key < length (map fst rs) \<and> compareOrderingKeys (map fst rs ! key_pos rs key) key = 0)
        = (key \<in> set (map fst rs))"
    by (rule h) (use assms in \<open>auto simp: sorted_recs_def key_pos_def comp_def\<close>)
  then show ?thesis by (auto simp: nth_map)
qed

lemma key_pos_at:
  assumes "sorted_recs ty rs" "wf_key ty key" "i < length rs" "fst (rs ! i) = key"
  shows "key_pos rs key = i"
proof -
  have hit: "key_pos rs key < length rs" "compareOrderingKeys (fst (rs ! key_pos rs key)) key = 0"
    using key_pos_hit [OF assms(1,2)] assms(3,4) by (metis image_eqI nth_mem)+
  have "wf_key ty (fst (rs ! key_pos rs key))" using assms(1) hit(1) by (simp add: sorted_recs_def)
  then have eq: "fst (rs ! key_pos rs key) = fst (rs ! i)" using hit(2) assms ok.cmp_eq by metis
  have d: "distinct (map (key_rank \<circ> fst) rs)"
    using assms(1) by (simp add: sorted_recs_def strict_sorted_iff)
  show ?thesis using nth_eq_iff_index_eq [OF d, of "key_pos rs key" i] eq hit(1) assms(3) by simp
qed

lemma key_pos_splits:
  assumes "sorted_recs ty rs" "wf_key ty key"
  shows "(\<forall>i < key_pos rs key. key_rank (fst (rs ! i)) < key_rank key) \<and>
         (\<forall>i. key_pos rs key \<le> i \<longrightarrow> i < length rs \<longrightarrow> key_rank key \<le> key_rank (fst (rs ! i)))"
proof -
  have "key_pos rs key \<le> length (map fst rs) \<and>
      (\<forall>i < key_pos rs key. key_rank (map fst rs ! i) < key_rank key) \<and>
      (\<forall>i. key_pos rs key \<le> i \<longrightarrow> i < length (map fst rs) \<longrightarrow> key_rank key \<le> key_rank (map fst rs ! i))"
    by (rule ok.search_splits [of "map fst rs" ty key "key_pos rs key"])
       (use assms in \<open>auto simp: sorted_recs_def key_pos_def comp_def strict_sorted_iff\<close>)
  then show ?thesis using key_pos_le [of rs key] by (auto simp: nth_map)
qed

lemma sorted_recs_insert:
  assumes "sorted_recs ty rs" "wf_key ty key" "key \<notin> fst ` set rs"
  shows "sorted_recs ty (insert_at (key_pos rs key) (key, es) rs)"
proof -
  have "sorted_wrt (<) (map key_rank (insert_at (key_pos rs key) key (map fst rs)))"
    by (rule ok.search_insert_sorted [of _ ty])
       (use assms in \<open>auto simp: sorted_recs_def key_pos_def comp_def\<close>)
  with assms show ?thesis
    by (auto simp: sorted_recs_keys map_insert_at set_insert_at key_pos_le sorted_recs_def)
qed

lemma sorted_recs_delete: "sorted_recs ty rs \<Longrightarrow> i < length rs \<Longrightarrow> sorted_recs ty (delete_at i rs)"
  using set_delete_at_subset [of i rs] sorted_wrt_delete_at [of "(<)" "map (key_rank \<circ> fst) rs" i]
  by (auto simp: sorted_recs_def map_delete_at)

lemma sorted_recs_append:
  "sorted_recs ty (rs @ ss) \<Longrightarrow> sorted_recs ty rs \<and> sorted_recs ty ss"
  by (auto simp: sorted_recs_def sorted_wrt_append)

lemma sorted_recs_take_drop:
  "sorted_recs ty rs \<Longrightarrow> sorted_recs ty (take i rs) \<and> sorted_recs ty (drop i rs)"
  by (rule sorted_recs_append) simp

section \<open>Bytes in use\<close>

lemma recs_bytes_insert_at: "i \<le> length rs \<Longrightarrow> recs_bytes ks (insert_at i r rs) = rec_bytes ks r + recs_bytes ks rs"
  by (simp add: recs_bytes_def map_insert_at sum_list_insert_at)

lemma recs_bytes_delete_at:
  "i < length rs \<Longrightarrow> recs_bytes ks (delete_at i rs) + rec_bytes ks (rs ! i) = recs_bytes ks rs"
  using sum_list_delete_at [of i "map (rec_bytes ks) rs"]
  by (simp add: recs_bytes_def map_delete_at)

lemma recs_bytes_append [simp]: "recs_bytes ks (rs @ ss) = recs_bytes ks rs + recs_bytes ks ss"
  by (simp add: recs_bytes_def)

lemma recs_bytes_take_drop: "recs_bytes ks (take i rs) + recs_bytes ks (drop i rs) = recs_bytes ks rs"
  by (metis append_take_drop_id recs_bytes_append)

lemma length_slot_entries:
  "page_shape ty p \<Longrightarrow> s \<in> set (live_slots p) \<Longrightarrow> length (slot_entries p s) = slen s"
  by (auto simp: page_shape_def slot_ok_def slot_entries_def intro!: length_segment)

lemma shape_bytes:
  assumes "page_shape ty p"
  shows "recs_bytes (keySize (hdr p)) (records p) =
     numRecords (hdr p) * SP_SLOT_DISK_SIZE (keySize (hdr p)) + 6 * numEntries (hdr p) + usedData (hdr p)"
proof -
  have "recs_bytes ks (map (\<lambda>s. (ID s, slot_entries p s)) ss) =
      length ss * SP_SLOT_DISK_SIZE ks + 6 * sum_list (map slen ss) + sum_list (map ssize ss)"
    if "set ss \<subseteq> set (live_slots p)" for ks ss
    using that assms
    by (induction ss)
       (auto simp: recs_bytes_def rec_bytes_def length_slot_entries page_shape_def slot_ok_def)
  with assms show ?thesis by (simp add: records_def length_live) (simp add: page_shape_def)
qed

lemma used_bytes:
  assumes "page_shape ty p"
  shows "SPUsedBytes p = recs_bytes (keySize (hdr p)) (records p)"
  unfolding SPUsedBytes_def shape_bytes [OF assms, symmetric]
  by (rule u32_of_small) (use assms in \<open>unfold page_shape_def, blast\<close>)

section \<open>Key bounds\<close>

lemma bounds_fields [simp]:
  "slots (updateKeyBounds p) = slots p" "entries (updateKeyBounds p) = entries p"
  "numRecords (hdr (updateKeyBounds p)) = numRecords (hdr p)"
  "numEntries (hdr (updateKeyBounds p)) = numEntries (hdr p)"
  "usedData (hdr (updateKeyBounds p)) = usedData (hdr p)"
  "keySize (hdr (updateKeyBounds p)) = keySize (hdr p)"
  "arrCap (hdr (updateKeyBounds p)) = arrCap (hdr p)"
  "maxSlots (hdr (updateKeyBounds p)) = maxSlots (hdr p)"
  "maxEntries (hdr (updateKeyBounds p)) = maxEntries (hdr p)"
  by (simp_all add: updateKeyBounds_def)

lemma live_cong: "numRecords (hdr q) = numRecords (hdr p) \<Longrightarrow> slots q = slots p \<Longrightarrow> live_slots q = live_slots p"
  by (simp add: live_slots_def)

lemma records_bounds [simp]:
  "live_slots (updateKeyBounds p) = live_slots p" "records (updateKeyBounds p) = records p"
  by (simp_all add: live_slots_def records_def slot_entries_def)

lemma updateKeyBounds_wf:
  assumes "page_shape ty p"
  shows "wf_page ty (updateKeyBounds p)"
proof -
  have "page_shape ty (updateKeyBounds p)"
    using assms unfolding page_shape_def slot_ok_def slot_entries_def bounds_fields records_bounds .
  moreover have "bounds_ok (updateKeyBounds p)"
  proof (cases "numRecords (hdr p) = 0")
    case False
    with length_live [OF assms] have "live_slots p \<noteq> []" by auto
    with False length_live [OF assms] show ?thesis
      by (simp add: bounds_ok_def updateKeyBounds_def hd_conv_nth last_conv_nth nth_live live_slots_def)
  qed (simp add: bounds_ok_def updateKeyBounds_def)
  ultimately show ?thesis by (simp add: wf_page_def)
qed

lemma wf_page_shape: "wf_page ty p \<Longrightarrow> page_shape ty p"
  by (simp add: wf_page_def)

text \<open>How the parts of the shape follow from what the slots in use are.\<close>

lemma page_shapeI:
  assumes "live_slots q = ss" "length ss = numRecords (hdr q)"
    and "length (slots q) = maxSlots (hdr q)" "numRecords (hdr q) \<le> maxSlots (hdr q)"
    and "length (entries q) = maxEntries (hdr q)" "numEntries (hdr q) \<le> maxEntries (hdr q)"
    and "keySize (hdr q) = orderingKeyDiskSize ty"
    and "map (\<lambda>s. (ID s, slot_entries q s)) ss = rs" "sorted_recs ty rs"
    and "\<And>s. s \<in> set ss \<Longrightarrow> slot_ok q s" "sorted_wrt apart ss"
    and "numEntries (hdr q) = sum_list (map slen ss)" "usedData (hdr q) = sum_list (map ssize ss)"
    and "recs_bytes (keySize (hdr q)) rs < 2 ^ 32"
  shows "page_shape ty q \<and> records q = rs"
proof -
  have "records q = rs" using assms(1,8) by (simp add: records_def)
  moreover have "page_shape ty q"
    unfolding page_shape_def \<open>records q = rs\<close> assms(1)
    by (intro conjI ballI) (fact assms)+
  ultimately show ?thesis by simp
qed

section \<open>Insertion\<close>

text \<open>A record handed to the page: its counters agree with its entries.\<close>

definition wf_record :: "sp_record \<Rightarrow> bool" where
  "wf_record r \<longleftrightarrow> rlen r = length (rentries r) \<and> rsize r = entry_bytes (rentries r)"

lemma grown_gt: "n < grown n"
  by (simp add: grown_def)

lemma grow_shape:
  assumes "page_shape ty p" and q: "q = growEntries (growSlots p) n"
  shows "page_shape ty q" "records q = records p" "live_slots q = live_slots p"
    "numRecords (hdr q) = numRecords (hdr p)" "numEntries (hdr q) = numEntries (hdr p)"
    "usedData (hdr q) = usedData (hdr p)" "keySize (hdr q) = keySize (hdr p)"
    "numRecords (hdr q) < maxSlots (hdr q)" "numEntries (hdr q) + n \<le> maxEntries (hdr q)"
proof -
  show fields: "numRecords (hdr q) = numRecords (hdr p)" "numEntries (hdr q) = numEntries (hdr p)"
    "usedData (hdr q) = usedData (hdr p)" "keySize (hdr q) = keySize (hdr p)"
    by (simp_all add: q growEntries_def growSlots_def Let_def)
  have le: "numRecords (hdr p) \<le> length (slots p)" "numEntries (hdr p) \<le> length (entries p)"
    and len: "length (slots p) = maxSlots (hdr p)" "length (entries p) = maxEntries (hdr p)"
    using assms(1) by (auto simp: page_shape_def)
  show room: "numRecords (hdr q) < maxSlots (hdr q)" "numEntries (hdr q) + n \<le> maxEntries (hdr q)"
    using grown_gt [of "maxSlots (hdr p)"] grown_gt [of "numEntries (hdr p) + n"] le len
    by (auto simp: q growEntries_def growSlots_def Let_def)
  have "\<exists>x. slots q = slots p @ x" "\<exists>y. entries q = entries p @ y"
    by (simp_all add: q growEntries_def growSlots_def Let_def)
  then obtain x y where xy: "slots q = slots p @ x" "entries q = entries p @ y" by blast
  then show live: "live_slots q = live_slots p"
    using le by (simp add: live_slots_def fields)
  have sq: "slot_entries q s = slot_entries p s" if "s \<in> set (live_slots p)" for s
  proof -
    have "ptr s + slen s \<le> length (entries p)"
      using that assms(1) by (auto simp: page_shape_def slot_ok_def)
    then show ?thesis by (simp add: slot_entries_def xy segment_append_left)
  qed
  then show rec: "records q = records p" by (simp add: records_def live)
  have "length (slots q) = maxSlots (hdr q)" "length (entries q) = maxEntries (hdr q)"
    using len grown_gt [of "maxSlots (hdr p)"] grown_gt [of "numEntries (hdr p) + n"]
    by (auto simp: q growEntries_def growSlots_def Let_def)
  moreover have "\<forall>s \<in> set (live_slots p). slot_ok q s"
    using shape_parts(7) [OF assms(1)] sq by (simp add: slot_ok_def fields)
  moreover have "numRecords (hdr p) \<le> maxSlots (hdr q)" "numEntries (hdr p) \<le> maxEntries (hdr q)"
    using room by (simp_all add: fields)
  ultimately show "page_shape ty q"
    using shape_parts [OF assms(1)] unfolding page_shape_def live rec fields by blast
qed

text \<open>The loop that copies a record's entries behind the ones in use.\<close>

lemma copy_entries:
  assumes "numEntries (hdr p) + n \<le> length (entries p)" "n \<le> length es"
  shows "fold (\<lambda>i q. q\<lparr>entries := (entries q)[numEntries (hdr q) := es ! i],
                       hdr := (hdr q)\<lparr>numEntries := numEntries (hdr q) + 1\<rparr>\<rparr>) [0..<n] p
         = p\<lparr>entries := blit (entries p) (numEntries (hdr p)) (take n es),
             hdr := (hdr p)\<lparr>numEntries := numEntries (hdr p) + n\<rparr>\<rparr>"
  using assms
proof (induction n)
  case (Suc n)
  then show ?case by (simp add: take_Suc_conv_app_nth blit_snoc)
qed simp

lemma apart_sym: "symp apart"
  by (auto simp: symp_def apart_def)

lemma key_pos_le_records: "page_shape ty p \<Longrightarrow> key_pos (records p) key \<le> numRecords (hdr p)"
  using key_pos_le [of "records p" key] by (simp add: length_records)

text \<open>The page \<open>SPInsert\<close> builds, before the key bounds are set.\<close>

lemma inserted_shape:
  assumes p: "page_shape ty p" and room: "numRecords (hdr p) < maxSlots (hdr p)"
      "numEntries (hdr p) + length es \<le> maxEntries (hdr p)"
    and key: "wf_key ty key" "key \<notin> fst ` set (records p)"
    and fits: "recs_bytes (keySize (hdr p)) (records p) + rec_bytes (keySize (hdr p)) (key, es) < 2 ^ 32"
    and s: "s = \<lparr>ID = key, ptr = numEntries (hdr p), slen = length es, ssize = entry_bytes es\<rparr>"
    and i: "i = key_pos (records p) key" and n: "n = numRecords (hdr p)"
    and q: "q = p\<lparr>slots := insert_at i s (live_slots p) @ drop (n + 1) (slots p),
                  entries := blit (entries p) (numEntries (hdr p)) es,
                  hdr := (hdr p)\<lparr>numRecords := n + 1, numEntries := numEntries (hdr p) + length es,
                                 usedData := usedData (hdr p) + entry_bytes es\<rparr>\<rparr>"
  shows "page_shape ty q \<and> records q = insert_at i (key, es) (records p)"
proof (rule page_shapeI)
  have il: "i \<le> length (live_slots p)" using key_pos_le_records [OF p] by (simp add: i length_live [OF p])
  have len: "length (entries p) = maxEntries (hdr p)" "length (slots p) = maxSlots (hdr p)"
    using p by (auto simp: page_shape_def)
  have ok: "slot_ok p t" if "t \<in> set (live_slots p)" for t
    using p that by (auto simp: page_shape_def)
  have new: "slot_entries q s = es"
    using room len by (simp add: slot_entries_def q s segment_blit_same)
  have old: "slot_entries q t = slot_entries p t" if "t \<in> set (live_slots p)" for t
    unfolding slot_entries_def using ok [OF that] room len
    by (simp add: q slot_ok_def segment_blit_other)
  show "live_slots q = insert_at i s (live_slots p)"
    using il length_live [OF p] by (simp add: live_slots_def [where p = "slotted_page.hdr_update f r" for f r] q n)
  show "length (insert_at i s (live_slots p)) = numRecords (hdr q)"
    using il by (simp add: q length_live [OF p] n)
  show "length (slots q) = maxSlots (hdr q)"
    using il room len by (simp add: q length_live [OF p] n)
  show "numRecords (hdr q) \<le> maxSlots (hdr q)" "length (entries q) = maxEntries (hdr q)"
    "numEntries (hdr q) \<le> maxEntries (hdr q)" "keySize (hdr q) = orderingKeyDiskSize ty"
    using p room len by (auto simp: q n page_shape_def)
  show "map (\<lambda>s. (ID s, slot_entries q s)) (insert_at i s (live_slots p)) = insert_at i (key, es) (records p)"
    by (simp add: map_insert_at new records_def old cong: map_cong) (simp add: s)
  show "sorted_recs ty (insert_at i (key, es) (records p))"
    using p key unfolding i by (intro sorted_recs_insert) (auto simp: page_shape_def)
  show "slot_ok q t" if "t \<in> set (insert_at i s (live_slots p))" for t
  proof -
    have ne: "numEntries (hdr q) = numEntries (hdr p) + length es" by (simp add: q)
    have "t = s \<or> t \<in> set (live_slots p)" using that il by (simp add: set_insert_at)
    then show ?thesis
    proof
      assume "t = s"
      with new show ?thesis by (simp add: slot_ok_def ne) (simp add: s)
    next
      assume t: "t \<in> set (live_slots p)"
      show ?thesis using ok [OF t] by (simp add: slot_ok_def ne old [OF t])
    qed
  qed
  have "apart s t" if "t \<in> set (live_slots p)" for t
    using ok [OF that] by (auto simp: apart_def s slot_ok_def)
  then show "sorted_wrt apart (insert_at i s (live_slots p))"
    using p by (intro sorted_wrt_insert_at apart_sym) (auto simp: page_shape_def)
  have "sum_list (map f (insert_at i s (live_slots p))) = f s + sum_list (map f (live_slots p))" for f :: "sp_slot \<Rightarrow> nat"
    using il by (simp add: map_insert_at sum_list_insert_at)
  note sums = this [of slen] this [of ssize] shape_parts(9,10) [OF p]
  have "numEntries (hdr q) = numEntries (hdr p) + slen s" "usedData (hdr q) = usedData (hdr p) + ssize s"
    unfolding q s by simp_all
  then show "numEntries (hdr q) = sum_list (map slen (insert_at i s (live_slots p)))"
    "usedData (hdr q) = sum_list (map ssize (insert_at i s (live_slots p)))"
    using sums by linarith+
  show "recs_bytes (keySize (hdr q)) (insert_at i (key, es) (records p)) < 2 ^ 32"
    using fits il by (simp add: q recs_bytes_insert_at length_records [OF p] length_live [OF p])
qed

lemma SPInsert_page:
  assumes p: "page_shape ty p" and r: "wf_record r" and room: "SPHasRoom p (rsize r) (rlen r)"
    and key: "wf_key ty key" "key \<notin> fst ` set (records p)"
    and fits: "recs_bytes (keySize (hdr p)) (records p) + rec_bytes (keySize (hdr p)) (key, rentries r) < 2 ^ 32"
  shows "fst (SPInsert p key r) \<and> wf_page ty (snd (SPInsert p key r)) \<and>
         records (snd (SPInsert p key r)) = insert_at (key_pos (records p) key) (key, rentries r) (records p)"
proof -
  define p1 where "p1 = growEntries (growSlots p) (rlen r)"
  note g = grow_shape [OF p p1_def]
  note parts = shape_parts [OF g(1)]
  define i where "i = key_pos (records p1) key"
  define n where "n = numRecords (hdr p1)"
  define s where "s = \<lparr>ID = key, ptr = numEntries (hdr p1), slen = length (rentries r), ssize = entry_bytes (rentries r)\<rparr>"
  have rl: "rlen r = length (rentries r)" "rsize r = entry_bytes (rentries r)"
    using r by (auto simp: wf_record_def)
  have il: "i \<le> n" using key_pos_le_records [OF g(1)] by (simp add: i_def n_def)
  have sl: "(shift_right (slots p1) i (n + 1))[i := s] = insert_at i s (live_slots p1) @ drop (n + 1) (slots p1)"
    using shift_right_insert [of i "n + 1" "slots p1" s] il g(8) parts(1) by (simp add: n_def live_slots_def)
  have "usedData (hdr p1) + entry_bytes (rentries r) < 2 ^ 32"
    using fits shape_bytes [OF p] g(6) by (simp only: rec_bytes_def snd_conv)
  then have used: "u32_add (usedData (hdr p1)) (entry_bytes (rentries r)) = usedData (hdr p1) + entry_bytes (rentries r)"
    by (rule u32_add_small)
  define q where "q = p1\<lparr>slots := insert_at i s (live_slots p1) @ drop (n + 1) (slots p1),
                  entries := blit (entries p1) (numEntries (hdr p1)) (rentries r),
                  hdr := (hdr p1)\<lparr>numRecords := n + 1, numEntries := numEntries (hdr p1) + length (rentries r),
                                 usedData := usedData (hdr p1) + entry_bytes (rentries r)\<rparr>\<rparr>"
  have q: "page_shape ty q \<and> records q = insert_at i (key, rentries r) (records p1)"
    by (rule inserted_shape [OF g(1) g(8) _ key(1) _ _ s_def i_def n_def q_def])
       (use g key(2) fits rl in simp_all)
  have "SPInsert p key r = (True, updateKeyBounds q)"
    unfolding SPInsert_def Let_def p1_def [symmetric]
    using il sl used g(9) parts(3) room
    by (simp add: Let_def search_key_pos [OF g(1)] i_def [symmetric] n_def [symmetric]
        shiftSlotArrayR_def copy_entries [unfolded Suc_eq_plus1 [symmetric]] rl s_def [symmetric] q_def)
  with q show ?thesis
    by (simp add: updateKeyBounds_wf i_def g)
qed

section \<open>Deletion\<close>

text \<open>What closing the gap of the deleted slot \<open>d\<close> does to another slot.\<close>

definition rebase :: "sp_slot \<Rightarrow> sp_slot \<Rightarrow> sp_slot" where
  "rebase d s = (if ptr s > ptr d then s\<lparr>ptr := ptr s - slen d\<rparr> else s)"

lemma rebase_fields [simp]: "ID (rebase d s) = ID s" "slen (rebase d s) = slen s" "ssize (rebase d s) = ssize s"
  by (simp_all add: rebase_def)

lemma rebase_apart: "apart s t \<Longrightarrow> apart s d \<Longrightarrow> apart t d \<Longrightarrow> apart (rebase d s) (rebase d t)"
  by (auto simp: apart_def rebase_def)

lemma rebase_segment:
  assumes "apart s d" "ptr s + slen s \<le> n" "ptr d + slen d \<le> n" "n \<le> length es" "length fs = length es"
    and "\<And>j. j < n - slen d \<Longrightarrow> fs ! j = (if j < ptr d then es ! j else es ! (j + slen d))"
  shows "segment fs (ptr (rebase d s)) (slen s) = segment es (ptr s) (slen s) \<and>
         ptr (rebase d s) + slen s \<le> n - slen d"
proof -
  consider "ptr d < ptr s" "ptr d + slen d \<le> ptr s" | "ptr s \<le> ptr d" "ptr s + slen s \<le> ptr d"
    | "ptr s \<le> ptr d" "slen d = 0"
    using assms(1) unfolding apart_def by linarith
  then show ?thesis
  proof cases
    case 1
    then have "rebase d s = s\<lparr>ptr := ptr s - slen d\<rparr>" by (simp add: rebase_def)
    with 1 assms show ?thesis by (auto intro!: segment_eqI)
  next
    case 2
    then have "rebase d s = s" by (simp add: rebase_def)
    with 2 assms show ?thesis by (auto intro!: segment_eqI)
  next
    case 3
    then have "rebase d s = s" by (simp add: rebase_def)
    with 3 assms show ?thesis by (auto intro!: segment_eqI)
  qed
qed

text \<open>The entry array after the deleted record's entries are freed, the gap closed and the tail cleared.\<close>

definition compacted :: "entry list \<Rightarrow> sp_slot \<Rightarrow> nat \<Rightarrow> entry list" where
  "compacted es d n =
     fold (\<lambda>i a. a[i := zero_entry]) [n - slen d..<n]
       (shift_left (slen d) (fold (\<lambda>i a. a[ptr d + i := (a ! (ptr d + i))\<lparr>edata := []\<rparr>]) [0..<slen d] es)
          (ptr d) (n - slen d))"

lemma length_compacted [simp]: "length (compacted es d n) = length es"
  by (simp add: compacted_def length_fold_update [where f = "\<lambda>i. i"]
      length_fold_update [where f = "\<lambda>i. ptr d + i" and g = "\<lambda>i a. (a ! (ptr d + i))\<lparr>edata := []\<rparr>"])

lemma nth_compacted:
  assumes "ptr d + slen d \<le> n" "n \<le> length es" "j < n - slen d"
  shows "compacted es d n ! j = (if j < ptr d then es ! j else es ! (j + slen d))"
proof -
  let ?fr = "fold (\<lambda>i a. a[ptr d + i := (a ! (ptr d + i))\<lparr>edata := []\<rparr>]) [0..<slen d] es"
  have fr: "?fr ! k = es ! k" if "k < ptr d \<or> ptr d + slen d \<le> k" for k
    using that by (intro nth_fold_update_other [where f = "\<lambda>i. ptr d + i" and g = "\<lambda>i a. (a ! (ptr d + i))\<lparr>edata := []\<rparr>"]) auto
  have len: "length ?fr = length es"
    by (rule length_fold_update [where f = "\<lambda>i. ptr d + i" and g = "\<lambda>i a. (a ! (ptr d + i))\<lparr>edata := []\<rparr>"])
  have "compacted es d n ! j = shift_left (slen d) ?fr (ptr d) (n - slen d) ! j"
    unfolding compacted_def using assms(3)
    by (intro nth_fold_update_other [where f = "\<lambda>i. i" and g = "\<lambda>i a. zero_entry"]) auto
  also have "\<dots> = (if j < ptr d then es ! j else es ! (j + slen d))"
  proof (cases "slen d = 0")
    case False
    then have "shift_left (slen d) ?fr (ptr d) (n - slen d) ! j
        = (if ptr d \<le> j \<and> j < n - slen d then ?fr ! (j + slen d) else ?fr ! j)"
      using assms len by (intro nth_shift_left) auto
    with assms(3) fr show ?thesis by auto
  qed (use fr in simp)
  finally show ?thesis .
qed

lemma rebased_slots:
  assumes "n \<le> length ss"
  shows "take n (fold (\<lambda>i a. if i = index then a else if ptr (a ! i) > ptr d
           then a[i := (a ! i)\<lparr>ptr := ptr (a ! i) - slen d\<rparr>] else a) [0..<n] ss)
         = (map (rebase d) (take n ss))[index := take n ss ! index]"
    (is "take n (fold ?f _ _) = _")
    and "length (fold (\<lambda>i a. if i = index then a else if ptr (a ! i) > ptr d
           then a[i := (a ! i)\<lparr>ptr := ptr (a ! i) - slen d\<rparr>] else a) [0..<n] ss) = length ss"
proof -
  let ?h = "\<lambda>i s. if i = index then s else rebase d s"
  have f: "?f = (\<lambda>i a. a[i := ?h i (a ! i)])"
    by (intro ext) (simp add: rebase_def)
  show len: "length (fold ?f [0..<n] ss) = length ss"
    unfolding f by (rule length_fold_update [where f = "\<lambda>i. i"])
  show "take n (fold ?f [0..<n] ss) = (map (rebase d) (take n ss))[index := take n ss ! index]"
    by (rule nth_equalityI)
       (use assms len in \<open>auto simp: f fold_update_each [where h = ?h] nth_list_update\<close>)
qed

lemma map_delete_update: "delete_at i (xs[i := x]) = delete_at i xs"
  by (simp add: delete_at_def)

lemma set_delete_at_nth: "i < length xs \<Longrightarrow> x \<in> set (delete_at i xs) \<Longrightarrow> \<exists>j < length xs. j \<noteq> i \<and> x = xs ! j"
  by (auto simp: in_set_conv_nth nth_delete_at split: if_splits)
     (metis Suc_less_eq Suc_pred length_pos_if_in_set less_imp_not_less nth_mem not_less_eq less_Suc_eq)+

lemma sorted_wrt_sym_nth:
  "symp R \<Longrightarrow> sorted_wrt R xs \<Longrightarrow> i < length xs \<Longrightarrow> j < length xs \<Longrightarrow> i \<noteq> j \<Longrightarrow> R (xs ! i) (xs ! j)"
  by (metis linorder_neqE_nat sorted_wrt_nth_less sympD)

lemma sorted_wrt_map_mono:
  assumes "sorted_wrt R xs" "\<And>x y. x \<in> set xs \<Longrightarrow> y \<in> set xs \<Longrightarrow> R x y \<Longrightarrow> S (f x) (f y)"
  shows "sorted_wrt S (map f xs)"
  using assms by (induction xs) auto

text \<open>The page \<open>SPDelete\<close> builds, before the key bounds are set.\<close>

lemma deleted_shape:
  assumes p: "page_shape ty p" and i: "i < numRecords (hdr p)" and d: "d = live_slots p ! i"
    and n: "n = numRecords (hdr p)" and m: "m = numEntries (hdr p)"
    and lq: "live_slots q = map (rebase d) (delete_at i (live_slots p))"
    and q: "entries q = compacted (entries p) d m" "length (slots q) = maxSlots (hdr p)"
      "hdr q = (hdr p)\<lparr>usedData := usedData (hdr p) - ssize d, numEntries := m - slen d, numRecords := n - 1\<rparr>"
  shows "page_shape ty q \<and> records q = delete_at i (records p)"
proof (rule page_shapeI)
  note parts = shape_parts [OF p]
  have il: "i < length (live_slots p)" by (simp add: i length_live [OF p])
  have dok: "slot_ok p d" using parts(7) il by (simp add: d)
  have old: "t \<in> set (live_slots p) \<and> apart t d" if t: "t \<in> set (delete_at i (live_slots p))" for t
    using set_delete_at_nth [OF il t] sorted_wrt_sym_nth [OF apart_sym parts(8) _ il] by (auto simp: d)
  have seg: "segment (entries q) (ptr (rebase d t)) (slen t) = slot_entries p t \<and> ptr (rebase d t) + slen t \<le> m - slen d"
    if t: "t \<in> set (delete_at i (live_slots p))" for t
    unfolding slot_entries_def
    by (rule rebase_segment)
       (use old [OF t] parts(3,4) parts(7) [of t] dok in \<open>auto simp: slot_ok_def q m nth_compacted\<close>)
  show "live_slots q = map (rebase d) (delete_at i (live_slots p))" by (rule lq)
  show "length (map (rebase d) (delete_at i (live_slots p))) = numRecords (hdr q)"
    using il by (simp add: q n length_live [OF p])
  show "length (slots q) = maxSlots (hdr q)" "numRecords (hdr q) \<le> maxSlots (hdr q)"
    "length (entries q) = maxEntries (hdr q)" "numEntries (hdr q) \<le> maxEntries (hdr q)"
    "keySize (hdr q) = orderingKeyDiskSize ty"
    using parts(2-5) i by (simp_all add: q n m)
  have "map (\<lambda>s. (ID s, slot_entries q s)) (map (rebase d) (delete_at i (live_slots p)))
      = map (\<lambda>s. (ID s, slot_entries p s)) (delete_at i (live_slots p))"
    using seg by (auto simp: slot_entries_def)
  then show "map (\<lambda>s. (ID s, slot_entries q s)) (map (rebase d) (delete_at i (live_slots p))) = delete_at i (records p)"
    by (simp add: records_def map_delete_at)
  show "sorted_recs ty (delete_at i (records p))"
    using parts(6) i by (intro sorted_recs_delete) (simp_all add: length_records [OF p])
  show "slot_ok q t" if "t \<in> set (map (rebase d) (delete_at i (live_slots p)))" for t
    using that seg old parts(7) by (auto simp: slot_ok_def slot_entries_def q)
  show "sorted_wrt apart (map (rebase d) (delete_at i (live_slots p)))"
    by (rule sorted_wrt_map_mono [OF sorted_wrt_delete_at [OF parts(8) il]])
       (use old in \<open>auto intro: rebase_apart\<close>)
  have sums: "sum_list (map f (delete_at i (live_slots p))) + f d = sum_list (map f (live_slots p))" for f :: "sp_slot \<Rightarrow> nat"
    using sum_list_delete_at [of i "map f (live_slots p)"] il by (simp add: map_delete_at d)
  have fields: "map slen (map (rebase d) xs) = map slen xs" "map ssize (map (rebase d) xs) = map ssize xs" for xs
    by simp_all
  have "numEntries (hdr q) = m - slen d" "usedData (hdr q) = usedData (hdr p) - ssize d"
    by (simp_all add: q)
  then show "numEntries (hdr q) = sum_list (map slen (map (rebase d) (delete_at i (live_slots p))))"
    "usedData (hdr q) = sum_list (map ssize (map (rebase d) (delete_at i (live_slots p))))"
    using sums [of slen] sums [of ssize] parts(9,10) m unfolding fields by arith+
  show "recs_bytes (keySize (hdr q)) (delete_at i (records p)) < 2 ^ 32"
    using recs_bytes_delete_at [of i "records p" "keySize (hdr p)"] parts(11) i
    by (simp add: q length_records [OF p])
qed

lemma SPDelete_page:
  assumes w: "wf_page ty p" and key: "wf_key ty key"
  shows "if key \<in> fst ` set (records p)
         then fst (SPDelete p key) \<and> wf_page ty (snd (SPDelete p key)) \<and>
              records (snd (SPDelete p key)) = delete_at (key_pos (records p) key) (records p)
         else SPDelete p key = (False, p)"
proof -
  have p: "page_shape ty p" using w by (rule wf_page_shape)
  note parts = shape_parts [OF p]
  define i where "i = key_pos (records p) key"
  define n where "n = numRecords (hdr p)"
  define m where "m = numEntries (hdr p)"
  define d where "d = live_slots p ! i"
  have search: "searchSlotArray p key = i" by (simp add: search_key_pos [OF p] i_def)
  have hit: "(i < n \<and> compareOrderingKeys (ID (slots p ! i)) key = 0) = (key \<in> fst ` set (records p))"
    using key_pos_hit [OF parts(6) key] unfolding i_def [symmetric] length_records [OF p] n_def [symmetric]
    by (auto simp: records_def nth_live length_live [OF p] n_def)
  show ?thesis
  proof (cases "key \<in> fst ` set (records p)")
    case False
    with hit show ?thesis by (auto simp: SPDelete_def search n_def)
  next
    case True
    then have i: "i < n" and eq: "compareOrderingKeys (ID (slots p ! i)) key = 0" using hit by auto
    have d: "slots p ! i = d" using i by (simp add: d_def nth_live n_def)
    define rb where "rb = fold (\<lambda>j a. if j = i then a else if ptr (a ! j) > ptr d
           then a[j := (a ! j)\<lparr>ptr := ptr (a ! j) - slen d\<rparr>] else a) [0..<n] (slots p)"
    have rb: "take n rb = (map (rebase d) (live_slots p))[i := live_slots p ! i]" "length rb = length (slots p)"
      using rebased_slots [of n "slots p" i d] parts(1,2) by (simp_all add: rb_def live_slots_def n_def)
    define q where "q = p\<lparr>entries := compacted (entries p) d m, slots := shift_left 1 rb i (n - 1),
       hdr := (hdr p)\<lparr>usedData := usedData (hdr p) - ssize d, numEntries := m - slen d, numRecords := n - 1\<rparr>\<rparr>"
    have "n \<le> length rb" using rb(2) parts(1,2) by (simp add: n_def)
    then have "take (n - 1) (slots q) = delete_at i (take n rb)"
      using shift_left_delete [of i n rb] i by (simp add: q_def)
    also have "\<dots> = map (rebase d) (delete_at i (live_slots p))"
      by (simp add: rb map_delete_update map_delete_at)
    finally have live: "live_slots q = map (rebase d) (delete_at i (live_slots p))"
      by (simp add: live_slots_def q_def)
    have "ssize d \<le> usedData (hdr p)"
      using i unfolding parts(10) d_def by (intro member_le_sum_list) (simp_all add: n_def length_live [OF p])
    moreover have "usedData (hdr p) < 2 ^ 32" using parts(11) shape_bytes [OF p] by linarith
    ultimately have used: "u32_sub (usedData (hdr p)) (ssize d) = usedData (hdr p) - ssize d"
      by (rule u32_sub_small)
    have q: "page_shape ty q \<and> records q = delete_at i (records p)"
      by (rule deleted_shape [OF p _ d_def n_def m_def live])
         (use i rb(2) parts(1) in \<open>simp_all add: q_def n_def\<close>)
    have "SPDelete p key = (True, updateKeyBounds q)"
      unfolding SPDelete_def Let_def search d n_def [symmetric] m_def [symmetric] used
        compacted_def [symmetric] rb_def [symmetric]
      using i eq d by (simp add: shiftSlotArrayL_def q_def)
    with q True show ?thesis by (simp add: updateKeyBounds_wf i_def)
  qed
qed

section \<open>Lookup\<close>

lemma SPSearch_page:
  assumes p: "page_shape ty p" and key: "wf_key ty key"
  shows "SPSearch p key = (if key \<in> fst ` set (records p) then Some (key_pos (records p) key) else None)"
  using key_pos_hit [OF shape_parts(6) [OF p] key]
  by (auto simp: SPSearch_def Let_def search_key_pos [OF p] length_records [OF p] records_def nth_live
      length_live [OF p])

lemma map_of_nth_records:
  assumes p: "page_shape ty p" and key: "wf_key ty key" and h: "key \<in> fst ` set (records p)"
  shows "map_of (records p) key = Some (snd (records p ! key_pos (records p) key))"
proof -
  let ?i = "key_pos (records p) key"
  have hit: "?i < length (records p)" "compareOrderingKeys (fst (records p ! ?i)) key = 0"
    using key_pos_hit [OF shape_parts(6) [OF p] key] h by auto
  have srt: "sorted_recs ty (records p)" by (rule shape_parts(6) [OF p])
  then have "wf_key ty (fst (records p ! ?i))" using hit(1) by (simp add: sorted_recs_def)
  then have "fst (records p ! ?i) = key" using hit(2) key ok.cmp_eq by metis
  moreover have "distinct (map fst (records p))"
    using srt by (auto simp: sorted_recs_def strict_sorted_iff distinct_map [of key_rank "map fst (records p)", unfolded map_map])
  ultimately show ?thesis using hit(1) by (metis map_of_eq_Some_iff nth_mem prod.collapse)
qed

lemma SPRead_page:
  assumes p: "page_shape ty p" and key: "wf_key ty key"
  shows "SPRead p key = map_of (records p) key"
proof (cases "key \<in> fst ` set (records p)")
  case True
  with key_pos_hit [OF shape_parts(6) [OF p] key] map_of_nth_records [OF p key True] show ?thesis
    by (auto simp: SPRead_def Let_def search_key_pos [OF p] length_records [OF p] records_def nth_live
        length_live [OF p] slot_entries_def)
next
  case False
  then have "map_of (records p) key = None" by (auto simp: map_of_eq_None_iff)
  moreover have "SPRead p key = None"
    using False key_pos_hit [OF shape_parts(6) [OF p] key]
    by (auto simp: SPRead_def Let_def search_key_pos [OF p] length_records [OF p] records_def nth_live
        length_live [OF p])
  ultimately show ?thesis by simp
qed

section \<open>Update\<close>

text \<open>The entries of a record whose first \<open>k\<close> entries were replaced by those of \<open>es\<close>.\<close>

definition overlay :: "nat \<Rightarrow> entry list \<Rightarrow> entry list \<Rightarrow> entry list" where
  "overlay k es old = take k es @ drop k old"

lemma length_overlay [simp]: "k \<le> length es \<Longrightarrow> k \<le> length old \<Longrightarrow> length (overlay k es old) = length old"
  by (simp add: overlay_def)

lemma overlay_bytes:
  assumes "k < length es" "k < length old"
  shows "esize (old ! k) \<le> entry_bytes (overlay k es old)"
    "entry_bytes (overlay (Suc k) es old) = entry_bytes (overlay k es old) - esize (old ! k) + esize (es ! k)"
proof -
  have "drop k old = old ! k # drop (Suc k) old" using assms(2) by (rule Cons_nth_drop_Suc [symmetric])
  then show "esize (old ! k) \<le> entry_bytes (overlay k es old)"
    "entry_bytes (overlay (Suc k) es old) = entry_bytes (overlay k es old) - esize (old ! k) + esize (es ! k)"
    using assms(1) by (simp_all add: overlay_def entry_bytes_def take_Suc_conv_app_nth)
qed

lemma entry_bytes_append [simp]: "entry_bytes (xs @ ys) = entry_bytes xs + entry_bytes ys"
  by (simp add: entry_bytes_def)

lemma overlay_bytes_le: "entry_bytes (overlay k es old) \<le> entry_bytes es + entry_bytes old"
proof -
  have "entry_bytes (take k xs) \<le> entry_bytes xs \<and> entry_bytes (drop k xs) \<le> entry_bytes xs" for xs
    using entry_bytes_append [of "take k xs" "drop k xs"] by simp
  then show ?thesis by (simp add: overlay_def) (meson add_mono)
qed

lemma update_loop:
  assumes s: "s = slots p ! i" "i < length (slots p)" "ssize s = entry_bytes old" "length es \<le> length old"
    and seg: "segment (entries p) (ptr s) (length old) = old" "ptr s + length old \<le> length (entries p)"
    and fit: "entry_bytes old \<le> usedData (hdr p)" "usedData (hdr p) + entry_bytes es < 2 ^ 32"
    and k: "k \<le> length es"
  shows "fold (\<lambda>j q.
             let change = u32_sub (esize (es ! j)) (esize (entries q ! (ptr s + j)))
             in q\<lparr>slots := (slots q)[i := (slots q ! i)\<lparr>ssize := u32_add (ssize (slots q ! i)) change\<rparr>],
                  hdr := (hdr q)\<lparr>usedData := u32_add (usedData (hdr q)) change\<rparr>,
                  entries := (entries q)[ptr s + j := es ! j]\<rparr>) [0..<k] p
         = p\<lparr>slots := (slots p)[i := s\<lparr>ssize := entry_bytes (overlay k es old)\<rparr>],
             hdr := (hdr p)\<lparr>usedData := usedData (hdr p) - entry_bytes old + entry_bytes (overlay k es old)\<rparr>,
             entries := blit (entries p) (ptr s) (take k es)\<rparr>"
  using k
proof (induction k)
  case 0
  have "(slots p)[i := s\<lparr>ssize := entry_bytes old\<rparr>] = slots p" using s by (metis list_update_id sp_slot.surjective sp_slot.update_convs(4))
  then show ?case using fit(1) by (simp add: overlay_def)
next
  case (Suc k)
  let ?b = "entry_bytes (overlay k es old)"
  have k: "k < length es" "k < length old" using Suc.prems s(4) by auto
  note ob = overlay_bytes [OF k]
  have le: "entry_bytes (overlay j es old) \<le> entry_bytes es + entry_bytes old" for j by (rule overlay_bytes_le)
  have "segment (entries p) (ptr s) (length old) ! k = entries p ! (ptr s + k)"
    using seg(2) k by (intro nth_segment) auto
  then have e: "blit (entries p) (ptr s) (take k es) ! (ptr s + k) = old ! k"
    unfolding seg(1) using seg(2) k s(4) by (simp add: nth_blit)
  have small: "esize (old ! k) < 2 ^ 32" "?b - esize (old ! k) + esize (es ! k) < 2 ^ 32"
    using ob le [of k] le [of "Suc k"] fit by linarith+
  have c1: "u32_add ?b (u32_sub (esize (es ! k)) (esize (old ! k))) = entry_bytes (overlay (Suc k) es old)"
    using u32_add_sub [OF ob(1) small] ob(2) by simp
  have "u32_add (usedData (hdr p) - entry_bytes old + ?b) (u32_sub (esize (es ! k)) (esize (old ! k)))
      = (usedData (hdr p) - entry_bytes old + ?b) - esize (old ! k) + esize (es ! k)"
    by (rule u32_add_sub) (use ob le [of "Suc k"] small fit in linarith)+
  also have "\<dots> = usedData (hdr p) - entry_bytes old + entry_bytes (overlay (Suc k) es old)"
    using ob by linarith
  finally have c2: "u32_add (usedData (hdr p) - entry_bytes old + ?b) (u32_sub (esize (es ! k)) (esize (old ! k)))
      = usedData (hdr p) - entry_bytes old + entry_bytes (overlay (Suc k) es old)" .
  have "blit (entries p) (ptr s) (take (Suc k) es) = (blit (entries p) (ptr s) (take k es))[ptr s + k := es ! k]"
    using k s(4) seg(2) by (simp add: take_Suc_conv_app_nth blit_snoc)
  with Suc s(2) e c1 c2 show ?case by (simp add: Let_def)
qed

lemma updated_shape:
  assumes p: "page_shape ty p" and i: "i < numRecords (hdr p)" and s: "s = live_slots p ! i"
    and es: "length es \<le> slen s" and old: "old = slot_entries p s" and new: "new = overlay (length es) es old"
    and fit: "recs_bytes (keySize (hdr p)) (records p) + entry_bytes es < 2 ^ 32"
    and q: "q = p\<lparr>slots := (slots p)[i := s\<lparr>ssize := entry_bytes new\<rparr>],
             hdr := (hdr p)\<lparr>usedData := usedData (hdr p) - entry_bytes old + entry_bytes new\<rparr>,
             entries := blit (entries p) (ptr s) es\<rparr>"
  shows "page_shape ty q \<and> records q = (records p)[i := (ID s, new)]"
proof (rule page_shapeI)
  note parts = shape_parts [OF p]
  have il: "i < length (live_slots p)" by (simp add: i length_live [OF p])
  have sin: "s \<in> set (live_slots p)" using il by (simp add: s)
  have sok: "ptr s + slen s \<le> length (entries p)" "ssize s = entry_bytes old"
    using parts(7) [OF sin] parts(3,4) by (simp_all add: slot_ok_def old)
  have lold: "length old = slen s" using length_slot_entries [OF p sin] by (simp add: old)
  let ?s = "s\<lparr>ssize := entry_bytes new\<rparr>"
  show live: "live_slots q = (live_slots p)[i := ?s]"
    by (simp add: live_slots_def q take_update_swap)
  show "length ((live_slots p)[i := ?s]) = numRecords (hdr q)"
    by (simp add: q length_live [OF p])
  show "length (slots q) = maxSlots (hdr q)" "numRecords (hdr q) \<le> maxSlots (hdr q)"
    "length (entries q) = maxEntries (hdr q)" "numEntries (hdr q) \<le> maxEntries (hdr q)"
    "keySize (hdr q) = orderingKeyDiskSize ty"
    using parts(1-5) sok es by (simp_all add: q)
  have at_i: "segment (entries q) (ptr s) (slen s) = new"
  proof (rule nth_equalityI)
    fix j assume "j < length (segment (entries q) (ptr s) (slen s))"
    then have j: "j < slen s" using sok es by (simp add: q)
    have "old ! j = entries p ! (ptr s + j)"
      using j sok unfolding old slot_entries_def by (intro nth_segment) auto
    then show "segment (entries q) (ptr s) (slen s) ! j = new ! j"
      using j sok es lold by (auto simp: q new overlay_def nth_append nth_blit)
  qed (use sok es lold in \<open>simp add: q new\<close>)
  have off_i: "slot_entries q t = slot_entries p t" if t: "t = live_slots p ! j" "j < length (live_slots p)" "j \<noteq> i" for t j
  proof -
    have "apart t s" unfolding t(1) s using sorted_wrt_sym_nth [OF apart_sym parts(8)] t il by blast
    moreover have "ptr t + slen t \<le> length (entries p)"
      using parts(7) [of t] parts(3,4) t by (simp add: slot_ok_def)
    ultimately show ?thesis unfolding slot_entries_def q using sok es
      by (simp add: segment_blit_other apart_def) (rule segment_blit_other, auto)
  qed
  show rec: "map (\<lambda>s. (ID s, slot_entries q s)) ((live_slots p)[i := ?s]) = (records p)[i := (ID s, new)]"
  proof (rule nth_equalityI)
    fix j assume "j < length (map (\<lambda>s. (ID s, slot_entries q s)) ((live_slots p)[i := ?s]))"
    then have j: "j < length (live_slots p)" by simp
    have new_i: "slot_entries q ?s = new" using at_i by (simp add: slot_entries_def)
    show "map (\<lambda>s. (ID s, slot_entries q s)) ((live_slots p)[i := ?s]) ! j = (records p)[i := (ID s, new)] ! j"
    proof (cases "j = i")
      case True
      with j new_i show ?thesis by (simp add: records_def)
    next
      case False
      with j off_i [OF refl j] show ?thesis by (simp add: records_def)
    qed
  qed (simp add: records_def)
  have "map fst ((records p)[i := (ID s, new)]) = map fst (records p)"
    by (rule nth_equalityI) (use i in \<open>auto simp: nth_list_update records_def s length_live [OF p]\<close>)
  then show "sorted_recs ty ((records p)[i := (ID s, new)])"
    using parts(6) unfolding sorted_recs_keys by simp
  show "slot_ok q t" if t: "t \<in> set ((live_slots p)[i := ?s])" for t
  proof -
    from t obtain j where j: "j < length (live_slots p)" "t = (live_slots p)[i := ?s] ! j"
      by (auto simp: in_set_conv_nth)
    show ?thesis
    proof (cases "j = i")
      case True
      with j have "t = ?s" by simp
      then show ?thesis using at_i parts(7) [OF sin] by (simp add: slot_ok_def slot_entries_def) (simp add: q)
    next
      case False
      with j have tj: "t = live_slots p ! j" by simp
      have "slot_ok p t" using parts(7) j(1) by (simp add: tj)
      then show ?thesis using off_i [OF tj j(1) False] by (simp add: slot_ok_def) (simp add: q)
    qed
  qed
  have same: "map f ((live_slots p)[i := ?s]) = map f (live_slots p)"
    if "f ?s = f s" for f :: "sp_slot \<Rightarrow> nat \<times> nat"
    using that il by (simp add: map_update s list_update_same_conv)
  show "sorted_wrt apart ((live_slots p)[i := ?s])"
  proof -
    have eq: "sorted_wrt apart xs = sorted_wrt (\<lambda>a b. fst a + snd a \<le> fst b \<or> fst b + snd b \<le> fst a) (map (\<lambda>t. (ptr t, slen t)) xs)" for xs
      by (simp add: sorted_wrt_map apart_def [abs_def])
    show ?thesis using parts(8) unfolding eq by (subst same) simp_all
  qed
  have "map slen ((live_slots p)[i := ?s]) = map slen (live_slots p)"
    using il by (simp add: map_update s list_update_same_conv)
  then show "numEntries (hdr q) = sum_list (map slen ((live_slots p)[i := ?s]))"
    using parts(9) by (simp add: q)
  have upd: "sum_list ((xs::nat list)[i := y]) = sum_list xs - xs ! i + y \<and> xs ! i \<le> sum_list xs" if "i < length xs" for xs y
  proof -
    have "xs ! i \<le> sum_list xs" using that by (intro member_le_sum_list) simp_all
    with that show ?thesis by (simp add: sum_list_update)
  qed
  have used: "sum_list (map ssize ((live_slots p)[i := ?s])) = usedData (hdr p) - entry_bytes old + entry_bytes new"
    using upd [of "map ssize (live_slots p)" "entry_bytes new"] il sok(2) s parts(10) by (simp add: map_update)
  then show "usedData (hdr q) = sum_list (map ssize ((live_slots p)[i := ?s]))"
    by (simp add: q)
  have old_i: "snd (records p ! i) = old" using il by (simp add: records_def s [symmetric] old)
  have lnew: "length new = length old" using es lold by (simp add: new)
  have "recs_bytes ks ((records p)[i := (ID s, new)]) \<le> recs_bytes ks (records p) + entry_bytes es" for ks
  proof -
    have "rec_bytes ks (ID s, new) \<le> rec_bytes ks (records p ! i) + entry_bytes es"
      using overlay_bytes_le [of "length es" es old] lnew unfolding rec_bytes_def snd_conv old_i new by linarith
    moreover have "recs_bytes ks ((records p)[i := (ID s, new)]) = recs_bytes ks (records p) - rec_bytes ks (records p ! i) + rec_bytes ks (ID s, new)
        \<and> rec_bytes ks (records p ! i) \<le> recs_bytes ks (records p)"
      using upd [of "map (rec_bytes ks) (records p)" "rec_bytes ks (ID s, new)"] i
      by (simp add: recs_bytes_def map_update length_records [OF p])
    ultimately show ?thesis by linarith
  qed
  then show "recs_bytes (keySize (hdr q)) ((records p)[i := (ID s, new)]) < 2 ^ 32"
    using fit by (simp add: q) (meson le_less_trans)
qed

lemma SPUpdate_page:
  assumes w: "wf_page ty p" and key: "wf_key ty key" and r: "wf_record r"
    and fit: "recs_bytes (keySize (hdr p)) (records p) + entry_bytes (rentries r) < 2 ^ 32"
  shows "case map_of (records p) key of
           None \<Rightarrow> SPUpdate p key r = (False, p)
         | Some old \<Rightarrow>
             if length old < length (rentries r) then SPUpdate p key r = (False, p)
             else fst (SPUpdate p key r) \<and> wf_page ty (snd (SPUpdate p key r)) \<and>
                  records (snd (SPUpdate p key r))
                  = (records p)[key_pos (records p) key := (key, overlay (length (rentries r)) (rentries r) old)]"
proof -
  have p: "page_shape ty p" using w by (rule wf_page_shape)
  note parts = shape_parts [OF p]
  define i where "i = key_pos (records p) key"
  have search: "searchSlotArray p key = i" by (simp add: search_key_pos [OF p] i_def)
  have hit: "(i < numRecords (hdr p) \<and> compareOrderingKeys (ID (slots p ! i)) key = 0) = (key \<in> fst ` set (records p))"
    using key_pos_hit [OF parts(6) key] unfolding i_def [symmetric] length_records [OF p]
    by (auto simp: records_def nth_live length_live [OF p])
  have rl: "rlen r = length (rentries r)" using r by (simp add: wf_record_def)
  show ?thesis
  proof (cases "key \<in> fst ` set (records p)")
    case False
    then have "map_of (records p) key = None" by (auto simp: map_of_eq_None_iff)
    with False hit show ?thesis by (auto simp: SPUpdate_def search)
  next
    case True
    then have i: "i < numRecords (hdr p)" and eq: "compareOrderingKeys (ID (slots p ! i)) key = 0" using hit by auto
    define s where "s = slots p ! i"
    have sl: "s = live_slots p ! i" using i by (simp add: s_def nth_live)
    have sin: "s \<in> set (live_slots p)" using i by (simp add: sl length_live [OF p])
    define old where "old = slot_entries p s"
    have lold: "length old = slen s" using length_slot_entries [OF p sin] by (simp add: old_def)
    have mo: "map_of (records p) key = Some old"
      using map_of_nth_records [OF p key True] i unfolding i_def [symmetric]
      by (simp add: records_def sl [symmetric] old_def length_live [OF p])
    have "wf_key ty (ID s)" using parts(6) sin by (auto simp: sorted_recs_def records_def)
    then have id: "ID s = key" using eq key ok.cmp_eq unfolding s_def by metis
    show ?thesis
    proof (cases "length old < length (rentries r)")
      case True
      then have "SPUpdate p key r = (False, p)"
        using i lold rl by (simp add: SPUpdate_def search Let_def s_def [symmetric])
      with True mo show ?thesis by simp
    next
      case False
      define q where "q = p\<lparr>slots := (slots p)[i := s\<lparr>ssize := entry_bytes (overlay (length (rentries r)) (rentries r) old)\<rparr>],
             hdr := (hdr p)\<lparr>usedData := usedData (hdr p) - entry_bytes old + entry_bytes (overlay (length (rentries r)) (rentries r) old)\<rparr>,
             entries := blit (entries p) (ptr s) (rentries r)\<rparr>"
      have q: "page_shape ty q \<and> records q = (records p)[i := (ID s, overlay (length (rentries r)) (rentries r) old)]"
        by (rule updated_shape [OF p i sl _ old_def refl fit q_def]) (use False lold in simp)
      have "ssize s \<in> set (map ssize (live_slots p))" using sin by simp
      then have "ssize s \<le> usedData (hdr p)" unfolding parts(10) by (intro member_le_sum_list) simp_all
      moreover have sok: "ssize s = entry_bytes old" "ptr s + slen s \<le> length (entries p)"
        using parts(7) [OF sin] parts(3,4) by (simp_all add: slot_ok_def old_def)
      moreover have "usedData (hdr p) + entry_bytes (rentries r) < 2 ^ 32"
        using fit shape_bytes [OF p] by linarith
      ultimately have loop: "SPUpdate p key r = (True, q)"
        using i False lold rl eq parts(1,2) update_loop [OF s_def _ _ _ _ _ _ _ order_refl, of old "rentries r"]
        by (simp add: SPUpdate_def search s_def [symmetric] q_def) (simp add: Let_def old_def slot_entries_def)
      have "live_slots q = (live_slots p)[i := s\<lparr>ssize := entry_bytes (overlay (length (rentries r)) (rentries r) old)\<rparr>]"
        by (simp add: live_slots_def q_def take_update_swap)
      then have ids: "map ID (live_slots q) = map ID (live_slots p)"
        using i by (simp add: map_update sl list_update_same_conv length_live [OF p])
      have "bounds_ok q = bounds_ok p"
      proof -
        have ne: "live_slots p \<noteq> []" "live_slots q \<noteq> []" using i length_live [OF p] ids by auto
        then have "ID (hd (live_slots q)) = ID (hd (live_slots p)) \<and> ID (last (live_slots q)) = ID (last (live_slots p))"
          using ids by (metis hd_map last_map)
        with i show ?thesis by (simp add: bounds_ok_def) (simp add: q_def)
      qed
      with w have "wf_page ty q" using q by (simp add: wf_page_def)
      with loop q mo False show ?thesis by (simp add: id i_def [symmetric])
    qed
  qed
qed

section \<open>Splitting a page\<close>

text \<open>Slots whose entries lie one after the other from \<open>off\<close> on.\<close>

fun relocate :: "nat \<Rightarrow> sp_slot list \<Rightarrow> sp_slot list" where
  "relocate off [] = []"
| "relocate off (s # ss) = s\<lparr>ptr := off\<rparr> # relocate (off + slen s) ss"

lemma relocate_snoc: "relocate off (ss @ [s]) = relocate off ss @ [s\<lparr>ptr := off + sum_list (map slen ss)\<rparr>]"
  by (induction ss arbitrary: off) (simp_all add: add.assoc)

lemma relocate_fields [simp]:
  "length (relocate off ss) = length ss" "map slen (relocate off ss) = map slen ss"
  "map ssize (relocate off ss) = map ssize ss" "map ID (relocate off ss) = map ID ss"
  by (induction ss arbitrary: off) simp_all

lemma relocate_range:
  "t \<in> set (relocate off ss) \<Longrightarrow> off \<le> ptr t \<and> ptr t + slen t \<le> off + sum_list (map slen ss)"
  by (induction ss arbitrary: off) fastforce+

lemma relocate_apart: "sorted_wrt apart (relocate off ss)"
proof (induction ss arbitrary: off)
  case (Cons s ss)
  have "apart (s\<lparr>ptr := off\<rparr>) t" if "t \<in> set (relocate (off + slen s) ss)" for t
    using relocate_range [OF that] by (simp add: apart_def)
  with Cons show ?case by simp
qed simp

lemma relocate_entries:
  assumes "\<And>s. s \<in> set ss \<Longrightarrow> length (f s) = slen s" "length pre = off"
  shows "map (\<lambda>s. (ID s, segment (pre @ concat (map f ss) @ post) (ptr s) (slen s))) (relocate off ss)
         = map (\<lambda>s. (ID s, f s)) ss"
  using assms
proof (induction ss arbitrary: off pre)
  case (Cons s ss)
  have "map (\<lambda>t. (ID t, segment ((pre @ f s) @ concat (map f ss) @ post) (ptr t) (slen t))) (relocate (off + slen s) ss)
      = map (\<lambda>s. (ID s, f s)) ss"
    by (rule Cons.IH) (use Cons.prems in auto)
  with Cons.prems show ?case by (simp add: segment_append_here)
qed simp

lemma relocate_sizes:
  assumes "\<And>s. s \<in> set ss \<Longrightarrow> length (f s) = slen s \<and> ssize s = entry_bytes (f s)" "length pre = off"
  shows "\<forall>t \<in> set (relocate off ss). ssize t = entry_bytes (segment (pre @ concat (map f ss) @ post) (ptr t) (slen t))"
  using assms
proof (induction ss arbitrary: off pre)
  case (Cons s ss)
  have "\<forall>t \<in> set (relocate (off + slen s) ss).
      ssize t = entry_bytes (segment ((pre @ f s) @ concat (map f ss) @ post) (ptr t) (slen t))"
    by (rule Cons.IH) (use Cons.prems in auto)
  with Cons.prems show ?case by (simp add: segment_append_here)
qed simp

lemma length_concat_slots:
  "(\<And>s. s \<in> set ss \<Longrightarrow> length (f s) = slen s) \<Longrightarrow> length (concat (map f ss)) = sum_list (map slen ss)"
  by (induction ss) auto

text \<open>A page whose entries were gathered in slot order.\<close>

lemma gathered_shape:
  assumes p: "page_shape ty p" and ss: "set ss \<subseteq> set (live_slots p)"
    and sub: "sorted_recs ty (map (\<lambda>s. (ID s, slot_entries p s)) ss)"
      "recs_bytes (keySize (hdr p)) (map (\<lambda>s. (ID s, slot_entries p s)) ss) < 2 ^ 32"
    and q: "live_slots q = relocate 0 ss" "entries q = concat (map (slot_entries p) ss) @ post"
      "numRecords (hdr q) = length ss" "length (slots q) = maxSlots (hdr q)" "length ss \<le> maxSlots (hdr q)"
      "length (entries q) = maxEntries (hdr q)" "keySize (hdr q) = keySize (hdr p)"
      "numEntries (hdr q) = sum_list (map slen ss)" "usedData (hdr q) = sum_list (map ssize ss)"
  shows "page_shape ty q \<and> records q = map (\<lambda>s. (ID s, slot_entries p s)) ss"
proof (rule page_shapeI)
  have len: "length (slot_entries p s) = slen s \<and> ssize s = entry_bytes (slot_entries p s)" if "s \<in> set ss" for s
    using that ss shape_parts(7) [OF p, of s] length_slot_entries [OF p, of s] by (auto simp: slot_ok_def)
  show "live_slots q = relocate 0 ss" by (rule q)
  have "numEntries (hdr q) = length (concat (map (slot_entries p) ss))"
    unfolding q by (rule length_concat_slots [symmetric]) (use len in simp)
  then show "numEntries (hdr q) \<le> maxEntries (hdr q)"
    unfolding q(6) [symmetric] q(2) by simp
  show "map (\<lambda>s. (ID s, slot_entries q s)) (relocate 0 ss) = map (\<lambda>s. (ID s, slot_entries p s)) ss"
    using relocate_entries [of ss "slot_entries p" "[]" 0 post] len
    by (simp add: slot_entries_def [of q] q(2))
  show "slot_ok q t" if "t \<in> set (relocate 0 ss)" for t
    using that relocate_range [OF that] relocate_sizes [of ss "slot_entries p" "[]" 0 post] len
    by (simp add: slot_ok_def slot_entries_def [of q] q)
  show "sorted_wrt apart (relocate 0 ss)" by (rule relocate_apart)
  show "keySize (hdr q) = orderingKeyDiskSize ty" using shape_parts(5) [OF p] q(7) by simp
qed (use q sub in simp_all)

text \<open>\<open>memcpy\<close> behind the part of an array that is already filled.\<close>

lemma blit_behind: "n = length xs \<Longrightarrow> blit (xs @ drop n ys) n src = (xs @ src) @ drop (n + length src) ys"
  by (simp add: blit_def drop_drop add.commute)

lemma update_behind: "n = length xs \<Longrightarrow> n < length ys \<Longrightarrow> (xs @ drop n ys)[n := y] = (xs @ [y]) @ drop (Suc n) ys"
  by (subst Cons_nth_drop_Suc [symmetric]) simp_all

definition moved_up :: "slotted_page \<Rightarrow> slotted_page \<Rightarrow> sp_slot list \<Rightarrow> slotted_page" where
  "moved_up p u ss =
     u\<lparr>slots := relocate 0 ss @ drop (length ss) (slots u),
       entries := concat (map (slot_entries p) ss) @ drop (sum_list (map slen ss)) (entries u),
       hdr := (hdr u)\<lparr>numRecords := length ss, numEntries := sum_list (map slen ss),
                      usedData := sum_list (map ssize ss)\<rparr>\<rparr>"

lemma take_Suc_live: "k < length ss \<Longrightarrow> take (Suc k) ss = take k ss @ [ss ! k]"
  by (rule take_Suc_conv_app_nth)

lemma sum_list_take_le: "sum_list (take k xs) \<le> sum_list (xs :: nat list)"
  using sum_list_split [of xs k] by simp

lemma entries_of_slots:
  assumes "page_shape ty p" "set ss \<subseteq> set (live_slots p)"
  shows "length (concat (map (slot_entries p) ss)) = sum_list (map slen ss)"
  using length_slot_entries [OF assms(1)] assms(2) by (intro length_concat_slots) auto

lemma split_step_low:
  "i < index \<Longrightarrow> split_step p index i st =
     st\<lparr>kept := blit (kept st) (keptEntries st) (slot_entries p (sp_slots st ! i)),
        sp_slots := (sp_slots st)[i := (sp_slots st ! i)\<lparr>ptr := keptEntries st\<rparr>],
        keptEntries := keptEntries st + slen (sp_slots st ! i),
        keptData := u32_add (keptData st) (ssize (sp_slots st ! i))\<rparr>"
  by (simp add: split_step_def slot_entries_def Let_def)

lemma live_data_small:
  assumes "page_shape ty p" "k < length (live_slots p)" "j \<le> k"
  shows "sum_list (map ssize (drop j (take k (live_slots p)))) + ssize (live_slots p ! k) < 2 ^ 32"
proof -
  let ?L = "live_slots p"
  have "sum_list (map ssize (drop j (take k ?L))) \<le> sum_list (map ssize (take k ?L))"
    unfolding drop_map [symmetric] using sum_list_split [of "map ssize (take k ?L)" j] by simp
  moreover have "sum_list (map ssize (take k ?L)) + ssize (?L ! k) \<le> sum_list (map ssize ?L)"
    using sum_list_take_le [of "Suc k" "map ssize ?L"] assms(2) by (simp add: take_map take_Suc_live)
  moreover have "sum_list (map ssize ?L) < 2 ^ 32"
    using shape_parts(10,11) [OF assms(1)] shape_bytes [OF assms(1)] by linarith
  ultimately show ?thesis by linarith
qed

text \<open>The part of the loop that gathers what stays.\<close>

lemma split_lower:
  assumes p: "page_shape ty p" and k: "k \<le> index" "index \<le> numRecords (hdr p)"
  shows "fold (split_step p index) [0..<k]
           \<lparr>sp_slots = slots p, kept = pad, keptEntries = 0, keptData = 0, up = u\<rparr>
         = \<lparr>sp_slots = relocate 0 (take k (live_slots p)) @ drop k (slots p),
            kept = concat (map (slot_entries p) (take k (live_slots p))) @ drop (sum_list (map slen (take k (live_slots p)))) pad,
            keptEntries = sum_list (map slen (take k (live_slots p))),
            keptData = sum_list (map ssize (take k (live_slots p))), up = u\<rparr>"
  using k(1)
proof (induction k)
  case (Suc k)
  let ?L = "live_slots p"
  have kl: "k < length ?L" "k < length (slots p)" using Suc.prems k(2) shape_parts(1,2) [OF p] by (simp_all add: length_live [OF p])
  have at_k: "(relocate 0 (take k ?L) @ drop k (slots p)) ! k = ?L ! k"
    using kl by (simp add: nth_append nth_live length_live [OF p])
  define c where "c = sum_list (map slen (take k ?L))"
  define d where "d = sum_list (map ssize (take k ?L))"
  define K where "K = concat (map (slot_entries p) (take k ?L))"
  have d: "u32_add d (ssize (?L ! k)) = d + ssize (?L ! k)"
    using live_data_small [OF p kl(1), of 0] by (intro u32_add_small) (simp add: d_def)
  have cK: "c = length K" unfolding c_def K_def
    by (rule entries_of_slots [OF p, symmetric]) (auto dest: in_set_takeD)
  have es: "length (slot_entries p (?L ! k)) = slen (?L ! k)"
    using length_slot_entries [OF p] kl(1) by simp
  have b: "blit (K @ drop c pad) c (slot_entries p (?L ! k)) = (K @ slot_entries p (?L ! k)) @ drop (c + slen (?L ! k)) pad"
    using blit_behind [OF cK] by (simp add: es)
  have u: "(relocate 0 (take k ?L) @ drop k (slots p))[k := (?L ! k)\<lparr>ptr := c\<rparr>]
      = relocate 0 (take (Suc k) ?L) @ drop (Suc k) (slots p)"
    using kl by (subst update_behind) (simp_all add: take_Suc_live relocate_snoc c_def)
  have IH: "fold (split_step p index) [0..<k] \<lparr>sp_slots = slots p, kept = pad, keptEntries = 0, keptData = 0, up = u\<rparr>
      = \<lparr>sp_slots = relocate 0 (take k ?L) @ drop k (slots p), kept = K @ drop c pad, keptEntries = c, keptData = d, up = u\<rparr>"
    using Suc by (simp add: K_def c_def d_def)
  have "concat (map (slot_entries p) (take (Suc k) ?L)) = K @ slot_entries p (?L ! k)"
    "sum_list (map slen (take (Suc k) ?L)) = c + slen (?L ! k)"
    "sum_list (map ssize (take (Suc k) ?L)) = d + ssize (?L ! k)"
    using kl by (simp_all add: take_Suc_live K_def c_def d_def)
  with Suc.prems show ?case
    by (simp add: IH split_step_low at_k b d u)
qed simp

lemma split_step_high:
  "index \<le> i \<Longrightarrow> split_step p index i st =
     st\<lparr>up := (up st)\<lparr>slots := (slots (up st))[numRecords (hdr (up st)) := (sp_slots st ! i)\<lparr>ptr := numEntries (hdr (up st))\<rparr>],
                      entries := blit (entries (up st)) (numEntries (hdr (up st))) (slot_entries p (sp_slots st ! i)),
                      hdr := (hdr (up st))\<lparr>numRecords := numRecords (hdr (up st)) + 1,
                               numEntries := numEntries (hdr (up st)) + slen (sp_slots st ! i),
                               usedData := u32_add (usedData (hdr (up st))) (ssize (sp_slots st ! i))\<rparr>\<rparr>,
        sp_slots := (sp_slots st)[i := zero_slot]\<rparr>"
  by (simp add: split_step_def slot_entries_def Let_def)

text \<open>One record moved to the upper page.\<close>

lemma moved_up_step:
  assumes p: "page_shape ty p" and s: "s \<in> set (live_slots p)" and ss: "set ss \<subseteq> set (live_slots p)"
    and room: "length ss < length (slots u)" and d: "sum_list (map ssize ss) + ssize s < 2 ^ 32"
  shows "(moved_up p u ss)\<lparr>
           slots := (slots (moved_up p u ss))[numRecords (hdr (moved_up p u ss)) := s\<lparr>ptr := numEntries (hdr (moved_up p u ss))\<rparr>],
           entries := blit (entries (moved_up p u ss)) (numEntries (hdr (moved_up p u ss))) (slot_entries p s),
           hdr := (hdr (moved_up p u ss))\<lparr>numRecords := numRecords (hdr (moved_up p u ss)) + 1,
                    numEntries := numEntries (hdr (moved_up p u ss)) + slen s,
                    usedData := u32_add (usedData (hdr (moved_up p u ss))) (ssize s)\<rparr>\<rparr>
         = moved_up p u (ss @ [s])"
proof -
  define c where "c = sum_list (map slen ss)"
  define K where "K = concat (map (slot_entries p) ss)"
  have cK: "c = length K" unfolding c_def K_def by (rule entries_of_slots [OF p ss, symmetric])
  have "length (slot_entries p s) = slen s" using length_slot_entries [OF p s] .
  then have b: "blit (K @ drop c es) c (slot_entries p s) = K @ slot_entries p s @ drop (c + slen s) es" for es
    using blit_behind [OF cK] by simp
  have "(relocate 0 ss @ drop (length ss) (slots u))[length ss := s\<lparr>ptr := c\<rparr>]
      = relocate 0 (ss @ [s]) @ drop (Suc (length ss)) (slots u)"
    using room by (subst update_behind) (simp_all add: relocate_snoc c_def)
  with b u32_add_small [OF d] show ?thesis
    by (simp add: moved_up_def c_def [symmetric] K_def [symmetric])
qed

lemma split_upper:
  assumes p: "page_shape ty p" and idx: "index + j \<le> numRecords (hdr p)"
    and st: "sp_slots st = relocate 0 (take index (live_slots p)) @ drop index (slots p)"
      "up st = moved_up p u []" and room: "j \<le> length (slots u)"
  shows "fold (split_step p index) [index..<index + j] st
         = st\<lparr>sp_slots := relocate 0 (take index (live_slots p)) @ replicate j zero_slot @ drop (index + j) (slots p),
              up := moved_up p u (take j (drop index (live_slots p)))\<rparr>"
  using idx room
proof (induction j)
  case 0
  then show ?case using st by (simp add: moved_up_def)
next
  case (Suc j)
  let ?L = "live_slots p" and ?D = "take j (drop index (live_slots p))"
  have kl: "index + j < length ?L" "index + j < length (slots p)"
    using Suc.prems shape_parts(1,2) [OF p] by (simp_all add: length_live [OF p])
  let ?S = "relocate 0 (take index ?L) @ replicate j zero_slot @ drop (index + j) (slots p)"
  have lS: "index + j = length (relocate 0 (take index ?L) @ replicate j zero_slot)" using kl(1) by simp
  have at_k: "?S ! (index + j) = ?L ! (index + j)"
    using kl lS by (simp add: nth_append nth_live length_live [OF p] min_def)
  have u: "?S[index + j := zero_slot] = relocate 0 (take index ?L) @ replicate (Suc j) zero_slot @ drop (index + Suc j) (slots p)"
    using update_behind [OF lS kl(2), of zero_slot] by (simp add: replicate_app_Cons_same)
  have snoc: "take (Suc j) (drop index ?L) = ?D @ [?L ! (index + j)]"
    using kl by (subst take_Suc_live) simp_all
  have "sum_list (map ssize ?D) + ssize (?L ! (index + j)) < 2 ^ 32"
    using live_data_small [OF p kl(1), of index] by (simp add: take_drop add.commute)
  then have m: "(moved_up p u ?D)\<lparr>
           slots := (slots (moved_up p u ?D))[numRecords (hdr (moved_up p u ?D)) := (?L ! (index + j))\<lparr>ptr := numEntries (hdr (moved_up p u ?D))\<rparr>],
           entries := blit (entries (moved_up p u ?D)) (numEntries (hdr (moved_up p u ?D))) (slot_entries p (?L ! (index + j))),
           hdr := (hdr (moved_up p u ?D))\<lparr>numRecords := numRecords (hdr (moved_up p u ?D)) + 1,
                    numEntries := numEntries (hdr (moved_up p u ?D)) + slen (?L ! (index + j)),
                    usedData := u32_add (usedData (hdr (moved_up p u ?D))) (ssize (?L ! (index + j)))\<rparr>\<rparr>
      = moved_up p u (take (Suc j) (drop index ?L))"
    unfolding snoc using kl Suc.prems by (intro moved_up_step [OF p]) (auto dest: in_set_takeD in_set_dropD)
  have "fold (split_step p index) [index..<index + Suc j] st
      = split_step p index (index + j) (fold (split_step p index) [index..<index + j] st)"
    by simp
  also have "\<dots> = split_step p index (index + j) (st\<lparr>sp_slots := ?S, up := moved_up p u ?D\<rparr>)"
    using Suc by simp
  also have "\<dots> = st\<lparr>sp_slots := ?S[index + j := zero_slot], up := moved_up p u (take (Suc j) (drop index ?L))\<rparr>"
    unfolding m [symmetric] by (simp add: split_step_high at_k)
  finally show ?case unfolding u .
qed

text \<open>An empty page, such as one fresh from \<open>makeSPage\<close>.\<close>

definition empty_page :: "slotted_page \<Rightarrow> bool" where
  "empty_page u \<longleftrightarrow> numRecords (hdr u) = 0 \<and> numEntries (hdr u) = 0 \<and> usedData (hdr u) = 0 \<and>
     length (slots u) = maxSlots (hdr u) \<and> length (entries u) = maxEntries (hdr u)"

lemma SPSplit_page:
  assumes p: "page_shape ty p" and u: "empty_page upper" "keySize (hdr upper) = keySize (hdr p)"
  shows "wf_page ty (fst (SPSplit p upper index)) \<and> records (fst (SPSplit p upper index)) = take index (records p) \<and>
         wf_page ty (snd (SPSplit p upper index)) \<and> records (snd (SPSplit p upper index)) = drop index (records p)"
proof -
  note parts = shape_parts [OF p]
  let ?L = "live_slots p"
  define total where "total = numRecords (hdr p)"
  define i where "i = (if index > total then total else index)"
  define mS where "mS = total - i"
  define mE where "mE = sum_list (map (\<lambda>j. slen (slots p ! j)) [i..<total])"
  have il: "i \<le> total" by (simp add: i_def)
  have lL: "length ?L = total" by (simp add: length_live [OF p] total_def)
  have "map (\<lambda>j. slen (slots p ! j)) [i..<total] = map slen (drop i ?L)"
    using il lL by (intro nth_equalityI) (auto simp: nth_live total_def)
  then have mE: "mE = sum_list (map slen (drop i ?L))" by (simp add: mE_def)
  define u1 where "u1 = (if mS > maxSlots (hdr upper)
      then upper\<lparr>slots := slots upper @ replicate (mS - maxSlots (hdr upper)) zero_slot,
                 hdr := (hdr upper)\<lparr>maxSlots := mS\<rparr>\<rparr> else upper)"
  define u2 where "u2 = (if mE > maxEntries (hdr u1)
      then u1\<lparr>entries := entries u1 @ replicate (mE - maxEntries (hdr u1)) zero_entry,
              hdr := (hdr u1)\<lparr>maxEntries := mE\<rparr>\<rparr> else u1)"
  have u2: "numRecords (hdr u2) = 0" "numEntries (hdr u2) = 0" "usedData (hdr u2) = 0" "keySize (hdr u2) = keySize (hdr p)"
    "length (slots u2) = maxSlots (hdr u2)" "mS \<le> maxSlots (hdr u2)"
    "length (entries u2) = maxEntries (hdr u2)" "mE \<le> maxEntries (hdr u2)"
    using u by (auto simp: u2_def u1_def empty_page_def)
  have m0: "moved_up p u2 [] = u2" using u2(1-3) by (simp add: moved_up_def)
  define K where "K = concat (map (slot_entries p) (take i ?L)) @ drop (sum_list (map slen (take i ?L))) (replicate (maxEntries (hdr p)) zero_entry)"
  have "fold (split_step p i) [0..<total] \<lparr>sp_slots = slots p, kept = replicate (maxEntries (hdr p)) zero_entry,
                 keptEntries = 0, keptData = 0, up = u2\<rparr>
      = fold (split_step p i) [i..<i + mS] (fold (split_step p i) [0..<i]
          \<lparr>sp_slots = slots p, kept = replicate (maxEntries (hdr p)) zero_entry, keptEntries = 0, keptData = 0, up = u2\<rparr>)"
    using il upt_add_eq_append [of 0 i mS] by (simp add: mS_def)
  also have "\<dots> = fold (split_step p i) [i..<i + mS]
      \<lparr>sp_slots = relocate 0 (take i ?L) @ drop i (slots p), kept = K,
       keptEntries = sum_list (map slen (take i ?L)), keptData = sum_list (map ssize (take i ?L)), up = u2\<rparr>"
    using split_lower [OF p order_refl] il by (simp add: K_def total_def)
  also have "\<dots> = \<lparr>sp_slots = relocate 0 (take i ?L) @ replicate mS zero_slot @ drop total (slots p), kept = K,
       keptEntries = sum_list (map slen (take i ?L)), keptData = sum_list (map ssize (take i ?L)),
       up = moved_up p u2 (drop i ?L)\<rparr>"
    by (subst split_upper [OF p]) (use il u2 lL in \<open>simp_all add: mS_def total_def m0\<close>)
  finally have loop: "fold (split_step p i) [0..<total] \<lparr>sp_slots = slots p, kept = replicate (maxEntries (hdr p)) zero_entry,
                 keptEntries = 0, keptData = 0, up = u2\<rparr> =
     \<lparr>sp_slots = relocate 0 (take i ?L) @ replicate mS zero_slot @ drop total (slots p), kept = K,
      keptEntries = sum_list (map slen (take i ?L)), keptData = sum_list (map ssize (take i ?L)),
      up = moved_up p u2 (drop i ?L)\<rparr>" .
  define lo where "lo = p\<lparr>entries := K, slots := relocate 0 (take i ?L) @ replicate mS zero_slot @ drop total (slots p),
      hdr := (hdr p)\<lparr>numRecords := i, numEntries := sum_list (map slen (take i ?L)), usedData := sum_list (map ssize (take i ?L))\<rparr>\<rparr>"
  have split: "SPSplit p upper index = (updateKeyBounds lo, updateKeyBounds (moved_up p u2 (drop i ?L)))"
    unfolding SPSplit_def Let_def total_def [symmetric] i_def [symmetric] mS_def [symmetric] mE_def [symmetric]
      u1_def [symmetric] u2_def [symmetric] loop by (simp add: lo_def)
  have recs: "map (\<lambda>s. (ID s, slot_entries p s)) (take i ?L) = take index (records p)"
    "map (\<lambda>s. (ID s, slot_entries p s)) (drop i ?L) = drop index (records p)"
    using lL by (simp_all add: records_def take_map drop_map i_def)
  have small: "recs_bytes (keySize (hdr p)) (take index (records p)) < 2 ^ 32" "recs_bytes (keySize (hdr p)) (drop index (records p)) < 2 ^ 32"
    using recs_bytes_take_drop [of "keySize (hdr p)" index "records p"] parts(11) by linarith+
  note srt = sorted_recs_take_drop [OF parts(6), of index]
  have "sum_list (map slen (take i ?L)) \<le> numEntries (hdr p)"
    unfolding parts(9) take_map [symmetric] by (rule sum_list_take_le)
  then have "sum_list (map slen (take i ?L)) \<le> maxEntries (hdr p)" using parts(4) by simp
  moreover have "length (concat (map (slot_entries p) (take i ?L))) = sum_list (map slen (take i ?L))"
    "length (concat (map (slot_entries p) (drop i ?L))) = sum_list (map slen (drop i ?L))"
    by (rule entries_of_slots [OF p], auto dest: in_set_takeD in_set_dropD)+
  ultimately have lens: "length K = maxEntries (hdr p)"
    "length (entries (moved_up p u2 (drop i ?L))) = maxEntries (hdr u2)"
    using u2(7,8) by (simp_all add: K_def moved_up_def mE del: length_concat)
  have "page_shape ty lo \<and> records lo = map (\<lambda>s. (ID s, slot_entries p s)) (take i ?L)"
    by (rule gathered_shape [OF p, where post = "drop (sum_list (map slen (take i ?L))) (replicate (maxEntries (hdr p)) zero_entry)"])
       (use il lL parts(1,2) srt small lens in \<open>auto simp: recs lo_def K_def mS_def total_def live_slots_def [where p = "slotted_page.hdr_update f r" for f r] dest: in_set_takeD\<close>)
  moreover have "page_shape ty (moved_up p u2 (drop i ?L)) \<and>
      records (moved_up p u2 (drop i ?L)) = map (\<lambda>s. (ID s, slot_entries p s)) (drop i ?L)"
    by (rule gathered_shape [OF p, where post = "drop (sum_list (map slen (drop i ?L))) (entries u2)"])
       (use il lL srt small lens(2) u2 in \<open>auto simp: recs mS_def live_slots_def [where p = "slotted_page.hdr_update f r" for f r] moved_up_def dest: in_set_dropD\<close>)
  ultimately show ?thesis unfolding split recs by (simp add: updateKeyBounds_wf)
qed

lemma makeSPage_wf:
  "wf_page ty (makeSPage ns ne cap (orderingKeyDiskSize ty)) \<and>
   empty_page (makeSPage ns ne cap ks) \<and>
   records (makeSPage ns ne cap ks) = []"
  by (simp add: wf_page_def page_shape_def makeSPage_def records_def live_slots_def bounds_ok_def
      sorted_recs_def recs_bytes_def empty_page_def)

section \<open>What the page promises\<close>

text \<open>The page as a finite map kept in key order: inserting, deleting and updating on the list of
  records, said without the search.\<close>

definition ins_rec :: "ordering_key \<Rightarrow> entry list \<Rightarrow> rec list \<Rightarrow> rec list" where
  "ins_rec key es rs = filter (\<lambda>r. key_rank (fst r) < key_rank key) rs @ (key, es)
                       # filter (\<lambda>r. key_rank key < key_rank (fst r)) rs"

definition del_rec :: "ordering_key \<Rightarrow> rec list \<Rightarrow> rec list" where
  "del_rec key rs = filter (\<lambda>r. fst r \<noteq> key) rs"

definition upd_rec :: "ordering_key \<Rightarrow> entry list \<Rightarrow> rec list \<Rightarrow> rec list" where
  "upd_rec key es rs = map (\<lambda>r. if fst r = key then (key, overlay (length es) es (snd r)) else r) rs"

lemma key_pos_filters:
  assumes "sorted_recs ty rs" "wf_key ty key"
  shows "take (key_pos rs key) rs = filter (\<lambda>r. key_rank (fst r) < key_rank key) rs"
    and "drop (key_pos rs key) rs = filter (\<lambda>r. \<not> key_rank (fst r) < key_rank key) rs"
proof -
  let ?i = "key_pos rs key" and ?P = "\<lambda>r. key_rank (fst r) < key_rank key"
  note sp = key_pos_splits [OF assms]
  have lo: "?P r" if "r \<in> set (take ?i rs)" for r
  proof -
    obtain j where "j < length (take ?i rs)" "r = take ?i rs ! j" using \<open>r \<in> set (take ?i rs)\<close> unfolding in_set_conv_nth by blast
    then show ?thesis using sp by simp
  qed
  have hi: "\<not> ?P r" if "r \<in> set (drop ?i rs)" for r
  proof -
    obtain j where "j < length (drop ?i rs)" "r = drop ?i rs ! j" using \<open>r \<in> set (drop ?i rs)\<close> unfolding in_set_conv_nth by blast
    then show ?thesis using sp by (simp add: not_less)
  qed
  have "filter ?P rs = filter ?P (take ?i rs @ drop ?i rs)" "filter (\<lambda>r. \<not> ?P r) rs = filter (\<lambda>r. \<not> ?P r) (take ?i rs @ drop ?i rs)"
    by simp_all
  with lo hi show "take ?i rs = filter ?P rs" "drop ?i rs = filter (\<lambda>r. \<not> ?P r) rs"
    by (simp_all only: filter_append) (simp_all add: filter_id_conv filter_empty_conv)
qed

lemma insert_at_ins_rec:
  assumes "sorted_recs ty rs" "wf_key ty key" "key \<notin> fst ` set rs"
  shows "insert_at (key_pos rs key) (key, es) rs = ins_rec key es rs"
proof -
  have "(\<not> key_rank (fst r) < key_rank key) = (key_rank key < key_rank (fst r))" if "r \<in> set rs" for r
  proof -
    have "fst r \<noteq> key" "wf_key ty (fst r)" using that assms(1,3) by (auto simp: sorted_recs_def)
    then have "key_rank (fst r) \<noteq> key_rank key" using key_rank_inj [of ty "fst r" key] assms(2) by blast
    then show ?thesis by (simp add: not_less le_less)
  qed
  then show ?thesis
    unfolding insert_at_def ins_rec_def key_pos_filters [OF assms(1,2)] by (simp cong: filter_cong)
qed

lemma sorted_recs_distinct: "sorted_recs ty rs \<Longrightarrow> distinct (map fst rs)"
  by (auto simp: sorted_recs_def strict_sorted_iff distinct_map [of key_rank "map fst rs", unfolded map_map])

lemma nth_key_unique:
  assumes "sorted_recs ty rs" "i < length rs" "fst (rs ! i) = key" "j < length rs"
  shows "(fst (rs ! j) = key) = (j = i)"
  using nth_eq_iff_index_eq [OF sorted_recs_distinct [OF assms(1)], of i j] assms by auto

lemma delete_at_del_rec:
  assumes "sorted_recs ty rs" "wf_key ty key" "key \<in> fst ` set rs"
  shows "delete_at (key_pos rs key) rs = del_rec key rs"
proof -
  obtain i where i: "i < length rs" "fst (rs ! i) = key" using assms(3) by (auto simp: in_set_conv_nth)
  have pos: "key_pos rs key = i" by (rule key_pos_at [OF assms(1,2) i])
  obtain ys zs where s: "rs = ys @ rs ! i # zs" "delete_at i rs = ys @ zs" "i = length ys"
    using delete_at_split [OF i(1)] .
  have "distinct (map fst (ys @ rs ! i # zs))" using sorted_recs_distinct [OF assms(1)] s(1) by metis
  then have "\<forall>r \<in> set (ys @ zs). fst r \<noteq> key" using i(2) by (force simp: image_iff)
  then have "filter (\<lambda>r. fst r \<noteq> key) (ys @ rs ! i # zs) = ys @ zs" using i(2) by (auto simp: filter_id_conv)
  then show ?thesis using s pos by (metis del_rec_def)
qed

lemma update_upd_rec:
  assumes "sorted_recs ty rs" "wf_key ty key" "map_of rs key = Some old"
  shows "rs[key_pos rs key := (key, overlay (length es) es old)] = upd_rec key es rs"
proof -
  obtain i where i: "i < length rs" "rs ! i = (key, old)"
    using map_of_SomeD [OF assms(3)] by (auto simp: in_set_conv_nth)
  have pos: "key_pos rs key = i" using key_pos_at [OF assms(1,2) i(1)] i(2) by simp
  show ?thesis
  proof (rule nth_equalityI)
    fix j assume "j < length (rs[key_pos rs key := (key, overlay (length es) es old)])"
    then have j: "j < length rs" by simp
    have u: "(fst (rs ! j) = key) = (j = i)" by (rule nth_key_unique [OF assms(1) i(1) _ j]) (simp add: i)
    then show "rs[key_pos rs key := (key, overlay (length es) es old)] ! j = upd_rec key es rs ! j"
      using i j by (cases "j = i") (simp_all add: upd_rec_def pos)
  qed (simp add: upd_rec_def)
qed

lemma SPHasRoom_iff:
  assumes "page_shape ty p" "wf_record r"
    and "recs_bytes (keySize (hdr p)) (records p) + rec_bytes (keySize (hdr p)) (key, rentries r) < 2 ^ 32"
  shows "SPHasRoom p (rsize r) (rlen r)
         = (recs_bytes (keySize (hdr p)) (records p) + rec_bytes (keySize (hdr p)) (key, rentries r) \<le> arrCap (hdr p))"
proof -
  have "rlen r = length (rentries r)" "rsize r = entry_bytes (rentries r)" using assms(2) by (simp_all add: wf_record_def)
  then have "SPRecordBytes p (rsize r) (rlen r) = u32_of (rec_bytes (keySize (hdr p)) (key, rentries r))"
    by (simp only: SPRecordBytes_def rec_bytes_def snd_conv)
  then have "SPRecordBytes p (rsize r) (rlen r) = rec_bytes (keySize (hdr p)) (key, rentries r)"
    using assms(3) by (simp only: u32_of_small)
  then show ?thesis
    unfolding SPHasRoom_def used_bytes [OF assms(1)] by (simp add: u32_add_small [OF assms(3)])
qed

section \<open>Properties\<close>

text \<open>A page with two records, inserted out of key order, for the instances below.\<close>

definition ex_entry :: "byte list \<Rightarrow> entry" where
  "ex_entry bs = \<lparr>edata = bs, esize = length bs, etype = T_STRING\<rparr>"

definition ex_record :: "byte list list \<Rightarrow> sp_record" where
  "ex_record bss = \<lparr>rentries = map ex_entry bss, rlen = length bss, rsize = sum_list (map length bss)\<rparr>"

definition ex_page :: slotted_page where
  "ex_page = snd (SPInsert (snd (SPInsert (makeSPage 2 2 120 8) (pkToOk (VInt 7)) (ex_record [[1, 2], [3]])))
                           (pkToOk (VInt 3)) (ex_record [[4], [5], [6, 7, 8]]))"

lemma ex_page_bytes:
  "recs_bytes (keySize (hdr ex_page)) (records ex_page) = 78" "recs_bytes 8 (records ex_page) = 78"
  "keySize (hdr ex_page) = 8" "arrCap (hdr ex_page) = 120"
  by code_simp+

lemma ex_rank:
  "key_rank (pkToOk (VInt 3)) = 9223372036854775811" "key_rank (pkToOk (VInt 5)) = 9223372036854775813"
  "key_rank (pkToOk (VInt 7)) = 9223372036854775815"
  by (simp_all add: key_rank_def pkToOk_def SIGN_BIT_def)

lemma ex_page_records:
  "records ex_page = [(pkToOk (VInt 3), map ex_entry [[4], [5], [6, 7, 8]]), (pkToOk (VInt 7), map ex_entry [[1, 2], [3]])]"
  by code_simp

lemma ex_page_wf: "wf_page ORDERING_ULONG ex_page"
proof -
  have "wf_key ORDERING_ULONG (pkToOk (VInt 3))" "wf_key ORDERING_ULONG (pkToOk (VInt 7))" by code_simp+
  then have "sorted_recs ORDERING_ULONG (records ex_page)"
    unfolding ex_page_records by (simp add: sorted_recs_def ex_rank)
  moreover have "bounds_ok ex_page" by code_simp
  moreover have "length (slots ex_page) = maxSlots (hdr ex_page) \<and> numRecords (hdr ex_page) \<le> maxSlots (hdr ex_page) \<and>
     length (entries ex_page) = maxEntries (hdr ex_page) \<and> numEntries (hdr ex_page) \<le> maxEntries (hdr ex_page) \<and>
     keySize (hdr ex_page) = orderingKeyDiskSize ORDERING_ULONG \<and>
     list_all (slot_ok ex_page) (live_slots ex_page) \<and> sorted_wrt apart (live_slots ex_page) \<and>
     numEntries (hdr ex_page) = sum_list (map slen (live_slots ex_page)) \<and>
     usedData (hdr ex_page) = sum_list (map ssize (live_slots ex_page))"
    by code_simp
  ultimately show ?thesis
    unfolding wf_page_def page_shape_def ex_page_bytes(1) list_all_iff by simp
qed

lemma ex_record_wf: "wf_record (ex_record bss)"
  by (simp add: wf_record_def ex_record_def entry_bytes_def ex_entry_def comp_def)

text \<open>C13: \<open>SPInsert\<close> refuses a record exactly when the slots, entry headers and data of the page with
  the new record would exceed the page's capacity on disk, and then changes nothing. Otherwise it inserts
  the record at its place in key order: afterwards the page holds the records it held and the new one,
  sorted by key, with counters, slots, entry cells and key bounds consistent. (Assumes the sum of sizes
  fits \<open>uint32_t\<close> and, as the code says, that the key is not in the page.)\<close>

theorem SPInsert_correct:
  assumes "wf_page ty p" "wf_record r" "wf_key ty key" "key \<notin> fst ` set (records p)"
    and "recs_bytes (keySize (hdr p)) (records p) + rec_bytes (keySize (hdr p)) (key, rentries r) < 2 ^ 32"
  shows "if recs_bytes (keySize (hdr p)) (ins_rec key (rentries r) (records p)) \<le> arrCap (hdr p)
         then fst (SPInsert p key r) \<and> wf_page ty (snd (SPInsert p key r)) \<and>
              records (snd (SPInsert p key r)) = ins_rec key (rentries r) (records p)
         else SPInsert p key r = (False, p)"
proof -
  have p: "page_shape ty p" using assms(1) by (rule wf_page_shape)
  note srt = shape_parts(6) [OF p]
  have ins: "insert_at (key_pos (records p) key) (key, rentries r) (records p) = ins_rec key (rentries r) (records p)"
    by (rule insert_at_ins_rec [OF srt assms(3,4)])
  have "recs_bytes (keySize (hdr p)) (ins_rec key (rentries r) (records p))
      = recs_bytes (keySize (hdr p)) (records p) + rec_bytes (keySize (hdr p)) (key, rentries r)"
    unfolding ins [symmetric] by (simp add: recs_bytes_insert_at key_pos_le)
  then have room: "SPHasRoom p (rsize r) (rlen r) = (recs_bytes (keySize (hdr p)) (ins_rec key (rentries r) (records p)) \<le> arrCap (hdr p))"
    using SPHasRoom_iff [OF p assms(2,5)] by simp
  show ?thesis
  proof (cases "SPHasRoom p (rsize r) (rlen r)")
    case True
    with SPInsert_page [OF p assms(2) True assms(3,4,5)] room ins show ?thesis by simp
  next
    case False
    with room show ?thesis by (simp add: SPInsert_def)
  qed
qed

theorem SPInsert_correct_witness:
  "fst (SPInsert ex_page (pkToOk (VInt 5)) (ex_record [[9]])) \<and>
   SPInsert ex_page (pkToOk (VInt 5)) (ex_record [replicate 50 1]) = (False, ex_page)"
proof -
  have key: "wf_key ORDERING_ULONG (pkToOk (VInt 5))" "pkToOk (VInt 5) \<notin> fst ` set (records ex_page)"
    by code_simp+
  have "rec_bytes 8 (pkToOk (VInt 5), rentries (ex_record [[9]])) = 27"
    "rec_bytes 8 (pkToOk (VInt 5), rentries (ex_record [replicate 50 1])) = 76"
    by code_simp+
  then have "recs_bytes (keySize (hdr ex_page)) (records ex_page) + rec_bytes (keySize (hdr ex_page)) (pkToOk (VInt 5), rentries (ex_record [[9]])) < 2 ^ 32"
    "recs_bytes (keySize (hdr ex_page)) (records ex_page) + rec_bytes (keySize (hdr ex_page)) (pkToOk (VInt 5), rentries (ex_record [replicate 50 1])) < 2 ^ 32"
    by (simp_all add: ex_page_bytes)
  note run = this [THEN SPInsert_correct [OF ex_page_wf ex_record_wf key]]
  have "recs_bytes (keySize (hdr ex_page)) (ins_rec (pkToOk (VInt 5)) (rentries (ex_record [[9]])) (records ex_page)) \<le> arrCap (hdr ex_page)"
    "\<not> recs_bytes (keySize (hdr ex_page)) (ins_rec (pkToOk (VInt 5)) (rentries (ex_record [replicate 50 1])) (records ex_page)) \<le> arrCap (hdr ex_page)"
    by (simp_all add: ex_page_records ins_rec_def ex_rank ex_page_bytes recs_bytes_def rec_bytes_def SP_SLOT_DISK_SIZE_def
        entry_bytes_def ex_entry_def ex_record_def)
  with run show ?thesis by simp
qed

text \<open>C14: \<open>SPDelete\<close> reports whether the key was in the page, and removes exactly that record: the entry
  cells are compacted and every slot that pointed behind the gap is rebased, so that the other records keep
  their entries. A key that is not there leaves the page as it was.\<close>

theorem SPDelete_correct:
  assumes "wf_page ty p" "wf_key ty key"
  shows "if key \<in> fst ` set (records p)
         then fst (SPDelete p key) \<and> wf_page ty (snd (SPDelete p key)) \<and>
              records (snd (SPDelete p key)) = del_rec key (records p)
         else SPDelete p key = (False, p)"
  using SPDelete_page [OF assms] delete_at_del_rec [OF shape_parts(6) [OF wf_page_shape [OF assms(1)]] assms(2)]
  by (auto split: if_splits)

theorem SPDelete_correct_witness:
  "records (snd (SPDelete ex_page (pkToOk (VInt 7)))) = [(pkToOk (VInt 3), map ex_entry [[4], [5], [6, 7, 8]])]"
proof -
  have "wf_key ORDERING_ULONG (pkToOk (VInt 7))" "pkToOk (VInt 7) \<in> fst ` set (records ex_page)" by code_simp+
  with SPDelete_correct [OF ex_page_wf, of "pkToOk (VInt 7)"]
  have "records (snd (SPDelete ex_page (pkToOk (VInt 7)))) = del_rec (pkToOk (VInt 7)) (records ex_page)" by simp
  also have "\<dots> = [(pkToOk (VInt 3), map ex_entry [[4], [5], [6, 7, 8]])]" by code_simp
  finally show ?thesis .
qed

text \<open>C16: \<open>SPUpdate\<close> replaces the leading entries of the record that has the key and keeps the rest, with the
  sizes of slot and page following; it refuses, changing nothing, a key the page does not hold and a record with
  more entries than the one in the page.\<close>

theorem SPUpdate_correct:
  assumes "wf_page ty p" "wf_key ty key" "wf_record r"
    and "recs_bytes (keySize (hdr p)) (records p) + entry_bytes (rentries r) < 2 ^ 32"
  shows "case map_of (records p) key of
           None \<Rightarrow> SPUpdate p key r = (False, p)
         | Some old \<Rightarrow>
             if length old < length (rentries r) then SPUpdate p key r = (False, p)
             else fst (SPUpdate p key r) \<and> wf_page ty (snd (SPUpdate p key r)) \<and>
                  records (snd (SPUpdate p key r)) = upd_rec key (rentries r) (records p)"
  using SPUpdate_page [OF assms] update_upd_rec [OF shape_parts(6) [OF wf_page_shape [OF assms(1)]] assms(2)]
  by (auto split: option.splits if_splits)

theorem SPUpdate_correct_witness:
  "records (snd (SPUpdate ex_page (pkToOk (VInt 3)) (ex_record [[9, 9, 9]])))
   = [(pkToOk (VInt 3), map ex_entry [[9, 9, 9], [5], [6, 7, 8]]), (pkToOk (VInt 7), map ex_entry [[1, 2], [3]])]"
proof -
  have "entry_bytes (rentries (ex_record [[9, 9, 9]])) = 3" by code_simp
  then have "recs_bytes (keySize (hdr ex_page)) (records ex_page) + entry_bytes (rentries (ex_record [[9, 9, 9]])) < 2 ^ 32"
    by (simp add: ex_page_bytes)
  moreover have "wf_key ORDERING_ULONG (pkToOk (VInt 3))"
    "map_of (records ex_page) (pkToOk (VInt 3)) = Some (map ex_entry [[4], [5], [6, 7, 8]])"
    "length (rentries (ex_record [[9, 9, 9]])) = 1" by code_simp+
  ultimately have "records (snd (SPUpdate ex_page (pkToOk (VInt 3)) (ex_record [[9, 9, 9]])))
      = upd_rec (pkToOk (VInt 3)) (rentries (ex_record [[9, 9, 9]])) (records ex_page)"
    using SPUpdate_correct [OF ex_page_wf _ ex_record_wf, of "pkToOk (VInt 3)" "[[9, 9, 9]]"] by simp
  also have "\<dots> = [(pkToOk (VInt 3), map ex_entry [[9, 9, 9], [5], [6, 7, 8]]), (pkToOk (VInt 7), map ex_entry [[1, 2], [3]])]"
    by code_simp
  finally show ?thesis .
qed

text \<open>C15: \<open>SPSplit\<close> leaves the records before the index in the page and moves the others, with their entries,
  to the empty upper page, in order; both pages are consistent afterwards. An index past the end moves nothing.\<close>

theorem SPSplit_correct:
  assumes "wf_page ty p" "empty_page upper" "keySize (hdr upper) = keySize (hdr p)"
  shows "wf_page ty (fst (SPSplit p upper i)) \<and> records (fst (SPSplit p upper i)) = take i (records p) \<and>
         wf_page ty (snd (SPSplit p upper i)) \<and> records (snd (SPSplit p upper i)) = drop i (records p)"
  using SPSplit_page [OF wf_page_shape [OF assms(1)] assms(2,3)] by blast

theorem SPSplit_correct_witness:
  "records (fst (SPSplit ex_page (makeSPage 1 1 120 8) 1)) @ records (snd (SPSplit ex_page (makeSPage 1 1 120 8) 1))
   = records ex_page"
proof -
  have "empty_page (makeSPage 1 1 120 8)" "keySize (hdr (makeSPage 1 1 120 8)) = keySize (hdr ex_page)" by code_simp+
  with SPSplit_correct [OF ex_page_wf, of "makeSPage 1 1 120 8" 1] show ?thesis by simp
qed

text \<open>C17: \<open>SPRead\<close> returns the entries of the record that has the key, and nothing for a key the page does not
  hold; \<open>SPSearch\<close> finds a slot exactly when the page holds the key, and it is that record's.\<close>

theorem SPRead_correct:
  assumes "wf_page ty p" "wf_key ty key"
  shows "SPRead p key = map_of (records p) key \<and>
         (case SPSearch p key of None \<Rightarrow> key \<notin> fst ` set (records p)
          | Some i \<Rightarrow> i < length (records p) \<and> fst (records p ! i) = key)"
proof -
  have p: "page_shape ty p" using assms(1) by (rule wf_page_shape)
  have "key \<in> fst ` set (records p) \<Longrightarrow>
      key_pos (records p) key < length (records p) \<and> fst (records p ! key_pos (records p) key) = key"
    using key_pos_at [OF shape_parts(6) [OF p] assms(2)] by (fastforce simp: in_set_conv_nth)
  then show ?thesis by (simp add: SPRead_page [OF p assms(2)] SPSearch_page [OF p assms(2)])
qed

theorem SPRead_correct_witness:
  "SPRead ex_page (pkToOk (VInt 7)) = Some (map ex_entry [[1, 2], [3]]) \<and> SPRead ex_page (pkToOk (VInt 4)) = None"
proof -
  have "wf_key ORDERING_ULONG (pkToOk (VInt 7))" "wf_key ORDERING_ULONG (pkToOk (VInt 4))"
    "map_of (records ex_page) (pkToOk (VInt 7)) = Some (map ex_entry [[1, 2], [3]])"
    "map_of (records ex_page) (pkToOk (VInt 4)) = None" by code_simp+
  then show ?thesis using SPRead_correct [OF ex_page_wf, of "pkToOk (VInt 7)"] SPRead_correct [OF ex_page_wf, of "pkToOk (VInt 4)"]
    by simp
qed

end
