(* ===== verification/Probing.thy ===== *)
theory Probing
  imports Prelude
begin

text \<open>
  Open addressing with linear probing and backward-shift deletion, which both the dirty-object tables of
  \<open>tableIO.c\<close> and the node cache of \<open>cache.c\<close> use. A table is a list of slots, empty or holding a key
  and a value. The probing loops are stated over that view; the locale \<open>linear_probing\<close> takes a home slot
  for each key and proves, for every such table, that the loops end, that a search finds exactly the keys
  held, and that insertion and deletion are updates of the finite map the table stands for.
\<close>

type_synonym ('k, 'v) slots = "('k \<times> 'v) option list"

section \<open>Cyclic distance\<close>

text \<open>How many steps forward, wrapping at \<open>n\<close>, lead from \<open>a\<close> to \<open>b\<close>.\<close>

definition dist :: "nat \<Rightarrow> nat \<Rightarrow> nat \<Rightarrow> nat" where
  "dist n a b = (if a \<le> b then b - a else b + n - a)"

definition nexti :: "nat \<Rightarrow> nat \<Rightarrow> nat" where
  "nexti n i = (if i + 1 = n then 0 else i + 1)"

lemma nexti_mod: "i < n \<Longrightarrow> (i + 1) mod n = nexti n i"
  by (auto simp: nexti_def)

lemma nexti_less: "i < n \<Longrightarrow> nexti n i < n"
  by (auto simp: nexti_def)

lemma dist_less: "a < n \<Longrightarrow> b < n \<Longrightarrow> dist n a b < n"
  by (auto simp: dist_def)

lemma dist_self [simp]: "dist n a a = 0"
  by (simp add: dist_def)

lemma dist_0_iff: "a < n \<Longrightarrow> b < n \<Longrightarrow> (dist n a b = 0) = (a = b)"
  by (auto simp: dist_def)

lemma dist_nexti: "i < n \<Longrightarrow> e < n \<Longrightarrow> i \<noteq> e \<Longrightarrow> dist n i e = Suc (dist n (nexti n i) e)"
  by (auto simp: dist_def nexti_def)

lemma dist_nexti_right: "b < n \<Longrightarrow> i < n \<Longrightarrow> e < n \<Longrightarrow> dist n b i < dist n b e \<Longrightarrow> dist n b (nexti n i) = Suc (dist n b i)"
  by (auto simp: dist_def nexti_def split: if_splits)

lemma dist_inj: "a < n \<Longrightarrow> x < n \<Longrightarrow> y < n \<Longrightarrow> dist n a x = dist n a y \<Longrightarrow> x = y"
  by (auto simp: dist_def split: if_splits)

lemma way_prefix:
  assumes "h < n" "p < n" "hole < n" "j < n" "hole \<noteq> j" "dist n hole j \<le> dist n h j" "dist n h p < dist n h hole"
  shows "dist n h p < dist n h j \<and> p \<noteq> hole \<and> p \<noteq> j"
  using assms unfolding dist_def by (auto split: if_splits)

lemma dist_split: "b < n \<Longrightarrow> x < n \<Longrightarrow> y < n \<Longrightarrow> dist n b x \<le> dist n b y \<Longrightarrow> dist n b y = dist n b x + dist n x y"
  unfolding dist_def by (auto split: if_splits)

lemma dist_add: "a < n \<Longrightarrow> b < n \<Longrightarrow> a + dist n a b = b \<or> a + dist n a b = b + n"
  by (auto simp: dist_def)

lemma way_wraps:
  assumes "b < n" "e < n" "j < n" "i < n" "h < n" "dist n b j < dist n b e" "i \<noteq> j" "i \<noteq> e"
    and "dist n h j < dist n h i" "\<not> dist n h e < dist n h i"
  shows "Suc (dist n b j) \<le> dist n b i"
proof (rule ccontr)
  assume "\<not> ?thesis"
  moreover have "dist n b i \<noteq> dist n b j" using dist_inj [OF assms(1,4,3)] assms(7) by blast
  ultimately have "dist n b i < dist n b j" by simp
  moreover note assms(6,9,10) dist_less [OF assms(5,3)] dist_less [OF assms(5,2)] dist_less [OF assms(5,4)]
    dist_less [OF assms(1,3)] dist_less [OF assms(1,2)]
  moreover have "dist n h i \<noteq> dist n h e" using dist_inj [OF assms(5,4,2)] assms(8) by blast
  moreover note dist_add [OF assms(5,3)] dist_add [OF assms(5,2)] dist_add [OF assms(5,4)]
    dist_add [OF assms(1,3)] dist_add [OF assms(1,2)] dist_add [OF assms(1,4)]
  ultimately show False by linarith
qed

section \<open>The loops\<close>

text \<open>Probing for a key from slot \<open>i\<close> on, for at most \<open>fuel\<close> slots: the slot holding the key or the first
  empty one.\<close>

fun probe :: "('k, 'v) slots \<Rightarrow> 'k \<Rightarrow> nat \<Rightarrow> nat \<Rightarrow> nat option" where
  "probe ss k i 0 = None"
| "probe ss k i (Suc f) =
     (case ss ! i of
        None \<Rightarrow> Some i
      | Some (k', v) \<Rightarrow> if k' = k then Some i else probe ss k (nexti (length ss) i) f)"

text \<open>Closing the gap that removing the entry at \<open>hole\<close> leaves: an entry further along the run moves back
  into the hole when \<open>mv\<close>, given its home slot, the hole and where it is, says that it can. It can when the
  way from its home slot to where it is passes the hole (\<open>back_test\<close>).\<close>

fun close_gap :: "(nat \<Rightarrow> nat \<Rightarrow> nat \<Rightarrow> bool) \<Rightarrow> ('k \<Rightarrow> nat) \<Rightarrow> nat \<Rightarrow> ('k, 'v) slots \<Rightarrow> nat \<Rightarrow> nat
    \<Rightarrow> (('k, 'v) slots \<times> nat) option" where
  "close_gap mv home 0 ss hole j = None"
| "close_gap mv home (Suc f) ss hole j =
     (case ss ! j of
        None \<Rightarrow> Some (ss, hole)
      | Some (k, v) \<Rightarrow>
          if mv (home k) hole j
          then close_gap mv home f (ss[hole := ss ! j]) j (nexti (length ss) j)
          else close_gap mv home f ss hole (nexti (length ss) j))"

definition back_test :: "nat \<Rightarrow> (nat \<Rightarrow> nat \<Rightarrow> nat \<Rightarrow> bool) \<Rightarrow> bool" where
  "back_test n mv \<longleftrightarrow> (\<forall>h < n. \<forall>hole < n. \<forall>j < n. hole \<noteq> j \<longrightarrow> mv h hole j = (dist n hole j \<le> dist n h j))"

section \<open>The map a table stands for\<close>

definition table_map :: "('k, 'v) slots \<Rightarrow> 'k \<Rightarrow> 'v option" where
  "table_map ss = map_of (concat (map (\<lambda>x. case x of None \<Rightarrow> [] | Some p \<Rightarrow> [p]) ss))"

definition occupied :: "('k, 'v) slots \<Rightarrow> nat" where
  "occupied ss = length (filter (\<lambda>x. x \<noteq> None) ss)"

definition distinct_keys :: "('k, 'v) slots \<Rightarrow> bool" where
  "distinct_keys ss \<longleftrightarrow> (\<forall>i < length ss. \<forall>j < length ss. \<forall>k v w.
     ss ! i = Some (k, v) \<longrightarrow> ss ! j = Some (k, w) \<longrightarrow> i = j)"

lemma distinct_keysD:
  "distinct_keys ss \<Longrightarrow> i < length ss \<Longrightarrow> j < length ss \<Longrightarrow> ss ! i = Some (k, v) \<Longrightarrow> ss ! j = Some (k, w) \<Longrightarrow> i = j"
  by (auto simp: distinct_keys_def)

lemma table_map_Cons: "table_map (x # xs) = (case x of None \<Rightarrow> table_map xs | Some (k, v) \<Rightarrow> (table_map xs)(k \<mapsto> v))"
  by (auto simp: table_map_def split: option.splits)

lemma distinct_keys_Cons: "distinct_keys (x # xs) \<Longrightarrow> distinct_keys xs"
  unfolding distinct_keys_def by (metis Suc_less_eq length_Cons nat.inject nth_Cons_Suc)

lemma table_map_None: "(\<forall>v. Some (k, v) \<notin> set ss) = (table_map ss k = None)"
  by (induction ss) (auto simp: table_map_Cons table_map_def [of "[]"] split: option.splits)

lemma table_map_Some: "distinct_keys ss \<Longrightarrow> (table_map ss k = Some v) = (Some (k, v) \<in> set ss)"
proof (induction ss)
  case (Cons x xs)
  have "Some (k, w) \<notin> set xs" if "x = Some (k, u)" for u w
  proof
    assume "Some (k, w) \<in> set xs"
    then obtain j where "j < length xs" "xs ! j = Some (k, w)" by (auto simp: in_set_conv_nth)
    with distinct_keysD [OF Cons.prems, of 0 "Suc j" k u w] that show False by simp
  qed
  with Cons.IH [OF distinct_keys_Cons [OF Cons.prems]] show ?case
    by (auto simp: table_map_Cons split: option.splits)
qed (simp add: table_map_def)

lemma table_map_nth:
  "distinct_keys ss \<Longrightarrow> i < length ss \<Longrightarrow> ss ! i = Some (k, v) \<Longrightarrow> table_map ss k = Some v"
  by (metis nth_mem table_map_Some)

lemma table_map_nthE:
  assumes "distinct_keys ss" "table_map ss k = Some v"
  obtains i where "i < length ss" "ss ! i = Some (k, v)"
  using assms by (auto simp: table_map_Some in_set_conv_nth)

lemma table_map_eqI:
  assumes "distinct_keys ss" "\<And>k v. (Some (k, v) \<in> set ss) = (m k = Some v)"
  shows "table_map ss = m"
proof
  fix k show "table_map ss k = m k"
    using assms by (metis not_None_eq table_map_Some)
qed

lemma finite_dom_table_map: "finite (dom (table_map ss))"
  by (simp add: table_map_def finite_dom_map_of)

lemma occupied_less: "(occupied ss < length ss) = (None \<in> set ss)"
proof
  assume "None \<in> set ss" then show "occupied ss < length ss"
    unfolding occupied_def by (rule length_filter_less) simp
next
  assume less: "occupied ss < length ss"
  show "None \<in> set ss"
  proof (rule ccontr)
    assume "None \<notin> set ss"
    then have "filter (\<lambda>x. x \<noteq> None) ss = ss" by (intro filter_True) metis
    with less show False by (simp add: occupied_def)
  qed
qed

lemma occupied_update:
  assumes "i < length ss"
  shows "occupied (ss[i := x]) + of_bool (ss ! i \<noteq> None) = occupied ss + of_bool (x \<noteq> None)"
proof -
  have "ss = take i ss @ ss ! i # drop (Suc i) ss" using assms by (rule id_take_nth_drop)
  then have "occupied ss = length (filter (\<lambda>x. x \<noteq> None) (take i ss @ ss ! i # drop (Suc i) ss))"
    by (simp add: occupied_def)
  then show ?thesis using assms by (simp add: occupied_def upd_conv_take_nth_drop)
qed

lemma occupied_table_map:
  assumes "distinct_keys ss" shows "occupied ss = card (dom (table_map ss))"
  using assms
proof (induction ss)
  case Nil
  then show ?case by (simp add: occupied_def table_map_def)
next
  case (Cons x xs)
  have "table_map xs k = None" if "x = Some (k, u)" for k u
  proof (rule ccontr)
    assume "table_map xs k \<noteq> None"
    with table_map_None [of k xs] have "\<exists>w. Some (k, w) \<in> set xs" by metis
    then obtain j w where "j < length xs" "xs ! j = Some (k, w)" by (auto simp: in_set_conv_nth)
    with distinct_keysD [OF Cons.prems, of 0 "Suc j" k u w] that show False by simp
  qed
  with Cons.IH [OF distinct_keys_Cons [OF Cons.prems]] show ?case
    by (auto simp: table_map_Cons occupied_def card_insert_if finite_dom_table_map split: option.splits)
qed

section \<open>Linear probing\<close>

text \<open>\<open>p\<close> lies on the way from \<open>h\<close> to \<open>i\<close>, which it does not reach.\<close>

definition on_way :: "nat \<Rightarrow> nat \<Rightarrow> nat \<Rightarrow> nat \<Rightarrow> bool" where
  "on_way n h p i \<longleftrightarrow> p < n \<and> dist n h p < dist n h i"

text \<open>The invariant: keys are distinct and every key can be reached from its home slot.\<close>

definition probe_inv :: "('k \<Rightarrow> nat) \<Rightarrow> ('k, 'v) slots \<Rightarrow> bool" where
  "probe_inv home ss \<longleftrightarrow> distinct_keys ss \<and>
     (\<forall>i < length ss. \<forall>k v. ss ! i = Some (k, v) \<longrightarrow> (\<forall>p. on_way (length ss) (home k) p i \<longrightarrow> ss ! p \<noteq> None))"

definition stop_at :: "('k, 'v) slots \<Rightarrow> 'k \<Rightarrow> nat \<Rightarrow> bool" where
  "stop_at ss k i \<longleftrightarrow> (case ss ! i of None \<Rightarrow> True | Some (k', v) \<Rightarrow> k' = k)"

lemma probe_stops:
  assumes "i < length ss" "e < length ss" "ss ! e = None" "dist (length ss) i e < f"
  shows "\<exists>r. probe ss k i f = Some r \<and> r < length ss \<and> dist (length ss) i r \<le> dist (length ss) i e \<and> stop_at ss k r \<and>
             (\<forall>p. on_way (length ss) i p r \<longrightarrow> \<not> stop_at ss k p)"
  using assms
proof (induction f arbitrary: i)
  case (Suc f)
  let ?n = "length ss"
  show ?case
  proof (cases "stop_at ss k i")
    case True
    then have "probe ss k i (Suc f) = Some i" by (auto simp: stop_at_def split: option.splits)
    with True Suc.prems show ?thesis by (auto simp: on_way_def)
  next
    case False
    then have step: "probe ss k i (Suc f) = probe ss k (nexti ?n i) f" and "i \<noteq> e"
      using Suc.prems(3) by (auto simp: stop_at_def split: option.splits)
    have d: "dist ?n i x = Suc (dist ?n (nexti ?n i) x)" if "x < ?n" "x \<noteq> i" for x
      using dist_nexti [OF Suc.prems(1) that(1)] that(2) by simp
    obtain r where r: "probe ss k (nexti ?n i) f = Some r" "r < ?n" "dist ?n (nexti ?n i) r \<le> dist ?n (nexti ?n i) e"
        "stop_at ss k r" "\<And>p. on_way ?n (nexti ?n i) p r \<Longrightarrow> \<not> stop_at ss k p"
      using Suc.IH [of "nexti ?n i"] Suc.prems d [of e] \<open>i \<noteq> e\<close> nexti_less by auto
    have "r \<noteq> i" using False r(4) by auto
    have "\<not> stop_at ss k p" if "on_way ?n i p r" for p
      using that False r(5) [of p] d [of p] d [of r] r(2) \<open>r \<noteq> i\<close> by (cases "p = i") (auto simp: on_way_def)
    then show ?thesis using step r d [of r] d [of e] \<open>r \<noteq> i\<close> \<open>i \<noteq> e\<close> Suc.prems by auto
  qed
qed simp

lemma probe_inv_replicate: "probe_inv home (replicate n None)"
  by (simp add: probe_inv_def distinct_keys_def)

lemma table_map_replicate [simp]: "table_map (replicate n None) = Map.empty"
  by (induction n) (simp_all add: table_map_Cons table_map_def [of "[]"])

lemma occupied_replicate [simp]: "occupied (replicate n None) = 0"
  by (simp add: occupied_def)

lemma None_at: "None \<in> set ss \<Longrightarrow> \<exists>e < length ss. ss ! e = None"
  by (auto simp: in_set_conv_nth)

locale linear_probing =
  fixes home :: "nat \<Rightarrow> 'k \<Rightarrow> nat"
  assumes home_less: "0 < n \<Longrightarrow> home n k < n"
begin

lemma home_in: "i < length ss \<Longrightarrow> home (length ss) k < length ss"
  by (rule home_less) auto

text \<open>A search ends at the key's slot, or at the empty slot where it would go.\<close>

lemma find_spec:
  assumes inv: "probe_inv (home (length ss)) ss" and free: "None \<in> set ss"
  obtains r where "probe ss k (home (length ss) k) (length ss) = Some r" "r < length ss"
    "\<And>p. on_way (length ss) (home (length ss) k) p r \<Longrightarrow> ss ! p \<noteq> None"
    "(ss ! r = None \<and> table_map ss k = None) \<or> (\<exists>v. ss ! r = Some (k, v) \<and> table_map ss k = Some v)"
proof -
  let ?n = "length ss" and ?h = "home (length ss) k"
  have dk: "distinct_keys ss" using inv by (simp add: probe_inv_def)
  obtain e where e: "e < ?n" "ss ! e = None" using None_at [OF free] by blast
  have h: "?h < ?n" using home_in [OF e(1)] .
  obtain r where r: "probe ss k ?h ?n = Some r" "r < ?n" "stop_at ss k r" "\<And>p. on_way ?n ?h p r \<Longrightarrow> \<not> stop_at ss k p"
    using probe_stops [where i = "home (length ss) k" and ss = ss and e = e and f = "length ss" and k = k] h e dist_less [OF h e(1)] by blast
  have way: "ss ! p \<noteq> None" if "on_way ?n ?h p r" for p
    using r(4) [OF that] by (cases "ss ! p") (auto simp: stop_at_def)
  have "(ss ! r = None \<and> table_map ss k = None) \<or> (\<exists>v. ss ! r = Some (k, v) \<and> table_map ss k = Some v)"
  proof (cases "ss ! r")
    case None
    have "table_map ss k = None"
    proof (rule ccontr)
      assume "table_map ss k \<noteq> None"
      then obtain v where "table_map ss k = Some v" by auto
      then obtain x where x: "x < ?n" "ss ! x = Some (k, v)" by (rule table_map_nthE [OF dk])
      have "\<not> on_way ?n ?h r x" using inv x None unfolding probe_inv_def by blast
      moreover have "\<not> on_way ?n ?h x r" using r(4) [of x] x by (auto simp: stop_at_def)
      ultimately have "dist ?n ?h x = dist ?n ?h r" using x(1) r(2) by (auto simp: on_way_def)
      then have "x = r" using dist_inj [OF h x(1) r(2)] by simp
      with x None show False by simp
    qed
    with None show ?thesis by simp
  next
    case (Some kv)
    with r(3) obtain v where "ss ! r = Some (k, v)" by (cases kv) (auto simp: stop_at_def)
    with table_map_nth [OF dk r(2)] show ?thesis by blast
  qed
  with r(1,2) way show thesis using that by blast
qed

text \<open>Writing a pair where the search ended updates the map.\<close>

lemma put_spec:
  assumes inv: "probe_inv (home (length ss)) ss" and r: "r < length ss"
    and way: "\<And>p. on_way (length ss) (home (length ss) k) p r \<Longrightarrow> ss ! p \<noteq> None"
    and at: "(ss ! r = None \<and> table_map ss k = None) \<or> (\<exists>v. ss ! r = Some (k, v) \<and> table_map ss k = Some v)"
  shows "probe_inv (home (length ss)) (ss[r := Some (k, v)]) \<and>
         table_map (ss[r := Some (k, v)]) = (table_map ss)(k \<mapsto> v) \<and>
         occupied (ss[r := Some (k, v)]) = occupied ss + of_bool (table_map ss k = None)"
proof -
  let ?s = "ss[r := Some (k, v)]"
  have dk: "distinct_keys ss" using inv by (simp add: probe_inv_def)
  have other: "i = r" if "i < length ss" "ss ! i = Some (k, w)" for i w
    using at table_map_nth [OF dk that] distinct_keysD [OF dk that(1) r that(2)] by auto
  have dk': "distinct_keys ?s"
    unfolding distinct_keys_def
  proof (intro allI impI)
    fix i j k' u w assume ij: "i < length ?s" "j < length ?s" "?s ! i = Some (k', u)" "?s ! j = Some (k', w)"
    have "(i = r \<and> k' = k) \<or> (i \<noteq> r \<and> ss ! i = Some (k', u))" "(j = r \<and> k' = k) \<or> (j \<noteq> r \<and> ss ! j = Some (k', w))"
      using ij r by (auto simp: nth_list_update split: if_splits)
    then show "i = j" using other distinct_keysD [OF dk, of i j k' u w] ij(1,2) by auto
  qed
  have "ss ! p \<noteq> None \<Longrightarrow> ?s ! p \<noteq> None" for p by (cases "p = r") (use r in auto)
  moreover have "ss ! p \<noteq> None" if "i < length ss" "?s ! i = Some (k', w)" "on_way (length ss) (home (length ss) k') p i" for i k' w p
    using that way inv unfolding probe_inv_def by (cases "i = r") (auto simp: r)
  ultimately have "probe_inv (home (length ss)) ?s" using dk' unfolding probe_inv_def by (metis length_list_update)
  moreover have "table_map ?s = (table_map ss)(k \<mapsto> v)"
  proof (rule table_map_eqI [OF dk'])
    fix k' w
    have "Some (k', w) \<in> set ?s \<longleftrightarrow> (\<exists>i < length ss. ?s ! i = Some (k', w))" by (auto simp: in_set_conv_nth)
    also have "\<dots> \<longleftrightarrow> ((table_map ss)(k \<mapsto> v)) k' = Some w"
    proof (cases "k' = k")
      case True
      with r other show ?thesis by (auto simp: nth_list_update split: if_splits)
    next
      case False
      have "?s ! i = Some (k', w) \<longleftrightarrow> ss ! i = Some (k', w)" if "i < length ss" for i
        using False r at by (cases "i = r") auto
      then have "(\<exists>i < length ss. ?s ! i = Some (k', w)) = (\<exists>i < length ss. ss ! i = Some (k', w))" by blast
      then show ?thesis using False dk by (auto simp: table_map_Some in_set_conv_nth)
    qed
    finally show "Some (k', w) \<in> set ?s \<longleftrightarrow> ((table_map ss)(k \<mapsto> v)) k' = Some w" .
  qed
  moreover have "occupied ?s = occupied ss + of_bool (table_map ss k = None)"
    using occupied_update [OF r, of "Some (k, v)"] at by auto
  ultimately show ?thesis by simp
qed

text \<open>While the gap is being closed: \<open>b\<close> is where it began, \<open>e\<close> the empty slot that ends the run,
  \<open>hole\<close> the slot to be emptied and \<open>j\<close> the next one to look at.\<close>

definition gap_inv :: "('k, 'v) slots \<Rightarrow> nat \<Rightarrow> nat \<Rightarrow> nat \<Rightarrow> nat \<Rightarrow> bool" where
  "gap_inv ss b e hole j \<longleftrightarrow>
     b < length ss \<and> e < length ss \<and> hole < length ss \<and> j < length ss \<and> ss ! e = None \<and>
     dist (length ss) b hole < dist (length ss) b j \<and> dist (length ss) b j \<le> dist (length ss) b e \<and>
     distinct_keys (ss[hole := None]) \<and>
     (\<forall>i < length ss. \<forall>k v. ss[hole := None] ! i = Some (k, v) \<longrightarrow>
        (\<forall>p. on_way (length ss) (home (length ss) k) p i \<longrightarrow>
           ss[hole := None] ! p \<noteq> None \<or> (p = hole \<and> dist (length ss) b j \<le> dist (length ss) b i)))"

lemma gap_way:
  assumes "gap_inv ss b e hole j" "i < length ss" "i \<noteq> hole" "ss ! i = Some (k, v)" "on_way (length ss) (home (length ss) k) p i"
  shows "(p \<noteq> hole \<and> ss ! p \<noteq> None) \<or> (p = hole \<and> dist (length ss) b j \<le> dist (length ss) b i)"
proof -
  have "ss[hole := None] ! p \<noteq> None \<or> (p = hole \<and> dist (length ss) b j \<le> dist (length ss) b i)"
    using assms unfolding gap_inv_def by simp
  then show ?thesis using assms(1) by (cases "p = hole") (auto simp: gap_inv_def)
qed

lemma gap_done:
  assumes g: "gap_inv ss b e hole j" and j: "ss ! j = None"
  shows "probe_inv (home (length ss)) (ss[hole := None])"
proof -
  let ?n = "length ss"
  have le: "b < ?n" "e < ?n" "hole < ?n" "j < ?n" "dist ?n b hole < dist ?n b j" using g by (auto simp: gap_inv_def)
  have "ss[hole := None] ! p \<noteq> None"
    if i: "i < ?n" "ss[hole := None] ! i = Some (k, v)" and p: "on_way ?n (home ?n k) p i" for i k v p
  proof -
    have ih: "i \<noteq> hole" "ss ! i = Some (k, v)" using i le by (auto simp: nth_list_update split: if_splits)
    have h: "home ?n k < ?n" using home_in [OF i(1)] .
    have "\<not> on_way ?n (home ?n k) j i" using gap_way [OF g i(1) ih, of j] j le by auto
    then have ij: "dist ?n (home ?n k) i \<le> dist ?n (home ?n k) j" using le(4) by (simp add: on_way_def)
    have ne: "dist ?n (home ?n k) i \<noteq> dist ?n (home ?n k) j" using j ih dist_inj [OF h i(1) le(4)] by auto
    have "\<not> (p = hole \<and> dist ?n b j \<le> dist ?n b i)"
    proof
      assume c: "p = hole \<and> dist ?n b j \<le> dist ?n b i"
      then have hi: "dist ?n (home ?n k) hole \<le> dist ?n (home ?n k) i" using p by (simp add: on_way_def)
      have "dist ?n b j = dist ?n b hole + dist ?n hole j" using le by (intro dist_split) simp_all
      moreover have "dist ?n b i = dist ?n b hole + dist ?n hole i" using le c i(1) by (intro dist_split) simp_all
      moreover have "dist ?n (home ?n k) i = dist ?n (home ?n k) hole + dist ?n hole i" using le h i(1) hi by (intro dist_split) simp_all
      moreover have "dist ?n (home ?n k) j = dist ?n (home ?n k) hole + dist ?n hole j" using le h hi ij by (intro dist_split) simp_all
      ultimately show False using c ij ne by linarith
    qed
    then show ?thesis using gap_way [OF g i(1) ih p] by (cases "p = hole") auto
  qed
  then show ?thesis using g unfolding probe_inv_def gap_inv_def by (metis length_list_update)
qed

text \<open>The entry at \<open>j\<close> cannot move back: the way to it does not pass the hole.\<close>

lemma gap_skip:
  assumes g: "gap_inv ss b e hole j" and j: "ss ! j = Some (k, v)"
    and stay: "dist (length ss) (home (length ss) k) j < dist (length ss) hole j"
  shows "gap_inv ss b e hole (nexti (length ss) j) \<and> dist (length ss) b j < dist (length ss) b e"
proof -
  let ?n = "length ss"
  have le: "b < ?n" "e < ?n" "hole < ?n" "j < ?n" "dist ?n b hole < dist ?n b j" "dist ?n b j \<le> dist ?n b e" "ss ! e = None"
    using g by (auto simp: gap_inv_def)
  then have "j \<noteq> e" using j by auto
  then have less: "dist ?n b j < dist ?n b e" using le dist_inj [of b ?n j e] by fastforce
  have D: "dist ?n b (nexti ?n j) = Suc (dist ?n b j)" using dist_nexti_right [OF le(1,4,2) less] .
  have "ss[hole := None] ! p \<noteq> None \<or> (p = hole \<and> Suc (dist ?n b j) \<le> dist ?n b i)"
    if i: "i < ?n" "ss[hole := None] ! i = Some (k', v')" and p: "on_way ?n (home ?n k') p i" for i k' v' p
  proof -
    have ih: "i \<noteq> hole" "ss ! i = Some (k', v')" using i le by (auto simp: nth_list_update split: if_splits)
    show ?thesis
    proof (cases "p = hole")
      case True
      have "i \<noteq> j"
      proof
        assume "i = j"
        with ih j have "k' = k" by simp
        then have "dist ?n (home ?n k) hole < dist ?n (home ?n k) j" using p True \<open>i = j\<close> by (simp add: on_way_def)
        then have "dist ?n (home ?n k) j = dist ?n (home ?n k) hole + dist ?n hole j"
          using le home_in [OF i(1), of k] by (intro dist_split) simp_all
        with stay show False by simp
      qed
      with gap_way [OF g i(1) ih p] True dist_inj [OF le(1,4) i(1)] show ?thesis by fastforce
    qed (use gap_way [OF g i(1) ih p] in auto)
  qed
  with g D less nexti_less [OF le(4)] show ?thesis unfolding gap_inv_def by auto
qed

text \<open>Otherwise it moves, and the slot it leaves is the new hole.\<close>

lemma gap_move:
  assumes g: "gap_inv ss b e hole j" and j: "ss ! j = Some (k, v)"
    and move: "dist (length ss) (home (length ss) k) j \<ge> dist (length ss) hole j"
  shows "gap_inv (ss[hole := ss ! j]) b e j (nexti (length ss) j) \<and> dist (length ss) b j < dist (length ss) b e \<and>
         table_map (ss[hole := ss ! j, j := None]) = table_map (ss[hole := None])"
proof -
  let ?n = "length ss" and ?T = "ss[hole := None]" and ?T' = "ss[hole := ss ! j, j := None]"
  have le: "b < ?n" "e < ?n" "hole < ?n" "j < ?n" "dist ?n b hole < dist ?n b j" "dist ?n b j \<le> dist ?n b e" "ss ! e = None"
    and dk: "distinct_keys ?T" using g by (auto simp: gap_inv_def)
  have ne: "j \<noteq> e" "hole \<noteq> j" "hole \<noteq> e" using j le by auto
  then have less: "dist ?n b j < dist ?n b e" using le dist_inj [of b ?n j e] by fastforce
  have D: "dist ?n b (nexti ?n j) = Suc (dist ?n b j)" using dist_nexti_right [OF le(1,4,2) less] .
  have at: "?T' ! x = (if x = hole then Some (k, v) else if x = j then None else ss ! x)" if "x < ?n" for x
    using that le ne j by (auto simp: nth_list_update)
  have atT: "?T ! x = (if x = hole then None else ss ! x)" if "x < ?n" for x
    using that le by (auto simp: nth_list_update)
  have uniq: "x = j" if "x < ?n" "x \<noteq> hole" "ss ! x = Some (k, w)" for x w
    using distinct_keysD [OF dk, of x j k w v] that le ne j by simp
  have dk': "distinct_keys ?T'"
    unfolding distinct_keys_def
  proof (intro allI impI)
    fix x y k' u w assume xy: "x < length ?T'" "y < length ?T'" "?T' ! x = Some (k', u)" "?T' ! y = Some (k', w)"
    then have "(x = hole \<and> k' = k) \<or> (x \<noteq> hole \<and> x \<noteq> j \<and> ss ! x = Some (k', u))"
      "(y = hole \<and> k' = k) \<or> (y \<noteq> hole \<and> y \<noteq> j \<and> ss ! y = Some (k', w))"
      using at [of x] at [of y] by (auto split: if_splits)
    then show "x = y" using uniq [of x u] uniq [of y w] distinct_keysD [OF dk, of x y k' u w] xy(1,2) atT [of x] atT [of y] by auto
  qed
  have map: "table_map ?T' = table_map ?T"
  proof (rule table_map_eqI [OF dk'])
    fix k' w
    have "(Some (k', w) \<in> set ?T') = (\<exists>x < ?n. ?T' ! x = Some (k', w))" by (auto simp: in_set_conv_nth)
    also have "\<dots> = (\<exists>x < ?n. ?T ! x = Some (k', w))"
    proof
      assume "\<exists>x < ?n. ?T' ! x = Some (k', w)"
      then obtain x where x: "x < ?n" "?T' ! x = Some (k', w)" by blast
      with at [of x] atT [of j] atT [of x] j le ne have "?T ! (if x = hole then j else x) = Some (k', w)" by (auto split: if_splits)
      then show "\<exists>x < ?n. ?T ! x = Some (k', w)" using x(1) le(4) by metis
    next
      assume "\<exists>x < ?n. ?T ! x = Some (k', w)"
      then obtain x where x: "x < ?n" "?T ! x = Some (k', w)" by blast
      with at [of hole] atT [of x] at [of x] j le ne have "?T' ! (if x = j then hole else x) = Some (k', w)" by (auto split: if_splits)
      then show "\<exists>x < ?n. ?T' ! x = Some (k', w)" using x(1) le(3) by metis
    qed
    also have "\<dots> = (table_map ?T k' = Some w)" by (simp add: table_map_Some [OF dk] in_set_conv_nth)
    finally show "(Some (k', w) \<in> set ?T') = (table_map ?T k' = Some w)" .
  qed
  have way: "?T' ! p \<noteq> None \<or> (p = j \<and> Suc (dist ?n b j) \<le> dist ?n b i)"
    if i: "i < ?n" "?T' ! i = Some (k', v')" and p: "on_way ?n (home ?n k') p i" for i k' v' p
  proof -
    have pn: "p < ?n" using p by (simp add: on_way_def)
    have h: "home ?n k' < ?n" using home_in [OF i(1)] .
    show ?thesis
    proof (cases "i = hole")
      case True
      then have k': "k' = k" using i at by simp
      have pj: "on_way ?n (home ?n k) p j" "p \<noteq> hole" "p \<noteq> j"
        using way_prefix [OF _ pn le(3,4) ne(2) move] h p True k' pn by (auto simp: on_way_def)
      have "ss ! p \<noteq> None" using gap_way [OF g le(4) ne(2) [symmetric] j pj(1)] pj(2) by auto
      then show ?thesis using at [OF pn] pj by auto
    next
      case False
      then have ih: "i \<noteq> hole" "i \<noteq> j" "ss ! i = Some (k', v')" using i at [OF i(1)] by (auto split: if_splits)
      note gw = gap_way [OF g i(1) ih(1,3)]
      show ?thesis
      proof (cases "p = j")
        case True
        have "\<not> on_way ?n (home ?n k') e i" using gw [of e] le ne by auto
        moreover have "i \<noteq> e" using ih le by auto
        ultimately have "Suc (dist ?n b j) \<le> dist ?n b i"
          using way_wraps [OF le(1,2,4) i(1) h less ih(2)] p True le(2) by (auto simp: on_way_def)
        with True show ?thesis by simp
      qed (use gw [OF p] at [OF pn] in auto)
    qed
  qed
  have "gap_inv (ss[hole := ss ! j]) b e j (nexti ?n j)"
    unfolding gap_inv_def using le ne dk' way D less nexti_less [OF le(4)] by simp
  with less map show ?thesis by blast
qed

lemma close_gap_spec:
  assumes mv: "back_test (length ss) mv" and "gap_inv ss b e hole j" "dist (length ss) b e < f + dist (length ss) b j"
  shows "\<exists>ss' hole'. close_gap mv (home (length ss)) f ss hole j = Some (ss', hole') \<and> length ss' = length ss \<and> hole' < length ss \<and>
           probe_inv (home (length ss)) (ss'[hole' := None]) \<and> table_map (ss'[hole' := None]) = table_map (ss[hole := None])"
  using assms
proof (induction f arbitrary: ss hole j)
  case 0
  then show ?case by (simp add: gap_inv_def)
next
  case (Suc f)
  let ?n = "length ss"
  have le: "b < ?n" "e < ?n" "hole < ?n" "j < ?n" using Suc.prems(2) by (auto simp: gap_inv_def)
  show ?case
  proof (cases "ss ! j")
    case None
    with gap_done [OF Suc.prems(2)] le show ?thesis by simp
  next
    case (Some kv)
    then obtain k v where kv: "ss ! j = Some (k, v)" by (cases kv) auto
    have D: "dist ?n b j < dist ?n b e \<Longrightarrow> dist ?n b (nexti ?n j) = Suc (dist ?n b j)"
      by (rule dist_nexti_right [OF le(1,4,2)])
    have "dist ?n b hole < dist ?n b j" using Suc.prems(2) by (simp add: gap_inv_def)
    then have test: "mv (home ?n k) hole j = (dist ?n (home ?n k) j \<ge> dist ?n hole j)"
      using Suc.prems(1) le home_in [OF le(1)] unfolding back_test_def by auto
    show ?thesis
    proof (cases "dist ?n (home ?n k) j \<ge> dist ?n hole j")
      case True
      note m = gap_move [OF Suc.prems(2) kv True]
      then have "dist ?n b e < f + dist ?n b (nexti ?n j)" using Suc.prems(3) D by simp
      with Suc.IH [of "ss[hole := ss ! j]" j "nexti ?n j"] m kv True test Suc.prems(1) show ?thesis by simp
    next
      case False
      note m = gap_skip [OF Suc.prems(2) kv]
      with False have "dist ?n b e < f + dist ?n b (nexti ?n j)" using Suc.prems(3) D by simp
      with Suc.IH [of ss hole "nexti ?n j"] m kv False test Suc.prems(1) show ?thesis by simp
    qed
  qed
qed

text \<open>Removing the entry at \<open>r\<close> and closing the gap deletes its key from the map.\<close>

lemma remove_spec:
  assumes inv: "probe_inv (home (length ss)) ss" and free: "None \<in> set ss" and r: "r < length ss" "ss ! r = Some (k, v)"
    and mv: "back_test (length ss) mv"
  obtains ss' hole' where "close_gap mv (home (length ss)) (length ss) ss r (nexti (length ss) r) = Some (ss', hole')"
    "length ss' = length ss" "hole' < length ss" "probe_inv (home (length ss)) (ss'[hole' := None])"
    "table_map (ss'[hole' := None]) = (table_map ss)(k := None)"
proof -
  let ?n = "length ss"
  have dk: "distinct_keys ss" using inv by (simp add: probe_inv_def)
  obtain e where e: "e < ?n" "ss ! e = None" using None_at [OF free] by blast
  have ne: "e \<noteq> r" using e r by auto
  have atT: "ss[r := None] ! x = (if x = r then None else ss ! x)" if "x < ?n" for x
    using that r by (auto simp: nth_list_update)
  have dkT: "distinct_keys (ss[r := None])"
    using dk atT unfolding distinct_keys_def by (metis length_list_update option.distinct(1))
  have D: "dist ?n r (nexti ?n r) = 1 \<and> 1 \<le> dist ?n r e"
    using ne e(1) r(1) by (auto simp: dist_def nexti_def)
  have later: "i \<noteq> r \<Longrightarrow> i < ?n \<Longrightarrow> 1 \<le> dist ?n r i" for i
    using dist_0_iff [OF r(1), of i] by (cases "dist ?n r i") auto
  have "gap_inv ss r e r (nexti ?n r)"
    unfolding gap_inv_def
  proof (intro conjI allI impI)
    fix i k' v' p assume i: "i < ?n" "ss[r := None] ! i = Some (k', v')" and p: "on_way ?n (home ?n k') p i"
    then have "ss ! i = Some (k', v')" "i \<noteq> r" using atT [OF i(1)] by (auto split: if_splits)
    moreover from this have "ss ! p \<noteq> None" using inv p i(1) unfolding probe_inv_def by blast
    ultimately show "ss[r := None] ! p \<noteq> None \<or> (p = r \<and> dist ?n r (nexti ?n r) \<le> dist ?n r i)"
      using atT [of p] p later [of i] D i(1) by (auto simp: on_way_def)
  qed (use e r D dkT nexti_less [OF r(1)] in auto)
  from close_gap_spec [OF mv this, of "length ss"] D dist_less [OF r(1) e(1)]
  obtain ss' hole' where res: "close_gap mv (home ?n) ?n ss r (nexti ?n r) = Some (ss', hole')" "length ss' = ?n" "hole' < ?n"
      "probe_inv (home ?n) (ss'[hole' := None])" "table_map (ss'[hole' := None]) = table_map (ss[r := None])" by auto
  have "table_map (ss[r := None]) = (table_map ss)(k := None)"
  proof (rule table_map_eqI [OF dkT])
    fix k' w
    have "(Some (k', w) \<in> set (ss[r := None])) = (\<exists>x < ?n. x \<noteq> r \<and> ss ! x = Some (k', w))"
      using atT by (auto simp: in_set_conv_nth split: if_splits)
    also have "\<dots> = (k' \<noteq> k \<and> (\<exists>x < ?n. ss ! x = Some (k', w)))"
    proof
      assume "\<exists>x < ?n. x \<noteq> r \<and> ss ! x = Some (k', w)"
      then show "k' \<noteq> k \<and> (\<exists>x < ?n. ss ! x = Some (k', w))" using distinct_keysD [OF dk _ r(1) _ r(2)] by blast
    next
      assume "k' \<noteq> k \<and> (\<exists>x < ?n. ss ! x = Some (k', w))"
      then obtain x where "k' \<noteq> k" "x < ?n" "ss ! x = Some (k', w)" by blast
      then show "\<exists>x < ?n. x \<noteq> r \<and> ss ! x = Some (k', w)" using r(2) by (cases "x = r") auto
    qed
    also have "\<dots> = (((table_map ss)(k := None)) k' = Some w)"
      by (simp add: table_map_Some [OF dk] in_set_conv_nth)
    finally show "(Some (k', w) \<in> set (ss[r := None])) = (((table_map ss)(k := None)) k' = Some w)" .
  qed
  with res show thesis using that by simp
qed

end

end
