(* ===== verification/AddrTable.thy ===== *)
theory AddrTable
  imports Probing
begin

text \<open>
  The address-keyed hash tables of \<open>storage_engine/tableIO.c\<close> that hold a table's dirty pages and nodes,
  its delete marks and the undo state: FNV-1a over the eight bytes of the address, linear probing,
  growth at a load of 0.8 and backward-shift deletion. \<open>void*\<close> values are \<open>'v option\<close> (\<open>None\<close> for
  \<open>NULL\<close>), and address \<open>0\<close> marks an empty slot. \<open>findAddrEntry\<close> can return \<open>NULL\<close> in the code, which its
  callers dereference: that is \<open>None\<close> here, as is a deletion loop that has gone round the whole table, and
  the theorems show neither happens. \<open>at_map\<close> is the finite map a table stands for.
\<close>

section \<open>Data\<close>

record 'v addr_entry =
  akey :: address
  aval :: "'v option"

record 'v addr_table =
  at_count :: nat
  at_capacity :: nat
  at_entries :: "'v addr_entry list"

definition empty_entry :: "'v addr_entry" where
  "empty_entry = \<lparr>akey = 0, aval = None\<rparr>"

section \<open>Operations\<close>

definition hashAddress :: "address \<Rightarrow> u64" where
  "hashAddress key =
     fold (\<lambda>i hash. (hash XOR (drop_bit (i * 8) key AND 0xFF)) * 1099511628211) [0..<8] 14695981039346656037"

text \<open>One run of the loop of \<open>findAddrEntry\<close> from \<open>i\<close> on, with \<open>left\<close> turns to go. \<open>hash + i\<close> is a 64-bit sum.\<close>

fun find_entry_loop :: "address \<Rightarrow> 'v addr_entry list \<Rightarrow> nat \<Rightarrow> u64 \<Rightarrow> nat \<Rightarrow> nat \<Rightarrow> nat option" where
  "find_entry_loop key es capacity hash i 0 = None"
| "find_entry_loop key es capacity hash i (Suc left) =
     (let index = unat (hash + of_nat i) mod capacity
      in if akey (es ! index) = key \<or> akey (es ! index) = 0 then Some index
         else find_entry_loop key es capacity hash (i + 1) left)"

definition findAddrEntry :: "address \<Rightarrow> 'v addr_entry list \<Rightarrow> nat \<Rightarrow> nat option" where
  "findAddrEntry key es capacity = find_entry_loop key es capacity (hashAddress key) 0 capacity"

definition initAddrTable :: "'v addr_table" where
  "initAddrTable = \<lparr>at_count = 0, at_capacity = 0, at_entries = []\<rparr>"

definition rehash_step :: "'v addr_table \<Rightarrow> nat \<Rightarrow> nat \<Rightarrow> 'v addr_entry list option \<Rightarrow> 'v addr_entry list option" where
  "rehash_step at capacity i acc =
     (case acc of None \<Rightarrow> None
      | Some es \<Rightarrow>
          let e = at_entries at ! i
          in if akey e = 0 then Some es
             else case findAddrEntry (akey e) es capacity of None \<Rightarrow> None
                  | Some d \<Rightarrow> Some (es[d := (es ! d)\<lparr>akey := akey e, aval := aval e\<rparr>]))"

definition adjustAddrCapacity :: "'v addr_table \<Rightarrow> nat \<Rightarrow> 'v addr_table option" where
  "adjustAddrCapacity at capacity =
     (case fold (rehash_step at capacity) [0..<at_capacity at] (Some (replicate capacity empty_entry)) of
        None \<Rightarrow> None
      | Some es \<Rightarrow> Some (at\<lparr>at_entries := es, at_capacity := capacity\<rparr>))"

definition findAddrTable :: "address \<Rightarrow> 'v addr_table \<Rightarrow> 'v option option" where
  "findAddrTable key at =
     (if at_capacity at = 0 then Some None
      else case findAddrEntry key (at_entries at) (at_capacity at) of None \<Rightarrow> None
           | Some i \<Rightarrow> let found = at_entries at ! i in Some (if akey found \<noteq> 0 then aval found else None))"

text \<open>\<open>count + 1 > capacity * 0.8\<close> in \<open>double\<close>: for a capacity that is a power of two the product is never
  within rounding of an integer, so it is the comparison of rationals.\<close>

definition over_load :: "nat \<Rightarrow> nat \<Rightarrow> bool" where
  "over_load count capacity \<longleftrightarrow> 5 * (count + 1) > 4 * capacity"

definition insertAddrTable :: "address \<Rightarrow> 'v option \<Rightarrow> 'v addr_table \<Rightarrow> 'v addr_table option" where
  "insertAddrTable key v at =
     (case (if over_load (at_count at) (at_capacity at)
            then adjustAddrCapacity at (GROW_CAPACITY (at_capacity at)) else Some at) of
        None \<Rightarrow> None
      | Some at1 \<Rightarrow>
          case findAddrEntry key (at_entries at1) (at_capacity at1) of None \<Rightarrow> None
          | Some i \<Rightarrow>
              let isNew = akey (at_entries at1 ! i) = 0
              in Some (at1\<lparr>at_entries := (at_entries at1)[i := \<lparr>akey = key, aval = v\<rparr>],
                           at_count := at_count at1 + (if isNew then 1 else 0)\<rparr>))"

text \<open>Whether the home slot lies cyclically within \<open>(hole, i]\<close>.\<close>

definition homeInRange :: "nat \<Rightarrow> nat \<Rightarrow> nat \<Rightarrow> bool" where
  "homeInRange home hole i = (if hole < i then home > hole \<and> home \<le> i else home > hole \<or> home \<le> i)"

fun shift_back :: "nat \<Rightarrow> 'v addr_entry list \<Rightarrow> nat \<Rightarrow> nat \<Rightarrow> nat \<Rightarrow> ('v addr_entry list \<times> nat) option" where
  "shift_back 0 es capacity hole i = None"
| "shift_back (Suc left) es capacity hole i =
     (if akey (es ! i) = 0 then Some (es, hole)
      else let home = unat (hashAddress (akey (es ! i))) mod capacity; next = (i + 1) mod capacity
           in if homeInRange home hole i then shift_back left es capacity hole next
              else shift_back left (es[hole := es ! i]) capacity i next)"

text \<open>Whether the key was there, the value handed out, and the table.\<close>

definition removeAddrTable :: "address \<Rightarrow> 'v addr_table \<Rightarrow> (bool \<times> 'v option \<times> 'v addr_table) option" where
  "removeAddrTable key at =
     (if at_capacity at = 0 then Some (False, None, at)
      else case findAddrEntry key (at_entries at) (at_capacity at) of None \<Rightarrow> None
      | Some found \<Rightarrow>
          if akey (at_entries at ! found) = 0 then Some (False, None, at)
          else case shift_back (at_capacity at) (at_entries at) (at_capacity at) found ((found + 1) mod at_capacity at) of
                 None \<Rightarrow> None
               | Some (es, hole) \<Rightarrow>
                   Some (True, aval (at_entries at ! found),
                         at\<lparr>at_entries := es[hole := (es ! hole)\<lparr>akey := 0, aval := None\<rparr>],
                            at_count := at_count at - 1\<rparr>))"

definition containsAddrTable :: "address \<Rightarrow> 'v addr_table \<Rightarrow> bool option" where
  "containsAddrTable key at =
     (if at_capacity at = 0 then Some False
      else case findAddrEntry key (at_entries at) (at_capacity at) of None \<Rightarrow> None
           | Some i \<Rightarrow> Some (akey (at_entries at ! i) \<noteq> 0))"

section \<open>The abstraction\<close>

definition aview :: "'v addr_entry \<Rightarrow> (address \<times> 'v option) option" where
  "aview e = (if akey e = 0 then None else Some (akey e, aval e))"

definition view :: "'v addr_entry list \<Rightarrow> (address, 'v option) slots" where
  "view es = map aview es"

definition at_map :: "'v addr_table \<Rightarrow> address \<Rightarrow> 'v option option" where
  "at_map at = table_map (view (at_entries at))"

definition addr_home :: "nat \<Rightarrow> address \<Rightarrow> nat" where
  "addr_home n key = unat (hashAddress key) mod n"

text \<open>No capacity yet, or a power of two with room to spare.\<close>

definition wf_at :: "'v addr_table \<Rightarrow> bool" where
  "wf_at at \<longleftrightarrow> length (at_entries at) = at_capacity at \<and> at_count at = occupied (view (at_entries at)) \<and>
     (at_capacity at = 0 \<or> (\<exists>m \<ge> 3. m \<le> 31 \<and> at_capacity at = 2 ^ m)) \<and> 5 * at_count at \<le> 4 * at_capacity at \<and>
     probe_inv (addr_home (at_capacity at)) (view (at_entries at))"

interpretation at: linear_probing addr_home
  by unfold_locales (simp add: addr_home_def)

section \<open>The loops are probing\<close>

lemma length_view [simp]: "length (view es) = length es"
  by (simp add: view_def)

lemma view_nth [simp]: "i < length es \<Longrightarrow> view es ! i = aview (es ! i)"
  by (simp add: view_def)

lemma view_update: "view (es[i := e]) = (view es)[i := aview e]"
  by (simp add: view_def map_update)

lemma hash_index:
  assumes "m \<le> 64" shows "unat (hash + of_nat i :: u64) mod 2 ^ m = (unat hash + i) mod 2 ^ m"
proof -
  have "(2::nat) ^ m dvd 2 ^ 64" using assms by (intro le_imp_power_dvd)
  then have "(unat hash + i) mod 2 ^ 64 mod 2 ^ m = (unat hash + i) mod 2 ^ m" by (rule mod_mod_cancel)
  moreover have "unat (hash + of_nat i :: u64) = (unat hash + i) mod 2 ^ 64"
    by (simp add: unat_word_ariths unsigned_of_nat take_bit_eq_mod mod_add_right_eq)
  ultimately show ?thesis by simp
qed

lemma find_loop_probe:
  assumes "length es = 2 ^ m" "m \<le> 64" "key \<noteq> 0"
  shows "find_entry_loop key es (2 ^ m) hash i left = probe (view es) key ((unat hash + i) mod 2 ^ m) left"
proof (induction left arbitrary: i)
  case (Suc left)
  let ?i = "(unat hash + i) mod 2 ^ m"
  have i: "?i < length es" by (simp add: assms(1))
  have "nexti (length es) ?i = (unat hash + (i + 1)) mod 2 ^ m"
    using nexti_mod [OF i] assms(1) by (simp add: mod_Suc_eq)
  with Suc [of "i + 1"] i assms show ?case
    by (simp add: Let_def hash_index aview_def)
qed simp

lemma homeInRange_test: "back_test n (\<lambda>h hole j. \<not> homeInRange h hole j)"
  by (auto simp: back_test_def homeInRange_def dist_def)

lemma shift_back_close_gap:
  assumes "length es = n" "hole < n" "i < n"
  shows "map_option (\<lambda>(es', h). (view es', h)) (shift_back left es n hole i)
         = close_gap (\<lambda>h hole j. \<not> homeInRange h hole j) (addr_home n) left (view es) hole i \<and>
         (\<forall>es' h. shift_back left es n hole i = Some (es', h) \<longrightarrow> length es' = n \<and> h < n)"
  using assms
proof (induction left arbitrary: es hole i)
  case (Suc left)
  have nx: "(i + 1) mod n = nexti n i" "nexti n i < n" using Suc.prems(3) nexti_mod [of i n] nexti_less [of i n] by simp_all
  show ?case
  proof (cases "akey (es ! i) = 0")
    case True
    with Suc.prems show ?thesis by (simp add: aview_def)
  next
    case False
    then have "view es ! i = Some (akey (es ! i), aval (es ! i))" using Suc.prems by (simp add: aview_def)
    with False Suc.IH [of es hole "nexti n i"] Suc.IH [of "es[hole := es ! i]" i "nexti n i"] Suc.prems nx show ?thesis
      by (simp add: Let_def addr_home_def view_update aview_def)
  qed
qed simp

section \<open>The operations update the map\<close>

lemma free_slot:
  assumes "wf_at at" "at_capacity at \<noteq> 0" shows "None \<in> set (view (at_entries at))"
  using assms unfolding occupied_less [symmetric] by (simp add: wf_at_def)

lemma findAddrEntry_spec:
  assumes "probe_inv (addr_home (length es)) (view es)" "None \<in> set (view es)" "length es = 2 ^ m" "m \<le> 64" "key \<noteq> 0"
  obtains i where "findAddrEntry key es (length es) = Some i" "i < length es"
    "\<And>p. on_way (length es) (addr_home (length es) key) p i \<Longrightarrow> view es ! p \<noteq> None"
    "(akey (es ! i) = 0 \<and> table_map (view es) key = None) \<or>
     (akey (es ! i) = key \<and> table_map (view es) key = Some (aval (es ! i)))"
proof -
  obtain i where i: "probe (view es) key (addr_home (length es) key) (length es) = Some i" "i < length es"
    "\<And>p. on_way (length es) (addr_home (length es) key) p i \<Longrightarrow> view es ! p \<noteq> None"
    "(view es ! i = None \<and> table_map (view es) key = None) \<or> (\<exists>v. view es ! i = Some (key, v) \<and> table_map (view es) key = Some v)"
    using at.find_spec [of "view es" key] assms(1,2) unfolding length_view by blast
  have "findAddrEntry key es (length es) = Some i"
    using i(1) assms(3) find_loop_probe [OF assms(3-5), of "hashAddress key" 0 "length es"]
    by (simp add: findAddrEntry_def addr_home_def)
  moreover have "(akey (es ! i) = 0 \<and> table_map (view es) key = None) \<or>
     (akey (es ! i) = key \<and> table_map (view es) key = Some (aval (es ! i)))"
    using i(2,4) by (auto simp: aview_def split: if_splits)
  ultimately show thesis using that i(2,3) by blast
qed

lemma wf_at_power: "wf_at at \<Longrightarrow> at_capacity at \<noteq> 0 \<Longrightarrow> \<exists>m \<le> 31. length (at_entries at) = 2 ^ m"
  by (auto simp: wf_at_def)

lemma find_in_table:
  assumes "wf_at at" "at_capacity at \<noteq> 0" "key \<noteq> 0"
  obtains i where "findAddrEntry key (at_entries at) (at_capacity at) = Some i" "i < at_capacity at"
    "\<And>p. on_way (at_capacity at) (addr_home (at_capacity at) key) p i \<Longrightarrow> view (at_entries at) ! p \<noteq> None"
    "(akey (at_entries at ! i) = 0 \<and> at_map at key = None) \<or>
     (akey (at_entries at ! i) = key \<and> at_map at key = Some (aval (at_entries at ! i)))"
proof -
  have w: "length (at_entries at) = at_capacity at" "probe_inv (addr_home (at_capacity at)) (view (at_entries at))"
    using assms(1) by (simp_all add: wf_at_def)
  obtain m where m: "m \<le> 31" "length (at_entries at) = 2 ^ m" using wf_at_power [OF assms(1,2)] by blast
  show thesis
    by (rule findAddrEntry_spec [of "at_entries at" m key])
       (use w m assms(3) free_slot [OF assms(1,2)] that in \<open>auto simp: at_map_def\<close>)
qed

lemma at_map_empty: "wf_at at \<Longrightarrow> at_capacity at = 0 \<Longrightarrow> at_map at = Map.empty"
  by (simp add: wf_at_def at_map_def view_def table_map_def)

lemma findAddrTable_map:
  assumes "wf_at at" "key \<noteq> 0"
  shows "findAddrTable key at = Some (case at_map at key of None \<Rightarrow> None | Some v \<Rightarrow> v)"
proof (cases "at_capacity at = 0")
  case True
  then show ?thesis by (simp add: findAddrTable_def at_map_empty [OF assms(1)])
next
  case False
  show ?thesis
    by (rule find_in_table [OF assms(1) False assms(2)]) (use False assms(2) in \<open>auto simp: findAddrTable_def Let_def\<close>)
qed

lemma containsAddrTable_map:
  assumes "wf_at at" "key \<noteq> 0"
  shows "containsAddrTable key at = Some (at_map at key \<noteq> None)"
proof (cases "at_capacity at = 0")
  case True
  then show ?thesis by (simp add: containsAddrTable_def at_map_empty [OF assms(1)])
next
  case False
  show ?thesis
    by (rule find_in_table [OF assms(1) False assms(2)]) (use False assms(2) in \<open>auto simp: containsAddrTable_def Let_def\<close>)
qed

text \<open>Growing moves every entry to a table of a larger power of two.\<close>

lemma view_replicate [simp]: "view (replicate n empty_entry) = replicate n None"
  by (simp add: view_def aview_def empty_entry_def)

lemma occupied_take: "occupied (take n ss) \<le> occupied ss"
proof -
  have "occupied (take n ss @ drop n ss) = occupied (take n ss) + occupied (drop n ss)" by (simp only: occupied_def filter_append length_append)
  then show ?thesis by simp
qed

lemma table_map_take_Suc:
  assumes "n < length ss" "distinct_keys ss"
  shows "table_map (take (Suc n) ss) =
     (case ss ! n of None \<Rightarrow> table_map (take n ss) | Some (k, v) \<Rightarrow> (table_map (take n ss))(k \<mapsto> v))"
    and "\<And>k v. ss ! n = Some (k, v) \<Longrightarrow> table_map (take n ss) k = None"
    and "occupied (take (Suc n) ss) = occupied (take n ss) + of_bool (ss ! n \<noteq> None)"
proof -
  have dn: "distinct_keys (take m ss)" for m using assms(2) by (auto simp: distinct_keys_def)
  show fresh: "table_map (take n ss) k = None" if "ss ! n = Some (k, v)" for k v
  proof (rule ccontr)
    assume "table_map (take n ss) k \<noteq> None"
    then obtain w where "table_map (take n ss) k = Some w" by auto
    then obtain i where "i < length (take n ss)" "take n ss ! i = Some (k, w)" by (rule table_map_nthE [OF dn])
    with distinct_keysD [OF assms(2), of i n k w v] that assms(1) show False by simp
  qed
  show "table_map (take (Suc n) ss) =
     (case ss ! n of None \<Rightarrow> table_map (take n ss) | Some (k, v) \<Rightarrow> (table_map (take n ss))(k \<mapsto> v))"
  proof (rule table_map_eqI [OF dn])
    fix k v
    have "Some (k, v) \<in> set (take (Suc n) ss) \<longleftrightarrow> ss ! n = Some (k, v) \<or> Some (k, v) \<in> set (take n ss)"
      using assms(1) by (auto simp: take_Suc_conv_app_nth)
    then show "(Some (k, v) \<in> set (take (Suc n) ss)) =
      ((case ss ! n of None \<Rightarrow> table_map (take n ss) | Some (k, v) \<Rightarrow> (table_map (take n ss))(k \<mapsto> v)) k = Some v)"
      using table_map_Some [OF dn [of n], of k v] fresh [of k] by (cases "ss ! n") (auto split: if_splits)
  qed
  show "occupied (take (Suc n) ss) = occupied (take n ss) + of_bool (ss ! n \<noteq> None)"
    using assms(1) by (simp add: occupied_def take_Suc_conv_app_nth)
qed

lemma rehash_Some:
  "rehash_step at capacity i (Some es) =
     (if akey (at_entries at ! i) = 0 then Some es
      else case findAddrEntry (akey (at_entries at ! i)) es capacity of None \<Rightarrow> None
           | Some d \<Rightarrow> Some (es[d := (es ! d)\<lparr>akey := akey (at_entries at ! i), aval := aval (at_entries at ! i)\<rparr>]))"
  by (simp add: rehash_step_def Let_def)

lemma rehash_fold:
  assumes "length (at_entries at) = at_capacity at" "distinct_keys (view (at_entries at))"
    and "capacity = 2 ^ m" "m \<le> 64" "occupied (view (at_entries at)) < capacity" "n \<le> at_capacity at"
  shows "\<exists>es. fold (rehash_step at capacity) [0..<n] (Some (replicate capacity empty_entry)) = Some es \<and>
     length es = capacity \<and> probe_inv (addr_home capacity) (view es) \<and>
     table_map (view es) = table_map (take n (view (at_entries at))) \<and> occupied (view es) = occupied (take n (view (at_entries at)))"
  using assms(6)
proof (induction n)
  case 0
  then show ?case using assms(3) by (simp add: probe_inv_replicate table_map_def occupied_def)
next
  case (Suc n)
  let ?ss = "view (at_entries at)" and ?e = "at_entries at ! n"
  have n: "n < length ?ss" using Suc.prems assms(1) by simp
  obtain es where es: "fold (rehash_step at capacity) [0..<n] (Some (replicate capacity empty_entry)) = Some es"
     "length es = capacity" "probe_inv (addr_home capacity) (view es)"
     "table_map (view es) = table_map (take n ?ss)" "occupied (view es) = occupied (take n ?ss)"
    using Suc by auto
  note tk = table_map_take_Suc [OF n assms(2)]
  have nv: "?ss ! n = aview ?e" using n by simp
  show ?case
  proof (cases "akey ?e = 0")
    case True
    then have "?ss ! n = None" by (simp add: nv aview_def)
    with tk es True show ?thesis by (simp add: rehash_Some)
  next
    case False
    then have sn: "?ss ! n = Some (akey ?e, aval ?e)" by (simp add: nv aview_def)
    have "occupied (view es) < length (view es)"
      using occupied_take [of n ?ss] es(2,5) assms(5) by simp
    then have free: "None \<in> set (view es)" by (simp only: occupied_less)
    obtain d where d: "findAddrEntry (akey ?e) es (length es) = Some d" "d < length es"
        "\<And>p. on_way (length es) (addr_home (length es) (akey ?e)) p d \<Longrightarrow> view es ! p \<noteq> None"
        "(akey (es ! d) = 0 \<and> table_map (view es) (akey ?e) = None) \<or>
         (akey (es ! d) = akey ?e \<and> table_map (view es) (akey ?e) = Some (aval (es ! d)))"
      by (rule findAddrEntry_spec [of es m "akey ?e"]) (use es(2,3) free False assms(3,4) in auto)
    have new: "view es ! d = None" "table_map (view es) (akey ?e) = None"
      using d tk(2) [OF sn] es(4) by (auto simp: aview_def)
    have put: "view (es[d := (es ! d)\<lparr>akey := akey ?e, aval := aval ?e\<rparr>]) = (view es)[d := Some (akey ?e, aval ?e)]"
      using False by (simp add: view_update aview_def)
    have "probe_inv (addr_home capacity) ((view es)[d := Some (akey ?e, aval ?e)]) \<and>
        table_map ((view es)[d := Some (akey ?e, aval ?e)]) = (table_map (view es))(akey ?e \<mapsto> aval ?e) \<and>
        occupied ((view es)[d := Some (akey ?e, aval ?e)]) = occupied (view es) + 1"
      using at.put_spec [of "view es" d "akey ?e" "aval ?e"] es(2,3) d new by auto
    with tk sn es d(1) False show ?thesis
      by (simp add: rehash_Some put fun_upd_def)
  qed
qed

lemma GROW_power:
  assumes "wf_at at" "over_load (at_count at) (at_capacity at)" "at_capacity at < 2 ^ 30"
  shows "\<exists>m \<ge> 3. m \<le> 31 \<and> GROW_CAPACITY (at_capacity at) = 2 ^ m" "at_count at < GROW_CAPACITY (at_capacity at)"
    "5 * (at_count at + 1) \<le> 4 * GROW_CAPACITY (at_capacity at)" "0 < GROW_CAPACITY (at_capacity at)"
proof -
  have c: "5 * at_count at \<le> 4 * at_capacity at" using assms(1) by (simp add: wf_at_def)
  have "at_capacity at = 0" if "at_capacity at < 8"
  proof (rule ccontr)
    assume "at_capacity at \<noteq> 0"
    then obtain m where "3 \<le> m" "at_capacity at = 2 ^ m" using assms(1) by (auto simp: wf_at_def)
    then have "8 \<le> at_capacity at" using power_increasing [of 3 m "2::nat"] by simp
    with that show False by simp
  qed
  with c show "at_count at < GROW_CAPACITY (at_capacity at)"
    "5 * (at_count at + 1) \<le> 4 * GROW_CAPACITY (at_capacity at)" "0 < GROW_CAPACITY (at_capacity at)"
    by (auto simp: GROW_CAPACITY_def)
  show "\<exists>m \<ge> 3. m \<le> 31 \<and> GROW_CAPACITY (at_capacity at) = 2 ^ m"
  proof (cases "at_capacity at < 8")
    case True
    then show ?thesis by (intro exI [of _ 3]) (simp add: GROW_CAPACITY_def)
  next
    case False
    then obtain m where m: "at_capacity at = 2 ^ m" "3 \<le> m" using assms(1) by (auto simp: wf_at_def)
    have "(2::nat) ^ m < 2 ^ 30" unfolding m(1) [symmetric] by (rule assms(3))
    then have "m < 30" by (rule power_less_imp_less_exp [rotated]) simp
    then show ?thesis using m False by (intro exI [of _ "Suc m"]) (simp add: GROW_CAPACITY_def)
  qed
qed

text \<open>The table after the load check: room for one more entry, and the same map.\<close>

lemma make_room:
  assumes "wf_at at" "at_capacity at < 2 ^ 30"
  obtains at1 where "(if over_load (at_count at) (at_capacity at)
            then adjustAddrCapacity at (GROW_CAPACITY (at_capacity at)) else Some at) = Some at1"
    "wf_at at1" "at_map at1 = at_map at" "at_count at1 = at_count at" "5 * (at_count at1 + 1) \<le> 4 * at_capacity at1"
    "at_capacity at \<le> at_capacity at1" "at_capacity at1 \<le> 2 * at_capacity at + 8"
proof (cases "over_load (at_count at) (at_capacity at)")
  case False
  with that [of at] assms show thesis by (auto simp: over_load_def)
next
  case True
  note g = GROW_power [OF assms(1) True assms(2)]
  let ?c = "GROW_CAPACITY (at_capacity at)"
  obtain m where m: "m \<le> 31" "?c = 2 ^ m" "3 \<le> m" using g(1) by blast
  have w: "length (at_entries at) = at_capacity at" "distinct_keys (view (at_entries at))"
    "at_count at = occupied (view (at_entries at))"
    using assms(1) by (auto simp: wf_at_def probe_inv_def)
  obtain es where es: "fold (rehash_step at ?c) [0..<at_capacity at] (Some (replicate ?c empty_entry)) = Some es"
     "length es = ?c" "probe_inv (addr_home ?c) (view es)" "table_map (view es) = table_map (view (at_entries at))"
     "occupied (view es) = occupied (view (at_entries at))"
    using rehash_fold [OF w(1,2) m(2) _ _ order_refl] g(2) w m(1) by auto
  let ?at1 = "at\<lparr>at_entries := es, at_capacity := ?c\<rparr>"
  have "adjustAddrCapacity at ?c = Some ?at1" by (simp add: adjustAddrCapacity_def es(1))
  moreover have "wf_at ?at1" using es w m g(3) by (auto simp: wf_at_def)
  moreover have "at_map ?at1 = at_map at" by (simp add: at_map_def es)
  ultimately show thesis using that [of ?at1] True g(3) by (auto simp: GROW_CAPACITY_def)
qed

lemma insertAddrTable_map:
  assumes "wf_at at" "key \<noteq> 0" "at_capacity at < 2 ^ 30"
  shows "\<exists>at'. insertAddrTable key v at = Some at' \<and> wf_at at' \<and> at_map at' = (at_map at)(key \<mapsto> v) \<and>
     at_capacity at' \<le> 2 * at_capacity at + 8"
proof -
  obtain at1 where at1: "(if over_load (at_count at) (at_capacity at)
            then adjustAddrCapacity at (GROW_CAPACITY (at_capacity at)) else Some at) = Some at1"
    "wf_at at1" "at_map at1 = at_map at" "at_count at1 = at_count at" "5 * (at_count at1 + 1) \<le> 4 * at_capacity at1"
    "at_capacity at1 \<le> 2 * at_capacity at + 8"
    by (rule make_room [OF assms(1,3)]) blast
  have nz: "at_capacity at1 \<noteq> 0" using at1(5) by auto
  obtain i where i: "findAddrEntry key (at_entries at1) (at_capacity at1) = Some i" "i < at_capacity at1"
    "\<And>p. on_way (at_capacity at1) (addr_home (at_capacity at1) key) p i \<Longrightarrow> view (at_entries at1) ! p \<noteq> None"
    "(akey (at_entries at1 ! i) = 0 \<and> at_map at1 key = None) \<or>
     (akey (at_entries at1 ! i) = key \<and> at_map at1 key = Some (aval (at_entries at1 ! i)))"
    by (rule find_in_table [OF at1(2) nz assms(2)]) blast
  let ?es = "(at_entries at1)[i := \<lparr>akey = key, aval = v\<rparr>]"
  let ?at' = "at1\<lparr>at_entries := ?es, at_count := at_count at1 + (if akey (at_entries at1 ! i) = 0 then 1 else 0)\<rparr>"
  have ins: "insertAddrTable key v at = Some ?at'" by (simp add: insertAddrTable_def at1(1) i(1) Let_def)
  have w: "length (at_entries at1) = at_capacity at1" "probe_inv (addr_home (at_capacity at1)) (view (at_entries at1))"
    using at1(2) by (simp_all add: wf_at_def)
  have vu: "view ?es = (view (at_entries at1))[i := Some (key, v)]" using assms(2) by (simp add: view_update aview_def)
  have at: "(view (at_entries at1) ! i = None \<and> table_map (view (at_entries at1)) key = None) \<or>
     (\<exists>w. view (at_entries at1) ! i = Some (key, w) \<and> table_map (view (at_entries at1)) key = Some w)"
    using i(2,4) w(1) assms(2) by (auto simp: at_map_def aview_def)
  have put: "probe_inv (addr_home (at_capacity at1)) (view ?es) \<and> table_map (view ?es) = (table_map (view (at_entries at1)))(key \<mapsto> v) \<and>
     occupied (view ?es) = occupied (view (at_entries at1)) + of_bool (table_map (view (at_entries at1)) key = None)"
    unfolding vu using at.put_spec [of "view (at_entries at1)" i key v] w i(2,3) at by simp
  have cnt: "at_count ?at' = occupied (view ?es)"
    using put at1(2) i(4) assms(2) by (auto simp: wf_at_def at_map_def)
  then have "wf_at ?at'" using at1(2,5) put by (auto simp: wf_at_def)
  moreover have "at_map ?at' = (at_map at)(key \<mapsto> v)" using put at1(3) by (simp add: at_map_def)
  ultimately show ?thesis using ins at1(6) by auto
qed

lemma removeAddrTable_map:
  assumes "wf_at at" "key \<noteq> 0"
  shows "\<exists>at'. removeAddrTable key at =
      Some (at_map at key \<noteq> None, (case at_map at key of None \<Rightarrow> None | Some v \<Rightarrow> v), at') \<and>
    wf_at at' \<and> at_map at' = (at_map at)(key := None) \<and> at_capacity at' = at_capacity at"
proof (cases "at_capacity at = 0")
  case True
  with assms(1) show ?thesis by (simp add: removeAddrTable_def at_map_empty [OF assms(1) True])
next
  case False
  let ?n = "at_capacity at" and ?ss = "view (at_entries at)"
  have w: "length (at_entries at) = ?n" "probe_inv (addr_home ?n) ?ss" using assms(1) by (simp_all add: wf_at_def)
  obtain i where i: "findAddrEntry key (at_entries at) ?n = Some i" "i < ?n"
    "(akey (at_entries at ! i) = 0 \<and> at_map at key = None) \<or>
     (akey (at_entries at ! i) = key \<and> at_map at key = Some (aval (at_entries at ! i)))"
    by (rule find_in_table [OF assms(1) False assms(2)]) blast
  show ?thesis
  proof (cases "akey (at_entries at ! i) = 0")
    case True
    with i assms show ?thesis by (simp add: removeAddrTable_def False fun_upd_idem)
  next
    case here: False
    then have k: "akey (at_entries at ! i) = key" "at_map at key = Some (aval (at_entries at ! i))" using i(3) by auto
    have vi: "?ss ! i = Some (key, aval (at_entries at ! i))" using i(2) w(1) k(1) assms(2) by (simp add: aview_def)
    obtain ss' h where gap: "close_gap (\<lambda>h hole j. \<not> homeInRange h hole j) (addr_home ?n) ?n ?ss i (nexti ?n i) = Some (ss', h)"
      "length ss' = ?n" "h < ?n" "probe_inv (addr_home ?n) (ss'[h := None])" "table_map (ss'[h := None]) = (table_map ?ss)(key := None)"
      using at.remove_spec [of ?ss i key "aval (at_entries at ! i)" "\<lambda>h hole j. \<not> homeInRange h hole j"]
        w vi i(2) free_slot [OF assms(1) False] homeInRange_test by auto
    have nx: "(i + 1) mod ?n = nexti ?n i" "nexti ?n i < ?n" using i(2) nexti_mod nexti_less by auto
    obtain es where es: "shift_back ?n (at_entries at) ?n i (nexti ?n i) = Some (es, h)" "view es = ss'" "length es = ?n"
      using shift_back_close_gap [OF w(1) i(2) nx(2), of ?n] gap(1) by auto
    let ?es = "es[h := (es ! h)\<lparr>akey := 0, aval := None\<rparr>]"
    let ?at' = "at\<lparr>at_entries := ?es, at_count := at_count at - 1\<rparr>"
    have rem: "removeAddrTable key at = Some (True, aval (at_entries at ! i), ?at')"
      using False i(1) here es(1) nx(1) by (simp add: removeAddrTable_def)
    have vu: "view ?es = ss'[h := None]" by (simp add: view_update aview_def es(2))
    have dk: "distinct_keys (view ?es)" "distinct_keys ?ss" using gap(4) w(2) vu by (simp_all add: probe_inv_def)
    have "at_map at key \<noteq> None" using k(2) by simp
    then have "key \<in> dom (table_map ?ss)" by (simp add: at_map_def domIff)
    then have "occupied (view ?es) = occupied ?ss - 1"
      unfolding occupied_table_map [OF dk(1)] occupied_table_map [OF dk(2)] unfolding vu gap(5)
      by (simp only: dom_fun_upd simp_thms if_True if_False card_Diff_singleton)
    then have "wf_at ?at'" using assms(1) gap(4) es(3) by (auto simp: wf_at_def vu)
    moreover have "at_map ?at' = (at_map at)(key := None)" by (simp add: at_map_def vu gap(5))
    ultimately show ?thesis using rem k(2) by auto
  qed
qed

lemma initAddrTable_wf: "wf_at initAddrTable \<and> at_map initAddrTable = Map.empty"
  by (simp add: wf_at_def initAddrTable_def view_def occupied_def probe_inv_def distinct_keys_def at_map_def table_map_def)

lemma at_count_card: "wf_at at \<Longrightarrow> at_count at = card (dom (at_map at))"
  by (simp add: wf_at_def at_map_def occupied_table_map probe_inv_def)

section \<open>Properties\<close>

text \<open>Operations as a client runs them, for the statement about whole histories.\<close>

datatype 'v at_op = AInsert address "'v option" | ARemove address

fun at_run :: "'v at_op list \<Rightarrow> 'v addr_table \<Rightarrow> 'v addr_table option" where
  "at_run [] at = Some at"
| "at_run (AInsert k v # ops) at = (case insertAddrTable k v at of None \<Rightarrow> None | Some at' \<Rightarrow> at_run ops at')"
| "at_run (ARemove k # ops) at = (case removeAddrTable k at of None \<Rightarrow> None | Some (b, v, at') \<Rightarrow> at_run ops at')"

fun at_spec :: "'v at_op list \<Rightarrow> (address \<rightharpoonup> 'v option) \<Rightarrow> (address \<rightharpoonup> 'v option)" where
  "at_spec [] m = m"
| "at_spec (AInsert k v # ops) m = at_spec ops (m(k \<mapsto> v))"
| "at_spec (ARemove k # ops) m = at_spec ops (m(k := None))"

fun at_key :: "'v at_op \<Rightarrow> address" where
  "at_key (AInsert k v) = k"
| "at_key (ARemove k) = k"

lemma over_load_count:
  assumes "wf_at at" "over_load (at_count at) (at_capacity at)"
  shows "4 * at_capacity at < 5 * (card (dom (at_map at)) + 1)"
  using assms at_count_card [OF assms(1)] by (simp add: over_load_def)

text \<open>The capacity never exceeds twice what the entries held at some point needed.\<close>

lemma insert_capacity:
  assumes "wf_at at" "insertAddrTable k v at = Some at'"
  shows "at_capacity at' = at_capacity at \<or> (over_load (at_count at) (at_capacity at) \<and> at_capacity at' = GROW_CAPACITY (at_capacity at))"
  using assms(2) by (auto simp: insertAddrTable_def adjustAddrCapacity_def Let_def split: option.splits if_splits)

lemma card_dom_upd: "finite (dom m) \<Longrightarrow> card (dom (m(k \<mapsto> v))) \<le> card (dom m) + 1"
  by (simp add: card_insert_if)

lemma finite_at_map: "finite (dom (at_map at))"
  by (simp add: at_map_def finite_dom_table_map)

lemma at_run_spec:
  assumes "wf_at at" "\<forall>op \<in> set ops. at_key op \<noteq> 0" "card (dom (at_map at)) + length ops < N" "4 * at_capacity at \<le> 10 * N + 32" "N < 2 ^ 28"
  shows "\<exists>at'. at_run ops at = Some at' \<and> wf_at at' \<and> at_map at' = at_spec ops (at_map at)"
  using assms(1-4)
proof (induction ops arbitrary: at)
  case (Cons op ops)
  have cap: "at_capacity at < 2 ^ 30" using Cons.prems(4) assms(5) by simp
  have nz: "at_key op \<noteq> 0" using Cons.prems(2) by simp
  show ?case
  proof (cases op)
    case (AInsert k v)
    then obtain at' where at': "insertAddrTable k v at = Some at'" "wf_at at'" "at_map at' = (at_map at)(k \<mapsto> v)"
      using insertAddrTable_map [OF Cons.prems(1) _ cap, of k v] nz by auto
    have "card (dom (at_map at')) + length ops < N"
      using card_dom_upd [OF finite_at_map, of at k v] Cons.prems(3) unfolding at'(3) by simp
    moreover have "4 * at_capacity at' \<le> 10 * N + 32"
      using insert_capacity [OF Cons.prems(1) at'(1)] over_load_count [OF Cons.prems(1)] Cons.prems(3,4)
      by (auto simp: GROW_CAPACITY_def)
    ultimately obtain at2 where "at_run ops at' = Some at2" "wf_at at2" "at_map at2 = at_spec ops (at_map at')"
      using Cons.IH [OF at'(2)] Cons.prems(2) by (metis list.set_intros(2))
    then show ?thesis unfolding AInsert at'(3) using at'(1) by simp
  next
    case (ARemove k)
    then obtain v at' where at': "removeAddrTable k at = Some (at_map at k \<noteq> None, v, at')" "wf_at at'"
        "at_map at' = (at_map at)(k := None)" "at_capacity at' = at_capacity at"
      using removeAddrTable_map [OF Cons.prems(1), of k] nz by auto
    have "dom (at_map at') \<subseteq> dom (at_map at)" unfolding at'(3) by auto
    then have "card (dom (at_map at')) \<le> card (dom (at_map at))" by (rule card_mono [OF finite_at_map])
    then have "card (dom (at_map at')) + length ops < N" using Cons.prems(3) by simp
    then obtain at2 where "at_run ops at' = Some at2" "wf_at at2" "at_map at2 = at_spec ops (at_map at')"
      using Cons.IH [OF at'(2)] Cons.prems(2,4) at'(4) by (metis list.set_intros(2))
    then show ?thesis unfolding ARemove at'(3) using at'(1) by simp
  qed
qed simp

text \<open>C22: The address table is a finite map. Any history of up to \<open>2^28 - 1\<close> insertions and removals of
  non-zero addresses on a fresh table runs to its end (no search goes round the table without result, no
  deletion loop fails to stop), and afterwards a lookup returns what the same history on a map returns;
  the count is the number of keys held.\<close>

theorem addr_table_is_map:
  assumes "length ops < 2 ^ 28 - 1" "\<forall>op \<in> set ops. at_key op \<noteq> 0" "key \<noteq> 0"
  shows "\<exists>at. at_run ops initAddrTable = Some at \<and>
     findAddrTable key at = Some (case at_spec ops Map.empty key of None \<Rightarrow> None | Some v \<Rightarrow> v) \<and>
     containsAddrTable key at = Some (at_spec ops Map.empty key \<noteq> None) \<and>
     at_count at = card (dom (at_spec ops Map.empty))"
proof -
  note init = initAddrTable_wf
  obtain at where at: "at_run ops initAddrTable = Some at" "wf_at at" "at_map at = at_spec ops Map.empty"
    using at_run_spec [of initAddrTable ops "length ops + 1"] init assms(1,2)
    by (auto simp: initAddrTable_def)
  with findAddrTable_map [OF at(2) assms(3)] containsAddrTable_map [OF at(2) assms(3)] at_count_card [OF at(2)]
  show ?thesis by auto
qed

theorem addr_table_is_map_witness:
  "\<exists>at. at_run [AInsert 4096 (Some True), AInsert 68 None, ARemove 4096] initAddrTable = Some at \<and>
     findAddrTable 68 at = Some None \<and> containsAddrTable 68 at = Some True \<and> at_count at = 1"
  using addr_table_is_map [of "[AInsert 4096 (Some True), AInsert 68 None, ARemove 4096]" 68] by simp

end
