(* ===== verification/Node.thy ===== *)
theory Node
  imports Ordering
begin

text \<open>
  \<open>storage_engine/node.h\<close> and the constants of \<open>const.h\<close>: a node of the B+ tree. Its two arrays have
  \<open>M_GLOBAL\<close> places, of which the first \<open>childCount\<close> are in use.
\<close>

definition M_GLOBAL :: nat where "M_GLOBAL = 45"
definition PAGE_SIZE :: nat where "PAGE_SIZE = 4096"
definition PAGE_NUM_SLOTS :: nat where "PAGE_NUM_SLOTS = 64"
definition PAGE_NUM_ENTRIES :: nat where "PAGE_NUM_ENTRIES = 700"

record node =
  children :: "address list"
  keys :: "ordering_key list"
  parent :: address
  nnext :: address
  nprev :: address
  childCount :: nat
  nmaxKey :: ordering_key
  isLeaf :: bool

text \<open>A zeroed node, as \<open>calloc\<close> and \<open>(node){0}\<close> give it.\<close>

definition zero_node :: node where
  "zero_node = \<lparr>children = replicate M_GLOBAL 0, keys = replicate M_GLOBAL zero_key, parent = 0, nnext = 0,
     nprev = 0, childCount = 0, nmaxKey = zero_key, isLeaf = False\<rparr>"

text \<open>Both arrays have their full length.\<close>

definition node_arrays :: "node \<Rightarrow> bool" where
  "node_arrays n \<longleftrightarrow> length (children n) = M_GLOBAL \<and> length (keys n) = M_GLOBAL"

lemma zero_node_arrays [simp]: "node_arrays zero_node"
  by (simp add: node_arrays_def zero_node_def)

end
