(* ===== verification/NodeCache.thy ===== *)
theory NodeCache
  imports Probing Node
begin

text \<open>
  \<open>storage_engine/cache.c\<close>: the cache of the nodes at the top of one table's tree, an open-addressed table of
  nodes by address. Functions that search return \<open>None\<close> where the code's loop would not end or would follow a
  null pointer; the theorems show that this does not happen. \<open>nc_map\<close> is the finite map a cache stands for,
  and the step relation at the end runs the cache beside the file it caches.
\<close>

section \<open>Data (cache.h)\<close>

record node_cache_slot =
  nc_addr :: address
  cached :: "node option"

record node_cache =
  nc_slots :: "node_cache_slot list"
  slotCount :: nat
  nc_count :: nat
  maxNodes :: nat
  hits :: u64
  misses :: u64

definition zero_cache_slot :: node_cache_slot where
  "zero_cache_slot = \<lparr>nc_addr = 0, cached = None\<rparr>"

definition zero_cache :: node_cache where
  "zero_cache = \<lparr>nc_slots = [], slotCount = 0, nc_count = 0, maxNodes = 0, hits = 0, misses = 0\<rparr>"

section \<open>The table of nodes\<close>

definition homeSlot :: "nat \<Rightarrow> address \<Rightarrow> nat" where
  "homeSlot count addr = unat (ucast (drop_bit 32 (addr * 0x9E3779B97F4A7C15)) :: u32) AND (count - 1)"

fun findSlot_loop :: "nat \<Rightarrow> node_cache \<Rightarrow> address \<Rightarrow> nat \<Rightarrow> nat option" where
  "findSlot_loop 0 c addr i = None"
| "findSlot_loop (Suc left) c addr i =
     (if nc_addr (nc_slots c ! i) \<noteq> 0 \<and> nc_addr (nc_slots c ! i) \<noteq> addr
      then findSlot_loop left c addr ((i + 1) AND (slotCount c - 1))
      else Some i)"

definition findSlot :: "node_cache \<Rightarrow> address \<Rightarrow> nat option" where
  "findSlot c addr = findSlot_loop (slotCount c) c addr (homeSlot (slotCount c) addr)"

text \<open>\<open>((j - home) & mask) >= ((j - hole) & mask)\<close>, in 32-bit arithmetic.\<close>

definition canMoveBack :: "nat \<Rightarrow> nat \<Rightarrow> nat \<Rightarrow> nat \<Rightarrow> bool" where
  "canMoveBack msk home hole j = (u32_sub j home AND msk \<ge> u32_sub j hole AND msk)"

fun emptySlot_loop :: "nat \<Rightarrow> nat \<Rightarrow> node_cache_slot list \<Rightarrow> nat \<Rightarrow> nat \<Rightarrow> (node_cache_slot list \<times> nat) option" where
  "emptySlot_loop 0 count ss hole j = None"
| "emptySlot_loop (Suc left) count ss hole j =
     (if nc_addr (ss ! j) = 0 then Some (ss, hole)
      else let home = homeSlot count (nc_addr (ss ! j)); next = (j + 1) AND (count - 1)
           in if canMoveBack (count - 1) home hole j
              then emptySlot_loop left count (ss[hole := ss ! j]) j next
              else emptySlot_loop left count ss hole next)"

definition emptySlot :: "node_cache \<Rightarrow> nat \<Rightarrow> node_cache option" where
  "emptySlot c i =
     (case emptySlot_loop (slotCount c) (slotCount c) (nc_slots c) i ((i + 1) AND (slotCount c - 1)) of
        None \<Rightarrow> None
      | Some (ss, hole) \<Rightarrow> Some (c\<lparr>nc_slots := ss[hole := zero_cache_slot], nc_count := nc_count c - 1\<rparr>))"

section \<open>The cache\<close>

text \<open>\<open>while (slotCount < 2 * maxNodes) slotCount *= 2\<close>, which starts from 8.\<close>

function slotCount_loop :: "nat \<Rightarrow> nat \<Rightarrow> nat" where
  "slotCount_loop sc mx = (if sc < 2 * mx \<and> sc \<noteq> 0 then slotCount_loop (sc * 2) mx else sc)"
  by pat_completeness auto

termination
  by (relation "measure (\<lambda>(sc, mx). 2 * mx - sc)") auto

declare slotCount_loop.simps [simp del]

definition nodeCacheInit :: "nat \<Rightarrow> node_cache" where
  "nodeCacheInit mx =
     (if mx = 0 then zero_cache
      else let sc = slotCount_loop 8 mx
           in zero_cache\<lparr>maxNodes := mx, slotCount := sc, nc_slots := replicate sc zero_cache_slot\<rparr>)"

definition nodeCacheClear :: "node_cache \<Rightarrow> node_cache" where
  "nodeCacheClear c =
     c\<lparr>nc_slots := fold (\<lambda>i ss. ss[i := zero_cache_slot]) [0..<slotCount c] (nc_slots c), nc_count := 0\<rparr>"

definition nodeCacheFree :: "node_cache \<Rightarrow> node_cache" where
  "nodeCacheFree c = zero_cache"

text \<open>The node found, if any, and the cache with its counters.\<close>

definition nodeCacheGet :: "node_cache \<Rightarrow> address \<Rightarrow> (node option \<times> node_cache) option" where
  "nodeCacheGet c addr =
     (if slotCount c = 0 then Some (None, c)
      else case findSlot c addr of None \<Rightarrow> None
      | Some i \<Rightarrow>
          if nc_addr (nc_slots c ! i) = 0 then Some (None, c\<lparr>misses := misses c + 1\<rparr>)
          else case cached (nc_slots c ! i) of None \<Rightarrow> None
               | Some n \<Rightarrow> Some (Some n, c\<lparr>hits := hits c + 1\<rparr>))"

definition nodeCacheOffer :: "node_cache \<Rightarrow> address \<Rightarrow> node \<Rightarrow> address \<Rightarrow> (bool \<times> node_cache) option" where
  "nodeCacheOffer c addr n root =
     (if slotCount c = 0 \<or> addr = 0 \<or> root = 0 then Some (False, c)
      else if addr \<noteq> root \<and> parent n \<noteq> root then Some (False, c)
      else case findSlot c addr of None \<Rightarrow> None
      | Some i \<Rightarrow>
          if nc_addr (nc_slots c ! i) = 0
          then if nc_count c \<ge> maxNodes c then Some (False, c)
               else Some (True, c\<lparr>nc_slots := (nc_slots c)[i := \<lparr>nc_addr = addr, cached = Some n\<rparr>], nc_count := nc_count c + 1\<rparr>)
          else Some (True, c\<lparr>nc_slots := (nc_slots c)[i := (nc_slots c ! i)\<lparr>cached := Some n\<rparr>]\<rparr>))"

definition nodeCacheUpdate :: "node_cache \<Rightarrow> address \<Rightarrow> node \<Rightarrow> (bool \<times> node_cache) option" where
  "nodeCacheUpdate c addr n =
     (if slotCount c = 0 then Some (False, c)
      else case findSlot c addr of None \<Rightarrow> None
      | Some i \<Rightarrow>
          if nc_addr (nc_slots c ! i) = 0 then Some (False, c)
          else Some (True, c\<lparr>nc_slots := (nc_slots c)[i := (nc_slots c ! i)\<lparr>cached := Some n\<rparr>]\<rparr>))"

definition nodeCacheRemove :: "node_cache \<Rightarrow> address \<Rightarrow> (bool \<times> node_cache) option" where
  "nodeCacheRemove c addr =
     (if slotCount c = 0 then Some (False, c)
      else case findSlot c addr of None \<Rightarrow> None
      | Some i \<Rightarrow>
          if nc_addr (nc_slots c ! i) = 0 then Some (False, c)
          else case emptySlot c i of None \<Rightarrow> None | Some c' \<Rightarrow> Some (True, c'))"

section \<open>The abstraction\<close>

definition nview :: "node_cache_slot \<Rightarrow> (address \<times> node option) option" where
  "nview s = (if nc_addr s = 0 then None else Some (nc_addr s, cached s))"

definition nc_view :: "node_cache \<Rightarrow> (address, node option) slots" where
  "nc_view c = map nview (nc_slots c)"

definition nc_map :: "node_cache \<Rightarrow> address \<Rightarrow> node option" where
  "nc_map c addr = (case table_map (nc_view c) addr of None \<Rightarrow> None | Some v \<Rightarrow> v)"

text \<open>Zeroed, or a power of two of slots of which at most half are taken.\<close>

definition wf_cache :: "node_cache \<Rightarrow> bool" where
  "wf_cache c \<longleftrightarrow> length (nc_slots c) = slotCount c \<and> nc_count c = occupied (nc_view c) \<and> nc_count c \<le> maxNodes c \<and>
     (slotCount c = 0 \<or> (\<exists>m. 0 < m \<and> m \<le> 32 \<and> slotCount c = 2 ^ m)) \<and> 2 * maxNodes c \<le> slotCount c \<and>
     (\<forall>s \<in> set (nc_slots c). nc_addr s \<noteq> 0 \<longrightarrow> cached s \<noteq> None) \<and>
     probe_inv (homeSlot (slotCount c)) (nc_view c)"

text \<open>The home slot for any number of slots; with a power of two it is the code's mask.\<close>

definition cache_home :: "nat \<Rightarrow> address \<Rightarrow> nat" where
  "cache_home n addr = unat (ucast (drop_bit 32 (addr * 0x9E3779B97F4A7C15)) :: u32) mod n"

interpretation nc: linear_probing cache_home
  by unfold_locales (simp add: cache_home_def)

lemma and_mask: "(x :: nat) AND (2 ^ m - 1) = x mod 2 ^ m"
  by (simp only: mask_eq_exp_minus_1 [symmetric] take_bit_eq_mask [symmetric] take_bit_eq_mod)

lemma home_mask: "n = 2 ^ m \<Longrightarrow> homeSlot n = cache_home n"
  by (intro ext) (simp only: homeSlot_def cache_home_def and_mask)

lemma sub_mask:
  assumes "n = 2 ^ m" "m \<le> 32" "h < n" "j < n"
  shows "u32_sub j h AND (n - 1) = dist n h j"
proof -
  have dvd: "n dvd 2 ^ 32" unfolding assms(1) using assms(2) by (intro le_imp_power_dvd)
  have "u32_sub j h AND (n - 1) = (j + 2 ^ 32 - h) mod 2 ^ 32 mod n"
    unfolding assms(1) and_mask u32_sub_def ..
  also have "\<dots> = (j + 2 ^ 32 - h) mod n" using dvd by (rule mod_mod_cancel)
  also have "\<dots> = (j + n - h) mod n"
  proof -
    obtain q where q: "(2::nat) ^ 32 = n * q" using dvd by (elim dvdE)
    then have "q \<noteq> 0" by (intro notI) simp
    then have "j + n * q - h = (j + n - h) + n * (q - 1)" using assms(3) by (cases q) (simp_all add: algebra_simps)
    then show ?thesis unfolding q by simp
  qed
  also have "\<dots> = dist n h j"
    using assms(3,4) by (auto simp: dist_def le_mod_geq)
  finally show ?thesis .
qed

lemma canMoveBack_test: "n = 2 ^ m \<Longrightarrow> m \<le> 32 \<Longrightarrow> back_test n (canMoveBack (n - 1))"
  by (simp add: back_test_def canMoveBack_def sub_mask del: One_nat_def)

section \<open>The loops are probing\<close>

lemma length_nc_view [simp]: "length (nc_view c) = length (nc_slots c)"
  by (simp add: nc_view_def)

lemma nc_view_nth [simp]: "i < length (nc_slots c) \<Longrightarrow> nc_view c ! i = nview (nc_slots c ! i)"
  by (simp add: nc_view_def)

lemma next_mask: "n = 2 ^ m \<Longrightarrow> i < n \<Longrightarrow> (i + 1) AND (n - 1) = nexti n i"
  by (simp only: and_mask nexti_mod)

lemma findSlot_probe:
  assumes "length (nc_slots c) = slotCount c" "slotCount c = 2 ^ m" "addr \<noteq> 0" "i < slotCount c"
  shows "findSlot_loop left c addr i = probe (nc_view c) addr i left"
  using assms(4)
proof (induction left arbitrary: i)
  case (Suc left)
  have "(i + 1) AND (slotCount c - 1) = nexti (slotCount c) i" "nexti (slotCount c) i < slotCount c"
    using next_mask [OF assms(2) Suc.prems] nexti_less [OF Suc.prems] by simp_all
  with Suc assms(1,3) show ?case by (simp add: nview_def)
qed simp

lemma emptySlot_close_gap:
  assumes "length ss = n" "n = 2 ^ m" "hole < n" "j < n"
  shows "map_option (\<lambda>(ss', h). (map nview ss', h)) (emptySlot_loop left n ss hole j)
         = close_gap (canMoveBack (n - 1)) (cache_home n) left (map nview ss) hole j \<and>
         (\<forall>ss' h. emptySlot_loop left n ss hole j = Some (ss', h) \<longrightarrow> length ss' = n \<and> h < n \<and> set ss' \<subseteq> set ss)"
  using assms(1,3,4)
proof (induction left arbitrary: ss hole j)
  case (Suc left)
  have nx: "(j + 1) AND (n - 1) = nexti n j" "nexti n j < n"
    using next_mask [OF assms(2) Suc.prems(3)] nexti_less [OF Suc.prems(3)] by simp_all
  show ?case
  proof (cases "nc_addr (ss ! j) = 0")
    case True
    with Suc.prems show ?thesis by (simp add: nview_def)
  next
    case False
    have upd: "map nview (ss[hole := ss ! j]) = (map nview ss)[hole := map nview ss ! j]"
      using Suc.prems by (simp add: map_update)
    have v: "map nview ss ! j = Some (nc_addr (ss ! j), cached (ss ! j))"
      using False Suc.prems by (simp add: nview_def)
    have sub: "set (ss[hole := ss ! j]) \<subseteq> set ss"
      using Suc.prems by (intro set_update_subsetI) simp_all
    show ?thesis
      using False Suc.IH [of ss hole "nexti n j"] Suc.IH [of "ss[hole := ss ! j]" j "nexti n j"] Suc.prems nx sub
      by (simp add: Let_def home_mask [OF assms(2)] upd v del: One_nat_def) blast
  qed
qed simp

section \<open>The operations on the map\<close>

lemma wf_cache_parts:
  assumes "wf_cache c" "slotCount c \<noteq> 0"
  shows "length (nc_slots c) = slotCount c" "probe_inv (cache_home (slotCount c)) (nc_view c)" "None \<in> set (nc_view c)"
    "nc_count c = occupied (nc_view c)"
    "\<exists>m. 0 < m \<and> m \<le> 32 \<and> slotCount c = 2 ^ m"
    "\<And>s. s \<in> set (nc_slots c) \<Longrightarrow> nc_addr s \<noteq> 0 \<Longrightarrow> cached s \<noteq> None"
proof -
  obtain m where m: "0 < m" "m \<le> 32" "slotCount c = 2 ^ m" using assms by (auto simp: wf_cache_def)
  then show "\<exists>m. 0 < m \<and> m \<le> 32 \<and> slotCount c = 2 ^ m" by blast
  show "length (nc_slots c) = slotCount c" "nc_count c = occupied (nc_view c)"
    "\<And>s. s \<in> set (nc_slots c) \<Longrightarrow> nc_addr s \<noteq> 0 \<Longrightarrow> cached s \<noteq> None"
    using assms(1) by (auto simp: wf_cache_def)
  show "probe_inv (cache_home (slotCount c)) (nc_view c)"
    using assms(1) home_mask [OF m(3)] by (simp add: wf_cache_def)
  have "occupied (nc_view c) < length (nc_view c)" using assms by (simp add: wf_cache_def)
  then show "None \<in> set (nc_view c)" by (simp only: occupied_less)
qed

lemma findSlot_spec:
  assumes "wf_cache c" "slotCount c \<noteq> 0" "addr \<noteq> 0"
  obtains i where "findSlot c addr = Some i" "i < slotCount c"
    "\<And>p. on_way (slotCount c) (cache_home (slotCount c) addr) p i \<Longrightarrow> nc_view c ! p \<noteq> None"
    "(nc_addr (nc_slots c ! i) = 0 \<and> table_map (nc_view c) addr = None \<and> nc_map c addr = None) \<or>
     (\<exists>n. nc_addr (nc_slots c ! i) = addr \<and> cached (nc_slots c ! i) = Some n \<and>
          table_map (nc_view c) addr = Some (Some n) \<and> nc_map c addr = Some n)"
proof -
  note w = wf_cache_parts [OF assms(1,2)]
  obtain m where m: "slotCount c = 2 ^ m" using w(5) by blast
  have h: "homeSlot (slotCount c) addr < slotCount c" unfolding home_mask [OF m] using nc.home_in [of 0 "nc_view c" addr] assms(2) w(1) by simp
  obtain i where i: "probe (nc_view c) addr (cache_home (slotCount c) addr) (slotCount c) = Some i" "i < slotCount c"
    "\<And>p. on_way (slotCount c) (cache_home (slotCount c) addr) p i \<Longrightarrow> nc_view c ! p \<noteq> None"
    "(nc_view c ! i = None \<and> table_map (nc_view c) addr = None) \<or> (\<exists>v. nc_view c ! i = Some (addr, v) \<and> table_map (nc_view c) addr = Some v)"
    using nc.find_spec [of "nc_view c" addr] w(1-3) by auto
  have "findSlot c addr = Some i"
    using i(1) findSlot_probe [OF w(1) m assms(3) h, of "slotCount c"] by (simp add: findSlot_def home_mask [OF m])
  moreover have "nc_slots c ! i \<in> set (nc_slots c)" using i(2) w(1) by simp
  then have "(nc_addr (nc_slots c ! i) = 0 \<and> table_map (nc_view c) addr = None \<and> nc_map c addr = None) \<or>
     (\<exists>n. nc_addr (nc_slots c ! i) = addr \<and> cached (nc_slots c ! i) = Some n \<and>
          table_map (nc_view c) addr = Some (Some n) \<and> nc_map c addr = Some n)"
    using i(2,4) w(1) w(6) [of "nc_slots c ! i"] by (auto simp: nview_def nc_map_def split: if_splits)
  ultimately show thesis using that i(2,3) by blast
qed

lemma nc_map_zero: "wf_cache c \<Longrightarrow> slotCount c = 0 \<Longrightarrow> nc_map c = Map.empty"
  by (auto simp: wf_cache_def nc_map_def nc_view_def table_map_def)

lemma nodeCacheGet_map:
  assumes "wf_cache c" "addr \<noteq> 0"
  shows "\<exists>c'. nodeCacheGet c addr = Some (nc_map c addr, c') \<and> wf_cache c' \<and> nc_map c' = nc_map c"
proof (cases "slotCount c = 0")
  case True
  then show ?thesis using assms(1) by (simp add: nodeCacheGet_def nc_map_zero)
next
  case False
  have same: "wf_cache (c\<lparr>misses := x\<rparr>) \<and> nc_map (c\<lparr>misses := x\<rparr>) = nc_map c"
    "wf_cache (c\<lparr>hits := x\<rparr>) \<and> nc_map (c\<lparr>hits := x\<rparr>) = nc_map c" for x
    using assms(1) by (simp_all add: wf_cache_def nc_map_def [abs_def] nc_view_def)
  show ?thesis
    by (rule findSlot_spec [OF assms(1) False assms(2)]) (use False assms(2) same in \<open>auto simp: nodeCacheGet_def\<close>)
qed

text \<open>Writing a node where the search ended.\<close>

lemma cache_put:
  assumes "wf_cache c" "slotCount c \<noteq> 0" "addr \<noteq> 0" "i < slotCount c"
    and way: "\<And>p. on_way (slotCount c) (cache_home (slotCount c) addr) p i \<Longrightarrow> nc_view c ! p \<noteq> None"
    and at: "(nc_addr (nc_slots c ! i) = 0 \<and> table_map (nc_view c) addr = None \<and> nc_count c < maxNodes c) \<or>
     (nc_addr (nc_slots c ! i) = addr \<and> table_map (nc_view c) addr = Some (cached (nc_slots c ! i)))"
    and c': "c' = c\<lparr>nc_slots := (nc_slots c)[i := \<lparr>nc_addr = addr, cached = Some n\<rparr>],
                   nc_count := nc_count c + of_bool (nc_addr (nc_slots c ! i) = 0)\<rparr>"
  shows "wf_cache c' \<and> nc_map c' = (nc_map c)(addr \<mapsto> n)"
proof -
  note w = wf_cache_parts [OF assms(1,2)]
  obtain m where m: "slotCount c = 2 ^ m" using w(5) by blast
  have v: "nc_view c' = (nc_view c)[i := Some (addr, Some n)]"
    using assms(3) by (simp add: nc_view_def c' map_update nview_def)
  have put: "probe_inv (cache_home (slotCount c)) (nc_view c') \<and> table_map (nc_view c') = (table_map (nc_view c))(addr \<mapsto> Some n) \<and>
     occupied (nc_view c') = occupied (nc_view c) + of_bool (table_map (nc_view c) addr = None)"
    unfolding v using nc.put_spec [of "nc_view c" i addr "Some n"] w(1,2) way at assms(3,4) by (auto simp: nview_def)
  have "set (nc_slots c') \<subseteq> insert \<lparr>nc_addr = addr, cached = Some n\<rparr> (set (nc_slots c))"
    by (simp add: c' set_update_subset_insert)
  then have "\<forall>s \<in> set (nc_slots c'). nc_addr s \<noteq> 0 \<longrightarrow> cached s \<noteq> None" using w(6) by auto
  moreover have "nc_count c' = occupied (nc_view c')" using put at w(4) assms(3) by (auto simp: c')
  moreover have "nc_count c' \<le> maxNodes c'" using at assms(1,3) by (auto simp: c' wf_cache_def)
  moreover have f: "slotCount c' = slotCount c" "maxNodes c' = maxNodes c" "length (nc_slots c') = length (nc_slots c)"
    by (simp_all add: c')
  moreover have "2 * maxNodes c \<le> slotCount c" "slotCount c = 0 \<or> (\<exists>m. 0 < m \<and> m \<le> 32 \<and> slotCount c = 2 ^ m)"
    using assms(1) by (simp_all add: wf_cache_def)
  ultimately have "wf_cache c'" using put w(1) unfolding wf_cache_def f home_mask [OF m] by blast
  moreover have "nc_map c' = (nc_map c)(addr \<mapsto> n)" using put by (auto simp: nc_map_def)
  ultimately show ?thesis by simp
qed

lemma slot_keep_addr: "nc_addr s = addr \<Longrightarrow> s\<lparr>cached := Some n\<rparr> = \<lparr>nc_addr = addr, cached = Some n\<rparr>"
  by (cases s) simp

lemma nodeCacheOffer_map:
  assumes "wf_cache c"
    and b: "b = (slotCount c \<noteq> 0 \<and> addr \<noteq> 0 \<and> root \<noteq> 0 \<and> (addr = root \<or> parent n = root) \<and>
                 (nc_map c addr \<noteq> None \<or> nc_count c < maxNodes c))"
  shows "\<exists>c'. nodeCacheOffer c addr n root = Some (b, c') \<and> wf_cache c' \<and>
     nc_map c' = (if b then (nc_map c)(addr \<mapsto> n) else nc_map c)"
proof (cases "slotCount c = 0 \<or> addr = 0 \<or> root = 0 \<or> (addr \<noteq> root \<and> parent n \<noteq> root)")
  case True
  then show ?thesis using assms(1) by (auto simp: nodeCacheOffer_def b)
next
  case False
  then have nz: "slotCount c \<noteq> 0" "addr \<noteq> 0" by auto
  obtain i where i: "findSlot c addr = Some i" "i < slotCount c"
    "\<And>p. on_way (slotCount c) (cache_home (slotCount c) addr) p i \<Longrightarrow> nc_view c ! p \<noteq> None"
    "(nc_addr (nc_slots c ! i) = 0 \<and> table_map (nc_view c) addr = None \<and> nc_map c addr = None) \<or>
     (\<exists>n. nc_addr (nc_slots c ! i) = addr \<and> cached (nc_slots c ! i) = Some n \<and>
          table_map (nc_view c) addr = Some (Some n) \<and> nc_map c addr = Some n)"
    by (rule findSlot_spec [OF assms(1) nz]) blast
  note put = cache_put [OF assms(1) nz i(2,3) _ refl, of n]
  show ?thesis
  proof (cases "nc_addr (nc_slots c ! i) = 0")
    case True
    with i(4) nz have none: "table_map (nc_view c) addr = None" "nc_map c addr = None" by auto
    show ?thesis
    proof (cases "nc_count c < maxNodes c")
      case room: True
      with put True none False i(1) show ?thesis by (simp add: nodeCacheOffer_def b)
    next
      case full: False
      with True none False i(1) assms(1) show ?thesis by (simp add: nodeCacheOffer_def b)
    qed
  next
    case here: False
    then have h: "nc_addr (nc_slots c ! i) = addr" "nc_map c addr \<noteq> None"
      "table_map (nc_view c) addr = Some (cached (nc_slots c ! i))" using i(4) by auto
    have "nodeCacheOffer c addr n root = Some (True, c\<lparr>nc_slots := (nc_slots c)[i := \<lparr>nc_addr = addr, cached = Some n\<rparr>]\<rparr>)"
      using False i(1) here h(1) by (simp add: nodeCacheOffer_def slot_keep_addr)
    with put h here nz False show ?thesis by (simp add: b)
  qed
qed

lemma nodeCacheUpdate_map:
  assumes "wf_cache c" "addr \<noteq> 0"
  shows "\<exists>c'. nodeCacheUpdate c addr n = Some (nc_map c addr \<noteq> None, c') \<and> wf_cache c' \<and>
     nc_map c' = (if nc_map c addr \<noteq> None then (nc_map c)(addr \<mapsto> n) else nc_map c)"
proof (cases "slotCount c = 0")
  case True
  then show ?thesis using assms(1) by (simp add: nodeCacheUpdate_def nc_map_zero)
next
  case False
  obtain i where i: "findSlot c addr = Some i" "i < slotCount c"
    "\<And>p. on_way (slotCount c) (cache_home (slotCount c) addr) p i \<Longrightarrow> nc_view c ! p \<noteq> None"
    "(nc_addr (nc_slots c ! i) = 0 \<and> table_map (nc_view c) addr = None \<and> nc_map c addr = None) \<or>
     (\<exists>n. nc_addr (nc_slots c ! i) = addr \<and> cached (nc_slots c ! i) = Some n \<and>
          table_map (nc_view c) addr = Some (Some n) \<and> nc_map c addr = Some n)"
    by (rule findSlot_spec [OF assms(1) False assms(2)]) blast
  show ?thesis
  proof (cases "nc_addr (nc_slots c ! i) = 0")
    case True
    with i(1,4) assms False show ?thesis by (auto simp: nodeCacheUpdate_def)
  next
    case here: False
    then have h: "nc_addr (nc_slots c ! i) = addr" "nc_map c addr \<noteq> None"
      "table_map (nc_view c) addr = Some (cached (nc_slots c ! i))" using i(4) by auto
    have "nodeCacheUpdate c addr n = Some (True, c\<lparr>nc_slots := (nc_slots c)[i := \<lparr>nc_addr = addr, cached = Some n\<rparr>]\<rparr>)"
      using False i(1) here h(1) by (simp add: nodeCacheUpdate_def slot_keep_addr)
    with cache_put [OF assms(1) False assms(2) i(2,3) _ refl, of n] h here show ?thesis by simp
  qed
qed

lemma nodeCacheRemove_map:
  assumes "wf_cache c" "addr \<noteq> 0"
  shows "\<exists>c'. nodeCacheRemove c addr = Some (nc_map c addr \<noteq> None, c') \<and> wf_cache c' \<and> nc_map c' = (nc_map c)(addr := None)"
proof (cases "slotCount c = 0")
  case True
  then show ?thesis using assms(1) by (simp add: nodeCacheRemove_def nc_map_zero)
next
  case False
  let ?n = "slotCount c"
  note w = wf_cache_parts [OF assms(1) False]
  obtain m where m: "?n = 2 ^ m" "m \<le> 32" using w(5) by blast
  obtain i where i: "findSlot c addr = Some i" "i < ?n"
    "(nc_addr (nc_slots c ! i) = 0 \<and> table_map (nc_view c) addr = None \<and> nc_map c addr = None) \<or>
     (\<exists>n. nc_addr (nc_slots c ! i) = addr \<and> cached (nc_slots c ! i) = Some n \<and>
          table_map (nc_view c) addr = Some (Some n) \<and> nc_map c addr = Some n)"
    by (rule findSlot_spec [OF assms(1) False assms(2)]) blast
  show ?thesis
  proof (cases "nc_addr (nc_slots c ! i) = 0")
    case True
    with i(1,3) assms False show ?thesis by (auto simp: nodeCacheRemove_def)
  next
    case here: False
    then obtain nd where h: "nc_addr (nc_slots c ! i) = addr" "cached (nc_slots c ! i) = Some nd"
      "table_map (nc_view c) addr = Some (Some nd)" "nc_map c addr = Some nd" using i(3) by auto
    have vi: "nc_view c ! i = Some (addr, Some nd)" using i(2) w(1) h(1,2) assms(2) by (simp add: nview_def)
    obtain ss' hole where gap: "close_gap (canMoveBack (?n - 1)) (cache_home ?n) ?n (nc_view c) i (nexti ?n i) = Some (ss', hole)"
      "length ss' = ?n" "hole < ?n" "probe_inv (cache_home ?n) (ss'[hole := None])"
      "table_map (ss'[hole := None]) = (table_map (nc_view c))(addr := None)"
      using nc.remove_spec [of "nc_view c" i addr "Some nd" "canMoveBack (?n - 1)"] w(1-3) vi i(2) canMoveBack_test [OF m]
      by auto
    have nx: "(i + 1) AND (?n - 1) = nexti ?n i" "nexti ?n i < ?n"
      using next_mask [OF m(1) i(2)] nexti_less [OF i(2)] by simp_all
    obtain ss where ss: "emptySlot_loop ?n ?n (nc_slots c) i (nexti ?n i) = Some (ss, hole)" "map nview ss = ss'"
      "length ss = ?n" "set ss \<subseteq> set (nc_slots c)"
      using emptySlot_close_gap [OF w(1) m(1) i(2) nx(2), of ?n] gap(1) by (auto simp: nc_view_def)
    let ?c = "c\<lparr>nc_slots := ss[hole := zero_cache_slot], nc_count := nc_count c - 1\<rparr>"
    have rem: "nodeCacheRemove c addr = Some (True, ?c)"
      using False i(1) here ss(1) nx(1) by (simp add: nodeCacheRemove_def emptySlot_def)
    have v: "nc_view ?c = ss'[hole := None]" by (simp add: nc_view_def map_update nview_def zero_cache_slot_def ss(2))
    have dk: "distinct_keys (nc_view ?c)" "distinct_keys (nc_view c)"
      using gap(4) w(2) v by (simp_all add: probe_inv_def)
    have "addr \<in> dom (table_map (nc_view c))" using h(3) by (simp add: domIff)
    then have "occupied (nc_view ?c) = occupied (nc_view c) - 1"
      unfolding occupied_table_map [OF dk(1)] occupied_table_map [OF dk(2)] unfolding v gap(5)
      by (simp only: dom_fun_upd simp_thms if_True if_False card_Diff_singleton)
    then have cnt: "nc_count ?c = occupied (nc_view ?c)" using w(4) by simp
    have "set (nc_slots ?c) \<subseteq> insert zero_cache_slot (set (nc_slots c))"
      using set_update_subset_insert [of ss hole zero_cache_slot] ss(4) by auto
    then have "\<forall>s \<in> set (nc_slots ?c). nc_addr s \<noteq> 0 \<longrightarrow> cached s \<noteq> None"
      using w(6) by (auto simp: zero_cache_slot_def)
    moreover have "probe_inv (homeSlot ?n) (nc_view ?c)" unfolding v home_mask [OF m(1)] by (rule gap(4))
    moreover have "nc_count ?c \<le> maxNodes ?c" using assms(1) by (auto simp: wf_cache_def)
    ultimately have "wf_cache ?c" using assms(1) cnt ss(3) by (simp add: wf_cache_def)
    moreover have "nc_map ?c = (nc_map c)(addr := None)"
      unfolding nc_map_def [abs_def] v gap(5) by auto
    ultimately show ?thesis using rem h(4) by auto
  qed
qed

lemma nc_view_zero_slots: "nc_slots c = replicate n zero_cache_slot \<Longrightarrow> nc_view c = replicate n None"
  by (simp add: nc_view_def nview_def zero_cache_slot_def)

lemma wf_empty_cache:
  assumes "nc_slots c = replicate (slotCount c) zero_cache_slot" "nc_count c = 0" "2 * maxNodes c \<le> slotCount c"
    and "slotCount c = 0 \<or> (\<exists>m. 0 < m \<and> m \<le> 32 \<and> slotCount c = 2 ^ m)"
  shows "wf_cache c \<and> nc_map c = Map.empty"
proof -
  have "nc_map c = Map.empty" by (simp add: nc_map_def [abs_def] nc_view_zero_slots [OF assms(1)])
  then show ?thesis using assms
    by (auto simp: wf_cache_def nc_view_zero_slots [OF assms(1)] zero_cache_slot_def probe_inv_replicate)
qed

lemma nodeCacheClear_map:
  assumes "wf_cache c"
  shows "wf_cache (nodeCacheClear c) \<and> nc_map (nodeCacheClear c) = Map.empty"
proof -
  have l: "length (nc_slots c) = slotCount c" using assms by (simp add: wf_cache_def)
  have "fold (\<lambda>i ss. ss[i := zero_cache_slot]) [0..<n] ss = replicate n zero_cache_slot @ drop n ss" if "n \<le> length ss" for n ss
    using that
  proof (induction n)
    case (Suc n)
    then show ?case
      by (simp add: list_update_append replicate_app_Cons_same)
         (metis Cons_nth_drop_Suc Suc_le_lessD list_update_code(2) replicate_app_Cons_same)
  qed simp
  from this [of "slotCount c" "nc_slots c"] l
  have "nc_slots (nodeCacheClear c) = replicate (slotCount c) zero_cache_slot" by (simp add: nodeCacheClear_def)
  then show ?thesis using assms by (intro wf_empty_cache) (auto simp: nodeCacheClear_def wf_cache_def)
qed

lemma slotCount_loop_power:
  assumes "sc = 2 ^ k" "2 * mx \<le> 2 ^ 31" "k \<le> 31"
  shows "2 * mx \<le> slotCount_loop sc mx \<and> (\<exists>m. k \<le> m \<and> m \<le> 31 \<and> slotCount_loop sc mx = 2 ^ m)"
  using assms
proof (induction sc mx arbitrary: k rule: slotCount_loop.induct)
  case (1 sc mx)
  show ?case
  proof (cases "sc < 2 * mx")
    case True
    then have "(2::nat) ^ k < 2 ^ 31" unfolding "1.prems"(1) [symmetric] using "1.prems"(2) by (rule less_le_trans)
    then have "k < 31" by (rule power_less_imp_less_exp [rotated]) simp
    have "sc \<noteq> 0" using "1.prems"(1) by simp
    with True have step: "slotCount_loop sc mx = slotCount_loop (sc * 2) mx" by (simp add: slotCount_loop.simps [of sc])
    have "2 * mx \<le> slotCount_loop (sc * 2) mx \<and> (\<exists>m. Suc k \<le> m \<and> m \<le> 31 \<and> slotCount_loop (sc * 2) mx = 2 ^ m)"
      using "1.prems" True \<open>sc \<noteq> 0\<close> \<open>k < 31\<close> by (intro "1.IH") simp_all
    then show ?thesis unfolding step by (meson Suc_leD)
  next
    case False
    then have "slotCount_loop sc mx = sc" by (simp add: slotCount_loop.simps [of sc])
    with False "1.prems" show ?thesis by auto
  qed
qed

lemma nodeCacheInit_wf:
  assumes "mx \<le> 2 ^ 30"
  shows "wf_cache (nodeCacheInit mx) \<and> nc_map (nodeCacheInit mx) = Map.empty"
proof (cases "mx = 0")
  case True
  then show ?thesis by (intro wf_empty_cache) (auto simp: nodeCacheInit_def zero_cache_def)
next
  case False
  have "2 * mx \<le> 2 ^ 31" using assms by simp
  then have "2 * mx \<le> slotCount_loop 8 mx" "\<exists>m. 3 \<le> m \<and> m \<le> 31 \<and> slotCount_loop 8 mx = 2 ^ m"
    using slotCount_loop_power [of 8 3 mx] by auto
  moreover from this(2) obtain m where "3 \<le> m" "m \<le> 31" "slotCount_loop 8 mx = 2 ^ m" by blast
  then have "\<exists>m. 0 < m \<and> m \<le> 32 \<and> slotCount_loop 8 mx = 2 ^ m" by (intro exI [of _ m]) auto
  ultimately show ?thesis using False by (intro wf_empty_cache) (auto simp: nodeCacheInit_def zero_cache_def Let_def)
qed

section \<open>The cache beside the file\<close>

text \<open>What \<open>tableIO.c\<close> and \<open>bplus.c\<close> do with the cache while the file changes: a node read from the file is
  offered, a node written to the file is updated, a node deleted from it is removed, and a new root clears
  the cache.\<close>

inductive cache_step :: "node_cache \<times> (address \<rightharpoonup> node) \<Rightarrow> node_cache \<times> (address \<rightharpoonup> node) \<Rightarrow> bool" where
  cs_get: "a \<noteq> 0 \<Longrightarrow> nodeCacheGet c a = Some (r, c') \<Longrightarrow> cache_step (c, file) (c', file)"
| cs_read: "file a = Some n \<Longrightarrow> nodeCacheOffer c a n root = Some (b, c') \<Longrightarrow> cache_step (c, file) (c', file)"
| cs_write: "a \<noteq> 0 \<Longrightarrow> nodeCacheUpdate c a n = Some (b, c') \<Longrightarrow> cache_step (c, file) (c', file(a \<mapsto> n))"
| cs_delete: "a \<noteq> 0 \<Longrightarrow> nodeCacheRemove c a = Some (b, c') \<Longrightarrow> cache_step (c, file) (c', file(a := None))"
| cs_new_root: "cache_step (c, file) (nodeCacheClear c, file)"

definition cache_ok :: "node_cache \<Rightarrow> (address \<rightharpoonup> node) \<Rightarrow> bool" where
  "cache_ok c file \<longleftrightarrow> wf_cache c \<and> nc_map c \<subseteq>\<^sub>m file"

lemma cache_step_ok:
  assumes "cache_step (c, file) (c', file')" "cache_ok c file"
  shows "cache_ok c' file'"
  using assms(1)
proof (cases rule: cache_step.cases)
  case (cs_get a r)
  with nodeCacheGet_map [of c a] assms(2) show ?thesis by (auto simp: cache_ok_def)
next
  case (cs_read a n root b)
  obtain b' where b': "b' = (slotCount c \<noteq> 0 \<and> a \<noteq> 0 \<and> root \<noteq> 0 \<and> (a = root \<or> parent n = root) \<and>
      (nc_map c a \<noteq> None \<or> nc_count c < maxNodes c))" by simp
  from nodeCacheOffer_map [OF _ b'] cs_read assms(2) show ?thesis
    by (auto simp: cache_ok_def map_le_def split: if_splits)
next
  case (cs_write a n b)
  with nodeCacheUpdate_map [of c a n] assms(2) show ?thesis
    by (auto simp: cache_ok_def map_le_def domIff split: if_splits)
next
  case (cs_delete a b)
  with nodeCacheRemove_map [of c a] assms(2) show ?thesis
    by (auto simp: cache_ok_def map_le_def)
next
  case cs_new_root
  with nodeCacheClear_map [of c] assms(2) show ?thesis by (auto simp: cache_ok_def)
qed

section \<open>Properties\<close>

text \<open>C23: Cache coherence. However lookups, reads from the file, writes to it, deletions from it and changes of
  root follow each other, a lookup in the cache always returns (its probing loop ends), and what it returns
  is what the file holds at that address at that moment.\<close>

theorem cache_coherent:
  assumes "mx \<le> 2 ^ 30" "cache_step\<^sup>*\<^sup>* (nodeCacheInit mx, file0) (c, file)" "a \<noteq> 0"
  shows "\<exists>r c'. nodeCacheGet c a = Some (r, c') \<and> (\<forall>n. r = Some n \<longrightarrow> file a = Some n)"
proof -
  have "cache_ok (fst s) (snd s)" if "cache_step\<^sup>*\<^sup>* (nodeCacheInit mx, file0) s" for s
    using that
  proof (induction rule: rtranclp_induct)
    case base
    then show ?case using nodeCacheInit_wf [OF assms(1)] by (simp add: cache_ok_def)
  next
    case (step s t)
    then show ?case using cache_step_ok [of "fst s" "snd s" "fst t" "snd t"] by simp
  qed
  from this [OF assms(2)] have ok: "wf_cache c" "nc_map c \<subseteq>\<^sub>m file" by (simp_all add: cache_ok_def)
  from nodeCacheGet_map [OF ok(1) assms(3)] obtain c' where "nodeCacheGet c a = Some (nc_map c a, c')" by blast
  moreover have "nc_map c a = Some n \<Longrightarrow> file a = Some n" for n
    using ok(2) unfolding map_le_def by (metis domI)
  ultimately show ?thesis by blast
qed

definition ex_root :: node where "ex_root = zero_node\<lparr>childCount := 2\<rparr>"

theorem cache_coherent_witness:
  "\<exists>c r c'. cache_step\<^sup>*\<^sup>* (nodeCacheInit 2, [68 \<mapsto> zero_node]) (c, [68 \<mapsto> ex_root]) \<and>
     nodeCacheGet c 68 = Some (r, c') \<and> r = Some ex_root"
proof -
  define c1 where "c1 = snd (the (nodeCacheOffer (nodeCacheInit 2) 68 zero_node 68))"
  define c2 where "c2 = snd (the (nodeCacheUpdate c1 68 ex_root))"
  have w0: "wf_cache (nodeCacheInit 2)" "nc_map (nodeCacheInit 2) = Map.empty" using nodeCacheInit_wf [of 2] by simp_all
  have b: "True = (slotCount (nodeCacheInit 2) \<noteq> 0 \<and> (68::address) \<noteq> 0 \<and> (68::address) \<noteq> 0 \<and> ((68::address) = 68 \<or> parent zero_node = 68) \<and>
      (nc_map (nodeCacheInit 2) 68 \<noteq> None \<or> nc_count (nodeCacheInit 2) < maxNodes (nodeCacheInit 2)))"
    by (simp add: nodeCacheInit_def Let_def slotCount_loop.simps zero_cache_def)
  obtain b1: "nodeCacheOffer (nodeCacheInit 2) 68 zero_node 68 = Some (True, c1)" and w1: "wf_cache c1" "nc_map c1 = [68 \<mapsto> zero_node]"
    using nodeCacheOffer_map [OF w0(1) b] w0(2) by (auto simp: c1_def)
  obtain b2: "nodeCacheUpdate c1 68 ex_root = Some (True, c2)" and w2: "wf_cache c2" "nc_map c2 = [68 \<mapsto> ex_root]"
    using nodeCacheUpdate_map [OF w1(1), of 68 ex_root] w1(2) by (auto simp: c2_def)
  have "cache_step (nodeCacheInit 2, [68 \<mapsto> zero_node]) (c1, [68 \<mapsto> zero_node])"
    by (rule cache_step.cs_read [OF _ b1]) simp
  moreover have "cache_step (c1, [68 \<mapsto> zero_node]) (c2, [68 \<mapsto> ex_root])"
    using cache_step.cs_write [OF _ b2, of "[68 \<mapsto> zero_node]"] by simp
  ultimately have steps: "cache_step\<^sup>*\<^sup>* (nodeCacheInit 2, [68 \<mapsto> zero_node]) (c2, [68 \<mapsto> ex_root])" by auto
  from cache_coherent [OF _ this, of 68] obtain r c' where r: "nodeCacheGet c2 68 = Some (r, c')" by auto
  moreover have "r = Some ex_root" using nodeCacheGet_map [OF w2(1), of 68] w2(2) r by auto
  ultimately show ?thesis using steps by blast
qed

end
