(* ===== verification/Crc.thy ===== *)
theory Crc
  imports Prelude
begin

text \<open>
  The CRC-32C checksum of \<open>storage_engine/wal.c\<close>: the table of 256 words and the loop that folds a buffer
  through it. The specification is the bit-serial checksum, one shift and one conditional exclusive-or with
  the polynomial for each bit. A change of one byte always changes the checksum.
\<close>

section \<open>The code\<close>

definition POLY_CRC32C :: u32 where "POLY_CRC32C = 0x82F63B78"

text \<open>The body of the inner loop of \<open>crc32c_init_table\<close>.\<close>

definition crc_step :: "u32 \<Rightarrow> u32" where
  "crc_step crc = (if crc AND 1 \<noteq> 0 then drop_bit 1 crc XOR POLY_CRC32C else drop_bit 1 crc)"

definition crc32c_init_table :: "u32 list" where
  "crc32c_init_table = map (\<lambda>i. fold (\<lambda>j crc. crc_step crc) [0..<8] (of_nat i)) [0..<256]"

definition crc32c_compute :: "u32 \<Rightarrow> byte list \<Rightarrow> u32" where
  "crc32c_compute crc data =
     NOT (fold (\<lambda>b crc. let table_index = ucast (crc XOR ucast b) :: byte
                        in drop_bit 8 crc XOR crc32c_init_table ! unat table_index) data (NOT crc))"

section \<open>The bit-serial checksum\<close>

definition crc_bits :: "u32 \<Rightarrow> u32" where
  "crc_bits = crc_step ^^ 8"

definition crc_byte :: "byte \<Rightarrow> u32 \<Rightarrow> u32" where
  "crc_byte b crc = crc_bits (crc XOR ucast b)"

definition crc_reference :: "u32 \<Rightarrow> byte list \<Rightarrow> u32" where
  "crc_reference crc data = NOT (fold crc_byte data (NOT crc))"

lemma crc_step_bit: "crc_step w = drop_bit 1 w XOR (if bit w 0 then POLY_CRC32C else 0)"
proof -
  have "(w AND 1 \<noteq> 0) = bit w 0" by (simp add: and_one_eq odd_iff_mod_2_eq_one [symmetric] bit_0)
  then show ?thesis by (simp add: crc_step_def)
qed

lemma crc_step_xor: "crc_step (v XOR w) = crc_step v XOR crc_step w"
  by (rule bit_word_eqI) (auto simp: crc_step_bit bit_simps)

lemma crc_bits_xor: "crc_bits (v XOR w) = crc_bits v XOR crc_bits w"
proof -
  have "(crc_step ^^ n) (v XOR w) = (crc_step ^^ n) v XOR (crc_step ^^ n) w" for n
    by (induction n) (simp_all add: crc_step_xor)
  then show ?thesis by (simp add: crc_bits_def)
qed

lemma crc_steps_high:
  assumes "\<forall>k < n. \<not> bit w k" shows "(crc_step ^^ n) w = drop_bit n w"
  using assms
proof (induction n)
  case (Suc n)
  then have "(crc_step ^^ Suc n) w = crc_step (drop_bit n w)" by simp
  also have "\<dots> = drop_bit 1 (drop_bit n w)" using Suc.prems by (simp add: crc_step_bit bit_drop_bit_eq)
  finally show ?case by (simp add: drop_bit_drop_bit)
qed simp

lemma bit_0xFF: "bit (0xFF :: u32) n = (n < 8)"
proof -
  have e: "(0xFF :: u32) = mask 8" by (simp add: mask_eq_exp_minus_1)
  show ?thesis unfolding e bit_mask_iff by (auto dest: less_le_trans)
qed

lemma low_byte_split: "w = (w AND 0xFF) XOR (push_bit 8 (drop_bit 8 w))" for w :: u32
proof (rule bit_word_eqI)
  fix n assume "n < LENGTH(32)"
  then show "bit w n = bit ((w AND 0xFF) XOR (push_bit 8 (drop_bit 8 w))) n"
    unfolding bit_xor_iff bit_and_iff bit_0xFF by (auto simp: bit_push_bit_iff bit_drop_bit_eq)
qed

lemma crc_bits_split: "crc_bits w = drop_bit 8 w XOR crc_bits (w AND 0xFF)"
proof -
  have "crc_bits (push_bit 8 (drop_bit 8 w)) = drop_bit 8 (push_bit 8 (drop_bit 8 w))"
    unfolding crc_bits_def by (rule crc_steps_high) (simp add: bit_push_bit_iff)
  also have "\<dots> = drop_bit 8 w"
    by (rule bit_word_eqI) (auto simp: bit_simps dest: bit_imp_le_length)
  finally show ?thesis
    by (metis crc_bits_xor low_byte_split xor.commute)
qed

lemma table_nth: "i < 256 \<Longrightarrow> crc32c_init_table ! i = crc_bits (of_nat i)"
proof -
  have "fold (\<lambda>j crc. crc_step crc) [0..<n] w = (crc_step ^^ n) w" for n w
    by (induction n) simp_all
  then show "i < 256 \<Longrightarrow> crc32c_init_table ! i = crc_bits (of_nat i)"
    by (simp add: crc32c_init_table_def crc_bits_def)
qed

lemma crc_byte_table:
  "drop_bit 8 crc XOR crc32c_init_table ! unat (ucast (crc XOR ucast b) :: byte) = crc_byte b crc"
proof -
  have "of_nat (unat (ucast (crc XOR ucast b) :: byte)) = (crc XOR ucast b) AND (0xFF :: u32)"
  proof (rule bit_word_eqI)
    fix n assume "n < LENGTH(32)"
    then show "bit (of_nat (unat (ucast (crc XOR ucast b) :: byte)) :: u32) n = bit ((crc XOR ucast b) AND (0xFF :: u32)) n"
      unfolding bit_and_iff bit_0xFF by (auto simp: bit_simps)
  qed
  moreover have "unat (ucast (crc XOR ucast b) :: byte) < 256" using unsigned_less [of "ucast (crc XOR ucast b) :: byte"] by simp
  ultimately have "crc32c_init_table ! unat (ucast (crc XOR ucast b) :: byte) = crc_bits ((crc XOR ucast b) AND 0xFF)"
    by (simp add: table_nth)
  moreover have "drop_bit 8 (crc XOR ucast b) = drop_bit 8 crc"
    by (rule bit_word_eqI) (auto simp: bit_simps dest: bit_imp_le_length)
  ultimately show ?thesis by (simp add: crc_byte_def crc_bits_split [of "crc XOR ucast b"])
qed

lemma crc32c_reference: "crc32c_compute crc data = crc_reference crc data"
  by (simp add: crc32c_compute_def crc_reference_def Let_def crc_byte_table)

section \<open>One changed byte\<close>

lemma crc_step_inj: "crc_step v = crc_step w \<Longrightarrow> v = w"
proof -
  assume "crc_step v = crc_step w"
  then have "crc_step v XOR crc_step w = 0" by simp
  then have z: "crc_step (v XOR w) = 0" by (simp add: crc_step_xor)
  let ?d = "v XOR w"
  have "bit POLY_CRC32C 31" by code_simp
  moreover have "\<not> bit (drop_bit 1 ?d) 31" unfolding bit_drop_bit_eq by (auto dest: bit_imp_le_length)
  ultimately have b31: "bit (crc_step ?d) 31 = bit ?d 0" by (simp add: crc_step_bit bit_xor_iff)
  then have "\<not> bit ?d 0" using z by simp
  with z have "drop_bit 1 ?d = 0" by (simp add: crc_step_bit)
  have "\<not> bit ?d n" for n
  proof (cases n)
    case (Suc k)
    have "bit (drop_bit 1 ?d) k = bit ?d (Suc k)" unfolding bit_drop_bit_eq by simp
    with \<open>drop_bit 1 ?d = 0\<close> Suc show ?thesis by simp
  qed (use \<open>\<not> bit ?d 0\<close> in simp)
  then have "?d = 0" by (simp add: bit_eq_iff)
  then have "v XOR (v XOR w) = v" by simp
  then show "v = w" by (simp add: xor.assoc [symmetric])
qed

lemma crc_bits_inj: "crc_bits v = crc_bits w \<Longrightarrow> v = w"
proof -
  have "(crc_step ^^ n) v = (crc_step ^^ n) w \<Longrightarrow> v = w" for n
    by (induction n) (auto dest: crc_step_inj)
  then show "crc_bits v = crc_bits w \<Longrightarrow> v = w" by (simp add: crc_bits_def)
qed

lemma xor_cancel_left: "(a XOR b = a XOR c) = (b = c)" for a b c :: "'a::len word"
  by (metis xor.assoc xor_self_eq xor.left_neutral)

lemma crc_byte_inj: "crc_byte b v = crc_byte b w \<Longrightarrow> v = w"
  by (metis crc_byte_def crc_bits_inj xor_cancel_left xor.commute)

lemma crc_byte_inj_data: "crc_byte b w = crc_byte c w \<Longrightarrow> b = c"
proof -
  assume "crc_byte b w = crc_byte c w"
  then have "ucast b = (ucast c :: u32)" by (metis crc_byte_def crc_bits_inj xor_cancel_left)
  then have bits: "bit (ucast b :: u32) n = bit (ucast c :: u32) n" for n by simp
  show "b = c"
  proof (rule bit_word_eqI)
    fix n assume "n < LENGTH(8)"
    then show "bit b n = bit c n" using bits [of n] by (simp add: bit_ucast_iff)
  qed
qed

lemma crc_fold_inj: "fold crc_byte data v = fold crc_byte data w \<Longrightarrow> v = w"
  by (induction data arbitrary: v w) (auto dest: crc_byte_inj)

lemma crc_one_byte:
  assumes "b \<noteq> c" shows "crc32c_compute crc (xs @ b # ys) \<noteq> crc32c_compute crc (xs @ c # ys)"
proof
  assume "crc32c_compute crc (xs @ b # ys) = crc32c_compute crc (xs @ c # ys)"
  then have "fold crc_byte (xs @ b # ys) (NOT crc) = fold crc_byte (xs @ c # ys) (NOT crc)"
    by (simp add: crc32c_reference crc_reference_def)
  then have "crc_byte b (fold crc_byte xs (NOT crc)) = crc_byte c (fold crc_byte xs (NOT crc))"
    using crc_fold_inj by simp
  with assms show False using crc_byte_inj_data by blast
qed

section \<open>Properties\<close>

text \<open>C21: The table-driven CRC of the write-ahead log is the bit-serial CRC-32C, for every buffer and every
  starting value; and two buffers that differ in exactly one byte never have the same checksum.\<close>

theorem crc_correct:
  fixes crc :: u32 and data :: "byte list" and i :: nat and b :: byte
  shows "crc32c_compute crc data = crc_reference crc data \<and>
   (i < length data \<longrightarrow> b \<noteq> data ! i \<longrightarrow> crc32c_compute crc (data[i := b]) \<noteq> crc32c_compute crc data)"
proof -
  have "crc32c_compute crc (data[i := b]) \<noteq> crc32c_compute crc data" if "i < length data" "b \<noteq> data ! i"
    using crc_one_byte [OF that(2), of crc "take i data" "drop (Suc i) data"] that(1)
    by (simp add: upd_conv_take_nth_drop id_take_nth_drop [symmetric])
  then show ?thesis by (simp add: crc32c_reference)
qed

theorem crc_correct_witness:
  "crc32c_compute 0 [1, 2, 9] \<noteq> crc32c_compute 0 [1, 2, 3]"
  using crc_correct [of 0 "[1, 2, 3]" 2 9, THEN conjunct2] by simp

end
