(* ===== verification/Files.thy ===== *)
theory Files
  imports Prelude
begin

text \<open>
  Files as the C library shows them to the storage engine: a directory maps names to contents, a write at an
  offset past the end first extends the file with zeros. Two facts about sequences of writes carry the crash
  proofs: a byte that a later write covers does not matter, and neither does the length a write reaches.
\<close>

type_synonym fname = "byte list"
type_synonym files = "fname \<rightharpoonup> byte list"

text \<open>\<open>fseek(f, off)\<close> and \<open>fwrite(data)\<close>.\<close>

definition write_at :: "byte list \<Rightarrow> nat \<Rightarrow> byte list \<Rightarrow> byte list" where
  "write_at bs off data =
     (if data = [] then bs
      else take off bs @ replicate (off - length bs) 0 @ data @ drop (off + length data) bs)"

definition byte_at :: "byte list \<Rightarrow> nat \<Rightarrow> byte" where
  "byte_at bs i = (if i < length bs then bs ! i else 0)"

lemma length_write_at:
  "length (write_at bs off data) = (if data = [] then length bs else max (length bs) (off + length data))"
  by (auto simp: write_at_def)

lemma byte_at_write_at:
  "byte_at (write_at bs off data) i = (if off \<le> i \<and> i < off + length data then data ! (i - off) else byte_at bs i)"
proof (cases "data = []")
  case False
  have "off - length bs + min (length bs) off = off" by (simp add: min_def)
  with False show ?thesis
    by (auto simp: byte_at_def write_at_def nth_append less_diff_conv2 add.commute)
qed (auto simp: write_at_def)

lemma file_eqI: "length xs = length ys \<Longrightarrow> (\<And>i. byte_at xs i = byte_at ys i) \<Longrightarrow> xs = ys"
  by (rule nth_equalityI) (auto simp: byte_at_def split: if_splits, metis)

lemma write_at_in: "off + length data \<le> length bs \<Longrightarrow> write_at bs off data = blit bs off data"
  by (auto simp: write_at_def blit_def)

section \<open>Sequences of writes\<close>

definition write_all :: "(nat \<times> byte list) list \<Rightarrow> byte list \<Rightarrow> byte list" where
  "write_all ws bs = fold (\<lambda>(off, data) bs. write_at bs off data) ws bs"

definition covers :: "(nat \<times> byte list) list \<Rightarrow> nat \<Rightarrow> bool" where
  "covers ws i \<longleftrightarrow> (\<exists>(off, data) \<in> set ws. off \<le> i \<and> i < off + length data)"

definition reach :: "(nat \<times> byte list) list \<Rightarrow> nat" where
  "reach ws = fold max (map (\<lambda>(off, data). if data = [] then 0 else off + length data) ws) 0"

lemma write_all_simps [simp]:
  "write_all [] bs = bs" "write_all ((off, data) # ws) bs = write_all ws (write_at bs off data)"
  by (simp_all add: write_all_def)

lemma write_all_append: "write_all (vs @ ws) bs = write_all ws (write_all vs bs)"
  by (simp add: write_all_def)

lemma covers_Cons: "covers ((off, data) # ws) i = ((off \<le> i \<and> i < off + length data) \<or> covers ws i)"
  by (simp add: covers_def)

lemma fold_max_start: "fold max xs (a::nat) = max a (fold max xs 0)"
proof (induction xs arbitrary: a)
  case (Cons x xs)
  have "fold max xs (max x a) = max (max x a) (fold max xs 0)" by (rule Cons)
  moreover have "fold max xs (max x 0) = max (max x 0) (fold max xs 0)" by (rule Cons)
  ultimately show ?case by (simp add: max.assoc max.commute max.left_commute)
qed simp

lemma reach_Cons: "reach ((off, data) # ws) = max (if data = [] then 0 else off + length data) (reach ws)"
  using fold_max_start [of "map (\<lambda>(off, data). if data = [] then 0 else off + length data) ws" "max (if data = [] then 0 else off + length data) 0"]
  by (simp add: reach_def)

lemma covers_reach: "covers ws i \<Longrightarrow> i < reach ws"
proof (induction ws)
  case (Cons w ws)
  then show ?case by (cases w) (auto simp: covers_Cons reach_Cons)
qed (simp add: covers_def)

text \<open>Contents that agree wherever the writes will not reach, as a crash during the writes leaves them.\<close>

definition torn :: "(nat \<times> byte list) list \<Rightarrow> byte list \<Rightarrow> byte list \<Rightarrow> bool" where
  "torn ws bs bs' \<longleftrightarrow> (\<forall>i. covers ws i \<or> byte_at bs' i = byte_at bs i) \<and>
     max (length bs') (reach ws) = max (length bs) (reach ws)"

lemma torn_write:
  "torn ((off, data) # ws) bs bs' \<Longrightarrow> torn ws (write_at bs off data) (write_at bs' off data)"
  by (auto simp: torn_def covers_Cons reach_Cons byte_at_write_at length_write_at max.assoc max.left_commute split: if_splits)

lemma torn_done: "torn ws bs bs' \<Longrightarrow> write_all ws bs' = write_all ws bs"
proof (induction ws arbitrary: bs bs')
  case Nil
  then show ?case by (auto simp: torn_def covers_def reach_def intro!: file_eqI)
next
  case (Cons w ws)
  obtain off data where w: "w = (off, data)" by (cases w)
  show ?case unfolding w write_all_simps by (rule Cons.IH [OF torn_write [OF Cons.prems [unfolded w]]])
qed

lemma torn_refl [simp]: "torn ws bs bs"
  by (simp add: torn_def)

text \<open>And so is one in which some of the writes were made, cut short or left other bytes in their place.\<close>

lemma torn_damage:
  assumes t: "torn ws bs bs'" and "(off, data) \<in> set ws" "length junk \<le> length data"
  shows "torn ws bs (write_at bs' off junk)"
proof (cases "junk = []")
  case False
  have c: "covers ws i" if "off \<le> i" "i < off + length junk" for i
    using that assms(2,3) by (auto simp: covers_def intro!: bexI [of _ "(off, data)"])
  have "covers ws (off + (length junk - 1))" using False by (intro c) (cases junk; simp)+
  from covers_reach [OF this] have r: "off + length junk \<le> reach ws" using False by (cases junk) simp_all
  have "covers ws i \<or> byte_at (write_at bs' off junk) i = byte_at bs i" for i
    using t c [of i] by (auto simp: torn_def byte_at_write_at)
  moreover have "max (length (write_at bs' off junk)) (reach ws) = max (length bs) (reach ws)"
    using t r False by (simp add: torn_def length_write_at max.assoc max_absorb2)
  ultimately show ?thesis by (simp add: torn_def)
qed (use t in \<open>simp add: write_at_def\<close>)

end
