(* ===== verification/Wal.thy ===== *)
theory Wal
  imports Bytes Crc Files
begin

text \<open>
  \<open>storage_engine/wal.c\<close>: the redo log. A log file is a sequence of entries of \<open>WAL_ENTRY_DISK_SIZE\<close> bytes, one
  for each write to be made, and a commit marker. The first part models the codec of entries and the operations
  of the log manager on the log file; what each \<open>fopen\<close>, \<open>fseek\<close>, \<open>ftell\<close>, \<open>fread\<close>, \<open>fwrite\<close> and sync did is an
  argument (the number of bytes written, whether it succeeded), so every error path is there. The second part is recovery.

  The manager's log file is \<open>logFile\<close> with everything written so far, of which the first \<open>logSynced\<close> bytes are
  durable; \<open>logNamed\<close> says whether the directory entry that names it is.
\<close>

section \<open>Data (wal.h)\<close>

definition WAL_MAGIC :: u32 where "WAL_MAGIC = 0x10549800"
definition WAL_MAGIC_MASK :: u32 where "WAL_MAGIC_MASK = 0xFFFFFF00"
definition WAL_COMMIT_TAG :: u32 where "WAL_COMMIT_TAG = 0x434F4D54"
definition WAL_FILE_NAME_LEN :: nat where "WAL_FILE_NAME_LEN = 260"
definition WAL_PAYLOAD_LEN :: nat where "WAL_PAYLOAD_LEN = 4096"    \<comment> \<open>\<open>PAGE_SIZE\<close>\<close>
definition WAL_ENTRY_DISK_SIZE :: nat where "WAL_ENTRY_DISK_SIZE = 4 + 4 + WAL_FILE_NAME_LEN + 8 + 2 + WAL_PAYLOAD_LEN + 4"
definition WAL_COMMIT_DISK_SIZE :: nat where "WAL_COMMIT_DISK_SIZE = 16"
definition ENTRY_CHECKSUM_OFFSET :: nat where "ENTRY_CHECKSUM_OFFSET = WAL_ENTRY_DISK_SIZE - 4"
definition TRANS_ID_SEED :: u32 where "TRANS_ID_SEED = 0x09410293"
definition TRANS_ID_MULTIPLIER :: u64 where "TRANS_ID_MULTIPLIER = 1007683"
definition TRANS_ID_INCREMENT :: u64 where "TRANS_ID_INCREMENT = 54321"
definition TRANS_ID_MOD :: u64 where "TRANS_ID_MOD = 0x7FFFFFFF"

lemmas wal_sizes = WAL_FILE_NAME_LEN_def WAL_PAYLOAD_LEN_def WAL_ENTRY_DISK_SIZE_def WAL_COMMIT_DISK_SIZE_def
  ENTRY_CHECKSUM_OFFSET_def

datatype wal_object_type = WAL_PAGE | WAL_NODE | WAL_META | WAL_DELETE | WAL_FILE_DATA | WAL_FILE_CREATE | WAL_FILE_REMOVE

fun type_code :: "wal_object_type \<Rightarrow> u32" where
  "type_code WAL_PAGE = 1" | "type_code WAL_NODE = 2" | "type_code WAL_META = 3" | "type_code WAL_DELETE = 4"
| "type_code WAL_FILE_DATA = 5" | "type_code WAL_FILE_CREATE = 6" | "type_code WAL_FILE_REMOVE = 7"

record wal_entry =
  emagic :: u32
  etrans :: u32
  efile :: "byte list"
  eaddr :: u64
  epayloadLen :: u16
  epayload :: "byte list"
  echecksum :: u32

record wal_manager =
  mentry :: wal_entry
  numEntries :: u32
  transID :: u32
  seeded :: bool
  logOpen :: bool
  logFile :: "byte list option"
  logSynced :: nat
  logNamed :: bool

section \<open>Entries\<close>

definition getTransID :: "u32 \<Rightarrow> u32" where
  "getTransID xn = ucast ((ucast xn * TRANS_ID_MULTIPLIER + TRANS_ID_INCREMENT) mod TRANS_ID_MOD)"

definition initEntry :: "u32 \<Rightarrow> wal_entry \<Rightarrow> wal_entry" where
  "initEntry tid e = e\<lparr>emagic := WAL_MAGIC, etrans := tid, epayloadLen := 0\<rparr>"

text \<open>\<open>None\<close> when the payload or the name is too long. Names are C strings without their NUL.\<close>

definition buildEntry :: "wal_entry \<Rightarrow> fname \<Rightarrow> wal_object_type \<Rightarrow> address \<Rightarrow> byte list \<Rightarrow> u16 \<Rightarrow> wal_entry option" where
  "buildEntry e fileName ty addr bytes len =
     (if unat len > WAL_PAYLOAD_LEN \<or> length fileName \<ge> WAL_FILE_NAME_LEN then None
      else Some (e\<lparr>emagic := WAL_MAGIC OR type_code ty,
                   efile := blit (replicate WAL_FILE_NAME_LEN 0) 0 fileName,
                   eaddr := addr, epayloadLen := len,
                   epayload := (if unat len > 0 then blit (epayload e) 0 (take (unat len) bytes) else epayload e)\<rparr>))"

definition serializeEntry :: "wal_entry \<Rightarrow> byte list" where
  "serializeEntry e =
     (let buf = replicate WAL_ENTRY_DISK_SIZE 0;
          buf = writeUIntBytewise buf 0 (emagic e);
          buf = writeUIntBytewise buf 4 (etrans e);
          buf = blit buf 8 (efile e);
          buf = writeULongBytewise buf (8 + WAL_FILE_NAME_LEN) (eaddr e);
          buf = writeUShortBytewise buf (8 + WAL_FILE_NAME_LEN + 8) (epayloadLen e);
          buf = blit buf (8 + WAL_FILE_NAME_LEN + 10) (take (unat (epayloadLen e)) (epayload e));
          crc = crc32c_compute 0 (take ENTRY_CHECKSUM_OFFSET buf)
      in writeUIntBytewise buf ENTRY_CHECKSUM_OFFSET crc)"

text \<open>What the parser stores in the entry, also when it then refuses it.\<close>

definition entry_fields :: "byte list \<Rightarrow> wal_entry" where
  "entry_fields buf =
     \<lparr>emagic = readUIntBytewise buf 0, etrans = readUIntBytewise buf 4,
      efile = segment buf 8 WAL_FILE_NAME_LEN,
      eaddr = readULongBytewise buf (8 + WAL_FILE_NAME_LEN),
      epayloadLen = readUShortBytewise buf (8 + WAL_FILE_NAME_LEN + 8),
      epayload = segment buf (8 + WAL_FILE_NAME_LEN + 10) WAL_PAYLOAD_LEN,
      echecksum = readUIntBytewise buf ENTRY_CHECKSUM_OFFSET\<rparr>"

definition parseEntry :: "byte list \<Rightarrow> wal_entry option" where
  "parseEntry buf =
     (let e = entry_fields buf;
          ty = emagic e AND NOT WAL_MAGIC_MASK
      in if emagic e AND WAL_MAGIC_MASK \<noteq> WAL_MAGIC \<or> ty < type_code WAL_PAGE \<or> ty > type_code WAL_FILE_REMOVE then None
         else if unat (epayloadLen e) > WAL_PAYLOAD_LEN \<or> efile e ! (WAL_FILE_NAME_LEN - 1) \<noteq> 0 then None
         else if echecksum e = crc32c_compute 0 (take ENTRY_CHECKSUM_OFFSET buf) then Some e else None)"

section \<open>The log manager\<close>

text \<open>The results of the calls that start a transaction: \<open>fopen\<close> for reading, \<open>fopen\<close> for appending, the two syncs of a new
  log, \<open>fseek\<close> and \<open>ftell\<close>.\<close>

record start_calls =
  probeOpened :: bool
  logOpened :: bool
  logSyncedNew :: bool
  logDirSynced :: bool
  logSeeked :: bool
  logTold :: bool

text \<open>\<open>fopen\<close> in mode \<open>"ab"\<close> (which creates the file) and \<open>"wb"\<close> (which empties it); opening for reading
  fails when there is no file.\<close>

definition openLog_append :: "bool \<Rightarrow> wal_manager \<Rightarrow> bool \<times> wal_manager" where
  "openLog_append opened m =
     (if \<not> opened then (False, m)
      else (True, m\<lparr>logOpen := True, logFile := Some (case logFile m of None \<Rightarrow> [] | Some bs \<Rightarrow> bs),
                    logNamed := (logFile m \<noteq> None \<and> logNamed m)\<rparr>))"

definition openLog_empty :: "bool \<Rightarrow> wal_manager \<Rightarrow> bool \<times> wal_manager" where
  "openLog_empty opened m =
     (if \<not> opened then (False, m)
      else (True, m\<lparr>logOpen := True, logFile := Some [], logSynced := 0\<rparr>))"

definition syncLog :: "bool \<Rightarrow> wal_manager \<Rightarrow> bool \<times> wal_manager" where
  "syncLog ok m = (ok, if ok then m\<lparr>logSynced := length (case logFile m of None \<Rightarrow> [] | Some bs \<Rightarrow> bs)\<rparr> else m)"

definition ensureLogOpen :: "start_calls \<Rightarrow> wal_manager \<Rightarrow> bool \<times> wal_manager" where
  "ensureLogOpen x m =
     (if logOpen m then (True, m)
      else let exists = (probeOpened x \<and> logFile m \<noteq> None); (ok, m1) = openLog_append (logOpened x) m
           in if \<not> ok then (False, m1)
              else if exists then (True, m1)
              else let (s, m2) = syncLog (logSyncedNew x) m1
                   in if \<not> s then (False, m2)
                      else if \<not> logDirSynced x then (False, m2)
                      else (True, m2\<lparr>logNamed := True\<rparr>))"

definition initManager :: "start_calls \<Rightarrow> wal_manager \<Rightarrow> bool \<times> wal_manager" where
  "initManager x m =
     (let (ok, m1) = ensureLogOpen x m
      in if \<not> ok then (False, m1)
         else if \<not> logSeeked x \<or> \<not> logTold x \<or> logFile m1 \<noteq> Some [] then (False, m1)
         else let tid = (if seeded m1 then getTransID (transID m1) else TRANS_ID_SEED)
              in (True, m1\<lparr>transID := tid, seeded := True, numEntries := 0, mentry := initEntry tid (mentry m1)\<rparr>))"

text \<open>\<open>wrote\<close> is what \<open>fwrite\<close> returned.\<close>

definition append_log :: "byte list \<Rightarrow> wal_manager \<Rightarrow> wal_manager" where
  "append_log bs m = m\<lparr>logFile := Some ((case logFile m of None \<Rightarrow> [] | Some l \<Rightarrow> l) @ bs)\<rparr>"

definition addLogEntry :: "nat \<Rightarrow> fname \<Rightarrow> wal_object_type \<Rightarrow> address \<Rightarrow> byte list \<Rightarrow> u16 \<Rightarrow> wal_manager \<Rightarrow> bool \<times> wal_manager" where
  "addLogEntry wrote fileName ty addr bytes len m =
     (if \<not> logOpen m then (False, m)
      else case buildEntry (mentry m) fileName ty addr bytes len of None \<Rightarrow> (False, m)
      | Some e \<Rightarrow>
          let buf = serializeEntry e; m1 = append_log (take wrote buf) (m\<lparr>mentry := e\<rparr>)
          in if wrote < WAL_ENTRY_DISK_SIZE then (False, m1) else (True, m1\<lparr>numEntries := numEntries m1 + 1\<rparr>))"

definition commit_marker :: "u32 \<Rightarrow> u32 \<Rightarrow> byte list" where
  "commit_marker count tid =
     (let marker = replicate WAL_COMMIT_DISK_SIZE 0;
          marker = writeUIntBytewise marker 0 WAL_COMMIT_TAG;
          marker = writeUIntBytewise marker 4 count;
          marker = writeUIntBytewise marker 8 tid
      in writeUIntBytewise marker 12 (crc32c_compute 0 (take 12 marker)))"

definition markLogCommitted :: "bool \<Rightarrow> nat \<Rightarrow> bool \<Rightarrow> wal_manager \<Rightarrow> bool \<times> wal_manager" where
  "markLogCommitted synced1 wrote synced2 m =
     (if \<not> logOpen m then (False, m)
      else let (ok, m1) = syncLog synced1 m
           in if \<not> ok then (False, m1)
              else let m2 = append_log (take wrote (commit_marker (numEntries m1) (transID m1))) m1
                   in if wrote < WAL_COMMIT_DISK_SIZE then (False, m2) else syncLog synced2 m2)"

definition resetLog :: "bool \<Rightarrow> bool \<Rightarrow> wal_manager \<Rightarrow> bool \<times> wal_manager" where
  "resetLog opened synced m =
     (let (ok, m1) = openLog_empty opened (m\<lparr>logOpen := False\<rparr>)
      in if \<not> ok then (False, m1) else syncLog synced m1)"

section \<open>Recovery\<close>

text \<open>The results of the calls of one recovery: opening the log; the seek and \<open>ftell\<close> that measure it, for each of the two
  checks; the seek to the marker and its read; the seek and read of each entry, in the first pass and in the second; what the
  calls on an entry's file did; the sync of the directory; opening and syncing the log that is reset.\<close>

type_synonym outcome = "nat option"

record recover_calls =
  logFound :: bool
  sizeSeen :: bool
  sizeFound :: bool
  markerRead :: bool
  firstRead :: "nat \<Rightarrow> bool"
  secondRead :: "nat \<Rightarrow> bool"
  applyOuts :: "nat \<Rightarrow> outcome"
  applyDirSynced :: bool
  logReopened :: bool
  logResynced :: bool

text \<open>The manager's entry is what was read into it last: a failed seek or read leaves it as it was (\<open>got\<close> is whether both
  succeeded), an entry that is refused has been stored in it.\<close>

definition readEntry :: "bool \<Rightarrow> byte list \<Rightarrow> nat \<Rightarrow> wal_entry \<Rightarrow> bool \<times> wal_entry" where
  "readEntry got log index e =
     (if \<not> got \<or> length log < index * WAL_ENTRY_DISK_SIZE + WAL_ENTRY_DISK_SIZE then (False, e)
      else let buf = segment log (index * WAL_ENTRY_DISK_SIZE) WAL_ENTRY_DISK_SIZE
           in (case parseEntry buf of None \<Rightarrow> (False, entry_fields buf) | Some e' \<Rightarrow> (True, e')))"

text \<open>The C string in the entry's name field.\<close>

definition entry_name :: "wal_entry \<Rightarrow> fname" where
  "entry_name e = takeWhile (\<lambda>c. c \<noteq> 0) (efile e)"

definition entry_code :: "wal_entry \<Rightarrow> u32" where
  "entry_code e = emagic e AND NOT WAL_MAGIC_MASK"

text \<open>An \<open>outcome\<close> is what the calls on an entry's file did: all of them succeeded, or one failed after \<open>n\<close> bytes were written
  (for a file to be created, 0: it could not be opened, otherwise: it could not be synced). An address from \<open>2 ^ 63\<close> on is
  negative as a \<open>long\<close>, and the seek to it fails.\<close>

definition applyEntry :: "outcome \<Rightarrow> wal_entry \<Rightarrow> files \<Rightarrow> bool \<times> files" where
  "applyEntry out e fs =
     (if entry_code e = type_code WAL_FILE_CREATE then
        (case out of None \<Rightarrow> (True, fs(entry_name e \<mapsto> []))
         | Some n \<Rightarrow> (False, if n = 0 then fs else fs(entry_name e \<mapsto> [])))
      else if entry_code e = type_code WAL_FILE_REMOVE then
        (case out of None \<Rightarrow> (True, fs(entry_name e := None)) | Some n \<Rightarrow> (False, fs))
      else case fs (entry_name e) of None \<Rightarrow> (False, fs)
           | Some bs \<Rightarrow>
               let payload = take (unat (epayloadLen e)) (epayload e)
               in if 2 ^ 63 \<le> unat (eaddr e) then (False, fs)
                  else (case out of None \<Rightarrow> (True, fs(entry_name e \<mapsto> write_at bs (unat (eaddr e)) payload))
                   | Some n \<Rightarrow> (False, fs(entry_name e \<mapsto> write_at bs (unat (eaddr e)) (take n payload)))))"

fun verify_loop :: "(nat \<Rightarrow> bool) \<Rightarrow> byte list \<Rightarrow> u32 \<Rightarrow> nat list \<Rightarrow> wal_entry \<Rightarrow> bool \<times> wal_entry" where
  "verify_loop got log tid [] e = (True, e)"
| "verify_loop got log tid (i # is) e =
     (let (ok, e1) = readEntry (got i) log i e
      in if \<not> ok \<or> etrans e1 \<noteq> tid then (False, e1) else verify_loop got log tid is e1)"

text \<open>The second pass does not look at the result of \<open>readEntry\<close>: when it fails, the entry read before is applied again. The
  pass returns whether it got to the end, whether it changed the directory, the entry and the files as far as it got.\<close>

fun apply_loop :: "(nat \<Rightarrow> bool) \<Rightarrow> (nat \<Rightarrow> outcome) \<Rightarrow> byte list \<Rightarrow> nat list \<Rightarrow> bool \<Rightarrow> wal_entry \<Rightarrow> files \<Rightarrow> bool \<times> bool \<times> wal_entry \<times> files" where
  "apply_loop got outs log [] changedFiles e fs = (True, changedFiles, e, fs)"
| "apply_loop got outs log (i # is) changedFiles e fs =
     (let e1 = snd (readEntry (got i) log i e); (ok, fs1) = applyEntry (outs i) e1 fs
      in if \<not> ok then (False, changedFiles, e1, fs1)
         else apply_loop got outs log is
                (changedFiles \<or> entry_code e1 = type_code WAL_FILE_CREATE \<or> entry_code e1 = type_code WAL_FILE_REMOVE) e1 fs1)"

definition executeCommit :: "recover_calls \<Rightarrow> byte list \<Rightarrow> u32 \<Rightarrow> u32 \<Rightarrow> wal_entry \<Rightarrow> files \<Rightarrow> bool \<times> wal_entry \<times> files" where
  "executeCommit x log count tid e fs =
     (let (verified, e1) = verify_loop (firstRead x) log tid [0..<unat count] e
      in if \<not> verified then (False, e1, fs)
         else let (ok, changedFiles, e2, fs1) = apply_loop (secondRead x) (applyOuts x) log [0..<unat count] False e1 fs
              in if \<not> ok then (False, e2, fs1) else (\<not> changedFiles \<or> applyDirSynced x, e2, fs1))"

text \<open>\<open>sized\<close>: \<open>fseek\<close> to the end and \<open>ftell\<close> both succeeded. The size that a failed \<open>ftell\<close> returns, -1, is neither 0 nor as
  long as a marker.\<close>

definition checkSynced :: "bool \<Rightarrow> byte list \<Rightarrow> bool" where
  "checkSynced sized log = (sized \<and> length log = 0)"

definition checkCommitted :: "bool \<Rightarrow> bool \<Rightarrow> byte list \<Rightarrow> (u32 \<times> u32) option" where
  "checkCommitted sized got log =
     (let size = length log
      in if \<not> sized \<or> size < WAL_COMMIT_DISK_SIZE \<or> (size - WAL_COMMIT_DISK_SIZE) mod WAL_ENTRY_DISK_SIZE \<noteq> 0 then None
         else if \<not> got then None
         else let marker = drop (size - WAL_COMMIT_DISK_SIZE) log
              in if readUIntBytewise marker 0 \<noteq> WAL_COMMIT_TAG then None
                 else if readUIntBytewise marker 12 \<noteq> crc32c_compute 0 (take 12 marker) then None
                 else let count = readUIntBytewise marker 4
                      in if count \<noteq> of_nat ((size - WAL_COMMIT_DISK_SIZE) div WAL_ENTRY_DISK_SIZE) then None
                         else Some (count, readUIntBytewise marker 8))"

text \<open>Recovery: whether it finished, the manager and the files afterwards. That the log cannot be opened is taken for that there
  is none.\<close>

definition recover :: "recover_calls \<Rightarrow> wal_manager \<Rightarrow> files \<Rightarrow> bool \<times> wal_manager \<times> files" where
  "recover x m fs =
     (let closed = m\<lparr>logOpen := False\<rparr>
      in case (if logFound x then logFile m else None) of None \<Rightarrow> (True, closed, fs)
         | Some log \<Rightarrow>
             if checkSynced (sizeSeen x) log then (True, closed, fs)
             else let (finished, e, fs1) =
                    (case checkCommitted (sizeFound x) (markerRead x) log of None \<Rightarrow> (True, mentry m, fs)
                     | Some (count, tid) \<Rightarrow> executeCommit x log count tid (mentry m) fs);
                    read = m\<lparr>logOpen := True, mentry := e\<rparr>
                  in if \<not> finished then (False, read, fs1)
                     else let (reset, m1) = resetLog (logReopened x) (logResynced x) read
                          in if \<not> reset then (False, m1, fs1) else (True, m1\<lparr>logOpen := False\<rparr>, fs1))"

section \<open>The layout of an entry\<close>

lemma fresh_uint: "4 \<le> n \<Longrightarrow> off = length xs \<Longrightarrow> writeUIntBytewise (xs @ replicate n 0) off w = (xs @ be_bytes 4 w) @ replicate (n - 4) 0"
  by (simp add: layout blit_fresh)
lemma fresh_ulong: "8 \<le> n \<Longrightarrow> off = length xs \<Longrightarrow> writeULongBytewise (xs @ replicate n 0) off w = (xs @ be_bytes 8 w) @ replicate (n - 8) 0"
  by (simp add: layout blit_fresh)
lemma fresh_ushort: "2 \<le> n \<Longrightarrow> off = length xs \<Longrightarrow> writeUShortBytewise (xs @ replicate n 0) off w = (xs @ be_bytes 2 w) @ replicate (n - 2) 0"
  by (simp add: layout blit_fresh)

definition wf_entry :: "wal_entry \<Rightarrow> bool" where
  "wf_entry e \<longleftrightarrow> length (efile e) = WAL_FILE_NAME_LEN \<and> efile e ! (WAL_FILE_NAME_LEN - 1) = 0 \<and>
     length (epayload e) = WAL_PAYLOAD_LEN \<and> unat (epayloadLen e) \<le> WAL_PAYLOAD_LEN \<and>
     (\<exists>ty. emagic e = WAL_MAGIC OR type_code ty)"

text \<open>The bytes of an entry before its checksum.\<close>

definition entry_head :: "wal_entry \<Rightarrow> byte list" where
  "entry_head e = be_bytes 4 (emagic e) @ be_bytes 4 (etrans e) @ efile e @ be_bytes 8 (eaddr e) @ be_bytes 2 (epayloadLen e)
     @ take (unat (epayloadLen e)) (epayload e) @ replicate (WAL_PAYLOAD_LEN - unat (epayloadLen e)) 0"

lemma length_entry_head: "wf_entry e \<Longrightarrow> length (entry_head e) = ENTRY_CHECKSUM_OFFSET"
  by (simp add: entry_head_def wf_entry_def wal_sizes)

lemma serialize_layout:
  assumes "wf_entry e"
  shows "serializeEntry e = entry_head e @ be_bytes 4 (crc32c_compute 0 (entry_head e))"
proof -
  let ?E = "WAL_ENTRY_DISK_SIZE" and ?m = "be_bytes 4 (emagic e)" and ?t = "be_bytes 4 (etrans e)"
  let ?a = "be_bytes 8 (eaddr e)" and ?l = "be_bytes 2 (epayloadLen e)" and ?n = "unat (epayloadLen e)"
  let ?p = "take ?n (epayload e)"
  have w: "length (efile e) = 260" "length (epayload e) = 4096" "?n \<le> 4096" and E: "?E = 4378" "WAL_FILE_NAME_LEN = 260"
    using assms by (simp_all add: wf_entry_def wal_sizes)
  have s1: "writeUIntBytewise (replicate ?E 0) 0 (emagic e) = ?m @ replicate (?E - 4) 0"
    using fresh_uint [of ?E 0 "[]" "emagic e"] E by simp
  have s2: "writeUIntBytewise (?m @ replicate (?E - 4) 0) 4 (etrans e) = (?m @ ?t) @ replicate (?E - 8) 0"
    by (subst fresh_uint) (simp_all add: E)
  have s3: "blit ((?m @ ?t) @ replicate (?E - 8) 0) 8 (efile e) = (?m @ ?t @ efile e) @ replicate (?E - 268) 0"
    by (subst blit_fresh) (simp_all add: E w)
  have s4: "writeULongBytewise ((?m @ ?t @ efile e) @ replicate (?E - 268) 0) (8 + WAL_FILE_NAME_LEN) (eaddr e)
      = (?m @ ?t @ efile e @ ?a) @ replicate (?E - 276) 0"
    by (subst fresh_ulong) (simp_all add: E w)
  have s5: "writeUShortBytewise ((?m @ ?t @ efile e @ ?a) @ replicate (?E - 276) 0) (8 + WAL_FILE_NAME_LEN + 8) (epayloadLen e)
      = (?m @ ?t @ efile e @ ?a @ ?l) @ replicate (?E - 278) 0"
    by (subst fresh_ushort) (simp_all add: E w)
  have s6: "blit ((?m @ ?t @ efile e @ ?a @ ?l) @ replicate (?E - 278) 0) (8 + WAL_FILE_NAME_LEN + 10) ?p
      = (?m @ ?t @ efile e @ ?a @ ?l @ ?p) @ replicate (?E - 278 - ?n) 0"
    by (subst blit_fresh) (use w in \<open>simp_all add: E\<close>)
  have "replicate (?E - 278 - ?n) 0 = replicate (WAL_PAYLOAD_LEN - ?n) 0 @ replicate 4 (0::byte)"
    using E w by (simp add: replicate_add [symmetric] WAL_PAYLOAD_LEN_def)
  then have s7: "(?m @ ?t @ efile e @ ?a @ ?l @ ?p) @ replicate (?E - 278 - ?n) 0 = entry_head e @ replicate 4 0"
    by (simp add: entry_head_def)
  have len: "length (entry_head e) = ENTRY_CHECKSUM_OFFSET" by (rule length_entry_head [OF assms])
  show ?thesis
    unfolding serializeEntry_def Let_def s1 s2 s3 s4 s5 s6 s7
    using fresh_uint [of 4 ENTRY_CHECKSUM_OFFSET "entry_head e"] len by simp
qed

text \<open>What the bytes of an entry are read back as.\<close>

definition entry_normal :: "wal_entry \<Rightarrow> wal_entry" where
  "entry_normal e = e\<lparr>epayload := take (unat (epayloadLen e)) (epayload e) @ replicate (WAL_PAYLOAD_LEN - unat (epayloadLen e)) 0,
                      echecksum := crc32c_compute 0 (entry_head e)\<rparr>"

lemma magic_type:
  "(WAL_MAGIC OR type_code ty) AND WAL_MAGIC_MASK = WAL_MAGIC"
  "(WAL_MAGIC OR type_code ty) AND NOT WAL_MAGIC_MASK = type_code ty"
  "\<not> type_code ty < type_code WAL_PAGE" "\<not> type_code WAL_FILE_REMOVE < type_code ty"
  by (cases ty; simp add: WAL_MAGIC_def WAL_MAGIC_MASK_def)+

lemma parse_layout:
  assumes w: "wf_entry e"
  shows "parseEntry (entry_head e @ be_bytes 4 c)
    = (if c = crc32c_compute 0 (entry_head e) then Some ((entry_normal e)\<lparr>echecksum := c\<rparr>) else None)"
proof -
  let ?m = "be_bytes 4 (emagic e)" and ?t = "be_bytes 4 (etrans e)" and ?f = "efile e"
  let ?a = "be_bytes 8 (eaddr e)" and ?l = "be_bytes 2 (epayloadLen e)" and ?n = "unat (epayloadLen e)"
  let ?p = "take ?n (epayload e) @ replicate (WAL_PAYLOAD_LEN - ?n) 0" and ?c = "be_bytes 4 c"
  let ?buf = "entry_head e @ ?c"
  have len: "length ?f = 260" "length ?p = 4096" "length ?buf = 4378" and hd: "length (entry_head e) = ENTRY_CHECKSUM_OFFSET"
    using length_entry_head [OF w] w by (simp_all add: wf_entry_def wal_sizes)
  have buf: "?buf = ?m @ ?t @ ?f @ ?a @ ?l @ ?p @ ?c" by (simp add: entry_head_def)
  have seg: "segment ?buf 0 4 = ?m" "segment ?buf 4 4 = ?t" "segment ?buf 8 260 = ?f" "segment ?buf 268 8 = ?a"
    "segment ?buf 276 2 = ?l" "segment ?buf 278 4096 = ?p" "segment ?buf 4374 4 = ?c"
    unfolding buf
    using len segment_append_here [of 0 "[]" 4 ?m "?t @ ?f @ ?a @ ?l @ ?p @ ?c"]
      segment_append_here [of 4 ?m 4 ?t "?f @ ?a @ ?l @ ?p @ ?c"]
      segment_append_here [of 8 "?m @ ?t" 260 ?f "?a @ ?l @ ?p @ ?c"]
      segment_append_here [of 268 "?m @ ?t @ ?f" 8 ?a "?l @ ?p @ ?c"]
      segment_append_here [of 276 "?m @ ?t @ ?f @ ?a" 2 ?l "?p @ ?c"]
      segment_append_here [of 278 "?m @ ?t @ ?f @ ?a @ ?l" 4096 ?p ?c]
      segment_append_here [of 4374 "?m @ ?t @ ?f @ ?a @ ?l @ ?p" 4 ?c "[]"]
    by (simp_all only: append_assoc append_Nil append_Nil2 length_append length_be_bytes list.size simp_thms)
       (simp_all only: arith_simps simp_thms)
  have rd: "readUIntBytewise ?buf 0 = emagic e" "readUIntBytewise ?buf 4 = etrans e" "readULongBytewise ?buf 268 = eaddr e"
    "readUShortBytewise ?buf 276 = epayloadLen e" "readUIntBytewise ?buf 4374 = c"
    using len(3) by (simp_all only: layout seg arith_simps simp_thms be_value_inverse [where n = 4 and 'a = 32]
        be_value_inverse [where n = 8 and 'a = 64] be_value_inverse [where n = 2 and 'a = 16] len_num1 len_num0 len_bit0 len_bit1)
  obtain ty where ty: "emagic e = WAL_MAGIC OR type_code ty" using w by (auto simp: wf_entry_def)
  have ok: "?n \<le> WAL_PAYLOAD_LEN" "?f ! (WAL_FILE_NAME_LEN - 1) = 0" using w by (simp_all add: wf_entry_def)
  have off: "8 + WAL_FILE_NAME_LEN = 268" "268 + (8::nat) = 276" "268 + (10::nat) = 278" "ENTRY_CHECKSUM_OFFSET = 4374"
    "WAL_FILE_NAME_LEN = 260" "WAL_PAYLOAD_LEN = 4096" by (simp_all add: wal_sizes)
  have tk: "take 4374 ?buf = entry_head e" using hd off(4) by simp
  show ?thesis
    using ok ty magic_type [of ty]
    by (auto simp: parseEntry_def entry_fields_def Let_def off rd seg hd [unfolded off] entry_normal_def not_less)
qed

section \<open>Transactions as lists of operations\<close>

text \<open>What a log says, without its encoding: for each entry a file, a kind, an address and the bytes.\<close>

type_synonym wop = "fname \<times> wal_object_type \<times> address \<times> byte list"

definition valid_op :: "wop \<Rightarrow> bool" where
  "valid_op op = (case op of (name, ty, addr, data) \<Rightarrow>
     0 \<notin> set name \<and> length name < WAL_FILE_NAME_LEN \<and> length data \<le> WAL_PAYLOAD_LEN)"

definition op_entry :: "u32 \<Rightarrow> wop \<Rightarrow> wal_entry" where
  "op_entry tid op = (case op of (name, ty, addr, data) \<Rightarrow>
     \<lparr>emagic = WAL_MAGIC OR type_code ty, etrans = tid, efile = name @ replicate (WAL_FILE_NAME_LEN - length name) 0,
      eaddr = addr, epayloadLen = of_nat (length data), epayload = data @ replicate (WAL_PAYLOAD_LEN - length data) 0,
      echecksum = 0\<rparr>)"

definition op_bytes :: "u32 \<Rightarrow> wop \<Rightarrow> byte list" where
  "op_bytes tid op = serializeEntry (op_entry tid op)"

definition log_bytes :: "u32 \<Rightarrow> wop list \<Rightarrow> byte list" where
  "log_bytes tid ops = concat (map (op_bytes tid) ops)"

definition op_apply :: "wop \<Rightarrow> files \<Rightarrow> files option" where
  "op_apply op fs = (case op of (name, ty, addr, data) \<Rightarrow>
     (case ty of WAL_FILE_CREATE \<Rightarrow> Some (fs(name \<mapsto> []))
      | WAL_FILE_REMOVE \<Rightarrow> Some (fs(name := None))
      | _ \<Rightarrow> (case fs name of None \<Rightarrow> None
          | Some bs \<Rightarrow> if 2 ^ 63 \<le> unat addr then None else Some (fs(name \<mapsto> write_at bs (unat addr) data)))))"

fun ops_apply :: "wop list \<Rightarrow> files \<Rightarrow> files option" where
  "ops_apply [] fs = Some fs"
| "ops_apply (op # ops) fs = (case op_apply op fs of None \<Rightarrow> None | Some fs' \<Rightarrow> ops_apply ops fs')"

lemma unat_len: "length data \<le> WAL_PAYLOAD_LEN \<Longrightarrow> unat (of_nat (length data) :: u16) = length data"
  by (simp add: wal_sizes unsigned_of_nat take_bit_eq_mod)

lemma wf_op_entry:
  assumes "valid_op op" shows "wf_entry (op_entry tid op)"
proof -
  obtain name ty addr data where op: "op = (name, ty, addr, data)" by (cases op)
  then have v: "length name < 260" "length data \<le> WAL_PAYLOAD_LEN" using assms by (simp_all add: valid_op_def WAL_FILE_NAME_LEN_def)
  then have "(name @ replicate (260 - length name) 0) ! 259 = (0 :: byte)" by (simp add: nth_append)
  with v show ?thesis
    unfolding wf_entry_def op_entry_def op by (simp add: unat_len WAL_FILE_NAME_LEN_def) blast
qed

lemma length_op_bytes: "valid_op op \<Longrightarrow> length (op_bytes tid op) = WAL_ENTRY_DISK_SIZE"
  unfolding op_bytes_def serialize_layout [OF wf_op_entry] by (simp add: length_entry_head [OF wf_op_entry] wal_sizes)

lemma length_log_bytes: "list_all valid_op ops \<Longrightarrow> length (log_bytes tid ops) = length ops * WAL_ENTRY_DISK_SIZE"
  by (induction ops) (simp_all add: log_bytes_def length_op_bytes)

lemma entry_normal_op: "valid_op op \<Longrightarrow> entry_normal (op_entry tid op) = (op_entry tid op)\<lparr>echecksum := crc32c_compute 0 (entry_head (op_entry tid op))\<rparr>"
  by (cases op) (simp add: entry_normal_def op_entry_def valid_op_def unat_len)

lemma parse_op_bytes:
  assumes "valid_op op"
  shows "\<exists>c. parseEntry (op_bytes tid op) = Some ((op_entry tid op)\<lparr>echecksum := c\<rparr>)"
  unfolding op_bytes_def serialize_layout [OF wf_op_entry [OF assms]] parse_layout [OF wf_op_entry [OF assms]]
  by (auto simp: entry_normal_op [OF assms])

lemma op_entry_fields:
  assumes "valid_op (name, ty, addr, bs)"
  shows "entry_name ((op_entry tid (name, ty, addr, bs))\<lparr>echecksum := c\<rparr>) = name"
    "entry_code ((op_entry tid (name, ty, addr, bs))\<lparr>echecksum := c\<rparr>) = type_code ty"
    "take (unat (epayloadLen ((op_entry tid (name, ty, addr, bs))\<lparr>echecksum := c\<rparr>))) (epayload ((op_entry tid (name, ty, addr, bs))\<lparr>echecksum := c\<rparr>)) = bs"
    "eaddr ((op_entry tid (name, ty, addr, bs))\<lparr>echecksum := c\<rparr>) = addr"
    "etrans ((op_entry tid (name, ty, addr, bs))\<lparr>echecksum := c\<rparr>) = tid"
proof -
  have v: "0 \<notin> set name" "length name < WAL_FILE_NAME_LEN" "length bs \<le> WAL_PAYLOAD_LEN"
    using assms by (simp_all add: valid_op_def)
  have "takeWhile (\<lambda>c. c \<noteq> 0) (name @ replicate n 0) = name" for n
    using v(1) by (subst takeWhile_append2) (auto simp: takeWhile_replicate)
  then show "entry_name ((op_entry tid (name, ty, addr, bs))\<lparr>echecksum := c\<rparr>) = name"
    by (simp add: entry_name_def op_entry_def)
qed (use assms in \<open>simp_all add: entry_code_def op_entry_def magic_type unat_len valid_op_def\<close>)

text \<open>What an entry does: the operation, or as much of it as the outcome allows.\<close>

definition op_outcome :: "outcome \<Rightarrow> wop \<Rightarrow> files \<Rightarrow> bool \<times> files" where
  "op_outcome out op fs = (case op of (name, ty, addr, bs) \<Rightarrow>
     (case out of None \<Rightarrow> (case op_apply op fs of None \<Rightarrow> (False, fs) | Some fs' \<Rightarrow> (True, fs'))
      | Some n \<Rightarrow> (False, case ty of WAL_FILE_CREATE \<Rightarrow> if n = 0 then fs else fs(name \<mapsto> [])
                    | WAL_FILE_REMOVE \<Rightarrow> fs
                    | _ \<Rightarrow> (case fs name of None \<Rightarrow> fs
                        | Some b \<Rightarrow> if 2 ^ 63 \<le> unat addr then fs else fs(name \<mapsto> write_at b (unat addr) (take n bs))))))"

lemma applyEntry_op:
  assumes "valid_op op" shows "applyEntry out ((op_entry tid op)\<lparr>echecksum := c\<rparr>) fs = op_outcome out op fs"
proof -
  obtain name ty addr bs where op: "op = (name, ty, addr, bs)" by (cases op)
  note f = op_entry_fields [OF assms [unfolded op], where tid = tid and c = c]
  show ?thesis
    unfolding applyEntry_def Let_def op f
    by (cases ty) (simp_all add: op_outcome_def op_apply_def split: option.split)
qed

lemma type_code_eq: "type_code a = type_code b \<longleftrightarrow> a = b"
  by (cases a; cases b) simp_all

lemma segment_chunk:
  assumes "i < length xs" "\<forall>x \<in> set xs. length x = n"
  shows "segment (concat xs @ zs) (i * n) n = xs ! i"
  using assms
proof (induction xs arbitrary: i)
  case (Cons x xs)
  show ?case
  proof (cases i)
    case 0
    then show ?thesis using Cons.prems by (simp add: segment_def)
  next
    case (Suc k)
    then show ?thesis using Cons by (simp add: segment_append_right)
  qed
qed simp

text \<open>An operation as the manager holds it once its entry was read.\<close>

definition read_as :: "u32 \<Rightarrow> wop \<Rightarrow> wal_entry \<Rightarrow> bool" where
  "read_as tid op e \<longleftrightarrow> (\<exists>c. e = (op_entry tid op)\<lparr>echecksum := c\<rparr>)"

lemma readEntry_log:
  assumes "list_all valid_op ops" "i < length ops"
  shows "\<exists>e1. readEntry got (log_bytes tid ops @ zs) i e = (if got then (True, e1) else (False, e)) \<and> read_as tid (ops ! i) e1"
proof -
  have v: "valid_op (ops ! i)" using assms by (simp add: list_all_length)
  have "segment (log_bytes tid ops @ zs) (i * WAL_ENTRY_DISK_SIZE) WAL_ENTRY_DISK_SIZE = op_bytes tid (ops ! i)"
    using segment_chunk [of i "map (op_bytes tid) ops" WAL_ENTRY_DISK_SIZE zs] assms
    by (simp add: log_bytes_def list_all_iff length_op_bytes)
  moreover have "(i + 1) * WAL_ENTRY_DISK_SIZE \<le> length ops * WAL_ENTRY_DISK_SIZE" using assms(2) by (intro mult_le_mono1) simp
  then have "\<not> length (log_bytes tid ops @ zs) < i * WAL_ENTRY_DISK_SIZE + WAL_ENTRY_DISK_SIZE"
    using length_log_bytes [OF assms(1)] by simp
  ultimately show ?thesis using parse_op_bytes [OF v, of tid] by (auto simp: readEntry_def Let_def read_as_def)
qed

lemma read_as_fields:
  assumes "valid_op (name, ty, addr, bs)" "read_as tid (name, ty, addr, bs) e"
  shows "entry_code e = type_code ty" "etrans e = tid" "applyEntry out e fs = op_outcome out (name, ty, addr, bs) fs"
  using assms op_entry_fields [OF assms(1)] applyEntry_op [OF assms(1)] by (auto simp: read_as_def)

text \<open>The first pass reads the operations in turn, and the last one stays in the manager's entry.\<close>

lemma verify_log:
  assumes "list_all valid_op ops" "k \<le> length ops"
  shows "\<exists>ok e1. verify_loop got (log_bytes tid ops @ zs) tid [k..<length ops] e = (ok, e1) \<and> ((\<forall>i. got i) \<longrightarrow> ok) \<and>
    (ok \<longrightarrow> (if k = length ops then e1 = e else read_as tid (last ops) e1))"
  using assms(2)
proof (induction "length ops - k" arbitrary: k e)
  case 0
  then show ?case by (intro exI [of _ True] exI [of _ e]) simp
next
  case (Suc d)
  then have k: "k < length ops" by simp
  obtain e1 where r: "readEntry (got k) (log_bytes tid ops @ zs) k e = (if got k then (True, e1) else (False, e))" "read_as tid (ops ! k) e1"
    using readEntry_log [OF assms(1) k] by blast
  obtain n ty a b where op: "ops ! k = (n, ty, a, b)" by (cases "ops ! k")
  have v: "valid_op (n, ty, a, b)" using assms(1) k op by (metis list_all_length)
  have t: "etrans e1 = tid" using read_as_fields(2) [OF v] r(2) by (simp add: op)
  have u: "[k..<length ops] = k # [Suc k..<length ops]" using k by (rule upt_conv_Cons)
  have l: "last ops = ops ! k" if "Suc k = length ops"
  proof -
    have "ops \<noteq> []" "length ops - 1 = k" using k that by auto
    then show ?thesis using last_conv_nth [of ops] by simp
  qed
  show ?case
  proof (cases "got k")
    case False
    then have "verify_loop got (log_bytes tid ops @ zs) tid [k..<length ops] e = (False, e)" unfolding u using r(1) by simp
    then show ?thesis using False by auto
  next
    case True
    have "d = length ops - Suc k" "Suc k \<le> length ops" using Suc.hyps(2) k by simp_all
    from Suc.hyps(1) [OF this, of e1]
    obtain ok e2 where ih: "verify_loop got (log_bytes tid ops @ zs) tid [Suc k..<length ops] e1 = (ok, e2)" "(\<forall>i. got i) \<longrightarrow> ok"
      "ok \<longrightarrow> (if Suc k = length ops then e2 = e1 else read_as tid (last ops) e2)" by blast
    have "verify_loop got (log_bytes tid ops @ zs) tid [k..<length ops] e = (ok, e2)" unfolding u using ih(1) r(1) True t by simp
    moreover have "read_as tid (last ops) e2" if ok using that ih(3) r(2) l by (auto split: if_splits)
    ultimately show ?thesis using ih(2) k by auto
  qed
qed

text \<open>The operations that the second pass makes when the reads go as \<open>got\<close> says, with \<open>prev\<close> read before them.\<close>

fun reread :: "(nat \<Rightarrow> bool) \<Rightarrow> nat \<Rightarrow> wop \<Rightarrow> wop list \<Rightarrow> wop list" where
  "reread got i prev [] = []"
| "reread got i prev (op # ops) = (let cur = (if got i then op else prev) in cur # reread got (Suc i) cur ops)"

lemma reread_all: "\<forall>i. got i \<Longrightarrow> reread got i prev ops = ops"
  by (induction ops arbitrary: i prev) simp_all

lemma reread_in: "set (reread got i prev ops) \<subseteq> insert prev (set ops)"
  by (induction ops arbitrary: i prev) (fastforce simp: Let_def split: if_splits)+

text \<open>The second pass makes these one after the other.\<close>

fun ops_outcome :: "(nat \<Rightarrow> outcome) \<Rightarrow> nat \<Rightarrow> wop list \<Rightarrow> bool \<Rightarrow> files \<Rightarrow> bool \<times> bool \<times> files" where
  "ops_outcome outs i [] changed fs = (True, changed, fs)"
| "ops_outcome outs i ((n, ty, x) # ops) changed fs =
     (let (ok, fs') = op_outcome (outs i) (n, ty, x) fs
      in if \<not> ok then (False, changed, fs')
         else ops_outcome outs (Suc i) ops (changed \<or> ty = WAL_FILE_CREATE \<or> ty = WAL_FILE_REMOVE) fs')"

lemma apply_log:
  assumes "list_all valid_op ops" "k \<le> length ops" "k < length ops \<Longrightarrow> read_as tid prev e \<and> valid_op prev"
  shows "\<exists>e1. apply_loop got outs (log_bytes tid ops @ zs) [k..<length ops] changed e fs =
    (let (ok, ch, fs1) = ops_outcome outs k (reread got k prev (drop k ops)) changed fs in (ok, ch, e1, fs1))"
  using assms(2,3)
proof (induction "length ops - k" arbitrary: k prev e fs changed)
  case (Suc d)
  then have k: "k < length ops" by simp
  let ?cur = "if got k then ops ! k else prev"
  obtain e0 where r: "readEntry (got k) (log_bytes tid ops @ zs) k e = (if got k then (True, e0) else (False, e))" "read_as tid (ops ! k) e0"
    using readEntry_log [OF assms(1) k] by blast
  define e1 where "e1 = (if got k then e0 else e)"
  have e1: "snd (readEntry (got k) (log_bytes tid ops @ zs) k e) = e1" "read_as tid ?cur e1" "valid_op ?cur"
    using r Suc.prems(2) [OF k] assms(1) k by (auto simp: e1_def list_all_length)
  have d: "drop k ops = ops ! k # drop (Suc k) ops" using k by (rule Cons_nth_drop_Suc [symmetric])
  have u: "[k..<length ops] = k # [Suc k..<length ops]" using k by (rule upt_conv_Cons)
  obtain n ty a b where op: "?cur = (n, ty, a, b)" by (cases ?cur)
  note f = read_as_fields [OF e1(3) [unfolded op] e1(2) [unfolded op]]
  obtain ok fs1 where o: "op_outcome (outs k) (n, ty, a, b) fs = (ok, fs1)" by (cases "op_outcome (outs k) (n, ty, a, b) fs")
  let ?ch = "changed \<or> ty = WAL_FILE_CREATE \<or> ty = WAL_FILE_REMOVE"
  obtain e2 where ih: "apply_loop got outs (log_bytes tid ops @ zs) [Suc k..<length ops] ?ch e1 fs1 =
      (let (ok, ch, fs1) = ops_outcome outs (Suc k) (reread got (Suc k) ?cur (drop (Suc k) ops)) ?ch fs1 in (ok, ch, e2, fs1))"
    using Suc.hyps(1) [of "Suc k" ?cur e1 ?ch fs1, OF _ _ conjI [OF e1(2,3)]] Suc.hyps(2) k by fastforce
  have re: "reread got k prev (drop k ops) = (n, ty, a, b) # reread got (Suc k) ?cur (drop (Suc k) ops)"
    unfolding d reread.simps Let_def op ..
  have code: "entry_code e1 = type_code WAL_FILE_CREATE \<longleftrightarrow> ty = WAL_FILE_CREATE" "entry_code e1 = type_code WAL_FILE_REMOVE \<longleftrightarrow> ty = WAL_FILE_REMOVE"
    unfolding f(1) type_code_eq by blast+
  have step: "apply_loop got outs (log_bytes tid ops @ zs) [k..<length ops] changed e fs =
      (if \<not> ok then (False, changed, e1, fs1) else apply_loop got outs (log_bytes tid ops @ zs) [Suc k..<length ops] ?ch e1 fs1)"
    unfolding u apply_loop.simps e1(1) Let_def f(3) o prod.case code disj_assoc ..
  show ?case
  proof (cases ok)
    case True
    then show ?thesis unfolding step re ops_outcome.simps o using ih by auto
  next
    case False
    then show ?thesis unfolding step re ops_outcome.simps o by auto
  qed
qed simp

lemma ops_outcome_ok: "ops_apply ops fs = Some fs' \<Longrightarrow> \<exists>ch. ops_outcome (\<lambda>_. None) i ops c fs = (True, ch, fs')"
proof (induction ops arbitrary: i c fs)
  case (Cons op ops)
  obtain n ty a b where op: "op = (n, ty, a, b)" by (cases op)
  from Cons.prems obtain g where "op_apply op fs = Some g" "ops_apply ops g = Some fs'" by (auto split: option.splits)
  with Cons.IH [of g] show ?case by (simp add: op op_outcome_def)
qed simp

lemma ops_outcome_finished: "ops_outcome outs i ops c fs = (True, ch, fs') \<Longrightarrow> ops_apply ops fs = Some fs'"
proof (induction ops arbitrary: i c fs)
  case (Cons op ops)
  obtain n ty a b where op: "op = (n, ty, a, b)" by (cases op)
  from Cons.prems obtain g where "op_outcome (outs i) op fs = (True, g)"
      and r: "ops_outcome outs (Suc i) ops (c \<or> ty = WAL_FILE_CREATE \<or> ty = WAL_FILE_REMOVE) g = (True, ch, fs')"
    by (auto simp: op split: prod.splits if_splits)
  then have "op_apply op fs = Some g" by (auto simp: op op_outcome_def split: option.splits)
  with Cons.IH [OF r] show ?case by simp
qed simp

end
