(* ===== verification/Recovery.thy ===== *)
theory Recovery
  imports Wal
begin

text \<open>
  Why the log makes a commit atomic. A transaction is a list of operations. A crash before the commit point
  leaves a proper prefix of the log and the files as they were; a crash after it leaves the whole log and the
  files in any state in which some of the operations were made, in any order, some of the bytes they write
  replaced by others (\<open>interrupted_by\<close>). Recovery takes the first to the state before the transaction, the
  second to the state after it, and so does recovery after any number of recoveries that a crash or a failed call cut short
  (\<open>restarts\<close>, \<open>settles\<close>), so long as each could open, measure and read the log (\<open>log_read\<close>): three theorems show what
  happens when one cannot.
\<close>

section \<open>States a crash leaves after the commit point\<close>

definition is_write :: "wal_object_type \<Rightarrow> bool" where
  "is_write ty \<longleftrightarrow> ty \<noteq> WAL_FILE_CREATE \<and> ty \<noteq> WAL_FILE_REMOVE"

inductive interrupted_by :: "wop list \<Rightarrow> files \<Rightarrow> files \<Rightarrow> bool" for ops fs where
  untouched: "interrupted_by ops fs fs"
| made: "interrupted_by ops fs g \<Longrightarrow> op \<in> set ops \<Longrightarrow> op_apply op g = Some g' \<Longrightarrow> interrupted_by ops fs g'"
| damaged: "interrupted_by ops fs g \<Longrightarrow> (n, ty, addr, data) \<in> set ops \<Longrightarrow> is_write ty \<Longrightarrow> g n = Some bs \<Longrightarrow>
     length junk \<le> length data \<Longrightarrow> interrupted_by ops fs (g(n \<mapsto> write_at bs (unat addr) junk))"

text \<open>The operations on one file, and when they can be made again: a file is created or removed before
  anything is written to it, or not at all.\<close>

definition file_ops :: "fname \<Rightarrow> wop list \<Rightarrow> (wal_object_type \<times> address \<times> byte list) list" where
  "file_ops n ops = map snd (filter (\<lambda>op. fst op = n) ops)"

definition restartable :: "wop list \<Rightarrow> bool" where
  "restartable ops \<longleftrightarrow> list_all (\<lambda>(n, _). list_all (\<lambda>(ty, _, _). is_write ty) (tl (file_ops n ops))) ops"

text \<open>What the contents of one file before the transaction and in a crash state have in common.\<close>

definition agrees :: "(wal_object_type \<times> address \<times> byte list) list \<Rightarrow> byte list option \<Rightarrow> byte list option \<Rightarrow> bool" where
  "agrees l x y = (case l of [] \<Rightarrow> x = y
     | (ty, _, _) # _ \<Rightarrow> if is_write ty
         then \<exists>b b'. x = Some b \<and> y = Some b' \<and> torn (map (\<lambda>(_, addr, data). (unat addr, data)) l) b b'
         else True)"

definition all_agree :: "wop list \<Rightarrow> files \<Rightarrow> files \<Rightarrow> bool" where
  "all_agree ops fs g \<longleftrightarrow> (\<forall>n. agrees (file_ops n ops) (fs n) (g n))"

lemma agrees_torn: "torn (map (\<lambda>(_, addr, data). (unat addr, data)) l) b b' \<Longrightarrow> agrees l (Some b) (Some b')"
proof (cases l)
  case Nil
  moreover assume "torn (map (\<lambda>(_, addr, data). (unat addr, data)) l) b b'"
  ultimately show ?thesis using torn_done [of "[]" b b'] by (simp add: agrees_def)
next
  case (Cons x l')
  moreover assume "torn (map (\<lambda>(_, addr, data). (unat addr, data)) l) b b'"
  ultimately show ?thesis by (cases x) (simp add: agrees_def)
qed

lemma agrees_write:
  assumes "agrees l x (Some b')" "(ty, a, d) \<in> set l" "length junk \<le> length d"
  shows "agrees l x (Some (write_at b' (unat a) junk))"
proof (cases l)
  case Nil
  with assms(2) show ?thesis by simp
next
  case (Cons y l')
  obtain ty1 a1 d1 where y: "y = (ty1, a1, d1)" by (cases y)
  have m: "(unat a, d) \<in> set (map (\<lambda>(_, addr, data). (unat addr, data)) l)" using assms(2) by force
  show ?thesis
  proof (cases "is_write ty1")
    case True
    with assms(1) obtain b where b: "x = Some b" "torn (map (\<lambda>(_, addr, data). (unat addr, data)) l) b b'"
      by (auto simp: agrees_def Cons y)
    show ?thesis unfolding b(1) by (rule agrees_torn [OF torn_damage [OF b(2) m assms(3)]])
  next
    case False
    then show ?thesis by (simp add: agrees_def Cons y)
  qed
qed

lemma all_agree_upd:
  "all_agree ops fs g \<Longrightarrow> agrees (file_ops n ops) (fs n) y \<Longrightarrow> all_agree ops fs (g(n := y))"
  by (simp add: all_agree_def)

lemma op_apply_file:
  "op_apply (n, ty, addr, data) fs =
     (if ty = WAL_FILE_CREATE then Some (fs(n \<mapsto> []))
      else if ty = WAL_FILE_REMOVE then Some (fs(n := None))
      else case fs n of None \<Rightarrow> None
           | Some bs \<Rightarrow> if 2 ^ 63 \<le> unat addr then None else Some (fs(n \<mapsto> write_at bs (unat addr) data)))"
  by (cases ty) (simp_all add: op_apply_def)

lemma file_ops_Cons: "file_ops n ((m, x) # ops) = (if m = n then x # file_ops n ops else file_ops n ops)"
  by (simp add: file_ops_def)

lemma file_ops_in: "(n, x) \<in> set ops \<Longrightarrow> x \<in> set (file_ops n ops)"
  by (force simp: file_ops_def)

text \<open>Making the next operation on both sides keeps them in agreement about the rest.\<close>

lemma agree_step:
  assumes "all_agree (op # ops) fs g" "op_apply op fs = Some fs'" "ops_apply ops fs' \<noteq> None"
  shows "\<exists>g'. op_apply op g = Some g' \<and> all_agree ops fs' g'"
proof -
  obtain n ty addr data where op: "op = (n, ty, addr, data)" by (cases op)
  have other: "agrees (file_ops m ops) (fs m) (g m)" if "m \<noteq> n" for m
    using assms(1) that by (auto simp: all_agree_def op file_ops_Cons dest: spec [of _ m])
  have here: "agrees ((ty, addr, data) # file_ops n ops) (fs n) (g n)"
    using assms(1) by (auto simp: all_agree_def op file_ops_Cons dest: spec [of _ n])
  have stuck: "ops_apply os h = None" if "file_ops n os = (ty', a', d') # l" "is_write ty'" "h n = None" for os h ty' a' d' l
    using that
  proof (induction os arbitrary: h)
    case (Cons o1 os)
    obtain m ty1 a1 d1 where o1: "o1 = (m, ty1, a1, d1)" by (cases o1)
    show ?case
    proof (cases "m = n")
      case True
      with Cons.prems have "is_write ty1" by (simp add: o1 file_ops_Cons)
      with True Cons.prems(3) show ?thesis by (auto simp: o1 op_apply_file is_write_def)
    next
      case False
      with Cons.prems have f: "file_ops n os = (ty', a', d') # l" by (simp add: o1 file_ops_Cons)
      have "h' n = None" if "op_apply o1 h = Some h'" for h'
        using that False Cons.prems(3) by (auto simp: o1 op_apply_file split: if_splits option.splits)
      with Cons.IH [OF f Cons.prems(2)] show ?thesis by (auto split: option.split)
    qed
  qed (simp add: file_ops_def)
  show ?thesis
  proof (cases "is_write ty")
    case True
    then obtain b b' where b: "fs n = Some b" "g n = Some b'"
        "torn ((unat addr, data) # map (\<lambda>(_, addr, data). (unat addr, data)) (file_ops n ops)) b b'"
      using here by (auto simp: agrees_def)
    have fs': "fs' = fs(n \<mapsto> write_at b (unat addr) data)" and g': "op_apply op g = Some (g(n \<mapsto> write_at b' (unat addr) data))"
      using True b assms(2) by (auto simp: op op_apply_file is_write_def split: if_splits)
    have t: "torn (map (\<lambda>(_, addr, data). (unat addr, data)) (file_ops n ops)) (write_at b (unat addr) data) (write_at b' (unat addr) data)"
      by (rule torn_write [OF b(3)])
    have a: "all_agree ops fs' (g(n \<mapsto> write_at b' (unat addr) data))"
      unfolding all_agree_def fs'
    proof
      fix m
      show "agrees (file_ops m ops) ((fs(n \<mapsto> write_at b (unat addr) data)) m) ((g(n \<mapsto> write_at b' (unat addr) data)) m)"
        using agrees_torn [OF t] other [of m] by (cases "m = n") simp_all
    qed
    show ?thesis by (rule exI, rule conjI, rule g', rule a)
  next
    case False
    let ?v = "if ty = WAL_FILE_CREATE then Some [] else (None :: byte list option)"
    have fs': "fs' = fs(n := ?v)" and g': "op_apply op g = Some (g(n := ?v))"
      using False assms(2) by (auto simp: op op_apply_file is_write_def)
    have v: "agrees (file_ops n ops) ?v ?v"
    proof (cases "file_ops n ops")
      case Nil
      then show ?thesis by (simp add: agrees_def)
    next
      case (Cons y l)
      obtain ty1 a1 d1 where y: "y = (ty1, a1, d1)" by (cases y)
      show ?thesis
      proof (cases "ty = WAL_FILE_CREATE")
        case True
        then show ?thesis by (simp add: agrees_def Cons y)
      next
        case False
        then have none: "fs' n = None" by (simp add: fs')
        have "\<not> is_write ty1"
        proof
          assume "is_write ty1"
          then have "ops_apply ops fs' = None" using none by (intro stuck [OF Cons [unfolded y]])
          with assms(3) show False by simp
        qed
        then show ?thesis by (simp add: agrees_def Cons y)
      qed
    qed
    have a: "all_agree ops fs' (g(n := ?v))"
      unfolding all_agree_def fs'
    proof
      fix m
      show "agrees (file_ops m ops) ((fs(n := ?v)) m) ((g(n := ?v)) m)"
        using v other [of m] by (cases "m = n") simp_all
    qed
    show ?thesis by (rule exI, rule conjI, rule g', rule a)
  qed
qed

lemma replay:
  assumes "all_agree ops fs g" "ops_apply ops fs = Some fin"
  shows "ops_apply ops g = Some fin"
  using assms
proof (induction ops arbitrary: fs g)
  case Nil
  then have "fs = g" by (auto simp: all_agree_def file_ops_def agrees_def)
  with Nil show ?case by simp
next
  case (Cons op ops)
  then obtain fs' where fs': "op_apply op fs = Some fs'" "ops_apply ops fs' = Some fin" by (auto split: option.splits)
  then obtain g' where "op_apply op g = Some g'" "all_agree ops fs' g'" using agree_step [OF Cons.prems(1)] by blast
  with Cons.IH [OF _ fs'(2)] show ?case by simp
qed

text \<open>The state before the transaction agrees with itself when the transaction can be made.\<close>

lemma agree_refl:
  assumes "ops_apply ops fs \<noteq> None"
  shows "all_agree ops fs fs"
proof -
  have "fs n \<noteq> None" if "file_ops n os = (ty, a, d) # l" "is_write ty" "ops_apply os fs \<noteq> None" for os n ty a d l fs
    using that
  proof (induction os arbitrary: fs)
    case (Cons o1 os)
    obtain m ty1 a1 d1 where o1: "o1 = (m, ty1, a1, d1)" by (cases o1)
    obtain h where h: "op_apply o1 fs = Some h" "ops_apply os h \<noteq> None" using Cons.prems(3) by (auto split: option.splits)
    show ?case
    proof (cases "m = n")
      case True
      with Cons.prems have "is_write ty1" by (simp add: o1 file_ops_Cons)
      with True h(1) show ?thesis by (auto simp: o1 op_apply_file is_write_def split: if_splits option.splits)
    next
      case False
      with Cons.prems have f: "file_ops n os = (ty, a, d) # l" by (simp add: o1 file_ops_Cons)
      have "h n = fs n" using h(1) False by (auto simp: o1 op_apply_file split: if_splits option.splits)
      with Cons.IH [OF f Cons.prems(2) h(2)] show ?thesis by simp
    qed
  qed (simp add: file_ops_def)
  with assms show ?thesis unfolding all_agree_def agrees_def by (fastforce split: list.split)
qed

text \<open>A write made, or cut short, while the files agree.\<close>

lemma agree_damaged:
  assumes "all_agree ops fs h" "(n, ty, addr, d) \<in> set ops" "h n = Some bs" "length junk \<le> length d"
  shows "all_agree ops fs (h(n \<mapsto> write_at bs (unat addr) junk))"
proof (rule all_agree_upd [OF assms(1)])
  have "agrees (file_ops n ops) (fs n) (Some bs)" using assms(1,3) unfolding all_agree_def by metis
  then show "agrees (file_ops n ops) (fs n) (Some (write_at bs (unat addr) junk))"
    by (rule agrees_write [OF _ file_ops_in [OF assms(2)] assms(4)])
qed

lemma interrupted_agrees:
  assumes "interrupted_by ops fs g" "restartable ops" "ops_apply ops fs \<noteq> None"
  shows "all_agree ops fs g"
  using assms(1)
proof induction
  case untouched
  show ?case using assms(3) by (rule agree_refl)
next
  case (made g op g')
  obtain n ty addr data where op: "op = (n, ty, addr, data)" by (cases op)
  show ?case
  proof (cases "is_write ty")
    case True
    with made(3) obtain bs where "g n = Some bs" and g': "g' = g(n \<mapsto> write_at bs (unat addr) data)"
      by (auto simp: op op_apply_file is_write_def split: option.splits if_splits)
    then show ?thesis unfolding g' by (intro agree_damaged [OF made(4) made(2) [unfolded op]]) simp_all
  next
    case False
    have first: "\<not> (file_ops n ops = (ty', a', d') # l \<and> is_write ty')" for ty' a' d' l
    proof (rule notI, elim conjE)
      assume f: "file_ops n ops = (ty', a', d') # l" and w: "is_write ty'"
      have "list_all (\<lambda>(ty, _, _). is_write ty) l"
        using assms(2) made(2) f unfolding restartable_def op by (force simp: list_all_iff [of _ ops])
      with w have "is_write ty0" if "(ty0, a0, d0) \<in> set (file_ops n ops)" for ty0 a0 d0
        using that by (auto simp: f list_all_iff)
      with file_ops_in [OF made(2) [unfolded op]] False show False by blast
    qed
    have "agrees (file_ops n ops) (fs n) (g' n)"
    proof (cases "file_ops n ops")
      case Nil
      with file_ops_in [OF made(2) [unfolded op]] show ?thesis by simp
    next
      case (Cons y l)
      obtain ty1 a1 d1 where y: "y = (ty1, a1, d1)" by (cases y)
      with first Cons show ?thesis by (simp add: agrees_def)
    qed
    moreover have "g' m = g m" if "m \<noteq> n" for m
      using made(3) False that by (auto simp: op op_apply_file is_write_def)
    ultimately show ?thesis using made(4) unfolding all_agree_def by metis
  qed
next
  case (damaged g n ty addr data bs junk)
  show ?case by (rule agree_damaged [OF damaged(6,2,4,5)])
qed

lemma interrupted_trans: "interrupted_by ops g h \<Longrightarrow> interrupted_by ops fs g \<Longrightarrow> interrupted_by ops fs h"
  by (induction rule: interrupted_by.induct) (auto intro: interrupted_by.intros)

lemma interrupted_apply:
  "set ops \<subseteq> set all_ops \<Longrightarrow> ops_apply ops g = Some h \<Longrightarrow> interrupted_by all_ops fs g \<Longrightarrow> interrupted_by all_ops fs h"
  by (induction ops arbitrary: g) (auto split: option.splits intro: made)

text \<open>Whatever the calls of the second pass of recovery do, the files it leaves are again such a state.\<close>

lemma interrupted_outcome:
  assumes "interrupted_by ops fs g" "op \<in> set ops"
  shows "interrupted_by ops fs (snd (op_outcome out op g))"
proof -
  obtain n ty a b where op: "op = (n, ty, a, b)" by (cases op)
  show ?thesis
  proof (cases out)
    case None
    with assms show ?thesis by (auto simp: op op_outcome_def split: option.split intro: made)
  next
    case (Some k)
    have w: "interrupted_by ops fs (case g n of None \<Rightarrow> g | Some bs \<Rightarrow> if 2 ^ 63 \<le> unat a then g else g(n \<mapsto> write_at bs (unat a) (take k b)))"
      if "is_write ty"
      using assms that by (auto simp: op split: option.split intro: damaged)
    have c: "interrupted_by ops fs (g(n \<mapsto> []))" if "ty = WAL_FILE_CREATE"
      using assms that by (intro made [OF assms]) (simp add: op op_apply_def)
    show ?thesis using Some w c assms(1) by (cases ty) (simp_all add: op op_outcome_def is_write_def)
  qed
qed

lemma interrupted_outcomes:
  "set ops \<subseteq> set all_ops \<Longrightarrow> interrupted_by all_ops fs g \<Longrightarrow> interrupted_by all_ops fs (snd (snd (ops_outcome outs i ops c g)))"
proof (induction ops arbitrary: i c g)
  case (Cons op ops)
  obtain n ty a b where op: "op = (n, ty, a, b)" by (cases op)
  obtain ok g' where o: "op_outcome (outs i) op g = (ok, g')" by (cases "op_outcome (outs i) op g")
  have g': "interrupted_by all_ops fs g'" using interrupted_outcome [OF Cons.prems(2), of op "outs i"] Cons.prems(1) o by simp
  show ?case using g' Cons.IH [OF _ g'] Cons.prems(1) by (simp add: o [unfolded op] op)
qed simp

lemma ops_outcome_progress:
  assumes "ops_apply ops fs = Some fin"
  shows "(\<exists>ch. ops_outcome outs i ops c fs = (True, ch, fin)) \<or> (\<exists>ch h. ops_outcome outs i ops c fs = (False, ch, h))"
  using ops_outcome_finished [of outs i ops c fs] assms
  by (cases "ops_outcome outs i ops c fs") (metis (full_types) option.inject prod_cases3)

section \<open>The commit marker\<close>

lemma unat_count: "m < 2 ^ 32 \<Longrightarrow> unat (of_nat m :: u32) = m"
  by (simp add: unsigned_of_nat take_bit_eq_mod)

lemma commit_marker_layout:
  "commit_marker count tid = (let h = be_bytes 4 WAL_COMMIT_TAG @ be_bytes 4 count @ be_bytes 4 tid in h @ be_bytes 4 (crc32c_compute 0 h))"
proof -
  have s1: "writeUIntBytewise (replicate WAL_COMMIT_DISK_SIZE 0) 0 WAL_COMMIT_TAG = be_bytes 4 WAL_COMMIT_TAG @ replicate 12 0"
    using fresh_uint [of 16 0 "[]" WAL_COMMIT_TAG] by (simp add: wal_sizes)
  have s2: "writeUIntBytewise (be_bytes 4 WAL_COMMIT_TAG @ replicate 12 0) 4 count = (be_bytes 4 WAL_COMMIT_TAG @ be_bytes 4 count) @ replicate 8 0"
    by (subst fresh_uint) simp_all
  have s3: "writeUIntBytewise ((be_bytes 4 WAL_COMMIT_TAG @ be_bytes 4 count) @ replicate 8 0) 8 tid
      = (be_bytes 4 WAL_COMMIT_TAG @ be_bytes 4 count @ be_bytes 4 tid) @ replicate 4 0"
    by (subst fresh_uint) simp_all
  show ?thesis
    unfolding commit_marker_def Let_def s1 s2 s3 by (subst fresh_uint) simp_all
qed

lemma length_commit_marker: "length (commit_marker count tid) = WAL_COMMIT_DISK_SIZE"
  by (simp add: commit_marker_layout Let_def WAL_COMMIT_DISK_SIZE_def)

lemma read_be: "length xs = off \<Longrightarrow> readUIntBytewise (xs @ be_bytes 4 w @ zs) off = w"
  using be_value_inverse [where n = 4 and 'a = 32, of w]
  by (simp add: layout segment_append_here)

lemma read_marker:
  "readUIntBytewise (commit_marker count tid) 0 = WAL_COMMIT_TAG"
  "readUIntBytewise (commit_marker count tid) 4 = count"
  "readUIntBytewise (commit_marker count tid) 8 = tid"
  "readUIntBytewise (commit_marker count tid) 12 = crc32c_compute 0 (take 12 (commit_marker count tid))"
proof -
  let ?t = "be_bytes 4 WAL_COMMIT_TAG" and ?n = "be_bytes 4 count" and ?i = "be_bytes 4 tid"
  let ?c = "crc32c_compute 0 (?t @ ?n @ ?i)"
  have m: "commit_marker count tid = ?t @ ?n @ ?i @ be_bytes 4 ?c" by (simp add: commit_marker_layout Let_def)
  show "readUIntBytewise (commit_marker count tid) 0 = WAL_COMMIT_TAG"
    using read_be [of "[]" 0] by (simp add: m)
  show "readUIntBytewise (commit_marker count tid) 4 = count"
    using read_be [of ?t 4] by (simp add: m)
  show "readUIntBytewise (commit_marker count tid) 8 = tid"
    using read_be [of "?t @ ?n" 8 tid "be_bytes 4 ?c"] by (simp add: m)
  show "readUIntBytewise (commit_marker count tid) 12 = crc32c_compute 0 (take 12 (commit_marker count tid))"
    using read_be [of "?t @ ?n @ ?i" 12 ?c "[]"] by (simp add: m)
qed

lemma checkCommitted_full:
  assumes "list_all valid_op ops"
  shows "checkCommitted True True (log_bytes tid ops @ commit_marker (of_nat (length ops)) tid) = Some (of_nat (length ops), tid)"
proof -
  have E: "WAL_ENTRY_DISK_SIZE \<noteq> 0" by (simp add: wal_sizes)
  show ?thesis
    using E unfolding checkCommitted_def Let_def
    by (simp add: length_log_bytes [OF assms] length_commit_marker read_marker)
qed

lemma op_bytes_magic:
  assumes "valid_op op" shows "\<exists>ty rest. op_bytes tid op = be_bytes 4 (WAL_MAGIC OR type_code ty) @ rest"
proof -
  obtain n ty a b where op: "op = (n, ty, a, b)" by (cases op)
  show ?thesis
    unfolding op_bytes_def serialize_layout [OF wf_op_entry [OF assms]]
    by (rule exI [of _ ty]) (simp add: entry_head_def op_entry_def op)
qed

lemma magic_not_commit: "WAL_MAGIC OR type_code ty \<noteq> WAL_COMMIT_TAG"
  by (cases ty) (simp_all add: WAL_MAGIC_def WAL_COMMIT_TAG_def)

lemma log_bytes_append: "log_bytes tid (xs @ ys) = log_bytes tid xs @ log_bytes tid ys"
  by (simp add: log_bytes_def)

text \<open>No proper prefix of a committed log is taken for a committed log.\<close>

lemma checkCommitted_prefix:
  assumes v: "list_all valid_op ops" and k: "k < length (log_bytes tid ops @ commit_marker c tid)"
  shows "checkCommitted sized got (take k (log_bytes tid ops @ commit_marker c tid)) = None"
proof (cases "k < 16 \<or> (k - 16) mod WAL_ENTRY_DISK_SIZE \<noteq> 0")
  case True
  have "checkCommitted sized got l = None" if "length l = k" for l
    using True that by (auto simp: checkCommitted_def Let_def WAL_COMMIT_DISK_SIZE_def)
  then show ?thesis using k by simp
next
  case False
  let ?E = WAL_ENTRY_DISK_SIZE
  define q where "q = (k - 16) div ?E"
  from False have kq: "k = q * ?E + 16" unfolding q_def by (simp add: mod_eq_0_iff_dvd)
  have "q * ?E < length ops * ?E"
    using k by (simp add: kq length_log_bytes [OF v] length_commit_marker WAL_COMMIT_DISK_SIZE_def)
  then have q: "q < length ops" by simp
  then have ops: "ops = take q ops @ ops ! q # drop (Suc q) ops" by (rule id_take_nth_drop)
  have vs: "list_all valid_op (take q ops)" "valid_op (ops ! q)"
    using v q by (auto simp: list_all_length)
  obtain ty rest where b: "op_bytes tid (ops ! q) = be_bytes 4 (WAL_MAGIC OR type_code ty) @ rest"
    using op_bytes_magic [OF vs(2)] by blast
  let ?p = "log_bytes tid (take q ops)"
  have lp: "length ?p = q * ?E" using length_log_bytes [OF vs(1)] q by simp
  have "log_bytes tid ops = log_bytes tid (take q ops @ ops ! q # drop (Suc q) ops)" using ops by simp
  also have "\<dots> = ?p @ be_bytes 4 (WAL_MAGIC OR type_code ty) @ rest @ log_bytes tid (drop (Suc q) ops)"
    by (simp only: log_bytes_append) (simp add: log_bytes_def b)
  finally obtain zs where full: "log_bytes tid ops @ commit_marker c tid = ?p @ be_bytes 4 (WAL_MAGIC OR type_code ty) @ zs" by simp
  have t: "take k (log_bytes tid ops @ commit_marker c tid) = ?p @ be_bytes 4 (WAL_MAGIC OR type_code ty) @ take 12 zs"
    unfolding full kq by (simp add: lp)
  have "length (take k (log_bytes tid ops @ commit_marker c tid)) = k" using k by simp
  then have len: "length (?p @ be_bytes 4 (WAL_MAGIC OR type_code ty) @ take 12 zs) = q * ?E + 16"
    unfolding t unfolding kq .
  have d: "drop (q * ?E) (?p @ be_bytes 4 (WAL_MAGIC OR type_code ty) @ take 12 zs) = be_bytes 4 (WAL_MAGIC OR type_code ty) @ take 12 zs"
    using lp by simp
  have r: "readUIntBytewise (be_bytes 4 (WAL_MAGIC OR type_code ty) @ take 12 zs) 0 = WAL_MAGIC OR type_code ty"
    using read_be [of "[]" 0] by simp
  show ?thesis
    unfolding t checkCommitted_def Let_def len WAL_COMMIT_DISK_SIZE_def add_diff_cancel_right' d r
    using magic_not_commit by simp
qed

section \<open>Recovery\<close>

definition full_log :: "u32 \<Rightarrow> wop list \<Rightarrow> byte list" where
  "full_log tid ops = log_bytes tid ops @ commit_marker (of_nat (length ops)) tid"

text \<open>The manager whose log file holds these bytes, and the calls that read the log as it is. That a call before the second
  pass fails is seen by recovery, but for those of \<open>log_read\<close>.\<close>

definition log_read :: "recover_calls \<Rightarrow> bool" where
  "log_read x \<longleftrightarrow> logFound x \<and> sizeFound x \<and> markerRead x \<and> (\<forall>i. secondRead x i)"

definition good_recovery :: recover_calls where
  "good_recovery = \<lparr>logFound = True, sizeSeen = True, sizeFound = True, markerRead = True, firstRead = (\<lambda>_. True), secondRead = (\<lambda>_. True),
     applyOuts = (\<lambda>_. None), applyDirSynced = True, logReopened = True, logResynced = True\<rparr>"

lemma good_recovery_simps [simp]:
  "logFound good_recovery" "sizeSeen good_recovery" "sizeFound good_recovery" "markerRead good_recovery" "firstRead good_recovery i"
  "secondRead good_recovery i" "applyOuts good_recovery = (\<lambda>_. None)" "applyDirSynced good_recovery" "logReopened good_recovery"
  "logResynced good_recovery" "log_read good_recovery"
  by (simp_all add: good_recovery_def log_read_def)

lemma resetLog_file: "resetLog opened synced m = (ok, m') \<Longrightarrow>
    if opened then ok = synced \<and> logFile m' = Some [] else \<not> ok \<and> logFile m' = logFile m"
  by (auto simp: resetLog_def openLog_empty_def syncLog_def Let_def split: if_splits)

text \<open>Recovery of a log that holds no whole transaction.\<close>

lemma recover_uncommitted:
  assumes v: "list_all valid_op ops" and k: "k < length (full_log tid ops)" and m: "logFile m = Some (take k (full_log tid ops))"
  shows "\<exists>ok m'. recover x m fs = (ok, m', fs) \<and> (logFile m' = logFile m \<or> logFile m' = Some []) \<and>
     (logFound x \<longrightarrow> logReopened x \<longrightarrow> logResynced x \<longrightarrow> ok \<and> logFile m' = Some [])"
proof -
  have c: "checkCommitted a b (take k (full_log tid ops)) = None" for a b
    using checkCommitted_prefix [OF v] k unfolding full_log_def .
  obtain reset m1 where r: "resetLog (logReopened x) (logResynced x) (m\<lparr>logOpen := True, mentry := mentry m\<rparr>) = (reset, m1)"
    by (cases "resetLog (logReopened x) (logResynced x) (m\<lparr>logOpen := True, mentry := mentry m\<rparr>)")
  have d: "if logReopened x then reset = logResynced x \<and> logFile m1 = Some [] else \<not> reset \<and> logFile m1 = logFile m"
    using resetLog_file [OF r] by simp
  have e: "checkSynced a (take k (full_log tid ops)) \<longleftrightarrow> a \<and> k = 0" for a using k by (auto simp: checkSynced_def)
  show ?thesis using r d m e by (auto simp: recover_def c Let_def split: if_splits)
qed

lemma recover_committed:
  assumes v: "list_all valid_op ops" "length ops < 2 ^ 32" and r: "restartable ops"
    and fin: "ops_apply ops fs = Some fin" and g: "interrupted_by ops fs g" and m: "logFile m = Some (full_log tid ops)"
  shows "\<exists>m'. recover good_recovery m g = (True, m', fin) \<and> logFile m' = Some []"
    and "\<exists>ok m' g'. recover x m g = (ok, m', g') \<and> interrupted_by ops fs g' \<and>
           (logFile m' = Some (full_log tid ops) \<or> logFile m' = Some []) \<and>
           (log_read x \<longrightarrow> logFile m' = Some (full_log tid ops) \<and> \<not> ok \<or> logFile m' = Some [] \<and> ok = logResynced x \<and> g' = fin)"
    and "logFound x \<Longrightarrow> sizeFound x \<Longrightarrow> markerRead x \<Longrightarrow> \<forall>i. firstRead x i \<Longrightarrow> applyOuts x = (\<lambda>_. None) \<Longrightarrow> applyDirSynced x \<Longrightarrow>
      logReopened x \<Longrightarrow> logResynced x \<Longrightarrow> ops_apply (reread (secondRead x) 0 (last ops) ops) g = Some h \<Longrightarrow>
      \<exists>m'. recover x m g = (True, m', h) \<and> logFile m' = Some []"
proof -
  have replayed: "ops_apply ops g = Some fin"
    by (rule replay [OF interrupted_agrees [OF g r] fin]) (simp add: fin)
  let ?F = "full_log tid ops"
  have ne: "\<not> checkSynced a ?F" for a
    by (simp add: checkSynced_def full_log_def length_commit_marker WAL_COMMIT_DISK_SIZE_def flip: length_greater_0_conv)
  have cc: "checkCommitted a b ?F = (if a \<and> b then Some (of_nat (length ops), tid) else None)" for a b
    using checkCommitted_full [OF v(1), of tid] by (auto simp: full_log_def checkCommitted_def Let_def)
  note un = unat_count [OF v(2)]
  have ex: "\<exists>finished e' g'. executeCommit x ?F (of_nat (length ops)) tid e g = (finished, e', g') \<and>
      (finished = False \<and> g' = g \<and> \<not> (\<forall>i. firstRead x i) \<or>
       (\<exists>ok ch. ops_outcome (applyOuts x) 0 (reread (secondRead x) 0 (last ops) ops) False g = (ok, ch, g') \<and>
          finished = (ok \<and> (ch \<longrightarrow> applyDirSynced x))))" for x e
  proof -
    obtain vok e1 where vl: "verify_loop (firstRead x) ?F tid [0..<length ops] e = (vok, e1)" "(\<forall>i. firstRead x i) \<longrightarrow> vok"
      "vok \<longrightarrow> (if 0 = length ops then e1 = e else read_as tid (last ops) e1)"
      unfolding full_log_def using verify_log [OF v(1), of 0 "firstRead x" tid _ e] by blast
    show ?thesis
    proof (cases vok)
      case False
      then show ?thesis using vl(1,2) by (auto simp: executeCommit_def un)
    next
      case True
      have pre: "read_as tid (last ops) e1 \<and> valid_op (last ops)" if "0 < length ops"
        using that vl(3) True v(1) by (auto simp: list_all_iff split: if_splits)
      obtain e2 where "apply_loop (secondRead x) (applyOuts x) ?F [0..<length ops] False e1 g =
          (let (ok, ch, fs1) = ops_outcome (applyOuts x) 0 (reread (secondRead x) 0 (last ops) ops) False g in (ok, ch, e2, fs1))"
        unfolding full_log_def
        using apply_log [of ops 0 tid "last ops" e1 "secondRead x" "applyOuts x" "commit_marker (of_nat (length ops)) tid" False g] v(1) pre
        by (metis drop0 le0)
      then show ?thesis using vl(1) True
        by (cases "ops_outcome (applyOuts x) 0 (reread (secondRead x) 0 (last ops) ops) False g") (auto simp: executeCommit_def un)
    qed
  qed
  have sub: "set (reread (secondRead x) 0 (last ops) ops) \<subseteq> set ops" for x
    using reread_in [of "secondRead x" 0 "last ops" ops] by (cases "ops = []") auto
  have rec: "\<exists>finished e' g' ok m'. executeCommit x ?F (of_nat (length ops)) tid (mentry m) g = (finished, e', g') \<and>
      resetLog (logReopened x) (logResynced x) (m\<lparr>logOpen := True, mentry := e'\<rparr>) = (ok, m') \<and>
      recover x m g = (if \<not> finished then (False, m\<lparr>logOpen := True, mentry := e'\<rparr>, g') else if \<not> ok then (False, m', g') else (True, m'\<lparr>logOpen := False\<rparr>, g'))"
    if "logFound x" "sizeFound x" "markerRead x" for x
  proof -
    obtain finished e' g' where a: "executeCommit x ?F (of_nat (length ops)) tid (mentry m) g = (finished, e', g')" by (cases "executeCommit x ?F (of_nat (length ops)) tid (mentry m) g")
    obtain ok m' where b: "resetLog (logReopened x) (logResynced x) (m\<lparr>logOpen := True, mentry := e'\<rparr>) = (ok, m')"
      by (cases "resetLog (logReopened x) (logResynced x) (m\<lparr>logOpen := True, mentry := e'\<rparr>)")
    show ?thesis using a b that m ne cc by (intro exI [of _ finished] exI [of _ e'] exI [of _ g'] exI [of _ ok] exI [of _ m']) (simp add: recover_def Let_def)
  qed
  show made: "\<exists>m'. recover x m g = (True, m', h) \<and> logFile m' = Some []"
    if "logFound x" "sizeFound x" "markerRead x" "\<forall>i. firstRead x i" "applyOuts x = (\<lambda>_. None)" "applyDirSynced x"
      "logReopened x" "logResynced x" "ops_apply (reread (secondRead x) 0 (last ops) ops) g = Some h" for x h
  proof -
    note given = that
    obtain finished e' g' ok m' where q: "executeCommit x ?F (of_nat (length ops)) tid (mentry m) g = (finished, e', g')"
      "resetLog (logReopened x) (logResynced x) (m\<lparr>logOpen := True, mentry := e'\<rparr>) = (ok, m')"
      "recover x m g = (if \<not> finished then (False, m\<lparr>logOpen := True, mentry := e'\<rparr>, g') else if \<not> ok then (False, m', g') else (True, m'\<lparr>logOpen := False\<rparr>, g'))"
      using rec [OF given(1-3)] by blast
    obtain ch where "ops_outcome (applyOuts x) 0 (reread (secondRead x) 0 (last ops) ops) False g = (True, ch, h)"
      using ops_outcome_ok [OF given(9), of 0 False] unfolding given(5) by blast
    then have "finished" "g' = h" using ex [of x "mentry m"] q(1) given(4,6) by auto
    then show ?thesis using q(2,3) resetLog_file [OF q(2)] given(7,8) by simp
  qed
  show "\<exists>m'. recover good_recovery m g = (True, m', fin) \<and> logFile m' = Some []"
    by (rule made) (simp_all add: reread_all replayed)
  show "\<exists>ok m' g'. recover x m g = (ok, m', g') \<and> interrupted_by ops fs g' \<and>
           (logFile m' = Some ?F \<or> logFile m' = Some []) \<and>
           (log_read x \<longrightarrow> logFile m' = Some ?F \<and> \<not> ok \<or> logFile m' = Some [] \<and> ok = logResynced x \<and> g' = fin)"
  proof (cases "logFound x \<and> sizeFound x \<and> markerRead x")
    case False
    obtain reset m1 where b: "resetLog (logReopened x) (logResynced x) (m\<lparr>logOpen := True, mentry := mentry m\<rparr>) = (reset, m1)"
      by (cases "resetLog (logReopened x) (logResynced x) (m\<lparr>logOpen := True, mentry := mentry m\<rparr>)")
    show ?thesis using False b resetLog_file [OF b] m ne cc g by (auto simp: recover_def log_read_def Let_def split: if_splits)
  next
    case True
    then obtain finished e' g' ok m' where q: "executeCommit x ?F (of_nat (length ops)) tid (mentry m) g = (finished, e', g')"
      "resetLog (logReopened x) (logResynced x) (m\<lparr>logOpen := True, mentry := e'\<rparr>) = (ok, m')"
      "recover x m g = (if \<not> finished then (False, m\<lparr>logOpen := True, mentry := e'\<rparr>, g') else if \<not> ok then (False, m', g') else (True, m'\<lparr>logOpen := False\<rparr>, g'))"
      using rec [of x] by blast
    have i: "interrupted_by ops fs g'" using ex [of x "mentry m"] q(1) g interrupted_outcomes [OF sub [of x] g, where outs = "applyOuts x" and i = 0 and c = False] by auto
    have f: "g' = fin" if made: "finished" "log_read x"
    proof -
      have "reread (secondRead x) 0 (last ops) ops = ops" using that(2) by (simp add: log_read_def reread_all)
      then obtain ch where "ops_outcome (applyOuts x) 0 ops False g = (True, ch, g')" using ex [of x "mentry m"] q(1) made(1) by auto
      then show ?thesis using ops_outcome_finished replayed by fastforce
    qed
    show ?thesis using q(3) i f m resetLog_file [OF q(2)] by (auto split: if_splits)
  qed
qed

text \<open>The states that any number of recoveries leave, however the calls but those of \<open>log_read\<close> go; and that whichever recovery is
  the first to succeed with every call brings the files to the state \<open>target\<close>.\<close>

inductive restarts :: "wal_manager \<Rightarrow> files \<Rightarrow> wal_manager \<Rightarrow> files \<Rightarrow> bool" for m fs where
  no_restart: "restarts m fs m fs"
| restart: "restarts m fs m1 g1 \<Longrightarrow> log_read x \<Longrightarrow> recover x m1 g1 = (ok, m2, g2) \<Longrightarrow> restarts m fs m2 g2"

definition recovered :: "wal_manager \<Rightarrow> files \<Rightarrow> files" where
  "recovered m fs = snd (snd (recover good_recovery m fs))"

definition settles :: "wal_manager \<Rightarrow> files \<Rightarrow> files \<Rightarrow> bool" where
  "settles m fs target \<longleftrightarrow> (\<forall>m1 g. restarts m fs m1 g \<longrightarrow> recovered m1 g = target)"

lemma settles_recovered: "settles m fs target \<Longrightarrow> recovered m fs = target"
  using no_restart by (auto simp: settles_def)

lemma recover_idle: "logFile m = None \<or> logFile m = Some [] \<Longrightarrow> \<exists>ok m'. recover x m fs = (ok, m', fs) \<and> (logFile m' = None \<or> logFile m' = Some [])"
proof -
  assume m: "logFile m = None \<or> logFile m = Some []"
  obtain reset m1 where b: "resetLog (logReopened x) (logResynced x) (m\<lparr>logOpen := True, mentry := mentry m\<rparr>) = (reset, m1)"
    by (cases "resetLog (logReopened x) (logResynced x) (m\<lparr>logOpen := True, mentry := mentry m\<rparr>)")
  show ?thesis using m b resetLog_file [OF b] by (auto simp: recover_def checkSynced_def checkCommitted_def WAL_COMMIT_DISK_SIZE_def Let_def split: if_splits)
qed

lemma recover_idle_file:
  assumes "logFile m = Some []" "recover x m fs = (ok, m', fs')" shows "logFile m' = Some [] \<and> fs' = fs"
proof -
  obtain reset m1 where b: "resetLog (logReopened x) (logResynced x) (m\<lparr>logOpen := True, mentry := mentry m\<rparr>) = (reset, m1)"
    by (cases "resetLog (logReopened x) (logResynced x) (m\<lparr>logOpen := True, mentry := mentry m\<rparr>)")
  show ?thesis using assms b resetLog_file [OF b] by (auto simp: recover_def checkSynced_def checkCommitted_def WAL_COMMIT_DISK_SIZE_def Let_def split: if_splits)
qed

lemma settles_idle:
  assumes "logFile m = None \<or> logFile m = Some []" shows "settles m fs fs"
proof -
  have "(logFile m1 = None \<or> logFile m1 = Some []) \<and> g = fs" if "restarts m fs m1 g" for m1 g
    using that
  proof induction
    case no_restart
    show ?case using assms by simp
  next
    case (restart m1 g1 x ok m2 g2)
    then show ?case using recover_idle [of m1 x g1] by auto
  qed
  note inv = this
  show ?thesis
    unfolding settles_def recovered_def
  proof (intro allI impI)
    fix m1 g assume "restarts m fs m1 g"
    from inv [OF this] show "snd (snd (recover good_recovery m1 g)) = fs" using recover_idle [of m1 good_recovery g] by auto
  qed
qed

lemma settles_uncommitted:
  assumes "list_all valid_op ops" "k < length (full_log tid ops)" "logFile m = Some (take k (full_log tid ops))"
  shows "settles m fs fs"
proof -
  have "(logFile m1 = Some (take k (full_log tid ops)) \<or> logFile m1 = Some []) \<and> g = fs" if "restarts m fs m1 g" for m1 g
    using that
  proof induction
    case no_restart
    show ?case using assms(3) by simp
  next
    case (restart m1 g1 x ok m2 g2)
    then show ?case using recover_uncommitted [OF assms(1,2), of m1 x g1] recover_idle [of m1 x g1] recover_idle_file [of m1 x g1 ok m2 g2] by auto
  qed
  note inv = this
  show ?thesis
    unfolding settles_def recovered_def
  proof (intro allI impI)
    fix m1 g assume "restarts m fs m1 g"
    from inv [OF this] show "snd (snd (recover good_recovery m1 g)) = fs"
      using recover_uncommitted [OF assms(1,2), of m1 good_recovery g] recover_idle [of m1 good_recovery g] by auto
  qed
qed

lemma settles_committed:
  assumes v: "list_all valid_op ops" "length ops < 2 ^ 32" "restartable ops" "ops_apply ops fs = Some fin"
    and g: "interrupted_by ops fs g" and m: "logFile m = Some (full_log tid ops)"
  shows "settles m g fin"
proof -
  have inv: "logFile m1 = Some (full_log tid ops) \<and> interrupted_by ops fs g1 \<or> logFile m1 = Some [] \<and> g1 = fin" if "restarts m g m1 g1" for m1 g1
    using that
  proof induction
    case no_restart
    show ?case using g m by simp
  next
    case (restart m1 g1 x ok m2 g2)
    then show ?case using recover_committed(2) [OF v, of g1 m1 tid x] recover_idle_file [of m1 x g1 ok m2 g2] by auto
  qed
  show ?thesis
    unfolding settles_def recovered_def
  proof (intro allI impI)
    fix m1 g1 assume "restarts m g m1 g1"
    from inv [OF this] show "snd (snd (recover good_recovery m1 g1)) = fin"
      using recover_committed(1) [OF v, of g1 m1 tid] recover_idle [of m1 good_recovery g1] by auto
  qed
qed

section \<open>Damaged entries\<close>

lemma parseEntry_checked:
  "parseEntry buf = Some e \<Longrightarrow> readUIntBytewise buf ENTRY_CHECKSUM_OFFSET = crc32c_compute 0 (take ENTRY_CHECKSUM_OFFSET buf)"
  by (auto simp: parseEntry_def entry_fields_def Let_def split: if_splits)

lemma read_uint_inj:
  assumes "off + 4 \<le> length xs" "length ys = length xs" "readUIntBytewise xs off = readUIntBytewise ys off"
  shows "segment xs off 4 = segment ys off 4"
proof -
  have "be_bytes 4 (be_value (segment zs off 4) :: u32) = segment zs off 4" if "length zs = length xs" for zs
    using be_bytes_value [of "segment zs off 4", where 'a = 32] assms(1) that by simp
  then show ?thesis using assms by (metis readUInt_value)
qed

lemma one_byte_rejected:
  assumes "parseEntry buf = Some e" "length buf = WAL_ENTRY_DISK_SIZE" "i < WAL_ENTRY_DISK_SIZE" "b \<noteq> buf ! i"
  shows "parseEntry (buf[i := b]) = None"
proof (rule ccontr)
  let ?O = ENTRY_CHECKSUM_OFFSET
  assume "parseEntry (buf[i := b]) \<noteq> None"
  then have c: "readUIntBytewise (buf[i := b]) ?O = crc32c_compute 0 (take ?O (buf[i := b]))" using parseEntry_checked by blast
  note c0 = parseEntry_checked [OF assms(1)]
  have sz: "WAL_ENTRY_DISK_SIZE = ?O + 4" by (simp add: wal_sizes)
  show False
  proof (cases "i < ?O")
    case True
    have "segment (buf[i := b]) ?O 4 = segment buf ?O 4" using True by (simp add: segment_def drop_update_cancel)
    then have "readUIntBytewise (buf[i := b]) ?O = readUIntBytewise buf ?O"
      using assms(2) sz by (simp add: readUInt_value)
    with c c0 have "crc32c_compute 0 ((take ?O buf)[i := b]) = crc32c_compute 0 (take ?O buf)"
      by (simp add: take_update_swap)
    moreover have l: "i < length (take ?O buf)" "b \<noteq> take ?O buf ! i" using True assms(2,4) sz by simp_all
    ultimately show False
      using crc_one_byte [OF l(2), of 0 "take i (take ?O buf)" "drop (Suc i) (take ?O buf)"] l(1)
      by (simp only: upd_conv_take_nth_drop id_take_nth_drop [symmetric])
  next
    case False
    then have "take ?O (buf[i := b]) = take ?O buf" by simp
    with c c0 have "readUIntBytewise (buf[i := b]) ?O = readUIntBytewise buf ?O" by simp
    then have "segment (buf[i := b]) ?O 4 = segment buf ?O 4" using assms(2) sz by (intro read_uint_inj) simp_all
    moreover have "segment (buf[i := b]) ?O 4 ! (i - ?O) = b" "segment buf ?O 4 ! (i - ?O) = buf ! i"
      using False assms(2,3) sz by (simp_all add: segment_def)
    ultimately show False using assms(4) by simp
  qed
qed

section \<open>Writing the log\<close>

text \<open>A transaction as its client writes it: every operation in turn, until one fails. \<open>wrote i\<close> is what
  \<open>fwrite\<close> returned for the \<open>i\<close>-th.\<close>

fun add_all :: "(nat \<Rightarrow> nat) \<Rightarrow> nat \<Rightarrow> wop list \<Rightarrow> wal_manager \<Rightarrow> bool \<times> wal_manager" where
  "add_all wrote i [] m = (True, m)"
| "add_all wrote i ((n, ty, a, b) # ops) m =
     (let (ok, m') = addLogEntry (wrote i) n ty a b (of_nat (length b)) m
      in if ok then add_all wrote (Suc i) ops m' else (False, m'))"

definition wf_manager :: "wal_manager \<Rightarrow> bool" where
  "wf_manager m \<longleftrightarrow> length (epayload (mentry m)) = WAL_PAYLOAD_LEN \<and> etrans (mentry m) = transID m \<and> logFile m \<noteq> None"

lemma build_op:
  assumes "valid_op (n, ty, a, b)" "length (epayload e) = WAL_PAYLOAD_LEN"
  shows "\<exists>e'. buildEntry e n ty a b (of_nat (length b)) = Some e' \<and> serializeEntry e' = op_bytes (etrans e) (n, ty, a, b) \<and>
    length (epayload e') = WAL_PAYLOAD_LEN \<and> etrans e' = etrans e"
proof -
  have v: "0 \<notin> set n" "length n < 260" "length b \<le> 4096" using assms(1) by (simp_all add: valid_op_def wal_sizes)
  have l: "unat (of_nat (length b) :: u16) = length b" using v(3) by (intro unat_len) (simp add: wal_sizes)
  define e' where "e' = e\<lparr>emagic := WAL_MAGIC OR type_code ty, efile := blit (replicate WAL_FILE_NAME_LEN 0) 0 n, eaddr := a,
      epayloadLen := of_nat (length b), epayload := (if length b > 0 then blit (epayload e) 0 b else epayload e)\<rparr>"
  have b: "buildEntry e n ty a b (of_nat (length b)) = Some e'"
    using v by (simp add: buildEntry_def l e'_def wal_sizes)
  have f: "blit (replicate WAL_FILE_NAME_LEN 0) 0 n = n @ replicate (WAL_FILE_NAME_LEN - length n) 0"
    using blit_fresh [of n WAL_FILE_NAME_LEN 0 "[]" 0] v by (simp add: WAL_FILE_NAME_LEN_def)
  have z: "(n @ replicate (WAL_FILE_NAME_LEN - length n) 0) ! (WAL_FILE_NAME_LEN - 1) = 0" using v by (simp add: nth_append WAL_FILE_NAME_LEN_def)
  have p: "take (length b) (epayload e') = b" using v assms(2) by (auto simp: e'_def blit_def wal_sizes)
  have lp: "length (epayload e') = WAL_PAYLOAD_LEN" using assms(2) v by (simp add: e'_def wal_sizes)
  have w: "wf_entry e'" unfolding wf_entry_def lp using v z by (simp add: e'_def f l WAL_PAYLOAD_LEN_def) (simp add: wal_sizes, blast)
  have wo: "wf_entry (op_entry (etrans e) (n, ty, a, b))" by (rule wf_op_entry [OF assms(1)])
  have "entry_head e' = entry_head (op_entry (etrans e) (n, ty, a, b))"
    unfolding entry_head_def using p by (simp add: op_entry_def e'_def f l)
  then have "serializeEntry e' = op_bytes (etrans e) (n, ty, a, b)"
    by (simp add: op_bytes_def serialize_layout [OF w] serialize_layout [OF wo])
  with b lp show ?thesis by (simp add: e'_def)
qed

lemma addLogEntry_op:
  assumes "valid_op op" "op = (n, ty, a, b)" "wf_manager m" "logOpen m" "logFile m = Some l"
  shows "\<exists>m'. addLogEntry w n ty a b (of_nat (length b)) m = (WAL_ENTRY_DISK_SIZE \<le> w, m') \<and>
    wf_manager m' \<and> logOpen m' \<and> transID m' = transID m \<and> logSynced m' = logSynced m \<and>
    logFile m' = Some (l @ take w (op_bytes (transID m) op)) \<and>
    numEntries m' = (if WAL_ENTRY_DISK_SIZE \<le> w then numEntries m + 1 else numEntries m)"
proof -
  have pl: "length (epayload (mentry m)) = WAL_PAYLOAD_LEN" and et: "etrans (mentry m) = transID m"
    using assms(3) by (simp_all add: wf_manager_def)
  obtain e' where e': "buildEntry (mentry m) n ty a b (of_nat (length b)) = Some e'" "serializeEntry e' = op_bytes (transID m) op"
      "length (epayload e') = WAL_PAYLOAD_LEN" "etrans e' = transID m"
    using build_op [OF assms(1) [unfolded assms(2)] pl] by (auto simp: et assms(2))
  show ?thesis
    by (simp add: addLogEntry_def Let_def e' assms(4,5) append_log_def wf_manager_def not_le)
qed

lemma add_all_log:
  assumes "list_all valid_op ops" "wf_manager m" "logOpen m" "logFile m = Some l" "logSynced m \<le> length l"
    "add_all wrote i ops m = (ok, m')"
  shows "if ok then logFile m' = Some (l @ log_bytes (transID m) ops) \<and> numEntries m' = numEntries m + of_nat (length ops)
           \<and> logOpen m' \<and> transID m' = transID m
         else \<exists>k < length (log_bytes (transID m) ops). logFile m' = Some (l @ take k (log_bytes (transID m) ops))"
  using assms
proof (induction ops arbitrary: i m l)
  case Nil
  then show ?case by (auto simp: log_bytes_def)
next
  case (Cons op ops)
  obtain n ty a b where op: "op = (n, ty, a, b)" by (cases op)
  let ?E = WAL_ENTRY_DISK_SIZE
  have v: "valid_op op" "list_all valid_op ops" using Cons.prems(1) by simp_all
  have len: "length (op_bytes (transID m) op) = ?E" by (rule length_op_bytes [OF v(1)])
  obtain m1 where m1: "addLogEntry (wrote i) n ty a b (of_nat (length b)) m = (?E \<le> wrote i, m1)"
     "wf_manager m1" "logOpen m1" "transID m1 = transID m" "logSynced m1 = logSynced m"
     "logFile m1 = Some (l @ take (wrote i) (op_bytes (transID m) op))"
     "numEntries m1 = (if ?E \<le> wrote i then numEntries m + 1 else numEntries m)"
    using addLogEntry_op [OF v(1) op Cons.prems(2-4)] by blast
  have lb: "log_bytes (transID m) (op # ops) = op_bytes (transID m) op @ log_bytes (transID m) ops" by (simp add: log_bytes_def)
  show ?case
  proof (cases "?E \<le> wrote i")
    case True
    have r: "add_all wrote (Suc i) ops m1 = (ok, m')" using Cons.prems(6) True by (simp add: op m1(1))
    have f: "logFile m1 = Some (l @ op_bytes (transID m) op)" using m1(6) True len by simp
    have s: "logSynced m1 \<le> length (l @ op_bytes (transID m) op)" using m1(5) Cons.prems(5) by simp
    have ih: "if ok then logFile m' = Some ((l @ op_bytes (transID m) op) @ log_bytes (transID m1) ops) \<and>
          numEntries m' = numEntries m1 + of_nat (length ops) \<and> logOpen m' \<and> transID m' = transID m1
        else \<exists>k < length (log_bytes (transID m1) ops). logFile m' = Some ((l @ op_bytes (transID m) op) @ take k (log_bytes (transID m1) ops))"
      by (rule Cons.IH [OF v(2) m1(2,3) f s r])
    show ?thesis
    proof (cases ok)
      case True
      with ih \<open>?E \<le> wrote i\<close> show ?thesis by (simp add: lb m1)
    next
      case False
      with ih obtain k where k: "k < length (log_bytes (transID m) ops)"
        "logFile m' = Some (l @ op_bytes (transID m) op @ take k (log_bytes (transID m) ops))"
        by (auto simp: m1)
      have "logFile m' = Some (l @ take (?E + k) (log_bytes (transID m) (op # ops)))" using k(2) len by (simp add: lb)
      moreover have "?E + k < length (log_bytes (transID m) (op # ops))" using k(1) len by (simp add: lb)
      ultimately show ?thesis using False by auto
    qed
  next
    case False
    then have "\<not> ok" "m' = m1" using Cons.prems(6) by (simp_all add: op m1(1))
    moreover have "logFile m' = Some (l @ take (wrote i) (log_bytes (transID m) (op # ops)))"
      using False m1(6) len \<open>m' = m1\<close> by (simp add: lb)
    moreover have "wrote i < length (log_bytes (transID m) (op # ops))" using False len by (simp add: lb)
    ultimately show ?thesis by auto
  qed
qed

definition write_commit :: "(nat \<Rightarrow> nat) \<Rightarrow> bool \<Rightarrow> nat \<Rightarrow> bool \<Rightarrow> wop list \<Rightarrow> wal_manager \<Rightarrow> bool \<times> wal_manager" where
  "write_commit wrote synced1 wroteMarker synced2 ops m =
     (let (ok, m1) = add_all wrote 0 ops m
      in if \<not> ok then (False, m1) else markLogCommitted synced1 wroteMarker synced2 m1)"

lemma initManager_fresh:
  assumes "initManager x m = (True, m0)" "length (epayload (mentry m)) = WAL_PAYLOAD_LEN"
  shows "wf_manager m0 \<and> logOpen m0 \<and> logFile m0 = Some [] \<and> numEntries m0 = 0"
  using assms
  by (auto simp: initManager_def ensureLogOpen_def openLog_append_def syncLog_def wf_manager_def initEntry_def Let_def
      split: prod.splits if_splits)

lemma write_commit_log:
  assumes v: "list_all valid_op ops" and m: "wf_manager m" "logOpen m" "logFile m = Some []" "logSynced m = 0" "numEntries m = 0"
    and w: "write_commit wrote synced1 wroteMarker synced2 ops m = (ok, m')"
  shows "\<exists>k \<le> length (full_log (transID m) ops). logFile m' = Some (take k (full_log (transID m) ops)) \<and>
           (length (log_bytes (transID m) ops) < k \<longrightarrow> length (log_bytes (transID m) ops) \<le> logSynced m') \<and>
           (ok \<longrightarrow> k = length (full_log (transID m) ops) \<and> logSynced m' = k)"
proof -
  let ?L = "log_bytes (transID m) ops" and ?F = "full_log (transID m) ops"
  let ?M = "commit_marker (of_nat (length ops)) (transID m)"
  have F: "?F = ?L @ ?M" by (simp add: full_log_def)
  obtain ok1 m1 where a: "add_all wrote 0 ops m = (ok1, m1)" by (cases "add_all wrote 0 ops m")
  have d: "if ok1 then logFile m1 = Some ([] @ ?L) \<and> numEntries m1 = numEntries m + of_nat (length ops) \<and> logOpen m1 \<and> transID m1 = transID m
      else \<exists>k < length ?L. logFile m1 = Some ([] @ take k ?L)"
    by (rule add_all_log [OF v m(1-3) _ a]) (simp add: m)
  show ?thesis
  proof (cases ok1)
    case False
    with d obtain k where k: "k < length ?L" "logFile m1 = Some (take k ?L)" by auto
    moreover have "ok = False" "m' = m1" using w a False by (simp_all add: write_commit_def)
    ultimately show ?thesis by (intro exI [of _ k]) (simp add: F)
  next
    case True
    with d m(5) have m1: "logFile m1 = Some ?L" "numEntries m1 = of_nat (length ops)" "logOpen m1" "transID m1 = transID m" by simp_all
    have w': "markLogCommitted synced1 wroteMarker synced2 m1 = (ok, m')" using w a True by (simp add: write_commit_def)
    show ?thesis
    proof (cases synced1)
      case False
      with w' m1 have "ok = False" "logFile m' = Some ?L" by (auto simp: markLogCommitted_def syncLog_def)
      then show ?thesis by (intro exI [of _ "length ?L"]) (simp add: F)
    next
      case s1: True
      have len: "length ?M = WAL_COMMIT_DISK_SIZE" by (rule length_commit_marker)
      have f: "logFile m' = Some (?L @ take wroteMarker ?M)" and s: "length ?L \<le> logSynced m'"
        and o: "ok = (WAL_COMMIT_DISK_SIZE \<le> wroteMarker \<and> synced2)"
        and so: "ok \<Longrightarrow> logSynced m' = length (?L @ take wroteMarker ?M)"
        using w' m1 s1 len by (auto simp: markLogCommitted_def syncLog_def append_log_def not_less Let_def split: if_splits)
      show ?thesis
      proof (intro exI [of _ "length ?L + min wroteMarker (length ?M)"] conjI impI)
        show "logFile m' = Some (take (length ?L + min wroteMarker (length ?M)) ?F)"
          by (cases "wroteMarker \<le> length ?M") (simp_all add: f F)
      qed (use s o so len in \<open>auto simp: F min_def\<close>)
    qed
  qed
qed

section \<open>Properties\<close>

text \<open>C2: A commit is atomic. Let the log of a transaction be its entries and the commit marker, as the program
  writes it. If a crash leaves any proper prefix of it, recovery discards it and leaves every file as it was. If
  a crash leaves all of it, and the files in any state reachable by making operations of the transaction in any
  order, whole or with any bytes in place of what they write, recovery brings the files to exactly the state
  the whole transaction produces, and empties the log.\<close>

theorem commit_atomic:
  assumes "list_all valid_op ops" "length ops < 2 ^ 32" "restartable ops" "ops_apply ops fs = Some fin"
  shows "(\<forall>k < length (full_log tid ops). \<forall>m x. logFile m = Some (take k (full_log tid ops)) \<longrightarrow>
            logFound x \<longrightarrow> logReopened x \<longrightarrow> logResynced x \<longrightarrow> (\<exists>m'. recover x m fs = (True, m', fs) \<and> logFile m' = Some [])) \<and>
         (\<forall>g m. interrupted_by ops fs g \<longrightarrow> logFile m = Some (full_log tid ops) \<longrightarrow>
            (\<exists>m'. recover good_recovery m g = (True, m', fin) \<and> logFile m' = Some []))"
proof (intro conjI allI impI)
  fix k and m :: wal_manager and x :: recover_calls
  assume k: "k < length (full_log tid ops)" and m: "logFile m = Some (take k (full_log tid ops))"
    and x: "logFound x" "logReopened x" "logResynced x"
  from recover_uncommitted [OF assms(1) k m, of x fs] x show "\<exists>m'. recover x m fs = (True, m', fs) \<and> logFile m' = Some []" by auto
next
  fix g and m :: wal_manager
  assume "interrupted_by ops fs g" "logFile m = Some (full_log tid ops)"
  then show "\<exists>m'. recover good_recovery m g = (True, m', fin) \<and> logFile m' = Some []" by (rule recover_committed(1) [OF assms])
qed

definition ex_files :: files where "ex_files = (\<lambda>n. if n = [116] then Some [1, 2, 3, 4] else None)"
definition ex_ops :: "wop list" where
  "ex_ops = [([116], WAL_PAGE, 1, [9, 8]), ([117], WAL_FILE_CREATE, 0, []), ([117], WAL_META, 0, [5]), ([116], WAL_NODE, 3, [7, 7])]"
definition ex_final :: files where
  "ex_final = (\<lambda>n. if n = [116] then Some [1, 9, 8, 7, 7] else if n = [117] then Some [5] else None)"

lemma ex_ops_ok:
  "list_all valid_op ex_ops" "length ex_ops < 2 ^ 32" "restartable ex_ops" "ops_apply ex_ops ex_files = Some ex_final"
proof -
  show "ops_apply ex_ops ex_files = Some ex_final"
    by (auto simp: ex_ops_def ex_files_def ex_final_def op_apply_def write_at_def fun_eq_iff)
qed (simp_all add: ex_ops_def valid_op_def wal_sizes restartable_def file_ops_def is_write_def)

definition ex_manager :: wal_manager where
  "ex_manager = \<lparr>mentry = \<lparr>emagic = 0, etrans = 7, efile = [], eaddr = 0, epayloadLen = 0, epayload = replicate WAL_PAYLOAD_LEN 0, echecksum = 0\<rparr>,
     numEntries = 0, transID = 7, seeded = True, logOpen = True, logFile = Some [], logSynced = 0, logNamed = True\<rparr>"

theorem commit_atomic_witness:
  "\<exists>m'. recover good_recovery (ex_manager\<lparr>logFile := Some (take 5000 (full_log 7 ex_ops))\<rparr>) ex_files = (True, m', ex_files) \<and> logFile m' = Some []"
proof -
  have "length (full_log 7 ex_ops) = 4 * WAL_ENTRY_DISK_SIZE + 16"
    by (simp add: full_log_def length_log_bytes [OF ex_ops_ok(1)] length_commit_marker WAL_COMMIT_DISK_SIZE_def) (simp add: ex_ops_def)
  then have "5000 < length (full_log 7 ex_ops)" by (simp add: WAL_ENTRY_DISK_SIZE_def WAL_FILE_NAME_LEN_def WAL_PAYLOAD_LEN_def)
  with conjunct1 [OF commit_atomic [OF ex_ops_ok, of 7]] show ?thesis by simp
qed

text \<open>C11: Recovery can itself fail or crash at any point and be started again. Whatever the calls it makes do (not open, not seek,
  read, sync or write, or write only a part), it keeps the whole log or empties it, and the files stay in a state that making
  the operations leads to. As long as the log is opened, measured and, in the second pass, read (\<open>log_read\<close>), it
  either reports failure, keeps the whole log and leaves files that any later recovery finishes (\<open>settles\<close>), or has finished
  the transaction and emptied the log: then it never reports success with the transaction unfinished. Without those calls it
  does, which the three theorems behind this one show.\<close>

theorem recovery_restart:
  assumes "list_all valid_op ops" "length ops < 2 ^ 32" "restartable ops" "ops_apply ops fs = Some fin" "interrupted_by ops fs g"
    "logFile m = Some (full_log tid ops)"
  shows "\<exists>ok m' g'. recover x m g = (ok, m', g') \<and> interrupted_by ops fs g' \<and>
           (logFile m' = Some (full_log tid ops) \<or> logFile m' = Some []) \<and>
           (log_read x \<longrightarrow> logFile m' = Some (full_log tid ops) \<and> \<not> ok \<and> settles m' g' fin \<or>
              logFile m' = Some [] \<and> ok = logResynced x \<and> g' = fin)"
proof -
  obtain ok m' g' where r: "recover x m g = (ok, m', g')" "interrupted_by ops fs g'"
      "logFile m' = Some (full_log tid ops) \<or> logFile m' = Some []"
      "log_read x \<longrightarrow> logFile m' = Some (full_log tid ops) \<and> \<not> ok \<or> logFile m' = Some [] \<and> ok = logResynced x \<and> g' = fin"
    using recover_committed(2) [OF assms, of x] by blast
  have "settles m' g' fin" if "logFile m' = Some (full_log tid ops)" by (rule settles_committed [OF assms(1-4) r(2) that])
  with r show ?thesis by blast
qed

theorem recovery_restart_witness:
  "\<exists>ok m' g'. recover (good_recovery\<lparr>applyOuts := (\<lambda>i. if i = 2 then Some 0 else None)\<rparr>)
       (ex_manager\<lparr>logFile := Some (full_log 7 ex_ops)\<rparr>) ex_files = (ok, m', g') \<and> interrupted_by ex_ops ex_files g' \<and>
     (logFile m' = Some (full_log 7 ex_ops) \<and> \<not> ok \<and> settles m' g' ex_final \<or> logFile m' = Some [] \<and> ok = True \<and> g' = ex_final)"
proof -
  let ?x = "good_recovery\<lparr>applyOuts := (\<lambda>i. if i = 2 then Some 0 else None)\<rparr>" and ?m = "ex_manager\<lparr>logFile := Some (full_log 7 ex_ops)\<rparr>"
  have "log_read ?x" "logResynced ?x = True" "logFile ?m = Some (full_log 7 ex_ops)" by (simp_all add: log_read_def good_recovery_def)
  moreover obtain ok m' g' where r: "recover ?x ?m ex_files = (ok, m', g')" "interrupted_by ex_ops ex_files g'"
      "log_read ?x \<longrightarrow> logFile m' = Some (full_log 7 ex_ops) \<and> \<not> ok \<and> settles m' g' ex_final \<or>
         logFile m' = Some [] \<and> ok = logResynced ?x \<and> g' = ex_final"
    using recovery_restart [OF ex_ops_ok interrupted_by.untouched calculation(3), of ?x] by blast
  ultimately show ?thesis by blast
qed

text \<open>Three failures that recovery does not see. A log that exists and cannot be opened is taken for no log: recovery reports
  success, and the database starts on half-written files, with the log still there.\<close>

theorem unopened_log_ignored:
  assumes "\<not> logFound x" shows "recover x m fs = (True, m\<lparr>logOpen := False\<rparr>, fs)"
  using assms by (simp add: recover_def)

text \<open>A log that cannot be measured, or whose last bytes cannot be read, is taken for an uncommitted one: a committed transaction is
  thrown away with its changes half made.\<close>

theorem unread_marker_discards:
  assumes "logFile m = Some (full_log tid ops)" "logFound x" "\<not> (sizeFound x \<and> markerRead x)" "logReopened x" "logResynced x"
  shows "\<exists>m'. recover x m g = (True, m', g) \<and> logFile m' = Some []"
proof -
  obtain reset m1 where b: "resetLog (logReopened x) (logResynced x) (m\<lparr>logOpen := True, mentry := mentry m\<rparr>) = (reset, m1)"
    by (cases "resetLog (logReopened x) (logResynced x) (m\<lparr>logOpen := True, mentry := mentry m\<rparr>)")
  have "\<not> checkSynced a (full_log tid ops)" for a
    by (simp add: checkSynced_def full_log_def length_commit_marker WAL_COMMIT_DISK_SIZE_def flip: length_greater_0_conv)
  then show ?thesis using assms b resetLog_file [OF b] by (auto simp: recover_def checkCommitted_def Let_def)
qed

text \<open>An entry that is verified and then cannot be read again is skipped, and the one read before it is made once more; the log is
  emptied all the same.\<close>

theorem unread_entry_skipped:
  "\<exists>m' g'. recover (good_recovery\<lparr>secondRead := (\<lambda>i. i \<noteq> 0)\<rparr>) (ex_manager\<lparr>logFile := Some (full_log 7 ex_ops)\<rparr>) ex_files = (True, m', g') \<and>
     logFile m' = Some [] \<and> g' [116] = Some [1, 2, 3, 7, 7] \<and> ex_final [116] = Some [1, 9, 8, 7, 7]"
proof -
  let ?x = "good_recovery\<lparr>secondRead := (\<lambda>i. i \<noteq> 0)\<rparr>" and ?m = "ex_manager\<lparr>logFile := Some (full_log 7 ex_ops)\<rparr>"
  have ops: "reread (secondRead ?x) 0 (last ex_ops) ex_ops = last ex_ops # tl ex_ops" by (simp add: ex_ops_def)
  have h: "ops_apply (last ex_ops # tl ex_ops) ex_files = Some (ex_files([116] \<mapsto> [1, 2, 3, 7, 7], [117] \<mapsto> [5]))"
    by (auto simp: ex_ops_def ex_files_def op_apply_def write_at_def fun_eq_iff)
  have "\<exists>m'. recover ?x ?m ex_files = (True, m', ex_files([116] \<mapsto> [1, 2, 3, 7, 7], [117] \<mapsto> [5])) \<and> logFile m' = Some []"
    by (rule recover_committed(3) [OF ex_ops_ok interrupted_by.untouched, where tid = 7])
      (use h in \<open>simp_all add: good_recovery_def ops [unfolded good_recovery_def, simplified]\<close>)
  then show ?thesis by (auto simp: ex_final_def)
qed

text \<open>C12: A transaction is logged as its entries and the commit marker, and the marker is never ahead of them:
  whatever \<open>fwrite\<close> and the syncs do, the log file is a prefix of the full log, a byte of the marker is in it
  only when every entry is durable, and a commit that reports success has the whole log durable. The count and
  the transaction id of the marker are those recovery checks.\<close>

theorem log_written:
  assumes "list_all valid_op ops" "wf_manager m" "logOpen m" "logFile m = Some []" "logSynced m = 0" "numEntries m = 0"
    "write_commit wrote synced1 wroteMarker synced2 ops m = (ok, m')"
  shows "\<exists>k \<le> length (full_log (transID m) ops). logFile m' = Some (take k (full_log (transID m) ops)) \<and>
           (length (log_bytes (transID m) ops) < k \<longrightarrow> length (log_bytes (transID m) ops) \<le> logSynced m') \<and>
           (ok \<longrightarrow> k = length (full_log (transID m) ops) \<and> logSynced m' = k)"
  by (rule write_commit_log [OF assms])

theorem log_written_witness:
  "\<exists>k \<le> length (full_log 7 ex_ops).
     logFile (snd (write_commit (\<lambda>_. 5000) True 16 True ex_ops ex_manager)) = Some (take k (full_log 7 ex_ops))"
proof -
  have m: "wf_manager ex_manager" "logOpen ex_manager" "logFile ex_manager = Some []" "logSynced ex_manager = 0" "numEntries ex_manager = 0"
    "transID ex_manager = 7"
    by (simp_all add: ex_manager_def wf_manager_def)
  have "write_commit (\<lambda>_. 5000) True 16 True ex_ops ex_manager
      = (fst (write_commit (\<lambda>_. 5000) True 16 True ex_ops ex_manager), snd (write_commit (\<lambda>_. 5000) True 16 True ex_ops ex_manager))" by simp
  from log_written [OF ex_ops_ok(1) m(1-5) this] show ?thesis unfolding m(6) by blast
qed

text \<open>C20: An entry of the log round-trips: an operation is read back with its file name, kind, address, bytes and
  transaction id. An entry with any one byte changed is rejected.\<close>

theorem entry_roundtrip:
  assumes "valid_op (name, ty, addr, data)"
  shows "\<exists>e. parseEntry (op_bytes tid (name, ty, addr, data)) = Some e \<and> entry_name e = name \<and> entry_code e = type_code ty \<and>
           eaddr e = addr \<and> etrans e = tid \<and> take (unat (epayloadLen e)) (epayload e) = data \<and>
           (\<forall>i < WAL_ENTRY_DISK_SIZE. \<forall>b. b \<noteq> op_bytes tid (name, ty, addr, data) ! i \<longrightarrow>
              parseEntry ((op_bytes tid (name, ty, addr, data))[i := b]) = None)"
proof -
  obtain c where p: "parseEntry (op_bytes tid (name, ty, addr, data)) = Some ((op_entry tid (name, ty, addr, data))\<lparr>echecksum := c\<rparr>)"
    using parse_op_bytes [OF assms] by blast
  show ?thesis
    using p op_entry_fields [OF assms] one_byte_rejected [OF p length_op_bytes [OF assms]]
    by (intro exI [of _ "(op_entry tid (name, ty, addr, data))\<lparr>echecksum := c\<rparr>"]) blast
qed

theorem entry_roundtrip_witness:
  "\<exists>e. parseEntry (op_bytes 7 ([116], WAL_PAGE, 1, [9, 8])) = Some e \<and> entry_name e = [116] \<and> eaddr e = 1"
proof -
  have "valid_op ([116], WAL_PAGE, 1, [9, 8])" by (simp add: valid_op_def wal_sizes)
  from entry_roundtrip [OF this, of 7] show ?thesis by blast
qed

text \<open>C24: The generator of transaction ids never overflows its 64-bit intermediate result, for any previous id,
  so it is the linear congruential generator it is meant to be, with values below \<open>TRANS_ID_MOD\<close>.\<close>

theorem transaction_id_bounds:
  "unat (getTransID xn) = (unat xn * 1007683 + 54321) mod (2 ^ 31 - 1) \<and> unat (getTransID xn) < 2 ^ 31 - 1"
proof -
  have x: "unat xn < 2 ^ 32" using unsigned_less [of xn] by simp
  have p: "unat (ucast xn * TRANS_ID_MULTIPLIER + TRANS_ID_INCREMENT) = unat xn * 1007683 + 54321"
    using x unfolding TRANS_ID_MULTIPLIER_def TRANS_ID_INCREMENT_def
    by (simp add: unat_word_ariths unsigned_ucast_eq take_bit_eq_mod)
  have "unat (getTransID xn) = unat ((ucast xn * TRANS_ID_MULTIPLIER + TRANS_ID_INCREMENT) mod TRANS_ID_MOD) mod 2 ^ 32"
    by (simp add: getTransID_def unsigned_ucast_eq take_bit_eq_mod)
  also have "\<dots> = (unat xn * 1007683 + 54321) mod (2 ^ 31 - 1)"
    by (simp add: unat_mod_distrib p TRANS_ID_MOD_def)
  finally show ?thesis by simp
qed

text \<open>C25: A failed directory sync is forgotten. When the log is created and the sync of its directory fails,
  \<open>initManager\<close> reports the failure, but it leaves the log open; the next transaction then starts without any
  directory sync, and the log it commits to may lose its name in a crash.\<close>

definition good_start :: start_calls where
  "good_start = \<lparr>probeOpened = True, logOpened = True, logSyncedNew = True, logDirSynced = True, logSeeked = True, logTold = True\<rparr>"

theorem failed_directory_sync_forgotten:
  assumes "logFile m = None" "\<not> logOpen m" "logSeeked x" "logTold x"
  shows "\<exists>m1 m2. initManager (good_start\<lparr>logDirSynced := False\<rparr>) m = (False, m1) \<and> initManager (x\<lparr>logDirSynced := False\<rparr>) m1 = (True, m2) \<and> \<not> logNamed m2"
  using assms by (auto simp: good_start_def initManager_def ensureLogOpen_def openLog_append_def syncLog_def Let_def)

theorem failed_directory_sync_forgotten_witness:
  "\<exists>m1 m2. initManager (good_start\<lparr>logDirSynced := False\<rparr>) (ex_manager\<lparr>logFile := None, logOpen := False\<rparr>) = (False, m1) \<and>
     initManager (good_start\<lparr>logDirSynced := False\<rparr>) m1 = (True, m2) \<and> \<not> logNamed m2"
  by (rule failed_directory_sync_forgotten) (simp_all add: good_start_def)

end
