(* ===== verification/Tables.thy ===== *)
theory Tables
  imports NodeCache Files SlottedPage AddrTable "HOL-Library.Signed_Division"
begin

text \<open>
  The table struct of \<open>storage_engine/tableIO.h\<close>, how a table is set up, its header in the file, and the layout of
  stripes from which pages and nodes are allocated (\<open>tableIO.c\<close>). C \<open>int\<close> fields are integers, converted to
  \<open>uint64_t\<close> and \<open>uint32_t\<close> where the code converts them. The file behind \<open>source\<close> is part of the directory
  (\<open>Files\<close>), under the table's name; \<open>cursor\<close>, which only the unfinished garbage collection reads, is left out.
\<close>

section \<open>Data\<close>

text \<open>What a statement set aside for an address: whether there was a pending version, and that version.\<close>

record 'v undo_entry =
  present :: bool
  prior :: "'v option"

record statement_undo =
  uactive :: bool
  upages :: "slotted_page undo_entry addr_table"
  unodes :: "node undo_entry addr_table"
  udeletes :: "unit undo_entry addr_table"
  upageFree :: address
  unodeFree :: address
  uroot :: address
  upageStripes :: int
  unodeStripes :: int

record table =
  pageDirty :: "slotted_page addr_table"
  nodeDirty :: "node addr_table"
  delete :: "unit addr_table"
  nodeCache :: node_cache
  undo :: statement_undo
  hasSource :: bool
  isNew :: bool
  tname :: fname
  pageFree :: address
  nodeFree :: address
  root :: address
  metalen :: int
  pageStripes :: int
  pageStripeLen :: int
  nodeStripes :: int
  nodeStripeLen :: int
  pageNodeRatio :: int
  pageSize :: int
  nodeSize :: int
  maxChildren :: int        \<comment> \<open>\<open>M\<close>\<close>
  keyType :: ordering_type

definition MAGIC :: u32 where "MAGIC = 0xFACE341D"
definition METALEN :: nat where "METALEN = 17"
definition TABLE_EXTENSION :: fname where "TABLE_EXTENSION = [46, 116, 98, 108]"    \<comment> \<open>\<open>.tbl\<close>\<close>

definition PAGE_HEADER_DISK_SIZE :: "nat \<Rightarrow> nat" where "PAGE_HEADER_DISK_SIZE ks = 1 + 2 * ks + 24"
definition NODE_HEADER_DISK_SIZE :: "nat \<Rightarrow> nat" where "NODE_HEADER_DISK_SIZE ks = 30 + ks"
definition NODE_DISK_SIZE :: "nat \<Rightarrow> nat" where "NODE_DISK_SIZE ks = NODE_HEADER_DISK_SIZE ks + M_GLOBAL * (8 + ks)"

lemmas disk_sizes = PAGE_HEADER_DISK_SIZE_def NODE_HEADER_DISK_SIZE_def NODE_DISK_SIZE_def SP_SLOT_DISK_SIZE_def
  orderingKeyDiskSize_def TEXT_KEY_MAX_LEN_def NUMERIC_KEY_DISK_SIZE_def M_GLOBAL_def PAGE_SIZE_def

section \<open>Setting a table up\<close>

definition keyDiskSize :: "table \<Rightarrow> nat" where
  "keyDiskSize t = orderingKeyDiskSize (keyType t)"

text \<open>In \<open>uint32_t\<close>.\<close>

definition pageCapacity :: "table \<Rightarrow> nat" where
  "pageCapacity t = unat (word_of_int (pageSize t) - of_nat (PAGE_HEADER_DISK_SIZE (keyDiskSize t)) :: u32)"

definition no_undo :: statement_undo where
  "no_undo = \<lparr>uactive = False, upages = initAddrTable, unodes = initAddrTable, udeletes = initAddrTable, upageFree = 0,
     unodeFree = 0, uroot = 0, upageStripes = 0, unodeStripes = 0\<rparr>"

text \<open>\<open>initDirtyHashmaps\<close>.\<close>

definition initDirtyHashmaps :: "table \<Rightarrow> table" where
  "initDirtyHashmaps t = t\<lparr>pageDirty := initAddrTable, nodeDirty := initAddrTable, delete := initAddrTable, undo := no_undo\<rparr>"

definition initTable :: "fname \<Rightarrow> ordering_type \<Rightarrow> table" where
  "initTable name ty =
     (let mlen = METALEN * 4; nsize = NODE_DISK_SIZE (orderingKeyDiskSize ty)
      in initDirtyHashmaps
           \<lparr>pageDirty = initAddrTable, nodeDirty = initAddrTable, delete = initAddrTable, nodeCache = nodeCacheInit (1 + M_GLOBAL),
            undo = no_undo, hasSource = False, isNew = False, tname = name,
            pageFree = of_nat mlen + 1 * of_nat nsize, nodeFree = of_nat mlen, root = 0, metalen = int mlen,
            pageStripes = 1, pageStripeLen = 1, nodeStripes = 1, nodeStripeLen = 1, pageNodeRatio = int (M_GLOBAL div 2),
            pageSize = int PAGE_SIZE, nodeSize = int nsize, maxChildren = int M_GLOBAL, keyType = ty\<rparr>)"

definition newTable :: "fname \<Rightarrow> ordering_type \<Rightarrow> table" where
  "newTable name ty = (initTable name ty)\<lparr>isNew := True\<rparr>"

section \<open>The header in the file\<close>

fun key_type_code :: "ordering_type \<Rightarrow> u32" where
  "key_type_code ORDERING_ULONG = 0" | "key_type_code ORDERING_STRING = 1" | "key_type_code ORDERING_DOUBLE = 2"

definition hi32 :: "u64 \<Rightarrow> u32" where "hi32 x = ucast (drop_bit 32 x)"
definition lo32 :: "u64 \<Rightarrow> u32" where "lo32 x = ucast (x AND 0xFFFFFFFF)"
definition join64 :: "u32 \<Rightarrow> u32 \<Rightarrow> u64" where "join64 hi lo = push_bit 32 (ucast hi) OR ucast lo"

definition fillMeta :: "table \<Rightarrow> u32 list" where
  "fillMeta t =
     [MAGIC, word_of_int (metalen t), word_of_int (pageStripes t), word_of_int (nodeStripes t), word_of_int (pageNodeRatio t),
      word_of_int (pageStripeLen t), word_of_int (nodeStripeLen t), word_of_int (pageSize t), word_of_int (nodeSize t),
      hi32 (pageFree t), lo32 (pageFree t), hi32 (nodeFree t), lo32 (nodeFree t), hi32 (root t), lo32 (root t),
      word_of_int (maxChildren t), key_type_code (keyType t)]"

text \<open>\<open>buf\<close> is the array after \<open>fread\<close>; \<open>None\<close> is the returned \<open>false\<close>. The sizes are compared as the code does: the
  lower bound in \<open>uint32_t\<close>, the upper one in \<open>int\<close>.\<close>

definition loadMeta :: "u32 list \<Rightarrow> table \<Rightarrow> table option" where
  "loadMeta buf t =
     (if buf ! 16 \<noteq> key_type_code ORDERING_ULONG \<and> buf ! 16 \<noteq> key_type_code ORDERING_STRING \<and> buf ! 16 \<noteq> key_type_code ORDERING_DOUBLE
      then None
      else let ty = (if buf ! 16 = key_type_code ORDERING_ULONG then ORDERING_ULONG
                     else if buf ! 16 = key_type_code ORDERING_STRING then ORDERING_STRING else ORDERING_DOUBLE);
               ks = orderingKeyDiskSize ty; psize = sint (buf ! 7); nsize = sint (buf ! 8)
      in if (word_of_int psize :: u32) < of_nat (PAGE_HEADER_DISK_SIZE ks + SP_SLOT_DISK_SIZE ks) \<or> psize > 1024 * 64 then None
         else if (word_of_int nsize :: u32) < of_nat (NODE_DISK_SIZE ks) \<or> nsize > 1024 * 64 then None
         else Some (t\<lparr>hasSource := True, metalen := sint (buf ! 1), pageStripes := sint (buf ! 2), nodeStripes := sint (buf ! 3),
                      pageNodeRatio := sint (buf ! 4), pageStripeLen := sint (buf ! 5), nodeStripeLen := sint (buf ! 6),
                      keyType := ty, pageSize := psize, nodeSize := nsize, pageFree := join64 (buf ! 9) (buf ! 10),
                      nodeFree := join64 (buf ! 11) (buf ! 12), root := join64 (buf ! 13) (buf ! 14),
                      maxChildren := sint (buf ! 15)\<rparr>))"

text \<open>The header's words in the file are in the byte order of the host, taken to be little-endian.\<close>

definition native_bytes :: "u32 \<Rightarrow> byte list" where "native_bytes w = rev (be_bytes 4 w)"
definition native_word :: "byte list \<Rightarrow> u32" where "native_word bs = be_value (rev bs)"

definition meta_bytes :: "table \<Rightarrow> byte list" where
  "meta_bytes t = concat (map native_bytes (fillMeta t))"

definition tableFile :: "table \<Rightarrow> fname" where
  "tableFile t = tname t @ TABLE_EXTENSION"

definition writeMeta :: "table \<Rightarrow> byte list \<Rightarrow> byte list" where
  "writeMeta t file = write_at file 0 (meta_bytes t)"

text \<open>\<open>strrchr(fname, '.')\<close>.\<close>

definition extension :: "fname \<Rightarrow> fname option" where
  "extension name = (if 46 \<in> set name then Some (46 # rev (takeWhile (\<lambda>c. c \<noteq> 46) (rev name))) else None)"

definition validateTableFile :: "byte list \<Rightarrow> fname \<Rightarrow> bool" where
  "validateTableFile file name =
     (if extension name \<noteq> Some TABLE_EXTENSION then False
      else if length file < 4 then False
      else native_word (take 4 file) = MAGIC)"

text \<open>\<open>fread\<close> into an array of \<open>METALEN\<close> words that holds \<open>junk\<close>.\<close>

definition read_words :: "u32 list \<Rightarrow> byte list \<Rightarrow> u32 list" where
  "read_words junk file =
     (let n = min METALEN (length file div 4)
      in map (\<lambda>i. native_word (segment file (4 * i) 4)) [0..<n] @ drop n junk)"

definition loadTable :: "u32 list \<Rightarrow> fname \<Rightarrow> files \<Rightarrow> table \<Rightarrow> table option" where
  "loadTable junk name fs t =
     (let fname = name @ TABLE_EXTENSION
      in case fs fname of None \<Rightarrow> None
      | Some file \<Rightarrow>
          if \<not> validateTableFile file fname then None
          else case loadMeta (read_words junk file) (t\<lparr>hasSource := True, isNew := False, tname := name\<rparr>) of None \<Rightarrow> None
          | Some t1 \<Rightarrow> Some ((initDirtyHashmaps t1)\<lparr>nodeCache := nodeCacheInit (1 + M_GLOBAL)\<rparr>))"

section \<open>Stripes\<close>

text \<open>All in \<open>uint64_t\<close>.\<close>

abbreviation u64i :: "int \<Rightarrow> u64" where "u64i \<equiv> word_of_int"

definition unitByteSize :: "table \<Rightarrow> u64" where
  "unitByteSize t = u64i (nodeStripeLen t) * u64i (nodeSize t) + u64i (pageNodeRatio t) * u64i (pageStripeLen t) * u64i (pageSize t)"

definition unitStart :: "table \<Rightarrow> int \<Rightarrow> address" where
  "unitStart t unitIndex = u64i (metalen t) + u64i unitIndex * unitByteSize t"

text \<open>\<open>None\<close>: a division by zero.\<close>

definition currentPageStripeStart :: "table \<Rightarrow> address option" where
  "currentPageStripeStart t =
     (if pageNodeRatio t = 0 then None
      else let stripeIdx = pageStripes t - 1;
               unitIndex = stripeIdx sdiv pageNodeRatio t;
               posInUnit = stripeIdx smod pageNodeRatio t
           in Some (unitStart t unitIndex + u64i (nodeStripeLen t) * u64i (nodeSize t)
                    + u64i posInUnit * u64i (pageStripeLen t) * u64i (pageSize t)))"

definition currentNodeStripeStart :: "table \<Rightarrow> address" where
  "currentNodeStripeStart t = unitStart t (nodeStripes t - 1)"

definition newPageStripe :: "table \<Rightarrow> table option" where
  "newPageStripe t =
     (let t1 = t\<lparr>pageStripes := pageStripes t + 1\<rparr>
      in case currentPageStripeStart t1 of None \<Rightarrow> None | Some a \<Rightarrow> Some (t1\<lparr>pageFree := a\<rparr>))"

definition newNodeStripe :: "table \<Rightarrow> table" where
  "newNodeStripe t =
     (let t1 = t\<lparr>nodeStripes := nodeStripes t + 1\<rparr> in t1\<lparr>nodeFree := currentNodeStripeStart t1\<rparr>)"

definition allocPage :: "table \<Rightarrow> (address \<times> table) option" where
  "allocPage t =
     (case currentPageStripeStart t of None \<Rightarrow> None
      | Some start \<Rightarrow>
          case (if pageFree t \<ge> start + u64i (pageStripeLen t) * u64i (pageSize t) then newPageStripe t else Some t) of
            None \<Rightarrow> None
          | Some t1 \<Rightarrow> Some (pageFree t1, t1\<lparr>pageFree := pageFree t1 + u64i (pageSize t)\<rparr>))"

definition allocNode :: "table \<Rightarrow> address \<times> table" where
  "allocNode t =
     (let t1 = (if nodeFree t \<ge> currentNodeStripeStart t + u64i (nodeStripeLen t) * u64i (nodeSize t) then newNodeStripe t else t)
      in (nodeFree t1, t1\<lparr>nodeFree := nodeFree t1 + u64i (nodeSize t)\<rparr>))"

section \<open>Where the objects lie\<close>

definition unit_bytes :: "table \<Rightarrow> nat" where
  "unit_bytes t = nat (nodeStripeLen t) * nat (nodeSize t) + nat (pageNodeRatio t) * nat (pageStripeLen t) * nat (pageSize t)"

text \<open>Where page stripe number \<open>s\<close> and node stripe number \<open>s\<close> start.\<close>

definition page_stripe :: "table \<Rightarrow> nat \<Rightarrow> nat" where
  "page_stripe t s = nat (metalen t) + (s div nat (pageNodeRatio t)) * unit_bytes t + nat (nodeStripeLen t) * nat (nodeSize t)
     + (s mod nat (pageNodeRatio t)) * nat (pageStripeLen t) * nat (pageSize t)"

definition node_stripe :: "table \<Rightarrow> nat \<Rightarrow> nat" where
  "node_stripe t s = nat (metalen t) + s * unit_bytes t"

definition page_at :: "table \<Rightarrow> nat \<Rightarrow> nat" where
  "page_at t i = page_stripe t (i div nat (pageStripeLen t)) + (i mod nat (pageStripeLen t)) * nat (pageSize t)"

definition node_at :: "table \<Rightarrow> nat \<Rightarrow> nat" where
  "node_at t j = node_stripe t (j div nat (nodeStripeLen t)) + (j mod nat (nodeStripeLen t)) * nat (nodeSize t)"

definition layout_ok :: "table \<Rightarrow> bool" where
  "layout_ok t \<longleftrightarrow> 0 \<le> metalen t \<and> 0 < pageStripeLen t \<and> 0 < nodeStripeLen t \<and> 0 < pageNodeRatio t \<and> 0 < pageSize t \<and> 0 < nodeSize t"

text \<open>\<open>c\<close> pages and \<open>d\<close> nodes have been allocated.\<close>

definition allocated :: "table \<Rightarrow> nat \<Rightarrow> nat \<Rightarrow> bool" where
  "allocated t c d \<longleftrightarrow> layout_ok t \<and>
     (\<exists>s k. pageStripes t = int s + 1 \<and> k \<le> nat (pageStripeLen t) \<and> c = s * nat (pageStripeLen t) + k \<and>
        pageFree t = of_nat (page_stripe t s + k * nat (pageSize t))) \<and>
     (\<exists>s k. nodeStripes t = int s + 1 \<and> k \<le> nat (nodeStripeLen t) \<and> d = s * nat (nodeStripeLen t) + k \<and>
        nodeFree t = of_nat (node_stripe t s + k * nat (nodeSize t)))"

text \<open>The fields as naturals.\<close>

lemma layout_nats:
  assumes "layout_ok t"
  obtains H L R K P N where "metalen t = int H" "pageStripeLen t = int L" "pageNodeRatio t = int R" "nodeStripeLen t = int K"
    "pageSize t = int P" "nodeSize t = int N" "0 < L" "0 < R" "0 < K" "0 < P" "0 < N"
proof -
  have pos: "\<exists>n. x = int n \<and> 0 < n" if "0 < x" for x using that zero_less_imp_eq_int by blast
  obtain H where "metalen t = int H" using assms unfolding layout_ok_def by (metis nonneg_int_cases)
  with pos [of "pageStripeLen t"] pos [of "pageNodeRatio t"] pos [of "nodeStripeLen t"] pos [of "pageSize t"] pos [of "nodeSize t"]
  show thesis using assms that unfolding layout_ok_def by blast
qed

lemma u64i_int: "u64i (int n) = of_nat n"
  by simp

lemma unitByteSize_nat:
  assumes "layout_ok t" shows "unitByteSize t = of_nat (unit_bytes t)"
  by (rule layout_nats [OF assms]) (simp add: unitByteSize_def unit_bytes_def)

lemma page_stripe_start:
  assumes "layout_ok t" "pageStripes t = int s + 1"
  shows "currentPageStripeStart t = Some (of_nat (page_stripe t s))"
proof (rule layout_nats [OF assms(1)])
  fix H L R K P N
  assume f: "metalen t = int H" "pageStripeLen t = int L" "pageNodeRatio t = int R" "nodeStripeLen t = int K" "pageSize t = int P"
    "nodeSize t = int N" "0 < R"
  have d: "int s sdiv int R = int (s div R)" "int s smod int R = int (s mod R)"
    using f(7) by (simp_all add: signed_divide_int_def signed_modulo_int_def zdiv_int zmod_int sgn_if)
  have "currentPageStripeStart t = Some (u64i (int H) + u64i (int (s div R)) * of_nat (unit_bytes t) + u64i (int K) * u64i (int N)
      + u64i (int (s mod R)) * u64i (int L) * u64i (int P))"
    using f(7) unfolding currentPageStripeStart_def Let_def unitStart_def unitByteSize_nat [OF assms(1)] f(1-6) assms(2) add_diff_cancel_right' d
    by simp
  then show ?thesis unfolding page_stripe_def f(1-6) nat_int u64i_int by (simp only: of_nat_add of_nat_mult)
qed

lemma node_stripe_start:
  assumes "layout_ok t" "nodeStripes t = int s + 1"
  shows "currentNodeStripeStart t = of_nat (node_stripe t s)"
proof (rule layout_nats [OF assms(1)])
  fix H assume f: "metalen t = int H"
  show ?thesis
    unfolding currentNodeStripeStart_def unitStart_def unitByteSize_nat [OF assms(1)] assms(2) node_stripe_def f add_diff_cancel_right' nat_int u64i_int
    by (simp only: of_nat_add of_nat_mult)
qed

text \<open>Positions in a stripe, in terms of the number of the object.\<close>

lemma page_at_units:
  assumes "layout_ok t"
  shows "page_at t i = nat (metalen t) + i div (nat (pageStripeLen t) * nat (pageNodeRatio t)) * unit_bytes t
    + nat (nodeStripeLen t) * nat (nodeSize t) + i mod (nat (pageStripeLen t) * nat (pageNodeRatio t)) * nat (pageSize t)"
proof -
  let ?L = "nat (pageStripeLen t)" and ?R = "nat (pageNodeRatio t)"
  have m: "i mod (?L * ?R) = ?L * (i div ?L mod ?R) + i mod ?L" by (rule mod_mult2_eq)
  show ?thesis unfolding page_at_def page_stripe_def m div_mult2_eq [of i ?L ?R] by (simp add: algebra_simps)
qed

lemma page_at_before:
  assumes "layout_ok t" "i < j"
  shows "page_at t i + nat (pageSize t) \<le> page_at t j"
proof -
  let ?Q = "nat (pageStripeLen t) * nat (pageNodeRatio t)" and ?P = "nat (pageSize t)"
  have Q: "0 < ?Q" using assms(1) by (simp add: layout_ok_def)
  have u: "unit_bytes t = nat (nodeStripeLen t) * nat (nodeSize t) + ?Q * ?P" by (simp add: unit_bytes_def mult.commute)
  have "i div ?Q \<le> j div ?Q" using assms(2) by (intro div_le_mono) simp
  then consider "i div ?Q = j div ?Q" | "Suc (i div ?Q) \<le> j div ?Q" by linarith
  then show ?thesis
  proof cases
    case 1
    then have "i mod ?Q < j mod ?Q" using assms(2) by (metis div_mult_mod_eq add_less_cancel_left)
    then have "(i mod ?Q + 1) * ?P \<le> j mod ?Q * ?P" by (intro mult_le_mono1) simp
    then show ?thesis unfolding page_at_units [OF assms(1)] 1 by simp
  next
    case 2
    then have "(i div ?Q + 1) * unit_bytes t \<le> j div ?Q * unit_bytes t" by (intro mult_le_mono1) simp
    moreover have "(i mod ?Q + 1) * ?P \<le> ?Q * ?P" using mod_less_divisor [OF Q, of i] by (intro mult_le_mono1) linarith
    ultimately show ?thesis unfolding page_at_units [OF assms(1)] u by (simp add: algebra_simps)
  qed
qed

lemma node_at_before:
  assumes "layout_ok t" "i < j"
  shows "node_at t i + nat (nodeSize t) \<le> node_at t j"
proof -
  let ?K = "nat (nodeStripeLen t)" and ?N = "nat (nodeSize t)"
  have K: "0 < ?K" using assms(1) by (simp add: layout_ok_def)
  have u: "?K * ?N \<le> unit_bytes t" by (simp add: unit_bytes_def)
  have "i div ?K \<le> j div ?K" using assms(2) by (intro div_le_mono) simp
  then consider "i div ?K = j div ?K" | "Suc (i div ?K) \<le> j div ?K" by linarith
  then show ?thesis
  proof cases
    case 1
    then have "i mod ?K < j mod ?K" using assms(2) by (metis div_mult_mod_eq add_less_cancel_left)
    then have "(i mod ?K + 1) * ?N \<le> j mod ?K * ?N" by (intro mult_le_mono1) simp
    then show ?thesis unfolding node_at_def node_stripe_def 1 by simp
  next
    case 2
    then have "(i div ?K + 1) * unit_bytes t \<le> j div ?K * unit_bytes t" by (intro mult_le_mono1) simp
    moreover have "(i mod ?K + 1) * ?N \<le> ?K * ?N" using mod_less_divisor [OF K, of i] by (intro mult_le_mono1) linarith
    ultimately show ?thesis unfolding node_at_def node_stripe_def using u by (simp add: algebra_simps)
  qed
qed

lemma page_node_apart:
  assumes "layout_ok t"
  shows "page_at t i + nat (pageSize t) \<le> node_at t j \<or> node_at t j + nat (nodeSize t) \<le> page_at t i"
proof -
  let ?K = "nat (nodeStripeLen t)" and ?N = "nat (nodeSize t)"
  let ?Q = "nat (pageStripeLen t) * nat (pageNodeRatio t)" and ?P = "nat (pageSize t)"
  have Q: "0 < ?Q" "0 < ?K" using assms(1) by (simp_all add: layout_ok_def)
  have u: "unit_bytes t = ?K * ?N + ?Q * ?P" by (simp add: unit_bytes_def mult.commute)
  have p: "(i mod ?Q + 1) * ?P \<le> ?Q * ?P" using mod_less_divisor [OF Q(1), of i] by (intro mult_le_mono1) linarith
  have n: "(j mod ?K + 1) * ?N \<le> ?K * ?N" using mod_less_divisor [OF Q(2), of j] by (intro mult_le_mono1) linarith
  show ?thesis
  proof (cases "j div ?K \<le> i div ?Q")
    case True
    then have "j div ?K * unit_bytes t \<le> i div ?Q * unit_bytes t" by (rule mult_le_mono1)
    then have "node_at t j + ?N \<le> page_at t i"
      using n unfolding node_at_def node_stripe_def page_at_units [OF assms] add_mult_distrib mult_1 by linarith
    then show ?thesis ..
  next
    case False
    then have "(i div ?Q + 1) * unit_bytes t \<le> j div ?K * unit_bytes t" by (intro mult_le_mono1) simp
    then have "page_at t i + ?P \<le> node_at t j"
      using p unfolding node_at_def node_stripe_def page_at_units [OF assms] u by (simp add: algebra_simps)
    then show ?thesis ..
  qed
qed

section \<open>Allocation\<close>

lemma page_at_number:
  assumes "layout_ok t" "k < nat (pageStripeLen t)"
  shows "page_at t (s * nat (pageStripeLen t) + k) = page_stripe t s + k * nat (pageSize t)"
  using assms by (simp add: page_at_def layout_ok_def)

lemma node_at_number:
  assumes "layout_ok t" "k < nat (nodeStripeLen t)"
  shows "node_at t (s * nat (nodeStripeLen t) + k) = node_stripe t s + k * nat (nodeSize t)"
  using assms by (simp add: node_at_def layout_ok_def)

text \<open>A change of the bookkeeping fields does not move anything.\<close>

definition same_layout :: "table \<Rightarrow> table \<Rightarrow> bool" where
  "same_layout t u \<longleftrightarrow> metalen u = metalen t \<and> pageStripeLen u = pageStripeLen t \<and> nodeStripeLen u = nodeStripeLen t \<and>
     pageNodeRatio u = pageNodeRatio t \<and> pageSize u = pageSize t \<and> nodeSize u = nodeSize t"

lemma same_layoutD:
  assumes "same_layout t u"
  shows "layout_ok u = layout_ok t" "page_stripe u = page_stripe t" "node_stripe u = node_stripe t" "page_at u = page_at t"
    "node_at u = node_at t"
  using assms by (simp_all add: same_layout_def layout_ok_def page_stripe_def [abs_def] node_stripe_def [abs_def] page_at_def [abs_def]
    node_at_def [abs_def] unit_bytes_def)

lemma of_nat_le_u64: "a < 2 ^ 64 \<Longrightarrow> b < 2 ^ 64 \<Longrightarrow> (of_nat a :: u64) \<le> of_nat b \<longleftrightarrow> a \<le> b"
  by (simp add: word_le_nat_alt unsigned_of_nat take_bit_eq_mod)

text \<open>The end of a stripe, for the comparisons in \<open>uint64_t\<close>.\<close>

lemma stripe_ends:
  assumes "layout_ok t" "s \<le> n"
  shows "page_stripe t s + nat (pageStripeLen t) * nat (pageSize t) \<le> node_stripe t (n + 1)"
    "node_stripe t s + nat (nodeStripeLen t) * nat (nodeSize t) \<le> node_stripe t (n + 1)"
proof -
  let ?R = "nat (pageNodeRatio t)" and ?B = "nat (pageStripeLen t) * nat (pageSize t)" and ?U = "unit_bytes t"
  have R: "0 < ?R" using assms(1) by (simp add: layout_ok_def)
  have u: "?U = nat (nodeStripeLen t) * nat (nodeSize t) + ?R * ?B" by (simp add: unit_bytes_def)
  have "s div ?R \<le> n" using assms(2) div_le_dividend le_trans by blast
  then have d: "s div ?R * ?U + ?U \<le> n * ?U + ?U" by (simp add: mult_le_mono1)
  have "(s mod ?R + 1) * ?B \<le> ?R * ?B" using mod_less_divisor [OF R, of s] by (intro mult_le_mono1) linarith
  then show "page_stripe t s + ?B \<le> node_stripe t (n + 1)"
    using d u unfolding page_stripe_def node_stripe_def add_mult_distrib mult_1 mult.assoc by linarith
  have "s * ?U + ?U \<le> n * ?U + ?U" using assms(2) by (simp add: mult_le_mono1)
  then show "node_stripe t s + nat (nodeStripeLen t) * nat (nodeSize t) \<le> node_stripe t (n + 1)"
    using u unfolding node_stripe_def add_mult_distrib mult_1 by linarith
qed

text \<open>With room for \<open>n\<close> more units in the address space, the stripe is full exactly when its last object is allocated.\<close>

lemma stripe_full:
  assumes "b + m * z < 2 ^ 64" "k \<le> m" "0 < z"
  shows "(of_nat (b + k * z) :: u64) \<ge> of_nat b + of_nat m * of_nat z \<longleftrightarrow> k = m"
proof -
  have "k * z \<le> m * z" using assms(2) by (rule mult_le_mono1)
  then have "(of_nat (b + k * z) :: u64) \<ge> of_nat (b + m * z) \<longleftrightarrow> b + m * z \<le> b + k * z"
    using assms(1) by (intro of_nat_le_u64) linarith+
  also have "\<dots> \<longleftrightarrow> k = m" using assms(2,3) by auto
  finally show ?thesis by simp
qed

lemma allocPage_at:
  assumes a: "allocated t c d" and bound: "node_stripe t (c + 1) < 2 ^ 64"
  obtains t' where "allocPage t = Some (of_nat (page_at t c), t')" "allocated t' (c + 1) d" "same_layout t t'"
proof -
  let ?L = "nat (pageStripeLen t)" and ?P = "nat (pageSize t)"
  have l: "layout_ok t" using a by (simp add: allocated_def)
  obtain s k where s: "pageStripes t = int s + 1" "k \<le> ?L" "c = s * ?L + k" "pageFree t = of_nat (page_stripe t s + k * ?P)"
    using a by (auto simp: allocated_def)
  have P: "0 < ?P" "u64i (pageSize t) = of_nat ?P" and L: "0 < ?L" "u64i (pageStripeLen t) = of_nat ?L"
    by (rule layout_nats [OF l]; simp)+
  have "s * 1 \<le> s * ?L" using L(1) by (intro mult_le_mono2) simp
  then have "s \<le> c" using s(3) by linarith
  from stripe_ends(1) [OF l this] have fits: "page_stripe t s + ?L * ?P < 2 ^ 64" using bound by linarith
  note start = page_stripe_start [OF l s(1)] and full = stripe_full [OF fits s(2) P(1)]
  show thesis
  proof (cases "k = ?L")
    case True
    let ?t1 = "t\<lparr>pageStripes := pageStripes t + 1\<rparr>"
    have same: "same_layout t ?t1" by (simp add: same_layout_def)
    have s1: "pageStripes ?t1 = int (Suc s) + 1" using s(1) by simp
    have start1: "currentPageStripeStart ?t1 = Some (of_nat (page_stripe t (Suc s)))"
      using page_stripe_start [OF _ s1] same_layoutD [OF same] l by simp
    have at: "page_at t c = page_stripe t (Suc s)" using page_at_number [OF l L(1), of "Suc s"] True s(3) by (simp add: add.commute)
    let ?t' = "?t1\<lparr>pageFree := of_nat (page_stripe t (Suc s)) + of_nat ?P\<rparr>"
    have alloc: "allocPage t = Some (of_nat (page_at t c), ?t')"
      using full True unfolding allocPage_def start s(4) P(2) L(2) newPageStripe_def Let_def start1 at by simp
    have same': "same_layout t ?t'" by (simp add: same_layout_def)
    have al: "allocated ?t' (c + 1) d"
      unfolding allocated_def
    proof (intro conjI)
      show "layout_ok ?t'" using same_layoutD(1) [OF same'] l by simp
      show "\<exists>s k. pageStripes ?t' = int s + 1 \<and> k \<le> nat (pageStripeLen ?t') \<and> c + 1 = s * nat (pageStripeLen ?t') + k \<and>
          pageFree ?t' = of_nat (page_stripe ?t' s + k * nat (pageSize ?t'))"
        using L True s unfolding same_layoutD [OF same'] by (intro exI [of _ "Suc s"] exI [of _ 1]) simp
      show "\<exists>s k. nodeStripes ?t' = int s + 1 \<and> k \<le> nat (nodeStripeLen ?t') \<and> d = s * nat (nodeStripeLen ?t') + k \<and>
          nodeFree ?t' = of_nat (node_stripe ?t' s + k * nat (nodeSize ?t'))"
        using a unfolding allocated_def same_layoutD [OF same'] by simp
    qed
    show thesis by (rule that [OF alloc al same'])
  next
    case False
    then have k: "k < ?L" using s(2) by simp
    have at: "page_at t c = page_stripe t s + k * ?P" using page_at_number [OF l k, of s] s(3) by simp
    let ?t' = "t\<lparr>pageFree := pageFree t + of_nat ?P\<rparr>"
    have alloc: "allocPage t = Some (of_nat (page_at t c), ?t')"
      using full False s(4) unfolding allocPage_def start P(2) L(2) at by simp
    have same': "same_layout t ?t'" by (simp add: same_layout_def)
    have al: "allocated ?t' (c + 1) d"
      unfolding allocated_def
    proof (intro conjI)
      show "layout_ok ?t'" using same_layoutD(1) [OF same'] l by simp
      show "\<exists>s k. pageStripes ?t' = int s + 1 \<and> k \<le> nat (pageStripeLen ?t') \<and> c + 1 = s * nat (pageStripeLen ?t') + k \<and>
          pageFree ?t' = of_nat (page_stripe ?t' s + k * nat (pageSize ?t'))"
        using k s unfolding same_layoutD [OF same'] by (intro exI [of _ s] exI [of _ "k + 1"]) simp
      show "\<exists>s k. nodeStripes ?t' = int s + 1 \<and> k \<le> nat (nodeStripeLen ?t') \<and> d = s * nat (nodeStripeLen ?t') + k \<and>
          nodeFree ?t' = of_nat (node_stripe ?t' s + k * nat (nodeSize ?t'))"
        using a unfolding allocated_def same_layoutD [OF same'] by simp
    qed
    show thesis by (rule that [OF alloc al same'])
  qed
qed

lemma allocNode_at:
  assumes a: "allocated t c d" and bound: "node_stripe t (d + 1) < 2 ^ 64"
  obtains t' where "allocNode t = (of_nat (node_at t d), t')" "allocated t' c (d + 1)" "same_layout t t'"
proof -
  let ?K = "nat (nodeStripeLen t)" and ?N = "nat (nodeSize t)"
  have l: "layout_ok t" using a by (simp add: allocated_def)
  obtain s k where s: "nodeStripes t = int s + 1" "k \<le> ?K" "d = s * ?K + k" "nodeFree t = of_nat (node_stripe t s + k * ?N)"
    using a by (auto simp: allocated_def)
  have N: "0 < ?N" "u64i (nodeSize t) = of_nat ?N" and K: "0 < ?K" "u64i (nodeStripeLen t) = of_nat ?K"
    by (rule layout_nats [OF l]; simp)+
  have "s * 1 \<le> s * ?K" using K(1) by (intro mult_le_mono2) simp
  then have "s \<le> d" using s(3) by linarith
  from stripe_ends(2) [OF l this] have fits: "node_stripe t s + ?K * ?N < 2 ^ 64" using bound by linarith
  note start = node_stripe_start [OF l s(1)] and full = stripe_full [OF fits s(2) N(1)]
  show thesis
  proof (cases "k = ?K")
    case True
    let ?t1 = "t\<lparr>nodeStripes := nodeStripes t + 1\<rparr>"
    have same: "same_layout t ?t1" by (simp add: same_layout_def)
    have s1: "nodeStripes ?t1 = int (Suc s) + 1" using s(1) by simp
    have start1: "currentNodeStripeStart ?t1 = of_nat (node_stripe t (Suc s))"
      using node_stripe_start [OF _ s1] same_layoutD [OF same] l by simp
    have at: "node_at t d = node_stripe t (Suc s)" using node_at_number [OF l K(1), of "Suc s"] True s(3) by (simp add: add.commute)
    let ?t' = "?t1\<lparr>nodeFree := of_nat (node_stripe t (Suc s)) + of_nat ?N\<rparr>"
    have alloc: "allocNode t = (of_nat (node_at t d), ?t')"
      using full True unfolding allocNode_def start s(4) N(2) K(2) newNodeStripe_def Let_def start1 at by simp
    have same': "same_layout t ?t'" by (simp add: same_layout_def)
    have al: "allocated ?t' c (d + 1)"
      unfolding allocated_def
    proof (intro conjI)
      show "layout_ok ?t'" using same_layoutD(1) [OF same'] l by simp
      show "\<exists>s k. nodeStripes ?t' = int s + 1 \<and> k \<le> nat (nodeStripeLen ?t') \<and> d + 1 = s * nat (nodeStripeLen ?t') + k \<and>
          nodeFree ?t' = of_nat (node_stripe ?t' s + k * nat (nodeSize ?t'))"
        using K True s unfolding same_layoutD [OF same'] by (intro exI [of _ "Suc s"] exI [of _ 1]) simp
      show "\<exists>s k. pageStripes ?t' = int s + 1 \<and> k \<le> nat (pageStripeLen ?t') \<and> c = s * nat (pageStripeLen ?t') + k \<and>
          pageFree ?t' = of_nat (page_stripe ?t' s + k * nat (pageSize ?t'))"
        using a unfolding allocated_def same_layoutD [OF same'] by simp
    qed
    show thesis by (rule that [OF alloc al same'])
  next
    case False
    then have k: "k < ?K" using s(2) by simp
    have at: "node_at t d = node_stripe t s + k * ?N" using node_at_number [OF l k, of s] s(3) by simp
    let ?t' = "t\<lparr>nodeFree := nodeFree t + of_nat ?N\<rparr>"
    have alloc: "allocNode t = (of_nat (node_at t d), ?t')"
      using full False s(4) unfolding allocNode_def start N(2) K(2) at by (simp add: Let_def)
    have same': "same_layout t ?t'" by (simp add: same_layout_def)
    have al: "allocated ?t' c (d + 1)"
      unfolding allocated_def
    proof (intro conjI)
      show "layout_ok ?t'" using same_layoutD(1) [OF same'] l by simp
      show "\<exists>s k. nodeStripes ?t' = int s + 1 \<and> k \<le> nat (nodeStripeLen ?t') \<and> d + 1 = s * nat (nodeStripeLen ?t') + k \<and>
          nodeFree ?t' = of_nat (node_stripe ?t' s + k * nat (nodeSize ?t'))"
        using k s unfolding same_layoutD [OF same'] by (intro exI [of _ s] exI [of _ "k + 1"]) simp
      show "\<exists>s k. pageStripes ?t' = int s + 1 \<and> k \<le> nat (pageStripeLen ?t') \<and> c = s * nat (pageStripeLen ?t') + k \<and>
          pageFree ?t' = of_nat (page_stripe ?t' s + k * nat (pageSize ?t'))"
        using a unfolding allocated_def same_layoutD [OF same'] by simp
    qed
    show thesis by (rule that [OF alloc al same'])
  qed
qed

section \<open>Histories of allocations\<close>

datatype object = Page_object | Node_object

fun alloc_run :: "object list \<Rightarrow> table \<Rightarrow> (address list \<times> table) option" where
  "alloc_run [] t = Some ([], t)"
| "alloc_run (Page_object # os) t =
     (case allocPage t of None \<Rightarrow> None
      | Some (a, t1) \<Rightarrow> (case alloc_run os t1 of None \<Rightarrow> None | Some (as, t2) \<Rightarrow> Some (a # as, t2)))"
| "alloc_run (Node_object # os) t =
     (let (a, t1) = allocNode t in case alloc_run os t1 of None \<Rightarrow> None | Some (as, t2) \<Rightarrow> Some (a # as, t2))"

fun object_size :: "table \<Rightarrow> object \<Rightarrow> nat" where
  "object_size t Page_object = nat (pageSize t)" | "object_size t Node_object = nat (nodeSize t)"

text \<open>The places of the objects, when \<open>c\<close> pages and \<open>d\<close> nodes are there before.\<close>

fun places :: "table \<Rightarrow> nat \<Rightarrow> nat \<Rightarrow> object list \<Rightarrow> (nat \<times> nat) list" where
  "places t c d [] = []"
| "places t c d (Page_object # os) = (page_at t c, nat (pageSize t)) # places t (c + 1) d os"
| "places t c d (Node_object # os) = (node_at t d, nat (nodeSize t)) # places t c (d + 1) os"

definition extents_apart :: "nat \<times> nat \<Rightarrow> nat \<times> nat \<Rightarrow> bool" where
  "extents_apart x y \<longleftrightarrow> fst x + snd x \<le> fst y \<or> fst y + snd y \<le> fst x"

lemma places_in:
  "x \<in> set (places t c d os) \<Longrightarrow>
     (\<exists>i \<ge> c. i < c + length os \<and> x = (page_at t i, nat (pageSize t))) \<or> (\<exists>j \<ge> d. j < d + length os \<and> x = (node_at t j, nat (nodeSize t)))"
proof (induction t c d os rule: places.induct)
  case (2 t c d os)
  then show ?case by (auto dest: Suc_leD intro: exI [of _ c]) (metis Suc_leD add_Suc_right add_Suc less_SucI)+
next
  case (3 t c d os)
  then show ?case by (auto dest: Suc_leD intro: exI [of _ d]) (metis Suc_leD add_Suc_right add_Suc less_SucI)+
qed simp

lemma places_apart: "layout_ok t \<Longrightarrow> sorted_wrt extents_apart (places t c d os)"
proof (induction t c d os rule: places.induct)
  case (2 t c d os)
  have "extents_apart (page_at t c, nat (pageSize t)) x" if "x \<in> set (places t (c + 1) d os)" for x
    using places_in [OF that] page_at_before [OF 2(2), of c] page_node_apart [OF 2(2), of c] unfolding extents_apart_def
    by (metis Suc_eq_plus1 Suc_le_lessD fst_conv snd_conv)
  with 2 show ?case by simp
next
  case (3 t c d os)
  have "extents_apart (node_at t d, nat (nodeSize t)) x" if "x \<in> set (places t c (d + 1) os)" for x
    using places_in [OF that] node_at_before [OF 3(2), of d] page_node_apart [OF 3(2), of _ d] unfolding extents_apart_def
    by (metis Suc_eq_plus1 Suc_le_lessD fst_conv snd_conv)
  with 3 show ?case by simp
qed simp

lemma length_places [simp]: "length (places t c d os) = length os"
  by (induction t c d os rule: places.induct) simp_all

lemma places_size: "i < length os \<Longrightarrow> snd (places t c d os ! i) = object_size t (os ! i)"
  by (induction t c d os arbitrary: i rule: places.induct) (auto simp: nth_Cons split: nat.split)

lemma places_layout: "same_layout t u \<Longrightarrow> places u c d os = places t c d os"
proof (induction t c d os rule: places.induct)
  case (2 t c d os)
  then show ?case using same_layoutD [OF 2(2)] by (simp add: same_layout_def)
next
  case (3 t c d os)
  then show ?case using same_layoutD [OF 3(2)] by (simp add: same_layout_def)
qed simp

lemma node_stripe_mono: "m \<le> n \<Longrightarrow> node_stripe t m \<le> node_stripe t n"
  by (simp add: node_stripe_def mult_le_mono1)

lemma alloc_run_places:
  "allocated t c d \<Longrightarrow> node_stripe t (c + d + length os) < 2 ^ 64 \<Longrightarrow>
     \<exists>t'. alloc_run os t = Some (map (of_nat \<circ> fst) (places t c d os), t') \<and> allocated t' (c + count_list os Page_object) (d + count_list os Node_object)"
proof (induction os arbitrary: t c d)
  case (Cons ob os)
  show ?case
  proof (cases ob)
    case Page_object
    have "node_stripe t (c + 1) < 2 ^ 64" using node_stripe_mono [of "c + 1" "c + d + length (ob # os)" t] Cons.prems(2) by simp
    then obtain t1 where t1: "allocPage t = Some (of_nat (page_at t c), t1)" "allocated t1 (c + 1) d" "same_layout t t1"
      using allocPage_at [OF Cons.prems(1)] by blast
    have "node_stripe t1 (c + 1 + d + length os) < 2 ^ 64" using Cons.prems(2) same_layoutD(3) [OF t1(3)] by simp
    from Cons.IH [OF t1(2) this] show ?thesis by (auto simp: Page_object t1(1) places_layout [OF t1(3)])
  next
    case Node_object
    have "node_stripe t (d + 1) < 2 ^ 64" using node_stripe_mono [of "d + 1" "c + d + length (ob # os)" t] Cons.prems(2) by simp
    then obtain t1 where t1: "allocNode t = (of_nat (node_at t d), t1)" "allocated t1 c (d + 1)" "same_layout t t1"
      using allocNode_at [OF Cons.prems(1)] by blast
    have "node_stripe t1 (c + (d + 1) + length os) < 2 ^ 64" using Cons.prems(2) same_layoutD(3) [OF t1(3)] by simp
    from Cons.IH [OF t1(2) this] show ?thesis by (auto simp: Node_object t1(1) places_layout [OF t1(3)])
  qed
qed simp

lemma init_fields [simp]:
  "metalen (initTable name ty) = 68" "pageStripes (initTable name ty) = 1" "nodeStripes (initTable name ty) = 1"
  "pageStripeLen (initTable name ty) = 1" "nodeStripeLen (initTable name ty) = 1" "pageNodeRatio (initTable name ty) = 22"
  "pageSize (initTable name ty) = 4096" "nodeSize (initTable name ty) = int (NODE_DISK_SIZE (orderingKeyDiskSize ty))"
  "pageFree (initTable name ty) = 68 + of_nat (NODE_DISK_SIZE (orderingKeyDiskSize ty))" "nodeFree (initTable name ty) = 68"
  "keyType (initTable name ty) = ty"
  by (simp_all add: initTable_def initDirtyHashmaps_def Let_def METALEN_def M_GLOBAL_def PAGE_SIZE_def)

lemma node_disk_size: "0 < NODE_DISK_SIZE (orderingKeyDiskSize ty)" "NODE_DISK_SIZE (orderingKeyDiskSize ty) \<le> 2000"
  by (simp_all add: disk_sizes)

lemma init_allocated: "allocated (initTable name ty) 0 0"
  unfolding allocated_def
proof (intro conjI)
  show "layout_ok (initTable name ty)" by (simp add: layout_ok_def node_disk_size)
  show "\<exists>s k. pageStripes (initTable name ty) = int s + 1 \<and> k \<le> nat (pageStripeLen (initTable name ty)) \<and>
      0 = s * nat (pageStripeLen (initTable name ty)) + k \<and>
      pageFree (initTable name ty) = of_nat (page_stripe (initTable name ty) s + k * nat (pageSize (initTable name ty)))"
    by (intro exI [of _ 0]) (simp add: page_stripe_def)
  show "\<exists>s k. nodeStripes (initTable name ty) = int s + 1 \<and> k \<le> nat (nodeStripeLen (initTable name ty)) \<and>
      0 = s * nat (nodeStripeLen (initTable name ty)) + k \<and>
      nodeFree (initTable name ty) = of_nat (node_stripe (initTable name ty) s + k * nat (nodeSize (initTable name ty)))"
    by (intro exI [of _ 0]) (simp add: node_stripe_def)
qed

lemma same_layout_size: "same_layout t u \<Longrightarrow> object_size u = object_size t"
proof
  fix ob show "same_layout t u \<Longrightarrow> object_size u ob = object_size t ob" by (cases ob) (simp_all add: same_layout_def)
qed

lemma place_bounds:
  assumes "layout_ok t" "x \<in> set (places t 0 0 os)"
  shows "nat (metalen t) \<le> fst x" "fst x + snd x \<le> node_stripe t (length os)"
proof -
  have up: "i div a \<le> n - 1" "a * (i div a) + i mod a = i" if "i < n" for a i n :: nat
    using that div_le_dividend [of i a] by (linarith, simp)
  from places_in [OF assms(2)] consider i where "i < length os" "x = (page_at t i, nat (pageSize t))"
    | j where "j < length os" "x = (node_at t j, nat (nodeSize t))" by auto
  then have "nat (metalen t) \<le> fst x \<and> fst x + snd x \<le> node_stripe t (length os)"
  proof cases
    case 1
    let ?L = "nat (pageStripeLen t)"
    have "(i mod ?L + 1) * nat (pageSize t) \<le> ?L * nat (pageSize t)"
      using mod_less_divisor [of ?L i] assms(1) by (intro mult_le_mono1) (simp add: layout_ok_def Suc_le_eq)
    moreover have "page_stripe t (i div ?L) + ?L * nat (pageSize t) \<le> node_stripe t (length os)"
      using stripe_ends(1) [OF assms(1) up(1) [OF 1(1), of ?L]] 1(1) by (cases "length os") simp_all
    ultimately have "page_at t i + nat (pageSize t) \<le> node_stripe t (length os)" unfolding page_at_def add_mult_distrib mult_1 by linarith
    then show ?thesis using 1(2) by (simp add: page_at_def page_stripe_def)
  next
    case 2
    let ?K = "nat (nodeStripeLen t)"
    have "(j mod ?K + 1) * nat (nodeSize t) \<le> ?K * nat (nodeSize t)"
      using mod_less_divisor [of ?K j] assms(1) by (intro mult_le_mono1) (simp add: layout_ok_def Suc_le_eq)
    moreover have "node_stripe t (j div ?K) + ?K * nat (nodeSize t) \<le> node_stripe t (length os)"
      using stripe_ends(2) [OF assms(1) up(1) [OF 2(1), of ?K]] 2(1) by (cases "length os") simp_all
    ultimately have "node_at t j + nat (nodeSize t) \<le> node_stripe t (length os)" unfolding node_at_def add_mult_distrib mult_1 by linarith
    then show ?thesis using 2(2) by (simp add: node_at_def node_stripe_def)
  qed
  then show "nat (metalen t) \<le> fst x" "fst x + snd x \<le> node_stripe t (length os)" by simp_all
qed

lemma allocations_places:
  assumes "length os < 2 ^ 30"
  shows "\<exists>as t. alloc_run os (initTable name ty) = Some (as, t) \<and> length as = length os \<and>
    (\<forall>i < length os. 68 \<le> unat (as ! i) \<and> unat (as ! i) + object_size (initTable name ty) (os ! i) < 2 ^ 64) \<and>
    (\<forall>i j. i < j \<and> j < length os \<longrightarrow>
       unat (as ! i) + object_size (initTable name ty) (os ! i) \<le> unat (as ! j) \<or>
       unat (as ! j) + object_size (initTable name ty) (os ! j) \<le> unat (as ! i))"
proof -
  let ?t = "initTable name ty" and ?ps = "places (initTable name ty) 0 0 os"
  have l: "layout_ok ?t" using init_allocated by (simp add: allocated_def)
  have "unit_bytes ?t \<le> 2 ^ 17" using node_disk_size(2) [of ty] by (simp add: unit_bytes_def)
  then have "length os * unit_bytes ?t \<le> 2 ^ 30 * 2 ^ 17" using assms by (intro mult_le_mono) simp_all
  then have bound: "node_stripe ?t (length os) < 2 ^ 64" by (simp add: node_stripe_def)
  then obtain t' where run: "alloc_run os ?t = Some (map (of_nat \<circ> fst) ?ps, t')"
    using alloc_run_places [OF init_allocated, of name ty os] by auto
  have at: "unat (map (of_nat \<circ> fst) ?ps ! i :: u64) = fst (?ps ! i)" "snd (?ps ! i) = object_size ?t (os ! i)"
      "68 \<le> fst (?ps ! i)" "fst (?ps ! i) + snd (?ps ! i) < 2 ^ 64" if i: "i < length os" for i
  proof -
    have p: "?ps ! i \<in> set ?ps" using i by simp
    show b: "68 \<le> fst (?ps ! i)" "fst (?ps ! i) + snd (?ps ! i) < 2 ^ 64"
      using place_bounds [OF l p] bound by simp_all
    then show "unat (map (of_nat \<circ> fst) ?ps ! i :: u64) = fst (?ps ! i)"
      using i by (simp add: unsigned_of_nat take_bit_eq_mod)
    show "snd (?ps ! i) = object_size ?t (os ! i)" by (rule places_size [OF i])
  qed
  have apart: "extents_apart (?ps ! i) (?ps ! j)" if "i < j" "j < length os" for i j
    using places_apart [OF l] that by (simp add: sorted_wrt_nth_less)
  show ?thesis
  proof (intro exI conjI allI impI)
    show "alloc_run os ?t = Some (map (of_nat \<circ> fst) ?ps, t')" by (rule run)
    show "length (map (of_nat \<circ> fst) ?ps :: u64 list) = length os" by simp
    fix i assume i: "i < length os"
    show "68 \<le> unat (map (of_nat \<circ> fst) ?ps ! i :: u64)" using at(1,3) [OF i] by simp
    show "unat (map (of_nat \<circ> fst) ?ps ! i :: u64) + object_size ?t (os ! i) < 2 ^ 64" using at(1,2,4) [OF i] by simp
  next
    fix i j assume ij: "i < j \<and> j < length os"
    then have i: "i < length os" and j: "j < length os" by simp_all
    show "unat (map (of_nat \<circ> fst) ?ps ! i :: u64) + object_size ?t (os ! i) \<le> unat (map (of_nat \<circ> fst) ?ps ! j :: u64) \<or>
       unat (map (of_nat \<circ> fst) ?ps ! j :: u64) + object_size ?t (os ! j) \<le> unat (map (of_nat \<circ> fst) ?ps ! i :: u64)"
      using apart [OF conjunct1 [OF ij] conjunct2 [OF ij]]
      unfolding extents_apart_def at(1) [OF i] at(1) [OF j] at(2) [OF i] at(2) [OF j] .
  qed
qed

section \<open>The header's round trip\<close>

lemma join_hi_lo: "join64 (hi32 x) (lo32 x) = x"
proof -
  have m: "(0xFFFFFFFF :: u64) = mask 32" by (simp add: mask_eq_exp_minus_1)
  have "bit (join64 (hi32 x) (lo32 x)) n = bit x n" if "n < 64" for n
    using that unfolding join64_def hi32_def lo32_def m
    by (cases "n < 32") (simp_all add: bit_or_iff bit_push_bit_iff bit_ucast_iff bit_drop_bit_eq bit_and_iff bit_mask_iff, linarith?)
  then show ?thesis by (intro bit_word_eqI) simp
qed

lemma sint_u32: "- (2 ^ 31) \<le> x \<Longrightarrow> x < 2 ^ 31 \<Longrightarrow> sint (word_of_int x :: u32) = x"
  by (simp add: signed_of_int signed_take_bit_int_eq_self)

definition meta_ok :: "table \<Rightarrow> bool" where
  "meta_ok t \<longleftrightarrow> (\<forall>x \<in> {metalen t, pageStripes t, nodeStripes t, pageNodeRatio t, pageStripeLen t, nodeStripeLen t, maxChildren t}.
       - (2 ^ 31) \<le> x \<and> x < 2 ^ 31) \<and>
     int (PAGE_HEADER_DISK_SIZE (keyDiskSize t) + SP_SLOT_DISK_SIZE (keyDiskSize t)) \<le> pageSize t \<and> pageSize t \<le> 65536 \<and>
     int (NODE_DISK_SIZE (keyDiskSize t)) \<le> nodeSize t \<and> nodeSize t \<le> 65536"

lemma native_roundtrip [simp]: "native_word (native_bytes w) = w"
  by (simp add: native_word_def native_bytes_def be_value_be_bytes take_bit_word_eq_self)

lemma length_native_bytes [simp]: "length (native_bytes w) = 4"
  by (simp add: native_bytes_def)

lemma segment_words: "i < length ws \<Longrightarrow> segment (concat (map native_bytes ws) @ rest) (4 * i) 4 = native_bytes (ws ! i)"
proof (induction ws arbitrary: i)
  case (Cons w ws)
  show ?case
  proof (cases i)
    case 0
    then show ?thesis by (simp add: segment_def)
  next
    case (Suc j)
    have "segment (native_bytes w @ concat (map native_bytes ws) @ rest) (4 * Suc j) 4 = segment (concat (map native_bytes ws) @ rest) (4 * j) 4"
      by (simp add: segment_def)
    then show ?thesis using Cons Suc by simp
  qed
qed simp

lemma length_meta_words [simp]: "length (concat (map native_bytes ws)) = 4 * length ws"
  by (induction ws) simp_all

lemma length_fillMeta [simp]: "length (fillMeta t) = METALEN"
  by (simp add: fillMeta_def METALEN_def)

lemma length_meta_bytes [simp]: "length (meta_bytes t) = 68"
  by (simp add: meta_bytes_def METALEN_def)

lemma read_words_meta:
  assumes "length junk = METALEN"
  shows "read_words junk (meta_bytes t @ rest) = fillMeta t"
proof -
  have n: "min METALEN (length (meta_bytes t @ rest) div 4) = METALEN" by (simp add: METALEN_def)
  have "map (\<lambda>i. native_word (segment (meta_bytes t @ rest) (4 * i) 4)) [0..<METALEN] = map (\<lambda>i. fillMeta t ! i) [0..<METALEN]"
    by (rule map_cong [OF refl]) (simp add: meta_bytes_def segment_words)
  also have "\<dots> = fillMeta t" using map_nth [of "fillMeta t"] unfolding length_fillMeta .
  finally show ?thesis using assms unfolding read_words_def n Let_def by simp
qed

lemma writeMeta_bytes: "writeMeta t file = meta_bytes t @ drop 68 file"
proof -
  have "meta_bytes t \<noteq> []" using length_meta_bytes [of t] by (metis list.size(3) zero_neq_numeral)
  then show ?thesis by (simp add: writeMeta_def write_at_def)
qed

lemma extension_tbl [simp]: "extension (name @ TABLE_EXTENSION) = Some TABLE_EXTENSION"
  by (simp add: extension_def TABLE_EXTENSION_def)

lemma key_type_codes: "key_type_code ORDERING_ULONG = 0" "key_type_code ORDERING_STRING = 1" "key_type_code ORDERING_DOUBLE = 2"
  by simp_all

text \<open>What a loaded table takes over from the header.\<close>

definition header_fields :: "table \<Rightarrow> int list \<times> address list \<times> ordering_type" where
  "header_fields t = ([metalen t, pageStripes t, nodeStripes t, pageNodeRatio t, pageStripeLen t, nodeStripeLen t, pageSize t,
     nodeSize t, maxChildren t], [pageFree t, nodeFree t, root t], keyType t)"

lemma nth_fillMeta:
  "fillMeta t ! 1 = word_of_int (metalen t)" "fillMeta t ! 2 = word_of_int (pageStripes t)" "fillMeta t ! 3 = word_of_int (nodeStripes t)"
  "fillMeta t ! 4 = word_of_int (pageNodeRatio t)" "fillMeta t ! 5 = word_of_int (pageStripeLen t)" "fillMeta t ! 6 = word_of_int (nodeStripeLen t)"
  "fillMeta t ! 7 = word_of_int (pageSize t)" "fillMeta t ! 8 = word_of_int (nodeSize t)" "fillMeta t ! 9 = hi32 (pageFree t)"
  "fillMeta t ! 10 = lo32 (pageFree t)" "fillMeta t ! 11 = hi32 (nodeFree t)" "fillMeta t ! 12 = lo32 (nodeFree t)"
  "fillMeta t ! 13 = hi32 (root t)" "fillMeta t ! 14 = lo32 (root t)" "fillMeta t ! 15 = word_of_int (maxChildren t)"
  "fillMeta t ! 16 = key_type_code (keyType t)"
  by (simp_all add: fillMeta_def)

lemma u32_less_of_int: "int n \<le> x \<Longrightarrow> x < 2 ^ 32 \<Longrightarrow> \<not> (word_of_int x :: u32) < of_nat n"
  by (simp add: word_less_alt not_less uint_word_of_int unsigned_of_nat take_bit_eq_mod)

lemma loadMeta_fillMeta:
  assumes "meta_ok t"
  shows "\<exists>t'. loadMeta (fillMeta t) u = Some t' \<and> header_fields t' = header_fields t \<and> tname t' = tname u \<and> isNew t' = isNew u \<and> hasSource t'"
proof -
  have r: "sint (word_of_int x :: u32) = x" if "x \<in> {metalen t, pageStripes t, nodeStripes t, pageNodeRatio t, pageStripeLen t, nodeStripeLen t, maxChildren t}" for x
    using assms that by (intro sint_u32) (auto simp: meta_ok_def)
  let ?ks = "keyDiskSize t"
  have p: "int (PAGE_HEADER_DISK_SIZE ?ks + SP_SLOT_DISK_SIZE ?ks) \<le> pageSize t" "pageSize t \<le> 65536"
    and n: "int (NODE_DISK_SIZE ?ks) \<le> nodeSize t" "nodeSize t \<le> 65536" using assms by (simp_all add: meta_ok_def)
  have s: "sint (word_of_int (pageSize t) :: u32) = pageSize t" by (rule sint_u32) (use p(2) order_trans [OF of_nat_0_le_iff p(1)] in simp_all)
  have s': "sint (word_of_int (nodeSize t) :: u32) = nodeSize t" by (rule sint_u32) (use n(2) order_trans [OF of_nat_0_le_iff n(1)] in simp_all)
  have c: "\<not> (word_of_int (pageSize t) :: u32) < of_nat (PAGE_HEADER_DISK_SIZE ?ks + SP_SLOT_DISK_SIZE ?ks)"
    by (rule u32_less_of_int [OF p(1)]) (use p(2) in simp)
  have c': "\<not> (word_of_int (nodeSize t) :: u32) < of_nat (NODE_DISK_SIZE ?ks)" by (rule u32_less_of_int [OF n(1)]) (use n(2) in simp)
  have ty: "(if key_type_code (keyType t) = key_type_code ORDERING_ULONG then ORDERING_ULONG
       else if key_type_code (keyType t) = key_type_code ORDERING_STRING then ORDERING_STRING else ORDERING_DOUBLE) = keyType t"
      "\<not> (key_type_code (keyType t) \<noteq> key_type_code ORDERING_ULONG \<and> key_type_code (keyType t) \<noteq> key_type_code ORDERING_STRING \<and>
         key_type_code (keyType t) \<noteq> key_type_code ORDERING_DOUBLE)"
    by (cases "keyType t"; simp)+
  show ?thesis
    unfolding loadMeta_def nth_fillMeta Let_def ty(1) s s'
    using ty(2) p(2) n(2) c c' by (simp add: keyDiskSize_def [symmetric] header_fields_def r join_hi_lo)
qed

lemma negative_u32: 
  assumes "0x80000000 \<le> (w :: u32)" shows "sint w < 0"
proof (rule ccontr)
  assume "\<not> sint w < 0"
  moreover have "sint w < 2 ^ 31" using sint_lt [of w] by simp
  moreover have "uint w = uint (word_of_int (sint w) :: u32)" by simp
  ultimately have "uint w < 2 ^ 31" by (simp only: uint_word_of_int) simp
  then show False using assms by (simp add: word_le_def)
qed

lemma small_u32: "n \<le> 200 \<Longrightarrow> 4096 \<le> x \<Longrightarrow> \<not> (x :: u32) < of_nat n"
  by (simp add: word_less_nat_alt word_le_nat_alt unsigned_of_nat take_bit_eq_mod not_less)

lemma damaged_header:
  assumes "buf ! 16 = key_type_code ty" "buf ! 8 = of_nat (NODE_DISK_SIZE (orderingKeyDiskSize ty))"
  shows "(0x80000000 \<le> buf ! 7 \<longrightarrow> (\<exists>t'. loadMeta buf t = Some t' \<and> pageSize t' < 0)) \<and>
    (buf ! 7 = 4096 \<and> buf ! 4 = 0 \<longrightarrow> (\<exists>t'. loadMeta buf t = Some t' \<and> allocPage t' = None))"
proof -
  have n: "sint (of_nat (NODE_DISK_SIZE (orderingKeyDiskSize ty)) :: u32) = int (NODE_DISK_SIZE (orderingKeyDiskSize ty))"
    using sint_u32 [of "int (NODE_DISK_SIZE (orderingKeyDiskSize ty))"] node_disk_size(2) [of ty] by simp
  have k: "key_type_code ty = 0 \<or> key_type_code ty = 1 \<or> key_type_code ty = 2" by (cases ty) simp_all
  have ty': "(if key_type_code ty = 0 then ORDERING_ULONG else if key_type_code ty = 1 then ORDERING_STRING else ORDERING_DOUBLE) = ty"
    by (cases ty) simp_all
  have w: "word_of_int (sint x) = x" for x :: u32 by simp
  have small: "4096 \<le> x \<Longrightarrow> \<not> x < of_nat (PAGE_HEADER_DISK_SIZE (orderingKeyDiskSize ty) + SP_SLOT_DISK_SIZE (orderingKeyDiskSize ty))" for x :: u32
    by (rule small_u32) (simp_all add: disk_sizes)
  have big: "(0x80000000 :: u32) \<le> x \<Longrightarrow> 4096 \<le> x" for x by (rule order_trans) simp_all
  show ?thesis
    using k negative_u32 [of "buf ! 7"] small [of "buf ! 7"] big [of "buf ! 7"] node_disk_size(2) [of ty]
    unfolding loadMeta_def assms key_type_codes ty' Let_def n w
    by (auto simp: allocPage_def currentPageStripeStart_def)
qed

section \<open>Properties\<close>

text \<open>C32: No two objects share a byte. In whatever order up to \<open>2^30 - 1\<close> pages and nodes are allocated in a new table,
  every allocation succeeds, lies behind the header and within the address space, and its extent is disjoint from that
  of every other, across any number of stripes.\<close>

theorem allocations_disjoint:
  assumes "length os < 2 ^ 30"
  shows "\<exists>as t. alloc_run os (initTable name ty) = Some (as, t) \<and> length as = length os \<and>
    (\<forall>i < length os. 68 \<le> unat (as ! i) \<and> unat (as ! i) + object_size (initTable name ty) (os ! i) < 2 ^ 64) \<and>
    (\<forall>i j. i < j \<and> j < length os \<longrightarrow>
       unat (as ! i) + object_size (initTable name ty) (os ! i) \<le> unat (as ! j) \<or>
       unat (as ! j) + object_size (initTable name ty) (os ! j) \<le> unat (as ! i))"
  using assms by (rule allocations_places)

theorem allocations_disjoint_witness:
  "\<exists>as t. alloc_run [Node_object, Page_object, Node_object] (initTable [116] ORDERING_ULONG) = Some (as, t) \<and> unat (as ! 0) \<noteq> unat (as ! 2)"
proof -
  let ?os = "[Node_object, Page_object, Node_object]" and ?t = "initTable [116] ORDERING_ULONG"
  have "length ?os < 2 ^ 30" by simp
  from allocations_disjoint [OF this, of "[116]" ORDERING_ULONG] obtain as t where
    r: "alloc_run ?os ?t = Some (as, t)" and d: "\<forall>i j. i < j \<and> j < length ?os \<longrightarrow> unat (as ! i) + object_size ?t (?os ! i) \<le> unat (as ! j) \<or>
       unat (as ! j) + object_size ?t (?os ! j) \<le> unat (as ! i)" by blast
  have "unat (as ! 0) \<noteq> unat (as ! 2)"
    using d [rule_format, of 0 2] node_disk_size(1) [of ORDERING_ULONG] by auto
  with r show ?thesis by blast
qed

text \<open>C33: A table's header comes back as it was written: after \<open>writeMeta\<close>, into whatever file, \<open>loadTable\<close> accepts the
  file and gives a table with the same sizes, stripe counts, free pointers, root, fan-out and key type, nothing
  pending and an empty cache.\<close>

theorem header_roundtrip:
  assumes "meta_ok t" "length junk = METALEN" "fs (tableFile t) = Some (writeMeta t file)"
  shows "\<exists>t'. loadTable junk (tname t) fs u = Some t' \<and> header_fields t' = header_fields t \<and> tname t' = tname t \<and> \<not> isNew t' \<and>
    at_map (pageDirty t') = Map.empty \<and> at_map (nodeDirty t') = Map.empty \<and> at_map (delete t') = Map.empty \<and>
    nc_map (nodeCache t') = Map.empty"
proof -
  have magic: "native_word (take 4 (writeMeta t file)) = MAGIC"
    using segment_words [of 0 "fillMeta t" "drop 68 file"] unfolding writeMeta_bytes meta_bytes_def
    by (simp add: segment_def METALEN_def) (simp add: fillMeta_def)
  obtain t' where t': "loadMeta (fillMeta t) (u\<lparr>hasSource := True, isNew := False, tname := tname t\<rparr>) = Some t'"
      "header_fields t' = header_fields t" "tname t' = tname t" "\<not> isNew t'"
    using loadMeta_fillMeta [OF assms(1)] by fastforce
  have "loadTable junk (tname t) fs u = Some ((initDirtyHashmaps t')\<lparr>nodeCache := nodeCacheInit (1 + M_GLOBAL)\<rparr>)"
    using assms(3) magic t'(1) read_words_meta [OF assms(2)]
    by (simp add: loadTable_def tableFile_def validateTableFile_def writeMeta_bytes)
  moreover have "nc_map (nodeCacheInit (1 + M_GLOBAL)) = Map.empty" using nodeCacheInit_wf [of "1 + M_GLOBAL"] by (simp add: M_GLOBAL_def)
  ultimately show ?thesis
    using t' by (simp add: initDirtyHashmaps_def header_fields_def conjunct2 [OF initAddrTable_wf])
qed

theorem header_roundtrip_witness:
  "\<exists>t'. loadTable (replicate METALEN 7) [116] [tableFile (initTable [116] ORDERING_STRING) \<mapsto> writeMeta (initTable [116] ORDERING_STRING) []]
     (initTable [] ORDERING_ULONG) = Some t' \<and> keyType t' = ORDERING_STRING"
proof -
  let ?t = "initTable [116] ORDERING_STRING"
  have "meta_ok ?t" by (simp add: meta_ok_def keyDiskSize_def disk_sizes initTable_def initDirtyHashmaps_def Let_def METALEN_def)
  moreover have "tname ?t = [116]" by (simp add: initTable_def initDirtyHashmaps_def Let_def)
  ultimately show ?thesis
    using header_roundtrip [of ?t "replicate METALEN 7" "[tableFile ?t \<mapsto> writeMeta ?t []]" "[]" "initTable [] ORDERING_ULONG"]
    by (auto simp: header_fields_def)
qed

text \<open>C34: \<open>loadMeta\<close> is meant to reject a damaged header. It compares the lower bound of the page size in \<open>uint32_t\<close> and
  the upper one in \<open>int\<close>, so a page size of \<open>2^31\<close> or more is accepted as a negative number; and it does not look at
  the pages-per-node ratio, whose zero makes the next \<open>allocPage\<close> divide by zero.\<close>

theorem damaged_header_accepted:
  assumes "buf ! 16 = key_type_code ty" "buf ! 8 = of_nat (NODE_DISK_SIZE (orderingKeyDiskSize ty))"
  shows "(0x80000000 \<le> buf ! 7 \<longrightarrow> (\<exists>t'. loadMeta buf t = Some t' \<and> pageSize t' < 0)) \<and>
    (buf ! 7 = 4096 \<and> buf ! 4 = 0 \<longrightarrow> (\<exists>t'. loadMeta buf t = Some t' \<and> allocPage t' = None))"
  by (rule damaged_header [OF assms])

theorem damaged_header_accepted_witness:
  "(\<exists>t'. loadMeta ((fillMeta (initTable [116] ORDERING_ULONG))[7 := 0xFFFFFFFF]) (initTable [] ORDERING_ULONG) = Some t' \<and> pageSize t' < 0) \<and>
   (\<exists>t'. loadMeta ((fillMeta (initTable [116] ORDERING_ULONG))[4 := 0]) (initTable [] ORDERING_ULONG) = Some t' \<and> allocPage t' = None)"
proof -
  let ?m = "fillMeta (initTable [116] ORDERING_ULONG)"
  have m: "?m ! 16 = key_type_code ORDERING_ULONG" "?m ! 8 = of_nat (NODE_DISK_SIZE (orderingKeyDiskSize ORDERING_ULONG))" "?m ! 7 = 4096"
    by (simp_all add: nth_fillMeta)
  show ?thesis
    using damaged_header_accepted [of "?m[7 := 0xFFFFFFFF]" ORDERING_ULONG "initTable [] ORDERING_ULONG"]
      damaged_header_accepted [of "?m[4 := 0]" ORDERING_ULONG "initTable [] ORDERING_ULONG"] m by (simp add: METALEN_def)
qed

end
