(* ===== verification/Codec.thy ===== *)
theory Codec
  imports Tables
begin

text \<open>
  How pages and nodes are laid out in a table's file, and how they are read back (\<open>tableIO.c\<close>): \<open>serializePage\<close>,
  \<open>serializeNode\<close>, and the halves of \<open>readPage\<close> and \<open>readNode\<close> that decode the bytes. Sizes depend on the table's key
  type. \<open>None\<close> is the \<open>false\<close> a reader returns for a damaged object, and a write that would leave the buffer.
\<close>

section \<open>Keys\<close>

text \<open>\<open>strnlen(s, n)\<close>.\<close>

definition c_strnlen :: "byte list \<Rightarrow> nat \<Rightarrow> nat" where
  "c_strnlen s n = length (takeWhile (\<lambda>c. c \<noteq> 0) (take n s))"

definition writeOrderingKeyBytewise :: "byte list \<Rightarrow> nat \<Rightarrow> ordering_key \<Rightarrow> ordering_type \<Rightarrow> byte list" where
  "writeOrderingKeyBytewise buf off k ty =
     (if ty = ORDERING_STRING
      then blit (blit buf off (replicate TEXT_KEY_MAX_LEN 0)) off (take (c_strnlen (string k) TEXT_KEY_MAX_LEN) (string k))
      else writeULongBytewise buf off (u64 k))"

definition readUInt :: "byte list \<Rightarrow> nat \<Rightarrow> u32" where
  "readUInt bs off = push_bit 24 (ucast (bs ! off)) OR push_bit 16 (ucast (bs ! (off + 1))) OR push_bit 8 (ucast (bs ! (off + 2)))
     OR ucast (bs ! (off + 3))"

definition readULong :: "byte list \<Rightarrow> nat \<Rightarrow> u64" where
  "readULong bs off = push_bit 56 (ucast (bs ! off)) OR push_bit 48 (ucast (bs ! (off + 1))) OR push_bit 40 (ucast (bs ! (off + 2)))
     OR push_bit 32 (ucast (bs ! (off + 3))) OR push_bit 24 (ucast (bs ! (off + 4))) OR push_bit 16 (ucast (bs ! (off + 5)))
     OR push_bit 8 (ucast (bs ! (off + 6))) OR ucast (bs ! (off + 7))"

definition readOrderingKey :: "byte list \<Rightarrow> nat \<Rightarrow> ordering_type \<Rightarrow> ordering_key" where
  "readOrderingKey buf off ty =
     (let k = zero_key\<lparr>otype := ty\<rparr>
      in if ty = ORDERING_STRING then k\<lparr>string := blit (string k) 0 (segment buf off TEXT_KEY_MAX_LEN)\<rparr>
         else k\<lparr>u64 := readULong buf off\<rparr>)"

section \<open>Pages\<close>

fun type_letter :: "dtype \<Rightarrow> byte" where
  "type_letter T_INT = 105" | "type_letter T_STRING = 115" | "type_letter T_DATE = 100" | "type_letter T_TIME = 116"

text \<open>The loop over \<open>DATATYPE_CODES\<close>; a code that is none of them leaves the type 0 of a fresh entry.\<close>

definition letter_type :: "byte \<Rightarrow> dtype" where
  "letter_type code = fold (\<lambda>j ty. if type_letter j = code then j else ty) [T_INT, T_STRING, T_DATE, T_TIME] T_INT"

definition write_slot :: "table \<Rightarrow> sp_slot \<Rightarrow> byte list \<times> nat \<Rightarrow> byte list \<times> nat" where
  "write_slot t s acc =
     (let (buf, offset) = acc; ks = keyDiskSize t;
          buf = writeOrderingKeyBytewise buf offset (ID s) (keyType t);
          buf = writeUIntBytewise buf (offset + ks) (of_nat (slen s));
          buf = writeUIntBytewise buf (offset + ks + 4) (of_nat (ssize s));
          buf = writeUIntBytewise buf (offset + ks + 8) (of_nat (ptr s))
      in (buf, offset + SP_SLOT_DISK_SIZE ks))"

text \<open>Records grow down from the end of the buffer.\<close>

definition write_entry :: "table \<Rightarrow> entry \<Rightarrow> (byte list \<times> nat) option \<Rightarrow> (byte list \<times> nat) option" where
  "write_entry t e acc =
     (case acc of None \<Rightarrow> None
      | Some (buf, entryOffset) \<Rightarrow>
          if entryOffset + esize e + 6 > nat (pageSize t) then None
          else let start = nat (pageSize t) - entryOffset - 1;
                   buf = buf[start := type_letter (etype e)];
                   buf = buf[start - 1 := 92];
                   buf = writeUIntBytewise buf (start - 5) (of_nat (esize e));
                   buf = blit buf (start - 5 - esize e) (take (esize e) (edata e))
               in Some (buf, entryOffset + esize e + 6))"

definition serializePage :: "slotted_page \<Rightarrow> table \<Rightarrow> byte list option" where
  "serializePage p t =
     (let buf = replicate (nat (pageSize t)) 0; ks = keyDiskSize t; h = hdr p; fields = 1 + 2 * ks;
          buf = writeOrderingKeyBytewise buf 1 (minKey h) (keyType t);
          buf = writeOrderingKeyBytewise buf (1 + ks) (maxKey h) (keyType t);
          buf = writeUIntBytewise buf fields (of_nat (usedData h));
          buf = writeUIntBytewise buf (fields + 4) (of_nat (numRecords h));
          buf = writeUIntBytewise buf (fields + 8) (of_nat (numEntries h));
          buf = writeUIntBytewise buf (fields + 12) (of_nat (arrCap h));
          buf = writeUIntBytewise buf (fields + 16) (of_nat (maxEntries h));
          buf = writeUIntBytewise buf (fields + 20) (of_nat (maxSlots h));
          (buf, offset) = fold (write_slot t) (take (numRecords h) (slots p)) (buf, PAGE_HEADER_DISK_SIZE ks)
      in map_option fst (fold (write_entry t) (take (numEntries h) (entries p)) (Some (buf, 0))))"

definition read_header :: "byte list \<Rightarrow> table \<Rightarrow> header" where
  "read_header raw t =
     (let ks = keyDiskSize t; fields = 1 + 2 * ks
      in \<lparr>minKey = readOrderingKey raw 1 (keyType t), maxKey = readOrderingKey raw (1 + ks) (keyType t),
          usedData = unat (readUInt raw fields), numRecords = unat (readUInt raw (fields + 4)),
          numEntries = unat (readUInt raw (fields + 8)), arrCap = unat (readUInt raw (fields + 12)),
          maxEntries = unat (readUInt raw (fields + 16)), maxSlots = unat (readUInt raw (fields + 20)), keySize = ks\<rparr>)"

definition read_slot :: "byte list \<Rightarrow> table \<Rightarrow> nat \<Rightarrow> sp_slot" where
  "read_slot raw t offset =
     (let ks = keyDiskSize t
      in \<lparr>ID = readOrderingKey raw offset (keyType t), ptr = unat (readUInt raw (offset + ks + 8)),
          slen = unat (readUInt raw (offset + ks)), ssize = unat (readUInt raw (offset + ks + 4))\<rparr>)"

text \<open>The loop over the entries, from the end of the page down. \<open>entryCursor - 6 < slotEnd\<close> is compared in \<open>uint32_t\<close>.\<close>

fun read_entries :: "byte list \<Rightarrow> nat \<Rightarrow> nat \<Rightarrow> nat \<Rightarrow> entry list option" where
  "read_entries raw slotEnd 0 cursor = Some []"
| "read_entries raw slotEnd (Suc n) cursor =
     (if (of_nat cursor - 6 :: u32) < of_nat slotEnd then None
      else let code = raw ! (cursor - 1); cursor = cursor - 6; size = readUInt raw cursor
           in if size > of_nat cursor - of_nat slotEnd then None
              else let cursor = cursor - unat size;
                       e = \<lparr>edata = segment raw cursor (unat size), esize = unat size, etype = letter_type code\<rparr>
                   in map_option (Cons e) (read_entries raw slotEnd n cursor))"

definition parsePage :: "byte list \<Rightarrow> table \<Rightarrow> slotted_page option" where
  "parsePage raw t =
     (if raw ! 0 \<noteq> 0 then None
      else let ks = keyDiskSize t; h = read_header raw t; slotSize = SP_SLOT_DISK_SIZE ks
      in if numRecords h > maxSlots h \<or> numEntries h > maxEntries h \<or> maxSlots h > 1024 * 64 \<or> maxEntries h > 1024 * 64 \<or>
            numRecords h > unat (word_of_int (pageSize t) - of_nat (PAGE_HEADER_DISK_SIZE ks) :: u32) div slotSize
         then None
         else let ss = map (\<lambda>i. read_slot raw t (PAGE_HEADER_DISK_SIZE ks + i * slotSize)) [0..<numRecords h];
                  slotEnd = PAGE_HEADER_DISK_SIZE ks + slotSize * numRecords h
              in case read_entries raw slotEnd (numEntries h) (nat (pageSize t)) of None \<Rightarrow> None
                 | Some es \<Rightarrow> Some \<lparr>hdr = h, entries = es @ replicate (maxEntries h - numEntries h) zero_entry,
                                    slots = ss @ replicate (maxSlots h - numRecords h) zero_slot\<rparr>)"

text \<open>\<open>copyPage\<close> into newly allocated arrays.\<close>

definition copyPage :: "slotted_page \<Rightarrow> slotted_page" where
  "copyPage p =
     \<lparr>hdr = hdr p, entries = take (numEntries (hdr p)) (entries p) @ replicate (maxEntries (hdr p) - numEntries (hdr p)) zero_entry,
      slots = take (numRecords (hdr p)) (slots p) @ replicate (maxSlots (hdr p) - numRecords (hdr p)) zero_slot\<rparr>"

section \<open>Nodes\<close>

definition write_child :: "address \<Rightarrow> byte list \<times> nat \<Rightarrow> byte list \<times> nat" where
  "write_child c acc = (let (buf, offset) = acc in (writeULongBytewise buf offset c, offset + 8))"

definition write_key :: "table \<Rightarrow> ordering_key \<Rightarrow> byte list \<times> nat \<Rightarrow> byte list \<times> nat" where
  "write_key t k acc = (let (buf, offset) = acc in (writeOrderingKeyBytewise buf offset k (keyType t), offset + keyDiskSize t))"

text \<open>How many keys a node has: one for each child of a leaf, one fewer for an inner node.\<close>

definition keylim :: "node \<Rightarrow> nat" where
  "keylim n = (if isLeaf n then childCount n else childCount n - 1)"

definition serializeNode :: "node \<Rightarrow> table \<Rightarrow> byte list" where
  "serializeNode n t =
     (let buf = replicate (nat (nodeSize t)) 0; ks = keyDiskSize t;
          buf = buf[0 := 1];
          buf = writeULongBytewise buf 1 (parent n);
          buf = writeULongBytewise buf 9 (nprev n);
          buf = writeULongBytewise buf 17 (nnext n);
          buf = writeUIntBytewise buf 25 (of_nat (childCount n));
          buf = writeOrderingKeyBytewise buf 29 (nmaxKey n) (keyType t);
          buf = buf[NODE_HEADER_DISK_SIZE ks - 1 := (if isLeaf n then 1 else 0)];
          (buf, offset) = fold write_child (take (childCount n) (children n)) (buf, NODE_HEADER_DISK_SIZE ks);
          (buf, offset) = fold (write_key t) (take (keylim n) (keys n)) (buf, offset)
      in buf)"

text \<open>\<open>overwrite old news\<close>: the array with its first places written.\<close>

definition overwrite :: "'a list \<Rightarrow> 'a list \<Rightarrow> 'a list" where
  "overwrite old news = news @ drop (length news) old"

text \<open>Whether the node could be read, and the struct afterwards: a node that is rejected half way has some of its fields
  changed. The size is computed in \<open>uint32_t\<close>, with \<open>keylim\<close> a signed number.\<close>

definition parseNode :: "byte list \<Rightarrow> table \<Rightarrow> node \<Rightarrow> bool \<times> node" where
  "parseNode raw t n =
     (if raw ! 0 \<noteq> 1 then (False, n)
      else let ks = keyDiskSize t;
               n1 = n\<lparr>parent := readULong raw 1, nprev := readULong raw 9, nnext := readULong raw 17, childCount := unat (readUInt raw 25)\<rparr>
      in if childCount n1 > M_GLOBAL then (False, n1)
         else let n2 = n1\<lparr>nmaxKey := readOrderingKey raw 29 (keyType t), isLeaf := (raw ! (NODE_HEADER_DISK_SIZE ks - 1) \<noteq> 0)\<rparr>;
                  lim = int (childCount n2) - (if isLeaf n2 then 0 else 1);
                  size = of_nat (NODE_HEADER_DISK_SIZE ks) + of_nat (childCount n2) * 8 + word_of_int lim * of_nat ks :: u32
              in if size > word_of_int (nodeSize t) then (False, n2)
                 else let off = NODE_HEADER_DISK_SIZE ks;
                          cs = map (\<lambda>i. readULong raw (off + 8 * i)) [0..<childCount n2];
                          kys = map (\<lambda>i. readOrderingKey raw (off + 8 * childCount n2 + ks * i) (keyType t)) [0..<nat lim]
                      in (True, n2\<lparr>children := overwrite (children n2) cs, keys := overwrite (keys n2) kys\<rparr>))"

section \<open>Fields of a buffer\<close>

lemma segment_segment: "o' + n \<le> m \<Longrightarrow> segment (segment raw off m) o' n = segment raw (off + o') n"
  by (simp add: segment_def drop_take add.commute min_def)

lemma segment_field:
  "i < length fs \<Longrightarrow> off = sum_list (map length (take i fs)) \<Longrightarrow> n = length (fs ! i) \<Longrightarrow> segment (concat fs @ rest) off n = fs ! i"
proof (induction fs arbitrary: i off)
  case (Cons f fs)
  show ?case
  proof (cases i)
    case 0
    with Cons.prems show ?thesis by (simp add: segment_def)
  next
    case (Suc j)
    have "segment (concat (f # fs) @ rest) off n = segment (concat fs @ rest) (sum_list (map length (take j fs))) n"
      using Cons.prems Suc by (simp add: segment_def)
    with Cons Suc show ?thesis by simp
  qed
qed simp

lemma word_at_value: "off + 4 \<le> length buf \<Longrightarrow> readUInt buf off = be_value (segment buf off 4)"
  unfolding segment_4 readUInt_def be_value_def foldl.simps
  by (rule bit_word_eqI) (auto simp: bit_simps dest: bit_imp_le_length)

lemma segment_8: "off + 8 \<le> length buf \<Longrightarrow>
    segment buf off 8 = [buf ! off, buf ! (off + 1), buf ! (off + 2), buf ! (off + 3), buf ! (off + 4), buf ! (off + 5), buf ! (off + 6), buf ! (off + 7)]"
  by (rule nth_equalityI) (auto simp: less_Suc_eq numeral_eq_Suc)

lemma long_at_value: "off + 8 \<le> length buf \<Longrightarrow> readULong buf off = be_value (segment buf off 8)"
  unfolding segment_8 readULong_def be_value_def foldl.simps
  by (rule bit_word_eqI) (auto simp: bit_simps dest: bit_imp_le_length)

lemma be_value_u32 [simp]: "be_value (be_bytes 4 (w :: u32)) = w"
  by (simp add: be_value_be_bytes take_bit_word_eq_self)

lemma be_value_u64 [simp]: "be_value (be_bytes 8 (w :: u64)) = w"
  by (simp add: be_value_be_bytes take_bit_word_eq_self)

lemma unat_of_nat_u32 [simp]: "n < 2 ^ 32 \<Longrightarrow> unat (of_nat n :: u32) = n"
  by (simp add: unsigned_of_nat take_bit_eq_mod)

lemma writeUInt_fresh:
  "off = length xs \<Longrightarrow> 4 \<le> n \<Longrightarrow> writeUIntBytewise (xs @ replicate n 0) off w = (xs @ be_bytes 4 w) @ replicate (n - 4) 0"
  by (subst writeUInt_blit) (simp_all add: blit_fresh)

lemma writeULong_fresh:
  "off = length xs \<Longrightarrow> 8 \<le> n \<Longrightarrow> writeULongBytewise (xs @ replicate n 0) off w = (xs @ be_bytes 8 w) @ replicate (n - 8) 0"
  by (subst writeULong_blit) (simp_all add: blit_fresh)

lemma length_concat_const: "\<forall>x \<in> set xs. length (f x) = z \<Longrightarrow> length (concat (map f xs)) = length xs * z"
  by (induction xs) simp_all

lemma segment_const:
  "\<forall>x \<in> set xs. length (f x) = z \<Longrightarrow> i < length xs \<Longrightarrow> segment (concat (map f xs) @ rest) (i * z) z = f (xs ! i)"
proof (induction xs arbitrary: i)
  case (Cons x xs)
  show ?case
  proof (cases i)
    case 0
    with Cons.prems show ?thesis by (simp add: segment_def)
  next
    case (Suc j)
    have "segment (concat (map f (x # xs)) @ rest) (i * z) z = segment (concat (map f xs) @ rest) (j * z) z"
      using Cons.prems Suc by (simp add: segment_def)
    with Cons Suc show ?thesis by simp
  qed
qed simp

section \<open>Keys come back\<close>

text \<open>A key of the table's type, or the zeroed key that stands in for one.\<close>

definition key_ok :: "ordering_type \<Rightarrow> ordering_key \<Rightarrow> bool" where
  "key_ok ty k \<longleftrightarrow> wf_key ty k \<or> k = zero_key"

definition typed :: "ordering_type \<Rightarrow> ordering_key \<Rightarrow> ordering_key" where
  "typed ty k = k\<lparr>otype := ty\<rparr>"

lemma typed_wf [simp]: "wf_key ty k \<Longrightarrow> typed ty k = k"
  by (simp add: typed_def wf_key_def)

definition key_bytes :: "ordering_type \<Rightarrow> ordering_key \<Rightarrow> byte list" where
  "key_bytes ty k = (if ty = ORDERING_STRING then take TEXT_KEY_MAX_LEN (string k) else be_bytes 8 (u64 k))"

lemma key_ok_string: "key_ok ty k \<Longrightarrow> length (string k) = TEXT_KEY_MAX_LEN + 1"
  by (auto simp: key_ok_def wf_key_def zero_key_def)

lemma length_key_bytes [simp]: "key_ok ty k \<Longrightarrow> length (key_bytes ty k) = orderingKeyDiskSize ty"
  using key_ok_string [of ty k] by (simp add: key_bytes_def disk_sizes)

lemma padded_zeros: "padded xs \<Longrightarrow> takeWhile (\<lambda>c. c \<noteq> 0) xs @ replicate (length xs - length (takeWhile (\<lambda>c. c \<noteq> 0) xs)) 0 = xs"
proof (induction xs)
  case (Cons x xs)
  then show ?case by (cases "x = 0") auto
qed simp

lemma padded_replicate: "padded (replicate n 0)"
  by (induction n) auto

lemma key_ok_padded:
  assumes "key_ok ORDERING_STRING k" shows "padded (take TEXT_KEY_MAX_LEN (string k))"
proof -
  have "padded (string k)" using assms padded_replicate by (auto simp: key_ok_def wf_key_def zero_key_def)
  then show ?thesis by (rule padded_take)
qed

lemma writeOrderingKey_blit:
  assumes "key_ok ty k" "off + orderingKeyDiskSize ty \<le> length buf"
  shows "writeOrderingKeyBytewise buf off k ty = blit buf off (key_bytes ty k)"
proof (cases "ty = ORDERING_STRING")
  case True
  let ?x = "take TEXT_KEY_MAX_LEN (string k)" and ?n = "c_strnlen (string k) TEXT_KEY_MAX_LEN"
  have len: "length ?x = TEXT_KEY_MAX_LEN" using key_ok_string [OF assms(1)] by simp
  have n: "?n \<le> TEXT_KEY_MAX_LEN" unfolding c_strnlen_def using length_takeWhile_le [of "\<lambda>c. c \<noteq> 0" ?x] len by simp
  have t: "take ?n (string k) = takeWhile (\<lambda>c. c \<noteq> 0) ?x"
  proof -
    have "take ?n (string k) = take ?n ?x" using n by (simp add: min_def)
    also have "\<dots> = takeWhile (\<lambda>c. c \<noteq> 0) ?x" unfolding c_strnlen_def by (rule takeWhile_eq_take [symmetric])
    finally show ?thesis .
  qed
  have x: "take ?n (string k) @ replicate (TEXT_KEY_MAX_LEN - ?n) 0 = ?x"
    using padded_zeros [OF key_ok_padded, of k] assms(1) True len unfolding t by (simp add: c_strnlen_def)
  have off: "off + TEXT_KEY_MAX_LEN \<le> length buf" using assms(2) True by (simp add: orderingKeyDiskSize_def)
  have "blit (blit buf off (replicate TEXT_KEY_MAX_LEN 0)) off (take ?n (string k)) = blit buf off (take ?n (string k) @ replicate (TEXT_KEY_MAX_LEN - ?n) 0)"
    using off n key_ok_string [OF assms(1)] by (simp add: blit_def)
  then show ?thesis using True x by (simp add: writeOrderingKeyBytewise_def key_bytes_def)
next
  case False
  then show ?thesis using assms(2) by (simp add: writeOrderingKeyBytewise_def key_bytes_def writeULong_blit orderingKeyDiskSize_def NUMERIC_KEY_DISK_SIZE_def)
qed

lemma writeOrderingKey_fresh:
  assumes "key_ok ty k" "off = length xs" "orderingKeyDiskSize ty \<le> n"
  shows "writeOrderingKeyBytewise (xs @ replicate n 0) off k ty = (xs @ key_bytes ty k) @ replicate (n - orderingKeyDiskSize ty) 0"
  using assms by (subst writeOrderingKey_blit) (simp_all add: blit_fresh)

lemma readOrderingKey_bytes:
  assumes "key_ok ty k" "segment buf off (orderingKeyDiskSize ty) = key_bytes ty k" "off + orderingKeyDiskSize ty \<le> length buf"
  shows "readOrderingKey buf off ty = typed ty k"
proof (cases "ty = ORDERING_STRING")
  case True
  have l: "length (string k) = TEXT_KEY_MAX_LEN + 1" by (rule key_ok_string [OF assms(1)])
  have "string zero_key ! TEXT_KEY_MAX_LEN = 0" unfolding zero_key_def by (simp add: nth_replicate del: replicate.simps replicate_Suc add_Suc_right)
  then have z: "string k ! TEXT_KEY_MAX_LEN = 0" using assms(1) True by (auto simp: key_ok_def wf_key_def)
  have z2: "u64 k = 0" using assms(1) True by (auto simp: key_ok_def wf_key_def zero_key_def)
  have "blit (string zero_key) 0 (take TEXT_KEY_MAX_LEN (string k)) = take TEXT_KEY_MAX_LEN (string k) @ [0]"
    using l unfolding blit_def by (simp add: zero_key_def del: replicate.simps replicate_Suc add_Suc_right) (simp add: replicate_Suc)
  also have "\<dots> = string k" using l z take_Suc_conv_app_nth [of TEXT_KEY_MAX_LEN "string k"] by simp
  finally show ?thesis
    using assms(2) True z2 by (simp add: readOrderingKey_def key_bytes_def orderingKeyDiskSize_def typed_def) (simp add: zero_key_def)
next
  case False
  then have "string k = string zero_key" using assms(1) by (auto simp: key_ok_def wf_key_def)
  moreover have "readULong buf off = u64 k"
    using assms(2,3) False by (subst long_at_value) (simp_all add: key_bytes_def orderingKeyDiskSize_def NUMERIC_KEY_DISK_SIZE_def)
  ultimately show ?thesis using False by (simp add: readOrderingKey_def Let_def typed_def)
qed

section \<open>The image of a page\<close>

definition slot_image :: "ordering_type \<Rightarrow> sp_slot \<Rightarrow> byte list" where
  "slot_image ty s = key_bytes ty (ID s) @ be_bytes 4 (of_nat (slen s) :: u32) @ be_bytes 4 (of_nat (ssize s) :: u32) @ be_bytes 4 (of_nat (ptr s) :: u32)"

definition entry_image :: "entry \<Rightarrow> byte list" where
  "entry_image e = edata e @ be_bytes 4 (of_nat (esize e) :: u32) @ [92, type_letter (etype e)]"

fun entries_image :: "entry list \<Rightarrow> byte list" where
  "entries_image [] = []"
| "entries_image (e # es) = entries_image es @ entry_image e"

definition header_fields_image :: "ordering_type \<Rightarrow> header \<Rightarrow> byte list list" where
  "header_fields_image ty h =
     [[0], key_bytes ty (minKey h), key_bytes ty (maxKey h), be_bytes 4 (of_nat (usedData h) :: u32), be_bytes 4 (of_nat (numRecords h) :: u32),
      be_bytes 4 (of_nat (numEntries h) :: u32), be_bytes 4 (of_nat (arrCap h) :: u32), be_bytes 4 (of_nat (maxEntries h) :: u32),
      be_bytes 4 (of_nat (maxSlots h) :: u32)]"

lemma fold_write_slot:
  assumes "\<forall>s \<in> set ss. key_ok (keyType t) (ID s)" "length ss * SP_SLOT_DISK_SIZE (keyDiskSize t) \<le> n" "off = length xs"
  shows "fold (write_slot t) ss (xs @ replicate n 0, off) =
     (xs @ concat (map (slot_image (keyType t)) ss) @ replicate (n - length ss * SP_SLOT_DISK_SIZE (keyDiskSize t)) 0,
      off + length ss * SP_SLOT_DISK_SIZE (keyDiskSize t))"
  using assms
proof (induction ss arbitrary: xs n off)
  case (Cons s ss)
  let ?ks = "keyDiskSize t" and ?z = "SP_SLOT_DISK_SIZE (keyDiskSize t)"
  have k: "key_ok (keyType t) (ID s)" "length (key_bytes (keyType t) (ID s)) = ?ks"
    using Cons.prems(1) by (simp_all add: keyDiskSize_def)
  have n: "?ks + 12 + length ss * ?z \<le> n" using Cons.prems(2) by (simp add: SP_SLOT_DISK_SIZE_def)
  let ?K = "key_bytes (keyType t) (ID s)"
  have a: "writeOrderingKeyBytewise (xs @ replicate n 0) off (ID s) (keyType t) = (xs @ ?K) @ replicate (n - ?ks) 0"
    using k(1) n Cons.prems(3) unfolding keyDiskSize_def by (intro writeOrderingKey_fresh) simp_all
  have b: "writeUIntBytewise ((xs @ ?K) @ replicate (n - ?ks) 0) (off + ?ks) w = (xs @ ?K @ be_bytes 4 w) @ replicate (n - ?ks - 4) 0" for w :: u32
    using k(2) n Cons.prems(3) by (subst writeUInt_fresh) simp_all
  have c: "writeUIntBytewise ((xs @ ?K @ be_bytes 4 w) @ replicate (n - ?ks - 4) 0) (off + ?ks + 4) v
      = (xs @ ?K @ be_bytes 4 w @ be_bytes 4 v) @ replicate (n - ?ks - 4 - 4) 0" for v w :: u32
    using k(2) n Cons.prems(3) by (subst writeUInt_fresh) simp_all
  have d: "writeUIntBytewise ((xs @ ?K @ be_bytes 4 w @ be_bytes 4 v) @ replicate (n - ?ks - 4 - 4) 0) (off + ?ks + 8) u
      = (xs @ ?K @ be_bytes 4 w @ be_bytes 4 v @ be_bytes 4 u) @ replicate (n - ?ks - 4 - 4 - 4) 0" for u v w :: u32
    using k(2) n Cons.prems(3) by (subst writeUInt_fresh) simp_all
  have "write_slot t s (xs @ replicate n 0, off) = ((xs @ slot_image (keyType t) s) @ replicate (n - ?z) 0, off + ?z)"
    unfolding write_slot_def Let_def prod.case a b c d by (simp add: slot_image_def SP_SLOT_DISK_SIZE_def)
  moreover have "length (xs @ slot_image (keyType t) s) = off + ?z" using k Cons.prems(3) by (simp add: slot_image_def SP_SLOT_DISK_SIZE_def)
  ultimately show ?case using Cons.IH [of "n - ?z" "off + ?z" "xs @ slot_image (keyType t) s"] Cons.prems(1) n
    by (simp add: SP_SLOT_DISK_SIZE_def)
qed simp

lemma blit_back:
  assumes "m = length src" "m \<le> n" "off = length xs + n - m"
  shows "blit (xs @ replicate n z @ ys) off src = xs @ replicate (n - m) z @ src @ ys"
proof -
  have "replicate n z = replicate (n - m) z @ replicate m z" using assms(2) by (simp flip: replicate_add)
  then show ?thesis using blit_append_here [of "replicate m z" src "xs @ replicate (n - m) z" ys] assms by simp
qed

lemma list_update_back: "0 < n \<Longrightarrow> i = length xs + n - 1 \<Longrightarrow> (xs @ replicate n z @ ys)[i := y] = xs @ replicate (n - 1) z @ y # ys"
  by (cases n) (simp_all add: list_update_append replicate_append_same [symmetric])

lemma write_entry_step:
  assumes "length (edata e) = esize e" "esize e + 6 \<le> n" "nat (pageSize t) = length xs + n + length ys"
  shows "write_entry t e (Some (xs @ replicate n 0 @ ys, length ys)) =
     Some (xs @ replicate (n - (esize e + 6)) 0 @ entry_image e @ ys, length ys + (esize e + 6))"
proof -
  let ?w = "be_bytes 4 (of_nat (esize e) :: u32)" and ?start = "nat (pageSize t) - length ys - 1"
  have u: "(xs @ replicate n 0 @ ys)[?start := type_letter (etype e)] = xs @ replicate (n - 1) 0 @ type_letter (etype e) # ys"
    using assms by (intro list_update_back) simp_all
  have v: "(xs @ replicate (n - 1) 0 @ type_letter (etype e) # ys)[?start - 1 := 92] = xs @ replicate (n - 2) 0 @ 92 # type_letter (etype e) # ys"
    using list_update_back [of "n - 1" "?start - 1" xs 0 "type_letter (etype e) # ys" 92] assms by (simp add: numeral_2_eq_2)
  have w: "writeUIntBytewise (xs @ replicate (n - 2) 0 @ 92 # type_letter (etype e) # ys) (?start - 5) (of_nat (esize e)) =
      xs @ replicate (n - 6) 0 @ ?w @ 92 # type_letter (etype e) # ys"
    using assms by (subst writeUInt_blit) (simp_all add: blit_back)
  have x: "blit (xs @ replicate (n - 6) 0 @ ?w @ 92 # type_letter (etype e) # ys) (?start - 5 - esize e) (take (esize e) (edata e)) =
      xs @ replicate (n - 6 - esize e) 0 @ edata e @ ?w @ 92 # type_letter (etype e) # ys"
    using assms by (subst blit_back) simp_all
  show ?thesis
    using assms unfolding write_entry_def option.case prod.case Let_def u v w x by (simp add: entry_image_def)
qed

lemma fold_write_entry:
  assumes "\<forall>e \<in> set es. length (edata e) = esize e" "sum_list (map (\<lambda>e. esize e + 6) es) \<le> n" "nat (pageSize t) = length xs + n + length ys"
  shows "\<exists>k. fold (write_entry t) es (Some (xs @ replicate n 0 @ ys, length ys)) =
     Some (xs @ replicate (n - sum_list (map (\<lambda>e. esize e + 6) es)) 0 @ entries_image es @ ys, k)"
  using assms
proof (induction es arbitrary: n ys)
  case (Cons e es)
  have l: "length (entry_image e @ ys) = length ys + (esize e + 6)" using Cons.prems(1) by (simp add: entry_image_def)
  have "write_entry t e (Some (xs @ replicate n 0 @ ys, length ys)) =
      Some (xs @ replicate (n - (esize e + 6)) 0 @ (entry_image e @ ys), length (entry_image e @ ys))"
    using write_entry_step [of e n t xs ys] Cons.prems l by simp
  moreover obtain k where "fold (write_entry t) es (Some (xs @ replicate (n - (esize e + 6)) 0 @ (entry_image e @ ys), length (entry_image e @ ys))) =
     Some (xs @ replicate (n - (esize e + 6) - sum_list (map (\<lambda>e. esize e + 6) es)) 0 @ entries_image es @ (entry_image e @ ys), k)"
    using Cons.IH [of "n - (esize e + 6)" "entry_image e @ ys"] Cons.prems l by auto
  ultimately show ?case by (simp add: diff_diff_left add.commute add.left_commute)
qed auto

section \<open>The entries of a page's records are all its entries\<close>

definition slot_range :: "sp_slot \<Rightarrow> nat set" where
  "slot_range s = {ptr s..<ptr s + slen s}"

lemma ranges_sum:
  "sorted_wrt apart ss \<Longrightarrow> sum_list (map (\<lambda>s. sum f (slot_range s)) ss) = sum f (\<Union>s \<in> set ss. slot_range s)"
proof (induction ss)
  case (Cons s ss)
  have "slot_range s \<inter> (\<Union>t \<in> set ss. slot_range t) = {}" using Cons.prems by (fastforce simp: slot_range_def apart_def)
  with Cons show ?case by (simp add: sum.union_disjoint slot_range_def)
qed simp

lemma ranges_cover:
  assumes "sorted_wrt apart ss" "\<forall>s \<in> set ss. ptr s + slen s \<le> n" "sum_list (map slen ss) = n"
  shows "(\<Union>s \<in> set ss. slot_range s) = {..<n}"
proof (rule card_subset_eq)
  show "(\<Union>s \<in> set ss. slot_range s) \<subseteq> {..<n}" using assms(2) by (force simp: slot_range_def)
  have "sum_list (map (\<lambda>s. sum (\<lambda>_. 1 :: nat) (slot_range s)) ss) = sum (\<lambda>_. 1 :: nat) (\<Union>s \<in> set ss. slot_range s)" by (rule ranges_sum [OF assms(1)])
  then show "card (\<Union>s \<in> set ss. slot_range s) = card {..<n}" using assms(3) by (simp add: slot_range_def)
qed simp

lemma segment_nths: "a + n \<le> length xs \<Longrightarrow> segment xs a n = map ((!) xs) [a..<a + n]"
  by (rule nth_equalityI) simp_all

lemma page_entry_bytes:
  assumes "page_shape ty p"
  shows "entry_bytes (take (numEntries (hdr p)) (entries p)) = usedData (hdr p)"
proof -
  note sh = shape_parts [OF assms]
  let ?f = "\<lambda>i. esize (entries p ! i)"
  have in_range: "ptr s + slen s \<le> numEntries (hdr p)" "ssize s = entry_bytes (slot_entries p s)" if "s \<in> set (live_slots p)" for s
    using sh(7) [OF that] by (simp_all add: slot_ok_def)
  have "ssize s = sum ?f (slot_range s)" if s: "s \<in> set (live_slots p)" for s
  proof -
    have "ptr s + slen s \<le> length (entries p)" using in_range(1) [OF s] sh(3,4) by simp
    then show ?thesis using in_range(2) [OF s]
      by (simp add: slot_entries_def segment_nths entry_bytes_def slot_range_def comp_def interv_sum_list_conv_sum_set_nat)
  qed
  then have "sum_list (map ssize (live_slots p)) = sum_list (map (\<lambda>s. sum ?f (slot_range s)) (live_slots p))"
    by (intro arg_cong [where f = sum_list] map_cong) simp_all
  also have "\<dots> = sum ?f {..<numEntries (hdr p)}"
    unfolding ranges_sum [OF sh(8)] by (subst ranges_cover) (use sh(8,9) in_range in auto)
  also have "\<dots> = sum_list (map ?f [0..<numEntries (hdr p)])" by (simp add: interv_sum_list_conv_sum_set_nat atLeast0LessThan)
  also have "\<dots> = entry_bytes (take (numEntries (hdr p)) (entries p))"
    using sh(3,4) segment_nths [of 0 "numEntries (hdr p)" "entries p"] by (simp add: entry_bytes_def segment_def comp_def)
  finally show ?thesis using sh(10) by simp
qed

section \<open>A page as it is written\<close>

text \<open>A well-formed page that fits, with the sizes of its arrays in the range the reader accepts.\<close>

definition storable :: "table \<Rightarrow> slotted_page \<Rightarrow> bool" where
  "storable t p \<longleftrightarrow> wf_page (keyType t) p \<and> (\<forall>e \<in> set (take (numEntries (hdr p)) (entries p)). length (edata e) = esize e) \<and>
     int (PAGE_HEADER_DISK_SIZE (keyDiskSize t) + recs_bytes (keyDiskSize t) (records p)) \<le> pageSize t \<and> pageSize t \<le> 65536 \<and>
     arrCap (hdr p) < 2 ^ 32 \<and> maxSlots (hdr p) \<le> 65536 \<and> maxEntries (hdr p) \<le> 65536"

definition page_gap :: "table \<Rightarrow> slotted_page \<Rightarrow> nat" where
  "page_gap t p = nat (pageSize t) - (PAGE_HEADER_DISK_SIZE (keyDiskSize t) + recs_bytes (keyDiskSize t) (records p))"

definition page_image :: "table \<Rightarrow> slotted_page \<Rightarrow> byte list" where
  "page_image t p = concat (header_fields_image (keyType t) (hdr p)) @ concat (map (slot_image (keyType t)) (live_slots p)) @
     replicate (page_gap t p) 0 @ entries_image (take (numEntries (hdr p)) (entries p))"

lemma storable_keys:
  assumes "storable t p"
  shows "key_ok (keyType t) (minKey (hdr p))" "key_ok (keyType t) (maxKey (hdr p))" "\<And>s. s \<in> set (live_slots p) \<Longrightarrow> key_ok (keyType t) (ID s)"
proof -
  have w: "wf_page (keyType t) p" using assms by (simp add: storable_def)
  have id: "wf_key (keyType t) (ID s)" if "s \<in> set (live_slots p)" for s
    using w that by (force simp: wf_page_def page_shape_def sorted_recs_def records_def)
  then show "\<And>s. s \<in> set (live_slots p) \<Longrightarrow> key_ok (keyType t) (ID s)" by (simp add: key_ok_def)
  have b: "bounds_ok p" "page_shape (keyType t) p" using w by (simp_all add: wf_page_def)
  have "live_slots p \<noteq> []" if "numRecords (hdr p) \<noteq> 0" using that length_live [OF b(2)] by auto
  then show "key_ok (keyType t) (minKey (hdr p))" "key_ok (keyType t) (maxKey (hdr p))"
    using b(1) id by (auto simp: bounds_ok_def key_ok_def split: if_splits)
qed

lemma header_image:
  assumes "storable t p"
  shows "length (concat (header_fields_image (keyType t) (hdr p))) = PAGE_HEADER_DISK_SIZE (keyDiskSize t)"
  using storable_keys [OF assms] by (simp add: header_fields_image_def PAGE_HEADER_DISK_SIZE_def keyDiskSize_def)

lemma page_room:
  assumes "storable t p"
  shows "PAGE_HEADER_DISK_SIZE (keyDiskSize t) + length (live_slots p) * SP_SLOT_DISK_SIZE (keyDiskSize t) +
     (6 * numEntries (hdr p) + entry_bytes (take (numEntries (hdr p)) (entries p))) + page_gap t p = nat (pageSize t)"
    "length (live_slots p) = numRecords (hdr p)"
    "sum_list (map (\<lambda>e. esize e + 6) (take (numEntries (hdr p)) (entries p))) = 6 * numEntries (hdr p) + entry_bytes (take (numEntries (hdr p)) (entries p))"
proof -
  have sh: "page_shape (keyType t) p" using assms by (simp add: storable_def wf_page_def)
  have ks: "keySize (hdr p) = keyDiskSize t" using shape_parts(5) [OF sh] by (simp add: keyDiskSize_def)
  show l: "length (live_slots p) = numRecords (hdr p)" using shape_parts(1,2) [OF sh] by (simp add: live_slots_def)
  have "PAGE_HEADER_DISK_SIZE (keyDiskSize t) + recs_bytes (keyDiskSize t) (records p) \<le> nat (pageSize t)"
    using assms unfolding storable_def by linarith
  then show "PAGE_HEADER_DISK_SIZE (keyDiskSize t) + length (live_slots p) * SP_SLOT_DISK_SIZE (keyDiskSize t) +
     (6 * numEntries (hdr p) + entry_bytes (take (numEntries (hdr p)) (entries p))) + page_gap t p = nat (pageSize t)"
    using shape_bytes [OF sh] l unfolding page_gap_def page_entry_bytes [OF sh] ks by simp
  have "length (take (numEntries (hdr p)) (entries p)) = numEntries (hdr p)" using shape_parts(3,4) [OF sh] by simp
  then show "sum_list (map (\<lambda>e. esize e + 6) (take (numEntries (hdr p)) (entries p))) = 6 * numEntries (hdr p) + entry_bytes (take (numEntries (hdr p)) (entries p))"
    by (simp add: sum_list_addf sum_list_triv entry_bytes_def)
qed

lemma serializePage_image:
  assumes st: "storable t p"
  shows "serializePage p t = Some (page_image t p)"
proof -
  let ?ks = "keyDiskSize t" and ?ty = "keyType t" and ?h = "hdr p" and ?P = "nat (pageSize t)"
  let ?H = "PAGE_HEADER_DISK_SIZE ?ks" and ?es = "take (numEntries (hdr p)) (entries p)" and ?z = "SP_SLOT_DISK_SIZE ?ks"
  note room = page_room [OF st] and keys = storable_keys [OF st]
  have k: "key_ok ?ty (minKey ?h)" "key_ok ?ty (maxKey ?h)" "length (key_bytes ?ty (minKey ?h)) = ?ks" "length (key_bytes ?ty (maxKey ?h)) = ?ks"
    "orderingKeyDiskSize ?ty = ?ks"
    using keys by (simp_all add: keyDiskSize_def)
  have P: "1 + ?ks + ?ks + 24 \<le> ?P" using room(1) by (simp add: PAGE_HEADER_DISK_SIZE_def)
  let ?A = "key_bytes ?ty (minKey ?h)" and ?B = "key_bytes ?ty (maxKey ?h)"
  have f0: "replicate ?P (0::byte) = [0] @ replicate (?P - 1) 0" using P by (cases ?P) simp_all
  have f1: "writeOrderingKeyBytewise ([0] @ replicate (?P - 1) 0) 1 (minKey ?h) ?ty = ([0] @ ?A) @ replicate (?P - 1 - ?ks) 0"
    using writeOrderingKey_fresh [OF k(1), of 1 "[0]" "?P - 1"] P k(5) by simp
  have f2: "writeOrderingKeyBytewise (([0] @ ?A) @ replicate (?P - 1 - ?ks) 0) (1 + ?ks) (maxKey ?h) ?ty = ([0] @ ?A @ ?B) @ replicate (?P - 1 - ?ks - ?ks) 0"
    using writeOrderingKey_fresh [OF k(2), of "1 + ?ks" "[0] @ ?A" "?P - 1 - ?ks"] P k by simp
  have f: "writeUIntBytewise (xs @ replicate n 0) off w = (xs @ be_bytes 4 w) @ replicate (n - 4) 0" if "length xs = off" "4 \<le> n" for xs n off and w :: u32
    using that by (intro writeUInt_fresh) simp_all
  have slots: "\<forall>s \<in> set (take (numRecords ?h) (slots p)). key_ok ?ty (ID s)" using keys(3) by (simp add: live_slots_def)
  let ?hb = "concat (header_fields_image ?ty ?h)"
  have hdr_written:
    "writeUIntBytewise (writeUIntBytewise (writeUIntBytewise (writeUIntBytewise (writeUIntBytewise (writeUIntBytewise
       (([0] @ ?A @ ?B) @ replicate (?P - 1 - ?ks - ?ks) 0) (1 + 2 * ?ks) (of_nat (usedData ?h))) (1 + 2 * ?ks + 4) (of_nat (numRecords ?h)))
       (1 + 2 * ?ks + 8) (of_nat (numEntries ?h))) (1 + 2 * ?ks + 12) (of_nat (arrCap ?h))) (1 + 2 * ?ks + 16) (of_nat (maxEntries ?h)))
       (1 + 2 * ?ks + 20) (of_nat (maxSlots ?h)) = ?hb @ replicate (?P - ?H) 0"
    using P k(3,4) by (subst f, simp, simp)+ (simp add: header_fields_image_def PAGE_HEADER_DISK_SIZE_def)
  have slots_written: "fold (write_slot t) (live_slots p) (?hb @ replicate (?P - ?H) 0, ?H) =
      (?hb @ concat (map (slot_image ?ty) (live_slots p)) @ replicate (?P - ?H - length (live_slots p) * ?z) 0, ?H + length (live_slots p) * ?z)"
    using keys(3) room(1) header_image [OF st] by (intro fold_write_slot) simp_all
  let ?xs = "?hb @ concat (map (slot_image ?ty) (live_slots p))" and ?n = "?P - ?H - length (live_slots p) * ?z"
  have slot_len: "length (slot_image ?ty s) = ?z" if "s \<in> set (live_slots p)" for s
    using keys(3) [OF that] by (simp add: slot_image_def SP_SLOT_DISK_SIZE_def keyDiskSize_def)
  then have "length (concat (map (slot_image ?ty) (live_slots p))) = length (live_slots p) * ?z" by (intro length_concat_const) simp
  then have xs: "?P = length ?xs + ?n + length ([] :: byte list)" using room(1) header_image [OF st] by simp
  have fits: "sum_list (map (\<lambda>e. esize e + 6) ?es) \<le> ?n" using room(1,3) by linarith
  have data: "\<forall>e \<in> set ?es. length (edata e) = esize e" using st by (simp add: storable_def)
  obtain k where "fold (write_entry t) ?es (Some (?xs @ replicate ?n 0 @ [], length ([] :: byte list))) =
     Some (?xs @ replicate (?n - sum_list (map (\<lambda>e. esize e + 6) ?es)) 0 @ entries_image ?es @ [], k)"
    using fold_write_entry [OF data fits xs] by blast
  moreover have "?n - sum_list (map (\<lambda>e. esize e + 6) ?es) = page_gap t p" using room(1,3) by simp
  ultimately have entries_written: "fold (write_entry t) ?es (Some (?xs @ replicate ?n 0, 0)) = Some (page_image t p, k)"
    by (simp add: page_image_def)
  show ?thesis
    unfolding serializePage_def Let_def f0 f1 f2 hdr_written live_slots_def [symmetric] slots_written prod.case
    using entries_written by simp
qed

section \<open>Reading the image\<close>

text \<open>What comes back: the page with the unused places of its arrays empty and its header's keys of the table's type.\<close>

definition stored_form :: "ordering_type \<Rightarrow> slotted_page \<Rightarrow> slotted_page" where
  "stored_form ty p = (let q = copyPage p in q\<lparr>hdr := (hdr q)\<lparr>minKey := typed ty (minKey (hdr q)), maxKey := typed ty (maxKey (hdr q))\<rparr>\<rparr>)"

lemma readUInt_segment: "segment raw off 4 = be_bytes 4 (w :: u32) \<Longrightarrow> off + 4 \<le> length raw \<Longrightarrow> readUInt raw off = w"
  by (simp add: word_at_value)

lemma read_header_image:
  assumes st: "storable t p"
  shows "read_header (page_image t p) t = hdr (stored_form (keyType t) p)"
proof -
  let ?ks = "keyDiskSize t" and ?ty = "keyType t" and ?h = "hdr p"
  let ?fs = "header_fields_image ?ty ?h" and ?raw = "page_image t p"
  define rest where "rest = concat (map (slot_image ?ty) (live_slots p)) @ replicate (page_gap t p) 0 @ entries_image (take (numEntries ?h) (entries p))"
  have raw: "?raw = concat ?fs @ rest" by (simp add: page_image_def rest_def)
  note keys = storable_keys [OF st] and room = page_room [OF st]
  have k: "key_ok ?ty (minKey ?h)" "key_ok ?ty (maxKey ?h)" "length (key_bytes ?ty (minKey ?h)) = ?ks" "length (key_bytes ?ty (maxKey ?h)) = ?ks"
      "orderingKeyDiskSize ?ty = ?ks"
    using keys by (simp_all add: keyDiskSize_def)
  have len: "length (concat ?fs) = 25 + 2 * ?ks" using header_image [OF st] by (simp add: PAGE_HEADER_DISK_SIZE_def)
  have fs: "?fs ! 1 = key_bytes ?ty (minKey ?h)" "?fs ! 2 = key_bytes ?ty (maxKey ?h)" "length ?fs = 9"
    by (simp_all add: header_fields_image_def)
  have seg1: "segment ?raw 1 ?ks = key_bytes ?ty (minKey ?h)"
    unfolding raw fs(1) [symmetric] by (rule segment_field) (simp_all add: header_fields_image_def k)
  have seg2: "segment ?raw (1 + ?ks) ?ks = key_bytes ?ty (maxKey ?h)"
    unfolding raw fs(2) [symmetric] by (rule segment_field) (simp_all add: header_fields_image_def k)
  have u: "readUInt ?raw (1 + 2 * ?ks + 4 * i) = of_nat v" if "i < 6" "?fs ! (3 + i) = be_bytes 4 (of_nat v :: u32)" for i v
  proof (rule readUInt_segment)
    have "sum_list (map length (take (3 + i) ?fs)) = 1 + 2 * ?ks + 4 * i"
      using that(1) k by (cases i; simp add: header_fields_image_def numeral_eq_Suc less_Suc_eq) auto
    then show "segment ?raw (1 + 2 * ?ks + 4 * i) 4 = be_bytes 4 (of_nat v :: u32)"
      unfolding raw that(2) [symmetric] using that fs(3) by (intro segment_field) simp_all
    show "1 + 2 * ?ks + 4 * i + 4 \<le> length ?raw" using len that(1) by (simp add: raw)
  qed
  have sh: "page_shape ?ty p" using st by (simp add: storable_def wf_page_def)
  have ksize: "keySize ?h = ?ks" using shape_parts(5) [OF sh] by (simp add: keyDiskSize_def)
  have P: "nat (pageSize t) \<le> 65536" using st by (simp add: storable_def nat_le_iff)
  have small: "usedData ?h < 2 ^ 32" "numRecords ?h < 2 ^ 32" "numEntries ?h < 2 ^ 32" "arrCap ?h < 2 ^ 32" "maxEntries ?h < 2 ^ 32" "maxSlots ?h < 2 ^ 32"
    using room(1,2) P shape_parts(2,4) [OF sh] page_entry_bytes [OF sh] st by (simp_all add: storable_def SP_SLOT_DISK_SIZE_def)
  have r: "readUInt ?raw (1 + 2 * ?ks) = of_nat (usedData ?h)" "readUInt ?raw (1 + 2 * ?ks + 4) = of_nat (numRecords ?h)"
    "readUInt ?raw (1 + 2 * ?ks + 8) = of_nat (numEntries ?h)" "readUInt ?raw (1 + 2 * ?ks + 12) = of_nat (arrCap ?h)"
    "readUInt ?raw (1 + 2 * ?ks + 16) = of_nat (maxEntries ?h)" "readUInt ?raw (1 + 2 * ?ks + 20) = of_nat (maxSlots ?h)"
    using u [of 0] u [of 1] u [of 2] u [of 3] u [of 4] u [of 5] by (simp_all add: header_fields_image_def)
  have key1: "readOrderingKey ?raw 1 ?ty = typed ?ty (minKey ?h)"
    using len seg1 k by (intro readOrderingKey_bytes) (simp_all add: raw)
  have key2: "readOrderingKey ?raw (1 + ?ks) ?ty = typed ?ty (maxKey ?h)"
    using len seg2 k by (intro readOrderingKey_bytes) (simp_all add: raw)
  show ?thesis
    unfolding read_header_def Let_def r key1 key2 using small ksize by (simp add: stored_form_def copyPage_def)
qed

lemma readKey_in:
  assumes "key_ok ty k" "segment raw off m = key_bytes ty k @ rest" "off + m \<le> length raw" "orderingKeyDiskSize ty \<le> m"
  shows "readOrderingKey raw off ty = typed ty k"
proof (rule readOrderingKey_bytes [OF assms(1)])
  have "segment (segment raw off m) 0 (orderingKeyDiskSize ty) = segment raw off (orderingKeyDiskSize ty)"
    using assms(4) by (subst segment_segment) simp_all
  then show "segment raw off (orderingKeyDiskSize ty) = key_bytes ty k"
    using assms(1) unfolding assms(2) by (simp add: segment_def)
  show "off + orderingKeyDiskSize ty \<le> length raw" using assms(3,4) by simp
qed

lemma read_slot_image:
  assumes k: "key_ok (keyType t) (ID s)" and seg: "segment raw off (SP_SLOT_DISK_SIZE (keyDiskSize t)) = slot_image (keyType t) s"
    and len: "off + SP_SLOT_DISK_SIZE (keyDiskSize t) \<le> length raw" and small: "ptr s < 2 ^ 32" "slen s < 2 ^ 32" "ssize s < 2 ^ 32"
  shows "read_slot raw t off = s\<lparr>ID := typed (keyType t) (ID s)\<rparr>"
proof -
  let ?ks = "keyDiskSize t"
  have ks: "length (key_bytes (keyType t) (ID s)) = ?ks" "orderingKeyDiskSize (keyType t) = ?ks" using k by (simp_all add: keyDiskSize_def)
  have "readOrderingKey raw off (keyType t) = typed (keyType t) (ID s)"
    using readKey_in [OF k _ len] seg ks by (simp add: slot_image_def SP_SLOT_DISK_SIZE_def)
  moreover have u: "readUInt raw (off + ?ks + o') = w" if "segment (slot_image (keyType t) s) (?ks + o') 4 = be_bytes 4 (w :: u32)" "o' \<le> 8" for o' w
  proof (rule readUInt_segment)
    show "segment raw (off + ?ks + o') 4 = be_bytes 4 w"
      using that segment_segment [of "?ks + o'" 4 "SP_SLOT_DISK_SIZE ?ks" raw off] unfolding seg by (simp add: SP_SLOT_DISK_SIZE_def add.assoc)
    show "off + ?ks + o' + 4 \<le> length raw" using len that(2) by (simp add: SP_SLOT_DISK_SIZE_def)
  qed
  have "readUInt raw (off + ?ks) = of_nat (slen s)" using u [of 0 "of_nat (slen s)"] ks by (simp add: slot_image_def segment_def)
  moreover have "readUInt raw (off + ?ks + 4) = of_nat (ssize s)" using u [of 4 "of_nat (ssize s)"] ks by (simp add: slot_image_def segment_def)
  moreover have "readUInt raw (off + ?ks + 8) = of_nat (ptr s)" using u [of 8 "of_nat (ptr s)"] ks by (simp add: slot_image_def segment_def)
  ultimately show ?thesis unfolding read_slot_def Let_def using small by simp
qed

lemma letter_type_letter [simp]: "letter_type (type_letter ty) = ty"
  by (cases ty) (simp_all add: letter_type_def)

lemma u32_less_iff: "a < 2 ^ 32 \<Longrightarrow> b < 2 ^ 32 \<Longrightarrow> (of_nat a :: u32) < of_nat b \<longleftrightarrow> a < b"
  by (simp add: word_less_nat_alt unsigned_of_nat take_bit_eq_mod)

lemma of_nat_diff_u32: "b \<le> a \<Longrightarrow> (of_nat a - of_nat b :: u32) = of_nat (a - b)"
  by (simp add: of_nat_diff)

lemma length_entries_image: "\<forall>e \<in> set es. length (edata e) = esize e \<Longrightarrow> length (entries_image es) = sum_list (map (\<lambda>e. esize e + 6) es)"
  by (induction es) (simp_all add: entry_image_def)

lemma read_entries_image:
  assumes "\<forall>e \<in> set es. length (edata e) = esize e" "slotEnd \<le> length xs" "length (xs @ entries_image es @ ys) < 2 ^ 32"
  shows "read_entries (xs @ entries_image es @ ys) slotEnd (length es) (length xs + length (entries_image es)) = Some es"
  using assms
proof (induction es arbitrary: ys)
  case (Cons e es)
  let ?I = "entries_image es" and ?w = "be_bytes 4 (of_nat (esize e) :: u32)"
  let ?raw = "xs @ ?I @ entry_image e @ ys" and ?z = "length xs + length (entries_image es)"
  have l: "length (entry_image e) = esize e + 6" "length (edata e) = esize e" using Cons.prems(1) by (simp_all add: entry_image_def)
  have cur: "length xs + length (entries_image (e # es)) = ?z + esize e + 6" using l by simp
  have small: "?z + esize e + 6 < 2 ^ 32" "esize e < 2 ^ 32" "?z + esize e < 2 ^ 32" using Cons.prems(3) l by simp_all
  have c6: "(of_nat (?z + esize e + 6) - 6 :: u32) = of_nat (?z + esize e)" by simp
  have n1: "\<not> (of_nat (?z + esize e) :: u32) < of_nat slotEnd" using small Cons.prems(2) by (subst u32_less_iff) simp_all
  have code: "?raw ! (?z + esize e + 6 - 1) = type_letter (etype e)"
    using l(2) by (simp add: entry_image_def nth_append)
  have size: "readUInt ?raw (?z + esize e) = of_nat (esize e)"
    using l by (intro readUInt_segment) (simp_all add: entry_image_def segment_def)
  have n2: "\<not> of_nat (esize e) > (of_nat (?z + esize e) - of_nat slotEnd :: u32)"
    using small Cons.prems(2) by (subst of_nat_diff_u32, simp, subst u32_less_iff; simp)
  have data: "segment ?raw ?z (esize e) = edata e" using l(2) by (simp add: entry_image_def segment_def)
  have ih: "read_entries ?raw slotEnd (length es) ?z = Some es"
    using Cons.IH [of "entry_image e @ ys"] Cons.prems by simp
  have raw: "xs @ entries_image (e # es) @ ys = ?raw" by simp
  have n: "length (e # es) = Suc (length es)" by simp
  show ?case
    unfolding cur raw n
    by (simp only: read_entries.simps Let_def c6 n1 code size n2 if_False small(2) unat_of_nat_u32 add_diff_cancel_right' data ih) simp
qed simp

lemma parsePage_image:
  assumes st: "storable t p"
  shows "parsePage (page_image t p) t = Some (stored_form (keyType t) p)"
proof -
  let ?ks = "keyDiskSize t" and ?ty = "keyType t" and ?h = "hdr p" and ?raw = "page_image t p" and ?P = "nat (pageSize t)"
  let ?H = "PAGE_HEADER_DISK_SIZE ?ks" and ?z = "SP_SLOT_DISK_SIZE ?ks" and ?es = "take (numEntries (hdr p)) (entries p)"
  let ?hb = "concat (header_fields_image ?ty ?h)" and ?sb = "concat (map (slot_image ?ty) (live_slots p))"
  have sh: "page_shape ?ty p" using st by (simp add: storable_def wf_page_def)
  note keys = storable_keys [OF st] and room = page_room [OF st] and parts = shape_parts [OF sh]
  have P: "?P \<le> 65536" "int ?P = pageSize t" using st by (simp_all add: storable_def nat_le_iff)
  have data: "\<forall>e \<in> set ?es. length (edata e) = esize e" using st by (simp add: storable_def)
  have hb: "length ?hb = ?H" by (rule header_image [OF st])
  have slot_len: "\<forall>s \<in> set (live_slots p). length (slot_image ?ty s) = ?z"
    using keys(3) by (simp add: slot_image_def SP_SLOT_DISK_SIZE_def keyDiskSize_def)
  then have sb: "length ?sb = numRecords ?h * ?z" unfolding room(2) [symmetric] by (rule length_concat_const)
  have eb: "length (entries_image ?es) = 6 * numEntries ?h + entry_bytes ?es" using length_entries_image [OF data] room(3) by simp
  have len: "length ?raw = ?P" using room(1,2) hb sb eb by (simp add: page_image_def)
  have zero: "?raw ! 0 = 0" by (simp add: page_image_def header_fields_image_def)
  have hdr: "read_header ?raw t = hdr (stored_form ?ty p)" by (rule read_header_image [OF st])
  have fields: "numRecords (hdr (stored_form ?ty p)) = numRecords ?h" "numEntries (hdr (stored_form ?ty p)) = numEntries ?h"
    "maxSlots (hdr (stored_form ?ty p)) = maxSlots ?h" "maxEntries (hdr (stored_form ?ty p)) = maxEntries ?h"
    by (simp_all add: stored_form_def copyPage_def)
  have cap: "unat (word_of_int (pageSize t) - of_nat ?H :: u32) = ?P - ?H"
  proof -
    have "(word_of_int (pageSize t) :: u32) = of_nat ?P" using P(2) by (metis of_int_of_nat_eq)
    then have "(word_of_int (pageSize t) - of_nat ?H :: u32) = of_nat (?P - ?H)" using room(1) by (simp add: of_nat_diff)
    then show ?thesis using P(1) by simp
  qed
  have "numRecords ?h * ?z \<le> ?P - ?H" using room(1,2) by simp
  then have n: "\<not> numRecords ?h > (?P - ?H) div ?z" by (simp add: not_less less_eq_div_iff_mult_less_eq SP_SLOT_DISK_SIZE_def)
  have slot: "read_slot ?raw t (?H + i * ?z) = live_slots p ! i" if i: "i < numRecords ?h" for i
  proof -
    let ?s = "live_slots p ! i"
    have s: "?s \<in> set (live_slots p)" using i room(2) by simp
    have "segment ?raw (?H + i * ?z) ?z = segment (?sb @ replicate (page_gap t p) 0 @ entries_image ?es) (i * ?z) ?z"
      using hb by (simp add: page_image_def segment_append_right)
    also have "\<dots> = slot_image ?ty ?s" using i room(2) slot_len by (intro segment_const) simp_all
    finally have seg: "segment ?raw (?H + i * ?z) ?z = slot_image ?ty ?s" .
    have "(i + 1) * ?z \<le> numRecords ?h * ?z" using i by (intro mult_le_mono1) simp
    then have le: "?H + i * ?z + ?z \<le> length ?raw" using room(1,2) len by simp
    have ok: "ptr ?s + slen ?s \<le> numEntries ?h" "ssize ?s = entry_bytes (slot_entries p ?s)" using parts(7) [OF s] by (simp_all add: slot_ok_def)
    have "ssize ?s \<le> sum_list (map ssize (live_slots p))" using s by (intro member_le_sum_list) simp_all
    then have small: "ptr ?s < 2 ^ 32" "slen ?s < 2 ^ 32" "ssize ?s < 2 ^ 32"
      using ok(1) room(1) P(1) parts(10) page_entry_bytes [OF sh] by simp_all
    have "wf_key ?ty (ID ?s)" using parts(6) s by (force simp: sorted_recs_def records_def)
    then show ?thesis using read_slot_image [OF keys(3) [OF s] seg le small] by simp
  qed
  have slots: "map (\<lambda>i. read_slot ?raw t (?H + i * ?z)) [0..<numRecords ?h] = live_slots p"
    by (rule nth_equalityI) (simp_all add: room(2) slot)
  let ?xs = "?hb @ ?sb @ replicate (page_gap t p) 0"
  have es: "read_entries ?raw (?H + ?z * numRecords ?h) (numEntries ?h) ?P = Some ?es"
  proof -
    have n: "length ?es = numEntries ?h" using parts(3,4) by simp
    have raw: "?raw = ?xs @ entries_image ?es @ []" by (simp add: page_image_def)
    have "?P = length ?xs + length (entries_image ?es)" using len by (simp add: page_image_def)
    moreover have "?H + ?z * numRecords ?h \<le> length ?xs" using hb sb by (simp add: mult.commute)
    moreover have "length (?xs @ entries_image ?es @ []) < 2 ^ 32" using len P(1) raw by simp
    ultimately show ?thesis using read_entries_image [OF data, of "?H + ?z * numRecords ?h" ?xs "[]"] unfolding raw n by simp
  qed
  have c: "\<not> (numRecords ?h > maxSlots ?h \<or> numEntries ?h > maxEntries ?h \<or> maxSlots ?h > 1024 * 64 \<or> maxEntries ?h > 1024 * 64 \<or>
      numRecords ?h > (?P - ?H) div ?z)"
    using n parts(2,4) st by (simp add: storable_def)
  show ?thesis
    unfolding parsePage_def Let_def zero hdr fields cap
    using c slots es by (simp add: stored_form_def copyPage_def live_slots_def)
qed

end
