(* ===== verification/NodeCodec.thy ===== *)
theory NodeCodec
  imports Codec
begin

text \<open>
  The bytes \<open>serializeNode\<close> writes, in closed form, and the proof that \<open>parseNode\<close> reads a node back; then the
  properties of both codecs.
\<close>

section \<open>The image of a node\<close>

definition storable_node :: "table \<Rightarrow> node \<Rightarrow> bool" where
  "storable_node t n \<longleftrightarrow> node_arrays n \<and> childCount n \<le> M_GLOBAL \<and> (\<forall>k \<in> set (take (keylim n) (keys n)). key_ok (keyType t) k) \<and>
     key_ok (keyType t) (nmaxKey n) \<and> int (NODE_DISK_SIZE (keyDiskSize t)) \<le> nodeSize t \<and> nodeSize t \<le> 65536"

definition node_fields_image :: "ordering_type \<Rightarrow> node \<Rightarrow> byte list list" where
  "node_fields_image ty n =
     [[1], be_bytes 8 (parent n), be_bytes 8 (nprev n), be_bytes 8 (nnext n), be_bytes 4 (of_nat (childCount n) :: u32),
      key_bytes ty (nmaxKey n), [if isLeaf n then 1 else 0]]"

definition node_image :: "table \<Rightarrow> node \<Rightarrow> byte list" where
  "node_image t n = concat (node_fields_image (keyType t) n) @ concat (map (be_bytes 8) (take (childCount n) (children n))) @
     concat (map (key_bytes (keyType t)) (take (keylim n) (keys n))) @
     replicate (nat (nodeSize t) - (NODE_HEADER_DISK_SIZE (keyDiskSize t) + 8 * childCount n + keyDiskSize t * keylim n)) 0"

lemma keylim_le: "keylim n \<le> childCount n"
  by (simp add: keylim_def)

lemma fold_write_child:
  "8 * length cs \<le> n \<Longrightarrow> off = length xs \<Longrightarrow>
     fold write_child cs (xs @ replicate n 0, off) = (xs @ concat (map (be_bytes 8) cs) @ replicate (n - 8 * length cs) 0, off + 8 * length cs)"
proof (induction cs arbitrary: xs n off)
  case (Cons c cs)
  have "write_child c (xs @ replicate n 0, off) = ((xs @ be_bytes 8 c) @ replicate (n - 8) 0, off + 8)"
    using Cons.prems by (simp add: write_child_def writeULong_fresh)
  with Cons.IH [of "n - 8" "off + 8" "xs @ be_bytes 8 c"] Cons.prems show ?case by simp
qed simp

lemma fold_write_key:
  "\<forall>k \<in> set ks. key_ok (keyType t) k \<Longrightarrow> keyDiskSize t * length ks \<le> n \<Longrightarrow> off = length xs \<Longrightarrow>
     fold (write_key t) ks (xs @ replicate n 0, off) =
       (xs @ concat (map (key_bytes (keyType t)) ks) @ replicate (n - keyDiskSize t * length ks) 0, off + keyDiskSize t * length ks)"
proof (induction ks arbitrary: xs n off)
  case (Cons k ks)
  have "length (key_bytes (keyType t) k) = keyDiskSize t" using Cons.prems by (simp add: keyDiskSize_def)
  moreover have "write_key t k (xs @ replicate n 0, off) = ((xs @ key_bytes (keyType t) k) @ replicate (n - keyDiskSize t) 0, off + keyDiskSize t)"
    using Cons.prems by (simp add: write_key_def writeOrderingKey_fresh keyDiskSize_def)
  ultimately show ?case using Cons.IH [of "n - keyDiskSize t" "off + keyDiskSize t" "xs @ key_bytes (keyType t) k"] Cons.prems by simp
qed simp

lemma node_room:
  assumes "storable_node t n"
  shows "NODE_HEADER_DISK_SIZE (keyDiskSize t) + 8 * childCount n + keyDiskSize t * keylim n \<le> nat (nodeSize t)"
    "length (take (childCount n) (children n)) = childCount n" "length (take (keylim n) (keys n)) = keylim n"
    "length (key_bytes (keyType t) (nmaxKey n)) = keyDiskSize t" "nat (nodeSize t) \<le> 65536" "int (nat (nodeSize t)) = nodeSize t"
proof -
  have c: "childCount n \<le> M_GLOBAL" "keylim n \<le> M_GLOBAL" using assms keylim_le [of n] by (simp_all add: storable_node_def)
  have "8 * childCount n \<le> 8 * M_GLOBAL" "keyDiskSize t * keylim n \<le> keyDiskSize t * M_GLOBAL"
    using c by (simp, intro mult_le_mono2)
  moreover have "M_GLOBAL * (8 + keyDiskSize t) = 8 * M_GLOBAL + keyDiskSize t * M_GLOBAL" by (simp add: add_mult_distrib2 mult.commute)
  moreover have "NODE_DISK_SIZE (keyDiskSize t) \<le> nat (nodeSize t)" using assms unfolding storable_node_def by linarith
  ultimately show "NODE_HEADER_DISK_SIZE (keyDiskSize t) + 8 * childCount n + keyDiskSize t * keylim n \<le> nat (nodeSize t)"
    unfolding NODE_DISK_SIZE_def by linarith
  show "length (take (childCount n) (children n)) = childCount n" "length (take (keylim n) (keys n)) = keylim n"
    using assms c by (simp_all add: storable_node_def node_arrays_def)
  show "length (key_bytes (keyType t) (nmaxKey n)) = keyDiskSize t" using assms by (simp add: storable_node_def keyDiskSize_def)
  show "nat (nodeSize t) \<le> 65536" "int (nat (nodeSize t)) = nodeSize t" using assms by (simp_all add: storable_node_def nat_le_iff)
qed

lemma serializeNode_image:
  assumes st: "storable_node t n"
  shows "serializeNode n t = node_image t n"
proof -
  let ?ks = "keyDiskSize t" and ?ty = "keyType t" and ?N = "nat (nodeSize t)"
  let ?H = "NODE_HEADER_DISK_SIZE ?ks" and ?K = "key_bytes ?ty (nmaxKey n)" and ?F = "concat (node_fields_image ?ty n)"
  note room = node_room [OF st]
  have okk: "\<forall>k \<in> set (take (keylim n) (keys n)). key_ok ?ty k" using st by (simp add: storable_node_def)
  have N: "30 + ?ks \<le> ?N" using room(1) by (simp add: NODE_HEADER_DISK_SIZE_def)
  let ?c = "be_bytes 4 (of_nat (childCount n) :: u32)"
  have f0: "(replicate ?N (0::byte))[0 := 1] = [1] @ replicate (?N - 1) 0" using N by (cases ?N) simp_all
  have f1: "writeULongBytewise ([1] @ replicate (?N - 1) 0) 1 (parent n) = ([1] @ be_bytes 8 (parent n)) @ replicate (?N - 1 - 8) 0"
    using N by (intro writeULong_fresh) simp_all
  have f2: "writeULongBytewise (([1] @ be_bytes 8 (parent n)) @ replicate (?N - 1 - 8) 0) 9 (nprev n)
      = (([1] @ be_bytes 8 (parent n)) @ be_bytes 8 (nprev n)) @ replicate (?N - 1 - 8 - 8) 0"
    using N by (intro writeULong_fresh) simp_all
  have f3: "writeULongBytewise ((([1] @ be_bytes 8 (parent n)) @ be_bytes 8 (nprev n)) @ replicate (?N - 1 - 8 - 8) 0) 17 (nnext n)
      = ((([1] @ be_bytes 8 (parent n)) @ be_bytes 8 (nprev n)) @ be_bytes 8 (nnext n)) @ replicate (?N - 1 - 8 - 8 - 8) 0"
    using N by (intro writeULong_fresh) simp_all
  let ?X = "((([1] @ be_bytes 8 (parent n)) @ be_bytes 8 (nprev n)) @ be_bytes 8 (nnext n)) @ ?c"
  have f4: "writeUIntBytewise (((([1] @ be_bytes 8 (parent n)) @ be_bytes 8 (nprev n)) @ be_bytes 8 (nnext n)) @ replicate (?N - 1 - 8 - 8 - 8) 0) 25 (of_nat (childCount n))
      = ?X @ replicate (?N - 1 - 8 - 8 - 8 - 4) 0"
    using N by (intro writeUInt_fresh) simp_all
  have f5: "writeOrderingKeyBytewise (?X @ replicate (?N - 1 - 8 - 8 - 8 - 4) 0) 29 (nmaxKey n) ?ty = (?X @ ?K) @ replicate (?N - 1 - 8 - 8 - 8 - 4 - ?ks) 0"
    using N st unfolding keyDiskSize_def by (intro writeOrderingKey_fresh) (simp_all add: storable_node_def)
  have len: "length (?X @ ?K) = 29 + ?ks" using room(4) by simp
  have f6: "((?X @ ?K) @ replicate (?N - 1 - 8 - 8 - 8 - 4 - ?ks) 0)[?H - 1 := (if isLeaf n then 1 else 0)] = ?F @ replicate (?N - ?H) 0"
  proof -
    have "?N - 1 - 8 - 8 - 8 - 4 - ?ks = Suc (?N - ?H)" using N by (simp add: NODE_HEADER_DISK_SIZE_def)
    then show ?thesis using len by (simp add: NODE_HEADER_DISK_SIZE_def list_update_append node_fields_image_def)
  qed
  have F: "length ?F = ?H" using room(4) by (simp add: node_fields_image_def NODE_HEADER_DISK_SIZE_def)
  have le1: "8 * length (take (childCount n) (children n)) \<le> ?N - ?H" unfolding room(2) using room(1) by linarith
  have cs: "fold write_child (take (childCount n) (children n)) (?F @ replicate (?N - ?H) 0, ?H) =
      (?F @ concat (map (be_bytes 8) (take (childCount n) (children n))) @ replicate (?N - ?H - 8 * childCount n) 0, ?H + 8 * childCount n)"
    using fold_write_child [OF le1 F [symmetric]] unfolding room(2) .
  let ?Y = "?F @ concat (map (be_bytes 8) (take (childCount n) (children n)))"
  have Y: "length ?Y = ?H + 8 * childCount n" using F room(2) length_concat_const [of "take (childCount n) (children n)" "be_bytes 8" 8] by simp
  have le2: "?ks * length (take (keylim n) (keys n)) \<le> ?N - ?H - 8 * childCount n" unfolding room(3) using room(1) by linarith
  have kys: "fold (write_key t) (take (keylim n) (keys n)) (?Y @ replicate (?N - ?H - 8 * childCount n) 0, ?H + 8 * childCount n) =
      (?Y @ concat (map (key_bytes ?ty) (take (keylim n) (keys n))) @ replicate (?N - ?H - 8 * childCount n - ?ks * keylim n) 0,
       ?H + 8 * childCount n + ?ks * keylim n)"
    using fold_write_key [OF okk le2 Y [symmetric]] unfolding room(3) .
  show ?thesis
    unfolding serializeNode_def Let_def f0 f1 f2 f3 f4 f5 f6 cs prod.case
    using kys by (simp add: node_image_def diff_diff_left)
qed

text \<open>A node as it is read back into the struct \<open>n0\<close>: the places of the arrays that are not in use keep what was there.\<close>

definition node_read :: "ordering_type \<Rightarrow> node \<Rightarrow> node \<Rightarrow> node" where
  "node_read ty n n0 = n\<lparr>nmaxKey := typed ty (nmaxKey n), children := overwrite (children n0) (take (childCount n) (children n)),
     keys := overwrite (keys n0) (map (typed ty) (take (keylim n) (keys n)))\<rparr>"

lemma parseNode_image:
  assumes st: "storable_node t n"
  shows "parseNode (node_image t n) t n0 = (True, node_read (keyType t) n n0)"
proof -
  let ?ks = "keyDiskSize t" and ?ty = "keyType t" and ?N = "nat (nodeSize t)" and ?raw = "node_image t n"
  let ?H = "NODE_HEADER_DISK_SIZE ?ks" and ?fs = "node_fields_image ?ty n"
  let ?cs = "take (childCount n) (children n)" and ?kl = "take (keylim n) (keys n)"
  let ?C = "concat (map (be_bytes 8) ?cs)" and ?L = "concat (map (key_bytes ?ty) ?kl)"
  define gap where "gap = ?N - (?H + 8 * childCount n + ?ks * keylim n)"
  have raw: "?raw = concat ?fs @ ?C @ ?L @ replicate gap 0" by (simp add: node_image_def gap_def)
  note room = node_room [OF st]
  have okk: "\<forall>k \<in> set ?kl. key_ok ?ty k" and okm: "key_ok ?ty (nmaxKey n)" using st by (simp_all add: storable_node_def)
  have F: "length (concat ?fs) = ?H" using room(4) by (simp add: node_fields_image_def NODE_HEADER_DISK_SIZE_def)
  have C: "length ?C = 8 * childCount n" using length_concat_const [of ?cs "be_bytes 8" 8] room(2) by simp
  have klen: "\<forall>k \<in> set ?kl. length (key_bytes ?ty k) = ?ks" using okk by (simp add: keyDiskSize_def)
  have L: "length ?L = ?ks * keylim n" using length_concat_const [OF klen] room(3) by (simp add: mult.commute)
  have len: "length ?raw = ?N" using room(1) unfolding raw by (simp add: F C L gap_def)
  have H: "?H = 30 + ?ks" by (simp add: NODE_HEADER_DISK_SIZE_def)
  have seg: "segment ?raw off m = x" if "i < 7" "?fs ! i = x" "sum_list (map length (take i ?fs)) = off" "length x = m" for i off m x
    unfolding raw that(2) [symmetric] by (rule segment_field) (use that in \<open>simp_all add: node_fields_image_def\<close>)
  have N: "30 + ?ks \<le> length ?raw" using room(1) len H by simp
  have "segment ?raw 1 8 = be_bytes 8 (parent n)" by (rule seg [of 1]) (simp_all add: node_fields_image_def)
  then have r1: "readULong ?raw 1 = parent n" using N by (subst long_at_value) simp_all
  have "segment ?raw 9 8 = be_bytes 8 (nprev n)" by (rule seg [of 2]) (simp_all add: node_fields_image_def)
  then have r2: "readULong ?raw 9 = nprev n" using N by (subst long_at_value) simp_all
  have "segment ?raw 17 8 = be_bytes 8 (nnext n)" by (rule seg [of 3]) (simp_all add: node_fields_image_def)
  then have r3: "readULong ?raw 17 = nnext n" using N by (subst long_at_value) simp_all
  have "segment ?raw 25 4 = be_bytes 4 (of_nat (childCount n) :: u32)" by (rule seg [of 4]) (simp_all add: node_fields_image_def)
  then have r4: "readUInt ?raw 25 = of_nat (childCount n)" using N by (subst word_at_value) simp_all
  have "segment ?raw 29 ?ks = key_bytes ?ty (nmaxKey n)" by (rule seg [of 5]) (simp_all add: node_fields_image_def room(4))
  then have r5: "readOrderingKey ?raw 29 ?ty = typed ?ty (nmaxKey n)"
    using N by (intro readOrderingKey_bytes okm) (simp_all add: keyDiskSize_def)
  have "segment ?raw (29 + ?ks) 1 = [if isLeaf n then 1 else 0]"
    by (rule seg [of 6]) (simp_all add: node_fields_image_def room(4))
  then have "?raw ! (29 + ?ks) = (if isLeaf n then 1 else 0)" using nth_segment [of 0 1 "29 + ?ks" ?raw] N by simp
  then have r6: "(?raw ! (?H - 1) \<noteq> 0) = isLeaf n" using H by simp
  have zero: "?raw ! 0 = 1" by (simp add: raw node_fields_image_def)
  have cc: "childCount n \<le> 45" "childCount n < 2 ^ 32" using st by (simp_all add: storable_node_def M_GLOBAL_def)
  have "?ks \<le> 24" by (simp add: keyDiskSize_def disk_sizes)
  have size: "\<not> of_nat ?H + of_nat (childCount n) * 8 + word_of_int (int (childCount n) - (if isLeaf n then 0 else 1)) * of_nat ?ks > (word_of_int (nodeSize t) :: u32)"
  proof (cases "isLeaf n \<or> childCount n \<noteq> 0")
    case True
    then have lim: "int (childCount n) - (if isLeaf n then 0 else 1) = int (keylim n)" by (auto simp: keylim_def)
    have "(of_nat ?H + of_nat (childCount n) * 8 + word_of_int (int (keylim n)) * of_nat ?ks :: u32) = of_nat (?H + 8 * childCount n + ?ks * keylim n)"
      by (simp add: mult.commute)
    moreover have "(word_of_int (nodeSize t) :: u32) = of_nat ?N" using room(6) by (metis of_int_of_nat_eq)
    moreover have "\<not> (of_nat ?N :: u32) < of_nat (?H + 8 * childCount n + ?ks * keylim n)"
      using room(1,5) by (subst u32_less_iff) simp_all
    ultimately show ?thesis unfolding lim by metis
  next
    case False
    then have "(of_nat ?H + of_nat (childCount n) * 8 + word_of_int (int (childCount n) - (if isLeaf n then 0 else 1)) * of_nat ?ks :: u32) = of_nat 30"
      by (simp add: H)
    moreover have "(word_of_int (nodeSize t) :: u32) = of_nat ?N" using room(6) by (metis of_int_of_nat_eq)
    moreover have "\<not> (of_nat ?N :: u32) < of_nat 30" using room(1,5) H by (subst u32_less_iff) simp_all
    ultimately show ?thesis by simp
  qed
  have lim: "nat (int (childCount n) - (if isLeaf n then 0 else 1)) = keylim n" by (auto simp: keylim_def nat_diff_distrib)
  have child: "readULong ?raw (?H + 8 * i) = ?cs ! i" if "i < childCount n" for i
  proof -
    have "segment ?raw (?H + 8 * i) 8 = segment (?C @ ?L @ replicate gap 0) (i * 8) 8" unfolding raw using F by (simp add: segment_append_right mult.commute)
    also have "\<dots> = be_bytes 8 (?cs ! i)" using that room(2) by (intro segment_const) simp_all
    finally show ?thesis using that room(1) len by (simp add: long_at_value)
  qed
  then have cs: "map (\<lambda>i. readULong ?raw (?H + 8 * i)) [0..<childCount n] = ?cs" using room(2) by (intro nth_equalityI) simp_all
  have key: "readOrderingKey ?raw (?H + 8 * childCount n + ?ks * i) ?ty = typed ?ty (?kl ! i)" if i: "i < keylim n" for i
  proof (rule readOrderingKey_bytes)
    have "segment ?raw (?H + 8 * childCount n + ?ks * i) ?ks = segment (?L @ replicate gap 0) (i * ?ks) ?ks"
      unfolding raw using F C by (simp add: segment_append_right mult.commute)
    also have "\<dots> = key_bytes ?ty (?kl ! i)" using i room(3) klen by (intro segment_const) simp_all
    finally show "segment ?raw (?H + 8 * childCount n + ?ks * i) (orderingKeyDiskSize ?ty) = key_bytes ?ty (?kl ! i)" by (simp add: keyDiskSize_def)
    show "key_ok ?ty (?kl ! i)" using okk i room(3) by (metis nth_mem)
    have "?ks * (i + 1) \<le> ?ks * keylim n" using i by (intro mult_le_mono2) simp
    then show "?H + 8 * childCount n + ?ks * i + orderingKeyDiskSize ?ty \<le> length ?raw" using room(1) len by (simp add: keyDiskSize_def)
  qed
  then have kys: "map (\<lambda>i. readOrderingKey ?raw (?H + 8 * childCount n + ?ks * i) ?ty) [0..<keylim n] = map (typed ?ty) ?kl"
    using room(3) by (intro nth_equalityI) simp_all
  show ?thesis
    unfolding parseNode_def Let_def zero r1 r2 r3 r4 r5
    using size cc r6 lim cs kys by (simp add: M_GLOBAL_def node_read_def)
qed

lemma length_node_image:
  assumes st: "storable_node t n" shows "length (node_image t n) = nat (nodeSize t)"
proof -
  note room = node_room [OF st]
  have klen: "\<forall>k \<in> set (take (keylim n) (keys n)). length (key_bytes (keyType t) k) = keyDiskSize t"
    using st by (simp add: storable_node_def keyDiskSize_def)
  have "length (concat (node_fields_image (keyType t) n)) = NODE_HEADER_DISK_SIZE (keyDiskSize t)"
    using room(4) by (simp add: node_fields_image_def NODE_HEADER_DISK_SIZE_def)
  moreover have "length (concat (map (be_bytes 8) (take (childCount n) (children n)))) = childCount n * 8"
    using length_concat_const [of "take (childCount n) (children n)" "be_bytes 8" 8] unfolding room(2) by simp
  moreover have "length (concat (map (key_bytes (keyType t)) (take (keylim n) (keys n)))) = keylim n * keyDiskSize t"
    using length_concat_const [OF klen] unfolding room(3) .
  ultimately show ?thesis using room(1) unfolding node_image_def length_append length_replicate mult.commute [of 8] mult.commute [of "keyDiskSize t"] by linarith
qed

lemma length_page_image:
  assumes st: "storable t p" shows "length (page_image t p) = nat (pageSize t)"
proof -
  have len: "\<forall>s \<in> set (live_slots p). length (slot_image (keyType t) s) = SP_SLOT_DISK_SIZE (keyDiskSize t)"
    using storable_keys(3) [OF st] by (simp add: slot_image_def SP_SLOT_DISK_SIZE_def keyDiskSize_def)
  have data: "\<forall>e \<in> set (take (numEntries (hdr p)) (entries p)). length (edata e) = esize e" using st by (simp add: storable_def)
  show ?thesis
    using page_room [OF st] header_image [OF st] length_concat_const [OF len] length_entries_image [OF data]
    unfolding page_image_def length_append length_replicate by linarith
qed

lemma records_stored_form:
  assumes sh: "page_shape ty p" shows "records (stored_form ty p) = records p"
proof -
  note parts = shape_parts [OF sh]
  have live: "live_slots (stored_form ty p) = live_slots p"
    using parts(1,2) by (simp add: live_slots_def stored_form_def copyPage_def)
  have "slot_entries (stored_form ty p) s = slot_entries p s" if "s \<in> set (live_slots p)" for s
    using parts(3,4) parts(7) [OF that] unfolding slot_entries_def slot_ok_def
    by (intro segment_eqI) (auto simp: stored_form_def copyPage_def nth_append)
  then show ?thesis by (simp add: records_def live)
qed

section \<open>Properties\<close>

text \<open>C35: Pages survive the disk. A well-formed page that fits is encoded in exactly the page size of its table, without a
  write outside the buffer, and read back as the same page: the same records in the same order with the same
  sizes, header and array capacities; unused slots and entries come back empty. A zeroed key in the header of an empty
  page comes back with the table's key type.\<close>

theorem page_roundtrip:
  assumes "storable t p"
  shows "\<exists>bytes. serializePage p t = Some bytes \<and> length bytes = nat (pageSize t) \<and> parsePage bytes t = Some (stored_form (keyType t) p) \<and>
     records (stored_form (keyType t) p) = records p"
proof (intro exI conjI)
  show "serializePage p t = Some (page_image t p)" by (rule serializePage_image [OF assms])
  show "parsePage (page_image t p) t = Some (stored_form (keyType t) p)" by (rule parsePage_image [OF assms])
  show "length (page_image t p) = nat (pageSize t)" by (rule length_page_image [OF assms])
  show "records (stored_form (keyType t) p) = records p" by (rule records_stored_form) (use assms in \<open>simp add: storable_def wf_page_def\<close>)
qed

theorem page_roundtrip_witness:
  "\<exists>bytes. serializePage (makeSPage 2 2 4030 8) (initTable [116] ORDERING_ULONG) = Some bytes \<and> length bytes = 4096"
proof -
  have "storable (initTable [116] ORDERING_ULONG) (makeSPage 2 2 4030 8)"
    by (simp add: storable_def wf_page_def page_shape_def bounds_ok_def makeSPage_def sorted_recs_def records_def live_slots_def
        keyDiskSize_def disk_sizes recs_bytes_def)
  from page_roundtrip [OF this] show ?thesis by auto
qed

text \<open>C36: Nodes survive the disk. A node whose keys are of the table's type is encoded in exactly the node size of its table
  and read back, into whatever struct, with the same links, children, keys, largest key and kind; the unused places of
  the arrays keep what the struct held.\<close>

theorem node_roundtrip:
  assumes "storable_node t n"
  shows "length (serializeNode n t) = nat (nodeSize t) \<and> parseNode (serializeNode n t) t n0 = (True, node_read (keyType t) n n0)"
  unfolding serializeNode_image [OF assms] using parseNode_image [OF assms] length_node_image [OF assms] by simp

definition ex_leaf :: node where
  "ex_leaf = zero_node\<lparr>childCount := 1, isLeaf := True, children := (children zero_node)[0 := 4242]\<rparr>"

theorem node_roundtrip_witness:
  "\<exists>n. parseNode (serializeNode ex_leaf (initTable [116] ORDERING_ULONG)) (initTable [116] ORDERING_ULONG) zero_node = (True, n) \<and>
     take 1 (children n) = [4242]"
proof -
  have "storable_node (initTable [116] ORDERING_ULONG) ex_leaf"
    by (simp add: storable_node_def ex_leaf_def node_arrays_def zero_node_def keylim_def key_ok_def keyDiskSize_def disk_sizes numeral_eq_Suc)
  from node_roundtrip [OF this, of zero_node]
  have "parseNode (serializeNode ex_leaf (initTable [116] ORDERING_ULONG)) (initTable [116] ORDERING_ULONG) zero_node =
    (True, node_read ORDERING_ULONG ex_leaf zero_node)" by simp
  moreover have "take 1 (children (node_read ORDERING_ULONG ex_leaf zero_node)) = [4242]"
    by (simp add: node_read_def overwrite_def ex_leaf_def zero_node_def M_GLOBAL_def take_Suc numeral_eq_Suc)
  ultimately show ?thesis by blast
qed

end
