(* ===== verification/Pending.thy ===== *)
theory Pending
  imports NodeCodec "HOL-Library.Monad_Syntax"
begin

text \<open>
  The pending changes of a table (\<open>storage_engine/tableIO.c\<close>): reading through the dirty tables, the node cache and
  the file; marking pages, nodes and deletions; beginning, ending and rolling back a statement; discarding a
  transaction. Every operation is in the \<open>option\<close> monad, \<open>None\<close> being undefined behaviour (a search that runs off an
  address table, a read of a file that is not open, an array of negative size), and the lemmas show when it does not
  happen. What an operation returns and the table afterwards are the value.
\<close>

section \<open>Reading\<close>

text \<open>\<open>jump\<close> and \<open>fread\<close> of one object of \<open>z\<close> bytes; \<open>None\<close> is the returned \<open>false\<close>. A \<open>long\<close> offset is not negative.\<close>

definition consumeRaw :: "files \<Rightarrow> nat \<Rightarrow> address \<Rightarrow> table \<Rightarrow> byte list option" where
  "consumeRaw fs z addr t =
     (case fs (tableFile t) of None \<Rightarrow> None
      | Some file \<Rightarrow> if unat addr \<ge> 2 ^ 63 \<or> length file < unat addr + z then None else Some (segment file (unat addr) z))"

definition consumePageRaw :: "files \<Rightarrow> address \<Rightarrow> table \<Rightarrow> byte list option" where
  "consumePageRaw fs addr t = consumeRaw fs (nat (pageSize t)) addr t"

definition consumeNodeRaw :: "files \<Rightarrow> address \<Rightarrow> table \<Rightarrow> byte list option" where
  "consumeNodeRaw fs addr t = consumeRaw fs (nat (nodeSize t)) addr t"

text \<open>The page read, or \<open>None\<close> for the returned \<open>false\<close>.\<close>

definition readPage :: "files \<Rightarrow> address \<Rightarrow> table \<Rightarrow> slotted_page option option" where
  "readPage fs addr t = do {
     dirty \<leftarrow> findAddrTable addr (pageDirty t);
     case dirty of Some p \<Rightarrow> Some (Some (copyPage p))
     | None \<Rightarrow>
         if pageSize t \<le> 0 \<or> \<not> hasSource t then None
         else Some (case consumePageRaw fs addr t of None \<Rightarrow> None | Some raw \<Rightarrow> parsePage raw t)
   }"

text \<open>Whether the node could be read, the caller's struct and the table, whose cache is counted and filled.\<close>

definition readNode :: "files \<Rightarrow> address \<Rightarrow> node \<Rightarrow> table \<Rightarrow> ((bool \<times> node) \<times> table) option" where
  "readNode fs addr n t = do {
     dirty \<leftarrow> findAddrTable addr (nodeDirty t);
     case dirty of Some d \<Rightarrow> Some ((True, d), t)
     | None \<Rightarrow> do {
         (hit, c) \<leftarrow> nodeCacheGet (nodeCache t) addr;
         let t1 = t\<lparr>nodeCache := c\<rparr>;
         case hit of Some m \<Rightarrow> Some ((True, m), t1)
         | None \<Rightarrow>
             if nodeSize t \<le> 0 \<or> \<not> hasSource t then None
             else case consumeNodeRaw fs addr t1 of None \<Rightarrow> Some ((False, n), t1)
             | Some raw \<Rightarrow>
                 let (ok, m) = parseNode raw t1 n
                 in if \<not> ok then Some ((False, m), t1)
                    else do {
                      (offered, c2) \<leftarrow> nodeCacheOffer (nodeCache t1) addr m (root t1);
                      Some ((True, m), t1\<lparr>nodeCache := c2\<rparr>)
                    }
       }
   }"

text \<open>\<open>loadParent\<close>, \<open>loadPrev\<close>, \<open>loadNext\<close>: the result of \<open>readNode\<close> is not looked at. \<open>n0\<close> is the caller's struct.\<close>

definition loadParent :: "files \<Rightarrow> node \<Rightarrow> node \<Rightarrow> table \<Rightarrow> (node \<times> table) option" where
  "loadParent fs n n0 t = do { (r, t1) \<leftarrow> readNode fs (parent n) n0 t; Some (snd r, t1) }"

definition loadPrev :: "files \<Rightarrow> node \<Rightarrow> node \<Rightarrow> table \<Rightarrow> (node \<times> table) option" where
  "loadPrev fs n n0 t = do { (r, t1) \<leftarrow> readNode fs (nprev n) n0 t; Some (snd r, t1) }"

definition loadNext :: "files \<Rightarrow> node \<Rightarrow> node \<Rightarrow> table \<Rightarrow> (node \<times> table) option" where
  "loadNext fs n n0 t = do { (r, t1) \<leftarrow> readNode fs (nnext n) n0 t; Some (snd r, t1) }"

section \<open>Setting prior versions aside\<close>

definition rememberPage :: "address \<Rightarrow> table \<Rightarrow> table option" where
  "rememberPage addr t =
     (if \<not> uactive (undo t) then Some t
      else do {
        known \<leftarrow> findAddrTable addr (upages (undo t));
        if known \<noteq> None then Some t
        else do {
          current \<leftarrow> findAddrTable addr (pageDirty t);
          ups \<leftarrow> insertAddrTable addr (Some \<lparr>present = (current \<noteq> None), prior = map_option copyPage current\<rparr>) (upages (undo t));
          Some (t\<lparr>undo := (undo t)\<lparr>upages := ups\<rparr>\<rparr>)
        }
      })"

definition rememberNode :: "address \<Rightarrow> table \<Rightarrow> table option" where
  "rememberNode addr t =
     (if \<not> uactive (undo t) then Some t
      else do {
        known \<leftarrow> findAddrTable addr (unodes (undo t));
        if known \<noteq> None then Some t
        else do {
          current \<leftarrow> findAddrTable addr (nodeDirty t);
          uns \<leftarrow> insertAddrTable addr (Some \<lparr>present = (current \<noteq> None), prior = current\<rparr>) (unodes (undo t));
          Some (t\<lparr>undo := (undo t)\<lparr>unodes := uns\<rparr>\<rparr>)
        }
      })"

definition rememberDelete :: "address \<Rightarrow> table \<Rightarrow> table option" where
  "rememberDelete addr t =
     (if \<not> uactive (undo t) then Some t
      else do {
        known \<leftarrow> findAddrTable addr (udeletes (undo t));
        if known \<noteq> None then Some t
        else do {
          marked \<leftarrow> containsAddrTable addr (delete t);
          uds \<leftarrow> insertAddrTable addr (Some \<lparr>present = marked, prior = None\<rparr>) (udeletes (undo t));
          Some (t\<lparr>undo := (undo t)\<lparr>udeletes := uds\<rparr>\<rparr>)
        }
      })"

section \<open>Statements\<close>

definition freeUndo :: "table \<Rightarrow> table" where
  "freeUndo t = t\<lparr>undo := (undo t)\<lparr>upages := initAddrTable, unodes := initAddrTable, udeletes := initAddrTable, uactive := False\<rparr>\<rparr>"

definition beginStatement :: "table \<Rightarrow> table" where
  "beginStatement t =
     (if uactive (undo t) then t
      else t\<lparr>undo := (undo t)\<lparr>uactive := True, upageFree := pageFree t, unodeFree := nodeFree t, uroot := root t,
                               upageStripes := pageStripes t, unodeStripes := nodeStripes t\<rparr>\<rparr>)"

definition endStatement :: "table \<Rightarrow> table" where
  "endStatement t = (if uactive (undo t) then freeUndo t else t)"

text \<open>A loop that may fail.\<close>

fun foldo :: "('a \<Rightarrow> 's \<Rightarrow> 's option) \<Rightarrow> 'a list \<Rightarrow> 's \<Rightarrow> 's option" where
  "foldo f [] s = Some s"
| "foldo f (x # xs) s = do { s1 \<leftarrow> f x s; foldo f xs s1 }"

text \<open>One turn of the loops of \<open>rollbackStatement\<close> over pages and over nodes: the pending version is dropped, and the
  one set aside, if any, put back.\<close>

definition restore :: "'v undo_entry addr_entry \<Rightarrow> 'v addr_table \<Rightarrow> 'v addr_table option" where
  "restore e dirty =
     (if akey e = 0 then Some dirty
      else do {
        u \<leftarrow> aval e;
        (found, current, d) \<leftarrow> removeAddrTable (akey e) dirty;
        if present u then insertAddrTable (akey e) (prior u) d else Some d
      })"

definition restore_delete :: "unit undo_entry addr_entry \<Rightarrow> unit addr_table \<Rightarrow> unit addr_table option" where
  "restore_delete e marks =
     (if akey e = 0 then Some marks
      else do {
        u \<leftarrow> aval e;
        if \<not> present u then do { (found, current, d) \<leftarrow> removeAddrTable (akey e) marks; Some d } else Some marks
      })"

definition rollbackStatement :: "table \<Rightarrow> table option" where
  "rollbackStatement t =
     (let u = undo t in
      if \<not> uactive u then Some t
      else do {
        pages \<leftarrow> foldo restore (at_entries (upages u)) (pageDirty t);
        nodes \<leftarrow> foldo restore (at_entries (unodes u)) (nodeDirty t);
        dels \<leftarrow> foldo restore_delete (at_entries (udeletes u)) (delete t);
        let c = (if root t \<noteq> uroot u then nodeCacheClear (nodeCache t) else nodeCache t);
        Some (freeUndo (t\<lparr>pageDirty := pages, nodeDirty := nodes, delete := dels, pageFree := upageFree u, nodeFree := unodeFree u,
          nodeCache := c, root := uroot u, pageStripes := upageStripes u, nodeStripes := unodeStripes u\<rparr>))
      })"

section \<open>Marking dirty objects\<close>

text \<open>\<open>same\<close>: the caller passed the pending version itself. \<open>overwriteAddrTable\<close> stores through the pointer that a lookup
  gave.\<close>

definition overwriteAddrTable :: "address \<Rightarrow> 'v \<Rightarrow> 'v addr_table \<Rightarrow> 'v addr_table option" where
  "overwriteAddrTable key v at = do {
     i \<leftarrow> findAddrEntry key (at_entries at) (at_capacity at);
     Some (at\<lparr>at_entries := (at_entries at)[i := (at_entries at ! i)\<lparr>aval := Some v\<rparr>]\<rparr>)
   }"

definition markPage :: "bool \<Rightarrow> address \<Rightarrow> slotted_page \<Rightarrow> table \<Rightarrow> table option" where
  "markPage same addr p t = do {
     t1 \<leftarrow> rememberPage addr t;
     existing \<leftarrow> findAddrTable addr (pageDirty t1);
     if existing \<noteq> None
     then if same then Some t1
          else do { d \<leftarrow> overwriteAddrTable addr (copyPage p) (pageDirty t1); Some (t1\<lparr>pageDirty := d\<rparr>) }
     else do { d \<leftarrow> insertAddrTable addr (Some (copyPage p)) (pageDirty t1); Some (t1\<lparr>pageDirty := d\<rparr>) }
   }"

definition markNode :: "address \<Rightarrow> node \<Rightarrow> table \<Rightarrow> table option" where
  "markNode addr n t = do {
     t1 \<leftarrow> rememberNode addr t;
     existing \<leftarrow> findAddrTable addr (nodeDirty t1);
     if existing \<noteq> None
     then do { d \<leftarrow> overwriteAddrTable addr n (nodeDirty t1); Some (t1\<lparr>nodeDirty := d\<rparr>) }
     else do { d \<leftarrow> insertAddrTable addr (Some n) (nodeDirty t1); Some (t1\<lparr>nodeDirty := d\<rparr>) }
   }"

definition markDelete :: "address \<Rightarrow> table \<Rightarrow> table option" where
  "markDelete addr t = do {
     t1 \<leftarrow> rememberDelete addr t;
     marked \<leftarrow> containsAddrTable addr (delete t1);
     if marked then Some t1
     else do { d \<leftarrow> insertAddrTable addr None (delete t1); Some (t1\<lparr>delete := d\<rparr>) }
   }"

definition isDirty :: "table \<Rightarrow> bool" where
  "isDirty t \<longleftrightarrow> isNew t \<or> at_count (pageDirty t) > 0 \<or> at_count (nodeDirty t) > 0 \<or> at_count (delete t) > 0"

text \<open>Emptying a table of dirty objects slot by slot.\<close>

definition drain :: "'v addr_table \<Rightarrow> 'v addr_table" where
  "drain at = at\<lparr>at_count := 0,
     at_entries := map (\<lambda>e. if akey e = 0 then e else e\<lparr>akey := 0, aval := None\<rparr>) (at_entries at)\<rparr>"

definition discard :: "table \<Rightarrow> table" where
  "discard t = t\<lparr>pageDirty := drain (pageDirty t), nodeDirty := drain (nodeDirty t),
     delete := (delete t)\<lparr>at_count := 0, at_entries := map (\<lambda>e. e\<lparr>akey := 0, aval := None\<rparr>) (at_entries (delete t))\<rparr>\<rparr>"

text \<open>\<open>setRoot\<close> of \<open>bplus.c\<close>, which changes the root within a statement.\<close>

definition setRoot :: "address \<Rightarrow> table \<Rightarrow> table" where
  "setRoot addr t = t\<lparr>root := addr, nodeCache := nodeCacheClear (nodeCache t)\<rparr>"

section \<open>Address tables within a number of entries\<close>

text \<open>At most \<open>n\<close> keys now and, as far as the capacity shows, ever.\<close>

definition held :: "nat \<Rightarrow> 'v addr_table \<Rightarrow> bool" where
  "held n at \<longleftrightarrow> wf_at at \<and> card (dom (at_map at)) \<le> n \<and> 4 * at_capacity at \<le> 10 * n + 32"

lemma init_wf: "wf_at initAddrTable"
  by (rule conjunct1 [OF initAddrTable_wf])

lemma init_map [simp]: "at_map initAddrTable = Map.empty"
  by (rule conjunct2 [OF initAddrTable_wf])

lemma held_init [simp]: "held n initAddrTable"
  by (simp add: held_def init_wf) (simp add: initAddrTable_def)

lemma held_wf: "held n at \<Longrightarrow> wf_at at"
  by (simp add: held_def)

lemma held_mono: "held n at \<Longrightarrow> n \<le> m \<Longrightarrow> held m at"
  by (simp add: held_def)

lemma held_insert:
  assumes "held n at" "key \<noteq> 0" "n < 2 ^ 28"
  shows "\<exists>at'. insertAddrTable key v at = Some at' \<and> held (n + 1) at' \<and> at_map at' = (at_map at)(key \<mapsto> v)"
proof -
  have w: "wf_at at" "card (dom (at_map at)) \<le> n" "4 * at_capacity at \<le> 10 * n + 32" using assms(1) by (simp_all add: held_def)
  have "at_capacity at < 2 ^ 30" using w(3) assms(3) by simp
  then obtain at' where at': "insertAddrTable key v at = Some at'" "wf_at at'" "at_map at' = (at_map at)(key \<mapsto> v)"
    using insertAddrTable_map [OF w(1) assms(2), of v] by blast
  have "card (dom (at_map at')) \<le> n + 1" using card_dom_upd [OF finite_at_map, of at key v] w(2) unfolding at'(3) by simp
  moreover have "4 * at_capacity at' \<le> 10 * (n + 1) + 32"
    using insert_capacity [OF w(1) at'(1)] over_load_count [OF w(1)] w(2,3) by (auto simp: GROW_CAPACITY_def)
  ultimately show ?thesis using at' by (auto simp: held_def)
qed

lemma held_remove:
  assumes "held n at" "key \<noteq> 0"
  shows "\<exists>b v at'. removeAddrTable key at = Some (b, v, at') \<and> held n at' \<and> at_map at' = (at_map at)(key := None)"
proof -
  have w: "wf_at at" using assms(1) by (rule held_wf)
  obtain at' where at': "removeAddrTable key at = Some (at_map at key \<noteq> None, (case at_map at key of None \<Rightarrow> None | Some v \<Rightarrow> v), at')"
    "wf_at at'" "at_map at' = (at_map at)(key := None)" "at_capacity at' = at_capacity at"
    using removeAddrTable_map [OF w assms(2)] by blast
  have "dom (at_map at') \<subseteq> dom (at_map at)" unfolding at'(3) by auto
  then have "card (dom (at_map at')) \<le> card (dom (at_map at))" by (rule card_mono [OF finite_at_map])
  then have "held n at'" using at'(2,4) assms(1) by (simp add: held_def)
  then show ?thesis using at'(1,3) by blast
qed

lemma overwrite_map:
  assumes "held n at" "key \<noteq> 0" "at_map at key \<noteq> None"
  shows "\<exists>at'. overwriteAddrTable key v at = Some at' \<and> held n at' \<and> at_map at' = (at_map at)(key \<mapsto> Some v)"
proof -
  have w: "wf_at at" using assms(1) by (rule held_wf)
  have nz: "at_capacity at \<noteq> 0" using at_map_empty [OF w] assms(3) by fastforce
  have ww: "length (at_entries at) = at_capacity at" "probe_inv (addr_home (at_capacity at)) (view (at_entries at))"
    using w by (simp_all add: wf_at_def)
  obtain i where i: "findAddrEntry key (at_entries at) (at_capacity at) = Some i" "i < at_capacity at"
    "\<And>p. on_way (at_capacity at) (addr_home (at_capacity at) key) p i \<Longrightarrow> view (at_entries at) ! p \<noteq> None"
    "(akey (at_entries at ! i) = 0 \<and> at_map at key = None) \<or>
     (akey (at_entries at ! i) = key \<and> at_map at key = Some (aval (at_entries at ! i)))"
    by (rule find_in_table [OF w nz assms(2)]) blast
  let ?es = "(at_entries at)[i := (at_entries at ! i)\<lparr>aval := Some v\<rparr>]"
  have k: "akey (at_entries at ! i) = key" "at_map at key = Some (aval (at_entries at ! i))" using i(4) assms(3) by auto
  have vu: "view ?es = (view (at_entries at))[i := Some (key, Some v)]" using k(1) assms(2) by (simp add: view_update aview_def)
  have vi: "view (at_entries at) ! i = Some (key, aval (at_entries at ! i))" "table_map (view (at_entries at)) key = Some (aval (at_entries at ! i))"
    using k i(2) ww(1) assms(2) by (simp_all add: aview_def at_map_def)
  have put: "probe_inv (addr_home (at_capacity at)) (view ?es) \<and> table_map (view ?es) = (table_map (view (at_entries at)))(key \<mapsto> Some v) \<and>
     occupied (view ?es) = occupied (view (at_entries at)) + of_bool (table_map (view (at_entries at)) key = None)"
    unfolding vu using at.put_spec [of "view (at_entries at)" i key "Some v"] ww i(2,3) vi by simp
  let ?at' = "at\<lparr>at_entries := ?es\<rparr>"
  have "wf_at ?at'" using w put vi(2) by (simp add: wf_at_def)
  moreover have m: "at_map ?at' = (at_map at)(key \<mapsto> Some v)" using put by (simp add: at_map_def)
  moreover have "dom (at_map ?at') = dom (at_map at)" using assms(3) unfolding m by auto
  ultimately have "held n ?at'" using assms(1) by (simp add: held_def)
  then show ?thesis using m i(1) by (simp add: overwriteAddrTable_def)
qed

text \<open>What a lookup gives in a table of which every entry has a value.\<close>

definition valued :: "'v addr_table \<Rightarrow> bool" where
  "valued at \<longleftrightarrow> (\<forall>key. at_map at key \<noteq> Some None)"

definition vmap :: "'v addr_table \<Rightarrow> address \<rightharpoonup> 'v" where
  "vmap at key = (case at_map at key of None \<Rightarrow> None | Some v \<Rightarrow> v)"

lemma find_vmap: "wf_at at \<Longrightarrow> key \<noteq> 0 \<Longrightarrow> findAddrTable key at = Some (vmap at key)"
  by (simp add: findAddrTable_map vmap_def)

lemma valued_map: "valued at \<Longrightarrow> at_map at key = map_option Some (vmap at key)"
  by (cases "at_map at key"; cases "the (at_map at key)") (auto simp: valued_def vmap_def)

lemma valued_upd: "valued at \<Longrightarrow> at_map at' = (at_map at)(key \<mapsto> Some v) \<Longrightarrow> valued at' \<and> vmap at' = (vmap at)(key \<mapsto> v)"
  by (auto simp: valued_def vmap_def)

lemma vmap_init [simp]: "valued initAddrTable" "vmap initAddrTable = Map.empty"
  by (auto simp: valued_def vmap_def)

section \<open>The pending state\<close>

text \<open>The fields a statement never changes.\<close>

definition fixed :: "table \<Rightarrow> bool \<times> bool \<times> fname \<times> int \<times> int \<times> int \<times> int \<times> int \<times> int \<times> int \<times> ordering_type" where
  "fixed t = (hasSource t, isNew t, tname t, metalen t, pageStripeLen t, nodeStripeLen t, pageNodeRatio t, pageSize t, nodeSize t,
     maxChildren t, keyType t)"

lemma fixed_layout: "fixed t = fixed t0 \<Longrightarrow> layout_ok t = layout_ok t0"
  by (simp add: fixed_def layout_ok_def)

text \<open>Nodes that agree in everything that is used of them.\<close>

definition same_node :: "node \<Rightarrow> node \<Rightarrow> bool" where
  "same_node n m \<longleftrightarrow> parent n = parent m \<and> nprev n = nprev m \<and> nnext n = nnext m \<and> childCount n = childCount m \<and> nmaxKey n = nmaxKey m \<and>
     isLeaf n = isLeaf m \<and> take (childCount n) (children n) = take (childCount m) (children m) \<and>
     take (keylim n) (keys n) = take (keylim m) (keys m)"

lemma same_node_refl [simp]: "same_node n n"
  by (simp add: same_node_def)

lemma same_node_sym: "same_node n m \<Longrightarrow> same_node m n"
  unfolding same_node_def by metis

lemma same_node_trans: "same_node n m \<Longrightarrow> same_node m k \<Longrightarrow> same_node n k"
  unfolding same_node_def by metis

text \<open>What the file holds, and what a reader is to see.\<close>

definition disk_page :: "files \<Rightarrow> table \<Rightarrow> address \<Rightarrow> slotted_page option" where
  "disk_page fs t a = (case consumePageRaw fs a t of None \<Rightarrow> None | Some raw \<Rightarrow> parsePage raw t)"

definition disk_node :: "files \<Rightarrow> table \<Rightarrow> address \<Rightarrow> node option" where
  "disk_node fs t a =
     (case consumeNodeRaw fs a t of None \<Rightarrow> None
      | Some raw \<Rightarrow> (case parseNode raw t zero_node of (ok, m) \<Rightarrow> if ok then Some m else None))"

definition page_of :: "files \<Rightarrow> table \<Rightarrow> address \<Rightarrow> slotted_page option" where
  "page_of fs t a = (case vmap (pageDirty t) a of Some p \<Rightarrow> Some p | None \<Rightarrow> disk_page fs t a)"

definition node_of :: "files \<Rightarrow> table \<Rightarrow> address \<Rightarrow> node option" where
  "node_of fs t a = (case vmap (nodeDirty t) a of Some n \<Rightarrow> Some n | None \<Rightarrow> disk_node fs t a)"

lemma parsePage_fixed: "fixed t = fixed t0 \<Longrightarrow> parsePage raw t = parsePage raw t0"
  by (simp add: fixed_def parsePage_def keyDiskSize_def read_header_def read_slot_def Let_def)

lemma parseNode_fixed: "fixed t = fixed t0 \<Longrightarrow> parseNode raw t n = parseNode raw t0 n"
  by (simp add: fixed_def parseNode_def keyDiskSize_def Let_def)

lemma disk_fixed: "fixed t = fixed t0 \<Longrightarrow> disk_page fs t = disk_page fs t0 \<and> disk_node fs t = disk_node fs t0"
proof -
  assume f: "fixed t = fixed t0"
  have "consumePageRaw fs a t = consumePageRaw fs a t0" "consumeNodeRaw fs a t = consumeNodeRaw fs a t0" for a
    using f by (simp_all add: fixed_def consumePageRaw_def consumeNodeRaw_def consumeRaw_def tableFile_def)
  then show ?thesis
    by (auto simp: fun_eq_iff disk_page_def disk_node_def parsePage_fixed [OF f] parseNode_fixed [OF f] split: option.split)
qed

text \<open>What a struct held before does not matter.\<close>

lemma parseNode_any:
  "fst (parseNode raw t n) = fst (parseNode raw t n') \<and>
   (fst (parseNode raw t n) \<longrightarrow> same_node (snd (parseNode raw t n)) (snd (parseNode raw t n')))"
proof -
  have lim: "nat (uint w - 1) = unat w - Suc 0" for w :: u32 unfolding unat_eq_nat_uint by linarith
  show ?thesis
    by (cases "raw ! (NODE_HEADER_DISK_SIZE (keyDiskSize t) - 1) = 0") (simp_all add: parseNode_def Let_def same_node_def overwrite_def keylim_def lim)
qed

text \<open>Everything in the cache is in the file.\<close>

definition cache_fits :: "files \<Rightarrow> table \<Rightarrow> bool" where
  "cache_fits fs t \<longleftrightarrow> wf_cache (nodeCache t) \<and>
     (\<forall>a n. nc_map (nodeCache t) a = Some n \<longrightarrow> (\<exists>m. disk_node fs t a = Some m \<and> same_node n m))"

definition pending_ok :: "nat \<Rightarrow> files \<Rightarrow> table \<Rightarrow> bool" where
  "pending_ok n fs t \<longleftrightarrow> layout_ok t \<and> held n (pageDirty t) \<and> held n (nodeDirty t) \<and> held n (delete t) \<and>
     held n (upages (undo t)) \<and> held n (unodes (undo t)) \<and> held n (udeletes (undo t)) \<and>
     valued (pageDirty t) \<and> valued (nodeDirty t) \<and> (\<forall>a p. vmap (pageDirty t) a = Some p \<longrightarrow> copyPage p = p) \<and>
     (\<forall>a x. at_map (delete t) a = Some x \<longrightarrow> x = None) \<and>
     (\<not> uactive (undo t) \<longrightarrow> at_map (upages (undo t)) = Map.empty \<and> at_map (unodes (undo t)) = Map.empty \<and> at_map (udeletes (undo t)) = Map.empty) \<and>
     valued (upages (undo t)) \<and> valued (unodes (undo t)) \<and> valued (udeletes (undo t)) \<and>
     cache_fits fs t"

lemma pending_okD:
  assumes "pending_ok n fs t"
  shows "layout_ok t" "held n (pageDirty t)" "held n (nodeDirty t)" "held n (delete t)"
    "held n (upages (undo t))" "held n (unodes (undo t))" "held n (udeletes (undo t))"
    "valued (pageDirty t)" "valued (nodeDirty t)" "cache_fits fs t" "wf_cache (nodeCache t)"
    "valued (upages (undo t))" "valued (unodes (undo t))" "valued (udeletes (undo t))"
  using assms by (simp_all add: pending_ok_def cache_fits_def)

lemma pending_ok_mono: "pending_ok n fs t \<Longrightarrow> n \<le> m \<Longrightarrow> pending_ok m fs t"
  unfolding pending_ok_def by (elim conjE, intro conjI; (assumption | erule held_mono, assumption))

section \<open>Reads\<close>

lemma readPage_page:
  assumes "pending_ok n fs t" "a \<noteq> 0" "hasSource t \<or> vmap (pageDirty t) a \<noteq> None"
  shows "readPage fs a t = Some (page_of fs t a)"
proof -
  have p: "0 < pageSize t" using pending_okD(1) [OF assms(1)] by (simp add: layout_ok_def)
  have "findAddrTable a (pageDirty t) = Some (vmap (pageDirty t) a)"
    by (rule find_vmap [OF held_wf [OF pending_okD(2) [OF assms(1)]] assms(2)])
  moreover have "copyPage q = q" if "vmap (pageDirty t) a = Some q" for q using assms(1) that by (simp add: pending_ok_def)
  ultimately show ?thesis using assms(3) p
    by (cases "vmap (pageDirty t) a") (simp_all add: readPage_def page_of_def disk_page_def)
qed

lemma readNode_node:
  assumes "pending_ok n fs t" "a \<noteq> 0" "hasSource t \<or> vmap (nodeDirty t) a \<noteq> None"
  shows "\<exists>ok m c. readNode fs a n0 t = Some ((ok, m), t\<lparr>nodeCache := c\<rparr>) \<and> cache_fits fs (t\<lparr>nodeCache := c\<rparr>) \<and>
     (case node_of fs t a of None \<Rightarrow> \<not> ok | Some k \<Rightarrow> ok \<and> same_node m k)"
proof -
  have f: "findAddrTable a (nodeDirty t) = Some (vmap (nodeDirty t) a)"
    by (rule find_vmap [OF held_wf [OF pending_okD(3) [OF assms(1)]] assms(2)])
  have z: "0 < nodeSize t" using pending_okD(1) [OF assms(1)] by (simp add: layout_ok_def)
  have fits: "cache_fits fs t" by (rule pending_okD(10) [OF assms(1)])
  have keep: "cache_fits fs (t\<lparr>nodeCache := c\<rparr>)" if "wf_cache c" "nc_map c = nc_map (nodeCache t)" for c
    using fits that disk_fixed [of "t\<lparr>nodeCache := c\<rparr>" t fs] by (simp add: cache_fits_def fixed_def)
  have same: "t\<lparr>nodeCache := nodeCache t\<rparr> = t" by simp
  show ?thesis
  proof (cases "vmap (nodeDirty t) a")
    case (Some d)
    then show ?thesis using f fits same
      by (intro exI [of _ True] exI [of _ d] exI [of _ "nodeCache t"]) (simp add: readNode_def node_of_def)
  next
    case None
    then have src: "hasSource t" using assms(3) by simp
    obtain c where get: "nodeCacheGet (nodeCache t) a = Some (nc_map (nodeCache t) a, c)" "wf_cache c" "nc_map c = nc_map (nodeCache t)"
      using nodeCacheGet_map [OF pending_okD(11) [OF assms(1)] assms(2)] by blast
    let ?t1 = "t\<lparr>nodeCache := c\<rparr>"
    have fx: "fixed ?t1 = fixed t" by (simp add: fixed_def)
    show ?thesis
    proof (cases "nc_map (nodeCache t) a")
      case (Some m)
      then obtain k where "disk_node fs t a = Some k" "same_node m k" using fits by (auto simp: cache_fits_def)
      then show ?thesis using f None get(1) Some keep [OF get(2,3)]
        by (intro exI [of _ True] exI [of _ m] exI [of _ c]) (simp add: readNode_def node_of_def)
    next
      case miss: None
      show ?thesis
      proof (cases "consumeNodeRaw fs a ?t1")
        case raw: None
        then have "disk_node fs t a = None" using conjunct2 [OF disk_fixed [OF fx, of fs]] by (simp add: disk_node_def fun_eq_iff) (metis option.simps(4))
        then show ?thesis using f None get(1) miss raw keep [OF get(2,3)] z src
          by (intro exI [of _ False] exI [of _ n0] exI [of _ c]) (simp add: readNode_def node_of_def)
      next
        case (Some raw)
        have raw: "consumeNodeRaw fs a t = Some raw" using Some by (simp add: consumeNodeRaw_def consumeRaw_def tableFile_def)
        obtain ok m where p: "parseNode raw t n0 = (ok, m)" by (cases "parseNode raw t n0")
        obtain ok' k where p': "parseNode raw t zero_node = (ok', k)" by (cases "parseNode raw t zero_node")
        have pp: "ok' = ok" "ok \<Longrightarrow> same_node m k" using parseNode_any [of raw t n0 zero_node] p p' by simp_all
        have dn: "disk_node fs t a = (if ok then Some k else None)" by (simp add: disk_node_def raw p' pp(1))
        have p1: "parseNode raw ?t1 n0 = (ok, m)" using parseNode_fixed [OF fx] p by simp
        show ?thesis
        proof (cases ok)
          case False
          then show ?thesis using f None get(1) miss Some p1 keep [OF get(2,3)] z src dn
            by (intro exI [of _ False] exI [of _ m] exI [of _ c]) (simp add: readNode_def node_of_def)
        next
          case True
          obtain b c2 where off: "nodeCacheOffer c a m (root t) = Some (b, c2)" "wf_cache c2" "nc_map c2 = (if b then (nc_map c)(a \<mapsto> m) else nc_map c)"
            using nodeCacheOffer_map [OF get(2) refl, where addr = a and root = "root t" and n = m] by blast
          have "cache_fits fs (t\<lparr>nodeCache := c2\<rparr>)"
            using fits off(2,3) get(3) disk_fixed [of "t\<lparr>nodeCache := c2\<rparr>" t fs] dn True pp(2) by (auto simp: cache_fits_def fixed_def)
          then show ?thesis using f None get(1) miss Some p1 z src dn True pp(2) off(1)
            by (intro exI [of _ True] exI [of _ m] exI [of _ c2]) (simp add: readNode_def node_of_def)
        qed
      qed
    qed
  qed
qed

section \<open>Statements on the tables\<close>

text \<open>\<open>u\<close> allows to get from the entries \<open>m\<close> back to \<open>m0\<close>.\<close>

definition undo_ok :: "'v undo_entry addr_table \<Rightarrow> (address \<rightharpoonup> 'v option) \<Rightarrow> (address \<rightharpoonup> 'v option) \<Rightarrow> bool" where
  "undo_ok u m m0 \<longleftrightarrow>
     (\<forall>a. (vmap u a = None \<longrightarrow> m a = m0 a) \<and> (\<forall>e. vmap u a = Some e \<longrightarrow> m0 a = (if present e then Some (prior e) else None)))"

lemma undo_ok_start: "vmap u = Map.empty \<Longrightarrow> undo_ok u m m"
  by (simp add: undo_ok_def)

lemma undo_okD:
  assumes "undo_ok u m m0"
  shows "vmap u a = None \<Longrightarrow> m a = m0 a" "vmap u a = Some e \<Longrightarrow> m0 a = (if present e then Some (prior e) else None)"
  using assms unfolding undo_ok_def by blast+

lemma undo_ok_change: "undo_ok u m m0 \<Longrightarrow> vmap u a \<noteq> None \<Longrightarrow> undo_ok u (m(a := x)) m0"
  unfolding undo_ok_def by auto

lemma undo_ok_remember:
  assumes "undo_ok u m m0" "vmap u a = None" "vmap u' = (vmap u)(a \<mapsto> \<lparr>present = (m a \<noteq> None), prior = pr\<rparr>)"
    and "\<And>x. m a = Some x \<Longrightarrow> x = pr"
  shows "undo_ok u' m m0"
proof -
  have "m a = m0 a" by (rule undo_okD(1) [OF assms(1,2)])
  then have "m0 a = (if m a \<noteq> None then Some pr else None)" using assms(4) by (metis option.exhaust)
  then show ?thesis using assms(1) unfolding undo_ok_def assms(3) by simp
qed

text \<open>Every turn of a rollback loop sets an address to what it was.\<close>

definition revert :: "'v undo_entry addr_entry \<Rightarrow> (address \<rightharpoonup> 'v option) \<Rightarrow> (address \<rightharpoonup> 'v option)" where
  "revert e m = (if akey e = 0 then m else m(akey e := (if present (the (aval e)) then Some (prior (the (aval e))) else None)))"

lemma revert_all:
  assumes "\<forall>e \<in> set es. akey e \<noteq> 0 \<longrightarrow> (if present (the (aval e)) then Some (prior (the (aval e))) else None) = m0 (akey e)"
    and "\<forall>a. m a = m0 a \<or> (\<exists>e \<in> set es. akey e = a \<and> a \<noteq> 0)"
  shows "fold revert es m = m0"
  using assms
proof (induction es arbitrary: m)
  case (Cons e es)
  have "\<forall>a. revert e m a = m0 a \<or> (\<exists>e \<in> set es. akey e = a \<and> a \<noteq> 0)" using Cons.prems by (auto simp: revert_def)
  with Cons.IH [of "revert e m"] Cons.prems(1) show ?case by simp
qed auto

lemma undo_entries:
  assumes "wf_at u" "valued u" "e \<in> set (at_entries u)" "akey e \<noteq> 0"
  shows "vmap u (akey e) = aval e" "aval e \<noteq> None"
proof -
  have d: "distinct_keys (view (at_entries u))" using assms(1) by (simp add: wf_at_def probe_inv_def)
  have "Some (akey e, aval e) \<in> set (view (at_entries u))" using assms(3,4) by (auto simp: view_def aview_def image_iff intro!: bexI [of _ e])
  then have "at_map u (akey e) = Some (aval e)" using table_map_Some [OF d] by (simp add: at_map_def)
  then show "vmap u (akey e) = aval e" "aval e \<noteq> None" using assms(2) spec [of _ "akey e"] by (simp add: vmap_def, metis valued_def)
qed

lemma undo_entry_at:
  assumes "wf_at u" "vmap u a = Some v"
  shows "\<exists>e \<in> set (at_entries u). akey e = a \<and> a \<noteq> 0"
proof -
  have d: "distinct_keys (view (at_entries u))" using assms(1) by (simp add: wf_at_def probe_inv_def)
  have "at_map u a = Some (Some v)" using assms(2) by (auto simp: vmap_def split: option.splits)
  then have "Some (a, Some v) \<in> set (view (at_entries u))" using table_map_Some [OF d] by (simp add: at_map_def)
  then show ?thesis by (auto simp: view_def aview_def split: if_splits)
qed

lemma undo_ok_revert:
  assumes "wf_at u" "valued u" "undo_ok u m m0"
  shows "fold revert (at_entries u) m = m0"
proof (rule revert_all)
  show "\<forall>e \<in> set (at_entries u). akey e \<noteq> 0 \<longrightarrow> (if present (the (aval e)) then Some (prior (the (aval e))) else None) = m0 (akey e)"
  proof (intro ballI impI)
    fix e assume e: "e \<in> set (at_entries u)" "akey e \<noteq> 0"
    then obtain v where "vmap u (akey e) = Some v" "aval e = Some v" using undo_entries [OF assms(1,2)] by force
    with undo_okD(2) [OF assms(3)] show "(if present (the (aval e)) then Some (prior (the (aval e))) else None) = m0 (akey e)" by simp
  qed
  show "\<forall>a. m a = m0 a \<or> (\<exists>e \<in> set (at_entries u). akey e = a \<and> a \<noteq> 0)"
  proof
    fix a show "m a = m0 a \<or> (\<exists>e \<in> set (at_entries u). akey e = a \<and> a \<noteq> 0)"
      using undo_okD(1) [OF assms(3), of a] undo_entry_at [OF assms(1), of a] by (cases "vmap u a") blast+
  qed
qed

definition live_entries :: "'v addr_entry list \<Rightarrow> nat" where
  "live_entries es = length (filter (\<lambda>e. akey e \<noteq> 0) es)"

lemma held_live:
  assumes "held n u" shows "live_entries (at_entries u) \<le> n"
proof -
  have "occupied (view es) = live_entries es" for es :: "'a addr_entry list"
    by (induction es) (auto simp: live_entries_def view_def occupied_def aview_def)
  then have "at_count u = live_entries (at_entries u)" using assms by (simp add: held_def wf_at_def)
  then show ?thesis using at_count_card [of u] assms by (simp add: held_def)
qed

lemma restore_all:
  assumes "\<forall>e \<in> set es. akey e \<noteq> 0 \<longrightarrow> aval e \<noteq> None" "held n d" "n + live_entries es < 2 ^ 28"
  shows "\<exists>d'. foldo restore es d = Some d' \<and> held (n + live_entries es) d' \<and> at_map d' = fold revert es (at_map d)"
  using assms
proof (induction es arbitrary: n d)
  case (Cons e es)
  show ?case
  proof (cases "akey e = 0")
    case True
    then show ?thesis using Cons by (simp add: restore_def revert_def live_entries_def)
  next
    case False
    obtain u where u: "aval e = Some u" using Cons.prems(1) False by auto
    obtain b v d1 where d1: "removeAddrTable (akey e) d = Some (b, v, d1)" "held n d1" "at_map d1 = (at_map d)(akey e := None)"
      using held_remove [OF Cons.prems(2) False] by blast
    have live: "live_entries (e # es) = live_entries es + 1" using False by (simp add: live_entries_def)
    have "\<exists>d2. restore e d = Some d2 \<and> held (n + 1) d2 \<and> at_map d2 = revert e (at_map d)"
    proof (cases "present u")
      case True
      obtain d2 where "insertAddrTable (akey e) (prior u) d1 = Some d2" "held (n + 1) d2" "at_map d2 = (at_map d1)(akey e \<mapsto> prior u)"
        using held_insert [OF d1(2) False, of "prior u"] Cons.prems(3) by auto
      with d1 u False True show ?thesis by (simp add: restore_def revert_def)
    next
      case np: False
      with d1 u False held_mono [OF d1(2), of "n + 1"] show ?thesis by (simp add: restore_def revert_def)
    qed
    then obtain d2 where d2: "restore e d = Some d2" "held (n + 1) d2" "at_map d2 = revert e (at_map d)" by blast
    obtain d3 where "foldo restore es d2 = Some d3" "held (n + 1 + live_entries es) d3" "at_map d3 = fold revert es (at_map d2)"
      using Cons.IH [OF _ d2(2)] Cons.prems(1,3) live by auto
    with d2(1,3) live show ?thesis by (simp add: add.assoc add.commute [of 1])
  qed
qed (simp add: live_entries_def)

text \<open>A mark that was there is still there.\<close>

lemma restore_delete_all:
  assumes "\<forall>e \<in> set es. akey e \<noteq> 0 \<longrightarrow> aval e \<noteq> None" "held n d"
    and "\<forall>e \<in> set es. akey e \<noteq> 0 \<longrightarrow> present (the (aval e)) \<longrightarrow> prior (the (aval e)) = None \<and> at_map d (akey e) = Some None"
    and "distinct (filter (\<lambda>k. k \<noteq> 0) (map akey es))"
  shows "\<exists>d'. foldo restore_delete es d = Some d' \<and> held n d' \<and> at_map d' = fold revert es (at_map d)"
  using assms
proof (induction es arbitrary: d)
  case (Cons e es)
  show ?case
  proof (cases "akey e = 0")
    case True
    then show ?thesis using Cons by (simp add: restore_delete_def revert_def)
  next
    case False
    obtain u where u: "aval e = Some u" using Cons.prems(1) False by auto
    have "\<exists>d2. restore_delete e d = Some d2 \<and> held n d2 \<and> at_map d2 = revert e (at_map d)"
    proof (cases "present u")
      case True
      with u False Cons.prems(2,3) show ?thesis by (auto simp: restore_delete_def revert_def)
    next
      case np: False
      with u False held_remove [OF Cons.prems(2) False] show ?thesis by (auto simp: restore_delete_def revert_def)
    qed
    then obtain d2 where d2: "restore_delete e d = Some d2" "held n d2" "at_map d2 = revert e (at_map d)" by blast
    have other: "akey f \<noteq> akey e" if "f \<in> set es" for f using that Cons.prems(4) False by (auto simp: image_iff)
    have "\<exists>d'. foldo restore_delete es d2 = Some d' \<and> held n d' \<and> at_map d' = fold revert es (at_map d2)"
    proof (rule Cons.IH [OF _ d2(2)])
      show "\<forall>f \<in> set es. akey f \<noteq> 0 \<longrightarrow> aval f \<noteq> None" "distinct (filter (\<lambda>k. k \<noteq> 0) (map akey es))"
        using Cons.prems(1,4) False by simp_all
      show "\<forall>f \<in> set es. akey f \<noteq> 0 \<longrightarrow> present (the (aval f)) \<longrightarrow> prior (the (aval f)) = None \<and> at_map d2 (akey f) = Some None"
        using Cons.prems(3) other by (auto simp: d2(3) revert_def)
    qed
    with d2(1,3) show ?thesis by simp
  qed
qed simp

lemma distinct_akeys:
  assumes "wf_at u" shows "distinct (filter (\<lambda>k. k \<noteq> 0) (map akey (at_entries u)))"
proof -
  have "distinct (filter (\<lambda>k. k \<noteq> 0) (map akey es))" if "distinct_keys (view es)" for es :: "'a addr_entry list"
    using that
  proof (induction es)
    case (Cons e es)
    have "akey e \<notin> set (filter (\<lambda>k. k \<noteq> 0) (map akey es))" if "akey e \<noteq> 0"
    proof
      assume "akey e \<in> set (filter (\<lambda>k. k \<noteq> 0) (map akey es))"
      then obtain j where j: "j < length es" "akey (es ! j) = akey e" by (auto simp: in_set_conv_nth)
      then have "view (e # es) ! Suc j = Some (akey e, aval (es ! j))" "view (e # es) ! 0 = Some (akey e, aval e)"
        using that by (simp_all add: view_def aview_def)
      with distinct_keysD [OF Cons.prems, of 0 "Suc j"] j(1) show False by (auto simp: view_def)
    qed
    moreover have "distinct_keys (view es)" using distinct_keys_Cons Cons.prems by (auto simp: view_def)
    ultimately show ?case using Cons.IH by simp
  qed simp
  then show ?thesis using assms by (simp add: wf_at_def probe_inv_def)
qed

section \<open>What a statement does\<close>

text \<open>The changes and reads that the tree makes on a table during a statement.\<close>

datatype change =
    CPage address slotted_page
  | CNode address node
  | CDelete address
  | CAllocPage
  | CAllocNode
  | CRoot address
  | CReadNode address node

fun run_change :: "files \<Rightarrow> change \<Rightarrow> table \<Rightarrow> table option" where
  "run_change fs (CPage a p) t = markPage False a p t"
| "run_change fs (CNode a n) t = markNode a n t"
| "run_change fs (CDelete a) t = markDelete a t"
| "run_change fs CAllocPage t = map_option snd (allocPage t)"
| "run_change fs CAllocNode t = Some (snd (allocNode t))"
| "run_change fs (CRoot a) t = Some (setRoot a t)"
| "run_change fs (CReadNode a n) t = map_option snd (readNode fs a n t)"

text \<open>The arrays of a page hold what its header says.\<close>

definition page_arrays :: "slotted_page \<Rightarrow> bool" where
  "page_arrays p \<longleftrightarrow> numEntries (hdr p) \<le> length (entries p) \<and> numRecords (hdr p) \<le> length (slots p)"

lemma copyPage_again: "page_arrays p \<Longrightarrow> copyPage (copyPage p) = copyPage p"
  by (simp add: copyPage_def page_arrays_def)

fun change_ok :: "change \<Rightarrow> bool" where
  "change_ok (CPage a p) = (a \<noteq> 0 \<and> page_arrays p)"
| "change_ok (CNode a n) = (a \<noteq> 0)"
| "change_ok (CDelete a) = (a \<noteq> 0)"
| "change_ok (CReadNode a n) = (a \<noteq> 0)"
| "change_ok c = True"

text \<open>What was marked last.\<close>

fun mark_page :: "change \<Rightarrow> (address \<rightharpoonup> slotted_page) \<Rightarrow> (address \<rightharpoonup> slotted_page)" where
  "mark_page (CPage a p) m = m(a \<mapsto> copyPage p)"
| "mark_page c m = m"

fun mark_node :: "change \<Rightarrow> (address \<rightharpoonup> node) \<Rightarrow> (address \<rightharpoonup> node)" where
  "mark_node (CNode a n) m = m(a \<mapsto> n)"
| "mark_node c m = m"

text \<open>The state before the statement can be brought back.\<close>

definition undoes :: "table \<Rightarrow> table \<Rightarrow> bool" where
  "undoes t0 t \<longleftrightarrow> uactive (undo t) \<and> fixed t = fixed t0 \<and>
     undo_ok (upages (undo t)) (at_map (pageDirty t)) (at_map (pageDirty t0)) \<and>
     undo_ok (unodes (undo t)) (at_map (nodeDirty t)) (at_map (nodeDirty t0)) \<and>
     undo_ok (udeletes (undo t)) (at_map (delete t)) (at_map (delete t0)) \<and>
     at_map (delete t0) \<subseteq>\<^sub>m at_map (delete t) \<and>
     upageFree (undo t) = pageFree t0 \<and> unodeFree (undo t) = nodeFree t0 \<and> uroot (undo t) = root t0 \<and>
     upageStripes (undo t) = pageStripes t0 \<and> unodeStripes (undo t) = nodeStripes t0"

text \<open>A change keeps everything but what it is about.\<close>

definition keeps :: "nat \<Rightarrow> files \<Rightarrow> table \<Rightarrow> table \<Rightarrow> bool" where
  "keeps n fs t t' \<longleftrightarrow> pending_ok n fs t' \<and> fixed t' = fixed t \<and> uactive (undo t') = uactive (undo t) \<and>
     (\<forall>t0. undoes t0 t \<longrightarrow> undoes t0 t')"

lemma keepsI:
  assumes "pending_ok n fs t'" "fixed t' = fixed t" "uactive (undo t') = uactive (undo t)" "\<And>t0. undoes t0 t \<Longrightarrow> undoes t0 t'"
  shows "keeps n fs t t'"
  using assms by (simp add: keeps_def)

lemma cache_fits_fixed:
  "cache_fits fs t \<Longrightarrow> fixed t' = fixed t \<Longrightarrow> nodeCache t' = nodeCache t \<Longrightarrow> cache_fits fs t'"
  using disk_fixed [of t' t fs] by (simp add: cache_fits_def)

lemma remembered:
  assumes "held n u" "valued u" "a \<noteq> 0" "n < 2 ^ 28" "vmap u a = None"
  shows "\<exists>u'. insertAddrTable a (Some e) u = Some u' \<and> held (n + 1) u' \<and> valued u' \<and> vmap u' = (vmap u)(a \<mapsto> e)"
  using held_insert [OF assms(1,3,4), of "Some e"] valued_upd [OF assms(2)] by blast

lemma rememberPage_spec:
  assumes "pending_ok n fs t" "a \<noteq> 0" "n < 2 ^ 28"
  shows "\<exists>u. rememberPage a t = Some (t\<lparr>undo := (undo t)\<lparr>upages := u\<rparr>\<rparr>) \<and> held (n + 1) u \<and> valued u \<and>
     (uactive (undo t) \<longrightarrow> vmap u a \<noteq> None) \<and> (\<not> uactive (undo t) \<longrightarrow> u = upages (undo t)) \<and>
     (\<forall>m0. undo_ok (upages (undo t)) (at_map (pageDirty t)) m0 \<longrightarrow> undo_ok u (at_map (pageDirty t)) m0)"
proof -
  note p = pending_okD [OF assms(1)]
  have same: "t\<lparr>undo := (undo t)\<lparr>upages := upages (undo t)\<rparr>\<rparr> = t" by simp
  show ?thesis
  proof (cases "uactive (undo t) \<and> vmap (upages (undo t)) a = None")
    case False
    then have "rememberPage a t = Some t"
      using find_vmap [OF held_wf [OF p(5)] assms(2)] by (auto simp: rememberPage_def)
    then show ?thesis using False same p(5,12) held_mono [OF p(5), of "n + 1"] by (intro exI [of _ "upages (undo t)"]) auto
  next
    case True
    let ?e = "\<lparr>present = (vmap (pageDirty t) a \<noteq> None), prior = map_option copyPage (vmap (pageDirty t) a)\<rparr>"
    obtain u where u: "insertAddrTable a (Some ?e) (upages (undo t)) = Some u" "held (n + 1) u" "valued u" "vmap u = (vmap (upages (undo t)))(a \<mapsto> ?e)"
      using remembered [OF p(5,12) assms(2,3)] True by blast
    have m: "at_map (pageDirty t) a = map_option Some (vmap (pageDirty t) a)" by (rule valued_map [OF p(8)])
    have c: "copyPage q = q" if "vmap (pageDirty t) a = Some q" for q using assms(1) that by (simp add: pending_ok_def)
    have e: "?e = \<lparr>present = (at_map (pageDirty t) a \<noteq> None), prior = vmap (pageDirty t) a\<rparr>"
      using m c by (cases "vmap (pageDirty t) a") auto
    have "undo_ok u (at_map (pageDirty t)) m0" if "undo_ok (upages (undo t)) (at_map (pageDirty t)) m0" for m0
      by (rule undo_ok_remember [OF that _ u(4) [unfolded e]]) (use True m in auto)
    then show ?thesis
      using u True find_vmap [OF held_wf [OF p(5)] assms(2)] find_vmap [OF held_wf [OF p(2)] assms(2)]
      by (intro exI [of _ u]) (simp add: rememberPage_def)
  qed
qed

lemma rememberNode_spec:
  assumes "pending_ok n fs t" "a \<noteq> 0" "n < 2 ^ 28"
  shows "\<exists>u. rememberNode a t = Some (t\<lparr>undo := (undo t)\<lparr>unodes := u\<rparr>\<rparr>) \<and> held (n + 1) u \<and> valued u \<and>
     (uactive (undo t) \<longrightarrow> vmap u a \<noteq> None) \<and> (\<not> uactive (undo t) \<longrightarrow> u = unodes (undo t)) \<and>
     (\<forall>m0. undo_ok (unodes (undo t)) (at_map (nodeDirty t)) m0 \<longrightarrow> undo_ok u (at_map (nodeDirty t)) m0)"
proof -
  note p = pending_okD [OF assms(1)]
  have same: "t\<lparr>undo := (undo t)\<lparr>unodes := unodes (undo t)\<rparr>\<rparr> = t" by simp
  show ?thesis
  proof (cases "uactive (undo t) \<and> vmap (unodes (undo t)) a = None")
    case False
    then have "rememberNode a t = Some t"
      using find_vmap [OF held_wf [OF p(6)] assms(2)] by (auto simp: rememberNode_def)
    then show ?thesis using False same p(6,13) held_mono [OF p(6), of "n + 1"] by (intro exI [of _ "unodes (undo t)"]) auto
  next
    case True
    let ?e = "\<lparr>present = (vmap (nodeDirty t) a \<noteq> None), prior = vmap (nodeDirty t) a\<rparr>"
    obtain u where u: "insertAddrTable a (Some ?e) (unodes (undo t)) = Some u" "held (n + 1) u" "valued u" "vmap u = (vmap (unodes (undo t)))(a \<mapsto> ?e)"
      using remembered [OF p(6,13) assms(2,3)] True by blast
    have m: "at_map (nodeDirty t) a = map_option Some (vmap (nodeDirty t) a)" by (rule valued_map [OF p(9)])
    then have e: "?e = \<lparr>present = (at_map (nodeDirty t) a \<noteq> None), prior = vmap (nodeDirty t) a\<rparr>" by auto
    have "undo_ok u (at_map (nodeDirty t)) m0" if "undo_ok (unodes (undo t)) (at_map (nodeDirty t)) m0" for m0
      by (rule undo_ok_remember [OF that _ u(4) [unfolded e]]) (use True m in auto)
    then show ?thesis
      using u True find_vmap [OF held_wf [OF p(6)] assms(2)] find_vmap [OF held_wf [OF p(3)] assms(2)]
      by (intro exI [of _ u]) (simp add: rememberNode_def)
  qed
qed

lemma rememberDelete_spec:
  assumes "pending_ok n fs t" "a \<noteq> 0" "n < 2 ^ 28"
  shows "\<exists>u. rememberDelete a t = Some (t\<lparr>undo := (undo t)\<lparr>udeletes := u\<rparr>\<rparr>) \<and> held (n + 1) u \<and> valued u \<and>
     (uactive (undo t) \<longrightarrow> vmap u a \<noteq> None) \<and> (\<not> uactive (undo t) \<longrightarrow> u = udeletes (undo t)) \<and>
     (\<forall>m0. undo_ok (udeletes (undo t)) (at_map (delete t)) m0 \<longrightarrow> undo_ok u (at_map (delete t)) m0)"
proof -
  note p = pending_okD [OF assms(1)]
  have same: "t\<lparr>undo := (undo t)\<lparr>udeletes := udeletes (undo t)\<rparr>\<rparr> = t" by simp
  show ?thesis
  proof (cases "uactive (undo t) \<and> vmap (udeletes (undo t)) a = None")
    case False
    then have "rememberDelete a t = Some t"
      using find_vmap [OF held_wf [OF p(7)] assms(2)] by (auto simp: rememberDelete_def)
    then show ?thesis using False same p(7,14) held_mono [OF p(7), of "n + 1"] by (intro exI [of _ "udeletes (undo t)"]) auto
  next
    case True
    let ?e = "\<lparr>present = (at_map (delete t) a \<noteq> None), prior = None\<rparr>"
    obtain u where u: "insertAddrTable a (Some ?e) (udeletes (undo t)) = Some u" "held (n + 1) u" "valued u" "vmap u = (vmap (udeletes (undo t)))(a \<mapsto> ?e)"
      using remembered [OF p(7,14) assms(2,3)] True by blast
    have "undo_ok u (at_map (delete t)) m0" if "undo_ok (udeletes (undo t)) (at_map (delete t)) m0" for m0
      by (rule undo_ok_remember [OF that _ u(4)]) (use True assms(1) in \<open>auto simp: pending_ok_def\<close>)
    then show ?thesis
      using u True find_vmap [OF held_wf [OF p(7)] assms(2)] containsAddrTable_map [OF held_wf [OF p(4)] assms(2)]
      by (intro exI [of _ u]) (simp add: rememberDelete_def)
  qed
qed

text \<open>A pending version is replaced or added.\<close>

lemma put_pending:
  assumes "held n at" "valued at" "a \<noteq> 0" "n < 2 ^ 28"
  shows "\<exists>at'. (if vmap at a \<noteq> None then overwriteAddrTable a v at else insertAddrTable a (Some v) at) = Some at' \<and>
     held (n + 1) at' \<and> valued at' \<and> at_map at' = (at_map at)(a \<mapsto> Some v) \<and> vmap at' = (vmap at)(a \<mapsto> v)"
proof (cases "vmap at a")
  case None
  then show ?thesis using held_insert [OF assms(1,3,4), of "Some v"] valued_upd [OF assms(2)] by fastforce
next
  case (Some w)
  then have "at_map at a \<noteq> None" by (auto simp: vmap_def split: option.splits)
  from overwrite_map [OF assms(1,3) this, of v] Some show ?thesis
    using valued_upd [OF assms(2)] held_mono by fastforce
qed

lemma markPage_spec:
  assumes "pending_ok n fs t" "a \<noteq> 0" "n < 2 ^ 28" "page_arrays p"
  shows "\<exists>t'. markPage False a p t = Some t' \<and> keeps (n + 1) fs t t' \<and> vmap (pageDirty t') = (vmap (pageDirty t))(a \<mapsto> copyPage p) \<and>
     nodeDirty t' = nodeDirty t"
proof -
  obtain u where u: "rememberPage a t = Some (t\<lparr>undo := (undo t)\<lparr>upages := u\<rparr>\<rparr>)" "held (n + 1) u" "valued u"
     "uactive (undo t) \<longrightarrow> vmap u a \<noteq> None" "\<not> uactive (undo t) \<longrightarrow> u = upages (undo t)"
     "\<forall>m0. undo_ok (upages (undo t)) (at_map (pageDirty t)) m0 \<longrightarrow> undo_ok u (at_map (pageDirty t)) m0"
    using rememberPage_spec [OF assms(1-3)] by blast
  note q = pending_okD [OF assms(1)]
  obtain d where d: "(if vmap (pageDirty t) a \<noteq> None then overwriteAddrTable a (copyPage p) (pageDirty t) else insertAddrTable a (Some (copyPage p)) (pageDirty t)) = Some d"
     "held (n + 1) d" "valued d" "at_map d = (at_map (pageDirty t))(a \<mapsto> Some (copyPage p))" "vmap d = (vmap (pageDirty t))(a \<mapsto> copyPage p)"
    using put_pending [OF q(2,8) assms(2,3)] by blast
  let ?t' = "t\<lparr>undo := (undo t)\<lparr>upages := u\<rparr>, pageDirty := d\<rparr>"
  have run: "markPage False a p t = Some ?t'"
    using d(1) find_vmap [OF held_wf [OF q(2)] assms(2)]
    by (cases "vmap (pageDirty t) a") (simp_all add: markPage_def u(1))
  have fx: "fixed ?t' = fixed t" by (simp add: fixed_def)
  have ok: "pending_ok (n + 1) fs ?t'"
    using pending_ok_mono [OF assms(1), of "n + 1"] d(2,3,5) u(2,3,5) copyPage_again [OF assms(4)] cache_fits_fixed [OF q(10) fx]
      fixed_layout [OF fx] by (auto simp: pending_ok_def)
  have "undoes t0 ?t'" if "undoes t0 t" for t0
    using that u(4,6) fx undo_ok_change [of u _ _ a "Some (Some (copyPage p))"] by (simp add: undoes_def d(4))
  then have "keeps (n + 1) fs t ?t'" using ok fx by (simp add: keeps_def)
  then show ?thesis using run d(5) by auto
qed

lemma markNode_spec:
  assumes "pending_ok n fs t" "a \<noteq> 0" "n < 2 ^ 28"
  shows "\<exists>t'. markNode a m t = Some t' \<and> keeps (n + 1) fs t t' \<and> vmap (nodeDirty t') = (vmap (nodeDirty t))(a \<mapsto> m) \<and>
     pageDirty t' = pageDirty t"
proof -
  obtain u where u: "rememberNode a t = Some (t\<lparr>undo := (undo t)\<lparr>unodes := u\<rparr>\<rparr>)" "held (n + 1) u" "valued u"
     "uactive (undo t) \<longrightarrow> vmap u a \<noteq> None" "\<not> uactive (undo t) \<longrightarrow> u = unodes (undo t)"
     "\<forall>m0. undo_ok (unodes (undo t)) (at_map (nodeDirty t)) m0 \<longrightarrow> undo_ok u (at_map (nodeDirty t)) m0"
    using rememberNode_spec [OF assms(1-3)] by blast
  note q = pending_okD [OF assms(1)]
  obtain d where d: "(if vmap (nodeDirty t) a \<noteq> None then overwriteAddrTable a m (nodeDirty t) else insertAddrTable a (Some m) (nodeDirty t)) = Some d"
     "held (n + 1) d" "valued d" "at_map d = (at_map (nodeDirty t))(a \<mapsto> Some m)" "vmap d = (vmap (nodeDirty t))(a \<mapsto> m)"
    using put_pending [OF q(3,9) assms(2,3)] by blast
  let ?t' = "t\<lparr>undo := (undo t)\<lparr>unodes := u\<rparr>, nodeDirty := d\<rparr>"
  have run: "markNode a m t = Some ?t'"
    using d(1) find_vmap [OF held_wf [OF q(3)] assms(2)]
    by (cases "vmap (nodeDirty t) a") (simp_all add: markNode_def u(1))
  have fx: "fixed ?t' = fixed t" by (simp add: fixed_def)
  have ok: "pending_ok (n + 1) fs ?t'"
    using pending_ok_mono [OF assms(1), of "n + 1"] d(2,3,5) u(2,3,5) cache_fits_fixed [OF q(10) fx]
      fixed_layout [OF fx] by (auto simp: pending_ok_def)
  have "undoes t0 ?t'" if "undoes t0 t" for t0
    using that u(4,6) fx undo_ok_change [of u _ _ a "Some (Some m)"] by (simp add: undoes_def d(4))
  then have "keeps (n + 1) fs t ?t'" using ok fx by (simp add: keeps_def)
  then show ?thesis using run d(5) by auto
qed

lemma markDelete_spec:
  assumes "pending_ok n fs t" "a \<noteq> 0" "n < 2 ^ 28"
  shows "\<exists>t'. markDelete a t = Some t' \<and> keeps (n + 1) fs t t' \<and> at_map (delete t') = (at_map (delete t))(a \<mapsto> None) \<and>
     pageDirty t' = pageDirty t \<and> nodeDirty t' = nodeDirty t"
proof -
  obtain u where u: "rememberDelete a t = Some (t\<lparr>undo := (undo t)\<lparr>udeletes := u\<rparr>\<rparr>)" "held (n + 1) u" "valued u"
     "uactive (undo t) \<longrightarrow> vmap u a \<noteq> None" "\<not> uactive (undo t) \<longrightarrow> u = udeletes (undo t)"
     "\<forall>m0. undo_ok (udeletes (undo t)) (at_map (delete t)) m0 \<longrightarrow> undo_ok u (at_map (delete t)) m0"
    using rememberDelete_spec [OF assms(1-3)] by blast
  note q = pending_okD [OF assms(1)]
  let ?t1 = "t\<lparr>undo := (undo t)\<lparr>udeletes := u\<rparr>\<rparr>"
  have none: "x = None" if "at_map (delete t) a = Some x" for x using assms(1) that by (simp add: pending_ok_def)
  obtain d where d: "(if at_map (delete t) a \<noteq> None then Some (delete t) else insertAddrTable a None (delete t)) = Some d"
     "held (n + 1) d" "at_map d = (at_map (delete t))(a \<mapsto> None)"
  proof (cases "at_map (delete t) a")
    case None
    then show thesis using held_insert [OF q(4) assms(2,3), of None] that by auto
  next
    case (Some x)
    then show thesis using that [of "delete t"] none held_mono [OF q(4)] by (auto simp: fun_upd_idem)
  qed
  let ?t' = "t\<lparr>undo := (undo t)\<lparr>udeletes := u\<rparr>, delete := d\<rparr>"
  have run: "markDelete a t = Some ?t'"
    using d(1) containsAddrTable_map [OF held_wf [OF q(4)] assms(2)]
    by (cases "at_map (delete t) a") (simp_all add: markDelete_def u(1))
  have fx: "fixed ?t' = fixed t" by (simp add: fixed_def)
  have ok: "pending_ok (n + 1) fs ?t'"
    using pending_ok_mono [OF assms(1), of "n + 1"] d(2,3) u(2,3,5) cache_fits_fixed [OF q(10) fx]
      fixed_layout [OF fx] by (auto simp: pending_ok_def)
  have "undoes t0 ?t'" if "undoes t0 t" for t0
  proof -
    have "at_map (delete t0) \<subseteq>\<^sub>m (at_map (delete t))(a \<mapsto> None)"
      using that none by (auto simp: undoes_def map_le_def dom_def)
    then show ?thesis
      using that u(4,6) fx undo_ok_change [of u _ _ a "Some None"] by (simp add: undoes_def d(3))
  qed
  then have "keeps (n + 1) fs t ?t'" using ok fx by (simp add: keeps_def)
  then show ?thesis using run d(3) by auto
qed

lemma allocPage_keeps:
  assumes "pending_ok n fs t"
  shows "\<exists>a t'. allocPage t = Some (a, t') \<and> keeps n fs t t' \<and> pageDirty t' = pageDirty t \<and> nodeDirty t' = nodeDirty t"
proof -
  have r: "pageNodeRatio t \<noteq> 0" using pending_okD(1) [OF assms] by (simp add: layout_ok_def)
  obtain s where s: "currentPageStripeStart t = Some s" using r by (simp add: currentPageStripeStart_def Let_def)
  obtain s2 where s2: "currentPageStripeStart (t\<lparr>pageStripes := pageStripes t + 1\<rparr>) = Some s2"
    using r by (simp add: currentPageStripeStart_def Let_def)
  have new: "newPageStripe t = Some (t\<lparr>pageStripes := pageStripes t + 1, pageFree := s2\<rparr>)" by (simp add: newPageStripe_def s2)
  have k: "keeps n fs t (t\<lparr>pageStripes := x, pageFree := y\<rparr>)" for x y
  proof -
    have fx: "fixed (t\<lparr>pageStripes := x, pageFree := y\<rparr>) = fixed t" by (simp add: fixed_def)
    then show ?thesis using assms cache_fits_fixed [OF pending_okD(10) [OF assms] fx] fixed_layout [OF fx]
      by (simp add: keeps_def undoes_def pending_ok_def)
  qed
  from k [where x = "pageStripes t"] k [where x = "pageStripes t + 1"] show ?thesis by (auto simp: allocPage_def s new)
qed

lemma allocNode_keeps:
  assumes "pending_ok n fs t"
  shows "keeps n fs t (snd (allocNode t)) \<and> pageDirty (snd (allocNode t)) = pageDirty t \<and> nodeDirty (snd (allocNode t)) = nodeDirty t"
proof -
  have k: "keeps n fs t (t\<lparr>nodeStripes := x, nodeFree := y\<rparr>)" for x y
  proof -
    have fx: "fixed (t\<lparr>nodeStripes := x, nodeFree := y\<rparr>) = fixed t" by (simp add: fixed_def)
    then show ?thesis using assms cache_fits_fixed [OF pending_okD(10) [OF assms] fx] fixed_layout [OF fx]
      by (simp add: keeps_def undoes_def pending_ok_def)
  qed
  from k [where x = "nodeStripes t"] k [where x = "nodeStripes t + 1"] show ?thesis by (auto simp: allocNode_def newNodeStripe_def Let_def)
qed

lemma setRoot_keeps:
  assumes "pending_ok n fs t"
  shows "keeps n fs t (setRoot a t) \<and> pageDirty (setRoot a t) = pageDirty t \<and> nodeDirty (setRoot a t) = nodeDirty t"
proof -
  have fx: "fixed (setRoot a t) = fixed t" by (simp add: fixed_def setRoot_def)
  have "cache_fits fs (setRoot a t)"
    using nodeCacheClear_map [OF pending_okD(11) [OF assms]] by (simp add: cache_fits_def setRoot_def)
  then have "pending_ok n fs (setRoot a t)" using assms fixed_layout [OF fx] by (simp add: pending_ok_def) (simp add: setRoot_def)
  then show ?thesis using fx by (simp add: keeps_def) (simp add: undoes_def setRoot_def fixed_def)
qed

lemma readNode_keeps:
  assumes "pending_ok n fs t" "a \<noteq> 0" "hasSource t \<or> vmap (nodeDirty t) a \<noteq> None"
  shows "\<exists>r t'. readNode fs a n0 t = Some (r, t') \<and> keeps n fs t t' \<and> pageDirty t' = pageDirty t \<and> nodeDirty t' = nodeDirty t"
proof -
  obtain ok m c where r: "readNode fs a n0 t = Some ((ok, m), t\<lparr>nodeCache := c\<rparr>)" "cache_fits fs (t\<lparr>nodeCache := c\<rparr>)"
    using readNode_node [OF assms] by blast
  have fx: "fixed (t\<lparr>nodeCache := c\<rparr>) = fixed t" by (simp add: fixed_def)
  have "keeps n fs t (t\<lparr>nodeCache := c\<rparr>)" using assms(1) r(2) fx fixed_layout [OF fx] by (simp add: keeps_def pending_ok_def undoes_def)
  then show ?thesis using r(1) by simp
qed

lemma keeps_mono: "keeps n fs t t' \<Longrightarrow> n \<le> m \<Longrightarrow> keeps m fs t t'"
  by (auto simp: keeps_def intro: pending_ok_mono)

lemma keeps_trans: "keeps n fs t t1 \<Longrightarrow> keeps m fs t1 t2 \<Longrightarrow> keeps m fs t t2"
  by (simp add: keeps_def)

lemma run_change_spec:
  assumes "pending_ok n fs t" "change_ok c" "n < 2 ^ 28" "hasSource t \<or> (\<forall>a m. c \<noteq> CReadNode a m)"
  shows "\<exists>t'. run_change fs c t = Some t' \<and> keeps (n + 1) fs t t' \<and>
     vmap (pageDirty t') = mark_page c (vmap (pageDirty t)) \<and> vmap (nodeDirty t') = mark_node c (vmap (nodeDirty t))"
proof (cases c)
  case (CPage a p)
  then show ?thesis using markPage_spec [OF assms(1) _ assms(3), of a p] assms(2) by auto
next
  case (CNode a m)
  then show ?thesis using markNode_spec [OF assms(1) _ assms(3), of a m] assms(2) by auto
next
  case (CDelete a)
  then show ?thesis using markDelete_spec [OF assms(1) _ assms(3), of a] assms(2) by auto
next
  case CAllocPage
  then show ?thesis using allocPage_keeps [OF assms(1)] keeps_mono [of n] by auto
next
  case CAllocNode
  then show ?thesis using allocNode_keeps [OF assms(1)] keeps_mono [of n] by auto
next
  case (CRoot a)
  then show ?thesis using setRoot_keeps [OF assms(1), of a] keeps_mono [of n] by auto
next
  case (CReadNode a m)
  with assms(2,4) obtain r t' where "readNode fs a m t = Some (r, t')" "keeps n fs t t'" "pageDirty t' = pageDirty t" "nodeDirty t' = nodeDirty t"
    using readNode_keeps [OF assms(1), of a m] by auto
  then show ?thesis using CReadNode keeps_mono [of n fs t t' "n + 1"] by simp
qed

lemma run_changes:
  assumes "pending_ok n fs t" "\<forall>c \<in> set cs. change_ok c" "n + length cs < 2 ^ 28" "hasSource t \<or> (\<forall>a m. CReadNode a m \<notin> set cs)"
  shows "\<exists>t'. foldo (run_change fs) cs t = Some t' \<and> keeps (n + length cs) fs t t' \<and>
     vmap (pageDirty t') = fold mark_page cs (vmap (pageDirty t)) \<and> vmap (nodeDirty t') = fold mark_node cs (vmap (nodeDirty t))"
  using assms
proof (induction cs arbitrary: n t)
  case Nil
  then show ?case by (simp add: keeps_def)
next
  case (Cons c cs)
  obtain t1 where t1: "run_change fs c t = Some t1" "keeps (n + 1) fs t t1"
    "vmap (pageDirty t1) = mark_page c (vmap (pageDirty t))" "vmap (nodeDirty t1) = mark_node c (vmap (nodeDirty t))"
    using run_change_spec [OF Cons.prems(1), of c] Cons.prems(2-4) by auto
  have k1: "pending_ok (n + 1) fs t1" "hasSource t1 = hasSource t" using t1(2) by (simp_all add: keeps_def fixed_def)
  obtain t2 where "foldo (run_change fs) cs t1 = Some t2" "keeps (n + 1 + length cs) fs t1 t2"
    "vmap (pageDirty t2) = fold mark_page cs (vmap (pageDirty t1))" "vmap (nodeDirty t2) = fold mark_node cs (vmap (nodeDirty t1))"
    using Cons.IH [OF k1(1)] Cons.prems(2-4) k1(2) by auto
  with t1 keeps_trans [OF t1(2)] show ?case by simp
qed

section \<open>Rolling back\<close>

lemma rollback_undoes:
  assumes "pending_ok n fs t" "undoes t0 t" "2 * n < 2 ^ 28" "cache_fits fs t0"
    and "\<forall>a p. vmap (pageDirty t0) a = Some p \<longrightarrow> copyPage p = p" "valued (pageDirty t0)" "valued (nodeDirty t0)"
    "\<forall>a x. at_map (delete t0) a = Some x \<longrightarrow> x = None"
  shows "\<exists>t'. rollbackStatement t = Some t' \<and> pending_ok (2 * n) fs t' \<and> \<not> uactive (undo t') \<and> fixed t' = fixed t0 \<and>
     at_map (pageDirty t') = at_map (pageDirty t0) \<and> at_map (nodeDirty t') = at_map (nodeDirty t0) \<and> at_map (delete t') = at_map (delete t0) \<and>
     pageFree t' = pageFree t0 \<and> nodeFree t' = nodeFree t0 \<and> root t' = root t0 \<and> pageStripes t' = pageStripes t0 \<and> nodeStripes t' = nodeStripes t0"
proof -
  note q = pending_okD [OF assms(1)]
  let ?u = "undo t"
  have u: "uactive ?u" "fixed t = fixed t0" "undo_ok (upages ?u) (at_map (pageDirty t)) (at_map (pageDirty t0))"
    "undo_ok (unodes ?u) (at_map (nodeDirty t)) (at_map (nodeDirty t0))" "undo_ok (udeletes ?u) (at_map (delete t)) (at_map (delete t0))"
    "at_map (delete t0) \<subseteq>\<^sub>m at_map (delete t)" "upageFree ?u = pageFree t0" "unodeFree ?u = nodeFree t0" "uroot ?u = root t0"
    "upageStripes ?u = pageStripes t0" "unodeStripes ?u = nodeStripes t0"
    using assms(2) by (simp_all add: undoes_def)
  obtain ps where ps: "foldo restore (at_entries (upages ?u)) (pageDirty t) = Some ps" "held (n + live_entries (at_entries (upages ?u))) ps"
    "at_map ps = fold revert (at_entries (upages ?u)) (at_map (pageDirty t))"
    using restore_all [OF _ q(2), of "at_entries (upages ?u)"] undo_entries(2) [OF held_wf [OF q(5)] q(12)] held_live [OF q(5)] assms(3) by auto
  obtain ns where ns: "foldo restore (at_entries (unodes ?u)) (nodeDirty t) = Some ns" "held (n + live_entries (at_entries (unodes ?u))) ns"
    "at_map ns = fold revert (at_entries (unodes ?u)) (at_map (nodeDirty t))"
    using restore_all [OF _ q(3), of "at_entries (unodes ?u)"] undo_entries(2) [OF held_wf [OF q(6)] q(13)] held_live [OF q(6)] assms(3) by auto
  have marks: "\<forall>e \<in> set (at_entries (udeletes ?u)). akey e \<noteq> 0 \<longrightarrow> present (the (aval e)) \<longrightarrow>
      prior (the (aval e)) = None \<and> at_map (delete t) (akey e) = Some None"
  proof (intro ballI impI)
    fix e assume e: "e \<in> set (at_entries (udeletes ?u))" "akey e \<noteq> 0" "present (the (aval e))"
    obtain v where v: "vmap (udeletes ?u) (akey e) = Some v" "aval e = Some v"
      using undo_entries [OF held_wf [OF q(7)] q(14) e(1,2)] by force
    have "at_map (delete t0) (akey e) = Some (prior v)" using undo_okD(2) [OF u(5) v(1)] e(3) v(2) by simp
    moreover from this have "prior v = None" using assms(8) by simp
    moreover have "at_map (delete t) (akey e) = Some (prior v)" using calculation(1) u(6) by (auto simp: map_le_def dom_def)
    ultimately show "prior (the (aval e)) = None \<and> at_map (delete t) (akey e) = Some None" using v(2) by simp
  qed
  obtain ds where ds: "foldo restore_delete (at_entries (udeletes ?u)) (delete t) = Some ds" "held n ds"
    "at_map ds = fold revert (at_entries (udeletes ?u)) (at_map (delete t))"
    using restore_delete_all [OF _ q(4) marks distinct_akeys [OF held_wf [OF q(7)]]] undo_entries(2) [OF held_wf [OF q(7)] q(14)] by auto
  have m: "at_map ps = at_map (pageDirty t0)" "at_map ns = at_map (nodeDirty t0)" "at_map ds = at_map (delete t0)"
    unfolding ps(3) ns(3) ds(3)
    using undo_ok_revert [OF held_wf [OF q(5)] q(12) u(3)] undo_ok_revert [OF held_wf [OF q(6)] q(13) u(4)]
      undo_ok_revert [OF held_wf [OF q(7)] q(14) u(5)] by simp_all
  let ?c = "if root t \<noteq> uroot ?u then nodeCacheClear (nodeCache t) else nodeCache t"
  let ?t' = "freeUndo (t\<lparr>pageDirty := ps, nodeDirty := ns, delete := ds, pageFree := upageFree ?u, nodeFree := unodeFree ?u,
          nodeCache := ?c, root := uroot ?u, pageStripes := upageStripes ?u, nodeStripes := unodeStripes ?u\<rparr>)"
  have run: "rollbackStatement t = Some ?t'" using u(1) ps(1) ns(1) ds(1) by (simp add: rollbackStatement_def Let_def)
  have fx: "fixed ?t' = fixed t" by (simp add: fixed_def freeUndo_def)
  have fits: "cache_fits fs ?t'"
    using nodeCacheClear_map [OF q(11)] q(10) disk_fixed [OF fx, of fs] by (simp add: cache_fits_def) (simp add: freeUndo_def)
  have v: "vmap ps = vmap (pageDirty t0)" "valued ps" "valued ns" using m assms(6,7) by (simp_all add: vmap_def [abs_def] valued_def)
  have h: "held (2 * n) ps" "held (2 * n) ns" "held (2 * n) ds"
    using held_mono [OF ps(2)] held_mono [OF ns(2)] held_mono [OF ds(2)] held_live [OF q(5)] held_live [OF q(6)] by simp_all
  have "pending_ok (2 * n) fs ?t'"
    using q(1) fixed_layout [OF fx] fits h v assms(5,8) m(3) by (simp add: pending_ok_def) (simp add: freeUndo_def)
  then show ?thesis using run fx u(2,7-11) m by (simp add: freeUndo_def)
qed

section \<open>Discarding\<close>

lemma drain_map:
  assumes "held n at"
  shows "held n (drain at)" "at_map (drain at) = Map.empty" "at_count (drain at) = 0"
proof -
  have "view (at_entries (drain at)) = replicate (length (at_entries at)) None"
    by (auto simp: drain_def view_def aview_def map_replicate_const [symmetric])
  then have v: "at_map (drain at) = Map.empty" "occupied (view (at_entries (drain at))) = 0"
    "probe_inv h (view (at_entries (drain at)))" for h
    by (simp_all add: at_map_def probe_inv_replicate)
  show "at_count (drain at) = 0" by (simp add: drain_def)
  show "at_map (drain at) = Map.empty" by (rule v(1))
  show "held n (drain at)" using assms v by (simp add: held_def wf_at_def) (simp add: drain_def)
qed

lemma cleared_map:
  assumes "held n at" "at' = at\<lparr>at_count := 0, at_entries := map (\<lambda>e. e\<lparr>akey := 0, aval := None\<rparr>) (at_entries at)\<rparr>"
  shows "held n at'" "at_map at' = Map.empty"
proof -
  have "view (at_entries at') = replicate (length (at_entries at)) None"
    by (auto simp: assms(2) view_def aview_def map_replicate_const [symmetric])
  then have v: "at_map at' = Map.empty" "occupied (view (at_entries at')) = 0" "probe_inv h (view (at_entries at'))" for h
    by (simp_all add: at_map_def probe_inv_replicate)
  show "at_map at' = Map.empty" by (rule v(1))
  show "held n at'" using assms(1) v by (simp add: held_def wf_at_def) (simp add: assms(2))
qed

text \<open>A table whose changes were discarded reads as the file does.\<close>

lemma discard_ok:
  assumes "pending_ok n fs t" "\<not> uactive (undo t)"
  shows "pending_ok n fs (discard t)" "at_map (pageDirty (discard t)) = Map.empty" "at_map (nodeDirty (discard t)) = Map.empty"
    "at_map (delete (discard t)) = Map.empty" "fixed (discard t) = fixed t" "isDirty (discard t) = isNew t"
proof -
  note q = pending_okD [OF assms(1)]
  show m: "at_map (pageDirty (discard t)) = Map.empty" "at_map (nodeDirty (discard t)) = Map.empty"
    using drain_map(2) [OF q(2)] drain_map(2) [OF q(3)] by (simp_all add: discard_def)
  show d: "at_map (delete (discard t)) = Map.empty" using cleared_map(2) [OF q(4) refl] by (simp add: discard_def)
  show fx: "fixed (discard t) = fixed t" by (simp add: discard_def fixed_def)
  have h: "held n (pageDirty (discard t))" "held n (nodeDirty (discard t))" "held n (delete (discard t))"
    using drain_map(1) [OF q(2)] drain_map(1) [OF q(3)] cleared_map(1) [OF q(4) refl] by (simp_all add: discard_def)
  have "undo (discard t) = undo t" "nodeCache (discard t) = nodeCache t" by (simp_all add: discard_def)
  then show "pending_ok n fs (discard t)"
    using assms(1) h m d cache_fits_fixed [OF q(10) fx] fixed_layout [OF fx] by (simp add: pending_ok_def valued_def vmap_def)
  show "isDirty (discard t) = isNew t" by (simp add: isDirty_def discard_def drain_def)
qed

section \<open>A new table\<close>

lemma init_pending: "pending_ok n fs ((initTable name ty)\<lparr>hasSource := b, isNew := c\<rparr>)"
  "\<not> uactive (undo ((initTable name ty)\<lparr>hasSource := b, isNew := c\<rparr>))"
proof -
  let ?t = "(initTable name ty)\<lparr>hasSource := b, isNew := c\<rparr>"
  have e: "pageDirty ?t = initAddrTable" "nodeDirty ?t = initAddrTable" "delete ?t = initAddrTable" "undo ?t = no_undo"
    "nodeCache ?t = nodeCacheInit (1 + M_GLOBAL)"
    by (simp_all add: initTable_def initDirtyHashmaps_def Let_def)
  have l: "layout_ok ?t" by (simp add: layout_ok_def initTable_def initDirtyHashmaps_def Let_def disk_sizes METALEN_def)
  have c: "cache_fits fs ?t" using nodeCacheInit_wf [of "1 + M_GLOBAL"] e(5) by (simp add: cache_fits_def M_GLOBAL_def)
  have init: "vmap initAddrTable = Map.empty" "valued initAddrTable" by (rule vmap_init)+
  show "pending_ok n fs ?t" unfolding pending_ok_def e using l c by (simp add: no_undo_def vmap_init)
  show "\<not> uactive (undo ?t)" unfolding e by (simp add: no_undo_def)
qed

section \<open>Properties\<close>

text \<open>C5: Whatever a statement does to a table is seen by the reads that follow, at once and through every layer. After
  any changes, a page reads as it was marked last, and a page that was not marked reads as before, from the pending
  changes of earlier statements or from the file; a node reads as it was marked last or else, whether the cache holds it
  or not, as before, in all that is used of a node. No lookup or insertion runs off its table.\<close>

theorem changes_visible:
  assumes "pending_ok n fs t" "\<forall>c \<in> set cs. change_ok c" "n + length cs < 2 ^ 28" "hasSource t" "a \<noteq> 0"
  shows "\<exists>t'. foldo (run_change fs) cs t = Some t' \<and> pending_ok (n + length cs) fs t' \<and>
     readPage fs a t' = Some (case fold mark_page cs Map.empty a of Some p \<Rightarrow> Some p | None \<Rightarrow> page_of fs t a) \<and>
     (\<exists>ok m t2. readNode fs a m0 t' = Some ((ok, m), t2) \<and>
        (case (case fold mark_node cs Map.empty a of Some k \<Rightarrow> Some k | None \<Rightarrow> node_of fs t a) of
           None \<Rightarrow> \<not> ok | Some k \<Rightarrow> ok \<and> same_node m k))"
proof -
  obtain t' where t': "foldo (run_change fs) cs t = Some t'" "keeps (n + length cs) fs t t'"
    "vmap (pageDirty t') = fold mark_page cs (vmap (pageDirty t))" "vmap (nodeDirty t') = fold mark_node cs (vmap (nodeDirty t))"
    using run_changes [OF assms(1-3)] assms(4) by blast
  have ok: "pending_ok (n + length cs) fs t'" "fixed t' = fixed t" using t'(2) by (simp_all add: keeps_def)
  then have src: "hasSource t'" using assms(4) by (simp add: fixed_def)
  have p: "fold mark_page cs m a = (case fold mark_page cs Map.empty a of Some p \<Rightarrow> Some p | None \<Rightarrow> m a)" for m cs
  proof (induction cs rule: rev_induct)
    case (snoc c cs) then show ?case by (cases c) auto
  qed simp
  have q: "fold mark_node cs m a = (case fold mark_node cs Map.empty a of Some p \<Rightarrow> Some p | None \<Rightarrow> m a)" for m cs
  proof (induction cs rule: rev_induct)
    case (snoc c cs) then show ?case by (cases c) auto
  qed simp
  have "page_of fs t' a = (case fold mark_page cs Map.empty a of Some p \<Rightarrow> Some p | None \<Rightarrow> page_of fs t a)"
    using p [of cs "vmap (pageDirty t)"] disk_fixed [OF ok(2), of fs] by (simp add: page_of_def t'(3) split: option.split)
  moreover have "node_of fs t' a = (case fold mark_node cs Map.empty a of Some k \<Rightarrow> Some k | None \<Rightarrow> node_of fs t a)"
    using q [of cs "vmap (nodeDirty t)"] disk_fixed [OF ok(2), of fs] by (simp add: node_of_def t'(4) split: option.split)
  ultimately show ?thesis
    using t'(1) ok(1) readPage_page [OF ok(1) assms(5)] readNode_node [OF ok(1) assms(5), of m0] src by fastforce
qed

theorem changes_visible_witness:
  "\<exists>t' ok m t2. foldo (run_change Map.empty) [CNode 68 zero_node, CPage 1493 (makeSPage 4 2 1000 8), CNode 68 (zero_node\<lparr>childCount := 1\<rparr>), CRoot 68]
       ((initTable [116] ORDERING_ULONG)\<lparr>hasSource := True, isNew := False\<rparr>) = Some t' \<and>
     readNode Map.empty 68 zero_node t' = Some ((ok, m), t2) \<and> ok \<and> childCount m = 1"
proof -
  have "\<forall>c \<in> set [CNode 68 zero_node, CPage 1493 (makeSPage 4 2 1000 8), CNode 68 (zero_node\<lparr>childCount := 1\<rparr>), CRoot 68]. change_ok c"
    by (simp add: page_arrays_def makeSPage_def)
  from changes_visible [OF init_pending(1) [where n = 0 and fs = Map.empty and name = "[116]" and ty = ORDERING_ULONG and b = True and c = False] this, of 68 zero_node] show ?thesis
    by (auto simp: same_node_def)
qed

text \<open>C6: A failed statement leaves no trace. Whatever pages, nodes and deletions it marked, in whatever order and however
  often, whatever it allocated and wherever it moved the root, rolling it back restores exactly the pending pages,
  nodes and deletions of the statements before it and every header field; the cache is again consistent with the file,
  and nothing is set aside any more.\<close>

theorem statement_rollback:
  assumes "pending_ok n fs t" "\<not> uactive (undo t)" "\<forall>c \<in> set cs. change_ok c" "2 * (n + length cs) < 2 ^ 28"
    and "hasSource t \<or> (\<forall>a m. CReadNode a m \<notin> set cs)"
  shows "\<exists>t1 t2. foldo (run_change fs) cs (beginStatement t) = Some t1 \<and> rollbackStatement t1 = Some t2 \<and>
     pending_ok (2 * (n + length cs)) fs t2 \<and> \<not> uactive (undo t2) \<and> fixed t2 = fixed t \<and>
     at_map (pageDirty t2) = at_map (pageDirty t) \<and> at_map (nodeDirty t2) = at_map (nodeDirty t) \<and> at_map (delete t2) = at_map (delete t) \<and>
     pageFree t2 = pageFree t \<and> nodeFree t2 = nodeFree t \<and> root t2 = root t \<and> pageStripes t2 = pageStripes t \<and> nodeStripes t2 = nodeStripes t"
proof -
  let ?t0 = "beginStatement t"
  note q = pending_okD [OF assms(1)]
  have b: "pageDirty ?t0 = pageDirty t" "nodeDirty ?t0 = nodeDirty t" "delete ?t0 = delete t" "fixed ?t0 = fixed t" "nodeCache ?t0 = nodeCache t"
    "hasSource ?t0 = hasSource t" "layout_ok ?t0 = layout_ok t"
    using assms(2) by (simp_all add: beginStatement_def fixed_def layout_ok_def)
  have e: "at_map (upages (undo t)) = Map.empty" "at_map (unodes (undo t)) = Map.empty" "at_map (udeletes (undo t)) = Map.empty"
    using assms(1,2) by (simp_all add: pending_ok_def)
  have "pending_ok n fs ?t0"
    using assms(1,2) cache_fits_fixed [OF q(10) b(4,5)] b(1-3,7) by (simp add: pending_ok_def) (simp add: beginStatement_def)
  moreover have "undoes t ?t0"
    using assms(2) b(1-4) e by (simp add: undoes_def) (simp add: beginStatement_def undo_ok_def vmap_def)
  ultimately obtain t1 where t1: "foldo (run_change fs) cs ?t0 = Some t1" "pending_ok (n + length cs) fs t1" "undoes t t1"
    using run_changes [of n fs ?t0 cs] assms(3-5) b(6) by (auto simp: keeps_def)
  have "copyPage p = p" if "vmap (pageDirty t) a = Some p" for a p using assms(1) that by (simp add: pending_ok_def)
  moreover have "x = None" if "at_map (delete t) a = Some x" for a x using assms(1) that by (simp add: pending_ok_def)
  ultimately obtain t2 where "rollbackStatement t1 = Some t2" "pending_ok (2 * (n + length cs)) fs t2" "\<not> uactive (undo t2)" "fixed t2 = fixed t"
     "at_map (pageDirty t2) = at_map (pageDirty t)" "at_map (nodeDirty t2) = at_map (nodeDirty t)" "at_map (delete t2) = at_map (delete t)"
     "pageFree t2 = pageFree t" "nodeFree t2 = nodeFree t" "root t2 = root t" "pageStripes t2 = pageStripes t" "nodeStripes t2 = nodeStripes t"
    using rollback_undoes [OF t1(2,3) assms(4) q(10) _ q(8,9)] by blast
  with t1(1) show ?thesis by blast
qed

theorem statement_rollback_witness:
  "\<exists>t1 t2. foldo (run_change Map.empty) [CAllocNode, CNode 68 zero_node, CDelete 4096, CRoot 68, CNode 68 (zero_node\<lparr>isLeaf := True\<rparr>)]
       (beginStatement ((initTable [116] ORDERING_STRING)\<lparr>hasSource := False, isNew := True\<rparr>)) = Some t1 \<and>
     rollbackStatement t1 = Some t2 \<and> at_map (nodeDirty t2) = Map.empty \<and> at_map (delete t2) = Map.empty \<and> root t2 = 0"
proof -
  let ?t = "(initTable [116] ORDERING_STRING)\<lparr>hasSource := False, isNew := True\<rparr>"
  have e: "nodeDirty ?t = initAddrTable" "delete ?t = initAddrTable" "root ?t = 0" by (simp_all add: initTable_def initDirtyHashmaps_def Let_def)
  have "\<forall>c \<in> set [CAllocNode, CNode 68 zero_node, CDelete 4096, CRoot 68, CNode 68 (zero_node\<lparr>isLeaf := True\<rparr>)]. change_ok c" by simp
  from statement_rollback [OF init_pending(1) [where n = 0 and fs = Map.empty and name = "[116]" and ty = ORDERING_STRING and b = False and c = True]
     init_pending(2) this] show ?thesis
    unfolding e init_map by auto
qed

end
