(* ===== verification/Commit.thy ===== *)
theory Commit
  imports Pending Recovery
begin

text \<open>
  Committing a transaction (\<open>commitTables\<close> of \<open>storage_engine/tableIO.c\<close>): every change is logged, the log is marked
  committed, the same changes are made to the files, and the log is reset. The result of each system call is an
  argument (\<open>commit_calls\<close>), the seeks included, whose failure the code ignores before it writes; \<open>exit(74)\<close> is the result
  \<open>Exited\<close>. \<open>None\<close> is undefined behaviour: a page that does not fit its image, a table whose file is not there.
\<close>

section \<open>Whole-file changes\<close>

record file_change =
  cname :: fname
  cbytes :: "byte list option"

definition GARBAGE_MARKER :: byte where "GARBAGE_MARKER = 2"

text \<open>Whether the name fits in a log entry.\<close>

definition tableFileName :: "table \<Rightarrow> bool" where
  "tableFileName t \<longleftrightarrow> length (tableFile t) < WAL_FILE_NAME_LEN"

section \<open>Creating and deleting files outside a transaction\<close>

definition createTable :: "bool \<Rightarrow> fname \<Rightarrow> ordering_type \<Rightarrow> files \<Rightarrow> table option \<times> files" where
  "createTable opened name ty fs =
     (if \<not> opened then (None, fs)
      else let t = (initTable name ty)\<lparr>hasSource := True\<rparr> in (Some t, fs(tableFile t \<mapsto> writeMeta t [])))"

definition deleteTable :: "bool \<Rightarrow> bool \<Rightarrow> table \<Rightarrow> files \<Rightarrow> bool \<times> files" where
  "deleteTable removed closed t fs =
     (if \<not> removed then (False, fs) else (closed, fs(tableFile t := None)))"

section \<open>Logging\<close>

text \<open>\<open>wrote i\<close> is what \<open>fwrite\<close> returns for the \<open>i\<close>-th entry of the transaction; the state is the number of the next
  entry and the log manager.\<close>

type_synonym logging = "nat \<times> wal_manager"

definition log_entry :: "(nat \<Rightarrow> nat) \<Rightarrow> wop \<Rightarrow> logging \<Rightarrow> bool \<times> logging" where
  "log_entry wrote op s =
     (let (name, ty, addr, bytes) = op; (i, m) = s;
          (ok, m1) = addLogEntry (wrote i) name ty addr bytes (of_nat (length bytes)) m
      in (ok, (Suc i, m1)))"

fun log_objects :: "(nat \<Rightarrow> nat) \<Rightarrow> ('v addr_entry \<Rightarrow> wop option) \<Rightarrow> 'v addr_entry list \<Rightarrow> logging \<Rightarrow> (bool \<times> logging) option" where
  "log_objects wrote entry_of [] s = Some (True, s)"
| "log_objects wrote entry_of (e # es) s =
     (if akey e = 0 then log_objects wrote entry_of es s
      else do {
        op \<leftarrow> entry_of e;
        let (ok, s1) = log_entry wrote op s;
        if \<not> ok then Some (False, s1) else log_objects wrote entry_of es s1
      })"

definition page_entry :: "table \<Rightarrow> slotted_page addr_entry \<Rightarrow> wop option" where
  "page_entry t e = do { p \<leftarrow> aval e; bytes \<leftarrow> serializePage p t; Some (tableFile t, WAL_PAGE, akey e, bytes) }"

definition node_entry :: "table \<Rightarrow> node addr_entry \<Rightarrow> wop option" where
  "node_entry t e = do { n \<leftarrow> aval e; Some (tableFile t, WAL_NODE, akey e, serializeNode n t) }"

definition delete_entry :: "table \<Rightarrow> unit addr_entry \<Rightarrow> wop option" where
  "delete_entry t e = Some (tableFile t, WAL_DELETE, akey e, [GARBAGE_MARKER])"

definition logTable :: "(nat \<Rightarrow> nat) \<Rightarrow> table \<Rightarrow> logging \<Rightarrow> (bool \<times> logging) option" where
  "logTable wrote t s =
     (if \<not> tableFileName t then Some (False, s)
      else do {
        let (ok, s) = (if isNew t then log_entry wrote (tableFile t, WAL_FILE_CREATE, 0, []) s else (True, s));
        if \<not> ok then Some (False, s) else do {
        (ok, s) \<leftarrow> log_objects wrote (page_entry t) (at_entries (pageDirty t)) s;
        if \<not> ok then Some (False, s) else do {
        (ok, s) \<leftarrow> log_objects wrote (node_entry t) (at_entries (nodeDirty t)) s;
        if \<not> ok then Some (False, s) else do {
        (ok, s) \<leftarrow> log_objects wrote (delete_entry t) (at_entries (delete t)) s;
        if \<not> ok then Some (False, s)
        else Some (log_entry wrote (tableFile t, WAL_META, 0, meta_bytes t) s) }}}})"

text \<open>The contents of a rewritten file in pieces, from \<open>off\<close> on.\<close>

function log_pieces :: "(nat \<Rightarrow> nat) \<Rightarrow> fname \<Rightarrow> byte list \<Rightarrow> nat \<Rightarrow> logging \<Rightarrow> bool \<times> logging" where
  "log_pieces wrote name bytes off s =
     (if off < length bytes
      then let n = (if length bytes - off < PAGE_SIZE then length bytes - off else PAGE_SIZE);
               (ok, s1) = log_entry wrote (name, WAL_FILE_DATA, of_nat off, take n (drop off bytes)) s
           in if \<not> ok then (False, s1) else log_pieces wrote name bytes (off + PAGE_SIZE) s1
      else (True, s))"
  by pat_completeness auto

termination
  by (relation "measure (\<lambda>(wrote, name, bytes, off, s). length bytes - off)") (auto simp: PAGE_SIZE_def)

declare log_pieces.simps [simp del]

definition logFileChange :: "(nat \<Rightarrow> nat) \<Rightarrow> file_change \<Rightarrow> logging \<Rightarrow> bool \<times> logging" where
  "logFileChange wrote c s =
     (case cbytes c of None \<Rightarrow> log_entry wrote (cname c, WAL_FILE_REMOVE, 0, []) s
      | Some bytes \<Rightarrow>
          let (ok, s1) = log_entry wrote (cname c, WAL_FILE_CREATE, 0, []) s
          in if \<not> ok then (False, s1) else log_pieces wrote (cname c) bytes 0 s1)"

section \<open>Making the changes\<close>

text \<open>\<open>seekOk i\<close> and \<open>writeOut i\<close> are how the \<open>i\<close>-th call went: the seek was done or failed; the write was done, or only so
  many bytes were written and the stream's error flag set. The state is the number of the next call and the position in
  the table's file, the error flag and the files.\<close>

record writing =
  seekOk :: "nat \<Rightarrow> bool"
  writeOut :: "nat \<Rightarrow> outcome"

type_synonym applying = "(nat \<times> nat) \<times> bool \<times> files"

text \<open>\<open>jump\<close>: a seek that fails, as one to an address that is no file offset does, is reported and leaves the position as it
  was; those who call it to write go on all the same.\<close>

definition seek_to :: "writing \<Rightarrow> address \<Rightarrow> applying \<Rightarrow> applying" where
  "seek_to w addr s =
     (let ((i, pos), err, fs) = s
      in ((Suc i, if seekOk w i \<and> unat addr < 2 ^ 63 then unat addr else pos), err, fs))"

definition write_out :: "writing \<Rightarrow> fname \<Rightarrow> byte list \<Rightarrow> applying \<Rightarrow> applying option" where
  "write_out w file bytes s =
     (let ((i, pos), err, fs) = s
      in case fs file of None \<Rightarrow> None
         | Some old \<Rightarrow>
             (case writeOut w i of None \<Rightarrow> Some ((Suc i, pos + length bytes), err, fs(file \<mapsto> write_at old pos bytes))
              | Some n \<Rightarrow> Some ((Suc i, pos + length (take n bytes)), True, fs(file \<mapsto> write_at old pos (take n bytes)))))"

definition writePage :: "writing \<Rightarrow> slotted_page \<Rightarrow> address \<Rightarrow> table \<Rightarrow> applying \<Rightarrow> applying option" where
  "writePage w p addr t s =
     (let s1 = seek_to w addr s in do { bytes \<leftarrow> serializePage p t; write_out w (tableFile t) bytes s1 })"

text \<open>\<open>writeNode\<close> also replaces a cached copy.\<close>

definition writeNode :: "writing \<Rightarrow> node \<Rightarrow> address \<Rightarrow> table \<Rightarrow> applying \<Rightarrow> (table \<times> applying) option" where
  "writeNode w n addr t s =
     (let s1 = seek_to w addr s
      in do {
        s2 \<leftarrow> write_out w (tableFile t) (serializeNode n t) s1;
        (b, c) \<leftarrow> nodeCacheUpdate (nodeCache t) addr n;
        Some (t\<lparr>nodeCache := c\<rparr>, s2)
      })"

definition deleteObject :: "writing \<Rightarrow> address \<Rightarrow> table \<Rightarrow> applying \<Rightarrow> (table \<times> applying) option" where
  "deleteObject w addr t s =
     (let s1 = seek_to w addr s
      in do {
        s2 \<leftarrow> write_out w (tableFile t) [GARBAGE_MARKER] s1;
        (b, c) \<leftarrow> nodeCacheRemove (nodeCache t) addr;
        Some (t\<lparr>nodeCache := c\<rparr>, s2)
      })"

text \<open>\<open>writeMeta\<close> on a table's open file.\<close>

definition write_meta :: "writing \<Rightarrow> table \<Rightarrow> applying \<Rightarrow> applying option" where
  "write_meta w t s = (let s1 = seek_to w 0 s in write_out w (tableFile t) (meta_bytes t) s1)"

fun apply_pages :: "writing \<Rightarrow> table \<Rightarrow> slotted_page addr_entry list \<Rightarrow> applying \<Rightarrow> applying option" where
  "apply_pages w t [] s = Some s"
| "apply_pages w t (e # es) s =
     (if akey e = 0 then apply_pages w t es s
      else do { p \<leftarrow> aval e; s1 \<leftarrow> writePage w p (akey e) t s; apply_pages w t es s1 })"

fun apply_nodes :: "writing \<Rightarrow> node addr_entry list \<Rightarrow> table \<times> applying \<Rightarrow> (table \<times> applying) option" where
  "apply_nodes w [] (t, s) = Some (t, s)"
| "apply_nodes w (e # es) (t, s) =
     (if akey e = 0 then apply_nodes w es (t, s)
      else do { n \<leftarrow> aval e; (t1, s1) \<leftarrow> writeNode w n (akey e) t (seek_to w (akey e) s); apply_nodes w es (t1, s1) })"

fun apply_deletes :: "writing \<Rightarrow> unit addr_entry list \<Rightarrow> table \<times> applying \<Rightarrow> (table \<times> applying) option" where
  "apply_deletes w [] (t, s) = Some (t, s)"
| "apply_deletes w (e # es) (t, s) =
     (if akey e = 0 then apply_deletes w es (t, s)
      else do { (t1, s1) \<leftarrow> deleteObject w (akey e) t s; apply_deletes w es (t1, s1) })"

text \<open>\<open>fopen\<close> in mode \<open>"wb+"\<close> for a new table, at position 0; it may have emptied the file and still fail.\<close>

definition open_new :: "writing \<Rightarrow> fname \<Rightarrow> applying \<Rightarrow> bool \<times> applying" where
  "open_new w file s =
     (let ((i, pos), err, fs) = s
      in case writeOut w i of None \<Rightarrow> (True, ((Suc i, 0), err, fs(file \<mapsto> [])))
         | Some n \<Rightarrow> (False, ((Suc i, pos), err, if n = 0 then fs else fs(file \<mapsto> []))))"

text \<open>\<open>pos\<close> is where the table's file is read or written next, when it is open.\<close>

definition applyTable :: "writing \<Rightarrow> nat \<Rightarrow> bool \<Rightarrow> table \<Rightarrow> nat \<times> files \<Rightarrow> (bool \<times> table \<times> nat \<times> files) option" where
  "applyTable w pos synced t s =
     (let (i, fs) = s;
          (opened, (at, err, fs)) =
            (if isNew t then open_new w (tableFile t) ((i, pos), False, fs) else (True, ((i, pos), False, fs)))
      in if \<not> opened then Some (False, t, fst at, fs)
         else do {
           let t = (if isNew t then t\<lparr>hasSource := True, isNew := False\<rparr> else t);
           s \<leftarrow> apply_pages w t (at_entries (pageDirty t)) (at, False, fs);
           (t, s) \<leftarrow> apply_nodes w (at_entries (nodeDirty t)) (t\<lparr>pageDirty := drain (pageDirty t)\<rparr>, s);
           (t, s) \<leftarrow> apply_deletes w (at_entries (delete t)) (t\<lparr>nodeDirty := drain (nodeDirty t)\<rparr>, s);
           let t = t\<lparr>delete := drain (delete t)\<rparr>;
           (at, err, fs) \<leftarrow> write_meta w t s;
           Some (synced \<and> \<not> err, t, fst at, fs)
         })"

text \<open>The outcome \<open>Some 0\<close>: the file could not be opened or removed; \<open>Some (Suc n)\<close>: only \<open>n\<close> bytes were written.\<close>

definition applyFileChange :: "outcome \<Rightarrow> bool \<Rightarrow> file_change \<Rightarrow> files \<Rightarrow> bool \<times> files" where
  "applyFileChange out synced c fs =
     (case cbytes c of
        None \<Rightarrow> (case out of None \<Rightarrow> (True, fs(cname c := None)) | Some n \<Rightarrow> (False, fs))
      | Some bytes \<Rightarrow>
          (case out of None \<Rightarrow> (synced, fs(cname c \<mapsto> bytes))
           | Some 0 \<Rightarrow> (False, fs)
           | Some (Suc n) \<Rightarrow> (False, fs(cname c \<mapsto> take n bytes))))"

section \<open>The commit\<close>

record commit_calls =
  startCalls :: start_calls
  entryWrote :: "nat \<Rightarrow> nat"
  entriesSynced :: bool
  markerWrote :: nat
  markerSynced :: bool
  tableWrites :: writing
  tablePos :: "nat \<Rightarrow> nat"
  tableSynced :: "nat \<Rightarrow> bool"
  changeOuts :: "nat \<Rightarrow> outcome"
  changeSynced :: "nat \<Rightarrow> bool"
  dirSynced :: bool
  resetOpened :: bool
  resetSynced :: bool

datatype commit_result = Committed | Aborted | Exited

fun log_tables :: "(nat \<Rightarrow> nat) \<Rightarrow> table list \<Rightarrow> logging \<Rightarrow> (bool \<times> logging) option" where
  "log_tables wrote [] s = Some (True, s)"
| "log_tables wrote (t # ts) s =
     (if isDirty t
      then do { (ok, s1) \<leftarrow> logTable wrote t s; if \<not> ok then Some (False, s1) else log_tables wrote ts s1 }
      else log_tables wrote ts s)"

fun log_changes :: "(nat \<Rightarrow> nat) \<Rightarrow> file_change list \<Rightarrow> logging \<Rightarrow> bool \<times> logging" where
  "log_changes wrote [] s = (True, s)"
| "log_changes wrote (c # cs) s =
     (let (ok, s1) = logFileChange wrote c s in if \<not> ok then (False, s1) else log_changes wrote cs s1)"

text \<open>\<open>k\<close> is the index of the table or change at hand.\<close>

fun apply_tables :: "writing \<Rightarrow> (nat \<Rightarrow> nat) \<Rightarrow> (nat \<Rightarrow> bool) \<Rightarrow> nat \<Rightarrow> table list \<Rightarrow> nat \<times> files \<Rightarrow> (bool \<times> table list \<times> nat \<times> files) option" where
  "apply_tables w pos synced k [] s = Some (True, [], s)"
| "apply_tables w pos synced k (t # ts) s =
     (if isDirty t
      then do {
        (ok, t1, s1) \<leftarrow> applyTable w (pos k) (synced k) t s;
        if \<not> ok then Some (False, t1 # ts, s1)
        else do { (ok, ts1, s2) \<leftarrow> apply_tables w pos synced (Suc k) ts s1; Some (ok, t1 # ts1, s2) }
      }
      else do { (ok, ts1, s1) \<leftarrow> apply_tables w pos synced (Suc k) ts s; Some (ok, t # ts1, s1) })"

fun apply_changes :: "(nat \<Rightarrow> outcome) \<Rightarrow> (nat \<Rightarrow> bool) \<Rightarrow> nat \<Rightarrow> file_change list \<Rightarrow> files \<Rightarrow> bool \<times> files" where
  "apply_changes outs synced k [] fs = (True, fs)"
| "apply_changes outs synced k (c # cs) fs =
     (let (ok, fs1) = applyFileChange (outs k) (synced k) c fs
      in if \<not> ok then (False, fs1) else apply_changes outs synced (Suc k) cs fs1)"

definition commitTables :: "commit_calls \<Rightarrow> table list \<Rightarrow> file_change list \<Rightarrow> wal_manager \<Rightarrow> files \<Rightarrow>
    (commit_result \<times> table list \<times> wal_manager \<times> files) option" where
  "commitTables x ts cs m fs =
     (let anyChange = (cs \<noteq> [] \<or> list_ex isDirty ts); changesFiles = (cs \<noteq> [] \<or> list_ex isNew ts)
      in if \<not> anyChange then Some (Committed, ts, m, fs)
         else let (started, m) = initManager (startCalls x) m
         in if \<not> started then Some (Aborted, map discard ts, m, fs)
            else do {
              (logged, s) \<leftarrow> log_tables (entryWrote x) ts (0, m);
              let (logged, s) = (if logged then log_changes (entryWrote x) cs s else (False, s));
              let (logged, m) = (if logged then markLogCommitted (entriesSynced x) (markerWrote x) (markerSynced x) (snd s) else (False, snd s));
              if \<not> logged
              then let (reset, m) = resetLog (resetOpened x) (resetSynced x) m
                   in Some (if reset then Aborted else Exited, map discard ts, m, fs)
              else do {
                (applied, ts, (i, fs)) \<leftarrow> apply_tables (tableWrites x) (tablePos x) (tableSynced x) 0 ts (0, fs);
                if \<not> applied then Some (Exited, ts, m, fs)
                else let (applied, fs) = apply_changes (changeOuts x) (changeSynced x) 0 cs fs
                in if \<not> applied then Some (Exited, ts, m, fs)
                   else if changesFiles \<and> \<not> dirSynced x then Some (Exited, ts, m, fs)
                   else let (reset, m) = resetLog (resetOpened x) (resetSynced x) m
                        in Some (if reset then Committed else Exited, ts, m, fs)
              }
            })"

definition commit :: "commit_calls \<Rightarrow> table \<Rightarrow> wal_manager \<Rightarrow> files \<Rightarrow> (commit_result \<times> table list \<times> wal_manager \<times> files) option" where
  "commit x t m fs = commitTables x [t] [] m fs"

end
