(* ===== verification/CommitSpec.thy ===== *)
theory CommitSpec
  imports Commit
begin

text \<open>
  What a commit promises. Its changes as operations of the log (\<open>commit_ops\<close>); logging writes exactly these; making
  them leaves, however the calls go but for the seeks, files that the log can finish; and so the state after the next recovery
  is either the one before the transaction or the one after it.
\<close>

section \<open>The operations of a transaction\<close>

definition live :: "'v addr_table \<Rightarrow> 'v addr_entry list" where
  "live at = filter (\<lambda>e. akey e \<noteq> 0) (at_entries at)"

definition create_ops :: "table \<Rightarrow> wop list" where
  "create_ops t = (if isNew t then [(tableFile t, WAL_FILE_CREATE, 0, [])] else [])"

definition object_ops :: "table \<Rightarrow> wop list" where
  "object_ops t = map (\<lambda>e. the (page_entry t e)) (live (pageDirty t)) @ map (\<lambda>e. the (node_entry t e)) (live (nodeDirty t)) @
     map (\<lambda>e. the (delete_entry t e)) (live (delete t)) @ [(tableFile t, WAL_META, 0, meta_bytes t)]"

definition table_ops :: "table \<Rightarrow> wop list" where
  "table_ops t = create_ops t @ object_ops t"

function pieces :: "fname \<Rightarrow> byte list \<Rightarrow> nat \<Rightarrow> wop list" where
  "pieces name bytes off =
     (if off < length bytes then (name, WAL_FILE_DATA, of_nat off, take PAGE_SIZE (drop off bytes)) # pieces name bytes (off + PAGE_SIZE)
      else [])"
  by pat_completeness auto

termination
  by (relation "measure (\<lambda>(name, bytes, off). length bytes - off)") (auto simp: PAGE_SIZE_def)

declare pieces.simps [simp del]

definition change_ops :: "file_change \<Rightarrow> wop list" where
  "change_ops c = (case cbytes c of None \<Rightarrow> [(cname c, WAL_FILE_REMOVE, 0, [])]
     | Some bytes \<Rightarrow> (cname c, WAL_FILE_CREATE, 0, []) # pieces (cname c) bytes 0)"

definition commit_ops :: "table list \<Rightarrow> file_change list \<Rightarrow> wop list" where
  "commit_ops ts cs = concat (map table_ops (filter isDirty ts)) @ concat (map change_ops cs)"

section \<open>Logging\<close>

text \<open>The result \<open>r\<close> of logging in the state \<open>s\<close> is that of adding the entries \<open>ops\<close>.\<close>

definition logs :: "(nat \<Rightarrow> nat) \<Rightarrow> wop list \<Rightarrow> logging \<Rightarrow> (bool \<times> logging) option \<Rightarrow> bool" where
  "logs wrote ops s r \<longleftrightarrow> (\<exists>ok i m. r = Some (ok, (i, m)) \<and> add_all wrote (fst s) ops (snd s) = (ok, m) \<and> (ok \<longrightarrow> i = fst s + length ops))"

lemma add_all_append:
  "add_all wrote i (xs @ ys) m = (let (ok, m1) = add_all wrote i xs m in if ok then add_all wrote (i + length xs) ys m1 else (False, m1))"
  by (induction xs arbitrary: i m) (auto simp: Let_def split: prod.splits)

lemma logs_Nil: "logs wrote [] s (Some (True, s))"
  unfolding logs_def by (intro exI [of _ True] exI [of _ "fst s"] exI [of _ "snd s"]) simp

lemma logs_entry: "logs wrote [op] s (Some (log_entry wrote op s))"
  by (cases op; cases s) (auto simp: logs_def log_entry_def split: prod.splits)

lemma logs_then:
  assumes "logs wrote xs s r" "\<And>s1. logs wrote ys s1 (k s1)"
  shows "logs wrote (xs @ ys) s (do { (ok, s1) \<leftarrow> r; if \<not> ok then Some (False, s1) else k s1 })"
proof -
  obtain ok i m where r: "r = Some (ok, (i, m))" "add_all wrote (fst s) xs (snd s) = (ok, m)" "ok \<longrightarrow> i = fst s + length xs"
    using assms(1) by (auto simp: logs_def)
  show ?thesis
  proof (cases ok)
    case False
    with r show ?thesis unfolding logs_def by (intro exI [of _ False] exI [of _ i] exI [of _ m]) (simp add: add_all_append)
  next
    case True
    then show ?thesis using r assms(2) [of "(i, m)"] by (auto simp: logs_def add_all_append add.assoc)
  qed
qed

lemma logs_let:
  assumes "logs wrote xs s (Some r)" "\<And>s1. logs wrote ys s1 (k s1)"
  shows "logs wrote (xs @ ys) s (let (ok, s1) = r in if \<not> ok then Some (False, s1) else k s1)"
  using logs_then [OF assms] by (simp add: Let_def split: prod.split)

lemma logs_entry_then:
  assumes "\<And>s1. logs wrote ys s1 (k s1)"
  shows "logs wrote (op # ys) s (let (ok, s1) = log_entry wrote op s in if \<not> ok then Some (False, s1) else k s1)"
  using logs_let [OF logs_entry assms, of op s] by simp

lemma log_objects_logs:
  assumes "\<forall>e \<in> set es. akey e \<noteq> 0 \<longrightarrow> entry_of e \<noteq> None"
  shows "logs wrote (map (\<lambda>e. the (entry_of e)) (filter (\<lambda>e. akey e \<noteq> 0) es)) s (log_objects wrote entry_of es s)"
  using assms
proof (induction es arbitrary: s)
  case Nil
  show ?case using logs_Nil [of wrote s] by simp
next
  case (Cons e es)
  show ?case
  proof (cases "akey e = 0")
    case True
    with Cons show ?thesis by simp
  next
    case False
    then obtain op where "entry_of e = Some op" using Cons.prems by auto
    with False Cons.prems show ?thesis using logs_entry_then [OF Cons.IH] by simp
  qed
qed

text \<open>A table that the code can commit: pages and nodes as the tree makes them, at offsets of a file, and names and
  objects that fit in log entries.\<close>

definition committable :: "table \<Rightarrow> bool" where
  "committable t \<longleftrightarrow> 0 \<notin> set (tname t) \<and> tableFileName t \<and> pageSize t \<le> int WAL_PAYLOAD_LEN \<and> nodeSize t \<le> int WAL_PAYLOAD_LEN \<and>
     (\<forall>e \<in> set (live (pageDirty t)). unat (akey e) < 2 ^ 63 \<and> (\<exists>p. aval e = Some p \<and> storable t p)) \<and>
     (\<forall>e \<in> set (live (nodeDirty t)). unat (akey e) < 2 ^ 63 \<and> (\<exists>n. aval e = Some n \<and> storable_node t n)) \<and>
     (\<forall>e \<in> set (live (delete t)). unat (akey e) < 2 ^ 63) \<and> wf_cache (nodeCache t)"

lemma page_entry_image: "aval e = Some p \<Longrightarrow> storable t p \<Longrightarrow> page_entry t e = Some (tableFile t, WAL_PAGE, akey e, page_image t p)"
  by (simp add: page_entry_def serializePage_image)

lemma node_entry_image: "aval e = Some n \<Longrightarrow> storable_node t n \<Longrightarrow> node_entry t e = Some (tableFile t, WAL_NODE, akey e, node_image t n)"
  by (simp add: node_entry_def serializeNode_image)

lemma committable_entries:
  assumes "committable t"
  shows "e \<in> set (at_entries (pageDirty t)) \<Longrightarrow> akey e \<noteq> 0 \<Longrightarrow> unat (akey e) < 2 ^ 63 \<and> page_entry t e \<noteq> None"
    "n \<in> set (at_entries (nodeDirty t)) \<Longrightarrow> akey n \<noteq> 0 \<Longrightarrow> unat (akey n) < 2 ^ 63 \<and> aval n \<noteq> None"
    "d \<in> set (at_entries (delete t)) \<Longrightarrow> akey d \<noteq> 0 \<Longrightarrow> unat (akey d) < 2 ^ 63"
proof -
  assume "e \<in> set (at_entries (pageDirty t))" "akey e \<noteq> 0"
  then have "e \<in> set (live (pageDirty t))" by (simp add: live_def)
  then obtain p where "unat (akey e) < 2 ^ 63" "aval e = Some p" "storable t p" using assms unfolding committable_def by blast
  then show "unat (akey e) < 2 ^ 63 \<and> page_entry t e \<noteq> None" by (simp add: page_entry_image)
next
  assume "n \<in> set (at_entries (nodeDirty t))" "akey n \<noteq> 0"
  then have "n \<in> set (live (nodeDirty t))" by (simp add: live_def)
  then obtain m where "unat (akey n) < 2 ^ 63" "aval n = Some m" using assms unfolding committable_def by blast
  then show "unat (akey n) < 2 ^ 63 \<and> aval n \<noteq> None" by simp
next
  assume "d \<in> set (at_entries (delete t))" "akey d \<noteq> 0"
  then have "d \<in> set (live (delete t))" by (simp add: live_def)
  then show "unat (akey d) < 2 ^ 63" using assms unfolding committable_def by blast
qed

lemma logTable_logs:
  assumes "committable t"
  shows "logs wrote (table_ops t) s (logTable wrote t s)"
proof -
  have ok: "tableFileName t" "\<forall>e \<in> set (at_entries (pageDirty t)). akey e \<noteq> 0 \<longrightarrow> page_entry t e \<noteq> None"
    "\<forall>e \<in> set (at_entries (nodeDirty t)). akey e \<noteq> 0 \<longrightarrow> node_entry t e \<noteq> None"
    "\<forall>e \<in> set (at_entries (delete t)). akey e \<noteq> 0 \<longrightarrow> delete_entry t e \<noteq> None"
    using assms page_entry_image by (auto simp: committable_def live_def node_entry_def delete_entry_def)
  have "logs wrote (create_ops t) s (Some (if isNew t then log_entry wrote (tableFile t, WAL_FILE_CREATE, 0, []) s else (True, s)))" for s
    using logs_entry logs_Nil by (simp add: create_ops_def)
  then have "logs wrote (create_ops t @ object_ops t) s (logTable wrote t s)"
    unfolding logTable_def object_ops_def live_def
    by (simp only: ok(1) simp_thms if_False) (intro logs_let logs_then log_objects_logs ok logs_entry)
  then show ?thesis by (simp add: table_ops_def)
qed

lemma logs_pure_let:
  assumes "logs wrote xs s (Some r)" "\<And>s1. logs wrote ys s1 (Some (k s1))"
  shows "logs wrote (xs @ ys) s (Some (let (ok, s1) = r in if \<not> ok then (False, s1) else k s1))"
  using logs_let [OF assms] by (cases r) (simp add: Let_def split: if_splits)

lemma log_pieces_logs: "logs wrote (pieces name bytes off) s (Some (log_pieces wrote name bytes off s))"
proof (induction name bytes off arbitrary: s rule: pieces.induct)
  case (1 name bytes off)
  show ?case
  proof (cases "off < length bytes")
    case False
    then show ?thesis using logs_Nil by (simp add: pieces.simps [of name bytes off] log_pieces.simps [of wrote name bytes off])
  next
    case True
    let ?n = "if length bytes - off < PAGE_SIZE then length bytes - off else PAGE_SIZE"
    have n: "take ?n (drop off bytes) = take PAGE_SIZE (drop off bytes)" by simp
    show ?thesis
      unfolding pieces.simps [of name bytes off] log_pieces.simps [of wrote name bytes off] Let_def n
      using True logs_pure_let [OF logs_entry 1 [OF True], of "(name, WAL_FILE_DATA, of_nat off, take PAGE_SIZE (drop off bytes))" s]
      by (simp add: Let_def)
  qed
qed

lemma logFileChange_logs: "logs wrote (change_ops c) s (Some (logFileChange wrote c s))"
proof (cases "cbytes c")
  case None
  then show ?thesis using logs_entry by (simp add: logFileChange_def change_ops_def)
next
  case (Some bytes)
  then show ?thesis
    using logs_pure_let [OF logs_entry [of wrote "(cname c, WAL_FILE_CREATE, 0, [])" s] log_pieces_logs [of wrote "cname c" bytes 0]]
    by (simp add: logFileChange_def change_ops_def)
qed

lemma log_changes_logs: "logs wrote (concat (map change_ops cs)) s (Some (log_changes wrote cs s))"
proof (induction cs arbitrary: s)
  case Nil
  then show ?case using logs_Nil by simp
next
  case (Cons c cs)
  then show ?case using logs_pure_let [OF logFileChange_logs Cons, of c s] by simp
qed

lemma log_tables_logs:
  assumes "\<forall>t \<in> set ts. isDirty t \<longrightarrow> committable t"
  shows "logs wrote (concat (map table_ops (filter isDirty ts))) s (log_tables wrote ts s)"
  using assms
proof (induction ts arbitrary: s)
  case Nil
  then show ?case using logs_Nil by simp
next
  case (Cons t ts)
  show ?case
  proof (cases "isDirty t")
    case True
    have "logs wrote (concat (map table_ops (filter isDirty ts))) s1 (log_tables wrote ts s1)" for s1 using Cons by simp
    from logs_then [OF logTable_logs this, of t s] True Cons.prems show ?thesis by simp
  qed (use Cons in simp)
qed

text \<open>Logging a whole transaction is logging its operations.\<close>

lemma commit_logging:
  assumes "\<forall>t \<in> set ts. isDirty t \<longrightarrow> committable t"
  shows "\<exists>ok s. (do { (logged, s) \<leftarrow> log_tables wrote ts (0, m);
              Some (if logged then log_changes wrote cs s else (False, s)) }) = Some (ok, s) \<and>
     add_all wrote 0 (commit_ops ts cs) m = (ok, snd s)"
proof -
  have "logs wrote (commit_ops ts cs) (0, m) (do { (ok, s1) \<leftarrow> log_tables wrote ts (0, m); if \<not> ok then Some (False, s1) else Some (log_changes wrote cs s1) })"
    unfolding commit_ops_def by (rule logs_then [OF log_tables_logs [OF assms] log_changes_logs])
  moreover have "(if \<not> ok then Some (False, s1) else Some (log_changes wrote cs s1)) = Some (if ok then log_changes wrote cs s1 else (False, s1))" for ok s1
    by simp
  ultimately show ?thesis by (auto simp: logs_def)
qed

section \<open>Making the changes\<close>

lemma ops_apply_append: "ops_apply (xs @ ys) fs = (case ops_apply xs fs of None \<Rightarrow> None | Some g \<Rightarrow> ops_apply ys g)"
  by (induction xs arbitrary: fs) (auto split: option.splits)

text \<open>From the state \<open>s\<close> the result \<open>r\<close> makes the operations as far as the calls succeed: other files are left alone, and if no
  seek fails then every state on the way is one that the log can finish, and without an error all operations are made.\<close>

definition seeks :: "writing \<Rightarrow> bool" where
  "seeks w \<longleftrightarrow> (\<forall>i. seekOk w i)"

definition applies :: "writing \<Rightarrow> wop list \<Rightarrow> applying \<Rightarrow> applying option \<Rightarrow> bool" where
  "applies w ops s r \<longleftrightarrow> (\<exists>i err fs. r = Some (i, err, fs) \<and>
     (seeks w \<longrightarrow> (\<forall>all fs0. set ops \<subseteq> set all \<longrightarrow> interrupted_by all fs0 (snd (snd s)) \<longrightarrow> interrupted_by all fs0 fs) \<and>
        (\<not> err \<longrightarrow> ops_apply ops (snd (snd s)) = Some fs)) \<and>
     (\<not> err \<longrightarrow> \<not> fst (snd s)) \<and> (writeOut w = (\<lambda>_. None) \<longrightarrow> \<not> fst (snd s) \<longrightarrow> \<not> err) \<and>
     (\<forall>n. n \<notin> fst ` set ops \<longrightarrow> fs n = snd (snd s) n) \<and> (\<forall>n. snd (snd s) n \<noteq> None \<longrightarrow> fs n \<noteq> None))"

lemma applies_Some:
  "applies w ops s (Some (i, err, fs)) \<longleftrightarrow>
     (seeks w \<longrightarrow> (\<forall>all fs0. set ops \<subseteq> set all \<longrightarrow> interrupted_by all fs0 (snd (snd s)) \<longrightarrow> interrupted_by all fs0 fs) \<and>
        (\<not> err \<longrightarrow> ops_apply ops (snd (snd s)) = Some fs)) \<and>
     (\<not> err \<longrightarrow> \<not> fst (snd s)) \<and> (writeOut w = (\<lambda>_. None) \<longrightarrow> \<not> fst (snd s) \<longrightarrow> \<not> err) \<and>
     (\<forall>n. n \<notin> fst ` set ops \<longrightarrow> fs n = snd (snd s) n) \<and> (\<forall>n. snd (snd s) n \<noteq> None \<longrightarrow> fs n \<noteq> None)"
  unfolding applies_def by blast

lemma applies_Nil: "applies w [] s (Some s)"
  by (cases s) (simp add: applies_def)

lemma seek_to_state [simp]: "snd (seek_to w a s) = snd s"
  by (simp add: seek_to_def Let_def split: prod.splits)

lemma applies_seek: "applies w ops (seek_to w a s) r = applies w ops s r"
  by (simp add: applies_def)

lemma applies_write:
  assumes "is_write ty" "unat addr < 2 ^ 63" "snd (snd s) file \<noteq> None"
  shows "applies w [(file, ty, addr, bytes)] s (write_out w file bytes (seek_to w addr s))"
proof -
  obtain i pos err fs where s: "s = ((i, pos), err, fs)" by (metis prod.collapse)
  obtain old where old: "fs file = Some old" using assms(3) s by auto
  have made: "op_apply (file, ty, addr, bytes) fs = Some (fs(file \<mapsto> write_at old (unat addr) bytes))"
    using assms(1,2) old by (cases ty) (simp_all add: op_apply_def is_write_def)
  define at where "at = (if seekOk w i \<and> unat addr < 2 ^ 63 then unat addr else pos)"
  have st: "seek_to w addr s = ((Suc i, at), err, fs)" by (simp add: s seek_to_def at_def)
  have pos: "at = unat addr" if "seeks w" using that assms(2) by (simp add: seeks_def at_def)
  show ?thesis
  proof (cases "writeOut w (Suc i)")
    case None
    have "interrupted_by all fs0 (fs(file \<mapsto> write_at old (unat addr) bytes))"
      if "(file, ty, addr, bytes) \<in> set all" "interrupted_by all fs0 fs" for all fs0
      by (rule interrupted_by.made [OF that(2,1) made])
    moreover have "write_out w file bytes (seek_to w addr s) = Some ((Suc (Suc i), at + length bytes), err, fs(file \<mapsto> write_at old at bytes))"
      using None old by (simp add: write_out_def st)
    ultimately show ?thesis using made pos by (simp add: applies_Some s)
  next
    case (Some n)
    have "interrupted_by all fs0 (fs(file \<mapsto> write_at old (unat addr) (take n bytes)))"
      if "(file, ty, addr, bytes) \<in> set all" "interrupted_by all fs0 fs" for all fs0
      by (rule interrupted_by.damaged [OF that(2,1) assms(1) old]) simp
    moreover have "write_out w file bytes (seek_to w addr s)
        = Some ((Suc (Suc i), at + length (take n bytes)), True, fs(file \<mapsto> write_at old at (take n bytes)))"
      using Some old by (simp add: write_out_def st)
    ultimately show ?thesis using old pos Some by (auto simp: applies_Some s)
  qed
qed

lemma applies_trans:
  assumes "applies w xs s (Some s1)" "applies w ys s1 r"
  shows "applies w (xs @ ys) s r"
proof -
  obtain i err fs where s1: "s1 = (i, err, fs)" by (cases s1)
  have r: "\<And>all fs0. seeks w \<Longrightarrow> set xs \<subseteq> set all \<Longrightarrow> interrupted_by all fs0 (snd (snd s)) \<Longrightarrow> interrupted_by all fs0 fs"
    "seeks w \<Longrightarrow> \<not> err \<Longrightarrow> ops_apply xs (snd (snd s)) = Some fs" "\<not> err \<Longrightarrow> \<not> fst (snd s)"
    "writeOut w = (\<lambda>_. None) \<Longrightarrow> \<not> fst (snd s) \<Longrightarrow> \<not> err"
    "\<And>n. n \<notin> fst ` set xs \<Longrightarrow> fs n = snd (snd s) n" "\<And>n. snd (snd s) n \<noteq> None \<Longrightarrow> fs n \<noteq> None"
    using assms(1) by (auto simp: applies_def s1)
  obtain i2 err2 fs2 where k: "r = Some (i2, err2, fs2)"
    "\<And>all fs0. seeks w \<Longrightarrow> set ys \<subseteq> set all \<Longrightarrow> interrupted_by all fs0 fs \<Longrightarrow> interrupted_by all fs0 fs2"
    "seeks w \<Longrightarrow> \<not> err2 \<Longrightarrow> ops_apply ys fs = Some fs2" "\<not> err2 \<Longrightarrow> \<not> err" "writeOut w = (\<lambda>_. None) \<Longrightarrow> \<not> err \<Longrightarrow> \<not> err2"
    "\<And>n. n \<notin> fst ` set ys \<Longrightarrow> fs2 n = fs n" "\<And>n. fs n \<noteq> None \<Longrightarrow> fs2 n \<noteq> None"
    using assms(2) by (auto simp: applies_def s1)
  have "interrupted_by all fs0 fs2" if "seeks w" "set (xs @ ys) \<subseteq> set all" "interrupted_by all fs0 (snd (snd s))" for all fs0
    using that r(1) k(2) by simp
  moreover have "ops_apply (xs @ ys) (snd (snd s)) = Some fs2" if "seeks w" "\<not> err2"
    using r(2) k(3,4) that by (simp add: ops_apply_append)
  moreover have "\<not> fst (snd s)" if "\<not> err2" using r(3) k(4) that by simp
  moreover have "\<not> err2" if "writeOut w = (\<lambda>_. None)" "\<not> fst (snd s)" using r(4) k(5) that by simp
  moreover have "fs2 n = snd (snd s) n" if "n \<notin> fst ` set (xs @ ys)" for n using r(5) k(6) that by (simp add: image_Un)
  moreover have "fs2 n \<noteq> None" if "snd (snd s) n \<noteq> None" for n using r(6) k(7) that by simp
  ultimately show ?thesis using k(1) by (simp add: applies_def)
qed

lemma applies_result:
  assumes "applies w ops s r"
  obtains s1 where "r = Some s1" "applies w ops s (Some s1)" "\<And>n. snd (snd s) n \<noteq> None \<Longrightarrow> snd (snd s1) n \<noteq> None"
proof -
  obtain s1 where r: "r = Some s1" using assms by (auto simp: applies_def)
  moreover have "snd (snd s1) n \<noteq> None" if "snd (snd s) n \<noteq> None" for n
    using assms that unfolding r applies_def by (cases s1) force
  ultimately show thesis using assms that by blast
qed

lemma applies_then:
  assumes "applies w xs s r" "\<And>s1. \<forall>n. snd (snd s) n \<noteq> None \<longrightarrow> snd (snd s1) n \<noteq> None \<Longrightarrow> applies w ys s1 (k s1)"
  shows "applies w (xs @ ys) s (do { s1 \<leftarrow> r; k s1 })"
proof -
  obtain s1 where r: "r = Some s1" "\<forall>n. snd (snd s) n \<noteq> None \<longrightarrow> snd (snd s1) n \<noteq> None" using assms(1) by (auto simp: applies_def)
  show ?thesis using applies_trans [OF assms(1) [unfolded r(1)] assms(2) [OF r(2)]] by (simp add: r(1))
qed

text \<open>The same for the steps that also touch the cache, which \<open>f\<close> changes.\<close>

definition works :: "writing \<Rightarrow> wop list \<Rightarrow> ((address \<rightharpoonup> node) \<Rightarrow> (address \<rightharpoonup> node)) \<Rightarrow> table \<Rightarrow> applying \<Rightarrow> (table \<times> applying) option \<Rightarrow> bool" where
  "works w ops f t s r \<longleftrightarrow> (\<exists>c s1. r = Some (t\<lparr>nodeCache := c\<rparr>, s1) \<and> applies w ops s (Some s1) \<and> wf_cache c \<and> nc_map c = f (nc_map (nodeCache t)))"

definition cache_node :: "node addr_entry \<Rightarrow> (address \<rightharpoonup> node) \<Rightarrow> (address \<rightharpoonup> node)" where
  "cache_node e m = (if m (akey e) \<noteq> None then m(akey e := aval e) else m)"

definition cache_delete :: "unit addr_entry \<Rightarrow> (address \<rightharpoonup> node) \<Rightarrow> (address \<rightharpoonup> node)" where
  "cache_delete e m = m(akey e := None)"

lemma works_result:
  assumes "works w ops f t s r"
  obtains c s1 where "r = Some (t\<lparr>nodeCache := c\<rparr>, s1)" "applies w ops s (Some s1)" "wf_cache c" "nc_map c = f (nc_map (nodeCache t))"
    "\<And>n. snd (snd s) n \<noteq> None \<Longrightarrow> snd (snd s1) n \<noteq> None"
proof -
  obtain c s1 where "r = Some (t\<lparr>nodeCache := c\<rparr>, s1)" and a: "applies w ops s (Some s1)" and "wf_cache c" "nc_map c = f (nc_map (nodeCache t))"
    using assms by (auto simp: works_def)
  moreover have "snd (snd s1) n \<noteq> None" if "snd (snd s) n \<noteq> None" for n by (rule applies_result [OF a]) (use that in auto)
  ultimately show thesis using that by blast
qed

lemma works_Nil: "wf_cache (nodeCache t) \<Longrightarrow> works w [] id t s (Some (t, s))"
  unfolding works_def by (intro exI [of _ "nodeCache t"] exI [of _ s]) (simp add: applies_Nil)

lemma works_then:
  assumes "works w xs f t s r"
    and "\<And>t1 s1. \<exists>c. t1 = t\<lparr>nodeCache := c\<rparr> \<Longrightarrow> wf_cache (nodeCache t1) \<Longrightarrow> \<forall>n. snd (snd s) n \<noteq> None \<longrightarrow> snd (snd s1) n \<noteq> None \<Longrightarrow> works w ys g t1 s1 (k (t1, s1))"
  shows "works w (xs @ ys) (g \<circ> f) t s (do { x \<leftarrow> r; k x })"
proof -
  obtain c s1 where r: "r = Some (t\<lparr>nodeCache := c\<rparr>, s1)" "applies w xs s (Some s1)" "wf_cache c" "nc_map c = f (nc_map (nodeCache t))"
    using assms(1) by (auto simp: works_def)
  have live: "\<forall>n. snd (snd s) n \<noteq> None \<longrightarrow> snd (snd s1) n \<noteq> None" using r(2) by (auto simp: applies_def)
  have "works w ys g (t\<lparr>nodeCache := c\<rparr>) s1 (k (t\<lparr>nodeCache := c\<rparr>, s1))" by (rule assms(2)) (use r(3) live in auto)
  then obtain c2 s2 where k: "k (t\<lparr>nodeCache := c\<rparr>, s1) = Some (t\<lparr>nodeCache := c2\<rparr>, s2)" "applies w ys s1 (Some s2)" "wf_cache c2" "nc_map c2 = g (nc_map c)"
    by (auto simp: works_def)
  with r(1,4) applies_trans [OF r(2) k(2)] show ?thesis
    unfolding works_def by (intro exI [of _ c2] exI [of _ s2]) simp
qed

lemma serializeNode_cong: "nodeSize t' = nodeSize t \<Longrightarrow> keyType t' = keyType t \<Longrightarrow> serializeNode n t' = serializeNode n t"
proof -
  assume a: "nodeSize t' = nodeSize t" "keyType t' = keyType t"
  then have "write_key t' = write_key t" by (simp add: fun_eq_iff write_key_def keyDiskSize_def)
  with a show ?thesis by (simp add: serializeNode_def keyDiskSize_def)
qed

lemma serializePage_cong: "pageSize t' = pageSize t \<Longrightarrow> keyType t' = keyType t \<Longrightarrow> serializePage p t' = serializePage p t"
proof -
  assume a: "pageSize t' = pageSize t" "keyType t' = keyType t"
  then have "write_slot t' = write_slot t" "write_entry t' = write_entry t" by (auto simp: fun_eq_iff write_slot_def write_entry_def keyDiskSize_def split: option.split)
  with a show ?thesis by (simp add: serializePage_def keyDiskSize_def)
qed

lemma writeNode_works:
  assumes "unat a < 2 ^ 63" "a \<noteq> 0" "snd (snd s) (tableFile t) \<noteq> None" "wf_cache (nodeCache t)"
  shows "works w [(tableFile t, WAL_NODE, a, serializeNode n t)] (\<lambda>m. if m a \<noteq> None then m(a \<mapsto> n) else m) t s (writeNode w n a t s)"
proof -
  have wr: "applies w [(tableFile t, WAL_NODE, a, serializeNode n t)] s (write_out w (tableFile t) (serializeNode n t) (seek_to w a s))"
    by (rule applies_write [OF _ assms(1,3)]) (simp add: is_write_def)
  then obtain s1 where s1: "write_out w (tableFile t) (serializeNode n t) (seek_to w a s) = Some s1" by (auto simp: applies_def)
  obtain c where "nodeCacheUpdate (nodeCache t) a n = Some (nc_map (nodeCache t) a \<noteq> None, c)" "wf_cache c"
    "nc_map c = (if nc_map (nodeCache t) a \<noteq> None then (nc_map (nodeCache t))(a \<mapsto> n) else nc_map (nodeCache t))"
    using nodeCacheUpdate_map [OF assms(4,2), of n] by blast
  then show ?thesis using wr unfolding works_def by (intro exI [of _ c] exI [of _ s1]) (simp add: writeNode_def s1 Let_def)
qed

lemma deleteObject_works:
  assumes "unat a < 2 ^ 63" "a \<noteq> 0" "snd (snd s) (tableFile t) \<noteq> None" "wf_cache (nodeCache t)"
  shows "works w [(tableFile t, WAL_DELETE, a, [GARBAGE_MARKER])] (\<lambda>m. m(a := None)) t s (deleteObject w a t s)"
proof -
  have wr: "applies w [(tableFile t, WAL_DELETE, a, [GARBAGE_MARKER])] s (write_out w (tableFile t) [GARBAGE_MARKER] (seek_to w a s))"
    by (rule applies_write [OF _ assms(1,3)]) (simp add: is_write_def)
  then obtain s1 where s1: "write_out w (tableFile t) [GARBAGE_MARKER] (seek_to w a s) = Some s1" by (auto simp: applies_def)
  obtain c where "nodeCacheRemove (nodeCache t) a = Some (nc_map (nodeCache t) a \<noteq> None, c)" "wf_cache c" "nc_map c = (nc_map (nodeCache t))(a := None)"
    using nodeCacheRemove_map [OF assms(4,2)] by blast
  then show ?thesis using wr unfolding works_def by (intro exI [of _ c] exI [of _ s1]) (simp add: deleteObject_def s1 Let_def)
qed

lemma apply_nodes_works:
  assumes "\<forall>e \<in> set es. akey e \<noteq> 0 \<longrightarrow> unat (akey e) < 2 ^ 63 \<and> aval e \<noteq> None"
    "snd (snd s) (tableFile t) \<noteq> None" "wf_cache (nodeCache t)"
  shows "works w (map (\<lambda>e. the (node_entry t e)) (filter (\<lambda>e. akey e \<noteq> 0) es)) (fold cache_node (filter (\<lambda>e. akey e \<noteq> 0) es)) t s (apply_nodes w es (t, s))"
  using assms
proof (induction es arbitrary: t s)
  case Nil
  then show ?case using works_Nil [of t w s] by (simp add: id_def)
next
  case (Cons e es)
  show ?case
  proof (cases "akey e = 0")
    case True
    with Cons show ?thesis by simp
  next
    case False
    then obtain n where n: "aval e = Some n" "unat (akey e) < 2 ^ 63" using Cons.prems(1) by auto
    have op: "the (node_entry t e) = (tableFile t, WAL_NODE, akey e, serializeNode n t)" by (simp add: node_entry_def n(1))
    have f: "cache_node e = (\<lambda>m. if m (akey e) \<noteq> None then m(akey e \<mapsto> n) else m)" by (simp add: cache_node_def n(1) fun_eq_iff)
    have "works w ([the (node_entry t e)] @ map (\<lambda>e. the (node_entry t e)) (filter (\<lambda>e. akey e \<noteq> 0) es))
        (fold cache_node (filter (\<lambda>e. akey e \<noteq> 0) es) \<circ> cache_node e) t s (do { x \<leftarrow> writeNode w n (akey e) t (seek_to w (akey e) s); apply_nodes w es x })"
    proof (rule works_then)
      show "works w [the (node_entry t e)] (cache_node e) t s (writeNode w n (akey e) t (seek_to w (akey e) s))"
        unfolding op f using writeNode_works [OF n(2) False, of "seek_to w (akey e) s" t w n] Cons.prems(2,3) by (simp add: works_def applies_seek)
    next
      fix t1 and s1 :: applying assume a: "\<exists>c. t1 = t\<lparr>nodeCache := c\<rparr>" "wf_cache (nodeCache t1)" "\<forall>n. snd (snd s) n \<noteq> None \<longrightarrow> snd (snd s1) n \<noteq> None"
      then have "node_entry t1 = node_entry t" "tableFile t1 = tableFile t"
        using serializeNode_cong [of t1 t] by (auto simp: node_entry_def [abs_def] tableFile_def)
      with Cons.IH [of s1 t1] Cons.prems(1,2) a(2,3)
      show "works w (map (\<lambda>e. the (node_entry t e)) (filter (\<lambda>e. akey e \<noteq> 0) es)) (fold cache_node (filter (\<lambda>e. akey e \<noteq> 0) es)) t1 s1 (apply_nodes w es (t1, s1))"
        by simp
    qed
    then show ?thesis using False by (simp add: n(1) case_prod_unfold comp_def)
  qed
qed

lemma apply_deletes_works:
  assumes "\<forall>e \<in> set es. akey e \<noteq> 0 \<longrightarrow> unat (akey e) < 2 ^ 63" "snd (snd s) (tableFile t) \<noteq> None" "wf_cache (nodeCache t)"
  shows "works w (map (\<lambda>e. the (delete_entry t e)) (filter (\<lambda>e. akey e \<noteq> 0) es)) (fold cache_delete (filter (\<lambda>e. akey e \<noteq> 0) es)) t s (apply_deletes w es (t, s))"
  using assms
proof (induction es arbitrary: t s)
  case Nil
  then show ?case using works_Nil [of t w s] by (simp add: id_def)
next
  case (Cons e es)
  show ?case
  proof (cases "akey e = 0")
    case True
    with Cons show ?thesis by simp
  next
    case False
    have a: "unat (akey e) < 2 ^ 63" using Cons.prems(1) False by simp
    have "works w ([the (delete_entry t e)] @ map (\<lambda>e. the (delete_entry t e)) (filter (\<lambda>e. akey e \<noteq> 0) es))
        (fold cache_delete (filter (\<lambda>e. akey e \<noteq> 0) es) \<circ> cache_delete e) t s (do { x \<leftarrow> deleteObject w (akey e) t s; apply_deletes w es x })"
    proof (rule works_then)
      show "works w [the (delete_entry t e)] (cache_delete e) t s (deleteObject w (akey e) t s)"
        unfolding cache_delete_def [abs_def] delete_entry_def option.sel by (rule deleteObject_works [OF a False Cons.prems(2,3)])
    next
      fix t1 and s1 :: applying assume a: "\<exists>c. t1 = t\<lparr>nodeCache := c\<rparr>" "wf_cache (nodeCache t1)" "\<forall>n. snd (snd s) n \<noteq> None \<longrightarrow> snd (snd s1) n \<noteq> None"
      then have "delete_entry t1 = delete_entry t" "tableFile t1 = tableFile t" by (auto simp: delete_entry_def [abs_def] tableFile_def)
      with Cons.IH [of s1 t1] Cons.prems(1,2) a(2,3)
      show "works w (map (\<lambda>e. the (delete_entry t e)) (filter (\<lambda>e. akey e \<noteq> 0) es)) (fold cache_delete (filter (\<lambda>e. akey e \<noteq> 0) es)) t1 s1 (apply_deletes w es (t1, s1))"
        by simp
    qed
    then show ?thesis using False by (simp add: case_prod_unfold comp_def)
  qed
qed

lemma apply_pages_applies:
  assumes "\<forall>e \<in> set es. akey e \<noteq> 0 \<longrightarrow> unat (akey e) < 2 ^ 63 \<and> page_entry t e \<noteq> None" "snd (snd s) (tableFile t) \<noteq> None"
  shows "applies w (map (\<lambda>e. the (page_entry t e)) (filter (\<lambda>e. akey e \<noteq> 0) es)) s (apply_pages w t es s)"
  using assms
proof (induction es arbitrary: s)
  case Nil
  then show ?case using applies_Nil [of w s] by simp
next
  case (Cons e es)
  show ?case
  proof (cases "akey e = 0")
    case True
    with Cons show ?thesis by simp
  next
    case False
    then obtain p b where p: "aval e = Some p" "serializePage p t = Some b" "unat (akey e) < 2 ^ 63"
      using Cons.prems(1) by (auto simp: page_entry_def bind_eq_Some_conv)
    have op: "the (page_entry t e) = (tableFile t, WAL_PAGE, akey e, b)" by (simp add: page_entry_def p)
    have "applies w ([the (page_entry t e)] @ map (\<lambda>e. the (page_entry t e)) (filter (\<lambda>e. akey e \<noteq> 0) es)) s
        (do { x \<leftarrow> writePage w p (akey e) t s; apply_pages w t es x })"
    proof (rule applies_then)
      show "applies w [the (page_entry t e)] s (writePage w p (akey e) t s)"
        unfolding op writePage_def Let_def p(2) by simp (rule applies_write [OF _ p(3) Cons.prems(2)], simp add: is_write_def)
    qed (use Cons in simp)
    then show ?thesis using False by (simp add: p(1))
  qed
qed

text \<open>The table after its changes are made.\<close>

definition opened :: "table \<Rightarrow> table" where
  "opened t = (if isNew t then t\<lparr>hasSource := True, isNew := False\<rparr> else t)"

definition committed :: "table \<Rightarrow> node_cache \<Rightarrow> table" where
  "committed t c = (opened t)\<lparr>pageDirty := drain (pageDirty t), nodeDirty := drain (nodeDirty t), delete := drain (delete t), nodeCache := c\<rparr>"

definition cache_after :: "table \<Rightarrow> (address \<rightharpoonup> node)" where
  "cache_after t = fold cache_delete (live (delete t)) (fold cache_node (live (nodeDirty t)) (nc_map (nodeCache t)))"

lemma opened_fields:
  "pageDirty (opened t) = pageDirty t" "nodeDirty (opened t) = nodeDirty t" "delete (opened t) = delete t" "nodeCache (opened t) = nodeCache t"
  "tableFile (opened t) = tableFile t" "pageSize (opened t) = pageSize t" "nodeSize (opened t) = nodeSize t" "keyType (opened t) = keyType t"
  "meta_bytes (opened t) = meta_bytes t"
  by (simp_all add: opened_def tableFile_def meta_bytes_def fillMeta_def)

text \<open>The state of a file system that the log of \<open>all\<close> can finish.\<close>

definition finishable :: "wop list \<Rightarrow> files \<Rightarrow> files \<Rightarrow> bool" where
  "finishable ops fs g \<longleftrightarrow> (\<forall>all fs0. set ops \<subseteq> set all \<longrightarrow> interrupted_by all fs0 fs \<longrightarrow> interrupted_by all fs0 g)"

lemma applyTable_works:
  assumes "committable t" "isNew t \<or> fs (tableFile t) \<noteq> None"
  shows "\<exists>ok t' i' fs'. applyTable w pos synced t (i, fs) = Some (ok, t', i', fs') \<and>
     (seeks w \<longrightarrow> finishable (table_ops t) fs fs' \<and> (ok \<longrightarrow> ops_apply (table_ops t) fs = Some fs')) \<and>
     (ok \<longrightarrow> (\<exists>c. t' = committed t c \<and> wf_cache c \<and> nc_map c = cache_after t)) \<and>
     (writeOut w = (\<lambda>_. None) \<longrightarrow> synced \<longrightarrow> ok) \<and> (\<forall>n. n \<noteq> tableFile t \<longrightarrow> fs' n = fs n)"
proof -
  let ?f = "tableFile t"
  have names: "fst ` set (object_ops t) \<subseteq> {?f}"
    using assms(1) by (auto simp: object_ops_def committable_def page_entry_image node_entry_def delete_entry_def)
  define B where "B = (\<lambda>at g. do {
           s \<leftarrow> apply_pages w (opened t) (at_entries (pageDirty (opened t))) (at, False, g);
           (t, s) \<leftarrow> apply_nodes w (at_entries (nodeDirty (opened t))) ((opened t)\<lparr>pageDirty := drain (pageDirty (opened t))\<rparr>, s);
           (t, s) \<leftarrow> apply_deletes w (at_entries (delete t)) (t\<lparr>nodeDirty := drain (nodeDirty t)\<rparr>, s);
           let t = t\<lparr>delete := drain (delete t)\<rparr>;
           (at, err, fs) \<leftarrow> write_meta w t s;
           Some (synced \<and> \<not> err, t, fst at, fs)
         })"
  have body: "\<exists>t' i' err' fs'. B at g = Some (synced \<and> \<not> err', t', fst i', fs') \<and> applies w (object_ops t) (at, False, g) (Some (i', err', fs')) \<and>
         (\<exists>c. t' = committed t c \<and> wf_cache c \<and> nc_map c = cache_after t)"
    if g: "g ?f \<noteq> None" for at g
  proof -
    have "page_entry (opened t) = page_entry t"
      using serializePage_cong [of "opened t" t] by (simp add: page_entry_def [abs_def] opened_fields)
    then have "applies w (map (\<lambda>e. the (page_entry t e)) (live (pageDirty t))) (at, False, g) (apply_pages w (opened t) (at_entries (pageDirty t)) (at, False, g))"
      using apply_pages_applies [of "at_entries (pageDirty t)" "opened t" "(at, False, g)" w] g committable_entries(1) [OF assms(1)]
      by (simp add: live_def opened_fields)
    then obtain s1 where s1: "apply_pages w (opened t) (at_entries (pageDirty t)) (at, False, g) = Some s1"
        "applies w (map (\<lambda>e. the (page_entry t e)) (live (pageDirty t))) (at, False, g) (Some s1)" "snd (snd s1) ?f \<noteq> None"
      by (rule applies_result) (use g in simp)
    let ?t1 = "(opened t)\<lparr>pageDirty := drain (pageDirty t)\<rparr>"
    have "node_entry ?t1 = node_entry t" using serializeNode_cong [of ?t1 t] by (simp add: node_entry_def [abs_def] opened_fields tableFile_def)
         (simp add: opened_def)
    moreover have "tableFile ?t1 = ?f" "nodeCache ?t1 = nodeCache t" by (simp_all add: tableFile_def opened_def)
    ultimately have "works w (map (\<lambda>e. the (node_entry t e)) (live (nodeDirty t))) (fold cache_node (live (nodeDirty t))) ?t1 s1
        (apply_nodes w (at_entries (nodeDirty t)) (?t1, s1))"
      using apply_nodes_works [of "at_entries (nodeDirty t)" s1 ?t1 w] committable_entries(2) [OF assms(1)] s1(3) assms(1)
      by (simp add: live_def committable_def)
    then obtain c1 s2 where s2: "apply_nodes w (at_entries (nodeDirty t)) (?t1, s1) = Some (?t1\<lparr>nodeCache := c1\<rparr>, s2)"
        "applies w (map (\<lambda>e. the (node_entry t e)) (live (nodeDirty t))) s1 (Some s2)" "wf_cache c1"
        "nc_map c1 = fold cache_node (live (nodeDirty t)) (nc_map (nodeCache t))" "snd (snd s2) ?f \<noteq> None"
      by (rule works_result) (use s1(3) in \<open>simp add: opened_def\<close>)
    let ?t2 = "?t1\<lparr>nodeCache := c1, nodeDirty := drain (nodeDirty t)\<rparr>"
    have "delete_entry ?t2 = delete_entry t" "tableFile ?t2 = ?f" "delete ?t2 = delete t" "nodeCache ?t2 = c1"
      by (simp_all add: delete_entry_def [abs_def] tableFile_def opened_def)
    then have "works w (map (\<lambda>e. the (delete_entry t e)) (live (delete t))) (fold cache_delete (live (delete t))) ?t2 s2
        (apply_deletes w (at_entries (delete t)) (?t2, s2))"
      using apply_deletes_works [of "at_entries (delete t)" s2 ?t2 w] committable_entries(3) [OF assms(1)] s2(3,5)
      by (simp add: live_def)
    then obtain c2 s3 where s3: "apply_deletes w (at_entries (delete t)) (?t2, s2) = Some (?t2\<lparr>nodeCache := c2\<rparr>, s3)"
        "applies w (map (\<lambda>e. the (delete_entry t e)) (live (delete t))) s2 (Some s3)" "wf_cache c2" "nc_map c2 = cache_after t" "snd (snd s3) ?f \<noteq> None"
      by (rule works_result) (use s2(4,5) in \<open>simp add: cache_after_def\<close>)
    let ?t3 = "committed t c2"
    have t3: "?t2\<lparr>nodeCache := c2, delete := drain (delete t)\<rparr> = ?t3" by (simp add: committed_def)
    have m: "meta_bytes ?t3 = meta_bytes t" "tableFile ?t3 = ?f"
      by (simp_all add: meta_bytes_def fillMeta_def committed_def tableFile_def opened_def)
    have wr: "applies w [(?f, WAL_META, 0, meta_bytes t)] s3 (write_out w ?f (meta_bytes t) (seek_to w 0 s3))"
      by (rule applies_write) (use s3(5) in \<open>simp_all add: is_write_def\<close>)
    then obtain i' err' fs' where s4: "write_out w ?f (meta_bytes t) (seek_to w 0 s3) = Some (i', err', fs')" by (auto simp: applies_def)
    have all_made: "applies w (object_ops t) (at, False, g) (Some (i', err', fs'))"
      unfolding object_ops_def by (intro applies_trans [OF s1(2)] applies_trans [OF s2(2)] applies_trans [OF s3(2)]) (use wr s4 in \<open>simp add: write_meta_def Let_def\<close>)
    have "delete (?t1\<lparr>nodeCache := c1\<rparr>) = delete t" "nodeDirty (?t1\<lparr>nodeCache := c1\<rparr>) = nodeDirty t" by (simp_all add: opened_def)
    moreover have "write_meta w ?t3 s3 = Some (i', err', fs')" by (simp add: write_meta_def m s4)
    ultimately have "B at g = Some (synced \<and> \<not> err', ?t3, fst i', fs')"
      using s1(1) s2(1) s3(1) t3 unfolding B_def by (simp add: opened_fields Let_def)
    with all_made s3(3,4) show ?thesis by blast
  qed
  have names': "fs' n = fs n" if "applies w (object_ops t) (at, False, fs) (Some (i', err', fs'))" "n \<noteq> ?f" for at fs i' err' fs' n
  proof -
    have "n \<notin> fst ` set (object_ops t)" using names that(2) by blast
    then show ?thesis using that(1) by (simp add: applies_Some)
  qed
  show ?thesis
  proof (cases "isNew t")
    case False
    then have o: "opened t = t" "table_ops t = object_ops t" by (simp_all add: opened_def table_ops_def create_ops_def)
    have ap: "applyTable w pos synced t (i, fs) = B (i, pos) fs" using False by (simp add: applyTable_def B_def o(1))
    obtain t' i' err' fs' where r: "B (i, pos) fs = Some (synced \<and> \<not> err', t', fst i', fs')"
      "applies w (object_ops t) ((i, pos), False, fs) (Some (i', err', fs'))" "\<exists>c. t' = committed t c \<and> wf_cache c \<and> nc_map c = cache_after t"
      using body [of fs "(i, pos)"] assms(2) False by blast
    have "seeks w \<Longrightarrow> finishable (table_ops t) fs fs'" using r(2) unfolding o(2) by (simp add: applies_Some finishable_def)
    moreover have "ops_apply (table_ops t) fs = Some fs'" if "seeks w" "\<not> err'" using r(2) that by (simp add: applies_Some o(2))
    moreover have "writeOut w = (\<lambda>_. None) \<Longrightarrow> \<not> err'" using r(2) by (simp add: applies_Some)
    ultimately show ?thesis using ap r(1,3) names' [OF r(2)] by auto
  next
    case True
    then have o: "opened t = t\<lparr>hasSource := True, isNew := False\<rparr>" "table_ops t = (?f, WAL_FILE_CREATE, 0, []) # object_ops t"
      by (simp_all add: opened_def table_ops_def create_ops_def)
    have cr: "interrupted_by all fs0 (fs(?f \<mapsto> []))" if "(?f, WAL_FILE_CREATE, 0, []) \<in> set all" "interrupted_by all fs0 fs" for all fs0
      by (rule interrupted_by.made [OF that(2,1)]) (simp add: op_apply_def)
    show ?thesis
    proof (cases "writeOut w i")
      case (Some n)
      then show ?thesis using True cr by (auto simp: applyTable_def open_new_def finishable_def o(2))
    next
      case None
      have ap: "applyTable w pos synced t (i, fs) = B (Suc i, 0) (fs(?f \<mapsto> []))"
        using True None by (simp add: applyTable_def B_def o(1) open_new_def Let_def)
      obtain t' i' err' fs' where r: "B (Suc i, 0) (fs(?f \<mapsto> [])) = Some (synced \<and> \<not> err', t', fst i', fs')"
        "applies w (object_ops t) ((Suc i, 0), False, fs(?f \<mapsto> [])) (Some (i', err', fs'))" "\<exists>c. t' = committed t c \<and> wf_cache c \<and> nc_map c = cache_after t"
        using body [of "fs(?f \<mapsto> [])" "(Suc i, 0)"] by (metis fun_upd_same option.distinct(1))
      have "seeks w \<Longrightarrow> finishable (table_ops t) fs fs'" using r(2) cr unfolding o(2) by (simp add: applies_Some finishable_def)
      moreover have "ops_apply (table_ops t) fs = Some fs'" if "seeks w" "\<not> err'" using r(2) that by (simp add: applies_Some o(2) op_apply_def)
      moreover have "writeOut w = (\<lambda>_. None) \<Longrightarrow> \<not> err'" using r(2) by (simp add: applies_Some)
      moreover have "fs' n = fs n" if "n \<noteq> ?f" for n using names' [OF r(2) that] that by simp
      ultimately show ?thesis using ap r(1,3) by auto
    qed
  qed
qed

lemma finishable_refl: "finishable ops fs fs"
  by (simp add: finishable_def)

lemma finishable_trans:
  "finishable xs fs g \<Longrightarrow> finishable ys g h \<Longrightarrow> finishable (xs @ ys) fs h"
  by (simp add: finishable_def)

text \<open>The dirty tables have files of their own.\<close>

definition tables_ok :: "table list \<Rightarrow> files \<Rightarrow> bool" where
  "tables_ok ts fs \<longleftrightarrow> (\<forall>t \<in> set (filter isDirty ts). committable t \<and> (isNew t \<or> fs (tableFile t) \<noteq> None)) \<and>
     distinct (map tableFile (filter isDirty ts))"

lemma apply_tables_works:
  assumes "tables_ok ts fs"
  shows "\<exists>ok ts' i' fs'. apply_tables w pos synced k ts (i, fs) = Some (ok, ts', i', fs') \<and>
     (seeks w \<longrightarrow> finishable (concat (map table_ops (filter isDirty ts))) fs fs' \<and>
        (ok \<longrightarrow> ops_apply (concat (map table_ops (filter isDirty ts))) fs = Some fs')) \<and>
     (ok \<longrightarrow> list_all2 (\<lambda>t t'. if isDirty t then (\<exists>c. t' = committed t c \<and> wf_cache c \<and> nc_map c = cache_after t) else t' = t) ts ts') \<and>
     (writeOut w = (\<lambda>_. None) \<longrightarrow> synced = (\<lambda>_. True) \<longrightarrow> ok) \<and> (\<forall>n. n \<notin> tableFile ` set (filter isDirty ts) \<longrightarrow> fs' n = fs n)"
  using assms
proof (induction ts arbitrary: k i fs)
  case Nil
  show ?case by (intro exI [of _ True] exI [of _ "[]"] exI [of _ i] exI [of _ fs]) (simp add: finishable_refl)
next
  case (Cons t ts)
  show ?case
  proof (cases "isDirty t")
    case False
    with Cons.prems have "tables_ok ts fs" by (simp add: tables_ok_def)
    from Cons.IH [OF this, of "Suc k" i] obtain ok ts' i' fs' where "apply_tables w pos synced (Suc k) ts (i, fs) = Some (ok, ts', i', fs')"
     "seeks w \<longrightarrow> finishable (concat (map table_ops (filter isDirty ts))) fs fs' \<and>
        (ok \<longrightarrow> ops_apply (concat (map table_ops (filter isDirty ts))) fs = Some fs')"
     "ok \<longrightarrow> list_all2 (\<lambda>t t'. if isDirty t then (\<exists>c. t' = committed t c \<and> wf_cache c \<and> nc_map c = cache_after t) else t' = t) ts ts'"
     "writeOut w = (\<lambda>_. None) \<longrightarrow> synced = (\<lambda>_. True) \<longrightarrow> ok" "\<forall>n. n \<notin> tableFile ` set (filter isDirty ts) \<longrightarrow> fs' n = fs n"
      by blast
    then show ?thesis using False by (intro exI [of _ ok] exI [of _ "t # ts'"] exI [of _ i'] exI [of _ fs']) simp
  next
    case True
    have c: "committable t" "isNew t \<or> fs (tableFile t) \<noteq> None" "tableFile t \<notin> tableFile ` set (filter isDirty ts)"
      using Cons.prems True by (auto simp: tables_ok_def)
    obtain ok1 t1 i1 fs1 where one: "applyTable w (pos k) (synced k) t (i, fs) = Some (ok1, t1, i1, fs1)"
      "seeks w \<longrightarrow> finishable (table_ops t) fs fs1 \<and> (ok1 \<longrightarrow> ops_apply (table_ops t) fs = Some fs1)"
      "ok1 \<longrightarrow> (\<exists>c. t1 = committed t c \<and> wf_cache c \<and> nc_map c = cache_after t)"
      "writeOut w = (\<lambda>_. None) \<longrightarrow> synced k \<longrightarrow> ok1" "\<forall>n. n \<noteq> tableFile t \<longrightarrow> fs1 n = fs n"
      using applyTable_works [of t fs w "pos k" "synced k" i, OF c(1,2)] by (elim exE conjE) (rule that, assumption+)
    show ?thesis
    proof (cases ok1)
      case False
      have "seeks w \<Longrightarrow> finishable (table_ops t @ concat (map table_ops (filter isDirty ts))) fs fs1"
        using one(2) finishable_trans [OF _ finishable_refl] by blast
      then show ?thesis using True False one by (intro exI [of _ False] exI [of _ "t1 # ts"] exI [of _ i1] exI [of _ fs1]) auto
    next
      case ok: True
      have "fs1 (tableFile u) = fs (tableFile u)" if "u \<in> set (filter isDirty ts)" for u
      proof -
        have "tableFile u \<noteq> tableFile t" using c(3) imageI [OF that, of tableFile] by metis
        then show ?thesis using one(5) by simp
      qed
      then have "tables_ok ts fs1" using Cons.prems True by (simp add: tables_ok_def)
      from Cons.IH [OF this, of "Suc k" i1] obtain ok2 ts2 i2 fs2 where rest: "apply_tables w pos synced (Suc k) ts (i1, fs1) = Some (ok2, ts2, i2, fs2)"
       "seeks w \<longrightarrow> finishable (concat (map table_ops (filter isDirty ts))) fs1 fs2 \<and>
          (ok2 \<longrightarrow> ops_apply (concat (map table_ops (filter isDirty ts))) fs1 = Some fs2)"
       "ok2 \<longrightarrow> list_all2 (\<lambda>t t'. if isDirty t then (\<exists>c. t' = committed t c \<and> wf_cache c \<and> nc_map c = cache_after t) else t' = t) ts ts2"
       "writeOut w = (\<lambda>_. None) \<longrightarrow> synced = (\<lambda>_. True) \<longrightarrow> ok2" "\<forall>n. n \<notin> tableFile ` set (filter isDirty ts) \<longrightarrow> fs2 n = fs1 n"
        by blast
      have "seeks w \<Longrightarrow> finishable (table_ops t @ concat (map table_ops (filter isDirty ts))) fs fs2"
        using one(2) rest(2) finishable_trans by blast
      then show ?thesis using True ok one rest
        by (intro exI [of _ ok2] exI [of _ "t1 # ts2"] exI [of _ i2] exI [of _ fs2]) (auto simp: ops_apply_append)
    qed
  qed
qed

section \<open>Whole files\<close>

lemma unat_offset: "off < 2 ^ 63 \<Longrightarrow> unat (of_nat off :: address) = off"
  by (simp add: unsigned_of_nat take_bit_eq_mod)

lemma piece_written:
  assumes "off < length bytes"
  shows "write_at (take off bytes) off (take PAGE_SIZE (drop off bytes)) = take (off + PAGE_SIZE) bytes"
  using assms by (simp add: write_at_def take_add PAGE_SIZE_def)

lemma pieces_apply:
  assumes "off \<le> length bytes \<or> fs name = Some bytes" "fs name = Some (take off bytes)" "length bytes < 2 ^ 63"
  shows "ops_apply (pieces name bytes off) fs = Some (fs(name \<mapsto> bytes))"
  using assms
proof (induction name bytes off arbitrary: fs rule: pieces.induct)
  case (1 name bytes off)
  show ?case
  proof (cases "off < length bytes")
    case False
    then show ?thesis using "1.prems" by (simp add: pieces.simps [of name bytes off] map_upd_triv)
  next
    case True
    have u: "unat (of_nat off :: address) = off" using True "1.prems"(3) by (intro unat_offset) simp
    have "ops_apply (pieces name bytes (off + PAGE_SIZE)) (fs(name \<mapsto> take (off + PAGE_SIZE) bytes))
        = Some ((fs(name \<mapsto> take (off + PAGE_SIZE) bytes))(name \<mapsto> bytes))"
      by (rule "1.IH" [OF True]) (use "1.prems"(3) in \<open>auto simp: not_le\<close>)
    then have "ops_apply (pieces name bytes (off + PAGE_SIZE)) (fs(name \<mapsto> take (off + PAGE_SIZE) bytes)) = Some (fs(name \<mapsto> bytes))"
      by (simp only: fun_upd_upd)
    moreover have "op_apply (name, WAL_FILE_DATA, of_nat off, take PAGE_SIZE (drop off bytes)) fs = Some (fs(name \<mapsto> take (off + PAGE_SIZE) bytes))"
      using "1.prems"(2,3) True by (simp add: op_apply_def u piece_written [OF True] not_le)
    ultimately show ?thesis using True by (simp only: pieces.simps [of name bytes off] if_True ops_apply.simps option.case)
  qed
qed

lemma pieces_partial:
  assumes "interrupted_by all fs0 (g(name \<mapsto> take off bytes))" "set (pieces name bytes off) \<subseteq> set all" "length bytes < 2 ^ 63" "off \<le> n"
  shows "interrupted_by all fs0 (g(name \<mapsto> take n bytes))"
  using assms
proof (induction name bytes off rule: pieces.induct)
  case (1 name bytes off)
  show ?case
  proof (cases "off < length bytes")
    case False
    then show ?thesis using "1.prems"(1,4) by simp
  next
    case True
    have u: "unat (of_nat off :: address) = off" using True "1.prems"(3) by (intro unat_offset) simp
    let ?p = "take PAGE_SIZE (drop off bytes)"
    have mem: "(name, WAL_FILE_DATA, of_nat off, ?p) \<in> set all" "set (pieces name bytes (off + PAGE_SIZE)) \<subseteq> set all"
      using "1.prems"(2) True by (simp_all add: pieces.simps [of name bytes off])
    show ?thesis
    proof (cases "n < off + PAGE_SIZE")
      case True
      have "interrupted_by all fs0 ((g(name \<mapsto> take off bytes))(name \<mapsto> write_at (take off bytes) (unat (of_nat off :: address)) (take (n - off) ?p)))"
        by (rule interrupted_by.damaged [OF "1.prems"(1) mem(1)]) (simp_all add: is_write_def)
      moreover have "write_at (take off bytes) off (take (n - off) ?p) = take n bytes"
        using True "1.prems"(4) \<open>off < length bytes\<close> by (auto simp: write_at_def take_add [symmetric] min_def)
      ultimately show ?thesis by (simp only: u fun_upd_upd)
    next
      case False
      define h where "h = g(name \<mapsto> take off bytes)"
      have h: "h name = Some (take off bytes)" "h(name \<mapsto> take (off + PAGE_SIZE) bytes) = g(name \<mapsto> take (off + PAGE_SIZE) bytes)"
        unfolding h_def by (rule fun_upd_same, rule fun_upd_upd)
      have "op_apply (name, WAL_FILE_DATA, of_nat off, ?p) h = Some (g(name \<mapsto> take (off + PAGE_SIZE) bytes))"
        using h True "1.prems"(3) by (simp add: op_apply_def u piece_written [OF True] not_le)
      then have "interrupted_by all fs0 (g(name \<mapsto> take (off + PAGE_SIZE) bytes))"
        by (rule interrupted_by.made [OF "1.prems"(1) [folded h_def] mem(1)])
      then show ?thesis by (rule "1.IH" [OF True _ mem(2) "1.prems"(3)]) (use False in simp)
    qed
  qed
qed

lemma applyFileChange_works:
  assumes "applyFileChange out synced c fs = (ok, fs')" "\<forall>bytes. cbytes c = Some bytes \<longrightarrow> length bytes < 2 ^ 63"
  shows "finishable (change_ops c) fs fs' \<and> (ok \<longrightarrow> ops_apply (change_ops c) fs = Some fs') \<and> (out = None \<longrightarrow> synced \<longrightarrow> ok)"
proof (cases "cbytes c")
  case None
  have "interrupted_by all fs0 (fs(cname c := None))" if "(cname c, WAL_FILE_REMOVE, 0, []) \<in> set all" "interrupted_by all fs0 fs" for all fs0
    by (rule interrupted_by.made [OF that(2,1)]) (simp add: op_apply_def)
  then show ?thesis using assms(1) None
    by (auto simp: applyFileChange_def change_ops_def finishable_def op_apply_def split: option.splits)
next
  case (Some bytes)
  have l: "length bytes < 2 ^ 63" using assms(2) Some by simp
  have ops: "change_ops c = (cname c, WAL_FILE_CREATE, 0, []) # pieces (cname c) bytes 0" by (simp add: change_ops_def Some)
  have "interrupted_by all fs0 (fs(cname c \<mapsto> []))" if "(cname c, WAL_FILE_CREATE, 0, []) \<in> set all" "interrupted_by all fs0 fs" for all fs0
    by (rule interrupted_by.made [OF that(2,1)]) (simp add: op_apply_def)
  note created = this
  have part: "interrupted_by all fs0 (fs(cname c \<mapsto> take n bytes))" if "set (change_ops c) \<subseteq> set all" "interrupted_by all fs0 fs" for n all fs0
    by (rule pieces_partial [where off = 0 and bytes = bytes]) (use that l created in \<open>simp_all add: ops\<close>)
  have "ops_apply (change_ops c) fs = Some (fs(cname c \<mapsto> bytes))"
    using pieces_apply [of 0 bytes "fs(cname c \<mapsto> [])" "cname c"] l by (simp add: ops op_apply_def)
  moreover have "finishable (change_ops c) fs (fs(cname c \<mapsto> bytes))" using part [where n = "length bytes"] by (simp add: finishable_def)
  moreover have "finishable (change_ops c) fs (fs(cname c \<mapsto> take n bytes))" for n using part by (simp add: finishable_def)
  ultimately show ?thesis using assms(1) Some finishable_refl
    by (auto simp: applyFileChange_def split: option.splits nat.splits)
qed

lemma apply_changes_works:
  assumes "apply_changes outs synced k cs fs = (ok, fs')" "\<forall>c \<in> set cs. \<forall>bytes. cbytes c = Some bytes \<longrightarrow> length bytes < 2 ^ 63"
  shows "finishable (concat (map change_ops cs)) fs fs' \<and> (ok \<longrightarrow> ops_apply (concat (map change_ops cs)) fs = Some fs') \<and>
     (outs = (\<lambda>_. None) \<longrightarrow> synced = (\<lambda>_. True) \<longrightarrow> ok)"
  using assms
proof (induction cs arbitrary: k fs)
  case Nil
  then show ?case by (simp add: finishable_refl)
next
  case (Cons c cs)
  obtain ok1 fs1 where one: "applyFileChange (outs k) (synced k) c fs = (ok1, fs1)" by (cases "applyFileChange (outs k) (synced k) c fs")
  have w: "finishable (change_ops c) fs fs1" "ok1 \<Longrightarrow> ops_apply (change_ops c) fs = Some fs1" "outs k = None \<Longrightarrow> synced k \<Longrightarrow> ok1"
    using applyFileChange_works [OF one] Cons.prems(2) by simp_all
  show ?case
  proof (cases ok1)
    case False
    then show ?thesis using Cons.prems(1) one w finishable_trans [OF w(1) finishable_refl] by auto
  next
    case True
    then have "apply_changes outs synced (Suc k) cs fs1 = (ok, fs')" using Cons.prems(1) one by simp
    from Cons.IH [OF this] Cons.prems(2) True w finishable_trans [OF w(1)] show ?thesis by (auto simp: ops_apply_append)
  qed
qed

section \<open>The log can be replayed\<close>

text \<open>All operations of a block are on one file, which is created or removed first or not at all.\<close>

definition block_ok :: "fname \<Rightarrow> wop list \<Rightarrow> bool" where
  "block_ok nm ops \<longleftrightarrow> (\<forall>op \<in> set ops. fst op = nm) \<and> (\<forall>op \<in> set (tl ops). is_write (fst (snd op)))"

lemma file_ops_append: "file_ops n (xs @ ys) = file_ops n xs @ file_ops n ys"
  by (simp add: file_ops_def)

lemma file_ops_block: "block_ok nm ops \<Longrightarrow> file_ops n ops = (if n = nm then map snd ops else [])"
  by (auto simp: file_ops_def block_ok_def filter_id_conv filter_empty_conv)

lemma file_ops_blocks:
  assumes "\<forall>b \<in> set bs. block_ok (fst b) (snd b)" "distinct (map fst bs)"
  shows "file_ops n (concat (map snd bs)) = (case map_of bs n of None \<Rightarrow> [] | Some ops \<Rightarrow> map snd ops)"
  using assms
proof (induction bs)
  case Nil
  then show ?case by (simp add: file_ops_def)
next
  case (Cons b bs)
  obtain nm ops where b: "b = (nm, ops)" by (cases b)
  have "map_of bs nm = None" using Cons.prems(2) by (simp add: b map_of_eq_None_iff)
  then show ?case using Cons file_ops_block [of nm ops n] by (simp add: b file_ops_append)
qed

lemma restartable_blocks:
  assumes "\<forall>b \<in> set bs. block_ok (fst b) (snd b)" "distinct (map fst bs)"
  shows "restartable (concat (map snd bs))"
proof -
  have "list_all (\<lambda>(ty, _, _). is_write ty) (tl (file_ops n (concat (map snd bs))))" for n
  proof (cases "map_of bs n")
    case None
    then show ?thesis by (simp add: file_ops_blocks [OF assms])
  next
    case (Some ops)
    then have "(n, ops) \<in> set bs" by (rule map_of_SomeD)
    then have "block_ok n ops" using assms(1) by fastforce
    then show ?thesis using Some by (auto simp: file_ops_blocks [OF assms] block_ok_def list_all_iff map_tl [symmetric])
  qed
  then show ?thesis by (simp add: restartable_def list_all_iff split_beta)
qed

definition change_ok_for_log :: "file_change \<Rightarrow> bool" where
  "change_ok_for_log c \<longleftrightarrow> 0 \<notin> set (cname c) \<and> length (cname c) < WAL_FILE_NAME_LEN \<and> (\<forall>bytes. cbytes c = Some bytes \<longrightarrow> length bytes < 2 ^ 63)"

text \<open>What a transaction has to satisfy: its tables can be committed and no two of its changes are of one file.\<close>

definition commit_ok :: "table list \<Rightarrow> file_change list \<Rightarrow> files \<Rightarrow> bool" where
  "commit_ok ts cs fs \<longleftrightarrow> tables_ok ts fs \<and> list_all change_ok_for_log cs \<and>
     distinct (map tableFile (filter isDirty ts) @ map cname cs) \<and> length (commit_ops ts cs) < 2 ^ 32"

lemma object_ops_in:
  assumes "committable t" "op \<in> set (object_ops t)"
  shows "fst op = tableFile t \<and> is_write (fst (snd op)) \<and> length (snd (snd (snd op))) \<le> WAL_PAYLOAD_LEN"
proof -
  have sizes: "nat (pageSize t) \<le> WAL_PAYLOAD_LEN" "nat (nodeSize t) \<le> WAL_PAYLOAD_LEN"
    using assms(1) unfolding committable_def by linarith+
  then have "length (page_image t p) \<le> WAL_PAYLOAD_LEN" if "storable t p" for p
    using length_page_image [OF that] by simp
  moreover have "length (node_image t n) \<le> WAL_PAYLOAD_LEN" if "storable_node t n" for n
    using length_node_image [OF that] sizes by simp
  ultimately show ?thesis using assms
    by (auto simp: object_ops_def committable_def page_entry_image node_entry_image delete_entry_def is_write_def length_meta_bytes WAL_PAYLOAD_LEN_def METALEN_def)
qed

lemma tableFile_valid: "committable t \<Longrightarrow> 0 \<notin> set (tableFile t) \<and> length (tableFile t) < WAL_FILE_NAME_LEN"
  by (simp add: committable_def tableFileName_def tableFile_def TABLE_EXTENSION_def)

lemma table_block:
  assumes "committable t"
  shows "block_ok (tableFile t) (table_ops t)" "list_all valid_op (table_ops t)"
proof -
  show "block_ok (tableFile t) (table_ops t)"
    using object_ops_in [OF assms] by (auto simp: block_ok_def table_ops_def create_ops_def dest: list.set_sel(2) [rotated])
       (metis list.set_sel(2) tl_Nil list.distinct(1) empty_iff empty_set)
  have "valid_op op" if "op \<in> set (table_ops t)" for op
    using that object_ops_in [OF assms, of op] tableFile_valid [OF assms]
    by (cases op) (auto simp: table_ops_def create_ops_def valid_op_def split: if_splits)
  then show "list_all valid_op (table_ops t)" by (simp add: list_all_iff)
qed

lemma pieces_in: "op \<in> set (pieces name bytes off) \<Longrightarrow> fst op = name \<and> is_write (fst (snd op)) \<and> length (snd (snd (snd op))) \<le> PAGE_SIZE"
proof (induction name bytes off rule: pieces.induct)
  case (1 name bytes off)
  then show ?case by (auto simp: pieces.simps [of name bytes off] is_write_def split: if_splits)
qed

lemma change_block:
  assumes "change_ok_for_log c"
  shows "block_ok (cname c) (change_ops c)" "list_all valid_op (change_ops c)"
proof -
  show "block_ok (cname c) (change_ops c)"
    using pieces_in by (fastforce simp: block_ok_def change_ops_def split: option.splits)
  have "valid_op op" if "op \<in> set (change_ops c)" for op
  proof (cases "cbytes c")
    case None
    then show ?thesis using that assms by (simp add: change_ok_for_log_def change_ops_def valid_op_def)
  next
    case (Some bytes)
    then show ?thesis using that assms pieces_in [of op "cname c" bytes 0]
      by (cases op) (auto simp: change_ok_for_log_def change_ops_def valid_op_def WAL_PAYLOAD_LEN_def PAGE_SIZE_def)
  qed
  then show "list_all valid_op (change_ops c)" by (simp add: list_all_iff)
qed

lemma commit_ops_ok:
  assumes "commit_ok ts cs fs"
  shows "list_all valid_op (commit_ops ts cs)" "restartable (commit_ops ts cs)"
proof -
  let ?bs = "map (\<lambda>t. (tableFile t, table_ops t)) (filter isDirty ts) @ map (\<lambda>c. (cname c, change_ops c)) cs"
  have t: "committable t" if "t \<in> set (filter isDirty ts)" for t using assms that by (simp add: commit_ok_def tables_ok_def)
  have c: "change_ok_for_log c" if "c \<in> set cs" for c using assms that by (simp add: commit_ok_def list_all_iff)
  have ops: "commit_ops ts cs = concat (map snd ?bs)" by (simp add: commit_ops_def comp_def)
  have "\<forall>b \<in> set ?bs. block_ok (fst b) (snd b)" using table_block(1) [OF t] change_block(1) [OF c] by auto
  moreover have "distinct (map fst ?bs)" using assms by (simp add: commit_ok_def comp_def)
  ultimately show "restartable (commit_ops ts cs)" unfolding ops by (rule restartable_blocks)
  show "list_all valid_op (commit_ops ts cs)"
    using table_block(2) [OF t] change_block(2) [OF c] by (auto simp: commit_ops_def list_all_iff)
qed

section \<open>The commit\<close>

text \<open>No transaction is in the log.\<close>

definition log_idle :: "wal_manager \<Rightarrow> bool" where
  "log_idle m \<longleftrightarrow> length (epayload (mentry m)) = WAL_PAYLOAD_LEN \<and> (logFile m = None \<or> logFile m = Some []) \<and> logSynced m = 0"

lemma initManager_idle:
  assumes "initManager x m = (ok, m')" "log_idle m"
  shows "logFile m' = None \<or> logFile m' = Some []" "ok \<Longrightarrow> logSynced m' = 0"
  using assms by (auto simp: initManager_def ensureLogOpen_def openLog_append_def syncLog_def log_idle_def Let_def split: prod.splits if_splits)

lemma resetLog_cases:
  assumes "resetLog a b m = (ok, m')"
  shows "(\<not> ok \<and> logFile m' = logFile m) \<or> (ok = b \<and> logFile m' = Some [])"
  using assms by (auto simp: resetLog_def openLog_empty_def syncLog_def Let_def split: if_splits)

definition table_after :: "table \<Rightarrow> table \<Rightarrow> bool" where
  "table_after t t' \<longleftrightarrow> (if isDirty t then (\<exists>c. t' = committed t c \<and> wf_cache c \<and> nc_map c = cache_after t) else t' = t)"

lemma commit_applied:
  assumes "commit_ok ts cs fs"
  shows "\<exists>fin. ops_apply (commit_ops ts cs) fs = Some fin"
proof -
  let ?T = "concat (map table_ops (filter isDirty ts))"
  have ok: "tables_ok ts fs" "\<forall>c \<in> set cs. \<forall>bytes. cbytes c = Some bytes \<longrightarrow> length bytes < 2 ^ 63"
    using assms by (auto simp: commit_ok_def list_all_iff change_ok_for_log_def)
  let ?w = "\<lparr>seekOk = \<lambda>_. True, writeOut = \<lambda>_. None\<rparr>"
  have "seeks ?w" "writeOut ?w = (\<lambda>_. None)" by (simp_all add: seeks_def)
  then obtain g where g: "ops_apply ?T fs = Some g" using apply_tables_works [OF ok(1), of ?w "\<lambda>_. 0" "\<lambda>_. True"] by blast
  obtain r h where h: "apply_changes (\<lambda>_. None) (\<lambda>_. True) 0 cs g = (r, h)" by (cases "apply_changes (\<lambda>_. None) (\<lambda>_. True) 0 cs g")
  then have "ops_apply (concat (map change_ops cs)) g = Some h" using apply_changes_works [OF h ok(2)] by blast
  with g show ?thesis by (simp add: commit_ops_def ops_apply_append)
qed

text \<open>After the log is complete.\<close>

lemma commit_apply:
  assumes "commit_ok ts cs fs"
  shows "\<exists>ok ts' i fs1. apply_tables w pos synced 0 ts (0, fs) = Some (ok, ts', i, fs1) \<and>
     (seeks w \<longrightarrow> interrupted_by (commit_ops ts cs) fs fs1) \<and>
     (ok \<longrightarrow> list_all2 table_after ts ts' \<and>
       (\<forall>r fs2. seeks w \<longrightarrow> apply_changes couts csynced 0 cs fs1 = (r, fs2) \<longrightarrow>
          interrupted_by (commit_ops ts cs) fs fs2 \<and> (r \<longrightarrow> ops_apply (commit_ops ts cs) fs = Some fs2)))"
proof -
  let ?T = "concat (map table_ops (filter isDirty ts))"
  have ok: "tables_ok ts fs" "\<forall>c \<in> set cs. \<forall>bytes. cbytes c = Some bytes \<longrightarrow> length bytes < 2 ^ 63"
    using assms by (auto simp: commit_ok_def list_all_iff change_ok_for_log_def)
  obtain r ts' i fs1 where t: "apply_tables w pos synced 0 ts (0, fs) = Some (r, ts', i, fs1)"
    "seeks w \<longrightarrow> finishable ?T fs fs1 \<and> (r \<longrightarrow> ops_apply ?T fs = Some fs1)" "r \<longrightarrow> list_all2 table_after ts ts'"
    using apply_tables_works [OF ok(1), of w pos synced 0 0] unfolding table_after_def [abs_def] by blast
  have i1: "seeks w \<Longrightarrow> interrupted_by (commit_ops ts cs) fs fs1" using t(2) interrupted_by.untouched by (simp add: finishable_def commit_ops_def)
  have "interrupted_by (commit_ops ts cs) fs fs2 \<and> (r2 \<longrightarrow> ops_apply (commit_ops ts cs) fs = Some fs2)"
    if r: "r" "seeks w" "apply_changes couts csynced 0 cs fs1 = (r2, fs2)" for r2 fs2
  proof -
    have c: "finishable (concat (map change_ops cs)) fs1 fs2" "r2 \<longrightarrow> ops_apply (concat (map change_ops cs)) fs1 = Some fs2"
      using apply_changes_works [OF r(3) ok(2)] by blast+
    have "interrupted_by (commit_ops ts cs) fs fs2" using c(1) i1 [OF r(2)] by (simp add: finishable_def commit_ops_def)
    with c(2) t(2) r(1,2) show ?thesis by (simp add: commit_ops_def ops_apply_append)
  qed
  with t(1,3) i1 show ?thesis by blast
qed

text \<open>What a commit comes to: the next start of the database, and any start after starts that failed on the way, brings the files to
  one of the two states.\<close>

definition outcome_ok :: "table list \<Rightarrow> files \<Rightarrow> files \<Rightarrow> commit_result \<Rightarrow> table list \<Rightarrow> wal_manager \<Rightarrow> files \<Rightarrow> bool" where
  "outcome_ok ts fs fin res ts' m' fs' \<longleftrightarrow>
     (case res of Committed \<Rightarrow> fs' = fin \<and> settles m' fs' fin \<and> list_all2 table_after ts ts'
      | Aborted \<Rightarrow> fs' = fs \<and> settles m' fs' fs \<and> ts' = map discard ts
      | Exited \<Rightarrow> settles m' fs' fs \<or> settles m' fs' fin)"

lemma outcome_ok_simps [simp]:
  "outcome_ok ts fs fin Committed ts' m' fs' \<longleftrightarrow> fs' = fin \<and> settles m' fs' fin \<and> list_all2 table_after ts ts'"
  "outcome_ok ts fs fin Aborted ts' m' fs' \<longleftrightarrow> fs' = fs \<and> settles m' fs' fs \<and> ts' = map discard ts"
  "outcome_ok ts fs fin Exited ts' m' fs' \<longleftrightarrow> settles m' fs' fs \<or> settles m' fs' fin"
  by (simp_all add: outcome_ok_def)

lemma commit_outcome:
  assumes c: "commit_ok ts cs fs" and m: "log_idle m" and fin: "ops_apply (commit_ops ts cs) fs = Some fin"
  shows "\<exists>res ts' m' fs'. commitTables x ts cs m fs = Some (res, ts', m', fs') \<and>
     (res = Aborted \<or> seeks (tableWrites x) \<longrightarrow> outcome_ok ts fs fin res ts' m' fs')"
proof (cases "cs \<noteq> [] \<or> list_ex isDirty ts")
  case False
  then have none: "filter isDirty ts = []" "cs = []" by (auto simp: filter_empty_conv list_ex_iff)
  then have "fin = fs" using fin by (simp add: commit_ops_def)
  moreover have "list_all2 table_after ts ts" using none(1) by (simp add: list_all2_same table_after_def filter_empty_conv)
  moreover have "settles m fs fs" using m settles_idle [of m fs] by (simp add: log_idle_def)
  ultimately show ?thesis using False by (simp add: commitTables_def)
next
  case any: True
  let ?ops = "commit_ops ts cs"
  obtain started m0 where init: "initManager (startCalls x) m = (started, m0)" by (cases "initManager (startCalls x) m")
  have idle: "logFile m0 = None \<or> logFile m0 = Some []" "started \<Longrightarrow> logSynced m0 = 0" using initManager_idle [OF init m] by auto
  show ?thesis
  proof (cases started)
    case False
    then show ?thesis using any init settles_idle [OF idle(1)] by (simp add: commitTables_def)
  next
    case True
    have fresh: "wf_manager m0" "logOpen m0" "logFile m0 = Some []" "numEntries m0 = 0"
      using initManager_fresh [of "startCalls x" m m0] init True m by (simp_all add: log_idle_def)
    note valid = commit_ops_ok [OF c]
    have len: "length ?ops < 2 ^ 32" using c by (simp add: commit_ok_def)
    let ?F = "full_log (transID m0) ?ops"
    have t: "\<forall>t \<in> set ts. isDirty t \<longrightarrow> committable t" using c by (simp add: commit_ok_def tables_ok_def)
    obtain ok1 s where lg: "(do { (logged, s) \<leftarrow> log_tables (entryWrote x) ts (0, m0);
              Some (if logged then log_changes (entryWrote x) cs s else (False, s)) }) = Some (ok1, s)"
        "add_all (entryWrote x) 0 ?ops m0 = (ok1, snd s)"
      using commit_logging [OF t] by blast
    obtain b s0 where l0: "log_tables (entryWrote x) ts (0, m0) = Some (b, s0)"
        "(if b then log_changes (entryWrote x) cs s0 else (False, s0)) = (ok1, s)"
      using lg(1) by (auto simp: bind_eq_Some_conv)
    define w where "w = (if ok1 then markLogCommitted (entriesSynced x) (markerWrote x) (markerSynced x) (snd s) else (False, snd s))"
    obtain ok m1 where okm: "w = (ok, m1)" by (cases w)
    have wc: "write_commit (entryWrote x) (entriesSynced x) (markerWrote x) (markerSynced x) ?ops m0 = (ok, m1)"
      using okm by (auto simp: write_commit_def lg(2) w_def split: if_splits)
    obtain k where k: "k \<le> length ?F" "logFile m1 = Some (take k ?F)" "ok \<longrightarrow> k = length ?F"
      using write_commit_log [OF valid(1) fresh(1-3) idle(2) [OF True] fresh(4) wc] by blast
    define finish where "finish = (if \<not> ok
              then let (reset, m) = resetLog (resetOpened x) (resetSynced x) m1
                   in Some (if reset then Aborted else Exited, map discard ts, m, fs)
              else do {
                (applied, us, (i, fs)) \<leftarrow> apply_tables (tableWrites x) (tablePos x) (tableSynced x) 0 ts (0, fs);
                if \<not> applied then Some (Exited, us, m1, fs)
                else let (applied, fs) = apply_changes (changeOuts x) (changeSynced x) 0 cs fs
                in if \<not> applied then Some (Exited, us, m1, fs)
                   else if (cs = [] \<longrightarrow> list_ex isNew ts) \<and> \<not> dirSynced x then Some (Exited, us, m1, fs)
                   else let (reset, m) = resetLog (resetOpened x) (resetSynced x) m1
                        in Some (if reset then Committed else Exited, us, m, fs)
              })"
    have "commitTables x ts cs m fs = finish"
      using any init True l0 okm unfolding w_def by (simp add: commitTables_def finish_def Let_def split: if_splits)
    moreover have full: "settles m' g fin" if "logFile m' = Some ?F" "interrupted_by ?ops fs g" for m' g
      by (rule settles_committed [OF valid(1) len valid(2) fin that(2,1)])
    have part: "settles m' fs fs" if "logFile m' = Some (take j ?F)" "j < length ?F" for m' j
      by (rule settles_uncommitted [OF valid(1) that(2,1)])
    have empty: "settles m' g g" if "logFile m' = Some []" for m' g using settles_idle that by blast
    obtain reset m2 where rs: "resetLog (resetOpened x) (resetSynced x) m1 = (reset, m2)" by (cases "resetLog (resetOpened x) (resetSynced x) m1")
    have rl: "(\<not> reset \<and> logFile m2 = logFile m1) \<or> logFile m2 = Some []" using resetLog_cases [OF rs] by blast
    have "\<exists>res ts' m' fs'. finish = Some (res, ts', m', fs') \<and>
      (res = Aborted \<or> seeks (tableWrites x) \<longrightarrow> outcome_ok ts fs fin res ts' m' fs')"
    proof (cases ok)
      case False
      have "settles m2 fs fs \<or> (\<not> reset \<and> settles m2 fs fin)"
        using rl part [of m2 k] full [of m2 fs] empty [of m2 fs] k(1,2) interrupted_by.untouched by (cases "k = length ?F") auto
      then show ?thesis using False rs by (auto simp: finish_def)
    next
      case True
      then have log: "logFile m1 = Some ?F" using k(2,3) by simp
      obtain a ts' i fs1 where ap: "apply_tables (tableWrites x) (tablePos x) (tableSynced x) 0 ts (0, fs) = Some (a, ts', i, fs1)"
        "seeks (tableWrites x) \<longrightarrow> interrupted_by ?ops fs fs1"
        "a \<longrightarrow> list_all2 table_after ts ts' \<and> (\<forall>r fs2. seeks (tableWrites x) \<longrightarrow> apply_changes (changeOuts x) (changeSynced x) 0 cs fs1 = (r, fs2) \<longrightarrow>
          interrupted_by ?ops fs fs2 \<and> (r \<longrightarrow> ops_apply ?ops fs = Some fs2))"
        using commit_apply [OF c] by blast
      obtain r fs2 where ch: "apply_changes (changeOuts x) (changeSynced x) 0 cs fs1 = (r, fs2)" by (cases "apply_changes (changeOuts x) (changeSynced x) 0 cs fs1")
      show ?thesis
      proof (cases "seeks (tableWrites x)")
        case False
        then show ?thesis using \<open>ok\<close> ap(1) ch rs by (auto simp: finish_def)
      next
        case sk: True
        have b: "a \<Longrightarrow> list_all2 table_after ts ts'" "a \<Longrightarrow> interrupted_by ?ops fs fs2" "a \<Longrightarrow> r \<Longrightarrow> fs2 = fin" using ap(3) ch fin sk by auto
        have e: "settles m1 fs1 fin" "a \<Longrightarrow> settles m1 fs2 fin" using full [OF log] ap(2) b(2) sk by auto
        have z: "a \<Longrightarrow> r \<Longrightarrow> settles m2 fs2 fin" using rl full [of m2 fs2] empty [of m2 fs2] log b(2,3) by auto
        show ?thesis
        proof (cases "a \<and> r \<and> \<not> ((cs = [] \<longrightarrow> list_ex isNew ts) \<and> \<not> dirSynced x)")
          case True
          then show ?thesis using \<open>ok\<close> ap(1) ch rs b z by (auto simp: finish_def)
        next
          case False
          then show ?thesis using \<open>ok\<close> ap(1) ch e by (auto simp: finish_def)
        qed
      qed
    qed
    ultimately show ?thesis by simp
  qed
qed

section \<open>Properties\<close>


text \<open>The write of the metadata of the only table fails half way.\<close>

definition ex_calls :: commit_calls where
  "ex_calls = \<lparr>startCalls = good_start, entryWrote = (\<lambda>_. 5000), entriesSynced = True, markerWrote = 16,
     markerSynced = True, tableWrites = \<lparr>seekOk = \<lambda>_. True, writeOut = (\<lambda>i. if i = 2 then Some 20 else None)\<rparr>, tablePos = (\<lambda>_. 0), tableSynced = (\<lambda>_. True), changeOuts = (\<lambda>_. None),
     changeSynced = (\<lambda>_. True), dirSynced = True, resetOpened = True, resetSynced = True\<rparr>"

lemma new_table_committable: "committable (newTable [116] ORDERING_ULONG)" "isNew (newTable [116] ORDERING_ULONG)"
  "table_ops (newTable [116] ORDERING_ULONG) = [([116, 46, 116, 98, 108], WAL_FILE_CREATE, 0, []),
     ([116, 46, 116, 98, 108], WAL_META, 0, meta_bytes (newTable [116] ORDERING_ULONG))]"
proof -
  let ?t = "newTable [116] ORDERING_ULONG"
  have f: "tname ?t = [116]" "pageSize ?t = 4096" "pageDirty ?t = initAddrTable" "nodeDirty ?t = initAddrTable" "delete ?t = initAddrTable"
    "nodeCache ?t = nodeCacheInit (1 + M_GLOBAL)" "isNew ?t"
    by (simp_all add: newTable_def initTable_def initDirtyHashmaps_def Let_def PAGE_SIZE_def)
  have n: "nodeSize ?t \<le> 4096"
    by (simp add: newTable_def initTable_def initDirtyHashmaps_def Let_def disk_sizes)
  have l: "live initAddrTable = []" by (simp add: live_def initAddrTable_def)
  have "wf_cache (nodeCache ?t)" using nodeCacheInit_wf [of "1 + M_GLOBAL"] f(6) by (simp add: M_GLOBAL_def)
  then show "committable ?t" using f n
    by (simp add: committable_def l tableFileName_def tableFile_def TABLE_EXTENSION_def WAL_FILE_NAME_LEN_def WAL_PAYLOAD_LEN_def)
  show "isNew ?t" by (rule f(7))
  show "table_ops ?t = [([116, 46, 116, 98, 108], WAL_FILE_CREATE, 0, []), ([116, 46, 116, 98, 108], WAL_META, 0, meta_bytes ?t)]"
    using f by (simp add: table_ops_def create_ops_def object_ops_def l tableFile_def TABLE_EXTENSION_def)
qed


end
