(* ===== verification/CommitReads.thy ===== *)
theory CommitReads
  imports CommitSpec
begin

text \<open>
  A commit moves the pending changes of a table into its file without changing what a reader sees: after it, with nothing
  pending any more and through a cache that was updated on the way, every page and node reads as before. That holds when no seek
  fails; what comes of a seek that does is \<open>failed_seek_committed\<close>.
\<close>

section \<open>Writes that keep apart\<close>

definition off_extent :: "nat \<Rightarrow> nat \<Rightarrow> nat \<times> byte list \<Rightarrow> bool" where
  "off_extent x z w \<longleftrightarrow> fst w + length (snd w) \<le> x \<or> x + z \<le> fst w"

lemma write_at_off:
  assumes "off_extent x z (off, data)" "x + z \<le> length bs"
  shows "segment (write_at bs off data) x z = segment bs x z" "x + z \<le> length (write_at bs off data)"
proof -
  show l: "x + z \<le> length (write_at bs off data)" using assms(2) by (auto simp: length_write_at)
  show "segment (write_at bs off data) x z = segment bs x z"
  proof (rule nth_equalityI)
    show "length (segment (write_at bs off data) x z) = length (segment bs x z)" using l assms(2) by simp
    fix i assume i: "i < length (segment (write_at bs off data) x z)"
    then have "i < z" using l by simp
    with byte_at_write_at [of bs off data "x + i"] l assms
    show "segment (write_at bs off data) x z ! i = segment bs x z ! i"
      by (auto simp: byte_at_def off_extent_def split: if_splits)
  qed
qed

lemma write_at_on: "segment (write_at bs x data) x (length data) = data" "data \<noteq> [] \<Longrightarrow> x + length data \<le> length (write_at bs x data)"
proof -
  show "segment (write_at bs x data) x (length data) = data"
    by (cases "data = []") (simp_all add: write_at_def segment_def)
qed (simp add: length_write_at)

lemma write_all_off:
  assumes "\<forall>w \<in> set ws. off_extent x z w" "x + z \<le> length bs"
  shows "segment (write_all ws bs) x z = segment bs x z \<and> x + z \<le> length (write_all ws bs)"
  using assms
proof (induction ws arbitrary: bs)
  case (Cons w ws)
  obtain off data where w: "w = (off, data)" by (cases w)
  have o: "off_extent x z (off, data)" using Cons.prems(1) w by simp
  from write_at_off [OF o Cons.prems(2)] Cons.IH [of "write_at bs off data"] Cons.prems(1) show ?case by (simp add: w)
qed simp

lemma write_all_on:
  assumes "(x, data) \<in> set ws" "data \<noteq> []" "\<forall>w \<in> set ws. w = (x, data) \<or> off_extent x (length data) w"
  shows "segment (write_all ws bs) x (length data) = data \<and> x + length data \<le> length (write_all ws bs)"
  using assms(1,3)
proof (induction ws rule: rev_induct)
  case (snoc w ws)
  show ?case
  proof (cases "w = (x, data)")
    case True
    then show ?thesis using write_at_on(1) [of "write_all ws bs" x data] write_at_on(2) [of data x "write_all ws bs"] assms(2)
      by (simp add: write_all_append)
  next
    case False
    then have o: "off_extent x (length data) (fst w, snd w)" using snoc.prems(2) by auto
    have "segment (write_all ws bs) x (length data) = data \<and> x + length data \<le> length (write_all ws bs)"
      using snoc False by auto
    with write_at_off [OF o] show ?thesis by (cases w) (simp add: write_all_append)
  qed
qed simp

section \<open>What the operations of a table leave in its file\<close>

definition op_write :: "wop \<Rightarrow> nat \<times> byte list" where
  "op_write op = (unat (fst (snd (snd op))), snd (snd (snd op)))"

lemma ops_apply_writes:
  assumes "\<forall>op \<in> set ops. fst op = f \<and> is_write (fst (snd op)) \<and> unat (fst (snd (snd op))) < 2 ^ 63" "fs f = Some bs"
  shows "\<exists>fs'. ops_apply ops fs = Some fs' \<and> fs' f = Some (write_all (map op_write ops) bs)"
  using assms
proof (induction ops arbitrary: fs bs)
  case (Cons op ops)
  obtain ty a d where op: "op = (f, ty, a, d)" "is_write ty" "unat a < 2 ^ 63" using Cons.prems(1) by (cases op) auto
  have "op_apply op fs = Some (fs(f \<mapsto> write_at bs (unat a) d))"
    using op(2,3) Cons.prems(2) unfolding op(1) by (cases ty) (simp_all add: op_apply_def is_write_def)
  moreover have "\<exists>fs'. ops_apply ops (fs(f \<mapsto> write_at bs (unat a) d)) = Some fs' \<and> fs' f = Some (write_all (map op_write ops) (write_at bs (unat a) d))"
    by (rule Cons.IH) (use Cons.prems(1) in simp_all)
  moreover have "op_write op = (unat a, d)" by (simp add: op_write_def op(1))
  ultimately show ?case by simp
qed simp

lemma object_ops_offset:
  assumes "committable t" "op \<in> set (object_ops t)" shows "unat (fst (snd (snd op))) < 2 ^ 63"
  using assms by (auto simp: object_ops_def committable_def page_entry_image node_entry_image delete_entry_def)

lemma table_file_after:
  assumes "committable t" "ops_apply (table_ops t) fs = Some fs'"
  shows "fs' (tableFile t) = Some (write_all (map op_write (object_ops t)) (if isNew t then [] else the (fs (tableFile t))))"
proof -
  have ops: "\<forall>op \<in> set (object_ops t). fst op = tableFile t \<and> is_write (fst (snd op)) \<and> unat (fst (snd (snd op))) < 2 ^ 63"
    using object_ops_in [OF assms(1)] object_ops_offset [OF assms(1)] by blast
  show ?thesis
  proof (cases "isNew t")
    case True
    then show ?thesis using ops_apply_writes [OF ops, of "fs(tableFile t \<mapsto> [])" "[]"] assms(2)
      by (simp add: table_ops_def create_ops_def op_apply_def)
  next
    case False
    have "object_ops t \<noteq> []" by (simp add: object_ops_def)
    then obtain op rest where o: "object_ops t = op # rest" by (cases "object_ops t") auto
    have "fs (tableFile t) \<noteq> None"
    proof
      assume "fs (tableFile t) = None"
      then have "op_apply op fs = None" using ops o by (cases op; cases "fst (snd op)") (simp_all add: op_apply_def is_write_def)
      then show False using assms(2) False o by (simp add: table_ops_def create_ops_def)
    qed
    then show ?thesis using ops_apply_writes [OF ops, of fs "the (fs (tableFile t))"] assms(2) False
      by (auto simp: table_ops_def create_ops_def)
  qed
qed

text \<open>The addresses in use: pages at \<open>P\<close>, nodes at \<open>N\<close>, as the allocator gives them out.\<close>

definition extents_apart :: "address \<Rightarrow> nat \<Rightarrow> address \<Rightarrow> nat \<Rightarrow> bool" where
  "extents_apart a z b w \<longleftrightarrow> unat a + z \<le> unat b \<or> unat b + w \<le> unat a"

definition spread :: "table \<Rightarrow> address set \<Rightarrow> address set \<Rightarrow> bool" where
  "spread t P N \<longleftrightarrow> (let z = nat (pageSize t); w = nat (nodeSize t) in
     (\<forall>a \<in> P \<union> N. 68 \<le> unat a \<and> unat a < 2 ^ 63) \<and>
     (\<forall>a \<in> P. \<forall>b \<in> P. a \<noteq> b \<longrightarrow> extents_apart a z b z) \<and> (\<forall>a \<in> N. \<forall>b \<in> N. a \<noteq> b \<longrightarrow> extents_apart a w b w) \<and>
     (\<forall>a \<in> P. \<forall>b \<in> N. extents_apart a z b w))"

text \<open>What is pending or cached is at these addresses.\<close>

definition placed :: "table \<Rightarrow> address set \<Rightarrow> address set \<Rightarrow> bool" where
  "placed t P N \<longleftrightarrow> dom (vmap (pageDirty t)) \<subseteq> P \<and> dom (vmap (nodeDirty t)) \<subseteq> N \<and> dom (at_map (delete t)) \<subseteq> P \<union> N \<and>
     dom (nc_map (nodeCache t)) \<subseteq> N"

lemma live_map:
  assumes "wf_at at" "valued at"
  shows "e \<in> set (live at) \<Longrightarrow> vmap at (akey e) = aval e \<and> aval e \<noteq> None"
    "vmap at a = Some v \<Longrightarrow> \<exists>e \<in> set (live at). akey e = a \<and> aval e = Some v"
proof -
  assume "e \<in> set (live at)"
  then have "e \<in> set (at_entries at)" "akey e \<noteq> 0" by (simp_all add: live_def)
  with undo_entries [OF assms] show "vmap at (akey e) = aval e \<and> aval e \<noteq> None" by blast
next
  assume v: "vmap at a = Some v"
  obtain e where e: "e \<in> set (at_entries at)" "akey e = a" "a \<noteq> 0" using undo_entry_at [OF assms(1) v] by blast
  with undo_entries [OF assms, of e] v show "\<exists>e \<in> set (live at). akey e = a \<and> aval e = Some v"
    by (intro bexI [of _ e]) (auto simp: live_def)
qed

text \<open>The state before a commit.\<close>

definition settled :: "nat \<Rightarrow> files \<Rightarrow> table \<Rightarrow> address set \<Rightarrow> address set \<Rightarrow> bool" where
  "settled n fs t P N \<longleftrightarrow> pending_ok n fs t \<and> \<not> uactive (undo t) \<and> committable t \<and> spread t P N \<and> placed t P N \<and> (isNew t \<longrightarrow> fs (tableFile t) = None)"

lemma settledD:
  assumes "settled n fs t P N"
  shows "pending_ok n fs t" "\<not> uactive (undo t)" "committable t" "spread t P N" "placed t P N" "isNew t \<longrightarrow> fs (tableFile t) = None"
  using assms by (simp_all add: settled_def)

lemma pending_page:
  assumes "settled n fs t P N" "vmap (pageDirty t) a = Some p"
  shows "storable t p" "a \<in> P" "(unat a, page_image t p) \<in> set (map op_write (object_ops t))" "copyPage p = p"
proof -
  note q = pending_okD [OF settledD(1) [OF assms(1)]]
  obtain e where e: "e \<in> set (live (pageDirty t))" "akey e = a" "aval e = Some p"
    using live_map(2) [OF held_wf [OF q(2)] q(8) assms(2)] by blast
  then show st: "storable t p" using settledD(3) [OF assms(1)] by (auto simp: committable_def)
  show "a \<in> P" using settledD(5) [OF assms(1)] assms(2) by (auto simp: placed_def)
  have "op_write (the (page_entry t e)) = (unat a, page_image t p)" by (simp add: page_entry_image [OF e(3) st] op_write_def e(2))
  then show "(unat a, page_image t p) \<in> set (map op_write (object_ops t))" using e(1) by (force simp: object_ops_def)
  show "copyPage p = p" using settledD(1) [OF assms(1)] assms(2) by (simp add: pending_ok_def)
qed

lemma pending_node:
  assumes "settled n fs t P N" "vmap (nodeDirty t) a = Some m"
  shows "storable_node t m" "a \<in> N" "(unat a, node_image t m) \<in> set (map op_write (object_ops t))"
proof -
  note q = pending_okD [OF settledD(1) [OF assms(1)]]
  obtain e where e: "e \<in> set (live (nodeDirty t))" "akey e = a" "aval e = Some m"
    using live_map(2) [OF held_wf [OF q(3)] q(9) assms(2)] by blast
  then show st: "storable_node t m" using settledD(3) [OF assms(1)] by (auto simp: committable_def)
  show "a \<in> N" using settledD(5) [OF assms(1)] assms(2) by (auto simp: placed_def)
  have "op_write (the (node_entry t e)) = (unat a, node_image t m)" by (simp add: node_entry_image [OF e(3) st] op_write_def e(2))
  then show "(unat a, node_image t m) \<in> set (map op_write (object_ops t))" using e(1) by (force simp: object_ops_def)
qed

lemma table_write_cases:
  assumes "settled n fs t P N" "w \<in> set (map op_write (object_ops t))"
  obtains (page) a p where "vmap (pageDirty t) a = Some p" "w = (unat a, page_image t p)"
  | (node) a m where "vmap (nodeDirty t) a = Some m" "w = (unat a, node_image t m)"
  | (delete) a where "at_map (delete t) a \<noteq> None" "w = (unat a, [GARBAGE_MARKER])"
  | (meta) "w = (0, meta_bytes t)"
proof -
  note q = pending_okD [OF settledD(1) [OF assms(1)]]
  obtain op where op: "op \<in> set (object_ops t)" "w = op_write op" using assms(2) by auto
  from op(1) consider (p) e where "e \<in> set (live (pageDirty t))" "op = the (page_entry t e)"
    | (n) e where "e \<in> set (live (nodeDirty t))" "op = the (node_entry t e)"
    | (d) e where "e \<in> set (live (delete t))" "op = the (delete_entry t e)" | (m) "op = (tableFile t, WAL_META, 0, meta_bytes t)"
    by (auto simp: object_ops_def)
  then show thesis
  proof cases
    case p
    then obtain x where x: "aval e = Some x" "storable t x" using settledD(3) [OF assms(1)] by (auto simp: committable_def)
    have "vmap (pageDirty t) (akey e) = Some x" using live_map(1) [OF held_wf [OF q(2)] q(8) p(1)] x(1) by simp
    then show thesis using page p(2) op(2) by (simp add: page_entry_image [OF x] op_write_def)
  next
    case n
    then obtain x where x: "aval e = Some x" "storable_node t x" using settledD(3) [OF assms(1)] by (auto simp: committable_def)
    have "vmap (nodeDirty t) (akey e) = Some x" using live_map(1) [OF held_wf [OF q(3)] q(9) n(1)] x(1) by simp
    then show thesis using node n(2) op(2) by (simp add: node_entry_image [OF x] op_write_def)
  next
    case d
    have "Some (akey e, aval e) \<in> set (view (at_entries (delete t)))"
      using d(1) by (auto simp: live_def view_def aview_def image_iff intro!: bexI [of _ e])
    moreover have "distinct_keys (view (at_entries (delete t)))" using held_wf [OF q(4)] by (simp add: wf_at_def probe_inv_def)
    ultimately have "at_map (delete t) (akey e) \<noteq> None" unfolding at_map_def by (metis option.distinct(1) table_map_Some)
    then show thesis using delete d(2) op(2) by (simp add: delete_entry_def op_write_def)
  next
    case m
    then show thesis using meta op(2) by (simp add: op_write_def)
  qed
qed

text \<open>A write to another object leaves an extent alone.\<close>

lemma other_writes_off:
  assumes s: "settled n fs t P N" and w: "w \<in> set (map op_write (object_ops t))"
    and a: "a \<in> P \<and> z = nat (pageSize t) \<or> a \<in> N \<and> z = nat (nodeSize t)" "at_map (delete t) a = None"
    and np: "a \<in> P \<Longrightarrow> \<forall>p. vmap (pageDirty t) a = Some p \<longrightarrow> w \<noteq> (unat a, page_image t p)"
    and nn: "a \<in> N \<Longrightarrow> \<forall>m. vmap (nodeDirty t) a = Some m \<longrightarrow> w \<noteq> (unat a, node_image t m)"
  shows "off_extent (unat a) z w"
proof -
  have sp: "spread t P N" and pl: "placed t P N" using settledD(4,5) [OF s] .
  have pos: "0 < nat (pageSize t)" "0 < nat (nodeSize t)" using pending_okD(1) [OF settledD(1) [OF s]] by (auto simp: layout_ok_def)
  have apart: "extents_apart a z b y" if "b \<noteq> a" "b \<in> P \<and> y = nat (pageSize t) \<or> b \<in> N \<and> y = nat (nodeSize t)" for b y
    using sp a(1) that unfolding spread_def Let_def extents_apart_def by metis
  from s w show ?thesis
  proof (cases rule: table_write_cases)
    case (page b p)
    have b: "b \<in> P" "length (page_image t p) = nat (pageSize t)" using pending_page [OF s page(1)] length_page_image by auto
    have "b \<noteq> a"
    proof
      assume "b = a" with b(1) np page show False by blast
    qed
    with apart b(1) have "extents_apart a z b (nat (pageSize t))" by blast
    then show ?thesis using page(2) b(2) by (auto simp: extents_apart_def off_extent_def)
  next
    case (node b m)
    have b: "b \<in> N" "length (node_image t m) = nat (nodeSize t)" using pending_node [OF s node(1)] length_node_image by auto
    have "b \<noteq> a"
    proof
      assume "b = a" with b(1) nn node show False by blast
    qed
    with apart b(1) have "extents_apart a z b (nat (nodeSize t))" by blast
    then show ?thesis using node(2) b(2) by (auto simp: extents_apart_def off_extent_def)
  next
    case (delete b)
    have "b \<noteq> a" using delete(1) a(2) by auto
    moreover have "b \<in> P \<or> b \<in> N" using pl delete(1) by (auto simp: placed_def)
    ultimately have "extents_apart a z b (nat (pageSize t)) \<or> extents_apart a z b (nat (nodeSize t))" using apart by blast
    then show ?thesis using delete(2) pos by (auto simp: extents_apart_def off_extent_def)
  next
    case meta
    have "68 \<le> unat a" using sp a(1) by (auto simp: spread_def Let_def)
    then show ?thesis using meta by (simp add: off_extent_def)
  qed
qed

text \<open>What a read finds in the file afterwards.\<close>

lemma consume_pending:
  assumes "(unat a, img) \<in> set (map op_write (object_ops t))" "length img = z" "img \<noteq> []" "unat a < 2 ^ 63" "committable t"
    "ops_apply (table_ops t) fs = Some fs'" "\<forall>w \<in> set (map op_write (object_ops t)). w = (unat a, img) \<or> off_extent (unat a) z w"
    "tableFile t' = tableFile t"
  shows "consumeRaw fs' z a t' = Some img"
  using write_all_on [OF assms(1,3), of "if isNew t then [] else the (fs (tableFile t))"] assms(2,4,7,8) table_file_after [OF assms(5,6)]
  by (simp add: consumeRaw_def)

lemma consume_other:
  assumes "consumeRaw fs z a t = Some raw" "committable t" "ops_apply (table_ops t) fs = Some fs'"
    "\<forall>w \<in> set (map op_write (object_ops t)). off_extent (unat a) z w" "tableFile t' = tableFile t" "isNew t \<longrightarrow> fs (tableFile t) = None"
  shows "consumeRaw fs' z a t' = Some raw"
proof -
  obtain bs where bs: "fs (tableFile t) = Some bs" "unat a < 2 ^ 63" "unat a + z \<le> length bs" "raw = segment bs (unat a) z"
    using assms(1) by (auto simp: consumeRaw_def split: option.splits if_splits)
  then have "\<not> isNew t" using assms(6) by auto
  then show ?thesis using write_all_off [OF assms(4) bs(3)] bs table_file_after [OF assms(2,3)] assms(5) by (simp add: consumeRaw_def)
qed

lemma committed_fields:
  "tableFile (committed t c) = tableFile t" "pageSize (committed t c) = pageSize t" "nodeSize (committed t c) = nodeSize t"
  "keyType (committed t c) = keyType t" "vmap (pageDirty (committed t c)) = vmap (drain (pageDirty t))"
  "vmap (nodeDirty (committed t c)) = vmap (drain (nodeDirty t))"
  by (simp_all add: committed_def opened_def tableFile_def)

lemma parsePage_cong: "pageSize t' = pageSize t \<Longrightarrow> keyType t' = keyType t \<Longrightarrow> parsePage raw t' = parsePage raw t"
  by (simp add: parsePage_def keyDiskSize_def read_header_def read_slot_def Let_def)

lemma parseNode_cong: "nodeSize t' = nodeSize t \<Longrightarrow> keyType t' = keyType t \<Longrightarrow> parseNode raw t' m = parseNode raw t m"
  by (simp add: parseNode_def keyDiskSize_def Let_def)

section \<open>The cache afterwards\<close>

lemma fold_cache_node:
  assumes "\<forall>e \<in> set es. aval e = v (akey e) \<and> aval e \<noteq> None"
  shows "fold cache_node es m a = (if m a \<noteq> None \<and> (\<exists>e \<in> set es. akey e = a) then v a else m a)"
  using assms
proof (induction es arbitrary: m)
  case (Cons e es)
  obtain y where y: "aval e = Some y" "v (akey e) = Some y" using Cons.prems by fastforce
  have cn: "cache_node e m a = (if m a \<noteq> None \<and> a = akey e then v a else m a)" using y by (auto simp: cache_node_def)
  have ih: "fold cache_node es (cache_node e m) a =
      (if cache_node e m a \<noteq> None \<and> (\<exists>e \<in> set es. akey e = a) then v a else cache_node e m a)"
    by (rule Cons.IH) (use Cons.prems in \<open>meson list.set_intros(2)\<close>)
  show ?case using y(2) by (simp only: fold.simps comp_apply ih cn) auto
qed simp

lemma fold_cache_delete: "fold cache_delete es m a = (if \<exists>e \<in> set es. akey e = a then None else m a)"
  by (induction es arbitrary: m) (auto simp: cache_delete_def)

lemma live_delete:
  assumes "held n at" "at_map at a \<noteq> None"
  shows "\<exists>e \<in> set (live at). akey e = a"
proof -
  have "distinct_keys (view (at_entries at))" using held_wf [OF assms(1)] by (simp add: wf_at_def probe_inv_def)
  then obtain v where "Some (a, v) \<in> set (view (at_entries at))"
    using assms(2) table_map_Some unfolding at_map_def by (metis not_None_eq)
  then show ?thesis by (auto simp: live_def view_def aview_def split: if_splits)
qed

lemma cache_after_cases:
  assumes "settled n fs t P N" "cache_after t a = Some m"
  shows "at_map (delete t) a = None" "nc_map (nodeCache t) a \<noteq> None"
    "m = (case vmap (nodeDirty t) a of Some d \<Rightarrow> d | None \<Rightarrow> the (nc_map (nodeCache t) a))"
proof -
  note q = pending_okD [OF settledD(1) [OF assms(1)]]
  note lm = live_map [OF held_wf [OF q(3)] q(9)]
  have nd: "\<not> (\<exists>e \<in> set (live (delete t)). akey e = a)"
    and c: "fold cache_node (live (nodeDirty t)) (nc_map (nodeCache t)) a = Some m"
    using assms(2) by (auto simp: cache_after_def fold_cache_delete split: if_splits)
  then show "at_map (delete t) a = None" using live_delete [OF q(4)] by blast
  have f: "fold cache_node (live (nodeDirty t)) (nc_map (nodeCache t)) a =
      (if nc_map (nodeCache t) a \<noteq> None \<and> (\<exists>e \<in> set (live (nodeDirty t)). akey e = a) then vmap (nodeDirty t) a else nc_map (nodeCache t) a)"
    by (rule fold_cache_node) (use lm(1) in metis)
  then show cached: "nc_map (nodeCache t) a \<noteq> None" using c by (metis option.distinct(1))
  show "m = (case vmap (nodeDirty t) a of Some d \<Rightarrow> d | None \<Rightarrow> the (nc_map (nodeCache t) a))"
  proof (cases "vmap (nodeDirty t) a")
    case None
    then have "\<not> (\<exists>e \<in> set (live (nodeDirty t)). akey e = a)" using lm(1) by metis
    then have "Some m = nc_map (nodeCache t) a" using f c by simp
    then show ?thesis using None by (metis option.sel option.simps(4))
  next
    case (Some d)
    then have "\<exists>e \<in> set (live (nodeDirty t)). akey e = a" using lm(2) by blast
    then show ?thesis using f c cached Some by simp
  qed
qed

section \<open>Reads after the commit\<close>

text \<open>All keys have the type of the table.\<close>

definition typed_node :: "ordering_type \<Rightarrow> node \<Rightarrow> bool" where
  "typed_node ty n \<longleftrightarrow> otype (nmaxKey n) = ty \<and> (\<forall>k \<in> set (take (keylim n) (keys n)). otype k = ty)"

lemma typed_id: "otype k = ty \<Longrightarrow> typed ty k = k"
  by (cases k) (simp add: typed_def)

lemma same_node_read:
  assumes "typed_node ty n" "node_arrays n" "childCount n \<le> M_GLOBAL"
  shows "same_node (node_read ty n n0) n"
proof -
  have k: "map (typed ty) (take (keylim n) (keys n)) = take (keylim n) (keys n)"
    using assms(1) by (intro map_idI) (auto simp: typed_node_def typed_id)
  have l: "keylim n \<le> length (keys n)" "childCount n \<le> length (children n)"
    using assms(2,3) by (auto simp: node_arrays_def keylim_def)
  show ?thesis
    using assms(1) l by (simp add: same_node_def node_read_def overwrite_def k typed_id typed_node_def keylim_def [of "node_read ty n n0"])
      (simp add: keylim_def min_def)
qed

lemma commit_page_read:
  assumes s: "settled n fs t P N" and o: "ops_apply (table_ops t) fs = Some fs'"
    and a: "a \<in> P" "at_map (delete t) a = None" "page_of fs t a = Some p"
  shows "\<exists>q. disk_page fs' (committed t c) a = Some q \<and> records q = records p"
proof -
  have sp: "spread t P N" "unat a < 2 ^ 63" using settledD(4) [OF s] a(1) by (auto simp: spread_def Let_def)
  have parse: "parsePage raw (committed t c) = parsePage raw t" for raw by (rule parsePage_cong) (simp_all add: committed_fields)
  have an: "a \<notin> N"
  proof
    assume "a \<in> N"
    then have "extents_apart a (nat (pageSize t)) a (nat (nodeSize t))" using sp(1) a(1) by (auto simp: spread_def Let_def)
    then show False using pending_okD(1) [OF settledD(1) [OF s]] by (auto simp: extents_apart_def layout_ok_def)
  qed
  show ?thesis
  proof (cases "vmap (pageDirty t) a")
    case (Some x)
    then have x: "x = p" using a(3) by (simp add: page_of_def)
    note pp = pending_page [OF s Some]
    have len: "length (page_image t x) = nat (pageSize t)" by (rule length_page_image [OF pp(1)])
    have "0 < nat (pageSize t)" using pending_okD(1) [OF settledD(1) [OF s]] by (simp add: layout_ok_def)
    then have ne: "page_image t x \<noteq> []" using len by auto
    have off: "\<forall>w \<in> set (map op_write (object_ops t)). w = (unat a, page_image t x) \<or> off_extent (unat a) (nat (pageSize t)) w"
    proof
      fix w assume "w \<in> set (map op_write (object_ops t))"
      then show "w = (unat a, page_image t x) \<or> off_extent (unat a) (nat (pageSize t)) w"
        using other_writes_off [OF s, of w a "nat (pageSize t)"] a(1,2) an Some by auto
    qed
    have "consumePageRaw fs' a (committed t c) = Some (page_image t x)"
      unfolding consumePageRaw_def committed_fields
      by (rule consume_pending [OF pp(3) len ne sp(2) settledD(3) [OF s] o off committed_fields(1)])
    moreover have "records (stored_form (keyType t) x) = records x"
      by (rule records_stored_form) (use pp(1) in \<open>simp add: storable_def wf_page_def\<close>)
    ultimately show ?thesis using x by (simp add: disk_page_def parse parsePage_image [OF pp(1) [unfolded x]])
  next
    case None
    then obtain raw where raw: "consumePageRaw fs a t = Some raw" "parsePage raw t = Some p"
      using a(3) by (auto simp: page_of_def disk_page_def split: option.splits)
    have off: "\<forall>w \<in> set (map op_write (object_ops t)). off_extent (unat a) (nat (pageSize t)) w"
      using other_writes_off [OF s, of _ a "nat (pageSize t)"] a(1,2) an None by auto
    have "consumePageRaw fs' a (committed t c) = Some raw"
      unfolding consumePageRaw_def committed_fields
      by (rule consume_other [OF raw(1) [unfolded consumePageRaw_def] settledD(3) [OF s] o off committed_fields(1) settledD(6) [OF s]])
    then show ?thesis using raw(2) by (simp add: disk_page_def parse)
  qed
qed

lemma commit_node_read:
  assumes s: "settled n fs t P N" and o: "ops_apply (table_ops t) fs = Some fs'"
    and ty: "\<forall>a m. vmap (nodeDirty t) a = Some m \<longrightarrow> typed_node (keyType t) m"
    and a: "a \<in> N" "at_map (delete t) a = None" "node_of fs t a = Some m"
  shows "\<exists>k. disk_node fs' (committed t c) a = Some k \<and> same_node k m"
proof -
  have sp: "spread t P N" "unat a < 2 ^ 63" using settledD(4) [OF s] a(1) by (auto simp: spread_def Let_def)
  have parse: "parseNode raw (committed t c) x = parseNode raw t x" for raw x by (rule parseNode_cong) (simp_all add: committed_fields)
  have an: "a \<notin> P"
  proof
    assume "a \<in> P"
    then have "extents_apart a (nat (pageSize t)) a (nat (nodeSize t))" using sp(1) a(1) by (auto simp: spread_def Let_def)
    then show False using pending_okD(1) [OF settledD(1) [OF s]] by (auto simp: extents_apart_def layout_ok_def)
  qed
  show ?thesis
  proof (cases "vmap (nodeDirty t) a")
    case (Some x)
    then have x: "x = m" using a(3) by (simp add: node_of_def)
    note pp = pending_node [OF s Some]
    have len: "length (node_image t x) = nat (nodeSize t)" by (rule length_node_image [OF pp(1)])
    have "0 < nat (nodeSize t)" using pending_okD(1) [OF settledD(1) [OF s]] by (simp add: layout_ok_def)
    then have ne: "node_image t x \<noteq> []" using len by auto
    have off: "\<forall>w \<in> set (map op_write (object_ops t)). w = (unat a, node_image t x) \<or> off_extent (unat a) (nat (nodeSize t)) w"
    proof
      fix w assume "w \<in> set (map op_write (object_ops t))"
      then show "w = (unat a, node_image t x) \<or> off_extent (unat a) (nat (nodeSize t)) w"
        using other_writes_off [OF s, of w a "nat (nodeSize t)"] a(1,2) an Some by auto
    qed
    have "consumeNodeRaw fs' a (committed t c) = Some (node_image t x)"
      unfolding consumeNodeRaw_def committed_fields
      by (rule consume_pending [OF pp(3) len ne sp(2) settledD(3) [OF s] o off committed_fields(1)])
    moreover have "same_node (node_read (keyType t) x zero_node) x"
      using same_node_read ty Some pp(1) by (simp add: storable_node_def)
    ultimately show ?thesis using x by (simp add: disk_node_def parse parseNode_image [OF pp(1) [unfolded x]])
  next
    case None
    then obtain raw where raw: "consumeNodeRaw fs a t = Some raw" "parseNode raw t zero_node = (True, m)"
      using a(3) by (auto simp: node_of_def disk_node_def split: option.splits prod.splits if_splits)
    have off: "\<forall>w \<in> set (map op_write (object_ops t)). off_extent (unat a) (nat (nodeSize t)) w"
      using other_writes_off [OF s, of _ a "nat (nodeSize t)"] a(1,2) an None by auto
    have "consumeNodeRaw fs' a (committed t c) = Some raw"
      unfolding consumeNodeRaw_def committed_fields
      by (rule consume_other [OF raw(1) [unfolded consumeNodeRaw_def] settledD(3) [OF s] o off committed_fields(1) settledD(6) [OF s]])
    then show ?thesis using raw(2) by (simp add: disk_node_def parse)
  qed
qed

lemma committed_settled:
  assumes s: "settled n fs t P N" and o: "ops_apply (table_ops t) fs = Some fs'"
    and ty: "\<forall>a m. vmap (nodeDirty t) a = Some m \<longrightarrow> typed_node (keyType t) m" and c: "wf_cache c" "nc_map c = cache_after t"
  shows "pending_ok n fs' (committed t c)" "\<not> isDirty (committed t c)" "hasSource t \<or> isNew t \<Longrightarrow> hasSource (committed t c)"
    "vmap (pageDirty (committed t c)) = Map.empty" "vmap (nodeDirty (committed t c)) = Map.empty"
proof -
  note q = pending_okD [OF settledD(1) [OF s]]
  let ?t = "committed t c"
  have e: "at_map (pageDirty ?t) = Map.empty" "at_map (nodeDirty ?t) = Map.empty" "at_map (delete ?t) = Map.empty"
    using drain_map(2) [OF q(2)] drain_map(2) [OF q(3)] drain_map(2) [OF q(4)] by (simp_all add: committed_def)
  then show v: "vmap (pageDirty ?t) = Map.empty" "vmap (nodeDirty ?t) = Map.empty" by (simp_all add: vmap_def [abs_def])
  show "\<not> isDirty ?t" by (simp add: isDirty_def committed_def opened_def drain_def)
  show "hasSource ?t" if "hasSource t \<or> isNew t" using that by (auto simp: committed_def opened_def)
  have h: "held n (pageDirty ?t)" "held n (nodeDirty ?t)" "held n (delete ?t)"
    using drain_map(1) [OF q(2)] drain_map(1) [OF q(3)] drain_map(1) [OF q(4)] by (simp_all add: committed_def)
  have u: "undo ?t = undo t" by (simp add: committed_def opened_def)
  have l: "layout_ok ?t" using q(1) by (simp add: layout_ok_def committed_def opened_def)
  have "\<exists>k. disk_node fs' ?t a = Some k \<and> same_node m k" if m: "nc_map c a = Some m" for a m
  proof -
    note ca = cache_after_cases [OF s m [unfolded c(2)]]
    have aN: "a \<in> N" using settledD(5) [OF s] ca(2) by (auto simp: placed_def)
    obtain x where x: "node_of fs t a = Some x" "same_node m x"
    proof (cases "vmap (nodeDirty t) a")
      case (Some d)
      then show thesis using that ca(3) by (simp add: node_of_def)
    next
      case None
      then have "nc_map (nodeCache t) a = Some m" using ca(2,3) by auto
      then obtain x where "disk_node fs t a = Some x" "same_node m x" using q(10) by (auto simp: cache_fits_def)
      then show thesis using that None by (simp add: node_of_def)
    qed
    obtain k where "disk_node fs' ?t a = Some k" "same_node k x" using commit_node_read [OF s o ty aN ca(1) x(1)] by blast
    then show ?thesis using same_node_trans [OF x(2) same_node_sym] by blast
  qed
  then have "cache_fits fs' ?t" using c(1) by (simp add: cache_fits_def) (simp add: committed_def)
  then show "pending_ok n fs' ?t"
    using l h e v settledD(2) [OF s] settledD(1) [OF s] unfolding pending_ok_def u by (simp add: valued_def)
qed

section \<open>Success\<close>

text \<open>Every call does what it should; but for the seeks, whose failure is not noticed.\<close>

definition seen_to_succeed :: "commit_calls \<Rightarrow> bool" where
  "seen_to_succeed x \<longleftrightarrow> probeOpened (startCalls x) \<and> logOpened (startCalls x) \<and> logSyncedNew (startCalls x) \<and> logDirSynced (startCalls x) \<and>
     logSeeked (startCalls x) \<and> logTold (startCalls x) \<and> (\<forall>i. WAL_ENTRY_DISK_SIZE \<le> entryWrote x i) \<and> entriesSynced x \<and>
     WAL_COMMIT_DISK_SIZE \<le> markerWrote x \<and> markerSynced x \<and> writeOut (tableWrites x) = (\<lambda>_. None) \<and> tableSynced x = (\<lambda>_. True) \<and>
     changeOuts x = (\<lambda>_. None) \<and> changeSynced x = (\<lambda>_. True) \<and> dirSynced x \<and> resetOpened x \<and> resetSynced x"

definition all_succeed :: "commit_calls \<Rightarrow> bool" where
  "all_succeed x \<longleftrightarrow> seen_to_succeed x \<and> (\<forall>i. seekOk (tableWrites x) i)"

lemma add_all_succeeds:
  assumes "list_all valid_op ops" "wf_manager m" "logOpen m" "\<forall>i. WAL_ENTRY_DISK_SIZE \<le> wrote i"
  shows "\<exists>m'. add_all wrote i ops m = (True, m') \<and> logOpen m'"
  using assms
proof (induction ops arbitrary: i m)
  case (Cons op ops)
  obtain n ty a b where op: "op = (n, ty, a, b)" by (cases op)
  obtain e' where e: "buildEntry (mentry m) n ty a b (of_nat (length b)) = Some e'" "length (epayload e') = WAL_PAYLOAD_LEN" "etrans e' = etrans (mentry m)"
    using build_op [of n ty a b "mentry m"] Cons.prems(1,2) by (auto simp: op wf_manager_def)
  obtain m1 where m1: "addLogEntry (wrote i) n ty a b (of_nat (length b)) m = (True, m1)" "wf_manager m1" "logOpen m1"
    using Cons.prems(2-4) e by (auto simp: addLogEntry_def Let_def append_log_def wf_manager_def not_less)
  with Cons.IH [OF _ m1(2,3) Cons.prems(4), of "Suc i"] Cons.prems(1) show ?case by (simp add: op)
qed simp

lemma initManager_succeeds:
  assumes "log_idle m" "logOpen m \<longrightarrow> logFile m = Some []" "probeOpened x" "logOpened x" "logSyncedNew x" "logDirSynced x" "logSeeked x" "logTold x"
  shows "\<exists>m'. initManager x m = (True, m')"
  using assms by (auto simp: initManager_def ensureLogOpen_def openLog_append_def syncLog_def log_idle_def Let_def)

lemma commit_success:
  assumes c: "commit_ok ts cs fs" and m: "log_idle m" "logOpen m \<longrightarrow> logFile m = Some []" and x: "seen_to_succeed x"
  shows "\<exists>ts' m' fs'. commitTables x ts cs m fs = Some (Committed, ts', m', fs') \<and> (logFile m' = None \<or> logFile m' = Some [])"
proof (cases "cs \<noteq> [] \<or> list_ex isDirty ts")
  case False
  then show ?thesis using m(1) by (simp add: commitTables_def log_idle_def)
next
  case any: True
  note xs = x [unfolded seen_to_succeed_def]
  obtain m0 where init: "initManager (startCalls x) m = (True, m0)"
    using initManager_succeeds [OF m] xs by blast
  have fresh: "wf_manager m0" "logOpen m0" using initManager_fresh [OF init] m(1) by (simp_all add: log_idle_def)
  obtain m1 where add: "add_all (entryWrote x) 0 (commit_ops ts cs) m0 = (True, m1)" "logOpen m1"
    using add_all_succeeds [OF commit_ops_ok(1) [OF c] fresh, of "entryWrote x" 0] xs by blast
  have t: "\<forall>t \<in> set ts. isDirty t \<longrightarrow> committable t" using c by (simp add: commit_ok_def tables_ok_def)
  obtain s where lg: "(do { (logged, s) \<leftarrow> log_tables (entryWrote x) ts (0, m0);
              Some (if logged then log_changes (entryWrote x) cs s else (False, s)) }) = Some (True, s)" "snd s = m1"
    using commit_logging [OF t, of "entryWrote x" m0 cs] add(1) by auto
  then obtain s0 where l0: "log_tables (entryWrote x) ts (0, m0) = Some (True, s0)" "log_changes (entryWrote x) cs s0 = (True, s)"
    by (auto simp: bind_eq_Some_conv split: if_splits)
  obtain m2 where mk: "markLogCommitted (entriesSynced x) (markerWrote x) (markerSynced x) m1 = (True, m2)"
    using xs add(2) by (simp add: markLogCommitted_def syncLog_def Let_def not_less)
  have ok: "tables_ok ts fs" "\<forall>c \<in> set cs. \<forall>bytes. cbytes c = Some bytes \<longrightarrow> length bytes < 2 ^ 63"
    using c by (auto simp: commit_ok_def list_all_iff change_ok_for_log_def)
  obtain ts' i fs1 where ap: "apply_tables (tableWrites x) (tablePos x) (tableSynced x) 0 ts (0, fs) = Some (True, ts', i, fs1)"
    using apply_tables_works [OF ok(1), of "tableWrites x" "tablePos x" "tableSynced x" 0 0] xs by auto
  obtain r fs2 where ch: "apply_changes (changeOuts x) (changeSynced x) 0 cs fs1 = (r, fs2)" by (cases "apply_changes (changeOuts x) (changeSynced x) 0 cs fs1")
  have "r" using apply_changes_works [OF ch ok(2)] xs by blast
  moreover obtain m3 where "resetLog (resetOpened x) (resetSynced x) m2 = (True, m3)" "logFile m3 = Some []"
    using xs by (simp add: resetLog_def openLog_empty_def syncLog_def Let_def)
  ultimately show ?thesis using any init l0 lg(2) mk ap ch xs by (simp add: commitTables_def)
qed

section \<open>Properties\<close>

text \<open>C4: A commit succeeds when nothing goes wrong: with tables the code can commit, an empty log and no failing call, it
  returns true with every change made in the files and nothing left for a recovery to do.\<close>

theorem commit_succeeds:
  assumes "commit_ok ts cs fs" "log_idle m" "logOpen m \<longrightarrow> logFile m = Some []" "all_succeed x"
  shows "\<exists>ts' m' fs'. commitTables x ts cs m fs = Some (Committed, ts', m', fs') \<and> ops_apply (commit_ops ts cs) fs = Some fs' \<and>
     settles m' fs' fs'"
proof -
  have x: "seen_to_succeed x" "seeks (tableWrites x)" using assms(4) by (simp_all add: all_succeed_def seeks_def)
  obtain ts' m' fs' where r: "commitTables x ts cs m fs = Some (Committed, ts', m', fs')" using commit_success [OF assms(1-3) x(1)] by blast
  moreover obtain fin where fin: "ops_apply (commit_ops ts cs) fs = Some fin" using commit_applied [OF assms(1)] by blast
  moreover have "fs' = fin \<and> settles m' fs' fin" using commit_outcome [OF assms(1,2) fin, of x] r x(2) by auto
  ultimately show ?thesis by auto
qed

definition good_calls :: commit_calls where
  "good_calls = ex_calls\<lparr>tableWrites := \<lparr>seekOk = \<lambda>_. True, writeOut = \<lambda>_. None\<rparr>\<rparr>"

lemma good_calls_succeed: "all_succeed good_calls" "seen_to_succeed good_calls"
  by (simp_all add: all_succeed_def seen_to_succeed_def good_start_def good_calls_def ex_calls_def WAL_ENTRY_DISK_SIZE_def WAL_FILE_NAME_LEN_def WAL_PAYLOAD_LEN_def WAL_COMMIT_DISK_SIZE_def)

theorem commit_succeeds_witness:
  "\<exists>ts' m' fs'. commitTables good_calls [] [\<lparr>cname = [115], cbytes = Some [1, 2]\<rparr>] ex_manager Map.empty = Some (Committed, ts', m', fs') \<and>
     fs' [115] = Some [1, 2]"
proof -
  let ?c = "\<lparr>cname = [115], cbytes = Some [1, 2]\<rparr>"
  have co: "change_ops ?c = [([115], WAL_FILE_CREATE, 0, []), ([115], WAL_FILE_DATA, 0, [1, 2])]"
    by (simp add: change_ops_def pieces.simps PAGE_SIZE_def)
  have ops: "commit_ops [] [?c] = [([115], WAL_FILE_CREATE, 0, []), ([115], WAL_FILE_DATA, 0, [1, 2])]" by (simp add: commit_ops_def co)
  have "commit_ok [] [?c] Map.empty" by (simp add: commit_ok_def tables_ok_def change_ok_for_log_def ops WAL_FILE_NAME_LEN_def)
  moreover have "log_idle ex_manager" "logOpen ex_manager \<longrightarrow> logFile ex_manager = Some []" by (simp_all add: log_idle_def ex_manager_def)
  ultimately obtain ts' m' fs' where r: "commitTables good_calls [] [?c] ex_manager Map.empty = Some (Committed, ts', m', fs')"
    "ops_apply (commit_ops [] [?c]) Map.empty = Some fs'"
    using commit_succeeds [OF _ _ _ good_calls_succeed(1), of "[]" "[?c]" Map.empty ex_manager] by blast
  moreover have "fs' [115] = Some [1, 2]" using r(2) unfolding ops by (auto simp: op_apply_def write_at_def)
  ultimately show ?thesis by blast
qed

lemma commit_files:
  assumes "commitTables x ts [] m fs = Some (Committed, ts', m', fs')" "list_ex isDirty ts"
  shows "\<exists>i. apply_tables (tableWrites x) (tablePos x) (tableSynced x) 0 ts (0, fs) = Some (True, ts', i, fs')"
  using assms by (auto simp: commitTables_def Let_def bind_eq_Some_conv split: if_splits prod.splits)

text \<open>A seek that fails is not noticed: the mark of a deleted object is written over the metadata, which is then written again, and
  the commit reports success, without the mark and with nothing in the log to repair it.\<close>

theorem failed_seek_committed:
  "\<exists>x t m fs ts' m' fs' fin. commit_ok [t] [] fs \<and> log_idle m \<and> commitTables x [t] [] m fs = Some (Committed, ts', m', fs') \<and>
     ops_apply (commit_ops [t] []) fs = Some fin \<and> fs' \<noteq> fin \<and> settles m' fs' fs'"
proof -
  let ?t0 = "newTable [116] ORDERING_ULONG" and ?f = "[116, 46, 116, 98, 108] :: fname"
  define t where "t = ?t0\<lparr>isNew := False, hasSource := True,
    delete := \<lparr>at_count = 1, at_capacity = 1, at_entries = [\<lparr>akey = 100, aval = Some ()\<rparr>]\<rparr>\<rparr>"
  define fs :: files where "fs = [?f \<mapsto> replicate 104 7]"
  define w where "w = \<lparr>seekOk = \<lambda>i. i \<noteq> 0, writeOut = \<lambda>_. None\<rparr>"
  define x where "x = good_calls\<lparr>tableWrites := w\<rparr>"
  have f: "pageDirty t = initAddrTable" "nodeDirty t = initAddrTable" "\<not> isNew t" "tname t = [116]" "nodeCache t = nodeCacheInit (1 + M_GLOBAL)"
    "pageSize t = 4096" "nodeSize t = nodeSize ?t0" "tableFile t = ?f" "at_entries (delete t) = [\<lparr>akey = 100, aval = Some ()\<rparr>]" "isDirty t"
    by (simp_all add: t_def newTable_def initTable_def initDirtyHashmaps_def Let_def PAGE_SIZE_def tableFile_def TABLE_EXTENSION_def isDirty_def)
  have l: "live initAddrTable = ([] :: 'v addr_entry list)" by (simp add: live_def initAddrTable_def)
  have c0: "wf_cache (nodeCacheInit (1 + M_GLOBAL))" using nodeCacheInit_wf [of "1 + M_GLOBAL"] by (simp add: M_GLOBAL_def)
  have ct: "committable t"
    using new_table_committable(1) c0 by (auto simp: committable_def f l live_def [of "delete t"] tableFileName_def WAL_FILE_NAME_LEN_def
      newTable_def initTable_def initDirtyHashmaps_def Let_def WAL_PAYLOAD_LEN_def)
  have ops: "commit_ops [t] [] = [(?f, WAL_DELETE, 100, [2]), (?f, WAL_META, 0, meta_bytes t)]"
    using f(10) by (simp add: commit_ops_def table_ops_def create_ops_def object_ops_def f(1-3,8) l live_def [of "delete t"] f(9) delete_entry_def GARBAGE_MARKER_def)
  have ok: "commit_ok [t] [] fs"
    using ct f(10) by (simp add: commit_ok_def tables_ok_def ops f(8) fs_def)
  have m: "log_idle ex_manager" "logOpen ex_manager \<longrightarrow> logFile ex_manager = Some []" by (simp_all add: log_idle_def ex_manager_def)
  have "seen_to_succeed x" using good_calls_succeed(2) by (simp add: seen_to_succeed_def x_def w_def)
  then obtain ts' m' fs' where r: "commitTables x [t] [] ex_manager fs = Some (Committed, ts', m', fs')" "logFile m' = None \<or> logFile m' = Some []"
    using commit_success [OF ok m] by blast
  then obtain i where ap: "apply_tables w (tablePos x) (tableSynced x) 0 [t] (0, fs) = Some (True, ts', i, fs')"
    using commit_files [OF r(1)] f(10) by (auto simp: x_def)
  have pos: "tablePos x = (\<lambda>_. 0)" "tableSynced x = (\<lambda>_. True)" by (simp_all add: x_def good_calls_def ex_calls_def)
  obtain c where c: "nodeCacheRemove (nodeCacheInit (1 + M_GLOBAL)) 100 = Some (nc_map (nodeCacheInit (1 + M_GLOBAL)) 100 \<noteq> None, c)"
    using nodeCacheRemove_map [OF c0, of 100] by auto
  define t1 where "t1 = t\<lparr>pageDirty := drain initAddrTable, nodeDirty := drain initAddrTable, nodeCache := c, delete := drain (delete t)\<rparr>"
  have t1: "meta_bytes t1 = meta_bytes t" "tableFile t1 = ?f" using f(8) by (simp_all add: t1_def meta_bytes_def fillMeta_def tableFile_def)
  have at: "applyTable w 0 True t (0, fs) = Some (True, t1, 4, fs(?f \<mapsto> write_at (write_at (replicate 104 7) 0 [2]) 0 (meta_bytes t)))"
  proof -
    have p: "apply_pages w t (at_entries (pageDirty t)) y = Some y" for y by (simp add: f(1) initAddrTable_def empty_entry_def numeral_eq_Suc)
    have n: "apply_nodes w (at_entries (nodeDirty u)) (v, y) = Some (v, y)" if "nodeDirty u = initAddrTable" for u v y
      using that by (simp add: initAddrTable_def empty_entry_def numeral_eq_Suc)
    define u where "u = t\<lparr>pageDirty := drain initAddrTable, nodeDirty := drain initAddrTable\<rparr>"
    have u: "tableFile u = ?f" "nodeCache u = nodeCacheInit (1 + M_GLOBAL)" "at_entries (delete u) = [\<lparr>akey = 100, aval = Some ()\<rparr>]"
      using f(5,8,9) by (simp_all add: u_def tableFile_def)
    have d: "apply_deletes w (at_entries (delete u)) (u, ((0, 0), False, fs)) =
        Some (u\<lparr>nodeCache := c\<rparr>, ((Suc (Suc 0), 1), False, fs(?f \<mapsto> write_at (replicate 104 7) 0 [2])))"
      using c by (simp add: u(3) deleteObject_def seek_to_def write_out_def u(1,2) w_def fs_def GARBAGE_MARKER_def Let_def)
    have e: "write_meta w t1 ((Suc (Suc 0), Suc 0), False, g) = Some ((4, 68), False, g(?f \<mapsto> write_at old 0 (meta_bytes t)))" if "g ?f = Some old" for g old
      using that by (simp add: write_meta_def seek_to_def write_out_def t1 w_def)
    have uc: "u\<lparr>nodeCache := c, delete := drain (delete u)\<rparr> = t1" by (simp add: u_def t1_def)
    show ?thesis
      unfolding applyTable_def using p f(3) n [of "t\<lparr>pageDirty := drain initAddrTable\<rparr>"] d e [of "fs(?f \<mapsto> write_at (replicate 104 7) 0 [2])"] uc
      by (simp add: f(1,2) u_def Let_def)
  qed
  have "fs' = fs(?f \<mapsto> write_at (write_at (replicate 104 7) 0 [2]) 0 (meta_bytes t))" using ap f(10) by (simp add: pos at)
  moreover define fin where "fin = fs(?f \<mapsto> write_at (write_at (replicate 104 7) 100 [2]) 0 (meta_bytes t))"
  moreover have "ops_apply (commit_ops [t] []) fs = Some fin" by (simp add: ops op_apply_def fs_def fin_def)
  moreover have "byte_at (write_at (write_at (replicate 104 7) 0 [2]) 0 (meta_bytes t)) 100 \<noteq> byte_at (write_at (write_at (replicate 104 7) 100 [2]) 0 (meta_bytes t)) 100"
    by (simp add: byte_at_write_at) (simp add: byte_at_def)
  ultimately have "fs' \<noteq> fin" by (metis fun_upd_same option.inject)
  with r m(1) ok \<open>ops_apply (commit_ops [t] []) fs = Some fin\<close> settles_idle [OF r(2)] show ?thesis by blast
qed

text \<open>C3: Committing does not change what is read. When the commit of a table whose objects lie apart succeeds, and no seek before
  its writes failed (which it would not notice), the table
  has nothing pending, its cache agrees with the new file, and every page and node that was not deleted reads as before:
  a page with the same records, a node with the same fields, children and keys.\<close>

theorem commit_keeps_reads:
  assumes "settled n fs t P N" "\<forall>a m. vmap (nodeDirty t) a = Some m \<longrightarrow> typed_node (keyType t) m" "isDirty t"
    "isNew t \<or> fs (tableFile t) \<noteq> None" "length (table_ops t) < 2 ^ 32" "log_idle m"
    "\<forall>i. seekOk (tableWrites x) i" "commit x t m fs = Some (Committed, ts', m', fs')"
  shows "\<exists>t'. ts' = [t'] \<and> pending_ok n fs' t' \<and> \<not> isDirty t' \<and>
     (\<forall>a \<in> P. at_map (delete t) a = None \<longrightarrow> (\<forall>p. page_of fs t a = Some p \<longrightarrow> (\<exists>q. page_of fs' t' a = Some q \<and> records q = records p))) \<and>
     (\<forall>a \<in> N. at_map (delete t) a = None \<longrightarrow> (\<forall>k. node_of fs t a = Some k \<longrightarrow> (\<exists>k'. node_of fs' t' a = Some k' \<and> same_node k' k)))"
proof -
  note s = assms(1) and ty = assms(2)
  have "commit_ok [t] [] fs"
    using settledD(3) [OF s] assms(3-5) by (simp add: commit_ok_def tables_ok_def commit_ops_def)
  from commit_outcome [OF this assms(6), of _ x] commit_applied [OF this] assms(7,8)
  have r: "ops_apply (commit_ops [t] []) fs = Some fs'" "list_all2 table_after [t] ts'"
    unfolding commit_def seeks_def by fastforce+
  have o: "ops_apply (table_ops t) fs = Some fs'" using r(1) assms(3) by (simp add: commit_ops_def)
  obtain c where c: "ts' = [committed t c]" "wf_cache c" "nc_map c = cache_after t"
    using r(2) assms(3) by (auto simp: list_all2_Cons1 table_after_def)
  note cs = committed_settled [OF s o ty c(2,3)]
  have "\<exists>q. page_of fs' (committed t c) a = Some q \<and> records q = records p" if "a \<in> P" "at_map (delete t) a = None" "page_of fs t a = Some p" for a p
    using commit_page_read [OF s o that, of c] by (simp add: page_of_def cs(4))
  moreover have "\<exists>k'. node_of fs' (committed t c) a = Some k' \<and> same_node k' k" if "a \<in> N" "at_map (delete t) a = None" "node_of fs t a = Some k" for a k
    using commit_node_read [OF s o ty that, of c] by (simp add: node_of_def cs(5))
  ultimately show ?thesis using c(1) cs(1,2) by blast
qed

theorem commit_keeps_reads_witness:
  "\<exists>t ts' m' fs' t' k. markNode 68 ex_leaf (newTable [116] ORDERING_ULONG) = Some t \<and>
     commit good_calls t ex_manager Map.empty = Some (Committed, ts', m', fs') \<and> ts' = [t'] \<and> node_of fs' t' 68 = Some k \<and> childCount k = 1"
proof -
  let ?t0 = "newTable [116] ORDERING_ULONG"
  have t0: "pending_ok 0 Map.empty ?t0" "\<not> uactive (undo ?t0)"
    using init_pending(1) [where n = 0 and fs = Map.empty and name = "[116]" and ty = ORDERING_ULONG and b = False and c = True]
      init_pending(2) [where name = "[116]" and ty = ORDERING_ULONG and b = False and c = True]
    by (simp_all add: newTable_def initTable_def initDirtyHashmaps_def Let_def)
  obtain t where t: "markNode 68 ex_leaf ?t0 = Some t" "keeps 1 Map.empty ?t0 t" "vmap (nodeDirty t) = [68 \<mapsto> ex_leaf]"
    using markNode_spec [OF t0(1), of 68 ex_leaf] by (auto simp: newTable_def initTable_def initDirtyHashmaps_def Let_def)
  obtain d where d: "t = ?t0\<lparr>nodeDirty := d\<rparr>"
    using t(1) t0(2) by (auto simp: markNode_def rememberNode_def bind_eq_Some_conv split: if_splits)
  have f: "pageDirty t = initAddrTable" "nodeDirty t = d" "delete t = initAddrTable" "isNew t" "tname t = [116]" "undo t = undo ?t0"
    "nodeCache t = nodeCacheInit (1 + M_GLOBAL)" "keyType t = ORDERING_ULONG" "pageSize t = 4096" "nodeSize t = nodeSize ?t0"
    by (simp_all add: d newTable_def initTable_def initDirtyHashmaps_def Let_def PAGE_SIZE_def)
  have p: "pending_ok 1 Map.empty t" using t(2) by (simp add: keeps_def)
  have l: "live initAddrTable = ([] :: 'v addr_entry list)" by (simp add: live_def initAddrTable_def)
  have hd: "held 1 d" "valued d" using pending_okD(3,9) [OF p] f(2) by simp_all
  have ld: "\<forall>e \<in> set (live d). akey e = 68 \<and> aval e = Some ex_leaf"
    using live_map(1) [OF held_wf [OF hd(1)] hd(2)] t(3) f(2) by (metis fun_upd_apply option.distinct(1))
  have st: "storable_node t ex_leaf"
    by (simp add: d storable_node_def ex_leaf_def node_arrays_def zero_node_def keylim_def key_ok_def keyDiskSize_def disk_sizes numeral_eq_Suc
      newTable_def initTable_def initDirtyHashmaps_def Let_def)
  have cache: "wf_cache (nodeCacheInit (1 + M_GLOBAL))" "nc_map (nodeCacheInit (1 + M_GLOBAL)) = Map.empty"
    using nodeCacheInit_wf [of "1 + M_GLOBAL"] by (simp_all add: M_GLOBAL_def)
  have ct: "committable t"
    using new_table_committable(1) ld st by (auto simp: committable_def f l cache tableFileName_def tableFile_def newTable_def initTable_def
      initDirtyHashmaps_def Let_def WAL_PAYLOAD_LEN_def PAGE_SIZE_def)
  have s: "settled 1 Map.empty t {} {68}"
    using p t0(2) ct t(3) cache by (simp add: settled_def spread_def placed_def f Let_def)
  have ty: "\<forall>a m. vmap (nodeDirty t) a = Some m \<longrightarrow> typed_node (keyType t) m"
    by (simp add: t(3) f(8) typed_node_def ex_leaf_def zero_node_def zero_key_def keylim_def M_GLOBAL_def take_Suc numeral_eq_Suc)
  have dirty: "isDirty t" by (simp add: isDirty_def f(4))
  have "length (live d) \<le> 10"
    using hd(1) length_filter_le [of "\<lambda>e. akey e \<noteq> 0" "at_entries d"] by (auto simp: held_def wf_at_def live_def)
  then have len: "length (table_ops t) < 2 ^ 32" by (simp add: table_ops_def create_ops_def object_ops_def f l)
  have m: "log_idle ex_manager" "logOpen ex_manager \<longrightarrow> logFile ex_manager = Some []" by (simp_all add: log_idle_def ex_manager_def)
  have "commit_ok [t] [] Map.empty" using ct len dirty f(4) by (simp add: commit_ok_def tables_ok_def commit_ops_def)
  then obtain ts' m' fs' where c: "commit good_calls t ex_manager Map.empty = Some (Committed, ts', m', fs')"
    using commit_success [OF _ m good_calls_succeed(2)] unfolding commit_def by blast
  have n: "node_of Map.empty t 68 = Some ex_leaf" by (simp add: node_of_def t(3))
  have nd: "at_map (delete t) 68 = None" by (simp add: f(3))
  have sk: "\<forall>i. seekOk (tableWrites good_calls) i" by (simp add: good_calls_def)
  show ?thesis using commit_keeps_reads [OF s ty dirty _ len m(1) sk c] c t(1) n nd f(4)
    by (fastforce simp: same_node_def ex_leaf_def)
qed

end
