(* ===== verification/BPlus.thy ===== *)
theory BPlus
  imports CommitReads Search
begin

text \<open>
  The B+ tree of \<open>storage_engine/bplus.c\<close>, operation by operation, on the pending state of a table (theory \<open>Pending\<close>).
  A node struct that a function changes through its pointer is returned. Everything is in the \<open>option\<close> monad: \<open>None\<close> is
  undefined behaviour (an index outside an array, the use of a struct that was never filled) or a recursion deeper
  than the bound \<open>d\<close>, which stands for the height of the tree and which the lemmas show to be enough. The places
  behind \<open>childCount\<close> of a struct on the stack that a read fills are taken as zero; nothing looks at them.
\<close>

section \<open>Array accesses and searches\<close>

definition idx :: "'a list \<Rightarrow> nat \<Rightarrow> 'a option" where
  "idx xs i = (if i < length xs then Some (xs ! i) else None)"

definition upd :: "'a list \<Rightarrow> nat \<Rightarrow> 'a \<Rightarrow> 'a list option" where
  "upd xs i x = (if i < length xs then Some (xs[i := x]) else None)"

text \<open>The first of the \<open>k\<close> indices from \<open>i\<close> on at which a test holds: a \<open>for\<close> loop that leaves at a hit.\<close>

primrec scan :: "(nat \<Rightarrow> bool option) \<Rightarrow> nat \<Rightarrow> nat \<Rightarrow> nat option option" where
  "scan test i 0 = Some None"
| "scan test i (Suc k) = do { b \<leftarrow> test i; if b then Some (Some i) else scan test (Suc i) k }"

definition find_child :: "address \<Rightarrow> node \<Rightarrow> nat \<Rightarrow> nat \<Rightarrow> nat option option" where
  "find_child addr n i k = scan (\<lambda>i. do { c \<leftarrow> idx (children n) i; Some (c = addr) }) i k"

text \<open>\<open>childCount - 1\<close>, computed in \<open>uint32_t\<close>.\<close>

definition last_index :: "node \<Rightarrow> nat" where
  "last_index n = (if childCount n = 0 then 2 ^ 32 - 1 else childCount n - 1)"

text \<open>A node read into an uninitialised struct that is used whether the read succeeded or not.\<close>

definition read_fresh :: "files \<Rightarrow> address \<Rightarrow> table \<Rightarrow> (node \<times> table) option" where
  "read_fresh fs addr t = do { ((ok, n), t) \<leftarrow> readNode fs addr zero_node t; if ok then Some (n, t) else None }"

section \<open>Creating trees\<close>

text \<open>The new root, the old one and the table.\<close>

definition newRoot :: "node \<Rightarrow> address \<Rightarrow> table \<Rightarrow> (node \<times> node \<times> table) option" where
  "newRoot child childAddr t = do {
     let new = zero_node\<lparr>childCount := 1, children := (children zero_node)[0 := childAddr], parent := 0, nprev := 0, nnext := 0,
                         isLeaf := False, nmaxKey := nmaxKey child\<rparr>;
     let (rootAdd, t) = allocNode t;
     let child = child\<lparr>parent := rootAdd\<rparr>;
     t \<leftarrow> markNode childAddr child t;
     t \<leftarrow> markNode rootAdd new t;
     Some (new, child, setRoot rootAdd t)
   }"

definition newNode :: "bool \<Rightarrow> address \<Rightarrow> node" where
  "newNode leaf par = zero_node\<lparr>isLeaf := leaf, parent := par, childCount := 0, nmaxKey := zero_key\<rparr>"

definition newPage :: "table \<Rightarrow> slotted_page" where
  "newPage t = makeSPage PAGE_NUM_SLOTS PAGE_NUM_ENTRIES (pageCapacity t) (keyDiskSize t)"

definition newTree :: "fname \<Rightarrow> ordering_type \<Rightarrow> table option" where
  "newTree name ty = do {
     let t = newTable name ty;
     let firstKey = zero_key\<lparr>otype := ty\<rparr>;
     let (rootAddr, t) = allocNode t;
     let page = newPage t;
     (pageAddr, t) \<leftarrow> allocPage t;
     let rootNode = zero_node\<lparr>childCount := 1, children := (children zero_node)[0 := pageAddr],
                              keys := (keys zero_node)[0 := firstKey], isLeaf := True, nmaxKey := firstKey\<rparr>;
     let t = setRoot rootAddr t;
     t \<leftarrow> markNode rootAddr rootNode t;
     markPage False pageAddr page t
   }"

text \<open>The table, or \<open>None\<close> for \<open>NULL\<close>; the process may also exit within the commit.\<close>

definition createTree :: "commit_calls \<Rightarrow> fname \<Rightarrow> ordering_type \<Rightarrow> wal_manager \<Rightarrow> files \<Rightarrow>
    (commit_result \<times> table option \<times> wal_manager \<times> files) option" where
  "createTree x name ty m fs = do {
     t \<leftarrow> newTree name ty;
     (res, ts, m, fs) \<leftarrow> commit x t m fs;
     Some (res, if res = Committed then Some (hd ts) else None, m, fs)
   }"

definition deleteTree :: "bool \<Rightarrow> bool \<Rightarrow> table \<Rightarrow> files \<Rightarrow> bool \<times> files" where
  "deleteTree removed closed t fs = deleteTable removed closed t fs"

section \<open>Helpers\<close>

text \<open>The shifts print a message and change nothing when \<open>start\<close> or \<open>target\<close> is behind the array; their result is not
  looked at.\<close>

definition shiftArrayR :: "'a \<Rightarrow> 'a list \<Rightarrow> nat \<Rightarrow> nat \<Rightarrow> 'a list" where
  "shiftArrayR zero array start len =
     (if int start > int len - 1 then array else (shift_right array start len)[start := zero])"

definition shiftArrayL :: "'a \<Rightarrow> 'a list \<Rightarrow> nat \<Rightarrow> nat \<Rightarrow> 'a list" where
  "shiftArrayL zero array target len =
     (if int target > int len - 1 then array else (shift_left 1 array target (len - 1))[len - 1 := zero])"

definition shiftKeyArrayR :: "ordering_key list \<Rightarrow> nat \<Rightarrow> nat \<Rightarrow> ordering_key list" where
  "shiftKeyArrayR array start len = shiftArrayR zero_key array start len"

definition shiftKeyArrayL :: "ordering_key list \<Rightarrow> nat \<Rightarrow> nat \<Rightarrow> ordering_key list" where
  "shiftKeyArrayL array target len = shiftArrayL zero_key array target len"

definition shiftAddressArrayR :: "address list \<Rightarrow> nat \<Rightarrow> nat \<Rightarrow> address list" where
  "shiftAddressArrayR array start len = shiftArrayR 0 array start len"

definition shiftAddressArrayL :: "address list \<Rightarrow> nat \<Rightarrow> nat \<Rightarrow> address list" where
  "shiftAddressArrayL array target len = shiftArrayL 0 array target len"

definition HALF_M :: nat where "HALF_M = M_GLOBAL div 2"

definition isNodeFull :: "node \<Rightarrow> bool" where
  "isNodeFull n \<longleftrightarrow> childCount n \<ge> M_GLOBAL"

definition isRoot :: "node \<Rightarrow> bool" where
  "isRoot n \<longleftrightarrow> parent n = 0 \<and> childCount n > 0"

definition getNextInternal :: "files \<Rightarrow> node \<Rightarrow> address \<Rightarrow> table \<Rightarrow> (address \<times> table) option" where
  "getNextInternal fs n nAddr t =
     (if parent n = 0 then Some (0, t)
      else do {
        (par, t) \<leftarrow> read_fresh fs (parent n) t;
        i \<leftarrow> find_child nAddr par 0 (last_index par);
        case i of None \<Rightarrow> Some (0, t) | Some i \<Rightarrow> do { c \<leftarrow> idx (children par) (i + 1); Some (c, t) }
      })"

definition getPrevInternal :: "files \<Rightarrow> node \<Rightarrow> address \<Rightarrow> table \<Rightarrow> (address \<times> table) option" where
  "getPrevInternal fs n nAddr t =
     (if parent n = 0 then Some (0, t)
      else do {
        (par, t) \<leftarrow> read_fresh fs (parent n) t;
        i \<leftarrow> find_child nAddr par 1 (childCount par - 1);
        case i of None \<Rightarrow> Some (0, t) | Some i \<Rightarrow> do { c \<leftarrow> idx (children par) (i - 1); Some (c, t) }
      })"

text \<open>The first place whose key is larger: the test of the loops of \<open>insertPageIntoChildren\<close> and \<open>splitUpdateParent\<close>.\<close>

definition find_larger :: "node \<Rightarrow> ordering_key \<Rightarrow> nat \<Rightarrow> nat option option" where
  "find_larger n key k = scan (\<lambda>i. do { x \<leftarrow> idx (keys n) i; Some (compareOrderingKeys x key > 0) }) 0 k"

section \<open>Insertion\<close>

fun propagateMaxKeyUp :: "files \<Rightarrow> nat \<Rightarrow> address \<Rightarrow> ordering_key \<Rightarrow> table \<Rightarrow> table option" where
  "propagateMaxKeyUp fs 0 nodeAddr newMaxKey t = None"
| "propagateMaxKeyUp fs (Suc d) nodeAddr newMaxKey t = do {
     ((ok, n), t) \<leftarrow> readNode fs nodeAddr zero_node t;
     if \<not> ok \<or> parent n = 0 then Some t
     else do {
       ((ok, par), t) \<leftarrow> readNode fs (parent n) zero_node t;
       if \<not> ok then Some t
       else do {
         i \<leftarrow> find_child nodeAddr par 0 (childCount par);
         case i of None \<Rightarrow> Some t
         | Some i \<Rightarrow>
             if i < last_index par
             then do { ks \<leftarrow> upd (keys par) i newMaxKey; markNode (parent n) (par\<lparr>keys := ks\<rparr>) t }
             else do {
               t \<leftarrow> markNode (parent n) (par\<lparr>nmaxKey := newMaxKey\<rparr>) t;
               propagateMaxKeyUp fs d (parent n) newMaxKey t
             }
       }
     }
   }"

definition insertPageIntoChildren :: "files \<Rightarrow> nat \<Rightarrow> node \<Rightarrow> address \<Rightarrow> ordering_key \<Rightarrow> address \<Rightarrow> table \<Rightarrow> (node \<times> table) option" where
  "insertPageIntoChildren fs d n nodeAddr key pageAddr t = do {
     i \<leftarrow> find_larger n key (childCount n);
     case i of
       Some i \<Rightarrow> do {
         ks \<leftarrow> upd (shiftKeyArrayR (keys n) i M_GLOBAL) i key;
         cs \<leftarrow> upd (shiftAddressArrayR (children n) i M_GLOBAL) i pageAddr;
         let n = n\<lparr>keys := ks, children := cs, childCount := childCount n + 1\<rparr>;
         t \<leftarrow> markNode nodeAddr n t;
         Some (n, t)
       }
     | None \<Rightarrow> do {
         ks \<leftarrow> upd (keys n) (childCount n) key;
         cs \<leftarrow> upd (children n) (childCount n) pageAddr;
         let n = n\<lparr>keys := ks, children := cs, childCount := childCount n + 1, nmaxKey := key\<rparr>;
         t \<leftarrow> markNode nodeAddr n t;
         t \<leftarrow> propagateMaxKeyUp fs d nodeAddr (nmaxKey n) t;
         Some (n, t)
       }
   }"

text \<open>The part of \<open>splitUpdateParent\<close> behind the split of a full parent.\<close>

definition place_child :: "files \<Rightarrow> nat \<Rightarrow> node \<Rightarrow> node \<Rightarrow> address \<Rightarrow> ordering_key \<Rightarrow> table \<Rightarrow> table option" where
  "place_child fs d par child childAddr newKey t = do {
     i \<leftarrow> find_larger par newKey (last_index par);
     case i of
       Some i \<Rightarrow> do {
         ks \<leftarrow> upd (shiftKeyArrayR (keys par) i M_GLOBAL) i newKey;
         cs \<leftarrow> upd (shiftAddressArrayR (children par) (i + 1) M_GLOBAL) (i + 1) childAddr;
         markNode (parent child) (par\<lparr>keys := ks, children := cs, childCount := childCount par + 1\<rparr>) t
       }
     | None \<Rightarrow> do {
         ks \<leftarrow> upd (keys par) (last_index par) newKey;
         cs \<leftarrow> upd (children par) (childCount par) childAddr;
         t \<leftarrow> markNode (parent child) (par\<lparr>keys := ks, children := cs, childCount := childCount par + 1, nmaxKey := nmaxKey child\<rparr>) t;
         propagateMaxKeyUp fs d (parent child) (nmaxKey child) t
       }
   }"

text \<open>One turn of the loops of \<open>splitNode\<close>; the state is the node, the new node and the table.\<close>

definition split_child :: "files \<Rightarrow> nat \<Rightarrow> address \<Rightarrow> nat \<Rightarrow> node \<times> node \<times> table \<Rightarrow> (node \<times> node \<times> table) option" where
  "split_child fs keepCount newAddr i s = do {
     let (n, new, t) = s;
     childAddr \<leftarrow> idx (children n) (i + keepCount);
     cs1 \<leftarrow> upd (children new) i childAddr;
     cs \<leftarrow> upd (children n) (i + keepCount) 0;
     let new = new\<lparr>children := cs1\<rparr>;
     let n = n\<lparr>children := cs\<rparr>;
     if isLeaf n then Some (n, new, t)
     else do {
       ((ok, cn), t) \<leftarrow> readNode fs childAddr zero_node t;
       if ok then do { t \<leftarrow> markNode childAddr (cn\<lparr>parent := newAddr\<rparr>) t; Some (n, new, t) } else Some (n, new, t)
     }
   }"

definition split_key :: "nat \<Rightarrow> nat \<Rightarrow> node \<times> node \<Rightarrow> (node \<times> node) option" where
  "split_key keepCount i s = do {
     let (n, new) = s;
     k \<leftarrow> idx (keys n) (i + keepCount);
     ks1 \<leftarrow> upd (keys new) i k;
     ks \<leftarrow> upd (keys n) (i + keepCount) zero_key;
     Some (n\<lparr>keys := ks\<rparr>, new\<lparr>keys := ks1\<rparr>)
   }"

text \<open>The first half of \<open>splitNode\<close>: children and keys are divided. The middle key goes up.\<close>

definition split_halves :: "files \<Rightarrow> node \<Rightarrow> node \<Rightarrow> address \<Rightarrow> table \<Rightarrow> (node \<times> node \<times> ordering_key \<times> table) option" where
  "split_halves fs n new newAddr t = do {
     let middleKid = childCount n div 2;
     let keepCount = childCount n - middleKid;
     separatorKey \<leftarrow> (if keepCount = 0 then None else idx (keys n) (keepCount - 1));
     (n, new, t) \<leftarrow> foldo (split_child fs keepCount newAddr) [0..<middleKid] (n, new, t);
     (n, new) \<leftarrow> (if isLeaf n then foldo (split_key keepCount) [0..<middleKid] (n, new)
                  else do {
                    (n, new) \<leftarrow> foldo (split_key keepCount) [0..<middleKid - 1] (n, new);
                    ks \<leftarrow> upd (keys n) (keepCount - 1) zero_key;
                    Some (n\<lparr>keys := ks\<rparr>, new)
                  });
     Some (n\<lparr>childCount := keepCount\<rparr>, new\<lparr>childCount := middleKid\<rparr>, separatorKey, t)
   }"

text \<open>The second: the new leaf enters the linked list, and both halves get their largest key.\<close>

definition split_links :: "files \<Rightarrow> address \<Rightarrow> address \<Rightarrow> node \<Rightarrow> node \<Rightarrow> table \<Rightarrow> (node \<times> node \<times> table) option" where
  "split_links fs addr newAddr n new t = do {
     (n, new, t) \<leftarrow>
       (if \<not> isLeaf n then Some (n, new, t)
        else if nnext n \<noteq> 0
        then do {
          let oldNext = nnext n;
          let n = n\<lparr>nnext := newAddr\<rparr>;
          let new = new\<lparr>nprev := addr, nnext := oldNext\<rparr>;
          (tmp, t) \<leftarrow> read_fresh fs oldNext t;
          t \<leftarrow> markNode oldNext (tmp\<lparr>nprev := newAddr\<rparr>) t;
          Some (n, new, t)
        }
        else Some (n\<lparr>nnext := newAddr\<rparr>, new\<lparr>nprev := addr\<rparr>, t));
     let new = new\<lparr>nmaxKey := nmaxKey n\<rparr>;
     if isLeaf n
     then do { k \<leftarrow> idx (keys n) (last_index n); Some (n\<lparr>nmaxKey := k\<rparr>, new, t) }
     else do {
       c \<leftarrow> idx (children n) (last_index n);
       ((ok, lastChild), t) \<leftarrow> readNode fs c zero_node t;
       Some (n\<lparr>nmaxKey := nmaxKey lastChild\<rparr>, new, t)
     }
   }"

text \<open>\<open>splitUpdateParent\<close> returns the child, whose parent can change, and the table; \<open>splitNode\<close> the node, the new node,
  its address and the table; \<open>balanceTreeAdd\<close> the new node and its address, or \<open>None\<close> for \<open>NULL\<close>, the node and the table.\<close>

fun splitUpdateParent :: "files \<Rightarrow> nat \<Rightarrow> node \<Rightarrow> node \<Rightarrow> address \<Rightarrow> ordering_key \<Rightarrow> table \<Rightarrow> (node \<times> table) option"
and splitNode :: "files \<Rightarrow> nat \<Rightarrow> node \<Rightarrow> address \<Rightarrow> table \<Rightarrow> (node \<times> node \<times> address \<times> table) option"
and balanceTreeAdd :: "files \<Rightarrow> nat \<Rightarrow> node \<Rightarrow> address \<Rightarrow> table \<Rightarrow> ((node \<times> address) option \<times> node \<times> table) option" where
  "splitUpdateParent fs 0 par child childAddr newKey t = None"
| "splitUpdateParent fs (Suc d) par child childAddr newKey t =
     (if isNodeFull par
      then do {
        (sibling, par, t) \<leftarrow> balanceTreeAdd fs d par (parent child) t;
        (newSibling, newSiblingAddr) \<leftarrow> sibling;
        if compareOrderingKeys newKey (nmaxKey par) > 0
        then splitUpdateParent fs d newSibling (child\<lparr>parent := newSiblingAddr\<rparr>) childAddr newKey t
        else do { t \<leftarrow> place_child fs (Suc d) par child childAddr newKey t; Some (child, t) }
      }
      else do { t \<leftarrow> place_child fs (Suc d) par child childAddr newKey t; Some (child, t) })"
| "splitNode fs 0 n addr t = None"
| "splitNode fs (Suc d) n addr t = do {
     let new = newNode (isLeaf n) (parent n);
     let (newAddr, t) = allocNode t;
     (n, new, separatorKey, t) \<leftarrow> split_halves fs n new newAddr t;
     (n, new, t) \<leftarrow> split_links fs addr newAddr n new t;
     let splitKey = (if isLeaf n then nmaxKey n else separatorKey);
     (par, t) \<leftarrow> read_fresh fs (parent n) t;
     (new, t) \<leftarrow> splitUpdateParent fs d par new newAddr splitKey t;
     t \<leftarrow> markNode addr n t;
     t \<leftarrow> markNode newAddr new t;
     Some (n, new, newAddr, t)
   }"
| "balanceTreeAdd fs 0 n addr t = None"
| "balanceTreeAdd fs (Suc d) n addr t =
     (if \<not> isNodeFull n then Some (None, n, t)
      else do {
        (n, t) \<leftarrow>
          (if isRoot n then do { (new, n, t) \<leftarrow> newRoot n addr t; Some (n, t) }
           else do {
             (par, t) \<leftarrow> read_fresh fs (parent n) t;
             if isNodeFull par
             then do {
               (sibling, par, t) \<leftarrow> balanceTreeAdd fs d par (parent n) t;
               ((ok, n), t) \<leftarrow> readNode fs addr n t;
               Some (n, t)
             }
             else Some (n, t)
           });
        (n, new, newAddr, t) \<leftarrow> splitNode fs d n addr t;
        Some (Some (new, newAddr), n, t)
      })"

definition addPage :: "files \<Rightarrow> nat \<Rightarrow> node \<Rightarrow> address \<Rightarrow> ordering_key \<Rightarrow> address \<Rightarrow> table \<Rightarrow> table option" where
  "addPage fs d n nodeAddr key pageAddr t =
     (if isNodeFull n
      then do {
        (sibling, n, t) \<leftarrow> balanceTreeAdd fs d n nodeAddr t;
        (new, newNodeAddr) \<leftarrow> sibling;
        if compareOrderingKeys key (nmaxKey n) > 0
        then do {
          (new, t) \<leftarrow> insertPageIntoChildren fs d new newNodeAddr key pageAddr t;
          (r, t) \<leftarrow> read_fresh fs (root t) t;
          if compareOrderingKeys key (nmaxKey r) > 0 then markNode (root t) (r\<lparr>nmaxKey := key\<rparr>) t else Some t
        }
        else do { (n, t) \<leftarrow> insertPageIntoChildren fs d n nodeAddr key pageAddr t; Some t }
      }
      else do { (n, t) \<leftarrow> insertPageIntoChildren fs d n nodeAddr key pageAddr t; Some t })"

section \<open>Deletion\<close>

text \<open>The node itself is \<open>source\<close> or \<open>survivor\<close>; which one is the last value of \<open>merge_roles\<close>. The node that is read into
  one of the zeroed structs is used even when the read failed.\<close>

definition merge_roles :: "files \<Rightarrow> node \<Rightarrow> address \<Rightarrow> table \<Rightarrow>
    ((node \<times> address) \<times> (node \<times> address) \<times> bool \<times> table) option" where
  "merge_roles fs n addr t = do {
     (prevAddr, t) \<leftarrow> getPrevInternal fs n addr t;
     (prev, t) \<leftarrow> (if prevAddr \<noteq> 0 then do { ((ok, prev), t) \<leftarrow> readNode fs prevAddr zero_node t; Some (prev, t) }
                    else Some (zero_node, t));
     if prevAddr \<noteq> 0 \<and> parent prev = parent n
     then Some ((prev, prevAddr), (n, addr), False, t)
     else do {
       (sourceAddr, t) \<leftarrow> getNextInternal fs n addr t;
       ((ok, source), t) \<leftarrow> readNode fs sourceAddr zero_node t;
       Some ((n, addr), (source, sourceAddr), True, t)
     }
   }"

text \<open>The loops that copy keys and children to the survivor.\<close>

definition merge_page :: "node \<Rightarrow> nat \<Rightarrow> node \<Rightarrow> node option" where
  "merge_page source i survivor = do {
     k \<leftarrow> idx (keys source) i;
     ks \<leftarrow> upd (keys survivor) (childCount survivor) k;
     c \<leftarrow> idx (children source) i;
     cs \<leftarrow> upd (children survivor) (childCount survivor) c;
     Some (survivor\<lparr>keys := ks, children := cs, childCount := childCount survivor + 1\<rparr>)
   }"

definition merge_child :: "files \<Rightarrow> node \<Rightarrow> ordering_key \<Rightarrow> address \<Rightarrow> nat \<Rightarrow> node \<times> table \<Rightarrow> (node \<times> table) option" where
  "merge_child fs source boundaryKey survAddr i s = do {
     let (survivor, t) = s;
     k \<leftarrow> (if i = 0 then Some boundaryKey else idx (keys source) (i - 1));
     ks \<leftarrow> upd (keys survivor) (last_index survivor) k;
     c \<leftarrow> idx (children source) i;
     cs \<leftarrow> upd (children survivor) (childCount survivor) c;
     let survivor = survivor\<lparr>keys := ks, children := cs, childCount := childCount survivor + 1\<rparr>;
     ((ok, cn), t) \<leftarrow> readNode fs c zero_node t;
     if ok then do { t \<leftarrow> markNode c (cn\<lparr>parent := survAddr\<rparr>) t; Some (survivor, t) } else Some (survivor, t)
   }"

definition boundary_key :: "node \<Rightarrow> address \<Rightarrow> address \<Rightarrow> ordering_key option" where
  "boundary_key par survAddr sourceAddr = do {
     i \<leftarrow> scan (\<lambda>i. do { a \<leftarrow> idx (children par) i;
                          if a \<noteq> survAddr then Some False else do { b \<leftarrow> idx (children par) (i + 1); Some (b = sourceAddr) } })
            0 (last_index par);
     case i of None \<Rightarrow> Some zero_key | Some i \<Rightarrow> idx (keys par) i
   }"

definition merge_contents :: "files \<Rightarrow> node \<Rightarrow> node \<times> address \<Rightarrow> node \<times> address \<Rightarrow> table \<Rightarrow> (node \<times> table) option" where
  "merge_contents fs n surv src t = do {
     let (survivor, survAddr) = surv;
     let (source, sourceAddr) = src;
     if isLeaf n
     then do {
       survivor \<leftarrow> foldo (merge_page source) [0..<childCount source] survivor;
       let survivor = survivor\<lparr>nnext := nnext source\<rparr>;
       if nnext source \<noteq> 0
       then do {
         (tmp, t) \<leftarrow> read_fresh fs (nnext source) t;
         t \<leftarrow> markNode (nnext survivor) (tmp\<lparr>nprev := survAddr\<rparr>) t;
         Some (survivor, t)
       }
       else Some (survivor, t)
     }
     else do {
       (mergeParent, t) \<leftarrow> loadParent fs n zero_node t;
       boundaryKey \<leftarrow> boundary_key mergeParent survAddr sourceAddr;
       foldo (merge_child fs source boundaryKey survAddr) [0..<childCount source] (survivor, t)
     }
   }"

definition drop_child :: "address \<Rightarrow> node \<Rightarrow> node option" where
  "drop_child addr par = do {
     i \<leftarrow> find_child addr par 0 (childCount par);
     let par = (case i of None \<Rightarrow> par
       | Some i \<Rightarrow> par\<lparr>children := shiftAddressArrayL (children par) i M_GLOBAL,
                       keys := shiftKeyArrayL (keys par) (if i = 0 then 0 else i - 1) M_GLOBAL\<rparr>);
     Some (par\<lparr>childCount := u32_sub (childCount par) 1\<rparr>)
   }"

definition isValidBorrow :: "node \<Rightarrow> node \<Rightarrow> bool" where
  "isValidBorrow n target \<longleftrightarrow> childCount target > M_GLOBAL div 2 \<and> parent target = parent n"

definition borrowNext :: "files \<Rightarrow> node \<Rightarrow> address \<Rightarrow> node \<Rightarrow> address \<Rightarrow> table \<Rightarrow> (node \<times> table) option" where
  "borrowNext fs n nAddr next nextAddr t = do {
     borrowedAddr \<leftarrow> idx (children next) 0;
     cs \<leftarrow> upd (children n) (childCount n) borrowedAddr;
     k \<leftarrow> idx (keys next) 0;
     ks \<leftarrow> upd (keys n) (childCount n) k;
     let n = n\<lparr>children := cs, keys := ks, childCount := childCount n + 1, nmaxKey := k\<rparr>;
     let next = next\<lparr>childCount := childCount next - 1, children := shiftAddressArrayL (children next) 0 M_GLOBAL,
                     keys := shiftKeyArrayL (keys next) 0 M_GLOBAL\<rparr>;
     t \<leftarrow> markNode nAddr n t;
     t \<leftarrow> markNode nextAddr next t;
     (par, t) \<leftarrow> loadParent fs n zero_node t;
     i \<leftarrow> find_child nAddr par 0 (childCount par - 1);
     case i of None \<Rightarrow> Some (n, t)
     | Some i \<Rightarrow> do { ks \<leftarrow> upd (keys par) i (nmaxKey n); t \<leftarrow> markNode (parent n) (par\<lparr>keys := ks\<rparr>) t; Some (n, t) }
   }"

definition borrowPrev :: "files \<Rightarrow> node \<Rightarrow> address \<Rightarrow> node \<Rightarrow> address \<Rightarrow> table \<Rightarrow> (node \<times> table) option" where
  "borrowPrev fs n nAddr prev prevAddr t = do {
     let c = childCount prev - 1;
     k \<leftarrow> idx (keys prev) c;
     borrowedAddr \<leftarrow> idx (children prev) c;
     let n = n\<lparr>keys := (shiftKeyArrayR (keys n) 0 M_GLOBAL)[0 := k],
               children := (shiftAddressArrayR (children n) 0 M_GLOBAL)[0 := borrowedAddr]\<rparr>;
     let prev = prev\<lparr>childCount := c, keys := (keys prev)[c := zero_key], children := (children prev)[c := 0]\<rparr>;
     mk \<leftarrow> idx (keys prev) (last_index prev);
     let prev = prev\<lparr>nmaxKey := mk\<rparr>;
     let n = n\<lparr>childCount := childCount n + 1\<rparr>;
     t \<leftarrow> markNode nAddr n t;
     t \<leftarrow> markNode prevAddr prev t;
     (par, t) \<leftarrow> loadParent fs n zero_node t;
     i \<leftarrow> find_child prevAddr par 0 (childCount par - 1);
     case i of None \<Rightarrow> Some (n, t)
     | Some i \<Rightarrow> do { ks \<leftarrow> upd (keys par) i (nmaxKey prev); t \<leftarrow> markNode (parent n) (par\<lparr>keys := ks\<rparr>) t; Some (n, t) }
   }"

definition borrowNextThroughParent :: "files \<Rightarrow> node \<Rightarrow> address \<Rightarrow> node \<Rightarrow> address \<Rightarrow> table \<Rightarrow> (node \<times> table) option" where
  "borrowNextThroughParent fs n nAddr next nextAddr t = do {
     (par, t) \<leftarrow> loadParent fs n zero_node t;
     i \<leftarrow> find_child nAddr par 0 (childCount par);
     case i of None \<Rightarrow> Some (n, t)
     | Some i \<Rightarrow> do {
         pk \<leftarrow> idx (keys par) i;
         ks \<leftarrow> upd (keys n) (last_index n) pk;
         nk \<leftarrow> idx (keys next) 0;
         let par = par\<lparr>keys := (keys par)[i := nk]\<rparr>;
         borrowedAddr \<leftarrow> idx (children next) 0;
         cs \<leftarrow> upd (children n) (childCount n) borrowedAddr;
         let n = n\<lparr>keys := ks, children := cs, childCount := childCount n + 1\<rparr>;
         ((ok, borrowed), t) \<leftarrow> readNode fs borrowedAddr zero_node t;
         let n = n\<lparr>nmaxKey := nmaxKey borrowed\<rparr>;
         t \<leftarrow> markNode borrowedAddr (borrowed\<lparr>parent := nAddr\<rparr>) t;
         let next = next\<lparr>keys := shiftKeyArrayL (keys next) 0 (M_GLOBAL - 1), children := shiftAddressArrayL (children next) 0 M_GLOBAL,
                         childCount := childCount next - 1\<rparr>;
         ncs \<leftarrow> upd (children next) (childCount next) 0;
         nks \<leftarrow> upd (keys next) (last_index next) zero_key;
         let next = next\<lparr>children := ncs, keys := nks\<rparr>;
         t \<leftarrow> markNode nAddr n t;
         t \<leftarrow> markNode nextAddr next t;
         t \<leftarrow> markNode (parent n) par t;
         Some (n, t)
       }
   }"

definition borrowPrevThroughParent :: "files \<Rightarrow> node \<Rightarrow> address \<Rightarrow> node \<Rightarrow> address \<Rightarrow> table \<Rightarrow> (node \<times> table) option" where
  "borrowPrevThroughParent fs n nAddr prev prevAddr t = do {
     (par, t) \<leftarrow> loadParent fs n zero_node t;
     i \<leftarrow> find_child nAddr par 1 (childCount par - 1);
     case i of None \<Rightarrow> Some (n, t)
     | Some i \<Rightarrow> do {
         pk \<leftarrow> idx (keys par) (i - 1);
         let n = n\<lparr>keys := (shiftKeyArrayR (keys n) 0 M_GLOBAL)[0 := pk]\<rparr>;
         let prev = prev\<lparr>childCount := childCount prev - 1\<rparr>;
         borrowedAddr \<leftarrow> idx (children prev) (childCount prev);
         let n = n\<lparr>children := (shiftAddressArrayR (children n) 0 M_GLOBAL)[0 := borrowedAddr], childCount := childCount n + 1\<rparr>;
         k \<leftarrow> idx (keys prev) (last_index prev);
         let par = par\<lparr>keys := (keys par)[i - 1 := k]\<rparr>;
         let prev = prev\<lparr>nmaxKey := k, children := (children prev)[childCount prev := 0], keys := (keys prev)[last_index prev := zero_key]\<rparr>;
         ((ok, borrowed), t) \<leftarrow> readNode fs borrowedAddr zero_node t;
         t \<leftarrow> (if ok then markNode borrowedAddr (borrowed\<lparr>parent := nAddr\<rparr>) t else Some t);
         t \<leftarrow> markNode nAddr n t;
         t \<leftarrow> markNode prevAddr prev t;
         t \<leftarrow> markNode (parent n) par t;
         Some (n, t)
       }
   }"

text \<open>A sibling as \<open>balanceTreeDelete\<close> reads it, zero when there is none.\<close>

definition read_sibling :: "files \<Rightarrow> address \<Rightarrow> table \<Rightarrow> (node \<times> table) option" where
  "read_sibling fs addr t =
     (if addr \<noteq> 0 then do { ((ok, m), t) \<leftarrow> readNode fs addr zero_node t; Some (m, t) } else Some (zero_node, t))"

text \<open>Both return the address of the node that survives, the node struct as it was left, and the table.\<close>

fun mergeNode :: "files \<Rightarrow> nat \<Rightarrow> node \<Rightarrow> address \<Rightarrow> table \<Rightarrow> (address \<times> node \<times> table) option"
and balanceTreeDelete :: "files \<Rightarrow> nat \<Rightarrow> node \<Rightarrow> address \<Rightarrow> table \<Rightarrow> (address \<times> node \<times> table) option" where
  "mergeNode fs 0 n addr t = None"
| "mergeNode fs (Suc d) n addr t = do {
     ((survivor, survAddr), (source, sourceAddr), nSurvives, t) \<leftarrow> merge_roles fs n addr t;
     (survivor, t) \<leftarrow> merge_contents fs n (survivor, survAddr) (source, sourceAddr) t;
     let source = source\<lparr>childCount := 0\<rparr>;
     t \<leftarrow> markNode sourceAddr source t;
     let survivor = survivor\<lparr>nmaxKey := nmaxKey source\<rparr>;
     t \<leftarrow> markNode survAddr survivor t;
     t \<leftarrow> propagateMaxKeyUp fs (Suc d) survAddr (nmaxKey survivor) t;
     let n = (if nSurvives then survivor else source);
     (par, t) \<leftarrow> loadParent fs n zero_node t;
     par \<leftarrow> drop_child sourceAddr par;
     t \<leftarrow> markDelete sourceAddr t;
     t \<leftarrow>
       (if isRoot par
        then if childCount par = 1 then do { (a, par, t) \<leftarrow> balanceTreeDelete fs d par (parent n) t; Some t }
             else markNode (parent n) par t
        else if childCount par < HALF_M then do { (a, par, t) \<leftarrow> balanceTreeDelete fs d par (parent n) t; Some t }
        else markNode (parent n) par t);
     Some (survAddr, n, t)
   }"
| "balanceTreeDelete fs 0 n addr t = None"
| "balanceTreeDelete fs (Suc d) n addr t =
     (if isLeaf n
      then do {
        (nextAddr, t) \<leftarrow> getNextInternal fs n addr t;
        (next, t) \<leftarrow> read_sibling fs nextAddr t;
        (par, t) \<leftarrow> read_fresh fs (parent n) t;
        if nextAddr \<noteq> 0 \<and> isValidBorrow n next
        then do {
          (n, t) \<leftarrow> borrowNext fs n addr next nextAddr t;
          t \<leftarrow> (if childCount par < HALF_M \<and> \<not> isRoot par
                 then do { (a, par, t) \<leftarrow> balanceTreeDelete fs d par (parent n) t; Some t } else Some t);
          Some (addr, n, t)
        }
        else do {
          (prevAddr, t) \<leftarrow> getPrevInternal fs n addr t;
          (prev, t) \<leftarrow> read_sibling fs prevAddr t;
          if prevAddr \<noteq> 0 \<and> isValidBorrow n prev
          then do {
            (n, t) \<leftarrow> borrowPrev fs n addr prev prevAddr t;
            t \<leftarrow> (if childCount par < HALF_M \<and> \<not> isRoot par
                   then do { (a, par, t) \<leftarrow> balanceTreeDelete fs d par (parent n) t; Some t } else Some t);
            Some (addr, n, t)
          }
          else mergeNode fs d n addr t
        }
      }
      else if addr = root t \<and> childCount n = 1
      then do {
        rAddr \<leftarrow> idx (children n) 0;
        (r, t) \<leftarrow> read_fresh fs rAddr t;
        let t = setRoot rAddr t;
        t \<leftarrow> markNode rAddr (r\<lparr>parent := 0\<rparr>) t;
        Some (rAddr, n, t)
      }
      else do {
        (nextAddr, t) \<leftarrow> getNextInternal fs n addr t;
        (nextNode, t) \<leftarrow> read_sibling fs nextAddr t;
        if nextAddr \<noteq> 0 \<and> isValidBorrow n nextNode
        then do { (n, t) \<leftarrow> borrowNextThroughParent fs n addr nextNode nextAddr t; Some (addr, n, t) }
        else do {
          (prevAddr, t) \<leftarrow> getPrevInternal fs n addr t;
          (prevNode, t) \<leftarrow> read_sibling fs prevAddr t;
          if prevAddr \<noteq> 0 \<and> isValidBorrow n prevNode
          then do { (n, t) \<leftarrow> borrowPrevThroughParent fs n addr prevNode prevAddr t; Some (addr, n, t) }
          else mergeNode fs d n addr t
        }
      })"

text \<open>Whether the page was deleted, the leaf it was deleted from with its address, and the table.\<close>

definition deletePage :: "files \<Rightarrow> nat \<Rightarrow> node \<Rightarrow> address \<Rightarrow> address \<Rightarrow> table \<Rightarrow> (bool \<times> node \<times> address \<times> table) option" where
  "deletePage fs d n nAddr pageAddr t =
     (if \<not> isLeaf n then Some (False, n, nAddr, t)
      else do {
        (n, nAddr, t) \<leftarrow>
          (if childCount n = HALF_M \<and> \<not> isRoot n
           then do {
             (nAddr, n, t) \<leftarrow> balanceTreeDelete fs d n nAddr t;
             ((ok, n), t) \<leftarrow> readNode fs nAddr n t;
             Some (n, nAddr, t)
           }
           else Some (n, nAddr, t));
        i \<leftarrow> find_child pageAddr n 0 (childCount n);
        case i of None \<Rightarrow> Some (False, n, nAddr, t)
        | Some i \<Rightarrow> do {
            t \<leftarrow> markDelete pageAddr t;
            let n = n\<lparr>keys := shiftKeyArrayL (keys n) i M_GLOBAL, children := shiftAddressArrayL (children n) i M_GLOBAL,
                      childCount := childCount n - 1\<rparr>;
            n \<leftarrow> (if i = childCount n \<and> childCount n > 0
                   then do { k \<leftarrow> idx (keys n) (childCount n - 1); Some (n\<lparr>nmaxKey := k\<rparr>) } else Some n);
            t \<leftarrow> markNode nAddr n t;
            Some (True, n, nAddr, t)
          }
      })"

section \<open>Finding the page of a key\<close>

text \<open>The loop of \<open>findLeaf\<close>; address 0 is the failure.\<close>

fun descend :: "files \<Rightarrow> nat \<Rightarrow> ordering_key \<Rightarrow> address \<Rightarrow> node \<Rightarrow> table \<Rightarrow> ((address \<times> node) \<times> table) option" where
  "descend fs d key addr leaf t =
     (if isLeaf leaf then Some ((addr, leaf), t)
      else if childCount leaf = 0 then Some ((0, leaf), t)
      else case d of 0 \<Rightarrow> None
      | Suc d \<Rightarrow> do {
          hit \<leftarrow> scan (\<lambda>i. do { k \<leftarrow> idx (keys leaf) i; Some (\<not> compareOrderingKeys key k > 0) }) 0 (childCount leaf - 1);
          let i = (case hit of None \<Rightarrow> childCount leaf - 1 | Some i \<Rightarrow> i);
          addr \<leftarrow> idx (children leaf) i;
          ((ok, leaf), t) \<leftarrow> readNode fs addr leaf t;
          if \<not> ok then Some ((0, leaf), t) else descend fs d key addr leaf t
        })"

declare descend.simps [simp del]

definition findLeaf :: "files \<Rightarrow> nat \<Rightarrow> ordering_key \<Rightarrow> node \<Rightarrow> table \<Rightarrow> ((address \<times> node) \<times> table) option" where
  "findLeaf fs d key leaf t =
     (if otype key \<noteq> keyType t then Some ((0, leaf), t)
      else do {
        ((ok, leaf), t) \<leftarrow> readNode fs (root t) leaf t;
        if \<not> ok then Some ((0, leaf), t) else descend fs d key (root t) leaf t
      })"

definition findPageInLeaf :: "node \<Rightarrow> ordering_key \<Rightarrow> nat" where
  "findPageInLeaf leaf key = lower_bound_loop (\<lambda>mid. compareOrderingKeys (keys leaf ! mid) key < 0) 0 (childCount leaf)"

text \<open>The page's address, or 0, and the leaf's address unless it is left untouched.\<close>

definition findPageAndLeaf :: "files \<Rightarrow> nat \<Rightarrow> ordering_key \<Rightarrow> table \<Rightarrow> ((address \<times> address option) \<times> table) option" where
  "findPageAndLeaf fs d key t = do {
     ((leafAddr, leaf), t) \<leftarrow> findLeaf fs d key zero_node t;
     if leafAddr = 0 then Some ((0, None), t)
     else let i = findPageInLeaf leaf key
     in if i = childCount leaf then Some ((0, None), t)
        else do { c \<leftarrow> idx (children leaf) i; Some ((c, Some leafAddr), t) }
   }"

definition findPage :: "files \<Rightarrow> nat \<Rightarrow> ordering_key \<Rightarrow> table \<Rightarrow> (address \<times> table) option" where
  "findPage fs d key t = do { ((c, l), t) \<leftarrow> findPageAndLeaf fs d key t; Some (c, t) }"

section \<open>Splitting a page\<close>

text \<open>The two loops of \<open>chooseSplit\<close>; the state is the best split so far, if any, and its difference, and in the outer
  loop also \<open>below\<close>. The result is \<open>None\<close> for the returned \<open>false\<close>.\<close>

definition split_side :: "slotted_page \<Rightarrow> bool \<Rightarrow> nat \<Rightarrow> nat \<Rightarrow> nat \<Rightarrow> nat \<Rightarrow> bool \<Rightarrow> (nat \<times> bool) option \<times> nat \<Rightarrow> (nat \<times> bool) option \<times> nat" where
  "split_side p hasRecord pos needed keep below inUpper s =
     (let (found, best) = s; capacity = arrCap (hdr p); total = SPUsedBytes p
      in if \<not> hasRecord \<and> inUpper then s
         else if hasRecord \<and> (if inUpper then pos < keep else pos > keep) then s
         else
           let extra = (if hasRecord then needed else 0);
               lower = u32_add below (if inUpper then 0 else extra);
               upper = u32_add (u32_sub total below) (if inUpper then extra else 0)
           in if lower = 0 \<or> upper = 0 \<or> lower > capacity \<or> upper > capacity then s
              else let difference = (if lower > upper then lower - upper else upper - lower)
                   in if difference < best then (Some (keep, inUpper), difference) else s)"

definition split_keep :: "slotted_page \<Rightarrow> bool \<Rightarrow> nat \<Rightarrow> nat \<Rightarrow> nat \<Rightarrow> nat \<times> (nat \<times> bool) option \<times> nat \<Rightarrow> nat \<times> (nat \<times> bool) option \<times> nat" where
  "split_keep p hasRecord pos needed keep s =
     (let (below, s) = s; s = fold (split_side p hasRecord pos needed keep below) [False, True] s
      in (if keep < numRecords (hdr p) then u32_add below (SPRecordBytes p (ssize (slots p ! keep)) (slen (slots p ! keep))) else below, s))"

definition chooseSplit :: "slotted_page \<Rightarrow> bool \<Rightarrow> nat \<Rightarrow> nat \<Rightarrow> (nat \<times> bool) option" where
  "chooseSplit p hasRecord pos needed =
     fst (snd (fold (split_keep p hasRecord pos needed) [0..<numRecords (hdr p) + 1] (0, None, 2 ^ 32 - 1)))"

definition addPageAfter :: "files \<Rightarrow> nat \<Rightarrow> address \<Rightarrow> ordering_key \<Rightarrow> address \<Rightarrow> ordering_key \<Rightarrow> table \<Rightarrow> (bool \<times> table) option" where
  "addPageAfter fs d pageAddr lowerKey newAddr newKey t = do {
     ((leafAddr, leaf), t) \<leftarrow> findLeaf fs d lowerKey zero_node t;
     if leafAddr = 0 then Some (False, t)
     else do {
       let i = findPageInLeaf leaf lowerKey;
       elsewhere \<leftarrow> (if i = childCount leaf then Some True else do { c \<leftarrow> idx (children leaf) i; Some (c \<noteq> pageAddr) });
       if elsewhere then Some (False, t)
       else do {
         bound \<leftarrow> idx (keys leaf) i;
         let leaf = leaf\<lparr>keys := (keys leaf)[i := lowerKey]\<rparr>;
         t \<leftarrow> markNode leafAddr leaf t;
         t \<leftarrow> addPage fs d leaf leafAddr (if compareOrderingKeys newKey bound > 0 then newKey else bound) newAddr t;
         Some (True, t)
       }
     }
   }"

text \<open>The records a page keeps when no even split fits: as many as it has room for, or \<open>None\<close> when the first does not fit.\<close>

fun room_loop :: "slotted_page \<Rightarrow> nat \<Rightarrow> nat \<Rightarrow> nat \<Rightarrow> nat" where
  "room_loop p keep 0 room = keep"
| "room_loop p keep (Suc k) room =
     (let room = u32_add room (SPRecordBytes p (ssize (slots p ! keep)) (slen (slots p ! keep)))
      in if room > arrCap (hdr p) then keep else room_loop p (Suc keep) k room)"

definition choose_keep :: "slotted_page \<Rightarrow> nat option" where
  "choose_keep p =
     (case chooseSplit p False 0 0 of Some (keep, u) \<Rightarrow> Some keep
      | None \<Rightarrow> let keep = room_loop p 0 (numRecords (hdr p)) 0 in if keep = 0 then None else Some keep)"

text \<open>The loop of \<open>storePage\<close>: the page that is left at the first address, the page still to be stored and its address. The
  bound \<open>k\<close> on its turns is the number of records: every split leaves fewer of them.\<close>

fun store_loop :: "files \<Rightarrow> nat \<Rightarrow> nat \<Rightarrow> slotted_page \<Rightarrow> address \<Rightarrow> table \<Rightarrow>
    (bool \<times> slotted_page \<times> slotted_page \<times> address \<times> table) option" where
  "store_loop fs d k current currentAddr t =
     (if SPFits current then Some (True, current, current, currentAddr, t)
      else case choose_keep current of None \<Rightarrow> Some (False, current, current, currentAddr, t)
      | Some keep \<Rightarrow>
          (case k of 0 \<Rightarrow> None
           | Suc k \<Rightarrow> do {
               let upper = newPage t;
               (upperAddr, t) \<leftarrow> allocPage t;
               let (current, upper) = SPSplit current upper keep;
               t \<leftarrow> markPage False currentAddr current t;
               (ok, t) \<leftarrow> addPageAfter fs d currentAddr (maxKey (hdr current)) upperAddr (maxKey (hdr upper)) t;
               if \<not> ok then Some (False, current, upper, upperAddr, t)
               else do {
                 (ok, first, last, lastAddr, t) \<leftarrow> store_loop fs d k upper upperAddr t;
                 Some (ok, current, last, lastAddr, t)
               }
             }))"

declare store_loop.simps [simp del]

text \<open>The returned flag, \<open>*splitOut\<close>, the page and the table.\<close>

definition storePage :: "files \<Rightarrow> nat \<Rightarrow> slotted_page \<Rightarrow> address \<Rightarrow> table \<Rightarrow> (bool \<times> bool \<times> slotted_page \<times> table) option" where
  "storePage fs d p pageAddr t =
     (if SPFits p then do { t \<leftarrow> markPage False pageAddr p t; Some (True, False, p, t) }
      else if list_ex (\<lambda>s. SPRecordBytes p (ssize s) (slen s) > pageCapacity t) (take (numRecords (hdr p)) (slots p))
      then Some (False, False, p, t)
      else do {
        (ok, first, last, lastAddr, t) \<leftarrow> store_loop fs d (numRecords (hdr p)) p pageAddr t;
        t \<leftarrow> (if ok then markPage False lastAddr last t else Some t);
        Some (ok, True, first, t)
      })"

section \<open>The interface\<close>

text \<open>One attempt of \<open>insertRecord\<close>: its result, or \<open>None\<close> when the page was split without the record.\<close>

definition insert_attempt :: "files \<Rightarrow> nat \<Rightarrow> sp_record \<Rightarrow> ordering_key \<Rightarrow> table \<Rightarrow> (int option \<times> table) option" where
  "insert_attempt fs d rec key t = do {
     ((leafAddr, leaf), t) \<leftarrow> findLeaf fs d key zero_node t;
     if leafAddr = 0 \<or> childCount leaf = 0 then Some (Some 2, t)
     else do {
       let found = findPageInLeaf leaf key;
       let pastEnd = (found = childCount leaf);
       let i = (if pastEnd then childCount leaf - 1 else found);
       pageAddr \<leftarrow> idx (children leaf) i;
       page \<leftarrow> readPage fs pageAddr t;
       case page of None \<Rightarrow> Some (Some 2, t)
       | Some p \<Rightarrow>
           let needed = SPRecordBytes p (rsize rec) (rlen rec) in
           if needed > pageCapacity t then Some (Some 3, t)
           else if SPSearch p key \<noteq> None then Some (Some 1, t)
           else if SPHasRoom p (rsize rec) (rlen rec)
           then do {
             t \<leftarrow> markPage False pageAddr (snd (SPInsert p key rec)) t;
             if \<not> pastEnd then Some (Some 0, t)
             else do {
               ks \<leftarrow> upd (keys leaf) i key;
               t \<leftarrow> markNode leafAddr (leaf\<lparr>keys := ks, nmaxKey := key\<rparr>) t;
               t \<leftarrow> propagateMaxKeyUp fs d leafAddr key t;
               Some (Some 0, t)
             }
           }
           else if numRecords (hdr p) = 0 then Some (Some 3, t)
           else do {
             let upper = newPage t;
             (upperAddr, t) \<leftarrow> allocPage t;
             let pos = SPPosition p key;
             let (p, upper, inserted) =
               (if pos = numRecords (hdr p) then (p, snd (SPInsert upper key rec), True)
                else case chooseSplit p True pos needed of
                  Some (keep, recordInUpper) \<Rightarrow>
                    let (p, upper) = SPSplit p upper keep
                    in if recordInUpper then (p, snd (SPInsert upper key rec), True) else (snd (SPInsert p key rec), upper, True)
                | None \<Rightarrow> let (p, upper) = SPSplit p upper pos in (p, upper, False));
             t \<leftarrow> markPage False pageAddr p t;
             t \<leftarrow> markPage False upperAddr upper t;
             (filed, t) \<leftarrow> addPageAfter fs d pageAddr (maxKey (hdr p)) upperAddr (maxKey (hdr upper)) t;
             if \<not> filed then Some (Some 2, t)
             else Some (if inserted then Some 0 else None, t)
           }
     }
   }"

fun insert_loop :: "files \<Rightarrow> nat \<Rightarrow> nat \<Rightarrow> sp_record \<Rightarrow> ordering_key \<Rightarrow> table \<Rightarrow> (int \<times> table) option" where
  "insert_loop fs d 0 rec key t = Some (2, t)"
| "insert_loop fs d (Suc k) rec key t = do {
     (res, t) \<leftarrow> insert_attempt fs d rec key t;
     case res of Some r \<Rightarrow> Some (r, t) | None \<Rightarrow> insert_loop fs d k rec key t
   }"

definition insertRecord :: "files \<Rightarrow> nat \<Rightarrow> sp_record \<Rightarrow> ordering_key \<Rightarrow> table \<Rightarrow> (int \<times> table) option" where
  "insertRecord fs d rec key t = insert_loop fs d 3 rec key t"

definition searchRecord :: "files \<Rightarrow> nat \<Rightarrow> ordering_key \<Rightarrow> table \<Rightarrow> (bool \<times> table) option" where
  "searchRecord fs d key t = do {
     (addr, t) \<leftarrow> findPage fs d key t;
     if addr = 0 then Some (False, t)
     else do {
       page \<leftarrow> readPage fs addr t;
       Some (case page of None \<Rightarrow> False | Some p \<Rightarrow> SPSearch p key \<noteq> None, t)
     }
   }"

text \<open>The record's entries, or \<open>None\<close> for \<open>{0}\<close>, and the caller's page buffer, \<open>None\<close> when a failed read left it undefined.\<close>

definition readRecord :: "files \<Rightarrow> nat \<Rightarrow> ordering_key \<Rightarrow> slotted_page \<Rightarrow> table \<Rightarrow> ((entry list option \<times> slotted_page option) \<times> table) option" where
  "readRecord fs d key page t = do {
     (addr, t) \<leftarrow> findPage fs d key t;
     if addr = 0 then Some ((None, Some page), t)
     else do {
       read \<leftarrow> readPage fs addr t;
       Some (case read of None \<Rightarrow> (None, None) | Some p \<Rightarrow> (SPRead p key, Some p), t)
     }
   }"

definition updateRecord :: "files \<Rightarrow> nat \<Rightarrow> sp_record \<Rightarrow> ordering_key \<Rightarrow> table \<Rightarrow> (bool \<times> table) option" where
  "updateRecord fs d rec key t = do {
     (addr, t) \<leftarrow> findPage fs d key t;
     if addr = 0 then Some (False, t)
     else do {
       read \<leftarrow> readPage fs addr t;
       case read of None \<Rightarrow> Some (False, t)
       | Some p \<Rightarrow>
           (case SPSearch p key of None \<Rightarrow> Some (False, t)
            | Some index \<Rightarrow>
                let slot = slots p ! index;
                    size = fold (\<lambda>i size. u32_add size (u32_sub (esize (rentries rec ! i)) (esize (entries p ! (ptr slot + i))))) [0..<rlen rec] (ssize slot);
                    (updated, q) = SPUpdate p key rec
                in if slen slot < rlen rec \<or> SPRecordBytes p size (slen slot) > pageCapacity t \<or> \<not> updated then Some (False, t)
                   else do { (ok, split, q, t) \<leftarrow> storePage fs d q addr t; Some (ok, t) })
     }
   }"

text \<open>The returned flag, \<open>*leafOut\<close>, the page buffer and the table.\<close>

definition deleteRecord :: "files \<Rightarrow> nat \<Rightarrow> ordering_key \<Rightarrow> slotted_page \<Rightarrow> table \<Rightarrow> ((bool \<times> address \<times> slotted_page option) \<times> table) option" where
  "deleteRecord fs d key page t = do {
     ((leafAddr, leaf), t) \<leftarrow> findLeaf fs d key zero_node t;
     if leafAddr = 0 then Some ((False, 0, Some page), t)
     else let i = findPageInLeaf leaf key
     in if i = childCount leaf then Some ((True, 0, Some page), t)
     else do {
       addr \<leftarrow> idx (children leaf) i;
       read \<leftarrow> readPage fs addr t;
       case read of None \<Rightarrow> Some ((False, leafAddr, None), t)
       | Some p \<Rightarrow>
           let (out, p) = SPDelete p key; onlyPage = (isRoot leaf \<and> childCount leaf = 1)
           in if \<not> out then Some ((False, leafAddr, Some p), t)
              else if numRecords (hdr p) = 0 \<and> \<not> onlyPage
              then do {
                (deleted, leaf, newLeaf, t) \<leftarrow> deletePage fs d leaf leafAddr addr t;
                Some ((deleted, if deleted then newLeaf else leafAddr, Some p), t)
              }
              else do { t \<leftarrow> markPage False addr p t; Some ((True, leafAddr, Some p), t) }
     }
   }"

end
