(* ===== verification/Tree.thy ===== *)
theory Tree
  imports BPlus
begin

text \<open>
  What a B+ tree in a table means. The invariant is stated node by node: each node has a level and an interval of key
  ranks (the geometry), the children of a node lie one level below it, within its interval and between its separators,
  and the records of a page lie between the keys of its neighbour and its own. The entries of the pages of all leaves
  are the map the tree stands for; a search follows the separators and finds exactly them.
\<close>

section \<open>What is read of a node\<close>

record nview =
  vpar :: address
  vleaf :: bool
  vkids :: "address list"
  vkeys :: "ordering_key list"
  vmax :: ordering_key
  vnext :: address

definition view_of :: "node \<Rightarrow> nview" where
  "view_of n = \<lparr>vpar = parent n, vleaf = isLeaf n, vkids = take (childCount n) (children n), vkeys = take (keylim n) (keys n),
     vmax = nmaxKey n, vnext = nnext n\<rparr>"

lemma view_fields [simp]:
  "vpar (view_of n) = parent n" "vleaf (view_of n) = isLeaf n" "vmax (view_of n) = nmaxKey n" "vnext (view_of n) = nnext n"
  by (simp_all add: view_of_def)

lemma same_view: "same_node n m \<Longrightarrow> view_of n = view_of m"
  by (simp add: same_node_def view_of_def) metis

lemma view_kids:
  assumes "node_arrays n" "childCount n \<le> M_GLOBAL"
  shows "length (vkids (view_of n)) = childCount n" "i < childCount n \<Longrightarrow> vkids (view_of n) ! i = children n ! i"
    "length (vkeys (view_of n)) = keylim n" "i < keylim n \<Longrightarrow> vkeys (view_of n) ! i = keys n ! i"
  using assms by (auto simp: view_of_def node_arrays_def keylim_def)

text \<open>A table whose nodes have their full arrays, and the nodes and pages that can be read.\<close>

definition tree_store :: "nat \<Rightarrow> files \<Rightarrow> table \<Rightarrow> bool" where
  "tree_store n fs t \<longleftrightarrow> pending_ok n fs t \<and> (\<forall>a m. vmap (nodeDirty t) a = Some m \<longrightarrow> node_arrays m \<and> childCount m \<le> M_GLOBAL) \<and>
     (\<forall>a m. nc_map (nodeCache t) a = Some m \<longrightarrow> node_arrays m \<and> childCount m \<le> M_GLOBAL)"

definition nodes_of :: "files \<Rightarrow> table \<Rightarrow> address \<Rightarrow> nview option" where
  "nodes_of fs t a = (if hasSource t \<or> vmap (nodeDirty t) a \<noteq> None then map_option view_of (node_of fs t a) else None)"

definition pages_of :: "files \<Rightarrow> table \<Rightarrow> address \<Rightarrow> slotted_page option" where
  "pages_of fs t a = (if hasSource t \<or> vmap (pageDirty t) a \<noteq> None then page_of fs t a else None)"

lemma nodes_of_cong:
  assumes "fixed t' = fixed t" "vmap (nodeDirty t') = vmap (nodeDirty t)"
  shows "nodes_of fs t' = nodes_of fs t"
proof
  fix a show "nodes_of fs t' a = nodes_of fs t a"
    using disk_fixed [OF assms(1), of fs] assms by (simp add: nodes_of_def node_of_def fixed_def cong: option.case_cong)
qed

lemma pages_of_cong:
  assumes "fixed t' = fixed t" "vmap (pageDirty t') = vmap (pageDirty t)"
  shows "pages_of fs t' = pages_of fs t"
proof
  fix a show "pages_of fs t' a = pages_of fs t a"
    using disk_fixed [OF assms(1), of fs] assms by (simp add: pages_of_def page_of_def fixed_def cong: option.case_cong)
qed

lemma cache_no_matter [simp]:
  "nodes_of fs (t\<lparr>nodeCache := c\<rparr>) = nodes_of fs t" "pages_of fs (t\<lparr>nodeCache := c\<rparr>) = pages_of fs t"
  by (auto intro!: nodes_of_cong pages_of_cong simp: fixed_def)

section \<open>Operations on the store\<close>

lemma parseNode_arrays: "node_arrays n0 \<Longrightarrow> parseNode raw t n0 = (True, m) \<Longrightarrow> node_arrays m \<and> childCount m \<le> M_GLOBAL"
proof -
  have lim: "nat (uint w - 1) = unat w - Suc 0" for w :: u32 unfolding unat_eq_nat_uint by linarith
  show "node_arrays n0 \<Longrightarrow> parseNode raw t n0 = (True, m) \<Longrightarrow> ?thesis"
    by (auto simp: parseNode_def node_arrays_def Let_def overwrite_def lim split: if_splits)
qed

lemma nodes_of_readable: "nodes_of fs t a = Some v \<Longrightarrow> hasSource t \<or> vmap (nodeDirty t) a \<noteq> None"
  by (simp add: nodes_of_def split: if_splits)

lemma readNode_store:
  assumes st: "tree_store n fs t" and a: "a \<noteq> 0" "nodes_of fs t a = Some v" and n0: "node_arrays n0"
  shows "\<exists>m c. readNode fs a n0 t = Some ((True, m), t\<lparr>nodeCache := c\<rparr>) \<and> view_of m = v \<and> node_arrays m \<and> childCount m \<le> M_GLOBAL \<and>
     tree_store n fs (t\<lparr>nodeCache := c\<rparr>)"
proof -
  note ok = conjunct1 [OF st [unfolded tree_store_def]]
  have arr: "\<forall>a m. vmap (nodeDirty t) a = Some m \<longrightarrow> node_arrays m \<and> childCount m \<le> M_GLOBAL"
    "\<forall>a m. nc_map (nodeCache t) a = Some m \<longrightarrow> node_arrays m \<and> childCount m \<le> M_GLOBAL" using st by (auto simp: tree_store_def)
  have src: "hasSource t \<or> vmap (nodeDirty t) a \<noteq> None" by (rule nodes_of_readable [OF a(2)])
  obtain k where k: "node_of fs t a = Some k" "view_of k = v" using a(2) by (auto simp: nodes_of_def split: if_splits)
  obtain ok' m c where r: "readNode fs a n0 t = Some ((ok', m), t\<lparr>nodeCache := c\<rparr>)" "cache_fits fs (t\<lparr>nodeCache := c\<rparr>)" "ok'" "same_node m k"
    using readNode_node [OF ok a(1) src, of n0] k(1) by auto
  have f: "findAddrTable a (nodeDirty t) = Some (vmap (nodeDirty t) a)"
    by (rule find_vmap [OF held_wf [OF pending_okD(3) [OF ok]] a(1)])
  have m: "node_arrays m \<and> childCount m \<le> M_GLOBAL \<and> (\<forall>a m. nc_map c a = Some m \<longrightarrow> node_arrays m \<and> childCount m \<le> M_GLOBAL)"
  proof (cases "vmap (nodeDirty t) a")
    case (Some d)
    then have "m = d" "t\<lparr>nodeCache := c\<rparr> = t" using r(1) f by (auto simp: readNode_def)
    moreover from this(2) have "c = nodeCache t" by (metis table.select_convs(4) table.surjective table.update_convs(4))
    ultimately show ?thesis using Some arr by blast
  next
    case None
    obtain c1 where get: "nodeCacheGet (nodeCache t) a = Some (nc_map (nodeCache t) a, c1)" "wf_cache c1" "nc_map c1 = nc_map (nodeCache t)"
      using nodeCacheGet_map [OF pending_okD(11) [OF ok] a(1)] by blast
    show ?thesis
    proof (cases "nc_map (nodeCache t) a")
      case (Some d)
      then have md: "m = d" "t\<lparr>nodeCache := c1\<rparr> = t\<lparr>nodeCache := c\<rparr>" using r(1) f None get(1) by (auto simp: readNode_def)
      have "c1 = c" using arg_cong [where f = nodeCache, OF md(2)] by simp
      then show ?thesis using Some arr(2) get(3) md(1) by metis
    next
      case miss: None
      obtain raw b where raw: "parseNode raw (t\<lparr>nodeCache := c1\<rparr>) n0 = (True, m)" "nodeCacheOffer c1 a m (root t) = Some (b, c)"
        using r(1,3) f None get(1) miss
        by (auto simp: readNode_def Let_def bind_eq_Some_conv dest: arg_cong [where f = nodeCache] split: if_splits option.splits prod.splits)
      have m: "node_arrays m \<and> childCount m \<le> M_GLOBAL" by (rule parseNode_arrays [OF n0 raw(1)])
      obtain c' b' where "nodeCacheOffer c1 a m (root t) = Some (b', c')" "nc_map c' = (if b' then (nc_map c1)(a \<mapsto> m) else nc_map c1)"
        using nodeCacheOffer_map [OF get(2) refl, of a m "root t"] by blast
      then show ?thesis using raw(2) m arr(2) get(3) by auto
    qed
  qed
  have fx: "fixed (t\<lparr>nodeCache := c\<rparr>) = fixed t" by (simp add: fixed_def)
  have "pending_ok n fs (t\<lparr>nodeCache := c\<rparr>)" using ok r(2) fixed_layout [OF fx] by (simp add: pending_ok_def)
  then have "tree_store n fs (t\<lparr>nodeCache := c\<rparr>)" using m arr(1) by (simp add: tree_store_def)
  then show ?thesis using r(1,3) m same_view [OF r(4)] k(2) by auto
qed

text \<open>Marking changes the dirty tables and what is set aside, nothing else.\<close>

lemma markNode_shape: "markNode a m t = Some t' \<Longrightarrow> \<exists>u d. t' = t\<lparr>undo := u, nodeDirty := d\<rparr>"
proof -
  assume "markNode a m t = Some t'"
  then obtain t1 d where t1: "rememberNode a t = Some t1" "t' = t1\<lparr>nodeDirty := d\<rparr>"
    by (auto simp: markNode_def bind_eq_Some_conv split: if_splits)
  have "t1 = t \<or> (\<exists>u. t1 = t\<lparr>undo := u\<rparr>)" using t1(1) by (auto simp: rememberNode_def bind_eq_Some_conv split: if_splits)
  then obtain u where "t1 = t\<lparr>undo := u\<rparr>" by (metis table.surjective table.update_convs(5))
  then show ?thesis using t1(2) by (intro exI [of _ u] exI [of _ d]) simp
qed

lemma markPage_shape: "markPage b a p t = Some t' \<Longrightarrow> \<exists>u d. t' = t\<lparr>undo := u, pageDirty := d\<rparr>"
proof -
  assume "markPage b a p t = Some t'"
  then obtain t1 d where t1: "rememberPage a t = Some t1" "t' = t1\<lparr>pageDirty := d\<rparr>"
    by (auto simp: markPage_def bind_eq_Some_conv split: if_splits) (metis table.surjective table.update_convs(1))+
  have "t1 = t \<or> (\<exists>u. t1 = t\<lparr>undo := u\<rparr>)" using t1(1) by (auto simp: rememberPage_def bind_eq_Some_conv split: if_splits)
  then obtain u where "t1 = t\<lparr>undo := u\<rparr>" by (metis table.surjective table.update_convs(5))
  then show ?thesis using t1(2) by (intro exI [of _ u] exI [of _ d]) simp
qed

lemma markNode_store:
  assumes st: "tree_store n fs t" and a: "a \<noteq> 0" and n: "n < 2 ^ 28" and m: "node_arrays m" "childCount m \<le> M_GLOBAL"
  shows "\<exists>u d. markNode a m t = Some (t\<lparr>undo := u, nodeDirty := d\<rparr>) \<and> tree_store (n + 1) fs (t\<lparr>undo := u, nodeDirty := d\<rparr>) \<and>
     nodes_of fs (t\<lparr>undo := u, nodeDirty := d\<rparr>) = (nodes_of fs t)(a \<mapsto> view_of m) \<and>
     pages_of fs (t\<lparr>undo := u, nodeDirty := d\<rparr>) = pages_of fs t"
proof -
  note ok = conjunct1 [OF st [unfolded tree_store_def]]
  obtain t' where t': "markNode a m t = Some t'" "keeps (n + 1) fs t t'" "vmap (nodeDirty t') = (vmap (nodeDirty t))(a \<mapsto> m)"
    using markNode_spec [OF ok a n] by blast
  obtain u d where s: "t' = t\<lparr>undo := u, nodeDirty := d\<rparr>" using markNode_shape [OF t'(1)] by blast
  have fx: "fixed t' = fixed t" using t'(2) by (simp add: keeps_def)
  have "tree_store (n + 1) fs t'" using t'(2,3) st m unfolding tree_store_def keeps_def by (auto simp: s)
  moreover have "nodes_of fs t' = (nodes_of fs t)(a \<mapsto> view_of m)"
  proof
    fix b show "nodes_of fs t' b = ((nodes_of fs t)(a \<mapsto> view_of m)) b"
      using disk_fixed [OF fx, of fs] fx t'(3) by (simp add: nodes_of_def node_of_def fixed_def cong: option.case_cong)
  qed
  moreover have "pages_of fs t' = pages_of fs t" by (rule pages_of_cong [OF fx]) (simp add: s)
  ultimately show ?thesis using t'(1) unfolding s by blast
qed

lemma markPage_store:
  assumes st: "tree_store n fs t" and a: "a \<noteq> 0" and n: "n < 2 ^ 28" and p: "page_arrays p"
  shows "\<exists>u d. markPage False a p t = Some (t\<lparr>undo := u, pageDirty := d\<rparr>) \<and> tree_store (n + 1) fs (t\<lparr>undo := u, pageDirty := d\<rparr>) \<and>
     pages_of fs (t\<lparr>undo := u, pageDirty := d\<rparr>) = (pages_of fs t)(a \<mapsto> copyPage p) \<and>
     nodes_of fs (t\<lparr>undo := u, pageDirty := d\<rparr>) = nodes_of fs t"
proof -
  note ok = conjunct1 [OF st [unfolded tree_store_def]]
  obtain t' where t': "markPage False a p t = Some t'" "keeps (n + 1) fs t t'" "vmap (pageDirty t') = (vmap (pageDirty t))(a \<mapsto> copyPage p)"
    using markPage_spec [OF ok a n p] by blast
  obtain u d where s: "t' = t\<lparr>undo := u, pageDirty := d\<rparr>" using markPage_shape [OF t'(1)] by blast
  have fx: "fixed t' = fixed t" using t'(2) by (simp add: keeps_def)
  have "tree_store (n + 1) fs t'" using t'(2,3) st unfolding tree_store_def keeps_def by (auto simp: s)
  moreover have "pages_of fs t' = (pages_of fs t)(a \<mapsto> copyPage p)"
  proof
    fix b show "pages_of fs t' b = ((pages_of fs t)(a \<mapsto> copyPage p)) b"
      using disk_fixed [OF fx, of fs] fx t'(3) by (simp add: pages_of_def page_of_def fixed_def cong: option.case_cong)
  qed
  moreover have "nodes_of fs t' = nodes_of fs t" by (rule nodes_of_cong [OF fx]) (simp add: s)
  ultimately show ?thesis using t'(1) unfolding s by blast
qed

lemma readPage_store:
  assumes "tree_store n fs t" "a \<noteq> 0" "pages_of fs t a = Some p"
  shows "readPage fs a t = Some (Some p)"
proof -
  have "hasSource t \<or> vmap (pageDirty t) a \<noteq> None" "page_of fs t a = Some p" using assms(3) by (simp_all add: pages_of_def split: if_splits)
  then show ?thesis using readPage_page [OF conjunct1 [OF assms(1) [unfolded tree_store_def]] assms(2)] by simp
qed

section \<open>The invariant\<close>

text \<open>The nodes of the tree, the level of each (leaves have level 0) and an interval of key ranks.\<close>

record geo =
  gset :: "address set"
  glev :: "address \<Rightarrow> nat"
  glo :: "address \<Rightarrow> nat"
  ghi :: "address \<Rightarrow> nat"

type_synonym nodes = "address \<Rightarrow> nview option"
type_synonym pages = "address \<Rightarrow> slotted_page option"

definition page_fit :: "pages \<Rightarrow> (slotted_page \<Rightarrow> bool) \<Rightarrow> geo \<Rightarrow> address \<Rightarrow> nview \<Rightarrow> nat \<Rightarrow> bool" where
  "page_fit P pok g b v i \<longleftrightarrow>
     vkids v ! i \<noteq> 0 \<and> glo g b \<le> key_rank (vkeys v ! i) \<and> key_rank (vkeys v ! i) \<le> ghi g b \<and>
     (0 < i \<longrightarrow> key_rank (vkeys v ! (i - 1)) < key_rank (vkeys v ! i)) \<and>
     (\<exists>p. P (vkids v ! i) = Some p \<and> pok p \<and>
        (\<forall>r \<in> set (records p). glo g b \<le> key_rank (fst r) \<and> key_rank (fst r) \<le> key_rank (vkeys v ! i) \<and>
           (0 < i \<longrightarrow> key_rank (vkeys v ! (i - 1)) < key_rank (fst r))))"

definition kid_fit :: "nodes \<Rightarrow> geo \<Rightarrow> address \<Rightarrow> nview \<Rightarrow> nat \<Rightarrow> bool" where
  "kid_fit V g a v i \<longleftrightarrow>
     (let c = vkids v ! i; w = the (V c) in
      c \<in> gset g \<and> glev g a = Suc (glev g c) \<and> vpar w = a \<and> glo g a \<le> glo g c \<and> ghi g c \<le> ghi g a \<and>
      (0 < i \<longrightarrow> key_rank (vkeys v ! (i - 1)) < glo g c) \<and>
      (if Suc i < length (vkids v) then ghi g c \<le> key_rank (vkeys v ! i) \<and> key_rank (vmax w) \<le> key_rank (vkeys v ! i)
       else key_rank (vmax w) \<le> key_rank (vmax v)))"

definition node_fit :: "nodes \<Rightarrow> pages \<Rightarrow> (slotted_page \<Rightarrow> bool) \<Rightarrow> ordering_type \<Rightarrow> geo \<Rightarrow> address \<Rightarrow> address \<Rightarrow> nview \<Rightarrow> bool" where
  "node_fit V P pok ty g rt a v \<longleftrightarrow>
     a \<noteq> 0 \<and> vkids v \<noteq> [] \<and> length (vkids v) \<le> M_GLOBAL \<and>
     length (vkeys v) = (if vleaf v then length (vkids v) else length (vkids v) - 1) \<and>
     (\<forall>k \<in> set (vkeys v). wf_key ty k) \<and> wf_key ty (vmax v) \<and> (vleaf v \<longleftrightarrow> glev g a = 0) \<and>
     glo g a \<le> ghi g a \<and> ghi g a \<le> key_rank (vmax v) \<and>
     (if a = rt then vpar v = 0 else vpar v \<in> gset g \<and> a \<in> set (vkids (the (V (vpar v)))) \<and> \<not> vleaf (the (V (vpar v)))) \<and>
     (vnext v = 0 \<or> vnext v \<in> gset g) \<and>
     (if vleaf v then \<forall>i < length (vkids v). page_fit P pok g a v i else \<forall>i < length (vkids v). kid_fit V g a v i)"

definition tree_inv :: "nodes \<Rightarrow> pages \<Rightarrow> (slotted_page \<Rightarrow> bool) \<Rightarrow> ordering_type \<Rightarrow> geo \<Rightarrow> address \<Rightarrow> bool" where
  "tree_inv V P pok ty g rt \<longleftrightarrow>
     rt \<in> gset g \<and> (\<forall>a \<in> gset g. \<exists>v. V a = Some v \<and> node_fit V P pok ty g rt a v) \<and>
     (\<forall>a \<in> gset g. \<forall>b \<in> gset g. glev g a = 0 \<longrightarrow> glev g b = 0 \<longrightarrow>
        (\<forall>i < length (vkids (the (V a))). \<forall>j < length (vkids (the (V b))).
           vkids (the (V a)) ! i = vkids (the (V b)) ! j \<longrightarrow> a = b \<and> i = j))"

text \<open>What the tree holds.\<close>

definition entries_in :: "nodes \<Rightarrow> pages \<Rightarrow> geo \<Rightarrow> rec set" where
  "entries_in V P g = (\<Union>b \<in> {b \<in> gset g. glev g b = 0}. \<Union>c \<in> set (vkids (the (V b))). set (records (the (P c))))"

definition holds :: "nodes \<Rightarrow> pages \<Rightarrow> geo \<Rightarrow> (ordering_key \<rightharpoonup> entry list) \<Rightarrow> bool" where
  "holds V P g m \<longleftrightarrow> (\<forall>k es. m k = Some es \<longleftrightarrow> (k, es) \<in> entries_in V P g)"

lemma tree_invD:
  assumes "tree_inv V P pok ty g rt"
  shows "rt \<in> gset g" "a \<in> gset g \<Longrightarrow> V a = Some (the (V a))" "a \<in> gset g \<Longrightarrow> node_fit V P pok ty g rt a (the (V a))"
    "a \<in> gset g \<Longrightarrow> b \<in> gset g \<Longrightarrow> glev g a = 0 \<Longrightarrow> glev g b = 0 \<Longrightarrow> i < length (vkids (the (V a))) \<Longrightarrow> j < length (vkids (the (V b))) \<Longrightarrow>
      vkids (the (V a)) ! i = vkids (the (V b)) ! j \<Longrightarrow> a = b \<and> i = j"
proof -
  show "rt \<in> gset g" using assms by (simp add: tree_inv_def)
  show "V a = Some (the (V a))" "node_fit V P pok ty g rt a (the (V a))" if "a \<in> gset g" for a
    using assms that unfolding tree_inv_def by (metis option.sel)+
  show "a \<in> gset g \<Longrightarrow> b \<in> gset g \<Longrightarrow> glev g a = 0 \<Longrightarrow> glev g b = 0 \<Longrightarrow> i < length (vkids (the (V a))) \<Longrightarrow> j < length (vkids (the (V b))) \<Longrightarrow>
      vkids (the (V a)) ! i = vkids (the (V b)) ! j \<Longrightarrow> a = b \<and> i = j"
    using assms unfolding tree_inv_def by blast
qed

lemma node_fitD:
  assumes "node_fit V P pok ty g rt a v"
  shows "a \<noteq> 0" "vkids v \<noteq> []" "length (vkids v) \<le> M_GLOBAL" "length (vkeys v) = (if vleaf v then length (vkids v) else length (vkids v) - 1)"
    "k \<in> set (vkeys v) \<Longrightarrow> wf_key ty k" "wf_key ty (vmax v)" "vleaf v \<longleftrightarrow> glev g a = 0" "glo g a \<le> ghi g a" "ghi g a \<le> key_rank (vmax v)"
    "a = rt \<Longrightarrow> vpar v = 0" "a \<noteq> rt \<Longrightarrow> vpar v \<in> gset g \<and> a \<in> set (vkids (the (V (vpar v)))) \<and> \<not> vleaf (the (V (vpar v)))"
    "vnext v = 0 \<or> vnext v \<in> gset g"
    "vleaf v \<Longrightarrow> i < length (vkids v) \<Longrightarrow> page_fit P pok g a v i" "\<not> vleaf v \<Longrightarrow> i < length (vkids v) \<Longrightarrow> kid_fit V g a v i"
  using assms by (auto simp: node_fit_def split: if_splits)

lemma kid_fitD:
  assumes "kid_fit V g a v i"
  shows "vkids v ! i \<in> gset g" "glev g a = Suc (glev g (vkids v ! i))" "vpar (the (V (vkids v ! i))) = a"
    "glo g a \<le> glo g (vkids v ! i)" "ghi g (vkids v ! i) \<le> ghi g a" "0 < i \<Longrightarrow> key_rank (vkeys v ! (i - 1)) < glo g (vkids v ! i)"
    "Suc i < length (vkids v) \<Longrightarrow> ghi g (vkids v ! i) \<le> key_rank (vkeys v ! i)"
    "Suc i < length (vkids v) \<Longrightarrow> key_rank (vmax (the (V (vkids v ! i)))) \<le> key_rank (vkeys v ! i)"
    "Suc i = length (vkids v) \<Longrightarrow> key_rank (vmax (the (V (vkids v ! i)))) \<le> key_rank (vmax v)"
  using assms by (auto simp: kid_fit_def Let_def split: if_splits)

lemma page_fitD:
  assumes "page_fit P pok g b v i"
  shows "vkids v ! i \<noteq> 0" "glo g b \<le> key_rank (vkeys v ! i)" "key_rank (vkeys v ! i) \<le> ghi g b"
    "0 < i \<Longrightarrow> key_rank (vkeys v ! (i - 1)) < key_rank (vkeys v ! i)" "P (vkids v ! i) = Some (the (P (vkids v ! i)))"
    "pok (the (P (vkids v ! i)))" "r \<in> set (records (the (P (vkids v ! i)))) \<Longrightarrow> glo g b \<le> key_rank (fst r)"
    "r \<in> set (records (the (P (vkids v ! i)))) \<Longrightarrow> key_rank (fst r) \<le> key_rank (vkeys v ! i)"
    "0 < i \<Longrightarrow> r \<in> set (records (the (P (vkids v ! i)))) \<Longrightarrow> key_rank (vkeys v ! (i - 1)) < key_rank (fst r)"
  using assms by (auto simp: page_fit_def)

text \<open>Separators and page keys increase.\<close>

lemma keys_increase:
  assumes inv: "tree_inv V P pok ty g rt" and a: "a \<in> gset g" "v = the (V a)"
  shows "sorted_wrt (<) (map key_rank (vkeys v))"
proof -
  note f = node_fitD [OF tree_invD(3) [OF inv a(1), folded a(2)]]
  have "key_rank (vkeys v ! i) < key_rank (vkeys v ! Suc i)" if "Suc i < length (vkeys v)" for i
  proof (cases "vleaf v")
    case True
    then show ?thesis using f(13) [OF True, of "Suc i"] that f(4) by (simp add: page_fit_def)
  next
    case False
    then have l: "Suc (Suc i) < length (vkids v)" using that f(4) by simp
    note k = kid_fitD [OF f(14) [OF False, of "Suc i"]]
    have "key_rank (vkeys v ! i) < glo g (vkids v ! Suc i)" "ghi g (vkids v ! Suc i) \<le> key_rank (vkeys v ! Suc i)"
      using k(6,7) l by simp_all
    moreover have "glo g (vkids v ! Suc i) \<le> ghi g (vkids v ! Suc i)"
      using node_fitD(8) [OF tree_invD(3) [OF inv k(1)]] l by simp
    ultimately show ?thesis by linarith
  qed
  then show ?thesis by (simp add: sorted_wrt_iff_nth_Suc_transp)
qed

lemma key_less: "sorted_wrt (<) (map key_rank ks) \<Longrightarrow> i < j \<Longrightarrow> j < length ks \<Longrightarrow> key_rank (ks ! i) < key_rank (ks ! j)"
  using sorted_wrt_nth_less [of "(<)" "map key_rank ks" i j] by simp

lemma key_le: "sorted_wrt (<) (map key_rank ks) \<Longrightarrow> i \<le> j \<Longrightarrow> j < length ks \<Longrightarrow> key_rank (ks ! i) \<le> key_rank (ks ! j)"
  using key_less [of ks i j] by (cases "i = j") auto

section \<open>Paths to the root\<close>

definition parent_of :: "nodes \<Rightarrow> address \<Rightarrow> address" where
  "parent_of V a = vpar (the (V a))"

definition up_by :: "nodes \<Rightarrow> nat \<Rightarrow> address \<Rightarrow> address" where
  "up_by V l a = (parent_of V ^^ l) a"

lemma up_by_0 [simp]: "up_by V 0 a = a"
  by (simp add: up_by_def)

lemma up_by_Suc: "up_by V (Suc l) a = parent_of V (up_by V l a)"
  by (simp add: up_by_def)

lemma up_by_parent: "up_by V (Suc l) a = up_by V l (parent_of V a)"
  by (simp add: up_by_def funpow_swap1)

text \<open>The child at place \<open>i\<close> is where a search for rank \<open>r\<close> goes on.\<close>

definition turn :: "nview \<Rightarrow> nat \<Rightarrow> nat \<Rightarrow> bool" where
  "turn v r i \<longleftrightarrow> i < length (vkids v) \<and> (0 < i \<longrightarrow> key_rank (vkeys v ! (i - 1)) < r) \<and> (Suc i < length (vkids v) \<longrightarrow> r \<le> key_rank (vkeys v ! i))"

definition routed :: "nodes \<Rightarrow> nat \<Rightarrow> nat \<Rightarrow> address \<Rightarrow> bool" where
  "routed V r h b \<longleftrightarrow> (\<forall>l < h. \<exists>i. turn (the (V (up_by V (Suc l) b))) r i \<and> vkids (the (V (up_by V (Suc l) b))) ! i = up_by V l b)"

lemma parent_step:
  assumes inv: "tree_inv V P pok ty g rt" and a: "a \<in> gset g" "a \<noteq> rt"
  obtains i where "parent_of V a \<in> gset g" "i < length (vkids (the (V (parent_of V a))))" "vkids (the (V (parent_of V a))) ! i = a"
    "kid_fit V g (parent_of V a) (the (V (parent_of V a))) i" "\<not> vleaf (the (V (parent_of V a)))" "glev g (parent_of V a) = Suc (glev g a)"
proof -
  note f = node_fitD [OF tree_invD(3) [OF inv a(1)]]
  have p: "parent_of V a \<in> gset g" "a \<in> set (vkids (the (V (parent_of V a))))" "\<not> vleaf (the (V (parent_of V a)))"
    using f(11) a(2) by (auto simp: parent_of_def)
  then obtain i where i: "i < length (vkids (the (V (parent_of V a))))" "vkids (the (V (parent_of V a))) ! i = a" by (auto simp: in_set_conv_nth)
  have k: "kid_fit V g (parent_of V a) (the (V (parent_of V a))) i" by (rule node_fitD(14) [OF tree_invD(3) [OF inv p(1)] p(3) i(1)])
  show thesis using that [OF p(1) i k p(3)] kid_fitD(2) [OF k] i(2) by simp
qed

lemma path_up:
  assumes inv: "tree_inv V P pok ty g rt" and b: "b \<in> gset g" "l \<le> glev g rt - glev g b" "glev g b \<le> glev g rt"
  shows "up_by V l b \<in> gset g \<and> glev g (up_by V l b) = glev g b + l"
  using b(2)
proof (induction l)
  case (Suc l)
  then have IH: "up_by V l b \<in> gset g" "glev g (up_by V l b) = glev g b + l" by simp_all
  have "up_by V l b \<noteq> rt" using IH(2) Suc.prems by auto
  then obtain i where "parent_of V (up_by V l b) \<in> gset g" "glev g (parent_of V (up_by V l b)) = Suc (glev g (up_by V l b))"
    using parent_step [OF inv IH(1)] by metis
  then show ?case using IH(2) by (simp add: up_by_Suc)
qed (simp add: b(1))

lemma level_le:
  assumes inv: "tree_inv V P pok ty g rt" "finite (gset g)" and a: "a \<in> gset g"
  shows "glev g a \<le> glev g rt" "glev g a = glev g rt \<Longrightarrow> a = rt"
proof -
  let ?m = "Max (glev g ` gset g)"
  have top: "b = rt" if m: "b \<in> gset g" "glev g b = ?m" for b
  proof (rule ccontr)
    assume "b \<noteq> rt"
    then obtain i where "parent_of V b \<in> gset g" "glev g (parent_of V b) = Suc (glev g b)" using parent_step [OF inv(1) m(1)] by metis
    moreover have "glev g (parent_of V b) \<le> ?m" using inv(2) calculation(1) by simp
    ultimately show False using m(2) by simp
  qed
  have "?m \<in> glev g ` gset g" using inv(2) a by (intro Max_in) auto
  then have rt: "glev g rt = ?m" using top by fastforce
  then show "glev g a \<le> glev g rt" using inv(2) a by simp
  show "a = rt" if "glev g a = glev g rt" using top [OF a] that rt by simp
qed

lemma path_to_root:
  assumes inv: "tree_inv V P pok ty g rt" "finite (gset g)" and b: "b \<in> gset g"
  shows "up_by V (glev g rt - glev g b) b = rt"
  using path_up [OF inv(1) b le_refl level_le(1) [OF inv b]] level_le [OF inv] level_le(1) [OF inv b]
  by (metis le_add_diff_inverse)

text \<open>The interval of a node lies within those of the nodes above it.\<close>

lemma interval_up:
  assumes inv: "tree_inv V P pok ty g rt" and b: "b \<in> gset g" "l \<le> glev g rt - glev g b" "glev g b \<le> glev g rt"
  shows "glo g (up_by V l b) \<le> glo g b \<and> ghi g b \<le> ghi g (up_by V l b)"
  using b(2)
proof (induction l)
  case (Suc l)
  have p: "up_by V l b \<in> gset g" "glev g (up_by V l b) = glev g b + l" using path_up [OF inv b(1) _ b(3), of l] Suc.prems by simp_all
  then have "up_by V l b \<noteq> rt" using Suc.prems by auto
  then obtain i where "vkids (the (V (parent_of V (up_by V l b)))) ! i = up_by V l b" "kid_fit V g (parent_of V (up_by V l b)) (the (V (parent_of V (up_by V l b)))) i"
    using parent_step [OF inv p(1)] by metis
  from kid_fitD(4,5) [OF this(2)] this(1) Suc show ?case by (simp add: up_by_Suc)
qed simp

lemma turn_unique:
  assumes "sorted_wrt (<) (map key_rank (vkeys v))" "length (vkeys v) = length (vkids v) - 1" "turn v r i" "turn v r j"
  shows "i = j"
proof (rule ccontr)
  assume "i \<noteq> j"
  have no: False if "turn v r i" "turn v r j" "i < j" for i j
  proof -
    have "r \<le> key_rank (vkeys v ! i)" "key_rank (vkeys v ! (j - 1)) < r" using that by (auto simp: turn_def)
    moreover have "key_rank (vkeys v ! i) \<le> key_rank (vkeys v ! (j - 1))"
      by (rule key_le [OF assms(1)]) (use that assms(2) in \<open>auto simp: turn_def\<close>)
    ultimately show False by linarith
  qed
  from \<open>i \<noteq> j\<close> no assms(3,4) show False by (metis nat_neq_iff)
qed

text \<open>A leaf whose interval contains the rank is the one the search leads to.\<close>

lemma same_leaf:
  assumes inv: "tree_inv V P pok ty g rt" "finite (gset g)" and b: "b \<in> gset g" "glev g b = 0" "routed V r (glev g rt) b"
    and c: "c \<in> gset g" "glev g c = 0" "glo g c \<le> r" "r \<le> ghi g c"
  shows "b = c"
proof -
  let ?h = "glev g rt"
  have "up_by V (?h - k) b = up_by V (?h - k) c" if "k \<le> ?h" for k
    using that
  proof (induction k)
    case 0
    then show ?case using path_to_root [OF inv b(1)] path_to_root [OF inv c(1)] b(2) c(2) by simp
  next
    case (Suc k)
    let ?l = "?h - Suc k"
    have l: "?h - k = Suc ?l" "?l < ?h" using Suc.prems by simp_all
    let ?p = "up_by V (Suc ?l) b"
    have p: "up_by V (Suc ?l) c = ?p" using Suc l(1) by simp
    have x: "up_by V ?l c \<in> gset g" "glev g (up_by V ?l c) = ?l" using path_up [OF inv(1) c(1), of ?l] c(2) by simp_all
    then have "up_by V ?l c \<noteq> rt" using l(2) by auto
    then obtain j where j: "?p \<in> gset g" "j < length (vkids (the (V ?p)))" "vkids (the (V ?p)) ! j = up_by V ?l c"
      "kid_fit V g ?p (the (V ?p)) j" "\<not> vleaf (the (V ?p))"
      using parent_step [OF inv(1) x(1)] p [unfolded up_by_Suc [of V ?l c]] by metis
    have "glo g (up_by V ?l c) \<le> r" "r \<le> ghi g (up_by V ?l c)"
      using interval_up [OF inv(1) c(1), of ?l] c(2-4) by auto
    then have tj: "turn (the (V ?p)) r j" using kid_fitD(6,7) [OF j(4)] j(2,3) by (auto simp: turn_def)
    obtain i where i: "turn (the (V ?p)) r i" "vkids (the (V ?p)) ! i = up_by V ?l b" using b(3) l(2) by (auto simp: routed_def)
    have "i = j"
      by (rule turn_unique [OF keys_increase [OF inv(1) j(1) refl] _ i(1) tj])
         (use node_fitD(4) [OF tree_invD(3) [OF inv(1) j(1)]] j(5) in simp)
    then show ?case using i(2) j(3) by simp
  qed
  from this [of ?h] show ?thesis by simp
qed

section \<open>Searching\<close>

lemma scan_spec:
  assumes "\<And>j. i \<le> j \<Longrightarrow> j < i + k \<Longrightarrow> test j = Some (Q j)"
  shows "\<exists>r. scan test i k = Some r \<and>
     (case r of None \<Rightarrow> \<forall>j. i \<le> j \<longrightarrow> j < i + k \<longrightarrow> \<not> Q j
      | Some j \<Rightarrow> i \<le> j \<and> j < i + k \<and> Q j \<and> (\<forall>l. i \<le> l \<longrightarrow> l < j \<longrightarrow> \<not> Q l))"
  using assms
proof (induction k arbitrary: i)
  case (Suc k)
  have t: "test i = Some (Q i)" using Suc.prems [of i] by simp
  show ?case
  proof (cases "Q i")
    case True
    then show ?thesis by (intro exI [of _ "Some i"]) (simp add: t)
  next
    case False
    obtain r where r: "scan test (Suc i) k = Some r"
      "case r of None \<Rightarrow> \<forall>j. Suc i \<le> j \<longrightarrow> j < Suc i + k \<longrightarrow> \<not> Q j
       | Some j \<Rightarrow> Suc i \<le> j \<and> j < Suc i + k \<and> Q j \<and> (\<forall>l. Suc i \<le> l \<longrightarrow> l < j \<longrightarrow> \<not> Q l)"
      using Suc.IH [of "Suc i"] Suc.prems by auto
    have "case r of None \<Rightarrow> \<forall>j. i \<le> j \<longrightarrow> j < i + Suc k \<longrightarrow> \<not> Q j
       | Some j \<Rightarrow> i \<le> j \<and> j < i + Suc k \<and> Q j \<and> (\<forall>l. i \<le> l \<longrightarrow> l < j \<longrightarrow> \<not> Q l)"
      using r(2) False by (auto split: option.splits simp: less_Suc_eq_le Suc_le_eq) (metis le_neq_implies_less)+
    then show ?thesis using r(1) by (intro exI [of _ r]) (simp add: t False)
  qed
qed simp

text \<open>A struct that holds the node at an address.\<close>

definition struct_of :: "nodes \<Rightarrow> address \<Rightarrow> node \<Rightarrow> bool" where
  "struct_of V a n \<longleftrightarrow> view_of n = the (V a) \<and> node_arrays n \<and> childCount n \<le> M_GLOBAL"

lemma struct_ofD:
  assumes "struct_of V a n"
  shows "view_of n = the (V a)" "node_arrays n" "childCount n \<le> M_GLOBAL" "childCount n = length (vkids (the (V a)))"
    "i < length (vkids (the (V a))) \<Longrightarrow> children n ! i = vkids (the (V a)) ! i" "keylim n = length (vkeys (the (V a)))"
    "i < length (vkeys (the (V a))) \<Longrightarrow> keys n ! i = vkeys (the (V a)) ! i" "isLeaf n = vleaf (the (V a))" "parent n = vpar (the (V a))"
    "nmaxKey n = vmax (the (V a))" "nnext n = vnext (the (V a))" "length (children n) = M_GLOBAL" "length (keys n) = M_GLOBAL"
  using assms view_kids [of n] view_fields [of n] by (auto simp: struct_of_def node_arrays_def)

lemma read_struct:
  assumes st: "tree_store n fs t" and inv: "tree_inv (nodes_of fs t) P pok ty g rt" and a: "a \<in> gset g" and n0: "node_arrays n0"
  shows "\<exists>m c. readNode fs a n0 t = Some ((True, m), t\<lparr>nodeCache := c\<rparr>) \<and> struct_of (nodes_of fs t) a m \<and> tree_store n fs (t\<lparr>nodeCache := c\<rparr>)"
  using readNode_store [OF st node_fitD(1) [OF tree_invD(3) [OF inv a]] tree_invD(2) [OF inv a] n0]
  unfolding struct_of_def by fastforce

lemma descend_step:
  assumes inv: "tree_inv V P pok ty g rt" and a: "a \<in> gset g" "\<not> vleaf (the (V a))" and m: "struct_of V a m" and k: "wf_key ty key"
  shows "\<exists>i hit. scan (\<lambda>i. do { k \<leftarrow> idx (keys m) i; Some (\<not> compareOrderingKeys key k > 0) }) 0 (childCount m - 1) = Some hit \<and>
     (case hit of None \<Rightarrow> childCount m - 1 | Some i \<Rightarrow> i) = i \<and> turn (the (V a)) (key_rank key) i"
proof -
  let ?v = "the (V a)"
  note f = node_fitD [OF tree_invD(3) [OF inv a(1)]]
  note s = struct_ofD [OF m]
  let ?Q = "\<lambda>i. \<not> compareOrderingKeys key (keys m ! i) > 0"
  have len: "0 < length (vkids ?v)" "length (vkeys ?v) = length (vkids ?v) - 1" using f(2,4) a(2) by auto
  have q: "?Q i = (key_rank key \<le> key_rank (vkeys ?v ! i))" if "i < length (vkids ?v) - 1" for i
  proof -
    have "wf_key ty (vkeys ?v ! i)" using f(5) len(2) that by simp
    then show ?thesis using ok.cmp_greater [OF k] s(7) [of i] len(2) that by (simp add: not_less)
  qed
  have "do { k \<leftarrow> idx (keys m) j; Some (\<not> compareOrderingKeys key k > 0) } = Some (?Q j)" if "j < childCount m - 1" for j
    using that s(3,13) by (simp add: idx_def)
  then obtain r where r: "scan (\<lambda>i. do { k \<leftarrow> idx (keys m) i; Some (\<not> compareOrderingKeys key k > 0) }) 0 (childCount m - 1) = Some r"
    "case r of None \<Rightarrow> \<forall>j. 0 \<le> j \<longrightarrow> j < 0 + (childCount m - 1) \<longrightarrow> \<not> ?Q j
      | Some j \<Rightarrow> 0 \<le> j \<and> j < 0 + (childCount m - 1) \<and> ?Q j \<and> (\<forall>l. 0 \<le> l \<longrightarrow> l < j \<longrightarrow> \<not> ?Q l)"
    using scan_spec [of 0 "childCount m - 1" "\<lambda>i. do { k \<leftarrow> idx (keys m) i; Some (\<not> compareOrderingKeys key k > 0) }" ?Q] by auto
  have "turn ?v (key_rank key) (case r of None \<Rightarrow> childCount m - 1 | Some i \<Rightarrow> i)"
  proof (cases r)
    case None
    then have "\<not> ?Q j" if "j < length (vkids ?v) - 1" for j using r(2) that s(4) by simp
    then show ?thesis using None len q s(4) by (auto simp: turn_def not_le)
  next
    case (Some j)
    then have j: "j < length (vkids ?v) - 1" "?Q j" "\<forall>l < j. \<not> ?Q l" using r(2) s(4) by auto
    have "key_rank (vkeys ?v ! (j - 1)) < key_rank key" if "0 < j"
      using j(3) [rule_format, of "j - 1"] q [of "j - 1"] j(1) that by (simp add: not_le)
    then show ?thesis using Some j(1,2) q [OF j(1)] by (simp add: turn_def)
  qed
  then show ?thesis using r(1) by blast
qed

lemma descend_leaf:
  assumes inv: "tree_inv V P pok ty g rt" "finite (gset g)" and k: "wf_key ty key"
    and st: "tree_store n fs t" "nodes_of fs t = V" and a: "a \<in> gset g" "struct_of V a m" "glev g a \<le> d"
  shows "\<exists>b m' c. descend fs d key a m t = Some ((b, m'), t\<lparr>nodeCache := c\<rparr>) \<and> tree_store n fs (t\<lparr>nodeCache := c\<rparr>) \<and>
     b \<in> gset g \<and> glev g b = 0 \<and> struct_of V b m' \<and> up_by V (glev g a) b = a \<and> routed V (key_rank key) (glev g a) b"
  using st a
proof (induction "glev g a" arbitrary: a m t d)
  case 0
  have "isLeaf m" using node_fitD(7) [OF tree_invD(3) [OF inv(1) 0(4)]] struct_ofD(8) [OF 0(5)] 0(1) by simp
  moreover have "t = t\<lparr>nodeCache := nodeCache t\<rparr>" by simp
  ultimately show ?case using 0 by (intro exI [of _ a] exI [of _ m] exI [of _ "nodeCache t"]) (simp add: descend.simps routed_def)
next
  case (Suc l)
  let ?v = "the (V a)"
  note f = node_fitD [OF tree_invD(3) [OF inv(1) Suc(5)]]
  note s = struct_ofD [OF Suc(6)]
  have nl: "\<not> vleaf ?v" using f(7) Suc(2) by simp
  obtain d' where d: "d = Suc d'" using Suc(2,7) by (cases d) auto
  obtain i hit where i: "scan (\<lambda>i. do { k \<leftarrow> idx (keys m) i; Some (\<not> compareOrderingKeys key k > 0) }) 0 (childCount m - 1) = Some hit"
    "(case hit of None \<Rightarrow> childCount m - 1 | Some i \<Rightarrow> i) = i" "turn ?v (key_rank key) i"
    using descend_step [OF inv(1) Suc(5) nl Suc(6) k] by blast
  have il: "i < length (vkids ?v)" using i(3) by (simp add: turn_def)
  let ?c = "vkids ?v ! i"
  note kf = kid_fitD [OF f(14) [OF nl il]]
  have "idx (children m) i = Some ?c" using il s(3,4,5,12) by (simp add: idx_def)
  moreover obtain m1 c1 where r: "readNode fs ?c m t = Some ((True, m1), t\<lparr>nodeCache := c1\<rparr>)" "struct_of V ?c m1" "tree_store n fs (t\<lparr>nodeCache := c1\<rparr>)"
    using read_struct [OF Suc(3) inv(1) [folded Suc(4)] kf(1) s(2)] Suc(4) by blast
  moreover have "l = glev g ?c" using kf(2) Suc(2) by simp
  then obtain b m' c where b: "descend fs d' key ?c m1 (t\<lparr>nodeCache := c1\<rparr>) = Some ((b, m'), t\<lparr>nodeCache := c\<rparr>)" "tree_store n fs (t\<lparr>nodeCache := c\<rparr>)"
    "b \<in> gset g" "glev g b = 0" "struct_of V b m'" "up_by V l b = ?c" "routed V (key_rank key) l b"
    using Suc(1) [OF _ r(3) _ kf(1) r(2), of d'] Suc(2,4,7) d by auto
  moreover have "isLeaf m = False" "childCount m \<noteq> 0" using s(4,8) nl il by auto
  ultimately have run: "descend fs d key a m t = Some ((b, m'), t\<lparr>nodeCache := c\<rparr>)"
    unfolding d by (subst descend.simps) (simp add: i(1,2) del: One_nat_def)
  have up: "up_by V (Suc l) b = a" using b(6) kf(3) by (simp add: up_by_Suc parent_of_def)
  have "routed V (key_rank key) (Suc l) b"
    unfolding routed_def
  proof (intro allI impI)
    fix j assume "j < Suc l"
    then consider "j < l" | "j = l" by linarith
    then show "\<exists>i. turn (the (V (up_by V (Suc j) b))) (key_rank key) i \<and> vkids (the (V (up_by V (Suc j) b))) ! i = up_by V j b"
    proof cases
      case 1
      then show ?thesis using b(7) by (simp add: routed_def)
    next
      case 2
      then show ?thesis using i(3) up b(6) by auto
    qed
  qed
  then show ?case using run b(2-5) up Suc(2) by metis
qed

lemma findLeaf_leaf:
  assumes inv: "tree_inv V P pok (keyType t) g (root t)" "finite (gset g)" and k: "wf_key (keyType t) key"
    and st: "tree_store n fs t" "nodes_of fs t = V" and d: "glev g (root t) \<le> d" and n0: "node_arrays n0"
  shows "\<exists>b m c. findLeaf fs d key n0 t = Some ((b, m), t\<lparr>nodeCache := c\<rparr>) \<and> tree_store n fs (t\<lparr>nodeCache := c\<rparr>) \<and>
     b \<in> gset g \<and> glev g b = 0 \<and> struct_of V b m \<and> routed V (key_rank key) (glev g (root t)) b"
proof -
  obtain m1 c1 where r: "readNode fs (root t) n0 t = Some ((True, m1), t\<lparr>nodeCache := c1\<rparr>)" "struct_of V (root t) m1" "tree_store n fs (t\<lparr>nodeCache := c1\<rparr>)"
    using read_struct [OF st(1) inv(1) [folded st(2)] tree_invD(1) [OF inv(1)] n0] st(2) by blast
  have v: "nodes_of fs (t\<lparr>nodeCache := c1\<rparr>) = V" using st(2) by simp
  obtain b m c where "descend fs d key (root t) m1 (t\<lparr>nodeCache := c1\<rparr>) = Some ((b, m), t\<lparr>nodeCache := c\<rparr>)" "tree_store n fs (t\<lparr>nodeCache := c\<rparr>)"
    "b \<in> gset g" "glev g b = 0" "struct_of V b m" "routed V (key_rank key) (glev g (root t)) b"
    using descend_leaf [OF inv k r(3) v tree_invD(1) [OF inv(1)] r(2) d] by auto
  then show ?thesis using r(1) k by (intro exI [of _ b] exI [of _ m] exI [of _ c]) (simp add: findLeaf_def wf_key_def)
qed

lemma findPage_turn:
  assumes inv: "tree_inv V P pok ty g rt" and b: "b \<in> gset g" "glev g b = 0" "struct_of V b m" and k: "wf_key ty key"
  defines "i \<equiv> findPageInLeaf m key"
  shows "i \<le> length (vkids (the (V b)))" "j < i \<Longrightarrow> key_rank (vkeys (the (V b)) ! j) < key_rank key"
    "i \<le> j \<Longrightarrow> j < length (vkids (the (V b))) \<Longrightarrow> key_rank key \<le> key_rank (vkeys (the (V b)) ! j)"
proof -
  let ?v = "the (V b)"
  note f = node_fitD [OF tree_invD(3) [OF inv b(1)]]
  note s = struct_ofD [OF b(3)]
  have len: "length (vkeys ?v) = length (vkids ?v)" using f(4,7) b(2) by simp
  have "i = lower_bound_loop (\<lambda>i. compareOrderingKeys (vkeys ?v ! i) key < 0) 0 (length (vkeys ?v))"
    unfolding i_def findPageInLeaf_def s(4) len [symmetric] by (rule lower_bound_cong) (simp add: s(7))
  from ok.search_splits [OF _ k _ this] f(5) keys_increase [OF inv b(1) refl] len
  have "i \<le> length (vkids ?v) \<and> (\<forall>j < i. key_rank (vkeys ?v ! j) < key_rank key) \<and>
     (\<forall>j. i \<le> j \<longrightarrow> j < length (vkids ?v) \<longrightarrow> key_rank key \<le> key_rank (vkeys ?v ! j))"
    by (simp add: strict_sorted_imp_sorted)
  then show "i \<le> length (vkids ?v)" "j < i \<Longrightarrow> key_rank (vkeys ?v ! j) < key_rank key"
    "i \<le> j \<Longrightarrow> j < length (vkids ?v) \<Longrightarrow> key_rank key \<le> key_rank (vkeys ?v ! j)" by auto
qed

text \<open>An entry with the key can only be in the page the search ends at.\<close>

lemma entry_here:
  assumes inv: "tree_inv V P pok ty g rt" "finite (gset g)" and b: "b \<in> gset g" "glev g b = 0" "struct_of V b m" "routed V (key_rank key) (glev g rt) b"
    and k: "wf_key ty key" and e: "(key, es) \<in> entries_in V P g"
  shows "findPageInLeaf m key < length (vkids (the (V b)))" "(key, es) \<in> set (records (the (P (vkids (the (V b)) ! findPageInLeaf m key))))"
proof -
  obtain c x where cx: "c \<in> gset g" "glev g c = 0" "x \<in> set (vkids (the (V c)))" "(key, es) \<in> set (records (the (P x)))"
    using e by (auto simp: entries_in_def)
  then obtain j where c: "c \<in> gset g" "glev g c = 0" "j < length (vkids (the (V c)))" "(key, es) \<in> set (records (the (P (vkids (the (V c)) ! j))))"
    by (metis in_set_conv_nth)
  note f = node_fitD [OF tree_invD(3) [OF inv(1) c(1)]]
  have lf: "vleaf (the (V c))" using f(7) c(2) by simp
  note p = f(13) [OF lf c(3)]
  have r: "glo g c \<le> key_rank key" "key_rank key \<le> key_rank (vkeys (the (V c)) ! j)" "key_rank (vkeys (the (V c)) ! j) \<le> ghi g c"
    "0 < j \<Longrightarrow> key_rank (vkeys (the (V c)) ! (j - 1)) < key_rank key"
    using page_fitD(7,8) [OF p c(4)] page_fitD(3) [OF p] page_fitD(9) [OF p _ c(4)] by simp_all
  have bc: "b = c" by (rule same_leaf [OF inv b(1,2,4) c(1,2) r(1) order_trans [OF r(2,3)]])
  note t = findPage_turn [OF inv(1) b(1-3) k]
  have ji: "j = findPageInLeaf m key"
  proof (rule ccontr)
    assume "j \<noteq> findPageInLeaf m key"
    then consider "j < findPageInLeaf m key" | "findPageInLeaf m key < j" by linarith
    then show False
    proof cases
      case 1
      then show False using t(2) [OF 1] r(2) bc by simp
    next
      case 2
      then have "findPageInLeaf m key \<le> j - 1" "j - 1 < length (vkids (the (V b)))" using c(3) bc by simp_all
      then show False using t(3) [of "j - 1"] r(4) bc 2 by simp
    qed
  qed
  then show "findPageInLeaf m key < length (vkids (the (V b)))" "(key, es) \<in> set (records (the (P (vkids (the (V b)) ! findPageInLeaf m key))))"
    using c(3,4) bc by simp_all
qed

lemma entry_there:
  assumes "b \<in> gset g" "glev g b = 0" "i < length (vkids (the (V b)))" "(key, es) \<in> set (records (the (P (vkids (the (V b)) ! i))))"
  shows "(key, es) \<in> entries_in V P g"
  using assms unfolding entries_in_def by force

section \<open>The tree of a table\<close>

text \<open>A page as the table makes them, and the positions of the objects allocated so far.\<close>

definition page_good :: "table \<Rightarrow> slotted_page \<Rightarrow> bool" where
  "page_good t p \<longleftrightarrow> wf_page (keyType t) p \<and> keySize (hdr p) = keyDiskSize t \<and> arrCap (hdr p) = pageCapacity t \<and>
     recs_bytes (keyDiskSize t) (records p) \<le> pageCapacity t"

definition tree_places :: "table \<Rightarrow> nodes \<Rightarrow> geo \<Rightarrow> nat \<Rightarrow> nat \<Rightarrow> bool" where
  "tree_places t V g c d \<longleftrightarrow> allocated t c d \<and> gset g \<subseteq> (\<lambda>j. of_nat (node_at t j)) ` {..<d} \<and>
     (\<forall>b \<in> gset g. glev g b = 0 \<longrightarrow> set (vkids (the (V b))) \<subseteq> (\<lambda>i. of_nat (page_at t i)) ` {..<c})"

text \<open>The layout leaves room for \<open>2 ^ 28\<close> units of stripes, and pages are of a size that counters in \<open>uint32_t\<close> hold.\<close>

definition roomy :: "table \<Rightarrow> bool" where
  "roomy t \<longleftrightarrow> 0 < metalen t \<and> node_stripe t (2 ^ 28) < 2 ^ 64 \<and> pageCapacity t < 2 ^ 20"

text \<open>The table holds the map \<open>m\<close> in a tree of height \<open>h\<close>; \<open>s\<close> bounds the objects pending and allocated.\<close>

definition tree_holds :: "nat \<Rightarrow> files \<Rightarrow> table \<Rightarrow> nat \<Rightarrow> (ordering_key \<rightharpoonup> entry list) \<Rightarrow> bool" where
  "tree_holds s fs t h m \<longleftrightarrow> tree_store s fs t \<and> roomy t \<and>
     (\<exists>g c d. c \<le> s \<and> d \<le> s \<and> tree_places t (nodes_of fs t) g c d \<and> glev g (root t) = h \<and>
        tree_inv (nodes_of fs t) (pages_of fs t) (page_good t) (keyType t) g (root t) \<and> holds (nodes_of fs t) (pages_of fs t) g m)"

lemma places_finite: "tree_places t V g c d \<Longrightarrow> finite (gset g)"
  unfolding tree_places_def by (meson finite_imageI finite_lessThan finite_subset)

lemma page_good_cache [simp]: "page_good (t\<lparr>nodeCache := c\<rparr>) = page_good t"
  by (simp add: page_good_def [abs_def] keyDiskSize_def pageCapacity_def)

lemma tree_places_cache [simp]: "tree_places (t\<lparr>nodeCache := c\<rparr>) = tree_places t"
  by (simp add: tree_places_def [abs_def] allocated_def layout_ok_def page_stripe_def node_stripe_def unit_bytes_def page_at_def node_at_def)

lemma roomy_cache [simp]: "roomy (t\<lparr>nodeCache := c\<rparr>) = roomy t"
  by (simp add: roomy_def node_stripe_def unit_bytes_def pageCapacity_def keyDiskSize_def)

lemma tree_holds_cache:
  assumes "tree_holds s fs t h m" "tree_store s fs (t\<lparr>nodeCache := c\<rparr>)"
  shows "tree_holds s fs (t\<lparr>nodeCache := c\<rparr>) h m"
  using assms by (simp add: tree_holds_def)

lemma records_map:
  assumes "wf_page ty p" shows "map_of (records p) key = Some es \<longleftrightarrow> (key, es) \<in> set (records p)"
proof -
  have "distinct (map fst (records p))" by (rule sorted_recs_distinct [OF shape_parts(6) [OF wf_page_shape [OF assms]]])
  then show ?thesis by simp
qed

text \<open>What a search for a key ends at.\<close>

lemma holds_leaf:
  assumes inv: "tree_inv V P (page_good t) (keyType t) g rt" "finite (gset g)" and b: "b \<in> gset g" "glev g b = 0" "struct_of V b m"
    "routed V (key_rank key) (glev g rt) b" and k: "wf_key (keyType t) key" and h: "holds V P g f"
  defines "i \<equiv> findPageInLeaf m key"
  shows "f key = (if i < length (vkids (the (V b))) then map_of (records (the (P (vkids (the (V b)) ! i)))) key else None)"
proof (cases "f key")
  case None
  then have "map_of (records (the (P (vkids (the (V b)) ! i)))) key = None" if "i < length (vkids (the (V b)))"
    using h entry_there [of b g i V key _ P] b(1,2) that map_of_SomeD unfolding holds_def by (metis not_Some_eq)
  then show ?thesis using None by auto
next
  case (Some es)
  then have e: "(key, es) \<in> entries_in V P g" using h by (simp add: holds_def)
  note here = entry_here [OF inv b k e, folded i_def]
  have "vleaf (the (V b))" using node_fitD(7) [OF tree_invD(3) [OF inv(1) b(1)]] b(2) by simp
  from page_fitD(6) [OF node_fitD(13) [OF tree_invD(3) [OF inv(1) b(1)] this here(1)]]
  have "wf_page (keyType t) (the (P (vkids (the (V b)) ! i)))" by (simp add: page_good_def)
  from records_map [OF this] here(2) have "map_of (records (the (P (vkids (the (V b)) ! i)))) key = Some es" by simp
  then show ?thesis using Some here(1) by simp
qed

lemma findPage_page:
  assumes st: "tree_holds s fs t h f" and k: "wf_key (keyType t) key" and d: "h \<le> d"
  shows "\<exists>a c. findPage fs d key t = Some (a, t\<lparr>nodeCache := c\<rparr>) \<and> tree_holds s fs (t\<lparr>nodeCache := c\<rparr>) h f \<and>
     (if a = 0 then f key = None else \<exists>p. pages_of fs t a = Some p \<and> page_good t p \<and> f key = map_of (records p) key)"
proof -
  let ?V = "nodes_of fs t" and ?P = "pages_of fs t"
  obtain g c0 d0 where g: "tree_places t ?V g c0 d0" "glev g (root t) = h" "tree_inv ?V ?P (page_good t) (keyType t) g (root t)" "holds ?V ?P g f"
    and ts: "tree_store s fs t" using st by (auto simp: tree_holds_def)
  note fin = places_finite [OF g(1)]
  obtain b m c where r: "findLeaf fs d key zero_node t = Some ((b, m), t\<lparr>nodeCache := c\<rparr>)" "tree_store s fs (t\<lparr>nodeCache := c\<rparr>)"
    "b \<in> gset g" "glev g b = 0" "struct_of ?V b m" "routed ?V (key_rank key) (glev g (root t)) b"
    using findLeaf_leaf [OF g(3) fin k ts refl d [folded g(2)] zero_node_arrays] by blast
  let ?v = "the (?V b)" and ?i = "findPageInLeaf m key"
  have b0: "b \<noteq> 0" by (rule node_fitD(1) [OF tree_invD(3) [OF g(3) r(3)]])
  note here = holds_leaf [OF g(3) fin r(3-6) k g(4)]
  note sd = struct_ofD [OF r(5)]
  note th = tree_holds_cache [OF st r(2)]
  show ?thesis
  proof (cases "?i < length (vkids ?v)")
    case False
    then have "?i = childCount m" using findPage_turn(1) [OF g(3) r(3-5) k] sd(4) by simp
    then show ?thesis using r(1) b0 here False th
      by (intro exI [of _ 0] exI [of _ c]) (simp add: findPage_def findPageAndLeaf_def)
  next
    case True
    let ?a = "vkids ?v ! ?i"
    have "vleaf ?v" using node_fitD(7) [OF tree_invD(3) [OF g(3) r(3)]] r(4) by simp
    note p = page_fitD [OF node_fitD(13) [OF tree_invD(3) [OF g(3) r(3)] this True]]
    have "idx (children m) ?i = Some ?a" using True sd(3,4,5,12) by (simp add: idx_def)
    then show ?thesis using r(1) b0 True sd(4) here th p(1,5,6)
      by (intro exI [of _ ?a] exI [of _ c]) (auto simp: findPage_def findPageAndLeaf_def)
  qed
qed

lemma page_good_wf: "page_good t p \<Longrightarrow> wf_page (keyType t) p"
  by (simp add: page_good_def)

section \<open>Allocation\<close>

lemma same_layout_fixed: "fixed t' = fixed t \<Longrightarrow> same_layout t t'"
  by (simp add: fixed_def same_layout_def)

lemma roomy_fixed: "fixed t' = fixed t \<Longrightarrow> roomy t' = roomy t"
  by (simp add: roomy_def fixed_def node_stripe_def unit_bytes_def pageCapacity_def keyDiskSize_def)

lemma page_good_fixed: "fixed t' = fixed t \<Longrightarrow> page_good t' = page_good t"
  by (simp add: page_good_def [abs_def] fixed_def keyDiskSize_def pageCapacity_def)

lemma allocated_fields:
  assumes "fixed t' = fixed t" "pageStripes t' = pageStripes t" "pageFree t' = pageFree t" "nodeStripes t' = nodeStripes t" "nodeFree t' = nodeFree t"
  shows "allocated t' = allocated t"
proof -
  note l = same_layoutD [OF same_layout_fixed [OF assms(1)]]
  show ?thesis using assms(1) unfolding allocated_def [abs_def] l assms(2-5) by (simp add: fixed_def)
qed

lemma tree_store_fields:
  assumes "tree_store n fs t" "fixed t' = fixed t" "pageDirty t' = pageDirty t" "nodeDirty t' = nodeDirty t" "delete t' = delete t"
    "nodeCache t' = nodeCache t" "undo t' = undo t"
  shows "tree_store n fs t'"
  using assms fixed_layout [OF assms(2)] disk_fixed [OF assms(2), of fs] by (simp add: tree_store_def pending_ok_def cache_fits_def)

lemma node_stripe_le: "j \<le> k \<Longrightarrow> node_stripe t j \<le> node_stripe t k"
  by (simp add: node_stripe_def mult_le_mono1)

lemma allocPage_shape: "allocPage t = Some (a, t') \<Longrightarrow> \<exists>x y. t' = t\<lparr>pageStripes := x, pageFree := y\<rparr>"
proof -
  assume "allocPage t = Some (a, t')"
  then obtain t1 z where t1: "t1 = t \<or> newPageStripe t = Some t1" "t' = t1\<lparr>pageFree := z\<rparr>"
    by (auto simp: allocPage_def split: option.splits if_splits)
  have "\<exists>x y. t1 = t\<lparr>pageStripes := x, pageFree := y\<rparr>"
  proof (cases "t1 = t")
    case True
    then have "t1 = t\<lparr>pageStripes := pageStripes t, pageFree := pageFree t\<rparr>" by simp
    then show ?thesis by blast
  next
    case False
    then have "newPageStripe t = Some t1" using t1(1) by simp
    then show ?thesis by (auto simp: newPageStripe_def Let_def split: option.splits)
  qed
  then obtain x y where "t1 = t\<lparr>pageStripes := x, pageFree := y\<rparr>" by blast
  then show ?thesis using t1(2) by (intro exI [of _ x] exI [of _ z]) simp
qed

lemma allocNode_shape: "allocNode t = (a, t') \<Longrightarrow> \<exists>x y. t' = t\<lparr>nodeStripes := x, nodeFree := y\<rparr>"
proof -
  assume "allocNode t = (a, t')"
  then obtain t1 z where t1: "t1 = t \<or> newNodeStripe t = t1" "t' = t1\<lparr>nodeFree := z\<rparr>"
    by (auto simp: allocNode_def Let_def split: if_splits)
  have "\<exists>x y. t1 = t\<lparr>nodeStripes := x, nodeFree := y\<rparr>"
  proof (cases "t1 = t")
    case True
    then have "t1 = t\<lparr>nodeStripes := nodeStripes t, nodeFree := nodeFree t\<rparr>" by simp
    then show ?thesis by blast
  next
    case False
    then have "newNodeStripe t = t1" using t1(1) by simp
    then show ?thesis by (auto simp: newNodeStripe_def Let_def)
  qed
  then obtain x y where "t1 = t\<lparr>nodeStripes := x, nodeFree := y\<rparr>" by blast
  then show ?thesis using t1(2) by (intro exI [of _ x] exI [of _ z]) simp
qed

lemma allocPage_store:
  assumes st: "tree_store n fs t" and a: "allocated t c d" and r: "roomy t" and c: "c < 2 ^ 28"
  shows "\<exists>x y. allocPage t = Some (of_nat (page_at t c), t\<lparr>pageStripes := x, pageFree := y\<rparr>) \<and>
     tree_store n fs (t\<lparr>pageStripes := x, pageFree := y\<rparr>) \<and> allocated (t\<lparr>pageStripes := x, pageFree := y\<rparr>) (c + 1) d"
proof -
  have "node_stripe t (c + 1) < 2 ^ 64" using node_stripe_le [of "c + 1" "2 ^ 28" t] c r by (simp add: roomy_def)
  then obtain t' where t': "allocPage t = Some (of_nat (page_at t c), t')" "allocated t' (c + 1) d"
    using allocPage_at [OF a] by blast
  obtain x y where s: "t' = t\<lparr>pageStripes := x, pageFree := y\<rparr>" using allocPage_shape [OF t'(1)] by blast
  have "tree_store n fs t'" by (rule tree_store_fields [OF st]) (simp_all add: s fixed_def)
  then show ?thesis using t' s by blast
qed

lemma allocNode_store:
  assumes st: "tree_store n fs t" and a: "allocated t c d" and r: "roomy t" and d: "d < 2 ^ 28"
  shows "\<exists>x y. allocNode t = (of_nat (node_at t d), t\<lparr>nodeStripes := x, nodeFree := y\<rparr>) \<and>
     tree_store n fs (t\<lparr>nodeStripes := x, nodeFree := y\<rparr>) \<and> allocated (t\<lparr>nodeStripes := x, nodeFree := y\<rparr>) c (d + 1)"
proof -
  have "node_stripe t (d + 1) < 2 ^ 64" using node_stripe_le [of "d + 1" "2 ^ 28" t] d r by (simp add: roomy_def)
  then obtain t' where t': "allocNode t = (of_nat (node_at t d), t')" "allocated t' c (d + 1)"
    using allocNode_at [OF a] by blast
  obtain x y where s: "t' = t\<lparr>nodeStripes := x, nodeFree := y\<rparr>" using allocNode_shape [OF t'(1)] by blast
  have "tree_store n fs t'" by (rule tree_store_fields [OF st]) (simp_all add: s fixed_def)
  then show ?thesis using t' s by blast
qed

text \<open>Positions of objects allocated at different times are different, and none is 0.\<close>

lemma node_place_less:
  assumes "layout_ok t" "roomy t" "j < 2 ^ 28"
  shows "node_at t j < 2 ^ 64" "0 < node_at t j"
proof -
  have "j div nat (nodeStripeLen t) \<le> j" by simp
  from stripe_ends(2) [OF assms(1) this]
  have "node_stripe t (j div nat (nodeStripeLen t)) + nat (nodeStripeLen t) * nat (nodeSize t) \<le> node_stripe t (j + 1)" .
  moreover have "j mod nat (nodeStripeLen t) < nat (nodeStripeLen t)" using assms(1) by (simp add: layout_ok_def)
  then have "j mod nat (nodeStripeLen t) * nat (nodeSize t) \<le> nat (nodeStripeLen t) * nat (nodeSize t)" by (simp add: mult_le_mono1)
  moreover have "node_stripe t (j + 1) < 2 ^ 64" using node_stripe_le [of "j + 1" "2 ^ 28" t] assms(2,3) by (simp add: roomy_def)
  ultimately show "node_at t j < 2 ^ 64" unfolding node_at_def by linarith
  show "0 < node_at t j" using assms(2) by (simp add: node_at_def node_stripe_def roomy_def)
qed

lemma page_place_less:
  assumes "layout_ok t" "roomy t" "j < 2 ^ 28"
  shows "page_at t j < 2 ^ 64" "0 < page_at t j"
proof -
  have "j div nat (pageStripeLen t) \<le> j" by simp
  from stripe_ends(1) [OF assms(1) this]
  have "page_stripe t (j div nat (pageStripeLen t)) + nat (pageStripeLen t) * nat (pageSize t) \<le> node_stripe t (j + 1)" .
  moreover have "j mod nat (pageStripeLen t) < nat (pageStripeLen t)" using assms(1) by (simp add: layout_ok_def)
  then have "j mod nat (pageStripeLen t) * nat (pageSize t) \<le> nat (pageStripeLen t) * nat (pageSize t)" by (simp add: mult_le_mono1)
  moreover have "node_stripe t (j + 1) < 2 ^ 64" using node_stripe_le [of "j + 1" "2 ^ 28" t] assms(2,3) by (simp add: roomy_def)
  ultimately show "page_at t j < 2 ^ 64" unfolding page_at_def by linarith
  show "0 < page_at t j" using assms(2) by (simp add: page_at_def page_stripe_def roomy_def)
qed

lemma of_nat_u64_eq: "a < 2 ^ 64 \<Longrightarrow> b < 2 ^ 64 \<Longrightarrow> (of_nat a :: u64) = of_nat b \<longleftrightarrow> a = b"
  by (metis of_nat_le_u64 order_antisym_conv order_refl)

lemma fresh_node:
  assumes "layout_ok t" "roomy t" "d < 2 ^ 28"
  shows "(of_nat (node_at t d) :: u64) \<noteq> 0" "(of_nat (node_at t d) :: u64) \<notin> (\<lambda>j. of_nat (node_at t j)) ` {..<d}"
proof -
  show "(of_nat (node_at t d) :: u64) \<noteq> 0"
    using of_nat_u64_eq [of "node_at t d" 0] node_place_less [OF assms] by simp
  have "node_at t j < node_at t d" if "j < d" for j
  proof -
    have "0 < nat (nodeSize t)" using assms(1) by (simp add: layout_ok_def)
    then show ?thesis using node_at_before [OF assms(1) that] by linarith
  qed
  then show "(of_nat (node_at t d) :: u64) \<notin> (\<lambda>j. of_nat (node_at t j)) ` {..<d}"
    using of_nat_u64_eq node_place_less(1) [OF assms(1,2)] assms(3) by fastforce
qed

lemma fresh_page:
  assumes "layout_ok t" "roomy t" "c < 2 ^ 28"
  shows "(of_nat (page_at t c) :: u64) \<noteq> 0" "(of_nat (page_at t c) :: u64) \<notin> (\<lambda>j. of_nat (page_at t j)) ` {..<c}"
proof -
  show "(of_nat (page_at t c) :: u64) \<noteq> 0"
    using of_nat_u64_eq [of "page_at t c" 0] page_place_less [OF assms] by simp
  have "page_at t j < page_at t c" if "j < c" for j
  proof -
    have "0 < nat (pageSize t)" using assms(1) by (simp add: layout_ok_def)
    then show ?thesis using page_at_before [OF assms(1) that] by linarith
  qed
  then show "(of_nat (page_at t c) :: u64) \<notin> (\<lambda>j. of_nat (page_at t j)) ` {..<c}"
    using of_nat_u64_eq page_place_less(1) [OF assms(1,2)] assms(3) by fastforce
qed

end
