(* ===== verification/TreeOps.thy ===== *)
theory TreeOps
  imports Tree
begin

text \<open>
  New trees and lookups: a new tree holds the empty map, and searching and reading give what the tree holds.
\<close>

section \<open>A new tree\<close>

lemma setRoot_store:
  assumes "tree_store n fs t"
  shows "tree_store n fs (setRoot a t)" "nodes_of fs (setRoot a t) = nodes_of fs t" "pages_of fs (setRoot a t) = pages_of fs t"
proof -
  note ok = conjunct1 [OF assms [unfolded tree_store_def]]
  have k: "keeps n fs t (setRoot a t)" using setRoot_keeps [OF ok] by simp
  have "nc_map (nodeCache (setRoot a t)) = Map.empty" using nodeCacheClear_map [OF pending_okD(11) [OF ok]] by (simp add: setRoot_def)
  then show "tree_store n fs (setRoot a t)" using assms k by (simp add: tree_store_def keeps_def) (simp add: setRoot_def)
  have fx: "fixed (setRoot a t) = fixed t" by (simp add: fixed_def setRoot_def)
  show "nodes_of fs (setRoot a t) = nodes_of fs t" by (rule nodes_of_cong [OF fx]) (simp add: setRoot_def)
  show "pages_of fs (setRoot a t) = pages_of fs t" by (rule pages_of_cong [OF fx]) (simp add: setRoot_def)
qed

lemma nodes_of_fields:
  "fixed t' = fixed t \<Longrightarrow> nodeDirty t' = nodeDirty t \<Longrightarrow> nodes_of fs t' = nodes_of fs t"
  by (rule nodes_of_cong) simp_all

lemma pages_of_fields:
  "fixed t' = fixed t \<Longrightarrow> pageDirty t' = pageDirty t \<Longrightarrow> pages_of fs t' = pages_of fs t"
  by (rule pages_of_cong) simp_all

lemma new_store: "tree_store 0 fs (newTable name ty)"
proof -
  have "pending_ok 0 fs (newTable name ty)"
    using init_pending(1) [where n = 0 and fs = fs and name = name and ty = ty and b = False and c = True]
    by (simp add: newTable_def initTable_def initDirtyHashmaps_def Let_def)
  moreover have "nodeDirty (newTable name ty) = initAddrTable" "nodeCache (newTable name ty) = nodeCacheInit (1 + M_GLOBAL)"
    by (simp_all add: newTable_def initTable_def initDirtyHashmaps_def Let_def)
  ultimately show ?thesis using nodeCacheInit_wf [of "1 + M_GLOBAL"] by (simp add: tree_store_def M_GLOBAL_def)
qed

lemma new_fields:
  "keyType (newTable name ty) = ty" "pageSize (newTable name ty) = 4096" "metalen (newTable name ty) = 68"
  by (simp_all add: newTable_def)

lemma new_roomy: "roomy (newTable name ty)"
proof -
  have f: "nodeStripeLen (newTable name ty) = 1" "pageStripeLen (newTable name ty) = 1" "pageNodeRatio (newTable name ty) = 22"
    "nodeSize (newTable name ty) = int (NODE_DISK_SIZE (orderingKeyDiskSize ty))" by (simp_all add: newTable_def)
  have "unit_bytes (newTable name ty) \<le> 2 ^ 17"
    using node_disk_size(2) [of ty] by (simp add: unit_bytes_def f new_fields)
  then have "2 ^ 28 * unit_bytes (newTable name ty) \<le> 2 ^ 28 * 2 ^ 17" by (intro mult_le_mono2)
  then have "node_stripe (newTable name ty) (2 ^ 28) < 2 ^ 64" by (simp add: node_stripe_def new_fields)
  moreover have "pageCapacity (newTable name ty) < 2 ^ 20"
    by (cases ty) (simp_all add: pageCapacity_def keyDiskSize_def new_fields PAGE_HEADER_DISK_SIZE_def orderingKeyDiskSize_def TEXT_KEY_MAX_LEN_def NUMERIC_KEY_DISK_SIZE_def)
  ultimately show ?thesis by (simp add: roomy_def new_fields)
qed

lemma first_key: "wf_key ty (zero_key\<lparr>otype := ty\<rparr>)"
  by (cases ty) (simp_all add: wf_key_def zero_key_def nth_Cons')

lemma new_page:
  "page_good t (newPage t)" "records (newPage t) = []" "page_arrays (newPage t)" "copyPage (newPage t) = newPage t" "empty_page (newPage t)"
proof -
  note w = makeSPage_wf [of "keyType t" PAGE_NUM_SLOTS PAGE_NUM_ENTRIES "pageCapacity t" "keyDiskSize t"]
  have h: "keySize (hdr (newPage t)) = keyDiskSize t" "arrCap (hdr (newPage t)) = pageCapacity t" by (simp_all add: newPage_def makeSPage_def)
  show r: "records (newPage t) = []" and "empty_page (newPage t)" using w by (simp_all add: newPage_def)
  have "wf_page (keyType t) (newPage t)" using w by (simp add: newPage_def keyDiskSize_def)
  then show "page_good t (newPage t)" using h r by (simp add: page_good_def recs_bytes_def)
  show "page_arrays (newPage t)" "copyPage (newPage t) = newPage t"
    by (simp_all add: newPage_def makeSPage_def page_arrays_def copyPage_def)
qed

lemma new_tree_empty_holds:
  "\<exists>t. newTree name ty = Some t \<and> keyType t = ty \<and> tree_holds 2 fs t 0 Map.empty"
proof -
  let ?t0 = "newTable name ty" and ?k = "zero_key\<lparr>otype := ty\<rparr>"
  have a0: "allocated ?t0 0 0" using init_allocated [of name ty] allocated_fields [of ?t0 "initTable name ty"]
    by (simp add: newTable_def allocated_def layout_ok_def page_stripe_def node_stripe_def unit_bytes_def)
  have lay: "layout_ok ?t0" using a0 by (simp add: allocated_def)
  obtain x1 y1 where n1: "allocNode ?t0 = (of_nat (node_at ?t0 0), ?t0\<lparr>nodeStripes := x1, nodeFree := y1\<rparr>)"
    "tree_store 0 fs (?t0\<lparr>nodeStripes := x1, nodeFree := y1\<rparr>)" "allocated (?t0\<lparr>nodeStripes := x1, nodeFree := y1\<rparr>) 0 1"
    using allocNode_store [OF new_store a0 new_roomy] by fastforce
  define t1 where "t1 = ?t0\<lparr>nodeStripes := x1, nodeFree := y1\<rparr>"
  have f1: "fixed t1 = fixed ?t0" by (simp add: t1_def fixed_def)
  have r1: "roomy t1" using roomy_fixed [OF f1] new_roomy by simp
  obtain x2 y2 where n2: "allocPage t1 = Some (of_nat (page_at t1 0), t1\<lparr>pageStripes := x2, pageFree := y2\<rparr>)"
    "tree_store 0 fs (t1\<lparr>pageStripes := x2, pageFree := y2\<rparr>)" "allocated (t1\<lparr>pageStripes := x2, pageFree := y2\<rparr>) 1 1"
    using allocPage_store [OF n1(2,3) [folded t1_def] r1] by fastforce
  define t2 where "t2 = t1\<lparr>pageStripes := x2, pageFree := y2\<rparr>"
  let ?n = "of_nat (node_at ?t0 0) :: address" and ?p = "of_nat (page_at t1 0) :: address"
  let ?r = "zero_node\<lparr>childCount := 1, children := (children zero_node)[0 := ?p], keys := (keys zero_node)[0 := ?k], isLeaf := True, nmaxKey := ?k\<rparr>"
  define t3 where "t3 = setRoot ?n t2"
  have s3: "tree_store 0 fs t3" unfolding t3_def by (rule setRoot_store(1) [OF n2(2) [folded t2_def]])
  have n0: "?n \<noteq> 0" using fresh_node(1) [OF lay new_roomy, of 0] by simp
  have p0: "?p \<noteq> 0" using fresh_page(1) [OF _ r1, of 0] lay fixed_layout [OF f1] by simp
  have arr: "node_arrays ?r" "childCount ?r \<le> M_GLOBAL" by (simp_all add: node_arrays_def zero_node_def M_GLOBAL_def)
  obtain u4 d4 where n4: "markNode ?n ?r t3 = Some (t3\<lparr>undo := u4, nodeDirty := d4\<rparr>)" "tree_store 1 fs (t3\<lparr>undo := u4, nodeDirty := d4\<rparr>)"
    "nodes_of fs (t3\<lparr>undo := u4, nodeDirty := d4\<rparr>) = (nodes_of fs t3)(?n \<mapsto> view_of ?r)"
    using markNode_store [OF s3 n0 _ arr] by auto
  define t4 where "t4 = t3\<lparr>undo := u4, nodeDirty := d4\<rparr>"
  obtain u5 d5 where n5: "markPage False ?p (newPage t1) t4 = Some (t4\<lparr>undo := u5, pageDirty := d5\<rparr>)" "tree_store 2 fs (t4\<lparr>undo := u5, pageDirty := d5\<rparr>)"
    "pages_of fs (t4\<lparr>undo := u5, pageDirty := d5\<rparr>) = (pages_of fs t4)(?p \<mapsto> newPage t1)" "nodes_of fs (t4\<lparr>undo := u5, pageDirty := d5\<rparr>) = nodes_of fs t4"
    using markPage_store [OF n4(2) [folded t4_def] p0 _ new_page(3) [of t1]] unfolding new_page(4) one_add_one by (metis power_one_right one_less_power zero_less_numeral numeral_less_iff one_less_numeral_iff semiring_norm(76))
  define t5 where "t5 = t4\<lparr>undo := u5, pageDirty := d5\<rparr>"
  have run: "newTree name ty = Some t5"
    unfolding newTree_def n1(1) t1_def [symmetric] Let_def prod.case n2(1) t2_def [symmetric] t3_def [symmetric] bind_simps
    using n4(1) n5(1) by (simp add: t4_def [symmetric] t5_def [symmetric] n2(1) t2_def [symmetric] t3_def [symmetric])
  have f5: "fixed t5 = fixed ?t0" "fixed t5 = fixed t1" by (simp_all add: t5_def t4_def t3_def setRoot_def t2_def t1_def fixed_def)
  let ?V = "nodes_of fs t5" and ?P = "pages_of fs t5"
  define g where "g = \<lparr>gset = {?n}, glev = \<lambda>_. 0, glo = \<lambda>_. key_rank ?k, ghi = \<lambda>_. key_rank ?k\<rparr>"
  have v: "?V ?n = Some (view_of ?r)" using n4(3) n5(4) by (simp add: t5_def t4_def)
  have w: "vkids (view_of ?r) = [?p]" "vkeys (view_of ?r) = [?k]" "vleaf (view_of ?r)" "vpar (view_of ?r) = 0" "vmax (view_of ?r) = ?k" "vnext (view_of ?r) = 0"
    by (simp_all add: view_of_def keylim_def zero_node_def M_GLOBAL_def take_Suc numeral_eq_Suc)
  have p: "?P ?p = Some (newPage t1)" using n5(3) by (simp add: t5_def)
  have good: "page_good t5 (newPage t1)" using new_page(1) [of t1] page_good_fixed [OF f5(2)] by simp
  have rt: "root t5 = ?n" and kt: "keyType t5 = ty" by (simp_all add: t5_def t4_def t3_def setRoot_def t2_def t1_def new_fields)
  have "node_fit ?V ?P (page_good t5) ty g ?n ?n (view_of ?r)"
    using n0 w p good first_key [of ty] p0 by (simp add: node_fit_def g_def page_fit_def new_page(2) M_GLOBAL_def)
  then have inv: "tree_inv ?V ?P (page_good t5) (keyType t5) g (root t5)"
    using v w by (simp add: tree_inv_def rt kt g_def)
  have "entries_in ?V ?P g = {}" using v w p by (simp add: entries_in_def g_def new_page(2))
  then have h: "holds ?V ?P g Map.empty" by (simp add: holds_def)
  have "allocated t5 1 1"
    using n2(3) allocated_fields [of t5 t2] by (simp add: t2_def [symmetric]) (simp add: t5_def t4_def t3_def setRoot_def t2_def fixed_def)
  moreover note l5 = same_layoutD [OF same_layout_fixed [OF f5(1)]] and l1 = same_layoutD [OF same_layout_fixed [OF f1]]
  ultimately have "tree_places t5 ?V g 1 1" using v w by (simp add: tree_places_def g_def l5 l1)
  moreover have "roomy t5" using roomy_fixed [OF f5(1)] new_roomy by simp
  ultimately have "tree_holds 2 fs t5 0 Map.empty"
    using n5(2) [folded t5_def] inv h unfolding tree_holds_def by (intro conjI exI [of _ g] exI [of _ 1]) (auto simp: g_def)
  then show ?thesis using run kt by blast
qed

text \<open>C37: A new tree is a well-formed tree that holds nothing. \<open>newTree\<close> succeeds for every name and key type, and its
  table holds the empty map in a tree of height 0, with two objects pending.\<close>

theorem new_tree_empty:
  "\<exists>t. newTree name ty = Some t \<and> tree_holds 2 fs t 0 Map.empty"
  using new_tree_empty_holds by blast

section \<open>Lookups\<close>

text \<open>C10: Lookups are exact. In a table whose tree holds a map, \<open>searchRecord\<close> says whether the map has the key and
  \<open>readRecord\<close> returns its entries, for every key of the table's type; neither changes what the tree holds, and a
  recursion as deep as the tree is high is enough.\<close>

theorem record_lookup:
  assumes "tree_holds s fs t h f" "wf_key (keyType t) key" "h \<le> d"
  shows "\<exists>t'. searchRecord fs d key t = Some (f key \<noteq> None, t') \<and> tree_holds s fs t' h f \<and>
     (\<exists>pg. readRecord fs d key page t = Some ((f key, pg), t'))"
proof -
  obtain a c where r: "findPage fs d key t = Some (a, t\<lparr>nodeCache := c\<rparr>)" "tree_holds s fs (t\<lparr>nodeCache := c\<rparr>) h f"
    "if a = 0 then f key = None else \<exists>p. pages_of fs t a = Some p \<and> page_good t p \<and> f key = map_of (records p) key"
    using findPage_page [OF assms] by blast
  show ?thesis
  proof (cases "a = 0")
    case True
    then show ?thesis using r by (simp add: searchRecord_def readRecord_def)
  next
    case False
    then obtain p where p: "pages_of fs t a = Some p" "page_good t p" "f key = map_of (records p) key" using r(3) by auto
    note sh = wf_page_shape [OF page_good_wf [OF p(2)]]
    have "tree_store s fs (t\<lparr>nodeCache := c\<rparr>)" using r(2) by (simp add: tree_holds_def)
    then have "readPage fs a (t\<lparr>nodeCache := c\<rparr>) = Some (Some p)" by (rule readPage_store [OF _ False]) (simp add: p(1))
    moreover have "(SPSearch p key \<noteq> None) = (f key \<noteq> None)"
      using SPSearch_page [OF sh assms(2)] p(3) map_of_eq_None_iff [of "records p" key] by auto
    moreover have "SPRead p key = f key" using SPRead_page [OF sh assms(2)] p(3) by simp
    ultimately show ?thesis using r(1,2) False by (simp add: searchRecord_def readRecord_def)
  qed
qed

theorem record_lookup_witness:
  "\<exists>t t'. newTree [116] ORDERING_ULONG = Some t \<and> searchRecord Map.empty 0 (zero_key\<lparr>u64 := 5\<rparr>) t = Some (False, t')"
proof -
  obtain t where t: "newTree [116] ORDERING_ULONG = Some t" "tree_holds 2 Map.empty t 0 Map.empty" and kt: "keyType t = ORDERING_ULONG"
    using new_tree_empty_holds by blast
  have k: "wf_key (keyType t) (zero_key\<lparr>u64 := 5\<rparr>)" unfolding kt by (simp add: wf_key_def zero_key_def)
  obtain t' where "searchRecord Map.empty 0 (zero_key\<lparr>u64 := 5\<rparr>) t = Some (False, t')"
    using record_lookup [OF t(2) k, of 0] by auto
  then show ?thesis using t(1) by blast
qed

end
