(* ===== verification/Token.thy ===== *)
theory Token
  imports Prelude
begin

text \<open>
  The tokens of \<open>SQL_interpreter/lexer.h\<close>, in the order of the C enumeration, and the keywords among them.
\<close>

datatype (plugins only: code) token_type =
  TOKEN_LEFT_PAREN | TOKEN_RIGHT_PAREN | TOKEN_LEFT_BRACE | TOKEN_RIGHT_BRACE | TOKEN_COMMA | TOKEN_DOT |
  TOKEN_MINUS | TOKEN_PLUS | TOKEN_SEMICOLON | TOKEN_SLASH | TOKEN_STAR | TOKEN_BANG | TOKEN_BANG_EQUAL |
  TOKEN_EQUAL | TOKEN_EQUAL_EQUAL | TOKEN_GREATER | TOKEN_GREATER_EQUAL | TOKEN_LESS | TOKEN_LESS_EQUAL |
  TOKEN_IDENTIFIER | TOKEN_STRING | TOKEN_NUMBER | TOKEN_ADD | TOKEN_ALL | TOKEN_ALTER | TOKEN_AND |
  TOKEN_ANY | TOKEN_AS | TOKEN_ASC | TOKEN_BACKUP | TOKEN_BEGIN | TOKEN_BETWEEN | TOKEN_BY | TOKEN_CASE |
  TOKEN_CHECK | TOKEN_COLLECT | TOKEN_COLUMN | TOKEN_COMMIT | TOKEN_CONSTRAINT | TOKEN_CREATE |
  TOKEN_DATABASE | TOKEN_DEFAULT | TOKEN_DELETE | TOKEN_DESC | TOKEN_DISCARD | TOKEN_DISTINCT | TOKEN_DROP |
  TOKEN_EXEC | TOKEN_EXISTS | TOKEN_FOREIGN | TOKEN_FROM | TOKEN_FULL | TOKEN_GROUP | TOKEN_HAVING |
  TOKEN_IN | TOKEN_INDEX | TOKEN_INNER | TOKEN_INSERT | TOKEN_INTO | TOKEN_IS | TOKEN_JOIN | TOKEN_KEY |
  TOKEN_LEFT | TOKEN_LIKE | TOKEN_LIMIT | TOKEN_NOT | TOKEN_NULL | TOKEN_ON | TOKEN_OR | TOKEN_ORDER |
  TOKEN_OUTER | TOKEN_PRIMARY | TOKEN_PROCEDURE | TOKEN_REPLACE | TOKEN_RIGHT | TOKEN_ROWNUM | TOKEN_SELECT |
  TOKEN_SET | TOKEN_TABLE | TOKEN_TOP | TOKEN_TRANSACTION | TOKEN_TRUNCATE | TOKEN_UNION | TOKEN_UNIQUE |
  TOKEN_UPDATE | TOKEN_VALUES | TOKEN_VIEW | TOKEN_WHERE | TOKEN_ERROR | TOKEN_EOF | TOKEN_EMPTY

text \<open>A token: its type, the characters it was read from, and the line.\<close>

record token =
  ttype :: token_type
  ttext :: string
  tline :: nat

text \<open>The keywords of the language, in lower case.\<close>

definition sql_keywords :: "(string \<times> token_type) list" where
  "sql_keywords = [(''add'', TOKEN_ADD), (''all'', TOKEN_ALL), (''alter'', TOKEN_ALTER), (''and'', TOKEN_AND),
     (''any'', TOKEN_ANY), (''as'', TOKEN_AS), (''asc'', TOKEN_ASC), (''backup'', TOKEN_BACKUP),
     (''begin'', TOKEN_BEGIN), (''between'', TOKEN_BETWEEN), (''by'', TOKEN_BY), (''case'', TOKEN_CASE),
     (''check'', TOKEN_CHECK), (''collect'', TOKEN_COLLECT), (''column'', TOKEN_COLUMN),
     (''commit'', TOKEN_COMMIT), (''constraint'', TOKEN_CONSTRAINT), (''create'', TOKEN_CREATE),
     (''database'', TOKEN_DATABASE), (''default'', TOKEN_DEFAULT), (''delete'', TOKEN_DELETE),
     (''desc'', TOKEN_DESC), (''discard'', TOKEN_DISCARD), (''distinct'', TOKEN_DISTINCT),
     (''drop'', TOKEN_DROP), (''exec'', TOKEN_EXEC), (''exists'', TOKEN_EXISTS), (''foreign'', TOKEN_FOREIGN),
     (''from'', TOKEN_FROM), (''full'', TOKEN_FULL), (''group'', TOKEN_GROUP), (''having'', TOKEN_HAVING),
     (''in'', TOKEN_IN), (''index'', TOKEN_INDEX), (''inner'', TOKEN_INNER), (''insert'', TOKEN_INSERT),
     (''into'', TOKEN_INTO), (''is'', TOKEN_IS), (''join'', TOKEN_JOIN), (''key'', TOKEN_KEY),
     (''left'', TOKEN_LEFT), (''like'', TOKEN_LIKE), (''limit'', TOKEN_LIMIT), (''not'', TOKEN_NOT),
     (''null'', TOKEN_NULL), (''on'', TOKEN_ON), (''or'', TOKEN_OR), (''order'', TOKEN_ORDER),
     (''outer'', TOKEN_OUTER), (''primary'', TOKEN_PRIMARY), (''procedure'', TOKEN_PROCEDURE),
     (''replace'', TOKEN_REPLACE), (''right'', TOKEN_RIGHT), (''rownum'', TOKEN_ROWNUM),
     (''select'', TOKEN_SELECT), (''set'', TOKEN_SET), (''table'', TOKEN_TABLE), (''top'', TOKEN_TOP),
     (''transaction'', TOKEN_TRANSACTION), (''truncate'', TOKEN_TRUNCATE), (''union'', TOKEN_UNION),
     (''unique'', TOKEN_UNIQUE), (''update'', TOKEN_UPDATE), (''values'', TOKEN_VALUES),
     (''view'', TOKEN_VIEW), (''where'', TOKEN_WHERE)]"

end
