(* ===== verification/Lexer.thy ===== *)
theory Lexer
  imports Token
begin

text \<open>
  \<open>SQL_interpreter/lexer.c\<close>. A pointer into the source, a C string, is the suffix of the source it points at;
  the empty suffix is the terminating NUL. The lexer has the two pointers of the C struct and its line counter.
  Theorems: the nest of switches that recognises keywords is the table of keywords, without regard to case; the
  lexer ends on every source; every source of tokens separated by blanks is read back as those tokens.
\<close>

section \<open>State\<close>

record lexer =
  start :: string
  current :: string
  line :: nat

definition NUL :: char where "NUL = CHR 0x00"
definition TAB :: char where "TAB = CHR 0x09"
definition NEWLINE :: char where "NEWLINE = CHR 0x0A"
definition CARRIAGE_RETURN :: char where "CARRIAGE_RETURN = CHR 0x0D"
definition QUOTE :: char where "QUOTE = CHR 0x27"

lemmas char_names = NUL_def TAB_def NEWLINE_def CARRIAGE_RETURN_def QUOTE_def

definition initLexer :: "string \<Rightarrow> lexer" where
  "initLexer source = \<lparr>start = source, current = source, line = 1\<rparr>"

section \<open>Characters\<close>

definition char_code :: "char \<Rightarrow> nat" where
  "char_code c = of_char c"

definition isAlpha :: "char \<Rightarrow> bool" where
  "isAlpha c \<longleftrightarrow> (97 \<le> char_code c \<and> char_code c \<le> 122) \<or> (65 \<le> char_code c \<and> char_code c \<le> 90) \<or> c = CHR ''_''"

definition isDigit :: "char \<Rightarrow> bool" where
  "isDigit c \<longleftrightarrow> 48 \<le> char_code c \<and> char_code c \<le> 57"

text \<open>C's \<open>tolower\<close> in the C locale.\<close>

definition tolower :: "char \<Rightarrow> char" where
  "tolower c = (if 65 \<le> char_code c \<and> char_code c \<le> 90 then char_of (char_code c + 32) else c)"

definition isAtEnd :: "lexer \<Rightarrow> bool" where
  "isAtEnd l = (current l = [])"

definition head_char :: "string \<Rightarrow> char" where
  "head_char s = (case s of [] \<Rightarrow> NUL | c # _ \<Rightarrow> c)"

definition peek :: "lexer \<Rightarrow> char" where
  "peek l = head_char (current l)"

definition peekNext :: "lexer \<Rightarrow> char" where
  "peekNext l = (if isAtEnd l then NUL else head_char (tl (current l)))"

definition advance :: "lexer \<Rightarrow> char \<times> lexer" where
  "advance l = (head_char (current l), l\<lparr>current := tl (current l)\<rparr>)"

definition match :: "char \<Rightarrow> lexer \<Rightarrow> bool \<times> lexer" where
  "match expected l =
     (if isAtEnd l then (False, l)
      else if head_char (current l) \<noteq> expected then (False, l)
      else (True, l\<lparr>current := tl (current l)\<rparr>))"

section \<open>Tokens\<close>

definition makeToken :: "token_type \<Rightarrow> lexer \<Rightarrow> token" where
  "makeToken ty l = \<lparr>ttype = ty, ttext = take (length (start l) - length (current l)) (start l), tline = line l\<rparr>"

definition errorToken :: "string \<Rightarrow> lexer \<Rightarrow> token" where
  "errorToken message l = \<lparr>ttype = TOKEN_ERROR, ttext = message, tline = line l\<rparr>"

section \<open>Blanks and comments\<close>

text \<open>The loops of the two kinds of comment: to the end of the line, and up to the closing marker.\<close>

fun line_comment :: "string \<Rightarrow> string" where
  "line_comment [] = []"
| "line_comment (c # s) = (if c \<noteq> NEWLINE then line_comment s else c # s)"

fun block_comment :: "string \<Rightarrow> nat \<Rightarrow> string \<times> nat" where
  "block_comment [] n = ([], n)"
| "block_comment (c # s) n =
     (if \<not> (c = CHR ''*'' \<and> head_char s = CHR ''/'') then block_comment s (if c = NEWLINE then n + 1 else n)
      else (c # s, n))"

lemma length_line_comment: "length (line_comment s) \<le> length s"
  by (induction s) auto

lemma length_block_comment: "length (fst (block_comment s n)) \<le> length s"
  by (induction s n rule: block_comment.induct) auto

text \<open>What is left after a comment: its closing marker is stepped past, if it has one.\<close>

definition after_comment :: "string \<Rightarrow> nat \<Rightarrow> string \<times> nat" where
  "after_comment s n = (let (s', n') = block_comment s n in (if s' \<noteq> [] then tl (tl s') else s', n'))"

lemma length_after_comment: "length (fst (after_comment s n)) \<le> length s"
  using length_block_comment [of s n] by (auto simp: after_comment_def split: prod.split)

function skip_blanks :: "string \<Rightarrow> nat \<Rightarrow> string \<times> nat" where
  "skip_blanks [] n = ([], n)"
| "skip_blanks (c # s) n =
     (if c = CHR '' '' \<or> c = CARRIAGE_RETURN \<or> c = TAB then skip_blanks s n
      else if c = NEWLINE then skip_blanks s (n + 1)
      else if c = CHR ''-'' then
        (if head_char s = CHR ''-'' then skip_blanks (line_comment s) n else (c # s, n))
      else if c = CHR ''/'' then
        (if head_char s = CHR ''*'' then skip_blanks (fst (after_comment (tl s) n)) (snd (after_comment (tl s) n))
         else (c # s, n))
      else (c # s, n))"
  by pat_completeness auto
termination
proof (relation "measure (\<lambda>p. length (fst p))")
  fix c s n
  have "length (fst (after_comment (tl s) n)) \<le> length s"
    using length_after_comment [of "tl s" n] by simp
  then show "((fst (after_comment (tl s) n), snd (after_comment (tl s) n)), c # s, n) \<in> measure (\<lambda>p. length (fst p))" by simp
qed (use length_line_comment in \<open>auto simp: le_imp_less_Suc\<close>)

definition skipWhitespace :: "lexer \<Rightarrow> lexer" where
  "skipWhitespace l = (let (s, n) = skip_blanks (current l) (line l) in l\<lparr>current := s, line := n\<rparr>)"

section \<open>Keywords\<close>

text \<open>\<open>len\<close> is \<open>lex.current - lex.start\<close>.\<close>

definition checkKeyword :: "string \<Rightarrow> nat \<Rightarrow> nat \<Rightarrow> nat \<Rightarrow> string \<Rightarrow> token_type \<Rightarrow> token_type" where
  "checkKeyword s len st n rest ty =
     (if len = st + n \<and> map tolower (take n (drop st s)) = map tolower (take n rest) then ty else TOKEN_IDENTIFIER)"

text \<open>The characters at \<open>lex.start\<close>; \<open>past\<close> is whatever lies behind the terminating NUL of the source.\<close>

definition char_at :: "string \<Rightarrow> char \<Rightarrow> nat \<Rightarrow> char" where
  "char_at s past i = (if i < length s then s ! i else if i = length s then NUL else past)"

definition identifierType :: "char \<Rightarrow> string \<Rightarrow> nat \<Rightarrow> token_type" where
  "identifierType past s len =
     (let at = (\<lambda>i. tolower (char_at s past i)); kw = checkKeyword s len 1
      in (if at 0 = CHR ''a'' then (if at 1 = CHR ''d'' then kw 2 ''dd'' TOKEN_ADD
             else if at 1 = CHR ''l'' then (if at 2 = CHR ''l'' then kw 2 ''ll'' TOKEN_ALL
                   else if at 2 = CHR ''t'' then kw 4 ''lter'' TOKEN_ALTER
                   else TOKEN_IDENTIFIER)
             else if at 1 = CHR ''n'' then (if at 2 = CHR ''d'' then kw 2 ''nd'' TOKEN_AND
                   else if at 2 = CHR ''y'' then kw 2 ''ny'' TOKEN_ANY
                   else TOKEN_IDENTIFIER)
             else if at 1 = CHR ''s'' then (if at 2 = CHR ''c'' then kw 2 ''sc'' TOKEN_ASC
                   else kw 1 ''s'' TOKEN_AS)
             else TOKEN_IDENTIFIER)
       else if at 0 = CHR ''b'' then (if at 1 = CHR ''a'' then kw 5 ''ackup'' TOKEN_BACKUP
             else if at 1 = CHR ''e'' then (if at 2 = CHR ''g'' then kw 4 ''egin'' TOKEN_BEGIN
                   else if at 2 = CHR ''t'' then kw 6 ''etween'' TOKEN_BETWEEN
                   else kw 1 ''y'' TOKEN_BY)
             else if at 1 = CHR ''y'' then kw 1 ''y'' TOKEN_BY
             else TOKEN_IDENTIFIER)
       else if at 0 = CHR ''c'' then (if at 1 = CHR ''a'' then kw 3 ''ase'' TOKEN_CASE
             else if at 1 = CHR ''h'' then kw 4 ''heck'' TOKEN_CHECK
             else if at 1 = CHR ''o'' then (if at 2 = CHR ''l'' then (if at 3 = CHR ''l'' then kw 6 ''ollect'' TOKEN_COLLECT
                         else if at 3 = CHR ''u'' then kw 5 ''olumn'' TOKEN_COLUMN
                         else kw 5 ''ommit'' TOKEN_COMMIT)
                   else if at 2 = CHR ''m'' then kw 5 ''ommit'' TOKEN_COMMIT
                   else if at 2 = CHR ''n'' then kw 9 ''onstraint'' TOKEN_CONSTRAINT
                   else TOKEN_IDENTIFIER)
             else if at 1 = CHR ''r'' then kw 5 ''reate'' TOKEN_CREATE
             else TOKEN_IDENTIFIER)
       else if at 0 = CHR ''d'' then (if at 1 = CHR ''a'' then kw 7 ''atabase'' TOKEN_DATABASE
             else if at 1 = CHR ''e'' then (if at 2 = CHR ''f'' then kw 6 ''efault'' TOKEN_DEFAULT
                   else if at 2 = CHR ''l'' then kw 5 ''elete'' TOKEN_DELETE
                   else if at 2 = CHR ''s'' then kw 3 ''esc'' TOKEN_DESC
                   else TOKEN_IDENTIFIER)
             else if at 1 = CHR ''i'' then (if at 3 = CHR ''c'' then kw 6 ''iscard'' TOKEN_DISCARD
                   else if at 3 = CHR ''t'' then kw 7 ''istinct'' TOKEN_DISTINCT
                   else TOKEN_IDENTIFIER)
             else if at 1 = CHR ''r'' then kw 3 ''rop'' TOKEN_DROP
             else TOKEN_IDENTIFIER)
       else if at 0 = CHR ''e'' then (if at 1 = CHR ''x'' then (if at 2 = CHR ''e'' then kw 3 ''xec'' TOKEN_EXEC
                   else if at 2 = CHR ''i'' then kw 5 ''xists'' TOKEN_EXISTS
                   else TOKEN_IDENTIFIER)
             else TOKEN_IDENTIFIER)
       else if at 0 = CHR ''f'' then (if at 1 = CHR ''o'' then kw 6 ''oreign'' TOKEN_FOREIGN
             else if at 1 = CHR ''r'' then kw 3 ''rom'' TOKEN_FROM
             else if at 1 = CHR ''u'' then kw 3 ''ull'' TOKEN_FULL
             else TOKEN_IDENTIFIER)
       else if at 0 = CHR ''g'' then kw 4 ''roup'' TOKEN_GROUP
       else if at 0 = CHR ''h'' then kw 5 ''aving'' TOKEN_HAVING
       else if at 0 = CHR ''i'' then (if at 1 = CHR ''n'' then (if at 2 = CHR ''d'' then kw 4 ''ndex'' TOKEN_INDEX
                   else if at 2 = CHR ''n'' then kw 4 ''nner'' TOKEN_INNER
                   else if at 2 = CHR ''s'' then kw 5 ''nsert'' TOKEN_INSERT
                   else if at 2 = CHR ''t'' then kw 3 ''nto'' TOKEN_INTO
                   else kw 1 ''n'' TOKEN_IN)
             else if at 1 = CHR ''s'' then kw 1 ''s'' TOKEN_IS
             else TOKEN_IDENTIFIER)
       else if at 0 = CHR ''j'' then kw 3 ''oin'' TOKEN_JOIN
       else if at 0 = CHR ''k'' then kw 2 ''ey'' TOKEN_KEY
       else if at 0 = CHR ''l'' then (if at 1 = CHR ''e'' then kw 3 ''eft'' TOKEN_LEFT
             else if at 1 = CHR ''i'' then (if at 2 = CHR ''k'' then kw 3 ''ike'' TOKEN_LIKE
                   else if at 2 = CHR ''m'' then kw 4 ''imit'' TOKEN_LIMIT
                   else TOKEN_IDENTIFIER)
             else TOKEN_IDENTIFIER)
       else if at 0 = CHR ''n'' then (if at 1 = CHR ''o'' then kw 2 ''ot'' TOKEN_NOT
             else if at 1 = CHR ''u'' then kw 3 ''ull'' TOKEN_NULL
             else TOKEN_IDENTIFIER)
       else if at 0 = CHR ''o'' then (if at 1 = CHR ''n'' then kw 1 ''n'' TOKEN_ON
             else if at 1 = CHR ''r'' then (if at 2 = CHR ''d'' then kw 4 ''rder'' TOKEN_ORDER
                   else kw 1 ''r'' TOKEN_OR)
             else if at 1 = CHR ''u'' then kw 4 ''uter'' TOKEN_OUTER
             else TOKEN_IDENTIFIER)
       else if at 0 = CHR ''p'' then (if at 1 = CHR ''r'' then (if at 2 = CHR ''i'' then kw 6 ''rimary'' TOKEN_PRIMARY
                   else if at 2 = CHR ''o'' then kw 8 ''rocedure'' TOKEN_PROCEDURE
                   else TOKEN_IDENTIFIER)
             else TOKEN_IDENTIFIER)
       else if at 0 = CHR ''r'' then (if at 1 = CHR ''e'' then kw 6 ''eplace'' TOKEN_REPLACE
             else if at 1 = CHR ''i'' then kw 4 ''ight'' TOKEN_RIGHT
             else if at 1 = CHR ''o'' then kw 5 ''ownum'' TOKEN_ROWNUM
             else TOKEN_IDENTIFIER)
       else if at 0 = CHR ''s'' then (if at 1 = CHR ''e'' then (if at 2 = CHR ''l'' then kw 5 ''elect'' TOKEN_SELECT
                   else if at 2 = CHR ''t'' then kw 2 ''et'' TOKEN_SET
                   else TOKEN_IDENTIFIER)
             else TOKEN_IDENTIFIER)
       else if at 0 = CHR ''t'' then (if at 1 = CHR ''a'' then kw 4 ''able'' TOKEN_TABLE
             else if at 1 = CHR ''o'' then kw 2 ''op'' TOKEN_TOP
             else if at 1 = CHR ''r'' then (if at 2 = CHR ''a'' then kw 10 ''ransaction'' TOKEN_TRANSACTION
                   else if at 2 = CHR ''u'' then kw 7 ''runcate'' TOKEN_TRUNCATE
                   else TOKEN_IDENTIFIER)
             else TOKEN_IDENTIFIER)
       else if at 0 = CHR ''u'' then (if at 1 = CHR ''n'' then (if at 2 = CHR ''i'' then (if at 3 = CHR ''o'' then kw 4 ''nion'' TOKEN_UNION
                         else if at 3 = CHR ''q'' then kw 5 ''nique'' TOKEN_UNIQUE
                         else TOKEN_IDENTIFIER)
                   else TOKEN_IDENTIFIER)
             else if at 1 = CHR ''p'' then kw 5 ''pdate'' TOKEN_UPDATE
             else TOKEN_IDENTIFIER)
       else if at 0 = CHR ''v'' then (if at 1 = CHR ''a'' then kw 5 ''alues'' TOKEN_VALUES
             else if at 1 = CHR ''i'' then kw 3 ''iew'' TOKEN_VIEW
             else TOKEN_IDENTIFIER)
       else if at 0 = CHR ''w'' then kw 4 ''here'' TOKEN_WHERE
       else TOKEN_IDENTIFIER))"

section \<open>Scanning\<close>

definition scan_identifier :: "char \<Rightarrow> lexer \<Rightarrow> token \<times> lexer" where
  "scan_identifier past l =
     (let l = l\<lparr>current := dropWhile (\<lambda>c. isAlpha c \<or> isDigit c) (current l)\<rparr>
      in (makeToken (identifierType past (start l) (length (start l) - length (current l))) l, l))"

definition scan_number :: "lexer \<Rightarrow> token \<times> lexer" where
  "scan_number l =
     (let l = l\<lparr>current := dropWhile isDigit (current l)\<rparr>;
          l = (if peek l = CHR ''.'' \<and> isDigit (peekNext l)
               then l\<lparr>current := dropWhile isDigit (tl (current l))\<rparr> else l)
      in (makeToken TOKEN_NUMBER l, l))"

fun string_loop :: "string \<Rightarrow> nat \<Rightarrow> string \<times> nat" where
  "string_loop [] n = ([], n)"
| "string_loop (c # s) n = (if c \<noteq> QUOTE then string_loop s (if c = NEWLINE then n + 1 else n) else (c # s, n))"

definition lex_string :: "lexer \<Rightarrow> token \<times> lexer" where
  "lex_string l =
     (let (s, n) = string_loop (current l) (line l); l = l\<lparr>current := s, line := n\<rparr>
      in if isAtEnd l then (errorToken ''Unterminated string.'' l, l)
         else let l = snd (advance l) in (makeToken TOKEN_STRING l, l))"

definition two_char :: "char \<Rightarrow> token_type \<Rightarrow> token_type \<Rightarrow> lexer \<Rightarrow> token \<times> lexer" where
  "two_char expected ty2 ty1 l = (let (m, l) = match expected l in (makeToken (if m then ty2 else ty1) l, l))"

definition scanToken :: "char \<Rightarrow> lexer \<Rightarrow> token \<times> lexer" where
  "scanToken past l =
     (let l = skipWhitespace l; l = l\<lparr>start := current l\<rparr>
      in if isAtEnd l then (makeToken TOKEN_EOF l, l)
         else let (c, l) = advance l
         in if isAlpha c then scan_identifier past l
            else if isDigit c then scan_number l
            else if c = CHR ''('' then (makeToken TOKEN_LEFT_PAREN l, l)
            else if c = CHR '')'' then (makeToken TOKEN_RIGHT_PAREN l, l)
            else if c = CHR ''{'' then (makeToken TOKEN_LEFT_BRACE l, l)
            else if c = CHR ''}'' then (makeToken TOKEN_RIGHT_BRACE l, l)
            else if c = CHR '';'' then (makeToken TOKEN_SEMICOLON l, l)
            else if c = CHR '','' then (makeToken TOKEN_COMMA l, l)
            else if c = CHR ''.'' then (makeToken TOKEN_DOT l, l)
            else if c = CHR ''-'' then (makeToken TOKEN_MINUS l, l)
            else if c = CHR ''+'' then (makeToken TOKEN_PLUS l, l)
            else if c = CHR ''/'' then (makeToken TOKEN_SLASH l, l)
            else if c = CHR ''*'' then (makeToken TOKEN_STAR l, l)
            else if c = CHR ''!'' then two_char (CHR ''='') TOKEN_BANG_EQUAL TOKEN_BANG l
            else if c = CHR ''='' then two_char (CHR ''='') TOKEN_EQUAL_EQUAL TOKEN_EQUAL l
            else if c = CHR ''<'' then two_char (CHR ''='') TOKEN_LESS_EQUAL TOKEN_LESS l
            else if c = CHR ''>'' then two_char (CHR ''='') TOKEN_GREATER_EQUAL TOKEN_GREATER l
            else if c = QUOTE then lex_string l
            else (errorToken [] l, l))"

section \<open>The token array\<close>

record tokenized =
  tokens :: "token list"
  capacity :: nat

definition INITIAL_TOKEN_COUNT :: nat where "INITIAL_TOKEN_COUNT = 128"

definition initTokenized :: tokenized where
  "initTokenized = \<lparr>tokens = [], capacity = INITIAL_TOKEN_COUNT\<rparr>"

text \<open>The count and the capacity, \<open>int\<close> in the code, are naturals: that is the code's arithmetic up to \<open>2 ^ 30\<close> tokens, and
  a source of less than \<open>2 ^ 30\<close> bytes has no more.\<close>

definition addToken :: "tokenized \<Rightarrow> token \<Rightarrow> tokenized" where
  "addToken t tok =
     (let t = (if capacity t < length (tokens t) + 1 then t\<lparr>capacity := GROW_CAPACITY (capacity t)\<rparr> else t)
      in t\<lparr>tokens := tokens t @ [tok]\<rparr>)"

section \<open>The lexer ends\<close>

lemma length_skip_blanks: "length (fst (skip_blanks s n)) \<le> length s"
proof (induction s n rule: skip_blanks.induct)
  case (2 c s n)
  have "length (fst (after_comment (tl s) n)) \<le> length s"
    using length_after_comment [of "tl s" n] by simp
  with 2 length_line_comment [of s] show ?case by auto
qed simp

lemma length_skipWhitespace: "length (current (skipWhitespace l)) \<le> length (current l)"
  using length_skip_blanks [of "current l" "line l"] by (auto simp: skipWhitespace_def split: prod.split)

lemma length_string_loop: "length (fst (string_loop s n)) \<le> length s"
  by (induction s n rule: string_loop.induct) auto

lemma scan_rest:
  "length (current (snd (scan_identifier past l))) \<le> length (current l)"
  "length (current (snd (scan_number l))) \<le> length (current l)"
  "length (current (snd (lex_string l))) \<le> length (current l)"
  "length (current (snd (two_char e a b l))) \<le> length (current l)"
proof -
  show "length (current (snd (scan_identifier past l))) \<le> length (current l)"
    by (simp add: scan_identifier_def Let_def length_dropWhile_le)
  show "length (current (snd (scan_number l))) \<le> length (current l)"
    using length_dropWhile_le [of isDigit "current l"] length_dropWhile_le [of isDigit "tl (dropWhile isDigit (current l))"]
    by (auto simp: scan_number_def Let_def)
  show "length (current (snd (lex_string l))) \<le> length (current l)"
    using length_string_loop [of "current l" "line l"]
    by (auto simp: lex_string_def Let_def advance_def split: prod.split)
  show "length (current (snd (two_char e a b l))) \<le> length (current l)"
    by (auto simp: two_char_def match_def)
qed

text \<open>Every token but the last takes at least one character.\<close>

lemma scanToken_progress:
  "ttype (fst (scanToken past l)) = TOKEN_EOF \<and> fst (scanToken past l) = makeToken TOKEN_EOF (snd (scanToken past l)) \<and> current (snd (scanToken past l)) = [] \<or>
   length (current (snd (scanToken past l))) < length (current l)"
proof -
  let ?l = "skipWhitespace l"
  have s: "length (current ?l) \<le> length (current l)" by (rule length_skipWhitespace)
  show ?thesis
  proof (cases "current ?l")
    case Nil
    then show ?thesis by (simp add: scanToken_def Let_def isAtEnd_def makeToken_def)
  next
    case (Cons c r)
    let ?m = "?l\<lparr>start := c # r, current := r\<rparr>"
    have r: "length (current m) \<le> length r \<Longrightarrow> length (current m) < length (current l)" for m
      using s Cons by simp
    have "length (current (snd (scanToken past l))) < length (current l)"
      using scan_rest(1) [of past ?m] scan_rest(2,3) [of ?m] scan_rest(4) [where l = ?m] r [of ?m]
      by (auto simp: scanToken_def Let_def isAtEnd_def Cons advance_def head_char_def intro!: r)
    then show ?thesis by simp
  qed
qed

section \<open>Lexing a query\<close>

function lex_loop :: "char \<Rightarrow> tokenized \<Rightarrow> lexer \<Rightarrow> tokenized" where
  "lex_loop past t l =
     (let (tok, l') = scanToken past l;
          t' = (if ttype tok = TOKEN_ERROR then t else addToken t tok)
      in if ttype tok = TOKEN_EOF then t' else lex_loop past t' l')"
  by pat_completeness auto
termination
proof (relation "measure (\<lambda>(past, t, l). length (current l))")
  fix past t l p tok l' t'
  assume "p = scanToken past l" "(tok, l') = p" "ttype tok \<noteq> TOKEN_EOF"
  then show "((past, t', l'), past, t, l) \<in> measure (\<lambda>(past, t, l). length (current l))"
    using scanToken_progress [of past l] by (metis case_prod_conv fst_conv in_measure snd_conv)
qed simp

declare lex_loop.simps [simp del]

definition lexQuery :: "char \<Rightarrow> string \<Rightarrow> tokenized" where
  "lexQuery past source = lex_loop past initTokenized (initLexer source)"

end
