(* ===== verification/Lexing.thy ===== *)
theory Lexing
  imports Lexer
begin

text \<open>
  What the lexer promises. The switches of \<open>identifierType\<close> are a table of keywords; a text of tokens separated by
  blanks and comments is read back as those tokens; every source gives a well-formed token array.
\<close>


section \<open>Keywords are the table\<close>

definition keyword_of :: "string \<Rightarrow> token_type" where
  "keyword_of w = (case map_of sql_keywords (map tolower w) of Some ty \<Rightarrow> ty | None \<Rightarrow> TOKEN_IDENTIFIER)"

definition kw_ok :: "string \<Rightarrow> nat \<Rightarrow> token_type \<Rightarrow> bool" where
  "kw_ok s len ty \<longleftrightarrow> ty = TOKEN_IDENTIFIER \<or> (map tolower (take len s), ty) \<in> set sql_keywords"

lemma kw_ok_leaf:
  assumes "tolower (char_at s past 0) = c" "s \<noteq> []" "length rest = n" "map tolower rest = rest" "(c # rest, ty) \<in> set sql_keywords"
  shows "kw_ok s len (checkKeyword s len 1 n rest ty)"
proof (cases "len = 1 + n \<and> map tolower (take n (drop 1 s)) = rest")
  case True
  from assms(1,2) obtain a r where s: "s = a # r" "tolower a = c" by (cases s) (auto simp: char_at_def)
  with True have "map tolower (take len s) = c # rest" by simp
  with assms(5) show ?thesis by (simp add: kw_ok_def checkKeyword_def)
next
  case False
  with assms(3,4) show ?thesis by (auto simp: kw_ok_def checkKeyword_def)
qed

lemma kw_ok_if: "(b \<Longrightarrow> kw_ok s len x) \<Longrightarrow> (\<not> b \<Longrightarrow> kw_ok s len y) \<Longrightarrow> kw_ok s len (if b then x else y)"
  by simp

lemma kw_ok_none: "kw_ok s len TOKEN_IDENTIFIER"
  by (simp add: kw_ok_def)

lemma tolower_letter:
  "tolower CHR ''a'' = CHR ''a''" "tolower CHR ''b'' = CHR ''b''" "tolower CHR ''c'' = CHR ''c''"
  "tolower CHR ''d'' = CHR ''d''" "tolower CHR ''e'' = CHR ''e''" "tolower CHR ''f'' = CHR ''f''"
  "tolower CHR ''g'' = CHR ''g''" "tolower CHR ''h'' = CHR ''h''" "tolower CHR ''i'' = CHR ''i''"
  "tolower CHR ''j'' = CHR ''j''" "tolower CHR ''k'' = CHR ''k''" "tolower CHR ''l'' = CHR ''l''"
  "tolower CHR ''m'' = CHR ''m''" "tolower CHR ''n'' = CHR ''n''" "tolower CHR ''o'' = CHR ''o''"
  "tolower CHR ''p'' = CHR ''p''" "tolower CHR ''q'' = CHR ''q''" "tolower CHR ''r'' = CHR ''r''"
  "tolower CHR ''s'' = CHR ''s''" "tolower CHR ''t'' = CHR ''t''" "tolower CHR ''u'' = CHR ''u''"
  "tolower CHR ''v'' = CHR ''v''" "tolower CHR ''w'' = CHR ''w''" "tolower CHR ''x'' = CHR ''x''"
  "tolower CHR ''y'' = CHR ''y''" "tolower CHR ''z'' = CHR ''z''"
  by (simp_all add: tolower_def char_code_def)

lemma identifierType_kw: "s \<noteq> [] \<Longrightarrow> kw_ok s len (identifierType past s len)"
  unfolding identifierType_def Let_def
  apply (intro kw_ok_if kw_ok_none)
  apply (rule kw_ok_leaf, assumption, assumption, simp (no_asm), simp (no_asm) add: tolower_letter, simp (no_asm) add: sql_keywords_def)+
  done

lemma identifierType_finds:
  assumes "(k, ty) \<in> set sql_keywords" "map tolower (take (length k) s) = k" "\<not> isAlpha (char_at s past (length k))"
  shows "identifierType past s (length k) = ty"
proof -
  have "length (map tolower (take (length k) s)) = length k" by (simp only: assms(2))
  then have len: "length k \<le> length s" by simp
  have a: "i < length k \<longrightarrow> tolower (char_at s past i) = k ! i" for i
  proof
    assume i: "i < length k"
    have "map tolower (take (length k) s) ! i = k ! i" using assms(2) by simp
    with i len show "tolower (char_at s past i) = k ! i" by (simp add: char_at_def)
  qed
  have n: "isAlpha c \<longrightarrow> tolower (char_at s past (length k)) \<noteq> c" for c
    using assms(3) by (auto simp: isAlpha_def tolower_def)
  have d: "map tolower (take (length k - 1) (drop (Suc 0) s)) = tl k"
    using assms(2) by (cases k; cases s) auto
  note facts = a [of 0] a [of 1] a [of 2] a [of 3] n [of "CHR ''c''"] n [of "CHR ''d''"] n [of "CHR ''n''"] n [of "CHR ''s''"] n [of "CHR ''t''"] d
  show ?thesis
    using assms(1) facts unfolding sql_keywords_def
    apply (simp add: isAlpha_def char_code_def)
    apply (elim disjE conjE; hypsubst)
    apply (simp_all add: identifierType_def Let_def checkKeyword_def tolower_letter eval_nat_numeral)
    done
qed

lemma identifierType_table:
  assumes "0 < len" "len \<le> length s" "\<not> isAlpha (char_at s past len)"
  shows "identifierType past s len = keyword_of (take len s)"
proof (cases "map_of sql_keywords (map tolower (take len s))")
  case None
  then have "(map tolower (take len s), ty) \<notin> set sql_keywords" for ty by (auto simp: map_of_eq_None_iff image_iff)
  moreover have "s \<noteq> []" using assms by auto
  ultimately show ?thesis using identifierType_kw [of s len past] None by (simp add: kw_ok_def keyword_of_def)
next
  case (Some ty)
  then have "(map tolower (take len s), ty) \<in> set sql_keywords" by (rule map_of_SomeD)
  from identifierType_finds [OF this, of s past] assms Some show ?thesis
    by (simp add: keyword_of_def min_absorb2)
qed

section \<open>Printing tokens and reading them back\<close>

definition symbols :: "(token_type \<times> string) list" where
  "symbols = [(TOKEN_LEFT_PAREN, ''(''), (TOKEN_RIGHT_PAREN, '')''), (TOKEN_LEFT_BRACE, ''{''), (TOKEN_RIGHT_BRACE, ''}''),
     (TOKEN_COMMA, '',''), (TOKEN_DOT, ''.''), (TOKEN_MINUS, ''-''), (TOKEN_PLUS, ''+''), (TOKEN_SEMICOLON, '';''),
     (TOKEN_SLASH, ''/''), (TOKEN_STAR, ''*''), (TOKEN_BANG, ''!''), (TOKEN_BANG_EQUAL, ''!=''), (TOKEN_EQUAL, ''=''),
     (TOKEN_EQUAL_EQUAL, ''==''), (TOKEN_GREATER, ''>''), (TOKEN_GREATER_EQUAL, ''>=''), (TOKEN_LESS, ''<''), (TOKEN_LESS_EQUAL, ''<='')]"

definition word_token :: "token_type \<Rightarrow> string \<Rightarrow> bool" where
  "word_token ty w \<longleftrightarrow> w \<noteq> [] \<and> isAlpha (hd w) \<and> (\<forall>c \<in> set w. isAlpha c \<or> isDigit c) \<and> ty = keyword_of w"

definition number_token :: "token_type \<Rightarrow> string \<Rightarrow> bool" where
  "number_token ty w \<longleftrightarrow> ty = TOKEN_NUMBER \<and>
     (\<exists>a b. a \<noteq> [] \<and> (\<forall>c \<in> set (a @ b). isDigit c) \<and> (w = a \<or> b \<noteq> [] \<and> w = a @ CHR ''.'' # b))"

definition string_token :: "token_type \<Rightarrow> string \<Rightarrow> bool" where
  "string_token ty w \<longleftrightarrow> ty = TOKEN_STRING \<and> (\<exists>b. QUOTE \<notin> set b \<and> w = QUOTE # b @ [QUOTE])"

definition token_ok :: "token_type \<times> string \<Rightarrow> bool" where
  "token_ok p = (case p of (ty, w) \<Rightarrow> word_token ty w \<or> number_token ty w \<or> string_token ty w \<or> (ty, w) \<in> set symbols)"

text \<open>What may stand between tokens.\<close>

datatype blank = Space char | Line_comment string | Block_comment string

fun no_close :: "string \<Rightarrow> bool" where
  "no_close [] = True"
| "no_close (c # s) \<longleftrightarrow> \<not> (c = CHR ''*'' \<and> head_char s = CHR ''/'') \<and> no_close s"

fun blank_ok :: "blank \<Rightarrow> bool" where
  "blank_ok (Space c) \<longleftrightarrow> c = CHR '' '' \<or> c = TAB \<or> c = NEWLINE \<or> c = CARRIAGE_RETURN"
| "blank_ok (Line_comment b) \<longleftrightarrow> NEWLINE \<notin> set b"
| "blank_ok (Block_comment b) \<longleftrightarrow> no_close b"

fun blank_text :: "blank \<Rightarrow> string" where
  "blank_text (Space c) = [c]"
| "blank_text (Line_comment b) = ''--'' @ b @ [NEWLINE]"
| "blank_text (Block_comment b) = ''/*'' @ b @ ''*/''"

text \<open>A token is followed by a space character, then by any blanks.\<close>

type_synonym spaced = "(token_type \<times> string) \<times> char \<times> blank list"

definition spaced_ok :: "spaced \<Rightarrow> bool" where
  "spaced_ok p = (case p of (tok, c, bs) \<Rightarrow> token_ok tok \<and> blank_ok (Space c) \<and> list_all blank_ok bs)"

definition spaced_text :: "spaced \<Rightarrow> string" where
  "spaced_text p = (case p of ((ty, w), c, bs) \<Rightarrow> w @ c # concat (map blank_text bs))"

lemma spaced_text_simp [simp]: "spaced_text ((ty, w), c, bs) = w @ c # concat (map blank_text bs)"
  by (simp add: spaced_text_def)

lemma block_comment_close: "no_close b \<Longrightarrow> \<exists>n'. block_comment (b @ ''*/'' @ s) n = (''*/'' @ s, n')"
proof (induction b arbitrary: n)
  case Nil
  show ?case by (simp add: head_char_def)
next
  case (Cons c b)
  have "\<not> (c = CHR ''*'' \<and> head_char (b @ ''*/'' @ s) = CHR ''/'')"
    using Cons.prems by (cases b) (auto simp: head_char_def)
  then show ?case using Cons.IH [of "if c = NEWLINE then n + 1 else n"] Cons.prems by auto
qed

lemma line_comment_close: "NEWLINE \<notin> set b \<Longrightarrow> line_comment (b @ NEWLINE # s) = NEWLINE # s"
  by (induction b) auto

lemma skip_blank: "blank_ok b \<Longrightarrow> \<exists>n'. skip_blanks (blank_text b @ s) n = skip_blanks s n'"
proof (cases b)
  case (Space c)
  moreover assume "blank_ok b"
  ultimately show ?thesis by (auto simp: char_names)
next
  case (Line_comment t)
  moreover assume "blank_ok b"
  ultimately have "line_comment (''--'' @ t @ NEWLINE # s) = NEWLINE # s"
    using line_comment_close [of t s] by (simp add: char_names)
  then have "skip_blanks (blank_text b @ s) n = skip_blanks (NEWLINE # s) n"
    by (simp add: Line_comment char_names head_char_def)
  also have "\<dots> = skip_blanks s (n + 1)" by (simp add: char_names)
  finally show ?thesis by blast
next
  case (Block_comment t)
  moreover assume "blank_ok b"
  ultimately obtain n' where n': "block_comment (t @ ''*/'' @ s) n = (''*/'' @ s, n')" using block_comment_close by fastforce
  then have "after_comment (t @ ''*/'' @ s) n = (s, n')" by (simp add: after_comment_def)
  then have "skip_blanks (blank_text b @ s) n = skip_blanks s n'"
    by (simp add: Block_comment char_names head_char_def)
  then show ?thesis by blast
qed

lemma skip_blank_list: "list_all blank_ok bs \<Longrightarrow> \<exists>n'. skip_blanks (concat (map blank_text bs) @ s) n = skip_blanks s n'"
proof (induction bs arbitrary: n)
  case (Cons b bs)
  then obtain n1 where "skip_blanks (blank_text b @ concat (map blank_text bs) @ s) n = skip_blanks (concat (map blank_text bs) @ s) n1"
    using skip_blank by fastforce
  with Cons show ?case by fastforce
qed auto

text \<open>Scanning starts at the first character that is not blank.\<close>

definition token_start :: "string \<Rightarrow> bool" where
  "token_start s \<longleftrightarrow> (\<forall>n. skip_blanks s n = (s, n))"

lemma alpha_start: "isAlpha c \<or> isDigit c \<Longrightarrow> c \<noteq> CHR '' '' \<and> c \<noteq> TAB \<and> c \<noteq> NEWLINE \<and> c \<noteq> CARRIAGE_RETURN \<and> c \<noteq> CHR ''-'' \<and> c \<noteq> CHR ''/''"
  by (auto simp: isAlpha_def isDigit_def char_code_def char_names)

lemma space_not_alpha: "blank_ok (Space c) \<Longrightarrow> \<not> isAlpha c \<and> \<not> isDigit c \<and> c \<noteq> CHR ''.'' \<and> c \<noteq> CHR ''='' \<and> c \<noteq> CHR ''-'' \<and> c \<noteq> CHR ''*''"
  by (auto simp: isAlpha_def isDigit_def char_code_def char_names)

lemma dropWhile_to: "\<forall>c \<in> set v. P c \<Longrightarrow> \<not> P c \<Longrightarrow> dropWhile P (v @ c # r) = c # r"
  by (induction v) auto

lemma string_loop_close: "QUOTE \<notin> set b \<Longrightarrow> \<exists>n'. string_loop (b @ QUOTE # s) n = (QUOTE # s, n')"
  by (induction b arbitrary: n) (auto split: if_splits)

definition scans :: "char \<Rightarrow> token_type \<Rightarrow> string \<Rightarrow> string \<Rightarrow> bool" where
  "scans past ty w r \<longleftrightarrow> (\<forall>l :: lexer. current l = w @ r \<longrightarrow>
     ttype (fst (scanToken past l)) = ty \<and> ttext (fst (scanToken past l)) = w \<and> current (snd (scanToken past l)) = r)"

lemma scans_word:
  assumes "word_token ty w" "blank_ok (Space c)"
  shows "scans past ty w (c # r)"
  unfolding scans_def
proof (intro allI impI)
  fix l :: lexer assume l: "current l = w @ c # r"
  obtain a v where w: "w = a # v" "isAlpha a" "\<forall>x \<in> set v. isAlpha x \<or> isDigit x" "ty = keyword_of w"
    using assms(1) by (cases w) (auto simp: word_token_def)
  note c = space_not_alpha [OF assms(2)]
  have sw: "skipWhitespace l = l" using alpha_start [of a] w(2) l w(1) by (simp add: skipWhitespace_def)
  have d: "dropWhile (\<lambda>x. isAlpha x \<or> isDigit x) (v @ c # r) = c # r" using w(3) c by (intro dropWhile_to) auto
  have "identifierType past (w @ c # r) (length w) = keyword_of (take (length w) (w @ c # r))"
    by (rule identifierType_table) (use w(1) c in \<open>simp_all add: char_at_def\<close>)
  then have k: "identifierType past (a # v @ c # r) (Suc (length v)) = ty" using w(1,4) by simp
  show "ttype (fst (scanToken past l)) = ty \<and> ttext (fst (scanToken past l)) = w \<and> current (snd (scanToken past l)) = c # r"
    using w(1,2) l by (simp add: scanToken_def Let_def sw isAtEnd_def advance_def head_char_def scan_identifier_def d k makeToken_def)
qed

lemma scans_string:
  assumes "string_token ty w" shows "scans past ty w r"
  unfolding scans_def
proof (intro allI impI)
  fix l :: lexer assume l: "current l = w @ r"
  obtain b where b: "QUOTE \<notin> set b" "w = QUOTE # b @ [QUOTE]" "ty = TOKEN_STRING" using assms by (auto simp: string_token_def)
  obtain n' where n': "string_loop (b @ QUOTE # r) (line l) = (QUOTE # r, n')" using string_loop_close [OF b(1)] by blast
  have sw: "skipWhitespace l = l" using l b(2) by (cases l) (simp add: skipWhitespace_def char_names)
  show "ttype (fst (scanToken past l)) = ty \<and> ttext (fst (scanToken past l)) = w \<and> current (snd (scanToken past l)) = r"
    using l b(2,3) n' by (simp add: scanToken_def Let_def sw isAtEnd_def advance_def head_char_def lex_string_def makeToken_def
        isAlpha_def isDigit_def char_code_def char_names)
qed

lemma scans_number:
  assumes "number_token ty w" "blank_ok (Space c)"
  shows "scans past ty w (c # r)"
  unfolding scans_def
proof (intro allI impI)
  fix l :: lexer assume l: "current l = w @ c # r"
  obtain a b where ab: "a \<noteq> []" "\<forall>c \<in> set (a @ b). isDigit c" "w = a \<or> b \<noteq> [] \<and> w = a @ CHR ''.'' # b" "ty = TOKEN_NUMBER"
    using assms(1) by (auto simp: number_token_def)
  obtain d v where a: "a = d # v" using ab(1) by (cases a) auto
  have d: "isDigit d" "\<forall>x \<in> set v. isDigit x" "\<forall>x \<in> set b. isDigit x" using ab(2) a by auto
  have na: "\<not> isAlpha d" using d(1) by (auto simp: isAlpha_def isDigit_def char_code_def)
  note c = space_not_alpha [OF assms(2)]
  have hd: "\<exists>t. w @ c # r = d # t" using ab(3) a by auto
  then obtain t where t: "w @ c # r = d # t" by blast
  have sw: "skipWhitespace l = l" using alpha_start [of d] d(1) l t by (simp add: skipWhitespace_def)
  have dot: "\<not> isDigit CHR ''.''" by (simp add: isDigit_def char_code_def)
  show "ttype (fst (scanToken past l)) = ty \<and> ttext (fst (scanToken past l)) = w \<and> current (snd (scanToken past l)) = c # r"
  proof (cases "w = a")
    case True
    have "dropWhile isDigit (v @ c # r) = c # r" using d c by (intro dropWhile_to) auto
    with True a l c d(1) na ab(4) show ?thesis
      by (simp add: scanToken_def Let_def sw isAtEnd_def advance_def head_char_def scan_number_def peek_def makeToken_def)
  next
    case False
    with ab(3) obtain e u where b: "b = e # u" "w = a @ CHR ''.'' # b" by (cases b) auto
    have d1: "dropWhile isDigit (v @ CHR ''.'' # b @ c # r) = CHR ''.'' # b @ c # r" using d dot by (intro dropWhile_to) auto
    have d2: "dropWhile isDigit (b @ c # r) = c # r" using d c by (intro dropWhile_to) auto
    have e: "isDigit e" using d(3) b(1) by simp
    show ?thesis
      using a l c d(1) na ab(4) b e d1 [unfolded b(1)] d2 [unfolded b(1)]
      by (simp add: scanToken_def Let_def sw isAtEnd_def advance_def head_char_def scan_number_def peek_def peekNext_def makeToken_def eval_nat_numeral)
  qed
qed

lemma scans_symbol:
  assumes "(ty, w) \<in> set symbols" "blank_ok (Space c)"
  shows "scans past ty w (c # r)"
proof -
  note c = space_not_alpha [OF assms(2)]
  show ?thesis
    using assms(1) c unfolding symbols_def
    apply simp
    apply (elim disjE conjE; hypsubst)
    apply (simp_all add: scans_def scanToken_def Let_def skipWhitespace_def isAtEnd_def advance_def head_char_def two_char_def match_def
        makeToken_def isAlpha_def isDigit_def char_code_def char_names)
    done
qed

lemma scans_token: "token_ok (ty, w) \<Longrightarrow> blank_ok (Space c) \<Longrightarrow> scans past ty w (c # r)"
  using scans_word scans_number scans_string scans_symbol by (auto simp: token_ok_def simp del: blank_ok.simps)

lemma scanToken_skip:
  assumes "skip_blanks (current l) (line l) = skip_blanks s n"
  shows "scanToken past l = scanToken past (l\<lparr>current := s, line := n\<rparr>)"
proof -
  obtain s' n' where s': "skip_blanks s n = (s', n')" by (cases "skip_blanks s n")
  have "(skipWhitespace l)\<lparr>start := s'\<rparr> = (skipWhitespace (l\<lparr>current := s, line := n\<rparr>))\<lparr>start := s'\<rparr>"
    "current (skipWhitespace l) = s'" "current (skipWhitespace (l\<lparr>current := s, line := n\<rparr>)) = s'"
    using assms s' by (simp_all add: skipWhitespace_def)
  then show ?thesis by (simp add: scanToken_def Let_def)
qed

lemma keyword_not_signal: "keyword_of w \<noteq> TOKEN_EOF" "keyword_of w \<noteq> TOKEN_ERROR"
proof -
  have "ty \<noteq> TOKEN_EOF \<and> ty \<noteq> TOKEN_ERROR" if "(k, ty) \<in> set sql_keywords" for k ty
    using that unfolding sql_keywords_def by auto
  then show "keyword_of w \<noteq> TOKEN_EOF" "keyword_of w \<noteq> TOKEN_ERROR"
    by (auto simp: keyword_of_def dest: map_of_SomeD split: option.split)
qed

lemma token_ok_not_signal: "token_ok (ty, w) \<Longrightarrow> ty \<noteq> TOKEN_EOF \<and> ty \<noteq> TOKEN_ERROR"
  by (auto simp: token_ok_def word_token_def number_token_def string_token_def symbols_def keyword_not_signal dest: sym)

definition token_view :: "token \<Rightarrow> token_type \<times> string" where
  "token_view t = (ttype t, ttext t)"

lemma tokens_addToken [simp]: "tokens (addToken t tok) = tokens t @ [tok]"
  by (simp add: addToken_def Let_def)

lemma lex_loop_spaced:
  assumes "list_all spaced_ok ps" "\<exists>n. skip_blanks (current l) (line l) = skip_blanks (concat (map spaced_text ps)) n"
  shows "map token_view (tokens (lex_loop past t l)) = map token_view (tokens t) @ map fst ps @ [(TOKEN_EOF, [])]"
  using assms
proof (induction ps arbitrary: t l)
  case Nil
  then have "current (skipWhitespace l) = []" by (auto simp: skipWhitespace_def)
  then have "scanToken past l = (\<lparr>ttype = TOKEN_EOF, ttext = [], tline = line (skipWhitespace l)\<rparr>, (skipWhitespace l)\<lparr>start := []\<rparr>)"
    by (simp add: scanToken_def Let_def isAtEnd_def makeToken_def)
  then show ?case by (subst lex_loop.simps) (simp add: token_view_def)
next
  case (Cons p ps)
  obtain ty w c bs where p: "p = ((ty, w), c, bs)" by (metis prod.exhaust)
  have ok: "token_ok (ty, w)" "blank_ok (Space c)" "list_all blank_ok bs" using Cons.prems(1) by (simp_all add: p spaced_ok_def)
  let ?r = "concat (map blank_text bs) @ concat (map spaced_text ps)"
  obtain n where n: "skip_blanks (current l) (line l) = skip_blanks (w @ c # ?r) n"
    using Cons.prems(2) by (auto simp: p)
  define l1 where "l1 = l\<lparr>current := w @ c # ?r, line := n\<rparr>"
  have sc: "scanToken past l = scanToken past l1" unfolding l1_def by (rule scanToken_skip [OF n])
  have "scans past ty w (c # ?r)" by (rule scans_token [OF ok(1,2)])
  then have v: "ttype (fst (scanToken past l)) = ty" "ttext (fst (scanToken past l)) = w" "current (snd (scanToken past l)) = c # ?r"
    unfolding sc scans_def by (simp_all add: l1_def)
  obtain tok l2 where t2: "scanToken past l = (tok, l2)" by (cases "scanToken past l")
  have sp: "\<exists>m. skip_blanks (current l2) (line l2) = skip_blanks (concat (map spaced_text ps)) m"
  proof -
    have "current l2 = blank_text (Space c) @ ?r" using v(3) t2 by simp
    then obtain m where "skip_blanks (current l2) (line l2) = skip_blanks ?r m" using skip_blank [OF ok(2)] by metis
    with skip_blank_list [OF ok(3)] show ?thesis by metis
  qed
  have "lex_loop past t l = lex_loop past (addToken t tok) l2"
    using v t2 token_ok_not_signal [OF ok(1)] by (subst lex_loop.simps) simp
  moreover have "token_view tok = (ty, w)" using v t2 by (simp add: token_view_def)
  ultimately show ?case using Cons.IH [OF _ sp] Cons.prems(1) by (simp add: p)
qed

text \<open>What the parser is given: tokens that are neither errors nor the end, then the end, within the array.\<close>

definition lexed :: "token list \<Rightarrow> bool" where
  "lexed ts \<longleftrightarrow> ts \<noteq> [] \<and> ttype (last ts) = TOKEN_EOF \<and>
     (\<forall>t \<in> set (butlast ts). ttype t \<noteq> TOKEN_EOF \<and> ttype t \<noteq> TOKEN_ERROR)"

lemma lex_loop_wf:
  assumes "\<forall>t \<in> set (tokens t0). ttype t \<noteq> TOKEN_EOF \<and> ttype t \<noteq> TOKEN_ERROR" "length (tokens t0) \<le> capacity t0"
  shows "lexed (tokens (lex_loop past t0 l)) \<and> length (tokens (lex_loop past t0 l)) \<le> capacity (lex_loop past t0 l)"
  using assms
proof (induction past t0 l rule: lex_loop.induct)
  case (1 past t0 l)
  obtain tok l2 where t2: "scanToken past l = (tok, l2)" by (cases "scanToken past l")
  have cap: "length (tokens (addToken t0 tok)) \<le> capacity (addToken t0 tok)"
    using 1(3) by (simp add: addToken_def Let_def GROW_CAPACITY_def)
  show ?case
  proof (cases "ttype tok = TOKEN_EOF")
    case True
    then have "lex_loop past t0 l = addToken t0 tok" by (subst lex_loop.simps) (simp add: t2)
    with True 1(2) cap show ?thesis by (simp add: lexed_def)
  next
    case False
    let ?t = "if ttype tok = TOKEN_ERROR then t0 else addToken t0 tok"
    have "lex_loop past t0 l = lex_loop past ?t l2" using False by (subst lex_loop.simps) (simp add: t2 Let_def)
    moreover
    have "\<forall>t \<in> set (tokens ?t). ttype t \<noteq> TOKEN_EOF \<and> ttype t \<noteq> TOKEN_ERROR" "length (tokens ?t) \<le> capacity ?t"
      using 1(2,3) False cap by auto
    note inv = this
    have "lexed (tokens (lex_loop past ?t l2)) \<and> length (tokens (lex_loop past ?t l2)) \<le> capacity (lex_loop past ?t l2)"
      by (rule 1(1) [OF refl t2 [symmetric] refl False inv])
    ultimately show ?thesis by (simp only:)
  qed
qed

section \<open>Properties\<close>

text \<open>C27: The nest of switches of \<open>identifierType\<close> is exactly the table of keywords, without regard to case: for every
  word that ends where the next character is not a letter, it gives the keyword the word spells, and
  \<open>TOKEN_IDENTIFIER\<close> for every other word. It never depends on the byte behind the end of the source.\<close>

theorem keywords_exact:
  assumes "0 < len" "len \<le> length s" "\<not> isAlpha (char_at s past len)"
  shows "identifierType past s len = keyword_of (take len s)"
  by (rule identifierType_table [OF assms])

theorem keywords_exact_witness: "identifierType CHR 0x00 ''GroUp BY x'' 5 = TOKEN_GROUP \<and> identifierType CHR 0x00 ''groups'' 6 = TOKEN_IDENTIFIER"
proof -
  have "\<not> isAlpha (char_at ''GroUp BY x'' CHR 0x00 5)" "\<not> isAlpha (char_at ''groups'' CHR 0x00 6)"
    by (simp_all add: char_at_def isAlpha_def char_code_def NUL_def)
  moreover have "keyword_of ''GroUp'' = TOKEN_GROUP" "keyword_of ''groups'' = TOKEN_IDENTIFIER" by code_simp+
  ultimately show ?thesis using keywords_exact [of 5 "''GroUp BY x''" "CHR 0x00"] keywords_exact [of 6 "''groups''" "CHR 0x00"] by simp
qed

text \<open>C26: Printing and lexing round-trip: a text made of tokens (keywords and identifiers in any case, numbers, strings,
  symbols), each followed by a space character and any number of blanks and comments of both kinds, is read
  back as exactly those tokens and the end marker.\<close>

theorem lexing_roundtrip:
  assumes "list_all spaced_ok ps"
  shows "map token_view (tokens (lexQuery past (concat (map spaced_text ps)))) = map fst ps @ [(TOKEN_EOF, [])]"
  using lex_loop_spaced [OF assms, of "initLexer (concat (map spaced_text ps))" past initTokenized]
  by (auto simp: lexQuery_def initLexer_def initTokenized_def)

theorem lexing_roundtrip_witness:
  "map token_view (tokens (lexQuery (CHR 0x00) ''select /* all */ 12.5 <= '' )) = [(TOKEN_SELECT, ''select''), (TOKEN_NUMBER, ''12.5''), (TOKEN_LESS_EQUAL, ''<=''), (TOKEN_EOF, [])]"
proof -
  let ?ps = "[((TOKEN_SELECT, ''select''), CHR '' '', [Block_comment '' all '', Space CHR '' '']),
    ((TOKEN_NUMBER, ''12.5''), CHR '' '', []), ((TOKEN_LESS_EQUAL, ''<=''), CHR '' '', [])]"
  have "number_token TOKEN_NUMBER ''12.5''"
    unfolding number_token_def by (rule conjI [OF refl], rule exI [of _ "''12''"], rule exI [of _ "''5''"]) (simp add: isDigit_def char_code_def)
  moreover have "word_token TOKEN_SELECT ''select''"
    by code_simp
  ultimately have "list_all spaced_ok ?ps"
    by (simp add: spaced_ok_def token_ok_def symbols_def head_char_def)
  from lexing_roundtrip [OF this, of "CHR 0x00"] show ?thesis by simp
qed

text \<open>C28: Whatever the source, the lexer ends, and its array holds tokens that are neither errors nor end markers
  followed by exactly one end marker, never more than its capacity.\<close>

theorem lexQuery_wf:
  "lexed (tokens (lexQuery past source)) \<and> length (tokens (lexQuery past source)) \<le> capacity (lexQuery past source)"
  unfolding lexQuery_def by (rule lex_loop_wf) (simp_all add: initTokenized_def)

end
