(* ===== verification/Parser.thy ===== *)
theory Parser
  imports Lexer
begin

text \<open>
  \<open>SQL_interpreter/parser.c\<close>: recursive descent from tokens to an abstract syntax tree. The parser's state is the
  list of tokens from \<open>p.current\<close> on. A node has the seven child pointers of the C struct. \<open>exit(74)\<close> is an
  error value; so is reading behind the last token. Every function has fuel as its first argument; \<open>Parsing\<close> shows
  that the fuel \<open>compile\<close> starts with is never used up, and that no read is out of bounds.
\<close>

section \<open>Syntax trees (parser.h)\<close>

datatype ast_type =
  TYPE_QUERY | TYPE_SELECT_STMT | TYPE_INSERT_STMT | TYPE_UPDATE_STMT | TYPE_DELETE_STMT | TYPE_CREATE_STMT |
  TYPE_DROP_STMT | TYPE_ALTER_STMT | TYPE_BEGIN_TRANSACTION_STMT | TYPE_COMMIT_STMT | TYPE_DISCARD_STMT |
  TYPE_WHERE_CLAUSE | TYPE_GROUP_CLAUSE | TYPE_HAVING_CLAUSE | TYPE_ORDER_CLAUSE | TYPE_LIMIT_CLAUSE |
  TYPE_EXPR | TYPE_OR_EXPR | TYPE_AND_EXPR | TYPE_NOT_EXPR | TYPE_COMPARISON | TYPE_ADDITIVE | TYPE_MULTIPLICATIVE |
  TYPE_UNARY | TYPE_PRIMARY | TYPE_IDENTIFIER | TYPE_LIST_NODE | TYPE_SELECT_ITEM | TYPE_COL_DEF | TYPE_ASSIGNMENT

datatype ast_flag =
  FLAG_NULL | FLAG_FUNCTION_CALL | FLAG_IS_NOT_NULL | FLAG_NOT_IN | FLAG_DESC | FLAG_NOT_NULL_CONSTRAINT |
  FLAG_PRIMARY_KEY_CONSTRAINT | FLAG_UNIQUE_INDEX | FLAG_COLUMN_LIST | FLAG_SELECT_STAR | FLAG_SELECT_DISTINCT

datatype ast_node = Node (node_type: ast_type) (node_tok: token) (node_flag: ast_flag) (children: "ast_node option list")

text \<open>What \<open>calloc\<close> leaves in a token: type 0, no text.\<close>

definition zero_token :: token where
  "zero_token = \<lparr>ttype = TOKEN_LEFT_PAREN, ttext = [], tline = 0\<rparr>"

definition makeNode :: "ast_type \<Rightarrow> ast_node" where
  "makeNode ty = Node ty zero_token FLAG_NULL (replicate 7 None)"

definition set_tok :: "token \<Rightarrow> ast_node \<Rightarrow> ast_node" where
  "set_tok t n = Node (node_type n) t (node_flag n) (children n)"

definition set_flag :: "ast_flag \<Rightarrow> ast_node \<Rightarrow> ast_node" where
  "set_flag f n = Node (node_type n) (node_tok n) f (children n)"

definition set_child :: "nat \<Rightarrow> ast_node \<Rightarrow> ast_node \<Rightarrow> ast_node" where
  "set_child i c n = Node (node_type n) (node_tok n) (node_flag n) ((children n)[i := Some c])"

definition child :: "nat \<Rightarrow> ast_node \<Rightarrow> ast_node option" where
  "child i n = children n ! i"

definition listNode :: "ast_node \<Rightarrow> ast_node option \<Rightarrow> ast_node" where
  "listNode item next = (let n = set_child 0 item (makeNode TYPE_LIST_NODE) in case next of None \<Rightarrow> n | Some x \<Rightarrow> set_child 1 x n)"

text \<open>The chain of list nodes the list loops build by appending at its tail, for the items in order.\<close>

fun chain :: "ast_node \<Rightarrow> ast_node list \<Rightarrow> ast_node" where
  "chain x [] = listNode x None"
| "chain x (y # ys) = listNode x (Some (chain y ys))"

section \<open>The parser's state\<close>

datatype perror = Unexpected token | NoPrimary | PastEnd | NoFuel

type_synonym 'a parse = "token list \<Rightarrow> perror + 'a \<times> token list"

definition yield :: "'a \<Rightarrow> 'a parse" where
  "yield x = (\<lambda>ts. Inr (x, ts))"

definition fail :: "perror \<Rightarrow> 'a parse" where
  "fail e = (\<lambda>ts. Inl e)"

definition andThen :: "'a parse \<Rightarrow> ('a \<Rightarrow> 'b parse) \<Rightarrow> 'b parse" where
  "andThen p f = (\<lambda>ts. case p ts of Inl e \<Rightarrow> Inl e | Inr (x, ts') \<Rightarrow> f x ts')"

definition p_peek :: "token_type parse" where
  "p_peek ts = (case ts of [] \<Rightarrow> Inl PastEnd | t # _ \<Rightarrow> Inr (ttype t, ts))"

definition p_advance :: "token parse" where
  "p_advance ts = (case ts of [] \<Rightarrow> Inl PastEnd | t # ts' \<Rightarrow> Inr (t, ts'))"

definition reportUnexpected :: "'a parse" where
  "reportUnexpected ts = (case ts of [] \<Rightarrow> Inl PastEnd | t # _ \<Rightarrow> Inl (Unexpected t))"

definition p_expect :: "token_type \<Rightarrow> token parse" where
  "p_expect ty ts = (case ts of t # ts' \<Rightarrow> if ttype t = ty then Inr (t, ts') else reportUnexpected ts | [] \<Rightarrow> reportUnexpected ts)"

section \<open>Expressions\<close>

definition is_comparison :: "token_type \<Rightarrow> bool" where
  "is_comparison t \<longleftrightarrow> t = TOKEN_EQUAL \<or> t = TOKEN_BANG_EQUAL \<or> t = TOKEN_LESS \<or> t = TOKEN_LESS_EQUAL \<or>
     t = TOKEN_GREATER \<or> t = TOKEN_GREATER_EQUAL \<or> t = TOKEN_LIKE"

definition binary :: "ast_type \<Rightarrow> token \<Rightarrow> ast_node \<Rightarrow> ast_node \<Rightarrow> ast_node" where
  "binary ty tok l r = set_child 1 r (set_child 0 l (set_tok tok (makeNode ty)))"

definition unary_node :: "ast_type \<Rightarrow> token \<Rightarrow> ast_node \<Rightarrow> ast_node" where
  "unary_node ty tok c = set_child 0 c (set_tok tok (makeNode ty))"

fun p_primary :: "nat \<Rightarrow> ast_node parse" and p_unary :: "nat \<Rightarrow> ast_node parse"
  and p_mult :: "nat \<Rightarrow> ast_node parse" and mult_loop :: "nat \<Rightarrow> ast_node \<Rightarrow> ast_node parse"
  and p_add :: "nat \<Rightarrow> ast_node parse" and add_loop :: "nat \<Rightarrow> ast_node \<Rightarrow> ast_node parse"
  and p_cmp :: "nat \<Rightarrow> ast_node parse" and cmp_loop :: "nat \<Rightarrow> ast_node \<Rightarrow> ast_node parse"
  and p_not :: "nat \<Rightarrow> ast_node parse"
  and p_and :: "nat \<Rightarrow> ast_node parse" and and_loop :: "nat \<Rightarrow> ast_node \<Rightarrow> ast_node parse"
  and p_or :: "nat \<Rightarrow> ast_node parse" and or_loop :: "nat \<Rightarrow> ast_node \<Rightarrow> ast_node parse"
  and p_expr :: "nat \<Rightarrow> ast_node parse"
  and p_valList :: "nat \<Rightarrow> ast_node parse" and val_loop :: "nat \<Rightarrow> ast_node list parse"
where
  "p_primary 0 = fail NoFuel"
| "p_primary (Suc n) = andThen p_peek (\<lambda>t.
     if t = TOKEN_NUMBER \<or> t = TOKEN_STRING \<or> t = TOKEN_NULL then
       andThen p_advance (\<lambda>tok. yield (set_tok tok (makeNode TYPE_PRIMARY)))
     else if t = TOKEN_IDENTIFIER then
       andThen p_advance (\<lambda>tok. andThen p_peek (\<lambda>t.
         let node = set_tok tok (makeNode TYPE_PRIMARY)
         in if t = TOKEN_LEFT_PAREN then
              andThen p_advance (\<lambda>_. andThen p_peek (\<lambda>t.
                let node = set_flag FLAG_FUNCTION_CALL node
                in if t \<noteq> TOKEN_RIGHT_PAREN then
                     andThen (p_valList n) (\<lambda>args. andThen (p_expect TOKEN_RIGHT_PAREN) (\<lambda>_. yield (set_child 0 args node)))
                   else andThen (p_expect TOKEN_RIGHT_PAREN) (\<lambda>_. yield node)))
            else yield node))
     else if t = TOKEN_LEFT_PAREN then
       andThen p_advance (\<lambda>_. andThen (p_expr n) (\<lambda>node. andThen (p_expect TOKEN_RIGHT_PAREN) (\<lambda>_. yield node)))
     else if t = TOKEN_STAR then
       andThen p_advance (\<lambda>tok. yield (set_tok tok (makeNode TYPE_PRIMARY)))
     else fail NoPrimary)"
| "p_unary 0 = fail NoFuel"
| "p_unary (Suc n) = andThen p_peek (\<lambda>t.
     if t = TOKEN_MINUS then andThen p_advance (\<lambda>tok. andThen (p_unary n) (\<lambda>c. yield (unary_node TYPE_UNARY tok c)))
     else p_primary n)"
| "p_mult 0 = fail NoFuel"
| "p_mult (Suc n) = andThen (p_unary n) (mult_loop n)"
| "mult_loop 0 left = fail NoFuel"
| "mult_loop (Suc n) left = andThen p_peek (\<lambda>t.
     if t = TOKEN_STAR \<or> t = TOKEN_SLASH then
       andThen p_advance (\<lambda>tok. andThen (p_unary n) (\<lambda>r. mult_loop n (binary TYPE_MULTIPLICATIVE tok left r)))
     else yield left)"
| "p_add 0 = fail NoFuel"
| "p_add (Suc n) = andThen (p_mult n) (add_loop n)"
| "add_loop 0 left = fail NoFuel"
| "add_loop (Suc n) left = andThen p_peek (\<lambda>t.
     if t = TOKEN_PLUS \<or> t = TOKEN_MINUS then
       andThen p_advance (\<lambda>tok. andThen (p_mult n) (\<lambda>r. add_loop n (binary TYPE_ADDITIVE tok left r)))
     else yield left)"
| "p_cmp 0 = fail NoFuel"
| "p_cmp (Suc n) = andThen (p_add n) (cmp_loop n)"
| "cmp_loop 0 left = fail NoFuel"
| "cmp_loop (Suc n) left = andThen p_peek (\<lambda>t.
     if is_comparison t then
       andThen p_advance (\<lambda>tok. andThen (p_add n) (\<lambda>r. cmp_loop n (binary TYPE_COMPARISON tok left r)))
     else if t = TOKEN_IS then
       andThen p_advance (\<lambda>tok. andThen p_peek (\<lambda>t.
         let node = unary_node TYPE_COMPARISON tok left
         in if t = TOKEN_NOT then
              andThen p_advance (\<lambda>_. andThen (p_expect TOKEN_NULL) (\<lambda>_. cmp_loop n (set_flag FLAG_IS_NOT_NULL node)))
            else andThen (p_expect TOKEN_NULL) (\<lambda>_. cmp_loop n node)))
     else if t = TOKEN_BETWEEN then
       andThen p_advance (\<lambda>tok. andThen (p_add n) (\<lambda>lo. andThen (p_expect TOKEN_AND) (\<lambda>_. andThen (p_add n) (\<lambda>hi.
         cmp_loop n (set_child 2 hi (binary TYPE_COMPARISON tok left lo))))))
     else if t = TOKEN_IN then
       andThen p_advance (\<lambda>tok. andThen (p_expect TOKEN_LEFT_PAREN) (\<lambda>_. andThen (p_valList n) (\<lambda>vs.
         andThen (p_expect TOKEN_RIGHT_PAREN) (\<lambda>_. cmp_loop n (binary TYPE_COMPARISON tok left vs)))))
     else if t = TOKEN_NOT then
       andThen p_advance (\<lambda>_. andThen (p_expect TOKEN_IN) (\<lambda>tok. andThen (p_expect TOKEN_LEFT_PAREN) (\<lambda>_.
         andThen (p_valList n) (\<lambda>vs. andThen (p_expect TOKEN_RIGHT_PAREN) (\<lambda>_.
           cmp_loop n (set_flag FLAG_NOT_IN (binary TYPE_COMPARISON tok left vs)))))))
     else yield left)"
| "p_not 0 = fail NoFuel"
| "p_not (Suc n) = andThen p_peek (\<lambda>t.
     if t = TOKEN_NOT then andThen p_advance (\<lambda>tok. andThen (p_not n) (\<lambda>c. yield (unary_node TYPE_NOT_EXPR tok c)))
     else p_cmp n)"
| "p_and 0 = fail NoFuel"
| "p_and (Suc n) = andThen (p_not n) (and_loop n)"
| "and_loop 0 left = fail NoFuel"
| "and_loop (Suc n) left = andThen p_peek (\<lambda>t.
     if t = TOKEN_AND then andThen p_advance (\<lambda>tok. andThen (p_not n) (\<lambda>r. and_loop n (binary TYPE_AND_EXPR tok left r)))
     else yield left)"
| "p_or 0 = fail NoFuel"
| "p_or (Suc n) = andThen (p_and n) (or_loop n)"
| "or_loop 0 left = fail NoFuel"
| "or_loop (Suc n) left = andThen p_peek (\<lambda>t.
     if t = TOKEN_OR then andThen p_advance (\<lambda>tok. andThen (p_and n) (\<lambda>r. or_loop n (binary TYPE_OR_EXPR tok left r)))
     else yield left)"
| "p_expr 0 = fail NoFuel"
| "p_expr (Suc n) = p_or n"
| "p_valList 0 = fail NoFuel"
| "p_valList (Suc n) = andThen (p_expr n) (\<lambda>x. andThen (val_loop n) (\<lambda>xs. yield (chain x xs)))"
| "val_loop 0 = fail NoFuel"
| "val_loop (Suc n) = andThen p_peek (\<lambda>t.
     if t = TOKEN_COMMA then
       andThen p_advance (\<lambda>_. andThen (p_expr n) (\<lambda>x. andThen (val_loop n) (\<lambda>xs. yield (x # xs))))
     else yield [])"

declare p_primary.simps(2) [simp del] p_unary.simps(2) [simp del] p_mult.simps(2) [simp del] mult_loop.simps(2) [simp del]
  p_add.simps(2) [simp del] add_loop.simps(2) [simp del] p_cmp.simps(2) [simp del] cmp_loop.simps(2) [simp del]
  p_not.simps(2) [simp del] p_and.simps(2) [simp del] and_loop.simps(2) [simp del] p_or.simps(2) [simp del]
  or_loop.simps(2) [simp del] p_expr.simps(2) [simp del] p_valList.simps(2) [simp del] val_loop.simps(2) [simp del]

section \<open>Clauses and lists\<close>

definition p_identifier :: "ast_node parse" where
  "p_identifier = andThen (p_expect TOKEN_IDENTIFIER) (\<lambda>tok. yield (set_tok tok (makeNode TYPE_IDENTIFIER)))"

text \<open>The loop the list functions share: items after commas.\<close>

fun comma_loop :: "ast_node parse \<Rightarrow> nat \<Rightarrow> ast_node list parse" where
  "comma_loop item 0 = fail NoFuel"
| "comma_loop item (Suc n) = andThen p_peek (\<lambda>t.
     if t = TOKEN_COMMA then andThen p_advance (\<lambda>_. andThen item (\<lambda>x. andThen (comma_loop item n) (\<lambda>xs. yield (x # xs))))
     else yield [])"

definition p_list :: "ast_node parse \<Rightarrow> nat \<Rightarrow> ast_node parse" where
  "p_list item n = andThen item (\<lambda>x. andThen (comma_loop item n) (\<lambda>xs. yield (chain x xs)))"

definition limitClause :: "ast_node parse" where
  "limitClause = andThen (p_expect TOKEN_NUMBER) (\<lambda>tok. yield (set_tok tok (makeNode TYPE_LIMIT_CLAUSE)))"

text \<open>One \<open>expr [ASC | DESC]\<close> of an order clause, and the chain of such items.\<close>

definition order_item :: "nat \<Rightarrow> ast_node parse" where
  "order_item n = andThen (p_expr n) (\<lambda>e. andThen p_peek (\<lambda>t.
     let item = set_child 0 e (makeNode TYPE_LIST_NODE)
     in if t = TOKEN_DESC then andThen p_advance (\<lambda>_. yield (set_flag FLAG_DESC item))
        else if t = TOKEN_ASC then andThen p_advance (\<lambda>_. yield item)
        else yield item))"

fun link_items :: "ast_node \<Rightarrow> ast_node list \<Rightarrow> ast_node" where
  "link_items x [] = x"
| "link_items x (y # ys) = set_child 1 (link_items y ys) x"

definition orderClause :: "nat \<Rightarrow> ast_node parse" where
  "orderClause n = andThen (order_item n) (\<lambda>x. andThen (comma_loop (order_item n) n) (\<lambda>xs.
     yield (set_child 0 (link_items x xs) (makeNode TYPE_ORDER_CLAUSE))))"

definition havingClause :: "nat \<Rightarrow> ast_node parse" where
  "havingClause n = andThen (p_expr n) (\<lambda>e. yield (set_child 0 e (makeNode TYPE_HAVING_CLAUSE)))"

definition groupClause :: "nat \<Rightarrow> ast_node parse" where
  "groupClause n = andThen (p_list (p_expr n) n) (\<lambda>l. yield (set_child 0 l (makeNode TYPE_GROUP_CLAUSE)))"

definition whereClause :: "nat \<Rightarrow> ast_node parse" where
  "whereClause n = andThen (p_expr n) (\<lambda>e. yield (set_child 0 e (makeNode TYPE_WHERE_CLAUSE)))"

definition colList :: "nat \<Rightarrow> ast_node parse" where
  "colList n = p_list p_identifier n"

definition colDef :: "ast_node parse" where
  "colDef = andThen p_identifier (\<lambda>name. andThen p_identifier (\<lambda>ty. andThen p_peek (\<lambda>t.
     let node = set_child 1 ty (set_child 0 name (makeNode TYPE_COL_DEF))
     in if t = TOKEN_NOT then
          andThen p_advance (\<lambda>_. andThen (p_expect TOKEN_NULL) (\<lambda>_. yield (set_flag FLAG_NOT_NULL_CONSTRAINT node)))
        else if t = TOKEN_PRIMARY then
          andThen p_advance (\<lambda>_. andThen (p_expect TOKEN_KEY) (\<lambda>_. yield (set_flag FLAG_PRIMARY_KEY_CONSTRAINT node)))
        else yield node)))"

definition colDefList :: "nat \<Rightarrow> ast_node parse" where
  "colDefList n = p_list colDef n"

definition p_assignment :: "nat \<Rightarrow> ast_node parse" where
  "p_assignment n = andThen p_identifier (\<lambda>name. andThen (p_expect TOKEN_EQUAL) (\<lambda>_. andThen (p_expr n) (\<lambda>e.
     yield (set_child 1 e (set_child 0 name (makeNode TYPE_ASSIGNMENT))))))"

definition assignmentList :: "nat \<Rightarrow> ast_node parse" where
  "assignmentList n = p_list (p_assignment n) n"

section \<open>Statements\<close>

definition alterStmt :: "ast_node parse" where
  "alterStmt = andThen (p_expect TOKEN_TABLE) (\<lambda>_. andThen p_identifier (\<lambda>table. andThen p_peek (\<lambda>t.
     let node = set_child 0 table (makeNode TYPE_ALTER_STMT)
     in if t = TOKEN_ADD then
          andThen p_advance (\<lambda>tok. andThen p_peek (\<lambda>t.
            if t = TOKEN_COLUMN then andThen p_advance (\<lambda>_. andThen colDef (\<lambda>c. yield (set_child 1 c (set_tok tok node))))
            else andThen colDef (\<lambda>c. yield (set_child 1 c (set_tok tok node)))))
        else if t = TOKEN_DROP then
          andThen p_advance (\<lambda>tok. andThen (p_expect TOKEN_COLUMN) (\<lambda>_. andThen p_identifier (\<lambda>c.
            yield (set_child 1 c (set_tok tok node)))))
        else if t = TOKEN_ALTER then
          andThen p_advance (\<lambda>tok. andThen (p_expect TOKEN_COLUMN) (\<lambda>_. andThen p_identifier (\<lambda>c. andThen p_identifier (\<lambda>ty.
            yield (set_child 2 ty (set_child 1 c (set_tok tok node)))))))
        else reportUnexpected)))"

definition dropStmt :: "ast_node parse" where
  "dropStmt = andThen p_peek (\<lambda>t.
     if t = TOKEN_TABLE \<or> t = TOKEN_INDEX \<or> t = TOKEN_VIEW \<or> t = TOKEN_DATABASE then
       andThen p_advance (\<lambda>tok. andThen p_identifier (\<lambda>name. yield (set_child 0 name (set_tok tok (makeNode TYPE_DROP_STMT)))))
     else reportUnexpected)"

definition selectItem :: "nat \<Rightarrow> ast_node parse" where
  "selectItem n = andThen (p_expr n) (\<lambda>e. andThen p_peek (\<lambda>t.
     let node = set_child 0 e (makeNode TYPE_SELECT_ITEM)
     in if t = TOKEN_AS then andThen p_advance (\<lambda>_. andThen p_identifier (\<lambda>name. yield (set_child 1 name node)))
        else yield node))"

definition selectList :: "nat \<Rightarrow> ast_node parse" where
  "selectList n = andThen p_peek (\<lambda>t.
     if t = TOKEN_STAR then
       andThen p_advance (\<lambda>_. yield (listNode (set_flag FLAG_SELECT_STAR (makeNode TYPE_SELECT_ITEM)) None))
     else p_list (selectItem n) n)"

text \<open>The loop over the clauses of a select statement. A clause that comes again replaces the earlier one.\<close>

fun clause_loop :: "nat \<Rightarrow> nat \<Rightarrow> ast_node \<Rightarrow> ast_node parse" where
  "clause_loop n 0 out = fail NoFuel"
| "clause_loop n (Suc k) out = andThen p_peek (\<lambda>t.
     if t = TOKEN_WHERE then andThen p_advance (\<lambda>_. andThen (whereClause n) (\<lambda>c. clause_loop n k (set_child 2 c out)))
     else if t = TOKEN_GROUP then
       andThen p_advance (\<lambda>_. andThen (p_expect TOKEN_BY) (\<lambda>_. andThen (groupClause n) (\<lambda>c. clause_loop n k (set_child 3 c out))))
     else if t = TOKEN_HAVING then andThen p_advance (\<lambda>_. andThen (havingClause n) (\<lambda>c. clause_loop n k (set_child 4 c out)))
     else if t = TOKEN_ORDER then
       andThen p_advance (\<lambda>_. andThen (p_expect TOKEN_BY) (\<lambda>_. andThen (orderClause n) (\<lambda>c. clause_loop n k (set_child 5 c out))))
     else if t = TOKEN_LIMIT then andThen p_advance (\<lambda>_. andThen limitClause (\<lambda>c. clause_loop n k (set_child 6 c out)))
     else yield out)"

definition selectStmt :: "nat \<Rightarrow> ast_node parse" where
  "selectStmt n = andThen p_peek (\<lambda>t.
     let rest = (\<lambda>out. andThen (selectList n) (\<lambda>l. andThen (p_expect TOKEN_FROM) (\<lambda>_. andThen p_identifier (\<lambda>name.
                   clause_loop n n (set_child 1 name (set_child 0 l out))))))
     in if t = TOKEN_DISTINCT then andThen p_advance (\<lambda>_. rest (set_flag FLAG_SELECT_DISTINCT (makeNode TYPE_SELECT_STMT)))
        else rest (makeNode TYPE_SELECT_STMT))"

definition createStmt :: "nat \<Rightarrow> ast_node parse" where
  "createStmt n = andThen p_peek (\<lambda>t.
     let node = makeNode TYPE_CREATE_STMT;
         index = (\<lambda>node. andThen (p_expect TOKEN_INDEX) (\<lambda>tok. andThen p_identifier (\<lambda>name. andThen (p_expect TOKEN_ON) (\<lambda>_.
           andThen p_identifier (\<lambda>table. andThen (p_expect TOKEN_LEFT_PAREN) (\<lambda>_. andThen (colList n) (\<lambda>cols.
             andThen (p_expect TOKEN_RIGHT_PAREN) (\<lambda>_.
               yield (set_child 2 cols (set_child 1 table (set_child 0 name (set_tok tok node))))))))))))
     in if t = TOKEN_TABLE then
          andThen p_advance (\<lambda>tok. andThen p_identifier (\<lambda>name. andThen (p_expect TOKEN_LEFT_PAREN) (\<lambda>_.
            andThen (colDefList n) (\<lambda>cols. andThen (p_expect TOKEN_RIGHT_PAREN) (\<lambda>_.
              yield (set_child 1 cols (set_child 0 name (set_tok tok node))))))))
        else if t = TOKEN_UNIQUE then andThen p_advance (\<lambda>_. index (set_flag FLAG_UNIQUE_INDEX node))
        else if t = TOKEN_INDEX then index node
        else if t = TOKEN_VIEW then
          andThen p_advance (\<lambda>tok. andThen p_identifier (\<lambda>name. andThen (p_expect TOKEN_AS) (\<lambda>_. andThen (selectStmt n) (\<lambda>q.
            yield (set_child 1 q (set_child 0 name (set_tok tok node)))))))
        else reportUnexpected)"

definition deleteStmt :: "nat \<Rightarrow> ast_node parse" where
  "deleteStmt n = andThen (p_expect TOKEN_FROM) (\<lambda>_. andThen p_identifier (\<lambda>name. andThen p_peek (\<lambda>t.
     let node = set_child 0 name (makeNode TYPE_DELETE_STMT)
     in if t = TOKEN_WHERE then andThen p_advance (\<lambda>_. andThen (whereClause n) (\<lambda>w. yield (set_child 1 w node)))
        else yield node)))"

definition updateStmt :: "nat \<Rightarrow> ast_node parse" where
  "updateStmt n = andThen p_identifier (\<lambda>name. andThen (p_expect TOKEN_SET) (\<lambda>_. andThen (assignmentList n) (\<lambda>l. andThen p_peek (\<lambda>t.
     let node = set_child 1 l (set_child 0 name (makeNode TYPE_UPDATE_STMT))
     in if t = TOKEN_WHERE then andThen p_advance (\<lambda>_. andThen (whereClause n) (\<lambda>w. yield (set_child 2 w node)))
        else yield node))))"

definition insertStmt :: "nat \<Rightarrow> ast_node parse" where
  "insertStmt n = andThen (p_expect TOKEN_INTO) (\<lambda>_. andThen p_identifier (\<lambda>name. andThen p_peek (\<lambda>t.
     let node = set_child 0 name (makeNode TYPE_INSERT_STMT);
         vals = (\<lambda>node. andThen (p_expect TOKEN_VALUES) (\<lambda>_. andThen (p_expect TOKEN_LEFT_PAREN) (\<lambda>_.
           andThen (p_valList n) (\<lambda>vs. andThen (p_expect TOKEN_RIGHT_PAREN) (\<lambda>_. yield (set_child 2 vs node))))))
     in if t = TOKEN_LEFT_PAREN then
          andThen p_advance (\<lambda>_. andThen (colList n) (\<lambda>cols. andThen (p_expect TOKEN_RIGHT_PAREN) (\<lambda>_.
            vals (set_flag FLAG_COLUMN_LIST (set_child 1 cols node)))))
        else vals node)))"

definition beginTransactionStmt :: "ast_node parse" where
  "beginTransactionStmt = andThen (p_expect TOKEN_TRANSACTION) (\<lambda>_. yield (makeNode TYPE_BEGIN_TRANSACTION_STMT))"

definition commitStmt :: "ast_node parse" where
  "commitStmt = yield (makeNode TYPE_COMMIT_STMT)"

definition discardStmt :: "ast_node parse" where
  "discardStmt = yield (makeNode TYPE_DISCARD_STMT)"

text \<open>\<open>None\<close> is the NULL returned for a statement that starts with no statement keyword.\<close>

definition p_query :: "nat \<Rightarrow> ast_node option parse" where
  "p_query n = andThen p_peek (\<lambda>t.
     let stmt = (\<lambda>p. andThen p_advance (\<lambda>_. andThen p (\<lambda>s. yield (Some (set_child 0 s (makeNode TYPE_QUERY))))))
     in if t = TOKEN_SELECT then stmt (selectStmt n)
        else if t = TOKEN_INSERT then stmt (insertStmt n)
        else if t = TOKEN_UPDATE then stmt (updateStmt n)
        else if t = TOKEN_DELETE then stmt (deleteStmt n)
        else if t = TOKEN_CREATE then stmt (createStmt n)
        else if t = TOKEN_DROP then stmt dropStmt
        else if t = TOKEN_ALTER then stmt alterStmt
        else if t = TOKEN_BEGIN then stmt beginTransactionStmt
        else if t = TOKEN_COMMIT then stmt commitStmt
        else if t = TOKEN_DISCARD then stmt discardStmt
        else yield None)"

definition parse_fuel :: "token list \<Rightarrow> nat" where
  "parse_fuel ts = 12 * length ts + 12"

text \<open>\<open>compile\<close>, with the tokens it does not look at.\<close>

definition compile :: "token list \<Rightarrow> perror + ast_node option \<times> token list" where
  "compile ts = p_query (parse_fuel ts) ts"

end
