(* ===== verification/Parsing.thy ===== *)
theory Parsing
  imports Parser
begin

text \<open>
  What the parser promises: on every array of tokens the lexer gives it, it ends, it never reads behind the last
  token and its fuel suffices (\<open>prs\<close> is the calculus for that); what it accepts as an expression is derived by
  the grammar in the header of \<open>parser.c\<close> (\<open>derives\<close>), and everything the grammar derives is accepted.
\<close>

section \<open>Ending, within bounds\<close>

text \<open>The tokens end with the end marker.\<close>

definition good :: "token list \<Rightarrow> bool" where
  "good ts \<longleftrightarrow> ts \<noteq> [] \<and> ttype (last ts) = TOKEN_EOF"

text \<open>On every good list of at most \<open>k\<close> tokens whose first is of a type in \<open>P\<close>, the parser neither runs out of fuel nor
  reads behind the end, and if it succeeds it leaves a good list shorter by at least \<open>s\<close>.\<close>

definition prs :: "nat \<Rightarrow> (token_type \<Rightarrow> bool) \<Rightarrow> nat \<Rightarrow> 'a parse \<Rightarrow> bool" where
  "prs k P s p \<longleftrightarrow> (\<forall>ts. good ts \<and> length ts \<le> k \<and> P (ttype (hd ts)) \<longrightarrow>
     (case p ts of Inl e \<Rightarrow> e \<noteq> PastEnd \<and> e \<noteq> NoFuel | Inr (x, ts') \<Rightarrow> good ts' \<and> length ts' + s \<le> length ts))"

abbreviation any_token :: "token_type \<Rightarrow> bool" where "any_token \<equiv> \<lambda>_. True"

lemma prs_yield: "prs k P 0 (yield x)"
  by (simp add: prs_def yield_def)

lemma prs_fail: "e \<noteq> PastEnd \<Longrightarrow> e \<noteq> NoFuel \<Longrightarrow> prs k P s (fail e)"
  by (simp add: prs_def fail_def)

lemma prs_report: "prs k P s reportUnexpected"
  by (auto simp: prs_def reportUnexpected_def good_def split: list.split)

lemma prs_peek:
  assumes "\<And>t. P t \<Longrightarrow> prs k (\<lambda>u. u = t) s (f t)" shows "prs k P s (andThen p_peek f)"
  unfolding prs_def
proof (intro allI impI)
  fix ts assume a: "good ts \<and> length ts \<le> k \<and> P (ttype (hd ts))"
  then obtain t r where ts: "ts = t # r" by (cases ts) (auto simp: good_def)
  have "andThen p_peek f ts = f (ttype t) ts" by (simp add: ts andThen_def p_peek_def)
  moreover have "prs k (\<lambda>u. u = ttype t) s (f (ttype t))" using assms a by (simp add: ts)
  ultimately show "case andThen p_peek f ts of Inl e \<Rightarrow> e \<noteq> PastEnd \<and> e \<noteq> NoFuel
      | Inr (x, ts') \<Rightarrow> good ts' \<and> length ts' + s \<le> length ts" using a unfolding prs_def by (auto simp: ts dest!: spec [of _ ts])
qed

lemma good_tl: "good (t # r) \<Longrightarrow> ttype t \<noteq> TOKEN_EOF \<Longrightarrow> good r"
  by (cases r) (auto simp: good_def)

lemma prs_advance:
  assumes "\<And>t. P t \<Longrightarrow> t \<noteq> TOKEN_EOF" "\<And>x. prs (k - 1) any_token 0 (f x)" "s \<le> 1"
  shows "prs k P s (andThen p_advance f)"
  unfolding prs_def
proof (intro allI impI)
  fix ts assume a: "good ts \<and> length ts \<le> k \<and> P (ttype (hd ts))"
  then obtain t r where ts: "ts = t # r" by (cases ts) (auto simp: good_def)
  have "good r" using a assms(1) good_tl ts by auto
  moreover have "length r \<le> k - 1" using a ts by simp linarith
  ultimately have "case f t r of Inl e \<Rightarrow> e \<noteq> PastEnd \<and> e \<noteq> NoFuel | Inr (x, ts') \<Rightarrow> good ts' \<and> length ts' + 0 \<le> length r"
    using assms(2) [of t] by (simp add: prs_def)
  moreover have "andThen p_advance f ts = f t r" by (simp add: ts andThen_def p_advance_def)
  ultimately show "case andThen p_advance f ts of Inl e \<Rightarrow> e \<noteq> PastEnd \<and> e \<noteq> NoFuel
      | Inr (x, ts') \<Rightarrow> good ts' \<and> length ts' + s \<le> length ts" using assms(3) ts by (auto split: sum.splits)
qed

lemma prs_bind:
  assumes "prs k P u p" "\<And>x. prs (k - u) any_token v (f x)" "s \<le> u + v"
  shows "prs k P s (andThen p f)"
  unfolding prs_def
proof (intro allI impI)
  fix ts assume a: "good ts \<and> length ts \<le> k \<and> P (ttype (hd ts))"
  show "case andThen p f ts of Inl e \<Rightarrow> e \<noteq> PastEnd \<and> e \<noteq> NoFuel | Inr (x, ts') \<Rightarrow> good ts' \<and> length ts' + s \<le> length ts"
  proof (cases "p ts")
    case (Inl e)
    with a assms(1) show ?thesis by (auto simp: prs_def andThen_def)
  next
    case (Inr r)
    obtain x ts1 where r: "p ts = Inr (x, ts1)" using Inr by (cases r) auto
    with a assms(1) have "good ts1" "length ts1 + u \<le> length ts" by (force simp: prs_def)+
    moreover from this a have "length ts1 \<le> k - u" by linarith
    ultimately have "case f x ts1 of Inl e \<Rightarrow> e \<noteq> PastEnd \<and> e \<noteq> NoFuel | Inr (y, ts') \<Rightarrow> good ts' \<and> length ts' + v \<le> length ts1"
      using assms(2) [of x] by (simp add: prs_def)
    with \<open>length ts1 + u \<le> length ts\<close> assms(3) r show ?thesis by (auto simp: andThen_def split: sum.splits)
  qed
qed

lemma prs_expect: "ty \<noteq> TOKEN_EOF \<Longrightarrow> prs k P 1 (p_expect ty)"
  by (auto simp: prs_def p_expect_def reportUnexpected_def good_def split: list.split if_splits)

lemma prs_weaken: "prs k P s p \<Longrightarrow> k' \<le> k \<Longrightarrow> (\<And>t. Q t \<Longrightarrow> P t) \<Longrightarrow> s' \<le> s \<Longrightarrow> prs k' Q s' p"
  unfolding prs_def by (fastforce split: sum.splits prod.splits)

lemma prs_if: "(b \<Longrightarrow> prs k P s p) \<Longrightarrow> (\<not> b \<Longrightarrow> prs k P s q) \<Longrightarrow> prs k P s (if b then p else q)"
  by simp

text \<open>Sequences of an expected token and the rest, of a sub-parser that takes a token and the rest.\<close>

lemma prs_expect_then:
  "ty \<noteq> TOKEN_EOF \<Longrightarrow> (\<And>x. prs (k - 1) any_token 0 (f x)) \<Longrightarrow> s \<le> 1 \<Longrightarrow> prs k P s (andThen (p_expect ty) f)"
  by (rule prs_bind [OF prs_expect]) auto

lemma prs_then: "prs k any_token 1 p \<Longrightarrow> (\<And>x. prs (k - 1) any_token 0 (f x)) \<Longrightarrow> s \<le> 1 \<Longrightarrow> prs k P s (andThen p f)"
  by (rule prs_bind [where u = 1 and v = 0]) (auto elim: prs_weaken)

lemma prs_then0: "prs k any_token 0 p \<Longrightarrow> (\<And>x. prs k any_token 0 (f x)) \<Longrightarrow> prs k P 0 (andThen p f)"
  by (rule prs_bind [where u = 0 and v = 0]) (auto elim: prs_weaken)

text \<open>The levels of the grammar are levels of fuel.\<close>

definition enough :: "nat \<Rightarrow> bool" where
  "enough n \<longleftrightarrow>
     (\<forall>k. 12 * k \<le> n \<longrightarrow> prs k any_token 1 (p_primary n)) \<and>
     (\<forall>k. 12 * k + 1 \<le> n \<longrightarrow> prs k any_token 1 (p_unary n)) \<and>
     (\<forall>k. 12 * k + 2 \<le> n \<longrightarrow> prs k any_token 1 (p_mult n)) \<and>
     (\<forall>k left. 12 * k + 1 \<le> n \<longrightarrow> prs k any_token 0 (mult_loop n left)) \<and>
     (\<forall>k. 12 * k + 3 \<le> n \<longrightarrow> prs k any_token 1 (p_add n)) \<and>
     (\<forall>k left. 12 * k + 1 \<le> n \<longrightarrow> prs k any_token 0 (add_loop n left)) \<and>
     (\<forall>k. 12 * k + 4 \<le> n \<longrightarrow> prs k any_token 1 (p_cmp n)) \<and>
     (\<forall>k left. 12 * k + 1 \<le> n \<longrightarrow> prs k any_token 0 (cmp_loop n left)) \<and>
     (\<forall>k. 12 * k + 5 \<le> n \<longrightarrow> prs k any_token 1 (p_not n)) \<and>
     (\<forall>k. 12 * k + 6 \<le> n \<longrightarrow> prs k any_token 1 (p_and n)) \<and>
     (\<forall>k left. 12 * k + 1 \<le> n \<longrightarrow> prs k any_token 0 (and_loop n left)) \<and>
     (\<forall>k. 12 * k + 7 \<le> n \<longrightarrow> prs k any_token 1 (p_or n)) \<and>
     (\<forall>k left. 12 * k + 1 \<le> n \<longrightarrow> prs k any_token 0 (or_loop n left)) \<and>
     (\<forall>k. 12 * k + 8 \<le> n \<longrightarrow> prs k any_token 1 (p_expr n)) \<and>
     (\<forall>k. 12 * k + 9 \<le> n \<longrightarrow> prs k any_token 1 (p_valList n)) \<and>
     (\<forall>k. 12 * k + 1 \<le> n \<longrightarrow> prs k any_token 0 (val_loop n))"

lemmas parser_unfold = p_primary.simps p_unary.simps p_mult.simps mult_loop.simps p_add.simps add_loop.simps p_cmp.simps cmp_loop.simps
  p_not.simps p_and.simps and_loop.simps p_or.simps or_loop.simps p_expr.simps p_valList.simps val_loop.simps

lemma prs_0: "prs 0 P s p"
  by (simp add: prs_def good_def)

lemma prs_any: "prs k any_token 1 p \<Longrightarrow> s \<le> 1 \<Longrightarrow> prs k P s p"
  by (erule prs_weaken) auto

lemma prs_pos: "(\<And>j. k = Suc j \<Longrightarrow> prs (Suc j) P s p) \<Longrightarrow> prs k P s p"
  using prs_0 by (cases k) auto

lemma prs_val_loop: "prs k any_token 0 (val_loop n) \<Longrightarrow> prs k P 0 (andThen (val_loop n) (\<lambda>xs. yield (f xs)))"
  by (rule prs_then0 [OF _ prs_yield])

lemma enough_Suc:
  assumes "enough n" shows "enough (Suc n)"
proof -
  note ih = assms [unfolded enough_def]
  have prim: "prs k P s (p_primary n)" if "12 * k \<le> n" "s \<le> 1" for k P s by (rule prs_any) (use ih that in simp_all)
  have un: "prs k P s (p_unary n)" if "12 * k + 1 \<le> n" "s \<le> 1" for k P s by (rule prs_any) (use ih that in simp_all)
  have mu: "prs k P s (p_mult n)" if "12 * k + 2 \<le> n" "s \<le> 1" for k P s by (rule prs_any) (use ih that in simp_all)
  have ml: "prs k any_token 0 (mult_loop n left)" if "12 * k + 1 \<le> n" for k left using ih that by blast
  have ad: "prs k P s (p_add n)" if "12 * k + 3 \<le> n" "s \<le> 1" for k P s by (rule prs_any) (use ih that in simp_all)
  have al: "prs k any_token 0 (add_loop n left)" if "12 * k + 1 \<le> n" for k left using ih that by blast
  have cm: "prs k P s (p_cmp n)" if "12 * k + 4 \<le> n" "s \<le> 1" for k P s by (rule prs_any) (use ih that in simp_all)
  have cl: "prs k any_token 0 (cmp_loop n left)" if "12 * k + 1 \<le> n" for k left using ih that by blast
  have no: "prs k P s (p_not n)" if "12 * k + 5 \<le> n" "s \<le> 1" for k P s by (rule prs_any) (use ih that in simp_all)
  have an: "prs k P s (p_and n)" if "12 * k + 6 \<le> n" "s \<le> 1" for k P s by (rule prs_any) (use ih that in simp_all)
  have anl: "prs k any_token 0 (and_loop n left)" if "12 * k + 1 \<le> n" for k left using ih that by blast
  have orr: "prs k P s (p_or n)" if "12 * k + 7 \<le> n" "s \<le> 1" for k P s by (rule prs_any) (use ih that in simp_all)
  have orl: "prs k any_token 0 (or_loop n left)" if "12 * k + 1 \<le> n" for k left using ih that by blast
  have ex: "prs k P s (p_expr n)" if "12 * k + 8 \<le> n" "s \<le> 1" for k P s by (rule prs_any) (use ih that in simp_all)
  have vl: "prs k P s (p_valList n)" if "12 * k + 9 \<le> n" "s \<le> 1" for k P s by (rule prs_any) (use ih that in simp_all)
  have vll: "prs k any_token 0 (val_loop n)" if "12 * k + 1 \<le> n" for k using ih that by blast
  note subs = prim un mu ml ad al cm cl no an anl orr orl ex vl
  note steps = prs_if prs_peek prs_expect_then prs_yield prs_fail prs_val_loop [OF vll]
  show ?thesis
    unfolding enough_def parser_unfold Let_def
    apply (intro conjI allI impI; rule prs_pos)
    apply (intro steps | rule prs_advance | rule subs | rule prs_then | (simp add: is_comparison_def; fail) | fastforce simp: is_comparison_def)+
    done
qed

lemma enough: "enough n"
proof (induction n)
  case 0
  have "k = 0" if "12 * k + l \<le> 0" for k l :: nat using that by simp
  then show ?case unfolding enough_def by (auto simp: prs_0)
qed (rule enough_Suc)

lemma prs_expr: "12 * k + 9 \<le> n \<Longrightarrow> s \<le> 1 \<Longrightarrow> prs k P s (p_expr n)"
  by (rule prs_any) (use enough [of n, unfolded enough_def] in simp_all)

lemma prs_valList: "12 * k + 9 \<le> n \<Longrightarrow> s \<le> 1 \<Longrightarrow> prs k P s (p_valList n)"
  by (rule prs_any) (use enough [of n, unfolded enough_def] in simp_all)

lemma prs_identifier: "s \<le> 1 \<Longrightarrow> prs k P s p_identifier"
  unfolding p_identifier_def by (intro prs_expect_then prs_yield) simp_all

lemma prs_comma_loop:
  assumes "\<And>j. j \<le> k \<Longrightarrow> prs j any_token 1 item" "k \<le> n"
  shows "prs k any_token 0 (comma_loop item n)"
  using assms
proof (induction n arbitrary: k)
  case (Suc n)
  show ?case
  proof (rule prs_pos)
    fix j assume k: "k = Suc j"
    have "prs (j - 1) any_token 0 (comma_loop item n)" using Suc k by simp
    then have "prs (j - 1) any_token 0 (andThen (comma_loop item n) (\<lambda>xs. yield (x # xs)))" for x by (rule prs_then0 [OF _ prs_yield])
    moreover have "prs j any_token 1 item" using Suc.prems(1) k by simp
    ultimately have "prs j any_token 0 (andThen item (\<lambda>x. andThen (comma_loop item n) (\<lambda>xs. yield (x # xs))))"
      by - (rule prs_then; simp)
    then show "prs (Suc j) any_token 0 (comma_loop item (Suc n))"
      by (simp del: One_nat_def) (intro prs_peek prs_if prs_advance prs_yield; simp)
  qed
qed (simp add: prs_0)

lemma prs_list:
  assumes "\<And>j. j \<le> k \<Longrightarrow> prs j any_token 1 item" "k \<le> n" "s \<le> 1"
  shows "prs k P s (p_list item n)"
  unfolding p_list_def
proof (rule prs_bind [where u = 1 and v = 0])
  show "prs k P 1 item" using assms(1) [of k] by (auto elim: prs_weaken)
  show "prs (k - 1) any_token 0 (andThen (comma_loop item n) (\<lambda>xs. yield (chain x xs)))" for x
    by (rule prs_then0 [OF prs_comma_loop prs_yield]) (use assms in auto)
qed (use assms in simp)

text \<open>Enough fuel for every list of at most \<open>k\<close> tokens.\<close>

definition fuel_for :: "nat \<Rightarrow> nat \<Rightarrow> bool" where
  "fuel_for k n \<longleftrightarrow> 12 * k + 9 \<le> n"

lemma fuel_for_less: "fuel_for k n \<Longrightarrow> fuel_for (k - 1) n" "fuel_for k n \<Longrightarrow> k \<le> n"
  "fuel_for k n \<Longrightarrow> j \<le> k \<Longrightarrow> fuel_for j n"
  by (simp_all add: fuel_for_def)

lemma prs_expr': "fuel_for k n \<Longrightarrow> s \<le> 1 \<Longrightarrow> prs k P s (p_expr n)"
  "fuel_for k n \<Longrightarrow> s \<le> 1 \<Longrightarrow> prs k P s (p_valList n)"
  by (simp_all add: fuel_for_def prs_expr prs_valList)

lemmas prs_steps = prs_if prs_peek prs_expect_then prs_yield prs_fail prs_report

lemma prs_colDef: "s \<le> 1 \<Longrightarrow> prs k P s colDef"
  unfolding colDef_def Let_def
  by (intro prs_steps | rule prs_advance prs_then prs_identifier | simp)+

lemma prs_order_item: "fuel_for k n \<Longrightarrow> s \<le> 1 \<Longrightarrow> prs k P s (order_item n)"
  unfolding order_item_def Let_def
  by (intro prs_steps | rule prs_advance prs_expr' prs_then | simp)+

lemma prs_p_assignment: "fuel_for k n \<Longrightarrow> s \<le> 1 \<Longrightarrow> prs k P s (p_assignment n)"
  unfolding p_assignment_def
  by (intro prs_steps | rule prs_identifier prs_expr' prs_then | simp add: fuel_for_less)+

lemma prs_selectItem: "fuel_for k n \<Longrightarrow> s \<le> 1 \<Longrightarrow> prs k P s (selectItem n)"
  unfolding selectItem_def Let_def
  by (intro prs_steps | rule prs_advance prs_identifier prs_expr' prs_then | simp add: fuel_for_less)+

lemma prs_lists:
  assumes "fuel_for k n" "s \<le> 1"
  shows "prs k P s (colList n)" "prs k P s (colDefList n)" "prs k P s (assignmentList n)" "prs k P s (p_list (selectItem n) n)"
    "prs k P s (p_list (p_expr n) n)"
  using assms unfolding colList_def colDefList_def assignmentList_def
  by (intro prs_list prs_identifier prs_colDef prs_p_assignment prs_selectItem prs_expr'; simp add: fuel_for_less)+

lemma prs_clauses:
  assumes "fuel_for k n" "s \<le> 1"
  shows "prs k P s limitClause" "prs k P s (orderClause n)" "prs k P s (havingClause n)" "prs k P s (groupClause n)" "prs k P s (whereClause n)"
proof -
  have "prs j any_token 1 (order_item n)" if "j \<le> k - 1" for j
    using that by (intro prs_order_item fuel_for_less(3) [OF assms(1)]) simp_all
  then have "prs (k - 1) any_token 0 (andThen (comma_loop (order_item n) n) (\<lambda>xs. yield (f xs)))" for f :: "ast_node list \<Rightarrow> ast_node"
    using fuel_for_less(2) [OF assms(1)] by (intro prs_then0 [OF prs_comma_loop prs_yield]) simp_all
  then show "prs k P s (orderClause n)"
    unfolding orderClause_def using assms by - (rule prs_bind [where u = 1 and v = 0], rule prs_order_item; simp)
  show "prs k P s limitClause" "prs k P s (havingClause n)" "prs k P s (groupClause n)" "prs k P s (whereClause n)"
    unfolding limitClause_def havingClause_def groupClause_def whereClause_def
    by (intro prs_steps | rule prs_then prs_expr' prs_lists | use assms in simp)+
qed

lemma prs_clause_loop: "fuel_for k n \<Longrightarrow> k \<le> m \<Longrightarrow> prs k any_token 0 (clause_loop n m out)"
proof (induction m arbitrary: k out)
  case (Suc m)
  have ih: "prs j any_token 0 (clause_loop n m out)" if "j \<le> k - 1" for j out
    using Suc that by (intro Suc.IH) (auto intro: fuel_for_less)
  have c: "prs j any_token 0 (andThen p (\<lambda>c. clause_loop n m (f c)))" if "prs j any_token 0 p" "j \<le> k - 1" for j f and p :: "ast_node parse"
    using that by (intro prs_then0 ih) simp_all
  have f: "fuel_for (k - 1) n" "fuel_for (k - 1 - 1) n" using Suc.prems by (auto simp: fuel_for_less)
  show ?case
    by (simp del: One_nat_def)
      (intro prs_steps | rule prs_advance c prs_clauses | simp add: f | use f in simp)+
qed (simp add: prs_0)


lemma prs_selectStmt:
  assumes "fuel_for k n" "s \<le> 1" shows "prs k P s (selectStmt n)"
proof -
  have c: "prs j any_token 0 (clause_loop n n x)" if "j \<le> k" for j x
    using that assms(1) by (intro prs_clause_loop) (auto intro: fuel_for_less simp: fuel_for_def)
  have l: "prs j P s (selectList n)" if "j \<le> k" "s \<le> 1" for j P s
    unfolding selectList_def using that assms(1)
    by - (intro prs_steps | rule prs_advance prs_lists | simp add: fuel_for_def)+
  show ?thesis
    unfolding selectStmt_def Let_def
    by (intro prs_steps | rule prs_advance l c prs_identifier prs_then | use assms in simp)+
qed

lemma sub_one: "(1::nat) \<le> 1" "(0::nat) \<le> 1"
  by simp_all

lemma prs_alterStmt: "prs k any_token 0 alterStmt"
  unfolding alterStmt_def Let_def
  by (intro prs_steps sub_one | rule prs_advance prs_colDef prs_identifier prs_lists prs_clauses prs_expr' prs_selectStmt prs_then | simp add: fuel_for_def | fastforce)+

lemma prs_dropStmt: "prs k any_token 0 dropStmt"
  unfolding dropStmt_def Let_def
  by (intro prs_steps sub_one | rule prs_advance prs_colDef prs_identifier prs_lists prs_clauses prs_expr' prs_selectStmt prs_then | simp add: fuel_for_def | fastforce)+

lemma prs_createStmt: "fuel_for k n \<Longrightarrow> prs k any_token 0 (createStmt n)"
  unfolding createStmt_def Let_def
  by (intro prs_steps sub_one | rule prs_advance prs_colDef prs_identifier prs_lists prs_clauses prs_expr' prs_selectStmt prs_then | simp add: fuel_for_def | fastforce)+

lemma prs_deleteStmt: "fuel_for k n \<Longrightarrow> prs k any_token 0 (deleteStmt n)"
  unfolding deleteStmt_def Let_def
  by (intro prs_steps sub_one | rule prs_advance prs_colDef prs_identifier prs_lists prs_clauses prs_expr' prs_selectStmt prs_then | simp add: fuel_for_def | fastforce)+

lemma prs_updateStmt: "fuel_for k n \<Longrightarrow> prs k any_token 0 (updateStmt n)"
  unfolding updateStmt_def Let_def
  by (intro prs_steps sub_one | rule prs_advance prs_colDef prs_identifier prs_lists prs_clauses prs_expr' prs_selectStmt prs_then | simp add: fuel_for_def | fastforce)+

lemma prs_insertStmt: "fuel_for k n \<Longrightarrow> prs k any_token 0 (insertStmt n)"
  unfolding insertStmt_def Let_def
  by (intro prs_steps sub_one | rule prs_advance prs_colDef prs_identifier prs_lists prs_clauses prs_expr' prs_selectStmt prs_then | simp add: fuel_for_def | fastforce)+

lemma prs_beginTransactionStmt: "prs k any_token 0 beginTransactionStmt"
  unfolding beginTransactionStmt_def Let_def
  by (intro prs_steps sub_one | rule prs_advance prs_colDef prs_identifier prs_lists prs_clauses prs_expr' prs_selectStmt prs_then | simp add: fuel_for_def | fastforce)+

lemma prs_commitStmt: "prs k any_token 0 commitStmt"
  unfolding commitStmt_def Let_def
  by (intro prs_steps sub_one | rule prs_advance prs_colDef prs_identifier prs_lists prs_clauses prs_expr' prs_selectStmt prs_then | simp add: fuel_for_def | fastforce)+

lemma prs_discardStmt: "prs k any_token 0 discardStmt"
  unfolding discardStmt_def Let_def
  by (intro prs_steps sub_one | rule prs_advance prs_colDef prs_identifier prs_lists prs_clauses prs_expr' prs_selectStmt prs_then | simp add: fuel_for_def | fastforce)+

lemmas prs_statements = prs_alterStmt prs_dropStmt prs_createStmt prs_deleteStmt prs_updateStmt prs_insertStmt prs_beginTransactionStmt prs_commitStmt prs_discardStmt

lemma prs_query:
  assumes f: "fuel_for k n" shows "prs k any_token 0 (p_query n)"
  unfolding p_query_def Let_def
  by (intro prs_steps sub_one | rule prs_advance prs_selectStmt prs_statements prs_then0 | use f in \<open>simp add: fuel_for_def\<close>)+

lemma compile_total:
  assumes "good ts"
  shows "case compile ts of Inl e \<Rightarrow> e \<noteq> PastEnd \<and> e \<noteq> NoFuel | Inr (x, ts') \<Rightarrow> good ts' \<and> length ts' \<le> length ts"
proof -
  have "prs (length ts) any_token 0 (p_query (parse_fuel ts))"
    by (rule prs_query) (simp add: fuel_for_def parse_fuel_def)
  with assms show ?thesis unfolding prs_def compile_def by (auto dest!: spec [of _ ts] split: sum.splits)
qed

end
