(* ===== verification/Grammar.thy ===== *)
theory Grammar
  imports Parsing Lexing
begin

text \<open>
  The expression grammar that the recursive descent parser of \<open>parser.c\<close> implements (\<open>derives\<close>), as an inductive relation between a
  nonterminal, a syntax tree and the tokens it stands for, and the proof that the parser is exactly that grammar: what it
  accepts is derived (\<open>sound\<close>), what is derived is accepted, with the same tree (\<open>runs\<close>). The grammar that the
  comment at the head of \<open>parser.c\<close> gives is another one (\<open>in_header\<close>): it has no \<open>NULL\<close> and no call without arguments, and wants an operand
  behind \<open>IS NULL\<close>; where these do not come up the two agree.
\<close>

section \<open>The grammar\<close>

datatype nonterm = Primary | Unary | Multiplicative | Additive | Comparison | Not_expr | And_expr | Or_expr

abbreviation leaf :: "token \<Rightarrow> ast_node" where "leaf t \<equiv> set_tok t (makeNode TYPE_PRIMARY)"

inductive derives :: "nonterm \<Rightarrow> ast_node \<Rightarrow> token list \<Rightarrow> bool" and vals :: "ast_node list \<Rightarrow> token list \<Rightarrow> bool" where
  d_leaf: "ttype t \<in> {TOKEN_NUMBER, TOKEN_STRING, TOKEN_NULL, TOKEN_IDENTIFIER, TOKEN_STAR} \<Longrightarrow> derives Primary (leaf t) [t]"
| d_call0: "ttype f = TOKEN_IDENTIFIER \<Longrightarrow> ttype l = TOKEN_LEFT_PAREN \<Longrightarrow> ttype r = TOKEN_RIGHT_PAREN \<Longrightarrow>
    derives Primary (set_flag FLAG_FUNCTION_CALL (leaf f)) [f, l, r]"
| d_call: "ttype f = TOKEN_IDENTIFIER \<Longrightarrow> ttype l = TOKEN_LEFT_PAREN \<Longrightarrow> vals (x # xs) w \<Longrightarrow> ttype r = TOKEN_RIGHT_PAREN \<Longrightarrow>
    derives Primary (set_child 0 (chain x xs) (set_flag FLAG_FUNCTION_CALL (leaf f))) (f # l # w @ [r])"
| d_paren: "ttype l = TOKEN_LEFT_PAREN \<Longrightarrow> derives Or_expr a w \<Longrightarrow> ttype r = TOKEN_RIGHT_PAREN \<Longrightarrow> derives Primary a (l # w @ [r])"
| d_primary: "derives Primary a w \<Longrightarrow> derives Unary a w"
| d_minus: "ttype m = TOKEN_MINUS \<Longrightarrow> derives Unary a w \<Longrightarrow> derives Unary (unary_node TYPE_UNARY m a) (m # w)"
| d_unary: "derives Unary a w \<Longrightarrow> derives Multiplicative a w"
| d_mult: "derives Multiplicative a v \<Longrightarrow> ttype t \<in> {TOKEN_STAR, TOKEN_SLASH} \<Longrightarrow> derives Unary b w \<Longrightarrow>
    derives Multiplicative (binary TYPE_MULTIPLICATIVE t a b) (v @ t # w)"
| d_multiplicative: "derives Multiplicative a w \<Longrightarrow> derives Additive a w"
| d_add: "derives Additive a v \<Longrightarrow> ttype t \<in> {TOKEN_PLUS, TOKEN_MINUS} \<Longrightarrow> derives Multiplicative b w \<Longrightarrow>
    derives Additive (binary TYPE_ADDITIVE t a b) (v @ t # w)"
| d_additive: "derives Additive a w \<Longrightarrow> derives Comparison a w"
| d_compare: "derives Comparison a v \<Longrightarrow> is_comparison (ttype t) \<Longrightarrow> derives Additive b w \<Longrightarrow>
    derives Comparison (binary TYPE_COMPARISON t a b) (v @ t # w)"
| d_is_null: "derives Comparison a v \<Longrightarrow> ttype t = TOKEN_IS \<Longrightarrow> ttype l = TOKEN_NULL \<Longrightarrow>
    derives Comparison (unary_node TYPE_COMPARISON t a) (v @ [t, l])"
| d_is_not_null: "derives Comparison a v \<Longrightarrow> ttype t = TOKEN_IS \<Longrightarrow> ttype m = TOKEN_NOT \<Longrightarrow> ttype l = TOKEN_NULL \<Longrightarrow>
    derives Comparison (set_flag FLAG_IS_NOT_NULL (unary_node TYPE_COMPARISON t a)) (v @ [t, m, l])"
| d_between: "derives Comparison a v \<Longrightarrow> ttype t = TOKEN_BETWEEN \<Longrightarrow> derives Additive b w \<Longrightarrow> ttype m = TOKEN_AND \<Longrightarrow>
    derives Additive c u \<Longrightarrow> derives Comparison (set_child 2 c (binary TYPE_COMPARISON t a b)) (v @ t # w @ m # u)"
| d_in: "derives Comparison a v \<Longrightarrow> ttype t = TOKEN_IN \<Longrightarrow> ttype l = TOKEN_LEFT_PAREN \<Longrightarrow> vals (x # xs) w \<Longrightarrow>
    ttype r = TOKEN_RIGHT_PAREN \<Longrightarrow> derives Comparison (binary TYPE_COMPARISON t a (chain x xs)) (v @ t # l # w @ [r])"
| d_not_in: "derives Comparison a v \<Longrightarrow> ttype m = TOKEN_NOT \<Longrightarrow> ttype t = TOKEN_IN \<Longrightarrow> ttype l = TOKEN_LEFT_PAREN \<Longrightarrow>
    vals (x # xs) w \<Longrightarrow> ttype r = TOKEN_RIGHT_PAREN \<Longrightarrow>
    derives Comparison (set_flag FLAG_NOT_IN (binary TYPE_COMPARISON t a (chain x xs))) (v @ m # t # l # w @ [r])"
| d_comparison: "derives Comparison a w \<Longrightarrow> derives Not_expr a w"
| d_not: "ttype m = TOKEN_NOT \<Longrightarrow> derives Not_expr a w \<Longrightarrow> derives Not_expr (unary_node TYPE_NOT_EXPR m a) (m # w)"
| d_not_expr: "derives Not_expr a w \<Longrightarrow> derives And_expr a w"
| d_and: "derives And_expr a v \<Longrightarrow> ttype t = TOKEN_AND \<Longrightarrow> derives Not_expr b w \<Longrightarrow>
    derives And_expr (binary TYPE_AND_EXPR t a b) (v @ t # w)"
| d_and_expr: "derives And_expr a w \<Longrightarrow> derives Or_expr a w"
| d_or: "derives Or_expr a v \<Longrightarrow> ttype t = TOKEN_OR \<Longrightarrow> derives And_expr b w \<Longrightarrow>
    derives Or_expr (binary TYPE_OR_EXPR t a b) (v @ t # w)"
| v_one: "derives Or_expr x w \<Longrightarrow> vals [x] w"
| v_more: "derives Or_expr x v \<Longrightarrow> ttype c = TOKEN_COMMA \<Longrightarrow> vals xs w \<Longrightarrow> vals (x # xs) (v @ c # w)"

section \<open>The grammar of the header\<close>

text \<open>The rules of the comment, word by word: \<open>in_list\<close> is its \<open>expr_list\<close>, one expression or several with commas between them. The
  nonterminals that are repeated stand to the left of their repetitions.\<close>

inductive in_header :: "nonterm \<Rightarrow> token list \<Rightarrow> bool" and in_list :: "token list \<Rightarrow> bool" where
  h_leaf: "ttype t \<in> {TOKEN_NUMBER, TOKEN_STRING, TOKEN_IDENTIFIER, TOKEN_STAR} \<Longrightarrow> in_header Primary [t]"
| h_call: "ttype f = TOKEN_IDENTIFIER \<Longrightarrow> ttype l = TOKEN_LEFT_PAREN \<Longrightarrow> in_list w \<Longrightarrow> ttype r = TOKEN_RIGHT_PAREN \<Longrightarrow>
    in_header Primary (f # l # w @ [r])"
| h_paren: "ttype l = TOKEN_LEFT_PAREN \<Longrightarrow> in_header Or_expr w \<Longrightarrow> ttype r = TOKEN_RIGHT_PAREN \<Longrightarrow> in_header Primary (l # w @ [r])"
| h_primary: "in_header Primary w \<Longrightarrow> in_header Unary w"
| h_minus: "ttype m = TOKEN_MINUS \<Longrightarrow> in_header Unary w \<Longrightarrow> in_header Unary (m # w)"
| h_unary: "in_header Unary w \<Longrightarrow> in_header Multiplicative w"
| h_mult: "in_header Multiplicative v \<Longrightarrow> ttype t \<in> {TOKEN_STAR, TOKEN_SLASH} \<Longrightarrow> in_header Unary w \<Longrightarrow> in_header Multiplicative (v @ t # w)"
| h_multiplicative: "in_header Multiplicative w \<Longrightarrow> in_header Additive w"
| h_add: "in_header Additive v \<Longrightarrow> ttype t \<in> {TOKEN_PLUS, TOKEN_MINUS} \<Longrightarrow> in_header Multiplicative w \<Longrightarrow> in_header Additive (v @ t # w)"
| h_additive: "in_header Additive w \<Longrightarrow> in_header Comparison w"
| h_compare: "in_header Comparison v \<Longrightarrow> is_comparison (ttype t) \<Longrightarrow> in_header Additive w \<Longrightarrow> in_header Comparison (v @ t # w)"
| h_is_null: "in_header Comparison v \<Longrightarrow> ttype t = TOKEN_IS \<Longrightarrow> ttype l = TOKEN_NULL \<Longrightarrow> in_header Additive w \<Longrightarrow>
    in_header Comparison (v @ t # l # w)"
| h_is_not_null: "in_header Comparison v \<Longrightarrow> ttype t = TOKEN_IS \<Longrightarrow> ttype m = TOKEN_NOT \<Longrightarrow> ttype l = TOKEN_NULL \<Longrightarrow> in_header Additive w \<Longrightarrow>
    in_header Comparison (v @ t # m # l # w)"
| h_between: "in_header Comparison v \<Longrightarrow> ttype t = TOKEN_BETWEEN \<Longrightarrow> in_header Additive w \<Longrightarrow> ttype m = TOKEN_AND \<Longrightarrow>
    in_header Additive u \<Longrightarrow> in_header Comparison (v @ t # w @ m # u)"
| h_in: "in_header Comparison v \<Longrightarrow> ttype t = TOKEN_IN \<Longrightarrow> ttype l = TOKEN_LEFT_PAREN \<Longrightarrow> in_list w \<Longrightarrow>
    ttype r = TOKEN_RIGHT_PAREN \<Longrightarrow> in_header Comparison (v @ t # l # w @ [r])"
| h_not_in: "in_header Comparison v \<Longrightarrow> ttype m = TOKEN_NOT \<Longrightarrow> ttype t = TOKEN_IN \<Longrightarrow> ttype l = TOKEN_LEFT_PAREN \<Longrightarrow> in_list w \<Longrightarrow>
    ttype r = TOKEN_RIGHT_PAREN \<Longrightarrow> in_header Comparison (v @ m # t # l # w @ [r])"
| h_comparison: "in_header Comparison w \<Longrightarrow> in_header Not_expr w"
| h_not: "ttype m = TOKEN_NOT \<Longrightarrow> in_header Not_expr w \<Longrightarrow> in_header Not_expr (m # w)"
| h_not_expr: "in_header Not_expr w \<Longrightarrow> in_header And_expr w"
| h_and: "in_header And_expr v \<Longrightarrow> ttype t = TOKEN_AND \<Longrightarrow> in_header Not_expr w \<Longrightarrow> in_header And_expr (v @ t # w)"
| h_and_expr: "in_header And_expr w \<Longrightarrow> in_header Or_expr w"
| h_or: "in_header Or_expr v \<Longrightarrow> ttype t = TOKEN_OR \<Longrightarrow> in_header And_expr w \<Longrightarrow> in_header Or_expr (v @ t # w)"
| h_one: "in_header Or_expr w \<Longrightarrow> in_list w"
| h_more: "in_header Or_expr v \<Longrightarrow> ttype c = TOKEN_COMMA \<Longrightarrow> in_list w \<Longrightarrow> in_list (v @ c # w)"

text \<open>No \<open>NULL\<close>, and no closing parenthesis right behind an opening one.\<close>

definition no_pair :: "token \<Rightarrow> token \<Rightarrow> bool" where
  "no_pair l r \<longleftrightarrow> \<not> (ttype l = TOKEN_LEFT_PAREN \<and> ttype r = TOKEN_RIGHT_PAREN)"

definition plain :: "token list \<Rightarrow> bool" where
  "plain w \<longleftrightarrow> (\<forall>t \<in> set w. ttype t \<noteq> TOKEN_NULL) \<and> successively no_pair w"

lemma plain_append: "plain (v @ w) \<Longrightarrow> plain v \<and> plain w"
  by (auto simp: plain_def successively_append_iff)

lemma plain_Cons: "plain (t # w) \<Longrightarrow> plain w \<and> ttype t \<noteq> TOKEN_NULL"
  by (auto simp: plain_def successively_Cons)

lemma plain_pair: "plain (v @ l # r # w) \<Longrightarrow> no_pair l r"
  by (auto simp: plain_def successively_append_iff)

lemmas plain_parts = plain_append plain_Cons

lemma derives_in_header:
  "derives X a w \<Longrightarrow> plain w \<longrightarrow> in_header X w"
  "vals xs v \<Longrightarrow> plain v \<longrightarrow> in_list v"
proof (induction rule: derives_vals.inducts)
  case (d_call0 f l r)
  then show ?case using plain_pair [of "[f]" l r "[]"] by (auto simp: no_pair_def)
qed (auto dest!: plain_parts intro: in_header_in_list.intros)

lemma in_header_derives:
  "in_header X w \<Longrightarrow> plain w \<longrightarrow> (\<exists>a. derives X a w)"
  "in_list v \<Longrightarrow> plain v \<longrightarrow> (\<exists>x xs. vals (x # xs) v)"
  by (induction rule: in_header_in_list.inducts) (auto dest!: plain_parts intro: derives_vals.intros)

text \<open>How the words of the header's grammar begin and end.\<close>

lemma in_header_ends:
  "in_header X w \<Longrightarrow> w \<noteq> [] \<and> ttype (hd w) \<notin> {TOKEN_NULL, TOKEN_RIGHT_PAREN} \<and> ttype (last w) \<notin> {TOKEN_NULL, TOKEN_LEFT_PAREN} \<and> successively no_pair w"
  "in_list v \<Longrightarrow> v \<noteq> [] \<and> ttype (hd v) \<notin> {TOKEN_NULL, TOKEN_RIGHT_PAREN} \<and> ttype (last v) \<notin> {TOKEN_NULL, TOKEN_LEFT_PAREN} \<and> successively no_pair v"
  by (induction rule: in_header_in_list.inducts)
    (auto simp: successively_append_iff successively_Cons no_pair_def is_comparison_def)

section \<open>What the parser accepts is derived\<close>

lemma andThen_Inr: "andThen p f ts = Inr (r, u) \<longleftrightarrow> (\<exists>x v. p ts = Inr (x, v) \<and> f x v = Inr (r, u))"
  by (auto simp: andThen_def split: sum.split)

lemma peek_Inr: "p_peek ts = Inr (t, u) \<longleftrightarrow> u = ts \<and> (\<exists>k v. ts = k # v \<and> t = ttype k)"
  by (auto simp: p_peek_def split: list.split)

lemma advance_Inr: "p_advance ts = Inr (t, u) \<longleftrightarrow> ts = t # u"
  by (auto simp: p_advance_def split: list.split)

lemma expect_Inr: "p_expect ty ts = Inr (t, u) \<longleftrightarrow> ts = t # u \<and> ttype t = ty"
  by (auto simp: p_expect_def reportUnexpected_def split: list.split)

lemma yield_Inr: "yield x ts = Inr (y, u) \<longleftrightarrow> y = x \<and> u = ts"
  by (auto simp: yield_def)

lemma fail_Inr: "fail e ts \<noteq> Inr r"
  by (simp add: fail_def)

lemmas parse_Inr = andThen_Inr peek_Inr advance_Inr expect_Inr yield_Inr fail_Inr

text \<open>On tokens whose first is of a type in \<open>P\<close>, a result of the parser stands for the tokens taken.\<close>

definition sound :: "(token_type \<Rightarrow> bool) \<Rightarrow> ('a \<Rightarrow> token list \<Rightarrow> bool) \<Rightarrow> 'a parse \<Rightarrow> bool" where
  "sound P X p \<longleftrightarrow> (\<forall>ts r u. (\<forall>k v. ts = k # v \<longrightarrow> P (ttype k)) \<and> p ts = Inr (r, u) \<longrightarrow> (\<exists>w. ts = w @ u \<and> X r w))"

text \<open>A loop extends what stands to its left.\<close>

definition extends :: "nonterm \<Rightarrow> ast_node \<Rightarrow> ast_node \<Rightarrow> token list \<Rightarrow> bool" where
  "extends X left r w \<longleftrightarrow> (\<forall>v. derives X left v \<longrightarrow> derives X r (v @ w))"

definition more_vals :: "ast_node list \<Rightarrow> token list \<Rightarrow> bool" where
  "more_vals xs w \<longleftrightarrow> (\<forall>x v. derives Or_expr x v \<longrightarrow> vals (x # xs) (v @ w))"

definition val_list :: "ast_node \<Rightarrow> token list \<Rightarrow> bool" where
  "val_list a w \<longleftrightarrow> (\<exists>x xs. a = chain x xs \<and> vals (x # xs) w)"

lemma sound_fail: "sound P X (fail e)"
  by (simp add: sound_def fail_Inr)

lemma sound_yield: "X x [] \<Longrightarrow> sound P X (yield x)"
  by (simp add: sound_def yield_Inr)

lemma sound_peek: "(\<And>t. P t \<Longrightarrow> sound (\<lambda>u. u = t) X (f t)) \<Longrightarrow> sound P X (andThen p_peek f)"
  unfolding sound_def andThen_Inr peek_Inr by (metis list.inject)

lemma sound_advance: "(\<And>x. P (ttype x) \<Longrightarrow> sound any_token (\<lambda>r w. X r (x # w)) (f x)) \<Longrightarrow> sound P X (andThen p_advance f)"
  unfolding sound_def andThen_Inr advance_Inr by (metis append_Cons)

lemma sound_expect: "(\<And>x. ttype x = ty \<Longrightarrow> sound any_token (\<lambda>r w. X r (x # w)) (f x)) \<Longrightarrow> sound P X (andThen (p_expect ty) f)"
  unfolding sound_def andThen_Inr expect_Inr by (metis append_Cons)

lemma sound_bind:
  assumes "sound any_token Y p" "\<And>x v. Y x v \<Longrightarrow> sound any_token (\<lambda>r w. X r (v @ w)) (f x)"
  shows "sound P X (andThen p f)"
  using assms unfolding sound_def andThen_Inr by (metis append_assoc)

lemma sound_weaken: "sound any_token Y p \<Longrightarrow> (\<And>r w. Y r w \<Longrightarrow> X r w) \<Longrightarrow> sound P X p"
  unfolding sound_def by blast

lemma sound_if: "(b \<Longrightarrow> sound P X p) \<Longrightarrow> (\<not> b \<Longrightarrow> sound P X q) \<Longrightarrow> sound P X (if b then p else q)"
  by simp

definition sound_at :: "nat \<Rightarrow> bool" where
  "sound_at n \<longleftrightarrow>
     sound any_token (derives Primary) (p_primary n) \<and> sound any_token (derives Unary) (p_unary n) \<and>
     sound any_token (derives Multiplicative) (p_mult n) \<and> (\<forall>a. sound any_token (extends Multiplicative a) (mult_loop n a)) \<and>
     sound any_token (derives Additive) (p_add n) \<and> (\<forall>a. sound any_token (extends Additive a) (add_loop n a)) \<and>
     sound any_token (derives Comparison) (p_cmp n) \<and> (\<forall>a. sound any_token (extends Comparison a) (cmp_loop n a)) \<and>
     sound any_token (derives Not_expr) (p_not n) \<and>
     sound any_token (derives And_expr) (p_and n) \<and> (\<forall>a. sound any_token (extends And_expr a) (and_loop n a)) \<and>
     sound any_token (derives Or_expr) (p_or n) \<and> (\<forall>a. sound any_token (extends Or_expr a) (or_loop n a)) \<and>
     sound any_token (derives Or_expr) (p_expr n) \<and> sound any_token val_list (p_valList n) \<and> sound any_token more_vals (val_loop n)"

lemma extends_refl: "extends X a a []"
  by (simp add: extends_def)

lemma extends_step: "extends X b r w \<Longrightarrow> (\<And>v. derives X a v \<Longrightarrow> derives X b (v @ u)) \<Longrightarrow> extends X a r (u @ w)"
  unfolding extends_def by (metis append_assoc)

text \<open>What comes after the tokens \<open>u\<close> that extend \<open>a\<close> to \<open>b\<close>.\<close>

lemma sound_extends:
  assumes "sound any_token (extends X b) p" "\<And>v. derives X a v \<Longrightarrow> derives X b (v @ u)" "\<And>w. g w = u @ w"
  shows "sound P (\<lambda>r w. extends X a r (g w)) p"
  by (rule sound_weaken [OF assms(1)]) (simp add: assms(3) extends_step [OF _ assms(2)])

lemma sound_Suc:
  assumes "sound_at n" shows "sound_at (Suc n)"
proof -
  note ih = assms [unfolded sound_at_def]
  have subs: "sound any_token (derives Primary) (p_primary n)" "sound any_token (derives Unary) (p_unary n)"
     "sound any_token (derives Multiplicative) (p_mult n)" "sound any_token (extends Multiplicative a) (mult_loop n a)"
     "sound any_token (derives Additive) (p_add n)" "sound any_token (extends Additive a) (add_loop n a)"
     "sound any_token (derives Comparison) (p_cmp n)" "sound any_token (extends Comparison a) (cmp_loop n a)"
     "sound any_token (derives Not_expr) (p_not n)"
     "sound any_token (derives And_expr) (p_and n)" "sound any_token (extends And_expr a) (and_loop n a)"
     "sound any_token (derives Or_expr) (p_or n)" "sound any_token (extends Or_expr a) (or_loop n a)"
     "sound any_token (derives Or_expr) (p_expr n)" "sound any_token val_list (p_valList n)" "sound any_token more_vals (val_loop n)" for a
    using ih by simp_all
  note steps = sound_if sound_peek sound_advance sound_expect
  have primary: "sound any_token (derives Primary) (p_primary (Suc n))"
    unfolding parser_unfold Let_def
    by (intro steps | rule sound_yield sound_fail sound_bind subs | auto simp: val_list_def intro: derives_vals.intros)+
  have unary: "sound any_token (derives Unary) (p_unary (Suc n))"
    unfolding parser_unfold
    by (intro steps | rule sound_yield sound_bind subs sound_weaken [OF subs(1)] | auto intro: derives_vals.intros)+
  have nt: "sound any_token (derives Not_expr) (p_not (Suc n))"
    unfolding parser_unfold
    by (intro steps | rule sound_yield sound_bind subs sound_weaken [OF subs(7)] | auto intro: derives_vals.intros)+
  have level: "sound any_token (derives X) (andThen p loop)"
    if "sound any_token (derives Y) p" "\<And>a. sound any_token (extends X a) (loop a)" "\<And>a w. derives Y a w \<Longrightarrow> derives X a w" for X Y p loop
    by (rule sound_bind [OF that(1)], rule sound_weaken [OF that(2)]) (use that(3) in \<open>simp add: extends_def\<close>)
  have mult: "sound any_token (extends Multiplicative a) (mult_loop (Suc n) a)" for a
    unfolding parser_unfold
    apply (intro steps)
    subgoal for t x by (rule sound_bind [OF subs(2)], rule sound_extends [OF subs(4), where u = "x # _"]) (auto intro: d_mult)
    by (rule sound_yield, rule extends_refl)
  have add: "sound any_token (extends Additive a) (add_loop (Suc n) a)" for a
    unfolding parser_unfold
    apply (intro steps)
    subgoal for t x by (rule sound_bind [OF subs(3)], rule sound_extends [OF subs(6), where u = "x # _"]) (auto intro: d_add)
    by (rule sound_yield, rule extends_refl)
  have andl: "sound any_token (extends And_expr a) (and_loop (Suc n) a)" for a
    unfolding parser_unfold
    apply (intro steps)
    subgoal for t x by (rule sound_bind [OF subs(9)], rule sound_extends [OF subs(11), where u = "x # _"]) (auto intro: d_and)
    by (rule sound_yield, rule extends_refl)
  have orl: "sound any_token (extends Or_expr a) (or_loop (Suc n) a)" for a
    unfolding parser_unfold
    apply (intro steps)
    subgoal for t x by (rule sound_bind [OF subs(10)], rule sound_extends [OF subs(13), where u = "x # _"]) (auto intro: d_or)
    by (rule sound_yield, rule extends_refl)
  have cmp: "sound any_token (extends Comparison a) (cmp_loop (Suc n) a)" for a
    unfolding parser_unfold Let_def
    apply (intro steps)
    subgoal for t x by (rule sound_bind [OF subs(5)], rule sound_extends [OF subs(8), where u = "x # _"]) (auto intro: d_compare)
    subgoal for t x t' y z by (rule sound_extends [OF subs(8), where u = "[x, y, z]"]) (auto intro: d_is_not_null)
    subgoal for t x t' y by (rule sound_extends [OF subs(8), where u = "[x, y]"]) (auto intro: d_is_null)
    subgoal for t x
      apply (rule sound_bind [OF subs(5)])
      subgoal for b w
        apply (intro steps, rule sound_bind [OF subs(5)])
        subgoal for m c u by (rule sound_extends [OF subs(8), where u = "x # w @ m # u"]) (auto intro: d_between)
        done
      done
    subgoal for t x y
      apply (rule sound_bind [OF subs(15)], intro steps)
      subgoal for b w z by (rule sound_extends [OF subs(8), where u = "x # y # w @ [z]"]) (auto simp: val_list_def intro: d_in)
      done
    subgoal for t x y z
      apply (rule sound_bind [OF subs(15)], intro steps)
      subgoal for b w q by (rule sound_extends [OF subs(8), where u = "x # y # z # w @ [q]"]) (auto simp: val_list_def intro: d_not_in)
      done
    by (rule sound_yield, rule extends_refl)
  have vl: "sound any_token more_vals (val_loop (Suc n))"
    unfolding parser_unfold
    apply (intro steps)
    subgoal for t c
      apply (rule sound_bind [OF subs(14)], rule sound_bind [OF subs(16)], rule sound_yield)
      apply (auto simp: more_vals_def intro: v_more)
      done
    by (rule sound_yield) (auto simp: more_vals_def intro: v_one)
  have lst: "sound any_token val_list (p_valList (Suc n))"
    unfolding parser_unfold
    apply (rule sound_bind [OF subs(14)], rule sound_bind [OF subs(16)], rule sound_yield)
    apply (auto simp: val_list_def more_vals_def)
    done
  have lv: "sound any_token (derives Multiplicative) (p_mult (Suc n))" "sound any_token (derives Additive) (p_add (Suc n))"
    "sound any_token (derives Comparison) (p_cmp (Suc n))" "sound any_token (derives And_expr) (p_and (Suc n))"
    "sound any_token (derives Or_expr) (p_or (Suc n))" "sound any_token (derives Or_expr) (p_expr (Suc n))"
    unfolding parser_unfold
    by (rule level subs | erule derives_vals.intros)+
  show ?thesis
    unfolding sound_at_def using primary unary nt mult add andl orl cmp vl lst lv by blast
qed

lemma sound_all: "sound_at n"
proof (induction n)
  case 0
  show ?case by (simp add: sound_at_def sound_fail)
qed (rule sound_Suc)

section \<open>What is derived the parser accepts\<close>

text \<open>With all but finitely many amounts of fuel.\<close>

definition runs :: "(nat \<Rightarrow> 'a parse) \<Rightarrow> token list \<Rightarrow> 'a \<Rightarrow> token list \<Rightarrow> bool" where
  "runs p ts r u \<longleftrightarrow> eventually (\<lambda>n. p n ts = Inr (r, u)) sequentially"

lemma runs_Suc: "runs (\<lambda>n. p (Suc n)) ts r u \<Longrightarrow> runs p ts r u"
  unfolding runs_def by (simp only: eventually_sequentially_Suc [of "\<lambda>n. p n ts = Inr (r, u)"])

lemma runs_yield: "runs (\<lambda>n. yield x) ts x ts"
  by (simp add: runs_def yield_def)

lemma runs_bind:
  assumes "runs p ts x v" "runs (\<lambda>n. f n x) v r u" shows "runs (\<lambda>n. andThen (p n) (f n)) ts r u"
  using assms unfolding runs_def by eventually_elim (simp add: andThen_def)

lemma runs_peek: "runs (\<lambda>n. f n (ttype t)) (t # v) r u \<Longrightarrow> runs (\<lambda>n. andThen p_peek (f n)) (t # v) r u"
  by (simp add: runs_def andThen_def p_peek_def)

lemma runs_advance: "runs (\<lambda>n. f n t) v r u \<Longrightarrow> runs (\<lambda>n. andThen p_advance (f n)) (t # v) r u"
  by (simp add: runs_def andThen_def p_advance_def)

lemma runs_expect: "ttype t = ty \<Longrightarrow> runs (\<lambda>n. f n t) v r u \<Longrightarrow> runs (\<lambda>n. andThen (p_expect ty) (f n)) (t # v) r u"
  by (simp add: runs_def andThen_def p_expect_def)

text \<open>The tokens that do not continue what a nonterminal has derived.\<close>

fun level :: "nonterm \<Rightarrow> nat" where
  "level Primary = 0" | "level Unary = 0" | "level Multiplicative = 1" | "level Additive = 2" | "level Comparison = 3"
| "level Not_expr = 3" | "level And_expr = 4" | "level Or_expr = 5"

definition stop :: "nonterm \<Rightarrow> token_type \<Rightarrow> bool" where
  "stop X t \<longleftrightarrow> t \<noteq> TOKEN_LEFT_PAREN \<and>
     (1 \<le> level X \<longrightarrow> t \<noteq> TOKEN_STAR \<and> t \<noteq> TOKEN_SLASH) \<and>
     (2 \<le> level X \<longrightarrow> t \<noteq> TOKEN_PLUS \<and> t \<noteq> TOKEN_MINUS) \<and>
     (3 \<le> level X \<longrightarrow> \<not> is_comparison t \<and> t \<noteq> TOKEN_IS \<and> t \<noteq> TOKEN_BETWEEN \<and> t \<noteq> TOKEN_IN \<and> t \<noteq> TOKEN_NOT) \<and>
     (4 \<le> level X \<longrightarrow> t \<noteq> TOKEN_AND) \<and> (5 \<le> level X \<longrightarrow> t \<noteq> TOKEN_OR)"

lemma stop_additive: "stop Additive TOKEN_AND"
  by (simp add: stop_def is_comparison_def)

lemma stop_weaken: "stop X t \<Longrightarrow> level Y \<le> level X \<Longrightarrow> stop Y t"
  unfolding stop_def by auto

definition accepted :: "(nat \<Rightarrow> ast_node parse) \<Rightarrow> nonterm \<Rightarrow> ast_node \<Rightarrow> token list \<Rightarrow> bool" where
  "accepted p X a w \<longleftrightarrow> (\<forall>t v. stop X (ttype t) \<longrightarrow> runs p (w @ t # v) a (t # v))"

text \<open>At a level with a loop: the tokens are taken and the loop goes on with their tree.\<close>

definition reaches :: "(nat \<Rightarrow> ast_node parse) \<Rightarrow> (nat \<Rightarrow> ast_node \<Rightarrow> ast_node parse) \<Rightarrow> nonterm \<Rightarrow> ast_node \<Rightarrow> token list \<Rightarrow> bool" where
  "reaches p loop X a w \<longleftrightarrow>
     (\<forall>t v b u. stop X (ttype t) \<longrightarrow> runs (\<lambda>n. loop n a) (t # v) b u \<longrightarrow> runs p (w @ t # v) b u)"

fun takes :: "nonterm \<Rightarrow> ast_node \<Rightarrow> token list \<Rightarrow> bool" where
  "takes Primary a w = accepted p_primary Primary a w"
| "takes Unary a w = accepted p_unary Unary a w"
| "takes Multiplicative a w = reaches p_mult mult_loop Unary a w"
| "takes Additive a w = reaches p_add add_loop Multiplicative a w"
| "takes Comparison a w = reaches p_cmp cmp_loop Additive a w"
| "takes Not_expr a w = accepted p_not Not_expr a w"
| "takes And_expr a w = reaches p_and and_loop Not_expr a w"
| "takes Or_expr a w = reaches p_or or_loop And_expr a w"

definition p_items :: "nat \<Rightarrow> ast_node list parse" where
  "p_items n = andThen (p_expr n) (\<lambda>x. andThen (val_loop n) (\<lambda>xs. yield (x # xs)))"

definition takes_vals :: "ast_node list \<Rightarrow> token list \<Rightarrow> bool" where
  "takes_vals xs w \<longleftrightarrow> (\<forall>t v. stop Or_expr (ttype t) \<longrightarrow> ttype t \<noteq> TOKEN_COMMA \<longrightarrow> runs p_items (w @ t # v) xs (t # v))"

lemma acceptedD: "accepted p X a w \<Longrightarrow> stop X (ttype t) \<Longrightarrow> runs p (w @ t # v) a (t # v)"
  by (simp add: accepted_def)

lemma reachesD: "reaches p loop X a w \<Longrightarrow> stop X (ttype t) \<Longrightarrow> runs (\<lambda>n. loop n a) (t # v) b u \<Longrightarrow> runs p (w @ t # v) b u"
  by (simp add: reaches_def)

text \<open>Before a token that does not continue the level, its loop ends.\<close>

lemma loops_stop:
  "stop Multiplicative (ttype t) \<Longrightarrow> runs (\<lambda>n. mult_loop n a) (t # v) a (t # v)"
  "stop Additive (ttype t) \<Longrightarrow> runs (\<lambda>n. add_loop n a) (t # v) a (t # v)"
  "stop Comparison (ttype t) \<Longrightarrow> runs (\<lambda>n. cmp_loop n a) (t # v) a (t # v)"
  "stop And_expr (ttype t) \<Longrightarrow> runs (\<lambda>n. and_loop n a) (t # v) a (t # v)"
  "stop Or_expr (ttype t) \<Longrightarrow> runs (\<lambda>n. or_loop n a) (t # v) a (t # v)"
  by (rule runs_Suc, unfold parser_unfold, rule runs_peek, simp add: runs_yield stop_def)+

lemma level_accepted:
  "takes Multiplicative a w \<Longrightarrow> accepted p_mult Multiplicative a w"
  "takes Additive a w \<Longrightarrow> accepted p_add Additive a w"
  "takes Comparison a w \<Longrightarrow> accepted p_cmp Comparison a w"
  "takes And_expr a w \<Longrightarrow> accepted p_and And_expr a w"
  "takes Or_expr a w \<Longrightarrow> accepted p_or Or_expr a w"
  by (auto simp: accepted_def stop_weaken intro!: reachesD loops_stop)

lemma expr_accepted: "takes Or_expr a w \<Longrightarrow> accepted p_expr Or_expr a w"
  using level_accepted(5) [of a w] unfolding accepted_def
  by (intro allI impI, intro runs_Suc [of p_expr], unfold parser_unfold) blast

text \<open>Entering a level: the sub-parser, then the loop.\<close>

lemma enter_level:
  assumes "accepted q Y a w" "\<And>t. stop X t \<Longrightarrow> stop Y t" "\<And>n. p (Suc n) = andThen (q n) (loop n)"
  shows "reaches p loop X a w"
  unfolding reaches_def
proof (intro allI impI)
  fix t v b u
  assume t: "stop X (ttype t)" and l: "runs (\<lambda>n. loop n a) (t # v) b u"
  have "runs (\<lambda>n. andThen (q n) (loop n)) (w @ t # v) b u"
    by (rule runs_bind, rule acceptedD [OF assms(1) assms(2) [OF t]], rule l)
  then show "runs p (w @ t # v) b u" by (intro runs_Suc [of p]) (simp only: assms(3))
qed

lemma items_list: "runs p_items ts (x # xs) v \<Longrightarrow> runs p_valList ts (chain x xs) v"
proof (rule runs_Suc)
  assume "runs p_items ts (x # xs) v"
  then show "runs (\<lambda>n. p_valList (Suc n)) ts (chain x xs) v"
    unfolding runs_def p_items_def parser_unfold
    by eventually_elim (auto simp: andThen_def yield_def split: sum.splits)
qed

text \<open>One step of a loop: an operator, an operand, and the loop with the new tree.\<close>

lemma loop_step:
  assumes "reaches p loop X a v" "stop X (ttype t)" "accepted q Y b w" "stop Y (ttype k)"
    "\<And>n. loop (Suc n) a = andThen p_peek (f n)"
    "\<And>n. f n (ttype t) = andThen p_advance (\<lambda>tok. andThen (q n) (\<lambda>c. loop n (binary ty tok a c)))"
    "runs (\<lambda>n. loop n (binary ty t a b)) (k # r) c u"
  shows "runs p ((v @ t # w) @ k # r) c u"
proof -
  have "runs (\<lambda>n. loop n a) (t # w @ k # r) c u"
  proof (rule runs_Suc)
    have "runs (\<lambda>n. andThen (q n) (\<lambda>c. loop n (binary ty t a c))) (w @ k # r) c u"
      by (rule runs_bind, rule acceptedD [OF assms(3,4)], rule assms(7))
    then have "runs (\<lambda>n. f n (ttype t)) (t # w @ k # r) c u" unfolding assms(6) by (rule runs_advance)
    then show "runs (\<lambda>n. loop (Suc n) a) (t # w @ k # r) c u" unfolding assms(5) by (rule runs_peek)
  qed
  with reachesD [OF assms(1,2)] show ?thesis by simp
qed

lemma takes_list:
  assumes "takes_vals (x # xs) w" "ttype r = TOKEN_RIGHT_PAREN"
  shows "runs p_valList (w @ r # v) (chain x xs) (r # v)"
  using assms by (intro items_list) (auto simp: takes_vals_def stop_def is_comparison_def)

lemma vals_nonempty: "vals xs w \<Longrightarrow> \<exists>x ys. xs = x # ys"
  by (erule vals.cases) auto

text \<open>The first tokens of what a nonterminal derives.\<close>

definition starts :: "nonterm \<Rightarrow> token_type \<Rightarrow> bool" where
  "starts X t \<longleftrightarrow> t \<in> {TOKEN_NUMBER, TOKEN_STRING, TOKEN_NULL, TOKEN_IDENTIFIER, TOKEN_STAR, TOKEN_LEFT_PAREN} \<or>
     X \<noteq> Primary \<and> t = TOKEN_MINUS \<or> X \<in> {Not_expr, And_expr, Or_expr} \<and> t = TOKEN_NOT"

lemma starts_leaf: "t \<in> {TOKEN_NUMBER, TOKEN_STRING, TOKEN_NULL, TOKEN_IDENTIFIER, TOKEN_STAR} \<Longrightarrow> starts X t"
  unfolding starts_def by blast

lemma starts_token:
  "starts Primary TOKEN_IDENTIFIER" "starts Primary TOKEN_LEFT_PAREN" "starts Unary TOKEN_MINUS" "starts Not_expr TOKEN_NOT"
  by (simp_all (no_asm) add: starts_def)

lemma starts_up:
  "starts Primary t \<Longrightarrow> starts Unary t" "starts Unary t \<Longrightarrow> starts Multiplicative t" "starts Multiplicative t \<Longrightarrow> starts Additive t"
  "starts Additive t \<Longrightarrow> starts Comparison t" "starts Comparison t \<Longrightarrow> starts Not_expr t" "starts Not_expr t \<Longrightarrow> starts And_expr t"
  "starts And_expr t \<Longrightarrow> starts Or_expr t"
  unfolding starts_def by blast+

lemma derives_start:
  "derives X a w \<Longrightarrow> \<exists>t u. w = t # u \<and> starts X (ttype t)"
  "vals xs w \<Longrightarrow> \<exists>t u. w = t # u \<and> starts Or_expr (ttype t)"
  by (induction rule: derives_vals.inducts) (auto intro: starts_leaf starts_up simp: starts_token simp del: insert_iff)

lemma derives_takes:
  "derives X a w \<Longrightarrow> takes X a w"
  "vals xs w \<Longrightarrow> takes_vals xs w"
proof (induction rule: derives_vals.inducts)
  case (d_leaf t)
  show ?case
    unfolding takes.simps accepted_def
  proof (intro allI impI)
    fix k :: token and v assume "stop Primary (ttype k)"
    with d_leaf show "runs p_primary ([t] @ k # v) (leaf t) (k # v)"
      by (intro runs_Suc [of p_primary], unfold parser_unfold) (auto intro!: runs_peek runs_advance runs_yield simp: stop_def Let_def)
  qed
next
  case (d_call0 f l r)
  show ?case
    unfolding takes.simps accepted_def
  proof (intro allI impI)
    fix k :: token and v
    show "runs p_primary ([f, l, r] @ k # v) (set_flag FLAG_FUNCTION_CALL (leaf f)) (k # v)"
      using d_call0 by (intro runs_Suc [of p_primary], unfold parser_unfold) (auto intro!: runs_peek runs_advance runs_expect runs_yield simp: Let_def)
  qed
next
  case (d_call f l x xs w r)
  obtain h u where h: "w = h # u" "starts Or_expr (ttype h)" using derives_start(2) [OF d_call.hyps(3)] by blast
  show ?case
    unfolding takes.simps accepted_def
  proof (intro allI impI)
    fix k :: token and v
    have args: "runs p_valList (h # u @ r # k # v) (chain x xs) (r # k # v)"
      using takes_list [OF d_call.IH d_call.hyps(4), of "k # v"] by (simp add: h)
    show "runs p_primary ((f # l # w @ [r]) @ k # v) (set_child 0 (chain x xs) (set_flag FLAG_FUNCTION_CALL (leaf f))) (k # v)"
      using d_call.hyps(1,2,4) h by (intro runs_Suc [of p_primary], unfold parser_unfold)
        (auto intro!: runs_peek runs_advance runs_bind [OF args] runs_expect runs_yield simp: Let_def starts_def)
  qed
next
  case (d_paren l a w r)
  show ?case
    unfolding takes.simps accepted_def
  proof (intro allI impI)
    fix k :: token and v
    have e: "runs p_expr (w @ r # k # v) a (r # k # v)"
      using expr_accepted [OF d_paren.IH] d_paren.hyps(3) by (intro acceptedD) (simp_all add: stop_def is_comparison_def)
    show "runs p_primary ((l # w @ [r]) @ k # v) a (k # v)"
      using d_paren.hyps(1,3) by (intro runs_Suc [of p_primary], unfold parser_unfold)
        (auto intro!: runs_peek runs_advance runs_bind [OF e] runs_expect runs_yield)
  qed
next
  case (d_primary a w)
  obtain h u where h: "w = h # u" "starts Primary (ttype h)" using derives_start(1) [OF d_primary.hyps] by blast
  show ?case
    unfolding takes.simps accepted_def
  proof (intro allI impI)
    fix k :: token and v assume "stop Unary (ttype k)"
    then have "runs p_primary (w @ k # v) a (k # v)" using d_primary.IH by (auto intro!: acceptedD simp: stop_def)
    with h show "runs p_unary (w @ k # v) a (k # v)"
      by (intro runs_Suc [of p_unary], unfold parser_unfold) (auto intro!: runs_peek simp: starts_def)
  qed
next
  case (d_minus m a w)
  show ?case
    unfolding takes.simps accepted_def
  proof (intro allI impI)
    fix k :: token and v assume "stop Unary (ttype k)"
    then have c: "runs p_unary (w @ k # v) a (k # v)" using d_minus.IH by (auto intro!: acceptedD)
    show "runs p_unary ((m # w) @ k # v) (unary_node TYPE_UNARY m a) (k # v)"
      using d_minus.hyps(1) by (intro runs_Suc [of p_unary], unfold parser_unfold) (auto intro!: runs_peek runs_advance runs_bind [OF c] runs_yield)
  qed
next
  case (d_unary a w)
  then show ?case unfolding takes.simps by (intro enter_level [where q = p_unary and Y = Unary]) (simp_all add: p_mult.simps)
next
  case (d_mult a v t b w)
  show ?case
    unfolding takes.simps reaches_def
  proof (intro allI impI)
    fix k :: token and r c u assume "stop Unary (ttype k)" "runs (\<lambda>n. mult_loop n (binary TYPE_MULTIPLICATIVE t a b)) (k # r) c u"
    with d_mult show "runs p_mult ((v @ t # w) @ k # r) c u"
      by (intro loop_step [where loop = mult_loop and X = Unary and q = p_unary and Y = Unary and ty = TYPE_MULTIPLICATIVE, OF _ _ _ _ mult_loop.simps(2)])
        (auto simp: stop_def)
  qed
next
  case (d_multiplicative a w)
  then show ?case
    unfolding takes.simps(4) by (intro enter_level [where q = p_mult and Y = Multiplicative] level_accepted) (simp_all add: p_add.simps)
next
  case (d_add a v t b w)
  show ?case
    unfolding takes.simps reaches_def
  proof (intro allI impI)
    fix k :: token and r c u assume "stop Multiplicative (ttype k)" "runs (\<lambda>n. add_loop n (binary TYPE_ADDITIVE t a b)) (k # r) c u"
    with d_add level_accepted(1) [of b w] show "runs p_add ((v @ t # w) @ k # r) c u"
      by (intro loop_step [where loop = add_loop and X = Multiplicative and q = p_mult and Y = Multiplicative and ty = TYPE_ADDITIVE, OF _ _ _ _ add_loop.simps(2)])
        (auto simp: stop_def)
  qed
next
  case (d_additive a w)
  then show ?case
    unfolding takes.simps(5) by (intro enter_level [where q = p_add and Y = Additive] level_accepted) (simp_all add: p_cmp.simps)
next
  case (d_compare a v t b w)
  show ?case
    unfolding takes.simps reaches_def
  proof (intro allI impI)
    fix k :: token and r c u assume "stop Additive (ttype k)" "runs (\<lambda>n. cmp_loop n (binary TYPE_COMPARISON t a b)) (k # r) c u"
    with d_compare level_accepted(2) [of b w] show "runs p_cmp ((v @ t # w) @ k # r) c u"
      by (intro loop_step [where loop = cmp_loop and X = Additive and q = p_add and Y = Additive and ty = TYPE_COMPARISON, OF _ _ _ _ cmp_loop.simps(2)])
        (auto simp: stop_def is_comparison_def)
  qed
next
  case (d_is_null a v t l)
  show ?case
    unfolding takes.simps reaches_def
  proof (intro allI impI)
    fix k :: token and r c u assume "runs (\<lambda>n. cmp_loop n (unary_node TYPE_COMPARISON t a)) (k # r) c u"
    with d_is_null have "runs (\<lambda>n. cmp_loop n a) (t # l # k # r) c u"
      by (intro runs_Suc [of "\<lambda>n. cmp_loop n a"], unfold parser_unfold Let_def)
        (auto intro!: runs_peek runs_advance runs_expect simp: is_comparison_def)
    with reachesD [of p_cmp cmp_loop Additive a v t] d_is_null show "runs p_cmp ((v @ [t, l]) @ k # r) c u"
      by (simp add: stop_def is_comparison_def)
  qed
next
  case (d_is_not_null a v t m l)
  show ?case
    unfolding takes.simps reaches_def
  proof (intro allI impI)
    fix k :: token and r c u
    assume "runs (\<lambda>n. cmp_loop n (set_flag FLAG_IS_NOT_NULL (unary_node TYPE_COMPARISON t a))) (k # r) c u"
    with d_is_not_null have "runs (\<lambda>n. cmp_loop n a) (t # m # l # k # r) c u"
      by (intro runs_Suc [of "\<lambda>n. cmp_loop n a"], unfold parser_unfold Let_def)
        (auto intro!: runs_peek runs_advance runs_expect simp: is_comparison_def)
    with reachesD [of p_cmp cmp_loop Additive a v t] d_is_not_null show "runs p_cmp ((v @ [t, m, l]) @ k # r) c u"
      by (simp add: stop_def is_comparison_def)
  qed
next
  case (d_between a v t b w m c x)
  show ?case
    unfolding takes.simps reaches_def
  proof (intro allI impI)
    fix k :: token and r d u assume k: "stop Additive (ttype k)"
      and l: "runs (\<lambda>n. cmp_loop n (set_child 2 c (binary TYPE_COMPARISON t a b))) (k # r) d u"
    have lo: "runs p_add (w @ m # x @ k # r) b (m # x @ k # r)"
      using level_accepted(2) [OF d_between.IH(2)] d_between.hyps(4) stop_additive by (intro acceptedD) simp_all
    have hi: "runs p_add (x @ k # r) c (k # r)" using level_accepted(2) [OF d_between.IH(3)] k by (intro acceptedD)
    have "runs (\<lambda>n. cmp_loop n a) (t # w @ m # x @ k # r) d u"
      using d_between.hyps(2,4) l by (intro runs_Suc [of "\<lambda>n. cmp_loop n a"], unfold parser_unfold Let_def)
        (auto intro!: runs_peek runs_advance runs_bind [OF lo] runs_expect runs_bind [OF hi] simp: is_comparison_def)
    with reachesD [of p_cmp cmp_loop Additive a v t] d_between.IH(1) d_between.hyps(2) show "runs p_cmp ((v @ t # w @ m # x) @ k # r) d u"
      by (simp add: stop_def is_comparison_def)
  qed
next
  case (d_in a v t l x xs w r)
  show ?case
    unfolding takes.simps reaches_def
  proof (intro allI impI)
    fix k :: token and q d u assume n: "runs (\<lambda>n. cmp_loop n (binary TYPE_COMPARISON t a (chain x xs))) (k # q) d u"
    note args = takes_list [OF d_in.IH(2) d_in.hyps(5), of "k # q"]
    have "runs (\<lambda>n. cmp_loop n a) (t # l # w @ r # k # q) d u"
      using d_in.hyps(2,3,5) n by (intro runs_Suc [of "\<lambda>n. cmp_loop n a"], unfold parser_unfold Let_def)
        (auto intro!: runs_peek runs_advance runs_expect runs_bind [OF args] simp: is_comparison_def)
    with reachesD [of p_cmp cmp_loop Additive a v t] d_in.IH(1) d_in.hyps(2) show "runs p_cmp ((v @ t # l # w @ [r]) @ k # q) d u"
      by (simp add: stop_def is_comparison_def)
  qed
next
  case (d_not_in a v m t l x xs w r)
  show ?case
    unfolding takes.simps reaches_def
  proof (intro allI impI)
    fix k :: token and q d u
    assume n: "runs (\<lambda>n. cmp_loop n (set_flag FLAG_NOT_IN (binary TYPE_COMPARISON t a (chain x xs)))) (k # q) d u"
    note args = takes_list [OF d_not_in.IH(2) d_not_in.hyps(6), of "k # q"]
    have "runs (\<lambda>n. cmp_loop n a) (m # t # l # w @ r # k # q) d u"
      using d_not_in.hyps(2,3,4,6) n by (intro runs_Suc [of "\<lambda>n. cmp_loop n a"], unfold parser_unfold Let_def)
        (auto intro!: runs_peek runs_advance runs_expect runs_bind [OF args] simp: is_comparison_def)
    with reachesD [of p_cmp cmp_loop Additive a v m] d_not_in.IH(1) d_not_in.hyps(2) show "runs p_cmp ((v @ m # t # l # w @ [r]) @ k # q) d u"
      by (simp add: stop_def is_comparison_def)
  qed
next
  case (d_comparison a w)
  obtain h u where h: "w = h # u" "starts Comparison (ttype h)" using derives_start(1) [OF d_comparison.hyps] by blast
  show ?case
    unfolding takes.simps accepted_def
  proof (intro allI impI)
    fix k :: token and v assume "stop Not_expr (ttype k)"
    then have "runs p_cmp (w @ k # v) a (k # v)" using level_accepted(3) [OF d_comparison.IH] by (auto intro!: acceptedD simp: stop_def)
    with h show "runs p_not (w @ k # v) a (k # v)"
      by (intro runs_Suc [of p_not], unfold parser_unfold) (auto intro!: runs_peek simp: starts_def)
  qed
next
  case (d_not m a w)
  show ?case
    unfolding takes.simps accepted_def
  proof (intro allI impI)
    fix k :: token and v assume "stop Not_expr (ttype k)"
    then have c: "runs p_not (w @ k # v) a (k # v)" using d_not.IH by (auto intro!: acceptedD)
    show "runs p_not ((m # w) @ k # v) (unary_node TYPE_NOT_EXPR m a) (k # v)"
      using d_not.hyps(1) by (intro runs_Suc [of p_not], unfold parser_unfold) (auto intro!: runs_peek runs_advance runs_bind [OF c] runs_yield)
  qed
next
  case (d_not_expr a w)
  then show ?case unfolding takes.simps by (intro enter_level [where q = p_not and Y = Not_expr]) (simp_all add: p_and.simps)
next
  case (d_and a v t b w)
  show ?case
    unfolding takes.simps reaches_def
  proof (intro allI impI)
    fix k :: token and r c u assume "stop Not_expr (ttype k)" "runs (\<lambda>n. and_loop n (binary TYPE_AND_EXPR t a b)) (k # r) c u"
    with d_and show "runs p_and ((v @ t # w) @ k # r) c u"
      by (intro loop_step [where loop = and_loop and X = Not_expr and q = p_not and Y = Not_expr and ty = TYPE_AND_EXPR, OF _ _ _ _ and_loop.simps(2)])
        (auto simp: stop_def is_comparison_def)
  qed
next
  case (d_and_expr a w)
  then show ?case
    unfolding takes.simps(8) by (intro enter_level [where q = p_and and Y = And_expr] level_accepted) (simp_all add: p_or.simps)
next
  case (d_or a v t b w)
  show ?case
    unfolding takes.simps reaches_def
  proof (intro allI impI)
    fix k :: token and r c u assume "stop And_expr (ttype k)" "runs (\<lambda>n. or_loop n (binary TYPE_OR_EXPR t a b)) (k # r) c u"
    with d_or level_accepted(4) [of b w] show "runs p_or ((v @ t # w) @ k # r) c u"
      by (intro loop_step [where loop = or_loop and X = And_expr and q = p_and and Y = And_expr and ty = TYPE_OR_EXPR, OF _ _ _ _ or_loop.simps(2)])
        (auto simp: stop_def is_comparison_def)
  qed
next
  case (v_one x w)
  show ?case
    unfolding takes_vals_def
  proof (intro allI impI)
    fix k :: token and v assume k: "stop Or_expr (ttype k)" "ttype k \<noteq> TOKEN_COMMA"
    have e: "runs p_expr (w @ k # v) x (k # v)" using expr_accepted [OF v_one.IH] k(1) by (rule acceptedD)
    have "runs val_loop (k # v) [] (k # v)"
      using k(2) by (intro runs_Suc [of val_loop], unfold parser_unfold) (auto intro!: runs_peek runs_yield)
    then show "runs p_items (w @ k # v) [x] (k # v)"
      unfolding p_items_def by - (rule runs_bind [OF e], rule runs_bind, assumption, rule runs_yield)
  qed
next
  case (v_more x v c xs w)
  show ?case
    unfolding takes_vals_def
  proof (intro allI impI)
    fix k :: token and r assume k: "stop Or_expr (ttype k)" "ttype k \<noteq> TOKEN_COMMA"
    have e: "runs p_expr (v @ c # w @ k # r) x (c # w @ k # r)"
      using expr_accepted [OF v_more.IH(1)] v_more.hyps(2) by (intro acceptedD) (simp_all add: stop_def is_comparison_def)
    have i: "runs p_items (w @ k # r) xs (k # r)" using v_more.IH(2) k by (simp add: takes_vals_def)
    have "runs val_loop (c # w @ k # r) xs (k # r)"
      using v_more.hyps(2) i [unfolded p_items_def] by (intro runs_Suc [of val_loop], unfold parser_unfold) (auto intro!: runs_peek runs_advance)
    then show "runs p_items ((v @ c # w) @ k # r) (x # xs) (k # r)"
      unfolding p_items_def append_assoc append_Cons by - (rule runs_bind [OF e], rule runs_bind, assumption, rule runs_yield)
  qed
qed

section \<open>More fuel changes nothing\<close>

definition refines :: "'a parse \<Rightarrow> 'a parse \<Rightarrow> bool" where
  "refines p q \<longleftrightarrow> (\<forall>ts. p ts \<noteq> Inl NoFuel \<longrightarrow> q ts = p ts)"

lemma refines_refl: "refines p p"
  by (simp add: refines_def)

lemma refines_no_fuel: "refines (fail NoFuel) p"
  by (simp add: refines_def fail_def)

lemma refines_trans: "refines p q \<Longrightarrow> refines q r \<Longrightarrow> refines p r"
  unfolding refines_def by metis

lemma refines_bind: "refines p q \<Longrightarrow> (\<And>x. refines (f x) (g x)) \<Longrightarrow> refines (andThen p f) (andThen q g)"
  unfolding refines_def andThen_def by (fastforce split: sum.splits)

lemma refines_if: "refines p q \<Longrightarrow> refines p' q' \<Longrightarrow> refines (if b then p else p') (if b then q else q')"
  by simp

definition refines_at :: "nat \<Rightarrow> nat \<Rightarrow> bool" where
  "refines_at n m \<longleftrightarrow>
     refines (p_primary n) (p_primary m) \<and> refines (p_unary n) (p_unary m) \<and>
     refines (p_mult n) (p_mult m) \<and> (\<forall>a. refines (mult_loop n a) (mult_loop m a)) \<and>
     refines (p_add n) (p_add m) \<and> (\<forall>a. refines (add_loop n a) (add_loop m a)) \<and>
     refines (p_cmp n) (p_cmp m) \<and> (\<forall>a. refines (cmp_loop n a) (cmp_loop m a)) \<and>
     refines (p_not n) (p_not m) \<and>
     refines (p_and n) (p_and m) \<and> (\<forall>a. refines (and_loop n a) (and_loop m a)) \<and>
     refines (p_or n) (p_or m) \<and> (\<forall>a. refines (or_loop n a) (or_loop m a)) \<and>
     refines (p_expr n) (p_expr m) \<and> refines (p_valList n) (p_valList m) \<and> refines (val_loop n) (val_loop m)"

lemma refines_at_Suc: "refines_at n m \<Longrightarrow> refines_at (Suc n) (Suc m)"
  unfolding refines_at_def parser_unfold Let_def
  by (elim conjE) (intro conjI allI refines_if refines_bind refines_refl; simp)

lemma refines_at_add: "refines_at n (n + k)"
proof (induction n)
  case 0
  show ?case by (simp add: refines_at_def refines_no_fuel)
qed (simp add: refines_at_Suc)

lemma runs_expr:
  assumes "good ts" "12 * length ts + 9 \<le> n" "runs p_expr ts a u"
  shows "p_expr n ts = Inr (a, u)"
proof -
  have "prs (length ts) any_token 1 (p_expr n)" using assms(2) by (intro prs_expr) simp_all
  then have fuel: "p_expr n ts \<noteq> Inl NoFuel" using assms(1) unfolding prs_def by (auto dest!: spec [of _ ts])
  obtain N where "\<And>m. N \<le> m \<Longrightarrow> p_expr m ts = Inr (a, u)"
    using assms(3) unfolding runs_def eventually_sequentially by blast
  moreover have "refines (p_expr n) (p_expr (n + N))" using refines_at_add [of n N] unfolding refines_at_def by blast
  ultimately show ?thesis using fuel unfolding refines_def by (metis le_add2)
qed

section \<open>Properties\<close>

lemma expr_sound: "p_expr n ts = Inr (a, u) \<Longrightarrow> \<exists>w. ts = w @ u \<and> derives Or_expr a w"
  using sound_all [of n] unfolding sound_at_def sound_def by blast

lemma expr_complete:
  assumes "good (w @ k # v)" "12 * length (w @ k # v) + 9 \<le> n" "derives Or_expr a w" "stop Or_expr (ttype k)"
  shows "p_expr n (w @ k # v) = Inr (a, k # v)"
proof -
  have "takes Or_expr a w" using assms(3) by (rule derives_takes)
  then have "runs p_expr (w @ k # v) a (k # v)" using expr_accepted acceptedD assms(4) by blast
  with assms(1,2) show ?thesis by (rule runs_expr)
qed

text \<open>C29: The expression parser is a grammar with the precedences and the left associative operators of the one in the header of
  \<open>parser.c\<close>: with the fuel \<open>compile\<close> gives it, on every array of tokens that ends with the end marker, the
  tree it returns is derived from exactly the tokens it took, and every derivation of a prefix that the next token
  does not continue is found, with the same tree. It is not the grammar of the header (\<open>header_grammar_differs\<close>): the
  parser takes \<open>NULL\<close> for an operand and calls without arguments, and \<open>IS NULL\<close> without the operand the header wants behind
  it. Of token lists without \<open>NULL\<close> and without an empty pair of parentheses, it derives exactly those the header does.\<close>

theorem expression_grammar:
  assumes "good ts" "12 * length ts + 9 \<le> n"
  shows "(\<forall>a u. p_expr n ts = Inr (a, u) \<longrightarrow> (\<exists>w. ts = w @ u \<and> derives Or_expr a w)) \<and>
    (\<forall>a w k v. ts = w @ k # v \<longrightarrow> derives Or_expr a w \<longrightarrow> stop Or_expr (ttype k) \<longrightarrow> p_expr n ts = Inr (a, k # v)) \<and>
    (\<forall>w. plain w \<longrightarrow> (\<exists>a. derives Or_expr a w) = in_header Or_expr w)"
  using expr_sound expr_complete assms derives_in_header(1) in_header_derives(1) by blast

definition ex_token :: "token_type \<Rightarrow> string \<Rightarrow> token" where
  "ex_token ty s = \<lparr>ttype = ty, ttext = s, tline = 1\<rparr>"

definition ex_minus :: "token list" where
  "ex_minus = [ex_token TOKEN_NUMBER ''1'', ex_token TOKEN_MINUS ''-'', ex_token TOKEN_NUMBER ''2'', ex_token TOKEN_MINUS ''-'',
     ex_token TOKEN_NUMBER ''3'', ex_token TOKEN_EOF []]"

theorem expression_grammar_witness:
  "\<exists>w. ex_minus = w @ [ex_token TOKEN_EOF []] \<and>
     derives Or_expr (binary TYPE_ADDITIVE (ex_token TOKEN_MINUS ''-'')
       (binary TYPE_ADDITIVE (ex_token TOKEN_MINUS ''-'') (leaf (ex_token TOKEN_NUMBER ''1'')) (leaf (ex_token TOKEN_NUMBER ''2'')))
       (leaf (ex_token TOKEN_NUMBER ''3''))) w"
proof -
  have "p_expr 81 ex_minus = Inr (binary TYPE_ADDITIVE (ex_token TOKEN_MINUS ''-'')
       (binary TYPE_ADDITIVE (ex_token TOKEN_MINUS ''-'') (leaf (ex_token TOKEN_NUMBER ''1'')) (leaf (ex_token TOKEN_NUMBER ''2'')))
       (leaf (ex_token TOKEN_NUMBER ''3'')), [ex_token TOKEN_EOF []])"
    by code_simp
  moreover have "good ex_minus" by (simp add: good_def ex_minus_def ex_token_def)
  moreover have "12 * length ex_minus + 9 \<le> 81" by (simp add: ex_minus_def)
  ultimately show ?thesis using expression_grammar [of ex_minus 81] by blast
qed

text \<open>What the comment and the code disagree on: \<open>NULL\<close>, a call \<open>f()\<close> and \<open>a IS NULL\<close> are expressions for the parser only,
  \<open>a IS NULL b\<close> for the comment only.\<close>

theorem header_grammar_differs:
  assumes "ttype c = TOKEN_NULL" "ttype f = TOKEN_IDENTIFIER" "ttype l = TOKEN_LEFT_PAREN" "ttype r = TOKEN_RIGHT_PAREN" "ttype i = TOKEN_IS"
  shows "(\<exists>a. derives Or_expr a [c]) \<and> \<not> in_header Or_expr [c]" "(\<exists>a. derives Or_expr a [f, l, r]) \<and> \<not> in_header Or_expr [f, l, r]"
    "(\<exists>a. derives Or_expr a [f, i, c]) \<and> \<not> in_header Or_expr [f, i, c]" "(\<nexists>a. derives Or_expr a [f, i, c, f]) \<and> in_header Or_expr [f, i, c, f]"
proof -
  have up: "derives X a w \<Longrightarrow> X = Primary \<or> X = Comparison \<Longrightarrow> derives Or_expr a w" for X a w
    by (blast intro: derives_vals.intros)
  have low: "in_header Primary [f]" "derives Comparison (leaf f) [f]"
    using assms(2) by (simp_all add: h_leaf d_leaf d_primary d_unary d_multiplicative d_additive)
  show "(\<exists>a. derives Or_expr a [c]) \<and> \<not> in_header Or_expr [c]" "(\<exists>a. derives Or_expr a [f, l, r]) \<and> \<not> in_header Or_expr [f, l, r]"
    using in_header_ends(1) [of Or_expr "[c]"] in_header_ends(1) [of Or_expr "[f, l, r]"] up [OF d_leaf [of c]] up [OF d_call0 [of f l r]] assms
    by (auto simp: no_pair_def)
  show "(\<exists>a. derives Or_expr a [f, i, c]) \<and> \<not> in_header Or_expr [f, i, c]"
    using in_header_ends(1) [of Or_expr "[f, i, c]"] up [OF d_is_null [OF low(2), of i c]] assms by auto
  have "in_header Comparison ([f] @ i # c # [f])"
    using low(1) assms by (intro h_is_null) (auto intro: in_header_in_list.intros)
  then have "in_header Or_expr [f, i, c, f]" by (simp add: h_comparison h_not_expr h_and_expr)
  moreover have False if "derives Or_expr a [f, i, c, f]" for a
  proof -
    let ?e = "\<lparr>ttype = TOKEN_EOF, ttext = [], tline = 1\<rparr>"
    have "p_expr 69 ([f, i, c, f] @ ?e # []) = Inr (a, ?e # [])"
      by (rule expr_complete) (use that assms in \<open>simp_all add: good_def stop_def is_comparison_def\<close>)
    moreover have "p_expr 69 ([f, i, c] @ f # [?e]) = Inr (unary_node TYPE_COMPARISON i (leaf f), f # [?e])"
      by (rule expr_complete) (use up [OF d_is_null [OF low(2), of i c]] assms in \<open>simp_all add: good_def stop_def is_comparison_def\<close>)
    ultimately show False by simp
  qed
  ultimately show "(\<nexists>a. derives Or_expr a [f, i, c, f]) \<and> in_header Or_expr [f, i, c, f]" by blast
qed

lemma lexed_good: "lexed ts \<Longrightarrow> good ts"
  by (simp add: lexed_def good_def)

lemma lexQuery_good: "good (tokens (lexQuery past source))"
  unfolding lexQuery_def by (rule lexed_good, rule conjunct1 [OF lex_loop_wf]) (simp_all add: initTokenized_def)

text \<open>C30: On every source text, \<open>compile\<close> applied to the lexer's tokens ends: it never reads behind the last token,
  and either returns or reports an unexpected token. What is left over still ends with the end marker.\<close>

theorem parser_safe:
  "case compile (tokens (lexQuery past source)) of
     Inl e \<Rightarrow> e \<noteq> PastEnd \<and> e \<noteq> NoFuel
   | Inr (x, ts') \<Rightarrow> good ts' \<and> length ts' \<le> length (tokens (lexQuery past source))"
  by (rule compile_total [OF lexQuery_good])

lemma parse_bind: "p ts = Inr (x, v) \<Longrightarrow> f x v = r \<Longrightarrow> andThen p f ts = r"
  by (simp add: andThen_def)

lemma compile_delete:
  assumes "ttype d = TOKEN_DELETE" "ttype f = TOKEN_FROM" "ttype n = TOKEN_IDENTIFIER" "ttype k \<noteq> TOKEN_WHERE"
  shows "compile (d # f # n # k # r) = Inr (Some (set_child 0 (set_child 0 (set_tok n (makeNode TYPE_IDENTIFIER)) (makeNode TYPE_DELETE_STMT))
     (makeNode TYPE_QUERY)), k # r)"
  using assms by (simp add: compile_def p_query_def deleteStmt_def p_identifier_def p_expect_def p_peek_def p_advance_def yield_def
    andThen_def Let_def)

text \<open>C31: \<open>compile\<close> does not look at what follows the statement it has read. After \<open>DELETE FROM t\<close> any token that is not
  \<open>WHERE\<close>, whatever comes behind it, leaves the tree of a delete statement without a where clause, that of every row
  of the table, and no error.\<close>

theorem trailing_tokens_ignored:
  assumes "ttype d = TOKEN_DELETE" "ttype f = TOKEN_FROM" "ttype n = TOKEN_IDENTIFIER" "ttype k \<noteq> TOKEN_WHERE"
  shows "compile (d # f # n # k # r) = Inr (Some (set_child 0 (set_child 0 (set_tok n (makeNode TYPE_IDENTIFIER)) (makeNode TYPE_DELETE_STMT))
     (makeNode TYPE_QUERY)), k # r)"
  using assms by (rule compile_delete)

definition typo_tokens :: "token list" where
  "typo_tokens = [ex_token TOKEN_DELETE ''DELETE'', ex_token TOKEN_FROM ''FROM'', ex_token TOKEN_IDENTIFIER ''t'',
     ex_token TOKEN_IDENTIFIER ''WERE'', ex_token TOKEN_IDENTIFIER ''id'', ex_token TOKEN_EQUAL ''='', ex_token TOKEN_NUMBER ''1'',
     ex_token TOKEN_EOF []]"

theorem trailing_tokens_ignored_witness:
  "compile typo_tokens =
     Inr (Some (set_child 0 (set_child 0 (set_tok (ex_token TOKEN_IDENTIFIER ''t'') (makeNode TYPE_IDENTIFIER)) (makeNode TYPE_DELETE_STMT))
       (makeNode TYPE_QUERY)), drop 3 typo_tokens)"
proof -
  have ty: "ttype (ex_token ty s) = ty" for ty s by (simp add: ex_token_def)
  show ?thesis
    unfolding typo_tokens_def drop_Suc_Cons numeral_3_eq_3 drop_0
    by (rule trailing_tokens_ignored) (simp_all add: ty)
qed

end
