(* ===== verification/Schema.thy ===== *)
theory Schema
  imports Tables
begin

text \<open>
  \<open>SQL_interpreter/schema.c\<close>: the schema of the database as a hash table from the hash of a table's name to the
  names and types of its columns, and its file.

  The table of \<open>hcapacity\<close> slots is a list; a slot whose hash is zero is empty. Probing does not end when no slot
  fits: the loop is a \<open>partial_function\<close>, and \<open>None\<close> is not returning. A remainder by zero is \<open>None\<close> too. Strings are
  the bytes before their NUL; a pointer that is NULL is the empty list. Allocation does not fail.
\<close>

section \<open>The hash table\<close>

record schema =
  colNames :: "byte list list"
  colTypes :: "byte list"
  tablename :: "byte list"
  shash :: u32
  scount :: nat

record hashtable =
  hcount :: nat
  hcapacity :: nat
  hentries :: "schema list"

definition no_schema :: schema where
  "no_schema = \<lparr>colNames = [], colTypes = [], tablename = [], shash = 0, scount = 0\<rparr>"

definition initHashTable :: hashtable where
  "initHashTable = \<lparr>hcount = 0, hcapacity = 0, hentries = []\<rparr>"

text \<open>\<open>freeHashTable\<close> ends by initialising the table again.\<close>

definition freeHashTable :: "hashtable \<Rightarrow> hashtable" where
  "freeHashTable t = initHashTable"

definition FNV1_A :: "byte list \<Rightarrow> nat \<Rightarrow> u32" where
  "FNV1_A key len = fold (\<lambda>b h. (h XOR ucast b) * 16777619) (take len key) 2166136261"

definition hashString :: "byte list \<Rightarrow> nat \<Rightarrow> u32" where
  "hashString key len = FNV1_A key len"

text \<open>The probe: the slot of the hash or the first empty one, at distances that grow by one each time.\<close>

partial_function (option) findEntry_from :: "u32 \<Rightarrow> schema list \<Rightarrow> nat \<Rightarrow> nat \<Rightarrow> nat \<Rightarrow> nat option" where
  "findEntry_from hash es capacity index step =
     (if shash (es ! index) = hash \<or> shash (es ! index) = 0 then Some index
      else findEntry_from hash es capacity (u32_add index step mod capacity) (u32_add step 1))"

declare findEntry_from.simps [code]

definition findEntry :: "u32 \<Rightarrow> schema list \<Rightarrow> nat \<Rightarrow> nat option" where
  "findEntry hash es capacity = (if capacity = 0 then None else findEntry_from hash es capacity (unat hash mod capacity) 1)"

text \<open>The entries of the old array moved to a new one, in slot order.\<close>

fun rehash :: "nat \<Rightarrow> schema list \<Rightarrow> schema list \<Rightarrow> schema list option" where
  "rehash capacity [] es = Some es"
| "rehash capacity (e # old) es =
     (if shash e = 0 then rehash capacity old es
      else (case findEntry (shash e) es capacity of
        None \<Rightarrow> None
      | Some dest \<Rightarrow> rehash capacity old (es[dest := e])))"

definition adjustCapacity :: "nat \<Rightarrow> hashtable \<Rightarrow> hashtable option" where
  "adjustCapacity capacity t =
     (case rehash capacity (hentries t) (replicate capacity no_schema) of
        None \<Rightarrow> None
      | Some es \<Rightarrow> Some (t\<lparr>hentries := es, hcapacity := capacity\<rparr>))"

text \<open>The load factor is the \<open>double\<close> nearest to 0.8. A capacity is zero or a power of two from 8 on, so its product with
  it is exact and not an integer, and the comparison with \<open>count + 1\<close> is that of the integers \<open>5 * (count + 1)\<close>
  and \<open>4 * capacity\<close>.\<close>

definition insertHT :: "schema \<Rightarrow> hashtable \<Rightarrow> hashtable option" where
  "insertHT e t =
     (case (if 5 * (hcount t + 1) > 4 * hcapacity t then adjustCapacity (GROW_CAPACITY (hcapacity t)) t else Some t) of
        None \<Rightarrow> None
      | Some t \<Rightarrow> (case findEntry (shash e) (hentries t) (hcapacity t) of
          None \<Rightarrow> None
        | Some found \<Rightarrow> Some (t\<lparr>hentries := (hentries t)[found := e], hcount := hcount t + 1\<rparr>)))"

definition readHT :: "u32 \<Rightarrow> hashtable \<Rightarrow> schema option option" where
  "readHT hash t =
     (if hcapacity t = 0 then Some None
      else (case findEntry hash (hentries t) (hcapacity t) of
        None \<Rightarrow> None
      | Some found \<Rightarrow> Some (if shash (hentries t ! found) \<noteq> 0 then Some (hentries t ! found) else None)))"

text \<open>The emptied slot is all that changes: there is no tombstone, and the count stays.\<close>

definition deleteHT :: "u32 \<Rightarrow> hashtable \<Rightarrow> hashtable option" where
  "deleteHT hash t =
     (case findEntry hash (hentries t) (hcapacity t) of
        None \<Rightarrow> None
      | Some target \<Rightarrow> Some (t\<lparr>hentries := (hentries t)[target := no_schema]\<rparr>))"

section \<open>The schema file\<close>

definition SCHEMA_MAGIC :: u32 where "SCHEMA_MAGIC = 0xFFBB8844"

text \<open>A \<open>uint32_t\<close> is written with \<open>fwrite\<close>, least significant byte first (\<open>native_bytes\<close>). A read past the end of the file leaves a variable as it was, uninitialised: such a read is \<open>None\<close>.\<close>

definition fread_bytes :: "nat \<Rightarrow> byte list \<Rightarrow> (byte list \<times> byte list) option" where
  "fread_bytes n file = (if n \<le> length file then Some (take n file, drop n file) else None)"

definition fread_u32 :: "byte list \<Rightarrow> (u32 \<times> byte list) option" where
  "fread_u32 file = map_option (\<lambda>(bs, rest). (native_word bs, rest)) (fread_bytes 4 file)"

definition c_string :: "byte list \<Rightarrow> byte list" where
  "c_string s = take (c_strlen s) s"

text \<open>A string with its length in front, as \<open>readEntries\<close> reads the names of tables and columns.\<close>

definition fread_string :: "byte list \<Rightarrow> (byte list \<times> byte list) option" where
  "fread_string file = (case fread_u32 file of
       None \<Rightarrow> None
     | Some (n, rest) \<Rightarrow> map_option (\<lambda>(bs, rest). (c_string bs, rest)) (fread_bytes (unat n) rest))"

fun read_columns :: "nat \<Rightarrow> byte list \<Rightarrow> (byte list list \<times> byte list \<times> byte list) option" where
  "read_columns 0 file = Some ([], [], file)"
| "read_columns (Suc j) file = (case fread_bytes 1 file of
       None \<Rightarrow> None
     | Some (ty, rest) \<Rightarrow> (case fread_string rest of
         None \<Rightarrow> None
       | Some (name, rest) \<Rightarrow> (case read_columns j rest of
           None \<Rightarrow> None
         | Some (names, types, rest) \<Rightarrow> Some (name # names, ty @ types, rest))))"

definition read_schema :: "byte list \<Rightarrow> (schema \<times> byte list) option" where
  "read_schema file = (case fread_u32 file of
       None \<Rightarrow> None
     | Some (hash, rest) \<Rightarrow> (case fread_string rest of
         None \<Rightarrow> None
       | Some (name, rest) \<Rightarrow> (case fread_u32 rest of
           None \<Rightarrow> None
         | Some (cols, rest) \<Rightarrow> (case read_columns (unat cols) rest of
             None \<Rightarrow> None
           | Some (names, types, rest) \<Rightarrow>
               Some (\<lparr>colNames = names, colTypes = types, tablename = name, shash = hash, scount = unat cols\<rparr>, rest)))))"

fun read_schemas :: "nat \<Rightarrow> hashtable \<Rightarrow> byte list \<Rightarrow> hashtable option" where
  "read_schemas 0 ht file = Some ht"
| "read_schemas (Suc i) ht file = (case read_schema file of
       None \<Rightarrow> None
     | Some (e, rest) \<Rightarrow> (case insertHT e ht of None \<Rightarrow> None | Some ht \<Rightarrow> read_schemas i ht rest))"

definition readEntries :: "hashtable \<Rightarrow> byte list \<Rightarrow> hashtable option" where
  "readEntries ht file = (case fread_u32 file of None \<Rightarrow> None | Some (n, rest) \<Rightarrow> read_schemas (unat n) ht rest)"

definition write_string :: "byte list \<Rightarrow> byte list" where
  "write_string s = native_bytes (of_nat (c_strlen s)) @ take (c_strlen s) s"

definition write_schema :: "schema \<Rightarrow> byte list" where
  "write_schema e =
     native_bytes (shash e) @ write_string (tablename e) @ native_bytes (of_nat (scount e)) @
     concat (map (\<lambda>j. [colTypes e ! j] @ write_string (colNames e ! j)) [0..<scount e])"

definition writeEntries :: "hashtable \<Rightarrow> byte list" where
  "writeEntries ht =
     native_bytes (of_nat (length (filter (\<lambda>e. shash e \<noteq> 0) (hentries ht)))) @
     concat (map write_schema (filter (\<lambda>e. shash e \<noteq> 0) (hentries ht)))"

text \<open>\<open>loadSchema\<close>: no file is an empty schema; a bad magic number or a file that cannot be opened is \<open>Some None\<close>.\<close>

definition loadSchema :: "bool \<Rightarrow> byte list option \<Rightarrow> hashtable option option" where
  "loadSchema opened file = (case file of
       None \<Rightarrow> Some (Some initHashTable)
     | Some bytes \<Rightarrow>
         if \<not> opened then Some None
         else (case fread_u32 bytes of
             None \<Rightarrow> None
           | Some (magic, rest) \<Rightarrow>
               if magic \<noteq> SCHEMA_MAGIC then Some None else map_option Some (readEntries initHashTable rest)))"

definition serializeSchema :: "hashtable \<Rightarrow> byte list" where
  "serializeSchema ht = native_bytes SCHEMA_MAGIC @ writeEntries ht"

section \<open>Probing reaches every slot\<close>

text \<open>The slot probed after \<open>k\<close> steps: the distances grow by one each time, so they add up to triangular numbers.\<close>

definition probe_at :: "nat \<Rightarrow> u32 \<Rightarrow> nat \<Rightarrow> nat" where
  "probe_at capacity h k = (unat h mod capacity + k * (k + 1) div 2) mod capacity"

lemma probe_at_0: "probe_at c h 0 = unat h mod c"
  by (simp add: probe_at_def)

lemma triangle_Suc: "Suc k * (Suc k + 1) div 2 = k * (k + 1) div 2 + Suc k"
proof -
  have "Suc k * (Suc k + 1) = k * (k + 1) + 2 * Suc k" by simp
  then show ?thesis by (simp only: div_mult_self2 [OF zero_neq_numeral [symmetric]])
qed

lemma probe_at_Suc: "probe_at c h (Suc k) = (probe_at c h k + Suc k) mod c"
  unfolding probe_at_def triangle_Suc by (simp only: mod_add_left_eq add.assoc)

lemma probe_at_less: "0 < c \<Longrightarrow> probe_at c h k < c"
  by (simp add: probe_at_def)

lemma triangle_even: "2 * (k * (k + 1) div 2) = k * (k + 1)" for k :: nat
  by simp

text \<open>With a power of two as capacity no slot comes twice in as many steps: the difference of two triangular numbers is half
  of the product of their roots' difference and sum, of which one is odd.\<close>

lemma probe_distinct:
  assumes "i < j" "j < 2 ^ m"
  shows "probe_at (2 ^ m) h i \<noteq> probe_at (2 ^ m) h j"
proof
  let ?a = "i * (i + 1) div 2" and ?b = "j * (j + 1) div 2"
  assume "probe_at (2 ^ m) h i = probe_at (2 ^ m) h j"
  then have "(unat h mod 2 ^ m + ?b) mod 2 ^ m = (unat h mod 2 ^ m + ?a) mod 2 ^ m" by (simp add: probe_at_def)
  moreover have le: "?a \<le> ?b" using assms(1) by (intro div_le_mono mult_le_mono) simp_all
  ultimately have "2 ^ m dvd (unat h mod 2 ^ m + ?b) - (unat h mod 2 ^ m + ?a)" by (subst mod_eq_dvd_iff_nat [symmetric]) simp_all
  then have "2 ^ m dvd ?b - ?a" by simp
  then have twice: "2 * 2 ^ m dvd 2 * (?b - ?a)" by (rule mult_dvd_mono [OF dvd_refl])
  have roots: "2 * (?b - ?a) = j * (j + 1) - i * (i + 1)" by (simp only: diff_mult_distrib2 triangle_even)
  have "j * (j + 1) - i * (i + 1) = (j - i) * (j + i + 1)"
  proof -
    obtain d where "j = i + d" using assms(1) less_imp_add_positive by blast
    then show ?thesis by (simp add: algebra_simps)
  qed
  with twice have dvd: "2 ^ Suc m dvd (j - i) * (j + i + 1)" unfolding roots power_Suc by (simp only:)
  show False
  proof (cases "even (j - i)")
    case True
    then have "odd (j + i + 1)" using assms(1) by (simp add: even_diff_nat)
    then have "coprime (2 ^ Suc m) (j + i + 1)" by (simp add: coprime_left_2_iff_odd)
    with dvd have "2 ^ Suc m dvd j - i" by (simp only: coprime_dvd_mult_left_iff)
    then have "2 ^ Suc m \<le> j - i" using assms(1) by (intro dvd_imp_le) simp_all
    then show False using assms(2) by simp
  next
    case False
    then have "coprime (2 ^ Suc m) (j - i)" by (simp add: coprime_left_2_iff_odd)
    with dvd have "2 ^ Suc m dvd j + i + 1" by (simp only: coprime_dvd_mult_right_iff)
    then have "2 ^ Suc m \<le> j + i + 1" by (intro dvd_imp_le) simp_all
    then show False using assms by simp
  qed
qed

lemma probe_all: "i < 2 ^ m \<Longrightarrow> \<exists>k < 2 ^ m. probe_at (2 ^ m) h k = i"
proof -
  assume i: "i < 2 ^ m"
  have "inj_on (probe_at (2 ^ m) h) {..<2 ^ m}"
    by (rule linorder_inj_onI') (use probe_distinct in auto)
  moreover have "probe_at (2 ^ m) h ` {..<2 ^ m} \<subseteq> {..<2 ^ m}" by (auto intro: probe_at_less)
  ultimately have "probe_at (2 ^ m) h ` {..<2 ^ m} = {..<2 ^ m}" by (intro endo_inj_surj) simp_all
  with i show ?thesis by (metis (no_types, lifting) imageE lessThan_iff)
qed

lemma findEntry_walk:
  assumes n: "shash (es ! probe_at c h n) \<in> {h, 0}" "\<forall>k < n. shash (es ! probe_at c h k) \<notin> {h, 0}"
    and c: "0 < c" "c < 2 ^ 31" "n < 2 ^ 31"
  shows "findEntry h es c = Some (probe_at c h n)"
proof -
  have "findEntry_from h es c (probe_at c h k) (k + 1) = Some (probe_at c h n)" if "k \<le> n" for k
    using that
  proof (induction k rule: inc_induct)
    case base
    show ?case using n(1) by (subst findEntry_from.simps) auto
  next
    case (step k)
    have "u32_add (probe_at c h k) (k + 1) mod c = probe_at c h (Suc k)"
      using probe_at_less [OF c(1), of h k] c step.hyps by (simp add: u32_add_def probe_at_Suc)
    moreover have "u32_add (k + 1) 1 = Suc k + 1" using c step.hyps by (simp add: u32_add_def)
    ultimately show ?case using step n(2) by (subst findEntry_from.simps) auto
  qed
  from this [of 0] show ?thesis using c by (simp add: findEntry_def probe_at_0)
qed

section \<open>The table as a map\<close>

text \<open>The schema stored under a hash, wherever in the array it is.\<close>

definition stored :: "schema list \<Rightarrow> u32 \<Rightarrow> schema option" where
  "stored es h = (if h = 0 then None else find (\<lambda>e. shash e = h) es)"

definition used :: "schema list \<Rightarrow> nat" where
  "used es = length (filter (\<lambda>e. shash e \<noteq> 0) es)"

text \<open>Every entry is found from its hash: the slots probed before it hold other entries.\<close>

definition reachable :: "nat \<Rightarrow> schema list \<Rightarrow> bool" where
  "reachable c es \<longleftrightarrow> (\<forall>i < c. shash (es ! i) \<noteq> 0 \<longrightarrow>
     (\<exists>n < c. probe_at c (shash (es ! i)) n = i \<and> (\<forall>k < n. shash (es ! probe_at c (shash (es ! i)) k) \<notin> {shash (es ! i), 0})))"

definition slots_ok :: "nat \<Rightarrow> schema list \<Rightarrow> bool" where
  "slots_ok c es \<longleftrightarrow> length es = c \<and> (\<exists>m. c = 2 ^ m) \<and> c < 2 ^ 31 \<and> reachable c es"

definition distinct_hashes :: "schema list \<Rightarrow> bool" where
  "distinct_hashes es \<longleftrightarrow> (\<forall>i < length es. \<forall>j < length es. shash (es ! i) = shash (es ! j) \<longrightarrow> shash (es ! i) \<noteq> 0 \<longrightarrow> i = j)"

lemma slots_distinct: "slots_ok c es \<Longrightarrow> distinct_hashes es"
proof -
  assume s: "slots_ok c es"
  have l: "length es = c" and re: "reachable c es" using s by (simp_all add: slots_ok_def)
  show "distinct_hashes es"
    unfolding distinct_hashes_def
  proof (intro allI impI)
    fix i j
    assume i: "i < length es" "j < length es" "shash (es ! i) = shash (es ! j)" "shash (es ! i) \<noteq> 0"
    obtain n m where n: "probe_at c (shash (es ! i)) n = i" "\<forall>k < n. shash (es ! probe_at c (shash (es ! i)) k) \<notin> {shash (es ! i), 0}"
      and m: "probe_at c (shash (es ! i)) m = j" "\<forall>k < m. shash (es ! probe_at c (shash (es ! i)) k) \<notin> {shash (es ! i), 0}"
      using re i l unfolding reachable_def by (metis (no_types, lifting))
    show "i = j"
    proof (cases n m rule: linorder_cases)
      case less
      with m(2) n(1) show ?thesis by auto
    next
      case greater
      with n(2) m(1) i(3) show ?thesis by auto
    qed (use n m in simp)
  qed
qed

lemma stored_Some: "distinct_hashes es \<Longrightarrow> i < length es \<Longrightarrow> shash (es ! i) \<noteq> 0 \<Longrightarrow> stored es (shash (es ! i)) = Some (es ! i)"
proof -
  assume d: "distinct_hashes es" "i < length es" "shash (es ! i) \<noteq> 0"
  obtain e where e: "find (\<lambda>e. shash e = shash (es ! i)) es = Some e"
  proof -
    have "find (\<lambda>e. shash e = shash (es ! i)) es \<noteq> None" using nth_mem [OF d(2)] by (simp add: find_None_iff) metis
    then show thesis using that by blast
  qed
  then obtain j where "j < length es" "shash (es ! j) = shash (es ! i)" "e = es ! j" by (auto simp: find_Some_iff)
  with d e show ?thesis by (auto simp: stored_def distinct_hashes_def)
qed

lemma stored_Nil [simp]: "stored [] = Map.empty"
  by (simp add: stored_def fun_eq_iff)

lemma stored_None: "stored es h = None \<longleftrightarrow> h = 0 \<or> (\<forall>i < length es. shash (es ! i) \<noteq> h)"
  by (auto simp: stored_def find_None_iff in_set_conv_nth)

lemma stored_at: "stored es h = Some e \<Longrightarrow> \<exists>i < length es. e = es ! i \<and> shash e = h \<and> h \<noteq> 0"
  by (auto simp: stored_def find_Some_iff split: if_splits)

lemma stored_eqI:
  assumes "distinct_hashes es" "distinct_hashes es'"
    "\<And>e. shash e \<noteq> 0 \<Longrightarrow> (e \<in> set es) = (e \<in> set es')"
  shows "stored es = stored es'"
proof
  have le: "stored vs' h = Some e" if d: "distinct_hashes vs'" and sub: "\<And>e. shash e \<noteq> 0 \<Longrightarrow> e \<in> set vs \<Longrightarrow> e \<in> set vs'"
    and e: "stored vs h = Some e" for vs vs' h e
  proof -
    have "e \<in> set vs" "shash e = h" "h \<noteq> 0" using stored_at [OF e] by auto
    with sub obtain i where "i < length vs'" "vs' ! i = e" by (metis in_set_conv_nth)
    with stored_Some [OF d, of i] \<open>shash e = h\<close> \<open>h \<noteq> 0\<close> show ?thesis by simp
  qed
  fix h
  show "stored es h = stored es' h"
  proof (cases "stored es h")
    case None
    then show ?thesis using le [OF assms(1), of es' h] assms(3) by (cases "stored es' h") auto
  next
    case (Some e)
    then show ?thesis using le [OF assms(2), of es h e] assms(3) by auto
  qed
qed

lemma used_update:
  "i < length es \<Longrightarrow> used (es[i := e]) + of_bool (shash (es ! i) \<noteq> 0) = used es + of_bool (shash e \<noteq> 0)"
proof (induction es arbitrary: i)
  case (Cons x es)
  then show ?case by (cases i) (auto simp: used_def)
qed simp

lemma used_full: "used es < length es \<Longrightarrow> \<exists>i < length es. shash (es ! i) = 0"
proof (rule ccontr)
  assume u: "used es < length es" and "\<not> ?thesis"
  then have "\<forall>e \<in> set es. shash e \<noteq> 0" by (auto simp: in_set_conv_nth)
  then have "filter (\<lambda>e. shash e \<noteq> 0) es = es" by simp
  with u show False by (simp add: used_def)
qed

text \<open>With a slot to spare the search ends: at the entry of the hash, or at an empty slot when there is none.\<close>

lemma findEntry_ends:
  assumes s: "slots_ok c es" and room: "used es < c"
  shows "\<exists>n < c. findEntry h es c = Some (probe_at c h n) \<and> (\<forall>k < n. shash (es ! probe_at c h k) \<notin> {h, 0}) \<and>
    shash (es ! probe_at c h n) \<in> {h, 0}"
proof -
  have l: "length es = c" "c < 2 ^ 31" using s by (simp_all add: slots_ok_def)
  obtain m where m: "c = 2 ^ m" using s by (auto simp: slots_ok_def)
  obtain i where i: "i < c" "shash (es ! i) = 0" using used_full [of es] room l(1) by auto
  let ?P = "\<lambda>k. shash (es ! probe_at c h k) \<in> {h, 0}"
  obtain q where q: "q < c" "probe_at c h q = i" using probe_all [of i m h] i(1) unfolding m by auto
  then have Q: "?P q" using i(2) by simp
  obtain n where n: "n \<le> q" "\<forall>k < n. \<not> ?P k" "?P n" using ex_least_nat_le [of ?P, OF Q] by blast
  then have nc: "n < c" using q(1) by simp
  then have "n < 2 ^ 31" using l(2) by (rule less_trans)
  then have "findEntry h es c = Some (probe_at c h n)" using nc l(2) by (intro findEntry_walk [OF n(3,2)]) simp_all
  with n nc show ?thesis by blast
qed

lemma findEntry_slot:
  assumes s: "slots_ok c es" and room: "used es < c" and h: "h \<noteq> 0"
  obtains i where "findEntry h es c = Some i" "i < c"
    "case stored es h of Some e \<Rightarrow> es ! i = e | None \<Rightarrow> shash (es ! i) = 0"
    "\<exists>n < c. probe_at c h n = i \<and> (\<forall>k < n. shash (es ! probe_at c h k) \<notin> {h, 0})"
proof -
  obtain n where n: "n < c" "findEntry h es c = Some (probe_at c h n)"
    "\<forall>k < n. shash (es ! probe_at c h k) \<notin> {h, 0}" "shash (es ! probe_at c h n) \<in> {h, 0}"
    using findEntry_ends [OF s room] by blast
  have l: "length es = c" using s by (simp add: slots_ok_def)
  have less: "probe_at c h n < c" using n(1) by (intro probe_at_less) simp
  have "case stored es h of Some e \<Rightarrow> es ! probe_at c h n = e | None \<Rightarrow> shash (es ! probe_at c h n) = 0"
  proof (cases "stored es h")
    case None
    then have "shash (es ! probe_at c h n) \<noteq> h" using less h l by (simp add: stored_None)
    with n(4) None show ?thesis by simp
  next
    case (Some e)
    then obtain i where i: "i < c" "e = es ! i" "shash e = h" using stored_at l by blast
    obtain q where q: "probe_at c h q = i" "\<forall>k < q. shash (es ! probe_at c h k) \<notin> {h, 0}"
      using s i h unfolding slots_ok_def reachable_def by blast
    have "n \<le> q" using n(3) q(1) i h by (intro leI notI) auto
    moreover have "q \<le> n" using q(2) n(4) by (intro leI notI) auto
    ultimately show ?thesis using q(1) Some i(2) by simp
  qed
  with that n less show thesis by blast
qed

text \<open>What the search finds can be overwritten by the entry searched for.\<close>

lemma distinct_update:
  assumes d: "distinct_hashes es" and i: "i < length es" and h: "shash e = h" "h \<noteq> 0"
    and f: "case stored es h of Some x \<Rightarrow> es ! i = x | None \<Rightarrow> shash (es ! i) = 0"
  shows "distinct_hashes (es[i := e])" "stored (es[i := e]) = (stored es)(h \<mapsto> e)"
proof -
  have u: "shash (es[i := e] ! q) = (if q = i then h else shash (es ! q))" for q using i h by simp
  have other: "shash (es ! j) \<noteq> h" if "j < length es" "j \<noteq> i" for j
    using f that d h i by (cases "stored es h") (auto simp: stored_None distinct_hashes_def dest: stored_at)
  then show D: "distinct_hashes (es[i := e])" 
    unfolding distinct_hashes_def
  proof (intro allI impI)
    fix j k
    assume jk: "j < length (es[i := e])" "k < length (es[i := e])" "shash (es[i := e] ! j) = shash (es[i := e] ! k)" "shash (es[i := e] ! j) \<noteq> 0"
    show "j = k" using jk other d unfolding u by (auto simp: distinct_hashes_def split: if_splits)
  qed
  show "stored (es[i := e]) = (stored es)(h \<mapsto> e)"
  proof
    fix g
    show "stored (es[i := e]) g = ((stored es)(h \<mapsto> e)) g"
    proof (cases "g = h")
      case True
      then show ?thesis using stored_Some [OF D, of i] i h by simp
    next
      case False
      show ?thesis
      proof (cases "stored es g")
        case None
        then have "stored (es[i := e]) g = None" using False h by (auto simp: stored_None u)
        with None False show ?thesis by simp
      next
        case (Some x)
        then obtain j where j: "j < length es" "x = es ! j" "shash x = g" "g \<noteq> 0" using stored_at by blast
        have "j \<noteq> i" using f j False stored_at by (cases "stored es h") fastforce+
        then show ?thesis using stored_Some [OF D, of j] j False Some by simp
      qed
    qed
  qed
qed

lemma slots_update:
  assumes s: "slots_ok c es" and i: "i < c" and h: "shash e = h" "h \<noteq> 0"
    and f: "case stored es h of Some x \<Rightarrow> es ! i = x | None \<Rightarrow> shash (es ! i) = 0"
    and way: "\<exists>n < c. probe_at c h n = i \<and> (\<forall>k < n. shash (es ! probe_at c h k) \<notin> {h, 0})"
  shows "slots_ok c (es[i := e])"
proof -
  have l: "length es = c" using s by (simp add: slots_ok_def)
  have at: "shash (es ! i) \<in> {h, 0}" using f h by (cases "stored es h") (auto dest: stored_at)
  have "\<exists>n < c. probe_at c (shash (es[i := e] ! j)) n = j \<and>
      (\<forall>k < n. shash (es[i := e] ! probe_at c (shash (es[i := e] ! j)) k) \<notin> {shash (es[i := e] ! j), 0})"
    if j: "j < c" "shash (es[i := e] ! j) \<noteq> 0" for j
  proof (cases "j = i")
    case True
    then have e: "shash (es[i := e] ! j) = h" using i l h by simp
    obtain n where n: "n < c" "probe_at c h n = i" "\<forall>k < n. shash (es ! probe_at c h k) \<notin> {h, 0}" using way by blast
    have "i \<noteq> probe_at c h k" if "k < n" for k using n(3) that at by auto
    then have "\<forall>k < n. shash (es[i := e] ! probe_at c h k) \<notin> {h, 0}" using n(3) by simp
    with n(1,2) True show ?thesis unfolding e by blast
  next
    case False
    let ?g = "shash (es ! j)"
    have e: "es[i := e] ! j = es ! j" using False by simp
    then obtain n where n: "n < c" "probe_at c ?g n = j" "\<forall>k < n. shash (es ! probe_at c ?g k) \<notin> {?g, 0}"
      using s j unfolding slots_ok_def reachable_def by metis
    have "?g \<noteq> h"
    proof
      assume gh: "?g = h"
      have jl: "j < length es" using j(1) l by simp
      have "?g \<noteq> 0" using j(2) e by simp
      then have "stored es h = Some (es ! j)" using stored_Some [OF slots_distinct [OF s] jl] gh by simp
      then have "es ! i = es ! j" using f by simp
      then show False using slots_distinct [OF s] i jl l False \<open>?g \<noteq> 0\<close> by (simp add: distinct_hashes_def)
    qed
    then have "shash (es[i := e] ! probe_at c ?g k) \<notin> {?g, 0}" if "k < n" for k
      using n(3) that h i l by (cases "probe_at c ?g k = i") auto
    with n e show ?thesis by auto
  qed
  then show ?thesis using s l unfolding slots_ok_def reachable_def by simp
qed

lemma slots_empty: "c = 2 ^ m \<Longrightarrow> c < 2 ^ 31 \<Longrightarrow> slots_ok c (replicate c no_schema)"
  by (auto simp: slots_ok_def reachable_def no_schema_def)

lemma stored_empty [simp]: "stored (replicate c no_schema) h = None"
  by (simp add: stored_None no_schema_def)

lemma used_empty [simp]: "used (replicate c no_schema) = 0"
  by (simp add: used_def no_schema_def)

text \<open>A slot for the hash of \<open>e\<close>, and the array with \<open>e\<close> in it.\<close>

lemma findEntry_store:
  assumes s: "slots_ok c es" and room: "used es < c" and e: "shash e \<noteq> 0"
  obtains i where "findEntry (shash e) es c = Some i" "slots_ok c (es[i := e])" "stored (es[i := e]) = (stored es)(shash e \<mapsto> e)"
    "used (es[i := e]) \<le> used es + 1" "i < c" "stored es (shash e) = None \<Longrightarrow> used (es[i := e]) = used es + 1"
proof -
  have l: "length es = c" using s by (simp add: slots_ok_def)
  obtain i where i: "findEntry (shash e) es c = Some i" "i < c"
    "case stored es (shash e) of Some x \<Rightarrow> es ! i = x | None \<Rightarrow> shash (es ! i) = 0"
    "\<exists>n < c. probe_at c (shash e) n = i \<and> (\<forall>k < n. shash (es ! probe_at c (shash e) k) \<notin> {shash e, 0})"
    using findEntry_slot [OF s room e] by blast
  have U: "used (es[i := e]) + of_bool (shash (es ! i) \<noteq> 0) = used es + 1" using used_update [of i es e] i(2) l e by simp
  show thesis
  proof (rule that [OF i(1)])
    show "slots_ok c (es[i := e])" by (rule slots_update [OF s i(2) refl e i(3,4)])
    show "stored (es[i := e]) = (stored es)(shash e \<mapsto> e)"
      using distinct_update(2) [OF slots_distinct [OF s] _ refl e i(3)] i(2) l by simp
    show "used (es[i := e]) \<le> used es + 1" using U by simp
    show "used (es[i := e]) = used es + 1" if "stored es (shash e) = None" using U i(3) that by simp
  qed (rule i(2))
qed

section \<open>Inserting and reading\<close>

lemma distinct_Cons:
  "distinct_hashes (e # es) \<longleftrightarrow> distinct_hashes es \<and> (shash e \<noteq> 0 \<longrightarrow> stored es (shash e) = None)"
  unfolding distinct_hashes_def stored_None by (simp add: All_less_Suc2) metis

lemma stored_Cons: "stored (e # es) h = (if h \<noteq> 0 \<and> shash e = h then Some e else stored es h)"
  by (simp add: stored_def)

lemma used_Cons: "used (e # es) = of_bool (shash e \<noteq> 0) + used es"
  by (simp add: used_def)

lemma rehash_keeps:
  "slots_ok c es \<Longrightarrow> used es + used old < c \<Longrightarrow> distinct_hashes old \<Longrightarrow> (\<And>h. stored old h \<noteq> None \<Longrightarrow> stored es h = None) \<Longrightarrow>
    \<exists>es'. rehash c old es = Some es' \<and> slots_ok c es' \<and> stored es' = stored old ++ stored es \<and> used es' = used es + used old"
proof (induction old arbitrary: es)
  case Nil
  then show ?case by (simp add: used_def)
next
  case (Cons e old)
  show ?case
  proof (cases "shash e = 0")
    case True
    have "stored (e # old) = stored old" by (rule ext) (use True in \<open>auto simp: stored_Cons stored_None\<close>)
    then show ?thesis using Cons.prems Cons.IH [of es] True by (simp add: used_Cons distinct_Cons)
  next
    case False
    have free: "stored es (shash e) = None" using Cons.prems(4) [of "shash e"] False by (simp add: stored_Cons)
    have u: "used es < c" using Cons.prems(2) by simp
    obtain i where i: "findEntry (shash e) es c = Some i" "slots_ok c (es[i := e])" "stored (es[i := e]) = (stored es)(shash e \<mapsto> e)"
      "used (es[i := e]) = used es + 1"
      using findEntry_store [OF Cons.prems(1) u False] free by metis
    have none: "stored old (shash e) = None" using Cons.prems(3) False by (simp add: distinct_Cons)
    have "stored (es[i := e]) h = None" if "stored old h \<noteq> None" for h
      using Cons.prems(4) [of h] that none i(3) by (auto simp: stored_Cons split: if_splits)
    then obtain es' where es': "rehash c old (es[i := e]) = Some es'" "slots_ok c es'" "stored es' = stored old ++ stored (es[i := e])"
      "used es' = used (es[i := e]) + used old"
      using Cons.IH [OF i(2)] Cons.prems(2,3) i(4) False by (auto simp: used_Cons distinct_Cons)
    have "stored (e # old) = (stored old)(shash e \<mapsto> e)" by (rule ext) (use False in \<open>simp add: stored_Cons\<close>)
    then have "stored old ++ (stored es)(shash e \<mapsto> e) = stored (e # old) ++ stored es"
      using free none by (auto simp: map_add_def fun_eq_iff split: option.split)
    with es' i False show ?thesis by (simp add: used_Cons)
  qed
qed

text \<open>The table as every insertion leaves it.\<close>

definition schema_ok :: "hashtable \<Rightarrow> bool" where
  "schema_ok t \<longleftrightarrow> hcount t < 2 ^ 29 \<and>
     (if hcapacity t = 0 then t = initHashTable
      else slots_ok (hcapacity t) (hentries t) \<and> 8 \<le> hcapacity t \<and> used (hentries t) \<le> hcount t \<and> 5 * hcount t \<le> 4 * hcapacity t)"

lemma schema_ok_init: "schema_ok initHashTable"
  by (simp add: schema_ok_def initHashTable_def)

lemma grown_power: "(\<exists>m. c = 2 ^ m) \<Longrightarrow> \<exists>m. GROW_CAPACITY c = (2 :: nat) ^ m"
proof -
  assume "\<exists>m. c = 2 ^ m"
  then obtain m where "c = 2 ^ m" by blast
  then have "GROW_CAPACITY c = 2 ^ (if c < 8 then 3 else Suc m)" by (simp add: GROW_CAPACITY_def)
  then show ?thesis by blast
qed

lemma insertHT_stores:
  assumes t: "schema_ok t" and n: "hcount t + 1 < 2 ^ 29" and e: "shash e \<noteq> 0"
  shows "\<exists>t'. insertHT e t = Some t' \<and> schema_ok t' \<and> stored (hentries t') = (stored (hentries t))(shash e \<mapsto> e) \<and>
    hcount t' = hcount t + 1"
proof -
  let ?c = "hcapacity t" and ?es = "hentries t"
  have grown: "\<exists>u. (if 5 * (hcount t + 1) > 4 * ?c then adjustCapacity (GROW_CAPACITY ?c) t else Some t) = Some u \<and>
    hcount u = hcount t \<and> slots_ok (hcapacity u) (hentries u) \<and> 8 \<le> hcapacity u \<and> used (hentries u) \<le> hcount t \<and>
    5 * (hcount t + 1) \<le> 4 * hcapacity u \<and> stored (hentries u) = stored ?es"
  proof (cases "5 * (hcount t + 1) > 4 * ?c")
    case True
    let ?g = "GROW_CAPACITY ?c"
    have D: "distinct_hashes ?es" "used ?es \<le> hcount t" "\<exists>m. ?g = 2 ^ m"
    proof -
      show "distinct_hashes ?es" "used ?es \<le> hcount t"
        using t slots_distinct unfolding schema_ok_def
        by (auto simp: initHashTable_def distinct_hashes_def [of "[]"] used_def [of "[]"] split: if_splits)
      show "\<exists>m. ?g = 2 ^ m"
      proof (cases "?c = 0")
        case True
        then have "?g = 2 ^ 3" by (simp add: GROW_CAPACITY_def)
        then show ?thesis by blast
      next
        case False
        then show ?thesis using t by (intro grown_power) (simp add: schema_ok_def slots_ok_def)
      qed
    qed
    have g: "8 \<le> ?g" "5 * (hcount t + 1) \<le> 4 * ?g" "?g < 2 ^ 31"
      using t True n by (auto simp: schema_ok_def GROW_CAPACITY_def initHashTable_def split: if_splits)
    obtain m where m: "?g = 2 ^ m" using D(3) by blast
    have "\<exists>es'. rehash ?g ?es (replicate ?g no_schema) = Some es' \<and> slots_ok ?g es' \<and>
        stored es' = stored ?es ++ stored (replicate ?g no_schema) \<and> used es' = used (replicate ?g no_schema) + used ?es"
      by (rule rehash_keeps [OF slots_empty [OF m g(3)] _ D(1)]) (use D g in simp_all)
    then obtain es' where es': "rehash ?g ?es (replicate ?g no_schema) = Some es'" "slots_ok ?g es'" "stored es' = stored ?es" "used es' = used ?es"
      by (auto simp: fun_eq_iff map_add_def)
    then show ?thesis using True D g by (simp add: adjustCapacity_def)
  next
    case False
    then show ?thesis using t by (auto simp: schema_ok_def)
  qed
  then obtain u where u: "(if 5 * (hcount t + 1) > 4 * ?c then adjustCapacity (GROW_CAPACITY ?c) t else Some t) = Some u"
    "hcount u = hcount t" "slots_ok (hcapacity u) (hentries u)" "8 \<le> hcapacity u" "used (hentries u) \<le> hcount t"
    "5 * (hcount t + 1) \<le> 4 * hcapacity u" "stored (hentries u) = stored ?es" by blast
  have room: "used (hentries u) < hcapacity u" using u by simp
  obtain i where i: "findEntry (shash e) (hentries u) (hcapacity u) = Some i" "slots_ok (hcapacity u) ((hentries u)[i := e])"
    "stored ((hentries u)[i := e]) = (stored (hentries u))(shash e \<mapsto> e)" "used ((hentries u)[i := e]) \<le> used (hentries u) + 1"
    using findEntry_store [OF u(3) room e] by metis
  then show ?thesis using u n unfolding insertHT_def u(1) by (simp add: schema_ok_def)
qed

lemma readHT_reads:
  assumes t: "schema_ok t"
  shows "readHT h t = Some (stored (hentries t) h)"
proof (cases "hcapacity t = 0")
  case True
  then have "hentries t = []" using t by (simp add: schema_ok_def initHashTable_def)
  with True show ?thesis by (simp add: readHT_def stored_def)
next
  case False
  then have s: "slots_ok (hcapacity t) (hentries t)" and room: "used (hentries t) < hcapacity t" using t by (auto simp: schema_ok_def)
  show ?thesis
  proof (cases "h = 0")
    case True
    then show ?thesis using False findEntry_ends [OF s room, of h] by (auto simp: readHT_def stored_def)
  next
    case h: False
    obtain i where "findEntry h (hentries t) (hcapacity t) = Some i"
      "case stored (hentries t) h of Some e \<Rightarrow> hentries t ! i = e | None \<Rightarrow> shash (hentries t ! i) = 0"
      using findEntry_slot [OF s room h] by metis
    then show ?thesis using False h by (cases "stored (hentries t) h") (auto simp: readHT_def dest: stored_at)
  qed
qed

section \<open>Deleting\<close>

text \<open>The entry is gone and the others are still in the array. Whether they are found is another matter: the emptied slot ends
  the search for an entry that was put behind it. The statement that deletes saves the schema and loads it again.\<close>

lemma distinct_delete:
  assumes d: "distinct_hashes es" and i: "i < length es"
  shows "distinct_hashes (es[i := no_schema])" "stored (es[i := no_schema]) = (stored es)(shash (es ! i) := None)"
proof -
  have u: "shash (es[i := no_schema] ! q) = (if q = i then 0 else shash (es ! q))" for q using i by (simp add: no_schema_def)
  show D: "distinct_hashes (es[i := no_schema])"
    unfolding distinct_hashes_def
  proof (intro allI impI)
    fix j k
    assume "j < length (es[i := no_schema])" "k < length (es[i := no_schema])"
      "shash (es[i := no_schema] ! j) = shash (es[i := no_schema] ! k)" "shash (es[i := no_schema] ! j) \<noteq> 0"
    then show "j = k" using d unfolding u by (auto simp: distinct_hashes_def split: if_splits)
  qed
  show "stored (es[i := no_schema]) = (stored es)(shash (es ! i) := None)"
  proof
    fix g
    show "stored (es[i := no_schema]) g = ((stored es)(shash (es ! i) := None)) g"
    proof (cases "stored es g")
      case None
      then have "stored (es[i := no_schema]) g = None" by (auto simp: stored_None u)
      with None show ?thesis by simp
    next
      case (Some x)
      then obtain j where j: "j < length es" "x = es ! j" "shash x = g" "g \<noteq> 0" using stored_at by blast
      show ?thesis
      proof (cases "j = i")
        case True
        then have "stored (es[i := no_schema]) g = None" using d i j unfolding stored_None u by (auto simp: distinct_hashes_def)
        with True j show ?thesis by simp
      next
        case False
        then have "g \<noteq> shash (es ! i)" using d i j by (auto simp: distinct_hashes_def)
        then show ?thesis using stored_Some [OF D, of j] False j Some by simp
      qed
    qed
  qed
qed

lemma deleteHT_removes:
  assumes t: "schema_ok t" and h: "h \<noteq> 0" and c: "hcapacity t \<noteq> 0"
  shows "\<exists>t'. deleteHT h t = Some t' \<and> distinct_hashes (hentries t') \<and> stored (hentries t') = (stored (hentries t))(h := None) \<and>
    used (hentries t') \<le> used (hentries t)"
proof -
  have s: "slots_ok (hcapacity t) (hentries t)" and room: "used (hentries t) < hcapacity t" using t c by (auto simp: schema_ok_def)
  obtain i where i: "findEntry h (hentries t) (hcapacity t) = Some i" "i < hcapacity t"
    "case stored (hentries t) h of Some e \<Rightarrow> hentries t ! i = e | None \<Rightarrow> shash (hentries t ! i) = 0"
    using findEntry_slot [OF s room h] by metis
  have l: "i < length (hentries t)" using i(2) s by (simp add: slots_ok_def)
  have "(stored (hentries t))(shash (hentries t ! i) := None) = (stored (hentries t))(h := None)"
  proof (cases "stored (hentries t) h")
    case None
    then have "shash (hentries t ! i) = 0" using i(3) by simp
    moreover have "stored (hentries t) 0 = None" by (simp add: stored_None)
    ultimately show ?thesis using None by (auto simp: fun_eq_iff)
  next
    case (Some e)
    then show ?thesis using i(3) stored_at [OF Some] by auto
  qed
  then show ?thesis
    using i(1) distinct_delete [OF slots_distinct [OF s] l] used_update [OF l, of no_schema] by (simp add: deleteHT_def no_schema_def)
qed

text \<open>Lookups after a deletion: the search for another hash goes as before, unless it comes to the emptied slot and ends there.\<close>

lemma readHT_deleted:
  assumes t: "schema_ok t" and c: "hcapacity t \<noteq> 0" and h: "h \<noteq> 0" and u: "deleteHT h t = Some u"
  shows "readHT h u = Some None" "readHT g u = Some None \<or> readHT g u = readHT g t" "stored (hentries t) h = None \<Longrightarrow> readHT g u = readHT g t"
proof -
  let ?c = "hcapacity t" and ?es = "hentries t"
  have s: "slots_ok ?c ?es" and room: "used ?es < ?c" using t c by (auto simp: schema_ok_def)
  obtain i where i: "findEntry h ?es ?c = Some i" "i < ?c" "case stored ?es h of Some e \<Rightarrow> ?es ! i = e | None \<Rightarrow> shash (?es ! i) = 0"
    using findEntry_slot [OF s room h] by metis
  have l: "i < length ?es" "?c < 2 ^ 31" using i(2) s by (simp_all add: slots_ok_def)
  let ?es' = "?es[i := no_schema]"
  have u': "hentries u = ?es'" "hcapacity u = ?c" using u i(1) by (auto simp: deleteHT_def)
  have sh: "shash (?es' ! q) = (if q = i then 0 else shash (?es ! q))" for q using l(1) by (simp add: no_schema_def)
  have walk: "\<exists>n m. findEntry g ?es ?c = Some (probe_at ?c g n) \<and> findEntry g ?es' ?c = Some (probe_at ?c g m) \<and>
      shash (?es ! probe_at ?c g n) \<in> {g, 0} \<and> (m = n \<or> probe_at ?c g m = i) \<and> (shash (?es ! i) = 0 \<longrightarrow> m = n)" for g
  proof -
    obtain n where n: "n < ?c" "findEntry g ?es ?c = Some (probe_at ?c g n)" "\<forall>k < n. shash (?es ! probe_at ?c g k) \<notin> {g, 0}"
      "shash (?es ! probe_at ?c g n) \<in> {g, 0}"
      using findEntry_ends [OF s room] by blast
    let ?P = "\<lambda>k. shash (?es' ! probe_at ?c g k) \<in> {g, 0}"
    have "?P n" using n(4) by (simp add: sh)
    then obtain m where m: "m \<le> n" "\<forall>k < m. \<not> ?P k" "?P m" using ex_least_nat_le [of ?P n] by blast
    have "findEntry g ?es' ?c = Some (probe_at ?c g m)" using m n(1) l(2) by (intro findEntry_walk [OF m(3,2)]) simp_all
    moreover have "probe_at ?c g m = i" if "m \<noteq> n" using m(1,3) n(3) that by (auto simp: sh split: if_splits)
    moreover have "m = n" if z: "shash (?es ! i) = 0"
    proof (rule ccontr)
      assume "m \<noteq> n"
      then have "m < n" "probe_at ?c g m = i" using m(1) calculation(2) by auto
      then show False using n(3) z by auto
    qed
    ultimately show ?thesis using n(2,4) by blast
  qed
  have read: "readHT g v = Some (if shash (hentries v ! q) \<noteq> 0 then Some (hentries v ! q) else None)"
    if "findEntry g (hentries v) ?c = Some q" "hcapacity v = ?c" for g v q
    using that c by (simp add: readHT_def)
  have other: "readHT g u = Some None \<or> readHT g u = readHT g t" "shash (?es ! i) = 0 \<Longrightarrow> readHT g u = readHT g t" for g
  proof -
    obtain n m where w: "findEntry g ?es ?c = Some (probe_at ?c g n)" "findEntry g ?es' ?c = Some (probe_at ?c g m)"
      "m = n \<or> probe_at ?c g m = i" "shash (?es ! i) = 0 \<longrightarrow> m = n"
      using walk by blast
    have r: "readHT g t = Some (if shash (?es ! probe_at ?c g n) \<noteq> 0 then Some (?es ! probe_at ?c g n) else None)"
      "readHT g u = Some (if shash (?es' ! probe_at ?c g m) \<noteq> 0 then Some (?es' ! probe_at ?c g m) else None)"
      using read [of g t] w(1) read [of g u] w(2) u' by simp_all
    show "readHT g u = Some None \<or> readHT g u = readHT g t"
      using r w(3) by (cases "probe_at ?c g m = i") (auto simp: sh)
    show "readHT g u = readHT g t" if "shash (?es ! i) = 0"
      using r w(4) that by (cases "probe_at ?c g n = i") (auto simp: sh)
  qed
  show "readHT g u = Some None \<or> readHT g u = readHT g t" by (rule other)
  show "readHT g u = readHT g t" if "stored ?es h = None" using other(2) i(3) that by simp
  show "readHT h u = Some None"
  proof -
    obtain n m where w: "findEntry h ?es ?c = Some (probe_at ?c h n)" "findEntry h ?es' ?c = Some (probe_at ?c h m)"
      "m = n \<or> probe_at ?c h m = i"
      using walk by blast
    then have "probe_at ?c h m = i" using i(1) by auto
    then show ?thesis using read [of h u] w(2) u' by (simp add: sh)
  qed
qed

section \<open>The file read back\<close>

definition storable_string :: "byte list \<Rightarrow> bool" where
  "storable_string s \<longleftrightarrow> 0 \<notin> set s \<and> length s < 2 ^ 32"

definition storable_schema :: "schema \<Rightarrow> bool" where
  "storable_schema e \<longleftrightarrow> storable_string (tablename e) \<and> list_all storable_string (colNames e) \<and>
     length (colNames e) = scount e \<and> length (colTypes e) = scount e \<and> scount e < 2 ^ 32"

lemma fread_bytes_append: "length bs = n \<Longrightarrow> fread_bytes n (bs @ rest) = Some (bs, rest)"
  by (auto simp: fread_bytes_def)

lemma fread_u32_le: "fread_u32 (native_bytes w @ rest) = Some (w, rest)"
  using fread_bytes_append [of "native_bytes w" 4 rest] by (simp add: fread_u32_def native_bytes_def native_word_def be_value_be_bytes take_bit_word_eq_self)

lemma fread_write_string: "storable_string s \<Longrightarrow> fread_string (write_string s @ rest) = Some (s, rest)"
  unfolding fread_string_def write_string_def append_assoc fread_u32_le
  by (simp add: storable_string_def c_string_def fread_bytes_append unat_of_nat)

lemma read_write_columns:
  "length names = length types \<Longrightarrow> list_all storable_string names \<Longrightarrow>
    read_columns (length names) (concat (map (\<lambda>j. [types ! j] @ write_string (names ! j)) [0..<length names]) @ rest) =
      Some (names, types, rest)"
proof (induction names types rule: list_induct2)
  case (Cons n ns ty tys)
  have "[0..<length (n # ns)] = 0 # map Suc [0..<length ns]" by (simp add: map_Suc_upt upt_conv_Cons del: upt_Suc)
  then have "concat (map (\<lambda>j. [(ty # tys) ! j] @ write_string ((n # ns) ! j)) [0..<length (n # ns)]) =
      [ty] @ write_string n @ concat (map (\<lambda>j. [tys ! j] @ write_string (ns ! j)) [0..<length ns])"
    by (simp add: comp_def)
  with Cons fread_bytes_append [of "[ty]" 1] show ?case by (simp add: fread_write_string)
qed simp

lemma read_write_schema: "storable_schema e \<Longrightarrow> read_schema (write_schema e @ rest) = Some (e, rest)"
  using read_write_columns [of "colNames e" "colTypes e" rest]
  unfolding read_schema_def write_schema_def append_assoc fread_u32_le
  by (simp add: storable_schema_def fread_write_string fread_u32_le unat_of_nat)

lemma read_write_schemas:
  "schema_ok ht \<Longrightarrow> hcount ht + length es < 2 ^ 29 \<Longrightarrow> \<forall>e \<in> set es. storable_schema e \<and> shash e \<noteq> 0 \<Longrightarrow> distinct_hashes es \<Longrightarrow>
    \<exists>ht'. read_schemas (length es) ht (concat (map write_schema es)) = Some ht' \<and> schema_ok ht' \<and>
      stored (hentries ht') = stored (hentries ht) ++ stored es"
proof (induction es arbitrary: ht)
  case Nil
  then show ?case by simp
next
  case (Cons e es)
  obtain u where u: "insertHT e ht = Some u" "schema_ok u" "stored (hentries u) = (stored (hentries ht))(shash e \<mapsto> e)" "hcount u = hcount ht + 1"
    using insertHT_stores [OF Cons.prems(1), of e] Cons.prems(2,3) by auto
  have rest: "\<forall>e \<in> set es. storable_schema e \<and> shash e \<noteq> 0" "distinct_hashes es" "stored es (shash e) = None" "shash e \<noteq> 0"
    using Cons.prems by (auto simp: distinct_Cons)
  have "hcount u + length es < 2 ^ 29" using Cons.prems(2) u(4) by simp
  from Cons.IH [OF u(2) this rest(1,2)] obtain v where
    v: "read_schemas (length es) u (concat (map write_schema es)) = Some v" "schema_ok v" "stored (hentries v) = stored (hentries u) ++ stored es"
    by blast
  have "stored (e # es) = (stored es)(shash e \<mapsto> e)" by (rule ext) (use rest in \<open>simp add: stored_Cons\<close>)
  then have "(stored (hentries ht))(shash e \<mapsto> e) ++ stored es = stored (hentries ht) ++ stored (e # es)"
    using rest(3) by (auto simp: map_add_def fun_eq_iff split: option.split)
  with u v show ?case using Cons.prems(3) by (simp add: read_write_schema)
qed

lemma load_serialized:
  assumes d: "distinct_hashes (hentries t)" and s: "\<forall>e \<in> set (hentries t). shash e \<noteq> 0 \<longrightarrow> storable_schema e"
    and n: "used (hentries t) < 2 ^ 29"
  shows "\<exists>t'. loadSchema True (Some (serializeSchema t)) = Some (Some t') \<and> schema_ok t' \<and> stored (hentries t') = stored (hentries t)"
proof -
  let ?es = "filter (\<lambda>e. shash e \<noteq> 0) (hentries t)"
  have D: "distinct_hashes (filter (\<lambda>e. shash e \<noteq> 0) es)" "stored (filter (\<lambda>e. shash e \<noteq> 0) es) = stored es"
    if "distinct_hashes es" for es
  proof -
    show eq: "stored (filter (\<lambda>e. shash e \<noteq> 0) es) = stored es" for es
    proof
      show "stored (filter (\<lambda>e. shash e \<noteq> 0) es) h = stored es h" for h
      proof (induction es)
        case (Cons e es)
        then show ?case by (auto simp: stored_Cons)
      qed simp
    qed
    show "distinct_hashes (filter (\<lambda>e. shash e \<noteq> 0) es)" using that by (induction es) (auto simp: distinct_Cons eq)
  qed
  have "\<exists>ht'. read_schemas (length ?es) initHashTable (concat (map write_schema ?es)) = Some ht' \<and> schema_ok ht' \<and>
      stored (hentries ht') = stored (hentries initHashTable) ++ stored ?es"
    by (rule read_write_schemas [OF schema_ok_init]) (use s n D [OF d] in \<open>auto simp: initHashTable_def used_def\<close>)
  then obtain t' where t': "read_schemas (length ?es) initHashTable (concat (map write_schema ?es)) = Some t'" "schema_ok t'"
    "stored (hentries t') = stored ?es" by (auto simp: initHashTable_def)
  have "unat (of_nat (length ?es) :: u32) = length ?es" using n by (simp add: unat_of_nat used_def)
  then have "readEntries initHashTable (writeEntries t) = Some t'"
    using t'(1) by (simp add: readEntries_def writeEntries_def fread_u32_le)
  then show ?thesis using t' D(2) [OF d] by (simp add: loadSchema_def serializeSchema_def fread_u32_le)
qed

section \<open>What the schema table promises\<close>

text \<open>C9: Kept as insertions leave it, the schema table is for lookups and insertions a map from hashes: a read ends and gives what
  is stored, and an insertion ends with the entry stored or replaced and every other entry as it was, whether or not the
  table grew. A deletion is less than that of a map (\<open>deleted_schema_hides\<close>): it ends, a lookup of the hash then finds
  nothing, and a lookup of another hash finds what it found before or nothing, never another schema; the array has lost exactly
  the entry deleted, so the table written to the file and read back is the map without it
  (\<open>schema_file_roundtrip\<close>). To delete what is not there changes no lookup. The probe sequence reaches every slot, so no operation
  runs forever.\<close>

theorem schema_table_is_map:
  assumes "schema_ok t" "hcount t + 1 < 2 ^ 29" "shash e \<noteq> 0" "h \<noteq> 0" "hcapacity t \<noteq> 0"
  shows "readHT h t = Some (stored (hentries t) h) \<and>
    (\<exists>u. insertHT e t = Some u \<and> schema_ok u \<and> readHT h u = Some (((stored (hentries t))(shash e \<mapsto> e)) h)) \<and>
    (\<exists>u. deleteHT h t = Some u \<and> readHT h u = Some None \<and> (\<forall>g. readHT g u = Some None \<or> readHT g u = Some (stored (hentries t) g)) \<and>
       (stored (hentries t) h = None \<longrightarrow> (\<forall>g. readHT g u = Some (stored (hentries t) g))) \<and>
       distinct_hashes (hentries u) \<and> stored (hentries u) = (stored (hentries t))(h := None))"
proof (intro conjI)
  show "readHT h t = Some (stored (hentries t) h)" by (rule readHT_reads [OF assms(1)])
  show "\<exists>u. insertHT e t = Some u \<and> schema_ok u \<and> readHT h u = Some (((stored (hentries t))(shash e \<mapsto> e)) h)"
    using insertHT_stores [OF assms(1,2,3)] readHT_reads by metis
  obtain u where u: "deleteHT h t = Some u" "distinct_hashes (hentries u)" "stored (hentries u) = (stored (hentries t))(h := None)"
    using deleteHT_removes [OF assms(1,4,5)] by blast
  show "\<exists>u. deleteHT h t = Some u \<and> readHT h u = Some None \<and> (\<forall>g. readHT g u = Some None \<or> readHT g u = Some (stored (hentries t) g)) \<and>
       (stored (hentries t) h = None \<longrightarrow> (\<forall>g. readHT g u = Some (stored (hentries t) g))) \<and>
       distinct_hashes (hentries u) \<and> stored (hentries u) = (stored (hentries t))(h := None)"
    using u readHT_deleted [OF assms(1,5,4) u(1)] readHT_reads [OF assms(1)] by metis
qed

text \<open>The table named \<open>t<n>\<close> with one column, under the hash given.\<close>

definition ex_schema :: "u32 \<Rightarrow> schema" where
  "ex_schema h = \<lparr>colNames = [[105, 100]], colTypes = [67], tablename = [116, 48 + ucast h], shash = h, scount = 1\<rparr>"

definition ex_schemas :: hashtable where
  "ex_schemas = the (Option.bind (insertHT (ex_schema 1) initHashTable) (insertHT (ex_schema 9)))"

lemma ex_schemas: "schema_ok ex_schemas" "hcount ex_schemas = 2" "hcapacity ex_schemas = 8" "stored (hentries ex_schemas) = [1 \<mapsto> ex_schema 1, 9 \<mapsto> ex_schema 9]"
proof -
  have n: "shash (ex_schema h) = h" for h by (simp add: ex_schema_def)
  obtain u where u: "insertHT (ex_schema 1) initHashTable = Some u" "schema_ok u" "stored (hentries u) = Map.empty(1 \<mapsto> ex_schema 1)" "hcount u = 1"
    using insertHT_stores [OF schema_ok_init, of "ex_schema 1"] by (auto simp: n initHashTable_def)
  obtain v where v: "insertHT (ex_schema 9) u = Some v" "schema_ok v" "stored (hentries v) = (stored (hentries u))(9 \<mapsto> ex_schema 9)" "hcount v = 2"
    using insertHT_stores [OF u(2), of "ex_schema 9"] u(4) by (auto simp: n)
  have e: "ex_schemas = v" using u(1) v(1) by (simp add: ex_schemas_def)
  show "schema_ok ex_schemas" "hcount ex_schemas = 2" "stored (hentries ex_schemas) = [1 \<mapsto> ex_schema 1, 9 \<mapsto> ex_schema 9]"
    using u v unfolding e by simp_all
  show "hcapacity ex_schemas = 8" by code_simp
qed

theorem schema_table_is_map_witness:
  "readHT 9 ex_schemas = Some (Some (ex_schema 9)) \<and> (\<exists>u. deleteHT 9 ex_schemas = Some u \<and> readHT 9 u = Some None)"
  using schema_table_is_map [OF ex_schemas(1), of "ex_schema 2" 9] ex_schemas by (auto simp: ex_schema_def)

text \<open>Behind a slot that was emptied an entry is no longer found, though it is still in the array.\<close>

theorem deleted_schema_hides:
  "\<exists>u. deleteHT 1 ex_schemas = Some u \<and> readHT 9 u = Some None \<and> stored (hentries u) 9 = Some (ex_schema 9)"
proof -
  obtain u where u: "deleteHT 1 ex_schemas = Some u" "stored (hentries u) = (stored (hentries ex_schemas))(1 := None)"
    using deleteHT_removes [OF ex_schemas(1), of 1] ex_schemas(3) by auto
  have "map_option (readHT 9) (deleteHT 1 ex_schemas) = Some (Some None)" by code_simp
  with u ex_schemas(4) show ?thesis by simp
qed

text \<open>The hash is zero for some names: \<open>ppkttia\<close>. An entry stored under it is taken for an empty slot.\<close>

theorem hash_can_be_zero: "hashString [112, 112, 107, 116, 116, 105, 97] 7 = 0"
  by code_simp

text \<open>C38: The schema file is read back: for a table in which no hash is twice, also one that entries were deleted from, loading the
  serialised table ends with a table in which every entry can be found, under its hash and with its column names
  and types, and nothing else; entries that a deletion had hidden are found again.\<close>

theorem schema_file_roundtrip:
  assumes "distinct_hashes (hentries t)" "\<forall>e \<in> set (hentries t). shash e \<noteq> 0 \<longrightarrow> storable_schema e" "used (hentries t) < 2 ^ 29"
  shows "\<exists>u. loadSchema True (Some (serializeSchema t)) = Some (Some u) \<and> schema_ok u \<and> (\<forall>h. readHT h u = Some (stored (hentries t) h))"
  using load_serialized [OF assms] readHT_reads by metis

theorem schema_file_roundtrip_witness:
  "\<exists>t u. deleteHT 1 ex_schemas = Some t \<and> readHT 9 t = Some None \<and> loadSchema True (Some (serializeSchema t)) = Some (Some u) \<and>
     readHT 9 u = Some (Some (ex_schema 9)) \<and> readHT 1 u = Some None"
proof -
  obtain t where t: "deleteHT 1 ex_schemas = Some t" "distinct_hashes (hentries t)" "stored (hentries t) = (stored (hentries ex_schemas))(1 := None)"
    "used (hentries t) \<le> used (hentries ex_schemas)"
    using deleteHT_removes [OF ex_schemas(1), of 1] ex_schemas(3) by auto
  have hidden: "readHT 9 t = Some None" using deleted_schema_hides t(1) by auto
  have "used (hentries ex_schemas) \<le> 2" using ex_schemas by (auto simp: schema_ok_def)
  then have n: "used (hentries t) < 2 ^ 29" using t(4) by simp
  have "\<forall>e \<in> set (hentries t). shash e \<noteq> 0 \<longrightarrow> storable_schema e"
  proof (intro ballI impI)
    fix e assume e: "e \<in> set (hentries t)" "shash e \<noteq> 0"
    then obtain i where "i < length (hentries t)" "e = hentries t ! i" by (auto simp: in_set_conv_nth)
    then have "stored (hentries t) (shash e) = Some e" using stored_Some [OF t(2)] e(2) by simp
    then have "e = ex_schema 9" using t(3) ex_schemas(4) by (auto split: if_splits)
    then show "storable_schema e" by (simp add: storable_schema_def storable_string_def ex_schema_def)
  qed
  from schema_file_roundtrip [OF t(2) this n] show ?thesis using t hidden ex_schemas(4) by auto
qed

end
