(* ===== verification/Script.thy ===== *)
theory Script
  imports Prelude
begin

text \<open>
  \<open>main.c\<close>: how a file of SQL is cut into statements (\<open>isolateQuery\<close> and the loop of \<open>runFile\<close> around it). The source is
  the list of its bytes before the NUL that ends it, so \<open>len\<close> is its length and the byte at \<open>len\<close> is the NUL. Positions and
  lengths, \<open>int\<close> in the code, are naturals: that is the code's arithmetic for files shorter than \<open>2 ^ 31\<close> bytes.
\<close>

section \<open>isolateQuery\<close>

definition byte_of :: "byte list \<Rightarrow> nat \<Rightarrow> byte" where
  "byte_of source i = (if i < length source then source ! i else 0)"

definition PEEK :: "byte list \<Rightarrow> nat \<Rightarrow> byte" where
  "PEEK source i = (if i + 1 < length source then source ! (i + 1) else 0)"

text \<open>Where the next statement starts: past blanks.\<close>

definition is_blank :: "byte \<Rightarrow> bool" where
  "is_blank c \<longleftrightarrow> c = 10 \<or> c = 9 \<or> c = 32 \<or> c = 13"

definition skip_separators :: "byte list \<Rightarrow> nat \<Rightarrow> nat" where
  "skip_separators source j = j + length (takeWhile is_blank (drop j source))"

text \<open>What the scan is in: a string, a line comment, a block comment. One run of its loop goes on at a later byte or ends with
  the statement, which starts at \<open>start\<close>, and the start of the next one.\<close>

record scan_state =
  singleQuote :: bool
  lineComment :: bool
  multiLineComment :: bool

definition scan_char :: "byte list \<Rightarrow> nat \<Rightarrow> nat \<Rightarrow> scan_state \<Rightarrow> nat \<times> scan_state + byte list \<times> nat" where
  "scan_char source start i s =
     (let c = byte_of source i; peek = PEEK source i in
      if lineComment s \<and> c \<noteq> 0 then Inl (i + 1, if c = 10 then s\<lparr>lineComment := False\<rparr> else s)
      else if multiLineComment s \<and> c \<noteq> 0 then
        (if c = 42 \<and> peek = 47 then Inl (i + 2, s\<lparr>multiLineComment := False\<rparr>) else Inl (i + 1, s))
      else if c = 39 then Inl (i + 1, s\<lparr>singleQuote := \<not> singleQuote s\<rparr>)
      else if c = 92 then Inl (if peek = 39 then i + 2 else i + 1, s)
      else if c = 45 then (if \<not> singleQuote s \<and> peek = 45 then Inl (i + 2, s\<lparr>lineComment := True\<rparr>) else Inl (i + 1, s))
      else if c = 47 then (if \<not> singleQuote s \<and> peek = 42 then Inl (i + 2, s\<lparr>multiLineComment := True\<rparr>) else Inl (i + 1, s))
      else if c = 59 then
        (if singleQuote s then Inl (i + 1, s)
         else Inr (segment source start (i - start + 1), if peek = 0 then length source else skip_separators source (i + 1)))
      else if c = 0 then Inr (segment source start (i - start), i + 1)
      else Inl (i + 1, s))"

lemma scan_char_on: "scan_char source start i s = Inl (j, s') \<Longrightarrow> byte_of source i \<noteq> 0 \<and> (j = i + 1 \<or> j = i + 2 \<and> PEEK source i \<noteq> 0)"
  unfolding scan_char_def Let_def by (auto split: if_splits)

function isolate_from :: "byte list \<Rightarrow> nat \<Rightarrow> nat \<Rightarrow> scan_state \<Rightarrow> (byte list \<times> nat) option" where
  "isolate_from source start i s =
     (if length source < i then None
      else case scan_char source start i s of Inr r \<Rightarrow> Some r | Inl (j, s') \<Rightarrow> isolate_from source start j s')"
  by pat_completeness auto
termination
  by (relation "measure (\<lambda>(source, start, i, s). Suc (length source) - i)") (auto dest!: scan_char_on)

declare isolate_from.simps [simp del]

definition isolateQuery :: "nat \<Rightarrow> byte list \<Rightarrow> (byte list \<times> nat) option" where
  "isolateQuery start source = isolate_from source start start \<lparr>singleQuote = False, lineComment = False, multiLineComment = False\<rparr>"

section \<open>The scan ends\<close>

definition no_NUL :: "byte list \<Rightarrow> bool" where "no_NUL source \<longleftrightarrow> 0 \<notin> set source"

lemma byte_of_0: "no_NUL source \<Longrightarrow> byte_of source i = 0 \<longleftrightarrow> length source \<le> i"
  by (auto simp: byte_of_def no_NUL_def dest: nth_mem)

lemma PEEK_0: "no_NUL source \<Longrightarrow> PEEK source i \<noteq> 0 \<Longrightarrow> i + 2 \<le> length source"
  by (simp add: PEEK_def split: if_splits)

lemma PEEK_end: "no_NUL source \<Longrightarrow> i < length source \<Longrightarrow> PEEK source i = 0 \<Longrightarrow> length source = i + 1"
  by (auto simp: PEEK_def no_NUL_def split: if_splits dest: nth_mem)

lemma skip_separators_bounds: "j \<le> length source \<Longrightarrow> j \<le> skip_separators source j \<and> skip_separators source j \<le> length source"
  using length_takeWhile_le [of is_blank "drop j source"] by (simp add: skip_separators_def)

text \<open>The statement is what lies between its start and a semicolon or the end; the next one starts behind it and the
  blanks that follow.\<close>

definition cut_at :: "byte list \<Rightarrow> nat \<Rightarrow> byte list \<times> nat \<Rightarrow> bool" where
  "cut_at source start r \<longleftrightarrow> (\<exists>i. start \<le> i \<and>
     (i < length source \<and> source ! i = 59 \<and> fst r = segment source start (i - start + 1) \<and>
        i < snd r \<and> snd r \<le> length source \<and> (\<forall>k. i < k \<and> k < snd r \<longrightarrow> is_blank (source ! k)) \<or>
      i = length source \<and> fst r = drop start source \<and> snd r = Suc (length source)))"

lemma scan_char_ends:
  assumes nul: "no_NUL source" and le: "start \<le> i" "i \<le> length source" and r: "scan_char source start i s = Inr r"
  shows "cut_at source start r"
proof -
  consider (semi) "byte_of source i = 59" "r = (segment source start (i - start + 1), if PEEK source i = 0 then length source else skip_separators source (i + 1))"
    | (eof) "byte_of source i = 0" "r = (segment source start (i - start), i + 1)"
    using r unfolding scan_char_def Let_def by (auto split: if_splits)
  then show ?thesis
  proof cases
    case eof
    then have "i = length source" using byte_of_0 [OF nul, of i] le by simp
    with eof le show ?thesis by (auto simp: cut_at_def segment_def)
  next
    case semi
    have at: "i < length source" "source ! i = 59" using semi(1) by (simp_all add: byte_of_def split: if_splits)
    show ?thesis
    proof (cases "PEEK source i = 0")
      case True
      then show ?thesis using PEEK_end [OF nul at(1)] at le semi(2) by (auto simp: cut_at_def intro: exI [of _ i])
    next
      case False
      have b: "i + 1 \<le> skip_separators source (i + 1)" "skip_separators source (i + 1) \<le> length source"
        using skip_separators_bounds [of "i + 1" source] at by simp_all
      have "is_blank (source ! k)" if k: "i < k" "k < skip_separators source (i + 1)" for k
      proof -
        have "k - (i + 1) < length (takeWhile is_blank (drop (i + 1) source))" using k by (simp add: skip_separators_def)
        from set_takeWhileD [OF nth_mem [OF this]] takeWhile_nth [OF this] show ?thesis using k b by simp
      qed
      then show ?thesis using False at b le semi(2) by (auto simp: cut_at_def intro: exI [of _ i])
    qed
  qed
qed

lemma isolate_cuts:
  "no_NUL source \<Longrightarrow> start \<le> i \<Longrightarrow> i \<le> length source \<Longrightarrow> \<exists>r. isolate_from source start i s = Some r \<and> cut_at source start r"
proof (induction source start i s rule: isolate_from.induct)
  case (1 source start i s)
  note nul = "1.prems"(1) and le = "1.prems"(2,3)
  show ?case
  proof (cases "scan_char source start i s")
    case (Inr r)
    then show ?thesis using scan_char_ends [OF nul le Inr] le by (subst isolate_from.simps) simp
  next
    case (Inl x)
    obtain j s' where x: "x = (j, s')" by (cases x)
    have c: "byte_of source i \<noteq> 0" "j = i + 1 \<or> j = i + 2 \<and> PEEK source i \<noteq> 0" using scan_char_on Inl x by auto
    have "i < length source" using c(1) byte_of_0 [OF nul, of i] by simp
    then have "start \<le> j" "j \<le> length source" using c(2) PEEK_0 [OF nul, of i] le by auto
    moreover have "isolate_from source start i s = isolate_from source start j s'" using Inl x le by (subst isolate_from.simps) simp
    ultimately show ?thesis using "1.IH" [OF _ Inl x [symmetric] nul] le x by simp
  qed
qed

section \<open>The statements of a file\<close>

text \<open>The loop of \<open>runFile\<close> when every statement succeeds: the statements, in order; \<open>None\<close> when one is cut short.\<close>

function statements :: "byte list \<Rightarrow> nat \<Rightarrow> byte list list option" where
  "statements source pos =
     (if length source \<le> pos then Some []
      else (case isolateQuery pos source of
        None \<Rightarrow> None
      | Some (query, next) \<Rightarrow> if next \<le> pos then None else map_option ((#) query) (statements source next)))"
  by pat_completeness auto
termination by (relation "measure (\<lambda>(source, pos). length source - pos)") auto

declare statements.simps [simp del]

text \<open>Blanks, a statement, blanks, a statement, and so on: how the statements lie in the source.\<close>

fun laid_out :: "byte list list \<Rightarrow> byte list \<Rightarrow> bool" where
  "laid_out [] src \<longleftrightarrow> src = []"
| "laid_out (q # qs) src \<longleftrightarrow> (\<exists>blanks rest. list_all is_blank blanks \<and> src = q @ blanks @ rest \<and> laid_out qs rest) \<and>
     (qs \<noteq> [] \<longrightarrow> last q = 59) \<and> q \<noteq> []"

lemma statements_laid_out:
  "no_NUL source \<Longrightarrow> pos \<le> Suc (length source) \<Longrightarrow> \<exists>qs. statements source pos = Some qs \<and> laid_out qs (drop pos source)"
proof (induction source pos rule: statements.induct)
  case (1 source pos)
  show ?case
  proof (cases "length source \<le> pos")
    case True
    then show ?thesis by (subst statements.simps) simp
  next
    case False
    obtain q nxt where r: "isolateQuery pos source = Some (q, nxt)" "cut_at source pos (q, nxt)"
      using isolate_cuts [OF "1.prems"(1), of pos pos] False by (fastforce simp: isolateQuery_def)
    then obtain i where i: "pos \<le> i" "i < length source \<and> source ! i = 59 \<and> q = segment source pos (i - pos + 1) \<and>
        i < nxt \<and> nxt \<le> length source \<and> (\<forall>k. i < k \<and> k < nxt \<longrightarrow> is_blank (source ! k)) \<or>
      i = length source \<and> q = drop pos source \<and> nxt = Suc (length source)" by (auto simp: cut_at_def)
    then have more: "pos < nxt" "nxt \<le> Suc (length source)" using False by auto
    then obtain qs where qs: "statements source nxt = Some qs" "laid_out qs (drop nxt source)"
      using "1.IH" [OF False r(1) refl] "1.prems"(1) by auto
    have step: "statements source pos = Some (q # qs)" using False r(1) more qs(1) by (subst statements.simps) simp
    have "laid_out (q # qs) (drop pos source)"
      using i(2)
    proof (elim disjE conjE)
      assume e: "q = drop pos source" "nxt = Suc (length source)"
      then have "qs = []" using qs(2) by (cases qs) auto
      then show ?thesis using e False by (auto intro: exI [of _ "[]"])
    next
      assume s: "i < length source" "source ! i = 59" "q = segment source pos (i - pos + 1)" "i < nxt" "nxt \<le> length source"
        "\<forall>k. i < k \<and> k < nxt \<longrightarrow> is_blank (source ! k)"
      have q: "q = drop pos (take (i + 1) source)" using s(3) i(1) by (simp add: segment_def take_drop)
      have "drop pos source = q @ drop (i + 1) source"
        using append_take_drop_id [of "i + 1 - pos" "drop pos source"] s(3) i(1) by (simp add: segment_def Suc_diff_le)
      moreover have "drop (i + 1) source = segment source (i + 1) (nxt - (i + 1)) @ drop nxt source"
        using append_take_drop_id [of "nxt - (i + 1)" "drop (i + 1) source"] s(4) by (simp add: segment_def)
      moreover have "list_all is_blank (segment source (i + 1) (nxt - (i + 1)))"
        using s(4-6) by (auto simp: list_all_length segment_def)
      moreover have "q \<noteq> []" "last q = 59" using s(1,2) i(1) unfolding q by (simp_all add: last_drop take_Suc_conv_app_nth)
      ultimately show ?thesis using qs(2) by auto
    qed
    with step show ?thesis by blast
  qed
qed

section \<open>Strings and comments do not cut a statement\<close>

text \<open>A statement as a sequence of pieces: plain text, a string, a comment to the end of the line, a block comment. None of the
  bytes of a string or a comment ends it early.\<close>

datatype piece = Plain "byte list" | Quoted "byte list" | Line "byte list" | Block "byte list"

fun no_pair :: "byte \<Rightarrow> byte \<Rightarrow> byte list \<Rightarrow> bool" where
  "no_pair a b (x # y # xs) \<longleftrightarrow> \<not> (x = a \<and> y = b) \<and> no_pair a b (y # xs)"
| "no_pair a b _ \<longleftrightarrow> True"

fun piece_ok :: "piece \<Rightarrow> bool" where
  "piece_ok (Plain cs) \<longleftrightarrow> list_all (\<lambda>c. c \<notin> {0, 39, 59, 92}) cs \<and> no_pair 45 45 cs \<and> no_pair 47 42 cs \<and> last (0 # cs) \<notin> {45, 47}"
| "piece_ok (Quoted cs) \<longleftrightarrow> list_all (\<lambda>c. c \<notin> {0, 39, 92}) cs"
| "piece_ok (Line cs) \<longleftrightarrow> list_all (\<lambda>c. c \<notin> {0, 10}) cs"
| "piece_ok (Block cs) \<longleftrightarrow> 0 \<notin> set cs \<and> no_pair 42 47 cs"

fun piece_text :: "piece \<Rightarrow> byte list" where
  "piece_text (Plain cs) = cs"
| "piece_text (Quoted cs) = 39 # cs @ [39]"
| "piece_text (Line cs) = 45 # 45 # cs @ [10]"
| "piece_text (Block cs) = 47 # 42 # cs @ [42, 47]"

definition idle :: scan_state where
  "idle = \<lparr>singleQuote = False, lineComment = False, multiLineComment = False\<rparr>"

definition scans :: "byte list \<Rightarrow> nat \<Rightarrow> scan_state \<Rightarrow> nat \<Rightarrow> scan_state \<Rightarrow> bool" where
  "scans source i s j s' \<longleftrightarrow> (\<forall>start. isolate_from source start i s = isolate_from source start j s')"

lemma scans_trans [trans]: "scans source i s j s' \<Longrightarrow> scans source j s' k s'' \<Longrightarrow> scans source i s k s''"
  by (simp add: scans_def)

lemma byte_of_append [simp]: "byte_of (pre @ c # rest) (length pre) = c"
  by (simp add: byte_of_def)

lemma PEEK_append [simp]: "PEEK (pre @ c # rest) (length pre) = (case rest of [] \<Rightarrow> 0 | d # _ \<Rightarrow> d)"
  by (cases rest) (simp_all add: PEEK_def nth_append)

lemma scans_char:
  assumes "\<And>start. scan_char (pre @ c # rest) start (length pre) s = Inl (length pre + k, s')"
  shows "scans (pre @ c # rest) (length pre) s (length pre + k) s'"
  unfolding scans_def by (subst (1) isolate_from.simps) (simp add: assms)

lemma scans_all:
  assumes step: "\<And>pre c rest. c \<in> set cs \<Longrightarrow> rest \<noteq> [] \<Longrightarrow> scans (pre @ c # rest) (length pre) s (length pre + 1) s"
  shows "post \<noteq> [] \<Longrightarrow> scans (pre @ cs @ post) (length pre) s (length pre + length cs) s"
  using step
proof (induction cs arbitrary: pre)
  case Nil
  then show ?case by (simp add: scans_def)
next
  case (Cons c cs)
  have "scans (pre @ c # cs @ post) (length pre) s (length pre + 1) s" by (rule Cons.prems(2)) (use Cons.prems(1) in auto)
  moreover have "scans ((pre @ [c]) @ cs @ post) (length (pre @ [c])) s (length (pre @ [c]) + length cs) s"
    by (rule Cons.IH [OF Cons.prems(1)]) (rule Cons.prems(2), simp_all)
  ultimately show ?case by (simp add: scans_def)
qed

lemma scans_marks:
  "scans (pre @ 39 # rest) (length pre) idle (length pre + 1) (idle\<lparr>singleQuote := True\<rparr>)"
  "scans (pre @ 39 # rest) (length pre) (idle\<lparr>singleQuote := True\<rparr>) (length pre + 1) idle"
  "scans (pre @ 45 # 45 # rest) (length pre) idle (length pre + 2) (idle\<lparr>lineComment := True\<rparr>)"
  "scans (pre @ 10 # rest) (length pre) (idle\<lparr>lineComment := True\<rparr>) (length pre + 1) idle"
  "scans (pre @ 47 # 42 # rest) (length pre) idle (length pre + 2) (idle\<lparr>multiLineComment := True\<rparr>)"
  "scans (pre @ 42 # 47 # rest) (length pre) (idle\<lparr>multiLineComment := True\<rparr>) (length pre + 2) idle"
  by (rule scans_char, simp add: scan_char_def Let_def idle_def)+

lemma scans_quoted:
  assumes "piece_ok (Quoted cs)"
  shows "scans (pre @ piece_text (Quoted cs) @ post) (length pre) idle (length (pre @ piece_text (Quoted cs))) idle"
proof -
  let ?q = "idle\<lparr>singleQuote := True\<rparr>" and ?src = "pre @ 39 # cs @ 39 # post"
  have "scans ?src (length pre) idle (length pre + 1) ?q"
    by (rule scans_marks)
  also have "scans ((pre @ [39]) @ cs @ 39 # post) (length (pre @ [39])) ?q (length (pre @ [39]) + length cs) ?q"
  proof (rule scans_all)
    fix pre' c and rest :: "byte list" assume "c \<in> set cs"
    then have "c \<notin> {0, 39, 92}" using assms(1) by (simp add: list_all_iff)
    then show "scans (pre' @ c # rest) (length pre') ?q (length pre' + 1) ?q"
      by (intro scans_char) (simp add: scan_char_def Let_def idle_def)
  qed simp
  then have "scans ?src (length pre + 1) ?q (length pre + 1 + length cs) ?q" by simp
  also have "scans ((pre @ 39 # cs) @ 39 # post) (length (pre @ 39 # cs)) ?q (length (pre @ 39 # cs) + 1) idle"
    by (rule scans_marks)
  then have "scans ?src (length pre + 1 + length cs) ?q (length pre + 1 + length cs + 1) idle" by simp
  finally show ?thesis by simp
qed

lemma scans_line:
  assumes "piece_ok (Line cs)"
  shows "scans (pre @ piece_text (Line cs) @ post) (length pre) idle (length (pre @ piece_text (Line cs))) idle"
proof -
  let ?q = "idle\<lparr>lineComment := True\<rparr>" and ?src = "pre @ 45 # 45 # cs @ 10 # post"
  have "scans ?src (length pre) idle (length pre + 2) ?q"
    by (rule scans_marks)
  also have "scans ((pre @ [45, 45]) @ cs @ 10 # post) (length (pre @ [45, 45])) ?q (length (pre @ [45, 45]) + length cs) ?q"
  proof (rule scans_all)
    fix pre' c and rest :: "byte list" assume "c \<in> set cs"
    then have "c \<notin> {0, 10}" using assms by (simp add: list_all_iff)
    then show "scans (pre' @ c # rest) (length pre') ?q (length pre' + 1) ?q"
      by (intro scans_char) (simp add: scan_char_def Let_def idle_def)
  qed simp
  then have "scans ?src (length pre + 2) ?q (length pre + 2 + length cs) ?q" by simp
  also have "scans ((pre @ 45 # 45 # cs) @ 10 # post) (length (pre @ 45 # 45 # cs)) ?q (length (pre @ 45 # 45 # cs) + 1) idle"
    by (rule scans_marks)
  then have "scans ?src (length pre + 2 + length cs) ?q (length pre + 2 + length cs + 1) idle" by simp
  finally show ?thesis by simp
qed

lemma scans_block_text:
  "0 \<notin> set cs \<Longrightarrow> no_pair 42 47 cs \<Longrightarrow>
    scans (pre @ cs @ 42 # 47 # post) (length pre) (idle\<lparr>multiLineComment := True\<rparr>) (length pre + length cs + 2) idle"
proof (induction cs arbitrary: pre)
  case Nil
  have "scans (pre @ 42 # 47 # post) (length pre) (idle\<lparr>multiLineComment := True\<rparr>) (length pre + 2) idle"
    by (rule scans_marks)
  then show ?case by simp
next
  case (Cons c cs)
  let ?q = "idle\<lparr>multiLineComment := True\<rparr>"
  have "\<not> (c = 42 \<and> (case cs @ 42 # 47 # post of [] \<Rightarrow> 0 | d # _ \<Rightarrow> d) = 47)" using Cons.prems(2) by (cases cs) auto
  moreover have "no_pair 42 47 cs" using Cons.prems(2) by (cases cs) auto
  ultimately have "scans (pre @ c # cs @ 42 # 47 # post) (length pre) ?q (length pre + 1) ?q"
    using Cons.prems(1) by (intro scans_char) (auto simp: scan_char_def Let_def idle_def)
  moreover have "scans ((pre @ [c]) @ cs @ 42 # 47 # post) (length (pre @ [c])) ?q (length (pre @ [c]) + length cs + 2) idle"
    using Cons.prems(1) \<open>no_pair 42 47 cs\<close> by (intro Cons.IH) simp_all
  ultimately show ?case by (simp add: scans_def)
qed

lemma scans_block:
  assumes "piece_ok (Block cs)"
  shows "scans (pre @ piece_text (Block cs) @ post) (length pre) idle (length (pre @ piece_text (Block cs))) idle"
proof -
  let ?q = "idle\<lparr>multiLineComment := True\<rparr>" and ?src = "pre @ 47 # 42 # cs @ 42 # 47 # post"
  have "scans ?src (length pre) idle (length pre + 2) ?q"
    by (rule scans_marks)
  also have "scans ((pre @ [47, 42]) @ cs @ 42 # 47 # post) (length (pre @ [47, 42])) ?q (length (pre @ [47, 42]) + length cs + 2) idle"
    using assms by (intro scans_block_text) simp_all
  then have "scans ?src (length pre + 2) ?q (length pre + 2 + length cs + 2) idle" by simp
  finally show ?thesis by simp
qed

lemma scans_plain:
  "list_all (\<lambda>c. c \<notin> {0, 39, 59, 92}) cs \<Longrightarrow> no_pair 45 45 cs \<Longrightarrow> no_pair 47 42 cs \<Longrightarrow> last (0 # cs) \<notin> {45, 47} \<Longrightarrow>
    scans (pre @ cs @ post) (length pre) idle (length pre + length cs) idle"
proof (induction cs arbitrary: pre)
  case Nil
  then show ?case by (simp add: scans_def)
next
  case (Cons c cs)
  let ?d = "case cs @ post of [] \<Rightarrow> 0 | d # _ \<Rightarrow> d"
  have "\<not> (c = 45 \<and> ?d = 45)" "\<not> (c = 47 \<and> ?d = 42)" using Cons.prems(2-4) by (cases cs; auto)+
  moreover have "c \<notin> {0, 39, 59, 92}" using Cons.prems(1) by simp
  ultimately have "scans (pre @ c # cs @ post) (length pre) idle (length pre + 1) idle"
    by (intro scans_char) (auto simp: scan_char_def Let_def idle_def)
  moreover have "scans ((pre @ [c]) @ cs @ post) (length (pre @ [c])) idle (length (pre @ [c]) + length cs) idle"
    using Cons.prems by (intro Cons.IH) (cases cs; auto)+
  ultimately show ?case by (simp add: scans_def)
qed

lemma scans_piece: "piece_ok p \<Longrightarrow> scans (pre @ piece_text p @ post) (length pre) idle (length (pre @ piece_text p)) idle"
  by (cases p) (use scans_quoted scans_line scans_block scans_plain in \<open>simp_all del: piece_text.simps(2-4) piece_ok.simps(2-4)\<close>)

definition pieces_text :: "piece list \<Rightarrow> byte list" where
  "pieces_text ps = concat (map piece_text ps)"

lemma scans_pieces:
  "list_all piece_ok ps \<Longrightarrow> scans (pre @ pieces_text ps @ post) (length pre) idle (length (pre @ pieces_text ps)) idle"
proof (induction ps arbitrary: pre)
  case Nil
  then show ?case by (simp add: scans_def pieces_text_def)
next
  case (Cons p ps)
  have "scans (pre @ piece_text p @ pieces_text ps @ post) (length pre) idle (length (pre @ piece_text p)) idle"
    using Cons.prems by (intro scans_piece) simp
  moreover have "scans ((pre @ piece_text p) @ pieces_text ps @ post) (length (pre @ piece_text p)) idle (length ((pre @ piece_text p) @ pieces_text ps)) idle"
    using Cons.prems by (intro Cons.IH) simp
  ultimately show ?case by (simp add: scans_def pieces_text_def)
qed

text \<open>A statement is its pieces and a semicolon; in a script blanks follow it.\<close>

definition statement_text :: "piece list \<Rightarrow> byte list" where
  "statement_text ps = pieces_text ps @ [59]"

definition statement_ok :: "piece list \<times> byte list \<Rightarrow> bool" where
  "statement_ok s \<longleftrightarrow> list_all piece_ok (fst s) \<and> list_all is_blank (snd s) \<and> hd (statement_text (fst s)) \<noteq> 0 \<and>
     \<not> is_blank (hd (statement_text (fst s)))"

definition script :: "(piece list \<times> byte list) list \<Rightarrow> byte list" where
  "script ss = concat (map (\<lambda>(ps, blanks). statement_text ps @ blanks) ss)"

lemma hd_statement [simp]: "hd (statement_text ps @ xs) = hd (statement_text ps)"
  by (cases "pieces_text ps") (simp_all add: statement_text_def)

lemma isolate_statement:
  assumes ps: "list_all piece_ok ps" and bl: "list_all is_blank blanks" and rest: "rest \<noteq> [] \<Longrightarrow> hd rest \<noteq> 0 \<and> \<not> is_blank (hd rest)"
  shows "isolateQuery (length pre) (pre @ statement_text ps @ blanks @ rest) =
    Some (statement_text ps, length (pre @ statement_text ps @ blanks))"
proof -
  let ?p = "pre @ pieces_text ps" and ?r = "blanks @ rest"
  let ?src = "?p @ 59 # ?r"
  have "isolate_from ?src (length pre) (length pre) idle = isolate_from ?src (length pre) (length ?p) idle"
    using scans_pieces [OF ps, of pre "59 # ?r"] by (simp add: scans_def)
  also have "\<dots> = Some (segment ?src (length pre) (length ?p - length pre + 1),
      if PEEK ?src (length ?p) = 0 then length ?src else skip_separators ?src (length ?p + 1))"
    using byte_of_append [of ?p 59 ?r] by (subst isolate_from.simps) (simp add: scan_char_def Let_def idle_def)
  also have "segment ?src (length pre) (length ?p - length pre + 1) = statement_text ps"
    by (simp add: segment_def statement_text_def)
  also have "(if PEEK ?src (length ?p) = 0 then length ?src else skip_separators ?src (length ?p + 1)) = length (pre @ statement_text ps @ blanks)"
  proof (cases "?r = []")
    case True
    then show ?thesis using PEEK_append [of ?p 59 ?r] by (simp add: statement_text_def)
  next
    case False
    have "hd ?r \<noteq> 0" using bl rest False by (cases blanks) (auto simp: is_blank_def)
    then have "PEEK ?src (length ?p) \<noteq> 0" using False unfolding PEEK_append by (cases ?r) simp_all
    moreover have "takeWhile is_blank ?r = blanks" using bl rest by (induction blanks) (cases rest; auto)+
    moreover have "drop (length ?p + 1) ?src = ?r" by simp
    ultimately show ?thesis unfolding skip_separators_def by (simp add: statement_text_def)
  qed
  finally show ?thesis by (simp add: isolateQuery_def idle_def statement_text_def)
qed

lemma statements_script:
  "list_all statement_ok ss \<Longrightarrow> statements (pre @ script ss) (length pre) = Some (map (\<lambda>s. statement_text (fst s)) ss)"
proof (induction ss arbitrary: pre)
  case Nil
  then show ?case by (subst statements.simps) (simp add: script_def)
next
  case (Cons s ss)
  obtain ps blanks where s: "s = (ps, blanks)" by (cases s)
  have src: "pre @ script (s # ss) = pre @ statement_text ps @ blanks @ script ss" by (simp add: s script_def)
  have h: "hd (script ss) \<noteq> 0 \<and> \<not> is_blank (hd (script ss))" if "script ss \<noteq> []"
    using Cons.prems that by (cases ss) (auto simp: script_def statement_ok_def)
  have q: "isolateQuery (length pre) (pre @ script (s # ss)) = Some (statement_text ps, length (pre @ statement_text ps @ blanks))"
    unfolding src using Cons.prems h by (intro isolate_statement) (simp_all add: s statement_ok_def)
  have "statements ((pre @ statement_text ps @ blanks) @ script ss) (length (pre @ statement_text ps @ blanks)) =
      Some (map (\<lambda>s. statement_text (fst s)) ss)"
    using Cons.prems by (intro Cons.IH) simp
  then have ih: "statements (pre @ script (s # ss)) (length (pre @ statement_text ps @ blanks)) = Some (map (\<lambda>s. statement_text (fst s)) ss)"
    unfolding src by simp
  have "statement_text ps \<noteq> []" "script (s # ss) \<noteq> []" by (simp_all add: statement_text_def script_def s)
  then show ?case using q ih by (subst statements.simps) (simp add: s)
qed

text \<open>C39: Cutting a file into statements loses and repeats nothing: for every source the loop ends, and the source is its statements in
  order, each ending in a semicolon unless it is the last, with only blanks between them. A script of well-formed
  statements is cut exactly between them, whatever semicolons, quotes and comment marks their strings and comments hold.\<close>

theorem script_is_cut:
  assumes "no_NUL source" "list_all statement_ok ss"
  shows "(\<exists>qs. statements source 0 = Some qs \<and> laid_out qs source) \<and>
    statements (script ss) 0 = Some (map (\<lambda>s. statement_text (fst s)) ss)"
  using statements_laid_out [OF assms(1), of 0] statements_script [OF assms(2), of "[]"] by simp

text \<open>\<open>a';-- '/*;*/;\<close> and \<open>b--;'\<close> with a semicolon on the next line.\<close>

theorem script_is_cut_witness:
  "statements [97, 39, 59, 45, 45, 32, 39, 47, 42, 59, 42, 47, 59, 32, 98, 45, 45, 59, 39, 10, 59] 0 =
     Some [[97, 39, 59, 45, 45, 32, 39, 47, 42, 59, 42, 47, 59], [98, 45, 45, 59, 39, 10, 59]]"
proof -
  let ?ss = "[([Plain [97], Quoted [59, 45, 45, 32], Block [59]], [32]), ([Plain [98], Line [59, 39]], [])]"
  have "list_all statement_ok ?ss" by (simp add: statement_ok_def statement_text_def pieces_text_def is_blank_def)
  from script_is_cut [of "[]", OF _ this] show ?thesis by (simp add: no_NUL_def script_def statement_text_def pieces_text_def)
qed

text \<open>A backslash before a quote is passed over here, and the lexer ends a string at that quote: \<open>'a\';'b'\<close> is cut nowhere.\<close>

theorem backslash_hides_semicolon: "statements [39, 97, 92, 39, 59, 39, 98, 39] 0 = Some [[39, 97, 92, 39, 59, 39, 98, 39]]"
  by code_simp

end
