(* ===== verification/Double.thy ===== *)
theory Double
  imports Ordering
begin

text \<open>
  The arithmetic of C's \<open>double\<close> that \<open>vm.c\<close> and \<open>generator.c\<close> use, on the 64 bits of IEEE 754: in units of \<open>2\<close> to the
  \<open>-1074\<close> every finite value is an integer (\<open>ieee_value\<close>), an operation is exact on these, and its result is rounded to
  the nearest representable value, to even on a tie. The sign and payload of a NaN are not specified by C; one is chosen.
\<close>

section \<open>Rounding\<close>

fun bit_count :: "nat \<Rightarrow> nat" where
  "bit_count n = (if n = 0 then 0 else Suc (bit_count (n div 2)))"

declare bit_count.simps [simp del]

definition nearest_int :: "nat \<Rightarrow> nat \<Rightarrow> nat" where
  "nearest_int a b = (let q = a div b; r = a mod b in if 2 * r < b \<or> 2 * r = b \<and> even q then q else q + 1)"

definition INFINITE :: nat where "INFINITE = 0x7FF0000000000000"

text \<open>The magnitude bits of the double nearest to \<open>a / b\<close> units.\<close>

definition nearest :: "nat \<Rightarrow> nat \<Rightarrow> nat" where
  "nearest a b = (let k = bit_count (a div b) - 53 in min INFINITE (k * 2 ^ 52 + nearest_int a (b * 2 ^ k)))"

definition with_sign :: "bool \<Rightarrow> nat \<Rightarrow> u64" where
  "with_sign neg mag = (if neg then of_nat mag OR SIGN_BIT else of_nat mag)"

section \<open>Operations\<close>

definition magnitude :: "u64 \<Rightarrow> nat" where "magnitude a = unat a mod 2 ^ 63"

definition negative :: "u64 \<Rightarrow> bool" where "negative a = bit a 63"

definition is_nan :: "u64 \<Rightarrow> bool" where "is_nan a \<longleftrightarrow> INFINITE < magnitude a"

definition is_inf :: "u64 \<Rightarrow> bool" where "is_inf a \<longleftrightarrow> magnitude a = INFINITE"

definition NAN :: u64 where "NAN = 0x7FF8000000000000"

definition d_neg :: "u64 \<Rightarrow> u64" where "d_neg a = a XOR SIGN_BIT"

definition d_add :: "u64 \<Rightarrow> u64 \<Rightarrow> u64" where
  "d_add a b =
     (if is_nan a \<or> is_nan b then NAN
      else if is_inf a then (if is_inf b \<and> negative a \<noteq> negative b then NAN else a)
      else if is_inf b then b
      else let s = ieee_value a + ieee_value b
           in if s = 0 then with_sign (negative a \<and> negative b) 0 else with_sign (s < 0) (nearest (nat \<bar>s\<bar>) 1))"

definition d_sub :: "u64 \<Rightarrow> u64 \<Rightarrow> u64" where "d_sub a b = d_add a (d_neg b)"

definition d_mul :: "u64 \<Rightarrow> u64 \<Rightarrow> u64" where
  "d_mul a b =
     (let neg = (negative a \<noteq> negative b) in
      if is_nan a \<or> is_nan b then NAN
      else if is_inf a \<or> is_inf b then (if magnitude a = 0 \<or> magnitude b = 0 then NAN else with_sign neg INFINITE)
      else with_sign neg (nearest (nat \<bar>ieee_value a * ieee_value b\<bar>) (2 ^ 1074)))"

definition d_div :: "u64 \<Rightarrow> u64 \<Rightarrow> u64" where
  "d_div a b =
     (let neg = (negative a \<noteq> negative b) in
      if is_nan a \<or> is_nan b \<or> is_inf a \<and> is_inf b \<or> magnitude a = 0 \<and> magnitude b = 0 then NAN
      else if is_inf a \<or> magnitude b = 0 then with_sign neg INFINITE
      else if is_inf b then with_sign neg 0
      else with_sign neg (nearest (nat \<bar>ieee_value a\<bar> * 2 ^ 1074) (nat \<bar>ieee_value b\<bar>)))"

definition d_less :: "u64 \<Rightarrow> u64 \<Rightarrow> bool" where
  "d_less a b \<longleftrightarrow> \<not> is_nan a \<and> \<not> is_nan b \<and> ieee_value a < ieee_value b"

definition d_equal :: "u64 \<Rightarrow> u64 \<Rightarrow> bool" where
  "d_equal a b \<longleftrightarrow> \<not> is_nan a \<and> \<not> is_nan b \<and> ieee_value a = ieee_value b"

text \<open>The conversion of an \<open>int64_t\<close>.\<close>

definition d_of_int :: "u64 \<Rightarrow> u64" where
  "d_of_int i = with_sign (sint i < 0) (nearest (nat \<bar>sint i\<bar> * 2 ^ 1074) 1)"

section \<open>Numbers in text (atoll, atof)\<close>

text \<open>The tokens converted are digits with at most one dot among them, cut off at 255 bytes.\<close>

definition is_digit :: "byte \<Rightarrow> bool" where "is_digit c \<longleftrightarrow> 48 \<le> c \<and> c \<le> 57"

definition digits_value :: "byte list \<Rightarrow> nat" where
  "digits_value = foldl (\<lambda>n c. 10 * n + (unat c - 48)) 0"

text \<open>A number out of the range of \<open>long long\<close> has no defined value.\<close>

definition atoll :: "byte list \<Rightarrow> u64 option" where
  "atoll s = (let n = digits_value (takeWhile is_digit s) in if n < 2 ^ 63 then Some (of_nat n) else None)"

definition atof :: "byte list \<Rightarrow> u64" where
  "atof s =
     (let whole = takeWhile is_digit s; rest = dropWhile is_digit s;
          part = (case rest of c # cs \<Rightarrow> if c = 46 then takeWhile is_digit cs else [] | [] \<Rightarrow> [])
      in with_sign False (nearest (digits_value (whole @ part) * 2 ^ 1074) (10 ^ length part)))"

section \<open>Rounding is to the nearest\<close>

lemma nearest_int_exact: "0 < b \<Longrightarrow> nearest_int (q * b) b = q"
  by (simp add: nearest_int_def)

lemma bit_count_bounds: "0 < n \<Longrightarrow> 2 ^ (bit_count n - 1) \<le> n \<and> n < 2 ^ bit_count n"
proof (induction n rule: bit_count.induct)
  case (1 n)
  show ?case
  proof (cases "n div 2 = 0")
    case True
    then have "n = 1" using 1 by simp
    then show ?thesis by (simp add: bit_count.simps)
  next
    case False
    let ?k = "bit_count (n div 2)"
    have IH: "2 ^ (?k - 1) \<le> n div 2" "n div 2 < 2 ^ ?k" using 1 False by simp_all
    have "0 < ?k" using False by (subst bit_count.simps) simp
    then have "(2 :: nat) ^ ?k = 2 * 2 ^ (?k - 1)" by (cases ?k) simp_all
    moreover have "bit_count n = Suc ?k" using 1 by (subst bit_count.simps) simp
    ultimately have b: "2 ^ (bit_count n - 1) = 2 * (2 :: nat) ^ (?k - 1)" "2 ^ bit_count n = 4 * (2 :: nat) ^ (?k - 1)" by simp_all
    have "n div 2 < 2 * 2 ^ (?k - 1)" using IH(2) \<open>2 ^ ?k = 2 * 2 ^ (?k - 1)\<close> by simp
    with IH(1) show ?thesis unfolding b by linarith
  qed
qed

text \<open>A value that is a double is its own nearest.\<close>

lemma nearest_exact:
  assumes "mag < INFINITE"
  shows "nearest (ieee_scaled mag) 1 = mag"
proof -
  let ?e = "mag div 2 ^ 52" and ?m = "mag mod 2 ^ 52"
  have m: "?m < 2 ^ 52" by simp
  have split: "mag = ?e * 2 ^ 52 + ?m" by simp
  show ?thesis
  proof (cases "?e \<le> 1")
    case True
    have s: "ieee_scaled mag = mag"
    proof (cases "?e = 0")
      case False
      then have e: "?e = 1" using True by simp
      then have "ieee_scaled mag = 2 ^ 52 + ?m" unfolding ieee_scaled_def Let_def by simp
      then show ?thesis using split unfolding e by simp
    qed (use split in \<open>simp add: ieee_scaled_def Let_def\<close>)
    have "mag < 2 ^ 53" using True m split by (cases "?e = 0") simp_all
    then have "bit_count mag - 53 = 0"
    proof (cases "mag = 0")
      case False
      then have "2 ^ (bit_count mag - 1) < (2 :: nat) ^ 53" using bit_count_bounds [of mag] \<open>mag < 2 ^ 53\<close> by linarith
      then have "bit_count mag - 1 < 53" by (rule power_less_imp_less_exp [rotated]) simp
      then show ?thesis by simp
    qed (simp add: bit_count.simps)
    then show ?thesis using assms s nearest_int_exact [of 1 mag] by (simp add: nearest_def Let_def)
  next
    case False
    then obtain k where k: "?e = Suc k" "0 < k" by (cases ?e) auto
    let ?v = "(2 ^ 52 + ?m) * 2 ^ k"
    have s: "ieee_scaled mag = ?v" using k by (simp add: ieee_scaled_def Let_def)
    have pos: "0 < ?v" by simp
    have lo: "2 ^ (52 + k) \<le> ?v" by (simp add: power_add)
    have hi: "?v < 2 ^ (53 + k)"
    proof -
      have "2 ^ 52 + ?m < 2 ^ 53" using m by simp
      then have "?v < 2 ^ 53 * 2 ^ k" by (intro mult_strict_right_mono) simp_all
      then show ?thesis by (simp add: power_add)
    qed
    have "52 + k < bit_count ?v"
      by (rule power_less_imp_less_exp [of "2 :: nat"]) (use lo bit_count_bounds [OF pos] in linarith)+
    moreover have "bit_count ?v - 1 < 53 + k"
      by (rule power_less_imp_less_exp [of "2 :: nat"]) (use hi bit_count_bounds [OF pos] in linarith)+
    ultimately have "bit_count ?v - 53 = k" by simp
    then have "nearest ?v 1 = min INFINITE (k * 2 ^ 52 + (2 ^ 52 + ?m))"
      using nearest_int_exact [of "2 ^ k" "2 ^ 52 + ?m"] by (simp add: nearest_def Let_def)
    also have "k * 2 ^ 52 + (2 ^ 52 + ?m) = mag" using split k(1) by (metis add.assoc add.commute mult_Suc)
    finally show ?thesis using assms s by simp
  qed
qed

end
