(* ===== verification/Chunk.thy ===== *)
theory Chunk
  imports Double
begin

text \<open>
  \<open>SQL_interpreter/chunk.h\<close>, \<open>chunk.c\<close> and the value arrays of \<open>value.c\<close>: bytecode with its constants. A growing array is
  the list of what it holds and its capacity; allocation does not fail. An opcode is its number in the enumeration.
\<close>

record ValueArray =
  vcapacity :: nat
  vals :: "val list"

record chunk =
  code :: "byte list"
  ccapacity :: nat
  lines :: "nat list"
  constants :: ValueArray
  dynamics :: ValueArray

abbreviation OP_CONSTANT :: byte where "OP_CONSTANT \<equiv> 0"
abbreviation OP_NULL :: byte where "OP_NULL \<equiv> 1"
abbreviation OP_TRUE :: byte where "OP_TRUE \<equiv> 2"
abbreviation OP_FALSE :: byte where "OP_FALSE \<equiv> 3"
abbreviation OP_POP :: byte where "OP_POP \<equiv> 4"
abbreviation OP_ADD :: byte where "OP_ADD \<equiv> 5"
abbreviation OP_SUBTRACT :: byte where "OP_SUBTRACT \<equiv> 6"
abbreviation OP_MULTIPLY :: byte where "OP_MULTIPLY \<equiv> 7"
abbreviation OP_DIVIDE :: byte where "OP_DIVIDE \<equiv> 8"
abbreviation OP_NEGATE :: byte where "OP_NEGATE \<equiv> 9"
abbreviation OP_EQUAL :: byte where "OP_EQUAL \<equiv> 10"
abbreviation OP_NOT_EQUAL :: byte where "OP_NOT_EQUAL \<equiv> 11"
abbreviation OP_LESS :: byte where "OP_LESS \<equiv> 12"
abbreviation OP_LESS_EQUAL :: byte where "OP_LESS_EQUAL \<equiv> 13"
abbreviation OP_GREATER :: byte where "OP_GREATER \<equiv> 14"
abbreviation OP_GREATER_EQUAL :: byte where "OP_GREATER_EQUAL \<equiv> 15"
abbreviation OP_LIKE :: byte where "OP_LIKE \<equiv> 16"
abbreviation OP_IS_NULL :: byte where "OP_IS_NULL \<equiv> 17"
abbreviation OP_NOT_NULL :: byte where "OP_NOT_NULL \<equiv> 18"
abbreviation OP_NOT :: byte where "OP_NOT \<equiv> 19"
abbreviation OP_JUMP :: byte where "OP_JUMP \<equiv> 20"
abbreviation OP_JUMP_FALSE :: byte where "OP_JUMP_FALSE \<equiv> 21"
abbreviation OP_JUMP_TRUE :: byte where "OP_JUMP_TRUE \<equiv> 22"
abbreviation OP_OPEN_SCAN :: byte where "OP_OPEN_SCAN \<equiv> 23"
abbreviation OP_CLOSE_SCAN :: byte where "OP_CLOSE_SCAN \<equiv> 24"
abbreviation OP_NEXT :: byte where "OP_NEXT \<equiv> 25"
abbreviation OP_KEY_SEARCH :: byte where "OP_KEY_SEARCH \<equiv> 26"
abbreviation OP_REWIND :: byte where "OP_REWIND \<equiv> 27"
abbreviation OP_COLUMN :: byte where "OP_COLUMN \<equiv> 28"
abbreviation OP_EMIT_ROW :: byte where "OP_EMIT_ROW \<equiv> 29"
abbreviation OP_INSERT_ROW :: byte where "OP_INSERT_ROW \<equiv> 30"
abbreviation OP_UPDATE_COL :: byte where "OP_UPDATE_COL \<equiv> 31"
abbreviation OP_DELETE_ROW :: byte where "OP_DELETE_ROW \<equiv> 32"
abbreviation OP_CREATE_TABLE :: byte where "OP_CREATE_TABLE \<equiv> 33"
abbreviation OP_DROP_TABLE :: byte where "OP_DROP_TABLE \<equiv> 34"
abbreviation OP_SORT :: byte where "OP_SORT \<equiv> 35"
abbreviation OP_LIMIT :: byte where "OP_LIMIT \<equiv> 36"
abbreviation OP_SET_RESULT :: byte where "OP_SET_RESULT \<equiv> 37"
abbreviation OP_HALT :: byte where "OP_HALT \<equiv> 38"
abbreviation OP_BEGIN_TRANSACTION :: byte where "OP_BEGIN_TRANSACTION \<equiv> 39"
abbreviation OP_COMMIT :: byte where "OP_COMMIT \<equiv> 40"
abbreviation OP_DISCARD :: byte where "OP_DISCARD \<equiv> 41"
abbreviation OP_COLLECT_GARBAGE :: byte where "OP_COLLECT_GARBAGE \<equiv> 42"

definition initValueArray :: ValueArray where
  "initValueArray = \<lparr>vcapacity = 0, vals = []\<rparr>"

definition writeValueArray :: "val \<Rightarrow> ValueArray \<Rightarrow> ValueArray" where
  "writeValueArray v a =
     (let a = (if vcapacity a < length (vals a) + 1 then a\<lparr>vcapacity := GROW_CAPACITY (vcapacity a)\<rparr> else a)
      in a\<lparr>vals := vals a @ [v]\<rparr>)"

definition initChunk :: chunk where
  "initChunk = \<lparr>code = [], ccapacity = 0, lines = [], constants = initValueArray, dynamics = initValueArray\<rparr>"

definition writeChunk :: "byte \<Rightarrow> nat \<Rightarrow> chunk \<Rightarrow> chunk" where
  "writeChunk b line c =
     (let c = (if ccapacity c < length (code c) + 1 then c\<lparr>ccapacity := GROW_CAPACITY (ccapacity c)\<rparr> else c)
      in c\<lparr>lines := lines c @ [line], code := code c @ [b]\<rparr>)"

definition addConstant :: "val \<Rightarrow> chunk \<Rightarrow> nat \<times> chunk" where
  "addConstant v c = (let c = c\<lparr>constants := writeValueArray v (constants c)\<rparr> in (length (vals (constants c)) - 1, c))"

definition addDynamic :: "val \<Rightarrow> chunk \<Rightarrow> nat \<times> chunk" where
  "addDynamic v c = (let c = c\<lparr>dynamics := writeValueArray v (dynamics c)\<rparr> in (length (vals (dynamics c)) - 1, c))"

text \<open>Freeing a chunk ends by initialising it again.\<close>

definition freeChunk :: "chunk \<Rightarrow> chunk" where
  "freeChunk c = initChunk"

lemma writeValueArray_vals [simp]: "vals (writeValueArray v a) = vals a @ [v]"
  by (simp add: writeValueArray_def Let_def)

lemma writeChunk_fields [simp]:
  "code (writeChunk b l c) = code c @ [b]" "constants (writeChunk b l c) = constants c" "lines (writeChunk b l c) = lines c @ [l]"
  "dynamics (writeChunk b l c) = dynamics c"
  by (simp_all add: writeChunk_def Let_def)

lemma addConstant_fields [simp]:
  "fst (addConstant v c) = length (vals (constants c))" "vals (constants (snd (addConstant v c))) = vals (constants c) @ [v]"
  "code (snd (addConstant v c)) = code c"
  by (simp_all add: addConstant_def Let_def)

lemma addDynamic_fields [simp]:
  "constants (snd (addDynamic v c)) = constants c" "code (snd (addDynamic v c)) = code c"
  by (simp_all add: addDynamic_def Let_def)

end
