(* ===== verification/Generator.thy ===== *)
theory Generator
  imports Chunk Schema Parser "HOL-Library.Monad_Syntax"
begin

text \<open>
  \<open>SQL_interpreter/generator.c\<close>: a syntax tree becomes bytecode. \<open>None\<close> is undefined behaviour: a NULL child that is read, a
  number out of the range of \<open>long long\<close>, the sixty-fifth jump of an IN list written behind the array that keeps them, a
  schema search that does not return. What is printed is not modelled.
\<close>

definition MAX_IDENT_LEN :: nat where "MAX_IDENT_LEN = 256"

definition CONSTRAINT_NOT_NULL :: nat where "CONSTRAINT_NOT_NULL = 1"
definition CONSTRAINT_PRIMARY_KEY :: nat where "CONSTRAINT_PRIMARY_KEY = 2"

definition getConstraint :: "byte \<Rightarrow> nat" where
  "getConstraint typeCode = unat (drop_bit 5 (typeCode AND 0b11100000))"

text \<open>The index goes through a \<open>uint8_t\<close>; 255 is no primary key.\<close>

definition getPkIdx :: "schema \<Rightarrow> nat" where
  "getPkIdx s = (case find (\<lambda>i. getConstraint (colTypes s ! i) = CONSTRAINT_PRIMARY_KEY) [0..<scount s] of
     None \<Rightarrow> 255 | Some i \<Rightarrow> i mod 256)"

definition token_bytes :: "token \<Rightarrow> byte list" where
  "token_bytes tok = map (\<lambda>c. of_nat (char_code c)) (ttext tok)"

definition tokenToStr :: "token \<Rightarrow> byte list" where
  "tokenToStr tok = c_string (take (MAX_IDENT_LEN - 1) (token_bytes tok))"

definition lookupSchema :: "byte list \<Rightarrow> hashtable \<Rightarrow> schema option option" where
  "lookupSchema name ht = readHT (hashString name (c_strlen name)) ht"

definition lookupColIdx :: "byte list \<Rightarrow> schema \<Rightarrow> nat option" where
  "lookupColIdx colname s = find (\<lambda>i. c_string (colNames s ! i) = c_string colname) [0..<scount s]"

section \<open>Writing code\<close>

definition writeStaticConst :: "val \<Rightarrow> chunk \<Rightarrow> chunk" where
  "writeStaticConst v c = (let (idx, c) = addConstant v c in writeChunk (of_nat idx) 0 (writeChunk OP_CONSTANT 0 c))"

definition writeDynamicConst :: "val \<Rightarrow> chunk \<Rightarrow> chunk" where
  "writeDynamicConst v c = snd (addDynamic v (writeStaticConst v c))"

definition emitJump :: "byte \<Rightarrow> chunk \<Rightarrow> nat \<times> chunk" where
  "emitJump op c = (let c = writeChunk 0xFF 0 (writeChunk 0xFF 0 (writeChunk op 0 c)) in (length (code c) - 2, c))"

definition hi8 :: "u16 \<Rightarrow> byte" where "hi8 w = ucast (drop_bit 8 w)"
definition lo8 :: "u16 \<Rightarrow> byte" where "lo8 w = ucast (w AND 0xFF)"

definition patchJump :: "nat \<Rightarrow> chunk \<Rightarrow> chunk" where
  "patchJump pos c =
     (let jump = word_of_int (int (length (code c)) - (int pos + 2)) :: u16
      in c\<lparr>code := (code c)[pos := hi8 jump, pos + 1 := lo8 jump]\<rparr>)"

definition emitBackJump :: "byte \<Rightarrow> nat \<Rightarrow> chunk \<Rightarrow> chunk" where
  "emitBackJump op target c =
     (let c = writeChunk op 0 c; jump = word_of_int (int target - (int (length (code c)) + 2)) :: u16
      in writeChunk (lo8 jump) 0 (writeChunk (hi8 jump) 0 c))"

section \<open>Expressions\<close>

lemma child_size:
  assumes "child i n = Some k" "i < length (children n)"
  shows "size k < size n"
proof -
  obtain ty tok fl cs where n: "n = Node ty tok fl cs" by (cases n)
  have "Some k \<in> set cs" using assms by (metis child_def n ast_node.sel(4) nth_mem)
  then have "size_option size (Some k) \<le> size_list (size_option size) cs" by (rule size_list_estimation') simp
  then show ?thesis unfolding n by simp
qed

text \<open>A child read through its pointer.\<close>

definition kid :: "nat \<Rightarrow> ast_node \<Rightarrow> ast_node option" where
  "kid i n = (if i < length (children n) then child i n else None)"

lemma kid_size [termination_simp]: "kid i n = Some k \<Longrightarrow> size k < size n"
  by (auto simp: kid_def dest: child_size split: if_splits)

lemma kid_sizes:
  assumes "kid i n = Some a" "kid j n = Some b" "i \<noteq> j"
  shows "size a + size b < size n"
proof -
  obtain ty tok fl cs where n: "n = Node ty tok fl cs" by (cases n)
  have two: "f (xs ! i) + f (xs ! j) \<le> size_list f xs" if "i < j" "j < length xs" for i j and f :: "'a \<Rightarrow> nat" and xs
    using that
  proof (induction xs arbitrary: i j)
    case (Cons x xs)
    then show ?case using size_list_estimation' [of "xs ! (j - 1)" xs "f (xs ! (j - 1))" f] by (cases i; cases j) force+
  qed simp
  have k: "cs ! i = Some a" "cs ! j = Some b" "i < length cs" "j < length cs" using assms by (auto simp: n kid_def child_def split: if_splits)
  have "size_option size (cs ! i) + size_option size (cs ! j) \<le> size_list (size_option size) cs"
    using two [of i j cs "size_option size"] two [of j i cs "size_option size"] assms(3) k(3,4) by (cases "i < j") auto
  with k(1,2) show ?thesis unfolding n by simp
qed

text \<open>The items of a linked list of list nodes, in order.\<close>

function list_items :: "ast_node option \<Rightarrow> ast_node list" where
  "list_items None = []"
| "list_items (Some n) = n # list_items (kid 1 n)"
  by pat_completeness auto
termination
  by (relation "measure (\<lambda>x. case x of None \<Rightarrow> 0 | Some n \<Rightarrow> Suc (size n))") (auto split: option.split dest: kid_size)

definition comparison_op :: "token_type \<Rightarrow> byte option" where
  "comparison_op t =
     (if t = TOKEN_EQUAL then Some OP_EQUAL else if t = TOKEN_BANG_EQUAL then Some OP_NOT_EQUAL
      else if t = TOKEN_LESS then Some OP_LESS else if t = TOKEN_LESS_EQUAL then Some OP_LESS_EQUAL
      else if t = TOKEN_GREATER then Some OP_GREATER else if t = TOKEN_GREATER_EQUAL then Some OP_GREATER_EQUAL
      else if t = TOKEN_LIKE then Some OP_LIKE else None)"

text \<open>A literal or a column. A name that is not a column emits nothing, like a function call or a name where there is no table.\<close>

definition munchPrimary :: "ast_node \<Rightarrow> schema option \<Rightarrow> chunk \<Rightarrow> chunk option" where
  "munchPrimary n s c =
     (let tok = node_tok n; t = ttype tok in
      if t = TOKEN_NUMBER then
        (let numStr = tokenToStr tok in
         if 46 \<in> set numStr then Some (writeStaticConst (VFloat (atof numStr)) c)
         else do { i \<leftarrow> atoll numStr; Some (writeStaticConst (VInt i) c) })
      else if t = TOKEN_STRING then
        (if length (token_bytes tok) < 2 then None
         else Some (writeDynamicConst (VText (c_string (segment (token_bytes tok) 1 (length (token_bytes tok) - 2)))) c))
      else if t = TOKEN_IDENTIFIER then
        (if node_flag n \<noteq> FLAG_NULL then Some c
         else (case s of
             None \<Rightarrow> Some c
           | Some s \<Rightarrow> (case lookupColIdx (tokenToStr tok) s of
               None \<Rightarrow> Some c
             | Some idx \<Rightarrow> Some (writeChunk (of_nat idx) 0 (writeChunk OP_COLUMN 0 c)))))
      else if t = TOKEN_NULL then Some (writeChunk OP_NULL 0 c)
      else Some c)"

text \<open>The code of an IN list: \<open>munch_in\<close> is its loop, with the jumps to patch.\<close>

function munchExpr :: "ast_node \<Rightarrow> schema option \<Rightarrow> chunk \<Rightarrow> chunk option"
  and munch_in :: "ast_node \<Rightarrow> ast_node \<Rightarrow> schema option \<Rightarrow> nat list \<Rightarrow> chunk \<Rightarrow> (nat list \<times> chunk) option" where
  "munchExpr n s c =
     (if node_type n = TYPE_OR_EXPR then do {
        l \<leftarrow> kid 0 n; c \<leftarrow> munchExpr l s c;
        let (truePatch, c) = emitJump OP_JUMP_TRUE c;
        r \<leftarrow> kid 1 n; c \<leftarrow> munchExpr r s c;
        let (donePatch, c) = emitJump OP_JUMP c;
        Some (patchJump donePatch (writeChunk OP_TRUE 0 (patchJump truePatch c)))
      }
      else if node_type n = TYPE_AND_EXPR then do {
        l \<leftarrow> kid 0 n; c \<leftarrow> munchExpr l s c;
        let (falsePatch, c) = emitJump OP_JUMP_FALSE c;
        r \<leftarrow> kid 1 n; c \<leftarrow> munchExpr r s c;
        let (donePatch, c) = emitJump OP_JUMP c;
        Some (patchJump donePatch (writeChunk OP_FALSE 0 (patchJump falsePatch c)))
      }
      else if node_type n = TYPE_NOT_EXPR then do { e \<leftarrow> kid 0 n; c \<leftarrow> munchExpr e s c; Some (writeChunk OP_NOT 0 c) }
      else if node_type n = TYPE_COMPARISON then
        (case comparison_op (ttype (node_tok n)) of
           Some op \<Rightarrow> do { l \<leftarrow> kid 0 n; c \<leftarrow> munchExpr l s c; r \<leftarrow> kid 1 n; c \<leftarrow> munchExpr r s c; Some (writeChunk op 0 c) }
         | None \<Rightarrow>
             if ttype (node_tok n) = TOKEN_IS then do {
               e \<leftarrow> kid 0 n; c \<leftarrow> munchExpr e s c;
               Some (writeChunk (if node_flag n \<noteq> FLAG_NULL then OP_NOT_NULL else OP_IS_NULL) 0 c)
             }
             else if ttype (node_tok n) = TOKEN_BETWEEN then do {
               x \<leftarrow> kid 0 n; c \<leftarrow> munchExpr x s c;
               lo \<leftarrow> kid 1 n; c \<leftarrow> munchExpr lo s c;
               let (falsePatch, c) = emitJump OP_JUMP_FALSE (writeChunk OP_GREATER_EQUAL 0 c);
               c \<leftarrow> munchExpr x s c;
               hi \<leftarrow> kid 2 n; c \<leftarrow> munchExpr hi s c;
               let (donePatch, c) = emitJump OP_JUMP (writeChunk OP_LESS_EQUAL 0 c);
               Some (patchJump donePatch (writeChunk OP_FALSE 0 (patchJump falsePatch c)))
             }
             else if ttype (node_tok n) = TOKEN_IN then do {
               x \<leftarrow> kid 0 n;
               (found, c) \<leftarrow> (case kid 1 n of None \<Rightarrow> Some ([], c) | Some l \<Rightarrow> munch_in x l s [] c);
               let (donePatch, c) = emitJump OP_JUMP c;
               let c = patchJump donePatch (writeChunk OP_TRUE 0 (fold patchJump found c));
               Some (if node_flag n \<noteq> FLAG_NULL then writeChunk OP_NOT 0 c else c)
             }
             else Some c)
      else if node_type n = TYPE_ADDITIVE then do {
        l \<leftarrow> kid 0 n; c \<leftarrow> munchExpr l s c; r \<leftarrow> kid 1 n; c \<leftarrow> munchExpr r s c;
        Some (writeChunk (if ttype (node_tok n) = TOKEN_PLUS then OP_ADD else OP_SUBTRACT) 0 c)
      }
      else if node_type n = TYPE_MULTIPLICATIVE then do {
        l \<leftarrow> kid 0 n; c \<leftarrow> munchExpr l s c; r \<leftarrow> kid 1 n; c \<leftarrow> munchExpr r s c;
        Some (writeChunk (if ttype (node_tok n) = TOKEN_STAR then OP_MULTIPLY else OP_DIVIDE) 0 c)
      }
      else if node_type n = TYPE_UNARY then do { e \<leftarrow> kid 0 n; c \<leftarrow> munchExpr e s c; Some (writeChunk OP_NEGATE 0 c) }
      else if node_type n = TYPE_PRIMARY then munchPrimary n s c
      else Some c)"
| "munch_in x l s found c = do {
     c \<leftarrow> munchExpr x s c;
     v \<leftarrow> kid 0 l;
     c \<leftarrow> munchExpr v s c;
     let c = writeChunk OP_EQUAL 0 c;
     case kid 1 l of
       None \<Rightarrow> Some (found, c)
     | Some rest \<Rightarrow>
         if 64 \<le> length found then None
         else let (pos, c) = emitJump OP_JUMP_TRUE c in munch_in x rest s (found @ [pos]) c
   }"
  by pat_completeness auto
termination
  by (relation "measure (\<lambda>x. case x of Inl (n, _) \<Rightarrow> 2 * size n | Inr (x, l, _) \<Rightarrow> Suc (2 * (size x + size l)))")
    (auto dest: kid_size kid_sizes)

declare munchExpr.simps [simp del] munch_in.simps [simp del]

section \<open>Statements\<close>

text \<open>Whether the rows can be found by the primary key: the layers of the condition are unwrapped to their first child.\<close>

definition unwrap :: "ast_type \<Rightarrow> ast_node \<Rightarrow> ast_node option" where
  "unwrap ty n = (if node_type n = ty then kid 0 n else Some n)"

definition checkWhereForPK :: "ast_node \<Rightarrow> schema \<Rightarrow> nat \<Rightarrow> chunk \<Rightarrow> (bool \<times> chunk) option" where
  "checkWhereForPK whr s pkIdx c = do {
     n \<leftarrow> kid 0 whr;
     n \<leftarrow> unwrap TYPE_OR_EXPR n; n \<leftarrow> unwrap TYPE_AND_EXPR n; n \<leftarrow> unwrap TYPE_NOT_EXPR n;
     if node_type n \<noteq> TYPE_COMPARISON \<or> ttype (node_tok n) \<noteq> TOKEN_EQUAL then Some (False, c)
     else do {
       lhs \<leftarrow> kid 0 n; rhs \<leftarrow> kid 1 n;
       let (lhs, rhs) = (if node_type rhs = TYPE_PRIMARY \<and> ttype (node_tok rhs) = TOKEN_IDENTIFIER then (rhs, lhs) else (lhs, rhs));
       if node_type lhs \<noteq> TYPE_PRIMARY \<or> ttype (node_tok lhs) \<noteq> TOKEN_IDENTIFIER then Some (False, c)
       else if node_type rhs \<noteq> TYPE_PRIMARY then Some (False, c)
       else if scount s \<le> pkIdx then Some (False, c)
       else if c_string (tokenToStr (node_tok lhs)) \<noteq> c_string (colNames s ! pkIdx) then Some (False, c)
       else if ttype (node_tok rhs) = TOKEN_IDENTIFIER then Some (False, c)
       else do { c \<leftarrow> munchExpr rhs (Some s) c; Some (True, c) }
     }
   }"

text \<open>What SELECT, UPDATE and DELETE start with: the table is opened, and the scan is a search by key or a loop with its
  condition. The result is the position to patch with the exit, whether it is a search, and the top of the loop.\<close>

definition open_table :: "schema \<Rightarrow> u32 \<Rightarrow> chunk \<Rightarrow> chunk" where
  "open_table s hash c = writeChunk (of_nat (getPkIdx s)) 0 (writeChunk OP_OPEN_SCAN 0 (writeStaticConst (VU32 hash) c))"

definition start_scan :: "ast_node option \<Rightarrow> schema \<Rightarrow> chunk \<Rightarrow> (nat \<times> bool \<times> nat \<times> chunk) option" where
  "start_scan whr s c = do {
     let loopTop = length (code c);
     (pkScan, c) \<leftarrow> (case whr of None \<Rightarrow> Some (False, c) | Some w \<Rightarrow> checkWhereForPK w s (getPkIdx s) c);
     if pkScan then (let (nextPatch, c) = emitJump OP_KEY_SEARCH c in Some (nextPatch, True, loopTop, c))
     else do {
       let (nextPatch, c) = emitJump OP_NEXT c;
       case whr of
         None \<Rightarrow> Some (nextPatch, False, loopTop, c)
       | Some w \<Rightarrow> do { e \<leftarrow> kid 0 w; c \<leftarrow> munchExpr e (Some s) c; Some (nextPatch, False, loopTop, emitBackJump OP_JUMP_FALSE loopTop c) }
     }
   }"

definition write_column :: "nat \<Rightarrow> chunk \<Rightarrow> chunk" where
  "write_column i c = writeChunk (of_nat i) 0 (writeChunk OP_COLUMN 0 c)"

fun munch_items :: "ast_node list \<Rightarrow> schema \<Rightarrow> nat \<Rightarrow> chunk \<Rightarrow> (nat \<times> chunk) option" where
  "munch_items [] s colCount c = Some (colCount, c)"
| "munch_items (l # ls) s colCount c = do {
     item \<leftarrow> kid 0 l;
     c \<leftarrow> (case kid 0 item of
        None \<Rightarrow> Some c
      | Some e \<Rightarrow>
          if node_type e = TYPE_PRIMARY \<and> ttype (node_tok e) = TOKEN_IDENTIFIER then
            (case lookupColIdx (tokenToStr (node_tok e)) s of None \<Rightarrow> Some c | Some idx \<Rightarrow> Some (write_column idx c))
          else munchExpr e (Some s) c);
     munch_items ls s (Suc colCount) c
   }"

definition munch_select :: "ast_node \<Rightarrow> chunk \<Rightarrow> hashtable \<Rightarrow> (bool \<times> chunk) option" where
  "munch_select n c ht = do {
     name \<leftarrow> kid 1 n;
     found \<leftarrow> lookupSchema (tokenToStr (node_tok name)) ht;
     case found of
       None \<Rightarrow> Some (False, c)
     | Some s \<Rightarrow> do {
         let c = writeChunk OP_REWIND 0 (open_table s (shash s) c);
         (nextPatch, pkScan, loopTop, c) \<leftarrow> start_scan (kid 2 n) s c;
         let star = (case kid 0 n of None \<Rightarrow> False | Some l \<Rightarrow> (case kid 0 l of None \<Rightarrow> False | Some item \<Rightarrow> node_flag item \<noteq> FLAG_NULL));
         (colCount, c) \<leftarrow> (if star then Some (scount s, fold write_column [0..<scount s] c) else munch_items (list_items (kid 0 n)) s 0 c);
         let c = writeChunk (of_nat colCount) 0 (writeChunk OP_EMIT_ROW 0 c);
         let c = (if pkScan then c else emitBackJump OP_JUMP loopTop c);
         Some (True, writeChunk OP_SET_RESULT 0 (writeChunk OP_CLOSE_SCAN 0 (patchJump nextPatch c)))
       }
   }"

fun munch_values :: "ast_node list \<Rightarrow> nat \<Rightarrow> chunk \<Rightarrow> (nat \<times> chunk) option" where
  "munch_values [] valCount c = Some (valCount, c)"
| "munch_values (l # ls) valCount c = do { v \<leftarrow> kid 0 l; c \<leftarrow> munchExpr v None c; munch_values ls (Suc valCount) c }"

definition munch_insert :: "ast_node \<Rightarrow> chunk \<Rightarrow> hashtable \<Rightarrow> (bool \<times> chunk) option" where
  "munch_insert n c ht = do {
     name \<leftarrow> kid 0 n;
     let t = tokenToStr (node_tok name);
     let hash = hashString t (c_strlen t);
     found \<leftarrow> readHT hash ht;
     case found of
       None \<Rightarrow> Some (False, c)
     | Some s \<Rightarrow> do {
         (valCount, c) \<leftarrow> munch_values (list_items (kid 2 n)) 0 (open_table s hash c);
         Some (True, writeChunk OP_CLOSE_SCAN 0 (writeChunk (of_nat valCount) 0 (writeChunk OP_INSERT_ROW 0 c)))
       }
   }"

text \<open>A column that is not in the schema has the index \<open>-1\<close>, written as 255.\<close>

fun munch_assignments :: "ast_node list \<Rightarrow> schema \<Rightarrow> chunk \<Rightarrow> chunk option" where
  "munch_assignments [] s c = Some c"
| "munch_assignments (l # ls) s c = do {
     asgmt \<leftarrow> kid 0 l;
     e \<leftarrow> kid 1 asgmt;
     c \<leftarrow> munchExpr e (Some s) c;
     name \<leftarrow> kid 0 asgmt;
     let idx = (case lookupColIdx (tokenToStr (node_tok name)) s of None \<Rightarrow> (-1 :: byte) | Some i \<Rightarrow> of_nat i);
     munch_assignments ls s (writeChunk idx 0 (writeChunk OP_UPDATE_COL 0 c))
   }"

definition munch_update :: "ast_node \<Rightarrow> chunk \<Rightarrow> hashtable \<Rightarrow> (bool \<times> chunk) option" where
  "munch_update n c ht = do {
     name \<leftarrow> kid 0 n;
     found \<leftarrow> lookupSchema (tokenToStr (node_tok name)) ht;
     case found of
       None \<Rightarrow> Some (False, c)
     | Some s \<Rightarrow> do {
         let c = writeChunk OP_REWIND 0 (open_table s (shash s) c);
         (nextPatch, pkScan, loopTop, c) \<leftarrow> start_scan (kid 2 n) s c;
         c \<leftarrow> munch_assignments (list_items (kid 1 n)) s c;
         let c = (if pkScan then c else emitBackJump OP_JUMP loopTop c);
         Some (True, writeChunk OP_CLOSE_SCAN 0 (patchJump nextPatch c))
       }
   }"

definition munch_delete :: "ast_node \<Rightarrow> chunk \<Rightarrow> hashtable \<Rightarrow> (bool \<times> chunk) option" where
  "munch_delete n c ht = do {
     name \<leftarrow> kid 0 n;
     found \<leftarrow> lookupSchema (tokenToStr (node_tok name)) ht;
     case found of
       None \<Rightarrow> Some (False, c)
     | Some s \<Rightarrow> do {
         let c = writeChunk OP_REWIND 0 (open_table s (shash s) c);
         (nextPatch, pkScan, loopTop, c) \<leftarrow> start_scan (kid 1 n) s c;
         let c = writeChunk OP_DELETE_ROW 0 c;
         let c = (if pkScan then c else emitBackJump OP_JUMP loopTop c);
         Some (True, writeChunk OP_CLOSE_SCAN 0 (patchJump nextPatch c))
       }
   }"

text \<open>\<open>SQL_type\<close> as the number stored in the schema, by the name of the type, in any case.\<close>

definition SQL_code :: "SQL_type \<Rightarrow> byte" where
  "SQL_code t = (case t of SQL_NULL \<Rightarrow> 0 | SQL_TEXT \<Rightarrow> 1 | SQL_BOOL \<Rightarrow> 2 | SQL_INT \<Rightarrow> 3 | SQL_FLOAT \<Rightarrow> 4 | SQL_DOUBLE \<Rightarrow> 5
     | SQL_DATE \<Rightarrow> 6 | SQL_DATETIME \<Rightarrow> 7 | SQL_TIME \<Rightarrow> 8)"

definition type_names :: "(string \<times> SQL_type) list" where
  "type_names = [(''TEXT'', SQL_TEXT), (''BOOL'', SQL_BOOL), (''BOOLEAN'', SQL_BOOL), (''INT'', SQL_INT), (''INTEGER'', SQL_INT),
     (''FLOAT'', SQL_FLOAT), (''DOUBLE'', SQL_DOUBLE), (''DATETIME'', SQL_DATETIME), (''DATE'', SQL_DATE), (''TIME'', SQL_TIME)]"

definition lower :: "byte \<Rightarrow> byte" where
  "lower b = (if 65 \<le> b \<and> b \<le> 90 then b + 32 else b)"

definition named_type :: "byte list \<Rightarrow> SQL_type" where
  "named_type name =
     (case find (\<lambda>(n, t). map lower (map (\<lambda>c. of_nat (char_code c)) n) = map lower name) type_names of
        None \<Rightarrow> SQL_TEXT | Some (n, t) \<Rightarrow> t)"

definition column_type :: "ast_node \<Rightarrow> byte list \<Rightarrow> byte" where
  "column_type def tyname =
     (let constraint = (if node_flag def = FLAG_NOT_NULL_CONSTRAINT then CONSTRAINT_NOT_NULL
                        else if node_flag def = FLAG_PRIMARY_KEY_CONSTRAINT then CONSTRAINT_PRIMARY_KEY else 0)
      in SQL_code (named_type tyname) OR push_bit 5 (of_nat constraint))"

fun munch_columns :: "ast_node list \<Rightarrow> (byte list list \<times> byte list) option" where
  "munch_columns [] = Some ([], [])"
| "munch_columns (l # ls) = do {
     def \<leftarrow> kid 0 l; name \<leftarrow> kid 0 def; ty \<leftarrow> kid 1 def;
     (names, types) \<leftarrow> munch_columns ls;
     Some (tokenToStr (node_tok name) # names, column_type def (tokenToStr (node_tok ty)) # types)
   }"

definition munch_create :: "ast_node \<Rightarrow> chunk \<Rightarrow> hashtable \<Rightarrow> (chunk \<times> hashtable) option" where
  "munch_create n c ht =
     (if ttype (node_tok n) = TOKEN_TABLE then do {
        name \<leftarrow> kid 0 n;
        let t = tokenToStr (node_tok name);
        (names, types) \<leftarrow> munch_columns (list_items (kid 1 n));
        let s = \<lparr>colNames = names, colTypes = types, tablename = t, shash = hashString t (c_strlen t), scount = length names\<rparr>;
        there \<leftarrow> readHT (shash s) ht;
        ht \<leftarrow> (if there = None then Some ht else deleteHT (shash s) ht);
        ht \<leftarrow> insertHT s ht;
        let (schemaIdx, c) = addConstant (VU32 (shash s)) c;
        Some (writeChunk (of_nat schemaIdx) 0 (writeChunk OP_CREATE_TABLE 0 c), ht)
      }
      else Some (c, ht))"

definition munch_drop :: "ast_node \<Rightarrow> chunk \<Rightarrow> chunk option" where
  "munch_drop n c =
     (if ttype (node_tok n) = TOKEN_TABLE then do {
        name \<leftarrow> kid 0 n;
        let v = VText (tokenToStr (node_tok name));
        let (nameIdx, c) = addConstant v c;
        let c = snd (addDynamic v c);
        Some (writeChunk (of_nat nameIdx) 0 (writeChunk OP_DROP_TABLE 0 c))
      }
      else Some c)"

function munchStmt :: "ast_node \<Rightarrow> chunk \<Rightarrow> hashtable \<Rightarrow> (bool \<times> chunk \<times> hashtable) option" where
  "munchStmt n c ht =
     (let keep = map_option (\<lambda>(ok, c). (ok, c, ht)) in
      if node_type n = TYPE_QUERY then do {
        stmt \<leftarrow> kid 0 n;
        (ok, c, ht) \<leftarrow> munchStmt stmt c ht;
        if ok then Some (True, writeChunk OP_HALT 0 c, ht) else Some (False, c, ht)
      }
      else if node_type n = TYPE_SELECT_STMT then keep (munch_select n c ht)
      else if node_type n = TYPE_INSERT_STMT then keep (munch_insert n c ht)
      else if node_type n = TYPE_UPDATE_STMT then keep (munch_update n c ht)
      else if node_type n = TYPE_DELETE_STMT then keep (munch_delete n c ht)
      else if node_type n = TYPE_CREATE_STMT then map_option (Pair True) (munch_create n c ht)
      else if node_type n = TYPE_DROP_STMT then map_option (\<lambda>c. (True, c, ht)) (munch_drop n c)
      else if node_type n = TYPE_BEGIN_TRANSACTION_STMT then Some (True, writeChunk OP_BEGIN_TRANSACTION 0 c, ht)
      else if node_type n = TYPE_COMMIT_STMT then Some (True, writeChunk OP_COMMIT 0 c, ht)
      else if node_type n = TYPE_DISCARD_STMT then Some (True, writeChunk OP_DISCARD 0 c, ht)
      else if node_type n = TYPE_WHERE_CLAUSE \<or> node_type n = TYPE_HAVING_CLAUSE then do {
        e \<leftarrow> kid 0 n; c \<leftarrow> munchExpr e None c; Some (True, c, ht)
      }
      else Some (True, c, ht))"
  by pat_completeness auto
termination
  by (relation "measure (\<lambda>(n, _). size n)") (auto dest: kid_size)

declare munchStmt.simps [simp del]

definition generate :: "ast_node \<Rightarrow> chunk \<Rightarrow> hashtable \<Rightarrow> (bool \<times> chunk \<times> hashtable) option" where
  "generate ast c ht = munchStmt ast c ht"

end
