(* ===== verification/Vm.thy ===== *)
theory Vm
  imports Generator BPlus
begin

text \<open>
  The state of the virtual machine (\<open>SQL_interpreter/vm.h\<close>, \<open>storage_engine/scanner.h\<close>) and its instructions on values
  (\<open>vm.c\<close>). The VM of a statement and what outlives it, the transaction and the caches, are one record. A table is an
  object that the cache, the transaction and scanners point to: \<open>heap\<close> maps a pointer to it. The strings a scanner
  keeps for its row are memory management and left out. \<open>None\<close> is undefined behaviour: an index outside an array, signed
  overflow, a union read through a member that does not fit what was stored.
\<close>

section \<open>State\<close>

record scanner =
  tbl :: nat
  tblHash :: u32
  sopen :: bool
  started :: bool
  atEnd :: bool
  leafNode :: node
  leafAddr :: address
  childIdx :: nat
  spage :: slotted_page
  pageAddr :: address
  slotIdx :: nat
  pkIdx :: nat

datatype interpret_result = INTERPRET_OK | INTERPRET_LOAD_ERROR | INTERPRET_COMPILE_ERROR | INTERPRET_RUNTIME_ERROR

record vm =
  vchunk :: chunk
  ip :: nat
  stack :: "val list"           \<comment> \<open>the top first\<close>
  rows :: "val list list"
  cols :: nat
  print :: bool
  scanners :: "scanner list"    \<comment> \<open>\<open>MAX_SCANNERS\<close> of them\<close>
  numScanners :: nat
  failed :: bool
  tx_active :: bool
  tx_tables :: "(u32 \<times> nat) list"
  schemaCache :: "hashtable option"
  resourceCache :: "(u32 \<times> nat option) list"
  tableCachePtr :: nat
  heap :: "nat \<rightharpoonup> table"
  fresh :: nat
  disk :: files
  wal :: wal_manager
  commits :: nat                \<comment> \<open>how many commits were made: which system calls come next\<close>

definition STACK_MAX :: nat where "STACK_MAX = 256"
definition TABLE_CACHE_SIZE :: nat where "TABLE_CACHE_SIZE = 16"
definition MAX_SCANNERS :: nat where "MAX_SCANNERS = 4"
definition MAX_TXN_TABLES :: nat where "MAX_TXN_TABLES = MAX_SCANNERS"

definition zero_page :: slotted_page where
  "zero_page = \<lparr>hdr = \<lparr>minKey = zero_key, maxKey = zero_key, usedData = 0, numRecords = 0, numEntries = 0, arrCap = 0,
     maxEntries = 0, maxSlots = 0, keySize = 0\<rparr>, entries = [], slots = []\<rparr>"

section \<open>Errors and the stack\<close>

definition runtimeError :: "vm \<Rightarrow> vm" where
  "runtimeError m = m\<lparr>stack := [], failed := True\<rparr>"

definition statementError :: "vm \<Rightarrow> vm" where
  "statementError m = m\<lparr>failed := True\<rparr>"

definition push :: "val \<Rightarrow> vm \<Rightarrow> vm" where
  "push v m = (if length (stack m) \<ge> STACK_MAX then runtimeError m else m\<lparr>stack := v # stack m\<rparr>)"

definition pop :: "vm \<Rightarrow> val \<times> vm" where
  "pop m = (case stack m of [] \<Rightarrow> (VNull, runtimeError m) | v # st \<Rightarrow> (v, m\<lparr>stack := st\<rparr>))"

definition READ_BYTE :: "vm \<Rightarrow> (byte \<times> vm) option" where
  "READ_BYTE m = do { b \<leftarrow> idx (code (vchunk m)) (ip m); Some (b, m\<lparr>ip := ip m + 1\<rparr>) }"

definition READ_TWO_BYTES :: "vm \<Rightarrow> (u16 \<times> vm) option" where
  "READ_TWO_BYTES m = do { (a, m) \<leftarrow> READ_BYTE m; (b, m) \<leftarrow> READ_BYTE m; Some (push_bit 8 (ucast a) OR ucast b, m) }"

definition READ_CONSTANT :: "vm \<Rightarrow> (val \<times> vm) option" where
  "READ_CONSTANT m = do { (i, m) \<leftarrow> READ_BYTE m; v \<leftarrow> idx (vals (constants (vchunk m))) (unat i); Some (v, m) }"

text \<open>\<open>vm.ip += (int16_t)offset\<close>\<close>

definition jump :: "u16 \<Rightarrow> vm \<Rightarrow> vm option" where
  "jump offset m = (let target = int (ip m) + sint offset in if target < 0 then None else Some (m\<lparr>ip := nat target\<rparr>))"

section \<open>Values\<close>

fun value_type :: "val \<Rightarrow> nat" where
  "value_type VNull = 0" | "value_type (VBool b) = 1" | "value_type (VInt i) = 2" | "value_type (VFloat d) = 3"
| "value_type (VText s) = 4" | "value_type (VU32 u) = 5"

text \<open>\<open>as.integer\<close> where a pointer was stored is no value; \<open>as.boolean\<close> has to find 0 or 1 in the first byte.\<close>

fun integer_of :: "val \<Rightarrow> u64 option" where
  "integer_of (VText s) = None"
| "integer_of v = Some (as_integer v)"

fun boolean_of :: "val \<Rightarrow> bool option" where
  "boolean_of (VBool b) = Some b"
| "boolean_of (VText s) = None"
| "boolean_of v = (let b = ucast (as_integer v) :: byte in if b = 0 then Some False else if b = 1 then Some True else None)"

fun equal :: "val \<Rightarrow> val \<Rightarrow> bool" where
  "equal (VBool a) (VBool b) = (a = b)"
| "equal (VFloat a) (VFloat b) = d_equal a b"
| "equal (VInt a) (VInt b) = (a = b)"
| "equal VNull VNull = True"
| "equal (VText a) (VText b) = (c_string a = c_string b)"
| "equal (VU32 a) (VU32 b) = (a = b)"
| "equal _ _ = False"

text \<open>\<open>None\<close> is a run-time error, with the result false.\<close>

fun lessThan :: "val \<Rightarrow> val \<Rightarrow> bool option" where
  "lessThan (VBool a) (VBool b) = Some (\<not> a \<and> b)"
| "lessThan (VFloat a) (VFloat b) = Some (d_less a b)"
| "lessThan (VInt a) (VInt b) = Some (sint a < sint b)"
| "lessThan VNull VNull = Some False"
| "lessThan (VU32 a) (VU32 b) = Some (a < b)"
| "lessThan _ _ = None"

fun greaterThan :: "val \<Rightarrow> val \<Rightarrow> bool option" where
  "greaterThan (VBool a) (VBool b) = Some (a \<and> \<not> b)"
| "greaterThan (VFloat a) (VFloat b) = Some (d_less b a)"
| "greaterThan (VInt a) (VInt b) = Some (sint b < sint a)"
| "greaterThan VNull VNull = Some False"
| "greaterThan (VU32 a) (VU32 b) = Some (b < a)"
| "greaterThan _ _ = None"

text \<open>Signed arithmetic; overflow has no value. Division truncates.\<close>

definition in_range :: "int \<Rightarrow> u64 option" where
  "in_range r = (if - (2 ^ 63) \<le> r \<and> r < 2 ^ 63 then Some (word_of_int r) else None)"

definition i_add :: "u64 \<Rightarrow> u64 \<Rightarrow> u64 option" where "i_add a b = in_range (sint a + sint b)"
definition i_sub :: "u64 \<Rightarrow> u64 \<Rightarrow> u64 option" where "i_sub a b = in_range (sint a - sint b)"
definition i_mul :: "u64 \<Rightarrow> u64 \<Rightarrow> u64 option" where "i_mul a b = in_range (sint a * sint b)"
definition i_div :: "u64 \<Rightarrow> u64 \<Rightarrow> u64 option" where
  "i_div a b = (if b = 0 then None else in_range (sgn (sint a) * sgn (sint b) * (\<bar>sint a\<bar> div \<bar>sint b\<bar>)))"

text \<open>\<open>BINARY_OP\<close> on two values.\<close>

definition arith :: "(u64 \<Rightarrow> u64 \<Rightarrow> u64 option) \<Rightarrow> (u64 \<Rightarrow> u64 \<Rightarrow> u64) \<Rightarrow> val \<Rightarrow> val \<Rightarrow> val option" where
  "arith fi fd a b =
     (case (a, b) of
        (VFloat x, VFloat y) \<Rightarrow> Some (VFloat (fd x y))
      | (VFloat x, _) \<Rightarrow> map_option (\<lambda>j. VFloat (fd x (d_of_int j))) (integer_of b)
      | (_, VFloat y) \<Rightarrow> map_option (\<lambda>i. VFloat (fd (d_of_int i) y)) (integer_of a)
      | _ \<Rightarrow> do { i \<leftarrow> integer_of a; j \<leftarrow> integer_of b; map_option VInt (fi i j) })"

fun likeMatch :: "byte list \<Rightarrow> byte list \<Rightarrow> bool" where
  "likeMatch s [] = (s = [])"
| "likeMatch [] (p # ps) = (if p = 37 then likeMatch [] ps else False)"
| "likeMatch (c # cs) (p # ps) =
     (if p = 37 then likeMatch (c # cs) ps \<or> likeMatch cs (p # ps)
      else if p = 95 \<or> p = c then likeMatch cs ps else False)"

section \<open>Instructions on values\<close>

definition BINARY_OP :: "(u64 \<Rightarrow> u64 \<Rightarrow> u64 option) \<Rightarrow> (u64 \<Rightarrow> u64 \<Rightarrow> u64) \<Rightarrow> vm \<Rightarrow> vm option" where
  "BINARY_OP fi fd m = (let (b, m) = pop m; (a, m) = pop m in map_option (\<lambda>v. push v m) (arith fi fd a b))"

definition is_zero :: "val \<Rightarrow> bool" where
  "is_zero v = (case v of VInt i \<Rightarrow> i = 0 | VFloat d \<Rightarrow> d_equal d 0 | _ \<Rightarrow> False)"

definition op_divide :: "vm \<Rightarrow> vm option" where
  "op_divide m = (case stack m of [] \<Rightarrow> None
     | divisor # _ \<Rightarrow> if is_zero divisor then Some (runtimeError m) else BINARY_OP i_div d_div m)"

definition op_negate :: "vm \<Rightarrow> vm option" where
  "op_negate m = (let (v, m) = pop m in
     case v of VInt i \<Rightarrow> map_option (\<lambda>j. push (VInt j) m) (in_range (- sint i))
     | VFloat d \<Rightarrow> Some (push (VFloat (d_neg d)) m)
     | _ \<Rightarrow> Some (runtimeError m))"

definition op_equal :: "bool \<Rightarrow> vm \<Rightarrow> vm" where
  "op_equal yes m = (let (b, m) = pop m; (a, m) = pop m in push (VBool (equal a b = yes)) m)"

text \<open>A comparison that is an error pushes what false gives, on the stack that the error has emptied.\<close>

definition op_compare :: "(val \<Rightarrow> val \<Rightarrow> bool option) \<Rightarrow> bool \<Rightarrow> vm \<Rightarrow> vm" where
  "op_compare cmp yes m = (let (b, m) = pop m; (a, m) = pop m in
     case cmp a b of Some r \<Rightarrow> push (VBool (r = yes)) m | None \<Rightarrow> push (VBool (\<not> yes)) (runtimeError m))"

text \<open>\<open>LIKE\<close> takes its operands for text.\<close>

definition like :: "val \<Rightarrow> val \<Rightarrow> val option" where
  "like str pattern =
     (case (str, pattern) of
        (VNull, _) \<Rightarrow> Some VNull | (_, VNull) \<Rightarrow> Some VNull
      | (VText s, VText p) \<Rightarrow> Some (VBool (likeMatch (c_string s) (c_string p)))
      | _ \<Rightarrow> None)"

definition op_like :: "vm \<Rightarrow> vm option" where
  "op_like m = (let (p, m) = pop m; (s, m) = pop m in map_option (\<lambda>v. push v m) (like s p))"

definition op_is_null :: "bool \<Rightarrow> vm \<Rightarrow> vm" where
  "op_is_null yes m = (let (v, m) = pop m in push (VBool ((v = VNull) = yes)) m)"

definition op_not :: "vm \<Rightarrow> vm option" where
  "op_not m = (let (v, m) = pop m in map_option (\<lambda>b. push (VBool (\<not> b)) m) (boolean_of v))"

definition op_constant :: "vm \<Rightarrow> vm option" where
  "op_constant m = map_option (\<lambda>(v, m). push v m) (READ_CONSTANT m)"

definition op_jump :: "vm \<Rightarrow> vm option" where
  "op_jump m = do { (offset, m) \<leftarrow> READ_TWO_BYTES m; jump offset m }"

definition op_jump_false :: "vm \<Rightarrow> vm option" where
  "op_jump_false m = do {
     (offset, m) \<leftarrow> READ_TWO_BYTES m;
     let (v, m) = pop m;
     if v = VBool False \<or> v = VNull then jump offset m else Some m
   }"

definition op_jump_true :: "vm \<Rightarrow> vm option" where
  "op_jump_true m = do {
     (offset, m) \<leftarrow> READ_TWO_BYTES m;
     let (v, m) = pop m;
     if v = VBool True then jump offset m else Some m
   }"

section \<open>Columns\<close>

text \<open>The scanner opened last.\<close>

definition top_scanner :: "vm \<Rightarrow> scanner option" where
  "top_scanner m = (if numScanners m = 0 then None else idx (scanners m) (numScanners m - 1))"

definition set_top :: "scanner \<Rightarrow> vm \<Rightarrow> vm" where
  "set_top s m = m\<lparr>scanners := (scanners m)[numScanners m - 1 := s]\<rparr>"

text \<open>A number takes four bytes, however many the entry has.\<close>

definition entry_value :: "entry \<Rightarrow> val option" where
  "entry_value e = (case etype e of
     T_INT \<Rightarrow> if length (edata e) < 4 then None else Some (VInt (scast (native_word (take 4 (edata e)))))
   | _ \<Rightarrow> if length (edata e) < esize e then None else Some (VText (c_string (take (esize e) (edata e)))))"

definition column :: "scanner \<Rightarrow> nat \<Rightarrow> val option" where
  "column s col = do { slot \<leftarrow> idx (slots (spage s)) (slotIdx s); e \<leftarrow> idx (entries (spage s)) (ptr slot + col); entry_value e }"

definition op_column :: "vm \<Rightarrow> vm option" where
  "op_column m = do { (col, m) \<leftarrow> READ_BYTE m; s \<leftarrow> top_scanner m; v \<leftarrow> column s (unat col); Some (push v m) }"

text \<open>The instructions that only compute.\<close>

definition value_op :: "byte \<Rightarrow> vm \<Rightarrow> vm option" where
  "value_op op m =
     (if op = OP_CONSTANT then op_constant m
      else if op = OP_NULL then Some (push VNull m)
      else if op = OP_TRUE then Some (push (VBool True) m)
      else if op = OP_FALSE then Some (push (VBool False) m)
      else if op = OP_POP then Some (snd (pop m))
      else if op = OP_ADD then BINARY_OP i_add d_add m
      else if op = OP_SUBTRACT then BINARY_OP i_sub d_sub m
      else if op = OP_MULTIPLY then BINARY_OP i_mul d_mul m
      else if op = OP_DIVIDE then op_divide m
      else if op = OP_NEGATE then op_negate m
      else if op = OP_EQUAL then Some (op_equal True m)
      else if op = OP_NOT_EQUAL then Some (op_equal False m)
      else if op = OP_LESS then Some (op_compare lessThan True m)
      else if op = OP_LESS_EQUAL then Some (op_compare greaterThan False m)
      else if op = OP_GREATER then Some (op_compare greaterThan True m)
      else if op = OP_GREATER_EQUAL then Some (op_compare lessThan False m)
      else if op = OP_LIKE then op_like m
      else if op = OP_IS_NULL then Some (op_is_null True m)
      else if op = OP_NOT_NULL then Some (op_is_null False m)
      else if op = OP_NOT then op_not m
      else if op = OP_JUMP then op_jump m
      else if op = OP_JUMP_FALSE then op_jump_false m
      else if op = OP_JUMP_TRUE then op_jump_true m
      else if op = OP_COLUMN then op_column m
      else None)"

definition is_value_op :: "byte \<Rightarrow> bool" where
  "is_value_op op \<longleftrightarrow> op \<le> OP_JUMP_TRUE \<or> op = OP_COLUMN"

end
