(* ===== verification/VmRun.thy ===== *)
theory VmRun
  imports Vm Script
begin

text \<open>
  The rest of \<open>SQL_interpreter/vm.c\<close>: the transaction, the cache of open tables, scanners, the instructions that use
  tables, the run of a statement, and with it what \<open>main.c\<close> does with a line or a file. What the machine gets from outside
  is an \<open>env\<close>: the results of the system calls of each commit, what a short read of a table's header leaves, and the
  bound on the depth of the tree's recursions. Messages and timing are not modelled. \<open>ProcessExit\<close> is \<open>exit\<close>.
\<close>

record env =
  calls :: "nat \<Rightarrow> commit_calls"
  junk :: "u32 list"
  table_junk :: table            \<comment> \<open>the allocated struct that \<open>loadTable\<close> fills\<close>
  schema_opened :: bool
  past :: char
  depth :: nat

datatype run_outcome = Continue | Finish interpret_result | ProcessExit

text \<open>Pointers to tables are numbers, and 0 is NULL. The static state of a process that starts with these files and this log.\<close>

definition start_scanner :: scanner where
  "start_scanner = \<lparr>tbl = 0, tblHash = 0, sopen = False, started = False, atEnd = False, leafNode = zero_node, leafAddr = 0, childIdx = 0,
     spage = zero_page, pageAddr = 0, slotIdx = 0, pkIdx = 0\<rparr>"

definition start_vm :: "files \<Rightarrow> wal_manager \<Rightarrow> vm" where
  "start_vm fs w = \<lparr>vchunk = initChunk, ip = 0, stack = [], rows = [], cols = 0, print = False,
     scanners = replicate MAX_SCANNERS start_scanner, numScanners = 0, failed = False, tx_active = False, tx_tables = [],
     schemaCache = None, resourceCache = replicate TABLE_CACHE_SIZE (0, None), tableCachePtr = 0, heap = Map.empty, fresh = 1,
     disk = fs, wal = w, commits = 0\<rparr>"

definition deref :: "nat \<Rightarrow> vm \<Rightarrow> table option" where
  "deref p m = heap m p"

definition store :: "nat \<Rightarrow> table \<Rightarrow> vm \<Rightarrow> vm" where
  "store p t m = m\<lparr>heap := (heap m)(p \<mapsto> t)\<rparr>"

section \<open>The transaction\<close>

definition find_hash :: "u32 \<Rightarrow> (u32 \<times> 'a) list \<Rightarrow> 'a option" where
  "find_hash h xs = map_option snd (find (\<lambda>(g, x). g = h) xs)"

definition findTxnTable :: "u32 \<Rightarrow> vm \<Rightarrow> nat option" where
  "findTxnTable tableHash m = (if \<not> tx_active m then None else find_hash tableHash (tx_tables m))"

definition registerTxnTable :: "u32 \<Rightarrow> nat \<Rightarrow> vm \<Rightarrow> bool \<times> vm" where
  "registerTxnTable tableHash t m =
     (if MAX_TXN_TABLES \<le> length (tx_tables m) then (False, statementError m)
      else (True, m\<lparr>tx_tables := tx_tables m @ [(tableHash, t)]\<rparr>))"

definition end_transaction :: "vm \<Rightarrow> vm" where
  "end_transaction m = m\<lparr>tx_active := False, tx_tables := []\<rparr>"

text \<open>A commit of tables and file changes: what the tables point to is changed, and the next commit has other calls.\<close>

fun deref_all :: "nat list \<Rightarrow> vm \<Rightarrow> table list option" where
  "deref_all [] m = Some []"
| "deref_all (p # ps) m = do { t \<leftarrow> deref p m; ts \<leftarrow> deref_all ps m; Some (t # ts) }"

definition commit_all :: "env \<Rightarrow> nat list \<Rightarrow> file_change list \<Rightarrow> vm \<Rightarrow> (commit_result \<times> vm) option" where
  "commit_all x ps cs m = do {
     ts \<leftarrow> deref_all ps m;
     (res, ts, w, fs) \<leftarrow> commitTables (calls x (commits m)) ts cs (wal m) (disk m);
     Some (res, (fold (\<lambda>(p, t). store p t) (zip ps ts) m)\<lparr>wal := w, disk := fs, commits := commits m + 1\<rparr>)
   }"

section \<open>The table cache\<close>

text \<open>Closing a table closes its file and frees it.\<close>

definition closeTable :: "nat \<Rightarrow> vm \<Rightarrow> vm option" where
  "closeTable p m = (if heap m p = None then None else Some (m\<lparr>heap := (heap m)(p := None)\<rparr>))"

definition tableInUse :: "nat \<Rightarrow> vm \<Rightarrow> bool" where
  "tableInUse p m \<longleftrightarrow> list_ex (\<lambda>s. sopen s \<and> tbl s = p) (scanners m) \<or> tx_active m \<and> list_ex (\<lambda>(h, q). q = p) (tx_tables m)"

definition searchTableCache :: "u32 \<Rightarrow> vm \<Rightarrow> nat option" where
  "searchTableCache h m = (case find (\<lambda>(g, p). p \<noteq> None \<and> g = h) (resourceCache m) of None \<Rightarrow> None | Some (g, p) \<Rightarrow> p)"

text \<open>The slot freed when the cache is full: in turn, skipping tables in use.\<close>

fun evict_next :: "nat \<Rightarrow> vm \<Rightarrow> (nat option \<times> vm) option" where
  "evict_next 0 m = Some (None, m)"
| "evict_next (Suc k) m = do {
     let i = tableCachePtr m;
     (h, p) \<leftarrow> idx (resourceCache m) i;
     let m = m\<lparr>tableCachePtr := (i + 1) mod TABLE_CACHE_SIZE\<rparr>;
     p \<leftarrow> p;
     if tableInUse p m then evict_next k m else do { m \<leftarrow> closeTable p m; Some (Some i, m) }
   }"

definition insertTableCache :: "u32 \<Rightarrow> nat \<Rightarrow> vm \<Rightarrow> (bool \<times> vm) option" where
  "insertTableCache h t m = do {
     (slot, m) \<leftarrow> (case find (\<lambda>i. snd (resourceCache m ! i) = None) [0..<TABLE_CACHE_SIZE] of
        Some i \<Rightarrow> Some (Some i, m) | None \<Rightarrow> evict_next TABLE_CACHE_SIZE m);
     case slot of None \<Rightarrow> Some (False, m) | Some i \<Rightarrow> Some (True, m\<lparr>resourceCache := (resourceCache m)[i := (h, Some t)]\<rparr>)
   }"

fun evict_slots :: "u32 \<Rightarrow> nat list \<Rightarrow> vm \<Rightarrow> vm option" where
  "evict_slots h [] m = Some m"
| "evict_slots h (i # is) m = do {
     (g, p) \<leftarrow> idx (resourceCache m) i;
     case p of
       None \<Rightarrow> evict_slots h is m
     | Some t \<Rightarrow> if g \<noteq> h then evict_slots h is m
                 else do { m \<leftarrow> closeTable t m; evict_slots h is (m\<lparr>resourceCache := (resourceCache m)[i := (0, None)]\<rparr>) }
   }"

definition evictTableCache :: "u32 \<Rightarrow> vm \<Rightarrow> vm option" where
  "evictTableCache h m = evict_slots h [0..<TABLE_CACHE_SIZE] m"

fun discard_tables :: "(u32 \<times> nat) list \<Rightarrow> vm \<Rightarrow> vm option" where
  "discard_tables [] m = Some m"
| "discard_tables ((h, p) # ts) m = do { t \<leftarrow> deref p m; discard_tables ts (store p (discard t) m) }"

fun close_slots :: "nat list \<Rightarrow> vm \<Rightarrow> vm option" where
  "close_slots [] m = Some m"
| "close_slots (i # is) m = do {
     (g, p) \<leftarrow> idx (resourceCache m) i;
     case p of None \<Rightarrow> close_slots is m
     | Some t \<Rightarrow> do { m \<leftarrow> closeTable t m; close_slots is (m\<lparr>resourceCache := (resourceCache m)[i := (0, None)]\<rparr>) }
   }"

definition closeTableCache :: "vm \<Rightarrow> vm option" where
  "closeTableCache m = do {
     m \<leftarrow> (if tx_active m then discard_tables (tx_tables m) m else Some m);
     m \<leftarrow> close_slots [0..<TABLE_CACHE_SIZE] (end_transaction m);
     Some (m\<lparr>tableCachePtr := 0\<rparr>)
   }"

section \<open>Scanners\<close>

text \<open>The table of a hash, from the cache or loaded into it; the table a statement uses, which a transaction registers. No table
  is a statement that has failed.\<close>

definition cached_table :: "env \<Rightarrow> u32 \<Rightarrow> schema \<Rightarrow> vm \<Rightarrow> (nat option \<times> vm) option" where
  "cached_table x h s m = (case searchTableCache h m of
     Some t \<Rightarrow> Some (Some t, m)
   | None \<Rightarrow>
       (case loadTable (junk x) (tablename s) (disk m) (table_junk x) of
          None \<Rightarrow> Some (None, m\<lparr>failed := True\<rparr>)
        | Some t \<Rightarrow> do {
            let p = fresh m;
            let m = m\<lparr>heap := (heap m)(p \<mapsto> t), fresh := fresh m + 1\<rparr>;
            (inserted, m) \<leftarrow> insertTableCache h p m;
            if inserted then Some (Some p, m) else do { m \<leftarrow> closeTable p m; Some (None, statementError m) }
          }))"

definition statement_table :: "env \<Rightarrow> u32 \<Rightarrow> schema \<Rightarrow> vm \<Rightarrow> (nat option \<times> vm) option" where
  "statement_table x h s m = (case findTxnTable h m of
     Some t \<Rightarrow> Some (Some t, m)
   | None \<Rightarrow> do {
       (t, m) \<leftarrow> cached_table x h s m;
       case t of
         None \<Rightarrow> Some (None, m)
       | Some p \<Rightarrow> if tx_active m then (let (ok, m) = registerTxnTable h p m in Some (if ok then Some p else None, m)) else Some (Some p, m)
     })"

definition new_scanner :: "nat \<Rightarrow> u32 \<Rightarrow> nat \<Rightarrow> scanner" where
  "new_scanner p h pk = \<lparr>tbl = p, tblHash = h, sopen = True, started = False, atEnd = False, leafNode = zero_node, leafAddr = 0,
     childIdx = 0, spage = zero_page, pageAddr = 0, slotIdx = 0, pkIdx = pk\<rparr>"

definition openScanner :: "env \<Rightarrow> u32 \<Rightarrow> nat \<Rightarrow> vm \<Rightarrow> vm option" where
  "openScanner x h pk m = do {
     ht \<leftarrow> schemaCache m;
     found \<leftarrow> readHT h ht;
     s \<leftarrow> found;
     if MAX_SCANNERS \<le> numScanners m then Some (statementError m)
     else do {
       (t, m) \<leftarrow> statement_table x h s m;
       case t of
         None \<Rightarrow> Some m
       | Some p \<Rightarrow> do {
           table \<leftarrow> deref p m;
           let m = store p (beginStatement table) m;
           let i = numScanners m;
           Some (m\<lparr>numScanners := i + 1, scanners := (scanners m)[i := new_scanner p h pk]\<rparr>)
         }
     }
   }"

definition closed :: "scanner \<Rightarrow> scanner" where
  "closed s = s\<lparr>spage := zero_page, leafNode := zero_node, tbl := 0, tblHash := 0, sopen := False, started := False, atEnd := False\<rparr>"

text \<open>The scanner closed is the one opened last. The result is whether its commit reached the disk; \<open>None\<close> is an exit within it.\<close>

definition closeScanner :: "env \<Rightarrow> vm \<Rightarrow> (bool option \<times> vm) option" where
  "closeScanner x m = do {
     s \<leftarrow> top_scanner m;
     if \<not> sopen s then Some (Some True, m)
     else do {
       let p = tbl s;
       t \<leftarrow> deref p m;
       let m = store p (endStatement t) m;
       (res, m) \<leftarrow> (if findTxnTable (tblHash s) m = None then commit_all x [p] [] m else Some (Committed, m));
       if res = Exited then Some (None, m)
       else do {
         let m = set_top (closed s) m;
         let m = m\<lparr>numScanners := numScanners m - 1\<rparr>;
         m \<leftarrow> (if res \<noteq> Committed \<and> \<not> tableInUse p m then evictTableCache (tblHash s) m else Some m);
         Some (Some (res = Committed), m)
       }
     }
   }"

text \<open>The first page with a record from the scanner's child on; the loops end when the leaves do, which the bound \<open>k\<close> stands for.
  The results of the reads are not looked at: a failed read of a page leaves a struct no one may use.\<close>

fun loadFirstValidPage :: "files \<Rightarrow> nat \<Rightarrow> scanner \<Rightarrow> table \<Rightarrow> (bool \<times> scanner \<times> table) option" where
  "loadFirstValidPage fs 0 s t = None"
| "loadFirstValidPage fs (Suc k) s t =
     (if childIdx s < childCount (leafNode s) then do {
        a \<leftarrow> idx (node.children (leafNode s)) (childIdx s);
        read \<leftarrow> readPage fs a t;
        page \<leftarrow> read;
        let s = s\<lparr>pageAddr := a, spage := page, slotIdx := 0\<rparr>;
        if numRecords (hdr page) > 0 then Some (True, s, t) else loadFirstValidPage fs k (s\<lparr>childIdx := u32_add (childIdx s) 1\<rparr>) t
      }
      else if nnext (leafNode s) = 0 then Some (False, s\<lparr>atEnd := True\<rparr>, t)
      else do {
        let a = nnext (leafNode s);
        ((ok, n), t) \<leftarrow> readNode fs a (leafNode s) t;
        loadFirstValidPage fs k (s\<lparr>leafAddr := a, leafNode := n, childIdx := 0\<rparr>) t
      })"

text \<open>Down the first children to a leaf: its address, or \<open>None\<close> when a node could not be read.\<close>

fun leftmost :: "files \<Rightarrow> nat \<Rightarrow> address \<Rightarrow> scanner \<Rightarrow> table \<Rightarrow> (address option \<times> scanner \<times> table) option" where
  "leftmost fs 0 a s t = None"
| "leftmost fs (Suc k) a s t =
     (if isLeaf (leafNode s) then Some (Some a, s, t)
      else do {
        c \<leftarrow> idx (node.children (leafNode s)) 0;
        ((ok, n), t) \<leftarrow> readNode fs c (leafNode s) t;
        let s = s\<lparr>leafNode := n\<rparr>;
        if ok then leftmost fs k c s t else Some (None, s, t)
      })"

definition advanceScanner :: "env \<Rightarrow> vm \<Rightarrow> (bool \<times> vm) option" where
  "advanceScanner x m = do {
     s \<leftarrow> top_scanner m;
     if atEnd s then Some (False, m)
     else do {
       let p = tbl s;
       t \<leftarrow> deref p m;
       if \<not> started s then do {
         ((ok, n), t) \<leftarrow> readNode (disk m) (root t) (leafNode s) t;
         let s = s\<lparr>leafNode := n\<rparr>;
         (leaf, s, t) \<leftarrow> (if ok then leftmost (disk m) (depth x) (root t) s t else Some (None, s, t));
         case leaf of
           None \<Rightarrow> Some (False, set_top (s\<lparr>atEnd := True\<rparr>) (statementError (store p t m)))
         | Some a \<Rightarrow> do {
             (found, s, t) \<leftarrow> loadFirstValidPage (disk m) (depth x) (s\<lparr>leafAddr := a, childIdx := 0, started := True\<rparr>) t;
             Some (found, set_top s (store p t m))
           }
       }
       else let s = s\<lparr>slotIdx := u32_add (slotIdx s) 1\<rparr> in
         if slotIdx s < numRecords (hdr (spage s)) then Some (True, set_top s m)
         else do {
           (found, s, t) \<leftarrow> loadFirstValidPage (disk m) (depth x) (s\<lparr>childIdx := u32_add (childIdx s) 1\<rparr>) t;
           Some (found, set_top s (store p t m))
         }
     }
   }"

definition scannerKeySearch :: "env \<Rightarrow> ordering_key \<Rightarrow> vm \<Rightarrow> (bool \<times> vm) option" where
  "scannerKeySearch x key m = do {
     s \<leftarrow> top_scanner m;
     t \<leftarrow> deref (tbl s) m;
     (addr, t) \<leftarrow> findPage (disk m) (depth x) key t;
     let m = store (tbl s) t m;
     if addr = 0 then Some (False, m)
     else do {
       read \<leftarrow> readPage (disk m) addr t;
       page \<leftarrow> read;
       let s = s\<lparr>pageAddr := addr, spage := page\<rparr>;
       case SPSearch page key of
         None \<Rightarrow> Some (False, set_top s m)
       | Some i \<Rightarrow> Some (True, set_top (s\<lparr>slotIdx := i\<rparr>) m)
     }
   }"

definition seekScanner :: "env \<Rightarrow> ordering_key \<Rightarrow> vm \<Rightarrow> (bool \<times> vm) option" where
  "seekScanner x key m = do {
     s \<leftarrow> top_scanner m;
     t \<leftarrow> deref (tbl s) m;
     ((addr, leaf), t) \<leftarrow> findPageAndLeaf (disk m) (depth x) key t;
     let leafAddress = (case leaf of None \<Rightarrow> 0 | Some a \<Rightarrow> a);
     if addr = 0 then Some (False, store (tbl s) t m)
     else do {
       ((ok, n), t) \<leftarrow> readNode (disk m) leafAddress (leafNode s) t;
       let m = store (tbl s) t m;
       let s = s\<lparr>leafNode := n\<rparr>;
       if \<not> ok then Some (False, set_top s m)
       else do {
         child \<leftarrow> find_child addr n 0 (childCount n);
         let s = s\<lparr>leafAddr := leafAddress, childIdx := (case child of None \<Rightarrow> childCount n | Some i \<Rightarrow> i), pageAddr := addr\<rparr>;
         read \<leftarrow> readPage (disk m) addr t;
         case read of
           None \<Rightarrow> Some (False, set_top s m)
         | Some page \<Rightarrow>
             (case SPSearch page key of
                None \<Rightarrow> Some (False, set_top (s\<lparr>spage := page\<rparr>) m)
              | Some i \<Rightarrow> Some (True, set_top (s\<lparr>spage := page, slotIdx := i\<rparr>) m))
       }
     }
   }"

section \<open>Keys and entries\<close>

definition SCHEMA_FILE :: fname where "SCHEMA_FILE = [115, 99, 104, 101, 109, 97, 46, 115, 99, 109, 97]"    \<comment> \<open>\<open>schema.scma\<close>\<close>

definition tableAlreadyExists :: "byte list \<Rightarrow> vm \<Rightarrow> bool" where
  "tableAlreadyExists name m \<longleftrightarrow> disk m (name @ TABLE_EXTENSION) \<noteq> None"

text \<open>By the number in the schema; every other type keeps integers.\<close>

definition sqlTypeToOrdering :: "byte \<Rightarrow> ordering_type" where
  "sqlTypeToOrdering t = (if t = SQL_code SQL_TEXT then ORDERING_STRING
     else if t = SQL_code SQL_FLOAT \<or> t = SQL_code SQL_DOUBLE then ORDERING_DOUBLE else ORDERING_ULONG)"

definition getPkOrderingType :: "schema \<Rightarrow> vm \<Rightarrow> ordering_type \<times> vm" where
  "getPkOrderingType s m = (case find (\<lambda>i. getConstraint (colTypes s ! i) = CONSTRAINT_PRIMARY_KEY) [0..<scount s] of
     Some i \<Rightarrow> (sqlTypeToOrdering (colTypes s ! i AND 0b00011111), m)
   | None \<Rightarrow> (ORDERING_ULONG, statementError m))"

definition fitsInKey :: "val \<Rightarrow> bool" where
  "fitsInKey pk \<longleftrightarrow> (case pk of VText s \<Rightarrow> c_strlen s \<le> TEXT_KEY_MAX_LEN | _ \<Rightarrow> True)"

text \<open>An integer keeps its low 32 bits, a Boolean becomes a number, a double is its bytes as a string; NULL has no bytes.\<close>

definition valueToEntry :: "val \<Rightarrow> entry" where
  "valueToEntry v = (case v of
     VInt i \<Rightarrow> \<lparr>edata = native_bytes (ucast i), esize = 4, etype = T_INT\<rparr>
   | VText s \<Rightarrow> \<lparr>edata = c_string s, esize = u32_of (c_strlen s), etype = T_STRING\<rparr>
   | VBool b \<Rightarrow> \<lparr>edata = native_bytes (if b then 1 else 0), esize = 4, etype = T_INT\<rparr>
   | VFloat d \<Rightarrow> \<lparr>edata = rev (be_bytes 8 d), esize = 8, etype = T_STRING\<rparr>
   | _ \<Rightarrow> \<lparr>edata = [], esize = 0, etype = T_INT\<rparr>)"

section \<open>Instructions on tables\<close>

text \<open>\<open>k\<close> values popped, the last one first.\<close>

fun pop_many :: "nat \<Rightarrow> vm \<Rightarrow> val list \<times> vm" where
  "pop_many 0 m = ([], m)"
| "pop_many (Suc k) m = (let (v, m) = pop m; (vs, m) = pop_many k m in (vs @ [v], m))"

definition op_open_scan :: "env \<Rightarrow> vm \<Rightarrow> vm option" where
  "op_open_scan x m = do {
     let (v, m) = pop m;
     (pk, m) \<leftarrow> READ_BYTE m;
     h \<leftarrow> (case v of VU32 u \<Rightarrow> Some u | VText s \<Rightarrow> None | _ \<Rightarrow> Some (ucast (as_integer v)));
     openScanner x h (unat pk) m
   }"

definition op_next :: "env \<Rightarrow> vm \<Rightarrow> vm option" where
  "op_next x m = do {
     (offset, m) \<leftarrow> READ_TWO_BYTES m;
     (found, m) \<leftarrow> advanceScanner x m;
     if found then Some m else jump offset m
   }"

definition op_key_search :: "env \<Rightarrow> vm \<Rightarrow> vm option" where
  "op_key_search x m = do {
     let (pk, m) = pop m;
     (offset, m) \<leftarrow> READ_TWO_BYTES m;
     (found, m) \<leftarrow> (if fitsInKey pk then scannerKeySearch x (pkToOk pk) m else Some (False, m));
     if found then Some m else jump offset m
   }"

definition op_rewind :: "vm \<Rightarrow> vm option" where
  "op_rewind m = do {
     s \<leftarrow> top_scanner m;
     Some (set_top (s\<lparr>started := False, atEnd := False, childIdx := 0, slotIdx := 0\<rparr>) m)
   }"

text \<open>The strings of a row are copied.\<close>

definition op_emit_row :: "vm \<Rightarrow> vm option" where
  "op_emit_row m = do {
     (count, m) \<leftarrow> READ_BYTE m;
     let (row, m) = pop_many (unat count) m;
     Some (m\<lparr>rows := rows m @ [row], cols := (if rows m = [] then unat count else cols m)\<rparr>)
   }"

definition op_insert_row :: "env \<Rightarrow> vm \<Rightarrow> vm option" where
  "op_insert_row x m = do {
     (count, m) \<leftarrow> READ_BYTE m;
     s \<leftarrow> top_scanner m;
     let (values, m) = pop_many (unat count) m;
     let es = map valueToEntry values;
     pk \<leftarrow> idx values (pkIdx s);
     if \<not> fitsInKey pk then Some (statementError m)
     else do {
       t \<leftarrow> deref (tbl s) m;
       (result, t) \<leftarrow> insertRecord (disk m) (depth x) \<lparr>rentries = es, rlen = unat count, rsize = foldr (\<lambda>e n. u32_add n (esize e)) es 0\<rparr> (pkToOk pk) t;
       let m = store (tbl s) t m;
       Some (if result = 1 \<or> result = 2 \<or> result = 3 then m\<lparr>failed := True\<rparr> else m)
     }
   }"

definition op_update_col :: "env \<Rightarrow> vm \<Rightarrow> vm option" where
  "op_update_col x m = do {
     (col, m) \<leftarrow> READ_BYTE m;
     s \<leftarrow> top_scanner m;
     t \<leftarrow> deref (tbl s) m;
     let p = spage s;
     slot \<leftarrow> idx (slots p) (slotIdx s);
     target \<leftarrow> idx (entries p) (ptr slot + unat col);
     let (v, m) = pop m;
     let replacement = valueToEntry v;
     let grow = u32_sub (esize replacement) (esize target);
     let p = p\<lparr>slots := (slots p)[slotIdx s := slot\<lparr>ssize := u32_add (ssize slot) grow\<rparr>],
               hdr := (hdr p)\<lparr>usedData := u32_add (usedData (hdr p)) grow\<rparr>,
               entries := (entries p)[ptr slot + unat col := replacement]\<rparr>;
     (ok, split, p, t) \<leftarrow> storePage (disk m) (depth x) p (pageAddr s) t;
     let m = set_top (s\<lparr>spage := p\<rparr>) (store (tbl s) t m);
     if \<not> ok then Some (statementError m)
     else if split then do { (found, m) \<leftarrow> seekScanner x (ID slot) m; Some (if found then m else statementError m) }
     else Some m
   }"

text \<open>The first child past the key, for the scanner to go on at.\<close>

definition child_past :: "ordering_key \<Rightarrow> node \<Rightarrow> nat option" where
  "child_past key n = map_option (\<lambda>i. case i of None \<Rightarrow> childCount n | Some i \<Rightarrow> i)
     (scan (\<lambda>i. map_option (\<lambda>k. 0 < compareOrderingKeys k key) (idx (keys n) i)) 0 (childCount n))"

definition op_delete_row :: "env \<Rightarrow> vm \<Rightarrow> vm option" where
  "op_delete_row x m = do {
     s \<leftarrow> top_scanner m;
     t \<leftarrow> deref (tbl s) m;
     slot \<leftarrow> idx (slots (spage s)) (slotIdx s);
     let s = s\<lparr>spage := zero_page\<rparr>;
     ((deleted, leaf, page), t) \<leftarrow> deleteRecord (disk m) (depth x) (ID slot) zero_page t;
     let m = store (tbl s) t m;
     if \<not> deleted \<or> leaf = 0 then Some (set_top (case page of None \<Rightarrow> s | Some p \<Rightarrow> s\<lparr>spage := p\<rparr>) (statementError m))
     else do {
       p \<leftarrow> page;
       let s = s\<lparr>spage := p\<rparr>;
       if numRecords (hdr p) = 0 then do {
         ((ok, n), t) \<leftarrow> readNode (disk m) leaf (leafNode s) t;
         let m = store (tbl s) t m;
         let s = s\<lparr>leafAddr := leaf, leafNode := n\<rparr>;
         if \<not> ok then Some (set_top s (statementError m))
         else do { nxt \<leftarrow> child_past (ID slot) n; Some (set_top (s\<lparr>childIdx := u32_sub nxt 1\<rparr>) m) }
       }
       else Some (set_top (s\<lparr>slotIdx := u32_sub (slotIdx s) 1\<rparr>) m)
     }
   }"

section \<open>Instructions on the schema and the transaction\<close>

definition op_create_table :: "env \<Rightarrow> vm \<Rightarrow> (run_outcome \<times> vm) option" where
  "op_create_table x m = do {
     (v, m) \<leftarrow> READ_CONSTANT m;
     hash \<leftarrow> (case v of VU32 u \<Rightarrow> Some u | VText s \<Rightarrow> None | _ \<Rightarrow> Some (ucast (as_integer v)));
     if tx_active m then Some (Continue, statementError m)
     else do {
       ht \<leftarrow> schemaCache m;
       found \<leftarrow> readHT hash ht;
       case found of
         None \<Rightarrow> Some (Continue, statementError m)
       | Some s \<Rightarrow>
           if tableAlreadyExists (tablename s) m then Some (Continue, statementError m)
           else do {
             m \<leftarrow> evictTableCache hash m;
             let (keyType, m) = getPkOrderingType s m;
             if failed m then Some (Continue, m)
             else do {
               t \<leftarrow> newTree (tablename s) keyType;
               (res, ts, w, fs) \<leftarrow> commitTables (calls x (commits m)) [t] [\<lparr>cname = SCHEMA_FILE, cbytes = Some (serializeSchema ht)\<rparr>] (wal m) (disk m);
               let m = m\<lparr>wal := w, disk := fs, commits := commits m + 1\<rparr>;
               Some (case res of Committed \<Rightarrow> Continue | Aborted \<Rightarrow> Finish INTERPRET_RUNTIME_ERROR | Exited \<Rightarrow> ProcessExit, m)
             }
           }
     }
   }"

definition op_drop_table :: "env \<Rightarrow> vm \<Rightarrow> (run_outcome \<times> vm) option" where
  "op_drop_table x m = do {
     (v, m) \<leftarrow> READ_CONSTANT m;
     name \<leftarrow> (case v of VText s \<Rightarrow> Some (c_string s) | _ \<Rightarrow> None);
     let hash = hashString name (c_strlen name);
     if tx_active m then Some (Continue, statementError m)
     else do {
       ht \<leftarrow> schemaCache m;
       found \<leftarrow> readHT hash ht;
       if found = None \<and> \<not> tableAlreadyExists name m then Some (Continue, statementError m)
       else do {
         m \<leftarrow> evictTableCache hash m;
         ht \<leftarrow> deleteHT hash ht;
         let m = m\<lparr>schemaCache := Some ht\<rparr>;
         (res, m) \<leftarrow> commit_all x [] [\<lparr>cname = SCHEMA_FILE, cbytes = Some (serializeSchema ht)\<rparr>,
                                     \<lparr>cname = name @ TABLE_EXTENSION, cbytes = None\<rparr>] m;
         Some (case res of Committed \<Rightarrow> Continue | Aborted \<Rightarrow> Finish INTERPRET_RUNTIME_ERROR | Exited \<Rightarrow> ProcessExit, m)
       }
     }
   }"

definition op_begin_transaction :: "vm \<Rightarrow> vm" where
  "op_begin_transaction m = (if tx_active m then statementError m else m\<lparr>tx_active := True, tx_tables := []\<rparr>)"

fun evict_all :: "(u32 \<times> nat) list \<Rightarrow> vm \<Rightarrow> vm option" where
  "evict_all [] m = Some m"
| "evict_all ((h, p) # ts) m = do { m \<leftarrow> evictTableCache h m; evict_all ts m }"

definition op_commit :: "env \<Rightarrow> vm \<Rightarrow> (run_outcome \<times> vm) option" where
  "op_commit x m =
     (if \<not> tx_active m then Some (Continue, statementError m)
      else do {
        (res, m) \<leftarrow> commit_all x (map snd (tx_tables m)) [] m;
        if res = Exited then Some (ProcessExit, m)
        else do {
          m \<leftarrow> (if res = Committed then Some m else evict_all (tx_tables m) m);
          Some (if res = Committed then Continue else Finish INTERPRET_RUNTIME_ERROR, end_transaction m)
        }
      })"

fun discard_all :: "(u32 \<times> nat) list \<Rightarrow> vm \<Rightarrow> vm option" where
  "discard_all [] m = Some m"
| "discard_all ((h, p) # ts) m = do { t \<leftarrow> deref p m; m \<leftarrow> evictTableCache h (store p (discard t) m); discard_all ts m }"

definition op_discard :: "vm \<Rightarrow> vm option" where
  "op_discard m =
     (if \<not> tx_active m then Some (statementError m)
      else do { m \<leftarrow> discard_all (tx_tables m) m; Some (end_transaction m) })"

text \<open>The schema file alone, committed.\<close>

definition saveSchema :: "env \<Rightarrow> hashtable \<Rightarrow> vm \<Rightarrow> (commit_result \<times> vm) option" where
  "saveSchema x ht m = commit_all x [] [\<lparr>cname = SCHEMA_FILE, cbytes = Some (serializeSchema ht)\<rparr>] m"

section \<open>Running a statement\<close>

text \<open>A byte that is no case of the switch does nothing.\<close>

definition execute :: "env \<Rightarrow> byte \<Rightarrow> vm \<Rightarrow> (run_outcome \<times> vm) option" where
  "execute x op m =
     (let go = map_option (Pair Continue) in
      if is_value_op op then go (value_op op m)
      else if op = OP_OPEN_SCAN then go (op_open_scan x m)
      else if op = OP_CLOSE_SCAN then do {
        (ok, m) \<leftarrow> closeScanner x m;
        Some (case ok of None \<Rightarrow> ProcessExit | Some ok \<Rightarrow> if ok then Continue else Finish INTERPRET_RUNTIME_ERROR, m)
      }
      else if op = OP_NEXT then go (op_next x m)
      else if op = OP_KEY_SEARCH then go (op_key_search x m)
      else if op = OP_REWIND then go (op_rewind m)
      else if op = OP_EMIT_ROW then go (op_emit_row m)
      else if op = OP_INSERT_ROW then go (op_insert_row x m)
      else if op = OP_UPDATE_COL then go (op_update_col x m)
      else if op = OP_DELETE_ROW then go (op_delete_row x m)
      else if op = OP_CREATE_TABLE then op_create_table x m
      else if op = OP_DROP_TABLE then op_drop_table x m
      else if op = OP_BEGIN_TRANSACTION then Some (Continue, op_begin_transaction m)
      else if op = OP_COMMIT then op_commit x m
      else if op = OP_DISCARD then go (op_discard m)
      else if op = OP_SET_RESULT then Some (Continue, m\<lparr>print := True\<rparr>)
      else if op = OP_HALT then Some (Finish INTERPRET_OK, m)
      else Some (Continue, m))"

definition step :: "env \<Rightarrow> vm \<Rightarrow> (run_outcome \<times> vm) option" where
  "step x m = (if failed m then Some (Finish INTERPRET_RUNTIME_ERROR, m) else do { (op, m) \<leftarrow> READ_BYTE m; execute x op m })"

partial_function (option) run :: "env \<Rightarrow> vm \<Rightarrow> (run_outcome \<times> vm) option" where
  "run x m = do { (out, m) \<leftarrow> step x m; if out = Continue then run x m else Some (out, m) }"

declare run.simps [code]

text \<open>\<open>abortStatement\<close>: the open scanners, the last one first, with the tables to close once all have let go.\<close>

fun abort_scanners :: "nat \<Rightarrow> u32 list \<Rightarrow> vm \<Rightarrow> (u32 list \<times> vm) option" where
  "abort_scanners 0 closing m = Some (closing, m)"
| "abort_scanners (Suc i) closing m = do {
     s \<leftarrow> idx (scanners m) i;
     if \<not> sopen s then abort_scanners i closing m
     else do {
       t \<leftarrow> deref (tbl s) m;
       t \<leftarrow> rollbackStatement t;
       let outside = (findTxnTable (tblHash s) m = None);
       let m = store (tbl s) (if outside then discard t else t) m;
       let closing = (if outside then closing @ [tblHash s] else closing);
       abort_scanners i closing (m\<lparr>scanners := (scanners m)[i := s\<lparr>spage := zero_page, tbl := 0, sopen := False\<rparr>]\<rparr>)
     }
   }"

definition abortStatement :: "vm \<Rightarrow> vm option" where
  "abortStatement m = do {
     (closing, m) \<leftarrow> abort_scanners (numScanners m) [] m;
     foldo evictTableCache closing (m\<lparr>numScanners := 0\<rparr>)
   }"

section \<open>A statement from its text\<close>

definition initVM :: "hashtable \<Rightarrow> vm \<Rightarrow> vm" where
  "initVM ht m = m\<lparr>stack := [], scanners := map (\<lambda>s. s\<lparr>sopen := False, tbl := 0\<rparr>) (scanners m), rows := [], cols := 0,
     schemaCache := Some ht, print := False, failed := False\<rparr>"

definition invalidateSchema :: "vm \<Rightarrow> vm" where
  "invalidateSchema m = m\<lparr>schemaCache := None\<rparr>"

definition is_ddl :: "ast_node \<Rightarrow> bool" where
  "is_ddl stmt \<longleftrightarrow> node_type stmt = TYPE_CREATE_STMT \<or> node_type stmt = TYPE_DROP_STMT"

text \<open>The schema, from the cache or from its file; \<open>Some None\<close> when it cannot be loaded.\<close>

definition get_schema :: "env \<Rightarrow> vm \<Rightarrow> hashtable option option" where
  "get_schema x m = (case schemaCache m of Some ht \<Rightarrow> Some (Some ht) | None \<Rightarrow> loadSchema (schema_opened x) (disk m SCHEMA_FILE))"

text \<open>The statement of a tree: code, the run, and the rollback when it failed.\<close>

definition interpret_tree :: "env \<Rightarrow> ast_node \<Rightarrow> hashtable \<Rightarrow> vm \<Rightarrow> (run_outcome \<times> vm) option" where
  "interpret_tree x tree ht m = do {
     stmt \<leftarrow> kid 0 tree;
     let settle = (if is_ddl stmt then invalidateSchema else (\<lambda>m. m));
     (ok, c, ht) \<leftarrow> generate tree initChunk ht;
     let m = m\<lparr>schemaCache := Some ht\<rparr>;
     if \<not> ok then Some (Finish INTERPRET_COMPILE_ERROR, settle m)
     else do {
       (out, m) \<leftarrow> run x (m\<lparr>vchunk := c, ip := 0\<rparr>);
       m \<leftarrow> (if out = Finish INTERPRET_RUNTIME_ERROR then abortStatement m else Some m);
       Some (out, if out = ProcessExit then m else settle m)
     }
   }"

text \<open>A syntax error ends the process within the parser.\<close>

definition interpret_query :: "env \<Rightarrow> string \<Rightarrow> vm \<Rightarrow> (run_outcome \<times> vm) option" where
  "interpret_query x source m = do {
     loaded \<leftarrow> get_schema x m;
     case loaded of
       None \<Rightarrow> Some (Finish INTERPRET_LOAD_ERROR, m)
     | Some ht \<Rightarrow> do {
         let m = initVM ht m;
         let ts = tokens (lexQuery (past x) source);
         if length ts = 1 then Some (Finish INTERPRET_OK, m)
         else if ts = [] then Some (Finish INTERPRET_COMPILE_ERROR, m)
         else case compile ts of
           Inl e \<Rightarrow> Some (ProcessExit, m)
         | Inr (None, rest) \<Rightarrow> Some (Finish INTERPRET_COMPILE_ERROR, m)
         | Inr (Some tree, rest) \<Rightarrow> interpret_tree x tree ht m
       }
   }"

text \<open>\<open>freeVM\<close> commits what is still open, and drops the results.\<close>

fun free_scanners :: "env \<Rightarrow> nat list \<Rightarrow> vm \<Rightarrow> (bool \<times> vm) option" where
  "free_scanners x [] m = Some (True, m)"
| "free_scanners x (i # is) m = do {
     s \<leftarrow> idx (scanners m) i;
     if \<not> sopen s then free_scanners x is m
     else do {
       (res, m) \<leftarrow> commit_all x [tbl s] [] m;
       if res = Exited then Some (False, m)
       else do {
         let m = m\<lparr>scanners := (scanners m)[i := s\<lparr>tbl := 0, sopen := False\<rparr>]\<rparr>;
         m \<leftarrow> (if res \<noteq> Committed \<and> \<not> tableInUse (tbl s) m then evictTableCache (tblHash s) m else Some m);
         free_scanners x is m
       }
     }
   }"

definition freeVM :: "env \<Rightarrow> vm \<Rightarrow> (bool \<times> vm) option" where
  "freeVM x m = do {
     (ok, m) \<leftarrow> free_scanners x [0..<MAX_SCANNERS] m;
     Some (ok, if ok then m\<lparr>rows := [], cols := 0\<rparr> else m)
   }"

section \<open>Files and lines (main.c)\<close>

text \<open>The results that \<open>printResult\<close> is given, in order.\<close>

type_synonym results = "val list list list"

definition exit_code :: "interpret_result \<Rightarrow> nat" where
  "exit_code r = (case r of INTERPRET_OK \<Rightarrow> 0 | INTERPRET_LOAD_ERROR \<Rightarrow> 60 | INTERPRET_COMPILE_ERROR \<Rightarrow> 65 | INTERPRET_RUNTIME_ERROR \<Rightarrow> 70)"

text \<open>The loop of \<open>runFile\<close>: the exit code, 0 when every statement ran, or \<open>None\<close> for a process that has exited with 74.\<close>

function run_statements :: "env \<Rightarrow> byte list \<Rightarrow> nat \<Rightarrow> results \<Rightarrow> vm \<Rightarrow> (nat option \<times> results \<times> vm) option" where
  "run_statements x source pos out m =
     (if length source \<le> pos then Some (Some 0, out, m)
      else (case isolateQuery pos source of
        None \<Rightarrow> Some (Some 65, out, m)
      | Some (query, nxt) \<Rightarrow>
          if nxt \<le> pos then None
          else do {
            (res, m) \<leftarrow> interpret_query x (map (\<lambda>b. char_of (unat b)) query) m;
            case res of
              Finish INTERPRET_OK \<Rightarrow> do {
                let out = (if print m then out @ [rows m] else out);
                (ok, m) \<leftarrow> freeVM x m;
                if ok then run_statements x source nxt out m else Some (None, out, m)
              }
            | Finish r \<Rightarrow> Some (Some (exit_code r), out, m)
            | _ \<Rightarrow> Some (None, out, m)
          }))"
  by pat_completeness auto
termination
  by (relation "measure (\<lambda>(x, source, pos, out, m). length source - pos)") auto

declare run_statements.simps [simp del]

definition runFile :: "env \<Rightarrow> byte list \<Rightarrow> vm \<Rightarrow> (nat option \<times> results \<times> vm) option" where
  "runFile x source m =
     (if source = [] then Some (Some 0, [], m)
      else do {
        (code, out, m) \<leftarrow> run_statements x source 0 [] m;
        if code = None \<or> code = Some 0 then Some (code, out, m)
        else do { m \<leftarrow> closeTableCache m; Some (code, out, m) }
      })"

definition blank_line :: "string \<Rightarrow> bool" where
  "blank_line input = list_all (\<lambda>c. c \<in> {CHR '' '', CHR ''\<newline>'', CHR 0x09, CHR 0x0D}) input"

text \<open>The loop of \<open>repl\<close> over what each call of \<open>fgets\<close> reads. A line is one statement, whatever it holds.\<close>

fun repl :: "env \<Rightarrow> string list \<Rightarrow> results \<Rightarrow> vm \<Rightarrow> (bool \<times> results \<times> vm) option" where
  "repl x [] out m = Some (True, out, m)"
| "repl x (input # inputs) out m =
     (if map tolower (take 5 input) = ''quit\<newline>'' then Some (True, out, m)
      else if blank_line input then repl x inputs out m
      else do {
        (res, m) \<leftarrow> interpret_query x input m;
        if res = ProcessExit then Some (False, out, m)
        else do {
          let out = (if print m then out @ [rows m] else out);
          (ok, m) \<leftarrow> freeVM x m;
          if ok then repl x inputs out m else Some (False, out, m)
        }
      })"

text \<open>\<open>main\<close>: its arguments, what the files they name hold, the lock and the calls of recovery. The result is the exit
  status; every \<open>exit\<close> below a statement has the status 74. Only the part of a file before a NUL is read.\<close>

definition readFile :: "(string \<Rightarrow> byte list option) \<Rightarrow> string \<Rightarrow> byte list option" where
  "readFile sources path = map_option c_string (sources path)"

definition run_path :: "env \<Rightarrow> (string \<Rightarrow> byte list option) \<Rightarrow> string \<Rightarrow> vm \<Rightarrow> (nat \<times> results \<times> vm) option" where
  "run_path x sources path m = (case readFile sources path of
     None \<Rightarrow> Some (74, [], m)
   | Some source \<Rightarrow> do {
       (code, out, m) \<leftarrow> runFile x source m;
       if code = Some 0 then do { m \<leftarrow> closeTableCache m; Some (0, out, m) }
       else Some (case code of None \<Rightarrow> 74 | Some c \<Rightarrow> c, out, m)
     })"

definition run_repl :: "env \<Rightarrow> string list \<Rightarrow> vm \<Rightarrow> (nat \<times> results \<times> vm) option" where
  "run_repl x inputs m = do {
     (ok, out, m) \<leftarrow> repl x inputs [] m;
     if ok then do { m \<leftarrow> closeTableCache m; Some (0, out, m) } else Some (74, out, m)
   }"

definition main_program :: "env \<Rightarrow> bool \<Rightarrow> recover_calls \<Rightarrow> (string \<Rightarrow> byte list option) \<Rightarrow> string list \<Rightarrow> string list \<Rightarrow> vm \<Rightarrow> (nat \<times> results \<times> vm) option" where
  "main_program x locked rx sources argv inputs m =
     (if \<not> locked then Some (75, [], m)
      else let (recovered, log, fs) = recover rx (wal m) (disk m);
               m = m\<lparr>wal := log, disk := fs\<rparr>;
               debug = (\<lambda>arg. take 2 arg = ''-d'') in
        if \<not> recovered then Some (74, [], m)
        else (case argv of
            [program] \<Rightarrow> run_repl x inputs m
          | [program, a] \<Rightarrow> if debug a then run_repl x inputs m else run_path x sources a m
          | [program, a, b] \<Rightarrow> if debug b then run_path x sources a m else Some (0, [], m)
          | _ \<Rightarrow> map_option (\<lambda>m. (0, [], m)) (closeTableCache m)))"

end
