(* ===== verification/Compile.thy ===== *)
theory Compile
  imports VmRun
begin

text \<open>
  The code generator and the machine together: the code of an expression, run by the machine, pushes the value of the
  expression. Between the two stands an abstract syntax of expressions with its evaluation (\<open>eval\<close>) and its code as a
  function of the expression alone (\<open>compile_expr\<close>), without the chunk and its patched jumps.
\<close>

section \<open>Expressions and their values\<close>

datatype expr =
    Lit val
  | Col nat
  | Unop byte expr
  | Binop byte expr expr
  | Or expr expr
  | And expr expr
  | Btw expr expr expr
  | InList bool expr "expr list"

text \<open>A result: \<open>Some (Some v)\<close> is a value, \<open>Some None\<close> a run-time error, \<open>None\<close> no defined behaviour.\<close>

type_synonym result = "val option option"

definition bindr :: "result \<Rightarrow> (val \<Rightarrow> result) \<Rightarrow> result" where
  "bindr r f = (case r of None \<Rightarrow> None | Some None \<Rightarrow> Some None | Some (Some v) \<Rightarrow> f v)"

definition ok :: "val \<Rightarrow> result" where "ok v = Some (Some v)"

definition compare_result :: "(val \<Rightarrow> val \<Rightarrow> bool option) \<Rightarrow> bool \<Rightarrow> val \<Rightarrow> val \<Rightarrow> result" where
  "compare_result cmp yes a b = (case cmp a b of None \<Rightarrow> Some None | Some r \<Rightarrow> ok (VBool (r = yes)))"

definition binval :: "byte \<Rightarrow> val \<Rightarrow> val \<Rightarrow> result" where
  "binval op a b =
     (if op = OP_ADD then map_option Some (arith i_add d_add a b)
      else if op = OP_SUBTRACT then map_option Some (arith i_sub d_sub a b)
      else if op = OP_MULTIPLY then map_option Some (arith i_mul d_mul a b)
      else if op = OP_DIVIDE then (if is_zero b then Some None else map_option Some (arith i_div d_div a b))
      else if op = OP_EQUAL then ok (VBool (equal a b))
      else if op = OP_NOT_EQUAL then ok (VBool (\<not> equal a b))
      else if op = OP_LESS then compare_result lessThan True a b
      else if op = OP_LESS_EQUAL then compare_result greaterThan False a b
      else if op = OP_GREATER then compare_result greaterThan True a b
      else if op = OP_GREATER_EQUAL then compare_result lessThan False a b
      else if op = OP_LIKE then map_option Some (like a b)
      else None)"

definition negate :: "val \<Rightarrow> result" where
  "negate v = (case v of VInt i \<Rightarrow> map_option (\<lambda>j. Some (VInt j)) (in_range (- sint i)) | VFloat d \<Rightarrow> ok (VFloat (d_neg d)) | _ \<Rightarrow> Some None)"

definition unval :: "byte \<Rightarrow> val \<Rightarrow> result" where
  "unval op v =
     (if op = OP_NEGATE then negate v
      else if op = OP_IS_NULL then ok (VBool (v = VNull))
      else if op = OP_NOT_NULL then ok (VBool (v \<noteq> VNull))
      else if op = OP_NOT then map_option (\<lambda>b. Some (VBool (\<not> b))) (boolean_of v)
      else None)"

definition is_true :: "val \<Rightarrow> bool" where "is_true v \<longleftrightarrow> v = VBool True"
definition is_false :: "val \<Rightarrow> bool" where "is_false v \<longleftrightarrow> v = VBool False \<or> v = VNull"

fun eval_in :: "result \<Rightarrow> result list \<Rightarrow> result" where
  "eval_in x [] = None"
| "eval_in x [r] = bindr x (\<lambda>a. bindr r (\<lambda>b. ok (VBool (equal a b))))"
| "eval_in x (r # rs) = bindr x (\<lambda>a. bindr r (\<lambda>b. if equal a b then ok (VBool True) else eval_in x rs))"

text \<open>The operators of SQL, with the short cuts of OR, AND, BETWEEN and IN; \<open>col\<close> reads a column of the row.\<close>

fun eval :: "(nat \<Rightarrow> val option) \<Rightarrow> expr \<Rightarrow> result" where
  "eval col (Lit v) = ok v"
| "eval col (Col i) = map_option Some (col i)"
| "eval col (Unop op e) = bindr (eval col e) (unval op)"
| "eval col (Binop op a b) = bindr (eval col a) (\<lambda>x. bindr (eval col b) (binval op x))"
| "eval col (Or a b) = bindr (eval col a) (\<lambda>x. if is_true x then ok (VBool True) else eval col b)"
| "eval col (And a b) = bindr (eval col a) (\<lambda>x. if is_false x then ok (VBool False) else eval col b)"
| "eval col (Btw x lo hi) =
     bindr (bindr (eval col x) (\<lambda>a. bindr (eval col lo) (binval OP_GREATER_EQUAL a)))
       (\<lambda>t. if is_false t then ok (VBool False) else bindr (eval col x) (\<lambda>a. bindr (eval col hi) (binval OP_LESS_EQUAL a)))"
| "eval col (InList neg x es) = bindr (eval_in (eval col x) (map (eval col) es)) (\<lambda>v. if neg then unval OP_NOT v else ok v)"

section \<open>Code as a function of the expression\<close>

fun literals :: "expr \<Rightarrow> val list" where
  "literals (Lit v) = (if v = VNull then [] else [v])"
| "literals (Col i) = []"
| "literals (Unop op e) = literals e"
| "literals (Binop op a b) = literals a @ literals b"
| "literals (Or a b) = literals a @ literals b"
| "literals (And a b) = literals a @ literals b"
| "literals (Btw x lo hi) = literals x @ literals lo @ literals x @ literals hi"
| "literals (InList neg x es) = concat (map (\<lambda>e. literals x @ literals e) es)"

definition offset :: "nat \<Rightarrow> byte list" where
  "offset n = [hi8 (of_nat n), lo8 (of_nat n)]"

text \<open>The comparisons of an IN list, each but the last followed by the jump to its end.\<close>

fun in_code :: "byte list list \<Rightarrow> byte list" where
  "in_code [] = []"
| "in_code [i] = i"
| "in_code (i # is) = i @ OP_JUMP_TRUE # offset (length (in_code is) + 3) @ in_code is"

text \<open>Code whose first constant has the index \<open>k\<close>, from functions of that index paired with their numbers of constants.\<close>

fun in_items :: "(nat \<Rightarrow> byte list) \<Rightarrow> nat \<Rightarrow> ((nat \<Rightarrow> byte list) \<times> nat) list \<Rightarrow> nat \<Rightarrow> byte list list" where
  "in_items x nx [] k = []"
| "in_items x nx ((c, n) # cs) k = (x k @ c (k + nx) @ [OP_EQUAL]) # in_items x nx cs (k + nx + n)"

fun compile_expr :: "expr \<Rightarrow> nat \<Rightarrow> byte list" where
  "compile_expr (Lit v) k = (if v = VNull then [OP_NULL] else [OP_CONSTANT, of_nat k])"
| "compile_expr (Col i) k = [OP_COLUMN, of_nat i]"
| "compile_expr (Unop op e) k = compile_expr e k @ [op]"
| "compile_expr (Binop op a b) k = compile_expr a k @ compile_expr b (k + length (literals a)) @ [op]"
| "compile_expr (Or a b) k =
     (let r = compile_expr b (k + length (literals a))
      in compile_expr a k @ OP_JUMP_TRUE # offset (length r + 3) @ r @ OP_JUMP # offset 1 @ [OP_TRUE])"
| "compile_expr (And a b) k =
     (let r = compile_expr b (k + length (literals a))
      in compile_expr a k @ OP_JUMP_FALSE # offset (length r + 3) @ r @ OP_JUMP # offset 1 @ [OP_FALSE])"
| "compile_expr (Btw x lo hi) k =
     (let j = k + length (literals x) + length (literals lo);
          r = compile_expr x j @ compile_expr hi (j + length (literals x)) @ [OP_LESS_EQUAL]
      in compile_expr x k @ compile_expr lo (k + length (literals x)) @ [OP_GREATER_EQUAL] @
         OP_JUMP_FALSE # offset (length r + 3) @ r @ OP_JUMP # offset 1 @ [OP_FALSE])"
| "compile_expr (InList neg x es) k =
     in_code (in_items (compile_expr x) (length (literals x)) (map (\<lambda>e. (compile_expr e, length (literals e))) es) k) @
     OP_JUMP # offset 1 @ OP_TRUE # (if neg then [OP_NOT] else [])"

text \<open>How many values the code has on the stack at once.\<close>

fun need :: "expr \<Rightarrow> nat" where
  "need (Lit v) = 1"
| "need (Col i) = 1"
| "need (Unop op e) = need e"
| "need (Binop op a b) = max (need a) (Suc (need b))"
| "need (Or a b) = max (need a) (need b)"
| "need (And a b) = max (need a) (need b)"
| "need (Btw x lo hi) = max (need x) (Suc (max (need lo) (need hi)))"
| "need (InList neg x es) = max (need x) (Suc (Max (set (0 # map need es))))"

fun small :: "expr \<Rightarrow> bool" where
  "small (Lit v) \<longleftrightarrow> True"
| "small (Col i) \<longleftrightarrow> i < 256"
| "small (Unop op e) \<longleftrightarrow> small e"
| "small (Binop op a b) \<longleftrightarrow> small a \<and> small b"
| "small (Or a b) \<longleftrightarrow> small a \<and> small b"
| "small (And a b) \<longleftrightarrow> small a \<and> small b"
| "small (Btw x lo hi) \<longleftrightarrow> small x \<and> small lo \<and> small hi"
| "small (InList neg x es) \<longleftrightarrow> small x \<and> list_all small es \<and> length es \<le> 65"

section \<open>The machine on the code\<close>

definition at :: "vm \<Rightarrow> nat \<Rightarrow> val list \<Rightarrow> vm" where
  "at m i st = m\<lparr>ip := i, stack := st\<rparr>"

definition steps :: "env \<Rightarrow> vm \<Rightarrow> vm \<Rightarrow> bool" where
  "steps x = (\<lambda>m m'. step x m = Some (Continue, m'))\<^sup>*\<^sup>*"

definition code_at :: "vm \<Rightarrow> nat \<Rightarrow> byte list \<Rightarrow> bool" where
  "code_at m i bs \<longleftrightarrow> take (length bs) (drop i (code (vchunk m))) = bs"

definition consts_at :: "vm \<Rightarrow> nat \<Rightarrow> val list \<Rightarrow> bool" where
  "consts_at m k vs \<longleftrightarrow> take (length vs) (drop k (vals (constants (vchunk m)))) = vs"

text \<open>From instruction \<open>i\<close> and stack \<open>st\<close> the machine comes to \<open>j\<close> with the result on the stack \<open>st'\<close>, or it stops with an error.\<close>

definition reaches :: "env \<Rightarrow> vm \<Rightarrow> nat \<Rightarrow> val list \<Rightarrow> nat \<Rightarrow> val list \<Rightarrow> result \<Rightarrow> bool" where
  "reaches x m i st j st' r \<longleftrightarrow> (case r of
     None \<Rightarrow> True
   | Some (Some v) \<Rightarrow> steps x (at m i st) (at m j (v # st'))
   | Some None \<Rightarrow> \<exists>i' st''. steps x (at m i st) ((at m i' st'')\<lparr>failed := True\<rparr>))"

lemma steps_refl [simp]: "steps x m m"
  by (simp add: steps_def)

lemma steps_trans: "steps x a b \<Longrightarrow> steps x b c \<Longrightarrow> steps x a c"
  by (simp add: steps_def)

lemma steps_step: "step x a = Some (Continue, b) \<Longrightarrow> steps x b c \<Longrightarrow> steps x a c"
  by (simp add: steps_def converse_rtranclp_into_rtranclp)

lemma reaches_bind:
  assumes "reaches x m i st j st1 r" "\<And>v. r = Some (Some v) \<Longrightarrow> reaches x m j (v # st1) k st2 (f v)"
  shows "reaches x m i st k st2 (bindr r f)"
proof (cases r)
  case (Some o1)
  show ?thesis
  proof (cases o1)
    case (Some v)
    then have "reaches x m j (v # st1) k st2 (f v)" "steps x (at m i st) (at m j (v # st1))"
      using assms \<open>r = Some o1\<close> by (simp_all add: reaches_def)
    then show ?thesis using Some \<open>r = Some o1\<close>
      by (auto simp: reaches_def bindr_def split: option.splits intro: steps_trans)
  qed (use assms(1) Some in \<open>simp add: reaches_def bindr_def\<close>)
qed (simp add: reaches_def bindr_def)

lemma reaches_step:
  assumes "step x (at m i st) = Some (Continue, at m j st1)" "reaches x m j st1 k st2 r"
  shows "reaches x m i st k st2 r"
  using assms by (auto simp: reaches_def split: option.splits intro: steps_step)

lemma reaches_ok: "steps x (at m i st) (at m j (v # st')) \<Longrightarrow> reaches x m i st j st' (ok v)"
  by (simp add: reaches_def ok_def)

section \<open>Instructions\<close>

lemma take_is: "take (length bs) xs = bs \<longleftrightarrow> (\<exists>rest. xs = bs @ rest)"
  by (metis append_eq_conv_conj)

lemma part_append: "take (length (xs @ ys)) (drop i l) = xs @ ys \<longleftrightarrow> take (length xs) (drop i l) = xs \<and> take (length ys) (drop (i + length xs) l) = ys"
proof -
  have "(\<exists>r. k = (xs @ ys) @ r) \<longleftrightarrow> (\<exists>r. k = xs @ r) \<and> (\<exists>r. drop (length xs) k = ys @ r)" for k by auto
  moreover have "drop (i + length xs) l = drop (length xs) (drop i l)" by (simp add: add.commute)
  ultimately show ?thesis unfolding take_is by (simp only:)
qed

lemma part_one: "take (length [b]) (drop i l) = [b] \<Longrightarrow> idx l i = Some b"
  by (cases "i < length l") (simp_all add: Cons_nth_drop_Suc [symmetric] idx_def)

lemma code_at_append: "code_at m i (xs @ ys) \<longleftrightarrow> code_at m i xs \<and> code_at m (i + length xs) ys"
  unfolding code_at_def by (rule part_append)

lemma code_at_Cons: "code_at m i (b # bs) \<longleftrightarrow> code_at m i [b] \<and> code_at m (Suc i) bs"
  using code_at_append [of m i "[b]" bs] by simp

lemma consts_at_append: "consts_at m i (xs @ ys) \<longleftrightarrow> consts_at m i xs \<and> consts_at m (i + length xs) ys"
  unfolding consts_at_def by (rule part_append)

lemma code_at_byte: "code_at m i [b] \<Longrightarrow> idx (code (vchunk m)) i = Some b"
  unfolding code_at_def by (rule part_one)

lemma consts_at_val: "consts_at m k [v] \<Longrightarrow> idx (vals (constants (vchunk m))) k = Some v"
  unfolding consts_at_def by (rule part_one)

lemma at_simps [simp]:
  "ip (at m i st) = i" "stack (at m i st) = st" "vchunk (at m i st) = vchunk m" "failed (at m i st) = failed m"
  "at (at m i st) j st' = at m j st'" "scanners (at m i st) = scanners m" "numScanners (at m i st) = numScanners m"
  "(at m i st)\<lparr>ip := j\<rparr> = at m j st" "(at m i st)\<lparr>stack := st'\<rparr> = at m i st'"
  by (simp_all add: at_def)

lemma read_at: "code_at m i [b] \<Longrightarrow> READ_BYTE (at m i st) = Some (b, at m (Suc i) st)"
  by (simp add: READ_BYTE_def code_at_byte)

lemma pop_at [simp]: "pop (at m i (v # st)) = (v, at m i st)"
  by (simp add: pop_def)

lemma push_at: "length st < STACK_MAX \<Longrightarrow> push v (at m i st) = at m i (v # st)"
  by (simp add: push_def)

lemma error_at: "runtimeError (at m i st) = (at m i [])\<lparr>failed := True\<rparr>"
  by (simp add: runtimeError_def at_def)

lemma push_error: "push v ((at m i [])\<lparr>failed := True\<rparr>) = (at m i [v])\<lparr>failed := True\<rparr>"
  by (simp add: push_def STACK_MAX_def at_def)

text \<open>One value instruction.\<close>

lemma step_value:
  assumes "\<not> failed m" "code_at m i [op]" "is_value_op op"
  shows "step x (at m i st) = map_option (Pair Continue) (value_op op (at m (Suc i) st))"
  using assms by (simp add: step_def read_at execute_def Let_def)

text \<open>What an instruction on values leads to: the result on the stack, or an error.\<close>

definition leads :: "vm \<Rightarrow> nat \<Rightarrow> val list \<Rightarrow> result \<Rightarrow> vm option \<Rightarrow> bool" where
  "leads m i st r o1 \<longleftrightarrow> (case r of
     None \<Rightarrow> True
   | Some (Some v) \<Rightarrow> o1 = Some (at m i (v # st))
   | Some None \<Rightarrow> \<exists>st'. o1 = Some ((at m i st')\<lparr>failed := True\<rparr>))"

lemma reaches_value:
  assumes "\<not> failed m" "code_at m i [op]" "is_value_op op" "leads m j st' r (value_op op (at m (Suc i) st))"
  shows "reaches x m i st j st' r"
proof -
  have s: "step x (at m i st) = map_option (Pair Continue) (value_op op (at m (Suc i) st))" by (rule step_value [OF assms(1-3)])
  show ?thesis
  proof (cases r)
    case (Some o1)
    show ?thesis
    proof (cases o1)
      case None
      then obtain st'' where "value_op op (at m (Suc i) st) = Some ((at m j st'')\<lparr>failed := True\<rparr>)"
        using assms(4) Some by (auto simp: leads_def)
      then have "steps x (at m i st) ((at m j st'')\<lparr>failed := True\<rparr>)" using s by (intro steps_step [OF _ steps_refl]) simp
      then show ?thesis using None Some by (auto simp: reaches_def)
    next
      case (Some v)
      then have "steps x (at m i st) (at m j (v # st'))" using s assms(4) \<open>r = Some o1\<close>
        by (intro steps_step [OF _ steps_refl]) (simp add: leads_def)
      then show ?thesis using Some \<open>r = Some o1\<close> by (simp add: reaches_def)
    qed
  qed (simp add: reaches_def)
qed

lemma leads_map: "length st < STACK_MAX \<Longrightarrow> leads m i st (map_option Some r) (map_option (\<lambda>v. push v (at m i st)) r)"
  by (cases r) (simp_all add: leads_def push_at)

lemma leads_ok: "length st < STACK_MAX \<Longrightarrow> leads m i st (ok v) (Some (push v (at m i st)))"
  by (simp add: leads_def ok_def push_at)

lemma leads_mapf: "length st < STACK_MAX \<Longrightarrow> leads m i st (map_option (\<lambda>j. Some (f j)) r) (map_option (\<lambda>j. push (f j) (at m i st)) r)"
  by (cases r) (simp_all add: leads_def push_at)

lemma leads_some: "length st < STACK_MAX \<Longrightarrow> leads m i st (Some (Some v)) (Some (push v (at m i st)))"
  by (simp add: leads_def push_at)

lemma leads_compare: "length st < STACK_MAX \<Longrightarrow> leads m i st (compare_result cmp yes a b) (Some (op_compare cmp yes (at m i (b # a # st))))"
  by (cases "cmp a b") (auto simp: leads_def ok_def compare_result_def op_compare_def push_at error_at push_error)

lemma leads_binary: "length st < STACK_MAX \<Longrightarrow> leads m i st (map_option Some (arith fi fd a b)) (BINARY_OP fi fd (at m i (b # a # st)))"
  by (simp add: BINARY_OP_def leads_map)

lemma leads_error: "leads m i st (Some None) (Some (runtimeError (at m i st')))"
  by (auto simp: leads_def error_at)

lemma leads_None: "leads m i st None r"
  by (simp add: leads_def)

lemmas value_ops = op_divide_def op_equal_def op_like_def op_is_null_def op_not_def op_negate_def

lemma leads_binval:
  assumes "length st < STACK_MAX"
  shows "leads m i st (binval op a b) (value_op op (at m i (b # a # st)))"
  unfolding binval_def
  by (simp add: value_op_def value_ops leads_binary leads_ok leads_map leads_compare leads_error leads_None assms split: if_split)

lemma leads_unval:
  assumes "length st < STACK_MAX"
  shows "leads m i st (unval op v) (value_op op (at m i (v # st)))"
  unfolding unval_def negate_def
  by (cases v; simp add: value_op_def value_ops leads_ok leads_some leads_map leads_error leads_None leads_mapf assms del: boolean_of.simps split: if_split)

text \<open>Jumps.\<close>

lemma join_bytes: "push_bit 8 (ucast (hi8 w)) OR ucast (lo8 w) = (w :: u16)"
proof (rule bit_word_eqI)
  have mask8: "bit (0xFF :: u16) n \<longleftrightarrow> n < 8" for n
  proof -
    have e: "(0xFF :: u16) = mask 8" by (simp add: mask_eq_exp_minus_1)
    show ?thesis unfolding e by (auto simp: bit_mask_iff)
  qed
  fix n assume "n < LENGTH(16)"
  then show "bit (push_bit 8 (ucast (hi8 w)) OR ucast (lo8 w) :: u16) n = bit w n"
    unfolding hi8_def lo8_def bit_or_iff bit_push_bit_iff bit_ucast_iff bit_drop_bit_eq bit_and_iff mask8
    by (cases "n < 8") (auto dest: bit_imp_le_length)
qed

lemma read_offset: "code_at m i (offset n) \<Longrightarrow> READ_TWO_BYTES (at m i st) = Some (of_nat n, at m (i + 2) st)"
proof -
  assume c: "code_at m i (offset n)"
  have "code_at m i [hi8 (of_nat n)]" "code_at m (Suc i) [lo8 (of_nat n)]"
    using c unfolding offset_def code_at_Cons [of m i _ "[_]"] by simp_all
  from read_at [OF this(1)] read_at [OF this(2)] show ?thesis by (simp add: READ_TWO_BYTES_def join_bytes)
qed

lemma jump_at: "n < 2 ^ 15 \<Longrightarrow> jump (of_nat n) (at m i st) = Some (at m (i + n) st)"
proof -
  assume n: "n < 2 ^ 15"
  have "sint (word_of_nat n :: u16) = int n" using n by (simp add: signed_of_nat signed_take_bit_int_eq_self_iff)
  then show ?thesis by (simp add: jump_def nat_add_distrib)
qed

lemma jumps:
  assumes "\<not> failed m" "n < 2 ^ 15"
  shows "code_at m i (OP_JUMP # offset n) \<Longrightarrow> steps x (at m i st) (at m (i + 3 + n) st)"
    "code_at m i (OP_JUMP_TRUE # offset n) \<Longrightarrow> steps x (at m i (v # st)) (at m (if is_true v then i + 3 + n else i + 3) st)"
    "code_at m i (OP_JUMP_FALSE # offset n) \<Longrightarrow> steps x (at m i (v # st)) (at m (if is_false v then i + 3 + n else i + 3) st)"
proof -
  have n: "n < 32768" using assms(2) by simp
  have go: "steps x (at m i st) (at m j st')"
    if "code_at m i [op]" "is_value_op op" "value_op op (at m (Suc i) st) = Some (at m j st')" for op j st st'
    by (rule steps_step [OF _ steps_refl]) (use step_value [OF assms(1) that(1,2)] that(3) in simp)
  have vop: "value_op OP_JUMP = op_jump" "value_op OP_JUMP_TRUE = op_jump_true" "value_op OP_JUMP_FALSE = op_jump_false"
    by (simp_all add: fun_eq_iff value_op_def)
  have ops: "is_value_op OP_JUMP" "is_value_op OP_JUMP_TRUE" "is_value_op OP_JUMP_FALSE" by (simp_all add: is_value_op_def)
  show "code_at m i (OP_JUMP # offset n) \<Longrightarrow> steps x (at m i st) (at m (i + 3 + n) st)"
    unfolding code_at_Cons [of m i _ "offset n"]
    by (rule go [OF _ ops(1)]) (auto simp: vop op_jump_def read_offset jump_at n numeral_3_eq_3)
  show "code_at m i (OP_JUMP_TRUE # offset n) \<Longrightarrow> steps x (at m i (v # st)) (at m (if is_true v then i + 3 + n else i + 3) st)"
    unfolding code_at_Cons [of m i _ "offset n"]
    by (rule go [OF _ ops(2)]) (auto simp: vop op_jump_true_def read_offset jump_at n is_true_def numeral_3_eq_3)
  show "code_at m i (OP_JUMP_FALSE # offset n) \<Longrightarrow> steps x (at m i (v # st)) (at m (if is_false v then i + 3 + n else i + 3) st)"
    unfolding code_at_Cons [of m i _ "offset n"]
    by (rule go [OF _ ops(3)]) (auto simp: vop op_jump_false_def read_offset jump_at n is_false_def numeral_3_eq_3)
qed

section \<open>The code of an expression\<close>

lemma length_offset [simp]: "length (offset n) = 2"
  by (simp add: offset_def)

lemma code_at_jump: "code_at m i (op # offset n @ rest) \<longleftrightarrow> code_at m i (op # offset n) \<and> code_at m (i + 3) rest"
  using code_at_append [of m i "op # offset n" rest] by (simp add: numeral_3_eq_3)

text \<open>Past an alternative: the jump over the instruction that follows it.\<close>

lemma reaches_skip:
  assumes "\<not> failed m" "code_at m j (OP_JUMP # offset 1)" "reaches x m i st j st' r"
  shows "reaches x m i st (j + 4) st' r"
proof -
  have "steps x (at m j st) (at m (j + 4) st)" for st using jumps(1) [OF assms(1) _ assms(2), of x st] by (simp add: ac_simps)
  then show ?thesis using assms(3) by (auto simp: reaches_def split: option.splits intro: steps_trans)
qed

text \<open>A literal truth value.\<close>

lemma steps_literal:
  assumes "\<not> failed m" "length st < STACK_MAX"
  shows "code_at m i [OP_TRUE] \<Longrightarrow> steps x (at m i st) (at m (Suc i) (VBool True # st))"
    "code_at m i [OP_FALSE] \<Longrightarrow> steps x (at m i st) (at m (Suc i) (VBool False # st))"
    "code_at m i [OP_NULL] \<Longrightarrow> steps x (at m i st) (at m (Suc i) (VNull # st))"
  by (rule steps_step [OF _ steps_refl], simp add: step_value [OF assms(1)] is_value_op_def value_op_def push_at assms(2))+

lemma shortcut_to:
  assumes m: "\<not> failed m" and c: "code_at m (i + length ca) (jop # offset (length r + 3) @ r @ OP_JUMP # offset 1 @ [lop])"
    and l: "length r + 3 < 2 ^ 15" and st: "length st < STACK_MAX"
    and op: "(jop, lop, P, v) = (OP_JUMP_TRUE, OP_TRUE, is_true, VBool True) \<or> (jop, lop, P, v) = (OP_JUMP_FALSE, OP_FALSE, is_false, VBool False)"
    and a: "reaches x m i st (i + length ca) st ra" and b: "reaches x m (i + length ca + 3) st (i + length ca + length r + 7) st rb"
  shows "reaches x m i st (i + length ca + length r + 7) st (bindr ra (\<lambda>t. if P t then ok v else rb))"
proof (rule reaches_bind [OF a])
  fix t
  let ?j = "i + length ca"
  have parts: "code_at m ?j (jop # offset (length r + 3))" "code_at m (?j + length r + 6) [lop]"
    using c by (simp_all add: code_at_jump code_at_append ac_simps)
  show "reaches x m ?j (t # st) (?j + length r + 7) st (if P t then ok v else rb)"
  proof (cases "P t")
    case True
    then have "steps x (at m ?j (t # st)) (at m (?j + 3 + (length r + 3)) st)"
      using op parts(1) jumps(2,3) [OF m l, of ?j x t st] by auto
    moreover have "code_at m q [lop] \<Longrightarrow> steps x (at m q st) (at m (Suc q) (v # st))" for q
      using op steps_literal(1,2) [OF m st] by auto
    from this [OF parts(2)] have "steps x (at m (?j + 3 + (length r + 3)) st) (at m (?j + length r + 7) (v # st))" by (simp add: ac_simps)
    ultimately have "steps x (at m ?j (t # st)) (at m (?j + length r + 7) (v # st))" by (rule steps_trans)
    then show ?thesis using True by (simp add: reaches_ok)
  next
    case False
    then have j: "steps x (at m ?j (t # st)) (at m (?j + 3) st)"
      using op parts(1) jumps(2,3) [OF m l, of ?j x t st] by auto
    then show ?thesis using b False by (auto simp: reaches_def split: option.splits intro: steps_trans)
  qed
qed

lemma shortcut:
  assumes m: "\<not> failed m" and c: "code_at m (i + length ca) (jop # offset (length r + 3) @ r @ OP_JUMP # offset 1 @ [lop])"
    and l: "length r + 3 < 2 ^ 15" and st: "length st < STACK_MAX"
    and op: "(jop, lop, P, v) = (OP_JUMP_TRUE, OP_TRUE, is_true, VBool True) \<or> (jop, lop, P, v) = (OP_JUMP_FALSE, OP_FALSE, is_false, VBool False)"
    and a: "reaches x m i st (i + length ca) st ra" and b: "reaches x m (i + length ca + 3) st (i + length ca + 3 + length r) st rb"
  shows "reaches x m i st (i + length (ca @ jop # offset (length r + 3) @ r @ OP_JUMP # offset 1 @ [lop])) st (bindr ra (\<lambda>t. if P t then ok v else rb))"
proof -
  have "code_at m (i + length ca + 3 + length r) (OP_JUMP # offset 1)" using c by (simp add: code_at_jump code_at_append)
  from reaches_skip [OF m this b] have "reaches x m (i + length ca + 3) st (i + length ca + length r + 7) st rb" by (simp add: ac_simps)
  moreover have "i + length (ca @ jop # offset (length r + 3) @ r @ OP_JUMP # offset 1 @ [lop]) = i + length ca + length r + 7" by simp
  ultimately show ?thesis using shortcut_to [OF m c l st op a] by (simp only:)
qed

text \<open>Two operands and the instruction on them.\<close>

lemma reaches_binval:
  assumes "\<not> failed m" "code_at m j [op]" "length st < STACK_MAX"
  shows "reaches x m j (b # a # st) (Suc j) st (binval op a b)"
proof (cases "is_value_op op")
  case True
  then show ?thesis by (rule reaches_value [OF assms(1,2) _ leads_binval [OF assms(3)]])
next
  case False
  then have "binval op a b = None" by (auto simp: binval_def is_value_op_def)
  then show ?thesis by (simp add: reaches_def)
qed

lemma reaches_unval:
  assumes "\<not> failed m" "code_at m j [op]" "length st < STACK_MAX"
  shows "reaches x m j (v # st) (Suc j) st (unval op v)"
proof (cases "is_value_op op")
  case True
  then show ?thesis by (rule reaches_value [OF assms(1,2) _ leads_unval [OF assms(3)]])
next
  case False
  then have "unval op v = None" by (auto simp: unval_def is_value_op_def)
  then show ?thesis by (simp add: reaches_def)
qed

text \<open>The columns of the row the machine is on.\<close>

definition row_of :: "vm \<Rightarrow> nat \<Rightarrow> val option" where
  "row_of m i = do { s \<leftarrow> top_scanner m; column s i }"

definition fits :: "vm \<Rightarrow> nat \<Rightarrow> nat \<Rightarrow> val list \<Rightarrow> expr \<Rightarrow> bool" where
  "fits m k i st e \<longleftrightarrow> code_at m i (compile_expr e k) \<and> consts_at m k (literals e) \<and> k + length (literals e) \<le> 256 \<and>
     length (compile_expr e k) < 2 ^ 15 \<and> length st + need e \<le> STACK_MAX"

definition runs :: "env \<Rightarrow> vm \<Rightarrow> expr \<Rightarrow> bool" where
  "runs x m e \<longleftrightarrow> (\<forall>k i st. fits m k i st e \<longrightarrow> reaches x m i st (i + length (compile_expr e k)) st (eval (row_of m) e))"

lemma runs_reaches: "runs x m e \<Longrightarrow> fits m k i st e \<Longrightarrow> reaches x m i st (i + length (compile_expr e k)) st (eval (row_of m) e)"
  by (simp add: runs_def)

lemma room_max: "n + max a b \<le> N \<longleftrightarrow> n + a \<le> N \<and> n + b \<le> N" for n :: nat
  by auto

lemma room_Suc_max: "Suc (n + max a b) \<le> N \<longleftrightarrow> Suc (n + a) \<le> N \<and> Suc (n + b) \<le> N" for n :: nat
  by auto

lemma code_at_then: "code_at m i (a # b # bs) \<longleftrightarrow> code_at m i [a] \<and> code_at m (Suc i) (b # bs)"
  by (rule code_at_Cons)

lemma need_pos: "0 < need e"
  by (induction e) (auto simp: max_def)

text \<open>Two operands and an operator.\<close>

lemma runs_pair:
  assumes m: "\<not> failed m" and r: "runs x m a" "runs x m b" and f: "fits m k i st a" "fits m k' (i + length (compile_expr a k)) (v0 # st) b"
    and op: "code_at m (i + length (compile_expr a k) + length (compile_expr b k')) [op]"
  shows "reaches x m i st (i + length (compile_expr a k) + length (compile_expr b k') + 1) st
    (bindr (eval (row_of m) a) (\<lambda>u. bindr (eval (row_of m) b) (binval op u)))"
proof (rule reaches_bind [OF runs_reaches [OF r(1) f(1)]], rule reaches_bind)
  let ?j = "i + length (compile_expr a k)"
  show "reaches x m ?j (u # st) (?j + length (compile_expr b k')) (u # st) (eval (row_of m) b)" for u
    using runs_reaches [OF r(2), of k' ?j "u # st"] f(2) by (simp add: fits_def)
  show "reaches x m (?j + length (compile_expr b k')) (w # u # st) (?j + length (compile_expr b k') + 1) st (binval op u w)" for u w
    using reaches_binval [OF m op, of st x w u] f need_pos [of a] by (simp add: fits_def)
qed

lemma code_at_two: "code_at m i [a, b] \<longleftrightarrow> code_at m i [a] \<and> code_at m (Suc i) [b]"
  by (rule code_at_Cons)

lemma runs_Lit: "\<not> failed m \<Longrightarrow> runs x m (Lit v)"
proof (unfold runs_def, intro allI impI)
  fix k i st assume m: "\<not> failed m" and f: "fits m k i st (Lit v)"
  have st: "length st < STACK_MAX" using f by (simp add: fits_def)
  show "reaches x m i st (i + length (compile_expr (Lit v) k)) st (eval (row_of m) (Lit v))"
  proof (cases "v = VNull")
    case True
    then show ?thesis using f steps_literal(3) [OF m st, of i x] by (simp add: fits_def reaches_ok)
  next
    case False
    then have c: "code_at m i [OP_CONSTANT]" "code_at m (Suc i) [of_nat k]" "consts_at m k [v]" "k < 256"
      using f by (simp_all add: fits_def code_at_two)
    have "value_op OP_CONSTANT (at m (Suc i) st) = Some (at m (i + 2) (v # st))"
      using read_at [OF c(2), of st] consts_at_val [OF c(3)] c(4) st
      by (simp add: value_op_def op_constant_def READ_CONSTANT_def unat_of_nat push_at)
    then have "reaches x m i st (i + 2) st (ok v)"
      by (intro reaches_value [OF m c(1)]) (simp_all add: is_value_op_def leads_def ok_def)
    then show ?thesis using False by simp
  qed
qed

lemma runs_Col: "\<not> failed m \<Longrightarrow> n < 256 \<Longrightarrow> runs x m (Col n)"
proof (unfold runs_def, intro allI impI)
  fix k i st assume m: "\<not> failed m" and n: "n < 256" and f: "fits m k i st (Col n)"
  have st: "length st < STACK_MAX" and c: "code_at m i [OP_COLUMN]" "code_at m (Suc i) [of_nat n]"
    using f by (simp_all add: fits_def code_at_two)
  have "top_scanner (at m j st') = top_scanner m" for j st' by (simp add: top_scanner_def)
  then have "value_op OP_COLUMN (at m (Suc i) st) = map_option (\<lambda>v. push v (at m (i + 2) st)) (row_of m n)"
    using read_at [OF c(2), of st] n
    by (simp add: value_op_def op_column_def row_of_def unat_of_nat split: Option.bind_splits)
  then have "reaches x m i st (i + 2) st (map_option Some (row_of m n))"
    by (intro reaches_value [OF m c(1)]) (simp_all add: is_value_op_def leads_map st)
  then show "reaches x m i st (i + length (compile_expr (Col n) k)) st (eval (row_of m) (Col n))" by simp
qed

lemma runs_Unop: "\<not> failed m \<Longrightarrow> runs x m e \<Longrightarrow> runs x m (Unop op e)"
proof (unfold runs_def [of x m "Unop op e"], intro allI impI)
  fix k i st assume m: "\<not> failed m" and r: "runs x m e" and f: "fits m k i st (Unop op e)"
  then have f': "fits m k i st e" and c: "code_at m (i + length (compile_expr e k)) [op]"
    by (simp_all add: fits_def code_at_append)
  have "length st < STACK_MAX" using f' need_pos [of e] by (simp add: fits_def)
  then have "reaches x m i st (Suc (i + length (compile_expr e k))) st (bindr (eval (row_of m) e) (unval op))"
    by (intro reaches_bind [OF runs_reaches [OF r f']] reaches_unval m c)
  then show "reaches x m i st (i + length (compile_expr (Unop op e) k)) st (eval (row_of m) (Unop op e))" by simp
qed

lemma runs_Binop: "\<not> failed m \<Longrightarrow> runs x m a \<Longrightarrow> runs x m b \<Longrightarrow> runs x m (Binop op a b)"
proof (unfold runs_def [of x m "Binop op a b"], intro allI impI)
  fix k i st assume m: "\<not> failed m" and r: "runs x m a" "runs x m b" and f: "fits m k i st (Binop op a b)"
  have f': "fits m k i st a" "fits m (k + length (literals a)) (i + length (compile_expr a k)) (v # st) b"
    and c: "code_at m (i + length (compile_expr a k) + length (compile_expr b (k + length (literals a)))) [op]" for v
    using f by (simp_all add: fits_def code_at_append consts_at_append room_max add.assoc)
  show "reaches x m i st (i + length (compile_expr (Binop op a b) k)) st (eval (row_of m) (Binop op a b))"
    using runs_pair [OF m r f' c] by (simp add: add.assoc)
qed

lemma runs_Or: "\<not> failed m \<Longrightarrow> runs x m a \<Longrightarrow> runs x m b \<Longrightarrow> runs x m (Or a b)"
proof (unfold runs_def [of x m "Or a b"], intro allI impI)
  fix k i st assume m: "\<not> failed m" and r: "runs x m a" "runs x m b" and f: "fits m k i st (Or a b)"
  let ?ca = "compile_expr a k" and ?cb = "compile_expr b (k + length (literals a))"
  have f': "fits m k i st a" "fits m (k + length (literals a)) (i + length ?ca + 3) st b"
    and c: "code_at m (i + length ?ca) (OP_JUMP_TRUE # offset (length ?cb + 3) @ ?cb @ OP_JUMP # offset 1 @ [OP_TRUE])"
    and l: "length ?cb + 3 < 2 ^ 15"
    using f by (simp_all add: fits_def Let_def code_at_append code_at_jump consts_at_append room_max ac_simps)
  have st: "length st < STACK_MAX" using f' need_pos [of a] by (simp add: fits_def)
  show "reaches x m i st (i + length (compile_expr (Or a b) k)) st (eval (row_of m) (Or a b))"
    using shortcut [OF m c l st disjI1 [OF refl] runs_reaches [OF r(1) f'(1)] runs_reaches [OF r(2) f'(2)]] by (simp add: Let_def)
qed

lemma runs_And: "\<not> failed m \<Longrightarrow> runs x m a \<Longrightarrow> runs x m b \<Longrightarrow> runs x m (And a b)"
proof (unfold runs_def [of x m "And a b"], intro allI impI)
  fix k i st assume m: "\<not> failed m" and r: "runs x m a" "runs x m b" and f: "fits m k i st (And a b)"
  let ?ca = "compile_expr a k" and ?cb = "compile_expr b (k + length (literals a))"
  have f': "fits m k i st a" "fits m (k + length (literals a)) (i + length ?ca + 3) st b"
    and c: "code_at m (i + length ?ca) (OP_JUMP_FALSE # offset (length ?cb + 3) @ ?cb @ OP_JUMP # offset 1 @ [OP_FALSE])"
    and l: "length ?cb + 3 < 2 ^ 15"
    using f by (simp_all add: fits_def Let_def code_at_append code_at_jump consts_at_append room_max ac_simps)
  have st: "length st < STACK_MAX" using f' need_pos [of a] by (simp add: fits_def)
  show "reaches x m i st (i + length (compile_expr (And a b) k)) st (eval (row_of m) (And a b))"
    using shortcut [OF m c l st disjI2 [OF refl] runs_reaches [OF r(1) f'(1)] runs_reaches [OF r(2) f'(2)]] by (simp add: Let_def)
qed

lemma runs_Btw: "\<not> failed m \<Longrightarrow> runs x m a \<Longrightarrow> runs x m lo \<Longrightarrow> runs x m hi \<Longrightarrow> runs x m (Btw a lo hi)"
proof (unfold runs_def [of x m "Btw a lo hi"], intro allI impI)
  fix k i st assume m: "\<not> failed m" and r: "runs x m a" "runs x m lo" "runs x m hi" and f: "fits m k i st (Btw a lo hi)"
  let ?j = "k + length (literals a) + length (literals lo)"
  let ?ca = "compile_expr a k" and ?clo = "compile_expr lo (k + length (literals a))"
  let ?ca' = "compile_expr a ?j" and ?chi = "compile_expr hi (?j + length (literals a))"
  let ?left = "?ca @ ?clo @ [OP_GREATER_EQUAL]" and ?right = "?ca' @ ?chi @ [OP_LESS_EQUAL]"
  let ?p = "i + length ?left + 3"
  have f': "fits m k i st a" "fits m (k + length (literals a)) (i + length ?ca) (v # st) lo"
      "fits m ?j ?p st a" "fits m (?j + length (literals a)) (?p + length ?ca') (v # st) hi"
    and c: "code_at m (i + length ?left) (OP_JUMP_FALSE # offset (length ?right + 3) @ ?right @ OP_JUMP # offset 1 @ [OP_FALSE])"
      "code_at m (i + length ?ca + length ?clo) [OP_GREATER_EQUAL]" "code_at m (?p + length ?ca' + length ?chi) [OP_LESS_EQUAL]"
    and l: "length ?right + 3 < 2 ^ 15" for v
    using f by (simp_all add: fits_def Let_def code_at_append code_at_jump code_at_then consts_at_append room_max room_Suc_max ac_simps)
  have st: "length st < STACK_MAX" using f' need_pos [of a] by (simp add: fits_def)
  have left: "reaches x m i st (i + length ?left) st
      (bindr (eval (row_of m) a) (\<lambda>u. bindr (eval (row_of m) lo) (binval OP_GREATER_EQUAL u)))"
    using runs_pair [OF m r(1,2) f'(1,2) c(2)] by (simp add: add.assoc)
  have right: "reaches x m ?p st (?p + length ?right) st
      (bindr (eval (row_of m) a) (\<lambda>u. bindr (eval (row_of m) hi) (binval OP_LESS_EQUAL u)))"
    using runs_pair [OF m r(1,3) f'(3,4) c(3)] by (simp add: add.assoc)
  show "reaches x m i st (i + length (compile_expr (Btw a lo hi) k)) st (eval (row_of m) (Btw a lo hi))"
    using shortcut [OF m c(1) l st disjI2 [OF refl] left right] by (simp add: Let_def add.assoc)
qed

text \<open>The list of IN.\<close>

lemma bindr_assoc: "bindr (bindr r f) g = bindr r (\<lambda>u. bindr (f u) g)"
  by (simp add: bindr_def split: option.split)

lemma bindr_ok [simp]: "bindr (ok v) f = f v"
  by (simp add: bindr_def ok_def)

lemma binval_equal: "binval OP_EQUAL u w = ok (VBool (equal u w))"
  by (simp add: binval_def)

lemma eval_in_step:
  "rs \<noteq> [] \<Longrightarrow> eval_in x (r # rs) =
     bindr (bindr x (\<lambda>u. bindr r (binval OP_EQUAL u))) (\<lambda>t. if is_true t then ok (VBool True) else eval_in x rs)"
  by (cases rs; auto simp: bindr_assoc binval_equal is_true_def)

abbreviation in_list :: "expr \<Rightarrow> expr list \<Rightarrow> nat \<Rightarrow> byte list" where
  "in_list a es k \<equiv> in_code (in_items (compile_expr a) (length (literals a)) (map (\<lambda>e. (compile_expr e, length (literals e))) es) k)"

lemma in_runs:
  assumes m: "\<not> failed m" and a: "runs x m a"
  shows "es \<noteq> [] \<Longrightarrow> \<forall>e \<in> set es. runs x m e \<and> Suc (length st + need e) \<le> STACK_MAX \<Longrightarrow> length st + need a \<le> STACK_MAX \<Longrightarrow>
    code_at m i (in_list a es k @ OP_JUMP # offset 1 @ [OP_TRUE]) \<Longrightarrow>
    consts_at m k (concat (map (\<lambda>e. literals a @ literals e) es)) \<Longrightarrow>
    k + length (concat (map (\<lambda>e. literals a @ literals e) es)) \<le> 256 \<Longrightarrow> length (in_list a es k) + 3 < 2 ^ 15 \<Longrightarrow>
    reaches x m i st (i + length (in_list a es k) + 4) st (eval_in (eval (row_of m) a) (map (eval (row_of m)) es))"
proof (induction es arbitrary: i k)
  case (Cons e es)
  let ?ca = "compile_expr a k" and ?ce = "compile_expr e (k + length (literals a))"
  let ?k = "k + length (literals a) + length (literals e)"
  let ?item = "?ca @ ?ce @ [OP_EQUAL]"
  have st: "length st < STACK_MAX" using Cons.prems(3) need_pos [of a] by simp
  have len: "length ?item \<le> length (in_list a (e # es) k)" by (cases es) simp_all
  have f: "fits m k i st a" "fits m (k + length (literals a)) (i + length ?ca) (v # st) e"
    and c: "code_at m (i + length ?ca + length ?ce) [OP_EQUAL]" for v
    using Cons.prems(2-7) len
    by (cases es; simp add: fits_def code_at_append code_at_then code_at_jump consts_at_append ac_simps)+
  have item: "reaches x m i st (i + length ?item) st (bindr (eval (row_of m) a) (\<lambda>u. bindr (eval (row_of m) e) (binval OP_EQUAL u)))"
    using runs_pair [OF m a _ f c] Cons.prems(2) by (simp add: add.assoc)
  show ?case
  proof (cases es)
    case Nil
    have "code_at m (i + length ?item) (OP_JUMP # offset 1)"
      using Cons.prems(4) Nil by (simp add: code_at_append code_at_then code_at_jump ac_simps)
    from reaches_skip [OF m this item] show ?thesis using Nil by (simp add: binval_equal [abs_def])
  next
    case (Cons e' es')
    then have ne: "es \<noteq> []" by simp
    let ?r = "in_list a es ?k"
    have code: "in_list a (e # es) k = ?item @ OP_JUMP_TRUE # offset (length ?r + 3) @ ?r" using Cons by simp
    have all: "code_at m (i + length ?item) (OP_JUMP_TRUE # offset (length ?r + 3) @ ?r @ OP_JUMP # offset 1 @ [OP_TRUE])"
      using Cons.prems(4) unfolding code by (simp add: code_at_append code_at_then code_at_jump ac_simps)
    then have rest: "code_at m (i + length ?item + 3) (?r @ OP_JUMP # offset 1 @ [OP_TRUE])" by (simp only: code_at_jump)
    have l: "length ?r + 3 < 2 ^ 15" using Cons.prems(7) unfolding code by simp
    have "reaches x m (i + length ?item + 3) st (i + length ?item + 3 + length ?r + 4) st (eval_in (eval (row_of m) a) (map (eval (row_of m)) es))"
      by (rule Cons.IH [OF ne _ Cons.prems(3) rest _ _ l]) (use Cons.prems(2,5,6) in \<open>simp_all add: consts_at_append add.assoc\<close>)
    then have "reaches x m (i + length ?item + 3) st (i + length ?item + length ?r + 7) st (eval_in (eval (row_of m) a) (map (eval (row_of m)) es))"
      by (simp add: ac_simps)
    from shortcut_to [OF m all l st disjI1 [OF refl] item this]
    have "reaches x m i st (i + length ?item + length ?r + 7) st (eval_in (eval (row_of m) a) (map (eval (row_of m)) (e # es)))"
      unfolding list.map eval_in_step [of "map (eval (row_of m)) es", simplified, OF ne] .
    moreover have "i + length (in_list a (e # es) k) + 4 = i + length ?item + length ?r + 7" unfolding code by simp
    ultimately show ?thesis by (simp only:)
  qed
qed simp

lemma runs_InList: "\<not> failed m \<Longrightarrow> runs x m a \<Longrightarrow> \<forall>e \<in> set es. runs x m e \<Longrightarrow> runs x m (InList neg a es)"
proof (unfold runs_def [of x m "InList neg a es"], intro allI impI)
  fix k i st assume m: "\<not> failed m" and r: "runs x m a" "\<forall>e \<in> set es. runs x m e" and f: "fits m k i st (InList neg a es)"
  let ?l = "in_list a es k" and ?tail = "if neg then [OP_NOT] else []"
  have split: "compile_expr (InList neg a es) k = (?l @ OP_JUMP # offset 1 @ [OP_TRUE]) @ ?tail" by simp
  show "reaches x m i st (i + length (compile_expr (InList neg a es) k)) st (eval (row_of m) (InList neg a es))"
  proof (cases "es = []")
    case True
    then show ?thesis by (simp add: reaches_def bindr_def)
  next
    case False
    have room: "length st + need a \<le> STACK_MAX" "\<forall>e \<in> set es. runs x m e \<and> Suc (length st + need e) \<le> STACK_MAX"
    proof -
      have n: "length st + need a \<le> STACK_MAX" "Suc (length st + Max (set (0 # map need es))) \<le> STACK_MAX"
        using f by (simp_all add: fits_def room_max)
      then show "length st + need a \<le> STACK_MAX" by simp
      have "Suc (length st + need e) \<le> STACK_MAX" if "e \<in> set es" for e
      proof -
        have "need e \<le> Max (set (0 # map need es))" by (intro Max_ge) (use that in auto)
        then show ?thesis using n(2) by linarith
      qed
      then show "\<forall>e \<in> set es. runs x m e \<and> Suc (length st + need e) \<le> STACK_MAX" using r(2) by blast
    qed
    have st: "length st < STACK_MAX" using room(1) need_pos [of a] by simp
    have "code_at m i ((?l @ OP_JUMP # offset 1 @ [OP_TRUE]) @ ?tail)" using f unfolding fits_def split by blast
    moreover have "i + length (?l @ OP_JUMP # offset 1 @ [OP_TRUE]) = i + length ?l + 4" by simp
    ultimately have c: "code_at m i (?l @ OP_JUMP # offset 1 @ [OP_TRUE])" "code_at m (i + length ?l + 4) ?tail"
      unfolding code_at_append [of m i "?l @ OP_JUMP # offset 1 @ [OP_TRUE]"] by (simp_all only:)
    have main: "reaches x m i st (i + length ?l + 4) st (eval_in (eval (row_of m) a) (map (eval (row_of m)) es))"
      by (rule in_runs [OF m r(1) False room(2,1) c(1)]) (use f in \<open>simp_all add: fits_def\<close>)
    have tail: "reaches x m (i + length ?l + 4) (v # st) (i + length ?l + 4 + length ?tail) st (if neg then unval OP_NOT v else ok v)" for v
      using reaches_unval [OF m _ st, of "i + length ?l + 4" OP_NOT x v] c(2) by (cases neg) (simp_all add: reaches_ok)
    have "i + length (compile_expr (InList neg a es) k) = i + length ?l + 4 + length ?tail" by simp
    then show ?thesis using reaches_bind [OF main tail] by (simp only: eval.simps)
  qed
qed

text \<open>The code of an expression, run by the machine, pushes its value or stops with an error.\<close>

theorem compile_runs: "\<not> failed m \<Longrightarrow> small e \<Longrightarrow> runs x m e"
proof (induction e)
  case (InList neg a es)
  then show ?case by (intro runs_InList) (auto simp: list_all_iff)
qed (auto intro: runs_Lit runs_Col runs_Unop runs_Binop runs_Or runs_And runs_Btw)

section \<open>What the generator emits\<close>

text \<open>The expression a tree stands for. \<open>None\<close> is a tree that the generator reports or gives no code of its own: a name that is no
  column, a function call, a node of another kind.\<close>

definition primary_of :: "schema option \<Rightarrow> ast_node \<Rightarrow> expr option" where
  "primary_of s n =
     (let tok = node_tok n; t = ttype tok in
      if t = TOKEN_NUMBER then
        (if 46 \<in> set (tokenToStr tok) then Some (Lit (VFloat (atof (tokenToStr tok))))
         else map_option (\<lambda>i. Lit (VInt i)) (atoll (tokenToStr tok)))
      else if t = TOKEN_STRING then
        (if length (token_bytes tok) < 2 then None
         else Some (Lit (VText (c_string (segment (token_bytes tok) 1 (length (token_bytes tok) - 2))))))
      else if t = TOKEN_IDENTIFIER then
        (if node_flag n \<noteq> FLAG_NULL then None else do { s \<leftarrow> s; map_option Col (lookupColIdx (tokenToStr tok) s) })
      else if t = TOKEN_NULL then Some (Lit VNull)
      else None)"

function expr_of :: "schema option \<Rightarrow> ast_node \<Rightarrow> expr option"
  and items_of :: "schema option \<Rightarrow> ast_node \<Rightarrow> expr list option" where
  "expr_of s n =
     (let two = (\<lambda>f. do { l \<leftarrow> kid 0 n; a \<leftarrow> expr_of s l; r \<leftarrow> kid 1 n; b \<leftarrow> expr_of s r; Some (f a b) });
          one = (\<lambda>f. do { k \<leftarrow> kid 0 n; e \<leftarrow> expr_of s k; Some (f e) }) in
      if node_type n = TYPE_OR_EXPR then two Or
      else if node_type n = TYPE_AND_EXPR then two And
      else if node_type n = TYPE_NOT_EXPR then one (Unop OP_NOT)
      else if node_type n = TYPE_COMPARISON then
        (case comparison_op (ttype (node_tok n)) of
           Some op \<Rightarrow> two (Binop op)
         | None \<Rightarrow>
             if ttype (node_tok n) = TOKEN_IS then one (Unop (if node_flag n \<noteq> FLAG_NULL then OP_NOT_NULL else OP_IS_NULL))
             else if ttype (node_tok n) = TOKEN_BETWEEN then do {
               k \<leftarrow> kid 0 n; a \<leftarrow> expr_of s k; l \<leftarrow> kid 1 n; lo \<leftarrow> expr_of s l; h \<leftarrow> kid 2 n; hi \<leftarrow> expr_of s h; Some (Btw a lo hi)
             }
             else if ttype (node_tok n) = TOKEN_IN then do {
               k \<leftarrow> kid 0 n; a \<leftarrow> expr_of s k; l \<leftarrow> kid 1 n; es \<leftarrow> items_of s l; Some (InList (node_flag n \<noteq> FLAG_NULL) a es)
             }
             else None)
      else if node_type n = TYPE_ADDITIVE then two (Binop (if ttype (node_tok n) = TOKEN_PLUS then OP_ADD else OP_SUBTRACT))
      else if node_type n = TYPE_MULTIPLICATIVE then two (Binop (if ttype (node_tok n) = TOKEN_STAR then OP_MULTIPLY else OP_DIVIDE))
      else if node_type n = TYPE_UNARY then one (Unop OP_NEGATE)
      else if node_type n = TYPE_PRIMARY then primary_of s n
      else None)"
| "items_of s l = do {
     k \<leftarrow> kid 0 l; e \<leftarrow> expr_of s k;
     case kid 1 l of None \<Rightarrow> Some [e] | Some rest \<Rightarrow> map_option ((#) e) (items_of s rest)
   }"
  by pat_completeness auto
termination
  by (relation "measure (\<lambda>x. case x of Inl (s, n) \<Rightarrow> size n | Inr (s, l) \<Rightarrow> size l)") (auto dest: kid_size)

declare expr_of.simps [simp del] items_of.simps [simp del]

text \<open>The generator adds the code of the expression and its literals to a chunk.\<close>

definition adds :: "chunk \<Rightarrow> byte list \<Rightarrow> val list \<Rightarrow> chunk \<Rightarrow> bool" where
  "adds c bs vs c' \<longleftrightarrow> code c' = code c @ bs \<and> vals (constants c') = vals (constants c) @ vs"

definition gens :: "schema option \<Rightarrow> ast_node \<Rightarrow> expr \<Rightarrow> bool" where
  "gens s n e \<longleftrightarrow> (\<forall>c. \<exists>c'. munchExpr n s c = Some c' \<and> adds c (compile_expr e (length (vals (constants c)))) (literals e) c')"

lemma gens_munch: "gens s n e \<Longrightarrow> \<exists>c'. munchExpr n s c = Some c' \<and> adds c (compile_expr e (length (vals (constants c)))) (literals e) c'"
  by (simp add: gens_def)

lemma adds_trans: "adds c bs vs d \<Longrightarrow> adds d bs' vs' e \<Longrightarrow> adds c (bs @ bs') (vs @ vs') e"
  by (simp add: adds_def)

lemma adds_write: "adds c bs vs d \<Longrightarrow> adds c (bs @ [b]) vs (writeChunk b l d)"
  by (simp add: adds_def)

lemma emitJump_adds: "\<exists>d. emitJump op c = (length (code c) + 1, d) \<and> adds c [op, 0xFF, 0xFF] [] d"
  by (simp add: emitJump_def Let_def adds_def)

lemma patchJump_fields [simp]: "constants (patchJump p c) = constants c" "length (code (patchJump p c)) = length (code c)"
  by (simp_all add: patchJump_def Let_def)

text \<open>Patching the placeholder of a jump lets it reach the end of the code.\<close>

lemma patchJump_code:
  assumes "code c = A @ op # a # b # R"
  shows "code (patchJump (length A + 1) c) = A @ op # offset (length R) @ R"
  using assms by (simp add: patchJump_def offset_def Let_def list_update_append nth_append)

lemma jump_out:
  assumes a: "adds c ca va c1" "emitJump op c1 = (tp, c2)" and b: "adds c2 cb vb c3" "emitJump OP_JUMP c3 = (dp, c4)"
  shows "adds c (ca @ op # offset (length cb + 3) @ cb @ OP_JUMP # offset 1 @ [lop]) (va @ vb)
    (patchJump dp (writeChunk lop 0 (patchJump tp c4)))"
proof -
  let ?A = "code c @ ca" and ?R = "cb @ [OP_JUMP, 0xFF, 0xFF]"
  have t: "tp = length ?A + 1" "code c2 = ?A @ [op, 0xFF, 0xFF]" "vals (constants c2) = vals (constants c) @ va"
    using a emitJump_adds [of op c1] by (auto simp: adds_def)
  have d: "dp = length (?A @ op # 0xFF # 0xFF # cb) + 1" "code c4 = ?A @ op # 0xFF # 0xFF # ?R" "vals (constants c4) = vals (constants c) @ va @ vb"
    using b t emitJump_adds [of OP_JUMP c3] by (auto simp: adds_def)
  have p: "code (patchJump tp c4) = ?A @ op # offset (length ?R) @ ?R"
    unfolding t(1) by (rule patchJump_code [OF d(2)])
  let ?B = "?A @ op # offset (length ?R) @ cb"
  have "code (writeChunk lop 0 (patchJump tp c4)) = ?B @ OP_JUMP # 0xFF # 0xFF # [lop]" using p by simp
  from patchJump_code [OF this]
  have "code (patchJump dp (writeChunk lop 0 (patchJump tp c4))) = ?B @ OP_JUMP # offset 1 @ [lop]" using d(1) by simp
  then show ?thesis using d(3) by (simp add: adds_def numeral_3_eq_3)
qed

lemma gens_two:
  assumes "gens s l a" "gens s r b"
  obtains c1 c2 where "munchExpr l s c = Some c1" "munchExpr r s c1 = Some c2"
    "adds c (compile_expr a (length (vals (constants c)))) (literals a) c1"
    "adds c (compile_expr a (length (vals (constants c))) @ compile_expr b (length (vals (constants c)) + length (literals a)))
      (literals a @ literals b) c2"
proof -
  obtain c1 where c1: "munchExpr l s c = Some c1" "adds c (compile_expr a (length (vals (constants c)))) (literals a) c1"
    using gens_munch [OF assms(1)] by blast
  obtain c2 where c2: "munchExpr r s c1 = Some c2" "adds c1 (compile_expr b (length (vals (constants c1)))) (literals b) c2"
    using gens_munch [OF assms(2)] by blast
  have "length (vals (constants c1)) = length (vals (constants c)) + length (literals a)" using c1(2) by (simp add: adds_def)
  then show ?thesis using that [OF c1(1) c2(1) c1(2)] adds_trans [OF c1(2) c2(2)] by simp
qed

lemma gens_after_jump:
  assumes "gens s r b" "adds c ca va c1" "emitJump op c1 = (tp, c2)"
  obtains c3 where "munchExpr r s c2 = Some c3" "adds c2 (compile_expr b (length (vals (constants c)) + length va)) (literals b) c3"
proof -
  have "length (vals (constants c2)) = length (vals (constants c)) + length va"
    using assms(2,3) emitJump_adds [of op c1] by (auto simp: adds_def)
  then show ?thesis using that gens_munch [OF assms(1), of c2] by auto
qed

lemma gens_primary:
  assumes "node_type n = TYPE_PRIMARY" "primary_of s n = Some e" "small e"
  shows "gens s n e"
proof -
  have "\<exists>c'. munchPrimary n s c = Some c' \<and> adds c (compile_expr e (length (vals (constants c)))) (literals e) c'" for c
    using assms(2,3) unfolding primary_of_def munchPrimary_def Let_def
    by (auto simp: adds_def writeStaticConst_def writeDynamicConst_def addConstant_def addDynamic_def split: if_splits option.splits Option.bind_splits)
  then show ?thesis using assms(1) by (simp add: gens_def munchExpr.simps)
qed

lemma gens_one:
  assumes "gens s k e" "\<And>c. munchExpr n s c = do { c \<leftarrow> munchExpr k s c; Some (writeChunk op 0 c) }"
  shows "gens s n (Unop op e)"
  unfolding gens_def
proof
  fix c :: chunk
  obtain c1 where "munchExpr k s c = Some c1" "adds c (compile_expr e (length (vals (constants c)))) (literals e) c1"
    using gens_munch [OF assms(1)] by blast
  then show "\<exists>c'. munchExpr n s c = Some c' \<and> adds c (compile_expr (Unop op e) (length (vals (constants c)))) (literals (Unop op e)) c'"
    by (simp add: assms(2) adds_write)
qed

lemma gens_binary:
  assumes "gens s l a" "gens s r b"
    "\<And>c. munchExpr n s c = do { c \<leftarrow> munchExpr l s c; c \<leftarrow> munchExpr r s c; Some (writeChunk op 0 c) }"
  shows "gens s n (Binop op a b)"
  unfolding gens_def
proof
  fix c :: chunk
  obtain c1 c2 where c: "munchExpr l s c = Some c1" "munchExpr r s c1 = Some c2"
    "adds c (compile_expr a (length (vals (constants c))) @ compile_expr b (length (vals (constants c)) + length (literals a)))
      (literals a @ literals b) c2" using gens_two [OF assms(1,2)] by metis
  then show "\<exists>c'. munchExpr n s c = Some c' \<and> adds c (compile_expr (Binop op a b) (length (vals (constants c)))) (literals (Binop op a b)) c'"
    using adds_write [OF c(3), of op 0] by (simp add: assms(3))
qed

text \<open>A condition with a short cut.\<close>

lemma gens_Or:
  assumes g: "gens s l a" "gens s r b" and n: "node_type n = TYPE_OR_EXPR" "kid 0 n = Some l" "kid 1 n = Some r"
  shows "gens s n (Or a b)"
  unfolding gens_def
proof
  fix c :: chunk
  obtain c1 where c1: "munchExpr l s c = Some c1" "adds c (compile_expr a (length (vals (constants c)))) (literals a) c1"
    using gens_munch [OF g(1)] by blast
  obtain tp c2 where c2: "emitJump OP_JUMP_TRUE c1 = (tp, c2)" by fastforce
  obtain c3 where c3: "munchExpr r s c2 = Some c3" "adds c2 (compile_expr b (length (vals (constants c)) + length (literals a))) (literals b) c3"
    using gens_after_jump [OF g(2) c1(2) c2] .
  obtain dp c4 where c4: "emitJump OP_JUMP c3 = (dp, c4)" by fastforce
  show "\<exists>c'. munchExpr n s c = Some c' \<and> adds c (compile_expr (Or a b) (length (vals (constants c)))) (literals (Or a b)) c'"
    using jump_out [OF c1(2) c2 c3(2) c4] n c1(1) c2 c3(1) c4 by (subst munchExpr.simps) (simp add: Let_def)
qed

lemma gens_And:
  assumes g: "gens s l a" "gens s r b" and n: "node_type n = TYPE_AND_EXPR" "kid 0 n = Some l" "kid 1 n = Some r"
  shows "gens s n (And a b)"
  unfolding gens_def
proof
  fix c :: chunk
  obtain c1 where c1: "munchExpr l s c = Some c1" "adds c (compile_expr a (length (vals (constants c)))) (literals a) c1"
    using gens_munch [OF g(1)] by blast
  obtain tp c2 where c2: "emitJump OP_JUMP_FALSE c1 = (tp, c2)" by fastforce
  obtain c3 where c3: "munchExpr r s c2 = Some c3" "adds c2 (compile_expr b (length (vals (constants c)) + length (literals a))) (literals b) c3"
    using gens_after_jump [OF g(2) c1(2) c2] .
  obtain dp c4 where c4: "emitJump OP_JUMP c3 = (dp, c4)" by fastforce
  show "\<exists>c'. munchExpr n s c = Some c' \<and> adds c (compile_expr (And a b) (length (vals (constants c)))) (literals (And a b)) c'"
    using jump_out [OF c1(2) c2 c3(2) c4] n c1(1) c2 c3(1) c4 by (subst munchExpr.simps) (simp add: Let_def)
qed

lemma gens_Btw:
  assumes g: "gens s x a" "gens s l lo" "gens s h hi"
    and n: "node_type n = TYPE_COMPARISON" "ttype (node_tok n) = TOKEN_BETWEEN" "kid 0 n = Some x" "kid 1 n = Some l" "kid 2 n = Some h"
  shows "gens s n (Btw a lo hi)"
  unfolding gens_def
proof
  fix c :: chunk
  obtain c1 c2 where c2: "munchExpr x s c = Some c1" "munchExpr l s c1 = Some c2"
    "adds c (compile_expr a (length (vals (constants c))) @ compile_expr lo (length (vals (constants c)) + length (literals a)))
      (literals a @ literals lo) c2" using gens_two [OF g(1,2)] by metis
  obtain tp c3 where c3: "emitJump OP_JUMP_FALSE (writeChunk OP_GREATER_EQUAL 0 c2) = (tp, c3)" by fastforce
  note left = adds_write [OF c2(3), of OP_GREATER_EQUAL 0]
  have k: "length (vals (constants c3)) = length (vals (constants c)) + length (literals a) + length (literals lo)"
    using left c3 emitJump_adds [of OP_JUMP_FALSE "writeChunk OP_GREATER_EQUAL 0 c2"] by (auto simp: adds_def)
  obtain c4 c5 where c5: "munchExpr x s c3 = Some c4" "munchExpr h s c4 = Some c5"
    "adds c3 (compile_expr a (length (vals (constants c3))) @ compile_expr hi (length (vals (constants c3)) + length (literals a)))
      (literals a @ literals hi) c5" using gens_two [OF g(1,3)] by metis
  obtain dp c6 where c6: "emitJump OP_JUMP (writeChunk OP_LESS_EQUAL 0 c5) = (dp, c6)" by fastforce
  show "\<exists>c'. munchExpr n s c = Some c' \<and> adds c (compile_expr (Btw a lo hi) (length (vals (constants c)))) (literals (Btw a lo hi)) c'"
    using jump_out [OF left c3 adds_write [OF c5(3), of OP_LESS_EQUAL 0] c6] n c2(1,2) c3 c5(1,2) c6
    by (subst munchExpr.simps) (simp add: Let_def comparison_op_def k)
qed

text \<open>The list of IN, before and after its jumps are patched.\<close>

fun in_raw :: "byte list list \<Rightarrow> byte list" where
  "in_raw [] = []"
| "in_raw [i] = i"
| "in_raw (i # is) = i @ [OP_JUMP_TRUE, 0xFF, 0xFF] @ in_raw is"

fun in_pos :: "nat \<Rightarrow> byte list list \<Rightarrow> nat list" where
  "in_pos b [] = []"
| "in_pos b [i] = []"
| "in_pos b (i # is) = (b + length i + 1) # in_pos (b + length i + 3) is"

lemma length_in_raw: "length (in_raw is) = length (in_code is)"
  by (induction "is" rule: in_raw.induct) simp_all

lemma fold_patch:
  "code c = A @ in_raw is @ [OP_JUMP, 0xFF, 0xFF] \<Longrightarrow> code (fold patchJump (in_pos (length A) is) c) = A @ in_code is @ [OP_JUMP, 0xFF, 0xFF]"
proof (induction "length A" "is" arbitrary: A c rule: in_pos.induct)
  case (3 i j js)
  have "code c = (A @ i) @ OP_JUMP_TRUE # 0xFF # 0xFF # (in_raw (j # js) @ [OP_JUMP, 0xFF, 0xFF])" using 3(2) by simp
  from patchJump_code [OF this]
  have p: "code (patchJump (length A + length i + 1) c) =
      (A @ i @ OP_JUMP_TRUE # offset (length (in_code (j # js)) + 3)) @ in_raw (j # js) @ [OP_JUMP, 0xFF, 0xFF]"
    by (simp add: length_in_raw numeral_3_eq_3)
  have "length A + length i + 3 = length (A @ i @ OP_JUMP_TRUE # offset (length (in_code (j # js)) + 3))" by simp
  from 3(1) [OF this p] show ?case by (simp add: add.assoc)
qed simp_all

lemma fold_patch_constants [simp]: "constants (fold patchJump ps c) = constants c"
  by (induction ps arbitrary: c) simp_all

definition gens_below :: "schema option \<Rightarrow> nat \<Rightarrow> bool" where
  "gens_below s N \<longleftrightarrow> (\<forall>n e. size n < N \<longrightarrow> expr_of s n = Some e \<longrightarrow> small e \<longrightarrow> gens s n e)"

lemma gens_belowD: "gens_below s N \<Longrightarrow> kid i n = Some k \<Longrightarrow> size n \<le> N \<Longrightarrow> expr_of s k = Some e \<Longrightarrow> small e \<Longrightarrow> gens s k e"
  using kid_size [of i n k] by (auto simp: gens_below_def)

lemma items_nonempty: "items_of s l = Some es \<Longrightarrow> es \<noteq> []"
  by (subst (asm) items_of.simps) (auto split: Option.bind_splits option.splits)

lemma munch_in_adds:
  assumes x: "gens s x a"
  shows "items_of s l = Some es \<Longrightarrow> gens_below s (size l) \<Longrightarrow> list_all small es \<Longrightarrow> length found + length es \<le> 65 \<Longrightarrow>
    items = in_items (compile_expr a) (length (literals a)) (map (\<lambda>e. (compile_expr e, length (literals e))) es) (length (vals (constants c))) \<Longrightarrow>
    \<exists>c'. munch_in x l s found c = Some (found @ in_pos (length (code c)) items, c') \<and>
      adds c (in_raw items) (concat (map (\<lambda>e. literals a @ literals e) es)) c'"
proof (induction es arbitrary: l found c items)
  case Nil
  then show ?case by (subst (asm) items_of.simps) (auto split: Option.bind_splits option.splits)
next
  case (Cons e es)
  obtain k where k: "kid 0 l = Some k" "expr_of s k = Some e"
    and rest: "kid 1 l = None \<and> es = [] \<or> (\<exists>r. kid 1 l = Some r \<and> items_of s r = Some es)"
    using Cons.prems(1) by (subst (asm) items_of.simps) (auto split: Option.bind_splits option.splits)
  let ?k = "length (vals (constants c))"
  let ?item = "compile_expr a ?k @ compile_expr e (?k + length (literals a)) @ [OP_EQUAL]"
  have "gens s k e" using gens_belowD [OF Cons.prems(2) k(1) _ k(2)] Cons.prems(3) by simp
  from gens_two [OF x this, of c] obtain c1 c2 where c2: "munchExpr x s c = Some c1" "munchExpr k s c1 = Some c2"
    "adds c (compile_expr a ?k @ compile_expr e (?k + length (literals a))) (literals a @ literals e) c2" by metis
  define c3 where "c3 = writeChunk OP_EQUAL 0 c2"
  have item: "adds c ?item (literals a @ literals e) c3" using adds_write [OF c2(3), of OP_EQUAL 0] by (simp add: c3_def)
  show ?case
    using rest
  proof (elim disjE conjE exE)
    assume last: "kid 1 l = None" "es = []"
    show ?thesis using last item c2(1,2) k(1) Cons.prems(5) by (subst munch_in.simps) (simp add: c3_def [symmetric] Let_def)
  next
    fix r assume r: "kid 1 l = Some r" "items_of s r = Some es"
    then have ne: "es \<noteq> []" by (simp add: items_nonempty)
    obtain pos c4 where c4: "emitJump OP_JUMP_TRUE c3 = (pos, c4)" by fastforce
    have j: "pos = length (code c3) + 1" "adds c3 [OP_JUMP_TRUE, 0xFF, 0xFF] [] c4" using emitJump_adds [of OP_JUMP_TRUE c3] c4 by auto
    have four: "adds c (?item @ [OP_JUMP_TRUE, 0xFF, 0xFF]) (literals a @ literals e) c4" using adds_trans [OF item j(2)] by simp
    have k4: "length (vals (constants c4)) = ?k + length (literals a) + length (literals e)"
      and l4: "length (code c4) = length (code c) + length ?item + 3" "pos = length (code c) + length ?item + 1"
      using four item j(1) by (simp_all add: adds_def)
    let ?items = "in_items (compile_expr a) (length (literals a)) (map (\<lambda>e. (compile_expr e, length (literals e))) es) (length (vals (constants c4)))"
    have its: "items = ?item # ?items" "?items \<noteq> []" using Cons.prems(5) k4 ne by (auto simp: add.assoc neq_Nil_conv)
    have lim: "length found < 64" using Cons.prems(4) ne by (cases es) simp_all
    have "\<exists>c'. munch_in x r s (found @ [pos]) c4 = Some ((found @ [pos]) @ in_pos (length (code c4)) ?items, c') \<and>
        adds c4 (in_raw ?items) (concat (map (\<lambda>e. literals a @ literals e) es)) c'"
      using kid_size [OF r(1)] Cons.prems(2-4) by (intro Cons.IH [OF r(2)]) (auto simp: gens_below_def)
    then obtain c' where c': "munch_in x r s (found @ [pos]) c4 = Some ((found @ [pos]) @ in_pos (length (code c4)) ?items, c')"
      "adds c4 (in_raw ?items) (concat (map (\<lambda>e. literals a @ literals e) es)) c'" by blast
    have "in_raw items = (?item @ [OP_JUMP_TRUE, 0xFF, 0xFF]) @ in_raw ?items"
      "in_pos (length (code c)) items = pos # in_pos (length (code c4)) ?items"
      unfolding its(1) l4 using its(2) by (cases ?items; simp add: add.assoc)+
    moreover have "munch_in x l s found c = Some (found @ pos # in_pos (length (code c4)) ?items, c')"
      using c2(1,2) k(1) r(1) lim c4 c'(1) by (subst munch_in.simps) (simp add: c3_def [symmetric] Let_def)
    ultimately show ?thesis using adds_trans [OF four c'(2)] by simp
  qed
qed

lemma gens_InList:
  assumes g: "gens s x a" "items_of s l = Some es" "gens_below s (size l)" "list_all small es" "length es \<le> 65"
    and n: "node_type n = TYPE_COMPARISON" "ttype (node_tok n) = TOKEN_IN" "kid 0 n = Some x" "kid 1 n = Some l"
  shows "gens s n (InList (node_flag n \<noteq> FLAG_NULL) a es)"
  unfolding gens_def
proof
  fix c :: chunk
  let ?items = "in_items (compile_expr a) (length (literals a)) (map (\<lambda>e. (compile_expr e, length (literals e))) es) (length (vals (constants c)))"
  let ?vs = "concat (map (\<lambda>e. literals a @ literals e) es)"
  obtain c1 where c1: "munch_in x l s [] c = Some (in_pos (length (code c)) ?items, c1)" "adds c (in_raw ?items) ?vs c1"
    using munch_in_adds [OF g(1-4), of "[]" ?items c] g(5) by auto
  obtain dp c2 where c2: "emitJump OP_JUMP c1 = (dp, c2)" by fastforce
  have d: "dp = length (code c @ in_code ?items) + 1" and raw: "code c2 = code c @ in_raw ?items @ [OP_JUMP, 0xFF, 0xFF]"
    and vs: "vals (constants c2) = vals (constants c) @ ?vs"
    using c1(2) c2 emitJump_adds [of OP_JUMP c1] by (auto simp: adds_def length_in_raw)
  let ?c3 = "writeChunk OP_TRUE 0 (fold patchJump (in_pos (length (code c)) ?items) c2)"
  have "code ?c3 = (code c @ in_code ?items) @ OP_JUMP # 0xFF # 0xFF # [OP_TRUE]" using fold_patch [OF raw] by simp
  from patchJump_code [OF this] have "code (patchJump dp ?c3) = (code c @ in_code ?items) @ OP_JUMP # offset 1 @ [OP_TRUE]"
    unfolding d by simp
  then have "adds c (in_code ?items @ OP_JUMP # offset 1 @ [OP_TRUE]) ?vs (patchJump dp ?c3)" using vs by (simp add: adds_def)
  then have "adds c (compile_expr (InList (node_flag n \<noteq> FLAG_NULL) a es) (length (vals (constants c)))) (literals (InList (node_flag n \<noteq> FLAG_NULL) a es))
      (if node_flag n \<noteq> FLAG_NULL then writeChunk OP_NOT 0 (patchJump dp ?c3) else patchJump dp ?c3)"
    using adds_write [of c "in_code ?items @ OP_JUMP # offset 1 @ [OP_TRUE]" ?vs "patchJump dp ?c3" OP_NOT 0] by simp
  then show "\<exists>c'. munchExpr n s c = Some c' \<and>
      adds c (compile_expr (InList (node_flag n \<noteq> FLAG_NULL) a es) (length (vals (constants c)))) (literals (InList (node_flag n \<noteq> FLAG_NULL) a es)) c'"
    using n c1(1) c2 by (subst munchExpr.simps) (simp add: comparison_op_def Let_def)
qed

text \<open>How a tree that stands for an expression is built.\<close>

definition two_of :: "schema option \<Rightarrow> ast_node \<Rightarrow> (expr \<Rightarrow> expr \<Rightarrow> expr) \<Rightarrow> expr option" where
  "two_of s n f = do { l \<leftarrow> kid 0 n; a \<leftarrow> expr_of s l; r \<leftarrow> kid 1 n; b \<leftarrow> expr_of s r; Some (f a b) }"

definition one_of :: "schema option \<Rightarrow> ast_node \<Rightarrow> (expr \<Rightarrow> expr) \<Rightarrow> expr option" where
  "one_of s n f = do { k \<leftarrow> kid 0 n; e \<leftarrow> expr_of s k; Some (f e) }"

lemmas expr_of_kinds = expr_of.simps [of s n, unfolded Let_def, folded two_of_def one_of_def] for s n

lemma two_ofD: "two_of s n f = Some e \<Longrightarrow> \<exists>l r a b. kid 0 n = Some l \<and> kid 1 n = Some r \<and> expr_of s l = Some a \<and> expr_of s r = Some b \<and> e = f a b"
  by (auto simp: two_of_def split: Option.bind_splits)

lemma one_ofD: "one_of s n f = Some e \<Longrightarrow> \<exists>k a. kid 0 n = Some k \<and> expr_of s k = Some a \<and> e = f a"
  by (auto simp: one_of_def split: Option.bind_splits)

lemma gens_comparison:
  assumes b: "gens_below s (size n)" and n: "node_type n = TYPE_COMPARISON" "comparison_op (ttype (node_tok n)) = None"
    and e: "expr_of s n = Some e" "small e"
  shows "gens s n e"
proof -
  note sub = gens_belowD [OF b _ order_refl]
  consider (isnull) "ttype (node_tok n) = TOKEN_IS" | (btw) "ttype (node_tok n) = TOKEN_BETWEEN" | (inl) "ttype (node_tok n) = TOKEN_IN"
    using e(1) n by (subst (asm) expr_of_kinds) (auto split: if_splits)
  then show ?thesis
  proof cases
    case isnull
    then have "one_of s n (Unop (if node_flag n \<noteq> FLAG_NULL then OP_NOT_NULL else OP_IS_NULL)) = Some e"
      using e(1) n by (subst (asm) expr_of_kinds) simp
    then obtain k a where k: "kid 0 n = Some k" "expr_of s k = Some a" "e = Unop (if node_flag n \<noteq> FLAG_NULL then OP_NOT_NULL else OP_IS_NULL) a"
      using one_ofD by blast
    show ?thesis unfolding k(3)
      by (rule gens_one [OF sub [OF k(1,2)]]) (use e(2) k n isnull in \<open>simp_all add: munchExpr.simps [of n]\<close>)
  next
    case btw
    then obtain x l h a lo hi where k: "kid 0 n = Some x" "kid 1 n = Some l" "kid 2 n = Some h" "expr_of s x = Some a" "expr_of s l = Some lo"
      "expr_of s h = Some hi" "e = Btw a lo hi" using e(1) n by (subst (asm) expr_of_kinds) (auto split: Option.bind_splits)
    show ?thesis unfolding k(7)
      by (rule gens_Btw [OF sub [OF k(1,4)] sub [OF k(2,5)] sub [OF k(3,6)] n(1) btw k(1-3)]) (use e(2) k in simp_all)
  next
    case inl
    then obtain x l a es where k: "kid 0 n = Some x" "kid 1 n = Some l" "expr_of s x = Some a" "items_of s l = Some es"
      "e = InList (node_flag n \<noteq> FLAG_NULL) a es" using e(1) n by (subst (asm) expr_of_kinds) (auto split: Option.bind_splits)
    have l: "gens_below s (size l)" using b kid_size [OF k(2)] by (auto simp: gens_below_def)
    show ?thesis unfolding k(5)
      by (rule gens_InList [OF sub [OF k(1,3)] k(4) l]) (use e(2) k n inl in simp_all)
  qed
qed

lemma expr_of_gens: "expr_of s n = Some e \<Longrightarrow> small e \<Longrightarrow> gens s n e"
proof (induction "size n" arbitrary: n e rule: less_induct)
  case less
  then have b: "gens_below s (size n)" by (auto simp: gens_below_def)
  note sub = gens_belowD [OF b _ order_refl]
  have binary: "gens s n e" if t: "two_of s n (Binop op) = Some e"
    and u: "\<And>c l r. kid 0 n = Some l \<Longrightarrow> kid 1 n = Some r \<Longrightarrow> munchExpr n s c = do { c \<leftarrow> munchExpr l s c; c \<leftarrow> munchExpr r s c; Some (writeChunk op 0 c) }" for op
  proof -
    obtain l r a b' where k: "kid 0 n = Some l" "kid 1 n = Some r" "expr_of s l = Some a" "expr_of s r = Some b'" "e = Binop op a b'"
      using two_ofD [OF t] by blast
    show ?thesis unfolding k(5)
      by (rule gens_binary [OF sub [OF k(1,3)] sub [OF k(2,4)] u [OF k(1,2)]]) (use less.prems(2) k in simp_all)
  qed
  have unary: "gens s n e" if t: "one_of s n (Unop op) = Some e"
    and u: "\<And>c k. kid 0 n = Some k \<Longrightarrow> munchExpr n s c = do { c \<leftarrow> munchExpr k s c; Some (writeChunk op 0 c) }" for op
  proof -
    obtain k a where k: "kid 0 n = Some k" "expr_of s k = Some a" "e = Unop op a" using one_ofD [OF t] by blast
    show ?thesis unfolding k(3) by (rule gens_one [OF sub [OF k(1,2)] u [OF k(1)]]) (use less.prems(2) k in simp_all)
  qed
  consider (or) "node_type n = TYPE_OR_EXPR" | (and') "node_type n = TYPE_AND_EXPR" | (not) "node_type n = TYPE_NOT_EXPR"
    | (cmp) op where "node_type n = TYPE_COMPARISON" "comparison_op (ttype (node_tok n)) = Some op"
    | (other) "node_type n = TYPE_COMPARISON" "comparison_op (ttype (node_tok n)) = None"
    | (add) "node_type n = TYPE_ADDITIVE" | (mul) "node_type n = TYPE_MULTIPLICATIVE" | (neg) "node_type n = TYPE_UNARY" | (prim) "node_type n = TYPE_PRIMARY"
    using less.prems(1) by (subst (asm) expr_of_kinds) (auto split: if_splits)
  then show ?case
  proof cases
    case or
    then have "two_of s n Or = Some e" using less.prems(1) by (subst (asm) expr_of_kinds) simp
    then obtain l r a b' where k: "kid 0 n = Some l" "kid 1 n = Some r" "expr_of s l = Some a" "expr_of s r = Some b'" "e = Or a b'"
      using two_ofD by blast
    show ?thesis unfolding k(5)
      by (rule gens_Or [OF sub [OF k(1,3)] sub [OF k(2,4)] or k(1,2)]) (use less.prems(2) k in simp_all)
  next
    case and'
    then have "two_of s n And = Some e" using less.prems(1) by (subst (asm) expr_of_kinds) simp
    then obtain l r a b' where k: "kid 0 n = Some l" "kid 1 n = Some r" "expr_of s l = Some a" "expr_of s r = Some b'" "e = And a b'"
      using two_ofD by blast
    show ?thesis unfolding k(5)
      by (rule gens_And [OF sub [OF k(1,3)] sub [OF k(2,4)] and' k(1,2)]) (use less.prems(2) k in simp_all)
  next
    case not
    then have "one_of s n (Unop OP_NOT) = Some e" using less.prems(1) by (subst (asm) expr_of_kinds) simp
    then show ?thesis by (rule unary) (use not in \<open>simp add: munchExpr.simps [of n]\<close>)
  next
    case (cmp op)
    then have "two_of s n (Binop op) = Some e" using less.prems(1) by (subst (asm) expr_of_kinds) simp
    then show ?thesis by (rule binary) (use cmp in \<open>simp add: munchExpr.simps [of n]\<close>)
  next
    case other
    then show ?thesis using gens_comparison [OF b] less.prems by blast
  next
    case add
    then have "two_of s n (Binop (if ttype (node_tok n) = TOKEN_PLUS then OP_ADD else OP_SUBTRACT)) = Some e"
      using less.prems(1) by (subst (asm) expr_of_kinds) simp
    then show ?thesis by (rule binary) (use add in \<open>simp add: munchExpr.simps [of n]\<close>)
  next
    case mul
    then have "two_of s n (Binop (if ttype (node_tok n) = TOKEN_STAR then OP_MULTIPLY else OP_DIVIDE)) = Some e"
      using less.prems(1) by (subst (asm) expr_of_kinds) simp
    then show ?thesis by (rule binary) (use mul in \<open>simp add: munchExpr.simps [of n]\<close>)
  next
    case neg
    then have "one_of s n (Unop OP_NEGATE) = Some e" using less.prems(1) by (subst (asm) expr_of_kinds) simp
    then show ?thesis by (rule unary) (use neg in \<open>simp add: munchExpr.simps [of n]\<close>)
  next
    case prim
    then have "primary_of s n = Some e" using less.prems(1) by (subst (asm) expr_of_kinds) simp
    then show ?thesis using gens_primary [OF prim] less.prems(2) by blast
  qed
qed

section \<open>Generated code computes expressions\<close>

lemma adds_code: "adds c bs vs c' \<Longrightarrow> drop (length (code c)) (code c') = bs \<and> length (code c') = length (code c) + length bs"
  by (simp add: adds_def)

lemma consts_at_part: "vals (constants (vchunk m)) = us @ vs @ ws \<Longrightarrow> consts_at m (length us) vs"
  by (simp add: consts_at_def)

lemma code_at_part: "code (vchunk m) = xs @ bs @ ys \<Longrightarrow> code_at m (length xs) bs"
  by (simp add: code_at_def)

lemma at_id: "at m (ip m) (stack m) = m"
  by (simp add: at_def)

lemma reaches_from:
  "reaches x m (ip m) (stack m) j (stack m) r \<Longrightarrow>
    (case r of None \<Rightarrow> True | Some None \<Rightarrow> \<exists>i st. steps x m (m\<lparr>ip := i, stack := st, failed := True\<rparr>)
     | Some (Some v) \<Rightarrow> steps x m (m\<lparr>ip := j, stack := v # stack m\<rparr>))"
  by (auto simp: reaches_def at_id at_def split: option.splits)

text \<open>C8: The generator gives code for every tree that stands for an expression, and the code computes the expression. Wherever the
  code and its literals are put in a chunk, a machine that starts on it comes to its end with the value of the expression pushed
  on its stack and nothing else changed, or, when the value is a run-time error, it has failed with nothing else changed. The
  code has at most 32767 bytes and 256 constants and the stack has room: jumps have 16 bits with a sign, indexes 8.\<close>

theorem expression_code_correct:
  assumes e: "expr_of s n = Some e" "small e"
  shows "\<exists>c'. munchExpr n s c = Some c' \<and>
    (length (vals (constants c')) \<le> 256 \<longrightarrow> length (code c') < 2 ^ 15 \<longrightarrow>
     (\<forall>x m xs ys more. code (vchunk m) = xs @ drop (length (code c)) (code c') @ ys \<longrightarrow> length xs = length (code c) \<longrightarrow>
       vals (constants (vchunk m)) = vals (constants c') @ more \<longrightarrow> \<not> failed m \<longrightarrow> ip m = length (code c) \<longrightarrow>
       length (stack m) + need e \<le> STACK_MAX \<longrightarrow>
       (case eval (row_of m) e of
          None \<Rightarrow> True
        | Some None \<Rightarrow> \<exists>i st. steps x m (m\<lparr>ip := i, stack := st, failed := True\<rparr>)
        | Some (Some v) \<Rightarrow> steps x m (m\<lparr>ip := length (code c'), stack := v # stack m\<rparr>))))"
proof -
  let ?k = "length (vals (constants c))"
  obtain c' where c': "munchExpr n s c = Some c'" "adds c (compile_expr e ?k) (literals e) c'"
    using gens_munch [OF expr_of_gens [OF e]] by blast
  have "reaches x m (ip m) (stack m) (length (code c')) (stack m) (eval (row_of m) e)"
    if lim: "length (vals (constants c')) \<le> 256" "length (code c') < 2 ^ 15"
      and m: "code (vchunk m) = xs @ drop (length (code c)) (code c') @ ys" "length xs = length (code c)"
      "vals (constants (vchunk m)) = vals (constants c') @ more" "\<not> failed m" "ip m = length (code c)" "length (stack m) + need e \<le> STACK_MAX"
    for x m xs ys more
  proof -
    have "fits m ?k (ip m) (stack m) e"
      using lim m c'(2) code_at_part [of m xs "compile_expr e ?k" ys] consts_at_part [of m "vals (constants c)" "literals e" more]
      by (auto simp: fits_def adds_def)
    from runs_reaches [OF compile_runs [OF m(4) e(2)] this] show ?thesis using m(5) adds_code [OF c'(2)] by simp
  qed
  from reaches_from [OF this] show ?thesis using c'(1) by (intro exI [of _ c'] conjI impI allI) simp_all
qed

text \<open>The code of \<open>NULL IS NULL OR NULL\<close>.\<close>

definition ex_null :: ast_node where
  "ex_null = Node TYPE_PRIMARY \<lparr>ttype = TOKEN_NULL, ttext = ''NULL'', tline = 1\<rparr> FLAG_NULL []"

definition ex_or :: ast_node where
  "ex_or = Node TYPE_OR_EXPR \<lparr>ttype = TOKEN_OR, ttext = ''OR'', tline = 1\<rparr> FLAG_NULL
     [Some (Node TYPE_COMPARISON \<lparr>ttype = TOKEN_IS, ttext = ''IS'', tline = 1\<rparr> FLAG_NULL [Some ex_null]), Some ex_null]"

abbreviation ex_or_expr :: expr where
  "ex_or_expr \<equiv> Or (Unop OP_IS_NULL (Lit VNull)) (Lit VNull)"

definition ex_chunk :: chunk where
  "ex_chunk = (case munchExpr ex_or None initChunk of None \<Rightarrow> initChunk | Some c \<Rightarrow> c)"

definition ex_vm :: vm where
  "ex_vm = (start_vm Map.empty ex_manager)\<lparr>vchunk := ex_chunk\<rparr>"

lemma ex_or_is: "expr_of None ex_or = Some ex_or_expr"
proof -
  have l: "expr_of None ex_null = Some (Lit VNull)"
    by (subst expr_of.simps) (simp add: ex_null_def primary_of_def Let_def)
  have "expr_of None (Node TYPE_COMPARISON \<lparr>ttype = TOKEN_IS, ttext = ''IS'', tline = 1\<rparr> FLAG_NULL [Some ex_null]) = Some (Unop OP_IS_NULL (Lit VNull))"
    by (subst expr_of.simps) (simp add: kid_def child_def comparison_op_def l)
  then show ?thesis by (subst expr_of.simps) (simp add: ex_or_def kid_def child_def l)
qed

lemma ex_chunk: "munchExpr ex_or None initChunk = Some ex_chunk" "length (code ex_chunk) = 10" "vals (constants ex_chunk) = []"
proof -
  obtain c where c: "munchExpr ex_or None initChunk = Some c" "adds initChunk (compile_expr ex_or_expr 0) [] c"
    using gens_munch [OF expr_of_gens [OF ex_or_is], of initChunk] by (auto simp: initChunk_def initValueArray_def)
  moreover have "ex_chunk = c" using c(1) by (simp add: ex_chunk_def)
  ultimately show "munchExpr ex_or None initChunk = Some ex_chunk" "length (code ex_chunk) = 10" "vals (constants ex_chunk) = []"
    by (simp_all add: adds_def initChunk_def initValueArray_def)
qed

theorem expression_code_correct_witness: "\<forall>x. steps x ex_vm (ex_vm\<lparr>ip := 10, stack := [VBool True]\<rparr>)"
proof
  fix x
  have e: "eval (row_of ex_vm) ex_or_expr = Some (Some (VBool True))"
    by (simp add: ok_def bindr_def unval_def is_true_def)
  have vm: "vchunk ex_vm = ex_chunk" "\<not> failed ex_vm" "ip ex_vm = 0" "stack ex_vm = []" by (simp_all add: ex_vm_def start_vm_def)
  have start: "length (code initChunk) = 0" by (simp add: initChunk_def)
  obtain c' where c': "munchExpr ex_or None initChunk = Some c'" and
    r: "length (vals (constants c')) \<le> 256 \<longrightarrow> length (code c') < 2 ^ 15 \<longrightarrow>
     (\<forall>x m xs ys more. code (vchunk m) = xs @ drop (length (code initChunk)) (code c') @ ys \<longrightarrow> length xs = length (code initChunk) \<longrightarrow>
       vals (constants (vchunk m)) = vals (constants c') @ more \<longrightarrow> \<not> failed m \<longrightarrow> ip m = length (code initChunk) \<longrightarrow>
       length (stack m) + need ex_or_expr \<le> STACK_MAX \<longrightarrow>
       (case eval (row_of m) ex_or_expr of
          None \<Rightarrow> True
        | Some None \<Rightarrow> \<exists>i st. steps x m (m\<lparr>ip := i, stack := st, failed := True\<rparr>)
        | Some (Some v) \<Rightarrow> steps x m (m\<lparr>ip := length (code c'), stack := v # stack m\<rparr>)))"
    using expression_code_correct [OF ex_or_is, of initChunk] by auto
  have c: "c' = ex_chunk" using c' ex_chunk(1) by simp
  from r [rule_format, of ex_vm "[]" "[]" "[]" x] show "steps x ex_vm (ex_vm\<lparr>ip := 10, stack := [VBool True]\<rparr>)"
    unfolding e c using ex_chunk(2,3) start by (simp add: vm STACK_MAX_def)
qed

section \<open>Conditions on the primary key\<close>

text \<open>C40: A condition of which the search by primary key uses only a part: \<open>checkWhereForPK\<close> looks for a comparison with the key
  below the first operand of OR, AND and NOT. When the comparison alone gives a search for one key, then the scan of SELECT,
  UPDATE or DELETE with NOT in front of it, or with any second operand joined to it by AND or OR, is the same search, and
  nothing of the rest of the condition is evaluated.\<close>

theorem where_condition_dropped:
  assumes w: "kid 0 whr = Some n" "node_type n \<in> {TYPE_OR_EXPR, TYPE_AND_EXPR, TYPE_NOT_EXPR}" "kid 0 n = Some cmp"
    and c: "node_type cmp = TYPE_COMPARISON" "kid 0 whr' = Some cmp"
    and s: "start_scan (Some whr') s ch = Some (patch, True, loop, d)"
  shows "start_scan (Some whr) s ch = Some (patch, True, loop, d)"
proof -
  have "checkWhereForPK whr s pk ch = checkWhereForPK whr' s pk ch" for pk
    using w c by (auto simp: checkWhereForPK_def unwrap_def)
  then show ?thesis using s by (auto simp: start_scan_def Let_def split: Option.bind_splits if_splits prod.splits)
qed

definition ex_word :: "token_type \<Rightarrow> string \<Rightarrow> ast_node" where
  "ex_word t text = Node TYPE_PRIMARY \<lparr>ttype = t, ttext = text, tline = 1\<rparr> FLAG_NULL []"

definition ex_comparison :: ast_node where
  "ex_comparison = Node TYPE_COMPARISON \<lparr>ttype = TOKEN_EQUAL, ttext = ''='', tline = 1\<rparr> FLAG_NULL
     [Some (ex_word TOKEN_IDENTIFIER ''id''), Some (ex_word TOKEN_NUMBER ''5'')]"

definition ex_where :: "ast_node \<Rightarrow> ast_node" where
  "ex_where n = Node TYPE_WHERE_CLAUSE \<lparr>ttype = TOKEN_WHERE, ttext = ''WHERE'', tline = 1\<rparr> FLAG_NULL [Some n]"

definition ex_not :: "ast_node \<Rightarrow> ast_node" where
  "ex_not n = Node TYPE_NOT_EXPR \<lparr>ttype = TOKEN_NOT, ttext = ''NOT'', tline = 1\<rparr> FLAG_NULL [Some n]"

definition ex_table :: schema where
  "ex_table = \<lparr>colNames = [[105, 100], [118]], colTypes = [0x43, 1], tablename = [116], shash = 1, scount = 2\<rparr>"

lemma ex_search: "\<exists>p l d. start_scan (Some (ex_where ex_comparison)) ex_table initChunk = Some (p, True, l, d)"
proof -
  have pk: "getPkIdx ex_table = 0" by (simp add: ex_table_def getPkIdx_def getConstraint_def CONSTRAINT_PRIMARY_KEY_def upt_rec)
  have name: "tokenToStr \<lparr>ttype = TOKEN_IDENTIFIER, ttext = ''id'', tline = n\<rparr> = [105, 100]" for n
    by (simp add: tokenToStr_def token_bytes_def MAX_IDENT_LEN_def char_code_def c_string_def c_strlen_def)
  have num: "tokenToStr \<lparr>ttype = TOKEN_NUMBER, ttext = ''5'', tline = n\<rparr> = [53]" for n
    by (simp add: tokenToStr_def token_bytes_def MAX_IDENT_LEN_def char_code_def c_string_def c_strlen_def)
  have five: "atoll [53] = Some 5" by (simp add: atoll_def digits_value_def is_digit_def)
  have munch: "munchExpr (ex_word TOKEN_NUMBER ''5'') s c = Some (writeStaticConst (VInt 5) c)" for s c
    by (subst munchExpr.simps) (simp add: ex_word_def munchPrimary_def num five Let_def)
  show ?thesis
    by (simp add: start_scan_def checkWhereForPK_def unwrap_def ex_where_def ex_comparison_def kid_def child_def pk Let_def munch split: prod.splits)
      (simp add: ex_word_def name ex_table_def c_string_def c_strlen_def)
qed

theorem where_condition_dropped_witness:
  "start_scan (Some (ex_where (ex_not ex_comparison))) ex_table initChunk = start_scan (Some (ex_where ex_comparison)) ex_table initChunk"
proof -
  obtain p l d where s: "start_scan (Some (ex_where ex_comparison)) ex_table initChunk = Some (p, True, l, d)" using ex_search by blast
  have "start_scan (Some (ex_where (ex_not ex_comparison))) ex_table initChunk = Some (p, True, l, d)"
    by (rule where_condition_dropped [OF _ _ _ _ _ s, of _ "ex_not ex_comparison" ex_comparison])
      (simp_all add: ex_where_def ex_not_def ex_comparison_def kid_def child_def)
  with s show ?thesis by simp
qed

end
