(* ===== verification/VmInv.thy ===== *)
theory VmInv
  imports VmRun
begin

text \<open>
  The machine never uses a table that has been closed. The tables that exist are exactly those the cache holds, each under one
  hash; every open scanner and the active transaction borrow a table under its hash. Every instruction keeps this, and so
  does the rollback of a failed statement, which leaves no scanner open.
\<close>

section \<open>Who holds a table\<close>

type_synonym table_cache = "(u32 \<times> nat option) list"

definition cache_holds :: "table_cache \<Rightarrow> (nat \<rightharpoonup> table) \<Rightarrow> bool" where
  "cache_holds rc hp \<longleftrightarrow> length rc = TABLE_CACHE_SIZE \<and>
     (\<forall>i < TABLE_CACHE_SIZE. \<forall>j < TABLE_CACHE_SIZE. \<forall>h p g q. rc ! i = (h, Some p) \<longrightarrow> rc ! j = (g, Some q) \<longrightarrow> i = j \<or> h \<noteq> g \<and> p \<noteq> q) \<and>
     (\<forall>p. hp p \<noteq> None \<longleftrightarrow> (\<exists>i h. i < TABLE_CACHE_SIZE \<and> rc ! i = (h, Some p)))"

definition table_cache_ok :: "vm \<Rightarrow> bool" where
  "table_cache_ok m \<longleftrightarrow> cache_holds (resourceCache m) (heap m) \<and> tableCachePtr m < TABLE_CACHE_SIZE \<and> (\<forall>p. heap m p \<noteq> None \<longrightarrow> p < fresh m)"

definition scanner_ok :: "vm \<Rightarrow> nat \<Rightarrow> bool" where
  "scanner_ok m i \<longleftrightarrow> (if i < numScanners m then sopen (scanners m ! i) \<and> (tblHash (scanners m ! i), Some (tbl (scanners m ! i))) \<in> set (resourceCache m)
     else \<not> sopen (scanners m ! i))"

definition scanners_ok :: "vm \<Rightarrow> bool" where
  "scanners_ok m \<longleftrightarrow> length (scanners m) = MAX_SCANNERS \<and> numScanners m \<le> MAX_SCANNERS \<and> (\<forall>i < MAX_SCANNERS. scanner_ok m i)"

definition tx_ok :: "vm \<Rightarrow> bool" where
  "tx_ok m \<longleftrightarrow> length (tx_tables m) \<le> MAX_TXN_TABLES \<and> (tx_active m \<or> tx_tables m = []) \<and>
     (\<forall>(h, p) \<in> set (tx_tables m). (h, Some p) \<in> set (resourceCache m))"

definition core_ok :: "vm \<Rightarrow> bool" where
  "core_ok m \<longleftrightarrow> length (stack m) \<le> STACK_MAX \<and> table_cache_ok m \<and> scanners_ok m"

definition vm_ok :: "vm \<Rightarrow> bool" where
  "vm_ok m \<longleftrightarrow> core_ok m \<and> tx_ok m"

text \<open>What a scanner borrows.\<close>

definition borrows :: "scanner \<Rightarrow> (u32 \<times> nat) option" where
  "borrows s = (if sopen s then Some (tblHash s, tbl s) else None)"

text \<open>A step that opens and closes nothing.\<close>

definition stays :: "vm \<Rightarrow> vm \<Rightarrow> bool" where
  "stays m m' \<longleftrightarrow> map borrows (scanners m') = map borrows (scanners m) \<and> numScanners m' = numScanners m \<and>
     resourceCache m' = resourceCache m \<and> tableCachePtr m' = tableCachePtr m \<and> dom (heap m') = dom (heap m) \<and> fresh m' = fresh m \<and>
     tx_active m' = tx_active m \<and> tx_tables m' = tx_tables m \<and> (length (stack m) \<le> STACK_MAX \<longrightarrow> length (stack m') \<le> STACK_MAX)"

lemma stays_refl [simp]: "stays m m"
  by (simp add: stays_def)

lemma stays_trans [trans]: "stays a b \<Longrightarrow> stays b c \<Longrightarrow> stays a c"
  by (simp add: stays_def)

lemma cache_holds_dom: "dom hp' = dom hp \<Longrightarrow> cache_holds rc hp' = cache_holds rc hp"
  by (simp add: cache_holds_def dom_def set_eq_iff)

lemma stays_core:
  assumes "core_ok m" "stays m m'"
  shows "core_ok m'"
proof -
  have e: "map borrows (scanners m') = map borrows (scanners m)" using assms(2) unfolding stays_def by blast
  then have len: "length (scanners m') = length (scanners m)" by (rule map_eq_imp_length_eq)
  have same: "borrows (scanners m' ! i) = borrows (scanners m ! i)" if "i < length (scanners m)" for i
    using arg_cong [OF e, of "\<lambda>xs. xs ! i"] that len by simp
  have d: "dom (heap m') = dom (heap m)" using assms(2) by (simp add: stays_def)
  then have heap: "(heap m' p \<noteq> None) = (heap m p \<noteq> None)" for p by blast
  have rest: "numScanners m' = numScanners m" "resourceCache m' = resourceCache m" "tableCachePtr m' = tableCachePtr m" "fresh m' = fresh m"
    "length (stack m') \<le> STACK_MAX"
    using assms unfolding stays_def core_ok_def by simp_all
  have "scanner_ok m' i = scanner_ok m i" if "i < MAX_SCANNERS" for i
    using same [of i] that assms(1) by (auto simp: scanner_ok_def borrows_def rest core_ok_def scanners_ok_def split: if_splits)
  moreover have "table_cache_ok m' = table_cache_ok m" unfolding table_cache_ok_def rest heap cache_holds_dom [OF d] ..
  ultimately show ?thesis using assms(1) len by (simp add: core_ok_def scanners_ok_def rest)
qed

lemma stays_ok: "vm_ok m \<Longrightarrow> stays m m' \<Longrightarrow> vm_ok m'"
  unfolding vm_ok_def using stays_core by (auto simp: tx_ok_def stays_def)

section \<open>Instructions that open and close nothing\<close>

lemma stays_push [simp]: "stays m (push v m)"
  by (simp add: stays_def push_def runtimeError_def)

lemma stays_errors [simp]: "stays m (runtimeError m)" "stays m (statementError m)" "stays m (m\<lparr>failed := b\<rparr>)" "stays m (m\<lparr>ip := i\<rparr>)" "stays m (m\<lparr>print := b\<rparr>)"
  by (simp_all add: stays_def runtimeError_def statementError_def)

lemma stays_pop: "pop m = (v, m') \<Longrightarrow> stays m m'"
  by (auto simp: pop_def stays_def runtimeError_def split: list.splits)

lemma stays_READ_BYTE: "READ_BYTE m = Some (b, m') \<Longrightarrow> stays m m'"
  by (auto simp: READ_BYTE_def stays_def split: Option.bind_splits)

lemma stays_READ_TWO_BYTES: "READ_TWO_BYTES m = Some (b, m') \<Longrightarrow> stays m m'"
  by (auto simp: READ_TWO_BYTES_def split: Option.bind_splits dest!: stays_READ_BYTE intro: stays_trans)

lemma stays_READ_CONSTANT: "READ_CONSTANT m = Some (v, m') \<Longrightarrow> stays m m'"
  by (auto simp: READ_CONSTANT_def split: Option.bind_splits dest!: stays_READ_BYTE)

lemma stays_jump: "jump off m = Some m' \<Longrightarrow> stays m m'"
  by (auto simp: jump_def Let_def split: if_splits)

lemmas stays_reads = stays_pop stays_READ_BYTE stays_READ_TWO_BYTES stays_READ_CONSTANT stays_jump

lemma stays_store: "deref p m = Some t \<Longrightarrow> stays m (store p t' m)"
  by (auto simp: stays_def store_def deref_def)

lemma stays_set_top: "top_scanner m = Some s \<Longrightarrow> borrows s' = borrows s \<Longrightarrow> stays m (set_top s' m)"
  unfolding stays_def set_top_def top_scanner_def
  by (auto simp: idx_def map_update list_update_same_conv split: if_splits)

lemma store_twice [simp]: "store p t' (store p t m) = store p t' m"
  by (simp add: store_def)

lemma top_keeps: "top_scanner (store p t m) = top_scanner m"
  by (simp add: top_scanner_def store_def)

section \<open>Instructions on values\<close>

lemma stays_then:
  "stays m m1 \<Longrightarrow> stays m (push v m1)" "stays m m1 \<Longrightarrow> stays m (runtimeError m1)" "stays m m1 \<Longrightarrow> stays m (statementError m1)"
  "stays m m1 \<Longrightarrow> stays m (m1\<lparr>failed := b\<rparr>)" "stays m m1 \<Longrightarrow> stays m (m1\<lparr>print := b\<rparr>)"
  by (erule stays_trans, simp)+

lemma stays_pop2: "pop m = (b, m1) \<Longrightarrow> pop m1 = (a, m2) \<Longrightarrow> stays m m2"
  by (blast intro: stays_trans stays_pop)

lemma stays_BINARY_OP: "BINARY_OP fi fd m = Some m' \<Longrightarrow> stays m m'"
  by (auto simp: BINARY_OP_def Let_def split: prod.splits intro!: stays_then dest: stays_pop2)

lemma stays_op_divide: "op_divide m = Some m' \<Longrightarrow> stays m m'"
  by (auto simp: op_divide_def split: list.splits if_splits dest: stays_BINARY_OP)

lemma stays_op_negate: "op_negate m = Some m' \<Longrightarrow> stays m m'"
  by (auto simp: op_negate_def Let_def split: prod.splits val.splits intro!: stays_then dest: stays_pop)

lemma stays_op_equal: "stays m (op_equal yes m)"
  by (auto simp: op_equal_def Let_def split: prod.splits intro!: stays_then dest: stays_pop2)

lemma stays_op_compare: "stays m (op_compare cmp yes m)"
  by (auto simp: op_compare_def Let_def split: prod.splits option.splits intro!: stays_then dest: stays_pop2)

lemma stays_op_like: "op_like m = Some m' \<Longrightarrow> stays m m'"
  by (auto simp: op_like_def Let_def split: prod.splits intro!: stays_then dest: stays_pop2)

lemma stays_op_is_null: "stays m (op_is_null yes m)"
  by (auto simp: op_is_null_def Let_def split: prod.splits intro!: stays_then dest: stays_pop)

lemma stays_op_not: "op_not m = Some m' \<Longrightarrow> stays m m'"
  by (auto simp: op_not_def Let_def split: prod.splits intro!: stays_then dest: stays_pop)

lemma stays_op_constant: "op_constant m = Some m' \<Longrightarrow> stays m m'"
  by (auto simp: op_constant_def intro!: stays_then dest: stays_READ_CONSTANT)

lemma stays_op_jump: "op_jump m = Some m' \<Longrightarrow> stays m m'"
  by (auto simp: op_jump_def split: Option.bind_splits dest!: stays_READ_TWO_BYTES stays_jump intro: stays_trans)

lemma stays_jump_if:
  assumes "READ_TWO_BYTES m = Some (off, m1)" "pop m1 = (v, m2)" "(if b then jump off m2 else Some m2) = Some m'"
  shows "stays m m'"
  using stays_READ_TWO_BYTES [OF assms(1)] stays_pop [OF assms(2)] assms(3) stays_jump [of off m2 m']
  by (cases b) (auto intro: stays_trans)

lemma stays_op_jump_false: "op_jump_false m = Some m' \<Longrightarrow> stays m m'"
  by (auto simp: op_jump_false_def Let_def split: Option.bind_splits prod.splits if_splits intro: stays_jump_if [where b = True] stays_jump_if [where b = False])

lemma stays_op_jump_true: "op_jump_true m = Some m' \<Longrightarrow> stays m m'"
  by (auto simp: op_jump_true_def Let_def split: Option.bind_splits prod.splits if_splits intro: stays_jump_if [where b = True] stays_jump_if [where b = False])

lemma stays_op_column: "op_column m = Some m' \<Longrightarrow> stays m m'"
  by (auto simp: op_column_def split: Option.bind_splits intro!: stays_then dest: stays_READ_BYTE)

lemma stays_pop_snd: "stays m (snd (pop m))"
  by (rule stays_pop [of m "fst (pop m)"]) simp

lemmas stays_value_ops = stays_BINARY_OP stays_op_divide stays_op_negate stays_op_like stays_op_not stays_op_constant
  stays_op_jump stays_op_jump_false stays_op_jump_true stays_op_column

lemma stays_value_op: "value_op op m = Some m' \<Longrightarrow> stays m m'"
  unfolding value_op_def
  by (auto split: if_splits intro: stays_pop_snd stays_op_equal stays_op_compare stays_op_is_null dest: stays_value_ops)

section \<open>Scanning\<close>

lemma stays_scanner:
  "top_scanner m = Some s \<Longrightarrow> deref (tbl s) m = Some t \<Longrightarrow> borrows s' = borrows s \<Longrightarrow> stays m (set_top s' (store (tbl s) t' m))"
  by (rule stays_trans [OF stays_store stays_set_top]) (simp_all add: top_keeps)

lemma borrows_simps [simp]:
  "borrows (s\<lparr>started := a\<rparr>) = borrows s" "borrows (s\<lparr>atEnd := a\<rparr>) = borrows s" "borrows (s\<lparr>leafNode := n\<rparr>) = borrows s"
  "borrows (s\<lparr>leafAddr := ad\<rparr>) = borrows s" "borrows (s\<lparr>childIdx := i\<rparr>) = borrows s" "borrows (s\<lparr>spage := p\<rparr>) = borrows s"
  "borrows (s\<lparr>pageAddr := ad\<rparr>) = borrows s" "borrows (s\<lparr>slotIdx := i\<rparr>) = borrows s"
  by (simp_all add: borrows_def)

lemma set_top_error: "set_top s (statementError m) = statementError (set_top s m)"
  by (simp add: set_top_def statementError_def)

lemma loadFirstValidPage_borrows: "loadFirstValidPage fs k s t = Some (found, s', t') \<Longrightarrow> borrows s' = borrows s"
  by (induction fs k s t rule: loadFirstValidPage.induct) (auto simp: Let_def split: if_splits Option.bind_splits prod.splits)

lemma leftmost_borrows: "leftmost fs k a s t = Some (leaf, s', t') \<Longrightarrow> borrows s' = borrows s"
  by (induction fs k a s t rule: leftmost.induct) (auto simp: Let_def split: if_splits Option.bind_splits prod.splits)

lemmas moves_borrow = loadFirstValidPage_borrows leftmost_borrows

lemma stays_advanceScanner: "advanceScanner x m = Some (found, m') \<Longrightarrow> stays m m'"
  unfolding advanceScanner_def
  by (auto simp: Let_def set_top_error split: if_splits Option.bind_splits prod.splits option.splits
      intro!: stays_then stays_scanner stays_set_top dest!: moves_borrow)

lemma stays_scannerKeySearch: "scannerKeySearch x key m = Some (found, m') \<Longrightarrow> stays m m'"
  unfolding scannerKeySearch_def
  by (auto simp: Let_def split: if_splits Option.bind_splits prod.splits option.splits intro!: stays_scanner intro: stays_store)

lemma stays_seekScanner: "seekScanner x key m = Some (found, m') \<Longrightarrow> stays m m'"
  unfolding seekScanner_def
  by (auto simp: Let_def split: if_splits Option.bind_splits prod.splits option.splits intro!: stays_scanner intro: stays_store)

lemma stays_op_next: "op_next x m = Some m' \<Longrightarrow> stays m m'"
  unfolding op_next_def
  by (auto split: if_splits Option.bind_splits dest!: stays_READ_TWO_BYTES stays_advanceScanner stays_jump) (blast intro: stays_trans)+

lemma stays_op_key_search: "op_key_search x m = Some m' \<Longrightarrow> stays m m'"
  unfolding op_key_search_def
  by (auto simp: Let_def split: if_splits Option.bind_splits prod.splits dest!: stays_READ_TWO_BYTES stays_scannerKeySearch stays_jump stays_pop)
    (blast intro: stays_trans)+

lemma stays_op_rewind: "op_rewind m = Some m' \<Longrightarrow> stays m m'"
  by (auto simp: op_rewind_def split: Option.bind_splits intro!: stays_set_top)

lemma stays_pop_many: "pop_many k m = (vs, m') \<Longrightarrow> stays m m'"
  by (induction k arbitrary: m vs m') (auto simp: Let_def split: prod.splits dest!: stays_pop intro: stays_trans)

lemma stays_rows: "stays m m1 \<Longrightarrow> stays m (m1\<lparr>rows := r, cols := c\<rparr>)"
  by (erule stays_trans) (simp add: stays_def)

lemma stays_op_emit_row: "op_emit_row m = Some m' \<Longrightarrow> stays m m'"
  unfolding op_emit_row_def
  by (auto simp: Let_def split: Option.bind_splits prod.splits intro!: stays_rows dest!: stays_READ_BYTE stays_pop_many intro: stays_trans)

lemma stays_op_insert_row: "op_insert_row x m = Some m' \<Longrightarrow> stays m m'"
proof -
  assume r: "op_insert_row x m = Some m'"
  obtain count m1 s vs m2 where m: "READ_BYTE m = Some (count, m1)" "top_scanner m1 = Some s" "pop_many (unat count) m1 = (vs, m2)"
    using r by (auto simp: op_insert_row_def Let_def split: Option.bind_splits prod.splits)
  have k: "stays m m2" using stays_READ_BYTE [OF m(1)] stays_pop_many [OF m(3)] by (rule stays_trans)
  show ?thesis
    using r m by (auto simp: op_insert_row_def Let_def split: Option.bind_splits prod.splits if_splits
        intro!: stays_then stays_trans [OF k] stays_store)
qed

lemma stays_op_update_col: "op_update_col x m = Some m' \<Longrightarrow> stays m m'"
proof -
  assume r: "op_update_col x m = Some m'"
  obtain col m1 s t slot target v m2 where m: "READ_BYTE m = Some (col, m1)" "top_scanner m1 = Some s" "deref (tbl s) m1 = Some t"
      "idx (slots (spage s)) (slotIdx s) = Some slot" "idx (entries (spage s)) (ptr slot + unat col) = Some target" "pop m1 = (v, m2)"
    using r by (auto simp: op_update_col_def Let_def split: Option.bind_splits prod.splits)
  have k: "stays m m2" using stays_READ_BYTE [OF m(1)] stays_pop [OF m(6)] by (rule stays_trans)
  have t: "top_scanner m2 = Some s" "deref (tbl s) m2 = Some t"
    using m(2,3,6) by (auto simp: pop_def top_scanner_def deref_def runtimeError_def split: list.splits if_splits)
  have w: "stays m (set_top (s\<lparr>spage := p\<rparr>) (store (tbl s) t' m2))" for p t'
    by (rule stays_trans [OF k stays_scanner [OF t]]) simp
  show ?thesis
    using r m by (auto simp: op_update_col_def Let_def split: Option.bind_splits prod.splits if_splits
        intro!: stays_then w dest!: stays_seekScanner intro: stays_trans [OF w])
qed

lemma stays_op_delete_row: "op_delete_row x m = Some m' \<Longrightarrow> stays m m'"
  unfolding op_delete_row_def
  by (auto simp: Let_def set_top_error split: Option.bind_splits prod.splits if_splits option.splits intro!: stays_then stays_scanner)

section \<open>The cache\<close>

lemma slot_update:
  assumes "length rc = n" "i < n"
  shows "(\<exists>j g. j < n \<and> rc[i := x] ! j = (g, Some q)) \<longleftrightarrow> snd x = Some q \<or> (\<exists>j g. j < n \<and> j \<noteq> i \<and> rc ! j = (g, Some q))"
proof
  assume "\<exists>j g. j < n \<and> rc[i := x] ! j = (g, Some q)"
  then obtain j g where "j < n" "rc[i := x] ! j = (g, Some q)" by blast
  then show "snd x = Some q \<or> (\<exists>j g. j < n \<and> j \<noteq> i \<and> rc ! j = (g, Some q))" using assms by (cases "j = i") auto
next
  assume "snd x = Some q \<or> (\<exists>j g. j < n \<and> j \<noteq> i \<and> rc ! j = (g, Some q))"
  then show "\<exists>j g. j < n \<and> rc[i := x] ! j = (g, Some q)"
  proof
    assume "snd x = Some q"
    then show ?thesis using assms by (intro exI [of _ i] exI [of _ "fst x"]) (simp add: prod_eq_iff)
  qed (use assms in auto)
qed

lemma cache_holdsD:
  assumes "cache_holds rc hp"
  shows "length rc = TABLE_CACHE_SIZE" "hp p \<noteq> None \<longleftrightarrow> (\<exists>j g. j < TABLE_CACHE_SIZE \<and> rc ! j = (g, Some p))"
    "i < TABLE_CACHE_SIZE \<Longrightarrow> j < TABLE_CACHE_SIZE \<Longrightarrow> rc ! i = (h, Some p) \<Longrightarrow> rc ! j = (g, Some q) \<Longrightarrow> i = j \<or> h \<noteq> g \<and> p \<noteq> q"
  using assms unfolding cache_holds_def by blast+

lemma cache_holds_close:
  assumes h: "cache_holds rc hp" and i: "i < TABLE_CACHE_SIZE" "rc ! i = (g, Some p)"
  shows "cache_holds (rc[i := (0, None)]) (hp(p := None))"
proof -
  note d = cache_holdsD [OF h]
  have "(\<exists>j g. j < TABLE_CACHE_SIZE \<and> j \<noteq> i \<and> rc ! j = (g, Some q)) \<longleftrightarrow> (hp(p := None)) q \<noteq> None" for q
  proof (cases "q = p")
    case True
    have "rc ! j \<noteq> (g', Some p)" if "j < TABLE_CACHE_SIZE" "j \<noteq> i" for j g' using d(3) [OF that(1) i(1) _ i(2), of g' p] that(2) by blast
    then show ?thesis using True by auto
  next
    case False
    then show ?thesis using d(2) [of q] i by auto
  qed
  then have "(\<exists>j g. j < TABLE_CACHE_SIZE \<and> rc[i := (0, None)] ! j = (g, Some q)) \<longleftrightarrow> (hp(p := None)) q \<noteq> None" for q
    unfolding slot_update [OF d(1) i(1)] by simp
  moreover have "k = j \<or> h \<noteq> g' \<and> p' \<noteq> q"
    if "k < TABLE_CACHE_SIZE" "j < TABLE_CACHE_SIZE" "rc[i := (0, None)] ! k = (h, Some p')" "rc[i := (0, None)] ! j = (g', Some q)" for k j h g' p' q
    using that d(1) i(1) d(3) [OF that(1,2), of h p' g' q] by (cases "k = i"; cases "j = i") simp_all
  ultimately show ?thesis using d(1) unfolding cache_holds_def by simp
qed

lemma cache_holds_fill:
  assumes h: "cache_holds rc hp" and i: "i < TABLE_CACHE_SIZE" "snd (rc ! i) = None" and t: "hp t = None" and g: "\<forall>q. (g, Some q) \<notin> set rc"
  shows "cache_holds (rc[i := (g, Some t)]) (hp(t \<mapsto> u))"
proof -
  note d = cache_holdsD [OF h]
  have no: "rc ! j \<noteq> (g', Some t)" "rc ! j \<noteq> (g, Some q)" if "j < TABLE_CACHE_SIZE" for j g' q
  proof -
    show "rc ! j \<noteq> (g', Some t)" using d(2) [of t] t that by blast
    show "rc ! j \<noteq> (g, Some q)" using g nth_mem [of j rc] that d(1) by metis
  qed
  have "Some t = Some q \<or> (\<exists>j g. j < TABLE_CACHE_SIZE \<and> j \<noteq> i \<and> rc ! j = (g, Some q)) \<longleftrightarrow> (hp(t \<mapsto> u)) q \<noteq> None" for q
    using d(2) [of q] i(2) by (cases "q = t") auto
  then have "(\<exists>j g'. j < TABLE_CACHE_SIZE \<and> rc[i := (g, Some t)] ! j = (g', Some q)) \<longleftrightarrow> (hp(t \<mapsto> u)) q \<noteq> None" for q
    unfolding slot_update [OF d(1) i(1)] by simp
  moreover have "k = j \<or> h \<noteq> g' \<and> p' \<noteq> q"
    if "k < TABLE_CACHE_SIZE" "j < TABLE_CACHE_SIZE" "rc[i := (g, Some t)] ! k = (h, Some p')" "rc[i := (g, Some t)] ! j = (g', Some q)" for k j h g' p' q
    using that d(1) i(1) d(3) [OF that(1,2), of h p' g' q] no by (cases "k = i"; cases "j = i") auto
  ultimately show ?thesis using d(1) unfolding cache_holds_def by simp
qed

text \<open>Closing the table of a hash: its slot is emptied, every other slot stays.\<close>

lemma evict_slots_spec:
  "evict_slots h is m = Some m' \<Longrightarrow> cache_holds (resourceCache m) (heap m) \<Longrightarrow> set is \<subseteq> {..<TABLE_CACHE_SIZE} \<Longrightarrow> distinct is \<Longrightarrow>
    \<exists>rc hp. m' = m\<lparr>resourceCache := rc, heap := hp\<rparr> \<and> cache_holds rc hp \<and> (\<forall>p. hp p \<noteq> None \<longrightarrow> heap m p \<noteq> None) \<and>
      (\<forall>j < TABLE_CACHE_SIZE. rc ! j = (if j \<in> set is \<and> fst (resourceCache m ! j) = h \<and> snd (resourceCache m ! j) \<noteq> None then (0, None) else resourceCache m ! j))"
proof (induction "is" arbitrary: m)
  case Nil
  then show ?case by (intro exI [of _ "resourceCache m"] exI [of _ "heap m"]) auto
next
  case (Cons i js)
  have i: "i < TABLE_CACHE_SIZE" "length (resourceCache m) = TABLE_CACHE_SIZE" using Cons.prems(2,3) cache_holdsD(1) by auto
  obtain g p where gp: "resourceCache m ! i = (g, p)" by fastforce
  show ?case
  proof (cases "p = None \<or> g \<noteq> h")
    case True
    then have "evict_slots h js m = Some m'" using Cons.prems(1) i gp by (auto simp: idx_def split: option.splits)
    from Cons.IH [OF this Cons.prems(2)] Cons.prems(3,4) obtain rc hp where r: "m' = m\<lparr>resourceCache := rc, heap := hp\<rparr>" "cache_holds rc hp"
      "\<forall>p. hp p \<noteq> None \<longrightarrow> heap m p \<noteq> None"
      "\<forall>j < TABLE_CACHE_SIZE. rc ! j = (if j \<in> set js \<and> fst (resourceCache m ! j) = h \<and> snd (resourceCache m ! j) \<noteq> None then (0, None) else resourceCache m ! j)"
      by auto
    then show ?thesis using True gp by (intro exI [of _ rc] exI [of _ hp]) auto
  next
    case False
    then obtain t where t: "p = Some t" by auto
    let ?m = "m\<lparr>heap := (heap m)(t := None), resourceCache := (resourceCache m)[i := (0, None)]\<rparr>"
    have step: "evict_slots h js ?m = Some m'"
      using Cons.prems(1) i gp t False by (auto simp: idx_def closeTable_def split: if_splits)
    have "cache_holds (resourceCache ?m) (heap ?m)" using cache_holds_close [OF Cons.prems(2) i(1)] gp t by simp
    from Cons.IH [OF step this] Cons.prems(3,4) obtain rc hp where r: "m' = ?m\<lparr>resourceCache := rc, heap := hp\<rparr>" "cache_holds rc hp"
      "\<forall>p. hp p \<noteq> None \<longrightarrow> heap ?m p \<noteq> None"
      "\<forall>j < TABLE_CACHE_SIZE. rc ! j = (if j \<in> set js \<and> fst (resourceCache ?m ! j) = h \<and> snd (resourceCache ?m ! j) \<noteq> None then (0, None) else resourceCache ?m ! j)"
      by auto
    have "m' = m\<lparr>resourceCache := rc, heap := hp\<rparr>" using r(1) by simp
    moreover have "heap m p \<noteq> None" if "hp p \<noteq> None" for p using r(3) [rule_format, OF that] by (auto split: if_splits)
    moreover have "rc ! j = (if j \<in> set (i # js) \<and> fst (resourceCache m ! j) = h \<and> snd (resourceCache m ! j) \<noteq> None then (0, None) else resourceCache m ! j)"
      if "j < TABLE_CACHE_SIZE" for j
      using r(4) [rule_format, OF that] i gp t False by (cases "j = i"; cases "snd (resourceCache m ! j)") auto
    ultimately show ?thesis using r(2) by blast
  qed
qed

lemma evictTableCache_spec:
  assumes "evictTableCache h m = Some m'" "cache_holds (resourceCache m) (heap m)"
  obtains rc hp where "m' = m\<lparr>resourceCache := rc, heap := hp\<rparr>" "cache_holds rc hp" "\<And>p. hp p \<noteq> None \<Longrightarrow> heap m p \<noteq> None"
    "\<And>g p. g \<noteq> h \<Longrightarrow> (g, Some p) \<in> set (resourceCache m) \<Longrightarrow> (g, Some p) \<in> set rc"
proof -
  have all: "set [0..<TABLE_CACHE_SIZE] \<subseteq> {..<TABLE_CACHE_SIZE}" "distinct [0..<TABLE_CACHE_SIZE]" by auto
  obtain rc hp where r: "m' = m\<lparr>resourceCache := rc, heap := hp\<rparr>" "cache_holds rc hp" "\<forall>p. hp p \<noteq> None \<longrightarrow> heap m p \<noteq> None"
      "\<forall>j < TABLE_CACHE_SIZE. rc ! j = (if j \<in> set [0..<TABLE_CACHE_SIZE] \<and> fst (resourceCache m ! j) = h \<and> snd (resourceCache m ! j) \<noteq> None then (0, None) else resourceCache m ! j)"
    using evict_slots_spec [OF assms(1) [unfolded evictTableCache_def] assms(2) all] by blast
  have "(g, Some p) \<in> set rc" if ne: "g \<noteq> h" and gp: "(g, Some p) \<in> set (resourceCache m)" for g p
  proof -
    obtain j where j: "j < TABLE_CACHE_SIZE" "resourceCache m ! j = (g, Some p)"
      using gp cache_holdsD(1) [OF assms(2)] by (auto simp: in_set_conv_nth)
    then have "rc ! j = (g, Some p)" using r(4) ne by simp
    then show ?thesis using j(1) cache_holdsD(1) [OF r(2)] by (metis nth_mem)
  qed
  with r show ?thesis using that by blast
qed

lemma evict_core:
  assumes "core_ok m" "evictTableCache h m = Some m'" "\<forall>i < numScanners m. tblHash (scanners m ! i) \<noteq> h"
  shows "core_ok m'"
proof -
  have "cache_holds (resourceCache m) (heap m)" using assms(1) by (simp add: core_ok_def table_cache_ok_def)
  from evictTableCache_spec [OF assms(2) this] obtain rc hp where r: "m' = m\<lparr>resourceCache := rc, heap := hp\<rparr>" "cache_holds rc hp"
    "\<And>p. hp p \<noteq> None \<Longrightarrow> heap m p \<noteq> None" "\<And>g p. g \<noteq> h \<Longrightarrow> (g, Some p) \<in> set (resourceCache m) \<Longrightarrow> (g, Some p) \<in> set rc" by metis
  have "scanner_ok m' i" if "scanner_ok m i" for i using that r(4) assms(3) unfolding r(1) by (auto simp: scanner_ok_def)
  then show ?thesis using assms(1) r(2,3) unfolding core_ok_def table_cache_ok_def scanners_ok_def r(1) by simp
qed

lemma evict_ok:
  assumes "vm_ok m" "evictTableCache h m = Some m'" "\<forall>i < numScanners m. tblHash (scanners m ! i) \<noteq> h" "\<forall>(g, p) \<in> set (tx_tables m). g \<noteq> h"
  shows "vm_ok m'"
proof -
  have "cache_holds (resourceCache m) (heap m)" using assms(1) by (simp add: vm_ok_def core_ok_def table_cache_ok_def)
  from evictTableCache_spec [OF assms(2) this] obtain rc hp where r: "m' = m\<lparr>resourceCache := rc, heap := hp\<rparr>"
    "\<And>g p. g \<noteq> h \<Longrightarrow> (g, Some p) \<in> set (resourceCache m) \<Longrightarrow> (g, Some p) \<in> set rc" by metis
  have "tx_ok m'" using assms(1,4) r(2) unfolding r(1) by (fastforce simp: vm_ok_def tx_ok_def)
  then show ?thesis using evict_core [OF _ assms(2,3)] assms(1) by (simp add: vm_ok_def)
qed

section \<open>Opening and closing\<close>

lemma evict_next_spec:
  "evict_next k m = Some (slot, m') \<Longrightarrow> tableCachePtr m < TABLE_CACHE_SIZE \<Longrightarrow>
    \<exists>c < TABLE_CACHE_SIZE. (case slot of
       None \<Rightarrow> m' = m\<lparr>tableCachePtr := c\<rparr>
     | Some i \<Rightarrow> \<exists>h p. i < TABLE_CACHE_SIZE \<and> i < length (resourceCache m) \<and> resourceCache m ! i = (h, Some p) \<and> \<not> tableInUse p m \<and>
         m' = m\<lparr>tableCachePtr := c, heap := (heap m)(p := None)\<rparr>)"
proof (induction k arbitrary: m)
  case 0
  then show ?case by (intro exI [of _ "tableCachePtr m"]) auto
next
  case (Suc k)
  let ?i = "tableCachePtr m" and ?m = "m\<lparr>tableCachePtr := (tableCachePtr m + 1) mod TABLE_CACHE_SIZE\<rparr>"
  have c: "(tableCachePtr m + 1) mod TABLE_CACHE_SIZE < TABLE_CACHE_SIZE" by (simp add: TABLE_CACHE_SIZE_def)
  obtain h p where hp: "?i < length (resourceCache m)" "resourceCache m ! ?i = (h, Some p)"
    using Suc.prems(1) by (auto simp: idx_def Let_def split: Option.bind_splits prod.splits if_splits)
  have u: "tableInUse p ?m = tableInUse p m" by (simp add: tableInUse_def)
  show ?case
  proof (cases "tableInUse p m")
    case True
    then have "evict_next k ?m = Some (slot, m')" using Suc.prems(1) hp u by (simp add: idx_def Let_def)
    from Suc.IH [OF this] c obtain c' where c': "c' < TABLE_CACHE_SIZE" "case slot of
       None \<Rightarrow> m' = ?m\<lparr>tableCachePtr := c'\<rparr>
     | Some i \<Rightarrow> \<exists>h p. i < TABLE_CACHE_SIZE \<and> i < length (resourceCache ?m) \<and> resourceCache ?m ! i = (h, Some p) \<and> \<not> tableInUse p ?m \<and>
         m' = ?m\<lparr>tableCachePtr := c', heap := (heap ?m)(p := None)\<rparr>" by auto
    have use: "tableInUse q ?m = tableInUse q m" for q by (simp add: tableInUse_def)
    show ?thesis
    proof (cases slot)
      case None
      then show ?thesis using c' by (intro exI [of _ c']) simp
    next
      case (Some i)
      then show ?thesis using c' unfolding use by (intro exI [of _ c']) simp
    qed
  next
    case False
    then have e: "slot = Some ?i" "m' = ?m\<lparr>heap := (heap m)(p := None)\<rparr>"
      using Suc.prems(1) hp u by (auto simp: idx_def Let_def closeTable_def split: if_splits)
    show ?thesis unfolding e(1) option.case
      by (intro exI [of _ "(tableCachePtr m + 1) mod TABLE_CACHE_SIZE"] conjI exI [of _ h] exI [of _ p] c)
        (use e(2) hp False Suc.prems(2) in simp_all)
  qed
qed

lemma insertTableCache_spec:
  assumes h: "cache_holds (resourceCache m) ((heap m)(t := None))" and t: "heap m t = Some u" and new: "\<forall>q. (h, Some q) \<notin> set (resourceCache m)"
    and c: "tableCachePtr m < TABLE_CACHE_SIZE" and r: "insertTableCache h t m = Some (ok, m')"
  shows "\<exists>c' < TABLE_CACHE_SIZE. if ok
    then \<exists>rc hp. m' = m\<lparr>tableCachePtr := c', heap := hp, resourceCache := rc\<rparr> \<and> cache_holds rc hp \<and> (h, Some t) \<in> set rc \<and>
      (\<forall>p. hp p \<noteq> None \<longrightarrow> heap m p \<noteq> None) \<and> (\<forall>g q. (g, Some q) \<in> set (resourceCache m) \<longrightarrow> tableInUse q m \<longrightarrow> (g, Some q) \<in> set rc)
    else m' = m\<lparr>tableCachePtr := c'\<rparr>"
proof -
  note d = cache_holdsD [OF h]
  have undo: "((heap m)(t := None))(t \<mapsto> u) = heap m" using t by (simp add: fun_upd_idem)
  have keep: "(g, Some q) \<in> set ((resourceCache m)[i := s])"
    if gq: "(g, Some q) \<in> set (resourceCache m)" and other: "snd (resourceCache m ! i) \<noteq> Some q" for g q i s
  proof -
    obtain j where j: "j < length (resourceCache m)" "resourceCache m ! j = (g, Some q)" using gq by (auto simp: in_set_conv_nth)
    then have "j \<noteq> i" using other j by auto
    then have "(resourceCache m)[i := s] ! j = (g, Some q)" using j by simp
    then show ?thesis using j(1) by (metis length_list_update nth_mem)
  qed
  show ?thesis
  proof (cases "find (\<lambda>i. snd (resourceCache m ! i) = None) [0..<TABLE_CACHE_SIZE]")
    case (Some i)
    then have i: "i < TABLE_CACHE_SIZE" "snd (resourceCache m ! i) = None" by (auto simp: find_Some_iff)
    have m': "ok" "m' = m\<lparr>resourceCache := (resourceCache m)[i := (h, Some t)]\<rparr>" using r Some by (auto simp: insertTableCache_def)
    have "cache_holds ((resourceCache m)[i := (h, Some t)]) (heap m)" using cache_holds_fill [OF h i _ new, of t u] undo by simp
    then show ?thesis using m' c i d(1)
      by (intro exI [of _ "tableCachePtr m"]) (auto intro!: exI [of _ "(resourceCache m)[i := (h, Some t)]"] exI [of _ "heap m"] keep set_update_memI)
  next
    case None
    then obtain slot m1 where e: "evict_next TABLE_CACHE_SIZE m = Some (slot, m1)"
      "(case slot of None \<Rightarrow> Some (False, m1) | Some i \<Rightarrow> Some (True, m1\<lparr>resourceCache := (resourceCache m1)[i := (h, Some t)]\<rparr>)) = Some (ok, m')"
      using r by (auto simp: insertTableCache_def split: Option.bind_splits)
    obtain c' where c': "c' < TABLE_CACHE_SIZE" "case slot of
       None \<Rightarrow> m1 = m\<lparr>tableCachePtr := c'\<rparr>
     | Some i \<Rightarrow> \<exists>h p. i < TABLE_CACHE_SIZE \<and> i < length (resourceCache m) \<and> resourceCache m ! i = (h, Some p) \<and> \<not> tableInUse p m \<and>
         m1 = m\<lparr>tableCachePtr := c', heap := (heap m)(p := None)\<rparr>" using evict_next_spec [OF e(1) c] by blast
    show ?thesis
    proof (cases slot)
      case None
      then show ?thesis using c' e(2) by auto
    next
      case (Some i)
      then obtain g p where i: "i < TABLE_CACHE_SIZE" "resourceCache m ! i = (g, Some p)" "\<not> tableInUse p m"
        "m1 = m\<lparr>tableCachePtr := c', heap := (heap m)(p := None)\<rparr>" using c'(2) by auto
      let ?rc = "(resourceCache m)[i := (h, Some t)]"
      have m': "ok" "m' = m\<lparr>tableCachePtr := c', heap := (heap m)(p := None), resourceCache := ?rc\<rparr>" using e(2) Some i(4) by auto
      have pt: "p \<noteq> t" using d(2) [of p] i(1,2) by auto
      have "cache_holds ((resourceCache m)[i := (0, None)]) (((heap m)(t := None))(p := None))" by (rule cache_holds_close [OF h i(1,2)])
      moreover have "\<forall>q. (h, Some q) \<notin> set ((resourceCache m)[i := (0, None)])" using new by (auto dest!: set_update_subset_insert [THEN subsetD])
      ultimately have "cache_holds (((resourceCache m)[i := (0, None)])[i := (h, Some t)]) ((((heap m)(t := None))(p := None))(t \<mapsto> u))"
        using i(1) d(1) by (intro cache_holds_fill) simp_all
      moreover have "(((heap m)(t := None))(p := None))(t \<mapsto> u) = (heap m)(p := None)" using pt t by (auto simp: fun_eq_iff)
      ultimately have "cache_holds ?rc ((heap m)(p := None))" by simp
      moreover have "(g', Some q) \<in> set ?rc" if "(g', Some q) \<in> set (resourceCache m)" "tableInUse q m" for g' q
        using that i(2,3) by (intro keep) auto
      moreover have "(h, Some t) \<in> set ?rc" using i(1) d(1) by (intro set_update_memI) simp
      ultimately show ?thesis using m' c'(1) by (intro exI [of _ c']) (auto intro!: exI [of _ ?rc] exI [of _ "(heap m)(p := None)"] split: if_splits)
    qed
  qed
qed

lemma searchTableCache_spec:
  "searchTableCache h m = Some t \<Longrightarrow> (h, Some t) \<in> set (resourceCache m)"
  "searchTableCache h m = None \<Longrightarrow> (h, Some q) \<notin> set (resourceCache m)"
proof -
  have found: "find P xs = Some y \<Longrightarrow> y \<in> set xs \<and> P y" for P and xs :: table_cache and y by (auto simp: find_Some_iff)
  show "searchTableCache h m = Some t \<Longrightarrow> (h, Some t) \<in> set (resourceCache m)"
    by (auto simp: searchTableCache_def split: option.splits dest!: found)
  assume n: "searchTableCache h m = None"
  show "(h, Some q) \<notin> set (resourceCache m)"
  proof
    assume "(h, Some q) \<in> set (resourceCache m)"
    then have "find (\<lambda>(g, p). p \<noteq> None \<and> g = h) (resourceCache m) \<noteq> None" by (auto simp: find_None_iff)
    then obtain g p where f: "find (\<lambda>(g, p). p \<noteq> None \<and> g = h) (resourceCache m) = Some (g, p)" by auto
    then have "p \<noteq> None" by (auto simp: find_Some_iff)
    then show False using n f by (simp add: searchTableCache_def)
  qed
qed

text \<open>A change of the cache that leaves every table in use where it is.\<close>

lemma cache_change_ok:
  assumes m: "vm_ok m" and h: "cache_holds rc hp" "c < TABLE_CACHE_SIZE" "\<And>p. hp p \<noteq> None \<Longrightarrow> p < n"
    and use: "\<And>g q. (g, Some q) \<in> set (resourceCache m) \<Longrightarrow> tableInUse q m \<Longrightarrow> (g, Some q) \<in> set rc"
  shows "vm_ok (m\<lparr>heap := hp, fresh := n, tableCachePtr := c, resourceCache := rc\<rparr>)"
proof -
  let ?m = "m\<lparr>heap := hp, fresh := n, tableCachePtr := c, resourceCache := rc\<rparr>"
  have s: "length (scanners m) = MAX_SCANNERS" "numScanners m \<le> MAX_SCANNERS" "\<And>i. i < MAX_SCANNERS \<Longrightarrow> scanner_ok m i"
    using m by (auto simp: vm_ok_def core_ok_def scanners_ok_def)
  have "scanner_ok ?m i" if i: "i < MAX_SCANNERS" for i
  proof (cases "i < numScanners m")
    case True
    then have o: "sopen (scanners m ! i)" "(tblHash (scanners m ! i), Some (tbl (scanners m ! i))) \<in> set (resourceCache m)"
      using s(3) [OF i] by (simp_all add: scanner_ok_def)
    moreover have "tableInUse (tbl (scanners m ! i)) m" using o(1) i s(1) by (auto simp: tableInUse_def list_ex_length)
    ultimately show ?thesis using use True by (simp add: scanner_ok_def)
  next
    case False
    then show ?thesis using s(3) [OF i] by (simp add: scanner_ok_def)
  qed
  moreover have "tx_ok ?m"
  proof -
    have t: "tx_ok m" using m by (simp add: vm_ok_def)
    have "(g, Some q) \<in> set rc" if gq: "(g, q) \<in> set (tx_tables m)" for g q
    proof -
      have "tx_active m" using t gq by (auto simp: tx_ok_def)
      then have "tableInUse q m" using gq by (auto simp: tableInUse_def list_ex_iff)
      then show ?thesis using use t gq by (auto simp: tx_ok_def)
    qed
    then show ?thesis using t by (auto simp: tx_ok_def)
  qed
  moreover have "table_cache_ok ?m" using h by (simp add: table_cache_ok_def)
  ultimately show ?thesis using m s(1,2) by (simp add: vm_ok_def core_ok_def scanners_ok_def)
qed

lemma cached_table_ok:
  assumes m: "vm_ok m" and r: "cached_table x h s m = Some (t, m')"
  shows "vm_ok m' \<and> scanners m' = scanners m \<and> numScanners m' = numScanners m \<and> tx_active m' = tx_active m \<and> tx_tables m' = tx_tables m \<and>
    (\<forall>p. t = Some p \<longrightarrow> (h, Some p) \<in> set (resourceCache m'))"
proof (cases "searchTableCache h m")
  case (Some p)
  then show ?thesis using m r searchTableCache_spec(1) [OF Some] by (auto simp: cached_table_def)
next
  case None
  have c: "cache_holds (resourceCache m) (heap m)" "tableCachePtr m < TABLE_CACHE_SIZE" "\<And>p. heap m p \<noteq> None \<Longrightarrow> p < fresh m"
    using m by (auto simp: vm_ok_def core_ok_def table_cache_ok_def)
  show ?thesis
  proof (cases "loadTable (junk x) (tablename s) (disk m) (table_junk x)")
    case None
    then show ?thesis using r \<open>searchTableCache h m = None\<close> stays_ok [OF m stays_errors(3) [of m True]] by (auto simp: cached_table_def)
  next
    case (Some u)
    let ?p = "fresh m" and ?m = "m\<lparr>heap := (heap m)(fresh m \<mapsto> u), fresh := fresh m + 1\<rparr>"
    have none: "heap m ?p = None" using c(3) [of ?p] by fastforce
    obtain ok m1 where i: "insertTableCache h ?p ?m = Some (ok, m1)"
      "(if ok then Some (Some ?p, m1) else do { m \<leftarrow> closeTable ?p m1; Some (None, statementError m) }) = Some (t, m')"
      using r None Some by (auto simp: cached_table_def Let_def split: Option.bind_splits)
    have "\<exists>c' < TABLE_CACHE_SIZE. if ok
      then \<exists>rc hp. m1 = ?m\<lparr>tableCachePtr := c', heap := hp, resourceCache := rc\<rparr> \<and> cache_holds rc hp \<and> (h, Some ?p) \<in> set rc \<and>
        (\<forall>p. hp p \<noteq> None \<longrightarrow> heap ?m p \<noteq> None) \<and> (\<forall>g q. (g, Some q) \<in> set (resourceCache ?m) \<longrightarrow> tableInUse q ?m \<longrightarrow> (g, Some q) \<in> set rc)
      else m1 = ?m\<lparr>tableCachePtr := c'\<rparr>"
      using none c(1,2) searchTableCache_spec(2) [OF None]
      by (intro insertTableCache_spec [OF _ _ _ _ i(1), of u]) (simp_all add: fun_upd_idem)
    then obtain c' where c': "c' < TABLE_CACHE_SIZE" "if ok
      then \<exists>rc hp. m1 = ?m\<lparr>tableCachePtr := c', heap := hp, resourceCache := rc\<rparr> \<and> cache_holds rc hp \<and> (h, Some ?p) \<in> set rc \<and>
        (\<forall>p. hp p \<noteq> None \<longrightarrow> heap ?m p \<noteq> None) \<and> (\<forall>g q. (g, Some q) \<in> set (resourceCache ?m) \<longrightarrow> tableInUse q ?m \<longrightarrow> (g, Some q) \<in> set rc)
      else m1 = ?m\<lparr>tableCachePtr := c'\<rparr>" by blast
    have use: "tableInUse q ?m = tableInUse q m" for q by (simp add: tableInUse_def)
    show ?thesis
    proof (cases ok)
      case True
      then obtain rc hp where m1: "m1 = ?m\<lparr>tableCachePtr := c', heap := hp, resourceCache := rc\<rparr>" "cache_holds rc hp" "(h, Some ?p) \<in> set rc"
        "\<forall>p. hp p \<noteq> None \<longrightarrow> heap ?m p \<noteq> None" "\<forall>g q. (g, Some q) \<in> set (resourceCache ?m) \<longrightarrow> tableInUse q ?m \<longrightarrow> (g, Some q) \<in> set rc"
        using c'(2) by auto
      have lt: "p < fresh m + 1" if "hp p \<noteq> None" for p using m1(4) [rule_format, OF that] c(3) [of p] by (cases "p = ?p") auto
      have "vm_ok (m\<lparr>heap := hp, fresh := fresh m + 1, tableCachePtr := c', resourceCache := rc\<rparr>)"
        using m1(5) unfolding use by (intro cache_change_ok [OF m m1(2) c'(1) lt]) simp_all
      moreover have "m1 = m\<lparr>heap := hp, fresh := fresh m + 1, tableCachePtr := c', resourceCache := rc\<rparr>" using m1(1) by simp
      ultimately show ?thesis using i(2) True m1(3) by auto
    next
      case False
      then have m1: "m1 = ?m\<lparr>tableCachePtr := c'\<rparr>" using c'(2) by simp
      then have e: "t = None" "m' = statementError (m\<lparr>heap := heap m, fresh := fresh m + 1, tableCachePtr := c', resourceCache := resourceCache m\<rparr>)"
        using i(2) False none by (auto simp: closeTable_def fun_upd_idem)
      have "vm_ok (m\<lparr>heap := heap m, fresh := fresh m + 1, tableCachePtr := c', resourceCache := resourceCache m\<rparr>)"
        using c(3) by (intro cache_change_ok [OF m c(1) c'(1)]) (auto intro: less_SucI)
      from stays_ok [OF this stays_errors(2)] show ?thesis using e by (simp add: statementError_def)
    qed
  qed
qed

lemma find_hash_in: "find_hash h ts = Some p \<Longrightarrow> (h, p) \<in> set ts"
  by (auto simp: find_hash_def find_Some_iff in_set_conv_nth)

lemma find_hash_None: "find_hash h ts = None \<Longrightarrow> (h, p) \<notin> set ts"
  by (auto simp: find_hash_def find_None_iff)

lemma core_tx [simp]: "core_ok (m\<lparr>tx_tables := ts\<rparr>) = core_ok m" "core_ok (m\<lparr>tx_active := b\<rparr>) = core_ok m"
  by (simp_all add: core_ok_def table_cache_ok_def scanners_ok_def scanner_ok_def)

lemma statement_table_ok:
  assumes m: "vm_ok m" and r: "statement_table x h s m = Some (t, m')"
  shows "vm_ok m' \<and> scanners m' = scanners m \<and> numScanners m' = numScanners m \<and> (\<forall>p. t = Some p \<longrightarrow> (h, Some p) \<in> set (resourceCache m'))"
proof (cases "findTxnTable h m")
  case (Some p)
  then have "(h, p) \<in> set (tx_tables m)" by (auto simp: findTxnTable_def split: if_splits dest: find_hash_in)
  then have "(h, Some p) \<in> set (resourceCache m)" using m by (auto simp: vm_ok_def tx_ok_def)
  then show ?thesis using m r Some by (auto simp: statement_table_def)
next
  case None
  then obtain t1 m1 where c: "cached_table x h s m = Some (t1, m1)"
    "(case t1 of None \<Rightarrow> Some (None, m1)
      | Some p \<Rightarrow> if tx_active m1 then (let (ok, m) = registerTxnTable h p m1 in Some (if ok then Some p else None, m)) else Some (Some p, m1)) = Some (t, m')"
    using r by (auto simp: statement_table_def split: Option.bind_splits)
  note k = cached_table_ok [OF m c(1)]
  show ?thesis
  proof (cases t1)
    case (Some p)
    show ?thesis
    proof (cases "tx_active m1 \<and> length (tx_tables m1) < MAX_TXN_TABLES")
      case True
      then have e: "t = Some p" "m' = m1\<lparr>tx_tables := tx_tables m1 @ [(h, p)]\<rparr>" using c(2) Some by (auto simp: registerTxnTable_def)
      have "core_ok m'" using k e(2) by (simp add: vm_ok_def)
      moreover have "tx_ok m'" using k Some True e(2) by (auto simp: vm_ok_def tx_ok_def)
      ultimately show ?thesis using k Some e by (simp add: vm_ok_def)
    next
      case False
      then have "m' = statementError m1 \<and> t = None \<or> m' = m1 \<and> t = Some p"
        using c(2) Some by (auto simp: registerTxnTable_def split: if_splits)
      then show ?thesis using k Some stays_ok [of m1, OF _ stays_errors(2)] by (auto simp: statementError_def)
    qed
  qed (use k c(2) in simp)
qed

lemma openScanner_ok:
  assumes m: "vm_ok m" and r: "openScanner x h pk m = Some m'"
  shows "vm_ok m'"
proof (cases "MAX_SCANNERS \<le> numScanners m")
  case True
  then have "m' = statementError m" using r by (auto simp: openScanner_def split: Option.bind_splits)
  then show ?thesis using stays_ok [OF m stays_errors(2)] by simp
next
  case False
  then obtain s t m1 where o: "statement_table x h s m = Some (t, m1)"
    and c: "(case t of None \<Rightarrow> Some m1 | Some p \<Rightarrow> do {
        u \<leftarrow> deref p m1;
        let m = store p (beginStatement u) m1;
        let i = numScanners m;
        Some (m\<lparr>numScanners := i + 1, scanners := (scanners m)[i := new_scanner p h pk]\<rparr>) }) = Some m'"
    using r by (auto simp: openScanner_def split: Option.bind_splits)
  note k = statement_table_ok [OF m o]
  show ?thesis
  proof (cases t)
    case (Some q)
    then obtain u where u: "deref q m1 = Some u" and
      m': "m' = (store q (beginStatement u) m1)\<lparr>numScanners := numScanners (store q (beginStatement u) m1) + 1,
         scanners := (scanners (store q (beginStatement u) m1))[numScanners (store q (beginStatement u) m1) := new_scanner q h pk]\<rparr>"
      using c by (auto simp: Let_def split: Option.bind_splits)
    let ?m = "store q (beginStatement u) m1"
    have ok: "vm_ok ?m" using stays_ok [OF conjunct1 [OF k] stays_store [OF u]] .
    have same: "scanners ?m = scanners m" "numScanners ?m = numScanners m" "resourceCache ?m = resourceCache m1" using k by (simp_all add: store_def)
    have lt: "numScanners ?m < MAX_SCANNERS" using False same by simp
    have "scanner_ok m' i" if "i < MAX_SCANNERS" for i
    proof (cases "i = numScanners ?m")
      case True
      then show ?thesis using m' lt ok k Some same by (auto simp: scanner_ok_def vm_ok_def core_ok_def scanners_ok_def new_scanner_def)
    next
      case False
      moreover have "scanner_ok ?m i" using ok that by (simp add: vm_ok_def core_ok_def scanners_ok_def)
      ultimately show ?thesis using m' by (auto simp: scanner_ok_def)
    qed
    then show ?thesis using m' ok lt by (simp add: vm_ok_def core_ok_def table_cache_ok_def scanners_ok_def tx_ok_def)
  qed (use k c in simp)
qed

lemma stays_fold_store: "\<forall>p \<in> set ps. heap m p \<noteq> None \<Longrightarrow> stays m (fold (\<lambda>(p, t). store p t) (zip ps ts) m)"
proof (induction ps arbitrary: ts m)
  case (Cons p ps)
  show ?case
  proof (cases ts)
    case (Cons t us)
    have s: "stays m (store p t m)" using Cons.prems by (auto intro: stays_store simp: deref_def)
    have "\<forall>q \<in> set ps. heap (store p t m) q \<noteq> None" using Cons.prems by (auto simp: store_def)
    from stays_trans [OF s Cons.IH [OF this]] show ?thesis using Cons by simp
  qed simp
qed simp

lemma deref_all_heap: "deref_all ps m = Some ts \<Longrightarrow> \<forall>p \<in> set ps. heap m p \<noteq> None"
  by (induction ps arbitrary: ts) (auto simp: deref_def split: Option.bind_splits)

lemma stays_disk: "stays m m1 \<Longrightarrow> stays m (m1\<lparr>wal := w, disk := fs, commits := n\<rparr>)"
  by (erule stays_trans) (simp add: stays_def)

lemma stays_commit_all: "commit_all x ps cs m = Some (res, m') \<Longrightarrow> stays m m'"
  unfolding commit_all_def
  by (auto split: Option.bind_splits prod.splits intro!: stays_disk stays_fold_store dest!: deref_all_heap)

text \<open>The scanner opened last is closed.\<close>

lemma drop_scanner_ok:
  assumes m: "vm_ok m" and n: "0 < numScanners m"
  shows "vm_ok ((m\<lparr>scanners := (scanners m)[numScanners m - 1 := closed s]\<rparr>)\<lparr>numScanners := numScanners m - 1\<rparr>)"
proof -
  have "scanner_ok ((m\<lparr>scanners := (scanners m)[numScanners m - 1 := closed s]\<rparr>)\<lparr>numScanners := numScanners m - 1\<rparr>) i"
    if "i < MAX_SCANNERS" for i
    using m n that by (cases "i = numScanners m - 1") (auto simp: vm_ok_def core_ok_def scanners_ok_def scanner_ok_def closed_def)
  then show ?thesis using m n by (auto simp: vm_ok_def core_ok_def table_cache_ok_def scanners_ok_def tx_ok_def)
qed

lemma top_ok: "vm_ok m \<Longrightarrow> top_scanner m = Some s \<Longrightarrow>
    0 < numScanners m \<and> s = scanners m ! (numScanners m - 1) \<and> sopen s \<and> (tblHash s, Some (tbl s)) \<in> set (resourceCache m)"
  by (auto simp: top_scanner_def idx_def vm_ok_def core_ok_def scanners_ok_def scanner_ok_def split: if_splits)

lemma open_ok: "vm_ok m \<Longrightarrow> i < numScanners m \<Longrightarrow>
    sopen (scanners m ! i) \<and> (tblHash (scanners m ! i), Some (tbl (scanners m ! i))) \<in> set (resourceCache m)"
  by (auto simp: vm_ok_def core_ok_def scanners_ok_def scanner_ok_def)

lemma open_in_use: "vm_ok m \<Longrightarrow> i < numScanners m \<Longrightarrow> tableInUse (tbl (scanners m ! i)) m"
proof -
  assume m: "vm_ok m" and i: "i < numScanners m"
  then have "i < length (scanners m)" by (simp add: vm_ok_def core_ok_def scanners_ok_def)
  then show ?thesis using open_ok [OF m i] unfolding tableInUse_def list_ex_iff by (metis nth_mem)
qed

lemma same_hash:
  assumes "cache_holds rc hp" "(h, Some p) \<in> set rc" "(h, Some q) \<in> set rc"
  shows "p = q"
proof -
  obtain i j where "i < length rc" "rc ! i = (h, Some p)" "j < length rc" "rc ! j = (h, Some q)" using assms(2,3) by (auto simp: in_set_conv_nth)
  then show ?thesis using cache_holdsD(3) [OF assms(1), of i j h p h q] cache_holdsD(1) [OF assms(1)] by auto
qed

lemma closeScanner_ok:
  assumes m: "vm_ok m" and r: "closeScanner x m = Some (ok, m')"
  shows "vm_ok m'"
proof -
  obtain s where s: "top_scanner m = Some s" using r by (auto simp: closeScanner_def split: Option.bind_splits)
  note top = top_ok [OF m s]
  let ?p = "tbl s"
  obtain t where t: "deref ?p m = Some t" using r s top by (auto simp: closeScanner_def Let_def split: Option.bind_splits)
  let ?m = "store ?p (endStatement t) m"
  obtain res m1 where c: "(if findTxnTable (tblHash s) ?m = None then commit_all x [?p] [] ?m else Some (Committed, ?m)) = Some (res, m1)"
    and e: "(if res = Exited then Some (None, m1)
       else do {
         let m = set_top (closed s) m1;
         let m = m\<lparr>numScanners := numScanners m - 1\<rparr>;
         m \<leftarrow> (if res \<noteq> Committed \<and> \<not> tableInUse ?p m then evictTableCache (tblHash s) m else Some m);
         Some (Some (res = Committed), m)
       }) = Some (ok, m')"
    using r s t conjunct1 [OF conjunct2 [OF conjunct2 [OF top]]] by (auto simp: closeScanner_def Let_def split: Option.bind_splits)
  have "stays ?m m1" using c by (auto split: if_splits intro: stays_commit_all)
  then have k: "stays m m1" by (rule stays_trans [OF stays_store [OF t]])
  have m1: "vm_ok m1" by (rule stays_ok [OF m k])
  have n1: "numScanners m1 = numScanners m" "resourceCache m1 = resourceCache m" "tx_active m1 = tx_active m" "tx_tables m1 = tx_tables m"
    using k by (simp_all add: stays_def)
  let ?m2 = "(m1\<lparr>scanners := (scanners m1)[numScanners m1 - 1 := closed s]\<rparr>)\<lparr>numScanners := numScanners m1 - 1\<rparr>"
  have ok2: "vm_ok ?m2" using drop_scanner_ok [OF m1] top n1(1) by simp
  show ?thesis
  proof (cases "res = Exited")
    case True
    then show ?thesis using e m1 by simp
  next
    case False
    have m2: "(if res \<noteq> Committed \<and> \<not> tableInUse ?p ?m2 then evictTableCache (tblHash s) ?m2 else Some ?m2) = Some m'"
      using e False by (auto simp: set_top_def split: Option.bind_splits)
    show ?thesis
    proof (cases "res \<noteq> Committed \<and> \<not> tableInUse ?p ?m2")
      case True
      have hold: "cache_holds (resourceCache ?m2) (heap ?m2)" using ok2 by (simp add: vm_ok_def core_ok_def table_cache_ok_def)
      have so: "(tblHash s, Some ?p) \<in> set (resourceCache m)" using top by blast
      then have p: "(tblHash s, Some ?p) \<in> set (resourceCache ?m2)" using n1(2) by simp
      have scans: "tblHash (scanners ?m2 ! i) \<noteq> tblHash s" if i: "i < numScanners ?m2" for i
      proof
        assume h: "tblHash (scanners ?m2 ! i) = tblHash s"
        have o: "sopen (scanners ?m2 ! i)" "(tblHash s, Some (tbl (scanners ?m2 ! i))) \<in> set (resourceCache ?m2)"
          using open_ok [OF ok2 i] unfolding h by blast+
        have "tbl (scanners ?m2 ! i) = ?p" by (rule same_hash [OF hold o(2) p])
        then have "tableInUse ?p ?m2" using open_in_use [OF ok2 i] by metis
        then show False using True by simp
      qed
      have "findTxnTable (tblHash s) m = None"
      proof (rule ccontr)
        assume "findTxnTable (tblHash s) m \<noteq> None"
        then have "res = Committed" using c by (simp add: findTxnTable_def store_def split: if_splits)
        then show False using True by simp
      qed
      then have "(tblHash s, q) \<notin> set (tx_tables m)" for q
        using m by (auto simp: findTxnTable_def vm_ok_def tx_ok_def split: if_splits dest: find_hash_None)
      then have "\<forall>(g, q) \<in> set (tx_tables ?m2). g \<noteq> tblHash s" using n1(4) by auto
      then show ?thesis using m2 True scans by (intro evict_ok [OF ok2]) auto
    qed (use m2 ok2 in auto)
  qed
qed

section \<open>Statements on the schema and the transaction\<close>

lemma op_open_scan_ok: "vm_ok m \<Longrightarrow> op_open_scan x m = Some m' \<Longrightarrow> vm_ok m'"
  unfolding op_open_scan_def
  by (auto simp: Let_def split: Option.bind_splits prod.splits val.splits
      intro: openScanner_ok [OF stays_ok [OF _ stays_trans [OF stays_pop stays_READ_BYTE]]])

lemma stays_getPkOrderingType: "getPkOrderingType s m = (k, m') \<Longrightarrow> stays m m'"
  by (auto simp: getPkOrderingType_def split: option.splits)

lemma op_create_table_ok:
  assumes m: "vm_ok m" "numScanners m = 0" and r: "op_create_table x m = Some (out, m')"
  shows "vm_ok m'"
proof -
  obtain v m1 where v: "READ_CONSTANT m = Some (v, m1)" using r by (auto simp: op_create_table_def split: Option.bind_splits)
  have k: "stays m m1" by (rule stays_READ_CONSTANT [OF v])
  have m1: "vm_ok m1" "numScanners m1 = 0" using stays_ok [OF m(1) k] k m(2) by (simp_all add: stays_def)
  have ev: "vm_ok m2" if "evictTableCache h m1 = Some m2" "\<not> tx_active m1" for h m2
    using that m1 by (intro evict_ok [OF m1(1) that(1)]) (auto simp: vm_ok_def tx_ok_def)
  have end_ok: "vm_ok (u\<lparr>wal := w, disk := fs, commits := n\<rparr>)" if "vm_ok u" for u w fs n
    by (rule stays_ok [OF that stays_disk]) simp
  show ?thesis
    using r v m1(1) unfolding op_create_table_def
    by (auto simp: Let_def split: Option.bind_splits prod.splits if_splits option.splits
        intro!: end_ok intro: stays_ok [OF _ stays_errors(2)] stays_ok [OF _ stays_getPkOrderingType] ev)
qed

lemma op_drop_table_ok:
  assumes m: "vm_ok m" "numScanners m = 0" and r: "op_drop_table x m = Some (out, m')"
  shows "vm_ok m'"
proof -
  obtain v m1 where v: "READ_CONSTANT m = Some (v, m1)" using r by (auto simp: op_drop_table_def split: Option.bind_splits)
  have k: "stays m m1" by (rule stays_READ_CONSTANT [OF v])
  have m1: "vm_ok m1" "numScanners m1 = 0" using stays_ok [OF m(1) k] k m(2) by (simp_all add: stays_def)
  have ev: "vm_ok (m2\<lparr>schemaCache := c\<rparr>)" if "evictTableCache h m1 = Some m2" "\<not> tx_active m1" for h m2 c
  proof -
    have "vm_ok m2" using that m1 by (intro evict_ok [OF m1(1) that(1)]) (auto simp: vm_ok_def tx_ok_def)
    then show ?thesis by (rule stays_ok) (simp add: stays_def)
  qed
  show ?thesis
    using r v m1(1) unfolding op_drop_table_def
    by (auto simp: Let_def split: Option.bind_splits prod.splits if_splits
        intro: stays_ok [OF _ stays_errors(2)] stays_ok [OF ev stays_commit_all])
qed

lemma evict_core_none: "core_ok m \<Longrightarrow> numScanners m = 0 \<Longrightarrow> evictTableCache h m = Some m' \<Longrightarrow> core_ok m' \<and> numScanners m' = 0"
proof -
  assume m: "core_ok m" "numScanners m = 0" "evictTableCache h m = Some m'"
  have "cache_holds (resourceCache m) (heap m)" using m(1) by (simp add: core_ok_def table_cache_ok_def)
  from evictTableCache_spec [OF m(3) this] obtain rc hp where "m' = m\<lparr>resourceCache := rc, heap := hp\<rparr>" by metis
  then show ?thesis using evict_core [OF m(1,3)] m(2) by simp
qed

lemma evict_all_core: "core_ok m \<Longrightarrow> numScanners m = 0 \<Longrightarrow> evict_all ts m = Some m' \<Longrightarrow> core_ok m' \<and> numScanners m' = 0"
  by (induction ts m rule: evict_all.induct) (auto split: Option.bind_splits dest: evict_core_none)

lemma discard_all_core: "core_ok m \<Longrightarrow> numScanners m = 0 \<Longrightarrow> discard_all ts m = Some m' \<Longrightarrow> core_ok m' \<and> numScanners m' = 0"
proof (induction ts m rule: discard_all.induct)
  case (2 h p ts m)
  obtain t m1 where t: "deref p m = Some t" "evictTableCache h (store p (discard t) m) = Some m1" "discard_all ts m1 = Some m'"
    using "2.prems"(3) by (auto split: Option.bind_splits)
  have "core_ok (store p (discard t) m)" "numScanners (store p (discard t) m) = 0"
    using stays_core [OF "2.prems"(1) stays_store [OF t(1)]] "2.prems"(2) by (simp_all add: store_def)
  from evict_core_none [OF this t(2)] show ?case using "2.IH" [OF t(1,2) _ _ t(3)] by simp
qed simp

lemma end_transaction_ok: "core_ok m \<Longrightarrow> vm_ok (end_transaction m)"
  by (simp add: vm_ok_def end_transaction_def tx_ok_def core_ok_def table_cache_ok_def scanners_ok_def scanner_ok_def)

lemma op_commit_ok:
  assumes m: "vm_ok m" "numScanners m = 0" and r: "op_commit x m = Some (out, m')"
  shows "vm_ok m'"
proof (cases "tx_active m")
  case False
  then show ?thesis using r m(1) by (auto simp: op_commit_def intro: stays_ok [OF _ stays_errors(2)])
next
  case True
  then obtain res m1 where c: "commit_all x (map snd (tx_tables m)) [] m = Some (res, m1)" using r by (auto simp: op_commit_def split: Option.bind_splits)
  have k: "stays m m1" by (rule stays_commit_all [OF c])
  have m1: "vm_ok m1" "numScanners m1 = 0" using stays_ok [OF m(1) k] k m(2) by (simp_all add: stays_def)
  then have "core_ok m1" by (simp add: vm_ok_def)
  from evict_all_core [OF this m1(2)] this show ?thesis using r True c m1(1)
    by (auto simp: op_commit_def split: Option.bind_splits if_splits intro: end_transaction_ok)
qed

lemma op_discard_ok: "vm_ok m \<Longrightarrow> numScanners m = 0 \<Longrightarrow> op_discard m = Some m' \<Longrightarrow> vm_ok m'"
  using discard_all_core [of m "tx_tables m"]
  by (auto simp: op_discard_def vm_ok_def [of m] split: Option.bind_splits if_splits intro: end_transaction_ok stays_ok [OF _ stays_errors(2)])

lemma op_begin_transaction_ok: "vm_ok m \<Longrightarrow> vm_ok (op_begin_transaction m)"
  using stays_ok [OF _ stays_errors(2), of m]
  by (auto simp: op_begin_transaction_def vm_ok_def tx_ok_def core_ok_def table_cache_ok_def scanners_ok_def scanner_ok_def)

section \<open>The rollback of a statement\<close>

text \<open>What is left once the scanners from \<open>i\<close> on have let go of their tables.\<close>

definition let_go :: "nat \<Rightarrow> vm \<Rightarrow> bool" where
  "let_go i m \<longleftrightarrow> i \<le> MAX_SCANNERS \<and> vm_ok (m\<lparr>numScanners := i\<rparr>)"

lemma findTxnTable_same [simp]: "findTxnTable h (m\<lparr>resourceCache := rc, heap := hp\<rparr>) = findTxnTable h m"
  "findTxnTable h (m\<lparr>numScanners := n\<rparr>) = findTxnTable h m"
  by (simp_all add: findTxnTable_def)

lemma abort_scanners_ok:
  assumes "abort_scanners i closing m = Some (closing', m')" "let_go i m" "\<forall>h \<in> set closing. findTxnTable h m = None"
  shows "let_go 0 m' \<and> (\<forall>h \<in> set closing'. findTxnTable h m' = None)"
  using assms
proof (induction i arbitrary: closing m)
  case (Suc i)
  let ?m = "m\<lparr>numScanners := Suc i\<rparr>" and ?s = "scanners m ! i"
  have ok: "vm_ok ?m" "i < MAX_SCANNERS" "length (scanners m) = MAX_SCANNERS"
    using Suc.prems(2) by (simp_all add: let_go_def vm_ok_def core_ok_def scanners_ok_def)
  have open_s: "sopen ?s" using open_ok [OF ok(1), of i] by simp
  obtain t u where t: "deref (tbl ?s) m = Some t" "rollbackStatement t = Some u"
    and r: "abort_scanners i (if findTxnTable (tblHash ?s) m = None then closing @ [tblHash ?s] else closing)
      ((store (tbl ?s) (if findTxnTable (tblHash ?s) m = None then discard u else u) m)\<lparr>scanners := (scanners m)[i := ?s\<lparr>spage := zero_page, tbl := 0, sopen := False\<rparr>]\<rparr>)
      = Some (closing', m')"
    using Suc.prems(1) open_s ok(2,3) by (auto simp: idx_def Let_def store_def split: Option.bind_splits)
  let ?n = "store (tbl ?s) (if findTxnTable (tblHash ?s) m = None then discard u else u) m"
  let ?o = "?n\<lparr>scanners := (scanners m)[i := ?s\<lparr>spage := zero_page, tbl := 0, sopen := False\<rparr>]\<rparr>"
  have n: "?n\<lparr>numScanners := Suc i\<rparr> = store (tbl ?s) (if findTxnTable (tblHash ?s) m = None then discard u else u) ?m" by (simp add: store_def)
  have nok: "vm_ok (?n\<lparr>numScanners := Suc i\<rparr>)" unfolding n by (rule stays_ok [OF ok(1) stays_store]) (use t(1) in \<open>simp add: deref_def\<close>)
  have "scanner_ok (?o\<lparr>numScanners := i\<rparr>) j" if j: "j < MAX_SCANNERS" for j
  proof (cases "j = i")
    case True
    then show ?thesis using ok(2,3) by (simp add: scanner_ok_def)
  next
    case False
    have "scanner_ok (?n\<lparr>numScanners := Suc i\<rparr>) j" using nok j by (simp add: vm_ok_def core_ok_def scanners_ok_def)
    then show ?thesis using False by (auto simp: scanner_ok_def store_def split: if_splits)
  qed
  then have "vm_ok (?o\<lparr>numScanners := i\<rparr>)" using nok ok(2,3)
    by (simp add: vm_ok_def core_ok_def table_cache_ok_def scanners_ok_def tx_ok_def store_def)
  then have go: "let_go i ?o" using ok(2) by (simp add: let_go_def)
  have tx: "findTxnTable h ?o = findTxnTable h m" for h by (simp add: findTxnTable_def store_def)
  have "\<forall>h \<in> set (if findTxnTable (tblHash ?s) m = None then closing @ [tblHash ?s] else closing). findTxnTable h ?o = None"
    using Suc.prems(3) unfolding tx by (simp split: if_split)
  from Suc.IH [OF r go this] show ?case .
qed simp

lemma evict_closing_ok:
  "foldo evictTableCache hs m = Some m' \<Longrightarrow> vm_ok m \<Longrightarrow> numScanners m = 0 \<Longrightarrow> \<forall>h \<in> set hs. findTxnTable h m = None \<Longrightarrow> vm_ok m' \<and> numScanners m' = 0"
proof (induction hs arbitrary: m)
  case (Cons h hs)
  obtain m1 where m1: "evictTableCache h m = Some m1" "foldo evictTableCache hs m1 = Some m'"
    using Cons.prems(1) by (auto split: Option.bind_splits)
  have "cache_holds (resourceCache m) (heap m)" using Cons.prems(2) by (simp add: vm_ok_def core_ok_def table_cache_ok_def)
  from evictTableCache_spec [OF m1(1) this] obtain rc hp where e: "m1 = m\<lparr>resourceCache := rc, heap := hp\<rparr>" by metis
  have "findTxnTable h m = None" using Cons.prems(4) by simp
  then have "\<forall>(g, p) \<in> set (tx_tables m). g \<noteq> h"
    using Cons.prems(2) by (auto simp: findTxnTable_def vm_ok_def tx_ok_def split: if_splits dest: find_hash_None)
  then have "vm_ok m1" using Cons.prems(3) by (intro evict_ok [OF Cons.prems(2) m1(1)]) simp_all
  then show ?case using Cons.IH [OF m1(2)] Cons.prems(3,4) unfolding e by simp
qed simp

lemma abortStatement_ok:
  assumes m: "vm_ok m" and r: "abortStatement m = Some m'"
  shows "vm_ok m' \<and> numScanners m' = 0"
proof -
  obtain closing m1 where a: "abort_scanners (numScanners m) [] m = Some (closing, m1)" "foldo evictTableCache closing (m1\<lparr>numScanners := 0\<rparr>) = Some m'"
    using r by (auto simp: abortStatement_def split: Option.bind_splits)
  have "let_go (numScanners m) m" using m by (simp add: let_go_def vm_ok_def core_ok_def scanners_ok_def)
  from abort_scanners_ok [OF a(1) this]
  have "vm_ok (m1\<lparr>numScanners := 0\<rparr>)" "\<forall>h \<in> set closing. findTxnTable h (m1\<lparr>numScanners := 0\<rparr>) = None"
    by (simp_all add: let_go_def)
  then show ?thesis using evict_closing_ok [OF a(2)] by simp
qed

section \<open>Every instruction\<close>

text \<open>The statements on the schema and on the transaction's end are run with no scanner open.\<close>

definition needs_no_scanner :: "byte \<Rightarrow> bool" where
  "needs_no_scanner op \<longleftrightarrow> op = OP_CREATE_TABLE \<or> op = OP_DROP_TABLE \<or> op = OP_COMMIT \<or> op = OP_DISCARD"

lemma execute_ok:
  assumes m: "vm_ok m" and o: "needs_no_scanner op \<Longrightarrow> numScanners m = 0" and r: "execute x op m = Some (out, m')"
  shows "vm_ok m'"
proof -
  have go: "vm_ok m'" if "map_option (Pair Continue) r = Some (out, m')" "\<And>m'. r = Some m' \<Longrightarrow> vm_ok m'" for r using that by auto
  have kp: "vm_ok m'" if "map_option (Pair Continue) r = Some (out, m')" "\<And>m'. r = Some m' \<Longrightarrow> stays m m'" for r
    using go [OF that(1)] stays_ok [OF m that(2)] by blast
  have close: "vm_ok m'" if "do { (ok, m) \<leftarrow> closeScanner x m; Some (case ok of None \<Rightarrow> ProcessExit | Some ok \<Rightarrow> if ok then Continue else Finish INTERPRET_RUNTIME_ERROR, m) } = Some (out, m')"
    using that by (auto split: Option.bind_splits intro: closeScanner_ok [OF m])
  show ?thesis
    using r o unfolding execute_def Let_def needs_no_scanner_def
    by (simp only: split: if_split_asm)
      (auto intro: kp stays_value_op stays_op_next stays_op_key_search stays_op_rewind stays_op_emit_row stays_op_insert_row
        stays_op_update_col stays_op_delete_row stays_ok [OF m] op_open_scan_ok [OF m] close op_create_table_ok [OF m] op_drop_table_ok [OF m]
        op_begin_transaction_ok [OF m] op_commit_ok [OF m] op_discard_ok [OF m])
qed

lemma start_vm_ok: "vm_ok (start_vm fs w)"
  by (auto simp: vm_ok_def core_ok_def table_cache_ok_def cache_holds_def scanners_ok_def scanner_ok_def tx_ok_def start_vm_def start_scanner_def TABLE_CACHE_SIZE_def)

text \<open>What a machine does from a state on: instructions, the rollback of a statement, the results dropped, and the next statement's
  code once no scanner is open. The system calls may answer otherwise each time.\<close>

inductive lives :: "vm \<Rightarrow> vm \<Rightarrow> bool" for m0 where
  lives_start: "lives m0 m0"
| lives_step: "lives m0 m \<Longrightarrow> step x m = Some (out, m') \<Longrightarrow>
    (\<And>op n. READ_BYTE m = Some (op, n) \<Longrightarrow> needs_no_scanner op \<Longrightarrow> numScanners m = 0) \<Longrightarrow> lives m0 m'"
| lives_abort: "lives m0 m \<Longrightarrow> abortStatement m = Some m' \<Longrightarrow> lives m0 m'"
| lives_free: "lives m0 m \<Longrightarrow> numScanners m = 0 \<Longrightarrow> freeVM x m = Some (freed, m') \<Longrightarrow> lives m0 m'"
| lives_statement: "lives m0 m \<Longrightarrow> numScanners m = 0 \<Longrightarrow> lives m0 ((initVM ht m)\<lparr>schemaCache := loaded, vchunk := c, ip := 0\<rparr>)"

lemma step_ok:
  assumes m: "vm_ok m" and r: "step x m = Some (out, m')"
    and o: "\<And>op n. READ_BYTE m = Some (op, n) \<Longrightarrow> needs_no_scanner op \<Longrightarrow> numScanners m = 0"
  shows "vm_ok m'"
proof (cases "failed m")
  case False
  then obtain op n where n: "READ_BYTE m = Some (op, n)" "execute x op n = Some (out, m')" using r by (auto simp: step_def split: Option.bind_splits)
  have k: "stays m n" by (rule stays_READ_BYTE [OF n(1)])
  then have "numScanners n = 0" if "needs_no_scanner op" using o [OF n(1) that] by (simp add: stays_def)
  then show ?thesis by (rule execute_ok [OF stays_ok [OF m k] _ n(2)])
qed (use r m in \<open>simp add: step_def\<close>)

lemma free_scanners_closed: "\<forall>s \<in> set (scanners m). \<not> sopen s \<Longrightarrow> free_scanners x is m = Some (ok, m') \<Longrightarrow> m' = m \<and> ok"
  by (induction x "is" m rule: free_scanners.induct) (auto simp: idx_def split: if_splits Option.bind_splits)

lemma no_scanner_open: "vm_ok m \<Longrightarrow> numScanners m = 0 \<Longrightarrow> \<forall>s \<in> set (scanners m). \<not> sopen s"
  by (auto simp: in_set_conv_nth vm_ok_def core_ok_def scanners_ok_def scanner_ok_def)

lemma freeVM_ok: "vm_ok m \<Longrightarrow> numScanners m = 0 \<Longrightarrow> freeVM x m = Some (ok, m') \<Longrightarrow> vm_ok m'"
proof -
  assume m: "vm_ok m" "numScanners m = 0" and r: "freeVM x m = Some (ok, m')"
  have "m' = m\<lparr>rows := [], cols := 0\<rparr>"
    using r by (auto simp: freeVM_def split: Option.bind_splits dest!: free_scanners_closed [OF no_scanner_open [OF m]])
  then show ?thesis using stays_ok [OF m(1) stays_rows [OF stays_refl]] by simp
qed

lemma statement_ok:
  assumes m: "vm_ok m" "numScanners m = 0"
  shows "vm_ok ((initVM ht m)\<lparr>schemaCache := loaded, vchunk := c, ip := 0\<rparr>)"
proof (rule stays_ok [OF m(1)])
  have "map (borrows \<circ> (\<lambda>s. s\<lparr>sopen := False, tbl := 0\<rparr>)) (scanners m) = map borrows (scanners m)"
    using no_scanner_open [OF m] by (simp add: borrows_def)
  then show "stays m ((initVM ht m)\<lparr>schemaCache := loaded, vchunk := c, ip := 0\<rparr>)" by (simp add: stays_def initVM_def)
qed

lemma lives_ok: "lives m0 m \<Longrightarrow> vm_ok m0 \<Longrightarrow> vm_ok m"
  by (induction rule: lives.induct) (auto intro: step_ok freeVM_ok statement_ok dest: abortStatement_ok)

text \<open>C7: A closed table is never used. A process starts in a well-formed state, and from such a state on, whatever the
  statements, the system calls and the rollbacks, every open scanner and every table of the transaction stands for a table
  that exists, although the cache closes tables to make room, when a commit fails and when a statement is rolled back; and no
  table is lost: each that exists is held by the cache. It rests on the generator opening no scanner in the code of
  \<open>CREATE\<close>, \<open>DROP\<close>, \<open>COMMIT\<close> and \<open>DISCARD\<close>, which evict tables without asking who uses them.\<close>

theorem tables_in_use_exist:
  assumes "vm_ok m0" "lives m0 m"
  shows "vm_ok (start_vm fs w) \<and>
    (\<forall>i < numScanners m. sopen (scanners m ! i) \<and> deref (tbl (scanners m ! i)) m \<noteq> None) \<and>
    (\<forall>(h, p) \<in> set (tx_tables m). deref p m \<noteq> None) \<and>
    (\<forall>p. deref p m \<noteq> None \<longleftrightarrow> (\<exists>h. (h, Some p) \<in> set (resourceCache m)))"
proof -
  have m: "vm_ok m" by (rule lives_ok [OF assms(2,1)])
  then have h: "cache_holds (resourceCache m) (heap m)" by (simp add: vm_ok_def core_ok_def table_cache_ok_def)
  have held: "deref p m \<noteq> None \<longleftrightarrow> (\<exists>h. (h, Some p) \<in> set (resourceCache m))" for p
    unfolding deref_def cache_holdsD(2) [OF h] by (metis cache_holdsD(1) [OF h] in_set_conv_nth)
  have "deref p m \<noteq> None" if "(h, p) \<in> set (tx_tables m)" for h p
    using m that held by (auto simp: vm_ok_def tx_ok_def)
  then show ?thesis using start_vm_ok open_ok [OF m] held by blast
qed

text \<open>A scan is opened on a table in the cache.\<close>

definition ex_scan :: "wal_manager \<Rightarrow> table \<Rightarrow> vm" where
  "ex_scan w t = (start_vm Map.empty w)\<lparr>vchunk := initChunk\<lparr>code := [OP_OPEN_SCAN, 0]\<rparr>, stack := [VU32 7],
     schemaCache := Some \<lparr>hcount = 1, hcapacity = 1, hentries = [no_schema\<lparr>shash := 7\<rparr>]\<rparr>,
     resourceCache := (7, Some 1) # replicate (TABLE_CACHE_SIZE - 1) (0, None), heap := [1 \<mapsto> t], fresh := 2\<rparr>"

lemma ex_scan_ok: "vm_ok (ex_scan w t)"
proof -
  have "cache_holds ((7, Some 1) # replicate (TABLE_CACHE_SIZE - 1) (0, None)) [1 \<mapsto> t]"
    by (auto simp: cache_holds_def TABLE_CACHE_SIZE_def nth_Cons')
  then show ?thesis
    by (simp add: ex_scan_def vm_ok_def core_ok_def table_cache_ok_def scanners_ok_def scanner_ok_def tx_ok_def start_vm_def start_scanner_def
        TABLE_CACHE_SIZE_def STACK_MAX_def)
qed

lemma ex_scan_step: "\<exists>m. step x (ex_scan w t) = Some (Continue, m) \<and> numScanners m = 1 \<and> tx_tables m = []"
proof -
  have find: "findEntry 7 [no_schema\<lparr>shash := 7\<rparr>] 1 = Some 0" by (simp add: findEntry_def findEntry_from.simps)
  have "readHT 7 \<lparr>hcount = 1, hcapacity = 1, hentries = [no_schema\<lparr>shash := 7\<rparr>]\<rparr> = Some (Some (no_schema\<lparr>shash := 7\<rparr>))"
    using find by (simp add: readHT_def)
  then show ?thesis
    by (simp add: step_def ex_scan_def start_vm_def READ_BYTE_def is_value_op_def idx_def execute_def op_open_scan_def pop_def openScanner_def statement_table_def
        findTxnTable_def cached_table_def searchTableCache_def deref_def store_def MAX_SCANNERS_def Let_def)
qed

theorem tables_in_use_exist_witness:
  "\<forall>x w t. \<exists>m. step x (ex_scan w t) = Some (Continue, m) \<and> sopen (scanners m ! 0) \<and> deref (tbl (scanners m ! 0)) m \<noteq> None"
proof (intro allI)
  fix x w t
  obtain m where m: "step x (ex_scan w t) = Some (Continue, m)" "numScanners m = 1" "tx_tables m = []" using ex_scan_step by blast
  have "\<not> needs_no_scanner op" if "READ_BYTE (ex_scan w t) = Some (op, n)" for op n
    using that by (auto simp: READ_BYTE_def ex_scan_def start_vm_def idx_def needs_no_scanner_def)
  then have "lives (ex_scan w t) m" using lives_step [OF lives_start m(1)] by blast
  from tables_in_use_exist [OF ex_scan_ok this] m
  show "\<exists>m. step x (ex_scan w t) = Some (Continue, m) \<and> sopen (scanners m ! 0) \<and> deref (tbl (scanners m ! 0)) m \<noteq> None" by auto
qed

end
