(* ===== verification/Spec2Isabelle.thy ===== *)
theory Spec2Isabelle
  imports Bytes Ordering SlottedPage AddrTable NodeCache Recovery TreeOps Lexing Grammar Schema Script Compile VmInv
begin

text \<open>
  StripeSQL is a small SQL database in C: a REPL (\<open>main.c\<close>) splits the input into statements; a lexer, a parser
  and a code generator (\<open>SQL_interpreter/\<close>) turn each into bytecode that a virtual machine runs against B+ tree
  tables; the storage engine (\<open>storage_engine/\<close>) keeps each table in a file of slotted pages and nodes, holds a
  transaction's changes in memory, and commits them through a write-ahead log. This development models that code
  function by function and proves what its parts promise.

  The theories, from the bottom up:

  \<^item> \<open>Prelude\<close>: the integer types of the program, lists as arrays, the named theorem collections.
  \<^item> \<open>Bytes\<close>: the big-endian encoders and decoders of \<open>file.c\<close>.
  \<^item> \<open>Ordering\<close>: \<open>value.h\<close> and \<open>ordering.c\<close>, keys and their comparison.
  \<^item> \<open>Search\<close>: binary search over a sorted slot array.
  \<^item> \<open>SlottedPage\<close>: \<open>page.c\<close>. A page refines a sorted list of records (\<open>ins_rec\<close>, \<open>del_rec\<close>, \<open>upd_rec\<close>).
  \<^item> \<open>Probing\<close>: linear probing and backward-shift deletion as a locale (\<open>linear_probing\<close>), proved once.
  \<^item> \<open>AddrTable\<close>: the address tables of \<open>tableIO.c\<close>, interpreted in that locale; they refine finite maps.
  \<^item> \<open>Node\<close>, \<open>NodeCache\<close>: \<open>node.h\<close> and \<open>cache.c\<close>, the same locale again, and the coherence of the cache.
  \<^item> \<open>Crc\<close>, \<open>Files\<close>, \<open>Wal\<close>, \<open>Recovery\<close>: \<open>wal.c\<close>. \<open>Files\<close> is the file system the log and recovery act on, every
    system call's result an argument of the operation that makes it (the records \<open>start_calls\<close> and \<open>recover_calls\<close> name them), and
    a failure the code ignores is ignored. \<open>Recovery\<close> proves that a commit is atomic, through any number of recoveries that fail
    on the way, and shows the three failures that recovery does not see.
  \<^item> \<open>Tables\<close>: the table struct of \<open>tableIO.h\<close>, its header in the file and the stripes pages and nodes are allocated from.
  \<^item> \<open>Codec\<close>, \<open>NodeCodec\<close>: how \<open>tableIO.c\<close> writes pages and nodes to the file and reads them back.
  \<^item> \<open>Pending\<close>: the pending changes of a transaction in \<open>tableIO.c\<close>: reading through them, marking, statement rollback.
    What is marked is what is read, and a rolled-back statement leaves no trace.
  \<^item> \<open>Commit\<close>, \<open>CommitSpec\<close>, \<open>CommitReads\<close>: \<open>commitTables\<close>. For any results of the system calls, the seeks excepted whose
    failure the code ignores, the files are as before or as committed once recovery has run; with no failing call the commit
    succeeds; it does not change what is read.
  \<^item> \<open>BPlus\<close>: the B+ tree of \<open>bplus.c\<close> on that state, all of it; the bound on the depth of a recursion is an argument.
  \<^item> \<open>Tree\<close>, \<open>TreeOps\<close>: the invariant of the tree and the map it holds, new trees and lookups.
  \<^item> \<open>Token\<close>, \<open>Lexer\<close>, \<open>Lexing\<close>: \<open>lexer.c\<close>, its termination, the keyword table and the round trip from printed tokens.
  \<^item> \<open>Parser\<close>, \<open>Parsing\<close>, \<open>Grammar\<close>: \<open>parser.c\<close> with fuel; \<open>Parsing\<close> shows that the fuel of \<open>compile\<close> (twelve units for
    each token) is never used up and no token is read behind the last; \<open>Grammar\<close> that expressions are parsed exactly
    by a grammar with the levels of the one in the header of \<open>parser.c\<close>, and where the two differ.

  \<^item> \<open>Schema\<close>: \<open>schema.c\<close>, the hash table of schemas and its file. Lookups and insertions are those of a finite map; a deletion loses
    exactly its entry from the array but can hide others from lookups until the file is read back, as it is after a table is dropped.
  \<^item> \<open>Double\<close>, \<open>Chunk\<close>, \<open>Generator\<close>: the arithmetic of doubles on their bits, \<open>chunk.c\<close>, and \<open>generator.c\<close> from trees to bytecode.
  \<^item> \<open>Vm\<close>, \<open>VmRun\<close>: \<open>vm.c\<close> and \<open>scanner.h\<close>. \<open>Vm\<close> has the state and the instructions on values; \<open>VmRun\<close> the table cache, scanners,
    the instructions on tables, transactions, the rollback of a failed statement, a query from its text, and the loops of \<open>main.c\<close>.
  \<^item> \<open>Compile\<close>: the generator and the machine together. Generated code computes the expression it was generated for;
    conditions on the primary key are the exception, of which the search by key uses a part.
  \<^item> \<open>VmInv\<close>: the type invariant of the machine. Every instruction and the rollback of a statement keep it; no scanner and no
    transaction ever uses a table the cache has closed, and no open table is lost.
  \<^item> \<open>Script\<close>: how \<open>main.c\<close> cuts a file into statements. Strings and comments do not cut a statement.

  How the parts meet: \<open>interpret_query\<close> (\<open>VmRun\<close>) takes the text of a statement through \<open>lexQuery\<close>, \<open>compile\<close>, \<open>generate\<close> and
  \<open>run\<close>; the machine reads and changes tables with the operations of \<open>BPlus\<close> on the pending changes of \<open>Pending\<close>, ends a
  statement with \<open>commitTables\<close> or keeps its changes for the transaction, and undoes a failed one with \<open>rollbackStatement\<close>.

  System calls. Each is an argument of the operation that makes it: whether it succeeded or, for a write, how many bytes
  were written. For the log and the commit that includes the seeks and reads whose failure the code ignores. A seek that fails leaves
  the position of the file as it was; one to an address from \<open>2 ^ 63\<close> on, negative as a \<open>long\<close>, always fails. In \<open>createTable\<close>,
  which only tests and low-level code call, the write of the header succeeds.

  Conventions. A C pointer or index that would leave its array is \<open>None\<close> or excluded by the invariant of the type.
  Lengths and counts that are an \<open>int\<close> in the lexer and in \<open>main.c\<close> are naturals, which is exact for sources below \<open>2 ^ 30\<close> bytes.
  \<open>uint32_t\<close> counters are naturals reduced modulo \<open>2 ^ 32\<close> where the code could wrap, or words. Freeing memory and
  printing messages are left out. A loop over an open-addressed table has the table's capacity as its bound, and
  the lemmas show that it stops before it is exhausted.

  Bounds. The depth of the recursions in the tree and the number of leaves a scanner passes are bounded by an argument
  (\<open>depth\<close> of an \<open>env\<close>); the parser has twelve units of fuel for each token, which are enough. The run of a chunk is a
  \<open>partial_function\<close>: a program that loops has no result.

  Not modelled. \<open>testing.c\<close>, \<open>run_tests.c\<close>, \<open>test_heap.h\<close> (test drivers) and \<open>debug.c\<close> (printers); what is printed, the timer
  and the terminal; freeing memory and running out of it; the system calls behind \<open>file.c\<close>, whose results are arguments;
  \<open>movePage\<close>, \<open>moveNode\<close> and the garbage collection, which the code does not finish or call, and \<open>max\<close> of \<open>bplus.c\<close>, which
  nothing calls.

  Findings are the properties that show a divergence: \<open>failed_directory_sync_forgotten\<close>, \<open>trailing_tokens_ignored\<close>,
  \<open>damaged_header_accepted\<close>, \<open>where_condition_dropped\<close>; and the theorems \<open>deleted_schema_hides\<close>, \<open>hash_can_be_zero\<close>,
  \<open>backslash_hides_semicolon\<close>, \<open>header_grammar_differs\<close>, \<open>failed_seek_committed\<close>, \<open>unopened_log_ignored\<close>,
  \<open>unread_marker_discards\<close> and \<open>unread_entry_skipped\<close>.
\<close>

end
